(* ===== verification/Prelude.thy ===== *)
theory Prelude
  imports Main "HOL-Library.Monad_Syntax" "HOL-Library.Multiset"
begin

text \<open>
  Shared vocabulary of the development: a run that may stop at a failed \<open>assert\<close>,
  \<open>GGML_ASSERT\<close>, exception or undefined operation is a value of type \<open>'a option\<close>
  (\<open>None\<close> is the stop), loops over an index range are \<open>foldM\<close>, the C++ \<open>int32_t\<close>
  operations are written over \<open>int\<close> with their range check, and C++ integer division
  truncates towards zero.
\<close>

named_theorems run_simps \<open>evaluation of runs that may stop\<close>
named_theorems upd_simps \<open>reading a list after an update\<close>

section \<open>Runs that may stop\<close>

definition assert_that :: "bool \<Rightarrow> unit option" where
  "assert_that b = (if b then Some () else None)"

lemma assert_that_simps [simp, run_simps]:
  "assert_that True = Some ()" "assert_that False = None"
  by (simp_all add: assert_that_def)

lemma assert_that_bind [simp, run_simps]:
  "Option.bind (assert_that b) f = (if b then f () else None)"
  by (simp add: assert_that_def)

lemma assert_that_eq_Some [simp, run_simps]: "assert_that b = Some u \<longleftrightarrow> b"
  by (simp add: assert_that_def)

fun foldM :: "('a \<Rightarrow> 's \<Rightarrow> 's option) \<Rightarrow> 'a list \<Rightarrow> 's \<Rightarrow> 's option" where
  "foldM f [] s = Some s"
| "foldM f (x # xs) s = Option.bind (f x s) (foldM f xs)"

lemma foldM_append: "foldM f (xs @ ys) s = Option.bind (foldM f xs s) (foldM f ys)"
  by (induction xs arbitrary: s) (auto simp: Option.bind_assoc intro: bind_option_cong)

lemma foldM_cong: "(\<And>x s. x \<in> set xs \<Longrightarrow> f x s = g x s) \<Longrightarrow> foldM f xs s = foldM g xs s"
  by (induction xs arbitrary: s) (auto intro!: bind_option_cong)

text \<open>A loop invariant that also records how many elements have been handled.\<close>

lemma foldM_rule:
  assumes "P [] s"
    and "\<And>done x rest s. xs = done @ x # rest \<Longrightarrow> P done s \<Longrightarrow> \<exists>s'. f x s = Some s' \<and> P (done @ [x]) s'"
  shows "\<exists>s'. foldM f xs s = Some s' \<and> P xs s'"
proof -
  have "ys @ zs = xs \<Longrightarrow> P ys s \<Longrightarrow> \<exists>s'. foldM f zs s = Some s' \<and> P xs s'" for ys zs s
  proof (induction zs arbitrary: ys s)
    case Nil
    then show ?case by simp
  next
    case (Cons z zs)
    from Cons.prems assms(2) [of ys z zs s] obtain s' where "f z s = Some s'" "P (ys @ [z]) s'"
      by auto
    then show ?case using Cons.IH [of "ys @ [z]" s'] Cons.prems by simp
  qed
  from this [of "[]" xs] assms(1) show ?thesis by simp
qed

text \<open>The same for a loop known to finish: what every completed iteration keeps holds at the end.\<close>

lemma foldM_partial:
  assumes "foldM f xs s = Some t" and "P [] s"
    and "\<And>done x rest s s'. xs = done @ x # rest \<Longrightarrow> P done s \<Longrightarrow> f x s = Some s' \<Longrightarrow> P (done @ [x]) s'"
  shows "P xs t"
proof -
  have "ys @ zs = xs \<Longrightarrow> P ys s \<Longrightarrow> foldM f zs s = Some t \<Longrightarrow> P xs t" for ys zs s
  proof (induction zs arbitrary: ys s)
    case Nil
    then show ?case by simp
  next
    case (Cons z zs)
    from Cons.prems(3) obtain s' where s': "f z s = Some s'" "foldM f zs s' = Some t"
      by (auto simp: Option.bind_eq_Some_conv)
    then show ?case using Cons.IH [of "ys @ [z]" s'] Cons.prems assms(3) [of ys z zs s s'] by simp
  qed
  from this [of "[]" xs] assms(1,2) show ?thesis by simp
qed

text \<open>Where a loop over an index range stands.\<close>

lemma upt_split:
  assumes "[0..<n] = done @ i # rest"
  shows "i = length done" "i < n"
proof -
  have "[0..<n] ! length done = i" using assms by (metis nth_append_length)
  moreover have "length done < n" using arg_cong [OF assms, of length] by simp
  ultimately show "i = length done" "i < n" by simp_all
qed

text \<open>Loops that append, and loops that only accumulate.\<close>

lemma foldM_snoc:
  "(\<And>x. x \<in> set xs \<Longrightarrow> f x = Some (g x)) \<Longrightarrow>
    foldM (\<lambda>x acc. Option.bind (f x) (\<lambda>v. Some (acc @ [v]))) xs acc = Some (acc @ map g xs)"
  by (induction xs arbitrary: acc) auto

lemma foldM_pure: "(\<And>x s. x \<in> set xs \<Longrightarrow> f x s = Some (g x s)) \<Longrightarrow> foldM f xs s = Some (fold g xs s)"
  by (induction xs arbitrary: s) auto

text \<open>A loop whose step \<open>i\<close> rewrites entry \<open>i\<close> of a list, each entry once.\<close>

lemma foldM_pointwise:
  assumes "length xs = n" and "\<And>i. i < n \<Longrightarrow> \<exists>m. f i (xs ! i) = Some m \<and> Q i m"
  shows "\<exists>ys. foldM (\<lambda>i xs. Option.bind (f i (xs ! i)) (\<lambda>m. Some (xs[i := m]))) [0..<n] xs = Some ys \<and>
    length ys = n \<and> (\<forall>i<n. Q i (ys ! i))"
proof -
  let ?step = "\<lambda>i xs. Option.bind (f i (xs ! i)) (\<lambda>m. Some (xs[i := m]))"
  have "k \<le> n \<Longrightarrow> \<exists>ys. foldM ?step [0..<k] xs = Some ys \<and> length ys = n \<and>
      (\<forall>i<k. Q i (ys ! i)) \<and> (\<forall>i. k \<le> i \<longrightarrow> ys ! i = xs ! i)" for k
  proof (induction k)
    case 0
    then show ?case using assms(1) by simp
  next
    case (Suc k)
    then obtain ys where ys: "foldM ?step [0..<k] xs = Some ys" "length ys = n"
      "\<forall>i<k. Q i (ys ! i)" "\<forall>i. k \<le> i \<longrightarrow> ys ! i = xs ! i" by auto
    from assms(2) [of k] Suc.prems obtain m where m: "f k (xs ! k) = Some m" "Q k m" by auto
    with ys Suc.prems have "foldM ?step [0..<Suc k] xs = Some (ys[k := m])"
      by (simp add: foldM_append)
    moreover have "\<forall>i<Suc k. Q i (ys[k := m] ! i)"
      using ys m Suc.prems by (auto simp: less_Suc_eq nth_list_update)
    ultimately show ?case using ys by auto
  qed
  then show ?thesis by blast
qed

text \<open>Loops with an early \<open>return\<close>: \<open>Some None\<close> is the early return.\<close>

fun loopM :: "('a \<Rightarrow> 's \<Rightarrow> 's option option) \<Rightarrow> 'a list \<Rightarrow> 's \<Rightarrow> 's option option" where
  "loopM f [] s = Some (Some s)"
| "loopM f (x # xs) s = do { r \<leftarrow> f x s; (case r of None \<Rightarrow> Some None | Some s \<Rightarrow> loopM f xs s) }"

definition checkM :: "('a \<Rightarrow> bool option) \<Rightarrow> 'a list \<Rightarrow> bool option" where
  \<comment> \<open>a loop that returns \<open>false\<close> at the first element that fails its check\<close>
  "checkM p xs = map_option (\<lambda>r. r \<noteq> None)
     (loopM (\<lambda>x u. do { ok \<leftarrow> p x; Some (if ok then Some u else None) }) xs ())"

lemma checkM_simps [simp]:
  "checkM p [] = Some True"
  "checkM p (x # xs) = do { ok \<leftarrow> p x; if ok then checkM p xs else Some False }"
proof -
  show "checkM p [] = Some True" by (simp add: checkM_def)
  show "checkM p (x # xs) = do { ok \<leftarrow> p x; if ok then checkM p xs else Some False }"
    by (cases "p x") (simp_all add: checkM_def)
qed

lemma checkM_eq: "(\<And>x. x \<in> set xs \<Longrightarrow> p x = Some (q x)) \<Longrightarrow> checkM p xs = Some (\<forall>x\<in>set xs. q x)"
  by (induction xs) auto

lemma checkM_True: "checkM p xs = Some True \<longleftrightarrow> (\<forall>x\<in>set xs. p x = Some True)"
  by (induction xs) (auto simp: Option.bind_eq_Some_conv split: if_splits)

text \<open>A loop that returns early at the first element that fails \<open>Q\<close>, with an invariant for the others.\<close>

lemma loopM_decide:
  assumes "P [] s"
    and "\<And>done x rest s. xs = done @ x # rest \<Longrightarrow> P done s \<Longrightarrow>
      \<exists>r. f x s = Some r \<and> (case r of None \<Rightarrow> \<not> Q x | Some s' \<Rightarrow> Q x \<and> P (done @ [x]) s')"
  shows "\<exists>r. loopM f xs s = Some r \<and> (case r of None \<Rightarrow> \<exists>x\<in>set xs. \<not> Q x | Some s' \<Rightarrow> (\<forall>x\<in>set xs. Q x) \<and> P xs s')"
proof -
  have "ys @ zs = xs \<Longrightarrow> P ys s \<Longrightarrow> \<exists>r. loopM f zs s = Some r \<and>
      (case r of None \<Rightarrow> \<exists>x\<in>set zs. \<not> Q x | Some s' \<Rightarrow> (\<forall>x\<in>set zs. Q x) \<and> P xs s')" for ys zs s
  proof (induction zs arbitrary: ys s)
    case (Cons z zs)
    from assms(2) [of ys z zs s] Cons.prems obtain r where
      r: "f z s = Some r" "case r of None \<Rightarrow> \<not> Q z | Some s' \<Rightarrow> Q z \<and> P (ys @ [z]) s'" by auto
    show ?case
    proof (cases r)
      case None
      with r show ?thesis by auto
    next
      case (Some s')
      with r Cons.prems(1) Cons.IH [of "ys @ [z]" s'] show ?thesis by (auto split: option.splits)
    qed
  qed simp
  from this [of "[]" xs] assms(1) show ?thesis by simp
qed

section \<open>Signed 32-bit integers and truncating division\<close>

definition i32_ok :: "int \<Rightarrow> bool" where
  "i32_ok x \<longleftrightarrow> - (2 ^ 31) \<le> x \<and> x < 2 ^ 31"

definition i32 :: "int \<Rightarrow> int option" where
  \<comment> \<open>a signed result outside the range is undefined in C++: the run has no value\<close>
  "i32 x = (if i32_ok x then Some x else None)"

definition INT32_MAX :: int where
  "INT32_MAX = 2147483647"

definition cdiv :: "int \<Rightarrow> int \<Rightarrow> int" where
  "cdiv a b = sgn a * sgn b * (\<bar>a\<bar> div \<bar>b\<bar>)"

lemma i32_Some [run_simps]: "i32 x = Some y \<longleftrightarrow> y = x \<and> i32_ok x"
  by (auto simp: i32_def)

lemma cdiv_nonneg: "0 \<le> a \<Longrightarrow> 0 < b \<Longrightarrow> cdiv a b = a div b"
  by (simp add: cdiv_def sgn_if)

lemma cdiv_bounds: "0 \<le> a \<Longrightarrow> 0 < b \<Longrightarrow> 0 \<le> cdiv a b \<and> cdiv a b \<le> a"
  using zdiv_mono2 [of a 1 b] by (simp add: cdiv_nonneg pos_imp_zdiv_nonneg_iff)

section \<open>Lists updated by index\<close>

definition resize_list :: "nat \<Rightarrow> 'a \<Rightarrow> 'a list \<Rightarrow> 'a list" where
  "resize_list n d xs = take n xs @ replicate (n - length xs) d"

lemma length_resize_list [simp]: "length (resize_list n d xs) = n"
  by (simp add: resize_list_def)

lemma nth_resize_list [simp]:
  "i < n \<Longrightarrow> resize_list n d xs ! i = (if i < length xs then xs ! i else d)"
  by (auto simp: resize_list_def nth_append)

lemma zip_list_update2:
  "length xs = length ys \<Longrightarrow> zip (xs[i := x]) (ys[i := y]) = (zip xs ys)[i := (x, y)]"
  by (simp add: update_zip)

lemma mset_list_update:
  "i < length xs \<Longrightarrow> mset (xs[i := x]) = add_mset x (mset xs - {#xs ! i#})"
  by (simp add: mset_update)

lemma list_update_same [upd_simps]: "xs ! i = x \<Longrightarrow> xs[i := x] = xs"
  by auto

lemma nth_upd_iff: "j < length xs \<Longrightarrow> xs[i := v] ! j = (if i = j then v else xs ! j)"
  by (cases "i = j") auto

lemma map_const_replicate: "map (\<lambda>_. d) xs = replicate (length xs) d"
  by (induction xs) simp_all

section \<open>Checked reads\<close>

definition at :: "'a list \<Rightarrow> nat \<Rightarrow> 'a option" where
  \<comment> \<open>\<open>xs[i]\<close>: reading past the end has no value\<close>
  "at xs i = (if i < length xs then Some (xs ! i) else None)"

lemma at_Some [run_simps]: "at xs i = Some x \<longleftrightarrow> i < length xs \<and> x = xs ! i"
  by (auto simp: at_def)

lemma at_ok [simp]: "i < length xs \<Longrightarrow> at xs i = Some (xs ! i)"
  by (simp add: at_def)

end
