(* ===== verification/OrdMap.thy ===== *)
theory OrdMap
  imports Prelude
begin

text \<open>
  A model of \<open>std::map\<close>: an association list in strictly increasing key order, so that
  \<open>begin()\<close> is the head and \<open>rbegin()\<close> the last entry. The interface \<open>ordered_map\<close>
  says what the clients rely on; it is interpreted on the model at the end.
\<close>

type_synonym ('k, 'v) omap = "('k \<times> 'v) list"

definition om_inv :: "('k::linorder, 'v) omap \<Rightarrow> bool" where
  "om_inv m \<longleftrightarrow> sorted_wrt (<) (map fst m)"

fun om_put :: "'k::linorder \<Rightarrow> 'v \<Rightarrow> ('k, 'v) omap \<Rightarrow> ('k, 'v) omap" where
  "om_put k v [] = [(k, v)]"
| "om_put k v ((k', v') # m) =
     (if k < k' then (k, v) # (k', v') # m
      else if k = k' then (k, v) # m
      else (k', v') # om_put k v m)"

fun om_del :: "'k \<Rightarrow> ('k, 'v) omap \<Rightarrow> ('k, 'v) omap" where
  "om_del k [] = []"
| "om_del k ((k', v') # m) = (if k = k' then m else (k', v') # om_del k m)"

definition om_first :: "('k, 'v) omap \<Rightarrow> ('k \<times> 'v) option" where
  "om_first m = (case m of [] \<Rightarrow> None | e # _ \<Rightarrow> Some e)"

definition om_last :: "('k, 'v) omap \<Rightarrow> ('k \<times> 'v) option" where
  "om_last m = (case m of [] \<Rightarrow> None | _ # _ \<Rightarrow> Some (last m))"

lemma om_inv_Nil [simp]: "om_inv []"
  by (simp add: om_inv_def)

lemma om_inv_Cons [simp]: "om_inv (e # m) \<longleftrightarrow> (\<forall>k\<in>fst ` set m. fst e < k) \<and> om_inv m"
  by (simp add: om_inv_def)

lemma set_om_put: "fst ` set (om_put k v m) = insert k (fst ` set m)"
  by (induction k v m rule: om_put.induct) auto

lemma om_inv_put [simp]: "om_inv m \<Longrightarrow> om_inv (om_put k v m)"
  by (induction k v m rule: om_put.induct) (auto simp: set_om_put)

lemma set_om_del_subset: "set (om_del k m) \<subseteq> set m"
  by (induction k m rule: om_del.induct) auto

lemma om_inv_del [simp]: "om_inv m \<Longrightarrow> om_inv (om_del k m)"
  by (induction k m rule: om_del.induct) (use set_om_del_subset in fastforce)+

lemma om_get_put [simp]: "map_of (om_put k v m) = (map_of m)(k \<mapsto> v)"
  by (induction k v m rule: om_put.induct) auto

lemma map_of_below: "\<forall>k'\<in>fst ` set m. k < (k'::'k::linorder) \<Longrightarrow> map_of m k = None"
  by (auto simp: map_of_eq_None_iff)

lemma om_get_del [simp]: "om_inv m \<Longrightarrow> map_of (om_del k m) = (map_of m)(k := None)"
proof (induction k m rule: om_del.induct)
  case (2 k k' v' m)
  then show ?case by (auto simp: fun_eq_iff map_of_below)
qed simp

lemma om_first_Min:
  "om_inv m \<Longrightarrow> om_first m = Some (k, v) \<Longrightarrow> k = Min (dom (map_of m)) \<and> map_of m k = Some v"
  by (cases m) (auto simp: om_first_def dom_map_of_conv_image_fst less_imp_le intro!: Min_eqI [symmetric])

lemma om_last_Max:
  assumes "om_inv m" "om_last m = Some (k, v)"
  shows "k = Max (dom (map_of m)) \<and> map_of m k = Some v"
proof -
  from assms(2) have "m \<noteq> []" "last m = (k, v)"
    by (auto simp: om_last_def split: list.splits)
  then obtain m' where m: "m = m' @ [(k, v)]"
    by (metis append_butlast_last_id)
  with assms(1) have lt: "\<forall>k'\<in>fst ` set m'. k' < k"
    by (auto simp: om_inv_def sorted_wrt_append)
  then have "Max (dom (map_of m)) = k"
    by (intro Max_eqI) (auto simp: m dom_map_of_conv_image_fst less_imp_le)
  moreover have "map_of m' k = None" using lt by (auto simp: map_of_eq_None_iff)
  ultimately show ?thesis by (simp add: m map_add_def)
qed

lemma om_first_None [simp]: "om_first m = None \<longleftrightarrow> m = []"
  by (auto simp: om_first_def split: list.splits)

lemma om_last_None [simp]: "om_last m = None \<longleftrightarrow> m = []"
  by (auto simp: om_last_def split: list.splits)

lemma om_first_last_Nil [simp]: "om_first [] = None" "om_last [] = None"
  by (simp_all add: om_first_def om_last_def)

section \<open>The interface of an ordered map\<close>

locale ordered_map =
  fixes empty :: "'m"
    and get :: "'m \<Rightarrow> 'k::linorder \<Rightarrow> 'v option"
    and put :: "'k \<Rightarrow> 'v \<Rightarrow> 'm \<Rightarrow> 'm"
    and del :: "'k \<Rightarrow> 'm \<Rightarrow> 'm"
    and first_entry :: "'m \<Rightarrow> ('k \<times> 'v) option"
    and last_entry :: "'m \<Rightarrow> ('k \<times> 'v) option"
    and invar :: "'m \<Rightarrow> bool"
  assumes invar_empty: "invar empty"
    and invar_put: "invar m \<Longrightarrow> invar (put k v m)"
    and invar_del: "invar m \<Longrightarrow> invar (del k m)"
    and get_empty: "get empty = Map.empty"
    and get_put: "invar m \<Longrightarrow> get (put k v m) = (get m)(k \<mapsto> v)"
    and get_del: "invar m \<Longrightarrow> get (del k m) = (get m)(k := None)"
    and dom_finite: "invar m \<Longrightarrow> finite (dom (get m))"
    and first_None: "invar m \<Longrightarrow> first_entry m = None \<longleftrightarrow> get m = Map.empty"
    and last_None: "invar m \<Longrightarrow> last_entry m = None \<longleftrightarrow> get m = Map.empty"
    and first_Some: "invar m \<Longrightarrow> first_entry m = Some (k, v) \<Longrightarrow>
      k = Min (dom (get m)) \<and> get m k = Some v"
    and last_Some: "invar m \<Longrightarrow> last_entry m = Some (k, v) \<Longrightarrow>
      k = Max (dom (get m)) \<and> get m k = Some v"
begin

lemma first_le_last:
  assumes "invar m" "first_entry m = Some (k, v)" "last_entry m = Some (k', v')"
  shows "k \<le> k'"
  using first_Some [OF assms(1,2)] last_Some [OF assms(1,3)] dom_finite [OF assms(1)]
  by (metis Min_le domI)

lemma first_entry_exists: "invar m \<Longrightarrow> get m k = Some v \<Longrightarrow> \<exists>k' v'. first_entry m = Some (k', v') \<and> k' \<le> k"
  using first_None [of m] first_Some [of m] dom_finite [of m]
  by (cases "first_entry m") (auto intro!: Min_le)

lemma last_entry_exists: "invar m \<Longrightarrow> get m k = Some v \<Longrightarrow> \<exists>k' v'. last_entry m = Some (k', v') \<and> k \<le> k'"
  using last_None [of m] last_Some [of m] dom_finite [of m]
  by (cases "last_entry m") (auto intro!: Max_ge)

end

interpretation om: ordered_map "[]" "map_of" om_put om_del om_first om_last om_inv
proof (unfold_locales, goal_cases)
  case (10 m k v) then show ?case by (rule om_first_Min)
next
  case (11 m k v) then show ?case by (rule om_last_Max)
qed (auto simp: finite_dom_map_of)

end
