(* ===== verification/KvCells.thy ===== *)
theory KvCells
  imports OrdMap
begin

text \<open>
  The bookkeeping of the cells of a KV cache: \<open>class llama_kv_cells\<close> of
  \<open>llama-server/src/llama-kv-cells.h\<close>. Every method is one definition; a failed
  \<open>assert\<close>, an out-of-range \<open>std::bitset\<close> access and a signed overflow are \<open>None\<close>.
  The invariant \<open>kv_inv\<close> says how the redundant fields (\<open>used\<close>, \<open>seq_pos\<close>) follow
  from the cells; \<open>cells\<close> is the abstract contents and each operation has a refinement
  lemma that says how it changes the contents.
\<close>

section \<open>Data\<close>

definition LLAMA_MAX_SEQ :: nat where
  "LLAMA_MAX_SEQ = 256"

definition LLAMA_TOKEN_NULL :: int where
  "LLAMA_TOKEN_NULL = -1"

type_synonym llama_pos = int
type_synonym llama_token = int

record kv_cell_ext =
  ext_x :: llama_pos
  ext_y :: llama_pos
  ext_tok :: llama_token

definition ext_default :: kv_cell_ext where
  "ext_default = \<lparr>ext_x = 0, ext_y = 0, ext_tok = LLAMA_TOKEN_NULL\<rparr>"

definition is_2d_gt :: "kv_cell_ext \<Rightarrow> llama_pos \<Rightarrow> llama_pos \<Rightarrow> bool" where
  "is_2d_gt e ox oy \<longleftrightarrow> ext_y e > oy \<or> (ext_y e = oy \<and> ext_x e > ox)"

record kv_cells =
  c_has_shift :: bool
  c_used :: "nat set"
  c_pos :: "llama_pos list"
  c_ext :: "kv_cell_ext list"
  c_shift :: "llama_pos list"
  c_seq :: "nat set list"
  c_seq_pos :: "(llama_pos, int) omap list"

text \<open>A default constructed object: no cells, one empty position map per sequence.\<close>

definition kv_new :: kv_cells where
  "kv_new = \<lparr>c_has_shift = False, c_used = {}, c_pos = [], c_ext = [], c_shift = [], c_seq = [],
     c_seq_pos = replicate LLAMA_MAX_SEQ []\<rparr>"

section \<open>Whole-object operations\<close>

definition kv_reset :: "kv_cells \<Rightarrow> kv_cells" where
  "kv_reset c = c\<lparr>
     c_pos := map (\<lambda>_. -1) (c_pos c),
     c_ext := map (\<lambda>_. ext_default) (c_ext c),
     c_shift := map (\<lambda>_. 0) (c_shift c),
     c_seq := map (\<lambda>_. {}) (c_seq c),
     c_has_shift := False,
     c_used := {},
     c_seq_pos := map (\<lambda>_. []) (c_seq_pos c)\<rparr>"

definition kv_reset_shift :: "kv_cells \<Rightarrow> kv_cells" where
  "kv_reset_shift c = c\<lparr>c_has_shift := False, c_shift := map (\<lambda>_. 0) (c_shift c)\<rparr>"

definition kv_size :: "kv_cells \<Rightarrow> nat" where
  "kv_size c = length (c_pos c)"

definition kv_resize :: "nat \<Rightarrow> kv_cells \<Rightarrow> kv_cells" where
  "kv_resize n c = kv_reset (c\<lparr>
     c_pos := resize_list n 0 (c_pos c),
     c_ext := resize_list n ext_default (c_ext c),
     c_shift := resize_list n 0 (c_shift c),
     c_seq := resize_list n {} (c_seq c)\<rparr>)"

definition kv_is_empty :: "nat \<Rightarrow> kv_cells \<Rightarrow> bool option" where
  "kv_is_empty i c = do {
     assert_that (i < kv_size c);
     assert_that ((c_pos c ! i < 0 \<and> c_pos c ! i = -1) \<or> c_pos c ! i \<ge> 0);
     Some (c_pos c ! i = -1)
   }"

definition kv_get_used :: "kv_cells \<Rightarrow> nat" where
  "kv_get_used c = card (c_used c)"

definition kv_used_min :: "kv_cells \<Rightarrow> nat" where
  "kv_used_min c = (if c_used c = {} then 0 else Min (c_used c))"

definition kv_used_max_p1 :: "kv_cells \<Rightarrow> nat" where
  "kv_used_max_p1 c = (if c_used c = {} then 0 else Max (c_used c) + 1)"

section \<open>The position maps\<close>

definition cnt_inc :: "llama_pos \<Rightarrow> (llama_pos, int) omap \<Rightarrow> (llama_pos, int) omap" where
  "cnt_inc p m = om_put p ((case map_of m p of None \<Rightarrow> 0 | Some k \<Rightarrow> k) + 1) m"

definition cnt_dec :: "llama_pos \<Rightarrow> (llama_pos, int) omap \<Rightarrow> (llama_pos, int) omap option" where
  "cnt_dec p m = (case map_of m p of
      None \<Rightarrow> None
    | Some k \<Rightarrow> Some (if k - 1 = 0 then om_del p m else om_put p (k - 1) m))"

definition seq_pos_inc :: "nat \<Rightarrow> llama_pos \<Rightarrow> kv_cells \<Rightarrow> kv_cells" where
  "seq_pos_inc s p c = c\<lparr>c_seq_pos := (c_seq_pos c)[s := cnt_inc p (c_seq_pos c ! s)]\<rparr>"

definition seq_pos_dec :: "nat \<Rightarrow> llama_pos \<Rightarrow> kv_cells \<Rightarrow> kv_cells option" where
  "seq_pos_dec s p c = do {
     m \<leftarrow> cnt_dec p (c_seq_pos c ! s);
     Some (c\<lparr>c_seq_pos := (c_seq_pos c)[s := m]\<rparr>)
   }"

definition seq_pos_rm :: "nat \<Rightarrow> kv_cells \<Rightarrow> kv_cells option" where
  "seq_pos_rm i = foldM (\<lambda>s c. if s \<in> c_seq c ! i then seq_pos_dec s (c_pos c ! i) c else Some c)
     [0..<LLAMA_MAX_SEQ]"

definition seq_pos_add :: "nat \<Rightarrow> kv_cells \<Rightarrow> kv_cells option" where
  "seq_pos_add i = foldM (\<lambda>s c. if s \<in> c_seq c ! i then Some (seq_pos_inc s (c_pos c ! i) c) else Some c)
     [0..<LLAMA_MAX_SEQ]"

section \<open>Operations on one cell\<close>

definition clear_cell :: "nat \<Rightarrow> kv_cells \<Rightarrow> kv_cells" where
  \<comment> \<open>the block \<open>pos[i] = -1; ext[i].reset(); shift[i] = 0; used.erase(i)\<close>\<close>
  "clear_cell i c = c\<lparr>c_pos := (c_pos c)[i := -1], c_ext := (c_ext c)[i := ext_default],
     c_shift := (c_shift c)[i := 0], c_used := c_used c - {i}\<rparr>"

definition kv_rm :: "nat \<Rightarrow> kv_cells \<Rightarrow> kv_cells option" where
  "kv_rm i c = do {
     assert_that (i < kv_size c);
     assert_that (c_pos c ! i \<noteq> -1);
     c \<leftarrow> seq_pos_rm i c;
     let c = c\<lparr>c_seq := (c_seq c)[i := {}]\<rparr>;
     Some (clear_cell i c)
   }"

definition kv_seq_rm :: "nat \<Rightarrow> nat \<Rightarrow> kv_cells \<Rightarrow> (kv_cells \<times> bool) option" where
  "kv_seq_rm i s c = do {
     assert_that (i < kv_size c);
     assert_that (s < LLAMA_MAX_SEQ);
     assert_that (s \<in> c_seq c ! i);
     assert_that (c_pos c ! i \<noteq> -1);
     let c = c\<lparr>c_seq := (c_seq c)[i := c_seq c ! i - {s}]\<rparr>;
     c \<leftarrow> seq_pos_dec s (c_pos c ! i) c;
     if c_seq c ! i = {} then Some (clear_cell i c, True) else Some (c, False)
   }"

definition kv_seq_keep :: "nat \<Rightarrow> nat \<Rightarrow> kv_cells \<Rightarrow> (kv_cells \<times> bool) option" where
  "kv_seq_keep i s c = do {
     assert_that (i < kv_size c);
     assert_that (s < LLAMA_MAX_SEQ);
     if s \<in> c_seq c ! i then do {
       c \<leftarrow> seq_pos_rm i c;
       let c = c\<lparr>c_seq := (c_seq c)[i := {s}]\<rparr>;
       Some (seq_pos_inc s (c_pos c ! i) c, False)
     }
     else if c_seq c ! i \<noteq> {} then do {
       c \<leftarrow> seq_pos_rm i c;
       let c = c\<lparr>c_seq := (c_seq c)[i := {}]\<rparr>;
       Some (clear_cell i c, True)
     }
     else do {
       assert_that (c_pos c ! i = -1);
       Some (c, False)
     }
   }"

definition kv_seq_count :: "nat \<Rightarrow> kv_cells \<Rightarrow> nat option" where
  "kv_seq_count i c = do {
     assert_that (i < kv_size c);
     assert_that (c_pos c ! i \<noteq> -1);
     Some (card (c_seq c ! i))
   }"

definition kv_seq_has :: "nat \<Rightarrow> nat \<Rightarrow> kv_cells \<Rightarrow> bool option" where
  "kv_seq_has i s c = do {
     assert_that (i < kv_size c);
     assert_that (s < LLAMA_MAX_SEQ);
     Some (s \<in> c_seq c ! i)
   }"

definition kv_seq_add :: "nat \<Rightarrow> nat \<Rightarrow> kv_cells \<Rightarrow> kv_cells option" where
  "kv_seq_add i s c = do {
     assert_that (i < kv_size c);
     assert_that (c_pos c ! i \<noteq> -1);
     assert_that (s < LLAMA_MAX_SEQ);
     assert_that (s \<notin> c_seq c ! i);
     let c = c\<lparr>c_seq := (c_seq c)[i := insert s (c_seq c ! i)]\<rparr>;
     Some (seq_pos_inc s (c_pos c ! i) c)
   }"

definition kv_seq_get :: "nat \<Rightarrow> kv_cells \<Rightarrow> int option" where
  "kv_seq_get i c = do {
     assert_that (i < length (c_seq c));
     assert_that (card (c_seq c ! i) = 1);
     Some (case find (\<lambda>s. s \<in> c_seq c ! i) [0..<LLAMA_MAX_SEQ] of None \<Rightarrow> -1 | Some s \<Rightarrow> int s)
   }"

text \<open>The callback of \<open>for_each_token_in\<close> receives the listed triples in this order.\<close>

definition kv_for_each_token_in ::
  "nat set \<Rightarrow> llama_pos \<Rightarrow> llama_pos \<Rightarrow> kv_cells \<Rightarrow> (nat \<times> llama_pos \<times> llama_token) list" where
  "kv_for_each_token_in seqs p0 p1 c =
     concat (map (\<lambda>i.
       if c_pos c ! i < p0 \<or> c_pos c ! i \<ge> p1 then []
       else let m = c_seq c ! i \<inter> seqs
         in if m = {} then []
            else map (\<lambda>s. (s, c_pos c ! i, ext_tok (c_ext c ! i)))
                   (filter (\<lambda>s. s \<in> m) [0..<LLAMA_MAX_SEQ]))
       (sorted_list_of_set (c_used c)))"

section \<open>Queries and position updates\<close>

definition kv_seq_pos_min :: "nat \<Rightarrow> kv_cells \<Rightarrow> llama_pos option" where
  "kv_seq_pos_min s c = do {
     assert_that (s < LLAMA_MAX_SEQ);
     (case om_first (c_seq_pos c ! s) of
        None \<Rightarrow> Some (-1)
      | Some (p, k) \<Rightarrow> do { assert_that (k > 0); Some p })
   }"

definition kv_seq_pos_max :: "nat \<Rightarrow> kv_cells \<Rightarrow> llama_pos option" where
  "kv_seq_pos_max s c = do {
     assert_that (s < LLAMA_MAX_SEQ);
     (case om_last (c_seq_pos c ! s) of
        None \<Rightarrow> Some (-1)
      | Some (p, k) \<Rightarrow> do { assert_that (k > 0); Some p })
   }"

definition kv_pos_get :: "nat \<Rightarrow> kv_cells \<Rightarrow> llama_pos option" where
  "kv_pos_get i c = do { assert_that (i < kv_size c); assert_that (c_pos c ! i \<noteq> -1); Some (c_pos c ! i) }"

definition kv_ext_get :: "nat \<Rightarrow> kv_cells \<Rightarrow> kv_cell_ext option" where
  "kv_ext_get i c = do { assert_that (i < kv_size c); assert_that (c_pos c ! i \<noteq> -1); Some (c_ext c ! i) }"

definition kv_get_shift :: "nat \<Rightarrow> kv_cells \<Rightarrow> llama_pos option" where
  "kv_get_shift i c = do { assert_that (i < kv_size c); assert_that (c_pos c ! i \<noteq> -1); Some (c_shift c ! i) }"

definition kv_pos_in :: "nat \<Rightarrow> llama_pos \<Rightarrow> llama_pos \<Rightarrow> kv_cells \<Rightarrow> bool option" where
  "kv_pos_in i p0 p1 c = do {
     assert_that (i < kv_size c);
     Some (c_pos c ! i \<ge> p0 \<and> c_pos c ! i < p1)
   }"

definition kv_pos_set :: "nat \<Rightarrow> llama_pos \<Rightarrow> kv_cells \<Rightarrow> kv_cells option" where
  "kv_pos_set i p c = do {
     assert_that (i < kv_size c);
     assert_that (c_pos c ! i = -1);
     assert_that (c_seq c ! i = {});
     Some (c\<lparr>c_pos := (c_pos c)[i := p], c_used := insert i (c_used c)\<rparr>)
   }"

definition kv_ext_set :: "nat \<Rightarrow> kv_cell_ext \<Rightarrow> kv_cells \<Rightarrow> kv_cells option" where
  "kv_ext_set i e c = do {
     assert_that (i < length (c_ext c));
     Some (c\<lparr>c_ext := (c_ext c)[i := e]\<rparr>)
   }"

definition kv_pos_add :: "nat \<Rightarrow> llama_pos \<Rightarrow> kv_cells \<Rightarrow> (kv_cells \<times> bool) option" where
  "kv_pos_add i d c = do {
     assert_that (i < kv_size c);
     assert_that (c_pos c ! i \<noteq> -1);
     c \<leftarrow> seq_pos_rm i c;
     p \<leftarrow> i32 (c_pos c ! i + d);
     sh \<leftarrow> i32 (c_shift c ! i + d);
     let c = c\<lparr>c_pos := (c_pos c)[i := p], c_shift := (c_shift c)[i := sh], c_has_shift := True\<rparr>;
     if c_pos c ! i < 0
     then Some (c\<lparr>c_seq := (c_seq c)[i := {}], c_pos := (c_pos c)[i := -1],
                  c_shift := (c_shift c)[i := 0], c_used := c_used c - {i}\<rparr>, True)
     else do { c \<leftarrow> seq_pos_add i c; Some (c, False) }
   }"

definition kv_pos_div :: "nat \<Rightarrow> int \<Rightarrow> kv_cells \<Rightarrow> kv_cells option" where
  "kv_pos_div i d c = do {
     assert_that (i < kv_size c);
     assert_that (c_pos c ! i \<noteq> -1);
     let p_old = c_pos c ! i;
     c \<leftarrow> seq_pos_rm i c;
     assert_that (d \<noteq> 0);
     p \<leftarrow> i32 (cdiv p_old d);
     sh \<leftarrow> i32 (c_shift c ! i + (p_old - p));
     let c = c\<lparr>c_pos := (c_pos c)[i := p], c_shift := (c_shift c)[i := sh]\<rparr>;
     c \<leftarrow> seq_pos_add i c;
     Some (c\<lparr>c_has_shift := True\<rparr>)
   }"

section \<open>Saving and restoring ranges of cells\<close>

definition kv_cp_idxs :: "nat list \<Rightarrow> kv_cells \<Rightarrow> kv_cells option" where
  "kv_cp_idxs idxs c =
     foldM (\<lambda>j r. do {
         let idx = idxs ! j;
         assert_that (idx < kv_size c);
         assert_that (c_shift c ! idx = 0);
         Some (r\<lparr>c_pos := (c_pos r)[j := c_pos c ! idx], c_ext := (c_ext r)[j := c_ext c ! idx],
                 c_seq := (c_seq r)[j := c_seq c ! idx]\<rparr>)
       }) [0..<length idxs] (kv_resize (length idxs) kv_new)"

definition kv_cp :: "nat \<Rightarrow> nat \<Rightarrow> kv_cells \<Rightarrow> kv_cells option" where
  "kv_cp i n c = do {
     assert_that (i + n \<le> kv_size c);
     foldM (\<lambda>j r. do {
         let idx = i + j;
         assert_that (c_shift c ! idx = 0);
         Some (r\<lparr>c_pos := (c_pos r)[j := c_pos c ! idx], c_ext := (c_ext r)[j := c_ext c ! idx],
                 c_seq := (c_seq r)[j := c_seq c ! idx]\<rparr>)
       }) [0..<n] (kv_resize n kv_new)
   }"

definition kv_set_used :: "nat \<Rightarrow> llama_pos \<Rightarrow> kv_cells \<Rightarrow> kv_cells" where
  \<comment> \<open>the two conditional updates of \<open>used\<close> at the top of the loops of \<open>set\<close>\<close>
  "kv_set_used idx p c =
     (let c = (if c_pos c ! idx = -1 \<and> p \<noteq> -1 then c\<lparr>c_used := insert idx (c_used c)\<rparr> else c)
      in if c_pos c ! idx \<noteq> -1 \<and> p = -1 then c\<lparr>c_used := c_used c - {idx}\<rparr> else c)"

definition kv_set_cell :: "nat \<Rightarrow> llama_pos \<Rightarrow> kv_cell_ext \<Rightarrow> nat set \<Rightarrow> kv_cells \<Rightarrow> kv_cells option" where
  \<comment> \<open>the body of the loops of both \<open>set\<close> overloads\<close>
  "kv_set_cell idx p e S c = do {
     let c = kv_set_used idx p c;
     c \<leftarrow> (if c_pos c ! idx \<noteq> -1 then seq_pos_rm idx c else Some c);
     let c = c\<lparr>c_pos := (c_pos c)[idx := p], c_ext := (c_ext c)[idx := e], c_seq := (c_seq c)[idx := S]\<rparr>;
     c \<leftarrow> (if c_pos c ! idx \<noteq> -1 then seq_pos_add idx c else Some c);
     assert_that (c_shift c ! idx = 0);
     Some c
   }"

definition kv_set :: "nat \<Rightarrow> kv_cells \<Rightarrow> kv_cells \<Rightarrow> kv_cells option" where
  "kv_set i other c = do {
     assert_that (i + kv_size other \<le> kv_size c);
     foldM (\<lambda>j. kv_set_cell (i + j) (c_pos other ! j) (c_ext other ! j) (c_seq other ! j))
       [0..<kv_size other] c
   }"

definition kv_set_idxs :: "nat list \<Rightarrow> kv_cells \<Rightarrow> kv_cells \<Rightarrow> kv_cells option" where
  "kv_set_idxs idxs other c = do {
     assert_that (length idxs = kv_size other);
     foldM (\<lambda>j c. do {
         assert_that (idxs ! j < kv_size c);
         kv_set_cell (idxs ! j) (c_pos other ! j) (c_ext other ! j) (c_seq other ! j) c
       }) [0..<kv_size other] c
   }"

section \<open>The counting interface of a position map\<close>

definition cnt_inv :: "(llama_pos, int) omap \<Rightarrow> bool" where
  "cnt_inv m \<longleftrightarrow> om_inv m \<and> (\<forall>p k. map_of m p = Some k \<longrightarrow> 0 < k)"

definition cnt_bag :: "(llama_pos, int) omap \<Rightarrow> llama_pos multiset" where
  "cnt_bag m = (\<Sum>(p, k)\<leftarrow>m. replicate_mset (nat k) p)"

lemma cnt_bag_Nil [simp]: "cnt_bag [] = {#}"
  by (simp add: cnt_bag_def)

lemma cnt_inv_Nil [simp]: "cnt_inv []"
  by (simp add: cnt_inv_def)

lemma count_cnt_bag:
  "om_inv m \<Longrightarrow> count (cnt_bag m) p = (case map_of m p of None \<Rightarrow> 0 | Some k \<Rightarrow> nat k)"
proof (induction m)
  case (Cons e m)
  moreover have "map_of m (fst e) = None"
    using Cons.prems by (auto simp: map_of_eq_None_iff)
  ultimately show ?case
    by (cases e) (auto simp: cnt_bag_def)
qed simp

lemma set_cnt_bag: "cnt_inv m \<Longrightarrow> set_mset (cnt_bag m) = dom (map_of m)"
  by (auto simp: cnt_inv_def set_mset_def count_cnt_bag split: option.splits)

locale position_bag =
  fixes inc :: "llama_pos \<Rightarrow> 'm \<Rightarrow> 'm"
    and dec :: "llama_pos \<Rightarrow> 'm \<Rightarrow> 'm option"
    and lo :: "'m \<Rightarrow> (llama_pos \<times> int) option"
    and hi :: "'m \<Rightarrow> (llama_pos \<times> int) option"
    and bag :: "'m \<Rightarrow> llama_pos multiset"
    and invar :: "'m \<Rightarrow> bool"
  assumes inc_law: "invar m \<Longrightarrow> invar (inc p m) \<and> bag (inc p m) = add_mset p (bag m)"
    and dec_law: "invar m \<Longrightarrow> p \<in># bag m \<Longrightarrow>
      \<exists>m'. dec p m = Some m' \<and> invar m' \<and> bag m' = bag m - {#p#}"
    and dec_stuck: "invar m \<Longrightarrow> p \<notin># bag m \<Longrightarrow> dec p m = None"
    and lo_empty: "invar m \<Longrightarrow> lo m = None \<longleftrightarrow> bag m = {#}"
    and hi_empty: "invar m \<Longrightarrow> hi m = None \<longleftrightarrow> bag m = {#}"
    and lo_law: "invar m \<Longrightarrow> lo m = Some (p, k) \<Longrightarrow> 0 < k \<and> p = Min (set_mset (bag m))"
    and hi_law: "invar m \<Longrightarrow> hi m = Some (p, k) \<Longrightarrow> 0 < k \<and> p = Max (set_mset (bag m))"
begin

lemma dec_inc: "invar m \<Longrightarrow> \<exists>m'. dec p (inc p m) = Some m' \<and> invar m' \<and> bag m' = bag m"
  using dec_law [of "inc p m" p] inc_law [of m p] by auto

lemma lo_le_hi: "invar m \<Longrightarrow> lo m = Some (p, k) \<Longrightarrow> hi m = Some (q, l) \<Longrightarrow> p \<le> q"
  using lo_law [of m p k] hi_law [of m q l] lo_empty [of m]
  by (metis Min_le Max_in finite_set_mset option.distinct(1) set_mset_eq_empty_iff)

lemma bounds: "invar m \<Longrightarrow> p \<in># bag m \<Longrightarrow>
    \<exists>a k b l. lo m = Some (a, k) \<and> hi m = Some (b, l) \<and> a \<le> p \<and> p \<le> b"
  using lo_law [of m] hi_law [of m] lo_empty [of m] hi_empty [of m]
  by (cases "lo m"; cases "hi m") auto

lemma lo_mem: "invar m \<Longrightarrow> lo m = Some (p, k) \<Longrightarrow> p \<in># bag m"
  using lo_law [of m p k] lo_empty [of m] by (metis Min_in finite_set_mset option.distinct(1) set_mset_eq_empty_iff)

lemma hi_mem: "invar m \<Longrightarrow> hi m = Some (p, k) \<Longrightarrow> p \<in># bag m"
  using hi_law [of m p k] hi_empty [of m] by (metis Max_in finite_set_mset option.distinct(1) set_mset_eq_empty_iff)

end

lemma cnt_inc_law:
  "cnt_inv m \<Longrightarrow> cnt_inv (cnt_inc p m) \<and> cnt_bag (cnt_inc p m) = add_mset p (cnt_bag m)"
  by (auto simp: cnt_inv_def cnt_inc_def count_cnt_bag nat_add_distrib less_imp_le add_pos_pos
      split: option.splits intro!: multiset_eqI)

lemma cnt_dec_law:
  assumes "cnt_inv m" "p \<in># cnt_bag m"
  shows "\<exists>m'. cnt_dec p m = Some m' \<and> cnt_inv m' \<and> cnt_bag m' = cnt_bag m - {#p#}"
proof -
  from assms have om: "om_inv m" and pos: "\<And>q k. map_of m q = Some k \<Longrightarrow> 0 < k"
    by (auto simp: cnt_inv_def)
  from assms obtain k where k: "map_of m p = Some k" by (auto simp: set_cnt_bag)
  with pos have "k \<noteq> 1 \<Longrightarrow> 1 < k" by force
  with om k pos show ?thesis
    by (auto simp: cnt_dec_def cnt_inv_def count_cnt_bag nat_diff_distrib le_less
        split: option.splits intro!: multiset_eqI)
qed

interpretation pb: position_bag cnt_inc cnt_dec om_first om_last cnt_bag cnt_inv
proof (unfold_locales, goal_cases)
  case (1 m p) then show ?case by (rule cnt_inc_law)
next
  case (2 m p) then show ?case by (rule cnt_dec_law)
next
  case (3 m p) then show ?case by (auto simp: set_cnt_bag cnt_dec_def split: option.splits)
next
  case (4 m) then show ?case
    using om.first_None [of m] by (auto simp: cnt_inv_def set_cnt_bag simp flip: set_mset_eq_empty_iff)
next
  case (5 m) then show ?case
    using om.last_None [of m] by (auto simp: cnt_inv_def set_cnt_bag simp flip: set_mset_eq_empty_iff)
next
  case (6 m p k) then show ?case
    using om.first_Some [of m p k] by (auto simp: cnt_inv_def set_cnt_bag)
next
  case (7 m p k) then show ?case
    using om.last_Some [of m p k] by (auto simp: cnt_inv_def set_cnt_bag)
qed

section \<open>Abstract contents and invariant\<close>

type_synonym cell_contents = "(llama_pos \<times> nat set) list"

definition cells :: "kv_cells \<Rightarrow> cell_contents" where
  \<comment> \<open>position and sequences of every cell; an empty cell is \<open>(-1, {})\<close>\<close>
  "cells c = zip (c_pos c) (c_seq c)"

definition seq_bag :: "nat \<Rightarrow> cell_contents \<Rightarrow> llama_pos multiset" where
  \<comment> \<open>the positions of the cells that hold sequence \<open>s\<close>, with repetitions\<close>
  "seq_bag s cs = image_mset fst (filter_mset (\<lambda>(p, S). s \<in> S) (mset cs))"

definition cell_ok :: "llama_pos \<Rightarrow> nat set \<Rightarrow> llama_pos \<Rightarrow> bool" where
  "cell_ok p S sh \<longleftrightarrow> S \<subseteq> {..<LLAMA_MAX_SEQ} \<and> (p = -1 \<or> 0 \<le> p) \<and> (p = -1 \<longrightarrow> S = {} \<and> sh = 0)"

definition kv_inv :: "kv_cells \<Rightarrow> bool" where
  "kv_inv c \<longleftrightarrow>
     length (c_ext c) = kv_size c \<and> length (c_shift c) = kv_size c \<and> length (c_seq c) = kv_size c \<and>
     length (c_seq_pos c) = LLAMA_MAX_SEQ \<and>
     c_used c = {i. i < kv_size c \<and> c_pos c ! i \<noteq> -1} \<and>
     (\<forall>i<kv_size c. cell_ok (c_pos c ! i) (c_seq c ! i) (c_shift c ! i)) \<and>
     (\<forall>s<LLAMA_MAX_SEQ. cnt_inv (c_seq_pos c ! s) \<and> cnt_bag (c_seq_pos c ! s) = seq_bag s (cells c)) \<and>
     (\<not> c_has_shift c \<longrightarrow> (\<forall>i<kv_size c. c_shift c ! i = 0))"

lemma seq_bag_update:
  assumes "i < length cs" "cs ! i = (p, S)"
  shows "seq_bag s (cs[i := (p', S')]) =
    seq_bag s cs - (if s \<in> S then {#p#} else {#}) + (if s \<in> S' then {#p'#} else {#})"
proof -
  from assms have "(p, S) \<in># mset cs" by (metis nth_mem set_mset_mset)
  then obtain M where M: "mset cs = add_mset (p, S) M" by (metis insert_DiffM)
  with assms have "mset (cs[i := (p', S')]) = add_mset (p', S') M" by (simp add: mset_update)
  with M show ?thesis by (simp add: seq_bag_def)
qed

lemma seq_bag_mem: "p \<in># seq_bag s cs \<longleftrightarrow> (\<exists>S. (p, S) \<in> set cs \<and> s \<in> S)"
  by (force simp: seq_bag_def)

lemma set_mset_seq_bag: "set_mset (seq_bag s cs) = {p. \<exists>S. (p, S) \<in> set cs \<and> s \<in> S}"
  by (auto simp: seq_bag_mem set_eq_iff)

lemma length_cells: "kv_inv c \<Longrightarrow> length (cells c) = kv_size c"
  by (simp add: cells_def kv_inv_def kv_size_def)

lemma nth_cells: "kv_inv c \<Longrightarrow> i < kv_size c \<Longrightarrow> cells c ! i = (c_pos c ! i, c_seq c ! i)"
  by (simp add: cells_def kv_inv_def kv_size_def)

lemma kv_inv_cell: "kv_inv c \<Longrightarrow> i < kv_size c \<Longrightarrow> cell_ok (c_pos c ! i) (c_seq c ! i) (c_shift c ! i)"
  by (simp add: kv_inv_def)

lemma kv_inv_seq_pos:
  "kv_inv c \<Longrightarrow> s < LLAMA_MAX_SEQ \<Longrightarrow> cnt_inv (c_seq_pos c ! s)"
  "kv_inv c \<Longrightarrow> s < LLAMA_MAX_SEQ \<Longrightarrow> cnt_bag (c_seq_pos c ! s) = seq_bag s (cells c)"
  by (simp_all add: kv_inv_def)

lemma kv_inv_lengths:
  "kv_inv c \<Longrightarrow> length (c_ext c) = kv_size c" "kv_inv c \<Longrightarrow> length (c_shift c) = kv_size c"
  "kv_inv c \<Longrightarrow> length (c_seq c) = kv_size c" "kv_inv c \<Longrightarrow> length (c_seq_pos c) = LLAMA_MAX_SEQ"
  "kv_inv c \<Longrightarrow> length (c_pos c) = kv_size c"
  by (simp_all add: kv_inv_def kv_size_def)

lemma kv_inv_seq_mem:
  assumes "kv_inv c" "i < kv_size c" "s \<in> c_seq c ! i"
  shows "s < LLAMA_MAX_SEQ" "c_pos c ! i \<noteq> -1" "0 \<le> c_pos c ! i"
    "c_pos c ! i \<in># cnt_bag (c_seq_pos c ! s)"
proof -
  from kv_inv_cell [OF assms(1,2)] assms(3) show s: "s < LLAMA_MAX_SEQ" and "c_pos c ! i \<noteq> -1" "0 \<le> c_pos c ! i"
    by (auto simp: cell_ok_def)
  have "cells c ! i \<in> set (cells c)" using assms by (simp add: length_cells)
  then have "(c_pos c ! i, c_seq c ! i) \<in> set (cells c)" using assms by (simp add: nth_cells)
  with assms s show "c_pos c ! i \<in># cnt_bag (c_seq_pos c ! s)"
    by (auto simp: kv_inv_seq_pos seq_bag_mem)
qed

text \<open>Cell \<open>i\<close> is replaced and the maps follow: the one place where the invariant is re-established.\<close>

lemma kv_inv_update:
  assumes inv: "kv_inv c" and i: "i < kv_size c"
    and pos: "c_pos c' = (c_pos c)[i := p]" and seq: "c_seq c' = (c_seq c)[i := S]"
    and shift: "c_shift c' = (c_shift c)[i := sh]" and ext: "length (c_ext c') = length (c_ext c)"
    and used: "c_used c' = (if p = -1 then c_used c - {i} else insert i (c_used c))"
    and ok: "cell_ok p S sh"
    and hs: "\<not> c_has_shift c' \<Longrightarrow> \<not> c_has_shift c \<and> sh = 0"
    and len: "length (c_seq_pos c') = LLAMA_MAX_SEQ"
    and sp: "\<And>s. s < LLAMA_MAX_SEQ \<Longrightarrow> cnt_inv (c_seq_pos c' ! s) \<and> cnt_bag (c_seq_pos c' ! s) =
      seq_bag s (cells c) - (if s \<in> c_seq c ! i then {#c_pos c ! i#} else {#}) + (if s \<in> S then {#p#} else {#})"
  shows "kv_inv c' \<and> cells c' = (cells c)[i := (p, S)]"
proof -
  have size: "kv_size c' = kv_size c" by (simp add: kv_size_def pos)
  have cs: "cells c' = (cells c)[i := (p, S)]"
    using inv by (simp add: cells_def pos seq kv_inv_def kv_size_def update_zip)
  have "cnt_bag (c_seq_pos c' ! s) = seq_bag s (cells c')" if "s < LLAMA_MAX_SEQ" for s
    using sp [OF that] seq_bag_update [of i "cells c"] inv i
    by (simp add: cs length_cells nth_cells)
  moreover have "c_used c' = {j. j < kv_size c' \<and> c_pos c' ! j \<noteq> -1}"
    using inv i by (auto simp: used kv_inv_def pos size nth_list_update kv_size_def)
  moreover have "\<forall>j<kv_size c'. cell_ok (c_pos c' ! j) (c_seq c' ! j) (c_shift c' ! j)"
    using inv i ok by (auto simp: pos seq shift size nth_list_update kv_inv_def kv_size_def)
  moreover have "\<forall>j<kv_size c'. c_shift c' ! j = 0" if "\<not> c_has_shift c'"
    using inv i hs [OF that] by (auto simp: shift size nth_list_update kv_inv_def)
  ultimately show ?thesis
    using inv sp cs by (auto simp: kv_inv_def pos seq shift ext len size)
qed

section \<open>The helper loops over the sequences of a cell\<close>

lemma seq_pos_rm_eq:
  "seq_pos_rm i c = map_option (\<lambda>sp. c\<lparr>c_seq_pos := sp\<rparr>)
     (foldM (\<lambda>s sp. Option.bind (if s \<in> c_seq c ! i then cnt_dec (c_pos c ! i) (sp ! s) else Some (sp ! s))
        (\<lambda>m. Some (sp[s := m]))) [0..<LLAMA_MAX_SEQ] (c_seq_pos c))"
proof -
  have "foldM (\<lambda>s c. if s \<in> c_seq c ! i then seq_pos_dec s (c_pos c ! i) c else Some c) xs (c\<lparr>c_seq_pos := sp\<rparr>) =
    map_option (\<lambda>sp. c\<lparr>c_seq_pos := sp\<rparr>)
     (foldM (\<lambda>s sp. Option.bind (if s \<in> c_seq c ! i then cnt_dec (c_pos c ! i) (sp ! s) else Some (sp ! s))
        (\<lambda>m. Some (sp[s := m]))) xs sp)" for xs sp
    by (induction xs arbitrary: sp) (auto simp: seq_pos_dec_def split: option.splits bind_split)
  from this [of _ "c_seq_pos c"] show ?thesis by (simp add: seq_pos_rm_def)
qed

lemma seq_pos_add_eq:
  "seq_pos_add i c = map_option (\<lambda>sp. c\<lparr>c_seq_pos := sp\<rparr>)
     (foldM (\<lambda>s sp. Option.bind (Some (if s \<in> c_seq c ! i then cnt_inc (c_pos c ! i) (sp ! s) else sp ! s))
        (\<lambda>m. Some (sp[s := m]))) [0..<LLAMA_MAX_SEQ] (c_seq_pos c))"
proof -
  have "foldM (\<lambda>s c. if s \<in> c_seq c ! i then Some (seq_pos_inc s (c_pos c ! i) c) else Some c) xs (c\<lparr>c_seq_pos := sp\<rparr>) =
    map_option (\<lambda>sp. c\<lparr>c_seq_pos := sp\<rparr>)
     (foldM (\<lambda>s sp. Option.bind (Some (if s \<in> c_seq c ! i then cnt_inc (c_pos c ! i) (sp ! s) else sp ! s))
        (\<lambda>m. Some (sp[s := m]))) xs sp)" for xs sp
    by (induction xs arbitrary: sp) (auto simp: seq_pos_inc_def)
  from this [of _ "c_seq_pos c"] show ?thesis by (simp add: seq_pos_add_def)
qed

lemma seq_pos_rm_spec:
  assumes len: "length (c_seq_pos c) = LLAMA_MAX_SEQ" and cell: "c_seq c ! i = S" "c_pos c ! i = p"
    and inv: "\<And>s. s < LLAMA_MAX_SEQ \<Longrightarrow> cnt_inv (c_seq_pos c ! s)"
    and mem: "\<And>s. s \<in> S \<Longrightarrow> s < LLAMA_MAX_SEQ \<Longrightarrow> p \<in># cnt_bag (c_seq_pos c ! s)"
  shows "\<exists>sp. seq_pos_rm i c = Some (c\<lparr>c_seq_pos := sp\<rparr>) \<and> length sp = LLAMA_MAX_SEQ \<and>
    (\<forall>s<LLAMA_MAX_SEQ. cnt_inv (sp ! s) \<and>
       cnt_bag (sp ! s) = cnt_bag (c_seq_pos c ! s) - (if s \<in> S then {#p#} else {#}))"
proof -
  let ?f = "\<lambda>s m. if s \<in> S then cnt_dec p m else Some m"
  let ?Q = "\<lambda>s m. cnt_inv m \<and>
    cnt_bag m = cnt_bag (c_seq_pos c ! s) - (if s \<in> S then {#p#} else {#})"
  have "\<exists>m. ?f s (c_seq_pos c ! s) = Some m \<and> ?Q s m" if "s < LLAMA_MAX_SEQ" for s
    using pb.dec_law [OF inv mem] inv that by auto
  from foldM_pointwise [where f = ?f and Q = ?Q, OF len this] show ?thesis
    unfolding seq_pos_rm_eq cell by (auto split del: if_split)
qed

lemma seq_pos_add_spec:
  assumes len: "length (c_seq_pos c) = LLAMA_MAX_SEQ" and cell: "c_seq c ! i = S" "c_pos c ! i = p"
    and inv: "\<And>s. s < LLAMA_MAX_SEQ \<Longrightarrow> cnt_inv (c_seq_pos c ! s)"
  shows "\<exists>sp. seq_pos_add i c = Some (c\<lparr>c_seq_pos := sp\<rparr>) \<and> length sp = LLAMA_MAX_SEQ \<and>
    (\<forall>s<LLAMA_MAX_SEQ. cnt_inv (sp ! s) \<and>
       cnt_bag (sp ! s) = cnt_bag (c_seq_pos c ! s) + (if s \<in> S then {#p#} else {#}))"
proof -
  let ?f = "\<lambda>s m. Some (if s \<in> S then cnt_inc p m else m)"
  let ?Q = "\<lambda>s m. cnt_inv m \<and>
    cnt_bag m = cnt_bag (c_seq_pos c ! s) + (if s \<in> S then {#p#} else {#})"
  have "\<exists>m. ?f s (c_seq_pos c ! s) = Some m \<and> ?Q s m" if "s < LLAMA_MAX_SEQ" for s
    using pb.inc_law [OF inv [OF that]] inv [OF that] by simp
  from foldM_pointwise [where f = ?f and Q = ?Q, OF len this] show ?thesis
    unfolding seq_pos_add_eq cell by (auto split del: if_split)
qed

lemma kv_seq_pos_rm_spec:
  assumes "kv_inv c" "i < kv_size c"
  obtains sp where "seq_pos_rm i c = Some (c\<lparr>c_seq_pos := sp\<rparr>)" "length sp = LLAMA_MAX_SEQ"
    "\<And>s. s < LLAMA_MAX_SEQ \<Longrightarrow> cnt_inv (sp ! s)"
    "\<And>s. s < LLAMA_MAX_SEQ \<Longrightarrow>
       cnt_bag (sp ! s) = seq_bag s (cells c) - (if s \<in> c_seq c ! i then {#c_pos c ! i#} else {#})"
proof -
  have "\<And>s. s \<in> c_seq c ! i \<Longrightarrow> s < LLAMA_MAX_SEQ \<Longrightarrow> c_pos c ! i \<in># cnt_bag (c_seq_pos c ! s)"
    using kv_inv_seq_mem [OF assms] by blast
  from seq_pos_rm_spec [OF kv_inv_lengths(4) [OF assms(1)] refl refl kv_inv_seq_pos(1) [OF assms(1)] this]
  obtain sp where "seq_pos_rm i c = Some (c\<lparr>c_seq_pos := sp\<rparr>)" "length sp = LLAMA_MAX_SEQ"
    "\<forall>s<LLAMA_MAX_SEQ. cnt_inv (sp ! s) \<and>
       cnt_bag (sp ! s) = cnt_bag (c_seq_pos c ! s) - (if s \<in> c_seq c ! i then {#c_pos c ! i#} else {#})"
    by blast
  with that show thesis using kv_inv_seq_pos(2) [OF assms(1)] by auto
qed

section \<open>Refinement of every operation\<close>

lemma kv_inv_new: "kv_inv (kv_resize n kv_new) \<and> cells (kv_resize n kv_new) = replicate n (-1, {})"
proof -
  have "cells (kv_resize n kv_new) = replicate n (-1, {})"
    by (simp add: cells_def kv_resize_def kv_reset_def kv_new_def map_const_replicate zip_replicate)
  then show ?thesis
    by (auto simp: kv_inv_def kv_resize_def kv_reset_def kv_new_def kv_size_def cell_ok_def
        map_const_replicate seq_bag_def)
qed

lemma kv_reset_spec:
  assumes "kv_inv c"
  shows "kv_inv (kv_reset c) \<and> cells (kv_reset c) = replicate (kv_size c) (-1, {})"
proof -
  have "cells (kv_reset c) = replicate (kv_size c) (-1, {})"
    using kv_inv_lengths [OF assms] by (simp add: cells_def kv_reset_def map_const_replicate zip_replicate)
  then show ?thesis
    using kv_inv_lengths(1-4) [OF assms]
    by (auto simp: kv_inv_def kv_reset_def kv_size_def cell_ok_def map_const_replicate seq_bag_def)
qed

lemma kv_reset_shift_spec:
  assumes "kv_inv c"
  shows "kv_inv (kv_reset_shift c) \<and> cells (kv_reset_shift c) = cells c"
proof -
  have "cells (kv_reset_shift c) = cells c" by (simp add: cells_def kv_reset_shift_def)
  with assms show ?thesis
    by (auto simp: kv_inv_def kv_reset_shift_def kv_size_def cell_ok_def)
qed

lemma kv_rm_spec:
  assumes "kv_inv c" "i < kv_size c" "c_pos c ! i \<noteq> -1"
  shows "\<exists>c'. kv_rm i c = Some c' \<and> kv_inv c' \<and> cells c' = (cells c)[i := (-1, {})]"
proof -
  obtain sp where sp: "seq_pos_rm i c = Some (c\<lparr>c_seq_pos := sp\<rparr>)" "length sp = LLAMA_MAX_SEQ"
    "\<And>s. s < LLAMA_MAX_SEQ \<Longrightarrow> cnt_inv (sp ! s)"
    "\<And>s. s < LLAMA_MAX_SEQ \<Longrightarrow>
       cnt_bag (sp ! s) = seq_bag s (cells c) - (if s \<in> c_seq c ! i then {#c_pos c ! i#} else {#})"
    using kv_seq_pos_rm_spec [OF assms(1,2)] by blast
  let ?c = "clear_cell i (c\<lparr>c_seq_pos := sp, c_seq := (c_seq c)[i := {}]\<rparr>)"
  have "kv_inv ?c \<and> cells ?c = (cells c)[i := (-1, {})]"
    by (rule kv_inv_update [OF assms(1,2), where sh = 0])
       (simp_all add: clear_cell_def cell_ok_def sp)
  then show ?thesis using assms sp by (simp add: kv_rm_def)
qed

lemma kv_seq_rm_spec:
  assumes "kv_inv c" "i < kv_size c" "s \<in> c_seq c ! i"
  shows "\<exists>c'. kv_seq_rm i s c = Some (c', c_seq c ! i = {s}) \<and> kv_inv c' \<and>
    cells c' = (cells c)[i := if c_seq c ! i = {s} then (-1, {}) else (c_pos c ! i, c_seq c ! i - {s})]"
proof -
  note mem = kv_inv_seq_mem [OF assms]
  from pb.dec_law [OF kv_inv_seq_pos(1) [OF assms(1) mem(1)] mem(4)] obtain m where
    m: "cnt_dec (c_pos c ! i) (c_seq_pos c ! s) = Some m" "cnt_inv m"
      "cnt_bag m = cnt_bag (c_seq_pos c ! s) - {#c_pos c ! i#}" by blast
  let ?b = "c_seq c ! i = {s}"
  let ?c1 = "c\<lparr>c_seq := (c_seq c)[i := c_seq c ! i - {s}], c_seq_pos := (c_seq_pos c)[s := m]\<rparr>"
  let ?c = "if ?b then clear_cell i ?c1 else ?c1"
  have S: "c_seq c ! i - {s} = {} \<longleftrightarrow> ?b" using assms(3) by blast
  have run: "kv_seq_rm i s c = Some (?c, ?b)"
    using assms mem m S kv_inv_lengths(3) [OF assms(1)] by (simp add: kv_seq_rm_def seq_pos_dec_def)
  have sp: "cnt_inv (c_seq_pos ?c ! t) \<and> cnt_bag (c_seq_pos ?c ! t) =
      seq_bag t (cells c) - (if t \<in> c_seq c ! i then {#c_pos c ! i#} else {#}) +
      (if t \<in> c_seq c ! i - {s} then {#c_pos c ! i#} else {#})" if "t < LLAMA_MAX_SEQ" for t
  proof -
    have "t \<in> c_seq c ! i \<Longrightarrow> c_pos c ! i \<in># seq_bag t (cells c)"
      using kv_inv_seq_mem(4) [OF assms(1,2), of t] kv_inv_seq_pos [OF assms(1) that] by simp
    then show ?thesis
      using m that mem(1) kv_inv_seq_pos [OF assms(1)] kv_inv_lengths(4) [OF assms(1)] assms(3)
      by (auto simp: clear_cell_def nth_list_update)
  qed
  have ok: "cell_ok (c_pos c ! i) (c_seq c ! i) (c_shift c ! i)" by (rule kv_inv_cell [OF assms(1,2)])
  show ?thesis
  proof (cases ?b)
    case True
    have "kv_inv ?c \<and> cells ?c = (cells c)[i := (-1, {})]"
      using True sp kv_inv_lengths(4) [OF assms(1)]
      by (intro kv_inv_update [OF assms(1,2), where sh = 0]) (auto simp: clear_cell_def cell_ok_def)
    with True run show ?thesis by auto
  next
    case False
    have "kv_inv ?c \<and> cells ?c = (cells c)[i := (c_pos c ! i, c_seq c ! i - {s})]"
      using False sp ok mem assms(1,2) kv_inv_lengths [OF assms(1)]
      by (intro kv_inv_update [OF assms(1,2), where sh = "c_shift c ! i"])
         (auto simp: cell_ok_def kv_inv_def)
    with False run show ?thesis by auto
  qed
qed

lemma kv_seq_keep_spec:
  assumes "kv_inv c" "i < kv_size c" "s < LLAMA_MAX_SEQ" "c_seq c ! i = {} \<longrightarrow> c_pos c ! i = -1"
  shows "\<exists>c'. kv_seq_keep i s c = Some (c', c_seq c ! i \<noteq> {} \<and> s \<notin> c_seq c ! i) \<and> kv_inv c' \<and>
    cells c' = (cells c)[i := if s \<in> c_seq c ! i then (c_pos c ! i, {s}) else (-1, {})]"
proof (cases "c_seq c ! i = {}")
  case True
  with assms nth_cells [OF assms(1,2)] show ?thesis
    by (auto simp: kv_seq_keep_def length_cells intro: list_update_id [symmetric])
       (metis list_update_id)
next
  case False
  obtain sp where sp: "seq_pos_rm i c = Some (c\<lparr>c_seq_pos := sp\<rparr>)" "length sp = LLAMA_MAX_SEQ"
    "\<And>s. s < LLAMA_MAX_SEQ \<Longrightarrow> cnt_inv (sp ! s)"
    "\<And>s. s < LLAMA_MAX_SEQ \<Longrightarrow>
       cnt_bag (sp ! s) = seq_bag s (cells c) - (if s \<in> c_seq c ! i then {#c_pos c ! i#} else {#})"
    using kv_seq_pos_rm_spec [OF assms(1,2)] by blast
  show ?thesis
  proof (cases "s \<in> c_seq c ! i")
    case True
    note mem = kv_inv_seq_mem [OF assms(1,2) True]
    let ?c = "seq_pos_inc s (c_pos c ! i) (c\<lparr>c_seq_pos := sp, c_seq := (c_seq c)[i := {s}]\<rparr>)"
    have "kv_inv ?c \<and> cells ?c = (cells c)[i := (c_pos c ! i, {s})]"
      using sp mem pb.inc_law [OF sp(3)] assms(1,2) kv_inv_cell [OF assms(1,2)]
      by (intro kv_inv_update [OF assms(1,2), where sh = "c_shift c ! i"])
         (auto simp: seq_pos_inc_def cell_ok_def nth_list_update kv_inv_def)
    with True assms sp False show ?thesis by (simp add: kv_seq_keep_def)
  next
    case out: False
    let ?c = "clear_cell i (c\<lparr>c_seq_pos := sp, c_seq := (c_seq c)[i := {}]\<rparr>)"
    have "kv_inv ?c \<and> cells ?c = (cells c)[i := (-1, {})]"
      by (rule kv_inv_update [OF assms(1,2), where sh = 0])
         (simp_all add: clear_cell_def cell_ok_def sp)
    with out False assms sp show ?thesis by (simp add: kv_seq_keep_def)
  qed
qed

lemma kv_seq_add_spec:
  assumes "kv_inv c" "i < kv_size c" "c_pos c ! i \<noteq> -1" "s < LLAMA_MAX_SEQ" "s \<notin> c_seq c ! i"
  shows "\<exists>c'. kv_seq_add i s c = Some c' \<and> kv_inv c' \<and>
    cells c' = (cells c)[i := (c_pos c ! i, insert s (c_seq c ! i))]"
proof -
  let ?c = "seq_pos_inc s (c_pos c ! i) (c\<lparr>c_seq := (c_seq c)[i := insert s (c_seq c ! i)]\<rparr>)"
  have bag: "t \<in> c_seq c ! i \<Longrightarrow> t < LLAMA_MAX_SEQ \<Longrightarrow> c_pos c ! i \<in># seq_bag t (cells c)" for t
    using kv_inv_seq_mem(4) [OF assms(1,2), of t] kv_inv_seq_pos [OF assms(1)] by simp
  have "kv_inv ?c \<and> cells ?c = (cells c)[i := (c_pos c ! i, insert s (c_seq c ! i))]"
    using assms kv_inv_cell [OF assms(1,2)] bag pb.inc_law [OF kv_inv_seq_pos(1) [OF assms(1)]]
      kv_inv_seq_pos [OF assms(1)] kv_inv_lengths(4) [OF assms(1)]
    by (intro kv_inv_update [OF assms(1,2), where sh = "c_shift c ! i"])
       (auto simp: seq_pos_inc_def cell_ok_def nth_list_update kv_inv_def)
  with assms show ?thesis by (simp add: kv_seq_add_def)
qed

lemma kv_pos_set_spec:
  assumes "kv_inv c" "i < kv_size c" "c_pos c ! i = -1" "0 \<le> p"
  shows "\<exists>c'. kv_pos_set i p c = Some c' \<and> kv_inv c' \<and> cells c' = (cells c)[i := (p, {})]"
proof -
  from kv_inv_cell [OF assms(1,2)] assms(3) have e: "c_seq c ! i = {}" "c_shift c ! i = 0"
    by (simp_all add: cell_ok_def)
  let ?c = "c\<lparr>c_pos := (c_pos c)[i := p], c_used := insert i (c_used c)\<rparr>"
  have "kv_inv ?c \<and> cells ?c = (cells c)[i := (p, {})]"
    using assms e kv_inv_seq_pos [OF assms(1)] kv_inv_lengths(4) [OF assms(1)]
    by (intro kv_inv_update [OF assms(1,2), where sh = 0 and S = "{}"])
       (simp_all add: cell_ok_def upd_simps)
  with assms e show ?thesis by (simp add: kv_pos_set_def)
qed

lemma kv_ext_set_spec:
  assumes "kv_inv c" "i < kv_size c"
  shows "\<exists>c'. kv_ext_set i e c = Some c' \<and> kv_inv c' \<and> cells c' = cells c \<and> c_ext c' ! i = e"
proof -
  let ?c = "c\<lparr>c_ext := (c_ext c)[i := e]\<rparr>"
  have "cells ?c = cells c" by (simp add: cells_def)
  with assms have "kv_inv ?c" by (auto simp: kv_inv_def kv_size_def)
  with assms \<open>cells ?c = cells c\<close> show ?thesis by (simp add: kv_ext_set_def kv_inv_lengths)
qed

lemma kv_pos_add_spec:
  assumes "kv_inv c" "i < kv_size c" "c_pos c ! i \<noteq> -1"
    and "i32_ok (c_pos c ! i + d)" "i32_ok (c_shift c ! i + d)"
  shows "\<exists>c'. kv_pos_add i d c = Some (c', c_pos c ! i + d < 0) \<and> kv_inv c' \<and>
    cells c' = (cells c)[i := if c_pos c ! i + d < 0 then (-1, {}) else (c_pos c ! i + d, c_seq c ! i)] \<and>
    c_shift c' = (c_shift c)[i := if c_pos c ! i + d < 0 then 0 else c_shift c ! i + d]"
proof -
  let ?p = "c_pos c ! i + d" and ?sh = "c_shift c ! i + d"
  obtain sp where sp: "seq_pos_rm i c = Some (c\<lparr>c_seq_pos := sp\<rparr>)" "length sp = LLAMA_MAX_SEQ"
    "\<And>s. s < LLAMA_MAX_SEQ \<Longrightarrow> cnt_inv (sp ! s)"
    "\<And>s. s < LLAMA_MAX_SEQ \<Longrightarrow>
       cnt_bag (sp ! s) = seq_bag s (cells c) - (if s \<in> c_seq c ! i then {#c_pos c ! i#} else {#})"
    using kv_seq_pos_rm_spec [OF assms(1,2)] by blast
  have len: "i < length (c_pos c)" "i < length (c_seq c)" "i < length (c_shift c)"
    using assms(2) kv_inv_lengths [OF assms(1)] by simp_all
  show ?thesis
  proof (cases "?p < 0")
    case True
    let ?c = "c\<lparr>c_seq_pos := sp, c_has_shift := True, c_seq := (c_seq c)[i := {}],
      c_pos := (c_pos c)[i := -1], c_shift := (c_shift c)[i := 0], c_used := c_used c - {i}\<rparr>"
    have "kv_inv ?c \<and> cells ?c = (cells c)[i := (-1, {})]"
      by (rule kv_inv_update [OF assms(1,2), where sh = 0]) (simp_all add: cell_ok_def sp)
    with True assms sp len show ?thesis by (simp add: kv_pos_add_def i32_def)
  next
    case False
    let ?c1 = "c\<lparr>c_seq_pos := sp, c_pos := (c_pos c)[i := ?p], c_shift := (c_shift c)[i := ?sh],
      c_has_shift := True\<rparr>"
    from seq_pos_add_spec [of ?c1 i "c_seq c ! i" ?p] sp obtain sp' where sp': "seq_pos_add i ?c1 = Some (?c1\<lparr>c_seq_pos := sp'\<rparr>)"
      "length sp' = LLAMA_MAX_SEQ" "\<forall>s<LLAMA_MAX_SEQ. cnt_inv (sp' ! s) \<and>
        cnt_bag (sp' ! s) = cnt_bag (sp ! s) + (if s \<in> c_seq c ! i then {#?p#} else {#})"
      using len by auto
    let ?c = "?c1\<lparr>c_seq_pos := sp'\<rparr>"
    have "kv_inv ?c \<and> cells ?c = (cells c)[i := (?p, c_seq c ! i)]"
      using sp sp' False kv_inv_cell [OF assms(1,2)] assms
      by (intro kv_inv_update [OF assms(1,2), where sh = ?sh]) (auto simp: cell_ok_def kv_inv_def)
    with False assms sp sp' len show ?thesis by (simp add: kv_pos_add_def i32_def)
  qed
qed

lemma kv_pos_div_spec:
  assumes "kv_inv c" "i < kv_size c" "c_pos c ! i \<noteq> -1" "0 < d" "i32_ok (c_pos c ! i div d)"
    and "i32_ok (c_shift c ! i + (c_pos c ! i - c_pos c ! i div d))"
  shows "\<exists>c'. kv_pos_div i d c = Some c' \<and> kv_inv c' \<and>
    cells c' = (cells c)[i := (c_pos c ! i div d, c_seq c ! i)] \<and>
    c_shift c' = (c_shift c)[i := c_shift c ! i + (c_pos c ! i - c_pos c ! i div d)]"
proof -
  have p0: "0 \<le> c_pos c ! i" using kv_inv_cell [OF assms(1,2)] assms(3) by (simp add: cell_ok_def)
  let ?p = "c_pos c ! i div d" and ?sh = "c_shift c ! i + (c_pos c ! i - c_pos c ! i div d)"
  have p: "cdiv (c_pos c ! i) d = ?p" "0 \<le> ?p"
    using p0 assms(4) by (simp_all add: cdiv_nonneg pos_imp_zdiv_nonneg_iff)
  obtain sp where sp: "seq_pos_rm i c = Some (c\<lparr>c_seq_pos := sp\<rparr>)" "length sp = LLAMA_MAX_SEQ"
    "\<And>s. s < LLAMA_MAX_SEQ \<Longrightarrow> cnt_inv (sp ! s)"
    "\<And>s. s < LLAMA_MAX_SEQ \<Longrightarrow>
       cnt_bag (sp ! s) = seq_bag s (cells c) - (if s \<in> c_seq c ! i then {#c_pos c ! i#} else {#})"
    using kv_seq_pos_rm_spec [OF assms(1,2)] by blast
  have len: "i < length (c_pos c)" "i < length (c_seq c)" "i < length (c_shift c)"
    using assms(2) kv_inv_lengths [OF assms(1)] by simp_all
  let ?c1 = "c\<lparr>c_seq_pos := sp, c_pos := (c_pos c)[i := ?p], c_shift := (c_shift c)[i := ?sh]\<rparr>"
  from seq_pos_add_spec [of ?c1 i "c_seq c ! i" ?p] sp obtain sp' where sp': "seq_pos_add i ?c1 = Some (?c1\<lparr>c_seq_pos := sp'\<rparr>)"
    "length sp' = LLAMA_MAX_SEQ" "\<forall>s<LLAMA_MAX_SEQ. cnt_inv (sp' ! s) \<and>
      cnt_bag (sp' ! s) = cnt_bag (sp ! s) + (if s \<in> c_seq c ! i then {#?p#} else {#})"
    using len by auto
  let ?c = "?c1\<lparr>c_seq_pos := sp', c_has_shift := True\<rparr>"
  have "kv_inv ?c \<and> cells ?c = (cells c)[i := (?p, c_seq c ! i)]"
    using sp sp' p kv_inv_cell [OF assms(1,2)] assms
    by (intro kv_inv_update [OF assms(1,2), where sh = ?sh]) (auto simp: cell_ok_def kv_inv_def)
  with assms p sp sp' len show ?thesis by (simp add: kv_pos_div_def i32_def Let_def)
qed

section \<open>Queries\<close>

definition seq_positions :: "nat \<Rightarrow> cell_contents \<Rightarrow> llama_pos set" where
  "seq_positions s cs = {p. \<exists>S. (p, S) \<in> set cs \<and> s \<in> S}"

lemma finite_seq_positions [simp]: "finite (seq_positions s cs)"
  by (rule finite_subset [of _ "fst ` set cs"]) (force simp: seq_positions_def)+

lemma kv_seq_pos_min_eq:
  assumes "kv_inv c" "s < LLAMA_MAX_SEQ"
  shows "kv_seq_pos_min s c = Some (if seq_positions s (cells c) = {} then -1 else Min (seq_positions s (cells c)))"
proof -
  note m = kv_inv_seq_pos [OF assms]
  have set: "set_mset (seq_bag s (cells c)) = seq_positions s (cells c)"
    by (simp add: set_mset_seq_bag seq_positions_def)
  show ?thesis
  proof (cases "om_first (c_seq_pos c ! s)")
    case None
    with pb.lo_empty [OF m(1)] m(2) set assms(2) show ?thesis
      by (auto simp: kv_seq_pos_min_def simp flip: set_mset_eq_empty_iff)
  next
    case (Some e)
    then obtain p k where e: "om_first (c_seq_pos c ! s) = Some (p, k)" by (cases e) auto
    with pb.lo_law [OF m(1) e] pb.lo_mem [OF m(1) e] m(2) set assms(2) show ?thesis
      by (auto simp: kv_seq_pos_min_def)
  qed
qed

lemma kv_seq_pos_max_eq:
  assumes "kv_inv c" "s < LLAMA_MAX_SEQ"
  shows "kv_seq_pos_max s c = Some (if seq_positions s (cells c) = {} then -1 else Max (seq_positions s (cells c)))"
proof -
  note m = kv_inv_seq_pos [OF assms]
  have set: "set_mset (seq_bag s (cells c)) = seq_positions s (cells c)"
    by (simp add: set_mset_seq_bag seq_positions_def)
  show ?thesis
  proof (cases "om_last (c_seq_pos c ! s)")
    case None
    with pb.hi_empty [OF m(1)] m(2) set assms(2) show ?thesis
      by (auto simp: kv_seq_pos_max_def simp flip: set_mset_eq_empty_iff)
  next
    case (Some e)
    then obtain p k where e: "om_last (c_seq_pos c ! s) = Some (p, k)" by (cases e) auto
    with pb.hi_law [OF m(1) e] pb.hi_mem [OF m(1) e] m(2) set assms(2) show ?thesis
      by (auto simp: kv_seq_pos_max_def)
  qed
qed

lemma kv_seq_get_eq:
  assumes "kv_inv c" "i < kv_size c" "c_seq c ! i = {s}"
  shows "kv_seq_get i c = Some (int s)"
proof -
  have s: "s < LLAMA_MAX_SEQ" using kv_inv_seq_mem(1) [OF assms(1,2)] assms(3) by blast
  then have "\<forall>j<s. [0..<LLAMA_MAX_SEQ] ! j \<noteq> s" by simp
  with s have "find (\<lambda>t. t = s) [0..<LLAMA_MAX_SEQ] = Some s"
    unfolding find_Some_iff by (intro exI [of _ s]) simp
  with assms show ?thesis by (simp add: kv_seq_get_def kv_inv_lengths)
qed

lemma kv_for_each_token_in_set:
  assumes "kv_inv c"
  shows "(s, p, t) \<in> set (kv_for_each_token_in seqs p0 p1 c) \<longleftrightarrow>
    (\<exists>i<kv_size c. c_pos c ! i = p \<and> p \<noteq> -1 \<and> p0 \<le> p \<and> p < p1 \<and> s \<in> c_seq c ! i \<and> s \<in> seqs \<and>
       t = ext_tok (c_ext c ! i))"
proof -
  have used: "c_used c = {i. i < kv_size c \<and> c_pos c ! i \<noteq> -1}" using assms by (simp add: kv_inv_def)
  then have "finite (c_used c)" by simp
  then show ?thesis
    unfolding kv_for_each_token_in_def Let_def using used kv_inv_seq_mem(1) [OF assms]
    by (fastforce split: if_splits)
qed

section \<open>Saving and restoring\<close>

lemma kv_set_cell_spec:
  assumes "kv_inv c" "i < kv_size c" "c_shift c ! i = 0" "cell_ok p S 0"
  shows "\<exists>c'. kv_set_cell i p e S c = Some c' \<and> kv_inv c' \<and> cells c' = (cells c)[i := (p, S)] \<and>
    c_ext c' = (c_ext c)[i := e] \<and> c_shift c' = c_shift c"
proof -
  have len: "i < length (c_pos c)" "i < length (c_seq c)" "i < length (c_shift c)"
    using assms(2) kv_inv_lengths [OF assms(1)] by simp_all
  define u where "u = (if p = -1 then c_used c - {i} else insert i (c_used c))"
  let ?c0 = "c\<lparr>c_used := u\<rparr>"
  have used: "i \<in> c_used c \<longleftrightarrow> c_pos c ! i \<noteq> -1" using assms by (simp add: kv_inv_def)
  have u: "kv_set_used i p c = ?c0"
    using used by (auto simp: insert_absorb u_def kv_set_used_def)
  have "\<exists>sp. (if c_pos ?c0 ! i \<noteq> -1 then seq_pos_rm i ?c0 else Some ?c0) = Some (?c0\<lparr>c_seq_pos := sp\<rparr>) \<and>
     length sp = LLAMA_MAX_SEQ \<and> (\<forall>s<LLAMA_MAX_SEQ. cnt_inv (sp ! s) \<and>
       cnt_bag (sp ! s) = seq_bag s (cells c) - (if s \<in> c_seq c ! i then {#c_pos c ! i#} else {#}))"
  proof (cases "c_pos c ! i = -1")
    case True
    with kv_inv_cell [OF assms(1,2)] kv_inv_seq_pos [OF assms(1)] kv_inv_lengths(4) [OF assms(1)] show ?thesis
      by (intro exI [of _ "c_seq_pos c"]) (simp add: cell_ok_def)
  next
    case False
    have "\<And>s. s \<in> c_seq c ! i \<Longrightarrow> s < LLAMA_MAX_SEQ \<Longrightarrow> c_pos c ! i \<in># cnt_bag (c_seq_pos c ! s)"
      using kv_inv_seq_mem [OF assms(1,2)] by blast
    with seq_pos_rm_spec [of ?c0 i "c_seq c ! i" "c_pos c ! i"] False
      kv_inv_seq_pos [OF assms(1)] kv_inv_lengths(4) [OF assms(1)]
    show ?thesis by simp
  qed
  then obtain sp where sp: "(if c_pos ?c0 ! i \<noteq> -1 then seq_pos_rm i ?c0 else Some ?c0) = Some (?c0\<lparr>c_seq_pos := sp\<rparr>)"
    "length sp = LLAMA_MAX_SEQ" "\<forall>s<LLAMA_MAX_SEQ. cnt_inv (sp ! s) \<and>
       cnt_bag (sp ! s) = seq_bag s (cells c) - (if s \<in> c_seq c ! i then {#c_pos c ! i#} else {#})" by blast
  let ?c1 = "?c0\<lparr>c_seq_pos := sp, c_pos := (c_pos c)[i := p], c_ext := (c_ext c)[i := e], c_seq := (c_seq c)[i := S]\<rparr>"
  have "\<exists>sp'. (if p \<noteq> -1 then seq_pos_add i ?c1 else Some ?c1) = Some (?c1\<lparr>c_seq_pos := sp'\<rparr>) \<and>
     length sp' = LLAMA_MAX_SEQ \<and> (\<forall>s<LLAMA_MAX_SEQ. cnt_inv (sp' ! s) \<and>
       cnt_bag (sp' ! s) = cnt_bag (sp ! s) + (if s \<in> S then {#p#} else {#}))"
    using seq_pos_add_spec [of ?c1 i S p] sp assms(4) len
    by (cases "p = -1") (simp_all add: cell_ok_def exI [of _ sp])
  then obtain sp' where sp': "(if p \<noteq> -1 then seq_pos_add i ?c1 else Some ?c1) = Some (?c1\<lparr>c_seq_pos := sp'\<rparr>)"
    "length sp' = LLAMA_MAX_SEQ" "\<forall>s<LLAMA_MAX_SEQ. cnt_inv (sp' ! s) \<and>
       cnt_bag (sp' ! s) = cnt_bag (sp ! s) + (if s \<in> S then {#p#} else {#})" by blast
  let ?c = "?c1\<lparr>c_seq_pos := sp'\<rparr>"
  have "kv_inv ?c \<and> cells ?c = (cells c)[i := (p, S)]"
    using assms sp sp' by (intro kv_inv_update [OF assms(1,2), where sh = 0]) (auto simp: upd_simps u_def)
  moreover have "kv_set_cell i p e S c = Some ?c"
    unfolding kv_set_cell_def Let_def u sp(1) using sp'(1) len assms(3) by (cases "p = -1") simp_all
  ultimately show ?thesis by auto
qed

lemma kv_set_idxs_spec:
  assumes "kv_inv c" and len: "length idxs = kv_size other" "length (c_seq other) = kv_size other"
    and idx: "\<And>j. j < length idxs \<Longrightarrow> idxs ! j < kv_size c \<and> c_shift c ! (idxs ! j) = 0"
    and ok: "\<And>j. j < length idxs \<Longrightarrow> cell_ok (c_pos other ! j) (c_seq other ! j) 0"
  shows "\<exists>c'. kv_set_idxs idxs other c = Some c' \<and> kv_inv c' \<and>
    cells c' = fold (\<lambda>j cs. cs[idxs ! j := (c_pos other ! j, c_seq other ! j)]) [0..<length idxs] (cells c) \<and>
    c_ext c' = fold (\<lambda>j es. es[idxs ! j := c_ext other ! j]) [0..<length idxs] (c_ext c) \<and>
    c_shift c' = c_shift c"
proof -
  let ?P = "\<lambda>done c'. kv_inv c' \<and> kv_size c' = kv_size c \<and>
    cells c' = fold (\<lambda>j cs. cs[idxs ! j := (c_pos other ! j, c_seq other ! j)]) done (cells c) \<and>
    c_ext c' = fold (\<lambda>j es. es[idxs ! j := c_ext other ! j]) done (c_ext c) \<and> c_shift c' = c_shift c"
  have "\<exists>c'. kv_set_idxs idxs other c = Some c' \<and> ?P [0..<kv_size other] c'"
    unfolding kv_set_idxs_def assert_that_bind if_P [OF len(1)]
  proof (rule foldM_rule)
    show "?P [] c" using assms(1) by simp
  next
    fix "done" x rest c1
    assume split: "[0..<kv_size other] = done @ x # rest" and P: "?P done c1"
    have "x \<in> set [0..<kv_size other]" unfolding split by simp
    then have x: "x < length idxs" using len by simp
    with P idx [OF x] ok [OF x] kv_set_cell_spec [of c1 "idxs ! x" "c_pos other ! x" "c_seq other ! x" "c_ext other ! x"]
    obtain c2 where c2: "kv_set_cell (idxs ! x) (c_pos other ! x) (c_ext other ! x) (c_seq other ! x) c1 = Some c2"
      "kv_inv c2" "cells c2 = (cells c1)[idxs ! x := (c_pos other ! x, c_seq other ! x)]"
      "c_ext c2 = (c_ext c1)[idxs ! x := c_ext other ! x]" "c_shift c2 = c_shift c1" by auto
    moreover have "kv_size c2 = kv_size c1"
      using c2(3) length_cells [OF c2(2)] length_cells [of c1] P by simp
    ultimately show "\<exists>c2. (if idxs ! x < kv_size c1
        then kv_set_cell (idxs ! x) (c_pos other ! x) (c_ext other ! x) (c_seq other ! x) c1 else None) = Some c2 \<and>
        ?P (done @ [x]) c2"
      using P idx [OF x] by simp
  qed
  then show ?thesis using len by auto
qed

lemma kv_resize_new_lists:
  "c_pos (kv_resize n kv_new) = replicate n (-1)" "c_ext (kv_resize n kv_new) = replicate n ext_default"
  "c_shift (kv_resize n kv_new) = replicate n 0" "c_seq (kv_resize n kv_new) = replicate n {}"
  by (simp_all add: kv_resize_def kv_reset_def kv_new_def map_const_replicate)

text \<open>What a saved copy holds: the chosen cells, in the order of the indices.\<close>

lemma kv_cp_idxs_spec:
  assumes idx: "\<And>j. j < length idxs \<Longrightarrow> idxs ! j < kv_size c \<and> c_shift c ! (idxs ! j) = 0"
  shows "\<exists>r. kv_cp_idxs idxs c = Some r \<and> c_pos r = map (\<lambda>i. c_pos c ! i) idxs \<and>
    c_ext r = map (\<lambda>i. c_ext c ! i) idxs \<and> c_seq r = map (\<lambda>i. c_seq c ! i) idxs"
proof -
  let ?n = "length idxs" and ?r = "kv_resize (length idxs) kv_new"
  let ?P = "\<lambda>done r. length (c_pos r) = ?n \<and> length (c_ext r) = ?n \<and> length (c_seq r) = ?n \<and>
    (\<forall>j\<in>set done. c_pos r ! j = c_pos c ! (idxs ! j) \<and> c_ext r ! j = c_ext c ! (idxs ! j) \<and>
       c_seq r ! j = c_seq c ! (idxs ! j))"
  have "\<exists>r. kv_cp_idxs idxs c = Some r \<and> ?P [0..<?n] r"
    unfolding kv_cp_idxs_def
  proof (rule foldM_rule)
    show "?P [] ?r" by (simp add: kv_resize_new_lists)
  next
    fix "done" x rest r
    assume split: "[0..<?n] = done @ x # rest" and P: "?P done r"
    have "x \<in> set [0..<?n]" unfolding split by simp
    with P idx [of x] show "\<exists>r'. (let idx = idxs ! x in assert_that (idx < kv_size c) \<bind> (\<lambda>_.
        assert_that (c_shift c ! idx = 0) \<bind> (\<lambda>_. Some (r\<lparr>c_pos := (c_pos r)[x := c_pos c ! idx],
          c_ext := (c_ext r)[x := c_ext c ! idx], c_seq := (c_seq r)[x := c_seq c ! idx]\<rparr>)))) = Some r' \<and>
        ?P (done @ [x]) r'"
      by (auto simp: Let_def nth_list_update)
  qed
  then obtain r where r: "kv_cp_idxs idxs c = Some r" "?P [0..<?n] r" by blast
  then have "c_pos r = map (\<lambda>i. c_pos c ! i) idxs" "c_ext r = map (\<lambda>i. c_ext c ! i) idxs"
    "c_seq r = map (\<lambda>i. c_seq c ! i) idxs" by (auto intro: nth_equalityI)
  with r show ?thesis by blast
qed

lemma fold_restore:
  assumes "length xs = length ys" "\<And>i. i < length ys \<Longrightarrow> i \<notin> set idxs \<Longrightarrow> xs ! i = ys ! i"
    and "\<And>j. j < length idxs \<Longrightarrow> idxs ! j < length ys"
    and "\<And>j. j < length idxs \<Longrightarrow> v j = ys ! (idxs ! j)"
  shows "fold (\<lambda>j zs. zs[idxs ! j := v j]) [0..<length idxs] xs = ys"
proof -
  have "k \<le> length idxs \<Longrightarrow> length (fold (\<lambda>j zs. zs[idxs ! j := v j]) [0..<k] xs) = length ys \<and>
    (\<forall>i<length ys. i \<in> set (take k idxs) \<or> i \<notin> set idxs \<longrightarrow>
       fold (\<lambda>j zs. zs[idxs ! j := v j]) [0..<k] xs ! i = ys ! i)" for k
  proof (induction k)
    case 0
    then show ?case using assms by simp
  next
    case (Suc k)
    let ?z = "fold (\<lambda>j zs. zs[idxs ! j := v j]) [0..<k] xs"
    from Suc have z: "length ?z = length ys"
      "\<And>i. i < length ys \<Longrightarrow> i \<in> set (take k idxs) \<or> i \<notin> set idxs \<Longrightarrow> ?z ! i = ys ! i" by auto
    from Suc.prems have k: "k < length idxs" by simp
    have "?z[idxs ! k := v k] ! i = ys ! i"
      if "i < length ys" "i \<in> set (take (Suc k) idxs) \<or> i \<notin> set idxs" for i
    proof (cases "i = idxs ! k")
      case True
      with z(1) that(1) assms(4) [OF k] show ?thesis by (simp only: nth_list_update_eq)
    next
      case False
      with that k have "i \<in> set (take k idxs) \<or> i \<notin> set idxs" by (simp add: take_Suc_conv_app_nth)
      with False z(2) [OF that(1)] show ?thesis by simp
    qed
    moreover have "fold (\<lambda>j zs. zs[idxs ! j := v j]) [0..<Suc k] xs = ?z[idxs ! k := v k]" by simp
    ultimately show ?case using z(1) by (simp only: length_list_update) blast
  qed
  from this [of "length idxs"] show ?thesis by (intro nth_equalityI) auto
qed

lemma kv_cp_eq_idxs: "i + n \<le> kv_size c \<Longrightarrow> kv_cp i n c = kv_cp_idxs [i..<i + n] c"
proof -
  assume le: "i + n \<le> kv_size c"
  show "kv_cp i n c = kv_cp_idxs [i..<i + n] c"
    unfolding kv_cp_def kv_cp_idxs_def using le by (auto simp: Let_def intro!: foldM_cong)
qed

lemma kv_set_eq_idxs:
  assumes "i + kv_size other \<le> kv_size c" "kv_inv c"
    and "\<And>j. j < kv_size other \<Longrightarrow> c_shift c ! (i + j) = 0 \<and> cell_ok (c_pos other ! j) (c_seq other ! j) 0"
  shows "kv_set i other c = kv_set_idxs [i..<i + kv_size other] other c"
proof -
  let ?f = "\<lambda>j. kv_set_cell (i + j) (c_pos other ! j) (c_ext other ! j) (c_seq other ! j)"
  have "n \<le> kv_size other \<Longrightarrow> \<exists>c'. foldM ?f [0..<n] c = Some c' \<and>
      foldM (\<lambda>j c. if i + j < kv_size c then ?f j c else None) [0..<n] c = Some c' \<and>
      kv_inv c' \<and> kv_size c' = kv_size c \<and> c_shift c' = c_shift c" for n
  proof (induction n)
    case 0
    then show ?case using assms(2) by simp
  next
    case (Suc n)
    then obtain c' where c': "foldM ?f [0..<n] c = Some c'"
      "foldM (\<lambda>j c. if i + j < kv_size c then ?f j c else None) [0..<n] c = Some c'"
      "kv_inv c'" "kv_size c' = kv_size c" "c_shift c' = c_shift c" by auto
    with Suc.prems assms kv_set_cell_spec [of c' "i + n" "c_pos other ! n" "c_seq other ! n" "c_ext other ! n"]
    obtain c'' where c'': "?f n c' = Some c''" "kv_inv c''" "length (cells c'') = length (cells c')"
      "c_shift c'' = c_shift c'" by auto
    with c' have "kv_size c'' = kv_size c" by (simp add: length_cells)
    with c' c'' Suc.prems assms(1) show ?case by (simp add: foldM_append)
  qed
  from this [of "kv_size other"] have eq: "foldM ?f [0..<kv_size other] c =
      foldM (\<lambda>j c. if i + j < kv_size c then ?f j c else None) [0..<kv_size other] c" by auto
  have "foldM (\<lambda>j c. if i + j < kv_size c then ?f j c else None) [0..<kv_size other] c =
      foldM (\<lambda>j c. if [i..<i + kv_size other] ! j < kv_size c
        then kv_set_cell ([i..<i + kv_size other] ! j) (c_pos other ! j) (c_ext other ! j) (c_seq other ! j) c
        else None) [0..<kv_size other] c"
    by (rule foldM_cong) simp
  with eq assms(1) show ?thesis
    by (simp add: kv_set_def kv_set_idxs_def)
qed

section \<open>The class as a machine over its operations\<close>

datatype kv_op =
    OpReset
  | OpResetShift
  | OpRm nat
  | OpSeqRm nat nat
  | OpSeqKeep nat nat
  | OpSeqAdd nat nat
  | OpPosSet nat llama_pos
  | OpExtSet nat kv_cell_ext
  | OpPosAdd nat llama_pos
  | OpPosDiv nat int

fun run_op :: "kv_op \<Rightarrow> kv_cells \<Rightarrow> kv_cells option" where
  "run_op OpReset c = Some (kv_reset c)"
| "run_op OpResetShift c = Some (kv_reset_shift c)"
| "run_op (OpRm i) c = kv_rm i c"
| "run_op (OpSeqRm i s) c = map_option fst (kv_seq_rm i s c)"
| "run_op (OpSeqKeep i s) c = map_option fst (kv_seq_keep i s c)"
| "run_op (OpSeqAdd i s) c = kv_seq_add i s c"
| "run_op (OpPosSet i p) c = kv_pos_set i p c"
| "run_op (OpExtSet i e) c = kv_ext_set i e c"
| "run_op (OpPosAdd i d) c = map_option fst (kv_pos_add i d c)"
| "run_op (OpPosDiv i d) c = kv_pos_div i d c"

text \<open>What each operation asks of its caller, as the comments of the class and its asserts say.\<close>

fun op_pre :: "kv_op \<Rightarrow> kv_cells \<Rightarrow> bool" where
  "op_pre OpReset c = True"
| "op_pre OpResetShift c = True"
| "op_pre (OpRm i) c = (i < kv_size c \<and> c_pos c ! i \<noteq> -1)"
| "op_pre (OpSeqRm i s) c = (i < kv_size c \<and> s \<in> c_seq c ! i)"
| "op_pre (OpSeqKeep i s) c =
     (i < kv_size c \<and> s < LLAMA_MAX_SEQ \<and> (c_seq c ! i = {} \<longrightarrow> c_pos c ! i = -1))"
| "op_pre (OpSeqAdd i s) c =
     (i < kv_size c \<and> c_pos c ! i \<noteq> -1 \<and> s < LLAMA_MAX_SEQ \<and> s \<notin> c_seq c ! i)"
| "op_pre (OpPosSet i p) c = (i < kv_size c \<and> c_pos c ! i = -1 \<and> 0 \<le> p)"
| "op_pre (OpExtSet i e) c = (i < kv_size c)"
| "op_pre (OpPosAdd i d) c =
     (i < kv_size c \<and> c_pos c ! i \<noteq> -1 \<and> i32_ok (c_pos c ! i + d) \<and> i32_ok (c_shift c ! i + d))"
| "op_pre (OpPosDiv i d) c =
     (i < kv_size c \<and> c_pos c ! i \<noteq> -1 \<and> 0 < d \<and> i32_ok (c_pos c ! i div d) \<and>
      i32_ok (c_shift c ! i + (c_pos c ! i - c_pos c ! i div d)))"

text \<open>The specification: the same operations on the abstract contents.\<close>

fun abs_op :: "kv_op \<Rightarrow> cell_contents \<Rightarrow> cell_contents" where
  "abs_op OpReset cs = map (\<lambda>_. (-1, {})) cs"
| "abs_op OpResetShift cs = cs"
| "abs_op (OpRm i) cs = cs[i := (-1, {})]"
| "abs_op (OpSeqRm i s) cs = (case cs ! i of (p, S) \<Rightarrow> cs[i := if S = {s} then (-1, {}) else (p, S - {s})])"
| "abs_op (OpSeqKeep i s) cs = (case cs ! i of (p, S) \<Rightarrow> cs[i := if s \<in> S then (p, {s}) else (-1, {})])"
| "abs_op (OpSeqAdd i s) cs = (case cs ! i of (p, S) \<Rightarrow> cs[i := (p, insert s S)])"
| "abs_op (OpPosSet i p) cs = cs[i := (p, {})]"
| "abs_op (OpExtSet i e) cs = cs"
| "abs_op (OpPosAdd i d) cs = (case cs ! i of (p, S) \<Rightarrow> cs[i := if p + d < 0 then (-1, {}) else (p + d, S)])"
| "abs_op (OpPosDiv i d) cs = (case cs ! i of (p, S) \<Rightarrow> cs[i := (p div d, S)])"

fun op_args_ok :: "kv_op \<Rightarrow> bool" where
  "op_args_ok (OpPosSet i p) = (0 \<le> p)"
| "op_args_ok (OpPosDiv i d) = (0 < d)"
| "op_args_ok _ = True"

lemma run_op_refines:
  assumes "kv_inv c" "op_pre op c"
  shows "\<exists>c'. run_op op c = Some c' \<and> kv_inv c' \<and> cells c' = abs_op op (cells c)"
proof (cases op)
  case OpReset
  then show ?thesis
    using kv_reset_spec [OF assms(1)] by (simp add: map_const_replicate length_cells [OF assms(1)])
next
  case OpResetShift
  then show ?thesis using kv_reset_shift_spec [OF assms(1)] by simp
next
  case (OpRm i)
  then show ?thesis using kv_rm_spec [of c i] assms by simp
next
  case (OpSeqRm i s)
  then show ?thesis using kv_seq_rm_spec [of c i s] assms by (auto simp: nth_cells split del: if_split)
next
  case (OpSeqKeep i s)
  then show ?thesis using kv_seq_keep_spec [of c i s] assms by (auto simp: nth_cells)
next
  case (OpSeqAdd i s)
  then show ?thesis using kv_seq_add_spec [of c i s] assms by (auto simp: nth_cells)
next
  case (OpPosSet i p)
  then show ?thesis using kv_pos_set_spec [of c i p] assms by auto
next
  case (OpExtSet i e)
  then show ?thesis using kv_ext_set_spec [of c i e] assms by auto
next
  case (OpPosAdd i d)
  then show ?thesis using kv_pos_add_spec [of c i d] assms by (auto simp: nth_cells)
next
  case (OpPosDiv i d)
  then show ?thesis using kv_pos_div_spec [of c i d] assms by (auto simp: nth_cells)
qed

text \<open>Conversely a completed operation had its precondition: the asserts of the class check it.\<close>

lemma seq_pos_rm_frame: "seq_pos_rm i c = Some c' \<Longrightarrow> \<exists>sp. c' = c\<lparr>c_seq_pos := sp\<rparr>"
  by (auto simp: seq_pos_rm_eq)

lemmas run_op_defs = kv_rm_def kv_seq_rm_def kv_seq_keep_def kv_seq_add_def kv_pos_set_def kv_ext_set_def
  kv_pos_add_def kv_pos_div_def

lemma run_op_pre:
  assumes "kv_inv c" "run_op op c = Some c'" "op_args_ok op"
  shows "op_pre op c"
proof (cases op)
  case (OpPosAdd i d)
  with assms show ?thesis
    by (auto simp: kv_pos_add_def Option.bind_eq_Some_conv i32_Some dest!: seq_pos_rm_frame split: if_splits)
next
  case (OpPosDiv i d)
  with assms have i: "i < kv_size c" "c_pos c ! i \<noteq> -1" "0 < d" by (auto simp: kv_pos_div_def split: if_splits)
  with kv_inv_cell [OF assms(1) i(1)] have "cdiv (c_pos c ! i) d = c_pos c ! i div d"
    by (auto simp: cell_ok_def cdiv_nonneg)
  with OpPosDiv assms i show ?thesis
    by (auto simp: kv_pos_div_def Option.bind_eq_Some_conv i32_Some Let_def
        dest!: seq_pos_rm_frame split: if_splits)
qed (use assms in \<open>auto simp: run_op_defs kv_inv_lengths split: if_splits\<close>)

lemma kv_set_cell_shift:
  "kv_set_cell i p e S c = Some c' \<Longrightarrow> c_shift c ! i = 0"
  by (auto simp: kv_set_cell_def kv_set_used_def seq_pos_rm_eq seq_pos_add_eq Let_def
      Option.bind_eq_Some_conv split: if_splits)

lemma kv_set_idxs_pre:
  assumes "kv_inv c" "length (c_seq other) = kv_size other" "kv_set_idxs idxs other c = Some c'"
    and ok: "\<And>j. j < length idxs \<Longrightarrow> cell_ok (c_pos other ! j) (c_seq other ! j) 0"
  shows "length idxs = kv_size other \<and> (\<forall>j<length idxs. idxs ! j < kv_size c \<and> c_shift c ! (idxs ! j) = 0)"
proof -
  let ?P = "\<lambda>done c1. kv_inv c1 \<and> kv_size c1 = kv_size c \<and> c_shift c1 = c_shift c \<and>
    (\<forall>j\<in>set done. idxs ! j < kv_size c \<and> c_shift c ! (idxs ! j) = 0)"
  from assms(3) have len: "length idxs = kv_size other"
    and run: "foldM (\<lambda>j c. assert_that (idxs ! j < kv_size c) \<bind> (\<lambda>_. kv_set_cell (idxs ! j)
      (c_pos other ! j) (c_ext other ! j) (c_seq other ! j) c)) [0..<kv_size other] c = Some c'"
    by (auto simp: kv_set_idxs_def split: if_splits)
  have "?P [0..<kv_size other] c'"
  proof (rule foldM_partial [OF run])
    show "?P [] c" using assms(1) by simp
  next
    fix "done" x rest c1 c2
    assume split: "[0..<kv_size other] = done @ x # rest" and P: "?P done c1"
      and step: "assert_that (idxs ! x < kv_size c1) \<bind> (\<lambda>_. kv_set_cell (idxs ! x)
        (c_pos other ! x) (c_ext other ! x) (c_seq other ! x) c1) = Some c2"
    have "x \<in> set [0..<kv_size other]" unfolding split by simp
    then have x: "x < length idxs" using len by simp
    from step have i: "idxs ! x < kv_size c1" and set: "kv_set_cell (idxs ! x)
        (c_pos other ! x) (c_ext other ! x) (c_seq other ! x) c1 = Some c2" by (auto split: if_splits)
    from kv_set_cell_shift [OF set] P i ok [OF x] set
      kv_set_cell_spec [of c1 "idxs ! x" "c_pos other ! x" "c_seq other ! x" "c_ext other ! x"]
    have c2: "kv_inv c2" "length (cells c2) = length (cells c1)" "c_shift c2 = c_shift c1" by auto
    then have "kv_size c2 = kv_size c1" using P by (simp add: length_cells)
    with c2 P i kv_set_cell_shift [OF set] show "?P (done @ [x]) c2" by auto
  qed
  with len show ?thesis by auto
qed

section \<open>Reachable states\<close>

inductive kv_reachable :: "kv_cells \<Rightarrow> bool" where
  start: "kv_reachable (kv_resize n kv_new)"
| operate: "kv_reachable c \<Longrightarrow> op_args_ok op \<Longrightarrow> run_op op c = Some c' \<Longrightarrow> kv_reachable c'"
| restore: "kv_reachable c0 \<Longrightarrow> kv_reachable c \<Longrightarrow> kv_cp_idxs idxs c0 = Some r \<Longrightarrow>
    kv_set_idxs idxs r c = Some c' \<Longrightarrow> kv_reachable c'"

lemma kv_cp_idxs_pre:
  assumes "kv_cp_idxs idxs c = Some r"
  shows "\<forall>j<length idxs. idxs ! j < kv_size c \<and> c_shift c ! (idxs ! j) = 0"
proof -
  have "\<forall>j\<in>set [0..<length idxs]. idxs ! j < kv_size c \<and> c_shift c ! (idxs ! j) = 0"
  proof (rule foldM_partial [OF assms [unfolded kv_cp_idxs_def],
        where P = "\<lambda>done _. \<forall>j\<in>set done. idxs ! j < kv_size c \<and> c_shift c ! (idxs ! j) = 0"])
    fix "done" x rest and r1 r2 :: kv_cells
    assume "\<forall>j\<in>set done. idxs ! j < kv_size c \<and> c_shift c ! (idxs ! j) = 0"
      and "(let idx = idxs ! x in assert_that (idx < kv_size c) \<bind> (\<lambda>_.
        assert_that (c_shift c ! idx = 0) \<bind> (\<lambda>_. Some (r1\<lparr>c_pos := (c_pos r1)[x := c_pos c ! idx],
          c_ext := (c_ext r1)[x := c_ext c ! idx], c_seq := (c_seq r1)[x := c_seq c ! idx]\<rparr>)))) = Some r2"
    then show "\<forall>j\<in>set (done @ [x]). idxs ! j < kv_size c \<and> c_shift c ! (idxs ! j) = 0"
      by (auto simp: Let_def split: if_splits)
  qed simp
  then show ?thesis by simp
qed

lemma kv_saved_ok:
  assumes "kv_inv c" "kv_cp_idxs idxs c = Some r"
  shows "c_pos r = map (\<lambda>i. c_pos c ! i) idxs \<and> c_seq r = map (\<lambda>i. c_seq c ! i) idxs \<and>
    c_ext r = map (\<lambda>i. c_ext c ! i) idxs \<and>
    (\<forall>j<length idxs. cell_ok (c_pos r ! j) (c_seq r ! j) 0)"
proof -
  note pre = kv_cp_idxs_pre [OF assms(2)]
  with kv_cp_idxs_spec [of idxs c] assms(2) have r: "c_pos r = map (\<lambda>i. c_pos c ! i) idxs"
    "c_seq r = map (\<lambda>i. c_seq c ! i) idxs" "c_ext r = map (\<lambda>i. c_ext c ! i) idxs" by auto
  moreover have "cell_ok (c_pos c ! (idxs ! j)) (c_seq c ! (idxs ! j)) 0" if "j < length idxs" for j
    using kv_inv_cell [OF assms(1), of "idxs ! j"] pre that by auto
  ultimately show ?thesis by simp
qed

lemma kv_restore_saved:
  assumes inv0: "kv_inv c0" and inv: "kv_inv c" and "kv_size c = kv_size c0"
    and "\<forall>i<kv_size c0. i \<notin> set idxs \<longrightarrow> cells c ! i = cells c0 ! i \<and> c_ext c ! i = c_ext c0 ! i"
    and "\<forall>i\<in>set idxs. i < kv_size c0 \<and> c_shift c0 ! i = 0 \<and> c_shift c ! i = 0"
  shows "\<exists>r c'. kv_cp_idxs idxs c0 = Some r \<and> kv_set_idxs idxs r c = Some c' \<and>
    kv_inv c' \<and> cells c' = cells c0 \<and> c_ext c' = c_ext c0 \<and> c_shift c' = c_shift c"
proof -
  have idx: "idxs ! j < kv_size c0 \<and> c_shift c0 ! (idxs ! j) = 0 \<and> c_shift c ! (idxs ! j) = 0"
    if "j < length idxs" for j using assms(5) that by simp
  from kv_cp_idxs_spec [of idxs c0] idx obtain r where r: "kv_cp_idxs idxs c0 = Some r" by blast
  note saved = kv_saved_ok [OF inv0 r]
  then have len: "length idxs = kv_size r" "length (c_seq r) = kv_size r" by (simp_all add: kv_size_def)
  have "\<And>j. j < length idxs \<Longrightarrow> idxs ! j < kv_size c \<and> c_shift c ! (idxs ! j) = 0"
    using idx assms(3) by simp
  from kv_set_idxs_spec [OF inv len this] saved obtain c' where c': "kv_set_idxs idxs r c = Some c'" "kv_inv c'"
    "cells c' = fold (\<lambda>j cs. cs[idxs ! j := (c_pos r ! j, c_seq r ! j)]) [0..<length idxs] (cells c)"
    "c_ext c' = fold (\<lambda>j es. es[idxs ! j := c_ext r ! j]) [0..<length idxs] (c_ext c)" "c_shift c' = c_shift c" by blast
  have "cells c' = cells c0"
    unfolding c'(3) using assms(3,4) idx saved inv inv0
    by (intro fold_restore) (simp_all add: length_cells nth_cells)
  moreover have "c_ext c' = c_ext c0"
    unfolding c'(4) using assms(3,4) idx saved kv_inv_lengths(1) [OF inv] kv_inv_lengths(1) [OF inv0]
    by (intro fold_restore) simp_all
  ultimately show ?thesis using r c' by blast
qed

lemma kv_reachable_inv: "kv_reachable c \<Longrightarrow> kv_inv c"
proof (induction rule: kv_reachable.induct)
  case (start n)
  show ?case using kv_inv_new by blast
next
  case (operate c op c')
  from run_op_refines [OF operate.IH run_op_pre [OF operate.IH operate.hyps(3,2)]] operate.hyps(3)
  show ?case by auto
next
  case (restore c0 c idxs r c')
  note saved = kv_saved_ok [OF restore.IH(1) restore.hyps(3)]
  then have len: "length (c_seq r) = kv_size r" by (simp only: kv_size_def length_map)
  from saved have ok: "\<And>j. j < length idxs \<Longrightarrow> cell_ok (c_pos r ! j) (c_seq r ! j) 0" by blast
  note pre = kv_set_idxs_pre [OF restore.IH(2) len restore.hyps(4) ok]
  then have "\<And>j. j < length idxs \<Longrightarrow> idxs ! j < kv_size c \<and> c_shift c ! (idxs ! j) = 0" by blast
  from kv_set_idxs_spec [OF restore.IH(2) conjunct1 [OF pre] len this ok] restore.hyps(4)
  show ?case by (metis option.inject)
qed

section \<open>Properties\<close>

text \<open>C5. The bookkeeping of \<open>llama_kv_cells\<close> is consistent in every state that the methods can
  reach from a resized object: \<open>used\<close> is the set of the cells with a position, every \<open>seq_pos[s]\<close> counts
  the positions of the cells that hold sequence \<open>s\<close>, no sequence is kept on an empty cell, and shifts are
  pending only when \<open>has_shift\<close> is set. So the position range of a sequence that the maps report is the
  range of its cells: the least and the greatest position over the cells that hold it, -1 when none does.\<close>

theorem kv_reachable_ranges:
  assumes "kv_reachable c" "s < LLAMA_MAX_SEQ"
  shows "kv_inv c \<and>
    kv_seq_pos_min s c = Some (if seq_positions s (cells c) = {} then -1 else Min (seq_positions s (cells c))) \<and>
    kv_seq_pos_max s c = Some (if seq_positions s (cells c) = {} then -1 else Max (seq_positions s (cells c)))"
  using kv_reachable_inv [OF assms(1)] kv_seq_pos_min_eq kv_seq_pos_max_eq assms(2) by blast

text \<open>A run for the witnesses: two cells, the first placed at position 5 for sequence 3.\<close>

definition kv_demo :: kv_cells where
  "kv_demo = the (foldM run_op [OpPosSet 0 5, OpSeqAdd 0 3] (kv_resize 2 kv_new))"

lemma kv_demo_run: "foldM run_op [OpPosSet 0 5, OpSeqAdd 0 3] (kv_resize 2 kv_new) = Some kv_demo"
  by (simp add: kv_demo_def kv_pos_set_def kv_seq_add_def kv_size_def kv_resize_new_lists LLAMA_MAX_SEQ_def)

lemma kv_demo_reachable: "kv_reachable kv_demo"
proof -
  from kv_demo_run obtain c where c: "run_op (OpPosSet 0 5) (kv_resize 2 kv_new) = Some c"
    "run_op (OpSeqAdd 0 3) c = Some kv_demo" by (auto simp: Option.bind_eq_Some_conv)
  from kv_reachable.operate [OF kv_reachable.start _ c(1)] have "kv_reachable c" by simp
  from kv_reachable.operate [OF this _ c(2)] show ?thesis by simp
qed

lemma kv_demo_lists:
  "c_pos kv_demo = [5, -1]" "c_seq kv_demo = [{3}, {}]" "c_shift kv_demo = [0, 0]"
  "c_ext kv_demo = [ext_default, ext_default]"
  by (simp_all add: kv_demo_def kv_pos_set_def kv_seq_add_def kv_size_def kv_resize_new_lists
      LLAMA_MAX_SEQ_def seq_pos_inc_def numeral_2_eq_2)

theorem kv_reachable_ranges_witness:
  "kv_inv kv_demo \<and> kv_seq_pos_min 3 kv_demo = Some 5 \<and> kv_seq_pos_max 3 kv_demo = Some 5"
proof -
  have "seq_positions 3 (cells kv_demo) = {5}"
    by (auto simp: seq_positions_def cells_def kv_demo_lists)
  then show ?thesis using kv_reachable_ranges [OF kv_demo_reachable, of 3] by (simp add: LLAMA_MAX_SEQ_def)
qed

text \<open>C7. The methods refine their description on the abstract contents. From a reachable object, a method
  whose documented precondition holds returns (no assert fires, no map entry is missing), leads to a
  reachable object, and changes the (position, sequences) pairs of the cells exactly as specified:
  \<open>seq_rm\<close> drops the sequence and empties the cell when it was the last one, \<open>seq_keep\<close> leaves only the
  sequence or empties the cell, \<open>pos_add\<close> empties a cell whose position becomes negative, and so on.\<close>

theorem kv_op_refines:
  assumes "kv_reachable c" "op_pre op c"
  shows "\<exists>c'. run_op op c = Some c' \<and> kv_reachable c' \<and> cells c' = abs_op op (cells c)"
proof -
  from run_op_refines [OF kv_reachable_inv [OF assms(1)] assms(2)] obtain c' where
    c': "run_op op c = Some c'" "cells c' = abs_op op (cells c)" by blast
  moreover have "op_args_ok op" using assms(2) by (cases op) simp_all
  ultimately show ?thesis using kv_reachable.operate [OF assms(1)] by blast
qed

theorem kv_op_refines_witness:
  "\<exists>c'. run_op (OpSeqRm 0 3) kv_demo = Some c' \<and> kv_reachable c' \<and> cells c' = [(-1, {}), (-1, {})]"
proof -
  have "op_pre (OpSeqRm 0 3) kv_demo" by (simp add: kv_size_def kv_demo_lists)
  from kv_op_refines [OF kv_demo_reachable this] show ?thesis by (simp add: cells_def kv_demo_lists)
qed

text \<open>Saving cells with \<open>cp(idxs)\<close> and writing them back with \<open>set(idxs, ...)\<close> restores the object:
  whatever happened meanwhile to the saved cells, if no other cell changed and no shift is pending on
  them, both calls return and afterwards every cell has the position, the sequences and the extra data it
  had when it was saved, with the position maps and the set of used cells rebuilt to match.\<close>

theorem kv_save_restore:
  assumes "kv_reachable c0" "kv_reachable c" "kv_size c = kv_size c0"
    and "\<forall>i<kv_size c0. i \<notin> set idxs \<longrightarrow> cells c ! i = cells c0 ! i \<and> c_ext c ! i = c_ext c0 ! i"
    and "\<forall>i\<in>set idxs. i < kv_size c0 \<and> c_shift c0 ! i = 0 \<and> c_shift c ! i = 0"
  shows "\<exists>r c'. kv_cp_idxs idxs c0 = Some r \<and> kv_set_idxs idxs r c = Some c' \<and>
    kv_inv c' \<and> cells c' = cells c0 \<and> c_ext c' = c_ext c0"
  using kv_restore_saved [OF kv_reachable_inv [OF assms(1)] kv_reachable_inv [OF assms(2)] assms(3-5)] by blast

theorem kv_save_restore_witness:
  "\<exists>r c'. kv_cp_idxs [0] (kv_resize 2 kv_new) = Some r \<and> kv_set_idxs [0] r kv_demo = Some c' \<and>
    kv_inv c' \<and> cells c' = [(-1, {}), (-1, {})] \<and> c_ext c' = [ext_default, ext_default]"
proof -
  have cs: "cells (kv_resize 2 kv_new) = [(-1, {}), (-1, {})]" "c_ext (kv_resize 2 kv_new) = [ext_default, ext_default]"
    by (simp_all add: kv_inv_new kv_resize_new_lists numeral_2_eq_2)
  show ?thesis
    unfolding cs [symmetric]
    by (rule kv_save_restore [OF kv_reachable.start kv_demo_reachable])
       (auto simp: kv_size_def kv_demo_lists kv_resize_new_lists cells_def numeral_2_eq_2 less_Suc_eq)
qed

text \<open>C38. What the pending shift of a cell means after the two position updates. \<open>pos_add\<close> on a cell it does not empty adds to the shift
  what it adds to the position, so position minus shift stays the position the cell was stored with.
  \<open>pos_div\<close> adds old position minus new position, the opposite sign: afterwards it is position PLUS
  shift that is unchanged, and position minus shift has moved by twice the change.\<close>

theorem kv_shift_accumulation:
  assumes "kv_reachable c"
  shows "(op_pre (OpPosAdd i d) c \<and> 0 \<le> c_pos c ! i + d \<longrightarrow>
      (\<exists>c'. kv_pos_add i d c = Some (c', False) \<and> c_pos c' ! i - c_shift c' ! i = c_pos c ! i - c_shift c ! i)) \<and>
    (op_pre (OpPosDiv i k) c \<longrightarrow>
      (\<exists>c'. kv_pos_div i k c = Some c' \<and> c_pos c' ! i + c_shift c' ! i = c_pos c ! i + c_shift c ! i \<and>
        c_pos c' ! i - c_shift c' ! i = c_pos c ! i - c_shift c ! i - 2 * (c_pos c ! i - c_pos c ! i div k)))"
proof -
  note inv = kv_reachable_inv [OF assms]
  have pos: "c_pos c' ! i = p" if "cells c' = (cells c)[i := (p, S)]" "kv_inv c'" "i < kv_size c" for c' p S
  proof -
    have "kv_size c' = kv_size c" using that length_cells [OF inv] length_cells [OF that(2)] by simp
    with that nth_cells [OF that(2), of i] show ?thesis by (simp add: length_cells inv)
  qed
  have "\<exists>c'. kv_pos_add i d c = Some (c', False) \<and> c_pos c' ! i - c_shift c' ! i = c_pos c ! i - c_shift c ! i"
    if pre: "op_pre (OpPosAdd i d) c" and nn: "0 \<le> c_pos c ! i + d"
  proof -
    from pre nn kv_pos_add_spec [OF inv, of i d] obtain c' where c': "kv_pos_add i d c = Some (c', False)" "kv_inv c'"
      "cells c' = (cells c)[i := (c_pos c ! i + d, c_seq c ! i)]"
      "c_shift c' = (c_shift c)[i := c_shift c ! i + d]" by auto
    with pos [OF c'(3,2)] pre show ?thesis by (simp add: kv_inv_lengths [OF inv])
  qed
  moreover have "\<exists>c'. kv_pos_div i k c = Some c' \<and> c_pos c' ! i + c_shift c' ! i = c_pos c ! i + c_shift c ! i \<and>
      c_pos c' ! i - c_shift c' ! i = c_pos c ! i - c_shift c ! i - 2 * (c_pos c ! i - c_pos c ! i div k)"
    if pre: "op_pre (OpPosDiv i k) c"
  proof -
    from pre kv_pos_div_spec [OF inv, of i k] obtain c' where c': "kv_pos_div i k c = Some c'" "kv_inv c'"
      "cells c' = (cells c)[i := (c_pos c ! i div k, c_seq c ! i)]"
      "c_shift c' = (c_shift c)[i := c_shift c ! i + (c_pos c ! i - c_pos c ! i div k)]" by auto
    with pos [OF c'(3,2)] pre show ?thesis by (simp add: kv_inv_lengths [OF inv])
  qed
  ultimately show ?thesis by blast
qed

theorem kv_shift_accumulation_witness:
  "(\<exists>c'. kv_pos_add 0 2 kv_demo = Some (c', False) \<and> c_pos c' ! 0 - c_shift c' ! 0 = 5) \<and>
   (\<exists>c'. kv_pos_div 0 2 kv_demo = Some c' \<and> c_pos c' ! 0 + c_shift c' ! 0 = 5 \<and> c_pos c' ! 0 - c_shift c' ! 0 = -1)"
  using kv_shift_accumulation [OF kv_demo_reachable, of 0 2 2]
  by (simp add: kv_size_def kv_demo_lists i32_ok_def)

text \<open>\<open>for_each_token_in(seqs, p0, p1, f)\<close> calls \<open>f\<close> for exactly the pairs of a non-empty cell with
  position in [p0, p1) and a sequence of \<open>seqs\<close> that the cell holds, with the position and the token of
  that cell, although it only walks the \<open>used\<close> set.\<close>

theorem kv_tokens_exact:
  assumes "kv_reachable c"
  shows "(s, p, t) \<in> set (kv_for_each_token_in seqs p0 p1 c) \<longleftrightarrow>
    (\<exists>i<kv_size c. cells c ! i \<noteq> (-1, {}) \<and> c_pos c ! i = p \<and> p0 \<le> p \<and> p < p1 \<and>
       s \<in> c_seq c ! i \<and> s \<in> seqs \<and> t = ext_tok (c_ext c ! i))"
proof -
  note inv = kv_reachable_inv [OF assms]
  have "cells c ! i \<noteq> (-1, {}) \<and> s \<in> c_seq c ! i \<longleftrightarrow> c_pos c ! i \<noteq> -1 \<and> s \<in> c_seq c ! i" if "i < kv_size c" for i
    using kv_inv_cell [OF inv that] nth_cells [OF inv that] by (auto simp: cell_ok_def)
  then show ?thesis unfolding kv_for_each_token_in_set [OF inv] by blast
qed

theorem kv_tokens_exact_witness:
  "(3, 5, LLAMA_TOKEN_NULL) \<in> set (kv_for_each_token_in {3, 4} 0 9 kv_demo)"
  unfolding kv_tokens_exact [OF kv_demo_reachable]
  by (intro exI [of _ 0]) (simp add: kv_size_def cells_def kv_demo_lists ext_default_def)

end
