(* ===== verification/UBatch.thy ===== *)
theory UBatch
  imports KvCells "HOL-Library.Word"
begin

text \<open>
  The micro-batch that the batch splitter (\<open>llama-batch.cpp\<close>) hands to the memory modules
  (\<open>llama-kv-cache.cpp\<close>): \<open>llama_ubatch\<close> of \<open>llama-batch.h\<close>. An array that may be a null
  pointer is an option; a \<open>float\<close> is only copied, so it is its 32 bits.
\<close>

type_synonym llama_seq_id = int
type_synonym float32 = "32 word"

record ubatch =
  ub_equal_seqs :: bool
  ub_n_tokens :: nat
  ub_n_seq_tokens :: nat
  ub_n_seqs :: nat
  ub_n_seqs_unq :: nat
  ub_n_pos :: nat
  ub_token :: "llama_token list option"
  ub_embd :: "float32 list option"
  ub_pos :: "llama_pos list"
  ub_n_seq_id :: "nat list"
  ub_seq_id :: "llama_seq_id list list"
  ub_seq_id_unq :: "llama_seq_id list"
  ub_seq_idx :: "int list"
  ub_output :: "bool list"

definition ub_is_pos_2d :: "ubatch \<Rightarrow> bool" where
  "ub_is_pos_2d u \<longleftrightarrow> ub_n_pos u \<ge> 3"

end
