(* ===== verification/Batch.thy ===== *)
theory Batch
  imports UBatch
begin

text \<open>
  The batch splitter \<open>llama_batch_allocr\<close> of \<open>llama-server/src/llama-batch.cpp\<close>: it checks and completes
  the user's batch (\<open>init\<close>) and cuts it into micro-batches (\<open>split_simple\<close>, \<open>split_equal\<close>, \<open>split_seq\<close>).
  A pointer that may be null is an option; \<open>std::bitset\<close> sequence sets are sets of numbers, and an
  \<open>int8_t\<close> output flag is whether it is nonzero. The memory module and the size of the vocabulary are
  parameters of \<open>init\<close>. Reading past an array is \<open>None\<close>, like a failed assert. Debug printing is left out.
\<close>

section \<open>State\<close>

record llama_batch =
  b_n_tokens :: nat
  b_token :: "llama_token list option"
  b_embd :: "float32 list option"
  b_pos :: "llama_pos list option"
  b_n_seq_id :: "nat list option"
  b_seq_id :: "llama_seq_id list list option"
  b_logits :: "bool list option"

record memory_i =
  mem_pos_min :: "nat \<Rightarrow> llama_pos"
  mem_pos_max :: "nat \<Rightarrow> llama_pos"

record batch_allocr =
  ba_batch :: llama_batch
  ba_n_pos_per_embd :: nat
  ba_n_embd :: nat
  ba_n_seq_max :: nat
  ba_n_outputs :: nat
  ba_seq_id_unq :: "llama_seq_id list"
  ba_seq_idx :: "int list"
  ba_has_cpl :: bool
  ba_seq_pos :: "llama_pos set list"
  ba_seq_cpl :: "bool list list"
  ba_seq_set :: "nat set list"
  ba_seq_set_map :: "nat set \<Rightarrow> nat list"
  ba_out_ids :: "nat list"
  ba_n_used :: nat
  ba_used :: "bool list"

definition batch_none :: llama_batch where
  "batch_none = \<lparr>b_n_tokens = 0, b_token = None, b_embd = None, b_pos = None, b_n_seq_id = None, b_seq_id = None, b_logits = None\<rparr>"

definition ba_new :: "nat \<Rightarrow> batch_allocr" where
  "ba_new n_pos = \<lparr>ba_batch = batch_none, ba_n_pos_per_embd = n_pos, ba_n_embd = 0, ba_n_seq_max = 0, ba_n_outputs = 0,
     ba_seq_id_unq = [], ba_seq_idx = replicate LLAMA_MAX_SEQ (-1), ba_has_cpl = False,
     ba_seq_pos = replicate LLAMA_MAX_SEQ {}, ba_seq_cpl = replicate LLAMA_MAX_SEQ (replicate LLAMA_MAX_SEQ False),
     ba_seq_set = [], ba_seq_set_map = (\<lambda>_. []), ba_out_ids = [], ba_n_used = 0, ba_used = []\<rparr>"

definition ba_clear :: "batch_allocr \<Rightarrow> batch_allocr" where
  "ba_clear a = a\<lparr>ba_n_outputs := 0, ba_batch := batch_none, ba_seq_id_unq := [],
     ba_seq_pos := map (\<lambda>_. {}) (ba_seq_pos a), ba_seq_cpl := map (map (\<lambda>_. False)) (ba_seq_cpl a),
     ba_seq_set := [], ba_seq_set_map := (\<lambda>_. []), ba_seq_idx := map (\<lambda>_. -1) (ba_seq_idx a)\<rparr>"

definition ba_split_reset :: "batch_allocr \<Rightarrow> batch_allocr" where
  "ba_split_reset a = a\<lparr>ba_out_ids := [], ba_n_used := 0, ba_used := replicate (b_n_tokens (ba_batch a)) False\<rparr>"

definition at_ptr :: "'a list option \<Rightarrow> nat \<Rightarrow> 'a option" where
  \<comment> \<open>reading through a pointer that may be null\<close>
  "at_ptr p i = do { xs \<leftarrow> p; at xs i }"

definition seq_ids :: "llama_batch \<Rightarrow> nat \<Rightarrow> llama_seq_id list option" where
  \<comment> \<open>\<open>seq_id[i][s]\<close> for \<open>s < n_seq_id[i]\<close>\<close>
  "seq_ids b i = do {
     n \<leftarrow> at_ptr (b_n_seq_id b) i;
     row \<leftarrow> at_ptr (b_seq_id b) i;
     assert_that (n \<le> length row);
     Some (take n row)
   }"

definition seq_id0 :: "llama_batch \<Rightarrow> nat \<Rightarrow> llama_seq_id option" where
  "seq_id0 b i = do { row \<leftarrow> at_ptr (b_seq_id b) i; at row 0 }"

definition seq_bit :: "llama_seq_id \<Rightarrow> nat option" where
  \<comment> \<open>a sequence id as an index\<close>
  "seq_bit s = (if 0 \<le> s \<and> nat s < LLAMA_MAX_SEQ then Some (nat s) else None)"

section \<open>Completing and checking the batch\<close>

definition check_input :: "nat \<Rightarrow> nat \<Rightarrow> llama_batch \<Rightarrow> bool option" where
  \<comment> \<open>the validation of the input\<close>
  "check_input n_vocab n_seq_max b =
     (if n_seq_max > LLAMA_MAX_SEQ then Some False
      else do {
        ok \<leftarrow> (if b_token b = None then Some True
          else checkM (\<lambda>i. do { t \<leftarrow> at_ptr (b_token b) i; Some (0 \<le> t \<and> nat t < n_vocab) }) [0..<b_n_tokens b]);
        if \<not> ok then Some False
        else if b_seq_id b = None then Some True
        else checkM (\<lambda>i. do { ids \<leftarrow> seq_ids b i; Some (\<forall>s\<in>set ids. 0 \<le> s \<and> s < int n_seq_max) }) [0..<b_n_tokens b]
      })"

definition gen_seq :: "llama_batch \<Rightarrow> llama_batch" where
  \<comment> \<open>missing sequence ids: every token belongs to sequence 0\<close>
  "gen_seq b =
     (let b = (if b_n_seq_id b = None then b\<lparr>b_n_seq_id := Some (replicate (b_n_tokens b) 1)\<rparr> else b)
      in if b_seq_id b = None then b\<lparr>b_seq_id := Some (replicate (b_n_tokens b) [0])\<rparr> else b)"

definition gen_pos_token :: "llama_batch \<Rightarrow> nat \<Rightarrow> llama_pos list \<times> llama_pos list \<Rightarrow> (llama_pos list \<times> llama_pos list) option" where
  "gen_pos_token b i = (\<lambda>(p0, pos). do {
     id \<leftarrow> seq_id0 b i;
     s \<leftarrow> seq_bit id;
     p \<leftarrow> at p0 s;
     ids \<leftarrow> seq_ids b i;
     p0 \<leftarrow> foldM (\<lambda>id p0. do {
         s \<leftarrow> seq_bit id;
         q \<leftarrow> i32 (p + 1);
         assert_that (s < length p0);
         Some (p0[s := q])
       }) ids p0;
     Some (p0, pos @ [p])
   })"

definition gen_pos :: "nat \<Rightarrow> memory_i option \<Rightarrow> llama_batch \<Rightarrow> llama_batch option" where
  \<comment> \<open>missing positions continue those in the memory\<close>
  "gen_pos n_seq_max mem b =
     (if b_pos b \<noteq> None then Some b
      else do {
        p0 \<leftarrow> foldM (\<lambda>s p0. do {
            q \<leftarrow> (case mem of None \<Rightarrow> Some 0 | Some m \<Rightarrow> i32 (mem_pos_max m s + 1));
            Some (p0 @ [q])
          }) [0..<n_seq_max] [];
        (p0, pos) \<leftarrow> foldM (gen_pos_token b) [0..<b_n_tokens b] (p0, []);
        Some (b\<lparr>b_pos := Some pos\<rparr>)
      })"

definition gen_logits :: "bool \<Rightarrow> llama_batch \<Rightarrow> llama_batch option" where
  "gen_logits output_all b =
     (let n = b_n_tokens b in
      case b_logits b of
        None \<Rightarrow> Some (b\<lparr>b_logits := Some (if output_all then replicate n True else (replicate n False)[n - 1 := True])\<rparr>)
      | Some l \<Rightarrow>
          if output_all then do {
            all_set \<leftarrow> foldM (\<lambda>i r. do { o' \<leftarrow> at l i; Some (r \<and> o') }) [0..<n] True;
            Some (if \<not> all_set then b\<lparr>b_logits := Some (replicate n True)\<rparr> else b)
          } else Some b)"

definition count_outputs :: "batch_allocr \<Rightarrow> batch_allocr option" where
  "count_outputs a = do {
     n \<leftarrow> foldM (\<lambda>i n. do { o' \<leftarrow> at_ptr (b_logits (ba_batch a)) i; Some (n + (if o' then 1 else 0)) })
       [0..<b_n_tokens (ba_batch a)] (ba_n_outputs a);
     Some (a\<lparr>ba_n_outputs := n\<rparr>)
   }"

definition couple_token :: "nat \<Rightarrow> batch_allocr \<Rightarrow> batch_allocr option" where
  \<comment> \<open>positions per sequence, and the pairs of sequences that share a token\<close>
  "couple_token i a = do {
     id0 \<leftarrow> seq_id0 (ba_batch a) i;
     ids \<leftarrow> seq_ids (ba_batch a) i;
     foldM (\<lambda>s a. do {
       s1 \<leftarrow> seq_bit (ids ! s);
       p \<leftarrow> at_ptr (b_pos (ba_batch a)) i;
       assert_that (s1 < length (ba_seq_pos a));
       let a = a\<lparr>ba_seq_pos := (ba_seq_pos a)[s1 := insert p (ba_seq_pos a ! s1)]\<rparr>;
       (if s > 0 then do {
          s0 \<leftarrow> seq_bit id0;
          row \<leftarrow> at (ba_seq_cpl a) s1;
          assert_that (s0 < length row);
          Some (a\<lparr>ba_seq_cpl := (ba_seq_cpl a)[s1 := row[s0 := True]], ba_has_cpl := True\<rparr>)
        } else Some a)
     }) [0..<length ids] a
   }"

definition token_set :: "llama_batch \<Rightarrow> nat \<Rightarrow> nat set option" where
  "token_set b i = do { ids \<leftarrow> seq_ids b i; foldM (\<lambda>id S. do { s \<leftarrow> seq_bit id; Some (insert s S) }) ids {} }"

definition collect_sets :: "nat \<Rightarrow> batch_allocr \<Rightarrow> batch_allocr option" where
  \<comment> \<open>the sequence set of every token, and the unique sequence ids in order\<close>
  "collect_sets n_seq_max a = do {
     (a, unq) \<leftarrow> foldM (\<lambda>i (a, unq). do {
         cur \<leftarrow> token_set (ba_batch a) i;
         Some (a\<lparr>ba_seq_set := ba_seq_set a @ [cur],
             ba_seq_set_map := (ba_seq_set_map a)(cur := ba_seq_set_map a cur @ [i])\<rparr>, unq \<union> cur)
       }) [0..<b_n_tokens (ba_batch a)] (a, {});
     foldM (\<lambda>s a. if s \<in> unq then do {
         assert_that (s < length (ba_seq_idx a));
         Some (a\<lparr>ba_seq_idx := (ba_seq_idx a)[s := int (length (ba_seq_id_unq a))],
             ba_seq_id_unq := ba_seq_id_unq a @ [int s]\<rparr>)
       } else Some a) [0..<n_seq_max] a
   }"

definition ba_seq_pos_min :: "batch_allocr \<Rightarrow> nat \<Rightarrow> llama_pos option" where
  "ba_seq_pos_min a s = do { P \<leftarrow> at (ba_seq_pos a) s; Some (if P = {} then -1 else Min P) }"

definition ba_seq_pos_max :: "batch_allocr \<Rightarrow> nat \<Rightarrow> llama_pos option" where
  "ba_seq_pos_max a s = do { P \<leftarrow> at (ba_seq_pos a) s; Some (if P = {} then -1 else Max P) }"

definition mem_last :: "memory_i option \<Rightarrow> nat \<Rightarrow> llama_pos" where
  "mem_last mem s = (case mem of None \<Rightarrow> -1 | Some m \<Rightarrow> mem_pos_max m s)"

definition check_pos_seq :: "memory_i option \<Rightarrow> batch_allocr \<Rightarrow> nat \<Rightarrow> bool option" where
  \<comment> \<open>the positions of one sequence against those in the memory\<close>
  "check_pos_seq mem a s = do {
     P \<leftarrow> at (ba_seq_pos a) s;
     if P = {} then Some True
     else do {
       lo \<leftarrow> ba_seq_pos_min a s;
       hi \<leftarrow> ba_seq_pos_max a s;
       let p0 = mem_last mem s;
       if ba_n_pos_per_embd a > 1 then
         Some (if b_token (ba_batch a) \<noteq> None then \<not> (p0 \<ge> 0 \<and> p0 \<ge> lo) else \<not> (p0 \<ge> 0 \<and> p0 > lo))
       else do {
         joined \<leftarrow> (if p0 \<ge> 0 then do { q \<leftarrow> i32 (p0 + 1); Some (lo = q) } else Some True);
         if \<not> joined then Some False
         else do { d \<leftarrow> i32 (hi - lo); d \<leftarrow> i32 (d + 1); Some (\<not> d > int (card P)) }
       }
     }
   }"

definition check_coupled :: "nat \<Rightarrow> memory_i option \<Rightarrow> batch_allocr \<Rightarrow> bool option" where
  "check_coupled n_seq_max mem a = (case mem of
     None \<Rightarrow> Some True
   | Some m \<Rightarrow> checkM (\<lambda>s0. checkM (\<lambda>s1. do {
         row \<leftarrow> at (ba_seq_cpl a) s0;
         c \<leftarrow> at row s1;
         Some (\<not> c \<or> mem_pos_min m s0 = mem_pos_min m s1 \<and> mem_pos_max m s0 = mem_pos_max m s1)
       }) [0..<n_seq_max]) [0..<n_seq_max])"

definition check_order_seq ::
  "batch_allocr \<Rightarrow> nat \<Rightarrow> llama_seq_id \<Rightarrow> nat set list \<times> llama_pos list \<Rightarrow> (nat set list \<times> llama_pos list) option option" where
  "check_order_seq a i sid = (\<lambda>(cur_set, cur_pos). do {
     p \<leftarrow> at_ptr (b_pos (ba_batch a)) i;
     s \<leftarrow> seq_bit sid;
     S \<leftarrow> at cur_set s;
     T \<leftarrow> at (ba_seq_set a) i;
     q \<leftarrow> at cur_pos s;
     if S \<inter> T = {} then Some None
     else if p < q then Some None
     else Some (Some (cur_set[s := S \<inter> T], cur_pos[s := p]))
   })"

definition check_order :: "nat \<Rightarrow> batch_allocr \<Rightarrow> bool option" where
  \<comment> \<open>no partial sub-sets of sequences, no decreasing positions\<close>
  "check_order n_seq_max a = map_option (\<lambda>r. r \<noteq> None)
     (loopM (\<lambda>i st. do { ids \<leftarrow> seq_ids (ba_batch a) i; loopM (check_order_seq a i) ids st })
       [0..<b_n_tokens (ba_batch a)] (replicate n_seq_max {0..<LLAMA_MAX_SEQ}, replicate n_seq_max (-1)))"

definition ba_stats :: "nat \<Rightarrow> nat \<Rightarrow> batch_allocr \<Rightarrow> batch_allocr option" where
  "ba_stats n_embd n_seq_max a = do {
     a \<leftarrow> count_outputs (a\<lparr>ba_n_embd := n_embd, ba_n_seq_max := n_seq_max\<rparr>);
     a \<leftarrow> foldM couple_token [0..<b_n_tokens (ba_batch a)] (a\<lparr>ba_has_cpl := False\<rparr>);
     collect_sets n_seq_max a
   }"

definition ba_consistent :: "nat \<Rightarrow> memory_i option \<Rightarrow> batch_allocr \<Rightarrow> bool option" where
  "ba_consistent n_seq_max mem a = do {
     ok \<leftarrow> checkM (check_pos_seq mem a) [0..<n_seq_max];
     if \<not> ok then Some False
     else do {
       ok \<leftarrow> check_coupled n_seq_max mem a;
       if \<not> ok then Some False else check_order n_seq_max a
     }
   }"

definition ba_init :: "llama_batch \<Rightarrow> nat \<Rightarrow> memory_i option \<Rightarrow> nat \<Rightarrow> nat \<Rightarrow> bool \<Rightarrow> batch_allocr \<Rightarrow> (bool \<times> batch_allocr) option" where
  "ba_init b n_vocab mem n_embd n_seq_max output_all a = do {
     let a = (ba_clear a)\<lparr>ba_batch := b\<rparr>;
     assert_that (b_n_tokens b > 0);
     ok \<leftarrow> check_input n_vocab n_seq_max b;
     if \<not> ok then Some (False, a)
     else do {
       b \<leftarrow> gen_pos n_seq_max mem (gen_seq b);
       b \<leftarrow> gen_logits output_all b;
       a \<leftarrow> ba_stats n_embd n_seq_max (a\<lparr>ba_batch := b\<rparr>);
       ok \<leftarrow> ba_consistent n_seq_max mem a;
       Some (if ok then (True, ba_split_reset a) else (False, a))
     }
   }"

section \<open>Building a micro-batch\<close>

definition ub_none :: ubatch where
  \<comment> \<open>the result \<open>{}\<close>: no token\<close>
  "ub_none = \<lparr>ub_equal_seqs = False, ub_n_tokens = 0, ub_n_seq_tokens = 0, ub_n_seqs = 0, ub_n_seqs_unq = 0, ub_n_pos = 0,
     ub_token = None, ub_embd = None, ub_pos = [], ub_n_seq_id = [], ub_seq_id = [], ub_seq_id_unq = [], ub_seq_idx = [],
     ub_output = []\<rparr>"

definition unq_ids :: "nat \<Rightarrow> nat set \<Rightarrow> llama_seq_id list \<times> int list" where
  \<comment> \<open>the sequence ids below \<open>n\<close> in the set, and their places\<close>
  "unq_ids n S = fold (\<lambda>s (unq, idx). if s \<in> S then (unq @ [int s], idx[s := int (length unq)]) else (unq, idx)) [0..<n]
     ([], replicate LLAMA_MAX_SEQ (-1))"

definition copy_embd :: "nat \<Rightarrow> llama_batch \<Rightarrow> nat list \<Rightarrow> float32 list option" where
  "copy_embd n_embd b idxs = foldM (\<lambda>i e. foldM (\<lambda>j e. do { v \<leftarrow> at_ptr (b_embd b) (i * n_embd + j); Some (e @ [v]) }) [0..<n_embd] e)
     idxs []"

definition copy_pos :: "nat \<Rightarrow> llama_batch \<Rightarrow> nat list \<Rightarrow> llama_pos list option" where
  \<comment> \<open>row \<open>j\<close> of the positions: that of the tokens in every row for text, row \<open>j\<close> for embeddings\<close>
  "copy_pos n_pos b idxs = foldM (\<lambda>j ps. foldM (\<lambda>i ps. do {
       p \<leftarrow> at_ptr (b_pos b) ((if b_token b \<noteq> None then 0 else j * b_n_tokens b) + i);
       Some (ps @ [p])
     }) idxs ps) [0..<n_pos] []"

definition ubatch_add :: "nat list \<Rightarrow> nat \<Rightarrow> bool \<Rightarrow> batch_allocr \<Rightarrow> (ubatch \<times> batch_allocr) option" where
  "ubatch_add idxs n_seqs equal_seqs a = do {
     assert_that (n_seqs \<noteq> 0 \<and> length idxs mod n_seqs = 0);
     let b = ba_batch a;
     toks \<leftarrow> foldM (\<lambda>i ts. if b_token b = None then Some ts else do { t \<leftarrow> at_ptr (b_token b) i; Some (ts @ [t]) }) idxs [];
     embd \<leftarrow> (if b_embd b = None then Some [] else copy_embd (ba_n_embd a) b idxs);
     ps \<leftarrow> copy_pos (ba_n_pos_per_embd a) b idxs;
     rows \<leftarrow> foldM (\<lambda>i rs. do { r \<leftarrow> seq_ids b i; Some (rs @ [r]) }) idxs [];
     S \<leftarrow> foldM (\<lambda>i S. do { T \<leftarrow> token_set b i; Some (S \<union> T) }) idxs {};
     (outs, out_ids) \<leftarrow> foldM (\<lambda>i (outs, out_ids). do {
         o' \<leftarrow> at_ptr (b_logits b) i;
         Some (outs @ [o'], if o' then out_ids @ [i] else out_ids)
       }) idxs ([], ba_out_ids a);
     let (unq, idx) = unq_ids (ba_n_seq_max a) S;
     Some (\<lparr>ub_equal_seqs = equal_seqs, ub_n_tokens = length idxs, ub_n_seq_tokens = length idxs div n_seqs,
         ub_n_seqs = n_seqs, ub_n_seqs_unq = length unq, ub_n_pos = ba_n_pos_per_embd a,
         ub_token = (if b_token b = None then None else Some toks), ub_embd = (if b_embd b = None then None else Some embd),
         ub_pos = ps, ub_n_seq_id = map length rows, ub_seq_id = rows, ub_seq_id_unq = unq, ub_seq_idx = idx, ub_output = outs\<rparr>,
       a\<lparr>ba_out_ids := out_ids\<rparr>)
   }"

section \<open>Splitting\<close>

definition first_unused :: "bool list \<Rightarrow> nat" where
  "first_unused used = length (takeWhile (\<lambda>u. u) used)"

type_synonym split_state = "nat list \<times> bool list \<times> nat"  \<comment> \<open>\<open>idxs\<close>, \<open>used\<close>, \<open>n_used\<close>\<close>

fun take_token :: "nat \<Rightarrow> split_state \<Rightarrow> split_state" where
  "take_token i (idxs, used, n_used) = (idxs @ [i], used[i := True], n_used + 1)"

lemma take_token_used [simp]: "length (fst (snd (take_token i st))) = length (fst (snd st))"
  by (cases st) simp

function simple_loop :: "nat \<Rightarrow> nat \<Rightarrow> split_state \<Rightarrow> split_state" where
  "simple_loop n_ubatch cur_idx st =
     (let st = take_token cur_idx st in
      if cur_idx + 1 \<ge> length (fst (snd st)) then st
      else if length (fst st) \<ge> n_ubatch then st
      else simple_loop n_ubatch (cur_idx + 1) st)"
  by auto
termination
  by (relation "measure (\<lambda>(n_ubatch, cur_idx, st). length (fst (snd st)) - cur_idx)") auto

declare simple_loop.simps [simp del]

definition split_simple :: "nat \<Rightarrow> batch_allocr \<Rightarrow> (ubatch \<times> batch_allocr) option" where
  "split_simple n_ubatch a =
     (let cur_idx = first_unused (ba_used a) in
      if cur_idx \<ge> length (ba_used a) then Some (ub_none, a)
      else case simple_loop n_ubatch cur_idx ([], ba_used a, ba_n_used a) of
        (idxs, used, n_used) \<Rightarrow> ubatch_add idxs (length idxs) False (a\<lparr>ba_used := used, ba_n_used := n_used\<rparr>))"

text \<open>\<open>split_equal\<close>: choose disjoint sequence sets, then take one token of each per round.\<close>

fun equal_sets :: "batch_allocr \<Rightarrow> bool \<Rightarrow> nat \<Rightarrow> nat list \<Rightarrow> nat set list \<times> llama_seq_id \<Rightarrow> nat set list option" where
  "equal_sets a sequential n_ubatch [] (sets, last_id) = Some sets"
| "equal_sets a sequential n_ubatch (i # is) (sets, last_id) = do {
     u \<leftarrow> at (ba_used a) i;
     if u then equal_sets a sequential n_ubatch is (sets, last_id)
     else do {
       S \<leftarrow> at (ba_seq_set a) i;
       if \<not> (\<forall>T\<in>set sets. T \<inter> S = {}) then equal_sets a sequential n_ubatch is (sets, last_id)
       else do {
         id0 \<leftarrow> seq_id0 (ba_batch a) i;
         if sequential \<and> sets \<noteq> [] \<and> id0 \<noteq> last_id + 1 then equal_sets a sequential n_ubatch is (sets, last_id)
         else if length sets + 1 > n_ubatch then Some (sets @ [S])
         else equal_sets a sequential n_ubatch is (sets @ [S], id0)
       }
     }
   }"

fun skip_used :: "bool list \<Rightarrow> nat list \<Rightarrow> nat option" where
  \<comment> \<open>the first entry of the list that is not used; there must be one\<close>
  "skip_used used [] = None"
| "skip_used used (i # is) = do { u \<leftarrow> at used i; if u then map_option Suc (skip_used used is) else Some 0 }"

record equal_state =
  es_cur :: "nat list"  \<comment> \<open>\<open>cur_idx\<close>\<close>
  es_idxs :: "nat list list"  \<comment> \<open>\<open>idxs_per_seq\<close>\<close>
  es_used :: "bool list"
  es_n_used :: nat

definition take_of :: "nat list \<Rightarrow> nat \<Rightarrow> equal_state \<Rightarrow> equal_state option" where
  \<comment> \<open>the next token of sequence set \<open>s\<close>, whose batch indices are \<open>l\<close>\<close>
  "take_of l s e = do {
     c \<leftarrow> at (es_cur e) s;
     i \<leftarrow> at l c;
     assert_that (s < length (es_idxs e) \<and> i < length (es_used e));
     Some \<lparr>es_cur = (es_cur e)[s := c + 1], es_idxs = (es_idxs e)[s := es_idxs e ! s @ [i]],
       es_used = (es_used e)[i := True], es_n_used = es_n_used e + 1\<rparr>
   }"

definition can_expand :: "nat list list \<Rightarrow> equal_state \<Rightarrow> bool" where
  "can_expand ls e \<longleftrightarrow> (\<forall>s<length ls. es_cur e ! s < length (ls ! s))"

partial_function (option) equal_loop :: "nat \<Rightarrow> nat list list \<Rightarrow> equal_state \<Rightarrow> equal_state option" where
  "equal_loop n_ubatch ls e =
     (if \<not> can_expand ls e then Some e
      else Option.bind (foldM (\<lambda>s. take_of (ls ! s) s) [0..<length ls] e) (\<lambda>e.
        if (length (es_idxs e ! 0) + 1) * length ls > n_ubatch then Some e
        else equal_loop n_ubatch ls e))"

declare equal_loop.simps [code]

definition n_remaining :: "nat list list \<Rightarrow> equal_state \<Rightarrow> nat \<Rightarrow> nat" where
  "n_remaining ls e s = length (ls ! s) - es_cur e ! s"

definition give_back :: "nat \<Rightarrow> equal_state \<Rightarrow> equal_state" where
  "give_back i e = e\<lparr>es_used := (es_used e)[i := False], es_n_used := es_n_used e - 1\<rparr>"

fun extend_seq :: "nat list \<Rightarrow> nat \<Rightarrow> equal_state \<Rightarrow> equal_state option" where
  \<comment> \<open>take the remaining \<open>n\<close> tokens of the first sequence set\<close>
  "extend_seq l 0 e = Some e"
| "extend_seq l (Suc n) e = do { e \<leftarrow> take_of l 0 e; extend_seq l n e }"

fun truncate_seq :: "nat \<Rightarrow> equal_state \<Rightarrow> equal_state option" where
  \<comment> \<open>give the last \<open>n\<close> tokens of the first sequence set back\<close>
  "truncate_seq 0 e = Some e"
| "truncate_seq (Suc n) e = do {
     xs \<leftarrow> at (es_idxs e) 0;
     assert_that (xs \<noteq> []);
     let e = give_back (last xs) e;
     truncate_seq n (e\<lparr>es_idxs := (es_idxs e)[0 := butlast xs], es_cur := (es_cur e)[0 := es_cur e ! 0 - 1]\<rparr>)
   }"

definition keep_tail :: "nat \<Rightarrow> nat \<Rightarrow> nat list list \<Rightarrow> equal_state \<Rightarrow> (nat \<times> equal_state) option" where
  \<comment> \<open>the number of sequence sets kept, and the state without the tokens of the others\<close>
  "keep_tail n_ubatch n_keep_tail ls e =
     (if n_keep_tail = 0 then Some (length ls, e)
      else do {
        assert_that (n_ubatch > n_keep_tail);
        let n_keep = length (takeWhile (\<lambda>s. \<not> (n_remaining ls e s \<noteq> 0 \<and> n_remaining ls e s < n_keep_tail)) [0..<length ls]);
        (n_keep, e) \<leftarrow> (if n_keep = 0 then do {
            e \<leftarrow> (if length (es_idxs e ! 0) + n_remaining ls e 0 \<le> n_ubatch
              then extend_seq (ls ! 0) (n_remaining ls e 0) e
              else truncate_seq (n_keep_tail - n_remaining ls e 0) e);
            Some (1, e)
          } else Some (n_keep, e));
        Some (n_keep, fold (\<lambda>s e. fold give_back (es_idxs e ! s) e) [n_keep..<length ls] e)
      })"

definition split_equal :: "nat \<Rightarrow> bool \<Rightarrow> nat \<Rightarrow> batch_allocr \<Rightarrow> (ubatch \<times> batch_allocr) option" where
  "split_equal n_ubatch sequential n_keep_tail a =
     (if sequential \<and> ba_has_cpl a then Some (ub_none, a)
      else do {
        sets \<leftarrow> equal_sets a sequential n_ubatch [0..<b_n_tokens (ba_batch a)] ([], -1);
        if sets = [] then Some (ub_none, a)
        else do {
          let ls = map (ba_seq_set_map a) sets;
          cur \<leftarrow> foldM (\<lambda>l cur. do { c \<leftarrow> skip_used (ba_used a) l; Some (cur @ [c]) }) ls [];
          e \<leftarrow> equal_loop n_ubatch ls \<lparr>es_cur = cur, es_idxs = replicate (length ls) [], es_used = ba_used a, es_n_used = ba_n_used a\<rparr>;
          (n_seqs, e) \<leftarrow> keep_tail n_ubatch n_keep_tail ls e;
          ubatch_add (concat (take n_seqs (es_idxs e))) n_seqs True (a\<lparr>ba_used := es_used e, ba_n_used := es_n_used e\<rparr>)
        }
      })"

text \<open>\<open>split_seq\<close>: one sequence set, narrowing to sub-sets.\<close>

fun next_subset :: "batch_allocr \<Rightarrow> bool list \<Rightarrow> nat set \<Rightarrow> nat list \<Rightarrow> nat option option" where
  \<comment> \<open>the \<open>do ... while\<close> loop: the next unused token whose set lies in the current one; \<open>Some None\<close> is the end\<close>
  "next_subset a used cur [] = Some None"
| "next_subset a used cur (i # is) = do {
     u \<leftarrow> at used i;
     if u then next_subset a used cur is
     else do { S \<leftarrow> at (ba_seq_set a) i; if cur \<inter> S \<noteq> S then next_subset a used cur is else Some (Some i) }
   }"

lemma next_subset_later: "next_subset a used cur is = Some (Some i) \<Longrightarrow> i \<in> set is"
  by (induction "is") (auto simp: Option.bind_eq_Some_conv split: if_splits)

partial_function (option) seq_loop :: "batch_allocr \<Rightarrow> nat \<Rightarrow> nat \<Rightarrow> split_state \<Rightarrow> split_state option" where
  "seq_loop a n_ubatch cur_idx st =
     (let st = take_token cur_idx st in
      if length (fst st) \<ge> n_ubatch then Some st
      else Option.bind (at (ba_seq_set a) cur_idx) (\<lambda>S.
        Option.bind (next_subset a (fst (snd st)) S [cur_idx + 1..<b_n_tokens (ba_batch a)]) (\<lambda>r.
          case r of None \<Rightarrow> Some st | Some j \<Rightarrow> seq_loop a n_ubatch j st)))"

declare seq_loop.simps [code]

definition split_seq :: "nat \<Rightarrow> batch_allocr \<Rightarrow> (ubatch \<times> batch_allocr) option" where
  "split_seq n_ubatch a =
     (let cur_idx = first_unused (ba_used a) in
      if cur_idx \<ge> length (ba_used a) then Some (ub_none, a)
      else do {
        (idxs, used, n_used) \<leftarrow> seq_loop a n_ubatch cur_idx ([], ba_used a, ba_n_used a);
        ubatch_add idxs 1 True (a\<lparr>ba_used := used, ba_n_used := n_used\<rparr>)
      })"

definition ubatch_reserve :: "nat \<Rightarrow> nat \<Rightarrow> batch_allocr \<Rightarrow> (ubatch \<times> batch_allocr) option" where
  \<comment> \<open>a well-defined micro-batch of the given shape; its sequence rows are null pointers\<close>
  "ubatch_reserve n_seq_tokens n_seqs a = do {
     let n_tokens = n_seq_tokens * n_seqs;
     let a = ba_split_reset (ba_clear a);
     assert_that (n_seqs \<le> LLAMA_MAX_SEQ);
     Some (\<lparr>ub_equal_seqs = True, ub_n_tokens = n_tokens, ub_n_seq_tokens = n_seq_tokens, ub_n_seqs = n_seqs,
         ub_n_seqs_unq = n_seqs, ub_n_pos = ba_n_pos_per_embd a, ub_token = Some (replicate n_tokens 0), ub_embd = None,
         ub_pos = replicate (n_tokens * ba_n_pos_per_embd a) 0, ub_n_seq_id = replicate n_tokens 0,
         ub_seq_id = replicate n_tokens [], ub_seq_id_unq = map int [0..<n_seqs],
         ub_seq_idx = map int [0..<n_seqs] @ replicate (LLAMA_MAX_SEQ - n_seqs) (-1), ub_output = replicate n_tokens False\<rparr>, a)
   }"

section \<open>The callers' loop\<close>

partial_function (option) split_all ::
  "(batch_allocr \<Rightarrow> (ubatch \<times> batch_allocr) option) \<Rightarrow> batch_allocr \<Rightarrow> ubatch list \<Rightarrow> (ubatch list \<times> batch_allocr) option" where
  "split_all split a us = Option.bind (split a) (\<lambda>(u, a).
     if ub_n_tokens u = 0 then Some (us, a) else split_all split a (us @ [u]))"

declare split_all.simps [code]

end
