(* ===== verification/BatchSplit.thy ===== *)
theory BatchSplit
  imports Batch
begin

text \<open>
  What the splitter does: a micro-batch holds the chosen tokens of the batch, the simple split cuts the
  batch into consecutive pieces, and the equal split takes one block of the same length from each of
  several disjoint sequence sets.
\<close>

section \<open>The state after \<open>init\<close>\<close>

definition batch_arrays :: "nat \<Rightarrow> nat \<Rightarrow> llama_batch \<Rightarrow> bool" where
  \<comment> \<open>the arrays cover the tokens of the batch\<close>
  "batch_arrays n_pos n_embd b \<longleftrightarrow>
     (\<forall>ts. b_token b = Some ts \<longrightarrow> b_n_tokens b \<le> length ts) \<and>
     (\<forall>es. b_embd b = Some es \<longrightarrow> b_n_tokens b * n_embd \<le> length es) \<and>
     (\<exists>ps. b_pos b = Some ps \<and> b_n_tokens b * (if b_token b \<noteq> None then 1 else max 1 n_pos) \<le> length ps) \<and>
     (\<exists>l. b_logits b = Some l \<and> b_n_tokens b \<le> length l)"

definition batch_ids :: "nat \<Rightarrow> llama_batch \<Rightarrow> bool" where
  \<comment> \<open>every token has a sequence, and all ids are below the limit\<close>
  "batch_ids n_seq_max b \<longleftrightarrow> (\<forall>i<b_n_tokens b. \<exists>ids. seq_ids b i = Some ids \<and> ids \<noteq> [] \<and> seq_id0 b i = Some (hd ids) \<and>
     (\<forall>s\<in>set ids. 0 \<le> s \<and> s < int n_seq_max))"

definition ids_of :: "llama_batch \<Rightarrow> nat \<Rightarrow> llama_seq_id list" where
  "ids_of b i = the (seq_ids b i)"

definition set_of_tok :: "llama_batch \<Rightarrow> nat \<Rightarrow> nat set" where
  "set_of_tok b i = nat ` set (ids_of b i)"

definition toks_with :: "llama_batch \<Rightarrow> nat set \<Rightarrow> nat list" where
  "toks_with b S = filter (\<lambda>i. set_of_tok b i = S) [0..<b_n_tokens b]"

definition ba_ok :: "batch_allocr \<Rightarrow> bool" where
  "ba_ok a \<longleftrightarrow> batch_arrays (ba_n_pos_per_embd a) (ba_n_embd a) (ba_batch a) \<and> batch_ids (ba_n_seq_max a) (ba_batch a) \<and>
     ba_n_seq_max a \<le> LLAMA_MAX_SEQ \<and> length (ba_used a) = b_n_tokens (ba_batch a) \<and>
     ba_n_used a = card {i. i < b_n_tokens (ba_batch a) \<and> ba_used a ! i} \<and>
     ba_seq_set a = map (set_of_tok (ba_batch a)) [0..<b_n_tokens (ba_batch a)] \<and>
     ba_seq_set_map a = toks_with (ba_batch a)"

lemma seq_ids_of:
  assumes "batch_ids m b" "i < b_n_tokens b"
  shows "seq_ids b i = Some (ids_of b i)" "ids_of b i \<noteq> []" "seq_id0 b i = Some (hd (ids_of b i))"
    "\<forall>s\<in>set (ids_of b i). 0 \<le> s \<and> s < int m"
  using assms by (auto simp: batch_ids_def ids_of_def)

lemma token_set_eq:
  assumes "batch_ids m b" "m \<le> LLAMA_MAX_SEQ" "i < b_n_tokens b"
  shows "token_set b i = Some (set_of_tok b i)"
proof -
  note ids = seq_ids_of [OF assms(1,3)]
  have "foldM (\<lambda>id S. do { s \<leftarrow> seq_bit id; Some (insert s S) }) xs S = Some (nat ` set xs \<union> S)"
    if "\<forall>s\<in>set xs. 0 \<le> s \<and> s < int m" for xs S
    using that assms(2) by (induction xs arbitrary: S) (auto simp: seq_bit_def)
  from this [OF ids(4), of "{}"] ids(1) show ?thesis by (simp add: token_set_def set_of_tok_def)
qed

lemma set_of_tok_lt: "batch_ids m b \<Longrightarrow> i < b_n_tokens b \<Longrightarrow> s \<in> set_of_tok b i \<Longrightarrow> s < m"
  using seq_ids_of(4) [of m b i] by (auto simp: set_of_tok_def)

lemma set_of_tok_nonempty: "batch_ids m b \<Longrightarrow> i < b_n_tokens b \<Longrightarrow> set_of_tok b i \<noteq> {}"
  using seq_ids_of(2) [of m b i] by (simp add: set_of_tok_def)

section \<open>The micro-batch of chosen tokens\<close>

definition pos_of :: "llama_batch \<Rightarrow> nat \<Rightarrow> nat \<Rightarrow> llama_pos" where
  "pos_of b j i = the (b_pos b) ! ((if b_token b \<noteq> None then 0 else j * b_n_tokens b) + i)"

definition ub_of :: "batch_allocr \<Rightarrow> nat list \<Rightarrow> nat \<Rightarrow> bool \<Rightarrow> ubatch" where
  "ub_of a idxs n_seqs equal_seqs = (let b = ba_batch a; unq = filter (\<lambda>s. \<exists>i\<in>set idxs. s \<in> set_of_tok b i) [0..<ba_n_seq_max a] in
     \<lparr>ub_equal_seqs = equal_seqs, ub_n_tokens = length idxs, ub_n_seq_tokens = length idxs div n_seqs,
      ub_n_seqs = n_seqs, ub_n_seqs_unq = length unq, ub_n_pos = ba_n_pos_per_embd a,
      ub_token = map_option (\<lambda>ts. map (\<lambda>i. ts ! i) idxs) (b_token b),
      ub_embd = map_option (\<lambda>es. concat (map (\<lambda>i. map (\<lambda>j. es ! (i * ba_n_embd a + j)) [0..<ba_n_embd a]) idxs)) (b_embd b),
      ub_pos = concat (map (\<lambda>j. map (pos_of b j) idxs) [0..<ba_n_pos_per_embd a]),
      ub_n_seq_id = map (\<lambda>i. length (ids_of b i)) idxs, ub_seq_id = map (ids_of b) idxs,
      ub_seq_id_unq = map int unq,
      ub_seq_idx = map (\<lambda>s. if s \<in> set unq then int (card {t \<in> set unq. t < s}) else -1) [0..<LLAMA_MAX_SEQ],
      ub_output = map (\<lambda>i. the (b_logits b) ! i) idxs\<rparr>)"

lemma unq_ids_eq:
  assumes "n \<le> LLAMA_MAX_SEQ"
  shows "unq_ids n S = (map int (filter (\<lambda>s. s \<in> S) [0..<n]),
    map (\<lambda>s. if s < n \<and> s \<in> S then int (card {t \<in> S. t < s}) else -1) [0..<LLAMA_MAX_SEQ])"
  using assms
proof (induction n)
  case 0
  then show ?case by (simp add: unq_ids_def map_replicate_const)
next
  case (Suc n)
  have len: "length (filter (\<lambda>s. s \<in> S) [0..<n]) = card {t \<in> S. t < n}"
  proof -
    have "length (filter (\<lambda>s. s \<in> S) [0..<n]) = card (set (filter (\<lambda>s. s \<in> S) [0..<n]))"
      by (rule distinct_card [symmetric]) simp
    also have "set (filter (\<lambda>s. s \<in> S) [0..<n]) = {t \<in> S. t < n}" by auto
    finally show ?thesis .
  qed
  have "unq_ids (Suc n) S = (\<lambda>(unq, idx). if n \<in> S then (unq @ [int n], idx[n := int (length unq)]) else (unq, idx)) (unq_ids n S)"
    by (simp add: unq_ids_def)
  with Suc show ?case
    by (auto simp: len less_Suc_eq intro!: nth_equalityI) (auto simp: nth_list_update)
qed

lemma foldM_concat:
  "(\<And>x. x \<in> set xs \<Longrightarrow> \<forall>acc. f x acc = Some (acc @ g x)) \<Longrightarrow> foldM f xs acc = Some (acc @ concat (map g xs))"
  by (induction xs arbitrary: acc) auto

lemma copy_embd_eq:
  assumes "b_embd b = Some es" "b_n_tokens b * m \<le> length es" "\<forall>i\<in>set idxs. i < b_n_tokens b"
  shows "copy_embd m b idxs = Some (concat (map (\<lambda>i. map (\<lambda>j. es ! (i * m + j)) [0..<m]) idxs))"
proof -
  have inner: "foldM (\<lambda>j e. do { v \<leftarrow> at_ptr (b_embd b) (i * m + j); Some (e @ [v]) }) [0..<m] acc =
      Some (acc @ map (\<lambda>j. es ! (i * m + j)) [0..<m])" if "i \<in> set idxs" for i acc
  proof (rule foldM_snoc)
    fix j assume "j \<in> set [0..<m]"
    moreover have "Suc i * m \<le> b_n_tokens b * m" using assms(3) that by (intro mult_le_mono1) auto
    ultimately show "at_ptr (b_embd b) (i * m + j) = Some (es ! (i * m + j))" using assms(1,2) by (simp add: at_ptr_def)
  qed
  show ?thesis unfolding copy_embd_def
    by (subst foldM_concat [where g = "\<lambda>i. map (\<lambda>j. es ! (i * m + j)) [0..<m]"]) (use inner in simp_all)
qed

lemma copy_pos_eq:
  assumes "b_pos b = Some ps" "b_n_tokens b * (if b_token b \<noteq> None then 1 else max 1 n_pos) \<le> length ps" "\<forall>i\<in>set idxs. i < b_n_tokens b"
  shows "copy_pos n_pos b idxs = Some (concat (map (\<lambda>j. map (pos_of b j) idxs) [0..<n_pos]))"
proof -
  let ?off = "\<lambda>j. if b_token b \<noteq> None then 0 else j * b_n_tokens b"
  have inner: "foldM (\<lambda>i ps. do { p \<leftarrow> at_ptr (b_pos b) (?off j + i); Some (ps @ [p]) }) idxs acc = Some (acc @ map (pos_of b j) idxs)"
    if "j < n_pos" for j acc
  proof (rule foldM_snoc)
    fix i assume "i \<in> set idxs"
    then have i: "i < b_n_tokens b" using assms(3) by simp
    have "?off j + i < length ps"
    proof (cases "b_token b = None")
      case True
      have "Suc j * b_n_tokens b \<le> max 1 n_pos * b_n_tokens b" using that by (intro mult_le_mono1) simp
      with True i assms(2) show ?thesis by (simp add: mult.commute)
    qed (use i assms(2) in simp)
    then show "at_ptr (b_pos b) (?off j + i) = Some (pos_of b j i)" using assms(1) by (simp add: at_ptr_def pos_of_def)
  qed
  show ?thesis unfolding copy_pos_def
    by (subst foldM_concat [where g = "\<lambda>j. map (pos_of b j) idxs"]) (use inner in simp_all)
qed

lemma ubatch_add_eq:
  assumes ok: "ba_ok a" and idxs: "\<forall>i\<in>set idxs. i < b_n_tokens (ba_batch a)" and n: "0 < n_seqs" "length idxs mod n_seqs = 0"
  shows "\<exists>outs. ubatch_add idxs n_seqs e (a\<lparr>ba_used := us, ba_n_used := nu\<rparr>) =
    Some (ub_of a idxs n_seqs e, a\<lparr>ba_used := us, ba_n_used := nu, ba_out_ids := outs\<rparr>)"
proof -
  let ?b = "ba_batch a"
  have arr: "batch_arrays (ba_n_pos_per_embd a) (ba_n_embd a) ?b" and bids: "batch_ids (ba_n_seq_max a) ?b" and m: "ba_n_seq_max a \<le> LLAMA_MAX_SEQ"
    using ok by (simp_all add: ba_ok_def)
  have toks: "foldM (\<lambda>i ts. if b_token ?b = None then Some ts else do { t \<leftarrow> at_ptr (b_token ?b) i; Some (ts @ [t]) }) idxs [] =
      Some (case b_token ?b of None \<Rightarrow> [] | Some ts \<Rightarrow> map (\<lambda>i. ts ! i) idxs)"
  proof (cases "b_token ?b")
    case None
    have "foldM (\<lambda>i ts. Some ts) idxs ([] :: llama_token list) = Some []" by (induction idxs) auto
    with None show ?thesis by simp
  next
    case (Some ts)
    have "at_ptr (b_token ?b) i = Some (ts ! i)" if "i \<in> set idxs" for i
      using arr idxs Some that by (auto simp: at_ptr_def batch_arrays_def)
    from foldM_snoc [where xs = idxs and acc = "[]", OF this] Some show ?thesis by simp
  qed
  have embd: "(if b_embd ?b = None then Some [] else copy_embd (ba_n_embd a) ?b idxs) = Some (case b_embd ?b of None \<Rightarrow> []
      | Some es \<Rightarrow> concat (map (\<lambda>i. map (\<lambda>j. es ! (i * ba_n_embd a + j)) [0..<ba_n_embd a]) idxs))"
    using arr idxs by (auto simp: batch_arrays_def copy_embd_eq split: option.split)
  obtain ps l where pl: "b_pos ?b = Some ps" "b_n_tokens ?b * (if b_token ?b \<noteq> None then 1 else max 1 (ba_n_pos_per_embd a)) \<le> length ps"
    "b_logits ?b = Some l" "b_n_tokens ?b \<le> length l" using arr unfolding batch_arrays_def by blast
  note pos = copy_pos_eq [OF pl(1,2) idxs]
  have rows: "foldM (\<lambda>i rs. do { r \<leftarrow> seq_ids ?b i; Some (rs @ [r]) }) idxs [] = Some (map (ids_of ?b) idxs)"
    using foldM_snoc [of idxs "seq_ids ?b" "ids_of ?b" "[]"] seq_ids_of(1) [OF bids] idxs by simp
  have sets: "foldM (\<lambda>i S. do { T \<leftarrow> token_set ?b i; Some (S \<union> T) }) idxs {} = Some (\<Union>i\<in>set idxs. set_of_tok ?b i)"
  proof -
    have "foldM (\<lambda>i S. do { T \<leftarrow> token_set ?b i; Some (S \<union> T) }) xs S = Some (S \<union> (\<Union>i\<in>set xs. set_of_tok ?b i))"
      if "\<forall>i\<in>set xs. i < b_n_tokens ?b" for xs S
      using that by (induction xs arbitrary: S) (auto simp: token_set_eq [OF bids m])
    from this [OF idxs, of "{}"] show ?thesis by simp
  qed
  have outs: "foldM (\<lambda>i (outs, out_ids). do { o' \<leftarrow> at_ptr (b_logits ?b) i; Some (outs @ [o'], if o' then out_ids @ [i] else out_ids) })
      idxs ([], oi) = Some (map (\<lambda>i. l ! i) idxs, oi @ filter (\<lambda>i. l ! i) idxs)" for oi
  proof -
    have "foldM (\<lambda>i (outs, out_ids). do { o' \<leftarrow> at_ptr (b_logits ?b) i; Some (outs @ [o'], if o' then out_ids @ [i] else out_ids) })
        xs (os, oi) = Some (os @ map (\<lambda>i. l ! i) xs, oi @ filter (\<lambda>i. l ! i) xs)" if "\<forall>i\<in>set xs. i < b_n_tokens ?b" for xs os oi
      using that pl(3,4) by (induction xs arbitrary: os oi) (auto simp: at_ptr_def)
    from this [OF idxs, of "[]"] show ?thesis by simp
  qed
  let ?S = "\<Union>i\<in>set idxs. set_of_tok ?b i"
  define unq where "unq = filter (\<lambda>s. \<exists>i\<in>set idxs. s \<in> set_of_tok ?b i) [0..<ba_n_seq_max a]"
  define places where "places = map (\<lambda>s. if s \<in> set unq then int (card {t \<in> set unq. t < s}) else -1) [0..<LLAMA_MAX_SEQ]"
  have unq: "unq_ids (ba_n_seq_max a) ?S = (map int unq, places)"
  proof -
    have "{t \<in> ?S. t < s} = {t \<in> set unq. t < s}" if "s < ba_n_seq_max a" for s using that by (auto simp: unq_def)
    then show ?thesis unfolding unq_ids_eq [OF m] places_def by (auto simp: unq_def intro: filter_cong)
  qed
  have u: "ub_of a idxs n_seqs e = \<lparr>ub_equal_seqs = e, ub_n_tokens = length idxs, ub_n_seq_tokens = length idxs div n_seqs,
      ub_n_seqs = n_seqs, ub_n_seqs_unq = length unq, ub_n_pos = ba_n_pos_per_embd a,
      ub_token = map_option (\<lambda>ts. map (\<lambda>i. ts ! i) idxs) (b_token ?b),
      ub_embd = map_option (\<lambda>es. concat (map (\<lambda>i. map (\<lambda>j. es ! (i * ba_n_embd a + j)) [0..<ba_n_embd a]) idxs)) (b_embd ?b),
      ub_pos = concat (map (\<lambda>j. map (pos_of ?b j) idxs) [0..<ba_n_pos_per_embd a]),
      ub_n_seq_id = map length (map (ids_of ?b) idxs), ub_seq_id = map (ids_of ?b) idxs,
      ub_seq_id_unq = map int unq, ub_seq_idx = places, ub_output = map (\<lambda>i. l ! i) idxs\<rparr>"
    unfolding ub_of_def Let_def unq_def places_def by (simp add: pl(3) comp_def)
  have "ubatch_add idxs n_seqs e (a\<lparr>ba_used := us, ba_n_used := nu\<rparr>) =
      Some (ub_of a idxs n_seqs e, a\<lparr>ba_used := us, ba_n_used := nu, ba_out_ids := ba_out_ids a @ filter (\<lambda>i. l ! i) idxs\<rparr>)"
    unfolding u ubatch_add_def Let_def
    by (cases "b_token ?b"; cases "b_embd ?b"; use n toks embd in \<open>simp add: pos rows sets outs unq\<close>)
  then show ?thesis by blast
qed

lemma ub_of_state [simp]:
  "ub_of (a\<lparr>ba_used := us, ba_n_used := nu, ba_out_ids := oi\<rparr>) idxs n_seqs e = ub_of a idxs n_seqs e"
  by (simp add: ub_of_def)

lemma ub_of_tokens [simp]: "ub_n_tokens (ub_of a idxs n_seqs e) = length idxs"
  by (simp add: ub_of_def Let_def)

section \<open>The simple split\<close>

definition prefix_used :: "nat \<Rightarrow> nat \<Rightarrow> bool list" where
  \<comment> \<open>the first \<open>k\<close> of \<open>n\<close> tokens are used\<close>
  "prefix_used n k = replicate k True @ replicate (n - k) False"

lemma prefix_used_simps [simp]:
  "k \<le> n \<Longrightarrow> length (prefix_used n k) = n"
  "k < n \<Longrightarrow> (prefix_used n k)[k := True] = prefix_used n (Suc k)"
  "k \<le> n \<Longrightarrow> i < n \<Longrightarrow> prefix_used n k ! i \<longleftrightarrow> i < k"
proof -
  show "k < n \<Longrightarrow> (prefix_used n k)[k := True] = prefix_used n (Suc k)"
    by (simp add: prefix_used_def list_update_append Suc_diff_Suc [symmetric] replicate_app_Cons_same)
qed (auto simp: prefix_used_def nth_append)

lemma first_unused_prefix: "k \<le> n \<Longrightarrow> first_unused (prefix_used n k) = k"
  unfolding first_unused_def prefix_used_def by (subst takeWhile_append2) (auto simp: takeWhile_replicate)

lemma card_prefix_used: "k \<le> n \<Longrightarrow> card {i. i < n \<and> prefix_used n k ! i} = k"
proof -
  assume "k \<le> n"
  then have "{i. i < n \<and> prefix_used n k ! i} = {..<k}" by auto
  then show ?thesis by simp
qed

lemma simple_loop_eq:
  assumes "k < n"
  shows "simple_loop n_ubatch k (idxs, prefix_used n k, nu) =
    (let e = min n (k + max 1 (n_ubatch - length idxs)) in (idxs @ [k..<e], prefix_used n e, nu + (e - k)))"
  using assms
proof (induction "n - k" arbitrary: k idxs nu rule: less_induct)
  case less
  show ?case
  proof (cases "Suc k \<ge> n \<or> length idxs + 1 \<ge> n_ubatch")
    case True
    with less.prems have "min n (k + max 1 (n_ubatch - length idxs)) = Suc k" by auto
    with True less.prems show ?thesis
      by (subst simple_loop.simps) (auto simp: Let_def)
  next
    case False
    define e where "e = min n (k + max 1 (n_ubatch - length idxs))"
    have e: "e = min n (Suc k + max 1 (n_ubatch - length (idxs @ [k])))" "k < e" using False by (auto simp: e_def)
    have "simple_loop n_ubatch k (idxs, prefix_used n k, nu) = simple_loop n_ubatch (Suc k) (idxs @ [k], prefix_used n (Suc k), Suc nu)"
      using False less.prems by (subst simple_loop.simps) simp
    also have "\<dots> = (idxs @ [k] @ [Suc k..<e], prefix_used n e, Suc nu + (e - Suc k))"
    proof -
      have "n - Suc k < n - k" "Suc k < n" using less.prems False by arith+
      from less.hyps [OF this, of "idxs @ [k]" "Suc nu"] show ?thesis unfolding Let_def e(1) [symmetric] by simp
    qed
    also have "[k] @ [Suc k..<e] = [k..<e]" using e(2) by (simp add: upt_conv_Cons)
    finally show ?thesis unfolding Let_def e_def [symmetric] using e(2) by simp
  qed
qed

definition prefix_split :: "batch_allocr \<Rightarrow> nat \<Rightarrow> bool" where
  "prefix_split a k \<longleftrightarrow> ba_ok a \<and> k \<le> b_n_tokens (ba_batch a) \<and> ba_used a = prefix_used (b_n_tokens (ba_batch a)) k"

lemma prefix_split_n_used: "prefix_split a k \<Longrightarrow> ba_n_used a = k"
  by (simp add: prefix_split_def ba_ok_def card_prefix_used)

lemma split_simple_eq:
  assumes "prefix_split a k" and e: "e = min (b_n_tokens (ba_batch a)) (k + max 1 n_ubatch)"
  shows "k = b_n_tokens (ba_batch a) \<Longrightarrow> split_simple n_ubatch a = Some (ub_none, a)"
    and "k < b_n_tokens (ba_batch a) \<Longrightarrow> \<exists>a'. split_simple n_ubatch a = Some (ub_of a [k..<e] (e - k) False, a') \<and>
      prefix_split a' e \<and> (\<exists>us nu oi. a' = a\<lparr>ba_used := us, ba_n_used := nu, ba_out_ids := oi\<rparr>)"
proof -
  let ?n = "b_n_tokens (ba_batch a)"
  have p: "ba_ok a" "k \<le> ?n" "ba_used a = prefix_used ?n k" using assms(1) by (simp_all add: prefix_split_def)
  show "k = ?n \<Longrightarrow> split_simple n_ubatch a = Some (ub_none, a)"
    using p by (simp add: split_simple_def first_unused_prefix)
  assume k: "k < ?n"
  then have ke: "k < e" "e \<le> ?n" by (simp_all add: e)
  have "\<forall>i\<in>set [k..<e]. i < ?n" using ke by auto
  from ubatch_add_eq [OF p(1) this, where n_seqs = "e - k" and e = False and us = "prefix_used ?n e" and nu = "ba_n_used a + (e - k)"]
    ke obtain outs where
    add: "ubatch_add [k..<e] (e - k) False (a\<lparr>ba_used := prefix_used ?n e, ba_n_used := ba_n_used a + (e - k)\<rparr>) =
      Some (ub_of a [k..<e] (e - k) False, a\<lparr>ba_used := prefix_used ?n e, ba_n_used := ba_n_used a + (e - k), ba_out_ids := outs\<rparr>)"
    by auto
  let ?a = "a\<lparr>ba_used := prefix_used ?n e, ba_n_used := ba_n_used a + (e - k), ba_out_ids := outs\<rparr>"
  have loop: "simple_loop n_ubatch k ([], prefix_used ?n k, ba_n_used a) = ([k..<e], prefix_used ?n e, ba_n_used a + (e - k))"
    using simple_loop_eq [OF k, of n_ubatch "[]" "ba_n_used a"]
    by (simp only: Let_def e list.size(3) minus_nat.diff_0 append_Nil)
  have "split_simple n_ubatch a = Some (ub_of a [k..<e] (e - k) False, ?a)"
    using p k add unfolding split_simple_def p(3) first_unused_prefix [OF p(2)] loop Let_def by simp
  moreover have "prefix_split ?a e"
    using p(1) ke prefix_split_n_used [OF assms(1)]
    by (simp add: prefix_split_def ba_ok_def card_prefix_used)
  ultimately show "\<exists>a'. split_simple n_ubatch a = Some (ub_of a [k..<e] (e - k) False, a') \<and>
      prefix_split a' e \<and> (\<exists>us nu oi. a' = a\<lparr>ba_used := us, ba_n_used := nu, ba_out_ids := oi\<rparr>)"
    by (intro exI [of _ ?a]) blast
qed

text \<open>The loop of the callers: split until an empty micro-batch comes back.\<close>

definition pieces :: "nat \<Rightarrow> nat \<Rightarrow> nat \<Rightarrow> nat list list \<Rightarrow> bool" where
  \<comment> \<open>consecutive pieces of \<open>[k..<n]\<close>, all but the last of length \<open>m\<close>\<close>
  "pieces m k n ps \<longleftrightarrow> concat ps = [k..<n] \<and> (\<forall>p\<in>set ps. p \<noteq> [] \<and> length p \<le> m) \<and> (\<forall>p\<in>set (butlast ps). length p = m)"

lemma pieces_Cons:
  assumes "e = min n (k + m)" "k < n" "0 < m" "pieces m e n ps"
  shows "pieces m k n ([k..<e] # ps)"
proof -
  have "[k..<n] = [k..<e] @ [e..<n]" using upt_add_eq_append [of k e "n - e"] assms(1,2) by simp
  moreover have "ps \<noteq> [] \<longrightarrow> e = k + m"
  proof
    assume "ps \<noteq> []"
    then obtain p qs where "ps = p # qs" by (cases ps) auto
    with assms(4) have "p \<noteq> []" "p @ concat qs = [e..<n]" unfolding pieces_def by simp_all
    then have "[e..<n] \<noteq> []" by (metis append_is_Nil_conv)
    then have "e < n" by simp
    then show "e = k + m" using assms(1) by auto
  qed
  ultimately show ?thesis using assms by (auto simp: pieces_def)
qed

lemma split_all_simple:
  assumes "prefix_split a k"
  shows "\<exists>ps a'. split_all (split_simple n_ubatch) a us = Some (us @ map (\<lambda>p. ub_of a p (length p) False) ps, a') \<and>
    pieces (max 1 n_ubatch) k (b_n_tokens (ba_batch a)) ps \<and> prefix_split a' (b_n_tokens (ba_batch a)) \<and> ba_batch a' = ba_batch a"
  using assms
proof (induction "b_n_tokens (ba_batch a) - k" arbitrary: a k us rule: less_induct)
  case less
  let ?n = "b_n_tokens (ba_batch a)" and ?m = "max 1 n_ubatch"
  show ?case
  proof (cases "k = ?n")
    case True
    then have "split_all (split_simple n_ubatch) a us = Some (us, a)"
      using split_simple_eq(1) [OF less.prems refl] by (subst split_all.simps) (simp add: ub_none_def)
    with True less.prems show ?thesis by (intro exI [of _ "[]"] exI [of _ a]) (simp add: pieces_def)
  next
    case False
    then have k: "k < ?n" using less.prems by (simp add: prefix_split_def)
    define e where "e = min ?n (k + ?m)"
    have ke: "k < e" using k by (simp add: e_def)
    from split_simple_eq(2) [OF less.prems e_def k] obtain a1 where
      a1: "split_simple n_ubatch a = Some (ub_of a [k..<e] (e - k) False, a1)" "prefix_split a1 e" "ba_batch a1 = ba_batch a"
        "\<forall>idxs m f. ub_of a1 idxs m f = ub_of a idxs m f" by auto
    have "b_n_tokens (ba_batch a1) - e < ?n - k" using ke k a1(3) by (simp add: diff_less_mono2)
    from less.hyps [OF this a1(2), of "us @ [ub_of a [k..<e] (e - k) False]"] obtain ps a2 where
      a2: "split_all (split_simple n_ubatch) a1 (us @ [ub_of a [k..<e] (e - k) False]) =
          Some ((us @ [ub_of a [k..<e] (e - k) False]) @ map (\<lambda>p. ub_of a p (length p) False) ps, a2)"
        "pieces ?m e ?n ps" "prefix_split a2 ?n" "ba_batch a2 = ba_batch a" using a1(3,4) by auto
    have "split_all (split_simple n_ubatch) a us = split_all (split_simple n_ubatch) a1 (us @ [ub_of a [k..<e] (e - k) False])"
      using a1(1) ke by (subst split_all.simps) simp
    with a2 have "split_all (split_simple n_ubatch) a us = Some (us @ map (\<lambda>p. ub_of a p (length p) False) ([k..<e] # ps), a2)" by simp
    moreover have "pieces ?m k ?n ([k..<e] # ps)" by (rule pieces_Cons [OF e_def k _ a2(2)]) simp
    ultimately show ?thesis using a2(3,4) by blast
  qed
qed

end
