(* ===== verification/BatchEqual.thy ===== *)
theory BatchEqual
  imports BatchSplit
begin

text \<open>
  The equal split: one block of tokens, all of the same length, from each of several disjoint sequence
  sets. \<open>ls\<close> are the batch indices of the chosen sets, \<open>c s\<close> how many of set \<open>s\<close> were used before, and
  \<open>f s\<close> how many of it this micro-batch has taken so far.
\<close>

section \<open>The state of the loop\<close>

definition took :: "nat list list \<Rightarrow> (nat \<Rightarrow> nat) \<Rightarrow> (nat \<Rightarrow> nat) \<Rightarrow> nat \<Rightarrow> nat list" where
  "took ls c f s = take (f s) (drop (c s) (ls ! s))"

definition marks :: "nat list list \<Rightarrow> (nat \<Rightarrow> nat) \<Rightarrow> bool list \<Rightarrow> (nat \<Rightarrow> nat) \<Rightarrow> bool list" where
  "marks ls c us f = map (\<lambda>i. us ! i \<or> (\<exists>s<length ls. i \<in> set (took ls c f s))) [0..<length us]"

definition est :: "nat list list \<Rightarrow> (nat \<Rightarrow> nat) \<Rightarrow> bool list \<Rightarrow> nat \<Rightarrow> (nat \<Rightarrow> nat) \<Rightarrow> equal_state" where
  "est ls c us nu f = \<lparr>es_cur = map (\<lambda>s. c s + f s) [0..<length ls], es_idxs = map (took ls c f) [0..<length ls],
     es_used = marks ls c us f, es_n_used = nu + sum f {..<length ls}\<rparr>"

definition lists_ok :: "nat list list \<Rightarrow> (nat \<Rightarrow> nat) \<Rightarrow> bool list \<Rightarrow> bool" where
  \<comment> \<open>disjoint lists of token indices, of which exactly the first \<open>c s\<close> are used\<close>
  "lists_ok ls c us \<longleftrightarrow> (\<forall>s<length ls. \<forall>t<length ls. s \<noteq> t \<longrightarrow> set (ls ! s) \<inter> set (ls ! t) = {}) \<and>
     (\<forall>s<length ls. distinct (ls ! s) \<and> c s \<le> length (ls ! s) \<and>
     (\<forall>j<length (ls ! s). ls ! s ! j < length us \<and> (us ! (ls ! s ! j) \<longleftrightarrow> j < c s)))"

lemma length_marks [simp]: "length (marks ls c us f) = length us"
  by (simp add: marks_def)

lemma nth_marks: "i < length us \<Longrightarrow> marks ls c us f ! i \<longleftrightarrow> us ! i \<or> (\<exists>s<length ls. i \<in> set (took ls c f s))"
  by (simp add: marks_def)

lemma took_Suc:
  "c s + f s < length (ls ! s) \<Longrightarrow> took ls c (f(s := f s + 1)) s = took ls c f s @ [ls ! s ! (c s + f s)]"
  by (simp add: took_def take_Suc_conv_app_nth)

lemma took_other: "t \<noteq> s \<Longrightarrow> took ls c (f(s := v)) t = took ls c f t"
  by (simp add: took_def)

lemma est_upd:
  assumes "s < length ls"
  shows "es_cur (est ls c us nu (f(s := v))) = (es_cur (est ls c us nu f))[s := c s + v]"
    and "es_idxs (est ls c us nu (f(s := v))) = (es_idxs (est ls c us nu f))[s := took ls c (f(s := v)) s]"
    and "sum (f(s := v)) {..<length ls} + f s = sum f {..<length ls} + v"
proof -
  show "es_cur (est ls c us nu (f(s := v))) = (es_cur (est ls c us nu f))[s := c s + v]"
    using assms by (intro nth_equalityI) (auto simp: est_def nth_list_update)
  show "es_idxs (est ls c us nu (f(s := v))) = (es_idxs (est ls c us nu f))[s := took ls c (f(s := v)) s]"
    using assms by (intro nth_equalityI) (auto simp: est_def nth_list_update took_other)
  have "sum (f(s := v)) {..<length ls} = v + sum f ({..<length ls} - {s})"
    using assms by (subst sum.remove [of _ s]) (auto intro!: sum.cong)
  moreover have "sum f {..<length ls} = f s + sum f ({..<length ls} - {s})"
    using assms by (subst sum.remove [of _ s]) auto
  ultimately show "sum (f(s := v)) {..<length ls} + f s = sum f {..<length ls} + v" by simp
qed

lemma take_of_est:
  assumes "lists_ok ls c us" "s < length ls" "c s + f s < length (ls ! s)"
  shows "take_of (ls ! s) s (est ls c us nu f) = Some (est ls c us nu (f(s := f s + 1)))"
proof -
  let ?i = "ls ! s ! (c s + f s)" and ?f = "f(s := f s + 1)"
  have i: "?i < length us" using assms by (simp add: lists_ok_def)
  have "marks ls c us ?f = (marks ls c us f)[?i := True]"
  proof (rule nth_equalityI)
    fix j assume "j < length (marks ls c us ?f)"
    then have j: "j < length us" by simp
    have "(\<exists>t<length ls. j \<in> set (took ls c ?f t)) \<longleftrightarrow> j = ?i \<or> (\<exists>t<length ls. j \<in> set (took ls c f t))"
      using assms(2) took_Suc [of c s f ls] assms(3) took_other [of _ s ls c f]
      by (metis (no_types, lifting) Un_iff empty_iff insert_iff list.set(1) list.set(2) set_append)
    then show "marks ls c us ?f ! j = (marks ls c us f)[?i := True] ! j"
      using j by (cases "j = ?i") (simp_all add: nth_marks)
  qed simp
  then have "es_used (est ls c us nu ?f) = (es_used (est ls c us nu f))[?i := True]" by (simp add: est_def)
  moreover have "es_cur (est ls c us nu ?f) = (es_cur (est ls c us nu f))[s := c s + f s + 1]"
    using est_upd(1) [OF assms(2), of c us nu f "f s + 1"] by (simp add: add.assoc)
  moreover have "es_idxs (est ls c us nu ?f) = (es_idxs (est ls c us nu f))[s := took ls c f s @ [?i]]"
    using est_upd(2) [OF assms(2), of c us nu f "f s + 1"] unfolding took_Suc [of c s f ls, OF assms(3)] .
  moreover have "es_n_used (est ls c us nu ?f) = es_n_used (est ls c us nu f) + 1"
    using est_upd(3) [OF assms(2), of f "f s + 1"] by (simp add: est_def)
  moreover have "est ls c us nu ?f = \<lparr>es_cur = es_cur (est ls c us nu ?f), es_idxs = es_idxs (est ls c us nu ?f),
      es_used = es_used (est ls c us nu ?f), es_n_used = es_n_used (est ls c us nu ?f)\<rparr>" by simp
  moreover have "take_of (ls ! s) s (est ls c us nu f) = Some \<lparr>es_cur = (es_cur (est ls c us nu f))[s := c s + f s + 1],
      es_idxs = (es_idxs (est ls c us nu f))[s := took ls c f s @ [?i]],
      es_used = (es_used (est ls c us nu f))[?i := True], es_n_used = es_n_used (est ls c us nu f) + 1\<rparr>"
    using assms(2,3) i by (simp add: take_of_def est_def)
  ultimately show ?thesis by simp
qed

text \<open>One round, and all rounds.\<close>

lemma round_est:
  assumes ok: "lists_ok ls c us" and room: "\<forall>s<length ls. c s + r < length (ls ! s)"
  shows "foldM (\<lambda>s. take_of (ls ! s) s) [0..<length ls] (est ls c us nu (\<lambda>_. r)) = Some (est ls c us nu (\<lambda>s. if s < length ls then r + 1 else r))"
proof -
  have "m \<le> length ls \<Longrightarrow> foldM (\<lambda>s. take_of (ls ! s) s) [0..<m] (est ls c us nu (\<lambda>_. r)) =
      Some (est ls c us nu (\<lambda>s. if s < m then r + 1 else r))" for m
  proof (induction m)
    case (Suc m)
    have "(\<lambda>s. if s < m then r + 1 else r)(m := r + 1) = (\<lambda>s. if s < Suc m then r + 1 else r)" by auto
    then have "take_of (ls ! m) m (est ls c us nu (\<lambda>s. if s < m then r + 1 else r)) =
        Some (est ls c us nu (\<lambda>s. if s < Suc m then r + 1 else r))"
      using take_of_est [OF ok, of m "\<lambda>s. if s < m then r + 1 else r" nu] Suc.prems room by simp
    with Suc show ?case by (simp add: foldM_append)
  qed simp
  from this [of "length ls"] show ?thesis by simp
qed

lemma est_cong:
  assumes "\<And>s. s < length ls \<Longrightarrow> f s = g s"
  shows "est ls c us nu f = est ls c us nu g"
proof -
  have t: "took ls c f s = took ls c g s" if "s < length ls" for s using assms that by (simp add: took_def)
  have "marks ls c us f = marks ls c us g" unfolding marks_def using t by (metis (mono_tags, lifting))
  moreover have "map (took ls c f) [0..<length ls] = map (took ls c g) [0..<length ls]" using t by auto
  moreover have "sum f {..<length ls} = sum g {..<length ls}" using assms by auto
  ultimately show ?thesis using assms by (simp add: est_def)
qed

lemma can_expand_est: "can_expand ls (est ls c us nu (\<lambda>_. r)) \<longleftrightarrow> (\<forall>s<length ls. c s + r < length (ls ! s))"
  by (simp add: can_expand_def est_def)

definition rounds_end :: "nat \<Rightarrow> nat list list \<Rightarrow> (nat \<Rightarrow> nat) \<Rightarrow> nat \<Rightarrow> bool" where
  \<comment> \<open>why the loop stops after \<open>r\<close> rounds\<close>
  "rounds_end n_ubatch ls c r \<longleftrightarrow> (\<forall>s<length ls. c s + r \<le> length (ls ! s)) \<and> (r \<le> 1 \<or> r * length ls \<le> n_ubatch) \<and>
     ((\<exists>s<length ls. c s + r = length (ls ! s)) \<or> (r + 1) * length ls > n_ubatch)"

lemma equal_loop_est:
  assumes ok: "lists_ok ls c us" and ne: "ls \<noteq> []" and le: "\<forall>s<length ls. c s + r \<le> length (ls ! s)" and "r = 0 \<or> r * length ls \<le> n_ubatch"
    and "r = 0 \<or> (r + 1) * length ls \<le> n_ubatch"
  shows "\<exists>r'. equal_loop n_ubatch ls (est ls c us nu (\<lambda>_. r)) = Some (est ls c us nu (\<lambda>_. r')) \<and> r \<le> r' \<and>
    rounds_end n_ubatch ls c r' \<and> ((\<forall>s<length ls. c s + r < length (ls ! s)) \<longrightarrow> r < r')"
  using le assms(4,5)
proof (induction "length (ls ! 0) - (c 0 + r)" arbitrary: r rule: less_induct)
  case less
  show ?case
  proof (cases "\<forall>s<length ls. c s + r < length (ls ! s)")
    case False
    then have "equal_loop n_ubatch ls (est ls c us nu (\<lambda>_. r)) = Some (est ls c us nu (\<lambda>_. r))"
      by (subst equal_loop.simps) (simp add: can_expand_est)
    moreover have "\<exists>s<length ls. c s + r = length (ls ! s)" using False less.prems(1) by (meson le_neq_implies_less)
    ultimately show ?thesis using less.prems False by (intro exI [of _ r]) (auto simp: rounds_end_def)
  next
    case True
    have run: "foldM (\<lambda>s. take_of (ls ! s) s) [0..<length ls] (est ls c us nu (\<lambda>_. r)) = Some (est ls c us nu (\<lambda>_. r + 1))"
      using round_est [OF ok True, of nu] est_cong [of ls "\<lambda>s. if s < length ls then r + 1 else r" "\<lambda>_. r + 1"] by simp
    have len: "length (es_idxs (est ls c us nu (\<lambda>_. r + 1)) ! 0) = r + 1"
    proof -
      have "c 0 + r < length (ls ! 0)" using True ne by simp
      with ne show ?thesis by (simp add: est_def took_def)
    qed
    have le: "\<forall>s<length ls. c s + (r + 1) \<le> length (ls ! s)" using True by auto
    show ?thesis
    proof (cases "(r + 1 + 1) * length ls > n_ubatch")
      case True': True
      have "equal_loop n_ubatch ls (est ls c us nu (\<lambda>_. r)) = Some (est ls c us nu (\<lambda>_. r + 1))"
        using True True' run len by (subst equal_loop.simps) (simp add: can_expand_est)
      with True' le less.prems show ?thesis by (intro exI [of _ "r + 1"]) (auto simp: rounds_end_def)
    next
      case False
      have eq: "equal_loop n_ubatch ls (est ls c us nu (\<lambda>_. r)) = equal_loop n_ubatch ls (est ls c us nu (\<lambda>_. r + 1))"
        using True False run len by (subst equal_loop.simps) (simp add: can_expand_est)
      have "length (ls ! 0) - (c 0 + (r + 1)) < length (ls ! 0) - (c 0 + r)" using True ne by (simp add: diff_less_mono2)
      moreover have "(r + 1) * length ls \<le> n_ubatch" using False by simp
      ultimately obtain r' where "equal_loop n_ubatch ls (est ls c us nu (\<lambda>_. r + 1)) = Some (est ls c us nu (\<lambda>_. r'))"
        "r + 1 \<le> r'" "rounds_end n_ubatch ls c r'" using less.hyps [of "r + 1"] le False by auto
      with eq show ?thesis by (intro exI [of _ r']) auto
    qed
  qed
qed

section \<open>Giving tokens back\<close>

lemma took_mem:
  assumes "lists_ok ls c us" "s < length ls" "i \<in> set (took ls c f s)"
  shows "i \<in> set (ls ! s)" "i < length us" "\<not> us ! i"
proof -
  from assms(3) show "i \<in> set (ls ! s)" by (auto simp: took_def dest: in_set_takeD in_set_dropD)
  from assms(3) obtain j where j: "j < length (took ls c f s)" "i = took ls c f s ! j" by (auto simp: in_set_conv_nth)
  then have j': "j < length (ls ! s) - c s" "i = drop (c s) (ls ! s) ! j" by (simp_all add: took_def)
  then have "c s + j < length (ls ! s)" by arith
  moreover from this have "i = ls ! s ! (c s + j)" using j'(2) by simp
  ultimately have "c s + j < length (ls ! s)" "i = ls ! s ! (c s + j)" .
  with assms(1,2) show "i < length us" "\<not> us ! i" by (auto simp: lists_ok_def)
qed

lemma took_disjoint:
  assumes "lists_ok ls c us" "s < length ls" "t < length ls" "i \<in> set (took ls c f s)" "i \<in> set (took ls c g t)"
  shows "s = t"
  using took_mem(1) [OF assms(1,2,4)] took_mem(1) [OF assms(1,3,5)] assms(1-3) by (auto simp: lists_ok_def)

lemma give_back_all:
  "fold give_back xs e = e\<lparr>es_used := map (\<lambda>i. es_used e ! i \<and> i \<notin> set xs) [0..<length (es_used e)], es_n_used := es_n_used e - length xs\<rparr>"
proof (induction xs arbitrary: e)
  case Nil
  then show ?case by (simp add: map_nth)
next
  case (Cons x xs)
  have "map (\<lambda>i. (es_used e)[x := False] ! i \<and> i \<notin> set xs) [0..<length (es_used e)] =
      map (\<lambda>i. es_used e ! i \<and> i \<notin> set (x # xs)) [0..<length (es_used e)]"
    by (rule map_cong) (auto simp: nth_upd_iff)
  then show ?case unfolding fold_Cons comp_def Cons.IH by (simp add: give_back_def)
qed

lemma marks_without:
  assumes ok: "lists_ok ls c us" and "\<And>s. s < length ls \<Longrightarrow> set (took ls c g s) = set (took ls c f s) - X"
    and X: "\<And>i. i \<in> X \<Longrightarrow> \<exists>s<length ls. i \<in> set (took ls c f s)"
  shows "map (\<lambda>i. marks ls c us f ! i \<and> i \<notin> X) [0..<length us] = marks ls c us g"
proof (rule nth_equalityI)
  fix i assume "i < length (map (\<lambda>i. marks ls c us f ! i \<and> i \<notin> X) [0..<length us])"
  then have i: "i < length us" by simp
  have "\<not> us ! i" if "i \<in> X" using X [OF that] took_mem(3) [OF ok] by blast
  with i assms(2) show "map (\<lambda>i. marks ls c us f ! i \<and> i \<notin> X) [0..<length us] ! i = marks ls c us g ! i"
    by (auto simp: nth_marks)
qed simp

lemma took_shrink:
  assumes ok: "lists_ok ls c us" and "s < length ls" "v \<le> f s" "c s + f s \<le> length (ls ! s)"
  shows "took ls c (f(s := v)) s @ drop v (took ls c f s) = took ls c f s" "distinct (took ls c f s)"
    "set (took ls c (f(s := v)) s) = set (took ls c f s) - set (drop v (took ls c f s))"
proof -
  show a: "took ls c (f(s := v)) s @ drop v (took ls c f s) = took ls c f s"
    using assms(3) append_take_drop_id [of v "took ls c f s"] by (simp add: took_def min_def)
  show d: "distinct (took ls c f s)" using ok assms(2) by (simp add: took_def lists_ok_def)
  from d a have "distinct (took ls c (f(s := v)) s @ drop v (took ls c f s))" by simp
  moreover have "set (took ls c f s) = set (took ls c (f(s := v)) s) \<union> set (drop v (took ls c f s))" by (metis a set_append)
  ultimately show "set (took ls c (f(s := v)) s) = set (took ls c f s) - set (drop v (took ls c f s))" by auto
qed

lemma truncate_est:
  assumes ok: "lists_ok ls c us" and "ls \<noteq> []" "n \<le> f 0" "c 0 + f 0 \<le> length (ls ! 0)"
  shows "truncate_seq n (est ls c us nu f) = Some (est ls c us nu (f(0 := f 0 - n)))"
  using assms(3,4)
proof (induction n arbitrary: f)
  case 0
  then show ?case by simp
next
  case (Suc n)
  have l: "0 < length ls" using assms(2) by simp
  let ?E = "est ls c us nu f" and ?v = "f 0 - 1" and ?x = "took ls c f 0"
  have x: "length ?x = f 0" using Suc.prems by (simp add: took_def)
  then have ne: "?x \<noteq> []" using Suc.prems by auto
  have d: "drop ?v ?x = [last ?x]" using x ne by (metis append_butlast_last_id append_eq_conv_conj length_butlast)
  have "?v \<le> f 0" by simp
  note sh = took_shrink [where s = 0 and f = f, OF ok l this Suc.prems(2)]
  have bl: "took ls c (f(0 := ?v)) 0 = butlast ?x" using sh(1) d by (metis append_butlast_last_id append_same_eq diff_le_self ne)
  let ?f = "f(0 := ?v)"
  have "set (took ls c ?f s) = set (took ls c f s) - {last ?x}" if "s < length ls" for s
  proof (cases "s = 0")
    case True
    with sh(3) d show ?thesis by simp
  next
    case False
    then have "last ?x \<notin> set (took ls c f s)" using took_disjoint [OF ok that l] ne by (metis last_in_set)
    with False show ?thesis by (simp add: took_other)
  qed
  from marks_without [OF ok this] l ne have marks: "map (\<lambda>i. marks ls c us f ! i \<and> i \<notin> {last ?x}) [0..<length us] = marks ls c us ?f"
    by (metis last_in_set singletonD)
  have used: "(marks ls c us f)[last ?x := False] = marks ls c us ?f"
    unfolding marks [symmetric] by (rule nth_equalityI) (auto simp: nth_upd_iff)
  let ?E1 = "(give_back (last ?x) ?E)\<lparr>es_idxs := (es_idxs (give_back (last ?x) ?E))[0 := butlast ?x],
      es_cur := (es_cur (give_back (last ?x) ?E))[0 := es_cur (give_back (last ?x) ?E) ! 0 - 1]\<rparr>"
  have "?E1 = est ls c us nu ?f"
  proof (rule equal_state.equality)
    have f0: "f 0 \<noteq> 0" using Suc.prems by simp
    show "es_cur ?E1 = es_cur (est ls c us nu ?f)"
      using est_upd(1) [OF l, of c us nu f ?v] f0 l by (simp add: give_back_def) (simp add: est_def)
    show "es_idxs ?E1 = es_idxs (est ls c us nu ?f)"
      using est_upd(2) [OF l, of c us nu f ?v] bl by (simp add: give_back_def)
    show "es_used ?E1 = es_used (est ls c us nu ?f)" using used by (simp add: give_back_def est_def)
    show "es_n_used ?E1 = es_n_used (est ls c us nu ?f)"
      using est_upd(3) [OF l, of f ?v] f0 by (simp add: give_back_def est_def)
  qed simp
  moreover have "at (es_idxs ?E) 0 = Some ?x" using l by (simp add: est_def)
  ultimately have "truncate_seq (Suc n) ?E = truncate_seq n (est ls c us nu ?f)"
    using ne by (simp add: Let_def)
  also have "\<dots> = Some (est ls c us nu (?f(0 := ?f 0 - n)))" using Suc.prems by (intro Suc.IH) simp_all
  also have "?f(0 := ?f 0 - n) = f(0 := f 0 - Suc n)" by auto
  finally show ?case .
qed

lemma extend_est:
  assumes ok: "lists_ok ls c us" and "ls \<noteq> []" "c 0 + f 0 + n \<le> length (ls ! 0)"
  shows "extend_seq (ls ! 0) n (est ls c us nu f) = Some (est ls c us nu (f(0 := f 0 + n)))"
  using assms(3)
proof (induction n arbitrary: f)
  case (Suc n)
  have t: "take_of (ls ! 0) 0 (est ls c us nu f) = Some (est ls c us nu (f(0 := f 0 + 1)))"
    using Suc.prems assms(2) by (intro take_of_est [OF ok]) simp_all
  have e: "extend_seq (ls ! 0) n (est ls c us nu (f(0 := f 0 + 1))) =
      Some (est ls c us nu ((f(0 := f 0 + 1))(0 := (f(0 := f 0 + 1)) 0 + n)))" using Suc.prems by (intro Suc.IH) simp
  have "(f(0 := f 0 + 1))(0 := (f(0 := f 0 + 1)) 0 + n) = f(0 := f 0 + Suc n)" by auto
  then show ?case unfolding extend_seq.simps t bind.bind_lunit e by (rule arg_cong)
qed simp

lemma drop_fold:
  "fold (\<lambda>s e. fold give_back (es_idxs e ! s) e) ks e = fold give_back (concat (map (\<lambda>s. es_idxs e ! s) ks)) e"
proof (induction ks arbitrary: e)
  case (Cons s ks)
  have "es_idxs (fold give_back xs e) = es_idxs e" for xs by (simp add: give_back_all)
  then show ?case unfolding fold_Cons comp_def Cons.IH by simp
qed simp

lemma drop_est:
  fixes nu :: nat
  assumes ok: "lists_ok ls c us" and "k \<le> length ls" and len: "\<forall>s<length ls. c s + f s \<le> length (ls ! s)"
  defines "e' \<equiv> fold (\<lambda>s e. fold give_back (es_idxs e ! s) e) [k..<length ls] (est ls c us nu f)"
  shows "es_idxs e' = es_idxs (est ls c us nu f)" "es_used e' = marks ls c us (\<lambda>s. if s < k then f s else 0)"
    "es_n_used e' = nu + sum f {..<k}"
proof -
  let ?g = "\<lambda>s. if s < k then f s else 0"
  let ?xs = "concat (map (took ls c f) [k..<length ls])"
  have xs: "concat (map (\<lambda>s. es_idxs (est ls c us nu f) ! s) [k..<length ls]) = ?xs"
    by (rule arg_cong [where f = concat], rule map_cong) (simp_all add: est_def)
  have X: "i \<in> set ?xs \<longleftrightarrow> (\<exists>s<length ls. k \<le> s \<and> i \<in> set (took ls c f s))" for i by auto
  have "set (took ls c ?g s) = set (took ls c f s) - set ?xs" if s: "s < length ls" for s
  proof (cases "s < k")
    case True
    then have "i \<notin> set ?xs" if "i \<in> set (took ls c f s)" for i
      using X that took_disjoint [OF ok s _ that] by fastforce
    with True show ?thesis by (auto simp: took_def)
  next
    case False
    then have "k \<le> s" by simp
    then have "set (took ls c f s) \<subseteq> set ?xs" using X s by blast
    with False show ?thesis by (simp add: took_def)
  qed
  from marks_without [OF ok this] X have marks: "map (\<lambda>i. marks ls c us f ! i \<and> i \<notin> set ?xs) [0..<length us] = marks ls c us ?g" by blast
  have "length ?xs = sum_list (map f [k..<length ls])"
    using len by (auto simp: length_concat comp_def took_def intro!: arg_cong [where f = sum_list] map_cong)
  also have "\<dots> = sum f {k..<length ls}" by (simp add: interv_sum_list_conv_sum_set_nat)
  finally have "length ?xs = sum f {k..<length ls}" .
  moreover have "sum f {..<length ls} = sum f {..<k} + sum f {k..<length ls}"
    using assms(2) by (simp add: lessThan_atLeast0 sum.atLeastLessThan_concat)
  ultimately have "es_n_used (est ls c us nu f) - length ?xs = nu + sum f {..<k}" by (simp add: est_def)
  moreover have "length (es_used (est ls c us nu f)) = length us" "es_used (est ls c us nu f) = marks ls c us f" by (simp_all add: est_def)
  ultimately show "es_idxs e' = es_idxs (est ls c us nu f)" "es_used e' = marks ls c us ?g" "es_n_used e' = nu + sum f {..<k}"
    using marks unfolding e'_def drop_fold xs unfolding give_back_all by simp_all
qed

text \<open>The tail rule.\<close>

definition tail_ok :: "nat \<Rightarrow> nat list list \<Rightarrow> (nat \<Rightarrow> nat) \<Rightarrow> (nat \<Rightarrow> nat) \<Rightarrow> nat \<Rightarrow> bool" where
  \<comment> \<open>the set is finished or keeps at least \<open>n_keep_tail\<close> tokens for later\<close>
  "tail_ok n_keep_tail ls c f s \<longleftrightarrow> c s + f s = length (ls ! s) \<or> n_keep_tail \<le> length (ls ! s) - (c s + f s)"

lemma keep_tail_est:
  assumes ok: "lists_ok ls c us" and ne: "ls \<noteq> []" and r: "1 \<le> r" "rounds_end n_ubatch ls c r" and k: "n_keep_tail = 0 \<or> n_keep_tail < n_ubatch"
  shows "\<exists>m f e. keep_tail n_ubatch n_keep_tail ls (est ls c us nu (\<lambda>_. r)) = Some (m, e) \<and> 1 \<le> m \<and> m \<le> length ls \<and>
    es_used e = marks ls c us (\<lambda>s. if s < m then f s else 0) \<and> es_n_used e = nu + sum f {..<m} \<and>
    (\<forall>s<m. es_idxs e ! s = took ls c f s \<and> 1 \<le> f s \<and> c s + f s \<le> length (ls ! s) \<and> tail_ok n_keep_tail ls c f s) \<and>
    length (es_idxs e) = length ls \<and> (\<forall>s<m. \<forall>t<m. f s = f t) \<and> (m * f 0 \<le> n_ubatch \<or> f 0 = 1)"
proof -
  let ?E = "est ls c us nu (\<lambda>_. r)" and ?n = "length ls"
  have room: "\<forall>s<?n. c s + r \<le> length (ls ! s)" and bound: "r \<le> 1 \<or> r * ?n \<le> n_ubatch" using r(2) by (simp_all add: rounds_end_def)
  have l: "0 < ?n" using ne by simp
  have idx: "es_idxs (est ls c us nu g) ! s = took ls c g s" if "s < ?n" for g s using that by (simp add: est_def)
  have lidx: "length (es_idxs (est ls c us nu g)) = ?n" for g by (simp add: est_def)
  have rem: "n_remaining ls ?E s = length (ls ! s) - (c s + r)" if "s < ?n" for s using that by (simp add: n_remaining_def est_def)
  show ?thesis
  proof (cases "n_keep_tail = 0")
    case True
    then have "keep_tail n_ubatch n_keep_tail ls ?E = Some (?n, ?E)" by (simp add: keep_tail_def)
    moreover have "marks ls c us (\<lambda>_. r) = marks ls c us (\<lambda>s. if s < ?n then r else 0)"
      unfolding marks_def took_def by (rule map_cong) auto
    ultimately show ?thesis using Suc_leI [OF l] r(1) room bound idx lidx True
      by (intro exI [of _ ?n] exI [of _ "\<lambda>_. r"] exI [of _ ?E]) (auto simp: est_def tail_ok_def mult.commute)
  next
    case False
    define bad where "bad s \<longleftrightarrow> n_remaining ls ?E s \<noteq> 0 \<and> n_remaining ls ?E s < n_keep_tail" for s
    define q where "q = length (takeWhile (\<lambda>s. \<not> bad s) [0..<?n])"
    have q: "q \<le> ?n" using length_takeWhile_le [of "\<lambda>s. \<not> bad s" "[0..<?n]"] by (simp add: q_def)
    have good: "\<not> bad s" if "s < q" for s
    proof -
      have "s = takeWhile (\<lambda>s. \<not> bad s) [0..<?n] ! s" using that q unfolding q_def by (simp add: takeWhile_nth)
      then have "s \<in> set (takeWhile (\<lambda>s. \<not> bad s) [0..<?n])" using that unfolding q_def by (metis nth_mem)
      then show ?thesis using set_takeWhileD by fastforce
    qed
    have tail: "tail_ok n_keep_tail ls c (\<lambda>_. r) s" if "s < q" for s
    proof -
      have "s < ?n" using that q by simp
      with good [OF that] rem [of s] room show ?thesis by (auto simp: bad_def tail_ok_def intro: le_antisym)
    qed
    have k': "n_keep_tail < n_ubatch" using k False by simp
    have unfolded: "keep_tail n_ubatch n_keep_tail ls ?E = (do {
        (m, e) \<leftarrow> (if q = 0 then do {
            e \<leftarrow> (if length (es_idxs ?E ! 0) + n_remaining ls ?E 0 \<le> n_ubatch
              then extend_seq (ls ! 0) (n_remaining ls ?E 0) ?E
              else truncate_seq (n_keep_tail - n_remaining ls ?E 0) ?E);
            Some (1, e) } else Some (q, ?E));
        Some (m, fold (\<lambda>s e. fold give_back (es_idxs e ! s) e) [m..<?n] e) })"
      using False k' unfolding keep_tail_def bad_def q_def by simp
    show ?thesis
    proof (cases "q = 0")
      case False
      define e where "e = fold (\<lambda>s e. fold give_back (es_idxs e ! s) e) [q..<?n] ?E"
      note e = e_def [symmetric] drop_est [OF ok q room, of nu, folded e_def]
      have "q * r \<le> ?n * r" using q by (rule mult_le_mono1)
      then have "q * r \<le> n_ubatch \<or> r = 1" using bound r(1) by (metis le_antisym le_trans mult.commute)
      with False e q r(1) room tail idx lidx show ?thesis
        by (intro exI [of _ q] exI [of _ "\<lambda>_. r"] exI [of _ e]) (auto simp: unfolded)
    next
      case True
      have "bad 0"
      proof (rule ccontr)
        assume "\<not> bad 0"
        then have "takeWhile (\<lambda>s. \<not> bad s) [0..<?n] \<noteq> []" using l by (simp add: upt_conv_Cons)
        with True show False by (simp add: q_def)
      qed
      then have b: "length (ls ! 0) - (c 0 + r) \<noteq> 0" "length (ls ! 0) - (c 0 + r) < n_keep_tail" using rem [OF l] by (simp_all add: bad_def)
      have c0: "c 0 + r \<le> length (ls ! 0)" using room l by simp
      have len0: "length (es_idxs ?E ! 0) = r" using idx [OF l] c0 by (simp add: took_def)
      define v where "v = (if r + (length (ls ! 0) - (c 0 + r)) \<le> n_ubatch then length (ls ! 0) - c 0
        else length (ls ! 0) - c 0 - n_keep_tail)"
      let ?f = "(\<lambda>_. r)(0 := v)"
      have v: "1 \<le> v" "v \<le> n_ubatch \<or> v = 1" "c 0 + v \<le> length (ls ! 0)" "c 0 + v = length (ls ! 0) \<or> n_keep_tail \<le> length (ls ! 0) - (c 0 + v)"
      proof -
        have "r * 1 \<le> r * ?n" using Suc_leI [OF l] by (intro mult_le_mono2) simp
        then have rn: "r = 1 \<or> r \<le> n_ubatch" using bound r(1) by linarith
        show "1 \<le> v" "v \<le> n_ubatch \<or> v = 1" "c 0 + v \<le> length (ls ! 0)" "c 0 + v = length (ls ! 0) \<or> n_keep_tail \<le> length (ls ! 0) - (c 0 + v)"
          unfolding v_def using b c0 r(1) k' rn by (cases "r + (length (ls ! 0) - (c 0 + r)) \<le> n_ubatch"; simp; arith)+
      qed
      have step: "(if length (es_idxs ?E ! 0) + n_remaining ls ?E 0 \<le> n_ubatch
              then extend_seq (ls ! 0) (n_remaining ls ?E 0) ?E
              else truncate_seq (n_keep_tail - n_remaining ls ?E 0) ?E) = Some (est ls c us nu ?f)"
      proof (cases "r + (length (ls ! 0) - (c 0 + r)) \<le> n_ubatch")
        case True
        have "v = r + (length (ls ! 0) - (c 0 + r))" using True c0 by (simp add: v_def)
        with True extend_est [OF ok ne, of "\<lambda>_. r" "length (ls ! 0) - (c 0 + r)" nu] c0 len0 rem [OF l] show ?thesis by simp
      next
        case False
        have "n_keep_tail - (length (ls ! 0) - (c 0 + r)) \<le> r" using False k' by simp
        moreover have "v = r - (n_keep_tail - (length (ls ! 0) - (c 0 + r)))" using False b c0 by (simp add: v_def)
        ultimately show ?thesis using False truncate_est [OF ok ne, of "n_keep_tail - (length (ls ! 0) - (c 0 + r))" "\<lambda>_. r" nu]
          c0 len0 rem [OF l] by simp
      qed
      have one: "1 \<le> ?n" using Suc_leI [OF l] by simp
      have "\<forall>s<?n. c s + ?f s \<le> length (ls ! s)" using room v(3) by simp
      note dropped = drop_est [OF ok one this, of nu]
      define e where "e = fold (\<lambda>s e. fold give_back (es_idxs e ! s) e) [1..<?n] (est ls c us nu ?f)"
      note e = e_def [symmetric] dropped [folded e_def]
      have "keep_tail n_ubatch n_keep_tail ls ?E = Some (1, e)" using True e(1) unfolding unfolded step by simp
      moreover have "tail_ok n_keep_tail ls c ?f 0" using v(4) by (simp add: tail_ok_def)
      moreover have "es_idxs e ! 0 = took ls c ?f 0" unfolding e(2) by (rule idx [OF l])
      moreover have "length (es_idxs e) = ?n" unfolding e(2) by (rule lidx)
      ultimately show ?thesis using e(3,4) v(1-3) one
        by (intro exI [of _ 1] exI [of _ ?f] exI [of _ e]) auto
    qed
  qed
qed

text \<open>What the kept blocks hold together.\<close>

lemma took_concat:
  assumes ok: "lists_ok ls c us" and m: "m \<le> length ls"
  shows "distinct (concat (map (took ls c f) [0..<m]))"
    "i \<in> set (concat (map (took ls c f) [0..<m])) \<Longrightarrow> i < length us \<and> \<not> us ! i"
    "i < length us \<Longrightarrow> marks ls c us (\<lambda>s. if s < m then f s else 0) ! i \<longleftrightarrow> us ! i \<or> i \<in> set (concat (map (took ls c f) [0..<m]))"
    "\<forall>s<m. c s + f s \<le> length (ls ! s) \<Longrightarrow> length (concat (map (took ls c f) [0..<m])) = sum f {..<m}"
proof -
  show "distinct (concat (map (took ls c f) [0..<m]))"
    using m
  proof (induction m)
    case (Suc j)
    have j: "j < length ls" using Suc.prems by simp
    have "distinct (took ls c f j)" using ok j by (simp add: lists_ok_def took_def)
    moreover have "i \<notin> set (concat (map (took ls c f) [0..<j]))" if "i \<in> set (took ls c f j)" for i
    proof
      assume "i \<in> set (concat (map (took ls c f) [0..<j]))"
      then obtain t where t: "t < j" "i \<in> set (took ls c f t)" by auto
      with took_disjoint [OF ok j _ that t(2)] Suc.prems show False by simp
    qed
    then have "set (concat (map (took ls c f) [0..<j])) \<inter> set (took ls c f j) = {}" by blast
    ultimately show ?case using Suc.IH j by simp
  qed simp
  show "i < length us \<and> \<not> us ! i" if "i \<in> set (concat (map (took ls c f) [0..<m]))"
  proof -
    from that obtain s where s: "s < m" "i \<in> set (took ls c f s)" by auto
    with took_mem(2,3) [OF ok _ s(2)] m show ?thesis by simp
  qed
  show "marks ls c us (\<lambda>s. if s < m then f s else 0) ! i \<longleftrightarrow> us ! i \<or> i \<in> set (concat (map (took ls c f) [0..<m]))" if i: "i < length us"
  proof -
    have "took ls c (\<lambda>s. if s < m then f s else 0) s = (if s < m then took ls c f s else [])" for s by (simp add: took_def)
    then have "(\<exists>s<length ls. i \<in> set (took ls c (\<lambda>s. if s < m then f s else 0) s)) \<longleftrightarrow> (\<exists>s<m. i \<in> set (took ls c f s))"
      using m by (auto split: if_splits intro: less_le_trans)
    with i show ?thesis by (simp add: nth_marks) auto
  qed
  show "length (concat (map (took ls c f) [0..<m])) = sum f {..<m}" if "\<forall>s<m. c s + f s \<le> length (ls ! s)"
    using that
  proof (induction m)
    case (Suc j)
    then have "f j \<le> length (ls ! j) - c j" by (metis add.commute le_diff_conv2 add_leD1 lessI)
    with Suc show ?case by (simp add: took_def min_absorb2)
  qed simp
qed

end
