(* ===== verification/BatchPartition.thy ===== *)
theory BatchPartition
  imports BatchEqual
begin

text \<open>
  The three splits as implementations of one interface: as long as a token of the batch is unused, a split
  returns a micro-batch of unused tokens and marks them. The loop of the callers then ends with every
  token in exactly one micro-batch.
\<close>

section \<open>The interface\<close>

definition unused :: "batch_allocr \<Rightarrow> nat set" where
  "unused a = {i. i < b_n_tokens (ba_batch a) \<and> \<not> ba_used a ! i}"

definition same_base :: "batch_allocr \<Rightarrow> batch_allocr \<Rightarrow> bool" where
  "same_base a a' \<longleftrightarrow> ba_batch a' = ba_batch a \<and> ba_n_pos_per_embd a' = ba_n_pos_per_embd a \<and> ba_n_embd a' = ba_n_embd a \<and>
     ba_n_seq_max a' = ba_n_seq_max a \<and> ba_seq_set a' = ba_seq_set a \<and> ba_seq_set_map a' = ba_seq_set_map a \<and>
     ba_has_cpl a' = ba_has_cpl a"

lemma same_base_simps [simp]:
  "same_base a a" "same_base a (a\<lparr>ba_used := us, ba_n_used := nu, ba_out_ids := oi\<rparr>)"
  by (simp_all add: same_base_def)

lemma same_base_trans: "same_base a b \<Longrightarrow> same_base b c \<Longrightarrow> same_base a c"
  by (simp add: same_base_def)

lemma ub_of_base: "same_base a a' \<Longrightarrow> ub_of a' idxs m e = ub_of a idxs m e"
  by (simp add: same_base_def ub_of_def)

lemma finite_unused [simp]: "finite (unused a)"
  by (simp add: unused_def)

locale splitter =
  fixes split :: "batch_allocr \<Rightarrow> (ubatch \<times> batch_allocr) option"
    and inv :: "batch_allocr \<Rightarrow> bool"
    and good :: "batch_allocr \<Rightarrow> nat list \<Rightarrow> ubatch \<Rightarrow> bool"
  assumes finished: "inv a \<Longrightarrow> unused a = {} \<Longrightarrow> split a = Some (ub_none, a)"
    and progress: "inv a \<Longrightarrow> unused a \<noteq> {} \<Longrightarrow> \<exists>u idxs a'. split a = Some (u, a') \<and> inv a' \<and> same_base a a' \<and>
      idxs \<noteq> [] \<and> distinct idxs \<and> set idxs \<subseteq> unused a \<and> unused a' = unused a - set idxs \<and> ub_n_tokens u = length idxs \<and> good a idxs u"
    and good_base: "same_base a a' \<Longrightarrow> good a' idxs u \<Longrightarrow> good a idxs u"
begin

lemma all_split:
  assumes "inv a"
  shows "\<exists>us idxss a'. split_all split a acc = Some (acc @ us, a') \<and> inv a' \<and> same_base a a' \<and> unused a' = {} \<and>
    list_all2 (good a) idxss us \<and> distinct (concat idxss) \<and> set (concat idxss) = unused a"
  using assms
proof (induction "card (unused a)" arbitrary: a acc rule: less_induct)
  case less
  show ?case
  proof (cases "unused a = {}")
    case True
    then have "split_all split a acc = Some (acc, a)"
      using finished [OF less.prems] by (subst split_all.simps) (simp add: ub_none_def)
    with True less.prems show ?thesis by (intro exI [of _ "[]"] exI [of _ "[]"] exI [of _ a]) simp
  next
    case False
    from progress [OF less.prems False] obtain u idxs a1 where
      a1: "split a = Some (u, a1)" "inv a1" "same_base a a1" "idxs \<noteq> []" "distinct idxs" "set idxs \<subseteq> unused a"
        "unused a1 = unused a - set idxs" "ub_n_tokens u = length idxs" "good a idxs u" by blast
    have "card (unused a1) < card (unused a)"
      using a1(4,6,7) by (intro psubset_card_mono) (auto simp: neq_Nil_conv)
    from less.hyps [OF this a1(2), of "acc @ [u]"] obtain us idxss a2 where
      a2: "split_all split a1 (acc @ [u]) = Some ((acc @ [u]) @ us, a2)" "inv a2" "same_base a1 a2" "unused a2 = {}"
        "list_all2 (good a1) idxss us" "distinct (concat idxss)" "set (concat idxss) = unused a1" by blast
    have "split_all split a acc = split_all split a1 (acc @ [u])"
      using a1(1,4,8) by (subst split_all.simps) simp
    then have "split_all split a acc = Some (acc @ u # us, a2)" using a2(1) by simp
    moreover have "list_all2 (good a) (idxs # idxss) (u # us)"
      using a1(9) list_all2_mono [OF a2(5), of "good a"] good_base [OF a1(3)] by simp
    moreover have "distinct (concat (idxs # idxss))" "set (concat (idxs # idxss)) = unused a"
      using a1(5,6,7) a2(6,7) by auto
    ultimately show ?thesis using a2(2,4) same_base_trans [OF a1(3) a2(3)] by blast
  qed
qed

end

section \<open>The simple split\<close>

definition simple_good :: "nat \<Rightarrow> batch_allocr \<Rightarrow> nat list \<Rightarrow> ubatch \<Rightarrow> bool" where
  "simple_good n_ubatch a idxs u \<longleftrightarrow> (\<exists>k e. idxs = [k..<e] \<and> k < e \<and> e - k \<le> max 1 n_ubatch) \<and> u = ub_of a idxs (length idxs) False"

lemma unused_prefix: "prefix_split a k \<Longrightarrow> unused a = {k..<b_n_tokens (ba_batch a)}"
  by (auto simp: unused_def prefix_split_def)

interpretation simple: splitter "split_simple n_ubatch" "\<lambda>a. \<exists>k. prefix_split a k" "simple_good n_ubatch"
proof unfold_locales
  fix a assume "\<exists>k. prefix_split a k" "unused a = {}"
  then obtain k where k: "prefix_split a k" "k = b_n_tokens (ba_batch a)"
    using unused_prefix by (metis atLeastLessThan_empty_iff2 le_neq_implies_less prefix_split_def)
  then show "split_simple n_ubatch a = Some (ub_none, a)" using split_simple_eq(1) [OF k(1) refl k(2)] by simp
next
  fix a assume "\<exists>k. prefix_split a k" "unused a \<noteq> {}"
  then obtain k where k: "prefix_split a k" "k < b_n_tokens (ba_batch a)" using unused_prefix by fastforce
  define e where "e = min (b_n_tokens (ba_batch a)) (k + max 1 n_ubatch)"
  have ke: "k < e" "e \<le> b_n_tokens (ba_batch a)" "e - k \<le> max 1 n_ubatch" using k(2) by (auto simp: e_def)
  from split_simple_eq(2) [OF k(1) e_def k(2)] obtain a' where
    a': "split_simple n_ubatch a = Some (ub_of a [k..<e] (e - k) False, a')" "prefix_split a' e" "same_base a a'"
    by auto
  have "unused a' = unused a - set [k..<e]"
    using unused_prefix [OF a'(2)] unused_prefix [OF k(1)] a'(3) ke by (auto simp: same_base_def)
  moreover have "simple_good n_ubatch a [k..<e] (ub_of a [k..<e] (e - k) False)" using ke by (auto simp: simple_good_def)
  ultimately show "\<exists>u idxs a'. split_simple n_ubatch a = Some (u, a') \<and> (\<exists>k. prefix_split a' k) \<and> same_base a a' \<and>
      idxs \<noteq> [] \<and> distinct idxs \<and> set idxs \<subseteq> unused a \<and> unused a' = unused a - set idxs \<and> ub_n_tokens u = length idxs \<and>
      simple_good n_ubatch a idxs u"
    using a' ke unused_prefix [OF k(1)]
    by (intro exI [of _ "ub_of a [k..<e] (e - k) False"] exI [of _ "[k..<e]"] exI [of _ a']) auto
qed (auto simp: simple_good_def ub_of_base)

section \<open>The equal split\<close>

definition used_in :: "batch_allocr \<Rightarrow> nat set \<Rightarrow> nat" where
  "used_in a S = length (filter (\<lambda>i. ba_used a ! i) (toks_with (ba_batch a) S))"

definition eq_ready :: "batch_allocr \<Rightarrow> bool" where
  \<comment> \<open>of every sequence set, the used tokens are the first ones\<close>
  "eq_ready a \<longleftrightarrow> ba_ok a \<and> (\<forall>S. \<forall>j<length (toks_with (ba_batch a) S).
     ba_used a ! (toks_with (ba_batch a) S ! j) \<longleftrightarrow> j < used_in a S)"

lemma prefix_count:
  assumes "c \<le> length xs" "\<forall>j<length xs. P (xs ! j) \<longleftrightarrow> j < c"
  shows "length (filter P xs) = c"
proof -
  have "{i. i < length xs \<and> P (xs ! i)} = {..<c}" using assms by auto
  then show ?thesis by (simp add: length_filter_conv_card)
qed

lemma eq_readyI:
  assumes "ba_ok a" "\<And>S. c S \<le> length (toks_with (ba_batch a) S)"
    "\<And>S j. j < length (toks_with (ba_batch a) S) \<Longrightarrow> ba_used a ! (toks_with (ba_batch a) S ! j) \<longleftrightarrow> j < c S"
  shows "eq_ready a" "used_in a S = c S"
proof -
  show u: "used_in a S = c S" for S using assms(2,3) by (simp add: used_in_def prefix_count)
  show "eq_ready a" using assms(1,3) by (simp add: eq_ready_def u)
qed

lemma used_in_le: "used_in a S \<le> length (toks_with (ba_batch a) S)"
  by (simp add: used_in_def)

lemma toks_with_mem: "i \<in> set (toks_with b S) \<longleftrightarrow> i < b_n_tokens b \<and> set_of_tok b i = S"
  by (auto simp: toks_with_def)

lemma used_in_less:
  assumes "eq_ready a" "i \<in> unused a"
  shows "used_in a (set_of_tok (ba_batch a) i) < length (toks_with (ba_batch a) (set_of_tok (ba_batch a) i))"
proof -
  let ?l = "toks_with (ba_batch a) (set_of_tok (ba_batch a) i)"
  have "i \<in> set ?l" using assms(2) by (simp add: toks_with_mem unused_def)
  then obtain j where j: "j < length ?l" "?l ! j = i" by (auto simp: in_set_conv_nth)
  from assms(1) j(1) have "ba_used a ! (?l ! j) \<longleftrightarrow> j < used_in a (set_of_tok (ba_batch a) i)" unfolding eq_ready_def by blast
  with assms(2) j show ?thesis by (simp add: unused_def)
qed

definition sets_ok :: "batch_allocr \<Rightarrow> nat \<Rightarrow> nat set list \<Rightarrow> bool" where
  \<comment> \<open>disjoint sequence sets, each with an unused token\<close>
  "sets_ok a m sets \<longleftrightarrow> length sets \<le> m \<and> (\<forall>S\<in>set sets. \<exists>i\<in>unused a. set_of_tok (ba_batch a) i = S) \<and>
     (\<forall>x<length sets. \<forall>y<length sets. x \<noteq> y \<longrightarrow> sets ! x \<inter> sets ! y = {})"

lemma sets_okD:
  assumes "sets_ok a m sets"
  shows "length sets \<le> m" "S \<in> set sets \<Longrightarrow> \<exists>i\<in>unused a. set_of_tok (ba_batch a) i = S"
    "x < length sets \<Longrightarrow> y < length sets \<Longrightarrow> x \<noteq> y \<Longrightarrow> sets ! x \<inter> sets ! y = {}"
  using assms by (simp_all add: sets_ok_def)

lemma sets_ok_snoc:
  assumes "sets_ok a m sets" "i \<in> unused a" "\<forall>T\<in>set sets. T \<inter> set_of_tok (ba_batch a) i = {}"
  shows "sets_ok a (m + 1) (sets @ [set_of_tok (ba_batch a) i])"
  using assms unfolding sets_ok_def by (auto simp: nth_append less_Suc_eq)

lemma equal_sets_spec:
  assumes ok: "ba_ok a" and "\<forall>i\<in>set is. i < b_n_tokens (ba_batch a)" "sets_ok a n_ubatch sets"
  shows "\<exists>r. equal_sets a sequential n_ubatch is (sets, last_id) = Some r \<and> sets_ok a (n_ubatch + 1) r \<and>
    (r = [] \<longrightarrow> sets = [] \<and> (\<forall>i\<in>set is. i \<notin> unused a))"
  using assms(2,3)
proof (induction "is" arbitrary: sets last_id)
  case Nil
  then show ?case by (auto simp: sets_ok_def)
next
  case (Cons i "is")
  let ?S = "set_of_tok (ba_batch a) i"
  have i: "i < b_n_tokens (ba_batch a)" using Cons.prems(1) by simp
  have reads: "at (ba_used a) i = Some (ba_used a ! i)" "at (ba_seq_set a) i = Some ?S"
    "\<exists>id0. seq_id0 (ba_batch a) i = Some id0"
    using ok i seq_ids_of(3) [of "ba_n_seq_max a" "ba_batch a" i] by (auto simp: ba_ok_def)
  then obtain id0 where id0: "seq_id0 (ba_batch a) i = Some id0" by blast
  have rest: "\<forall>i\<in>set is. i < b_n_tokens (ba_batch a)" using Cons.prems(1) by simp
  from Cons.IH [OF rest Cons.prems(2), of last_id] obtain r where
    r: "equal_sets a sequential n_ubatch is (sets, last_id) = Some r" "sets_ok a (n_ubatch + 1) r"
      "r = [] \<longrightarrow> sets = [] \<and> (\<forall>i\<in>set is. i \<notin> unused a)" by blast
  show ?case
  proof (cases "ba_used a ! i \<or> \<not> (\<forall>T\<in>set sets. T \<inter> ?S = {}) \<or> sequential \<and> sets \<noteq> [] \<and> id0 \<noteq> last_id + 1")
    case True
    then have "equal_sets a sequential n_ubatch (i # is) (sets, last_id) = equal_sets a sequential n_ubatch is (sets, last_id)"
      using reads(1,2) id0 by auto
    moreover have "r = [] \<longrightarrow> i \<notin> unused a" using True r(3) by (auto simp: unused_def)
    ultimately show ?thesis using r by auto
  next
    case False
    then have un: "i \<in> unused a" and disj: "\<forall>T\<in>set sets. T \<inter> ?S = {}" using i by (auto simp: unused_def)
    note snoc = sets_ok_snoc [OF Cons.prems(2) un disj]
    show ?thesis
    proof (cases "length sets + 1 > n_ubatch")
      case True
      with False have "equal_sets a sequential n_ubatch (i # is) (sets, last_id) = Some (sets @ [?S])"
        using reads(1,2) id0 by auto
      with snoc show ?thesis by simp
    next
      case more: False
      with snoc have "sets_ok a n_ubatch (sets @ [?S])" by (simp add: sets_ok_def)
      from Cons.IH [OF rest this, of id0] obtain q where
        q: "equal_sets a sequential n_ubatch is (sets @ [?S], id0) = Some q" "sets_ok a (n_ubatch + 1) q" "q \<noteq> []" by auto
      have "equal_sets a sequential n_ubatch (i # is) (sets, last_id) = Some q"
        using False more reads(1,2) id0 q(1) by auto
      with q show ?thesis by simp
    qed
  qed
qed

lemma skip_used_eq:
  assumes "c < length l" "\<forall>j<length l. l ! j < length us \<and> (us ! (l ! j) \<longleftrightarrow> j < c)"
  shows "skip_used us l = Some c"
  using assms
proof (induction l arbitrary: c)
  case (Cons i l)
  have i: "i < length us" "us ! i \<longleftrightarrow> 0 < c" using Cons.prems(2) by force+
  show ?case
  proof (cases c)
    case 0
    with i show ?thesis by simp
  next
    case (Suc d)
    have "\<forall>j<length l. l ! j < length us \<and> (us ! (l ! j) \<longleftrightarrow> j < d)" using Cons.prems(2) Suc by auto
    with Cons.IH [of d] Cons.prems(1) Suc i show ?thesis by simp
  qed
qed simp

lemma lists_of_sets:
  assumes r: "eq_ready a" and s: "sets_ok a m sets"
  defines "ls \<equiv> map (toks_with (ba_batch a)) sets" and "c \<equiv> \<lambda>s. used_in a (sets ! s)"
  shows "lists_ok ls c (ba_used a)" "\<forall>s<length ls. c s < length (ls ! s)"
    "foldM (\<lambda>l cur. do { c \<leftarrow> skip_used (ba_used a) l; Some (cur @ [c]) }) ls [] = Some (map c [0..<length ls])"
proof -
  have ok: "ba_ok a" "length (ba_used a) = b_n_tokens (ba_batch a)" using r by (simp_all add: eq_ready_def ba_ok_def)
  have ids: "batch_ids (ba_n_seq_max a) (ba_batch a)" using ok(1) by (simp add: ba_ok_def)
  have ne: "S \<noteq> {}" if S: "S \<in> set sets" for S
  proof -
    from sets_okD(2) [OF s S] obtain i where "i \<in> unused a" "set_of_tok (ba_batch a) i = S" by blast
    with set_of_tok_nonempty [OF ids, of i] show ?thesis by (auto simp: unused_def)
  qed
  have "sets ! x \<noteq> sets ! y" if "x < length sets" "y < length sets" "x \<noteq> y" for x y
  proof -
    have "sets ! x \<inter> sets ! y = {}" by (rule sets_okD(3) [OF s that])
    with ne [OF nth_mem [OF that(1)]] show ?thesis by auto
  qed
  then have disj: "set (ls ! x) \<inter> set (ls ! y) = {}" if "x < length ls" "y < length ls" "x \<noteq> y" for x y
    using that by (auto simp: ls_def toks_with_mem)
  have part: "distinct (ls ! x) \<and> c x \<le> length (ls ! x) \<and>
      (\<forall>j<length (ls ! x). ls ! x ! j < length (ba_used a) \<and> (ba_used a ! (ls ! x ! j) \<longleftrightarrow> j < c x))" if "x < length ls" for x
  proof -
    have l: "ls ! x = toks_with (ba_batch a) (sets ! x)" using that by (simp add: ls_def)
    have "ls ! x ! j < length (ba_used a)" if "j < length (ls ! x)" for j
      using nth_mem [OF that] ok(2) by (simp add: l toks_with_mem)
    moreover have "distinct (ls ! x)" by (simp add: l toks_with_def)
    ultimately show ?thesis using r used_in_le unfolding l c_def eq_ready_def by blast
  qed
  show "lists_ok ls c (ba_used a)" unfolding lists_ok_def using disj part by blast
  show less: "\<forall>s<length ls. c s < length (ls ! s)"
  proof (intro allI impI)
    fix x assume x: "x < length ls"
    then have "sets ! x \<in> set sets" by (simp add: ls_def)
    from sets_okD(2) [OF s this] obtain i where "i \<in> unused a" "set_of_tok (ba_batch a) i = sets ! x" by blast
    with used_in_less [OF r, of i] x show "c x < length (ls ! x)" by (simp add: ls_def c_def)
  qed
  have skip: "skip_used (ba_used a) l = Some (length (filter (\<lambda>i. ba_used a ! i) l))" if "l \<in> set ls" for l
  proof -
    from that obtain x where x: "x < length ls" "l = ls ! x" by (auto simp: in_set_conv_nth)
    have "length (filter (\<lambda>i. ba_used a ! i) l) = c x" using x by (simp add: ls_def c_def used_in_def)
    with skip_used_eq [of "c x" l "ba_used a"] part [OF x(1)] less x show ?thesis by simp
  qed
  have "map (\<lambda>l. length (filter (\<lambda>i. ba_used a ! i) l)) ls = map c [0..<length ls]"
    by (rule nth_equalityI) (simp_all add: ls_def c_def used_in_def)
  with foldM_snoc [where xs = ls and acc = "[]" and g = "\<lambda>l. length (filter (\<lambda>i. ba_used a ! i) l)", OF skip]
  show "foldM (\<lambda>l cur. do { c \<leftarrow> skip_used (ba_used a) l; Some (cur @ [c]) }) ls [] = Some (map c [0..<length ls])" by simp
qed

definition equal_blocks :: "nat \<Rightarrow> nat \<Rightarrow> batch_allocr \<Rightarrow> nat list list \<Rightarrow> bool" where
  \<comment> \<open>blocks of one length, each the next unused tokens of one of several disjoint sequence sets\<close>
  "equal_blocks n_ubatch n_keep_tail a blocks \<longleftrightarrow> blocks \<noteq> [] \<and> length blocks \<le> n_ubatch + 1 \<and>
     (\<exists>m sets. 1 \<le> m \<and> (length blocks * m \<le> n_ubatch \<or> m = 1) \<and> length sets = length blocks \<and>
       (\<forall>x<length sets. \<forall>y<length sets. x \<noteq> y \<longrightarrow> sets ! x \<inter> sets ! y = {}) \<and>
       (\<forall>s<length blocks. length (blocks ! s) = m \<and> (\<exists>c. blocks ! s = take m (drop c (toks_with (ba_batch a) (sets ! s))) \<and>
          (c + m = length (toks_with (ba_batch a) (sets ! s)) \<or> n_keep_tail \<le> length (toks_with (ba_batch a) (sets ! s)) - (c + m)))))"

definition equal_good :: "nat \<Rightarrow> nat \<Rightarrow> batch_allocr \<Rightarrow> nat list \<Rightarrow> ubatch \<Rightarrow> bool" where
  "equal_good n_ubatch n_keep_tail a idxs u \<longleftrightarrow>
     (\<exists>blocks. equal_blocks n_ubatch n_keep_tail a blocks \<and> idxs = concat blocks \<and> u = ub_of a idxs (length blocks) True)"

lemma concat_same_length: "\<forall>b\<in>set bs. length b = m \<Longrightarrow> length (concat bs) = length bs * m"
  by (induction bs) auto

lemma split_equal_done:
  assumes "ba_ok a" "unused a = {}"
  shows "split_equal n_ubatch sequential n_keep_tail a = Some (ub_none, a)"
proof (cases "sequential \<and> ba_has_cpl a")
  case False
  have "sets_ok a n_ubatch []" by (simp add: sets_ok_def)
  from equal_sets_spec [OF assms(1) _ this, of "[0..<b_n_tokens (ba_batch a)]" sequential "-1"] obtain r where
    r: "equal_sets a sequential n_ubatch [0..<b_n_tokens (ba_batch a)] ([], -1) = Some r" "sets_ok a (n_ubatch + 1) r" by auto
  have "r = []" using sets_okD(2) [OF r(2)] assms(2) by (cases r) auto
  with r(1) False show ?thesis by (simp add: split_equal_def)
qed (simp add: split_equal_def)

lemma marked_ok:
  assumes ok: "ba_ok a" and idxs: "distinct idxs" "set idxs \<subseteq> unused a" "length us = length (ba_used a)"
    and us: "\<And>i. i < length us \<Longrightarrow> us ! i \<longleftrightarrow> ba_used a ! i \<or> i \<in> set idxs"
  shows "ba_ok (a\<lparr>ba_used := us, ba_n_used := ba_n_used a + length idxs, ba_out_ids := oi\<rparr>)"
    "unused (a\<lparr>ba_used := us, ba_n_used := ba_n_used a + length idxs, ba_out_ids := oi\<rparr>) = unused a - set idxs"
proof -
  let ?n = "b_n_tokens (ba_batch a)"
  have len: "length us = ?n" using ok idxs(3) by (simp add: ba_ok_def)
  have "{i. i < ?n \<and> us ! i} = {i. i < ?n \<and> ba_used a ! i} \<union> set idxs" using us idxs(2) len by (auto simp: unused_def)
  moreover have "{i. i < ?n \<and> ba_used a ! i} \<inter> set idxs = {}" using idxs(2) by (auto simp: unused_def)
  ultimately have "card {i. i < ?n \<and> us ! i} = ba_n_used a + length idxs"
    using ok distinct_card [OF idxs(1)] by (simp add: card_Un_disjoint ba_ok_def)
  with ok len show "ba_ok (a\<lparr>ba_used := us, ba_n_used := ba_n_used a + length idxs, ba_out_ids := oi\<rparr>)" by (simp add: ba_ok_def)
  show "unused (a\<lparr>ba_used := us, ba_n_used := ba_n_used a + length idxs, ba_out_ids := oi\<rparr>) = unused a - set idxs"
    using us len by (auto simp: unused_def)
qed

text \<open>What one call chooses: the lists of the sequence sets, where each starts, and how much it takes.\<close>

definition lists_of :: "batch_allocr \<Rightarrow> nat set list \<Rightarrow> nat list list" where
  "lists_of a sets = map (toks_with (ba_batch a)) sets"

definition starts_of :: "batch_allocr \<Rightarrow> nat set list \<Rightarrow> nat \<Rightarrow> nat" where
  "starts_of a sets s = used_in a (sets ! s)"

definition blocks_of :: "batch_allocr \<Rightarrow> nat set list \<Rightarrow> nat \<Rightarrow> (nat \<Rightarrow> nat) \<Rightarrow> nat list list" where
  "blocks_of a sets m f = map (took (lists_of a sets) (starts_of a sets) f) [0..<m]"

definition chosen :: "batch_allocr \<Rightarrow> nat \<Rightarrow> nat \<Rightarrow> nat set list \<Rightarrow> nat \<Rightarrow> (nat \<Rightarrow> nat) \<Rightarrow> bool" where
  "chosen a n_ubatch n_keep_tail sets m f \<longleftrightarrow> sets_ok a (n_ubatch + 1) sets \<and> 1 \<le> m \<and> m \<le> length sets \<and>
     (\<forall>s<m. f s = f 0 \<and> starts_of a sets s + f 0 \<le> length (lists_of a sets ! s) \<and>
        tail_ok n_keep_tail (lists_of a sets) (starts_of a sets) f s) \<and> 1 \<le> f 0 \<and> (m * f 0 \<le> n_ubatch \<or> f 0 = 1)"

definition marked :: "batch_allocr \<Rightarrow> nat set list \<Rightarrow> nat \<Rightarrow> (nat \<Rightarrow> nat) \<Rightarrow> bool list" where
  "marked a sets m f = marks (lists_of a sets) (starts_of a sets) (ba_used a) (\<lambda>s. if s < m then f s else 0)"

lemma chosen_lists:
  assumes r: "eq_ready a" and ch: "chosen a n_ubatch n_keep_tail sets m f"
  shows "lists_ok (lists_of a sets) (starts_of a sets) (ba_used a)" "m \<le> length (lists_of a sets)"
    "s < m \<Longrightarrow> lists_of a sets ! s = toks_with (ba_batch a) (sets ! s)"
    "s < m \<Longrightarrow> length (took (lists_of a sets) (starts_of a sets) f s) = f 0"
proof -
  have s: "sets_ok a (n_ubatch + 1) sets" "m \<le> length sets" using ch unfolding chosen_def by blast+
  show "lists_ok (lists_of a sets) (starts_of a sets) (ba_used a)"
    using lists_of_sets(1) [OF r s(1)] by (simp add: lists_of_def starts_of_def [abs_def])
  show "m \<le> length (lists_of a sets)" using s(2) by (simp add: lists_of_def)
  show "s < m \<Longrightarrow> lists_of a sets ! s = toks_with (ba_batch a) (sets ! s)" using s(2) by (simp add: lists_of_def)
  show "length (took (lists_of a sets) (starts_of a sets) f s) = f 0" if "s < m"
  proof -
    have "f s = f 0" "starts_of a sets s + f 0 \<le> length (lists_of a sets ! s)" using ch that unfolding chosen_def by blast+
    then have "f 0 \<le> length (lists_of a sets ! s) - starts_of a sets s" by simp
    with \<open>f s = f 0\<close> show ?thesis by (simp add: took_def min_absorb2)
  qed
qed

lemma split_equal_chosen:
  assumes r: "eq_ready a" and un: "unused a \<noteq> {}" and k: "n_keep_tail = 0 \<or> n_keep_tail < n_ubatch"
    and cpl: "\<not> (sequential \<and> ba_has_cpl a)"
  shows "\<exists>sets m f. chosen a n_ubatch n_keep_tail sets m f \<and> split_equal n_ubatch sequential n_keep_tail a =
    ubatch_add (concat (blocks_of a sets m f)) m True (a\<lparr>ba_used := marked a sets m f, ba_n_used := ba_n_used a + sum f {..<m}\<rparr>)"
proof -
  let ?n = "b_n_tokens (ba_batch a)"
  have ok: "ba_ok a" using r by (simp add: eq_ready_def)
  have map: "ba_seq_set_map a = toks_with (ba_batch a)" using ok by (simp add: ba_ok_def)
  have "sets_ok a n_ubatch []" by (simp add: sets_ok_def)
  from equal_sets_spec [OF ok _ this, of "[0..<?n]" sequential "-1"] obtain sets where
    es: "equal_sets a sequential n_ubatch [0..<?n] ([], -1) = Some sets" "sets_ok a (n_ubatch + 1) sets"
      "sets = [] \<longrightarrow> (\<forall>i<?n. i \<notin> unused a)" by auto
  have ne: "sets \<noteq> []" using es(3) un by (auto simp: unused_def)
  let ?ls = "lists_of a sets" and ?c = "starts_of a sets"
  note lists = lists_of_sets [OF r es(2), folded lists_of_def starts_of_def]
  have l: "length ?ls = length sets" "?ls \<noteq> []" using ne by (simp_all add: lists_of_def)
  have "marks ?ls ?c (ba_used a) (\<lambda>_. 0) = ba_used a" by (rule nth_equalityI) (simp_all add: nth_marks took_def)
  moreover have "map (took ?ls ?c (\<lambda>_. 0)) [0..<length ?ls] = replicate (length ?ls) []"
    by (rule nth_equalityI) (simp_all add: took_def)
  ultimately have init: "\<lparr>es_cur = map ?c [0..<length ?ls], es_idxs = replicate (length ?ls) [], es_used = ba_used a,
      es_n_used = ba_n_used a\<rparr> = est ?ls ?c (ba_used a) (ba_n_used a) (\<lambda>_. 0)" by (simp add: est_def)
  have "\<forall>s<length ?ls. ?c s + 0 \<le> length (?ls ! s)" using lists(2) by auto
  from equal_loop_est [OF lists(1) l(2) this, of n_ubatch "ba_n_used a"] lists(2) obtain rr where
    loop: "equal_loop n_ubatch ?ls (est ?ls ?c (ba_used a) (ba_n_used a) (\<lambda>_. 0)) = Some (est ?ls ?c (ba_used a) (ba_n_used a) (\<lambda>_. rr))"
      "1 \<le> rr" "rounds_end n_ubatch ?ls ?c rr" by (auto simp: Suc_le_eq)
  from keep_tail_est [OF lists(1) l(2) loop(2,3) k, of "ba_n_used a"] obtain m f e where
    kt: "keep_tail n_ubatch n_keep_tail ?ls (est ?ls ?c (ba_used a) (ba_n_used a) (\<lambda>_. rr)) = Some (m, e)" "1 \<le> m" "m \<le> length ?ls"
      "es_used e = marked a sets m f" "es_n_used e = ba_n_used a + sum f {..<m}"
      "\<forall>s<m. es_idxs e ! s = took ?ls ?c f s \<and> 1 \<le> f s \<and> ?c s + f s \<le> length (?ls ! s) \<and> tail_ok n_keep_tail ?ls ?c f s"
      "length (es_idxs e) = length ?ls" "\<forall>s<m. \<forall>t<m. f s = f t" "m * f 0 \<le> n_ubatch \<or> f 0 = 1"
    unfolding marked_def by blast
  have m0: "0 < m" using kt(2) by simp
  have f0: "f s = f 0" if "s < m" for s using kt(8) that m0 by blast
  have take: "take m (es_idxs e) = blocks_of a sets m f"
    using kt(3,6,7) by (intro nth_equalityI) (simp_all add: blocks_of_def)
  have "chosen a n_ubatch n_keep_tail sets m f"
    unfolding chosen_def
  proof (intro conjI allI impI)
    show "sets_ok a (n_ubatch + 1) sets" "1 \<le> m" "m \<le> length sets" "m * f 0 \<le> n_ubatch \<or> f 0 = 1"
      using es(2) kt(2,3,9) l(1) by simp_all
    show "1 \<le> f 0" using kt(6) m0 by blast
    fix s assume s: "s < m"
    show "f s = f 0" by (rule f0 [OF s])
    show "?c s + f 0 \<le> length (?ls ! s)" using kt(6) s unfolding f0 [OF s, symmetric] by blast
    show "tail_ok n_keep_tail ?ls ?c f s" using kt(6) s by blast
  qed
  moreover have "split_equal n_ubatch sequential n_keep_tail a =
      ubatch_add (concat (blocks_of a sets m f)) m True (a\<lparr>ba_used := marked a sets m f, ba_n_used := ba_n_used a + sum f {..<m}\<rparr>)"
    using cpl ne es(1) lists(3) loop(1) kt(1,4,5) take
    unfolding split_equal_def map Let_def lists_of_def [symmetric] by (auto simp: init)
  ultimately show ?thesis by blast
qed

lemma chosen_ready:
  assumes r: "eq_ready a" and ch: "chosen a n_ubatch n_keep_tail sets m f"
    and ok: "ba_ok a'" "ba_batch a' = ba_batch a" "ba_used a' = marked a sets m f"
  shows "eq_ready a'"
proof (rule eq_readyI(1) [OF ok(1)])
  let ?b = "ba_batch a" and ?ls = "lists_of a sets" and ?cs = "starts_of a sets"
  let ?c = "\<lambda>S. used_in a S + (if \<exists>s<m. sets ! s = S then f 0 else 0)"
  note lists = chosen_lists [OF r ch]
  have len: "length (ba_used a) = b_n_tokens ?b" using r by (simp add: eq_ready_def ba_ok_def)
  have f: "f s = f 0" "?cs s + f 0 \<le> length (?ls ! s)" if "s < m" for s using ch that unfolding chosen_def by blast+
  show "?c S \<le> length (toks_with (ba_batch a') S)" for S
  proof (cases "\<exists>s<m. sets ! s = S")
    case True
    then obtain s where s: "s < m" "sets ! s = S" by blast
    with f(2) [OF s(1)] lists(3) [OF s(1)] True ok(2) show ?thesis by (simp add: starts_of_def)
  qed (auto simp: used_in_le ok(2))
  fix S j assume j: "j < length (toks_with (ba_batch a') S)"
  let ?l = "toks_with ?b S" let ?i = "?l ! j"
  have jl: "j < length ?l" using j ok(2) by simp
  have i: "?i < b_n_tokens ?b" "set_of_tok ?b ?i = S" using nth_mem [OF jl] by (simp_all add: toks_with_mem)
  have old: "ba_used a ! ?i \<longleftrightarrow> j < used_in a S" using r jl unfolding eq_ready_def by blast
  have took: "?i \<in> set (took ?ls ?cs f s) \<longleftrightarrow> sets ! s = S \<and> used_in a S \<le> j \<and> j < used_in a S + f 0" if s: "s < m" for s
  proof (cases "sets ! s = S")
    case False
    then have "?i \<notin> set (?ls ! s)" using i(2) by (simp add: lists(3) [OF s] toks_with_mem)
    with took_mem(1) [OF lists(1) _, of s ?i f] s lists(2) False show ?thesis by auto
  next
    case True
    have l: "?ls ! s = ?l" "?cs s = used_in a S" using lists(3) [OF s] True by (simp_all add: starts_of_def)
    have "?i \<in> set (took ?ls ?cs f s) \<longleftrightarrow> (\<exists>q<f 0. ?l ! (used_in a S + q) = ?i)"
      using lists(4) [OF s] by (auto simp: in_set_conv_nth) (auto simp: took_def l)
    also have "\<dots> \<longleftrightarrow> (\<exists>q<f 0. used_in a S + q = j)"
    proof -
      have "?l ! (used_in a S + q) = ?i \<longleftrightarrow> used_in a S + q = j" if "q < f 0" for q
        using that f(2) [OF s] jl by (simp add: l nth_eq_iff_index_eq toks_with_def)
      then show ?thesis by blast
    qed
    also have "\<dots> \<longleftrightarrow> used_in a S \<le> j \<and> j < used_in a S + f 0" by (auto intro: exI [of _ "j - used_in a S"])
    finally show ?thesis using True by simp
  qed
  have "?i \<in> set (concat (map (took ?ls ?cs f) [0..<m])) \<longleftrightarrow> (\<exists>s<m. ?i \<in> set (took ?ls ?cs f s))" by auto
  also have "\<dots> \<longleftrightarrow> (\<exists>s<m. sets ! s = S) \<and> used_in a S \<le> j \<and> j < used_in a S + f 0" using took by blast
  finally have new: "?i \<in> set (concat (map (took ?ls ?cs f) [0..<m])) \<longleftrightarrow>
    (\<exists>s<m. sets ! s = S) \<and> used_in a S \<le> j \<and> j < used_in a S + f 0" .
  have "?i < length (ba_used a)" using i(1) len by simp
  from took_concat(3) [OF lists(1,2) this, of f]
  have "ba_used a' ! ?i \<longleftrightarrow> j < used_in a S \<or> (\<exists>s<m. sets ! s = S) \<and> used_in a S \<le> j \<and> j < used_in a S + f 0"
    unfolding ok(3) marked_def old new .
  also have "\<dots> \<longleftrightarrow> j < ?c S" by (cases "\<exists>s<m. sets ! s = S"; simp only: if_True if_False simp_thms; linarith)
  finally show "ba_used a' ! (toks_with (ba_batch a') S ! j) \<longleftrightarrow> j < ?c S" unfolding ok(2) .
qed

lemma chosen_blocks:
  assumes r: "eq_ready a" and ch: "chosen a n_ubatch n_keep_tail sets m f"
  shows "equal_blocks n_ubatch n_keep_tail a (blocks_of a sets m f)" "length (concat (blocks_of a sets m f)) = m * f 0"
    "length (blocks_of a sets m f) = m"
proof -
  note lists = chosen_lists [OF r ch]
  have s: "sets_ok a (n_ubatch + 1) sets" "1 \<le> m" "m \<le> length sets" "1 \<le> f 0" "m * f 0 \<le> n_ubatch \<or> f 0 = 1"
    using ch unfolding chosen_def by blast+
  have f: "f t = f 0" "tail_ok n_keep_tail (lists_of a sets) (starts_of a sets) f t" if "t < m" for t
    using ch that unfolding chosen_def by blast+
  show l: "length (blocks_of a sets m f) = m" by (simp add: blocks_of_def)
  have b: "blocks_of a sets m f ! t = take (f 0) (drop (starts_of a sets t) (toks_with (ba_batch a) (take m sets ! t)))"
    "length (blocks_of a sets m f ! t) = f 0" if "t < m" for t
    using that f(1) [OF that] lists(3,4) [OF that] by (simp_all add: blocks_of_def took_def)
  show "length (concat (blocks_of a sets m f)) = m * f 0"
    using b(2) l by (subst concat_same_length [where m = "f 0"]) (auto simp: in_set_conv_nth)
  have tail: "starts_of a sets t + f 0 = length (toks_with (ba_batch a) (take m sets ! t)) \<or>
      n_keep_tail \<le> length (toks_with (ba_batch a) (take m sets ! t)) - (starts_of a sets t + f 0)" if "t < m" for t
    using f [OF that] lists(3) [OF that] that by (simp add: tail_ok_def)
  show "equal_blocks n_ubatch n_keep_tail a (blocks_of a sets m f)"
    unfolding equal_blocks_def l
  proof (intro conjI exI allI impI)
    show "blocks_of a sets m f \<noteq> []" using l s(2) by auto
    show "m \<le> n_ubatch + 1" using s(3) sets_okD(1) [OF s(1)] by simp
    show "1 \<le> f 0" "m * f 0 \<le> n_ubatch \<or> f 0 = 1" "length (take m sets) = m" using s by simp_all
    show "take m sets ! x \<inter> take m sets ! y = {}" if "x < length (take m sets)" "y < length (take m sets)" "x \<noteq> y" for x y
      using sets_okD(3) [OF s(1), of x y] that by simp
    show "length (blocks_of a sets m f ! t) = f 0" if "t < m" for t by (rule b(2) [OF that])
    show "blocks_of a sets m f ! t = take (f 0) (drop (starts_of a sets t) (toks_with (ba_batch a) (take m sets ! t)))" if "t < m" for t
      by (rule b(1) [OF that])
    show "starts_of a sets t + f 0 = length (toks_with (ba_batch a) (take m sets ! t)) \<or>
      n_keep_tail \<le> length (toks_with (ba_batch a) (take m sets ! t)) - (starts_of a sets t + f 0)" if "t < m" for t
      by (rule tail [OF that])
  qed
qed

lemma split_equal_step:
  assumes r: "eq_ready a" and un: "unused a \<noteq> {}" and k: "n_keep_tail = 0 \<or> n_keep_tail < n_ubatch"
    and cpl: "\<not> (sequential \<and> ba_has_cpl a)"
  shows "\<exists>u idxs a'. split_equal n_ubatch sequential n_keep_tail a = Some (u, a') \<and> eq_ready a' \<and> same_base a a' \<and>
    idxs \<noteq> [] \<and> distinct idxs \<and> set idxs \<subseteq> unused a \<and> unused a' = unused a - set idxs \<and> ub_n_tokens u = length idxs \<and>
    equal_good n_ubatch n_keep_tail a idxs u"
proof -
  have ok: "ba_ok a" using r by (simp add: eq_ready_def)
  have len: "length (ba_used a) = b_n_tokens (ba_batch a)" using ok by (simp add: ba_ok_def)
  from split_equal_chosen [OF r un k cpl] obtain sets m f where
    ch: "chosen a n_ubatch n_keep_tail sets m f" and
    run: "split_equal n_ubatch sequential n_keep_tail a =
      ubatch_add (concat (blocks_of a sets m f)) m True (a\<lparr>ba_used := marked a sets m f, ba_n_used := ba_n_used a + sum f {..<m}\<rparr>)"
    by blast
  note lists = chosen_lists [OF r ch] and blocks = chosen_blocks [OF r ch]
  define idxs where "idxs = concat (blocks_of a sets m f)"
  have m1: "1 \<le> m" "1 \<le> f 0" "\<And>s. s < m \<Longrightarrow> f s = f 0" using ch unfolding chosen_def by blast+
  then have m: "0 < m" by linarith
  have n: "length idxs = m * f 0" using blocks(2) by (simp add: idxs_def)
  note conc = took_concat [OF lists(1,2), where f = f, folded blocks_of_def idxs_def]
  have "sum f {..<m} = (\<Sum>_<m. f 0)" by (rule sum.cong [OF refl]) (rule m1(3), simp)
  then have sum: "sum f {..<m} = length idxs" by (simp add: n)
  have sub: "set idxs \<subseteq> unused a" using conc(2) len by (auto simp: unused_def)
  have us: "length (marked a sets m f) = length (ba_used a)" by (simp add: marked_def)
  have marks: "marked a sets m f ! i \<longleftrightarrow> ba_used a ! i \<or> i \<in> set idxs" if "i < length (marked a sets m f)" for i
    using conc(3) that unfolding us by (simp add: marked_def)
  have "\<forall>i\<in>set idxs. i < b_n_tokens (ba_batch a)" using sub by (auto simp: unused_def)
  from ubatch_add_eq [OF ok this m, where e = True and us = "marked a sets m f" and nu = "ba_n_used a + length idxs"] n
  obtain oi where
    add: "ubatch_add idxs m True (a\<lparr>ba_used := marked a sets m f, ba_n_used := ba_n_used a + length idxs\<rparr>) =
      Some (ub_of a idxs m True, a\<lparr>ba_used := marked a sets m f, ba_n_used := ba_n_used a + length idxs, ba_out_ids := oi\<rparr>)" by auto
  let ?a = "a\<lparr>ba_used := marked a sets m f, ba_n_used := ba_n_used a + length idxs, ba_out_ids := oi\<rparr>"
  note mk = marked_ok [OF ok conc(1) sub us marks, where oi = oi]
  have "eq_ready ?a" by (rule chosen_ready [OF r ch mk(1)]) simp_all
  moreover have "equal_good n_ubatch n_keep_tail a idxs (ub_of a idxs m True)"
    unfolding equal_good_def
    by (rule exI [of _ "blocks_of a sets m f"]) (intro conjI blocks(1) idxs_def, simp only: blocks(3))
  moreover have "idxs \<noteq> []" using n m m1(2) by auto
  moreover have "split_equal n_ubatch sequential n_keep_tail a = Some (ub_of a idxs m True, ?a)"
    unfolding run idxs_def [symmetric] sum add ..
  ultimately show ?thesis
    using conc(1) sub mk(2) by (intro exI [of _ "ub_of a idxs m True"] exI [of _ idxs] exI [of _ ?a] conjI) (simp_all add: ub_of_def Let_def)
qed

interpretation equal: splitter "split_equal n_ubatch sequential n_keep_tail"
  "\<lambda>a. eq_ready a \<and> \<not> (sequential \<and> ba_has_cpl a) \<and> (n_keep_tail = 0 \<or> n_keep_tail < n_ubatch)" "equal_good n_ubatch n_keep_tail"
proof unfold_locales
  fix a assume "eq_ready a \<and> \<not> (sequential \<and> ba_has_cpl a) \<and> (n_keep_tail = 0 \<or> n_keep_tail < n_ubatch)" "unused a = {}"
  then show "split_equal n_ubatch sequential n_keep_tail a = Some (ub_none, a)" by (intro split_equal_done) (simp_all add: eq_ready_def)
next
  fix a assume *: "eq_ready a \<and> \<not> (sequential \<and> ba_has_cpl a) \<and> (n_keep_tail = 0 \<or> n_keep_tail < n_ubatch)" "unused a \<noteq> {}"
  then show "\<exists>u idxs a'. split_equal n_ubatch sequential n_keep_tail a = Some (u, a') \<and>
      (eq_ready a' \<and> \<not> (sequential \<and> ba_has_cpl a') \<and> (n_keep_tail = 0 \<or> n_keep_tail < n_ubatch)) \<and> same_base a a' \<and>
      idxs \<noteq> [] \<and> distinct idxs \<and> set idxs \<subseteq> unused a \<and> unused a' = unused a - set idxs \<and> ub_n_tokens u = length idxs \<and>
      equal_good n_ubatch n_keep_tail a idxs u"
    using split_equal_step [of a n_keep_tail n_ubatch sequential] by (fastforce simp: same_base_def)
next
  fix a a' idxs u assume b: "same_base a a'" and g: "equal_good n_ubatch n_keep_tail a' idxs u"
  have "ba_batch a' = ba_batch a" using b by (simp add: same_base_def)
  with g show "equal_good n_ubatch n_keep_tail a idxs u" unfolding equal_good_def equal_blocks_def ub_of_base [OF b] by simp
qed

end
