(* ===== verification/BatchSeq.thy ===== *)
theory BatchSeq
  imports BatchPartition
begin

text \<open>
  The sequence split: a chain of tokens in the order of the batch, the set of each a subset of the one
  before. It is the third implementation of the interface of the splits.
\<close>

definition mark_all :: "nat list \<Rightarrow> bool list \<Rightarrow> bool list" where
  "mark_all is us = fold (\<lambda>i us. us[i := True]) is us"

lemma mark_all_simps [simp]:
  "mark_all [] us = us" "mark_all (i # is) us = mark_all is (us[i := True])" "length (mark_all is us) = length us"
proof -
  show "length (mark_all is us) = length us" by (induction "is" arbitrary: us) (simp_all add: mark_all_def)
qed (simp_all add: mark_all_def)

lemma nth_mark_all: "i < length us \<Longrightarrow> mark_all is us ! i \<longleftrightarrow> us ! i \<or> i \<in> set is"
proof (induction "is" arbitrary: us)
  case (Cons j "is")
  then show ?case by (cases "i = j") auto
qed simp

definition narrows :: "llama_batch \<Rightarrow> nat \<Rightarrow> nat \<Rightarrow> bool" where
  "narrows b i j \<longleftrightarrow> i < j \<and> set_of_tok b j \<subseteq> set_of_tok b i"

definition seq_good :: "nat \<Rightarrow> batch_allocr \<Rightarrow> nat list \<Rightarrow> ubatch \<Rightarrow> bool" where
  "seq_good n_ubatch a idxs u \<longleftrightarrow> sorted_wrt (narrows (ba_batch a)) idxs \<and> length idxs \<le> max 1 n_ubatch \<and> u = ub_of a idxs 1 True"

lemma narrows_trans: "narrows b i j \<Longrightarrow> narrows b j k \<Longrightarrow> narrows b i k"
  by (auto simp: narrows_def)

lemma narrows_chain: "narrows b i j \<Longrightarrow> sorted_wrt (narrows b) (j # js) \<Longrightarrow> sorted_wrt (narrows b) (i # j # js)"
  using narrows_trans by fastforce

lemma narrows_distinct: "sorted_wrt (narrows b) is \<Longrightarrow> distinct is"
  by (induction "is") (auto simp: narrows_def)

lemma next_subset_spec:
  assumes "ba_ok a" "length us = b_n_tokens (ba_batch a)" "\<forall>i\<in>set is. i < b_n_tokens (ba_batch a)"
  shows "next_subset a us S is = Some None \<or>
    (\<exists>j. next_subset a us S is = Some (Some j) \<and> j \<in> set is \<and> \<not> us ! j \<and> set_of_tok (ba_batch a) j \<subseteq> S)"
  using assms(3)
proof (induction "is")
  case (Cons i "is")
  have i: "i < b_n_tokens (ba_batch a)" using Cons.prems by simp
  have reads: "at us i = Some (us ! i)" "at (ba_seq_set a) i = Some (set_of_tok (ba_batch a) i)"
    using assms(1,2) i by (simp_all add: ba_ok_def)
  show ?case
  proof (cases "us ! i \<or> \<not> set_of_tok (ba_batch a) i \<subseteq> S")
    case True
    then have "next_subset a us S (i # is) = next_subset a us S is" using reads by auto
    with Cons show ?thesis by auto
  next
    case False
    then have "next_subset a us S (i # is) = Some (Some i)" using reads by auto
    with False show ?thesis by auto
  qed
qed simp

lemma seq_loop_spec:
  assumes ok: "ba_ok a"
  shows "length us = b_n_tokens (ba_batch a) \<Longrightarrow> cur < b_n_tokens (ba_batch a) \<Longrightarrow> \<not> us ! cur \<Longrightarrow>
    \<exists>js. seq_loop a n_ubatch cur (idxs, us, nu) = Some (idxs @ cur # js, mark_all (cur # js) us, nu + length (cur # js)) \<and>
      sorted_wrt (narrows (ba_batch a)) (cur # js) \<and> (\<forall>j\<in>set js. j < b_n_tokens (ba_batch a) \<and> \<not> us ! j) \<and>
      length idxs + length (cur # js) \<le> max (length idxs + 1) n_ubatch"
proof (induction "b_n_tokens (ba_batch a) - cur" arbitrary: cur idxs us nu rule: less_induct)
  case less
  let ?b = "ba_batch a" let ?us = "us[cur := True]"
  have S: "at (ba_seq_set a) cur = Some (set_of_tok ?b cur)" using ok less.prems(2) by (simp add: ba_ok_def)
  show ?case
  proof (cases "length idxs + 1 \<ge> n_ubatch")
    case True
    then have "seq_loop a n_ubatch cur (idxs, us, nu) = Some (idxs @ [cur], ?us, nu + 1)" by (subst seq_loop.simps) simp
    then show ?thesis by (intro exI [of _ "[]"]) simp
  next
    case False
    have "length ?us = b_n_tokens ?b" "\<forall>i\<in>set [cur + 1..<b_n_tokens ?b]. i < b_n_tokens ?b" using less.prems(1) by auto
    note more = next_subset_spec [OF ok this, of "set_of_tok ?b cur"]
    then obtain r where r: "next_subset a ?us (set_of_tok ?b cur) [cur + 1..<b_n_tokens ?b] = Some r" by blast
    have step: "seq_loop a n_ubatch cur (idxs, us, nu) =
        (case r of None \<Rightarrow> Some (idxs @ [cur], ?us, nu + 1) | Some j \<Rightarrow> seq_loop a n_ubatch j (idxs @ [cur], ?us, nu + 1))"
      using False S r by (subst seq_loop.simps) (simp add: Let_def split: option.split)
    show ?thesis
    proof (cases r)
      case None
      with step show ?thesis by (intro exI [of _ "[]"]) simp
    next
      case (Some j)
      have j: "cur < j" "j < b_n_tokens ?b" "\<not> ?us ! j" "set_of_tok ?b j \<subseteq> set_of_tok ?b cur" using more r Some by auto
      have "b_n_tokens ?b - j < b_n_tokens ?b - cur" "length ?us = b_n_tokens ?b" using j(1,2) less.prems(1) by auto
      from less.hyps [OF this j(2,3), of "idxs @ [cur]" "nu + 1"] obtain js where
        js: "seq_loop a n_ubatch j (idxs @ [cur], ?us, nu + 1) =
          Some ((idxs @ [cur]) @ j # js, mark_all (j # js) ?us, nu + 1 + length (j # js))"
        "sorted_wrt (narrows ?b) (j # js)" "\<forall>i\<in>set js. i < b_n_tokens ?b \<and> \<not> ?us ! i"
        "length (idxs @ [cur]) + length (j # js) \<le> max (length (idxs @ [cur]) + 1) n_ubatch" by blast
      have nar: "narrows ?b cur j" using j by (simp add: narrows_def)
      have chain: "sorted_wrt (narrows ?b) (cur # j # js)" by (rule narrows_chain [OF nar js(2)])
      then have lt: "\<forall>i\<in>set (j # js). cur < i" by (auto simp: narrows_def)
      have un: "\<not> us ! i" if "i \<in> set (j # js)" for i
      proof -
        have "cur \<noteq> i" using that lt by blast
        moreover have "\<not> ?us ! i" using that j(3) js(3) by auto
        ultimately show ?thesis by simp
      qed
      have bound: "length idxs + length (cur # j # js) \<le> max (length idxs + 1) n_ubatch" using js(4) False by simp
      have run: "seq_loop a n_ubatch cur (idxs, us, nu) =
          Some (idxs @ cur # j # js, mark_all (cur # j # js) us, nu + length (cur # j # js))"
        using step Some js(1) by simp
      show ?thesis
        using run chain bound un j(2) js(3) by (intro exI [of _ "j # js"]) auto
    qed
  qed
qed

lemma first_unused_spec:
  "first_unused us \<le> length us" "first_unused us < length us \<Longrightarrow> \<not> us ! first_unused us"
  "first_unused us = length us \<Longrightarrow> i < length us \<Longrightarrow> us ! i"
proof -
  show "first_unused us \<le> length us" by (simp add: first_unused_def length_takeWhile_le)
  show "first_unused us < length us \<Longrightarrow> \<not> us ! first_unused us"
    unfolding first_unused_def using nth_length_takeWhile [of "\<lambda>u. u" us] by simp
  assume "first_unused us = length us" "i < length us"
  then have "takeWhile (\<lambda>u. u) us = us" by (metis first_unused_def takeWhile_eq_take take_all le_refl)
  then have "\<forall>u\<in>set us. u" by (metis set_takeWhileD)
  with nth_mem [OF \<open>i < length us\<close>] show "us ! i" by blast
qed

lemma split_seq_step:
  assumes ok: "ba_ok a" and un: "unused a \<noteq> {}"
  shows "\<exists>u idxs a'. split_seq n_ubatch a = Some (u, a') \<and> ba_ok a' \<and> same_base a a' \<and>
    idxs \<noteq> [] \<and> distinct idxs \<and> set idxs \<subseteq> unused a \<and> unused a' = unused a - set idxs \<and> ub_n_tokens u = length idxs \<and>
    seq_good n_ubatch a idxs u"
proof -
  let ?n = "b_n_tokens (ba_batch a)" let ?cur = "first_unused (ba_used a)"
  have len: "length (ba_used a) = ?n" using ok by (simp add: ba_ok_def)
  have cur: "?cur < ?n"
    using un first_unused_spec(1) [of "ba_used a"] first_unused_spec(3) [of "ba_used a"]
    by (cases "?cur = ?n") (auto simp: len unused_def)
  have free: "\<not> ba_used a ! ?cur" using first_unused_spec(2) [of "ba_used a"] cur by (simp add: len)
  from seq_loop_spec [OF ok len cur free, of n_ubatch "[]" "ba_n_used a"] obtain js where
    js: "seq_loop a n_ubatch ?cur ([], ba_used a, ba_n_used a) =
        Some (?cur # js, mark_all (?cur # js) (ba_used a), ba_n_used a + length (?cur # js))"
      "sorted_wrt (narrows (ba_batch a)) (?cur # js)" "\<forall>j\<in>set js. j < ?n \<and> \<not> ba_used a ! j"
      "length (?cur # js) \<le> max 1 n_ubatch" by auto
  define idxs where "idxs = ?cur # js"
  define us where "us = mark_all idxs (ba_used a)"
  have sub: "set idxs \<subseteq> unused a" using js(3) cur free by (auto simp: idxs_def unused_def)
  have dist: "distinct idxs" using narrows_distinct [OF js(2)] by (simp add: idxs_def)
  have lt: "\<forall>i\<in>set idxs. i < ?n" using sub by (auto simp: unused_def)
  have us: "length us = length (ba_used a)" "\<And>i. i < length us \<Longrightarrow> us ! i \<longleftrightarrow> ba_used a ! i \<or> i \<in> set idxs"
    by (simp_all add: us_def nth_mark_all)
  from ubatch_add_eq [OF ok lt, of 1, where e = True and us = us and nu = "ba_n_used a + length idxs"] obtain oi where
    add: "ubatch_add idxs 1 True (a\<lparr>ba_used := us, ba_n_used := ba_n_used a + length idxs\<rparr>) =
      Some (ub_of a idxs 1 True, a\<lparr>ba_used := us, ba_n_used := ba_n_used a + length idxs, ba_out_ids := oi\<rparr>)" by auto
  note mk = marked_ok [OF ok dist sub us, where oi = oi]
  have "split_seq n_ubatch a = Some (ub_of a idxs 1 True, a\<lparr>ba_used := us, ba_n_used := ba_n_used a + length idxs, ba_out_ids := oi\<rparr>)"
    using cur js(1) add unfolding split_seq_def Let_def len idxs_def [symmetric] us_def [symmetric] by simp
  moreover have "seq_good n_ubatch a idxs (ub_of a idxs 1 True)" using js(2,4) by (simp add: seq_good_def idxs_def)
  moreover have "idxs \<noteq> []" by (simp add: idxs_def)
  ultimately show ?thesis
    using dist sub mk by (intro exI conjI) (assumption | simp add: ub_of_def Let_def)+
qed

interpretation seqs: splitter "split_seq n_ubatch" ba_ok "seq_good n_ubatch"
proof unfold_locales
  fix a assume "ba_ok a" "unused a = {}"
  show "split_seq n_ubatch a = Some (ub_none, a)"
  proof (cases "first_unused (ba_used a) \<ge> length (ba_used a)")
    case False
    with first_unused_spec(2) [of "ba_used a"] \<open>ba_ok a\<close> \<open>unused a = {}\<close> show ?thesis by (auto simp: unused_def ba_ok_def)
  qed (simp add: split_seq_def)
next
  fix a assume "ba_ok a" "unused a \<noteq> {}"
  then show "\<exists>u idxs a'. split_seq n_ubatch a = Some (u, a') \<and> ba_ok a' \<and> same_base a a' \<and>
      idxs \<noteq> [] \<and> distinct idxs \<and> set idxs \<subseteq> unused a \<and> unused a' = unused a - set idxs \<and> ub_n_tokens u = length idxs \<and>
      seq_good n_ubatch a idxs u" by (rule split_seq_step)
next
  fix a a' idxs u assume b: "same_base a a'" and g: "seq_good n_ubatch a' idxs u"
  have "ba_batch a' = ba_batch a" using b by (simp add: same_base_def)
  with g show "seq_good n_ubatch a idxs u" unfolding seq_good_def ub_of_base [OF b] by simp
qed

end
