(* ===== verification/BatchInit.thy ===== *)
theory BatchInit
  imports BatchSeq
begin

text \<open>
  \<open>init\<close>: for a batch whose arrays cover its tokens the run ends, it accepts the batch exactly when the
  ids, tokens and positions are consistent, and the state it leaves is one the splits accept.
\<close>

section \<open>The batch the caller passes\<close>

definition ids_given :: "llama_batch \<Rightarrow> bool" where
  \<comment> \<open>every token has at least one sequence id\<close>
  "ids_given b \<longleftrightarrow> (\<forall>i<b_n_tokens b. \<exists>ids. seq_ids b i = Some ids \<and> ids \<noteq> [])"

definition input_ok :: "nat \<Rightarrow> nat \<Rightarrow> llama_batch \<Rightarrow> bool" where
  \<comment> \<open>the arrays that are given cover the tokens; positions stay away from the ends of \<open>int32_t\<close>\<close>
  "input_ok n_pos n_embd b \<longleftrightarrow> 0 < b_n_tokens b \<and> int (b_n_tokens b) \<le> 2 ^ 29 \<and>
     (\<forall>ts. b_token b = Some ts \<longrightarrow> b_n_tokens b \<le> length ts) \<and>
     (\<forall>es. b_embd b = Some es \<longrightarrow> b_n_tokens b * n_embd \<le> length es) \<and>
     (\<forall>ps. b_pos b = Some ps \<longrightarrow> b_n_tokens b * (if b_token b \<noteq> None then 1 else max 1 n_pos) \<le> length ps \<and>
        (\<forall>i<b_n_tokens b. \<bar>ps ! i\<bar> < 2 ^ 30)) \<and>
     (b_pos b = None \<longrightarrow> b_token b \<noteq> None \<or> n_pos \<le> 1) \<and>
     (\<forall>l. b_logits b = Some l \<longrightarrow> b_n_tokens b \<le> length l) \<and>
     (b_seq_id b \<noteq> None \<longrightarrow> b_n_seq_id b \<noteq> None) \<and> ids_given (gen_seq b)"

definition mem_ok :: "nat \<Rightarrow> memory_i option \<Rightarrow> bool" where
  "mem_ok n mem \<longleftrightarrow> (\<forall>m. mem = Some m \<longrightarrow> (\<forall>s<n. -1 \<le> mem_pos_max m s \<and> mem_pos_max m s < 2 ^ 29))"

definition ba_shape :: "batch_allocr \<Rightarrow> bool" where
  "ba_shape a \<longleftrightarrow> length (ba_seq_pos a) = LLAMA_MAX_SEQ \<and> length (ba_seq_cpl a) = LLAMA_MAX_SEQ \<and>
     (\<forall>row\<in>set (ba_seq_cpl a). length row = LLAMA_MAX_SEQ) \<and> length (ba_seq_idx a) = LLAMA_MAX_SEQ"

lemma ba_shape_new: "ba_shape (ba_new n_pos)"
  by (simp add: ba_shape_def ba_new_def)

lemma ba_shape_clear: "ba_shape a \<Longrightarrow> ba_shape (ba_clear a)"
  by (simp add: ba_shape_def ba_clear_def)

definition inputs_valid :: "nat \<Rightarrow> nat \<Rightarrow> llama_batch \<Rightarrow> bool" where
  \<comment> \<open>tokens of the vocabulary, and sequence ids below the limit\<close>
  "inputs_valid n_vocab n_seq_max b \<longleftrightarrow> n_seq_max \<le> LLAMA_MAX_SEQ \<and>
     (\<forall>ts. b_token b = Some ts \<longrightarrow> (\<forall>i<b_n_tokens b. 0 \<le> ts ! i \<and> nat (ts ! i) < n_vocab)) \<and>
     (\<forall>i<b_n_tokens b. \<forall>s\<in>set (ids_of (gen_seq b) i). 0 \<le> s \<and> s < int n_seq_max)"

lemma gen_seq_simps [simp]:
  "b_n_tokens (gen_seq b) = b_n_tokens b" "b_token (gen_seq b) = b_token b" "b_embd (gen_seq b) = b_embd b"
  "b_pos (gen_seq b) = b_pos b" "b_logits (gen_seq b) = b_logits b"
  by (simp_all add: gen_seq_def Let_def)

lemma gen_seq_same: "b_seq_id b \<noteq> None \<Longrightarrow> b_n_seq_id b \<noteq> None \<Longrightarrow> gen_seq b = b"
  by (simp only: gen_seq_def Let_def if_False)

lemma gen_seq_default:
  assumes "b_seq_id b = None" "ids_given (gen_seq b)" "i < b_n_tokens b"
  shows "ids_of (gen_seq b) i = [0]"
proof -
  have row: "at_ptr (b_seq_id (gen_seq b)) i = Some [0]" using assms(1,3) by (simp add: gen_seq_def Let_def at_ptr_def)
  from assms(2,3) obtain ids where ids: "seq_ids (gen_seq b) i = Some ids" "ids \<noteq> []" by (auto simp: ids_given_def)
  then obtain n where "at_ptr (b_n_seq_id (gen_seq b)) i = Some n" "n \<le> 1" "ids = take n [0]"
    using row by (auto simp: seq_ids_def Option.bind_eq_Some_conv split: if_splits)
  with ids(2) have "ids = [0]" by (cases n) auto
  with ids(1) show ?thesis by (simp add: ids_of_def)
qed

lemma check_input_eq:
  assumes "input_ok n_pos n_embd b" "0 < n_seq_max"
  shows "check_input n_vocab n_seq_max b = Some (inputs_valid n_vocab n_seq_max b)"
proof (cases "n_seq_max \<le> LLAMA_MAX_SEQ")
  case False
  then show ?thesis by (simp add: check_input_def inputs_valid_def)
next
  case True
  let ?n = "b_n_tokens b"
  have toks: "(if b_token b = None then Some True
      else checkM (\<lambda>i. do { t \<leftarrow> at_ptr (b_token b) i; Some (0 \<le> t \<and> nat t < n_vocab) }) [0..<?n]) =
    Some (\<forall>ts. b_token b = Some ts \<longrightarrow> (\<forall>i<?n. 0 \<le> ts ! i \<and> nat (ts ! i) < n_vocab))"
  proof (cases "b_token b")
    case (Some ts)
    then have "checkM (\<lambda>i. do { t \<leftarrow> at_ptr (b_token b) i; Some (0 \<le> t \<and> nat t < n_vocab) }) [0..<?n] =
        Some (\<forall>i\<in>set [0..<?n]. 0 \<le> ts ! i \<and> nat (ts ! i) < n_vocab)"
      using assms(1) by (intro checkM_eq) (simp add: at_ptr_def input_ok_def)
    with Some show ?thesis by auto
  qed simp
  have ids: "(if b_seq_id b = None then Some True
      else checkM (\<lambda>i. do { ids \<leftarrow> seq_ids b i; Some (\<forall>s\<in>set ids. 0 \<le> s \<and> s < int n_seq_max) }) [0..<?n]) =
    Some (\<forall>i<?n. \<forall>s\<in>set (ids_of (gen_seq b) i). 0 \<le> s \<and> s < int n_seq_max)"
  proof (cases "b_seq_id b = None")
    case True
    have given: "ids_given (gen_seq b)" using assms(1) by (simp add: input_ok_def)
    then have "\<forall>i<?n. \<forall>s\<in>set (ids_of (gen_seq b) i). 0 \<le> s \<and> s < int n_seq_max"
      using gen_seq_default [OF True] assms(2) by simp
    with True show ?thesis by simp
  next
    case False
    then have g: "gen_seq b = b" using assms(1) by (intro gen_seq_same) (auto simp: input_ok_def)
    have "checkM (\<lambda>i. do { ids \<leftarrow> seq_ids b i; Some (\<forall>s\<in>set ids. 0 \<le> s \<and> s < int n_seq_max) }) [0..<?n] =
        Some (\<forall>i\<in>set [0..<?n]. \<forall>s\<in>set (ids_of b i). 0 \<le> s \<and> s < int n_seq_max)"
    proof (rule checkM_eq)
      fix i assume "i \<in> set [0..<?n]"
      then obtain ids where "seq_ids b i = Some ids" using assms(1) g by (auto simp: input_ok_def ids_given_def)
      then show "do { ids \<leftarrow> seq_ids b i; Some (\<forall>s\<in>set ids. 0 \<le> s \<and> s < int n_seq_max) } =
          Some (\<forall>s\<in>set (ids_of b i). 0 \<le> s \<and> s < int n_seq_max)" by (simp add: ids_of_def)
    qed
    with False g show ?thesis by (auto simp: atLeast0LessThan)
  qed
  from toks ids True show ?thesis
    unfolding check_input_def inputs_valid_def by auto
qed

lemma gen_seq_ids:
  assumes "input_ok n_pos n_embd b" "inputs_valid n_vocab n_seq_max b"
  shows "batch_ids n_seq_max (gen_seq b)"
  unfolding batch_ids_def
proof (intro allI impI)
  fix i assume i: "i < b_n_tokens (gen_seq b)"
  then obtain ids where ids: "seq_ids (gen_seq b) i = Some ids" "ids \<noteq> []"
    using assms(1) by (auto simp: input_ok_def ids_given_def)
  then obtain n row where row: "at_ptr (b_seq_id (gen_seq b)) i = Some row" "ids = take n row"
    by (auto simp: seq_ids_def Option.bind_eq_Some_conv split: if_splits)
  then have "seq_id0 (gen_seq b) i = Some (hd ids)"
    using ids(2) by (cases row; cases n) (auto simp: seq_id0_def)
  moreover have "\<forall>s\<in>set ids. 0 \<le> s \<and> s < int n_seq_max"
    using assms(2) i ids(1) by (auto simp: inputs_valid_def ids_of_def)
  ultimately show "\<exists>ids. seq_ids (gen_seq b) i = Some ids \<and> ids \<noteq> [] \<and> seq_id0 (gen_seq b) i = Some (hd ids) \<and>
      (\<forall>s\<in>set ids. 0 \<le> s \<and> s < int n_seq_max)"
    using ids by blast
qed

section \<open>The completed batch\<close>

definition same_tokens :: "llama_batch \<Rightarrow> llama_batch \<Rightarrow> bool" where
  "same_tokens b b' \<longleftrightarrow> b_n_tokens b' = b_n_tokens b \<and> b_token b' = b_token b \<and> b_embd b' = b_embd b \<and>
     b_n_seq_id b' = b_n_seq_id b \<and> b_seq_id b' = b_seq_id b"

lemma same_tokensD:
  assumes "same_tokens b b'"
  shows "b_n_tokens b' = b_n_tokens b" "b_token b' = b_token b" "b_embd b' = b_embd b"
    "seq_ids b' i = seq_ids b i" "seq_id0 b' i = seq_id0 b i" "ids_of b' i = ids_of b i"
    "set_of_tok b' i = set_of_tok b i" "batch_ids m b' \<longleftrightarrow> batch_ids m b"
  using assms by (simp_all add: same_tokens_def seq_ids_def seq_id0_def ids_of_def set_of_tok_def batch_ids_def)

lemma gen_pos_token_step:
  assumes ids: "batch_ids n_seq_max b" "n_seq_max \<le> LLAMA_MAX_SEQ" "i < b_n_tokens b"
    and p0: "length p0 = n_seq_max" "\<forall>p\<in>set p0. 0 \<le> p \<and> p \<le> B" and B: "B < 2 ^ 30"
  shows "\<exists>p0' p. gen_pos_token b i (p0, pos) = Some (p0', pos @ [p]) \<and> 0 \<le> p \<and> p \<le> B \<and>
    length p0' = n_seq_max \<and> (\<forall>p\<in>set p0'. 0 \<le> p \<and> p \<le> B + 1)"
proof -
  note i = seq_ids_of [OF ids(1,3)]
  let ?s = "nat (hd (ids_of b i))"
  have s: "0 \<le> hd (ids_of b i)" "?s < n_seq_max" using i(2,4) by (auto simp: nat_less_iff)
  define p where "p = p0 ! ?s"
  have "p \<in> set p0" using p0(1) s(2) by (simp add: p_def)
  then have pB: "0 \<le> p" "p \<le> B" using p0(2) by blast+
  then have p: "0 \<le> p" "p \<le> B" "i32 (p + 1) = Some (p + 1)" using B by (simp_all add: i32_def i32_ok_def)
  have "\<exists>q. foldM (\<lambda>id p0. do { s \<leftarrow> seq_bit id; q \<leftarrow> i32 (p + 1); assert_that (s < length p0); Some (p0[s := q]) }) (ids_of b i) p0 =
      Some q \<and> (length q = n_seq_max \<and> (\<forall>x\<in>set q. 0 \<le> x \<and> x \<le> B + 1))"
  proof (rule foldM_rule)
    show "length p0 = n_seq_max \<and> (\<forall>x\<in>set p0. 0 \<le> x \<and> x \<le> B + 1)" using p0 by force
    fix "done" x rest q assume x: "ids_of b i = done @ x # rest" and q: "length q = n_seq_max \<and> (\<forall>x\<in>set q. 0 \<le> x \<and> x \<le> B + 1)"
    have "x \<in> set (ids_of b i)" by (simp add: x)
    then have "0 \<le> x" "nat x < n_seq_max" using i(4) by (auto simp: nat_less_iff)
    then have "seq_bit x = Some (nat x)" "nat x < length q" using ids(2) q by (auto simp: seq_bit_def)
    then show "\<exists>s'. do { s \<leftarrow> seq_bit x; q' \<leftarrow> i32 (p + 1); assert_that (s < length q); Some (q[s := q']) } = Some s' \<and>
        (length s' = n_seq_max \<and> (\<forall>x\<in>set s'. 0 \<le> x \<and> x \<le> B + 1))"
      using p q by (auto dest!: set_update_subset_insert [THEN subsetD])
  qed
  then obtain q where "foldM (\<lambda>id p0. do { s \<leftarrow> seq_bit id; q \<leftarrow> i32 (p + 1); assert_that (s < length p0); Some (p0[s := q]) }) (ids_of b i) p0 =
      Some q" "length q = n_seq_max" "\<forall>x\<in>set q. 0 \<le> x \<and> x \<le> B + 1" by blast
  moreover have "seq_bit (hd (ids_of b i)) = Some ?s" using s ids(2) by (simp add: seq_bit_def)
  ultimately show ?thesis
    using i(1,3) p s(2) p0(1) by (intro exI [of _ q] exI [of _ p]) (simp add: gen_pos_token_def p_def)
qed

lemma gen_pos_run:
  assumes ids: "batch_ids n_seq_max b" "n_seq_max \<le> LLAMA_MAX_SEQ" and mem: "mem_ok n_seq_max mem"
    and n: "int (b_n_tokens b) \<le> 2 ^ 29" and pos: "b_pos b = None"
  shows "\<exists>ps. gen_pos n_seq_max mem b = Some (b\<lparr>b_pos := Some ps\<rparr>) \<and> length ps = b_n_tokens b \<and> (\<forall>p\<in>set ps. 0 \<le> p \<and> p < 2 ^ 30)"
proof -
  let ?start = "\<lambda>s. case mem of None \<Rightarrow> 0 | Some m \<Rightarrow> mem_pos_max m s + 1"
  have "foldM (\<lambda>s p0. do { q \<leftarrow> (case mem of None \<Rightarrow> Some 0 | Some m \<Rightarrow> i32 (mem_pos_max m s + 1)); Some (p0 @ [q]) }) [0..<n_seq_max] [] =
      Some ([] @ map ?start [0..<n_seq_max])"
    using mem by (intro foldM_snoc) (fastforce simp: mem_ok_def i32_def i32_ok_def split: option.split)
  moreover
  let ?P = "\<lambda>done (p0 :: llama_pos list, ps :: llama_pos list). length ps = length done \<and> length p0 = n_seq_max \<and>
    (\<forall>p\<in>set ps. 0 \<le> p \<and> p < 2 ^ 30) \<and> (\<forall>p\<in>set p0. 0 \<le> p \<and> p \<le> 2 ^ 29 + int (length done))"
  have "\<exists>st. foldM (gen_pos_token b) [0..<b_n_tokens b] (map ?start [0..<n_seq_max], []) = Some st \<and> ?P [0..<b_n_tokens b] st"
  proof (rule foldM_rule)
    show "?P [] (map ?start [0..<n_seq_max], [])" using mem by (fastforce simp: mem_ok_def split: option.split)
    fix "done" i rest st assume split: "[0..<b_n_tokens b] = done @ i # rest" and P: "?P done st"
    obtain p0 ps where st: "st = (p0, ps)" by (cases st)
    have i: "i = length done" "i < b_n_tokens b" by (rule upt_split [OF split])+
    have B: "2 ^ 29 + int (length done) < 2 ^ 30" using i n by simp
    from P have "length p0 = n_seq_max" "\<forall>p\<in>set p0. 0 \<le> p \<and> p \<le> 2 ^ 29 + int (length done)" by (simp_all add: st)
    from gen_pos_token_step [OF ids i(2) this B, of ps] obtain p0' p where
      "gen_pos_token b i (p0, ps) = Some (p0', ps @ [p])" "0 \<le> p" "p \<le> 2 ^ 29 + int (length done)"
      "length p0' = n_seq_max" "\<forall>p\<in>set p0'. 0 \<le> p \<and> p \<le> 2 ^ 29 + int (length done) + 1" by blast
    with P B show "\<exists>st'. gen_pos_token b i st = Some st' \<and> ?P (done @ [i]) st'" by (fastforce simp: st)
  qed
  then obtain p0 ps where "foldM (gen_pos_token b) [0..<b_n_tokens b] (map ?start [0..<n_seq_max], []) = Some (p0, ps)"
    "length ps = b_n_tokens b" "\<forall>p\<in>set ps. 0 \<le> p \<and> p < 2 ^ 30" by (auto split: prod.splits)
  ultimately show ?thesis using pos by (intro exI [of _ ps]) (simp add: gen_pos_def)
qed

lemma gen_logits_run:
  assumes "\<forall>l. b_logits b = Some l \<longrightarrow> b_n_tokens b \<le> length l"
  shows "\<exists>l. gen_logits output_all b = Some (b\<lparr>b_logits := Some l\<rparr>) \<and> b_n_tokens b \<le> length l"
proof (cases "b_logits b")
  case (Some l)
  have "foldM (\<lambda>i r. do { o' \<leftarrow> at l i; Some (r \<and> o') }) [0..<b_n_tokens b] True = Some (fold (\<lambda>i r. r \<and> l ! i) [0..<b_n_tokens b] True)"
    using assms Some by (intro foldM_pure) simp
  moreover have "b_logits b = Some l \<Longrightarrow> b\<lparr>b_logits := Some l\<rparr> = b" by simp
  ultimately have "gen_logits output_all b = Some (b\<lparr>b_logits := Some (if output_all \<and> \<not> fold (\<lambda>i r. r \<and> l ! i) [0..<b_n_tokens b] True
      then replicate (b_n_tokens b) True else l)\<rparr>)"
    using Some by (simp add: gen_logits_def Let_def)
  with assms Some show ?thesis by auto
next
  case None
  then show ?thesis
    by (intro exI [of _ "if output_all then replicate (b_n_tokens b) True else (replicate (b_n_tokens b) False)[b_n_tokens b - 1 := True]"])
      (simp add: gen_logits_def Let_def)
qed

definition completed :: "nat \<Rightarrow> memory_i option \<Rightarrow> bool \<Rightarrow> llama_batch \<Rightarrow> llama_batch" where
  "completed n_seq_max mem output_all b = the (do { b \<leftarrow> gen_pos n_seq_max mem (gen_seq b); gen_logits output_all b })"

definition batch_ready :: "nat \<Rightarrow> nat \<Rightarrow> nat \<Rightarrow> llama_batch \<Rightarrow> bool" where
  "batch_ready n_pos n_embd n_seq_max b \<longleftrightarrow> 0 < b_n_tokens b \<and> batch_arrays n_pos n_embd b \<and> batch_ids n_seq_max b \<and>
     (\<forall>i<b_n_tokens b. \<bar>the (b_pos b) ! i\<bar> < 2 ^ 30)"

lemma completed_run:
  assumes b: "input_ok n_pos n_embd b" "inputs_valid n_vocab n_seq_max b" and mem: "mem_ok n_seq_max mem"
  shows "(do { b \<leftarrow> gen_pos n_seq_max mem (gen_seq b); gen_logits output_all b }) = Some (completed n_seq_max mem output_all b)"
    "batch_ready n_pos n_embd n_seq_max (completed n_seq_max mem output_all b)"
    "same_tokens (gen_seq b) (completed n_seq_max mem output_all b)"
proof -
  let ?b = "gen_seq b"
  have max: "n_seq_max \<le> LLAMA_MAX_SEQ" using b(2) by (simp add: inputs_valid_def)
  have n: "int (b_n_tokens ?b) \<le> 2 ^ 29" using b(1) by (simp add: input_ok_def)
  note ids = gen_seq_ids [OF b]
  have "\<exists>ps. gen_pos n_seq_max mem ?b = Some (?b\<lparr>b_pos := Some ps\<rparr>) \<and>
      b_n_tokens b * (if b_token b \<noteq> None then 1 else max 1 n_pos) \<le> length ps \<and> (\<forall>i<b_n_tokens b. \<bar>ps ! i\<bar> < 2 ^ 30)"
  proof (cases "b_pos b")
    case None
    from gen_pos_run [OF ids max mem n] None obtain ps where
      ps: "gen_pos n_seq_max mem ?b = Some (?b\<lparr>b_pos := Some ps\<rparr>)" "length ps = b_n_tokens b" "\<forall>p\<in>set ps. 0 \<le> p \<and> p < 2 ^ 30"
      by auto
    have "(if b_token b \<noteq> None then 1 else max 1 n_pos) = 1" using b(1) None by (auto simp: input_ok_def)
    with ps show ?thesis by fastforce
  next
    case (Some ps)
    have "?b = ?b\<lparr>b_pos := Some ps\<rparr>" using Some by simp
    moreover have "gen_pos n_seq_max mem ?b = Some ?b" using Some by (simp add: gen_pos_def)
    moreover have "b_n_tokens b * (if b_token b \<noteq> None then 1 else max 1 n_pos) \<le> length ps \<and> (\<forall>i<b_n_tokens b. \<bar>ps ! i\<bar> < 2 ^ 30)"
      using b(1) Some unfolding input_ok_def by blast
    ultimately show ?thesis by metis
  qed
  then obtain ps where ps: "gen_pos n_seq_max mem ?b = Some (?b\<lparr>b_pos := Some ps\<rparr>)"
    "b_n_tokens b * (if b_token b \<noteq> None then 1 else max 1 n_pos) \<le> length ps" "\<forall>i<b_n_tokens b. \<bar>ps ! i\<bar> < 2 ^ 30" by blast
  have "\<forall>l. b_logits (?b\<lparr>b_pos := Some ps\<rparr>) = Some l \<longrightarrow> b_n_tokens (?b\<lparr>b_pos := Some ps\<rparr>) \<le> length l"
    using b(1) by (simp add: input_ok_def)
  from gen_logits_run [OF this, of output_all] obtain l where
    l: "gen_logits output_all (?b\<lparr>b_pos := Some ps\<rparr>) = Some (?b\<lparr>b_pos := Some ps, b_logits := Some l\<rparr>)" "b_n_tokens b \<le> length l" by auto
  have c: "completed n_seq_max mem output_all b = ?b\<lparr>b_pos := Some ps, b_logits := Some l\<rparr>" using ps(1) l(1) by (simp add: completed_def)
  show "(do { b \<leftarrow> gen_pos n_seq_max mem ?b; gen_logits output_all b }) = Some (completed n_seq_max mem output_all b)"
    using ps(1) l(1) by (simp add: c)
  show same: "same_tokens ?b (completed n_seq_max mem output_all b)" by (simp add: c same_tokens_def)
  have "batch_arrays n_pos n_embd (completed n_seq_max mem output_all b)"
    using b(1) ps(2) l(2) by (simp add: c batch_arrays_def input_ok_def)
  moreover have "batch_ids n_seq_max (completed n_seq_max mem output_all b)" using ids same_tokensD(8) [OF same] by simp
  ultimately show "batch_ready n_pos n_embd n_seq_max (completed n_seq_max mem output_all b)"
    using b(1) ps(3) by (simp add: batch_ready_def c input_ok_def)
qed

end
