(* ===== verification/BatchChecks.thy ===== *)
theory BatchChecks
  imports BatchInit
begin

text \<open>
  The statistics \<open>init\<close> computes from the completed batch, and its consistency checks, as statements about
  the tokens: which positions a sequence has, which sequences share a token, in which order positions come.
\<close>

section \<open>Statistics\<close>

definition pos_at :: "llama_batch \<Rightarrow> nat \<Rightarrow> llama_pos" where
  "pos_at b i = the (b_pos b) ! i"

definition positions_in :: "llama_batch \<Rightarrow> nat \<Rightarrow> nat \<Rightarrow> llama_pos set" where
  "positions_in b k s = {pos_at b i | i. i < k \<and> s \<in> set_of_tok b i}"

definition coupled_in :: "llama_batch \<Rightarrow> nat \<Rightarrow> nat \<Rightarrow> nat \<Rightarrow> bool" where
  "coupled_in b k s1 s0 \<longleftrightarrow> (\<exists>i<k. nat (hd (ids_of b i)) = s0 \<and> s1 \<in> nat ` set (tl (ids_of b i)))"

definition stats_as :: "batch_allocr \<Rightarrow> (nat \<Rightarrow> llama_pos set) \<Rightarrow> (nat \<Rightarrow> nat \<Rightarrow> bool) \<Rightarrow> bool \<Rightarrow> bool" where
  "stats_as a P C h \<longleftrightarrow> length (ba_seq_pos a) = LLAMA_MAX_SEQ \<and> (\<forall>s<LLAMA_MAX_SEQ. ba_seq_pos a ! s = P s) \<and>
     length (ba_seq_cpl a) = LLAMA_MAX_SEQ \<and> (\<forall>s<LLAMA_MAX_SEQ. length (ba_seq_cpl a ! s) = LLAMA_MAX_SEQ) \<and>
     (\<forall>s1<LLAMA_MAX_SEQ. \<forall>s0<LLAMA_MAX_SEQ. ba_seq_cpl a ! s1 ! s0 \<longleftrightarrow> C s1 s0) \<and> (ba_has_cpl a \<longleftrightarrow> h)"

definition only_stats :: "batch_allocr \<Rightarrow> batch_allocr \<Rightarrow> bool" where
  "only_stats a a' \<longleftrightarrow> a' = a\<lparr>ba_seq_pos := ba_seq_pos a', ba_seq_cpl := ba_seq_cpl a', ba_has_cpl := ba_has_cpl a'\<rparr>"

lemma only_stats_trans: "only_stats a b \<Longrightarrow> only_stats b c \<Longrightarrow> only_stats a c"
  unfolding only_stats_def by (cases a; cases b; cases c) simp

lemma only_stats_upd [simp]:
  "only_stats a a" "only_stats a (a\<lparr>ba_seq_pos := sp\<rparr>)" "only_stats a (a\<lparr>ba_seq_cpl := sc, ba_has_cpl := h\<rparr>)"
  "only_stats a (a\<lparr>ba_has_cpl := h\<rparr>)"
  unfolding only_stats_def by (cases a, simp)+

lemma only_stats_simps:
  assumes "only_stats a a'"
  shows "ba_batch a' = ba_batch a" "ba_n_pos_per_embd a' = ba_n_pos_per_embd a" "ba_n_embd a' = ba_n_embd a"
    "ba_n_seq_max a' = ba_n_seq_max a" "ba_seq_set a' = ba_seq_set a" "ba_seq_set_map a' = ba_seq_set_map a"
    "ba_seq_idx a' = ba_seq_idx a" "ba_seq_id_unq a' = ba_seq_id_unq a" "ba_n_outputs a' = ba_n_outputs a"
  using assms unfolding only_stats_def by (cases a; cases a'; simp)+

lemma stats_enter:
  assumes st: "stats_as a P C h" and s: "s1 < LLAMA_MAX_SEQ"
  shows "stats_as (a\<lparr>ba_seq_pos := (ba_seq_pos a)[s1 := insert p (ba_seq_pos a ! s1)]\<rparr>) (\<lambda>s. P s \<union> (if s = s1 then {p} else {})) C h"
  using assms by (auto simp: stats_as_def nth_list_update)

lemma stats_couple:
  assumes st: "stats_as a P C h" and s: "s1 < LLAMA_MAX_SEQ" "s0 < LLAMA_MAX_SEQ"
  shows "stats_as (a\<lparr>ba_seq_cpl := (ba_seq_cpl a)[s1 := (ba_seq_cpl a ! s1)[s0 := True]], ba_has_cpl := True\<rparr>)
    P (\<lambda>x y. C x y \<or> x = s1 \<and> y = s0) True"
  using assms by (auto simp: stats_as_def nth_list_update)

lemma stats_cong: "stats_as a P C h \<Longrightarrow> (\<And>s. P s = P' s) \<Longrightarrow> (\<And>x y. C x y \<longleftrightarrow> C' x y) \<Longrightarrow> (h \<longleftrightarrow> h') \<Longrightarrow> stats_as a P' C' h'"
  by (simp add: stats_as_def)

lemma tl_take_Suc: "t < length xs \<Longrightarrow> tl (take (Suc t) xs) = (if t = 0 then [] else tl (take t xs) @ [xs ! t])"
  by (cases xs; cases t) (simp_all add: take_Suc_conv_app_nth)

lemma couple_token_run:
  assumes ids: "batch_ids m (ba_batch a)" "m \<le> LLAMA_MAX_SEQ" "i < b_n_tokens (ba_batch a)"
    and pos: "at_ptr (b_pos (ba_batch a)) i = Some (pos_at (ba_batch a) i)" and st: "stats_as a P C h"
  shows "\<exists>a'. couple_token i a = Some a' \<and> only_stats a a' \<and>
    stats_as a' (\<lambda>s. P s \<union> (if s \<in> set_of_tok (ba_batch a) i then {pos_at (ba_batch a) i} else {}))
      (\<lambda>s1 s0. C s1 s0 \<or> nat (hd (ids_of (ba_batch a) i)) = s0 \<and> s1 \<in> nat ` set (tl (ids_of (ba_batch a) i)))
      (h \<or> length (ids_of (ba_batch a) i) > 1)"
proof -
  let ?b = "ba_batch a" let ?ids = "ids_of ?b i" let ?p = "pos_at ?b i"
  note i = seq_ids_of [OF ids(1,3)]
  have bit: "seq_bit x = Some (nat x) \<and> nat x < LLAMA_MAX_SEQ" if "x \<in> set ?ids" for x
    using i(4) ids(2) that by (force simp: seq_bit_def)
  let ?I = "\<lambda>t a'. only_stats a a' \<and> stats_as a' (\<lambda>s. P s \<union> (if s \<in> nat ` set (take t ?ids) then {?p} else {}))
      (\<lambda>s1 s0. C s1 s0 \<or> nat (hd ?ids) = s0 \<and> s1 \<in> nat ` set (tl (take t ?ids))) (h \<or> t > 1)"
  let ?step = "\<lambda>s a. do {
       s1 \<leftarrow> seq_bit (?ids ! s);
       p \<leftarrow> at_ptr (b_pos (ba_batch a)) i;
       assert_that (s1 < length (ba_seq_pos a));
       let a = a\<lparr>ba_seq_pos := (ba_seq_pos a)[s1 := insert p (ba_seq_pos a ! s1)]\<rparr>;
       (if s > 0 then do {
          s0 \<leftarrow> seq_bit (hd ?ids);
          row \<leftarrow> at (ba_seq_cpl a) s1;
          assert_that (s0 < length row);
          Some (a\<lparr>ba_seq_cpl := (ba_seq_cpl a)[s1 := row[s0 := True]], ba_has_cpl := True\<rparr>)
        } else Some a)
     }"
  have "\<exists>a'. foldM ?step [0..<length ?ids] a = Some a' \<and> ?I (length [0..<length ?ids]) a'"
  proof (rule foldM_rule)
    show "?I (length []) a" using st by simp
    fix "done" t rest a' assume split: "[0..<length ?ids] = done @ t # rest" and I: "?I (length done) a'"
    have t: "t = length done" "t < length ?ids" by (rule upt_split [OF split])+
    let ?s1 = "nat (?ids ! t)" let ?s0 = "nat (hd ?ids)"
    have s1: "seq_bit (?ids ! t) = Some ?s1" "?s1 < LLAMA_MAX_SEQ" using bit [OF nth_mem [OF t(2)]] by simp_all
    have s0: "seq_bit (hd ?ids) = Some ?s0" "?s0 < LLAMA_MAX_SEQ" using bit [OF hd_in_set [OF i(2)]] by simp_all
    have I: "?I t a'" using I unfolding t(1) .
    note st' = conjunct2 [OF I]
    have b: "ba_batch a' = ?b" using only_stats_simps(1) I by blast
    define a1 where "a1 = a'\<lparr>ba_seq_pos := (ba_seq_pos a')[?s1 := insert ?p (ba_seq_pos a' ! ?s1)]\<rparr>"
    note e = stats_enter [OF st' s1(2), of ?p, folded a1_def]
    have o1: "only_stats a a1" unfolding a1_def by (rule only_stats_trans [OF conjunct1 [OF I]]) simp
    have len: "length (ba_seq_pos a') = LLAMA_MAX_SEQ" "length (ba_seq_cpl a1) = LLAMA_MAX_SEQ"
      "length (ba_seq_cpl a1 ! ?s1) = LLAMA_MAX_SEQ" using st' e s1(2) by (simp_all add: stats_as_def)
    have P: "(P s \<union> (if s \<in> nat ` set (take t ?ids) then {?p} else {})) \<union> (if s = ?s1 then {?p} else {}) =
        P s \<union> (if s \<in> nat ` set (take (Suc t) ?ids) then {?p} else {})" for s
      using t(2) by (auto simp: take_Suc_conv_app_nth)
    have "\<exists>a2. ?step t a' = Some a2 \<and> ?I (Suc t) a2"
    proof (cases "t > 0")
      case True
      define a2 where "a2 = a1\<lparr>ba_seq_cpl := (ba_seq_cpl a1)[?s1 := (ba_seq_cpl a1 ! ?s1)[?s0 := True]], ba_has_cpl := True\<rparr>"
      have "?step t a' = Some a2"
        using s1 s0 len True pos b by (simp add: a1_def a2_def Let_def)
      moreover have "only_stats a a2" unfolding a2_def by (rule only_stats_trans [OF o1]) simp
      moreover have "stats_as a2 (\<lambda>s. P s \<union> (if s \<in> nat ` set (take (Suc t) ?ids) then {?p} else {}))
        (\<lambda>s1 s0. C s1 s0 \<or> nat (hd ?ids) = s0 \<and> s1 \<in> nat ` set (tl (take (Suc t) ?ids))) (h \<or> Suc t > 1)"
      proof (rule stats_cong [OF stats_couple [OF e s1(2) s0(2), folded a2_def]])
        show "(C x y \<or> nat (hd ?ids) = y \<and> x \<in> nat ` set (tl (take t ?ids))) \<or> x = ?s1 \<and> y = ?s0 \<longleftrightarrow>
            C x y \<or> nat (hd ?ids) = y \<and> x \<in> nat ` set (tl (take (Suc t) ?ids))" for x y
          using True t(2) by (auto simp: tl_take_Suc)
        show "True \<longleftrightarrow> h \<or> Suc t > 1" using True by simp
      qed (rule P)
      ultimately show ?thesis by blast
    next
      case False
      have "?step t a' = Some a1" using s1 len False pos b by (simp add: a1_def Let_def)
      moreover have "stats_as a1 (\<lambda>s. P s \<union> (if s \<in> nat ` set (take (Suc t) ?ids) then {?p} else {}))
        (\<lambda>s1 s0. C s1 s0 \<or> nat (hd ?ids) = s0 \<and> s1 \<in> nat ` set (tl (take (Suc t) ?ids))) (h \<or> Suc t > 1)"
      proof (rule stats_cong [OF e])
        show "C x y \<or> nat (hd ?ids) = y \<and> x \<in> nat ` set (tl (take t ?ids)) \<longleftrightarrow>
            C x y \<or> nat (hd ?ids) = y \<and> x \<in> nat ` set (tl (take (Suc t) ?ids))" for x y
          using False t(2) by (simp add: tl_take_Suc)
        show "h \<or> t > 1 \<longleftrightarrow> h \<or> Suc t > 1" using False by simp
      qed (rule P)
      ultimately show ?thesis using o1 by blast
    qed
    then show "\<exists>a2. ?step t a' = Some a2 \<and> ?I (length (done @ [t])) a2" by (simp add: t(1))
  qed
  moreover have "couple_token i a = foldM ?step [0..<length ?ids] a" using i(1,3) by (simp add: couple_token_def Let_def)
  ultimately show ?thesis by (simp add: set_of_tok_def)
qed

lemma at_ptr_pos:
  assumes "batch_arrays n_pos n_embd b" "i < b_n_tokens b"
  shows "at_ptr (b_pos b) i = Some (pos_at b i)"
proof -
  obtain ps where ps: "b_pos b = Some ps" "b_n_tokens b * (if b_token b \<noteq> None then 1 else max 1 n_pos) \<le> length ps"
    using assms(1) by (auto simp: batch_arrays_def)
  have "b_n_tokens b * 1 \<le> b_n_tokens b * (if b_token b \<noteq> None then 1 else max 1 n_pos)" by (intro mult_le_mono2) simp
  then have "i < length ps" using ps(2) assms(2) by linarith
  then show ?thesis using ps(1) by (simp add: at_ptr_def pos_at_def)
qed

lemma couple_tokens_run:
  assumes b: "batch_ready n_pos n_embd m (ba_batch a)" and m: "m \<le> LLAMA_MAX_SEQ"
    and st: "stats_as a (\<lambda>_. {}) (\<lambda>_ _. False) False"
  shows "\<exists>a'. foldM couple_token [0..<b_n_tokens (ba_batch a)] a = Some a' \<and> only_stats a a' \<and>
    stats_as a' (positions_in (ba_batch a) (b_n_tokens (ba_batch a))) (coupled_in (ba_batch a) (b_n_tokens (ba_batch a)))
      (\<exists>i<b_n_tokens (ba_batch a). length (ids_of (ba_batch a) i) > 1)"
proof -
  let ?b = "ba_batch a"
  let ?I = "\<lambda>t a'. only_stats a a' \<and> stats_as a' (positions_in ?b t) (coupled_in ?b t) (\<exists>i<t. length (ids_of ?b i) > 1)"
  have ids: "batch_ids m ?b" and arr: "batch_arrays n_pos n_embd ?b" using b by (simp_all add: batch_ready_def)
  have "\<exists>a'. foldM couple_token [0..<b_n_tokens ?b] a = Some a' \<and> ?I (length [0..<b_n_tokens ?b]) a'"
  proof (rule foldM_rule)
    have "stats_as a (positions_in ?b 0) (coupled_in ?b 0) (\<exists>i<0. length (ids_of ?b i) > 1)"
      by (rule stats_cong [OF st]) (auto simp: positions_in_def coupled_in_def)
    then show "?I (length []) a" by simp
    fix "done" t rest a' assume split: "[0..<b_n_tokens ?b] = done @ t # rest" and I: "?I (length done) a'"
    have t: "t = length done" "t < b_n_tokens ?b" by (rule upt_split [OF split])+
    have I: "?I t a'" using I unfolding t(1) .
    have bb: "ba_batch a' = ?b" using only_stats_simps(1) I by blast
    from couple_token_run [of m a' t, unfolded bb, OF ids m t(2) at_ptr_pos [OF arr t(2)] conjunct2 [OF I]] obtain a2 where
      a2: "couple_token t a' = Some a2" "only_stats a' a2"
        "stats_as a2 (\<lambda>s. positions_in ?b t s \<union> (if s \<in> set_of_tok ?b t then {pos_at ?b t} else {}))
          (\<lambda>s1 s0. coupled_in ?b t s1 s0 \<or> nat (hd (ids_of ?b t)) = s0 \<and> s1 \<in> nat ` set (tl (ids_of ?b t)))
          ((\<exists>i<t. length (ids_of ?b i) > 1) \<or> length (ids_of ?b t) > 1)" by blast
    have "stats_as a2 (positions_in ?b (Suc t)) (coupled_in ?b (Suc t)) (\<exists>i<Suc t. length (ids_of ?b i) > 1)"
      by (rule stats_cong [OF a2(3)]) (auto simp: positions_in_def coupled_in_def less_Suc_eq)
    with a2(1,2) only_stats_trans [OF conjunct1 [OF I]] show "\<exists>a2. couple_token t a' = Some a2 \<and> ?I (length (done @ [t])) a2"
      by (auto simp: t(1))
  qed
  then show ?thesis by simp
qed

lemma count_outputs_run:
  assumes "batch_arrays n_pos n_embd (ba_batch a)"
  shows "count_outputs a = Some (a\<lparr>ba_n_outputs := ba_n_outputs a + card {i. i < b_n_tokens (ba_batch a) \<and> the (b_logits (ba_batch a)) ! i}\<rparr>)"
proof -
  let ?b = "ba_batch a"
  obtain l where l: "b_logits ?b = Some l" "b_n_tokens ?b \<le> length l" using assms by (auto simp: batch_arrays_def)
  have "k \<le> b_n_tokens ?b \<Longrightarrow> foldM (\<lambda>i n. do { o' \<leftarrow> at_ptr (b_logits ?b) i; Some (n + (if o' then 1 else 0)) }) [0..<k] n =
      Some (n + card {i. i < k \<and> l ! i})" for k n
  proof (induction k)
    case (Suc k)
    have "{i. i < Suc k \<and> l ! i} = {i. i < k \<and> l ! i} \<union> (if l ! k then {k} else {})" by (auto simp: less_Suc_eq)
    then have "card {i. i < Suc k \<and> l ! i} = card {i. i < k \<and> l ! i} + (if l ! k then 1 else 0)" by simp
    with Suc l show ?case by (simp add: foldM_append at_ptr_def)
  qed simp
  from this [of "b_n_tokens ?b"] l(1) show ?thesis by (simp add: count_outputs_def)
qed

text \<open>The sets of the tokens, and the index of the tokens by set.\<close>

lemma collect_sets_run:
  assumes ids: "batch_ids m (ba_batch a)" "m \<le> LLAMA_MAX_SEQ" and idx: "length (ba_seq_idx a) = LLAMA_MAX_SEQ"
    and empty: "ba_seq_set a = []" "ba_seq_set_map a = (\<lambda>_. [])"
  shows "\<exists>idx unq. collect_sets m a = Some (a\<lparr>ba_seq_set := map (set_of_tok (ba_batch a)) [0..<b_n_tokens (ba_batch a)],
    ba_seq_set_map := toks_with (ba_batch a), ba_seq_idx := idx, ba_seq_id_unq := unq\<rparr>) \<and> length idx = LLAMA_MAX_SEQ"
proof -
  let ?b = "ba_batch a" let ?n = "b_n_tokens (ba_batch a)"
  let ?tw = "\<lambda>k S. filter (\<lambda>i. set_of_tok ?b i = S) [0..<k]"
  let ?st = "\<lambda>k. a\<lparr>ba_seq_set := map (set_of_tok ?b) [0..<k], ba_seq_set_map := ?tw k\<rparr>"
  let ?f = "\<lambda>i (a, unq). do {
         cur \<leftarrow> token_set (ba_batch a) i;
         Some (a\<lparr>ba_seq_set := ba_seq_set a @ [cur], ba_seq_set_map := (ba_seq_set_map a)(cur := ba_seq_set_map a cur @ [i])\<rparr>, unq \<union> cur)
       }"
  have "k \<le> ?n \<Longrightarrow> \<exists>U. foldM ?f [0..<k] (a, {}) = Some (?st k, U)" for k
  proof (induction k)
    case 0
    have "a = ?st 0" using empty by (cases a) simp
    then show ?case by simp
  next
    case (Suc k)
    from Suc.IH [OF Suc_leD [OF Suc.prems]] obtain U where U: "foldM ?f [0..<k] (a, {}) = Some (?st k, U)" by (elim exE)
    have upd: "(?tw k)(set_of_tok ?b k := ?tw k (set_of_tok ?b k) @ [k]) = ?tw (Suc k)" by auto
    have "?f k (?st k, U) = Some (?st k\<lparr>ba_seq_set := map (set_of_tok ?b) [0..<k] @ [set_of_tok ?b k],
        ba_seq_set_map := (?tw k)(set_of_tok ?b k := ?tw k (set_of_tok ?b k) @ [k])\<rparr>, U \<union> set_of_tok ?b k)"
      using Suc.prems token_set_eq [OF ids, of k] by (simp del: fun_upd_apply)
    then have "?f k (?st k, U) = Some (?st (Suc k), U \<union> set_of_tok ?b k)" unfolding upd by simp
    with U have "foldM ?f [0..<Suc k] (a, {}) = Some (?st (Suc k), U \<union> set_of_tok ?b k)"
      by (simp only: upt_Suc_append foldM_append foldM.simps bind.bind_lunit le0 bind_rzero)
    then show ?case by blast
  qed
  from this [of ?n] obtain U where U: "foldM ?f [0..<?n] (a, {}) = Some (?st ?n, U)" by blast
  have "\<exists>a'. foldM (\<lambda>s a. if s \<in> U then do {
         assert_that (s < length (ba_seq_idx a));
         Some (a\<lparr>ba_seq_idx := (ba_seq_idx a)[s := int (length (ba_seq_id_unq a))], ba_seq_id_unq := ba_seq_id_unq a @ [int s]\<rparr>)
       } else Some a) [0..<m] (?st ?n) = Some a' \<and>
      (\<exists>idx unq. a' = (?st ?n)\<lparr>ba_seq_idx := idx, ba_seq_id_unq := unq\<rparr> \<and> length idx = LLAMA_MAX_SEQ)"
  proof (rule foldM_rule)
    show "\<exists>idx unq. ?st ?n = (?st ?n)\<lparr>ba_seq_idx := idx, ba_seq_id_unq := unq\<rparr> \<and> length idx = LLAMA_MAX_SEQ"
      using idx by (intro exI [of _ "ba_seq_idx a"] exI [of _ "ba_seq_id_unq a"]) (cases a, simp)
    fix "done" s rest a' assume split: "[0..<m] = done @ s # rest"
      and "\<exists>idx unq. a' = (?st ?n)\<lparr>ba_seq_idx := idx, ba_seq_id_unq := unq\<rparr> \<and> length idx = LLAMA_MAX_SEQ"
    then obtain idx unq where a': "a' = (?st ?n)\<lparr>ba_seq_idx := idx, ba_seq_id_unq := unq\<rparr>" "length idx = LLAMA_MAX_SEQ" by blast
    have "s < length idx" using upt_split(2) [OF split] ids(2) a'(2) by simp
    with a' show "\<exists>s'. (if s \<in> U then do {
         assert_that (s < length (ba_seq_idx a'));
         Some (a'\<lparr>ba_seq_idx := (ba_seq_idx a')[s := int (length (ba_seq_id_unq a'))], ba_seq_id_unq := ba_seq_id_unq a' @ [int s]\<rparr>)
       } else Some a') = Some s' \<and> (\<exists>idx unq. s' = (?st ?n)\<lparr>ba_seq_idx := idx, ba_seq_id_unq := unq\<rparr> \<and> length idx = LLAMA_MAX_SEQ)"
      by (cases "s \<in> U")
        (force intro: exI [of _ "idx[s := int (length unq)]"] exI [of _ "unq @ [int s]"], force intro: exI [of _ idx] exI [of _ unq])
  qed
  with U show ?thesis by (auto simp: collect_sets_def toks_with_def [abs_def])
qed

section \<open>Consistency\<close>

definition positions_ok :: "nat \<Rightarrow> memory_i option \<Rightarrow> llama_batch \<Rightarrow> nat \<Rightarrow> bool" where
  \<comment> \<open>one position per token: the positions of the sequence continue the memory and have no gap;
     several: they lie behind those in the memory\<close>
  "positions_ok n_pos mem b s = (let P = positions_in b (b_n_tokens b) s; p0 = mem_last mem s in
     P = {} \<or>
     (if n_pos > 1 then p0 < 0 \<or> (\<forall>p\<in>P. if b_token b \<noteq> None then p0 < p else p0 \<le> p)
      else (0 \<le> p0 \<longrightarrow> p0 + 1 \<in> P \<and> (\<forall>p\<in>P. p0 < p)) \<and> (\<forall>p\<in>P. \<forall>q\<in>P. {p..q} \<subseteq> P)))"

definition coupled_ok :: "nat \<Rightarrow> memory_i option \<Rightarrow> llama_batch \<Rightarrow> bool" where
  "coupled_ok n_seq_max mem b \<longleftrightarrow> (\<forall>m. mem = Some m \<longrightarrow> (\<forall>s0<n_seq_max. \<forall>s1<n_seq_max. coupled_in b (b_n_tokens b) s0 s1 \<longrightarrow>
     mem_pos_min m s0 = mem_pos_min m s1 \<and> mem_pos_max m s0 = mem_pos_max m s1))"

definition order_ok :: "llama_batch \<Rightarrow> bool" where
  \<comment> \<open>positions of a sequence do not decrease, and are at least \<open>-1\<close>\<close>
  "order_ok b \<longleftrightarrow> (\<forall>i<b_n_tokens b. \<forall>s\<in>set_of_tok b i. \<forall>q\<in>insert (-1) (positions_in b i s). q \<le> pos_at b i)"

lemma finite_positions [simp]: "finite (positions_in b k s)"
  by (simp add: positions_in_def)

lemma interval_card:
  fixes P :: "int set"
  assumes "finite P" "P \<noteq> {}"
  shows "int (card P) < Max P - Min P + 1 \<longleftrightarrow> \<not> (\<forall>p\<in>P. \<forall>q\<in>P. {p..q} \<subseteq> P)"
proof
  have sub: "P \<subseteq> {Min P..Max P}" using assms by auto
  have card: "int (card {Min P..Max P}) = Max P - Min P + 1" using assms by simp
  show "\<not> (\<forall>p\<in>P. \<forall>q\<in>P. {p..q} \<subseteq> P)" if "int (card P) < Max P - Min P + 1"
  proof
    assume "\<forall>p\<in>P. \<forall>q\<in>P. {p..q} \<subseteq> P"
    then have "{Min P..Max P} \<subseteq> P" using Min_in [OF assms] Max_in [OF assms] by blast
    with sub have "P = {Min P..Max P}" by blast
    with card that show False by simp
  qed
  show "int (card P) < Max P - Min P + 1" if gap: "\<not> (\<forall>p\<in>P. \<forall>q\<in>P. {p..q} \<subseteq> P)"
  proof -
    from gap obtain p q where "p \<in> P" "q \<in> P" "\<not> {p..q} \<subseteq> P" by blast
    then obtain x where "x \<in> {p..q}" "x \<notin> P" by blast
    with \<open>p \<in> P\<close> \<open>q \<in> P\<close> have x: "p \<in> P" "q \<in> P" "p \<le> x" "x \<le> q" "x \<notin> P" by simp_all
    then have "x \<in> {Min P..Max P}" using Min_le [OF assms(1), of p] Max_ge [OF assms(1), of q] by auto
    with sub x(5) have "P \<subset> {Min P..Max P}" by blast
    from psubset_card_mono [OF _ this] card show ?thesis by simp
  qed
qed

lemma check_pos_seq_run:
  assumes P: "at (ba_seq_pos a) s = Some (positions_in (ba_batch a) (b_n_tokens (ba_batch a)) s)"
    and small: "\<forall>i<b_n_tokens (ba_batch a). \<bar>pos_at (ba_batch a) i\<bar> < 2 ^ 30" and mem: "-1 \<le> mem_last mem s" "mem_last mem s < 2 ^ 29"
  shows "check_pos_seq mem a s = Some (positions_ok (ba_n_pos_per_embd a) mem (ba_batch a) s)"
proof -
  let ?P = "positions_in (ba_batch a) (b_n_tokens (ba_batch a)) s" and ?p0 = "mem_last mem s"
  show ?thesis
  proof (cases "?P = {}")
    case True
    with P show ?thesis by (simp add: check_pos_seq_def positions_ok_def)
  next
    case ne: False
    have reads: "ba_seq_pos_min a s = Some (Min ?P)" "ba_seq_pos_max a s = Some (Max ?P)"
      using P ne by (simp_all add: ba_seq_pos_min_def ba_seq_pos_max_def)
    have "\<bar>p\<bar> < 2 ^ 30" if "p \<in> ?P" for p using small that by (auto simp: positions_in_def)
    then have abs: "\<bar>Min ?P\<bar> < 2 ^ 30" "\<bar>Max ?P\<bar> < 2 ^ 30" using Min_in [OF _ ne] Max_in [OF _ ne] by simp_all
    have bounds: "- (2 ^ 30) < Min ?P" "Max ?P < 2 ^ 30" "Min ?P \<le> Max ?P"
      using abs Min_le [OF _ Max_in [OF _ ne]] by simp_all
    have p0: "i32 (?p0 + 1) = Some (?p0 + 1)" using mem by (simp add: i32_def i32_ok_def)
    have lo: "Min ?P = p \<longleftrightarrow> p \<in> ?P \<and> (\<forall>q\<in>?P. p \<le> q)" for p
      using Min_in [OF _ ne] Min_eqI [of ?P p] by auto
    show ?thesis
    proof (cases "ba_n_pos_per_embd a > 1")
      case True
      have "\<not> (?p0 \<ge> 0 \<and> ?p0 \<ge> Min ?P) \<longleftrightarrow> ?p0 < 0 \<or> (\<forall>p\<in>?P. ?p0 < p)" "\<not> (?p0 \<ge> 0 \<and> ?p0 > Min ?P) \<longleftrightarrow> ?p0 < 0 \<or> (\<forall>p\<in>?P. ?p0 \<le> p)"
        using ne by (auto simp: not_le not_less)
      with True ne P reads show ?thesis by (simp add: check_pos_seq_def positions_ok_def Let_def)
    next
      case False
      have d: "i32 (Max ?P - Min ?P) = Some (Max ?P - Min ?P)" "i32 (Max ?P - Min ?P + 1) = Some (Max ?P - Min ?P + 1)"
        using bounds by (simp_all add: i32_def i32_ok_def)
      have gap: "Max ?P - Min ?P + 1 > int (card ?P) \<longleftrightarrow> \<not> (\<forall>p\<in>?P. \<forall>q\<in>?P. {p..q} \<subseteq> ?P)"
        by (rule interval_card [OF _ ne]) simp
      have join: "Min ?P = ?p0 + 1 \<longleftrightarrow> ?p0 + 1 \<in> ?P \<and> (\<forall>p\<in>?P. ?p0 < p)" unfolding lo by (auto simp: add1_zle_eq)
      show ?thesis
      proof -
        have "check_pos_seq mem a s = Some ((0 \<le> ?p0 \<longrightarrow> Min ?P = ?p0 + 1) \<and> \<not> Max ?P - Min ?P + 1 > int (card ?P))"
          using P ne reads p0 d False by (cases "0 \<le> ?p0"; cases "Min ?P = ?p0 + 1") (simp_all add: check_pos_seq_def Let_def del: One_nat_def)
        also have "\<dots> = Some (positions_ok (ba_n_pos_per_embd a) mem (ba_batch a) s)"
          unfolding join gap using ne False by (simp add: positions_ok_def Let_def del: One_nat_def)
        finally show ?thesis .
      qed
    qed
  qed
qed

text \<open>The loop over the order of the positions.\<close>

definition last_pos :: "llama_batch \<Rightarrow> nat \<Rightarrow> nat \<Rightarrow> llama_pos" where
  "last_pos b k s = Max (insert (-1) (positions_in b k s))"

lemma last_pos_le: "last_pos b k s \<le> p \<longleftrightarrow> (\<forall>q\<in>insert (-1) (positions_in b k s). q \<le> p)"
  by (simp add: last_pos_def)

lemma last_pos_Suc:
  assumes "\<forall>s\<in>set_of_tok b k. last_pos b k s \<le> pos_at b k"
  shows "last_pos b (Suc k) s = (if s \<in> set_of_tok b k then pos_at b k else last_pos b k s)"
proof -
  have "positions_in b (Suc k) s = positions_in b k s \<union> (if s \<in> set_of_tok b k then {pos_at b k} else {})"
    by (auto simp: positions_in_def less_Suc_eq)
  moreover have "Max (insert (-1) (positions_in b k s \<union> {pos_at b k})) = pos_at b k" if "s \<in> set_of_tok b k"
    using assms that by (intro Max_eqI) (auto simp: last_pos_le)
  ultimately show ?thesis by (auto simp: last_pos_def)
qed

lemma check_order_token:
  assumes ids: "batch_ids m (ba_batch a)" "m \<le> LLAMA_MAX_SEQ" "i < b_n_tokens (ba_batch a)"
    and sets: "at (ba_seq_set a) i = Some (set_of_tok (ba_batch a) i)" and p: "at_ptr (b_pos (ba_batch a)) i = Some (pos_at (ba_batch a) i)"
    and len: "length S = m" "length q = m" and S: "\<forall>s<m. s \<in> S ! s" and q: "\<forall>s<m. q ! s = last_pos (ba_batch a) i s"
  shows "\<exists>r. loopM (check_order_seq a i) (ids_of (ba_batch a) i) (S, q) = Some r \<and> (case r of
    None \<Rightarrow> \<exists>s\<in>set_of_tok (ba_batch a) i. pos_at (ba_batch a) i < last_pos (ba_batch a) i s
  | Some (S', q') \<Rightarrow> (\<forall>s\<in>set_of_tok (ba_batch a) i. last_pos (ba_batch a) i s \<le> pos_at (ba_batch a) i) \<and> length S' = m \<and> length q' = m \<and>
      (\<forall>s<m. s \<in> S' ! s) \<and> (\<forall>s<m. q' ! s = (if s \<in> set_of_tok (ba_batch a) i then pos_at (ba_batch a) i else last_pos (ba_batch a) i s)))"
proof -
  let ?b = "ba_batch a" let ?ids = "ids_of ?b i" let ?p = "pos_at ?b i"
  let ?P = "\<lambda>done (S, q). length S = m \<and> length q = m \<and> (\<forall>s<m. s \<in> S ! s) \<and> (\<forall>y\<in>set done. last_pos ?b i (nat y) \<le> ?p) \<and>
    (\<forall>s<m. q ! s = (if s \<in> nat ` set done then ?p else last_pos ?b i s))"
  note i = seq_ids_of [OF ids(1,3)]
  have "\<exists>r. loopM (check_order_seq a i) ?ids (S, q) = Some r \<and> (case r of
      None \<Rightarrow> \<exists>x\<in>set ?ids. \<not> last_pos ?b i (nat x) \<le> ?p
    | Some st \<Rightarrow> (\<forall>x\<in>set ?ids. last_pos ?b i (nat x) \<le> ?p) \<and> ?P ?ids st)"
  proof (rule loopM_decide)
    show "?P [] (S, q)" using len S q by simp
    fix "done" x rest st assume x: "?ids = done @ x # rest" and P: "?P done st"
    obtain S' q' where st: "st = (S', q')" by (cases st)
    have mem: "x \<in> set ?ids" by (simp add: x)
    let ?s = "nat x"
    have s: "seq_bit x = Some ?s" "?s < m" "?s \<in> set_of_tok ?b i"
      using i(4) ids(2) mem by (force simp: seq_bit_def, force simp: nat_less_iff, simp add: set_of_tok_def)
    have reads: "at S' ?s = Some (S' ! ?s)" "at q' ?s = Some (q' ! ?s)" and in_both: "?s \<in> S' ! ?s \<inter> set_of_tok ?b i"
      and q': "q' ! ?s = (if ?s \<in> nat ` set done then ?p else last_pos ?b i ?s)"
      using P s by (auto simp: st)
    have run: "check_order_seq a i x st =
        Some (if ?p < q' ! ?s then None else Some (S'[?s := S' ! ?s \<inter> set_of_tok ?b i], q'[?s := ?p]))"
      using p s(1) sets reads in_both by (auto simp: st check_order_seq_def)
    have cmp: "?p < q' ! ?s \<longleftrightarrow> \<not> last_pos ?b i ?s \<le> ?p" using q' P by (auto simp: st)
    show "\<exists>r. check_order_seq a i x st = Some r \<and>
        (case r of None \<Rightarrow> \<not> last_pos ?b i (nat x) \<le> ?p | Some st' \<Rightarrow> last_pos ?b i (nat x) \<le> ?p \<and> ?P (done @ [x]) st')"
    proof (cases "last_pos ?b i ?s \<le> ?p")
      case False
      with run cmp show ?thesis by simp
    next
      case True
      have "?P (done @ [x]) (S'[?s := S' ! ?s \<inter> set_of_tok ?b i], q'[?s := ?p])"
        using P True in_both s(2) by (auto simp: st nth_list_update)
      with True run cmp show ?thesis by simp
    qed
  qed
  then obtain r where "loopM (check_order_seq a i) ?ids (S, q) = Some r" and
    r: "case r of None \<Rightarrow> \<exists>x\<in>set ?ids. \<not> last_pos ?b i (nat x) \<le> ?p
      | Some st \<Rightarrow> (\<forall>x\<in>set ?ids. last_pos ?b i (nat x) \<le> ?p) \<and> ?P ?ids st" by blast
  then show ?thesis
    by (intro exI [of _ r]) (cases r, auto simp: set_of_tok_def not_le not_less)
qed

lemma check_order_run:
  assumes b: "batch_ready n_pos n_embd m (ba_batch a)" and m: "m \<le> LLAMA_MAX_SEQ"
    and sets: "ba_seq_set a = map (set_of_tok (ba_batch a)) [0..<b_n_tokens (ba_batch a)]"
  shows "check_order m a = Some (order_ok (ba_batch a))"
proof -
  let ?b = "ba_batch a"
  have ids: "batch_ids m ?b" and arr: "batch_arrays n_pos n_embd ?b" using b by (simp_all add: batch_ready_def)
  let ?Q = "\<lambda>i. \<forall>s\<in>set_of_tok ?b i. last_pos ?b i s \<le> pos_at ?b i"
  let ?P = "\<lambda>done (S, q). length S = m \<and> length q = m \<and> (\<forall>s<m. s \<in> S ! s) \<and> (\<forall>s<m. q ! s = last_pos ?b (length done) s)"
  let ?f = "\<lambda>i st. do { ids \<leftarrow> seq_ids ?b i; loopM (check_order_seq a i) ids st }"
  let ?st = "(replicate m {0..<LLAMA_MAX_SEQ}, replicate m (-1))"
  have "\<exists>r. loopM ?f [0..<b_n_tokens ?b] ?st = Some r \<and> (case r of
      None \<Rightarrow> \<exists>i\<in>set [0..<b_n_tokens ?b]. \<not> ?Q i | Some st \<Rightarrow> (\<forall>i\<in>set [0..<b_n_tokens ?b]. ?Q i) \<and> ?P [0..<b_n_tokens ?b] st)"
  proof (rule loopM_decide)
    show "?P [] ?st" using m by (simp add: last_pos_def positions_in_def)
    fix "done" i rest st assume split: "[0..<b_n_tokens ?b] = done @ i # rest" and P: "?P done st"
    obtain S q where st: "st = (S, q)" by (cases st)
    have i: "i = length done" "i < b_n_tokens ?b" by (rule upt_split [OF split])+
    have set: "at (ba_seq_set a) i = Some (set_of_tok ?b i)" using i(2) by (simp add: sets)
    have P': "length S = m" "length q = m" "\<forall>s<m. s \<in> S ! s" "\<forall>s<m. q ! s = last_pos ?b i s" using P by (simp_all add: st i(1))
    from check_order_token [OF ids m i(2) set at_ptr_pos [OF arr i(2)] P'] obtain r where
      r: "loopM (check_order_seq a i) (ids_of ?b i) (S, q) = Some r" "case r of
          None \<Rightarrow> \<exists>s\<in>set_of_tok ?b i. pos_at ?b i < last_pos ?b i s
        | Some (S', q') \<Rightarrow> ?Q i \<and> length S' = m \<and> length q' = m \<and> (\<forall>s<m. s \<in> S' ! s) \<and>
            (\<forall>s<m. q' ! s = (if s \<in> set_of_tok ?b i then pos_at ?b i else last_pos ?b i s))" by blast
    have "?f i st = Some r" using seq_ids_of(1) [OF ids i(2)] r(1) by (simp add: st)
    moreover have "case r of None \<Rightarrow> \<not> ?Q i | Some st' \<Rightarrow> ?Q i \<and> ?P (done @ [i]) st'"
    proof (cases r)
      case None
      with r(2) show ?thesis by (auto simp: not_le)
    next
      case (Some st')
      obtain S' q' where st': "st' = (S', q')" by (cases st')
      have *: "?Q i" "length S' = m" "length q' = m" "\<forall>s<m. s \<in> S' ! s"
        "\<forall>s<m. q' ! s = (if s \<in> set_of_tok ?b i then pos_at ?b i else last_pos ?b i s)" using r(2) by (simp_all add: Some st')
      have "\<forall>s<m. q' ! s = last_pos ?b (Suc i) s" using *(5) last_pos_Suc [OF *(1)] by simp
      with * show ?thesis by (simp add: Some st' i(1))
    qed
    ultimately show "\<exists>r. ?f i st = Some r \<and> (case r of None \<Rightarrow> \<not> ?Q i | Some st' \<Rightarrow> ?Q i \<and> ?P (done @ [i]) st')" by blast
  qed
  then obtain r where r: "loopM ?f [0..<b_n_tokens ?b] ?st = Some r" "case r of
      None \<Rightarrow> \<exists>i\<in>set [0..<b_n_tokens ?b]. \<not> ?Q i | Some st \<Rightarrow> (\<forall>i\<in>set [0..<b_n_tokens ?b]. ?Q i) \<and> ?P [0..<b_n_tokens ?b] st"
    by blast
  have ok: "order_ok ?b \<longleftrightarrow> (\<forall>i<b_n_tokens ?b. ?Q i)" by (simp add: order_ok_def last_pos_le)
  have "(r \<noteq> None) = order_ok ?b" using r(2) unfolding ok by (cases r) auto
  with r(1) show ?thesis unfolding check_order_def by simp
qed

end
