(* ===== verification/BatchProps.thy ===== *)
theory BatchProps
  imports BatchChecks
begin

text \<open>
  The properties of the batch allocator: what \<open>init\<close> accepts and leaves, how the splits cut the batch, the
  size of the micro-batches, and the run of \<open>init_batch\<close> of the cache on an accepted batch.
\<close>

section \<open>Accepted batches\<close>

definition consistent :: "nat \<Rightarrow> nat \<Rightarrow> memory_i option \<Rightarrow> llama_batch \<Rightarrow> bool" where
  "consistent n_pos n_seq_max mem b \<longleftrightarrow> (\<forall>s<n_seq_max. positions_ok n_pos mem b s) \<and> coupled_ok n_seq_max mem b \<and> order_ok b"

definition multi_seq :: "llama_batch \<Rightarrow> bool" where
  "multi_seq b \<longleftrightarrow> (\<exists>i<b_n_tokens b. length (ids_of b i) > 1)"

definition batch_accepted :: "llama_batch \<Rightarrow> batch_allocr \<Rightarrow> bool" where
  \<comment> \<open>the allocator holds the completed batch, no token of it used\<close>
  "batch_accepted c a \<longleftrightarrow> ba_batch a = c \<and> ba_ok a \<and> unused a = {..<b_n_tokens c} \<and>
     (ba_has_cpl a \<longleftrightarrow> multi_seq c) \<and> ba_n_outputs a = card {i. i < b_n_tokens c \<and> the (b_logits c) ! i}"

lemma stats_run:
  assumes b: "batch_ready n_pos n_embd m (ba_batch a)" and m: "m \<le> LLAMA_MAX_SEQ" and shape: "ba_shape a"
    and empty: "\<forall>P\<in>set (ba_seq_pos a). P = {}" "\<forall>row\<in>set (ba_seq_cpl a). \<forall>c\<in>set row. \<not> c"
      "ba_seq_set a = []" "ba_seq_set_map a = (\<lambda>_. [])" "ba_n_outputs a = 0" and pe: "n_pos = ba_n_pos_per_embd a"
  shows "\<exists>a'. ba_stats n_embd m a = Some a' \<and> ba_shape a' \<and> ba_batch a' = ba_batch a \<and> ba_n_pos_per_embd a' = n_pos \<and>
    ba_n_embd a' = n_embd \<and> ba_n_seq_max a' = m \<and>
    ba_seq_set a' = map (set_of_tok (ba_batch a)) [0..<b_n_tokens (ba_batch a)] \<and> ba_seq_set_map a' = toks_with (ba_batch a) \<and>
    ba_n_outputs a' = card {i. i < b_n_tokens (ba_batch a) \<and> the (b_logits (ba_batch a)) ! i} \<and>
    stats_as a' (positions_in (ba_batch a) (b_n_tokens (ba_batch a))) (coupled_in (ba_batch a) (b_n_tokens (ba_batch a))) (multi_seq (ba_batch a))"
proof -
  let ?b = "ba_batch a"
  have ids: "batch_ids m ?b" and arr: "batch_arrays n_pos n_embd ?b" using b by (simp_all add: batch_ready_def)
  define a0 where "a0 = a\<lparr>ba_n_embd := n_embd, ba_n_seq_max := m\<rparr>"
  define a1 where "a1 = a0\<lparr>ba_n_outputs := card {i. i < b_n_tokens ?b \<and> the (b_logits ?b) ! i}, ba_has_cpl := False\<rparr>"
  have a1: "ba_batch a1 = ?b" "ba_n_pos_per_embd a1 = n_pos" "ba_n_embd a1 = n_embd" "ba_n_seq_max a1 = m"
    "ba_seq_set a1 = []" "ba_seq_set_map a1 = (\<lambda>_. [])" "ba_seq_idx a1 = ba_seq_idx a"
    "ba_n_outputs a1 = card {i. i < b_n_tokens ?b \<and> the (b_logits ?b) ! i}"
    using empty pe by (simp_all add: a1_def a0_def)
  have "ba_batch a0 = ?b" "ba_n_outputs a0 = 0" using empty(5) by (simp_all add: a0_def)
  with count_outputs_run [of n_pos n_embd a0] arr
  have c: "count_outputs a0 = Some (a0\<lparr>ba_n_outputs := card {i. i < b_n_tokens ?b \<and> the (b_logits ?b) ! i}\<rparr>)" by simp
  have nc: "\<not> ba_seq_cpl a ! s1 ! s0" if "s1 < LLAMA_MAX_SEQ" "s0 < LLAMA_MAX_SEQ" for s1 s0
  proof -
    have "ba_seq_cpl a ! s1 \<in> set (ba_seq_cpl a)" using shape that(1) by (simp add: ba_shape_def)
    then have "length (ba_seq_cpl a ! s1) = LLAMA_MAX_SEQ" "\<forall>c\<in>set (ba_seq_cpl a ! s1). \<not> c"
      using shape empty(2) unfolding ba_shape_def by blast+
    then show ?thesis using that(2) nth_mem by metis
  qed
  have "\<forall>s<LLAMA_MAX_SEQ. ba_seq_pos a ! s = {}" using empty(1) shape nth_mem unfolding ba_shape_def by metis
  moreover have "\<forall>s<LLAMA_MAX_SEQ. length (ba_seq_cpl a ! s) = LLAMA_MAX_SEQ" using shape nth_mem unfolding ba_shape_def by metis
  ultimately have st: "stats_as a1 (\<lambda>_. {}) (\<lambda>_ _. False) False"
    using nc shape by (simp add: stats_as_def a1_def a0_def ba_shape_def)
  from couple_tokens_run [of n_pos n_embd m a1, unfolded a1(1), OF b m st] obtain a2 where
    a2: "foldM couple_token [0..<b_n_tokens ?b] a1 = Some a2" "only_stats a1 a2"
      "stats_as a2 (positions_in ?b (b_n_tokens ?b)) (coupled_in ?b (b_n_tokens ?b)) (multi_seq ?b)"
    unfolding multi_seq_def by blast
  note o = only_stats_simps [OF a2(2), unfolded a1]
  have "length (ba_seq_idx a2) = LLAMA_MAX_SEQ" using o(7) shape by (simp add: ba_shape_def)
  from collect_sets_run [of m a2, unfolded o(1), OF ids m this o(5,6)] obtain idx unq where
    col: "collect_sets m a2 = Some (a2\<lparr>ba_seq_set := map (set_of_tok ?b) [0..<b_n_tokens ?b],
      ba_seq_set_map := toks_with ?b, ba_seq_idx := idx, ba_seq_id_unq := unq\<rparr>)" "length idx = LLAMA_MAX_SEQ" by blast
  have run: "ba_stats n_embd m a = Some (a2\<lparr>ba_seq_set := map (set_of_tok ?b) [0..<b_n_tokens ?b],
      ba_seq_set_map := toks_with ?b, ba_seq_idx := idx, ba_seq_id_unq := unq\<rparr>)"
    using c a2(1) col(1) unfolding ba_stats_def a0_def [symmetric] by (simp add: a1_def) (simp add: a0_def)
  have "ba_shape (a2\<lparr>ba_seq_set := map (set_of_tok ?b) [0..<b_n_tokens ?b],
      ba_seq_set_map := toks_with ?b, ba_seq_idx := idx, ba_seq_id_unq := unq\<rparr>)"
    using a2(3) col(2) by (auto simp: stats_as_def ba_shape_def in_set_conv_nth)
  moreover have "stats_as (a2\<lparr>ba_seq_set := map (set_of_tok ?b) [0..<b_n_tokens ?b],
      ba_seq_set_map := toks_with ?b, ba_seq_idx := idx, ba_seq_id_unq := unq\<rparr>)
      (positions_in ?b (b_n_tokens ?b)) (coupled_in ?b (b_n_tokens ?b)) (multi_seq ?b)"
    using a2(3) by (simp add: stats_as_def)
  ultimately show ?thesis using run o by simp
qed

lemma consistent_run:
  assumes b: "batch_ready (ba_n_pos_per_embd a) n_embd m (ba_batch a)" and m: "m \<le> LLAMA_MAX_SEQ" and mem: "mem_ok m mem"
    and sets: "ba_seq_set a = map (set_of_tok (ba_batch a)) [0..<b_n_tokens (ba_batch a)]"
    and st: "stats_as a (positions_in (ba_batch a) (b_n_tokens (ba_batch a))) (coupled_in (ba_batch a) (b_n_tokens (ba_batch a))) h"
  shows "ba_consistent m mem a = Some (consistent (ba_n_pos_per_embd a) m mem (ba_batch a))"
proof -
  let ?b = "ba_batch a"
  have small: "\<forall>i<b_n_tokens ?b. \<bar>pos_at ?b i\<bar> < 2 ^ 30" using b by (simp add: batch_ready_def pos_at_def)
  have each: "check_pos_seq mem a s = Some (positions_ok (ba_n_pos_per_embd a) mem ?b s)" if s: "s \<in> set [0..<m]" for s
  proof (rule check_pos_seq_run [OF _ small])
    show "at (ba_seq_pos a) s = Some (positions_in ?b (b_n_tokens ?b) s)" using st s m by (simp add: stats_as_def)
    show "-1 \<le> mem_last mem s" "mem_last mem s < 2 ^ 29" using mem s by (auto simp: mem_ok_def mem_last_def split: option.split)
  qed
  have "checkM (check_pos_seq mem a) [0..<m] = Some (\<forall>s\<in>set [0..<m]. positions_ok (ba_n_pos_per_embd a) mem ?b s)"
    by (rule checkM_eq) (rule each)
  then have pos: "checkM (check_pos_seq mem a) [0..<m] = Some (\<forall>s<m. positions_ok (ba_n_pos_per_embd a) mem ?b s)"
    by (simp add: atLeast0LessThan lessThan_def)
  have cpl: "check_coupled m mem a = Some (coupled_ok m mem ?b)"
  proof (cases mem)
    case (Some mm)
    let ?q = "\<lambda>s0 s1. coupled_in ?b (b_n_tokens ?b) s0 s1 \<longrightarrow> mem_pos_min mm s0 = mem_pos_min mm s1 \<and> mem_pos_max mm s0 = mem_pos_max mm s1"
    have "checkM (\<lambda>s0. checkM (\<lambda>s1. do { row \<leftarrow> at (ba_seq_cpl a) s0; c \<leftarrow> at row s1;
        Some (\<not> c \<or> mem_pos_min mm s0 = mem_pos_min mm s1 \<and> mem_pos_max mm s0 = mem_pos_max mm s1) }) [0..<m]) [0..<m] =
        Some (\<forall>s0\<in>set [0..<m]. \<forall>s1\<in>set [0..<m]. ?q s0 s1)"
      using st m by (intro checkM_eq) (auto simp: stats_as_def)
    then show ?thesis by (auto simp: check_coupled_def coupled_ok_def Some atLeast0LessThan)
  qed (simp add: check_coupled_def coupled_ok_def)
  show ?thesis
    using pos cpl check_order_run [OF b m sets] by (simp add: ba_consistent_def consistent_def)
qed

lemma split_reset_accepted:
  assumes b: "batch_ready (ba_n_pos_per_embd a) (ba_n_embd a) (ba_n_seq_max a) (ba_batch a)" and m: "ba_n_seq_max a \<le> LLAMA_MAX_SEQ"
    and sets: "ba_seq_set a = map (set_of_tok (ba_batch a)) [0..<b_n_tokens (ba_batch a)]" "ba_seq_set_map a = toks_with (ba_batch a)"
  shows "ba_ok (ba_split_reset a)" "unused (ba_split_reset a) = {..<b_n_tokens (ba_batch a)}"
  using assms by (auto simp: ba_ok_def ba_split_reset_def batch_ready_def unused_def)

lemma ready_all_unused:
  assumes "ba_ok a" "unused a = {..<b_n_tokens (ba_batch a)}"
  shows "prefix_split a 0" "eq_ready a"
proof -
  have un: "\<not> ba_used a ! i" if "i < b_n_tokens (ba_batch a)" for i using assms(2) that by (auto simp: unused_def)
  have len: "length (ba_used a) = b_n_tokens (ba_batch a)" using assms(1) by (simp add: ba_ok_def)
  have "ba_used a = prefix_used (b_n_tokens (ba_batch a)) 0"
    using un len by (intro nth_equalityI) (simp_all add: prefix_used_def)
  with assms(1) show "prefix_split a 0" by (simp add: prefix_split_def)
  show "eq_ready a"
  proof (rule eq_readyI(1) [OF assms(1), of "\<lambda>_. 0"])
    fix S j assume "j < length (toks_with (ba_batch a) S)"
    then have "toks_with (ba_batch a) S ! j < b_n_tokens (ba_batch a)" using nth_mem toks_with_mem by blast
    with un show "ba_used a ! (toks_with (ba_batch a) S ! j) \<longleftrightarrow> j < 0" by simp
  qed simp
qed

lemma init_run:
  assumes b: "input_ok (ba_n_pos_per_embd a) n_embd b" and mem: "mem_ok n_seq_max mem" and "0 < n_seq_max" and shape: "ba_shape a"
  shows "\<exists>a'. ba_init b n_vocab mem n_embd n_seq_max output_all a =
      Some (inputs_valid n_vocab n_seq_max b \<and> consistent (ba_n_pos_per_embd a) n_seq_max mem (completed n_seq_max mem output_all b), a') \<and>
    ba_shape a' \<and> (inputs_valid n_vocab n_seq_max b \<and> consistent (ba_n_pos_per_embd a) n_seq_max mem (completed n_seq_max mem output_all b) \<longrightarrow>
      batch_accepted (completed n_seq_max mem output_all b) a')"
proof -
  let ?a = "(ba_clear a)\<lparr>ba_batch := b\<rparr>" let ?c = "completed n_seq_max mem output_all b"
  have shape': "ba_shape ?a" using ba_shape_clear [OF shape] by (simp add: ba_shape_def)
  have n: "0 < b_n_tokens b" using b by (simp add: input_ok_def)
  note valid = check_input_eq [OF b assms(3), of n_vocab]
  show ?thesis
  proof (cases "inputs_valid n_vocab n_seq_max b")
    case False
    with valid n have "ba_init b n_vocab mem n_embd n_seq_max output_all a = Some (False, ?a)" by (simp add: ba_init_def Let_def)
    with False shape' show ?thesis by auto
  next
    case True
    note c = completed_run [OF b True mem, of output_all]
    have m: "n_seq_max \<le> LLAMA_MAX_SEQ" using True by (simp add: inputs_valid_def)
    let ?a1 = "?a\<lparr>ba_batch := ?c\<rparr>"
    have a1: "ba_batch ?a1 = ?c" "ba_n_pos_per_embd ?a1 = ba_n_pos_per_embd a" by (simp_all add: ba_clear_def)
    have sh1: "ba_shape ?a1" using shape' by (simp add: ba_shape_def)
    have e: "\<forall>P\<in>set (ba_seq_pos ?a1). P = {}" "\<forall>row\<in>set (ba_seq_cpl ?a1). \<forall>c\<in>set row. \<not> c"
      "ba_seq_set ?a1 = []" "ba_seq_set_map ?a1 = (\<lambda>_. [])" "ba_n_outputs ?a1 = 0" by (auto simp: ba_clear_def)
    have rd: "batch_ready (ba_n_pos_per_embd a) n_embd n_seq_max (ba_batch ?a1)" using c(2) by simp
    from stats_run [OF rd m sh1 e a1(2) [symmetric], unfolded a1(1)] obtain a2 where a2: "ba_stats n_embd n_seq_max ?a1 = Some a2" "ba_shape a2" "ba_batch a2 = ?c"
      "ba_n_pos_per_embd a2 = ba_n_pos_per_embd a" "ba_n_embd a2 = n_embd" "ba_n_seq_max a2 = n_seq_max"
      "ba_seq_set a2 = map (set_of_tok ?c) [0..<b_n_tokens ?c]" "ba_seq_set_map a2 = toks_with ?c"
      "ba_n_outputs a2 = card {i. i < b_n_tokens ?c \<and> the (b_logits ?c) ! i}"
      "stats_as a2 (positions_in ?c (b_n_tokens ?c)) (coupled_in ?c (b_n_tokens ?c)) (multi_seq ?c)"
      by blast
    have cons: "ba_consistent n_seq_max mem a2 = Some (consistent (ba_n_pos_per_embd a) n_seq_max mem ?c)"
      using consistent_run [of a2 n_embd n_seq_max mem "multi_seq ?c"] c(2) m mem a2(3,4,7,10) by simp
    let ?r = "if consistent (ba_n_pos_per_embd a) n_seq_max mem ?c then ba_split_reset a2 else a2"
    have run: "ba_init b n_vocab mem n_embd n_seq_max output_all a = Some (consistent (ba_n_pos_per_embd a) n_seq_max mem ?c, ?r)"
    proof -
      from c(1) obtain b1 where b1: "gen_pos n_seq_max mem (gen_seq b) = Some b1" "gen_logits output_all b1 = Some ?c"
        by (auto simp: Option.bind_eq_Some_conv)
      have a2': "ba_stats n_embd n_seq_max ((ba_clear a)\<lparr>ba_batch := ?c\<rparr>) = Some a2" using a2(1) by simp
      show ?thesis unfolding ba_init_def Let_def using n by (simp add: valid True b1 a2' cons)
    qed
    have "batch_accepted ?c (ba_split_reset a2)"
      using split_reset_accepted [of a2] c(2) m a2 by (simp add: batch_accepted_def ba_split_reset_def stats_as_def)
    moreover have "ba_shape ?r" using a2(2) by (simp add: ba_shape_def ba_split_reset_def)
    ultimately show ?thesis using run True by simp
  qed
qed

text \<open>C8. \<open>init\<close> returns for every batch whose arrays cover its tokens. It accepts exactly the batches with
  valid tokens and sequence ids whose completed positions continue the memory without gap or decrease and
  whose shared tokens join sequences with equal ranges; then no token is used and all tables of the
  allocator describe the completed batch.\<close>

theorem init_decides:
  assumes "input_ok (ba_n_pos_per_embd a) n_embd b" "mem_ok n_seq_max mem" "0 < n_seq_max" "ba_shape a"
  shows "\<exists>a'. ba_init b n_vocab mem n_embd n_seq_max output_all a =
      Some (inputs_valid n_vocab n_seq_max b \<and> consistent (ba_n_pos_per_embd a) n_seq_max mem (completed n_seq_max mem output_all b), a') \<and>
    ba_shape a' \<and> (inputs_valid n_vocab n_seq_max b \<and> consistent (ba_n_pos_per_embd a) n_seq_max mem (completed n_seq_max mem output_all b) \<longrightarrow>
      batch_accepted (completed n_seq_max mem output_all b) a')"
  using assms by (rule init_run)

definition demo_input :: llama_batch where
  \<comment> \<open>three tokens of the sequences 0, 1 and 2\<close>
  "demo_input = \<lparr>b_n_tokens = 3, b_token = Some [5, 6, 7], b_embd = None, b_pos = None, b_n_seq_id = Some [1, 1, 1],
     b_seq_id = Some [[0], [1], [2]], b_logits = None\<rparr>"

definition demo_done :: llama_batch where
  "demo_done = demo_input\<lparr>b_pos := Some [0, 0, 0], b_logits := Some [False, False, True]\<rparr>"

lemma less_3: "(i::nat) < 3 \<longleftrightarrow> i = 0 \<or> i = 1 \<or> i = 2"
  by auto

lemma demo_completed: "completed 4 None False demo_input = demo_done"
  by code_simp

lemma demo_ids: "ids_of demo_done 0 = [0]" "ids_of demo_done 1 = [1]" "ids_of demo_done 2 = [2]"
  by code_simp+

lemma demo_n [simp]: "b_n_tokens demo_done = 3" "b_n_tokens demo_input = 3"
  by (simp_all add: demo_done_def demo_input_def)

lemma demo_single [simp]: "\<not> multi_seq demo_done"
proof -
  have "\<forall>i<3. length (ids_of demo_done i) = 1" unfolding less_3 using demo_ids by (intro allI impI) (elim disjE; simp)
  then show ?thesis by (auto simp: multi_seq_def)
qed

lemma demo_input_ok: "input_ok 1 n_embd demo_input" "inputs_valid 10 4 demo_input"
proof -
  have g: "gen_seq demo_input = demo_input" by (rule gen_seq_same) (simp_all add: demo_input_def)
  have ids: "\<forall>i<3. \<exists>s. seq_ids demo_input i = Some [s] \<and> 0 \<le> s \<and> s < 4"
    unfolding less_3 by (auto simp: demo_input_def seq_ids_def at_ptr_def)
  have "ids_given demo_input"
    unfolding ids_given_def
  proof (intro allI impI)
    fix i assume "i < b_n_tokens demo_input"
    then have "i < 3" by (simp add: demo_input_def)
    with ids obtain s where "seq_ids demo_input i = Some [s]" by blast
    then show "\<exists>ids. seq_ids demo_input i = Some ids \<and> ids \<noteq> []" by simp
  qed
  then show "input_ok 1 n_embd demo_input" unfolding input_ok_def g by (simp add: demo_input_def)
  show "inputs_valid 10 4 demo_input"
    unfolding inputs_valid_def g
  proof (intro conjI allI impI ballI)
    fix ts i assume "b_token demo_input = Some ts" "i < b_n_tokens demo_input"
    then show "0 \<le> ts ! i" "nat (ts ! i) < 10" by (auto simp: demo_input_def less_3)
  next
    fix i s assume "i < b_n_tokens demo_input" and s: "s \<in> set (ids_of demo_input i)"
    then have "i < 3" by (simp add: demo_input_def)
    with ids obtain t where "seq_ids demo_input i = Some [t]" "0 \<le> t" "t < 4" by blast
    then show "0 \<le> s" "s < int 4" using s by (simp_all add: ids_of_def)
  qed (simp add: LLAMA_MAX_SEQ_def)
qed

theorem init_decides_witness:
  "\<exists>a'. ba_init demo_input 10 None 8 4 False (ba_new 1) = Some (consistent 1 4 None demo_done, a')"
proof -
  have "mem_ok 4 None" "(0::nat) < 4" by (simp_all add: mem_ok_def)
  moreover have "ba_n_pos_per_embd (ba_new 1) = 1" by (simp add: ba_new_def)
  ultimately show ?thesis
    using init_decides [of "ba_new 1" 8 demo_input 4 None 10 False] demo_input_ok ba_shape_new demo_completed by auto
qed

section \<open>Splitting an accepted batch\<close>

definition demo_alloc :: batch_allocr where
  \<comment> \<open>the allocator after \<open>init\<close> of \<open>demo_input\<close>, without the tables of the sequences\<close>
  "demo_alloc = (ba_new 1)\<lparr>ba_batch := demo_done, ba_n_embd := 8, ba_n_seq_max := 4, ba_n_outputs := 1,
     ba_seq_set := [{0}, {1}, {2}], ba_seq_set_map := toks_with demo_done, ba_used := [False, False, False]\<rparr>"

lemma demo_accepted: "batch_accepted demo_done demo_alloc"
proof -
  have ids: "\<forall>i<3. \<exists>s. seq_ids demo_done i = Some [s] \<and> seq_id0 demo_done i = Some s \<and> 0 \<le> s \<and> s < 4"
    unfolding less_3 by (auto simp: demo_done_def demo_input_def seq_ids_def seq_id0_def at_ptr_def)
  have "batch_ids 4 demo_done"
    unfolding batch_ids_def
  proof (intro allI impI)
    fix i assume "i < b_n_tokens demo_done"
    then have "i < 3" by (simp add: demo_done_def demo_input_def)
    with ids obtain s where "seq_ids demo_done i = Some [s]" "seq_id0 demo_done i = Some s" "0 \<le> s" "s < 4" by blast
    then show "\<exists>ids. seq_ids demo_done i = Some ids \<and> ids \<noteq> [] \<and> seq_id0 demo_done i = Some (hd ids) \<and> (\<forall>s\<in>set ids. 0 \<le> s \<and> s < int 4)"
      by simp
  qed
  moreover have "map (set_of_tok demo_done) [0..<3] = [{0}, {1}, {2}]"
    using demo_ids by (simp add: upt_rec set_of_tok_def numeral_2_eq_2 [symmetric])
  moreover have "\<forall>i<3. \<not> [False, False, False] ! i" by (simp add: less_3)
  then have "{i. i < 3 \<and> [False, False, False] ! i} = {}" "{i. i < 3 \<and> \<not> [False, False, False] ! i} = {..<3}"
    by auto
  moreover have "\<forall>i<3. [False, False, True] ! i \<longleftrightarrow> i = 2" by (simp add: less_3)
  then have "{i. i < 3 \<and> [False, False, True] ! i} = {2}" by auto
  ultimately show ?thesis
    by (simp add: batch_accepted_def demo_alloc_def ba_ok_def ba_new_def unused_def LLAMA_MAX_SEQ_def batch_arrays_def)
      (simp add: demo_done_def demo_input_def)
qed

text \<open>C20. On an accepted batch the callers' loop with \<open>split_simple\<close> ends, and the micro-batches are the consecutive
  pieces of the batch: all but the last hold \<open>max 1 n_ubatch\<close> tokens, and every token is in one of them.\<close>

theorem simple_pieces:
  assumes "batch_accepted c a"
  shows "\<exists>ps a'. split_all (split_simple n_ubatch) a [] = Some (map (\<lambda>p. ub_of a p (length p) False) ps, a') \<and>
    pieces (max 1 n_ubatch) 0 (b_n_tokens c) ps \<and> ba_n_used a' = b_n_tokens c"
proof -
  have a: "ba_batch a = c" "prefix_split a 0"
    using assms ready_all_unused(1) [of a] by (simp_all add: batch_accepted_def)
  from split_all_simple [OF a(2), of n_ubatch "[]"] obtain ps a' where
    s: "split_all (split_simple n_ubatch) a [] = Some (map (\<lambda>p. ub_of a p (length p) False) ps, a')"
      "pieces (max 1 n_ubatch) 0 (b_n_tokens c) ps" "prefix_split a' (b_n_tokens c)" by (auto simp: a(1))
  with prefix_split_n_used [OF s(3)] show ?thesis by blast
qed

theorem simple_pieces_witness:
  "\<exists>ps a'. split_all (split_simple 2) demo_alloc [] = Some (map (\<lambda>p. ub_of demo_alloc p (length p) False) ps, a') \<and>
    pieces 2 0 3 ps \<and> ba_n_used a' = 3"
proof -
  have "max 1 (2::nat) = 2" by simp
  then show ?thesis using simple_pieces [OF demo_accepted, of 2] unfolding demo_n by metis
qed

text \<open>C9. On an accepted batch the callers' loop with \<open>split_equal\<close> ends with every token in exactly one micro-batch,
  each made of equally long blocks of consecutive tokens of disjoint sequence sets, of which either nothing
  or at least \<open>n_keep_tail\<close> tokens remain. (Sequential splits need a batch without shared tokens.)\<close>

theorem equal_partitions:
  assumes "batch_accepted c a" "\<not> (sequential \<and> multi_seq c)" "n_keep_tail = 0 \<or> n_keep_tail < n_ubatch"
  shows "\<exists>us idxss a'. split_all (split_equal n_ubatch sequential n_keep_tail) a [] = Some (us, a') \<and> unused a' = {} \<and>
    distinct (concat idxss) \<and> set (concat idxss) = {..<b_n_tokens c} \<and> list_all2 (equal_good n_ubatch n_keep_tail a) idxss us"
proof -
  have a: "eq_ready a \<and> \<not> (sequential \<and> ba_has_cpl a) \<and> (n_keep_tail = 0 \<or> n_keep_tail < n_ubatch)" "unused a = {..<b_n_tokens c}"
    using assms ready_all_unused(2) [of a] by (auto simp: batch_accepted_def)
  from equal.all_split [OF a(1), of "[]"] a(2) show ?thesis by auto
qed

theorem equal_partitions_witness:
  "\<exists>us idxss a'. split_all (split_equal 2 True 0) demo_alloc [] = Some (us, a') \<and> unused a' = {} \<and>
    distinct (concat idxss) \<and> set (concat idxss) = {..<3} \<and> list_all2 (equal_good 2 0 demo_alloc) idxss us"
  using equal_partitions [OF demo_accepted, of True 0 2] by simp

text \<open>C21. On an accepted batch the callers' loop with \<open>split_seq\<close> ends with every token in exactly one micro-batch,
  each a chain of tokens in batch order whose sequence sets only shrink, of at most \<open>max 1 n_ubatch\<close> tokens.\<close>

theorem seq_partitions:
  assumes "batch_accepted c a"
  shows "\<exists>us idxss a'. split_all (split_seq n_ubatch) a [] = Some (us, a') \<and> unused a' = {} \<and>
    distinct (concat idxss) \<and> set (concat idxss) = {..<b_n_tokens c} \<and> list_all2 (seq_good n_ubatch a) idxss us"
  using seqs.all_split [of a n_ubatch "[]"] assms by (auto simp: batch_accepted_def)

theorem seq_partitions_witness:
  "\<exists>us idxss a'. split_all (split_seq 2) demo_alloc [] = Some (us, a') \<and> unused a' = {} \<and>
    distinct (concat idxss) \<and> set (concat idxss) = {..<b_n_tokens demo_done} \<and> list_all2 (seq_good 2 demo_alloc) idxss us"
  by (rule seq_partitions [OF demo_accepted])

lemma demo_split: "map_option (\<lambda>(us, a). map ub_n_tokens us) (split_all (split_equal 2 True 0) demo_alloc []) = Some [3]"
  by code_simp

text \<open>C22. A micro-batch of \<open>split_equal\<close> can hold one token more than \<open>n_ubatch\<close>: then, and only then, it takes one
  token from each of \<open>n_ubatch + 1\<close> sequence sets.\<close>

theorem equal_size:
  assumes "batch_accepted c a" "\<not> (sequential \<and> multi_seq c)" "n_keep_tail = 0 \<or> n_keep_tail < n_ubatch"
    and "split_all (split_equal n_ubatch sequential n_keep_tail) a [] = Some (us, a')" "u \<in> set us"
  shows "1 \<le> ub_n_tokens u \<and> (ub_n_tokens u \<le> n_ubatch \<or> ub_n_tokens u = n_ubatch + 1 \<and> ub_n_seqs u = n_ubatch + 1 \<and> ub_n_seq_tokens u = 1)"
proof -
  have a: "eq_ready a \<and> \<not> (sequential \<and> ba_has_cpl a) \<and> (n_keep_tail = 0 \<or> n_keep_tail < n_ubatch)"
    using assms ready_all_unused(2) [of a] by (auto simp: batch_accepted_def)
  from equal.all_split [OF a, of "[]"] assms(4) obtain idxss where "list_all2 (equal_good n_ubatch n_keep_tail a) idxss us" by auto
  with assms(5) obtain idxs where "equal_good n_ubatch n_keep_tail a idxs u"
    by (metis in_set_conv_nth list_all2_conv_all_nth)
  then obtain blocks m where bl: "idxs = concat blocks" "u = ub_of a idxs (length blocks) True" "blocks \<noteq> []" "length blocks \<le> n_ubatch + 1"
    "1 \<le> m" "length blocks * m \<le> n_ubatch \<or> m = 1" "\<forall>s<length blocks. length (blocks ! s) = m"
    unfolding equal_good_def equal_blocks_def by blast
  have n: "length idxs = length blocks * m"
    unfolding bl(1) by (rule concat_same_length) (use bl(7) in \<open>auto simp: in_set_conv_nth\<close>)
  have l: "1 \<le> length blocks" using bl(3) by (cases blocks) auto
  have u: "ub_n_tokens u = length blocks * m" "ub_n_seqs u = length blocks" "ub_n_seq_tokens u = length blocks * m div length blocks"
    using n by (simp_all add: bl(2) ub_of_def Let_def)
  have "1 \<le> ub_n_tokens u" using mult_le_mono [OF l bl(5)] by (simp add: u)
  moreover have "ub_n_tokens u \<le> n_ubatch \<or> ub_n_tokens u = n_ubatch + 1 \<and> ub_n_seqs u = n_ubatch + 1 \<and> ub_n_seq_tokens u = 1"
    using bl(4,6) l by (cases "length blocks = n_ubatch + 1") (auto simp: u)
  ultimately show ?thesis by blast
qed

theorem equal_size_witness:
  "\<exists>u us a'. split_all (split_equal 2 True 0) demo_alloc [] = Some (us, a') \<and> u \<in> set us \<and> ub_n_tokens u = 2 + 1 \<and> ub_n_seqs u = 2 + 1"
proof -
  from demo_split obtain us a' where us: "split_all (split_equal 2 True 0) demo_alloc [] = Some (us, a')" "map ub_n_tokens us = [3]" by auto
  from us(2) obtain u where u: "u \<in> set us" "ub_n_tokens u = 3" by (cases us) auto
  from equal_size [OF demo_accepted _ _ us(1) u(1)] u(2) have "ub_n_seqs u = 3" by simp
  with us(1) u show ?thesis by (intro exI [of _ u] exI [of _ us] exI [of _ a']) simp
qed

end
