(* ===== verification/KvCache.thy ===== *)
theory KvCache
  imports UBatch
begin

text \<open>
  The KV cache of the inference context: \<open>llama-server/src/llama-kv-cache.cpp\<close>. A cache owns one
  \<open>llama_kv_cells\<close> object and one search head per stream and maps every sequence to its stream.
  The definitions are the class's operations on this metadata, in the order of the file; the tensors
  with the keys and values are not modelled. A failed assert, an index outside its array and an
  overflow of a position are \<open>None\<close>. Cell indices and sizes are \<open>nat\<close>: the code adds two of them at
  a time and a cache has far fewer than \<open>2^31\<close> cells, so \<open>uint32_t\<close> does not wrap.
\<close>

section \<open>State\<close>

datatype swa_type = SWA_NONE | SWA_STANDARD | SWA_CHUNKED | SWA_SYMMETRIC

record kv_hparams =
  hp_n_stream :: nat
  hp_n_pad :: nat
  hp_n_swa :: nat
  hp_swa_type :: swa_type
  hp_n_pos_per_embd :: nat
  hp_arch_step35 :: bool
  hp_ple_n_heads :: nat
  hp_ple_image_token_id :: nat
  hp_ple_eos_token_id :: nat

record kv_cache =
  kc_hp :: kv_hparams
  kc_cells :: "kv_cells list"
  kc_heads :: "nat list"
  kc_seq_to_stream :: "nat list"
  kc_ssrc :: "nat list"  \<comment> \<open>the pending stream copies \<open>sc_info\<close>\<close>
  kc_sdst :: "nat list"
  kc_other :: "nat list option"  \<comment> \<open>\<open>other\<close>: the \<open>seq_to_stream\<close> of the cache that owns the cells\<close>

record slot_info =
  si_s0 :: nat
  si_s1 :: nat
  si_strm :: "nat list"
  si_idxs :: "nat list list"

definition slot_none :: slot_info where
  \<comment> \<open>the empty result \<open>{ }\<close>\<close>
  "slot_none = \<lparr>si_s0 = 0, si_s1 = 0, si_strm = [], si_idxs = []\<rparr>"

definition si_empty :: "slot_info \<Rightarrow> bool" where
  "si_empty si \<longleftrightarrow> si_idxs si = []"

definition si_n_stream :: "slot_info \<Rightarrow> nat" where
  "si_n_stream si = length (si_strm si)"

definition si_size :: "slot_info \<Rightarrow> nat option" where
  "si_size si = do {
     assert_that (length (si_idxs si) = length (si_strm si));
     assert_that (si_idxs si \<noteq> []);
     Some (length (hd (si_idxs si)))
   }"

definition si_head :: "slot_info \<Rightarrow> nat option" where
  "si_head si = do {
     assert_that (length (si_idxs si) = 1);
     assert_that (hd (si_idxs si) \<noteq> []);
     Some (hd (hd (si_idxs si)))
   }"

definition si_is_contiguous :: "slot_info \<Rightarrow> bool" where
  "si_is_contiguous si \<longleftrightarrow>
     (if si_idxs si = [] \<or> hd (si_idxs si) = [] then True
      else if length (si_idxs si) > 1 then False
      else let is = hd (si_idxs si); h = hd is in \<forall>i<length is. is ! i = h + i)"

definition kvc_new :: "kv_hparams \<Rightarrow> nat \<Rightarrow> nat \<Rightarrow> kv_cache option" where
  \<comment> \<open>the bookkeeping of the constructor for a cache that owns its cells\<close>
  "kvc_new hp n_seq_max n = do {
     assert_that (hp_n_pad hp \<noteq> 0 \<and> n mod hp_n_pad hp = 0);
     assert_that (hp_n_stream hp = 1 \<or> hp_n_stream hp = n_seq_max);
     Some \<lparr>kc_hp = hp,
       kc_cells = replicate (hp_n_stream hp) (kv_resize n kv_new),
       kc_heads = replicate (hp_n_stream hp) 0,
       kc_seq_to_stream = (if hp_n_stream hp > 1 then [0..<hp_n_stream hp] else replicate LLAMA_MAX_SEQ 0),
       kc_ssrc = [], kc_sdst = [], kc_other = None\<rparr>
   }"

definition kvc_stream :: "kv_cache \<Rightarrow> llama_seq_id \<Rightarrow> nat option" where
  \<comment> \<open>\<open>seq_to_stream[seq_id]\<close> behind its range check\<close>
  "kvc_stream k seq_id = do {
     assert_that (0 \<le> seq_id \<and> nat seq_id < length (kc_seq_to_stream k));
     Some (kc_seq_to_stream k ! nat seq_id)
   }"

definition kvc_put :: "nat \<Rightarrow> kv_cells \<Rightarrow> nat \<Rightarrow> kv_cache \<Rightarrow> kv_cache" where
  "kvc_put st c h k = k\<lparr>kc_cells := (kc_cells k)[st := c], kc_heads := (kc_heads k)[st := h]\<rparr>"

definition kvc_clear :: "kv_cache \<Rightarrow> kv_cache" where
  "kvc_clear k = k\<lparr>kc_cells := map kv_reset (kc_cells k), kc_heads := map (\<lambda>_. 0) (kc_heads k)\<rparr>"

section \<open>Operations on a sequence\<close>

definition range_lo :: "llama_pos \<Rightarrow> llama_pos" where
  "range_lo p0 = (if p0 < 0 then 0 else p0)"

definition range_hi :: "llama_pos \<Rightarrow> llama_pos" where
  "range_hi p1 = (if p1 < 0 then INT32_MAX else p1)"

definition note_free :: "nat \<Rightarrow> bool \<Rightarrow> nat \<Rightarrow> kv_cells \<Rightarrow> nat" where
  "note_free i freed new_head c = (if freed \<and> new_head = kv_size c then i else new_head)"

definition lower_head :: "nat \<Rightarrow> kv_cells \<Rightarrow> nat \<Rightarrow> nat" where
  \<comment> \<open>if we freed up a slot, set head to it so searching can start there\<close>
  "lower_head new_head c head = (if new_head \<noteq> kv_size c \<and> new_head < head then new_head else head)"

definition seq_rm_cell :: "nat \<Rightarrow> llama_pos \<Rightarrow> llama_pos \<Rightarrow> nat \<Rightarrow> kv_cells \<times> nat \<Rightarrow> (kv_cells \<times> nat) option" where
  "seq_rm_cell s p0 p1 i = (\<lambda>(c, new_head). do {
     inside \<leftarrow> kv_pos_in i p0 p1 c;
     if \<not> inside then Some (c, new_head)
     else do {
       has \<leftarrow> kv_seq_has i s c;
       if \<not> has then Some (c, new_head)
       else do { (c, freed) \<leftarrow> kv_seq_rm i s c; Some (c, note_free i freed new_head c) }
     }
   })"

definition rm_cell :: "llama_pos \<Rightarrow> llama_pos \<Rightarrow> nat \<Rightarrow> kv_cells \<times> nat \<Rightarrow> (kv_cells \<times> nat) option" where
  "rm_cell p0 p1 i = (\<lambda>(c, new_head). do {
     inside \<leftarrow> kv_pos_in i p0 p1 c;
     if \<not> inside then Some (c, new_head)
     else do { c \<leftarrow> kv_rm i c; Some (c, note_free i True new_head c) }
   })"

definition seq_rm_stream ::
  "(nat \<Rightarrow> kv_cells \<times> nat \<Rightarrow> (kv_cells \<times> nat) option) \<Rightarrow> nat \<Rightarrow> kv_cache \<Rightarrow> kv_cache option" where
  \<comment> \<open>one pass of a removal over the cells of a stream, and its head\<close>
  "seq_rm_stream rm st k = do {
     c \<leftarrow> at (kc_cells k) st;
     head \<leftarrow> at (kc_heads k) st;
     (c, new_head) \<leftarrow> foldM rm [0..<kv_size c] (c, kv_size c);
     Some (kvc_put st c (lower_head new_head c head) k)
   }"

definition kvc_seq_rm :: "llama_seq_id \<Rightarrow> llama_pos \<Rightarrow> llama_pos \<Rightarrow> kv_cache \<Rightarrow> kv_cache option" where
  "kvc_seq_rm seq_id p0 p1 k =
     (if kc_other k \<noteq> None then Some k
      else do {
        assert_that (seq_id = -1 \<or> (0 \<le> seq_id \<and> nat seq_id < length (kc_seq_to_stream k)));
        let p0 = range_lo p0; p1 = range_hi p1 in
        if seq_id \<ge> 0 then do {
          st \<leftarrow> kvc_stream k seq_id;
          seq_rm_stream (seq_rm_cell (nat seq_id) p0 p1) st k
        }
        else foldM (\<lambda>s. seq_rm_stream (rm_cell p0 p1) s) [0..<hp_n_stream (kc_hp k)] k
      })"

definition kvc_get_size :: "kv_cache \<Rightarrow> nat option" where
  "kvc_get_size k = do { st \<leftarrow> at (kc_seq_to_stream k) 0; c \<leftarrow> at (kc_cells k) st; Some (kv_size c) }"

definition cp_cell :: "nat \<Rightarrow> nat \<Rightarrow> llama_pos \<Rightarrow> llama_pos \<Rightarrow> nat \<Rightarrow> kv_cells \<Rightarrow> kv_cells option" where
  \<comment> \<open>copy within a stream: the cell gets the second sequence\<close>
  "cp_cell src dst p0 p1 i c = do {
     inside \<leftarrow> kv_pos_in i p0 p1 c;
     if \<not> inside then Some c
     else do { has \<leftarrow> kv_seq_has i src c; if has then kv_seq_add i dst c else Some c }
   }"

definition cp_cell_across :: "nat \<Rightarrow> nat \<Rightarrow> kv_cells \<Rightarrow> nat \<Rightarrow> kv_cells \<Rightarrow> kv_cells option" where
  \<comment> \<open>copy to another stream: position, pending shift and extra data of the cell\<close>
  "cp_cell_across src dst c0 i c1 = do {
     has \<leftarrow> kv_seq_has i src c0;
     if \<not> has then Some c1
     else do {
       pos \<leftarrow> kv_pos_get i c0;
       shift \<leftarrow> kv_get_shift i c0;
       ext \<leftarrow> kv_ext_get i c0;
       pos \<leftarrow> (if shift \<noteq> 0 then do { p \<leftarrow> i32 (pos - shift); assert_that (p \<ge> 0); Some p } else Some pos);
       c1 \<leftarrow> kv_pos_set i pos c1;
       c1 \<leftarrow> kv_seq_add i dst c1;
       c1 \<leftarrow> (if shift \<noteq> 0 then map_option fst (kv_pos_add i shift c1) else Some c1);
       kv_ext_set i ext c1
     }
   }"

definition bound_inside :: "llama_pos \<Rightarrow> nat \<Rightarrow> bool option" where
  \<comment> \<open>\<open>p > 0 && p + 1 < size\<close>\<close>
  "bound_inside p n = (if p > 0 then do { q \<leftarrow> i32 (p + 1); Some (q < int n) } else Some False)"

definition kvc_seq_cp :: "llama_seq_id \<Rightarrow> llama_seq_id \<Rightarrow> llama_pos \<Rightarrow> llama_pos \<Rightarrow> kv_cache \<Rightarrow> kv_cache option" where
  "kvc_seq_cp src dst p0 p1 k =
     (if kc_other k \<noteq> None then Some k
      else do {
        s0 \<leftarrow> kvc_stream k src;
        s1 \<leftarrow> kvc_stream k dst;
        c0 \<leftarrow> at (kc_cells k) s0;
        if s0 = s1 then
          if src = dst then Some k
          else do {
            c \<leftarrow> foldM (cp_cell (nat src) (nat dst) (range_lo p0) (range_hi p1)) [0..<kv_size c0] c0;
            Some (k\<lparr>kc_cells := (kc_cells k)[s0 := c]\<rparr>)
          }
        else do {
          n \<leftarrow> kvc_get_size k;
          b0 \<leftarrow> bound_inside p0 n;
          b1 \<leftarrow> bound_inside p1 n;
          assert_that (\<not> b0 \<and> \<not> b1);
          c1 \<leftarrow> at (kc_cells k) s1;
          head \<leftarrow> at (kc_heads k) s0;
          c1 \<leftarrow> foldM (cp_cell_across (nat src) (nat dst) c0) [0..<kv_size c0] (kv_reset c1);
          Some ((kvc_put s1 c1 head k)\<lparr>kc_ssrc := kc_ssrc k @ [s0], kc_sdst := kc_sdst k @ [s1]\<rparr>)
        }
      })"


definition keep_cell :: "nat \<Rightarrow> nat \<Rightarrow> kv_cells \<times> nat \<Rightarrow> (kv_cells \<times> nat) option" where
  "keep_cell s i = (\<lambda>(c, new_head). do {
     (c, freed) \<leftarrow> kv_seq_keep i s c;
     Some (c, note_free i freed new_head c)
   })"

definition kvc_seq_keep :: "llama_seq_id \<Rightarrow> kv_cache \<Rightarrow> kv_cache option" where
  "kvc_seq_keep seq_id k =
     (if kc_other k \<noteq> None then Some k
      else do { st \<leftarrow> kvc_stream k seq_id; seq_rm_stream (keep_cell (nat seq_id)) st k })"

definition add_cell :: "nat \<Rightarrow> llama_pos \<Rightarrow> llama_pos \<Rightarrow> llama_pos \<Rightarrow> nat \<Rightarrow> kv_cells \<times> nat \<Rightarrow> (kv_cells \<times> nat) option" where
  "add_cell s p0 p1 shift i = (\<lambda>(c, new_head). do {
     inside \<leftarrow> kv_pos_in i p0 p1 c;
     if \<not> inside then Some (c, new_head)
     else do {
       has \<leftarrow> kv_seq_has i s c;
       if \<not> has then Some (c, new_head)
       else do { (c, freed) \<leftarrow> kv_pos_add i shift c; Some (c, note_free i freed new_head c) }
     }
   })"

definition kvc_seq_add :: "llama_seq_id \<Rightarrow> llama_pos \<Rightarrow> llama_pos \<Rightarrow> llama_pos \<Rightarrow> kv_cache \<Rightarrow> kv_cache option" where
  "kvc_seq_add seq_id p0 p1 shift k =
     (if kc_other k \<noteq> None then Some k
      else do {
        st \<leftarrow> kvc_stream k seq_id;
        assert_that (hp_n_pos_per_embd (kc_hp k) = 1);
        if shift = 0 then Some k
        else let p0 = range_lo p0; p1 = range_hi p1 in
          if p0 = p1 then Some k
          else do {
            c \<leftarrow> at (kc_cells k) st;
            (c, new_head) \<leftarrow> foldM (add_cell (nat seq_id) p0 p1 shift) [0..<kv_size c] (c, kv_size c);
            Some (kvc_put st c (if new_head \<noteq> kv_size c then new_head else 0) k)
          }
      })"

definition div_cell :: "nat \<Rightarrow> llama_pos \<Rightarrow> llama_pos \<Rightarrow> int \<Rightarrow> nat \<Rightarrow> kv_cells \<Rightarrow> kv_cells option" where
  "div_cell s p0 p1 d i c = do {
     inside \<leftarrow> kv_pos_in i p0 p1 c;
     if \<not> inside then Some c
     else do { has \<leftarrow> kv_seq_has i s c; if has then kv_pos_div i d c else Some c }
   }"

definition kvc_seq_div :: "llama_seq_id \<Rightarrow> llama_pos \<Rightarrow> llama_pos \<Rightarrow> int \<Rightarrow> kv_cache \<Rightarrow> kv_cache option" where
  "kvc_seq_div seq_id p0 p1 d k =
     (if kc_other k \<noteq> None then Some k
      else do {
        st \<leftarrow> kvc_stream k seq_id;
        assert_that (hp_n_pos_per_embd (kc_hp k) = 1);
        if d = 1 then Some k
        else let p0 = range_lo p0; p1 = range_hi p1 in
          if p0 = p1 then Some k
          else do {
            c \<leftarrow> at (kc_cells k) st;
            c \<leftarrow> foldM (div_cell (nat seq_id) p0 p1 d) [0..<kv_size c] c;
            Some (k\<lparr>kc_cells := (kc_cells k)[st := c]\<rparr>)
          }
      })"

definition kvc_bound_stream :: "kv_cache \<Rightarrow> llama_seq_id \<Rightarrow> nat option" where
  \<comment> \<open>the stream that \<open>seq_pos_min\<close> and \<open>seq_pos_max\<close> read: that of the owner of shared cells\<close>
  "kvc_bound_stream k seq_id =
     (case kc_other k of None \<Rightarrow> kvc_stream k seq_id | Some sts \<Rightarrow> kvc_stream (k\<lparr>kc_seq_to_stream := sts\<rparr>) seq_id)"

definition kvc_seq_pos_min :: "llama_seq_id \<Rightarrow> kv_cache \<Rightarrow> llama_pos option" where
  "kvc_seq_pos_min seq_id k = do {
     st \<leftarrow> kvc_bound_stream k seq_id;
     c \<leftarrow> at (kc_cells k) st;
     kv_seq_pos_min (nat seq_id) c
   }"

definition kvc_seq_pos_max :: "llama_seq_id \<Rightarrow> kv_cache \<Rightarrow> llama_pos option" where
  "kvc_seq_pos_max seq_id k = do {
     st \<leftarrow> kvc_bound_stream k seq_id;
     c \<leftarrow> at (kc_cells k) st;
     kv_seq_pos_max (nat seq_id) c
   }"

section \<open>Sliding-window masking\<close>

definition is_masked_swa :: "nat \<Rightarrow> swa_type \<Rightarrow> llama_pos \<Rightarrow> llama_pos \<Rightarrow> bool option" where
  "is_masked_swa n_swa t p0 p1 = do {
     assert_that (p0 \<ge> 0 \<and> p1 \<ge> 0);
     (case t of
        SWA_NONE \<Rightarrow> Some False
      | SWA_STANDARD \<Rightarrow> Some (p1 - p0 \<ge> int n_swa)
      | SWA_CHUNKED \<Rightarrow> do { assert_that (n_swa \<noteq> 0); Some (p0 < (p1 div int n_swa) * int n_swa) }
      | SWA_SYMMETRIC \<Rightarrow> Some (p1 - p0 < - (int n_swa div 2) \<or> p1 - p0 > int n_swa div 2))
   }"

section \<open>Searching a slot\<close>

definition can_use :: "kv_hparams \<Rightarrow> kv_cells \<Rightarrow> nat \<Rightarrow> bool option" where
  "can_use hp c idx = do {
     e \<leftarrow> kv_is_empty idx c;
     if e then Some True
     else do {
       n \<leftarrow> kv_seq_count idx c;
       if n = 1 then do {
         pos_cell \<leftarrow> kv_pos_get idx c;
         seq_id_cell \<leftarrow> kv_seq_get idx c;
         pos_max \<leftarrow> kv_seq_pos_max (nat seq_id_cell) c;
         p1 \<leftarrow> i32 (pos_max + 1);
         is_masked_swa (hp_n_swa hp) (hp_swa_type hp) pos_cell p1
       }
       else Some False
     }
   }"

text \<open>The inner loop: test \<open>n\<close> cells from the head, in continuous mode up to the first unusable one.\<close>

fun slot_test ::
  "kv_hparams \<Rightarrow> kv_cells \<Rightarrow> bool \<Rightarrow> nat \<Rightarrow> nat \<times> nat \<times> nat list \<Rightarrow> (nat \<times> nat \<times> nat list) option" where
  "slot_test hp c cont 0 st = Some st"
| "slot_test hp c cont (Suc n) (head_cur, n_tested, idxs) = do {
     usable \<leftarrow> can_use hp c head_cur;
     if usable then slot_test hp c cont n (head_cur + 1, n_tested + 1, idxs @ [head_cur])
     else if cont then Some (head_cur + 1, n_tested + 1, idxs)
     else slot_test hp c cont n (head_cur + 1, n_tested + 1, idxs)
   }"

text \<open>The \<open>while (true)\<close> loop; \<open>Some None\<close> is \<open>return { }\<close>.\<close>

partial_function (option) slot_loop ::
  "kv_hparams \<Rightarrow> kv_cells \<Rightarrow> bool \<Rightarrow> nat \<Rightarrow> nat \<Rightarrow> nat \<Rightarrow> nat list \<Rightarrow> nat list option option" where
  "slot_loop hp c cont n_tokens head_cur n_tested idxs =
     (let n_test = (if cont then n_tokens else 1) in
      if head_cur + n_test > kv_size c
      then slot_loop hp c cont n_tokens 0 (n_tested + (kv_size c - head_cur)) idxs
      else Option.bind (slot_test hp c cont n_test (head_cur, n_tested, idxs)) (\<lambda>(head_cur, n_tested, idxs).
        if length idxs = n_tokens then Some (Some idxs)
        else if n_tested \<ge> kv_size c then Some None
        else slot_loop hp c cont n_tokens head_cur n_tested (if cont then [] else idxs)))"

declare slot_loop.simps [code]

definition slot_in_stream :: "kv_hparams \<Rightarrow> kv_cells \<Rightarrow> nat \<Rightarrow> bool \<Rightarrow> nat \<Rightarrow> nat list option option" where
  "slot_in_stream hp c head cont n_tokens =
     (let head_cur = (if head > kv_get_used c + 2 * n_tokens then 0 else head) in
      if n_tokens > kv_size c then Some None
      else slot_loop hp c cont n_tokens head_cur 0 [])"

fun find_slot_seqs :: "kv_cache \<Rightarrow> ubatch \<Rightarrow> bool \<Rightarrow> nat \<Rightarrow> nat list \<Rightarrow> slot_info \<Rightarrow> slot_info option" where
  "find_slot_seqs k u cont n_tokens [] res = Some res"
| "find_slot_seqs k u cont n_tokens (s # ss) res = do {
     seq_id \<leftarrow> at (ub_seq_id_unq u) s;
     (if hp_n_stream (kc_hp k) > 1 then do {
        n \<leftarrow> at (ub_n_seq_id u) (s * n_tokens);
        assert_that (n = 1);
        ids \<leftarrow> at (ub_seq_id u) (s * n_tokens);
        id0 \<leftarrow> at ids 0;
        assert_that (id0 = seq_id)
      } else Some ());
     assert_that (0 \<le> seq_id);
     st \<leftarrow> at (kc_seq_to_stream k) (nat seq_id);
     c \<leftarrow> at (kc_cells k) st;
     head \<leftarrow> at (kc_heads k) st;
     r \<leftarrow> slot_in_stream (kc_hp k) c head cont n_tokens;
     (case r of
        None \<Rightarrow> Some slot_none
      | Some idxs \<Rightarrow> if length idxs < n_tokens then Some slot_none
          else find_slot_seqs k u cont n_tokens ss
            (res\<lparr>si_s0 := min (si_s0 res) st, si_s1 := max (si_s1 res) st,
                si_strm := (si_strm res)[s := st], si_idxs := (si_idxs res)[s := idxs]\<rparr>))
   }"

definition find_slot :: "kv_cache \<Rightarrow> ubatch \<Rightarrow> bool \<Rightarrow> slot_info option" where
  "find_slot k u cont = do {
     (n_seqs, n_tokens) \<leftarrow>
       (if hp_n_stream (kc_hp k) > 1 then do {
          assert_that (ub_n_seqs_unq u \<noteq> 0 \<and> ub_n_tokens u mod ub_n_seqs_unq u = 0);
          Some (ub_n_seqs_unq u, ub_n_tokens u div ub_n_seqs_unq u)
        } else Some (1, ub_n_tokens u));
     find_slot_seqs k u cont n_tokens [0..<n_seqs]
       \<lparr>si_s0 = LLAMA_MAX_SEQ, si_s1 = 0, si_strm = replicate n_seqs 0, si_idxs = replicate n_seqs []\<rparr>
   }"


section \<open>Placing a micro-batch\<close>

definition ub_ext :: "kv_hparams \<Rightarrow> ubatch \<Rightarrow> nat \<Rightarrow> kv_cell_ext option option" where
  \<comment> \<open>the extra data of token \<open>i\<close>; \<open>Some None\<close> when none is stored\<close>
  "ub_ext hp u i =
     (if ub_is_pos_2d u \<or> ub_token u \<noteq> None \<or> hp_ple_n_heads hp > 0 then do {
        ext \<leftarrow> (if ub_is_pos_2d u then do {
            x \<leftarrow> at (ub_pos u) (i + ub_n_tokens u * 2);
            y \<leftarrow> at (ub_pos u) (i + ub_n_tokens u);
            Some (ext_default\<lparr>ext_x := x, ext_y := y\<rparr>)
          } else Some ext_default);
        (case ub_token u of
           Some toks \<Rightarrow> do { t \<leftarrow> at toks i; Some (Some (ext\<lparr>ext_tok := t\<rparr>)) }
         | None \<Rightarrow>
             if hp_ple_n_heads hp > 0
             then Some (Some (ext\<lparr>ext_tok := int (if hp_ple_image_token_id hp \<noteq> 0
                    then hp_ple_image_token_id hp else hp_ple_eos_token_id hp)\<rparr>))
             else Some (Some ext))
      } else Some None)"

definition place_token ::
  "kv_hparams \<Rightarrow> ubatch \<Rightarrow> nat \<Rightarrow> nat \<Rightarrow> kv_cells \<times> llama_pos list \<Rightarrow> (kv_cells \<times> llama_pos list) option" where
  \<comment> \<open>the body of the loops of \<open>apply_ubatch\<close>: token \<open>i\<close> goes to cell \<open>idx\<close>\<close>
  "place_token hp u i idx = (\<lambda>(c, seq_pos_max_rm). do {
     e \<leftarrow> kv_is_empty idx c;
     (c, seq_pos_max_rm) \<leftarrow> (if \<not> e then do {
         n \<leftarrow> kv_seq_count idx c;
         assert_that (n = 1);
         seq_id \<leftarrow> kv_seq_get idx c;
         pos \<leftarrow> kv_pos_get idx c;
         old \<leftarrow> at seq_pos_max_rm (nat seq_id);
         c \<leftarrow> kv_rm idx c;
         Some (c, seq_pos_max_rm[nat seq_id := max old pos])
       } else Some (c, seq_pos_max_rm));
     p \<leftarrow> at (ub_pos u) i;
     c \<leftarrow> kv_pos_set idx p c;
     ext \<leftarrow> ub_ext hp u i;
     c \<leftarrow> (case ext of None \<Rightarrow> Some c | Some x \<Rightarrow> kv_ext_set idx x c);
     ids \<leftarrow> at (ub_seq_id u) i;
     n \<leftarrow> at (ub_n_seq_id u) i;
     c \<leftarrow> foldM (\<lambda>s c. do { id \<leftarrow> at ids s; assert_that (0 \<le> id); kv_seq_add idx (nat id) c }) [0..<n] c;
     Some (c, seq_pos_max_rm)
   })"

definition place_stream :: "ubatch \<Rightarrow> slot_info \<Rightarrow> nat \<Rightarrow> nat \<Rightarrow> kv_cache \<times> llama_pos list \<Rightarrow> (kv_cache \<times> llama_pos list) option" where
  \<comment> \<open>the tokens of stream \<open>s\<close> of the slot\<close>
  "place_stream u si n s = (\<lambda>(k, rm). do {
     st \<leftarrow> at (si_strm si) s;
     idxs \<leftarrow> at (si_idxs si) s;
     c \<leftarrow> at (kc_cells k) st;
     (c, rm) \<leftarrow> foldM (\<lambda>ii x. do {
         idx \<leftarrow> at idxs ii;
         place_token (kc_hp k) u (s * n + ii) idx x
       }) [0..<n] (c, rm);
     Some (k\<lparr>kc_cells := (kc_cells k)[st := c]\<rparr>, rm)
   })"

definition purge_seq :: "llama_pos list \<Rightarrow> nat \<Rightarrow> kv_cache \<Rightarrow> kv_cache option" where
  \<comment> \<open>purge every position below the greatest one of the sequence that was overwritten\<close>
  "purge_seq rm s k =
     (if rm ! s = -1 then Some k
      else do {
        st \<leftarrow> at (kc_seq_to_stream k) s;
        c \<leftarrow> at (kc_cells k) st;
        mn \<leftarrow> kv_seq_pos_min s c;
        if mn \<le> rm ! s then do { e \<leftarrow> i32 (rm ! s + 1); kvc_seq_rm (int s) mn e k }
        else Some k
      })"

definition move_head :: "slot_info \<Rightarrow> nat \<Rightarrow> kv_cache \<Rightarrow> kv_cache option" where
  "move_head si s k = do {
     st \<leftarrow> at (si_strm si) s;
     idxs \<leftarrow> at (si_idxs si) s;
     assert_that (idxs \<noteq> [] \<and> st < length (kc_heads k));
     Some (k\<lparr>kc_heads := (kc_heads k)[st := last idxs + 1]\<rparr>)
   }"

definition apply_ubatch :: "slot_info \<Rightarrow> ubatch \<Rightarrow> kv_cache \<Rightarrow> kv_cache option" where
  "apply_ubatch si u k =
     (if kc_other k \<noteq> None then Some k
      else do {
        n \<leftarrow> si_size si;
        assert_that (ub_n_tokens u = si_n_stream si * n);
        (k, rm) \<leftarrow> foldM (place_stream u si n) [0..<si_n_stream si] (k, replicate LLAMA_MAX_SEQ (-1));
        k \<leftarrow> foldM (purge_seq rm) [0..<LLAMA_MAX_SEQ] k;
        foldM (move_head si) [0..<si_n_stream si] k
      })"

section \<open>Preparing a batch\<close>

record prepare_state =
  ps_sinfo :: slot_info
  ps_heads_old :: "nat list"
  ps_cells :: "kv_cells list"

fun prepare_loop ::
  "ubatch list \<Rightarrow> slot_info list \<Rightarrow> prepare_state list \<Rightarrow> kv_cache \<Rightarrow>
     (bool \<times> slot_info list \<times> prepare_state list \<times> kv_cache) option" where
  "prepare_loop [] res states k = Some (True, res, states, k)"
| "prepare_loop (u # us) res states k = do {
     si \<leftarrow> find_slot k u False;
     if si_empty si then Some (False, res, states, k)
     else do {
       saved \<leftarrow> foldM (\<lambda>s saved. do {
           st \<leftarrow> at (si_strm si) s;
           c \<leftarrow> at (kc_cells k) st;
           idxs \<leftarrow> at (si_idxs si) s;
           copy \<leftarrow> kv_cp_idxs idxs c;
           Some (saved @ [copy])
         }) [0..<si_n_stream si] [];
       k' \<leftarrow> apply_ubatch si u k;
       prepare_loop us (res @ [si])
         (states @ [\<lparr>ps_sinfo = si, ps_heads_old = kc_heads k, ps_cells = saved\<rparr>]) k'
     }
   }"

definition restore_state :: "prepare_state \<Rightarrow> kv_cache \<Rightarrow> kv_cache option" where
  "restore_state ps k = foldM (\<lambda>s k. do {
     st \<leftarrow> at (si_strm (ps_sinfo ps)) s;
     idxs \<leftarrow> at (si_idxs (ps_sinfo ps)) s;
     c \<leftarrow> at (kc_cells k) st;
     copy \<leftarrow> at (ps_cells ps) s;
     c \<leftarrow> kv_set_idxs idxs copy c;
     head \<leftarrow> at (ps_heads_old ps) s;
     Some (kvc_put st c head k)
   }) [0..<si_n_stream (ps_sinfo ps)] k"

definition prepare :: "ubatch list \<Rightarrow> kv_cache \<Rightarrow> (kv_cache \<times> slot_info list) option" where
  "prepare us k = do {
     (success, res, states, k) \<leftarrow> prepare_loop us [] [] k;
     assert_that (states \<noteq> [] \<or> \<not> success);
     k \<leftarrow> foldM restore_state (rev states) k;
     Some (k, if success then res else [])
   }"

section \<open>Shifts, sizes and indices for the graph\<close>

definition get_can_shift :: "kv_cache \<Rightarrow> bool" where
  "get_can_shift k \<longleftrightarrow> (if hp_arch_step35 (kc_hp k) then False else if hp_n_pos_per_embd (kc_hp k) > 1 then False else True)"

definition get_has_shift :: "kv_cache \<Rightarrow> bool" where
  "get_has_shift k \<longleftrightarrow> foldl (\<lambda>r c. r \<or> c_has_shift c) False (kc_cells k)"

definition ggml_pad :: "nat \<Rightarrow> nat \<Rightarrow> 32 word" where
  "ggml_pad x n = and (word_of_nat x + word_of_nat n - 1) (not (word_of_nat n - 1))"

definition get_n_kv :: "slot_info \<Rightarrow> kv_cache \<Rightarrow> nat option" where
  "get_n_kv si k = (let n_pad_cur = max (hp_n_pad (kc_hp k)) 256 in
     foldM (\<lambda>s result. do {
       st \<leftarrow> at (si_strm si) s;
       c \<leftarrow> at (kc_cells k) st;
       Some (max (min (kv_size c) (max n_pad_cur (unat (ggml_pad (kv_used_max_p1 c) n_pad_cur)))) result)
     }) [0..<si_n_stream si] 0)"

definition set_input_k_idxs :: "slot_info \<Rightarrow> ubatch \<Rightarrow> kv_cache \<Rightarrow> nat list option" where
  \<comment> \<open>the data written to \<open>dst\<close>: row of the K tensor for every token; the product is taken in \<open>uint32_t\<close>, the sum in \<open>int64_t\<close>\<close>
  "set_input_k_idxs si u k = do {
     n \<leftarrow> si_size si;
     assert_that (ub_n_tokens u = n * si_n_stream si);
     foldM (\<lambda>s dst. do {
       st \<leftarrow> at (si_strm si) s;
       idxs \<leftarrow> at (si_idxs si) s;
       sz \<leftarrow> kvc_get_size k;
       foldM (\<lambda>i dst. do { idx \<leftarrow> at idxs i; Some (dst[s * n + i := st * sz mod 2 ^ 32 + idx]) }) [0..<n] dst
     }) [0..<si_n_stream si] (replicate (ub_n_tokens u) 0)
   }"

definition set_input_k_shift :: "kv_cache \<Rightarrow> llama_pos list option" where
  "set_input_k_shift k =
     foldM (\<lambda>s dst. do {
       c \<leftarrow> at (kc_cells k) s;
       foldM (\<lambda>i dst. do {
           e \<leftarrow> kv_is_empty i c;
           v \<leftarrow> (if e then Some 0 else kv_get_shift i c);
           Some (dst @ [v])
         }) [0..<kv_size c] dst
     }) [0..<hp_n_stream (kc_hp k)] []"

definition update_shift :: "bool \<Rightarrow> kv_cache \<Rightarrow> kv_cache option" where
  \<comment> \<open>the metadata part of \<open>update\<close>: after the K-shift graph has run, no shift is pending\<close>
  "update_shift do_shift k =
     (if kc_other k \<noteq> None then Some k
      else if \<not> do_shift then Some k
      else do {
        assert_that (get_can_shift k);
        Some (k\<lparr>kc_cells := map kv_reset_shift (kc_cells k)\<rparr>)
      })"

end
