(* ===== verification/KvCacheOps.thy ===== *)
theory KvCacheOps
  imports KvCache
begin

text \<open>
  The sequence operations of the KV cache against their specification: the cache is a list of
  cell contents, one per stream, and every operation is a pointwise change of the cells of the
  stream of its sequence. The invariant \<open>kvc_inv\<close> says that every stream is consistent, that
  no occupied cell is without a sequence and that a sequence lives only in its own stream.
\<close>

section \<open>Specification\<close>

definition kvc_contents :: "kv_cache \<Rightarrow> cell_contents list" where
  "kvc_contents k = map cells (kc_cells k)"

definition in_range_pos :: "llama_pos \<Rightarrow> llama_pos \<Rightarrow> llama_pos \<Rightarrow> bool" where
  "in_range_pos p0 p1 p \<longleftrightarrow> range_lo p0 \<le> p \<and> p < range_hi p1"

fun abs_seq_rm :: "nat \<Rightarrow> llama_pos \<Rightarrow> llama_pos \<Rightarrow> llama_pos \<times> nat set \<Rightarrow> llama_pos \<times> nat set" where
  "abs_seq_rm s p0 p1 (p, S) =
     (if in_range_pos p0 p1 p \<and> s \<in> S then if S = {s} then (-1, {}) else (p, S - {s}) else (p, S))"

fun abs_rm :: "llama_pos \<Rightarrow> llama_pos \<Rightarrow> llama_pos \<times> nat set \<Rightarrow> llama_pos \<times> nat set" where
  "abs_rm p0 p1 (p, S) = (if in_range_pos p0 p1 p then (-1, {}) else (p, S))"

fun abs_seq_cp :: "nat \<Rightarrow> nat \<Rightarrow> llama_pos \<Rightarrow> llama_pos \<Rightarrow> llama_pos \<times> nat set \<Rightarrow> llama_pos \<times> nat set" where
  "abs_seq_cp src dst p0 p1 (p, S) = (if in_range_pos p0 p1 p \<and> src \<in> S then (p, insert dst S) else (p, S))"

fun abs_across :: "nat \<Rightarrow> nat \<Rightarrow> llama_pos \<times> nat set \<Rightarrow> llama_pos \<times> nat set" where
  "abs_across src dst (p, S) = (if src \<in> S then (p, {dst}) else (-1, {}))"

fun abs_seq_keep :: "nat \<Rightarrow> llama_pos \<times> nat set \<Rightarrow> llama_pos \<times> nat set" where
  "abs_seq_keep s (p, S) = (if s \<in> S then (p, {s}) else (-1, {}))"

fun abs_seq_add :: "nat \<Rightarrow> llama_pos \<Rightarrow> llama_pos \<Rightarrow> llama_pos \<Rightarrow> llama_pos \<times> nat set \<Rightarrow> llama_pos \<times> nat set" where
  "abs_seq_add s p0 p1 d (p, S) =
     (if in_range_pos p0 p1 p \<and> s \<in> S then if p + d < 0 then (-1, {}) else (p + d, S) else (p, S))"

fun abs_seq_div :: "nat \<Rightarrow> llama_pos \<Rightarrow> llama_pos \<Rightarrow> int \<Rightarrow> llama_pos \<times> nat set \<Rightarrow> llama_pos \<times> nat set" where
  "abs_seq_div s p0 p1 d (p, S) = (if in_range_pos p0 p1 p \<and> s \<in> S then (p div d, S) else (p, S))"

section \<open>Invariant\<close>

definition entry_ok :: "nat list \<Rightarrow> nat \<Rightarrow> llama_pos \<times> nat set \<Rightarrow> bool" where
  "entry_ok sts st e \<longleftrightarrow> (fst e \<noteq> -1 \<longrightarrow> snd e \<noteq> {}) \<and> (\<forall>s\<in>snd e. s < length sts \<and> sts ! s = st)"

definition stream_ok :: "kv_cache \<Rightarrow> nat \<Rightarrow> bool" where
  "stream_ok k st \<longleftrightarrow> kv_inv (kc_cells k ! st) \<and> kv_size (kc_cells k ! st) = kv_size (kc_cells k ! 0) \<and>
     kc_heads k ! st \<le> kv_size (kc_cells k ! st) \<and>
     (\<forall>e\<in>set (cells (kc_cells k ! st)). entry_ok (kc_seq_to_stream k) st e)"

definition kvc_inv :: "kv_cache \<Rightarrow> bool" where
  "kvc_inv k \<longleftrightarrow> 0 < hp_n_stream (kc_hp k) \<and> length (kc_cells k) = hp_n_stream (kc_hp k) \<and>
     length (kc_heads k) = hp_n_stream (kc_hp k) \<and>
     kc_seq_to_stream k \<noteq> [] \<and> length (kc_seq_to_stream k) \<le> LLAMA_MAX_SEQ \<and>
     (\<forall>st\<in>set (kc_seq_to_stream k). st < hp_n_stream (kc_hp k)) \<and>
     (\<forall>st<hp_n_stream (kc_hp k). stream_ok k st)"

lemma kvc_invD:
  assumes "kvc_inv k"
  shows "0 < hp_n_stream (kc_hp k)" "length (kc_cells k) = hp_n_stream (kc_hp k)"
    "length (kc_heads k) = hp_n_stream (kc_hp k)" "length (kc_seq_to_stream k) \<le> LLAMA_MAX_SEQ"
    "kc_seq_to_stream k \<noteq> []"
    "\<And>s. s < length (kc_seq_to_stream k) \<Longrightarrow> kc_seq_to_stream k ! s < hp_n_stream (kc_hp k)"
    "\<And>st. st < hp_n_stream (kc_hp k) \<Longrightarrow> stream_ok k st"
  using assms by (simp_all add: kvc_inv_def)

lemma kvc_inv_copy: "kvc_inv (k\<lparr>kc_ssrc := a, kc_sdst := b\<rparr>) \<longleftrightarrow> kvc_inv k"
  by (simp add: kvc_inv_def stream_ok_def)

text \<open>Replacing the cells of one stream keeps the invariant when the new cells are in order.\<close>

lemma kvc_inv_put:
  assumes "kvc_inv k" "st < hp_n_stream (kc_hp k)" "kv_inv c" "kv_size c = kv_size (kc_cells k ! st)" "h \<le> kv_size c"
    and "\<forall>e\<in>set (cells c). entry_ok (kc_seq_to_stream k) st e"
  shows "kvc_inv (kvc_put st c h k) \<and> kvc_contents (kvc_put st c h k) = (kvc_contents k)[st := cells c]"
proof -
  have "stream_ok (kvc_put st c h k) t" if "t < hp_n_stream (kc_hp k)" for t
    using kvc_invD(7) [OF assms(1) that] kvc_invD(7) [OF assms(1,2)] kvc_invD(1,2,3) [OF assms(1)] assms that
    by (cases "t = st"; cases "0 = st") (simp_all add: stream_ok_def kvc_put_def)
  then show ?thesis
    using assms(1) by (simp add: kvc_inv_def kvc_put_def kvc_contents_def map_update)
qed

lemma kvc_put_same_head: "kvc_put st c (kc_heads k ! st) k = k\<lparr>kc_cells := (kc_cells k)[st := c]\<rparr>"
  by (simp add: kvc_put_def)

section \<open>Loops over the cells of a stream\<close>

lemma cells_loop:
  fixes proj :: "'x \<Rightarrow> kv_cells"
  assumes x0: "kv_inv (proj x0)" "kv_size (proj x0) = n" "J x0" "\<And>i. i < n \<Longrightarrow> Pre i (proj x0)"
    and step: "\<And>i x. i < n \<Longrightarrow> kv_inv (proj x) \<Longrightarrow> kv_size (proj x) = n \<Longrightarrow> cells (proj x) ! i = cells (proj x0) ! i \<Longrightarrow>
      Pre i (proj x) \<Longrightarrow> J x \<Longrightarrow>
      \<exists>x'. F i x = Some x' \<and> J x' \<and> kv_inv (proj x') \<and> cells (proj x') = (cells (proj x))[i := f i (cells (proj x0) ! i)] \<and>
        (\<forall>j<n. i < j \<longrightarrow> Pre j (proj x) \<longrightarrow> Pre j (proj x'))"
  shows "\<exists>x'. foldM F [0..<n] x0 = Some x' \<and> J x' \<and> kv_inv (proj x') \<and> kv_size (proj x') = n \<and>
    cells (proj x') = map (\<lambda>i. f i (cells (proj x0) ! i)) [0..<n]"
proof -
  let ?c0 = "cells (proj x0)"
  let ?P = "\<lambda>done x. J x \<and> kv_inv (proj x) \<and> kv_size (proj x) = n \<and>
    cells (proj x) = map (\<lambda>i. f i (?c0 ! i)) [0..<length done] @ drop (length done) ?c0 \<and>
    (\<forall>j<n. length done \<le> j \<longrightarrow> Pre j (proj x))"
  have len0: "length ?c0 = n" using length_cells [OF x0(1)] x0(2) by simp
  have "\<exists>x'. foldM F [0..<n] x0 = Some x' \<and> ?P [0..<n] x'"
  proof (rule foldM_rule)
    show "?P [] x0" using x0 by simp
  next
    fix "done" i rest x
    assume split: "[0..<n] = done @ i # rest" and P: "?P done x"
    note i = upt_split [OF split]
    have nth: "cells (proj x) ! i = ?c0 ! i" using P i len0 by (simp add: nth_append)
    from step [of i x] P i nth obtain x' where x': "F i x = Some x'" "J x'" "kv_inv (proj x')"
      "cells (proj x') = (cells (proj x))[i := f i (?c0 ! i)]"
      "\<forall>j<n. i < j \<longrightarrow> Pre j (proj x) \<longrightarrow> Pre j (proj x')" by auto
    have "drop i ?c0 = ?c0 ! i # drop (Suc i) ?c0" using i(2) len0 by (simp add: Cons_nth_drop_Suc)
    then have "cells (proj x') = map (\<lambda>i. f i (?c0 ! i)) [0..<length (done @ [i])] @ drop (length (done @ [i])) ?c0"
      using P x'(4) i by (simp add: list_update_append)
    moreover have "kv_size (proj x') = n"
      using length_cells [OF x'(3)] x'(4) length_cells [of "proj x"] P by simp
    ultimately show "\<exists>x'. F i x = Some x' \<and> ?P (done @ [i]) x'"
      using x' P i by auto
  qed
  then show ?thesis using len0 by auto
qed

lemma map_nth_cells: "kv_inv c \<Longrightarrow> map (\<lambda>i. f (cells c ! i)) [0..<kv_size c] = map f (cells c)"
  using length_cells [of c] map_nth [of "cells c"] by (metis (no_types, lifting) map_map map_eq_conv comp_apply)


section \<open>The cell steps\<close>

lemma kv_reads:
  assumes "kv_inv c" "i < kv_size c"
  shows "kv_pos_in i p0 p1 c = Some (p0 \<le> c_pos c ! i \<and> c_pos c ! i < p1)"
    and "s < LLAMA_MAX_SEQ \<Longrightarrow> kv_seq_has i s c = Some (s \<in> c_seq c ! i)"
    and "kv_is_empty i c = Some (c_pos c ! i = -1)"
    and "c_pos c ! i \<noteq> -1 \<Longrightarrow> kv_pos_get i c = Some (c_pos c ! i)"
    and "c_pos c ! i \<noteq> -1 \<Longrightarrow> kv_get_shift i c = Some (c_shift c ! i)"
    and "c_pos c ! i \<noteq> -1 \<Longrightarrow> kv_ext_get i c = Some (c_ext c ! i)"
    and "c_pos c ! i \<noteq> -1 \<Longrightarrow> kv_seq_count i c = Some (card (c_seq c ! i))"
  using kv_inv_cell [OF assms] assms kv_inv_lengths [OF assms(1)]
  by (auto simp: kv_pos_in_def kv_seq_has_def kv_is_empty_def kv_pos_get_def kv_get_shift_def kv_ext_get_def
      kv_seq_count_def cell_ok_def)

lemma range_lo_nonneg: "0 \<le> range_lo p0"
  by (simp add: range_lo_def)

lemma cells_same: "kv_inv c \<Longrightarrow> i < kv_size c \<Longrightarrow> v = (c_pos c ! i, c_seq c ! i) \<Longrightarrow> cells c = (cells c)[i := v]"
  using nth_cells [of c i] by (metis list_update_id)

lemma note_free_le: "i < n \<Longrightarrow> new_head \<le> n \<Longrightarrow> kv_size c = n \<Longrightarrow> note_free i b new_head c \<le> n"
  by (simp add: note_free_def)

lemma kv_size_upd: "kv_inv c \<Longrightarrow> kv_inv c' \<Longrightarrow> cells c' = (cells c)[i := v] \<Longrightarrow> kv_size c' = kv_size c"
  using length_cells by (metis length_list_update)

lemma seq_rm_cell_step:
  assumes "kv_inv c" "i < kv_size c" "s < LLAMA_MAX_SEQ" "h \<le> kv_size c"
  shows "\<exists>c' h'. seq_rm_cell s (range_lo p0) (range_hi p1) i (c, h) = Some (c', h') \<and> h' \<le> kv_size c \<and> kv_inv c' \<and>
    cells c' = (cells c)[i := abs_seq_rm s p0 p1 (c_pos c ! i, c_seq c ! i)]"
proof (cases "in_range_pos p0 p1 (c_pos c ! i) \<and> s \<in> c_seq c ! i")
  case True
  with kv_seq_rm_spec [OF assms(1,2), of s] obtain c' where
    c': "kv_seq_rm i s c = Some (c', c_seq c ! i = {s})" "kv_inv c'"
      "cells c' = (cells c)[i := if c_seq c ! i = {s} then (-1, {}) else (c_pos c ! i, c_seq c ! i - {s})]" by blast
  with True assms kv_size_upd [OF assms(1) c'(2,3)] show ?thesis
    by (simp add: seq_rm_cell_def kv_reads in_range_pos_def note_free_le split del: if_split)
next
  case False
  with assms show ?thesis
    by (auto simp: seq_rm_cell_def kv_reads in_range_pos_def intro: cells_same)
qed

lemma rm_cell_step:
  assumes "kv_inv c" "i < kv_size c" "h \<le> kv_size c"
  shows "\<exists>c' h'. rm_cell (range_lo p0) (range_hi p1) i (c, h) = Some (c', h') \<and> h' \<le> kv_size c \<and> kv_inv c' \<and>
    cells c' = (cells c)[i := abs_rm p0 p1 (c_pos c ! i, c_seq c ! i)]"
proof (cases "in_range_pos p0 p1 (c_pos c ! i)")
  case True
  with range_lo_nonneg [of p0] have "c_pos c ! i \<noteq> -1" by (auto simp: in_range_pos_def)
  with kv_rm_spec [OF assms(1,2)] obtain c' where c': "kv_rm i c = Some c'" "kv_inv c'"
      "cells c' = (cells c)[i := (-1, {})]" by blast
  with True assms kv_size_upd [OF assms(1) c'(2,3)] show ?thesis
    by (simp add: rm_cell_def kv_reads in_range_pos_def note_free_le)
next
  case False
  with assms show ?thesis
    by (auto simp: rm_cell_def kv_reads in_range_pos_def intro: cells_same)
qed

lemma keep_cell_step:
  assumes "kv_inv c" "i < kv_size c" "s < LLAMA_MAX_SEQ" "h \<le> kv_size c" "c_pos c ! i \<noteq> -1 \<longrightarrow> c_seq c ! i \<noteq> {}"
  shows "\<exists>c' h'. keep_cell s i (c, h) = Some (c', h') \<and> h' \<le> kv_size c \<and> kv_inv c' \<and>
    cells c' = (cells c)[i := abs_seq_keep s (c_pos c ! i, c_seq c ! i)]"
proof -
  from kv_seq_keep_spec [OF assms(1-3)] assms(5) obtain c' where
    c': "kv_seq_keep i s c = Some (c', c_seq c ! i \<noteq> {} \<and> s \<notin> c_seq c ! i)" "kv_inv c'"
      "cells c' = (cells c)[i := if s \<in> c_seq c ! i then (c_pos c ! i, {s}) else (-1, {})]" by blast
  with assms kv_size_upd [OF assms(1) c'(2,3)] show ?thesis
    by (simp add: keep_cell_def note_free_le split del: if_split)
qed

lemma cp_cell_step:
  assumes "kv_inv c" "i < kv_size c" "src < LLAMA_MAX_SEQ" "dst < LLAMA_MAX_SEQ"
    and "in_range_pos p0 p1 (c_pos c ! i) \<and> src \<in> c_seq c ! i \<longrightarrow> dst \<notin> c_seq c ! i"
  shows "\<exists>c'. cp_cell src dst (range_lo p0) (range_hi p1) i c = Some c' \<and> kv_inv c' \<and>
    cells c' = (cells c)[i := abs_seq_cp src dst p0 p1 (c_pos c ! i, c_seq c ! i)]"
proof (cases "in_range_pos p0 p1 (c_pos c ! i) \<and> src \<in> c_seq c ! i")
  case True
  with range_lo_nonneg [of p0] have "c_pos c ! i \<noteq> -1" by (auto simp: in_range_pos_def)
  with True kv_seq_add_spec [OF assms(1,2) _ assms(4)] assms(5) obtain c' where c': "kv_seq_add i dst c = Some c'" "kv_inv c'"
      "cells c' = (cells c)[i := (c_pos c ! i, insert dst (c_seq c ! i))]" by blast
  with True assms show ?thesis by (simp add: cp_cell_def kv_reads in_range_pos_def)
next
  case False
  with assms show ?thesis
    by (auto simp: cp_cell_def kv_reads in_range_pos_def intro: cells_same)
qed

lemma add_cell_step:
  assumes "kv_inv c" "i < kv_size c" "s < LLAMA_MAX_SEQ" "h \<le> kv_size c"
    and "in_range_pos p0 p1 (c_pos c ! i) \<and> s \<in> c_seq c ! i \<longrightarrow>
      i32_ok (c_pos c ! i + d) \<and> i32_ok (c_shift c ! i + d)"
  shows "\<exists>c' h'. add_cell s (range_lo p0) (range_hi p1) d i (c, h) = Some (c', h') \<and> h' \<le> kv_size c \<and> kv_inv c' \<and>
    cells c' = (cells c)[i := abs_seq_add s p0 p1 d (c_pos c ! i, c_seq c ! i)] \<and>
    (\<forall>j. j \<noteq> i \<longrightarrow> c_shift c' ! j = c_shift c ! j)"
proof (cases "in_range_pos p0 p1 (c_pos c ! i) \<and> s \<in> c_seq c ! i")
  case True
  with range_lo_nonneg [of p0] have "c_pos c ! i \<noteq> -1" by (auto simp: in_range_pos_def)
  with True kv_pos_add_spec [OF assms(1,2)] assms(5) obtain c' where
    c': "kv_pos_add i d c = Some (c', c_pos c ! i + d < 0)" "kv_inv c'"
      "cells c' = (cells c)[i := if c_pos c ! i + d < 0 then (-1, {}) else (c_pos c ! i + d, c_seq c ! i)]"
      "c_shift c' = (c_shift c)[i := if c_pos c ! i + d < 0 then 0 else c_shift c ! i + d]" by blast
  with True assms kv_size_upd [OF assms(1) c'(2,3)] show ?thesis
    by (simp add: add_cell_def kv_reads in_range_pos_def note_free_le split del: if_split)
next
  case False
  with assms show ?thesis
    by (auto simp: add_cell_def kv_reads in_range_pos_def intro: cells_same)
qed

lemma div_cell_step:
  assumes "kv_inv c" "i < kv_size c" "s < LLAMA_MAX_SEQ" "0 < d"
    and "in_range_pos p0 p1 (c_pos c ! i) \<and> s \<in> c_seq c ! i \<longrightarrow>
      i32_ok (c_pos c ! i div d) \<and> i32_ok (c_shift c ! i + (c_pos c ! i - c_pos c ! i div d))"
  shows "\<exists>c'. div_cell s (range_lo p0) (range_hi p1) d i c = Some c' \<and> kv_inv c' \<and>
    cells c' = (cells c)[i := abs_seq_div s p0 p1 d (c_pos c ! i, c_seq c ! i)] \<and>
    (\<forall>j. j \<noteq> i \<longrightarrow> c_shift c' ! j = c_shift c ! j)"
proof (cases "in_range_pos p0 p1 (c_pos c ! i) \<and> s \<in> c_seq c ! i")
  case True
  with range_lo_nonneg [of p0] have "c_pos c ! i \<noteq> -1" by (auto simp: in_range_pos_def)
  with True kv_pos_div_spec [OF assms(1,2) _ assms(4)] assms(5) obtain c' where
    c': "kv_pos_div i d c = Some c'" "kv_inv c'"
      "cells c' = (cells c)[i := (c_pos c ! i div d, c_seq c ! i)]"
      "c_shift c' = (c_shift c)[i := c_shift c ! i + (c_pos c ! i - c_pos c ! i div d)]" by blast
  with True assms show ?thesis by (simp add: div_cell_def kv_reads in_range_pos_def)
next
  case False
  with assms show ?thesis
    by (auto simp: div_cell_def kv_reads in_range_pos_def intro: cells_same)
qed


lemma kv_pos_set_shift: "kv_pos_set i p c = Some c' \<Longrightarrow> c_shift c' = c_shift c"
  by (auto simp: kv_pos_set_def split: if_splits)

lemma kv_seq_add_shift: "kv_seq_add i s c = Some c' \<Longrightarrow> c_shift c' = c_shift c"
  by (auto simp: kv_seq_add_def seq_pos_inc_def Let_def split: if_splits)

lemma kv_ext_set_cells: "kv_inv c \<Longrightarrow> i < kv_size c \<Longrightarrow> \<exists>c'. kv_ext_set i e c = Some c' \<and> kv_inv c' \<and> cells c' = cells c"
  using kv_ext_set_spec [of c i e] by blast

definition across_pre :: "nat \<Rightarrow> kv_cells \<Rightarrow> nat \<Rightarrow> bool" where
  "across_pre src c i \<longleftrightarrow> (src \<in> c_seq c ! i \<longrightarrow>
     0 \<le> c_pos c ! i - c_shift c ! i \<and> i32_ok (c_pos c ! i - c_shift c ! i) \<and> i32_ok (c_pos c ! i) \<and> i32_ok (c_shift c ! i))"

lemma cp_cell_across_step:
  assumes "kv_inv c0" "kv_inv c1" "i < kv_size c0" "kv_size c1 = kv_size c0" "src < LLAMA_MAX_SEQ" "dst < LLAMA_MAX_SEQ"
    and "cells c1 ! i = (-1, {})" "across_pre src c0 i"
  shows "\<exists>c'. cp_cell_across src dst c0 i c1 = Some c' \<and> kv_inv c' \<and>
    cells c' = (cells c1)[i := abs_across src dst (c_pos c0 ! i, c_seq c0 ! i)]"
proof (cases "src \<in> c_seq c0 ! i")
  case False
  have "cp_cell_across src dst c0 i c1 = Some c1"
    using False assms(1,3,5) by (simp add: cp_cell_across_def kv_reads(2))
  moreover have "abs_across src dst (c_pos c0 ! i, c_seq c0 ! i) = cells c1 ! i"
    using False assms(7) by simp
  moreover from this have "cells c1 = (cells c1)[i := abs_across src dst (c_pos c0 ! i, c_seq c0 ! i)]"
    by (simp only: list_update_id)
  ultimately show ?thesis using assms(2) by (intro exI [of _ c1] conjI)
next
  case True
  let ?p = "c_pos c0 ! i" and ?sh = "c_shift c0 ! i"
  have occ: "?p \<noteq> -1" "0 \<le> ?p" using kv_inv_seq_mem [OF assms(1,3) True] by auto
  have i1: "i < kv_size c1" using assms(3,4) by simp
  have empty1: "c_pos c1 ! i = -1" using nth_cells [OF assms(2) i1] assms(7) by simp
  then have sh1: "c_shift c1 ! i = 0" using kv_inv_cell [OF assms(2) i1] by (simp add: cell_ok_def)
  define q where "q = (if ?sh \<noteq> 0 then ?p - ?sh else ?p)"
  have q: "0 \<le> q" using True assms(8) occ by (auto simp: q_def across_pre_def)
  have pos: "(if ?sh \<noteq> 0 then do { p \<leftarrow> i32 (?p - ?sh); assert_that (p \<ge> 0); Some p } else Some ?p) = Some q"
    using True assms(8) by (simp add: q_def across_pre_def i32_def)
  from kv_pos_set_spec [OF assms(2) i1 empty1 q] obtain c2 where
    c2: "kv_pos_set i q c1 = Some c2" "kv_inv c2" "cells c2 = (cells c1)[i := (q, {})]" by blast
  have i2: "i < kv_size c2" using kv_size_upd [OF assms(2) c2(2,3)] i1 by simp
  have n2: "c_pos c2 ! i = q" "c_seq c2 ! i = {}" using nth_cells [OF c2(2) i2] c2(3) i1 length_cells [OF assms(2)] by auto
  with kv_seq_add_spec [OF c2(2) i2 _ assms(6)] q obtain c3 where
    c3: "kv_seq_add i dst c2 = Some c3" "kv_inv c3" "cells c3 = (cells c2)[i := (q, {dst})]" by auto
  have i3: "i < kv_size c3" using kv_size_upd [OF c2(2) c3(2,3)] i2 by simp
  have n3: "c_pos c3 ! i = q" "c_seq c3 ! i = {dst}" using nth_cells [OF c3(2) i3] c3(3) i2 length_cells [OF c2(2)] by auto
  have sh3: "c_shift c3 ! i = 0"
    using kv_pos_set_shift [OF c2(1)] kv_seq_add_shift [OF c3(1)] sh1 by simp
  have "\<exists>c4. (if ?sh \<noteq> 0 then map_option fst (kv_pos_add i ?sh c3) else Some c3) = Some c4 \<and> kv_inv c4 \<and>
    cells c4 = (cells c3)[i := (?p, {dst})]"
  proof (cases "?sh = 0")
    case True
    have "cells c3 = (cells c3)[i := (?p, {dst})]"
      by (rule cells_same [OF c3(2) i3]) (use n3 True in \<open>simp add: q_def\<close>)
    moreover have "(if ?sh \<noteq> 0 then map_option fst (kv_pos_add i ?sh c3) else Some c3) = Some c3"
      using True by simp
    ultimately show ?thesis using c3(2) by (intro exI [of _ c3] conjI)
  next
    case False
    then have eq: "c_pos c3 ! i + ?sh = ?p" using n3 by (simp add: q_def)
    have "i32_ok ?p" "i32_ok ?sh" using True assms(8) by (simp_all add: across_pre_def)
    with kv_pos_add_spec [OF c3(2) i3, of ?sh] False eq sh3 n3 q occ
    obtain c4 where "kv_pos_add i ?sh c3 = Some (c4, False)" "kv_inv c4" "cells c4 = (cells c3)[i := (?p, {dst})]"
      by auto
    with False show ?thesis by simp
  qed
  then obtain c4 where c4: "(if ?sh \<noteq> 0 then map_option fst (kv_pos_add i ?sh c3) else Some c3) = Some c4" "kv_inv c4"
    "cells c4 = (cells c3)[i := (?p, {dst})]" by blast
  have i4: "i < kv_size c4" using kv_size_upd [OF c3(2) c4(2,3)] i3 by simp
  from kv_ext_set_cells [OF c4(2) i4] obtain c5 where
    c5: "kv_ext_set i (c_ext c0 ! i) c4 = Some c5" "kv_inv c5" "cells c5 = cells c4" by blast
  have "cp_cell_across src dst c0 i c1 = Some c5"
    unfolding cp_cell_across_def kv_reads(2) [OF assms(1,3,5)] kv_reads(4,5,6) [OF assms(1,3) occ(1)]
      bind.bind_lunit pos c2(1) c3(1) c4(1) c5(1) using True by simp
  with c5 c4 c3 c2 True show ?thesis by simp
qed


section \<open>Refinement of the sequence operations\<close>

text \<open>A pass over a stream, as a change of the cache.\<close>

definition abs_pass :: "nat \<Rightarrow> (llama_pos \<times> nat set \<Rightarrow> llama_pos \<times> nat set) \<Rightarrow> cell_contents list \<Rightarrow> cell_contents list" where
  "abs_pass st f cs = cs[st := map f (cs ! st)]"

definition keeps_stream :: "kv_cache \<Rightarrow> nat \<Rightarrow> (llama_pos \<times> nat set \<Rightarrow> llama_pos \<times> nat set) \<Rightarrow> bool" where
  "keeps_stream k st f \<longleftrightarrow>
     (\<forall>e. entry_ok (kc_seq_to_stream k) st e \<longrightarrow> entry_ok (kc_seq_to_stream k) st (f e))"

lemma pass_put:
  assumes "kvc_inv k" "st < hp_n_stream (kc_hp k)" "kv_inv c" "cells c = map f (cells (kc_cells k ! st))"
    and "h \<le> kv_size c" "keeps_stream k st f"
  shows "kvc_inv (kvc_put st c h k) \<and> kvc_contents (kvc_put st c h k) = abs_pass st f (kvc_contents k)"
proof -
  note ok = kvc_invD(7) [OF assms(1,2)]
  have "kv_size c = kv_size (kc_cells k ! st)"
    using length_cells [OF assms(3)] assms(4) length_cells ok by (simp add: stream_ok_def)
  moreover have "\<forall>e\<in>set (cells c). entry_ok (kc_seq_to_stream k) st e"
    using ok assms(6) unfolding assms(4) by (auto simp: stream_ok_def keeps_stream_def)
  ultimately show ?thesis
    using kvc_inv_put [OF assms(1,2,3) _ assms(5)] kvc_invD(2) [OF assms(1)] assms(2,4)
    by (simp add: abs_pass_def kvc_contents_def)
qed

lemma stream_pass:
  assumes "kvc_inv k" "st < hp_n_stream (kc_hp k)" "keeps_stream k st f"
    and step: "\<And>c i h. kv_inv c \<Longrightarrow> i < kv_size c \<Longrightarrow> h \<le> kv_size c \<Longrightarrow> (c_pos c ! i \<noteq> -1 \<longrightarrow> c_seq c ! i \<noteq> {}) \<Longrightarrow>
      \<exists>c' h'. rm i (c, h) = Some (c', h') \<and> h' \<le> kv_size c \<and> kv_inv c' \<and>
        cells c' = (cells c)[i := f (c_pos c ! i, c_seq c ! i)]"
  shows "\<exists>k'. seq_rm_stream rm st k = Some k' \<and> kvc_inv k' \<and> kvc_contents k' = abs_pass st f (kvc_contents k)"
proof -
  note ok = kvc_invD(7) [OF assms(1,2)]
  define c0 where "c0 = kc_cells k ! st"
  have inv0: "kv_inv c0" and head: "kc_heads k ! st \<le> kv_size c0" using ok by (simp_all add: stream_ok_def c0_def)
  have "\<exists>x'. foldM rm [0..<kv_size c0] (c0, kv_size c0) = Some x' \<and> snd x' \<le> kv_size c0 \<and> kv_inv (fst x') \<and>
    kv_size (fst x') = kv_size c0 \<and> cells (fst x') = map (\<lambda>i. f (cells (fst (c0, kv_size c0)) ! i)) [0..<kv_size c0]"
  proof (rule cells_loop [where proj = fst and Pre = "\<lambda>_ _. True" and n = "kv_size c0" and
        J = "\<lambda>x. snd x \<le> kv_size c0" and ?x0.0 = "(c0, kv_size c0)" and f = "\<lambda>_. f"])
    fix i and x :: "kv_cells \<times> nat"
    assume a: "i < kv_size c0" "kv_inv (fst x)" "kv_size (fst x) = kv_size c0"
      "cells (fst x) ! i = cells (fst (c0, kv_size c0)) ! i" "snd x \<le> kv_size c0"
    obtain c h where x: "x = (c, h)" by (cases x)
    have n: "(c_pos c ! i, c_seq c ! i) = cells c0 ! i" using nth_cells [of c i] a by (simp add: x)
    have "cells c0 ! i \<in> set (cells c0)" using a(1) length_cells [OF inv0] by simp
    then have "entry_ok (kc_seq_to_stream k) st (cells c0 ! i)" using ok by (simp add: stream_ok_def c0_def)
    then have "c_pos c ! i \<noteq> -1 \<longrightarrow> c_seq c ! i \<noteq> {}" unfolding n [symmetric] by (simp add: entry_ok_def)
    from step [OF _ _ _ this, of h] a n
    show "\<exists>x'. rm i x = Some x' \<and> snd x' \<le> kv_size c0 \<and> kv_inv (fst x') \<and>
       cells (fst x') = (cells (fst x))[i := f (cells (fst (c0, kv_size c0)) ! i)] \<and>
       (\<forall>j<kv_size c0. i < j \<longrightarrow> True \<longrightarrow> True)" by (fastforce simp: x)
  qed (use inv0 in simp_all)
  then obtain c h where run: "foldM rm [0..<kv_size c0] (c0, kv_size c0) = Some (c, h)" "h \<le> kv_size c0" "kv_inv c"
    "kv_size c = kv_size c0" "cells c = map f (cells c0)" by (auto simp: map_nth_cells [OF inv0])
  have "lower_head h c (kc_heads k ! st) \<le> kv_size c" using run head by (simp add: lower_head_def)
  from pass_put [OF assms(1,2) run(3) run(5) [unfolded c0_def] this assms(3)] run(1) kvc_invD(2,3) [OF assms(1)] assms(2)
  show ?thesis by (simp add: seq_rm_stream_def c0_def)
qed


definition same_config :: "kv_cache \<Rightarrow> kv_cache \<Rightarrow> bool" where
  "same_config k k' \<longleftrightarrow> kc_hp k' = kc_hp k \<and> kc_seq_to_stream k' = kc_seq_to_stream k \<and> kc_other k' = kc_other k"

lemma same_config_simps [simp]:
  "same_config k k" "same_config k (kvc_put st c h k)" "same_config k (k\<lparr>kc_cells := cs\<rparr>)"
  "same_config k (k\<lparr>kc_heads := hs\<rparr>)"
  by (simp_all add: same_config_def kvc_put_def)

lemma seq_rm_stream_config: "seq_rm_stream rm st k = Some k' \<Longrightarrow> same_config k k'"
  by (auto simp: seq_rm_stream_def bind_eq_Some_conv split: prod.splits)

definition valid_seq :: "kv_cache \<Rightarrow> llama_seq_id \<Rightarrow> bool" where
  "valid_seq k s \<longleftrightarrow> 0 \<le> s \<and> nat s < length (kc_seq_to_stream k)"

lemma valid_seqD:
  assumes "kvc_inv k" "valid_seq k s"
  shows "kvc_stream k s = Some (kc_seq_to_stream k ! nat s)" "nat s < LLAMA_MAX_SEQ"
    "kc_seq_to_stream k ! nat s < hp_n_stream (kc_hp k)"
    "at (kc_cells k) (kc_seq_to_stream k ! nat s) = Some (kc_cells k ! (kc_seq_to_stream k ! nat s))"
    "at (kc_heads k) (kc_seq_to_stream k ! nat s) = Some (kc_heads k ! (kc_seq_to_stream k ! nat s))"
    "kv_inv (kc_cells k ! (kc_seq_to_stream k ! nat s))"
proof -
  show st: "kc_seq_to_stream k ! nat s < hp_n_stream (kc_hp k)"
    using kvc_invD(6) [OF assms(1), of "nat s"] assms(2) by (simp add: valid_seq_def)
  show "kvc_stream k s = Some (kc_seq_to_stream k ! nat s)" "nat s < LLAMA_MAX_SEQ"
    using assms(2) kvc_invD(4) [OF assms(1)] by (simp_all add: kvc_stream_def valid_seq_def)
  show "at (kc_cells k) (kc_seq_to_stream k ! nat s) = Some (kc_cells k ! (kc_seq_to_stream k ! nat s))"
    "at (kc_heads k) (kc_seq_to_stream k ! nat s) = Some (kc_heads k ! (kc_seq_to_stream k ! nat s))"
    using st kvc_invD(2,3) [OF assms(1)] by simp_all
  show "kv_inv (kc_cells k ! (kc_seq_to_stream k ! nat s))"
    using kvc_invD(7) [OF assms(1) st] by (simp add: stream_ok_def)
qed

lemma keeps_simps:
  "keeps_stream k st (abs_seq_rm s p0 p1)" "keeps_stream k st (abs_rm p0 p1)" "keeps_stream k st (abs_seq_keep s)"
  "keeps_stream k st (abs_seq_add s p0 p1 d)"
  "dst < length (kc_seq_to_stream k) \<Longrightarrow> kc_seq_to_stream k ! dst = st \<Longrightarrow> keeps_stream k st (abs_seq_cp src dst p0 p1)"
  by (auto simp: keeps_stream_def entry_ok_def split: if_splits)

lemma keeps_div: "0 < d \<Longrightarrow> keeps_stream k st (abs_seq_div s p0 p1 d)"
  by (auto simp: keeps_stream_def entry_ok_def split: if_splits)

lemma kvc_seq_rm_spec:
  assumes "kvc_inv k" "kc_other k = None" "valid_seq k s"
  shows "\<exists>k'. kvc_seq_rm s p0 p1 k = Some k' \<and> kvc_inv k' \<and> same_config k k' \<and>
    kvc_contents k' = abs_pass (kc_seq_to_stream k ! nat s) (abs_seq_rm (nat s) p0 p1) (kvc_contents k)"
proof -
  note v = valid_seqD [OF assms(1,3)]
  from stream_pass [OF assms(1) v(3) keeps_simps(1) seq_rm_cell_step [OF _ _ v(2)]]
  obtain k' where k': "seq_rm_stream (seq_rm_cell (nat s) (range_lo p0) (range_hi p1)) (kc_seq_to_stream k ! nat s) k = Some k'"
    "kvc_inv k'" "kvc_contents k' = abs_pass (kc_seq_to_stream k ! nat s) (abs_seq_rm (nat s) p0 p1) (kvc_contents k)" by blast
  then show ?thesis
    using assms(2,3) v(1) seq_rm_stream_config [OF k'(1)] by (simp add: kvc_seq_rm_def valid_seq_def)
qed

lemma kvc_seq_keep_spec:
  assumes "kvc_inv k" "kc_other k = None" "valid_seq k s"
  shows "\<exists>k'. kvc_seq_keep s k = Some k' \<and> kvc_inv k' \<and> same_config k k' \<and>
    kvc_contents k' = abs_pass (kc_seq_to_stream k ! nat s) (abs_seq_keep (nat s)) (kvc_contents k)"
proof -
  note v = valid_seqD [OF assms(1,3)]
  from stream_pass [OF assms(1) v(3) keeps_simps(3) keep_cell_step [OF _ _ v(2)]]
  obtain k' where k': "seq_rm_stream (keep_cell (nat s)) (kc_seq_to_stream k ! nat s) k = Some k'"
    "kvc_inv k'" "kvc_contents k' = abs_pass (kc_seq_to_stream k ! nat s) (abs_seq_keep (nat s)) (kvc_contents k)" by blast
  then show ?thesis
    using assms(2) v(1) seq_rm_stream_config [OF k'(1)] by (simp add: kvc_seq_keep_def)
qed

lemma length_contents: "kvc_inv k \<Longrightarrow> length (kvc_contents k) = hp_n_stream (kc_hp k)"
  by (simp add: kvc_contents_def kvc_invD(2))

lemma kvc_rm_all_spec:
  assumes "kvc_inv k" "kc_other k = None"
  shows "\<exists>k'. kvc_seq_rm (-1) p0 p1 k = Some k' \<and> kvc_inv k' \<and> same_config k k' \<and>
    kvc_contents k' = map (map (abs_rm p0 p1)) (kvc_contents k)"
proof -
  let ?n = "hp_n_stream (kc_hp k)" and ?f = "abs_rm p0 p1"
  let ?P = "\<lambda>done k'. kvc_inv k' \<and> same_config k k' \<and>
    kvc_contents k' = map (map ?f) (take (length done) (kvc_contents k)) @ drop (length done) (kvc_contents k)"
  have "\<exists>k'. foldM (seq_rm_stream (rm_cell (range_lo p0) (range_hi p1))) [0..<?n] k = Some k' \<and> ?P [0..<?n] k'"
  proof (rule foldM_rule)
    show "?P [] k" using assms by simp
  next
    fix "done" st rest k1
    assume split: "[0..<?n] = done @ st # rest" and P: "?P done k1"
    note st = upt_split [OF split]
    have hp: "kc_hp k1 = kc_hp k" using P by (simp add: same_config_def)
    from stream_pass [of k1 st, OF _ _ keeps_simps(2) rm_cell_step] P st(2) hp obtain k2 where
      k2: "seq_rm_stream (rm_cell (range_lo p0) (range_hi p1)) st k1 = Some k2" "kvc_inv k2"
        "kvc_contents k2 = abs_pass st ?f (kvc_contents k1)" by auto
    have "same_config k k2" using P seq_rm_stream_config [OF k2(1)] by (simp add: same_config_def)
    moreover have "kvc_contents k2 = map (map ?f) (take (Suc st) (kvc_contents k)) @ drop (Suc st) (kvc_contents k)"
    proof -
      have l: "st < length (kvc_contents k)" using st(2) length_contents [OF assms(1)] by simp
      then have d: "drop st (kvc_contents k) = kvc_contents k ! st # drop (Suc st) (kvc_contents k)"
        by (rule Cons_nth_drop_Suc [symmetric])
      show ?thesis
        using P l unfolding k2(3) abs_pass_def st(1) [symmetric]
        by (simp add: d take_Suc_conv_app_nth nth_append list_update_append)
    qed
    ultimately show "\<exists>k2. seq_rm_stream (rm_cell (range_lo p0) (range_hi p1)) st k1 = Some k2 \<and> ?P (done @ [st]) k2"
      using k2 st by auto
  qed
  then show ?thesis using assms(2) length_contents [OF assms(1)] by (auto simp: kvc_seq_rm_def)
qed


lemma nth_cells_eq:
  "kv_inv c \<Longrightarrow> kv_inv c' \<Longrightarrow> i < kv_size c \<Longrightarrow> i < kv_size c' \<Longrightarrow> cells c' ! i = cells c ! i \<Longrightarrow>
   c_pos c' ! i = c_pos c ! i \<and> c_seq c' ! i = c_seq c ! i"
  by (simp add: nth_cells)

lemma nth_cells_upd:
  assumes "kv_inv c" "kv_inv c'" "cells c' = (cells c)[i := v]" "j \<noteq> i" "j < kv_size c"
  shows "c_pos c' ! j = c_pos c ! j \<and> c_seq c' ! j = c_seq c ! j"
  using assms nth_cells_eq [OF assms(1,2,5)] kv_size_upd [OF assms(1-3)] by simp

lemma kvc_seq_cp_spec:
  assumes "kvc_inv k" "kc_other k = None" "valid_seq k src" "valid_seq k dst"
    and st: "kc_seq_to_stream k ! nat dst = kc_seq_to_stream k ! nat src" and "src \<noteq> dst"
    and new: "\<forall>(p, S)\<in>set (kvc_contents k ! (kc_seq_to_stream k ! nat src)).
      in_range_pos p0 p1 p \<and> nat src \<in> S \<longrightarrow> nat dst \<notin> S"
  shows "\<exists>k'. kvc_seq_cp src dst p0 p1 k = Some k' \<and> kvc_inv k' \<and> same_config k k' \<and>
    kvc_contents k' = abs_pass (kc_seq_to_stream k ! nat src) (abs_seq_cp (nat src) (nat dst) p0 p1) (kvc_contents k)"
proof -
  note v = valid_seqD [OF assms(1,3)] and w = valid_seqD [OF assms(1,4)]
  let ?st = "kc_seq_to_stream k ! nat src" and ?f = "abs_seq_cp (nat src) (nat dst) p0 p1"
  define c0 where "c0 = kc_cells k ! ?st"
  let ?Pre = "\<lambda>i c. in_range_pos p0 p1 (c_pos c ! i) \<and> nat src \<in> c_seq c ! i \<longrightarrow> nat dst \<notin> c_seq c ! i"
  have inv0: "kv_inv c0" using v(6) by (simp add: c0_def)
  have cont: "kvc_contents k ! ?st = cells c0"
    using v(3) kvc_invD(2) [OF assms(1)] by (simp add: kvc_contents_def c0_def)
  have pre0: "?Pre i c0" if "i < kv_size c0" for i
  proof -
    have "(c_pos c0 ! i, c_seq c0 ! i) \<in> set (cells c0)"
      using that nth_cells [OF inv0 that] length_cells [OF inv0] by (metis nth_mem)
    with new show ?thesis by (auto simp: cont)
  qed
  have "\<exists>c. foldM (cp_cell (nat src) (nat dst) (range_lo p0) (range_hi p1)) [0..<kv_size c0] c0 = Some c \<and> True \<and>
    kv_inv (id c) \<and> kv_size (id c) = kv_size c0 \<and> cells (id c) = map (\<lambda>i. ?f (cells (id c0) ! i)) [0..<kv_size c0]"
  proof (rule cells_loop [where Pre = ?Pre and f = "\<lambda>_. ?f"])
    fix i and c :: kv_cells
    assume a: "i < kv_size c0" "kv_inv (id c)" "kv_size (id c) = kv_size c0"
      "cells (id c) ! i = cells (id c0) ! i" "?Pre i (id c)"
    then have i: "i < kv_size c" and inv: "kv_inv c" by simp_all
    from cp_cell_step [OF inv i v(2) w(2), of p0 p1] a obtain c' where
      c': "cp_cell (nat src) (nat dst) (range_lo p0) (range_hi p1) i c = Some c'" "kv_inv c'"
        "cells c' = (cells c)[i := ?f (c_pos c ! i, c_seq c ! i)]" by auto
    have eq: "cells (id c0) ! i = (c_pos c ! i, c_seq c ! i)" using nth_cells [OF inv i] a by simp
    have "\<forall>j<kv_size c0. i < j \<longrightarrow> ?Pre j c \<longrightarrow> ?Pre j c'"
      using nth_cells_upd [OF inv c'(2,3)] a(3) by auto
    with c' show "\<exists>c'. cp_cell (nat src) (nat dst) (range_lo p0) (range_hi p1) i c = Some c' \<and> True \<and> kv_inv (id c') \<and>
      cells (id c') = (cells (id c))[i := ?f (cells (id c0) ! i)] \<and>
      (\<forall>j<kv_size c0. i < j \<longrightarrow> ?Pre j (id c) \<longrightarrow> ?Pre j (id c'))"
      unfolding eq by (simp del: abs_seq_cp.simps)
  qed (use inv0 pre0 in simp_all)
  then obtain c where run: "foldM (cp_cell (nat src) (nat dst) (range_lo p0) (range_hi p1)) [0..<kv_size c0] c0 = Some c"
    "kv_inv c" "kv_size c = kv_size c0" "cells c = map ?f (cells c0)" by (auto simp: map_nth_cells [OF inv0])
  have "keeps_stream k ?st ?f" using assms(4) st by (intro keeps_simps) (simp_all add: valid_seq_def)
  moreover have "kc_heads k ! ?st \<le> kv_size c" using kvc_invD(7) [OF assms(1) v(3)] run(3) by (simp add: stream_ok_def c0_def)
  ultimately have "kvc_inv (kvc_put ?st c (kc_heads k ! ?st) k) \<and>
      kvc_contents (kvc_put ?st c (kc_heads k ! ?st) k) = abs_pass ?st ?f (kvc_contents k)"
    using run by (intro pass_put assms(1) v(3)) (simp_all add: c0_def)
  then show ?thesis
    using assms(2,6) v(1,4) w(1) st run(1) by (simp add: kvc_seq_cp_def kvc_put_same_head c0_def)
qed

lemma kvc_seq_add_spec:
  assumes "kvc_inv k" "kc_other k = None" "valid_seq k s" "hp_n_pos_per_embd (kc_hp k) = 1"
    and ok: "\<forall>i<kv_size (kc_cells k ! (kc_seq_to_stream k ! nat s)).
      let c = kc_cells k ! (kc_seq_to_stream k ! nat s) in
        in_range_pos p0 p1 (c_pos c ! i) \<and> nat s \<in> c_seq c ! i \<longrightarrow> i32_ok (c_pos c ! i + d) \<and> i32_ok (c_shift c ! i + d)"
  shows "\<exists>k'. kvc_seq_add s p0 p1 d k = Some k' \<and> kvc_inv k' \<and> same_config k k' \<and>
    kvc_contents k' = abs_pass (kc_seq_to_stream k ! nat s) (abs_seq_add (nat s) p0 p1 d) (kvc_contents k)"
proof -
  note v = valid_seqD [OF assms(1,3)]
  let ?st = "kc_seq_to_stream k ! nat s" and ?f = "abs_seq_add (nat s) p0 p1 d"
  define c0 where "c0 = kc_cells k ! ?st"
  have inv0: "kv_inv c0" using v(6) by (simp add: c0_def)
  have cont: "kvc_contents k ! ?st = cells c0" "?st < length (kvc_contents k)"
    using v(3) kvc_invD(2) [OF assms(1)] by (simp_all add: kvc_contents_def c0_def)
  show ?thesis
  proof (cases "d = 0 \<or> range_lo p0 = range_hi p1")
    case True
    have "map ?f (cells c0) = cells c0"
    proof (rule map_idI)
      fix e assume "e \<in> set (cells c0)"
      obtain p S where e: "e = (p, S)" by (cases e)
      show "?f e = e"
      proof (cases "in_range_pos p0 p1 p")
        case in_r: True
        with True have "d = 0" "0 \<le> p" using range_lo_nonneg [of p0] by (auto simp: in_range_pos_def)
        then show ?thesis by (simp add: e)
      qed (simp add: e)
    qed
    then have "abs_pass ?st ?f (kvc_contents k) = kvc_contents k"
      unfolding abs_pass_def cont(1) by (metis cont(1) list_update_id)
    with True assms(1,2,4) v(1) show ?thesis by (auto simp: kvc_seq_add_def Let_def)
  next
    case False
    let ?Pre = "\<lambda>i c. in_range_pos p0 p1 (c_pos c ! i) \<and> nat s \<in> c_seq c ! i \<longrightarrow>
        i32_ok (c_pos c ! i + d) \<and> i32_ok (c_shift c ! i + d)"
    have "\<exists>x'. foldM (add_cell (nat s) (range_lo p0) (range_hi p1) d) [0..<kv_size c0] (c0, kv_size c0) = Some x' \<and>
      snd x' \<le> kv_size c0 \<and> kv_inv (fst x') \<and> kv_size (fst x') = kv_size c0 \<and>
      cells (fst x') = map (\<lambda>i. ?f (cells (fst (c0, kv_size c0)) ! i)) [0..<kv_size c0]"
    proof (rule cells_loop [where Pre = ?Pre and f = "\<lambda>_. ?f" and J = "\<lambda>x. snd x \<le> kv_size c0"])
      fix i and x :: "kv_cells \<times> nat"
      assume a: "i < kv_size c0" "kv_inv (fst x)" "kv_size (fst x) = kv_size c0"
        "cells (fst x) ! i = cells (fst (c0, kv_size c0)) ! i" "?Pre i (fst x)" "snd x \<le> kv_size c0"
      obtain c h where x: "x = (c, h)" by (cases x)
      from a have i: "i < kv_size c" and inv: "kv_inv c" and h: "h \<le> kv_size c" by (simp_all add: x)
      from add_cell_step [OF inv i v(2) h, of p0 p1 d] a(5) obtain c' h' where
        c': "add_cell (nat s) (range_lo p0) (range_hi p1) d i (c, h) = Some (c', h')" "h' \<le> kv_size c" "kv_inv c'"
          "cells c' = (cells c)[i := ?f (c_pos c ! i, c_seq c ! i)]"
          "\<forall>j. j \<noteq> i \<longrightarrow> c_shift c' ! j = c_shift c ! j" by (auto simp: x)
      have eq: "cells (fst (c0, kv_size c0)) ! i = (c_pos c ! i, c_seq c ! i)" using nth_cells [OF inv i] a by (simp add: x)
      have frame: "\<forall>j<kv_size c0. i < j \<longrightarrow> ?Pre j c \<longrightarrow> ?Pre j c'"
        using nth_cells_upd [OF inv c'(3,4)] c'(5) a(3) by (auto simp: x)
      have "kv_size c = kv_size c0" using a(3) by (simp add: x)
      then show "\<exists>x'. add_cell (nat s) (range_lo p0) (range_hi p1) d i x = Some x' \<and> snd x' \<le> kv_size c0 \<and>
        kv_inv (fst x') \<and> cells (fst x') = (cells (fst x))[i := ?f (cells (fst (c0, kv_size c0)) ! i)] \<and>
        (\<forall>j<kv_size c0. i < j \<longrightarrow> ?Pre j (fst x) \<longrightarrow> ?Pre j (fst x'))"
        unfolding eq x using c'(1-4) frame
        by (intro exI [of _ "(c', h')"] conjI) (simp_all only: fst_conv snd_conv)
    qed (use inv0 ok in \<open>simp_all add: c0_def Let_def\<close>)
    then obtain c h where run:
      "foldM (add_cell (nat s) (range_lo p0) (range_hi p1) d) [0..<kv_size c0] (c0, kv_size c0) = Some (c, h)"
      "h \<le> kv_size c0" "kv_inv c" "kv_size c = kv_size c0" "cells c = map ?f (cells c0)"
      by (auto simp: map_nth_cells [OF inv0])
    have "(if h \<noteq> kv_size c then h else 0) \<le> kv_size c" using run by simp
    from pass_put [OF assms(1) v(3) run(3) run(5) [unfolded c0_def] this keeps_simps(4)] run(1) False
    show ?thesis using assms(2,4) v(1,4) by (simp add: kvc_seq_add_def c0_def Let_def)
  qed
qed


lemma kvc_seq_div_spec:
  assumes "kvc_inv k" "kc_other k = None" "valid_seq k s" "hp_n_pos_per_embd (kc_hp k) = 1" "0 < d"
    and ok: "\<forall>i<kv_size (kc_cells k ! (kc_seq_to_stream k ! nat s)).
      let c = kc_cells k ! (kc_seq_to_stream k ! nat s) in
        in_range_pos p0 p1 (c_pos c ! i) \<and> nat s \<in> c_seq c ! i \<longrightarrow>
        i32_ok (c_pos c ! i div d) \<and> i32_ok (c_shift c ! i + (c_pos c ! i - c_pos c ! i div d))"
  shows "\<exists>k'. kvc_seq_div s p0 p1 d k = Some k' \<and> kvc_inv k' \<and> same_config k k' \<and>
    kvc_contents k' = abs_pass (kc_seq_to_stream k ! nat s) (abs_seq_div (nat s) p0 p1 d) (kvc_contents k)"
proof -
  note v = valid_seqD [OF assms(1,3)]
  let ?st = "kc_seq_to_stream k ! nat s" and ?f = "abs_seq_div (nat s) p0 p1 d"
  define c0 where "c0 = kc_cells k ! ?st"
  have inv0: "kv_inv c0" using v(6) by (simp add: c0_def)
  have cont: "kvc_contents k ! ?st = cells c0" "?st < length (kvc_contents k)"
    using v(3) kvc_invD(2) [OF assms(1)] by (simp_all add: kvc_contents_def c0_def)
  show ?thesis
  proof (cases "d = 1 \<or> range_lo p0 = range_hi p1")
    case True
    have "map ?f (cells c0) = cells c0"
    proof (rule map_idI)
      fix e assume "e \<in> set (cells c0)"
      obtain p S where e: "e = (p, S)" by (cases e)
      show "?f e = e" using True by (auto simp: e in_range_pos_def)
    qed
    then have "abs_pass ?st ?f (kvc_contents k) = kvc_contents k"
      unfolding abs_pass_def cont(1) by (metis cont(1) list_update_id)
    with True assms(1,2,4) v(1) show ?thesis by (auto simp: kvc_seq_div_def Let_def)
  next
    case False
    let ?Pre = "\<lambda>i c. in_range_pos p0 p1 (c_pos c ! i) \<and> nat s \<in> c_seq c ! i \<longrightarrow>
        i32_ok (c_pos c ! i div d) \<and> i32_ok (c_shift c ! i + (c_pos c ! i - c_pos c ! i div d))"
    have "\<exists>c. foldM (div_cell (nat s) (range_lo p0) (range_hi p1) d) [0..<kv_size c0] c0 = Some c \<and> True \<and>
      kv_inv (id c) \<and> kv_size (id c) = kv_size c0 \<and> cells (id c) = map (\<lambda>i. ?f (cells (id c0) ! i)) [0..<kv_size c0]"
    proof (rule cells_loop [where Pre = ?Pre and f = "\<lambda>_. ?f"])
      fix i and c :: kv_cells
      assume a: "i < kv_size c0" "kv_inv (id c)" "kv_size (id c) = kv_size c0"
        "cells (id c) ! i = cells (id c0) ! i" "?Pre i (id c)"
      then have i: "i < kv_size c" and inv: "kv_inv c" by simp_all
      from div_cell_step [OF inv i v(2) assms(5), of p0 p1] a obtain c' where
        c': "div_cell (nat s) (range_lo p0) (range_hi p1) d i c = Some c'" "kv_inv c'"
          "cells c' = (cells c)[i := ?f (c_pos c ! i, c_seq c ! i)]"
          "\<forall>j. j \<noteq> i \<longrightarrow> c_shift c' ! j = c_shift c ! j" by auto
      have eq: "cells (id c0) ! i = (c_pos c ! i, c_seq c ! i)" using nth_cells [OF inv i] a by simp
      have frame: "\<forall>j<kv_size c0. i < j \<longrightarrow> ?Pre j c \<longrightarrow> ?Pre j c'"
        using nth_cells_upd [OF inv c'(2,3)] c'(4) a(3) by auto
      show "\<exists>c'. div_cell (nat s) (range_lo p0) (range_hi p1) d i c = Some c' \<and> True \<and> kv_inv (id c') \<and>
        cells (id c') = (cells (id c))[i := ?f (cells (id c0) ! i)] \<and>
        (\<forall>j<kv_size c0. i < j \<longrightarrow> ?Pre j (id c) \<longrightarrow> ?Pre j (id c'))"
        unfolding eq unfolding id_apply using c'(1-3) frame by (intro exI [of _ c'] conjI TrueI)
    qed (use inv0 ok in \<open>simp_all add: c0_def Let_def\<close>)
    then obtain c where run: "foldM (div_cell (nat s) (range_lo p0) (range_hi p1) d) [0..<kv_size c0] c0 = Some c"
      "kv_inv c" "kv_size c = kv_size c0" "cells c = map ?f (cells c0)" by (auto simp: map_nth_cells [OF inv0])
    have "kc_heads k ! ?st \<le> kv_size c"
      using kvc_invD(7) [OF assms(1) v(3)] run(3) by (simp add: stream_ok_def c0_def)
    with run have "kvc_inv (kvc_put ?st c (kc_heads k ! ?st) k) \<and>
      kvc_contents (kvc_put ?st c (kc_heads k ! ?st) k) = abs_pass ?st ?f (kvc_contents k)"
      by (intro pass_put assms(1) v(3) keeps_div assms(5)) (simp_all add: c0_def)
    then show ?thesis
      using assms(2,4) v(1,4) run(1) False by (simp add: kvc_seq_div_def kvc_put_same_head c0_def Let_def)
  qed
qed

lemma kvc_seq_cp_across_spec:
  assumes "kvc_inv k" "kc_other k = None" "valid_seq k src" "valid_seq k dst"
    and st: "kc_seq_to_stream k ! nat dst \<noteq> kc_seq_to_stream k ! nat src"
    and full: "bound_inside p0 (kv_size (kc_cells k ! 0)) = Some False" "bound_inside p1 (kv_size (kc_cells k ! 0)) = Some False"
    and ok: "\<forall>i<kv_size (kc_cells k ! 0). across_pre (nat src) (kc_cells k ! (kc_seq_to_stream k ! nat src)) i"
  shows "\<exists>k'. kvc_seq_cp src dst p0 p1 k = Some k' \<and> kvc_inv k' \<and> same_config k k' \<and>
    kvc_contents k' = (kvc_contents k)[kc_seq_to_stream k ! nat dst :=
      map (abs_across (nat src) (nat dst)) (kvc_contents k ! (kc_seq_to_stream k ! nat src))] \<and>
    kc_ssrc k' = kc_ssrc k @ [kc_seq_to_stream k ! nat src] \<and> kc_sdst k' = kc_sdst k @ [kc_seq_to_stream k ! nat dst]"
proof -
  note v = valid_seqD [OF assms(1,3)] and w = valid_seqD [OF assms(1,4)]
  let ?s0 = "kc_seq_to_stream k ! nat src" and ?s1 = "kc_seq_to_stream k ! nat dst"
  let ?f = "abs_across (nat src) (nat dst)"
  define c0 c1 where "c0 = kc_cells k ! ?s0" and "c1 = kv_reset (kc_cells k ! ?s1)"
  have ok0: "stream_ok k ?s0" "stream_ok k ?s1" using kvc_invD(7) [OF assms(1)] v(3) w(3) by simp_all
  have inv: "kv_inv c0" "kv_inv c1" using v(6) kv_reset_spec [OF w(6)] by (simp_all add: c0_def c1_def)
  have n: "kv_size c0 = kv_size (kc_cells k ! 0)" "kv_size c1 = kv_size c0"
    using ok0 by (simp_all add: stream_ok_def c0_def c1_def kv_reset_def kv_size_def)
  have empty: "cells c1 ! i = (-1, {})" if "i < kv_size c0" for i
    using kv_reset_spec [OF w(6)] that n ok0 by (simp add: c1_def c0_def stream_ok_def)
  have "\<exists>c. foldM (cp_cell_across (nat src) (nat dst) c0) [0..<kv_size c0] c1 = Some c \<and> True \<and>
    kv_inv (id c) \<and> kv_size (id c) = kv_size c0 \<and> cells (id c) = map (\<lambda>i. ?f (cells c0 ! i)) [0..<kv_size c0]"
  proof (rule cells_loop [where Pre = "\<lambda>_ _. True" and f = "\<lambda>i _. ?f (cells c0 ! i)"])
    fix i and c :: kv_cells
    assume a: "i < kv_size c0" "kv_inv (id c)" "kv_size (id c) = kv_size c0" "cells (id c) ! i = cells (id c1) ! i"
    have "cells c ! i = (-1, {})" "across_pre (nat src) c0 i" using a empty ok n(1) by (simp_all add: c0_def)
    from cp_cell_across_step [OF inv(1) _ a(1) _ v(2) w(2) this] a nth_cells [OF inv(1) a(1)]
    show "\<exists>c'. cp_cell_across (nat src) (nat dst) c0 i c = Some c' \<and> True \<and> kv_inv (id c') \<and>
        cells (id c') = (cells (id c))[i := ?f (cells c0 ! i)] \<and> (\<forall>j<kv_size c0. i < j \<longrightarrow> True \<longrightarrow> True)" by simp
  qed (use inv n in simp_all)
  then obtain c where run: "foldM (cp_cell_across (nat src) (nat dst) c0) [0..<kv_size c0] c1 = Some c"
    "kv_inv c" "kv_size c = kv_size c0" "cells c = map ?f (cells c0)" by (auto simp: map_nth_cells [OF inv(1)])
  have ok1: "\<forall>e\<in>set (cells c). entry_ok (kc_seq_to_stream k) ?s1 e"
    using assms(4) unfolding run(4) by (auto simp: entry_ok_def valid_seq_def split: if_splits)
  have "kv_size c = kv_size (kc_cells k ! ?s1)" "kc_heads k ! ?s0 \<le> kv_size c"
    using run(3) ok0 by (simp_all add: stream_ok_def c0_def)
  from kvc_inv_put [OF assms(1) w(3) run(2) this ok1]
  have put: "kvc_inv (kvc_put ?s1 c (kc_heads k ! ?s0) k)"
    "kvc_contents (kvc_put ?s1 c (kc_heads k ! ?s0) k) = (kvc_contents k)[?s1 := map ?f (cells c0)]"
    by (simp_all add: run(4))
  let ?k = "(kvc_put ?s1 c (kc_heads k ! ?s0) k)\<lparr>kc_ssrc := kc_ssrc k @ [?s0], kc_sdst := kc_sdst k @ [?s1]\<rparr>"
  have size: "kvc_get_size k = Some (kv_size (kc_cells k ! 0))"
  proof -
    have st0: "kc_seq_to_stream k ! 0 < hp_n_stream (kc_hp k)" using kvc_invD(5,6) [OF assms(1)] by simp
    have "kv_size (kc_cells k ! (kc_seq_to_stream k ! 0)) = kv_size (kc_cells k ! 0)"
      using kvc_invD(7) [OF assms(1) st0] unfolding stream_ok_def by blast
    then show ?thesis using st0 kvc_invD(2,5) [OF assms(1)] by (simp add: kvc_get_size_def)
  qed
  have "kvc_seq_cp src dst p0 p1 k = Some ?k"
    unfolding kvc_seq_cp_def assms(2) v(1,4,5) w(1,4) bind.bind_lunit size full
      c0_def [symmetric] c1_def [symmetric] run(1) using st by simp
  moreover have "kvc_inv ?k" using put(1) by (simp only: kvc_inv_copy)
  moreover have "kvc_contents ?k = (kvc_contents k)[?s1 := map ?f (kvc_contents k ! ?s0)]"
    using put(2) v(3) kvc_invD(2) [OF assms(1)] by (simp add: kvc_contents_def c0_def)
  ultimately show ?thesis by (simp add: same_config_def kvc_put_def)
qed

lemma kvc_clear_spec:
  assumes "kvc_inv k"
  shows "kvc_inv (kvc_clear k) \<and> same_config k (kvc_clear k) \<and>
    kvc_contents (kvc_clear k) = map (map (\<lambda>_. (-1, {}))) (kvc_contents k)"
proof -
  have reset: "kv_inv (kv_reset c) \<and> cells (kv_reset c) = map (\<lambda>_. (-1, {})) (cells c) \<and> kv_size (kv_reset c) = kv_size c"
    if "kv_inv c" for c
    using kv_reset_spec [OF that] length_cells [OF that] by (simp add: map_const_replicate kv_reset_def kv_size_def)
  have "stream_ok (kvc_clear k) st" if "st < hp_n_stream (kc_hp k)" for st
    using kvc_invD(7) [OF assms that] kvc_invD(7) [OF assms, of 0] kvc_invD(1,2,3) [OF assms] that
      reset [of "kc_cells k ! st"] reset [of "kc_cells k ! 0"]
    by (auto simp: stream_ok_def kvc_clear_def entry_ok_def)
  moreover have "kvc_contents (kvc_clear k) = map (map (\<lambda>_. (-1, {}))) (kvc_contents k)"
    using kvc_invD(7) [OF assms] kvc_invD(2) [OF assms] reset
    by (auto simp: kvc_contents_def kvc_clear_def in_set_conv_nth stream_ok_def)
  ultimately show ?thesis using assms by (simp add: kvc_inv_def kvc_clear_def same_config_def)
qed

end
