(* ===== verification/KvSlots.thy ===== *)
theory KvSlots
  imports KvCacheOps
begin

text \<open>
  Searching slots: \<open>find_slot\<close> ends, returns distinct usable cells, as many as there are tokens,
  and gives up only when the stream has no such slot (in continuous mode: no run of usable
  cells of that length).
\<close>

section \<open>Usable cells\<close>

definition swa_masked :: "nat \<Rightarrow> swa_type \<Rightarrow> llama_pos \<Rightarrow> llama_pos \<Rightarrow> bool" where
  "swa_masked n t p0 p1 = (case t of
     SWA_NONE \<Rightarrow> False
   | SWA_STANDARD \<Rightarrow> p1 - p0 \<ge> int n
   | SWA_CHUNKED \<Rightarrow> p0 < (p1 div int n) * int n
   | SWA_SYMMETRIC \<Rightarrow> \<bar>p1 - p0\<bar> > int n div 2)"

text \<open>A cell can be taken when it is empty, or holds one sequence whose next token will not see it.\<close>

definition usable :: "kv_hparams \<Rightarrow> kv_cells \<Rightarrow> nat \<Rightarrow> bool" where
  "usable hp c i \<longleftrightarrow> c_pos c ! i = -1 \<or>
     (\<exists>s. c_seq c ! i = {s} \<and> swa_masked (hp_n_swa hp) (hp_swa_type hp) (c_pos c ! i) (Max (seq_positions s (cells c)) + 1))"

definition swa_ok :: "kv_hparams \<Rightarrow> kv_cells \<Rightarrow> bool" where
  "swa_ok hp c \<longleftrightarrow> (hp_swa_type hp = SWA_CHUNKED \<longrightarrow> hp_n_swa hp \<noteq> 0) \<and> (\<forall>p\<in>set (c_pos c). p < INT32_MAX)"

lemma swa_ok_none: "(\<forall>p\<in>set (c_pos c). p < INT32_MAX) \<Longrightarrow> hp_swa_type hp = SWA_NONE \<Longrightarrow> swa_ok hp c"
  by (simp add: swa_ok_def)

lemma is_masked_swa_eq:
  "0 \<le> p0 \<Longrightarrow> 0 \<le> p1 \<Longrightarrow> t = SWA_CHUNKED \<longrightarrow> n \<noteq> 0 \<Longrightarrow> is_masked_swa n t p0 p1 = Some (swa_masked n t p0 p1)"
  by (auto simp: is_masked_swa_def swa_masked_def split: swa_type.split)

lemma can_use_eq:
  assumes "kv_inv c" "swa_ok hp c" "i < kv_size c"
  shows "can_use hp c i = Some (usable hp c i)"
proof (cases "c_pos c ! i = -1")
  case True
  with assms show ?thesis by (simp add: can_use_def kv_reads usable_def)
next
  case False
  note r = kv_reads(3,4,7) [OF assms(1,3)]
  show ?thesis
  proof (cases "\<exists>s. c_seq c ! i = {s}")
    case True
    then obtain s where s: "c_seq c ! i = {s}" by blast
    then have "s \<in> c_seq c ! i" by simp
    note mem = kv_inv_seq_mem [OF assms(1,3) this]
    have "(c_pos c ! i, {s}) \<in> set (cells c)"
      using nth_cells [OF assms(1,3)] s length_cells [OF assms(1)] assms(3) by (metis nth_mem)
    then have p: "c_pos c ! i \<in> seq_positions s (cells c)" by (auto simp: seq_positions_def)
    define m where "m = Max (seq_positions s (cells c))"
    have m: "kv_seq_pos_max s c = Some m" using kv_seq_pos_max_eq [OF assms(1) mem(1)] p by (auto simp: m_def)
    have "m \<in> seq_positions s (cells c)" unfolding m_def using p by (intro Max_in) auto
    then have "m \<in> set (c_pos c)" by (auto simp: seq_positions_def cells_def dest: set_zip_leftD)
    then have "m < INT32_MAX" using assms(2) by (simp add: swa_ok_def)
    moreover have "c_pos c ! i \<le> m" unfolding m_def using p by (intro Max_ge) auto
    ultimately have i: "i32 (m + 1) = Some (m + 1)" "0 \<le> m + 1" using mem(3) by (auto simp: i32_def i32_ok_def INT32_MAX_def)
    have "can_use hp c i = is_masked_swa (hp_n_swa hp) (hp_swa_type hp) (c_pos c ! i) (m + 1)"
      using False r s kv_seq_get_eq [OF assms(1,3) s] m i(1) by (simp add: can_use_def)
    then show ?thesis
      using is_masked_swa_eq [OF mem(3) i(2)] assms(2) False s m_def by (simp add: usable_def swa_ok_def)
  next
    case no: False
    have "card (c_seq c ! i) \<noteq> 1" using no by (auto simp: card_1_singleton_iff)
    with no False r show ?thesis by (simp add: can_use_def usable_def)
  qed
qed

section \<open>The inner loop\<close>

lemma slot_test_any:
  assumes "\<forall>i. h \<le> i \<and> i < h + n \<longrightarrow> can_use hp c i = Some (u i)"
  shows "slot_test hp c False n (h, t, js) = Some (h + n, t + n, js @ filter u [h..<h + n])"
  using assms
proof (induction n arbitrary: h t "js")
  case (Suc n)
  from Suc.prems have u: "can_use hp c h = Some (u h)" by simp
  from Suc.IH [of "Suc h"] Suc.prems
  have "slot_test hp c False n (Suc h, t', js') = Some (Suc h + n, t' + n, js' @ filter u [Suc h..<Suc h + n])" for t' js'
    by simp
  moreover have "[h..<h + Suc n] = h # [Suc h..<Suc h + n]" by (simp add: upt_conv_Cons)
  ultimately show ?case using u by simp
qed simp

lemma slot_test_cont:
  assumes "\<forall>i. h \<le> i \<and> i < h + n \<longrightarrow> can_use hp c i = Some (u i)"
  shows "(\<forall>i. h \<le> i \<and> i < h + n \<longrightarrow> u i) \<and> slot_test hp c True n (h, t, js) = Some (h + n, t + n, js @ [h..<h + n]) \<or>
    (\<exists>f. h \<le> f \<and> f < h + n \<and> \<not> u f \<and>
      slot_test hp c True n (h, t, js) = Some (Suc f, t + (Suc f - h), js @ [h..<f]))"
  using assms
proof (induction n arbitrary: h t "js")
  case (Suc n)
  from Suc.prems have u: "can_use hp c h = Some (u h)" by simp
  show ?case
  proof (cases "u h")
    case False
    with u show ?thesis by (intro disjI2 exI [of _ h]) simp
  next
    case True
    have r: "[h..<h + Suc n] = h # [Suc h..<Suc h + n]" by (simp add: upt_conv_Cons)
    from Suc.IH [of "Suc h" "Suc t" "js @ [h]"] Suc.prems consider
      (all) "\<forall>i. Suc h \<le> i \<and> i < Suc h + n \<longrightarrow> u i"
        "slot_test hp c True n (Suc h, Suc t, js @ [h]) = Some (Suc h + n, Suc t + n, (js @ [h]) @ [Suc h..<Suc h + n])"
    | (stop) f where "Suc h \<le> f" "f < Suc h + n" "\<not> u f"
        "slot_test hp c True n (Suc h, Suc t, js @ [h]) = Some (Suc f, Suc t + (Suc f - Suc h), (js @ [h]) @ [Suc h..<f])"
      by auto
    then show ?thesis
    proof cases
      case all
      then have "\<forall>i. h \<le> i \<and> i < h + Suc n \<longrightarrow> u i" using True by (metis Suc_leI add_Suc_shift le_neq_implies_less)
      with all(2) True u r show ?thesis by simp
    next
      case stop
      then have "[h..<f] = h # [Suc h..<f]" by (simp add: upt_conv_Cons)
      with stop True u show ?thesis by (intro disjI2 exI [of _ f]) simp
    qed
  qed
qed auto

section \<open>One token at a time\<close>

lemma slot_loop_step:
  "slot_loop hp c cont n h t is =
     (let m = (if cont then n else 1) in
      if h + m > kv_size c then slot_loop hp c cont n 0 (t + (kv_size c - h)) is
      else Option.bind (slot_test hp c cont m (h, t, is)) (\<lambda>(h, t, is).
        if length is = n then Some (Some is)
        else if t \<ge> kv_size c then Some None
        else slot_loop hp c cont n h t (if cont then [] else is)))"
  by (subst slot_loop.simps) simp

text \<open>The order of the visits from head \<open>h0\<close>: up to the end, then from the start.\<close>

definition visits :: "nat \<Rightarrow> nat \<Rightarrow> nat list" where
  "visits n h0 = [h0..<n] @ [0..<h0]"

definition slot_result :: "(nat \<Rightarrow> bool) \<Rightarrow> nat \<Rightarrow> nat list \<Rightarrow> nat list option" where
  "slot_result u n order = (let r = filter u order in if n \<le> length r then Some (take n r) else None)"

lemma slot_result_step:
  assumes "order = vis @ i # rest" "length (filter u vis) < n"
  shows "length (filter u (vis @ [i])) = n \<Longrightarrow> slot_result u n order = Some (filter u (vis @ [i]))"
    and "length (filter u (vis @ [i])) \<noteq> n \<Longrightarrow> rest = [] \<Longrightarrow> slot_result u n order = None"
    and "length (filter u (vis @ [i])) \<noteq> n \<Longrightarrow> length (filter u (vis @ [i])) < n"
  using assms by (auto simp: slot_result_def Let_def split: if_splits)

lemma slot_loop_any_wrapped:
  assumes can: "\<forall>i<kv_size c. can_use hp c i = Some (u i)"
    and "h < h0" "h0 \<le> kv_size c" "length (filter u ([h0..<kv_size c] @ [0..<h])) < n"
  shows "slot_loop hp c False n h (kv_size c - h0 + h) (filter u ([h0..<kv_size c] @ [0..<h])) =
    Some (slot_result u n (visits (kv_size c) h0))"
  using assms(2-4)
proof (induction "h0 - h" arbitrary: h rule: less_induct)
  case less
  let ?vis = "[h0..<kv_size c] @ [0..<h]"
  have order: "visits (kv_size c) h0 = ?vis @ h # [Suc h..<h0]"
    using less.prems(1) upt_add_eq_append [of 0 h "h0 - h"] by (simp add: visits_def upt_conv_Cons)
  note step = slot_result_step [OF order less.prems(3)]
  have "slot_test hp c False 1 (h, kv_size c - h0 + h, filter u ?vis) =
      Some (Suc h, kv_size c - h0 + Suc h, filter u (?vis @ [h]))"
    using slot_test_any [of h 1 hp c u] can less.prems by simp
  moreover have "?vis @ [h] = [h0..<kv_size c] @ [0..<Suc h]" by simp
  moreover have "kv_size c - h0 + Suc h \<ge> kv_size c \<longleftrightarrow> Suc h = h0" using less.prems by linarith
  moreover have "Suc h \<noteq> h0 \<Longrightarrow> length (filter u (?vis @ [h])) \<noteq> n \<Longrightarrow>
      slot_loop hp c False n (Suc h) (kv_size c - h0 + Suc h) (filter u (?vis @ [h])) =
      Some (slot_result u n (visits (kv_size c) h0))"
    using less.hyps [of "Suc h"] less.prems step(3) by simp
  ultimately show ?case
    using step less.prems by (subst slot_loop_step) (auto simp: Let_def)
qed

lemma slot_loop_any:
  assumes can: "\<forall>i<kv_size c. can_use hp c i = Some (u i)"
    and "h0 \<le> h" "h \<le> kv_size c" "h - h0 < kv_size c" "length (filter u [h0..<h]) < n"
  shows "slot_loop hp c False n h (h - h0) (filter u [h0..<h]) = Some (slot_result u n (visits (kv_size c) h0))"
  using assms(2-5)
proof (induction "kv_size c - h" arbitrary: h rule: less_induct)
  case less
  show ?case
  proof (cases "h = kv_size c")
    case True
    with less.prems have "0 < h0" by simp
    with slot_loop_any_wrapped [OF can, of 0 h0 n] less.prems True show ?thesis
      by (subst slot_loop_step) (simp add: Let_def)
  next
    case False
    with less.prems have h: "h < kv_size c" by simp
    have order: "visits (kv_size c) h0 = [h0..<h] @ h # ([Suc h..<kv_size c] @ [0..<h0])"
      using less.prems h upt_add_eq_append [of h0 h "kv_size c - h"] by (simp add: visits_def upt_conv_Cons)
    note step = slot_result_step [OF order less.prems(4)]
    have app: "[h0..<h] @ [h] = [h0..<Suc h]" using less.prems by simp
    have "slot_test hp c False 1 (h, h - h0, filter u [h0..<h]) =
        Some (Suc h, Suc h - h0, filter u ([h0..<h] @ [h]))"
      using slot_test_any [of h 1 hp c u] can less.prems h by (simp add: Suc_diff_le)
    moreover have "Suc h - h0 \<ge> kv_size c \<longleftrightarrow> h0 = 0 \<and> Suc h = kv_size c" using less.prems h by linarith
    moreover have "Suc h - h0 < kv_size c \<Longrightarrow> length (filter u ([h0..<h] @ [h])) \<noteq> n \<Longrightarrow>
        slot_loop hp c False n (Suc h) (Suc h - h0) (filter u ([h0..<h] @ [h])) =
        Some (slot_result u n (visits (kv_size c) h0))"
      using less.hyps [of "Suc h"] less.prems h step(3) by (simp add: app del: upt_Suc)
    ultimately show ?thesis
      using step h by (subst slot_loop_step) (auto simp: Let_def not_le)
  qed
qed


section \<open>A run of consecutive cells\<close>

definition free_run :: "(nat \<Rightarrow> bool) \<Rightarrow> nat \<Rightarrow> nat \<Rightarrow> nat \<Rightarrow> bool" where
  "free_run u sz n a \<longleftrightarrow> a + n \<le> sz \<and> (\<forall>i. a \<le> i \<and> i < a + n \<longrightarrow> u i)"

definition cont_result :: "(nat \<Rightarrow> bool) \<Rightarrow> nat \<Rightarrow> nat \<Rightarrow> nat list option \<Rightarrow> bool" where
  "cont_result u sz n r \<longleftrightarrow> (case r of
     None \<Rightarrow> \<forall>a. \<not> free_run u sz n a
   | Some idxs \<Rightarrow> \<exists>a. idxs = [a..<a + n] \<and> free_run u sz n a)"

text \<open>One attempt from \<open>h\<close>: a run starts there, or no run starts up to the cell that failed.\<close>

lemma slot_attempt:
  assumes can: "\<forall>i<kv_size c. can_use hp c i = Some (u i)" and "0 < n" "h + n \<le> kv_size c"
  shows "slot_loop hp c True n h t [] = Some (Some [h..<h + n]) \<and> free_run u (kv_size c) n h \<or>
    (\<exists>f. h \<le> f \<and> f < h + n \<and> (\<forall>a. h \<le> a \<and> a \<le> f \<longrightarrow> \<not> free_run u (kv_size c) n a) \<and>
      slot_loop hp c True n h t [] =
        (if t + (Suc f - h) \<ge> kv_size c then Some None else slot_loop hp c True n (Suc f) (t + (Suc f - h)) []))"
proof -
  have "\<forall>i. h \<le> i \<and> i < h + n \<longrightarrow> can_use hp c i = Some (u i)" using can assms(3) by simp
  from slot_test_cont [OF this, where t = t and js = "[]"] consider
    (all) "\<forall>i. h \<le> i \<and> i < h + n \<longrightarrow> u i" "slot_test hp c True n (h, t, []) = Some (h + n, t + n, [h..<h + n])"
  | (stop) f where "h \<le> f" "f < h + n" "\<not> u f" "slot_test hp c True n (h, t, []) = Some (Suc f, t + (Suc f - h), [h..<f])"
    by auto
  then show ?thesis
  proof cases
    case all
    then have "slot_loop hp c True n h t [] = Some (Some [h..<h + n])"
      using assms(3) by (subst slot_loop_step) (simp add: Let_def)
    with all(1) assms(3) show ?thesis by (simp add: free_run_def)
  next
    case stop
    have "\<forall>a. h \<le> a \<and> a \<le> f \<longrightarrow> \<not> free_run u (kv_size c) n a"
    proof (intro allI impI notI)
      fix a assume "h \<le> a \<and> a \<le> f" "free_run u (kv_size c) n a"
      then have "\<And>i. a \<le> i \<Longrightarrow> i < a + n \<Longrightarrow> u i" by (simp add: free_run_def)
      from this [of f] stop(1,2,3) \<open>h \<le> a \<and> a \<le> f\<close> show False by simp
    qed
    moreover have "slot_loop hp c True n h t [] =
        (if t + (Suc f - h) \<ge> kv_size c then Some None else slot_loop hp c True n (Suc f) (t + (Suc f - h)) [])"
    proof -
      have "length [h..<f] \<noteq> n" using stop(1,2) by simp
      with assms(3) stop(4) show ?thesis by (subst slot_loop_step) (simp add: Let_def)
    qed
    ultimately show ?thesis using stop(1,2) by blast
  qed
qed

lemma slot_loop_cont_wrapped:
  assumes can: "\<forall>i<kv_size c. can_use hp c i = Some (u i)" and n: "0 < n" "n \<le> kv_size c"
    and "h < h0" "h0 \<le> kv_size c"
    and high: "\<forall>a\<ge>h0. \<not> free_run u (kv_size c) n a" and "\<forall>a<h. \<not> free_run u (kv_size c) n a"
  shows "\<exists>r. slot_loop hp c True n h (kv_size c - h0 + h) [] = Some r \<and> cont_result u (kv_size c) n r"
  using assms(4,5,7)
proof (induction "h0 - h" arbitrary: h rule: less_induct)
  case less
  show ?case
  proof (cases "h + n \<le> kv_size c")
    case True
    from slot_attempt [OF can n(1) True, of "kv_size c - h0 + h"] show ?thesis
    proof (elim disjE exE conjE)
      assume "slot_loop hp c True n h (kv_size c - h0 + h) [] = Some (Some [h..<h + n])" "free_run u (kv_size c) n h"
      then show ?thesis by (auto simp: cont_result_def)
    next
      fix f assume f: "h \<le> f" "f < h + n" "\<forall>a. h \<le> a \<and> a \<le> f \<longrightarrow> \<not> free_run u (kv_size c) n a"
        "slot_loop hp c True n h (kv_size c - h0 + h) [] =
          (if kv_size c - h0 + h + (Suc f - h) \<ge> kv_size c then Some None
           else slot_loop hp c True n (Suc f) (kv_size c - h0 + h + (Suc f - h)) [])"
      have low: "\<forall>a<Suc f. \<not> free_run u (kv_size c) n a" using less.prems(3) f(3) by (metis less_Suc_eq_le not_le)
      have t: "kv_size c - h0 + h + (Suc f - h) = kv_size c - h0 + Suc f" using f(1) by simp
      show ?thesis
      proof (cases "Suc f < h0")
        case True
        then have "\<not> kv_size c - h0 + Suc f \<ge> kv_size c" using less.prems by linarith
        with f(1,4) t less.hyps [of "Suc f"] True less.prems low show ?thesis by simp
      next
        case False
        then have "kv_size c - h0 + Suc f \<ge> kv_size c" using less.prems by linarith
        moreover have "\<forall>a. \<not> free_run u (kv_size c) n a" using low high False by (metis not_le order.trans not_less)
        ultimately show ?thesis using f(4) t by (simp add: cont_result_def)
      qed
    qed
  next
    case False
    then have "0 < h" using n by simp
    then have no0: "\<not> free_run u (kv_size c) n 0" using less.prems(3) by simp
    have none: "\<forall>a. \<not> free_run u (kv_size c) n a"
    proof
      fix a show "\<not> free_run u (kv_size c) n a"
        using less.prems(3) False by (cases "a < h") (auto simp: free_run_def)
    qed
    let ?t = "kv_size c - h0 + h + (kv_size c - h)"
    have "slot_loop hp c True n h (kv_size c - h0 + h) [] = slot_loop hp c True n 0 ?t []"
      using False by (subst slot_loop_step) (simp add: Let_def)
    moreover have "?t \<ge> kv_size c" using less.prems by linarith
    with slot_attempt [OF can n(1), of 0 ?t] n none have "slot_loop hp c True n 0 ?t [] = Some None" by auto
    ultimately show ?thesis using none by (simp add: cont_result_def)
  qed
qed

lemma slot_loop_cont:
  assumes can: "\<forall>i<kv_size c. can_use hp c i = Some (u i)" and n: "0 < n" "n \<le> kv_size c"
    and "h0 \<le> h" "h \<le> kv_size c" "h - h0 < kv_size c" "\<forall>a. h0 \<le> a \<and> a < h \<longrightarrow> \<not> free_run u (kv_size c) n a"
  shows "\<exists>r. slot_loop hp c True n h (h - h0) [] = Some r \<and> cont_result u (kv_size c) n r"
  using assms(4-7)
proof (induction "kv_size c - h" arbitrary: h rule: less_induct)
  case less
  show ?case
  proof (cases "h + n \<le> kv_size c")
    case True
    from slot_attempt [OF can n(1) True, of "h - h0"] show ?thesis
    proof (elim disjE exE conjE)
      assume "slot_loop hp c True n h (h - h0) [] = Some (Some [h..<h + n])" "free_run u (kv_size c) n h"
      then show ?thesis by (auto simp: cont_result_def)
    next
      fix f assume f: "h \<le> f" "f < h + n" "\<forall>a. h \<le> a \<and> a \<le> f \<longrightarrow> \<not> free_run u (kv_size c) n a"
        "slot_loop hp c True n h (h - h0) [] =
          (if h - h0 + (Suc f - h) \<ge> kv_size c then Some None
           else slot_loop hp c True n (Suc f) (h - h0 + (Suc f - h)) [])"
      have low: "\<forall>a. h0 \<le> a \<and> a < Suc f \<longrightarrow> \<not> free_run u (kv_size c) n a"
        using less.prems(4) f(3) by (metis less_Suc_eq_le not_le)
      have t: "h - h0 + (Suc f - h) = Suc f - h0" using f(1) less.prems(1) by simp
      have sf: "Suc f \<le> kv_size c" using f(2) True by simp
      show ?thesis
      proof (cases "Suc f - h0 < kv_size c")
        case True
        then have "\<not> Suc f - h0 \<ge> kv_size c" by simp
        with f(1,4) t less.hyps [of "Suc f"] True sf less.prems low show ?thesis by simp
      next
        case False
        with sf have "h0 = 0" "Suc f = kv_size c" using n by linarith+
        then have "\<forall>a. \<not> free_run u (kv_size c) n a" using low n by (auto simp: free_run_def)
        with False f(4) t show ?thesis by (simp add: cont_result_def)
      qed
    qed
  next
    case False
    have high: "\<forall>a\<ge>h0. \<not> free_run u (kv_size c) n a"
    proof (intro allI impI)
      fix a assume "h0 \<le> a"
      then show "\<not> free_run u (kv_size c) n a"
        using less.prems(4) False by (cases "a < h") (auto simp: free_run_def)
    qed
    have wrap: "slot_loop hp c True n h (h - h0) [] = slot_loop hp c True n 0 (kv_size c - h0) []"
      using False less.prems by (subst slot_loop_step) (simp add: Let_def)
    show ?thesis
    proof (cases "h0 = 0")
      case False
      with slot_loop_cont_wrapped [OF can n, of 0 h0] high less.prems wrap show ?thesis by simp
    next
      case True
      from slot_attempt [OF can n(1), of 0 "kv_size c"] n high True
      have "slot_loop hp c True n 0 (kv_size c) [] = Some None" by auto
      with wrap high True show ?thesis by (simp add: cont_result_def)
    qed
  qed
qed

section \<open>A slot in one stream\<close>

definition slot_spec :: "kv_hparams \<Rightarrow> kv_cells \<Rightarrow> bool \<Rightarrow> nat \<Rightarrow> nat list option \<Rightarrow> bool" where
  "slot_spec hp c cont n r \<longleftrightarrow> (case r of
     Some idxs \<Rightarrow> length idxs = n \<and> distinct idxs \<and> (\<forall>i\<in>set idxs. i < kv_size c \<and> usable hp c i) \<and>
       (cont \<longrightarrow> (\<exists>a. idxs = [a..<a + n]))
   | None \<Rightarrow> if cont then \<forall>a. \<not> free_run (usable hp c) (kv_size c) n a
       else card {i. i < kv_size c \<and> usable hp c i} < n)"

lemma slot_in_stream_correct:
  assumes "kv_inv c" "swa_ok hp c" "head \<le> kv_size c" "0 < n"
  shows "\<exists>r. slot_in_stream hp c head cont n = Some r \<and> slot_spec hp c cont n r"
proof (cases "n > kv_size c")
  case True
  have "card {i. i < kv_size c \<and> usable hp c i} \<le> card {..<kv_size c}" by (intro card_mono) auto
  with True show ?thesis by (auto simp: slot_in_stream_def Let_def slot_spec_def free_run_def)
next
  case False
  define h where "h = (if head > kv_get_used c + 2 * n then 0 else head)"
  have h: "h \<le> kv_size c" using assms(3) by (simp add: h_def)
  have can: "\<forall>i<kv_size c. can_use hp c i = Some (usable hp c i)" using can_use_eq [OF assms(1,2)] by blast
  have run: "slot_in_stream hp c head cont n = slot_loop hp c cont n h 0 []"
    using False by (simp add: slot_in_stream_def h_def Let_def)
  show ?thesis
  proof (cases cont)
    case True
    have triv: "\<forall>a. h \<le> a \<and> a < h \<longrightarrow> \<not> free_run (usable hp c) (kv_size c) n a" by auto
    from slot_loop_cont [OF can assms(4) _ order_refl h _ triv] False assms(4) obtain r where
      r: "slot_loop hp c True n h 0 [] = Some r" "cont_result (usable hp c) (kv_size c) n r" by auto
    then show ?thesis using run True
      by (auto simp: slot_spec_def cont_result_def free_run_def split: option.splits)
  next
    case any: False
    let ?o = "visits (kv_size c) h"
    have "slot_loop hp c False n h 0 [] = Some (slot_result (usable hp c) n ?o)"
      using slot_loop_any [OF can order_refl h, of n] False assms(4) by simp
    moreover have "slot_spec hp c False n (slot_result (usable hp c) n ?o)"
    proof (cases "n \<le> length (filter (usable hp c) ?o)")
      case True
      define r where "r = filter (usable hp c) ?o"
      have "distinct r" "\<forall>i\<in>set r. i < kv_size c \<and> usable hp c i"
        using h by (auto simp: r_def visits_def)
      moreover have "slot_result (usable hp c) n ?o = Some (take n r)" "n \<le> length r"
        using True by (simp_all add: slot_result_def r_def Let_def)
      ultimately show ?thesis by (simp add: slot_spec_def) (meson in_set_takeD)
    next
      case False
      have "distinct (filter (usable hp c) ?o)" by (auto simp: visits_def)
      moreover have "set (filter (usable hp c) ?o) = {i. i < kv_size c \<and> usable hp c i}" using h by (auto simp: visits_def)
      ultimately have "card {i. i < kv_size c \<and> usable hp c i} = length (filter (usable hp c) ?o)"
        using distinct_card by metis
      with False show ?thesis by (simp add: slot_spec_def slot_result_def Let_def)
    qed
    ultimately show ?thesis using run any by simp
  qed
qed


section \<open>Slots in all streams of a micro-batch\<close>

definition slot_ns :: "kv_cache \<Rightarrow> ubatch \<Rightarrow> nat" where
  "slot_ns k u = (if hp_n_stream (kc_hp k) > 1 then ub_n_seqs_unq u else 1)"

definition slot_nt :: "kv_cache \<Rightarrow> ubatch \<Rightarrow> nat" where
  "slot_nt k u = ub_n_tokens u div slot_ns k u"

definition slot_st :: "kv_cache \<Rightarrow> ubatch \<Rightarrow> nat \<Rightarrow> nat" where
  "slot_st k u s = kc_seq_to_stream k ! nat (ub_seq_id_unq u ! s)"

text \<open>What the cache asks of a micro-batch: with several streams, one block of tokens per sequence.\<close>

definition ub_fits :: "kv_cache \<Rightarrow> ubatch \<Rightarrow> bool" where
  "ub_fits k u \<longleftrightarrow> 0 < slot_ns k u \<and> 0 < slot_nt k u \<and> ub_n_tokens u = slot_ns k u * slot_nt k u \<and>
     slot_ns k u \<le> length (ub_seq_id_unq u) \<and> (\<forall>s < slot_ns k u. valid_seq k (ub_seq_id_unq u ! s)) \<and>
     (hp_n_stream (kc_hp k) > 1 \<longrightarrow> (\<forall>s < slot_ns k u. s * slot_nt k u < length (ub_n_seq_id u) \<and>
        s * slot_nt k u < length (ub_seq_id u) \<and> ub_n_seq_id u ! (s * slot_nt k u) = 1 \<and>
        ub_seq_id u ! (s * slot_nt k u) = [ub_seq_id_unq u ! s]))"

definition slots_found :: "kv_cache \<Rightarrow> ubatch \<Rightarrow> bool \<Rightarrow> slot_info \<Rightarrow> bool" where
  "slots_found k u cont si \<longleftrightarrow> length (si_strm si) = slot_ns k u \<and> length (si_idxs si) = slot_ns k u \<and>
     (\<forall>s < slot_ns k u. si_strm si ! s = slot_st k u s \<and>
        slot_spec (kc_hp k) (kc_cells k ! slot_st k u s) cont (slot_nt k u) (Some (si_idxs si ! s)))"

definition no_slot :: "kv_cache \<Rightarrow> ubatch \<Rightarrow> bool \<Rightarrow> bool" where
  "no_slot k u cont \<longleftrightarrow>
     (\<exists>s < slot_ns k u. slot_spec (kc_hp k) (kc_cells k ! slot_st k u s) cont (slot_nt k u) None)"

definition cache_swa_ok :: "kv_cache \<Rightarrow> bool" where
  "cache_swa_ok k \<longleftrightarrow> (\<forall>c\<in>set (kc_cells k). swa_ok (kc_hp k) c)"

lemma find_slot_seqs_correct:
  assumes "kvc_inv k" "cache_swa_ok k" "ub_fits k u" "a \<le> slot_ns k u"
    and "length (si_strm res) = slot_ns k u" "length (si_idxs res) = slot_ns k u"
    and "\<forall>s<a. si_strm res ! s = slot_st k u s \<and>
        slot_spec (kc_hp k) (kc_cells k ! slot_st k u s) cont (slot_nt k u) (Some (si_idxs res ! s))"
  shows "\<exists>si. find_slot_seqs k u cont (slot_nt k u) [a..<slot_ns k u] res = Some si \<and>
    (si = slot_none \<and> no_slot k u cont \<or> slots_found k u cont si)"
  using assms(4-7)
proof (induction "slot_ns k u - a" arbitrary: a res rule: less_induct)
  case less
  show ?case
  proof (cases "a = slot_ns k u")
    case True
    with less.prems show ?thesis by (simp add: slots_found_def)
  next
    case False
    with less.prems(1) have a: "a < slot_ns k u" by simp
    define id where "id = ub_seq_id_unq u ! a"
    have fits: "valid_seq k id" "a < length (ub_seq_id_unq u)" "0 < slot_nt k u"
      using assms(3) a by (auto simp: ub_fits_def id_def)
    have multi: "a * slot_nt k u < length (ub_n_seq_id u)" "a * slot_nt k u < length (ub_seq_id u)"
      "ub_n_seq_id u ! (a * slot_nt k u) = 1" "ub_seq_id u ! (a * slot_nt k u) = [id]" if "hp_n_stream (kc_hp k) > 1"
      using assms(3) a that by (auto simp: ub_fits_def id_def)
    note v = valid_seqD [OF assms(1) fits(1)]
    have st: "kc_seq_to_stream k ! nat id = slot_st k u a" by (simp add: slot_st_def id_def)
    note ok = kvc_invD(7) [OF assms(1) v(3), unfolded st]
    have "swa_ok (kc_hp k) (kc_cells k ! slot_st k u a)"
      using assms(2) v(3) kvc_invD(2) [OF assms(1)] by (simp add: cache_swa_ok_def st)
    moreover have "kv_inv (kc_cells k ! slot_st k u a)" "kc_heads k ! slot_st k u a \<le> kv_size (kc_cells k ! slot_st k u a)"
      using ok unfolding stream_ok_def by blast+
    ultimately obtain r where
      r: "slot_in_stream (kc_hp k) (kc_cells k ! slot_st k u a) (kc_heads k ! slot_st k u a) cont (slot_nt k u) = Some r"
        "slot_spec (kc_hp k) (kc_cells k ! slot_st k u a) cont (slot_nt k u) r"
      using slot_in_stream_correct fits(3) by blast
    have ids: "at (ub_seq_id_unq u) a = Some id" "0 \<le> id" "at (kc_seq_to_stream k) (nat id) = Some (slot_st k u a)"
      using fits by (simp_all add: id_def slot_st_def valid_seq_def)
    have check: "(if hp_n_stream (kc_hp k) > 1 then do {
        n \<leftarrow> at (ub_n_seq_id u) (a * slot_nt k u);
        assert_that (n = 1);
        ids \<leftarrow> at (ub_seq_id u) (a * slot_nt k u);
        id0 \<leftarrow> at ids 0;
        assert_that (id0 = id)
      } else Some ()) = Some ()" using multi by simp
    have run: "find_slot_seqs k u cont (slot_nt k u) [a..<slot_ns k u] res =
      (case r of
        None \<Rightarrow> Some slot_none
      | Some idxs \<Rightarrow> if length idxs < slot_nt k u then Some slot_none
          else find_slot_seqs k u cont (slot_nt k u) [Suc a..<slot_ns k u]
            (res\<lparr>si_s0 := min (si_s0 res) (slot_st k u a), si_s1 := max (si_s1 res) (slot_st k u a),
                si_strm := (si_strm res)[a := slot_st k u a], si_idxs := (si_idxs res)[a := idxs]\<rparr>))"
      unfolding upt_conv_Cons [OF a] find_slot_seqs.simps ids(1) bind.bind_lunit check
      using ids(2,3) v(4,5) r(1) by (simp add: st)
    show ?thesis
    proof (cases r)
      case None
      with run r(2) a show ?thesis by (auto simp: no_slot_def)
    next
      case (Some idxs)
      then have "length idxs = slot_nt k u" using r(2) by (simp add: slot_spec_def)
      with run Some show ?thesis
        using less.hyps [of "Suc a"] a less.prems r(2)
        by (auto simp: less_Suc_eq nth_list_update)
    qed
  qed
qed

lemma find_slot_correct:
  assumes "kvc_inv k" "cache_swa_ok k" "ub_fits k u"
  shows "\<exists>si. find_slot k u cont = Some si \<and>
    (si = slot_none \<and> no_slot k u cont \<or> \<not> si_empty si \<and> slots_found k u cont si)"
proof -
  define res where "res = \<lparr>si_s0 = LLAMA_MAX_SEQ, si_s1 = 0, si_strm = replicate (slot_ns k u) 0,
    si_idxs = replicate (slot_ns k u) []\<rparr>"
  from find_slot_seqs_correct [OF assms, of 0 res cont] obtain si where
    si: "find_slot_seqs k u cont (slot_nt k u) [0..<slot_ns k u] res = Some si"
      "si = slot_none \<and> no_slot k u cont \<or> slots_found k u cont si" by (auto simp: res_def)
  have "find_slot k u cont = find_slot_seqs k u cont (slot_nt k u) [0..<slot_ns k u] res"
  proof (cases "hp_n_stream (kc_hp k) > 1")
    case True
    have "ub_n_seqs_unq u dvd ub_n_tokens u"
      using assms(3) True unfolding ub_fits_def slot_ns_def by (simp only: if_True dvd_def) blast
    then have "ub_n_tokens u mod ub_n_seqs_unq u = 0" by (simp only: mod_eq_0_iff_dvd)
    with assms(3) True show ?thesis
      by (simp add: find_slot_def res_def slot_nt_def slot_ns_def ub_fits_def)
  qed (simp add: find_slot_def res_def slot_nt_def slot_ns_def)
  moreover have "slots_found k u cont si \<Longrightarrow> \<not> si_empty si"
    using assms(3) by (auto simp: slots_found_def si_empty_def ub_fits_def)
  ultimately show ?thesis using si by auto
qed

end
