(* ===== verification/KvPlace.thy ===== *)
theory KvPlace
  imports KvSlots
begin

text \<open>
  \<open>apply_ubatch\<close>: the tokens of a micro-batch are written to the cells of its slot, older
  positions of a sequence that lost cells to it are purged, and the heads move behind the slot.
\<close>

section \<open>One token\<close>

definition tok :: "ubatch \<Rightarrow> nat \<Rightarrow> llama_pos \<times> nat set" where
  "tok u i = (ub_pos u ! i, nat ` set (ub_seq_id u ! i))"

text \<open>The arrays of a micro-batch cover its tokens.\<close>

definition ub_data_ok :: "ubatch \<Rightarrow> bool" where
  "ub_data_ok u \<longleftrightarrow>
     length (ub_pos u) = ub_n_tokens u * max 1 (ub_n_pos u) \<and> length (ub_n_seq_id u) = ub_n_tokens u \<and>
     length (ub_seq_id u) = ub_n_tokens u \<and> (\<forall>ts. ub_token u = Some ts \<longrightarrow> length ts = ub_n_tokens u) \<and>
     (\<forall>i<ub_n_tokens u. 0 \<le> ub_pos u ! i \<and> ub_n_seq_id u ! i = length (ub_seq_id u ! i) \<and>
        ub_seq_id u ! i \<noteq> [] \<and> distinct (ub_seq_id u ! i) \<and> (\<forall>s\<in>set (ub_seq_id u ! i). 0 \<le> s \<and> nat s < LLAMA_MAX_SEQ))"

lemma ub_pos_length: "ub_data_ok u \<Longrightarrow> ub_n_tokens u \<le> length (ub_pos u)"
  using mult_le_mono2 [of 1 "max 1 (ub_n_pos u)" "ub_n_tokens u"] by (simp add: ub_data_ok_def)

lemma ub_ext_total:
  assumes "ub_data_ok u" "i < ub_n_tokens u"
  shows "\<exists>e. ub_ext hp u i = Some e"
proof -
  have len: "length (ub_pos u) = ub_n_tokens u * max 1 (ub_n_pos u)" using assms(1) by (simp add: ub_data_ok_def)
  have pos: "i + ub_n_tokens u * 2 < length (ub_pos u)" "i + ub_n_tokens u < length (ub_pos u)" if "ub_is_pos_2d u"
  proof -
    have "3 \<le> max 1 (ub_n_pos u)" using that by (simp add: ub_is_pos_2d_def)
    then have "ub_n_tokens u * 3 \<le> length (ub_pos u)" unfolding len by (rule mult_le_mono2)
    with assms(2) show "i + ub_n_tokens u * 2 < length (ub_pos u)" "i + ub_n_tokens u < length (ub_pos u)" by simp_all
  qed
  have tokens: "i < length ts" if "ub_token u = Some ts" for ts using assms that by (simp add: ub_data_ok_def)
  show ?thesis
    using pos tokens by (cases "ub_token u"; cases "ub_is_pos_2d u"; simp add: ub_ext_def)
qed

lemma kv_seq_add_ext: "kv_seq_add i s c = Some c' \<Longrightarrow> c_ext c' = c_ext c"
  by (auto simp: kv_seq_add_def seq_pos_inc_def Let_def split: if_splits)

lemma kv_pos_set_ext: "kv_pos_set i p c = Some c' \<Longrightarrow> c_ext c' = c_ext c"
  by (auto simp: kv_pos_set_def split: if_splits)

lemma kv_ext_set_frame: "kv_ext_set i e c = Some c' \<Longrightarrow> c_shift c' = c_shift c \<and> (\<forall>j. j \<noteq> i \<longrightarrow> c_ext c' ! j = c_ext c ! j)"
  by (auto simp: kv_ext_set_def split: if_splits)

lemma add_seqs:
  assumes "kv_inv c" "idx < kv_size c" "cells c ! idx = (p, {})" "p \<noteq> -1" "distinct ids"
    and ids: "\<forall>s\<in>set ids. 0 \<le> s \<and> nat s < LLAMA_MAX_SEQ"
  shows "\<exists>c'. foldM (\<lambda>s c. do { id \<leftarrow> at ids s; assert_that (0 \<le> id); kv_seq_add idx (nat id) c }) [0..<length ids] c = Some c' \<and>
    kv_inv c' \<and> cells c' = (cells c)[idx := (p, nat ` set ids)] \<and> c_shift c' = c_shift c \<and> c_ext c' = c_ext c"
proof -
  let ?P = "\<lambda>done c'. kv_inv c' \<and> cells c' = (cells c)[idx := (p, nat ` set (take (length done) ids))] \<and>
    c_shift c' = c_shift c \<and> c_ext c' = c_ext c"
  have "\<exists>c'. foldM (\<lambda>s c. do { id \<leftarrow> at ids s; assert_that (0 \<le> id); kv_seq_add idx (nat id) c }) [0..<length ids] c = Some c' \<and>
    ?P [0..<length ids] c'"
  proof (rule foldM_rule)
    show "?P [] c" using assms(1,3) by (simp add: list_update_same)
  next
    fix "done" j rest c1
    assume split: "[0..<length ids] = done @ j # rest" and P: "?P done c1"
    note j = upt_split [OF split]
    have inv1: "kv_inv c1" and cells1: "cells c1 = (cells c)[idx := (p, nat ` set (take j ids))]" using P j by simp_all
    have i1: "idx < kv_size c1" using kv_size_upd [OF assms(1) inv1 cells1] assms(2) by simp
    have n1: "c_pos c1 ! idx = p" "c_seq c1 ! idx = nat ` set (take j ids)"
      using nth_cells [OF inv1 i1] cells1 assms(2) length_cells [OF assms(1)] by simp_all
    have "ids ! j \<notin> set (take j ids)" using assms(5) j(2) by (metis distinct_take id_take_nth_drop not_distinct_conv_prefix)
    moreover have "0 \<le> ids ! j" "nat (ids ! j) < LLAMA_MAX_SEQ" using ids j(2) by simp_all
    moreover have "\<forall>s\<in>set (take j ids). 0 \<le> s" using ids by (auto dest: in_set_takeD)
    ultimately have new: "nat (ids ! j) \<notin> c_seq c1 ! idx" "0 \<le> ids ! j" "nat (ids ! j) < LLAMA_MAX_SEQ"
      unfolding n1 by (auto simp: nat_eq_iff2 eq_nat_nat_iff)
    from kv_seq_add_spec [OF inv1 i1 _ new(3,1)] n1 assms(4) obtain c2 where
      c2: "kv_seq_add idx (nat (ids ! j)) c1 = Some c2" "kv_inv c2"
        "cells c2 = (cells c1)[idx := (p, insert (nat (ids ! j)) (nat ` set (take j ids)))]" by auto
    have "nat ` set (take (Suc j) ids) = insert (nat (ids ! j)) (nat ` set (take j ids))"
      using j(2) by (simp add: take_Suc_conv_app_nth)
    then have "?P (done @ [j]) c2"
      using c2 cells1 P j kv_seq_add_shift [OF c2(1)] kv_seq_add_ext [OF c2(1)] by simp
    then show "\<exists>c2. (do { id \<leftarrow> at ids j; assert_that (0 \<le> id); kv_seq_add idx (nat id) c1 }) = Some c2 \<and> ?P (done @ [j]) c2"
      using c2(1) new(2) j(2) by simp
  qed
  then show ?thesis by simp
qed


text \<open>A cell that may be taken: empty, or held by one sequence.\<close>

definition takeable :: "llama_pos \<times> nat set \<Rightarrow> bool" where
  "takeable e \<longleftrightarrow> fst e = -1 \<or> (\<exists>s. snd e = {s})"

definition note_max :: "llama_pos \<times> nat set \<Rightarrow> llama_pos list \<Rightarrow> llama_pos list" where
  "note_max e rm = (if fst e = -1 then rm else let s = the_elem (snd e) in rm[s := max (rm ! s) (fst e)])"

lemma kv_rm_ext: "kv_rm i c = Some c' \<Longrightarrow> \<forall>j. j \<noteq> i \<longrightarrow> c_ext c' ! j = c_ext c ! j"
  by (auto simp: kv_rm_def clear_cell_def bind_eq_Some_conv split: if_splits dest!: seq_pos_rm_frame)

lemma place_token_spec:
  assumes "kv_inv c" "idx < kv_size c" "takeable (cells c ! idx)" "ub_data_ok u" "i < ub_n_tokens u"
    and "length rm = LLAMA_MAX_SEQ"
  shows "\<exists>c'. place_token hp u i idx (c, rm) = Some (c', note_max (cells c ! idx) rm) \<and> kv_inv c' \<and>
    cells c' = (cells c)[idx := tok u i] \<and> (fst (cells c ! idx) = -1 \<longrightarrow> c_shift c' = c_shift c) \<and>
    (\<forall>j. j \<noteq> idx \<longrightarrow> c_ext c' ! j = c_ext c ! j)"
proof -
  have e: "cells c ! idx = (c_pos c ! idx, c_seq c ! idx)" by (rule nth_cells [OF assms(1,2)])
  have dpos: "i < length (ub_pos u)" using ub_pos_length [OF assms(4)] assms(5) by simp
  have data: "i < length (ub_seq_id u)" "i < length (ub_n_seq_id u)" "0 \<le> ub_pos u ! i"
    "ub_n_seq_id u ! i = length (ub_seq_id u ! i)" "distinct (ub_seq_id u ! i)"
    "\<forall>s\<in>set (ub_seq_id u ! i). 0 \<le> s \<and> nat s < LLAMA_MAX_SEQ"
    using assms(4,5) by (auto simp: ub_data_ok_def)
  obtain x where x: "ub_ext hp u i = Some x" using ub_ext_total [OF assms(4,5)] by blast
  let ?clean = "if \<not> c_pos c ! idx = -1 then do {
         n \<leftarrow> kv_seq_count idx c;
         assert_that (n = 1);
         seq_id \<leftarrow> kv_seq_get idx c;
         pos \<leftarrow> kv_pos_get idx c;
         old \<leftarrow> at rm (nat seq_id);
         c \<leftarrow> kv_rm idx c;
         Some (c, rm[nat seq_id := max old pos])
       } else Some (c, rm)"
  have "\<exists>c1. ?clean = Some (c1, note_max (cells c ! idx) rm) \<and> kv_inv c1 \<and> cells c1 = (cells c)[idx := (-1, {})] \<and>
    (c_pos c ! idx = -1 \<longrightarrow> c_shift c1 = c_shift c) \<and> (\<forall>j. j \<noteq> idx \<longrightarrow> c_ext c1 ! j = c_ext c ! j)"
  proof (cases "c_pos c ! idx = -1")
    case True
    then have "c_seq c ! idx = {}" using kv_inv_cell [OF assms(1,2)] by (simp add: cell_ok_def)
    then have "(cells c)[idx := (-1, {})] = cells c" using True e by (metis list_update_id)
    with True assms(1) e show ?thesis by (simp add: note_max_def)
  next
    case False
    then obtain s where s: "c_seq c ! idx = {s}" using assms(3) by (auto simp: takeable_def e)
    then have s256: "s < LLAMA_MAX_SEQ" using kv_inv_seq_mem(1) [OF assms(1,2), of s] by simp
    from kv_rm_spec [OF assms(1,2) False] obtain c1 where
      c1: "kv_rm idx c = Some c1" "kv_inv c1" "cells c1 = (cells c)[idx := (-1, {})]" by blast
    have "?clean = Some (c1, note_max (cells c ! idx) rm)"
      using False s s256 assms(6) kv_reads [OF assms(1,2)] kv_seq_get_eq [OF assms(1,2) s] c1(1)
      by (simp add: note_max_def e)
    with False c1 kv_rm_ext [OF c1(1)] show ?thesis by blast
  qed
  then obtain c1 where c1: "?clean = Some (c1, note_max (cells c ! idx) rm)" "kv_inv c1"
    "cells c1 = (cells c)[idx := (-1, {})]" "c_pos c ! idx = -1 \<longrightarrow> c_shift c1 = c_shift c"
    "\<forall>j. j \<noteq> idx \<longrightarrow> c_ext c1 ! j = c_ext c ! j" by blast
  have i1: "idx < kv_size c1" using kv_size_upd [OF assms(1) c1(2,3)] assms(2) by simp
  have "c_pos c1 ! idx = -1" using nth_cells [OF c1(2) i1] c1(3) assms(2) length_cells [OF assms(1)] by simp
  from kv_pos_set_spec [OF c1(2) i1 this data(3)] obtain c2 where
    c2: "kv_pos_set idx (ub_pos u ! i) c1 = Some c2" "kv_inv c2" "cells c2 = (cells c1)[idx := (ub_pos u ! i, {})]" by blast
  have i2: "idx < kv_size c2" using kv_size_upd [OF c1(2) c2(2,3)] i1 by simp
  have "\<exists>c3. (case x of None \<Rightarrow> Some c2 | Some y \<Rightarrow> kv_ext_set idx y c2) = Some c3 \<and> kv_inv c3 \<and> cells c3 = cells c2 \<and>
    c_shift c3 = c_shift c2 \<and> (\<forall>j. j \<noteq> idx \<longrightarrow> c_ext c3 ! j = c_ext c2 ! j)"
  proof (cases x)
    case (Some y)
    from kv_ext_set_cells [OF c2(2) i2, of y] obtain c3 where "kv_ext_set idx y c2 = Some c3" "kv_inv c3" "cells c3 = cells c2" by blast
    with Some kv_ext_set_frame [of idx y c2 c3] show ?thesis by simp
  qed (use c2 in simp)
  then obtain c3 where c3: "(case x of None \<Rightarrow> Some c2 | Some y \<Rightarrow> kv_ext_set idx y c2) = Some c3" "kv_inv c3"
    "cells c3 = cells c2" "c_shift c3 = c_shift c2" "\<forall>j. j \<noteq> idx \<longrightarrow> c_ext c3 ! j = c_ext c2 ! j" by blast
  have i3: "idx < kv_size c3" using i2 c3(3) length_cells [OF c3(2)] length_cells [OF c2(2)] by simp
  have n3: "cells c3 ! idx = (ub_pos u ! i, {})" using c3(3) c2(3) i1 length_cells [OF c1(2)] by simp
  have p3: "ub_pos u ! i \<noteq> -1" using data(3) by simp
  from add_seqs [OF c3(2) i3 n3 p3 data(5,6)] obtain c4 where
    c4: "foldM (\<lambda>s c. do { id \<leftarrow> at (ub_seq_id u ! i) s; assert_that (0 \<le> id); kv_seq_add idx (nat id) c })
        [0..<length (ub_seq_id u ! i)] c3 = Some c4"
      "kv_inv c4" "cells c4 = (cells c3)[idx := (ub_pos u ! i, nat ` set (ub_seq_id u ! i))]"
      "c_shift c4 = c_shift c3" "c_ext c4 = c_ext c3" by blast
  have "place_token hp u i idx (c, rm) = Some (c4, note_max (cells c ! idx) rm)"
    unfolding place_token_def split_conv kv_reads(3) [OF assms(1,2)] bind.bind_lunit c1(1)
    using dpos data c2(1) x c3(1) c4(1) by simp
  moreover have "cells c4 = (cells c)[idx := tok u i]" using c4(3) c3(3) c2(3) c1(3) by (simp add: tok_def)
  moreover have "fst (cells c ! idx) = -1 \<longrightarrow> c_shift c4 = c_shift c"
    using c4(4) c3(4) kv_pos_set_shift [OF c2(1)] c1(4) e by simp
  moreover have "\<forall>j. j \<noteq> idx \<longrightarrow> c_ext c4 ! j = c_ext c ! j"
    using c4(5) c3(5) kv_pos_set_ext [OF c2(1)] c1(5) by simp
  ultimately show ?thesis using c4(2) by blast
qed


section \<open>The tokens of a stream\<close>

definition put_toks :: "ubatch \<Rightarrow> nat \<Rightarrow> nat list \<Rightarrow> cell_contents \<Rightarrow> cell_contents" where
  "put_toks u b idxs cs = fold (\<lambda>ii cs. cs[idxs ! ii := tok u (b + ii)]) [0..<length idxs] cs"

lemma put_toks_snoc: "put_toks u b (idxs @ [i]) cs = (put_toks u b idxs cs)[i := tok u (b + length idxs)]"
proof -
  have "fold (\<lambda>ii cs. cs[(idxs @ [i]) ! ii := tok u (b + ii)]) [0..<length idxs] cs =
      fold (\<lambda>ii cs. cs[idxs ! ii := tok u (b + ii)]) [0..<length idxs] cs"
    by (rule List.fold_cong) (simp_all add: nth_append)
  then show ?thesis by (simp add: put_toks_def)
qed

lemma length_put_toks [simp]: "length (put_toks u b idxs cs) = length cs"
proof (induction idxs rule: rev_induct)
  case (snoc i idxs)
  then show ?case by (simp add: put_toks_snoc)
qed (simp add: put_toks_def)

lemma put_toks_other: "j \<notin> set idxs \<Longrightarrow> put_toks u b idxs cs ! j = cs ! j"
proof (induction idxs rule: rev_induct)
  case (snoc i idxs)
  then show ?case by (simp add: put_toks_snoc)
qed (simp add: put_toks_def)

lemma put_toks_nth:
  "distinct idxs \<Longrightarrow> \<forall>i\<in>set idxs. i < length cs \<Longrightarrow> ii < length idxs \<Longrightarrow> put_toks u b idxs cs ! (idxs ! ii) = tok u (b + ii)"
proof (induction idxs rule: rev_induct)
  case (snoc i idxs)
  show ?case
  proof (cases "ii = length idxs")
    case True
    with snoc.prems show ?thesis by (simp add: put_toks_snoc)
  next
    case False
    with snoc.prems have ii: "ii < length idxs" by simp
    then have "idxs ! ii \<noteq> i" using snoc.prems(1) by auto
    with snoc ii show ?thesis by (simp add: put_toks_snoc nth_append)
  qed
qed simp

text \<open>The record of overwritten positions.\<close>

definition rm_tracks :: "(llama_pos \<times> nat set) list \<Rightarrow> llama_pos list \<Rightarrow> bool" where
  "rm_tracks es rm \<longleftrightarrow> length rm = LLAMA_MAX_SEQ \<and>
     (\<forall>s<LLAMA_MAX_SEQ. (\<forall>p. (p, {s}) \<in> set es \<longrightarrow> p \<le> rm ! s) \<and>
        (rm ! s = -1 \<or> 0 \<le> rm ! s \<and> (rm ! s, {s}) \<in> set es))"

definition entry_wf :: "llama_pos \<times> nat set \<Rightarrow> bool" where
  "entry_wf e \<longleftrightarrow> cell_ok (fst e) (snd e) 0"

lemma rm_tracks_note:
  assumes "rm_tracks es rm" "takeable e" "entry_wf e"
  shows "rm_tracks (es @ [e]) (note_max e rm)"
proof (cases "fst e = -1")
  case True
  with assms(3) have "e = (-1, {})" by (cases e) (auto simp: entry_wf_def cell_ok_def)
  with assms(1) show ?thesis by (auto simp: rm_tracks_def note_max_def)
next
  case False
  with assms(2) obtain p s where e: "e = (p, {s})" by (cases e) (auto simp: takeable_def)
  with False assms(3) have p: "0 \<le> p" "s < LLAMA_MAX_SEQ" by (auto simp: entry_wf_def cell_ok_def)
  have rm: "note_max e rm = rm[s := max (rm ! s) p]" using False by (simp add: e note_max_def)
  show ?thesis
    unfolding rm rm_tracks_def
  proof (intro conjI allI impI)
    show "length (rm[s := max (rm ! s) p]) = LLAMA_MAX_SEQ" using assms(1) by (simp add: rm_tracks_def)
    fix t assume t: "t < LLAMA_MAX_SEQ"
    have old: "\<And>q. (q, {t}) \<in> set es \<Longrightarrow> q \<le> rm ! t" "rm ! t = -1 \<or> 0 \<le> rm ! t \<and> (rm ! t, {t}) \<in> set es"
      "length rm = LLAMA_MAX_SEQ" using assms(1) t by (auto simp: rm_tracks_def)
    show "rm[s := max (rm ! s) p] ! t = -1 \<or> 0 \<le> rm[s := max (rm ! s) p] ! t \<and>
       (rm[s := max (rm ! s) p] ! t, {t}) \<in> set (es @ [e])"
      using old p t by (cases "t = s") (auto simp: e max_def)
    fix q assume "(q, {t}) \<in> set (es @ [e])"
    then show "q \<le> rm[s := max (rm ! s) p] ! t"
      using old p t by (cases "t = s") (auto simp: e le_max_iff_disj)
  qed
qed

lemma kv_entry_wf: "kv_inv c \<Longrightarrow> i < kv_size c \<Longrightarrow> entry_wf (cells c ! i)"
  using kv_inv_cell [of c i] by (auto simp: entry_wf_def nth_cells cell_ok_def)

definition stream_slot_ok :: "ubatch \<Rightarrow> kv_cells \<Rightarrow> nat \<Rightarrow> nat list \<Rightarrow> bool" where
  "stream_slot_ok u c b idxs \<longleftrightarrow> distinct idxs \<and> b + length idxs \<le> ub_n_tokens u \<and>
     (\<forall>i\<in>set idxs. i < kv_size c \<and> takeable (cells c ! i))"

lemma place_stream_spec:
  assumes "ub_data_ok u" "s < length (si_strm si)" "s < length (si_idxs si)" "si_strm si ! s < length (kc_cells k)"
    and c: "c = kc_cells k ! (si_strm si ! s)" "kv_inv c" and idxs: "idxs = si_idxs si ! s" "length idxs = n"
    and ok: "stream_slot_ok u c (s * n) idxs" and rm: "rm_tracks es rm"
  shows "\<exists>c' rm'. place_stream u si n s (k, rm) = Some (k\<lparr>kc_cells := (kc_cells k)[si_strm si ! s := c']\<rparr>, rm') \<and>
    kv_inv c' \<and> cells c' = put_toks u (s * n) idxs (cells c) \<and> rm_tracks (es @ map (\<lambda>i. cells c ! i) idxs) rm' \<and>
    ((\<forall>i\<in>set idxs. fst (cells c ! i) = -1) \<longrightarrow> c_shift c' = c_shift c) \<and>
    (\<forall>j. j \<notin> set idxs \<longrightarrow> c_ext c' ! j = c_ext c ! j)"
proof -
  let ?step = "\<lambda>ii x. do { idx \<leftarrow> at idxs ii; place_token (kc_hp k) u (s * n + ii) idx x }"
  let ?P = "\<lambda>done x. kv_inv (fst x) \<and> kv_size (fst x) = kv_size c \<and>
    cells (fst x) = put_toks u (s * n) (take (length done) idxs) (cells c) \<and>
    rm_tracks (es @ map (\<lambda>i. cells c ! i) (take (length done) idxs)) (snd x) \<and>
    ((\<forall>i\<in>set idxs. fst (cells c ! i) = -1) \<longrightarrow> c_shift (fst x) = c_shift c) \<and>
    (\<forall>j. j \<notin> set idxs \<longrightarrow> c_ext (fst x) ! j = c_ext c ! j)"
  have "\<exists>x. foldM ?step [0..<n] (c, rm) = Some x \<and> ?P [0..<n] x"
  proof (rule foldM_rule)
    show "?P [] (c, rm)" using c rm by (simp add: put_toks_def)
  next
    fix "done" ii rest x
    assume split: "[0..<n] = done @ ii # rest" and P: "?P done x"
    note ii = upt_split [OF split]
    obtain c1 rm1 where x: "x = (c1, rm1)" by (cases x)
    define idx where "idx = idxs ! ii"
    have idx: "idx < kv_size c" "takeable (cells c ! idx)" "idx \<in> set idxs" "idx \<notin> set (take ii idxs)" "s * n + ii < ub_n_tokens u"
    proof -
      show "idx \<in> set idxs" using ii idxs by (simp add: idx_def)
      with ok show "idx < kv_size c" "takeable (cells c ! idx)" by (auto simp: stream_slot_ok_def)
      show "idx \<notin> set (take ii idxs)"
        using ok ii idxs(2) unfolding idx_def stream_slot_ok_def
        by (metis distinct_take id_take_nth_drop not_distinct_conv_prefix)
      show "s * n + ii < ub_n_tokens u" using ok ii idxs(2) by (simp add: stream_slot_ok_def)
    qed
    have same: "cells c1 ! idx = cells c ! idx" using P ii idx(4) by (simp add: x put_toks_other)
    from place_token_spec [of c1 idx u "s * n + ii" rm1 "kc_hp k"] P idx same assms(1) obtain c2 where
      c2: "place_token (kc_hp k) u (s * n + ii) idx (c1, rm1) = Some (c2, note_max (cells c ! idx) rm1)" "kv_inv c2"
        "cells c2 = (cells c1)[idx := tok u (s * n + ii)]" "fst (cells c ! idx) = -1 \<longrightarrow> c_shift c2 = c_shift c1"
        "\<forall>j. j \<noteq> idx \<longrightarrow> c_ext c2 ! j = c_ext c1 ! j" by (auto simp: x rm_tracks_def)
    have inv1: "kv_inv c1" using P by (simp add: x)
    have take: "take (Suc ii) idxs = take ii idxs @ [idx]" using ii idxs by (simp add: idx_def take_Suc_conv_app_nth)
    have "kv_size c2 = kv_size c" using kv_size_upd [OF inv1 c2(2,3)] P by (simp add: x)
    moreover have "cells c2 = put_toks u (s * n) (take (Suc ii) idxs) (cells c)"
      using c2(3) P idxs(2) ii(2) unfolding take put_toks_snoc x ii(1) [symmetric] by simp
    moreover have "rm_tracks (es @ map (\<lambda>i. cells c ! i) (take (Suc ii) idxs)) (note_max (cells c ! idx) rm1)"
      using rm_tracks_note [OF _ idx(2) kv_entry_wf [OF c(2) idx(1)], of "es @ map (\<lambda>i. cells c ! i) (take ii idxs)" rm1] P
      unfolding take x ii(1) [symmetric] by simp
    moreover have "\<forall>j. j \<notin> set idxs \<longrightarrow> c_ext c2 ! j = c_ext c ! j" using c2(5) P idx(3) by (auto simp: x)
    moreover have "(\<forall>i\<in>set idxs. fst (cells c ! i) = -1) \<longrightarrow> c_shift c2 = c_shift c" using c2(4) P idx(3) by (auto simp: x)
    ultimately have "?P (done @ [ii]) (c2, note_max (cells c ! idx) rm1)" using c2(2) ii by simp
    moreover have "?step ii x = Some (c2, note_max (cells c ! idx) rm1)"
      using c2(1) ii idxs(2) by (simp add: x idx_def)
    ultimately show "\<exists>x'. ?step ii x = Some x' \<and> ?P (done @ [ii]) x'" by blast
  qed
  then obtain c' rm' where run: "foldM ?step [0..<n] (c, rm) = Some (c', rm')" "?P [0..<n] (c', rm')" by auto
  have "place_stream u si n s (k, rm) = Some (k\<lparr>kc_cells := (kc_cells k)[si_strm si ! s := c']\<rparr>, rm')"
    using run(1) assms(2,3,4) idxs(1) c(1) by (simp add: place_stream_def)
  with run(2) idxs(2) show ?thesis by auto
qed


section \<open>All streams\<close>

definition slots_ok :: "kv_cache \<Rightarrow> ubatch \<Rightarrow> slot_info \<Rightarrow> nat \<Rightarrow> bool" where
  "slots_ok k u si nt \<longleftrightarrow> si_strm si \<noteq> [] \<and> length (si_idxs si) = length (si_strm si) \<and> distinct (si_strm si) \<and>
     0 < nt \<and> ub_n_tokens u = length (si_strm si) * nt \<and>
     (\<forall>s<length (si_strm si). si_strm si ! s < hp_n_stream (kc_hp k) \<and> length (si_idxs si ! s) = nt \<and>
        stream_slot_ok u (kc_cells k ! (si_strm si ! s)) (s * nt) (si_idxs si ! s) \<and>
        (\<forall>ii<nt. \<forall>id\<in>set (ub_seq_id u ! (s * nt + ii)). nat id < length (kc_seq_to_stream k) \<and>
           kc_seq_to_stream k ! nat id = si_strm si ! s))"

definition taken :: "kv_cache \<Rightarrow> slot_info \<Rightarrow> nat \<Rightarrow> (llama_pos \<times> nat set) list" where
  \<comment> \<open>what the cells of the first \<open>m\<close> streams of the slot held\<close>
  "taken k si m = concat (map (\<lambda>s. map (\<lambda>i. cells (kc_cells k ! (si_strm si ! s)) ! i) (si_idxs si ! s)) [0..<m])"

lemma put_toks_entries:
  assumes "e \<in> set (put_toks u b idxs cs)"
  shows "e \<in> set cs \<or> (\<exists>ii<length idxs. e = tok u (b + ii))"
  using assms
proof (induction idxs rule: rev_induct)
  case (snoc i idxs)
  from snoc.prems have "e = tok u (b + length idxs) \<or> e \<in> set (put_toks u b idxs cs)"
    by (auto simp: put_toks_snoc dest!: set_update_subset_insert [THEN subsetD])
  with snoc.IH show ?case by (auto simp: less_Suc_eq)
qed (simp add: put_toks_def)

lemma place_all:
  assumes inv: "kvc_inv k" and data: "ub_data_ok u" and ok: "slots_ok k u si nt"
  shows "\<exists>k' rm. foldM (place_stream u si nt) [0..<length (si_strm si)] (k, replicate LLAMA_MAX_SEQ (-1)) = Some (k', rm) \<and>
    kvc_inv k' \<and> same_config k k' \<and> kc_heads k' = kc_heads k \<and> rm_tracks (taken k si (length (si_strm si))) rm \<and>
    (\<forall>st<hp_n_stream (kc_hp k). st \<notin> set (si_strm si) \<longrightarrow> kc_cells k' ! st = kc_cells k ! st) \<and>
    (\<forall>s<length (si_strm si). cells (kc_cells k' ! (si_strm si ! s)) =
        put_toks u (s * nt) (si_idxs si ! s) (cells (kc_cells k ! (si_strm si ! s))) \<and>
      ((\<forall>i\<in>set (si_idxs si ! s). fst (cells (kc_cells k ! (si_strm si ! s)) ! i) = -1) \<longrightarrow>
        c_shift (kc_cells k' ! (si_strm si ! s)) = c_shift (kc_cells k ! (si_strm si ! s))) \<and>
      (\<forall>j. j \<notin> set (si_idxs si ! s) \<longrightarrow> c_ext (kc_cells k' ! (si_strm si ! s)) ! j = c_ext (kc_cells k ! (si_strm si ! s)) ! j))"
proof -
  let ?ns = "length (si_strm si)"
  let ?st = "\<lambda>s. si_strm si ! s" and ?c = "\<lambda>s. kc_cells k ! (si_strm si ! s)"
  let ?R = "\<lambda>s c'. cells c' = put_toks u (s * nt) (si_idxs si ! s) (cells (?c s)) \<and>
      ((\<forall>i\<in>set (si_idxs si ! s). fst (cells (?c s) ! i) = -1) \<longrightarrow> c_shift c' = c_shift (?c s)) \<and>
      (\<forall>j. j \<notin> set (si_idxs si ! s) \<longrightarrow> c_ext c' ! j = c_ext (?c s) ! j)"
  let ?P = "\<lambda>done x. kvc_inv (fst x) \<and> same_config k (fst x) \<and> kc_heads (fst x) = kc_heads k \<and>
    rm_tracks (taken k si (length done)) (snd x) \<and>
    (\<forall>st<hp_n_stream (kc_hp k). st \<notin> set (take (length done) (si_strm si)) \<longrightarrow> kc_cells (fst x) ! st = kc_cells k ! st) \<and>
    (\<forall>s<length done. ?R s (kc_cells (fst x) ! ?st s))"
  have sok: "?st s < hp_n_stream (kc_hp k)" "length (si_idxs si ! s) = nt" "stream_slot_ok u (?c s) (s * nt) (si_idxs si ! s)"
    "\<forall>ii<nt. \<forall>id\<in>set (ub_seq_id u ! (s * nt + ii)). nat id < length (kc_seq_to_stream k) \<and>
           kc_seq_to_stream k ! nat id = ?st s" if "s < ?ns" for s
    using ok that by (simp_all add: slots_ok_def)
  have "\<exists>x. foldM (place_stream u si nt) [0..<?ns] (k, replicate LLAMA_MAX_SEQ (-1)) = Some x \<and> ?P [0..<?ns] x"
  proof (rule foldM_rule)
    show "?P [] (k, replicate LLAMA_MAX_SEQ (-1))"
      using inv by (simp add: rm_tracks_def taken_def)
  next
    fix "done" s rest x
    assume split: "[0..<?ns] = done @ s # rest" and P: "?P done x"
    note s = upt_split [OF split]
    obtain k1 rm1 where x: "x = (k1, rm1)" by (cases x)
    have inv1: "kvc_inv k1" and conf: "same_config k k1" and heads: "kc_heads k1 = kc_heads k" using P by (simp_all add: x)
    have hp: "kc_hp k1 = kc_hp k" "kc_seq_to_stream k1 = kc_seq_to_stream k" using conf by (simp_all add: same_config_def)
    have fresh: "?st s \<notin> set (take s (si_strm si))"
      using ok s(2) unfolding slots_ok_def by (metis distinct_take id_take_nth_drop not_distinct_conv_prefix)
    then have c1: "kc_cells k1 ! ?st s = ?c s" using P sok(1) [OF s(2)] s(1) by (simp add: x)
    note st1 = kvc_invD(7) [OF inv1, of "?st s", unfolded hp, OF sok(1) [OF s(2)]]
    have invc: "kv_inv (?c s)" using st1 unfolding stream_ok_def c1 by blast
    have len: "?st s < length (kc_cells k1)" using kvc_invD(2) [OF inv1] sok(1) [OF s(2)] hp by simp
    have sidx: "s < length (si_idxs si)" using ok s(2) by (simp add: slots_ok_def)
    have rm1: "rm_tracks (taken k si s) rm1" using P s by (simp add: x)
    from place_stream_spec [OF data s(2) sidx len c1 [symmetric] invc refl sok(2) [OF s(2)] sok(3) [OF s(2)] rm1]
    obtain c' rm' where r: "place_stream u si nt s (k1, rm1) = Some (k1\<lparr>kc_cells := (kc_cells k1)[?st s := c']\<rparr>, rm')"
      "kv_inv c'" "rm_tracks (taken k si s @ map (\<lambda>i. cells (?c s) ! i) (si_idxs si ! s)) rm'" "?R s c'" by blast
    let ?k = "k1\<lparr>kc_cells := (kc_cells k1)[?st s := c']\<rparr>"
    have "kv_size c' = kv_size (?c s)"
      using length_cells [OF r(2)] length_cells [OF invc] r(4) by simp
    moreover have "kc_heads k1 ! ?st s \<le> kv_size (?c s)" using st1 unfolding stream_ok_def c1 by blast
    moreover have "\<forall>e\<in>set (cells c'). entry_ok (kc_seq_to_stream k1) (?st s) e"
    proof
      fix e assume "e \<in> set (cells c')"
      with r(4) put_toks_entries sok(2) [OF s(2)] consider "e \<in> set (cells (?c s))" | ii where "ii < nt" "e = tok u (s * nt + ii)"
        by metis
      then show "entry_ok (kc_seq_to_stream k1) (?st s) e"
      proof cases
        case 1
        then show ?thesis using st1 unfolding stream_ok_def c1 by blast
      next
        case (2 ii)
        have "s * nt + ii < ub_n_tokens u" using sok(2,3) [OF s(2)] 2(1) by (simp add: stream_slot_ok_def)
        with data have "ub_seq_id u ! (s * nt + ii) \<noteq> []" by (simp add: ub_data_ok_def)
        with sok(4) [OF s(2)] 2 show ?thesis by (auto simp: entry_ok_def tok_def hp)
      qed
    qed
    ultimately have "kvc_inv ?k"
      using kvc_inv_put [OF inv1 _ r(2), of "?st s" "kc_heads k1 ! ?st s"] sok(1) [OF s(2)] hp c1
      by (simp add: kvc_put_same_head)
    moreover have "same_config k ?k" using conf by (simp add: same_config_def)
    moreover have "rm_tracks (taken k si (Suc s)) rm'" using r(3) by (simp add: taken_def)
    moreover have "\<forall>st<hp_n_stream (kc_hp k). st \<notin> set (take (Suc s) (si_strm si)) \<longrightarrow> kc_cells ?k ! st = kc_cells k ! st"
      using P s by (auto simp: x take_Suc_conv_app_nth)
    moreover have "\<forall>t<Suc s. ?R t (kc_cells ?k ! ?st t)"
    proof (intro allI impI)
      fix t assume "t < Suc s"
      show "?R t (kc_cells ?k ! ?st t)"
      proof (cases "t = s")
        case True
        with r(4) len show ?thesis by simp
      next
        case False
        with \<open>t < Suc s\<close> have t: "t < s" by simp
        then have "?st t \<noteq> ?st s" using fresh s(2) by (metis in_set_conv_nth length_take min.absorb4 nth_take)
        with P t s show ?thesis by (simp add: x)
      qed
    qed
    ultimately have "?P (done @ [s]) (?k, rm')" using heads s(1) by simp
    with r(1) show "\<exists>x'. place_stream u si nt s x = Some x' \<and> ?P (done @ [s]) x'" unfolding x by blast
  qed
  then obtain k' rm where "foldM (place_stream u si nt) [0..<?ns] (k, replicate LLAMA_MAX_SEQ (-1)) = Some (k', rm)"
    "?P [0..<?ns] (k', rm)" by auto
  then show ?thesis by auto
qed


section \<open>Purging and moving the heads\<close>

text \<open>An entry loses the sequences, among the first \<open>m\<close>, that lost a position at least as great.\<close>

definition purged :: "llama_pos list \<Rightarrow> nat \<Rightarrow> llama_pos \<times> nat set \<Rightarrow> llama_pos \<times> nat set" where
  "purged rm m e = (let S = {s \<in> snd e. \<not> (s < m \<and> fst e \<le> rm ! s)} in if S = {} then (-1, {}) else (fst e, S))"

lemma purged_0: "entry_ok sts st e \<Longrightarrow> entry_wf e \<Longrightarrow> purged rm 0 e = e"
  by (cases e) (auto simp: purged_def entry_ok_def entry_wf_def cell_ok_def)

lemma purged_skip:
  assumes "entry_wf e" "m \<notin> snd e \<or> rm ! m = -1"
  shows "purged rm (Suc m) e = purged rm m e"
proof -
  have "s \<in> snd e \<Longrightarrow> 0 \<le> fst e" for s using assms(1) by (auto simp: entry_wf_def cell_ok_def)
  then have "{s \<in> snd e. \<not> (s < Suc m \<and> fst e \<le> rm ! s)} = {s \<in> snd e. \<not> (s < m \<and> fst e \<le> rm ! s)}"
    using assms(2) by (auto simp: less_Suc_eq)
  then show ?thesis by (simp add: purged_def)
qed

lemma purged_step:
  assumes "entry_wf e" "0 \<le> rm ! m"
  shows "abs_seq_rm m 0 (rm ! m + 1) (purged rm m e) = purged rm (Suc m) e"
proof -
  define S where "S = {s \<in> snd e. \<not> (s < m \<and> fst e \<le> rm ! s)}"
  have p: "s \<in> snd e \<Longrightarrow> 0 \<le> fst e" for s using assms(1) by (auto simp: entry_wf_def cell_ok_def)
  have S': "{s \<in> snd e. \<not> (s < Suc m \<and> fst e \<le> rm ! s)} = (if fst e \<le> rm ! m then S - {m} else S)"
    by (auto simp: S_def less_Suc_eq)
  have r: "in_range_pos 0 (rm ! m + 1) q \<longleftrightarrow> 0 \<le> q \<and> q \<le> rm ! m" for q
    using assms(2) by (auto simp: in_range_pos_def range_lo_def range_hi_def)
  have pm: "purged rm m e = (if S = {} then (-1, {}) else (fst e, S))"
    unfolding purged_def S_def Let_def ..
  have pS: "purged rm (Suc m) e = (let T = if fst e \<le> rm ! m then S - {m} else S in if T = {} then (-1, {}) else (fst e, T))"
    unfolding purged_def S' Let_def ..
  have nonneg: "S \<noteq> {} \<Longrightarrow> 0 \<le> fst e" using p by (auto simp: S_def)
  show ?thesis
    unfolding pm pS Let_def using nonneg
    by (cases "S = {}"; cases "fst e \<le> rm ! m"; cases "m \<in> S") (auto simp: r)
qed

lemma abs_seq_rm_from_min:
  assumes "0 \<le> m" "kv_inv c" "s < LLAMA_MAX_SEQ" "kv_seq_pos_min s c = Some mn"
  shows "mn \<le> m \<Longrightarrow> map (abs_seq_rm s mn (m + 1)) (cells c) = map (abs_seq_rm s 0 (m + 1)) (cells c)"
    and "\<not> mn \<le> m \<Longrightarrow> map (abs_seq_rm s 0 (m + 1)) (cells c) = cells c"
proof -
  have mn: "mn = (if seq_positions s (cells c) = {} then -1 else Min (seq_positions s (cells c)))"
    using kv_seq_pos_min_eq [OF assms(2,3)] assms(4) by simp
  have low: "mn \<le> p" "0 \<le> mn" if "(p, S) \<in> set (cells c)" "s \<in> S" for p S
  proof -
    have p: "p \<in> seq_positions s (cells c)" using that by (auto simp: seq_positions_def)
    then show "mn \<le> p" using mn by auto
    have "q \<in> seq_positions s (cells c) \<Longrightarrow> 0 \<le> q" for q
      using kv_entry_wf [OF assms(2)] length_cells [OF assms(2)]
      by (auto simp: seq_positions_def in_set_conv_nth entry_wf_def cell_ok_def) (metis fst_conv snd_conv equals0D)
    then show "0 \<le> mn" using mn p by (metis Min_in empty_iff finite_seq_positions)
  qed
  have hi: "range_hi (m + 1) = m + 1" using assms(1) by (simp add: range_hi_def)
  show "mn \<le> m \<Longrightarrow> map (abs_seq_rm s mn (m + 1)) (cells c) = map (abs_seq_rm s 0 (m + 1)) (cells c)"
  proof (rule map_cong [OF refl])
    fix e assume e: "e \<in> set (cells c)"
    obtain p S where pS: "e = (p, S)" by (cases e)
    show "abs_seq_rm s mn (m + 1) e = abs_seq_rm s 0 (m + 1) e"
      using low [OF e [unfolded pS]] by (cases "s \<in> S") (simp_all add: pS in_range_pos_def range_lo_def)
  qed
  show "\<not> mn \<le> m \<Longrightarrow> map (abs_seq_rm s 0 (m + 1)) (cells c) = cells c"
  proof (rule map_idI)
    fix e assume mn: "\<not> mn \<le> m" and e: "e \<in> set (cells c)"
    obtain p S where pS: "e = (p, S)" by (cases e)
    show "abs_seq_rm s 0 (m + 1) e = e"
      using low [OF e [unfolded pS]] mn by (cases "s \<in> S") (simp_all add: pS in_range_pos_def range_lo_def hi)
  qed
qed


lemma stream_entries:
  assumes "kvc_inv k" "st < hp_n_stream (kc_hp k)" "e \<in> set (cells (kc_cells k ! st))"
  shows "entry_ok (kc_seq_to_stream k) st e" "entry_wf e"
proof -
  note ok = kvc_invD(7) [OF assms(1,2)]
  then show "entry_ok (kc_seq_to_stream k) st e" using assms(3) by (simp add: stream_ok_def)
  have inv: "kv_inv (kc_cells k ! st)" using ok unfolding stream_ok_def by blast
  from assms(3) obtain i where "i < kv_size (kc_cells k ! st)" "e = cells (kc_cells k ! st) ! i"
    by (auto simp: in_set_conv_nth length_cells [OF inv])
  with kv_entry_wf [OF inv] show "entry_wf e" by simp
qed

lemma purge_all:
  assumes inv: "kvc_inv k" and own: "kc_other k = None"
    and rm: "\<forall>s<LLAMA_MAX_SEQ. rm ! s = -1 \<or> 0 \<le> rm ! s \<and> rm ! s < INT32_MAX \<and> s < length (kc_seq_to_stream k)"
  shows "\<exists>k'. foldM (purge_seq rm) [0..<LLAMA_MAX_SEQ] k = Some k' \<and> kvc_inv k' \<and> same_config k k' \<and>
    (\<forall>st<hp_n_stream (kc_hp k). cells (kc_cells k' ! st) = map (purged rm LLAMA_MAX_SEQ) (cells (kc_cells k ! st))) \<and>
    ((\<forall>s<LLAMA_MAX_SEQ. rm ! s = -1) \<longrightarrow> k' = k)"
proof -
  let ?n = "hp_n_stream (kc_hp k)"
  let ?P = "\<lambda>done k'. kvc_inv k' \<and> same_config k k' \<and>
    (\<forall>st<?n. cells (kc_cells k' ! st) = map (purged rm (length done)) (cells (kc_cells k ! st))) \<and>
    ((\<forall>s<LLAMA_MAX_SEQ. rm ! s = -1) \<longrightarrow> k' = k)"
  have "\<exists>k'. foldM (purge_seq rm) [0..<LLAMA_MAX_SEQ] k = Some k' \<and> ?P [0..<LLAMA_MAX_SEQ] k'"
  proof (rule foldM_rule)
    have "map (purged rm 0) (cells (kc_cells k ! st)) = cells (kc_cells k ! st)" if "st < ?n" for st
      using stream_entries [OF inv that] by (intro map_idI purged_0) auto
    then show "?P [] k" using inv by simp
  next
    fix "done" s rest k1
    assume split: "[0..<LLAMA_MAX_SEQ] = done @ s # rest" and P: "?P done k1"
    note s = upt_split [OF split]
    have inv1: "kvc_inv k1" and hp: "kc_hp k1 = kc_hp k" "kc_seq_to_stream k1 = kc_seq_to_stream k" "kc_other k1 = None"
      using P own by (simp_all add: same_config_def)
    have c1: "cells (kc_cells k1 ! st) = map (purged rm s) (cells (kc_cells k ! st))" if "st < ?n" for st
      using P that s(1) by simp
    have skip: "purged rm (Suc s) e = purged rm s e"
      if "st < ?n" "e \<in> set (cells (kc_cells k ! st))" "rm ! s = -1 \<or> kc_seq_to_stream k ! s \<noteq> st" for st e
      using stream_entries [OF inv that(1,2)] that(3) by (intro purged_skip) (auto simp: entry_ok_def)
    have skip_map: "map (purged rm (Suc s)) (cells (kc_cells k ! st)) = cells (kc_cells k1 ! st)"
      if "st < ?n" "rm ! s = -1 \<or> kc_seq_to_stream k ! s \<noteq> st" for st
      using skip [OF that(1) _ that(2)] c1 [OF that(1)] by (metis (no_types, lifting) map_cong)
    show "\<exists>k2. purge_seq rm s k1 = Some k2 \<and> ?P (done @ [s]) k2"
    proof (cases "rm ! s = -1")
      case True
      then have "purge_seq rm s k1 = Some k1" by (simp add: purge_seq_def)
      with P True skip_map s(1) show ?thesis by auto
    next
      case False
      with rm s(2) have m: "0 \<le> rm ! s" "rm ! s < INT32_MAX" "s < length (kc_seq_to_stream k)" by auto
      define st where "st = kc_seq_to_stream k ! s"
      have vs: "valid_seq k1 (int s)" using m(3) hp by (simp add: valid_seq_def)
      note v = valid_seqD [OF inv1 vs, unfolded hp nat_int, folded st_def]
      obtain mn where mn: "kv_seq_pos_min s (kc_cells k1 ! st) = Some mn"
        using kv_seq_pos_min_eq [OF v(6) s(2)] by blast
      note from_min = abs_seq_rm_from_min [OF m(1) v(6) s(2) mn]
      have i: "i32 (rm ! s + 1) = Some (rm ! s + 1)" using m by (simp add: i32_def i32_ok_def INT32_MAX_def)
      have "\<exists>k2. purge_seq rm s k1 = Some k2 \<and> kvc_inv k2 \<and> same_config k1 k2 \<and>
        kvc_contents k2 = abs_pass st (abs_seq_rm s 0 (rm ! s + 1)) (kvc_contents k1)"
      proof (cases "mn \<le> rm ! s")
        case True
        from kvc_seq_rm_spec [OF inv1 hp(3) vs, of mn "rm ! s + 1"] obtain k2 where
          k2: "kvc_seq_rm (int s) mn (rm ! s + 1) k1 = Some k2" "kvc_inv k2" "same_config k1 k2"
            "kvc_contents k2 = abs_pass st (abs_seq_rm s mn (rm ! s + 1)) (kvc_contents k1)"
          by (auto simp: hp st_def)
        have "kvc_contents k1 ! st = cells (kc_cells k1 ! st)"
          using v(3) kvc_invD(2) [OF inv1] hp by (simp add: kvc_contents_def)
        then have "abs_pass st (abs_seq_rm s mn (rm ! s + 1)) (kvc_contents k1) =
            abs_pass st (abs_seq_rm s 0 (rm ! s + 1)) (kvc_contents k1)"
          unfolding abs_pass_def by (simp only: from_min(1) [OF True])
        moreover have "purge_seq rm s k1 = Some k2"
          using False m(3) v(4) mn True i k2(1) hp by (simp add: purge_seq_def st_def)
        ultimately show ?thesis using k2 by auto
      next
        case no: False
        have "kvc_contents k1 ! st = cells (kc_cells k1 ! st)"
          using v(3) kvc_invD(2) [OF inv1] hp by (simp add: kvc_contents_def)
        then have "abs_pass st (abs_seq_rm s 0 (rm ! s + 1)) (kvc_contents k1) = kvc_contents k1"
          using from_min(2) [OF no] by (metis abs_pass_def list_update_id)
        moreover have "purge_seq rm s k1 = Some k1"
          using False m(3) v(4) mn no hp by (simp add: purge_seq_def st_def)
        ultimately show ?thesis using inv1 by simp
      qed
      then obtain k2 where k2: "purge_seq rm s k1 = Some k2" "kvc_inv k2" "same_config k1 k2"
        "kvc_contents k2 = abs_pass st (abs_seq_rm s 0 (rm ! s + 1)) (kvc_contents k1)" by blast
      have len: "length (kc_cells k1) = ?n" "length (kc_cells k2) = ?n"
        using kvc_invD(2) [OF inv1] kvc_invD(2) [OF k2(2)] k2(3) hp by (simp_all add: same_config_def)
      have "cells (kc_cells k2 ! t) = map (purged rm (Suc s)) (cells (kc_cells k ! t))" if t: "t < ?n" for t
      proof -
        have at2: "cells (kc_cells k2 ! t) = kvc_contents k2 ! t" "kvc_contents k1 ! t = cells (kc_cells k1 ! t)"
          using t len by (simp_all add: kvc_contents_def)
        show ?thesis
        proof (cases "t = st")
          case True
          then have "cells (kc_cells k2 ! t) = map (abs_seq_rm s 0 (rm ! s + 1)) (cells (kc_cells k1 ! t))"
            using k2(4) at2 t len(1) by (simp add: abs_pass_def kvc_contents_def)
          also have "\<dots> = map (purged rm (Suc s)) (cells (kc_cells k ! t))"
            unfolding c1 [OF t] map_map comp_def
            by (rule map_cong [OF refl], rule purged_step [OF stream_entries(2) [OF inv t] m(1)])
          finally show ?thesis .
        next
          case False
          then have "cells (kc_cells k2 ! t) = cells (kc_cells k1 ! t)" using k2(4) at2 by (simp add: abs_pass_def)
          with False skip_map [OF t] show ?thesis by (simp add: st_def)
        qed
      qed
      moreover have "\<not> (\<forall>s<LLAMA_MAX_SEQ. rm ! s = -1)" using False s(2) by blast
      ultimately show ?thesis using k2 P s(1) by (auto simp: same_config_def)
    qed
  qed
  then show ?thesis by simp
qed

lemma move_heads:
  assumes inv: "kvc_inv k" and st: "\<forall>s<length (si_strm si). si_strm si ! s < hp_n_stream (kc_hp k)"
    and len: "length (si_idxs si) = length (si_strm si)"
    and idx: "\<forall>s<length (si_strm si). si_idxs si ! s \<noteq> [] \<and> last (si_idxs si ! s) < kv_size (kc_cells k ! (si_strm si ! s))"
  shows "\<exists>hs. foldM (move_head si) [0..<length (si_strm si)] k = Some (k\<lparr>kc_heads := hs\<rparr>) \<and> kvc_inv (k\<lparr>kc_heads := hs\<rparr>)"
proof -
  let ?P = "\<lambda>done k'. \<exists>hs. k' = k\<lparr>kc_heads := hs\<rparr> \<and> kvc_inv k'"
  have "\<exists>k'. foldM (move_head si) [0..<length (si_strm si)] k = Some k' \<and> ?P [0..<length (si_strm si)] k'"
  proof (rule foldM_rule)
    show "?P [] k" using inv by (intro exI [of _ "kc_heads k"]) simp
  next
    fix "done" s rest k1
    assume split: "[0..<length (si_strm si)] = done @ s # rest" and P: "?P done k1"
    have "s \<in> set [0..<length (si_strm si)]" unfolding split by simp
    then have s: "s < length (si_strm si)" by simp
    from P obtain hs where k1: "k1 = k\<lparr>kc_heads := hs\<rparr>" "kvc_inv k1" by blast
    let ?st = "si_strm si ! s" and ?h = "last (si_idxs si ! s) + 1"
    have st1: "?st < hp_n_stream (kc_hp k1)" using st s k1 by simp
    have hl: "?st < length (kc_heads k1)" using kvc_invD(3) [OF k1(2)] st1 by simp
    have "kvc_put ?st (kc_cells k1 ! ?st) ?h k1 = k1\<lparr>kc_heads := hs[?st := ?h]\<rparr>"
      by (simp add: kvc_put_def k1)
    moreover have "kvc_inv (kvc_put ?st (kc_cells k1 ! ?st) ?h k1)"
    proof (rule conjunct1 [OF kvc_inv_put [OF k1(2) st1]])
      note ok = kvc_invD(7) [OF k1(2) st1]
      show "kv_inv (kc_cells k1 ! ?st)" using ok unfolding stream_ok_def by blast
      show "\<forall>e\<in>set (cells (kc_cells k1 ! ?st)). entry_ok (kc_seq_to_stream k1) ?st e" using ok unfolding stream_ok_def by blast
      show "?h \<le> kv_size (kc_cells k1 ! ?st)" using idx s k1 by auto
    qed simp
    moreover have "move_head si s k1 = Some (k1\<lparr>kc_heads := hs[?st := ?h]\<rparr>)"
      using s len hl idx by (simp add: move_head_def k1)
    ultimately show "\<exists>k2. move_head si s k1 = Some k2 \<and> ?P (done @ [s]) k2" using k1 by auto
  qed
  then show ?thesis by auto
qed


section \<open>The whole operation\<close>

definition pos_bounded :: "kv_cache \<Rightarrow> bool" where
  "pos_bounded k \<longleftrightarrow> (\<forall>c\<in>set (kc_cells k). \<forall>p\<in>set (c_pos c). p < INT32_MAX)"

definition all_empty :: "kv_cache \<Rightarrow> slot_info \<Rightarrow> bool" where
  "all_empty k si \<longleftrightarrow> (\<forall>s<length (si_strm si). \<forall>i\<in>set (si_idxs si ! s). fst (cells (kc_cells k ! (si_strm si ! s)) ! i) = -1)"

lemma taken_entries:
  assumes "kvc_inv k" "slots_ok k u si nt" "e \<in> set (taken k si (length (si_strm si)))"
  shows "\<exists>s<length (si_strm si). e \<in> set (cells (kc_cells k ! (si_strm si ! s)))"
proof -
  from assms(3) obtain s i where si: "s < length (si_strm si)" "i \<in> set (si_idxs si ! s)"
    "e = cells (kc_cells k ! (si_strm si ! s)) ! i" by (auto simp: taken_def)
  have st: "si_strm si ! s < hp_n_stream (kc_hp k)" using assms(2) si(1) by (simp add: slots_ok_def)
  have inv: "kv_inv (kc_cells k ! (si_strm si ! s))" using kvc_invD(7) [OF assms(1) st] unfolding stream_ok_def by blast
  have "i < kv_size (kc_cells k ! (si_strm si ! s))" using assms(2) si(1,2) by (auto simp: slots_ok_def stream_slot_ok_def)
  with si length_cells [OF inv] show ?thesis by (metis nth_mem)
qed

lemma rm_bounds:
  assumes "kvc_inv k" "pos_bounded k" "slots_ok k u si nt" "rm_tracks (taken k si (length (si_strm si))) rm" "s < LLAMA_MAX_SEQ"
  shows "rm ! s = -1 \<or> 0 \<le> rm ! s \<and> rm ! s < INT32_MAX \<and> s < length (kc_seq_to_stream k)"
proof (cases "rm ! s = -1")
  case False
  with assms(4,5) have "0 \<le> rm ! s" "(rm ! s, {s}) \<in> set (taken k si (length (si_strm si)))" by (auto simp: rm_tracks_def)
  with taken_entries [OF assms(1,3)] obtain t where t: "0 \<le> rm ! s" "t < length (si_strm si)"
    "(rm ! s, {s}) \<in> set (cells (kc_cells k ! (si_strm si ! t)))" by blast
  have st: "si_strm si ! t < hp_n_stream (kc_hp k)" using assms(3) t(2) by (simp add: slots_ok_def)
  have "kc_cells k ! (si_strm si ! t) \<in> set (kc_cells k)" using st kvc_invD(2) [OF assms(1)] by simp
  moreover have "rm ! s \<in> set (c_pos (kc_cells k ! (si_strm si ! t)))" using t(3) by (auto simp: cells_def dest: set_zip_leftD)
  ultimately have "rm ! s < INT32_MAX" using assms(2) by (auto simp: pos_bounded_def)
  with t stream_entries(1) [OF assms(1) st t(3)] show ?thesis by (simp add: entry_ok_def)
qed simp

lemma apply_ubatch_spec:
  assumes inv: "kvc_inv k" and own: "kc_other k = None" and bound: "pos_bounded k" and data: "ub_data_ok u"
    and ok: "slots_ok k u si nt"
  shows "\<exists>k' rm. apply_ubatch si u k = Some k' \<and> kvc_inv k' \<and> same_config k k' \<and>
    rm_tracks (taken k si (length (si_strm si))) rm \<and>
    (\<forall>st<hp_n_stream (kc_hp k). st \<notin> set (si_strm si) \<longrightarrow>
       cells (kc_cells k' ! st) = map (purged rm LLAMA_MAX_SEQ) (cells (kc_cells k ! st))) \<and>
    (\<forall>s<length (si_strm si). cells (kc_cells k' ! (si_strm si ! s)) =
       map (purged rm LLAMA_MAX_SEQ) (put_toks u (s * nt) (si_idxs si ! s) (cells (kc_cells k ! (si_strm si ! s))))) \<and>
    (all_empty k si \<longrightarrow>
       (\<forall>st<hp_n_stream (kc_hp k). c_shift (kc_cells k' ! st) = c_shift (kc_cells k ! st)) \<and>
       (\<forall>st<hp_n_stream (kc_hp k). st \<notin> set (si_strm si) \<longrightarrow> kc_cells k' ! st = kc_cells k ! st) \<and>
       (\<forall>s<length (si_strm si). cells (kc_cells k' ! (si_strm si ! s)) =
          put_toks u (s * nt) (si_idxs si ! s) (cells (kc_cells k ! (si_strm si ! s)))) \<and>
       (\<forall>s<length (si_strm si). \<forall>j. j \<notin> set (si_idxs si ! s) \<longrightarrow>
          c_ext (kc_cells k' ! (si_strm si ! s)) ! j = c_ext (kc_cells k ! (si_strm si ! s)) ! j))"
proof -
  let ?ns = "length (si_strm si)"
  obtain k1 rm where k1: "foldM (place_stream u si nt) [0..<?ns] (k, replicate LLAMA_MAX_SEQ (-1)) = Some (k1, rm)"
    "kvc_inv k1" "same_config k k1" "rm_tracks (taken k si ?ns) rm"
    "\<forall>st<hp_n_stream (kc_hp k). st \<notin> set (si_strm si) \<longrightarrow> kc_cells k1 ! st = kc_cells k ! st"
    "\<forall>s<?ns. cells (kc_cells k1 ! (si_strm si ! s)) =
        put_toks u (s * nt) (si_idxs si ! s) (cells (kc_cells k ! (si_strm si ! s)))"
    "\<forall>s<?ns. (\<forall>i\<in>set (si_idxs si ! s). fst (cells (kc_cells k ! (si_strm si ! s)) ! i) = -1) \<longrightarrow>
        c_shift (kc_cells k1 ! (si_strm si ! s)) = c_shift (kc_cells k ! (si_strm si ! s))"
    "\<forall>s<?ns. \<forall>j. j \<notin> set (si_idxs si ! s) \<longrightarrow>
        c_ext (kc_cells k1 ! (si_strm si ! s)) ! j = c_ext (kc_cells k ! (si_strm si ! s)) ! j"
    using place_all [OF inv data ok] by blast
  have hp: "kc_hp k1 = kc_hp k" "kc_seq_to_stream k1 = kc_seq_to_stream k" "kc_other k1 = None"
    using k1(3) own by (simp_all add: same_config_def)
  from purge_all [OF k1(2) hp(3), of rm] rm_bounds [OF inv bound ok k1(4)] obtain k2 where
    k2: "foldM (purge_seq rm) [0..<LLAMA_MAX_SEQ] k1 = Some k2" "kvc_inv k2" "same_config k1 k2"
      "\<forall>st<hp_n_stream (kc_hp k). cells (kc_cells k2 ! st) = map (purged rm LLAMA_MAX_SEQ) (cells (kc_cells k1 ! st))"
      "(\<forall>s<LLAMA_MAX_SEQ. rm ! s = -1) \<longrightarrow> k2 = k1" by (auto simp: hp)
  have sok: "si_strm si ! s < hp_n_stream (kc_hp k)" "length (si_idxs si ! s) = nt" "0 < nt"
    "stream_slot_ok u (kc_cells k ! (si_strm si ! s)) (s * nt) (si_idxs si ! s)" if "s < ?ns" for s
    using ok that by (simp_all add: slots_ok_def)
  have size: "kv_size (kc_cells k2 ! st) = kv_size (kc_cells k ! st)" if st: "st < hp_n_stream (kc_hp k)" for st
  proof -
    have i: "kv_inv (kc_cells k2 ! st)" "kv_inv (kc_cells k ! st)" "kv_inv (kc_cells k1 ! st)"
      using kvc_invD(7) [OF k2(2), of st] kvc_invD(7) [OF inv, of st] kvc_invD(7) [OF k1(2), of st] st hp k2(3)
      unfolding stream_ok_def same_config_def by auto
    have "length (cells (kc_cells k1 ! st)) = length (cells (kc_cells k ! st))"
    proof (cases "st \<in> set (si_strm si)")
      case True
      then obtain s where "s < ?ns" "si_strm si ! s = st" by (auto simp: in_set_conv_nth)
      then show ?thesis using k1(6) by auto
    qed (use k1(5) st in simp)
    then show ?thesis using k2(4) st length_cells [OF i(1)] length_cells [OF i(2)] by simp
  qed
  have "\<exists>hs. foldM (move_head si) [0..<?ns] k2 = Some (k2\<lparr>kc_heads := hs\<rparr>) \<and> kvc_inv (k2\<lparr>kc_heads := hs\<rparr>)"
  proof (rule move_heads [OF k2(2)])
    show "\<forall>s<?ns. si_strm si ! s < hp_n_stream (kc_hp k2)" using sok k2(3) hp by (simp add: same_config_def)
    show "length (si_idxs si) = ?ns" using ok by (simp add: slots_ok_def)
    show "\<forall>s<?ns. si_idxs si ! s \<noteq> [] \<and> last (si_idxs si ! s) < kv_size (kc_cells k2 ! (si_strm si ! s))"
    proof (intro allI impI)
      fix s assume s: "s < ?ns"
      then have "si_idxs si ! s \<noteq> []" using sok(2,3) by auto
      moreover from this have "last (si_idxs si ! s) \<in> set (si_idxs si ! s)" by simp
      ultimately show "si_idxs si ! s \<noteq> [] \<and> last (si_idxs si ! s) < kv_size (kc_cells k2 ! (si_strm si ! s))"
        using sok(4) [OF s] size [OF sok(1) [OF s]] by (simp add: stream_slot_ok_def)
    qed
  qed
  then obtain hs where hs: "foldM (move_head si) [0..<?ns] k2 = Some (k2\<lparr>kc_heads := hs\<rparr>)" "kvc_inv (k2\<lparr>kc_heads := hs\<rparr>)" by blast
  let ?k = "k2\<lparr>kc_heads := hs\<rparr>"
  have size_nt: "si_size si = Some nt"
    using ok sok(2) [of 0] by (cases "si_idxs si") (auto simp: si_size_def slots_ok_def)
  have run: "apply_ubatch si u k = Some ?k"
    using own size_nt ok k1(1) k2(1) hs(1) by (simp add: apply_ubatch_def si_n_stream_def slots_ok_def)
  have conf: "same_config k ?k" using k1(3) k2(3) by (simp add: same_config_def)
  have "k2 = k1" if "all_empty k si"
  proof -
    have "fst e = -1" if "e \<in> set (taken k si ?ns)" for e
      using that \<open>all_empty k si\<close> by (auto simp: taken_def all_empty_def)
    then have "rm ! s = -1" if "s < LLAMA_MAX_SEQ" for s
      using k1(4) that unfolding rm_tracks_def by (metis fst_conv neg_0_le_iff_le not_one_le_zero)
    with k2(5) show ?thesis by blast
  qed
  moreover have "c_shift (kc_cells k1 ! st) = c_shift (kc_cells k ! st)" if "all_empty k si" "st < hp_n_stream (kc_hp k)" for st
  proof (cases "st \<in> set (si_strm si)")
    case True
    then obtain s where "s < ?ns" "si_strm si ! s = st" by (auto simp: in_set_conv_nth)
    then show ?thesis using k1(7) that(1) by (auto simp: all_empty_def)
  qed (use k1(5) that in simp)
  ultimately show ?thesis
    using run hs(2) conf k1(4-6,8) k2(4) sok(1) by (intro exI [of _ ?k] exI [of _ rm]) auto
qed

end
