(* ===== verification/KvPrepare.thy ===== *)
theory KvPrepare
  imports KvPlace
begin

text \<open>
  \<open>prepare\<close> on a unified cache without a sliding window: it finds slots for all micro-batches
  of a batch exactly when the free cells suffice, and leaves the cache as it found it.
\<close>

section \<open>Micro-batches for a unified cache\<close>

definition unified :: "kv_cache \<Rightarrow> bool" where
  "unified k \<longleftrightarrow> kvc_inv k \<and> kc_other k = None \<and> hp_n_stream (kc_hp k) = 1 \<and> hp_swa_type (kc_hp k) = SWA_NONE \<and> pos_bounded k"

definition unified_batch :: "kv_cache \<Rightarrow> ubatch \<Rightarrow> bool" where
  "unified_batch k u \<longleftrightarrow> ub_data_ok u \<and> 0 < ub_n_tokens u \<and> ub_seq_id_unq u \<noteq> [] \<and> valid_seq k (ub_seq_id_unq u ! 0) \<and>
     (\<forall>i<ub_n_tokens u. ub_pos u ! i < INT32_MAX \<and> (\<forall>id\<in>set (ub_seq_id u ! i). nat id < length (kc_seq_to_stream k)))"

abbreviation cells0 :: "kv_cache \<Rightarrow> cell_contents" where
  "cells0 k \<equiv> cells (kc_cells k ! 0)"

definition free_cells :: "kv_cache \<Rightarrow> nat set" where
  "free_cells k = {i. i < kv_size (kc_cells k ! 0) \<and> fst (cells0 k ! i) = -1}"

lemma unifiedD:
  assumes "unified k"
  shows "kvc_inv k" "kc_other k = None" "hp_n_stream (kc_hp k) = 1" "hp_swa_type (kc_hp k) = SWA_NONE" "pos_bounded k"
    "kv_inv (kc_cells k ! 0)" "length (kc_cells k) = 1" "length (kc_heads k) = 1"
    "\<And>s. s < length (kc_seq_to_stream k) \<Longrightarrow> kc_seq_to_stream k ! s = 0"
proof -
  show a: "kvc_inv k" "kc_other k = None" "hp_n_stream (kc_hp k) = 1" "hp_swa_type (kc_hp k) = SWA_NONE" "pos_bounded k"
    using assms by (simp_all add: unified_def)
  show "kv_inv (kc_cells k ! 0)" using kvc_invD(7) [OF a(1), of 0] a(3) by (simp add: stream_ok_def)
  show "length (kc_cells k) = 1" "length (kc_heads k) = 1" using kvc_invD(2,3) [OF a(1)] a(3) by simp_all
  show "\<And>s. s < length (kc_seq_to_stream k) \<Longrightarrow> kc_seq_to_stream k ! s = 0" using kvc_invD(6) [OF a(1)] a(3) by simp
qed

lemma unified_usable: "unified k \<Longrightarrow> i < kv_size (kc_cells k ! 0) \<Longrightarrow> usable (kc_hp k) (kc_cells k ! 0) i \<longleftrightarrow> i \<in> free_cells k"
  using unifiedD(4,6) [of k] by (simp add: usable_def swa_masked_def free_cells_def nth_cells)

lemma unified_fits:
  assumes "unified k" "unified_batch k u"
  shows "ub_fits k u" "cache_swa_ok k" "slot_ns k u = 1" "slot_nt k u = ub_n_tokens u" "slot_st k u 0 = 0"
proof -
  note d = unifiedD [OF assms(1)]
  show "slot_ns k u = 1" "slot_nt k u = ub_n_tokens u" using d(3) by (simp_all add: slot_ns_def slot_nt_def)
  then show "ub_fits k u" using assms(2) d(3) by (cases "ub_seq_id_unq u") (auto simp: ub_fits_def unified_batch_def)
  show "cache_swa_ok k" using d(4,5) by (simp add: cache_swa_ok_def swa_ok_def pos_bounded_def)
  show "slot_st k u 0 = 0" using assms(2) d(9) by (simp add: slot_st_def unified_batch_def valid_seq_def)
qed

lemma finite_free [simp]: "finite (free_cells k)"
  by (simp add: free_cells_def)

text \<open>The search on a unified cache: a slot of free cells, or too few of them.\<close>

lemma unified_find:
  assumes "unified k" "unified_batch k u"
  shows "\<exists>si. find_slot k u False = Some si \<and>
    (si_empty si \<and> card (free_cells k) < ub_n_tokens u \<or>
     \<not> si_empty si \<and> ub_n_tokens u \<le> card (free_cells k) \<and> slots_ok k u si (ub_n_tokens u) \<and> si_strm si = [0] \<and>
       (\<exists>idxs. si_idxs si = [idxs] \<and> length idxs = ub_n_tokens u \<and> distinct idxs \<and> set idxs \<subseteq> free_cells k))"
proof -
  note d = unifiedD [OF assms(1)] and f = unified_fits [OF assms]
  let ?c = "kc_cells k ! 0"
  from find_slot_correct [OF d(1) f(2,1), of False] obtain si where
    si: "find_slot k u False = Some si" "si = slot_none \<and> no_slot k u False \<or> \<not> si_empty si \<and> slots_found k u False si" by blast
  from si(2) show ?thesis
  proof (elim disjE conjE)
    assume "si = slot_none" "no_slot k u False"
    moreover have "{i. i < kv_size ?c \<and> usable (kc_hp k) ?c i} = free_cells k"
      using unified_usable [OF assms(1)] by (auto simp: free_cells_def)
    ultimately have "card (free_cells k) < ub_n_tokens u" by (simp add: no_slot_def f slot_spec_def)
    with si(1) \<open>si = slot_none\<close> show ?thesis by (simp add: si_empty_def slot_none_def)
  next
    assume found: "\<not> si_empty si" "slots_found k u False si"
    then obtain st idxs where lists: "si_strm si = [st]" "si_idxs si = [idxs]"
      by (auto simp: slots_found_def f length_Suc_conv)
    with found(2) have st: "st = 0" and idxs: "length idxs = ub_n_tokens u" "distinct idxs"
      "\<forall>i\<in>set idxs. i < kv_size ?c \<and> usable (kc_hp k) ?c i"
      by (simp_all add: slots_found_def f slot_spec_def)
    have free: "set idxs \<subseteq> free_cells k" using idxs(3) unified_usable [OF assms(1)] by blast
    have "ub_n_tokens u \<le> card (free_cells k)"
      using card_mono [OF finite_free free] distinct_card [OF idxs(2)] idxs(1) by simp
    moreover have "slots_ok k u si (ub_n_tokens u)"
      using assms(2) lists st idxs free d(3,9)
      by (auto simp: slots_ok_def stream_slot_ok_def unified_batch_def takeable_def free_cells_def)
    ultimately show ?thesis using si(1) found(1) lists st idxs free by blast
  qed
qed

section \<open>Saving and restoring\<close>

definition kv_same :: "kv_cache \<Rightarrow> kv_cache \<Rightarrow> bool" where
  \<comment> \<open>equal positions, sequences, extra data, pending shifts and head\<close>
  "kv_same k k' \<longleftrightarrow> kvc_inv k' \<and> same_config k k' \<and> kc_heads k' = kc_heads k \<and> cells0 k' = cells0 k \<and>
     c_ext (kc_cells k' ! 0) = c_ext (kc_cells k ! 0) \<and> c_shift (kc_cells k' ! 0) = c_shift (kc_cells k ! 0)"

lemma kv_same_refl: "kvc_inv k \<Longrightarrow> kv_same k k"
  by (simp add: kv_same_def)

lemma free_shift: "unified k \<Longrightarrow> i \<in> free_cells k \<Longrightarrow> i < kv_size (kc_cells k ! 0) \<and> c_shift (kc_cells k ! 0) ! i = 0"
  using unifiedD(6) [of k] kv_inv_cell [OF unifiedD(6), of k i] by (auto simp: free_cells_def nth_cells cell_ok_def)

lemma restore_back:
  assumes k: "unified k" and si: "si_strm si = [0]" "si_idxs si = [idxs]" "set idxs \<subseteq> free_cells k"
    and copy: "kv_cp_idxs idxs (kc_cells k ! 0) = Some copy" and k1: "kvc_inv k1" "same_config k k1"
    and len: "kv_size (kc_cells k1 ! 0) = kv_size (kc_cells k ! 0)"
    and rest: "\<forall>i<kv_size (kc_cells k ! 0). i \<notin> set idxs \<longrightarrow>
      cells0 k1 ! i = cells0 k ! i \<and> c_ext (kc_cells k1 ! 0) ! i = c_ext (kc_cells k ! 0) ! i"
    and shift: "c_shift (kc_cells k1 ! 0) = c_shift (kc_cells k ! 0)"
  shows "\<exists>k2. restore_state \<lparr>ps_sinfo = si, ps_heads_old = kc_heads k, ps_cells = [copy]\<rparr> k1 = Some k2 \<and> kv_same k k2"
proof -
  note d = unifiedD [OF k]
  have n1: "hp_n_stream (kc_hp k1) = 1" using k1(2) d(3) by (simp add: same_config_def)
  have st1: "stream_ok k1 0" using kvc_invD(7) [OF k1(1), of 0] n1 by simp
  have st: "stream_ok k 0" using kvc_invD(7) [OF d(1), of 0] d(3) by simp
  have inv1: "kv_inv (kc_cells k1 ! 0)" using st1 by (simp add: stream_ok_def)
  have "\<forall>i\<in>set idxs. i < kv_size (kc_cells k ! 0) \<and> c_shift (kc_cells k ! 0) ! i = 0 \<and> c_shift (kc_cells k1 ! 0) ! i = 0"
    using si(3) free_shift [OF k] shift by auto
  from kv_restore_saved [OF d(6) inv1 len rest this] copy obtain c' where
    c': "kv_set_idxs idxs copy (kc_cells k1 ! 0) = Some c'" "kv_inv c'" "cells c' = cells0 k"
      "c_ext c' = c_ext (kc_cells k ! 0)" "c_shift c' = c_shift (kc_cells k ! 0)" using shift by auto
  have l1: "length (kc_cells k1) = 1" "length (kc_heads k1) = 1" using kvc_invD(2,3) [OF k1(1)] n1 by simp_all
  let ?h = "kc_heads k ! 0" and ?k2 = "kvc_put 0 c' (kc_heads k ! 0) k1"
  have run: "restore_state \<lparr>ps_sinfo = si, ps_heads_old = kc_heads k, ps_cells = [copy]\<rparr> k1 = Some ?k2"
    using si l1 d(8) c'(1) by (simp add: restore_state_def si_n_stream_def)
  have size: "kv_size c' = kv_size (kc_cells k ! 0)" using length_cells [OF c'(2)] length_cells [OF d(6)] c'(3) by simp
  moreover have "?h \<le> kv_size (kc_cells k ! 0)" using st unfolding stream_ok_def by blast
  moreover have "\<forall>e\<in>set (cells c'). entry_ok (kc_seq_to_stream k1) 0 e"
    using st k1(2) by (simp add: c'(3) stream_ok_def same_config_def)
  ultimately have "kvc_inv ?k2" using kvc_inv_put [OF k1(1) _ c'(2), of 0 ?h] n1 len by simp
  moreover have "kc_heads ?k2 = kc_heads k" using l1 d(8) by (auto simp: kvc_put_def length_Suc_conv)
  moreover have "same_config k ?k2" using k1(2) by (simp add: same_config_def kvc_put_def)
  moreover have "kc_cells ?k2 ! 0 = c'" using l1 by (simp add: kvc_put_def)
  ultimately show ?thesis using run c' by (simp add: kv_same_def)
qed

definition slot_of :: "slot_info \<Rightarrow> nat list \<Rightarrow> bool" where
  "slot_of si idxs \<longleftrightarrow> si_strm si = [0] \<and> si_idxs si = [idxs]"

lemma unified_apply:
  assumes k: "unified k" and u: "unified_batch k u" and ok: "slots_ok k u si (ub_n_tokens u)"
    and si: "slot_of si idxs" "length idxs = ub_n_tokens u" "distinct idxs" "set idxs \<subseteq> free_cells k"
  shows "\<exists>k'. apply_ubatch si u k = Some k' \<and> unified k' \<and> same_config k k' \<and> free_cells k' = free_cells k - set idxs \<and>
    cells0 k' = put_toks u 0 idxs (cells0 k) \<and> c_shift (kc_cells k' ! 0) = c_shift (kc_cells k ! 0) \<and>
    (\<forall>j. j \<notin> set idxs \<longrightarrow> c_ext (kc_cells k' ! 0) ! j = c_ext (kc_cells k ! 0) ! j)"
proof -
  note d = unifiedD [OF k]
  have data: "ub_data_ok u" using u by (simp add: unified_batch_def)
  have "all_empty k si" using si by (auto simp: all_empty_def slot_of_def free_cells_def)
  with apply_ubatch_spec [OF d(1,2,5) data ok] d(3) si obtain k' where
    k': "apply_ubatch si u k = Some k'" "kvc_inv k'" "same_config k k'" "c_shift (kc_cells k' ! 0) = c_shift (kc_cells k ! 0)"
      "cells0 k' = put_toks u 0 idxs (cells0 k)"
      "\<forall>j. j \<notin> set idxs \<longrightarrow> c_ext (kc_cells k' ! 0) ! j = c_ext (kc_cells k ! 0) ! j"
    by (auto simp: slot_of_def)
  have hp: "hp_n_stream (kc_hp k') = 1" using k'(3) d(3) by (simp add: same_config_def)
  have inv: "kv_inv (kc_cells k' ! 0)" using kvc_invD(7) [OF k'(2), of 0] hp by (simp add: stream_ok_def)
  have l: "length (kc_cells k') = 1" using kvc_invD(2) [OF k'(2)] hp by simp
  have old: "fst e < INT32_MAX" if "e \<in> set (cells0 k)" for e
    using d(5,7) that by (cases e) (auto simp: pos_bounded_def cells_def length_Suc_conv dest: set_zip_leftD)
  have new: "fst (tok u ii) < INT32_MAX \<and> 0 \<le> fst (tok u ii)" if "ii < ub_n_tokens u" for ii
    using u that by (simp add: unified_batch_def tok_def ub_data_ok_def)
  have "fst e < INT32_MAX" if "e \<in> set (cells0 k')" for e
    using put_toks_entries [of e u 0 idxs "cells0 k"] that old [of e] new si(2) unfolding k'(5) by auto
  then have "pos_bounded k'"
    using l inv length_cells [OF inv] nth_cells [OF inv] kv_size_def
    by (auto simp: pos_bounded_def length_Suc_conv in_set_conv_nth) (metis fst_conv nth_mem)
  then have uni: "unified k'" using k'(2,3) d by (simp add: unified_def same_config_def)
  have len: "kv_size (kc_cells k' ! 0) = kv_size (kc_cells k ! 0)"
    using length_cells [OF inv] length_cells [OF d(6)] k'(5) by simp
  have taken: "fst (cells0 k' ! i) \<noteq> -1" if "i \<in> set idxs" for i
  proof -
    from that obtain ii where ii: "ii < length idxs" "i = idxs ! ii" by (auto simp: in_set_conv_nth)
    have "\<forall>i\<in>set idxs. i < length (cells0 k)" using si(4) length_cells [OF d(6)] by (auto simp: free_cells_def)
    with put_toks_nth [OF si(3) _ ii(1), of "cells0 k" u 0] new [of ii] ii si(2) show ?thesis by (simp add: k'(5))
  qed
  have "free_cells k' = free_cells k - set idxs"
    using taken put_toks_other [of _ idxs u 0 "cells0 k"] unfolding free_cells_def len k'(5) by fastforce
  with uni k' show ?thesis by blast
qed

lemma prepare_step:
  assumes k: "unified k" and u: "unified_batch k u"
  shows "(\<exists>si. find_slot k u False = Some si \<and> si_empty si \<and> card (free_cells k) < ub_n_tokens u) \<or>
    (\<exists>si idxs copy k'. find_slot k u False = Some si \<and> \<not> si_empty si \<and> slot_of si idxs \<and> length idxs = ub_n_tokens u \<and>
       distinct idxs \<and> set idxs \<subseteq> free_cells k \<and> kv_cp_idxs idxs (kc_cells k ! 0) = Some copy \<and>
       apply_ubatch si u k = Some k' \<and> unified k' \<and> same_config k k' \<and> free_cells k' = free_cells k - set idxs \<and>
       (\<forall>k1. kv_same k' k1 \<longrightarrow>
          (\<exists>k2. restore_state \<lparr>ps_sinfo = si, ps_heads_old = kc_heads k, ps_cells = [copy]\<rparr> k1 = Some k2 \<and> kv_same k k2)))"
proof -
  note d = unifiedD [OF k]
  from unified_find [OF k u] obtain si where si: "find_slot k u False = Some si"
    "si_empty si \<and> card (free_cells k) < ub_n_tokens u \<or>
     \<not> si_empty si \<and> slots_ok k u si (ub_n_tokens u) \<and>
       (\<exists>idxs. slot_of si idxs \<and> length idxs = ub_n_tokens u \<and> distinct idxs \<and> set idxs \<subseteq> free_cells k)"
    unfolding slot_of_def by blast
  from si(2) show ?thesis
  proof (elim disjE conjE exE)
    assume "si_empty si" "card (free_cells k) < ub_n_tokens u"
    with si(1) show ?thesis by blast
  next
    fix idxs
    assume f: "\<not> si_empty si" "slots_ok k u si (ub_n_tokens u)"
      and sl: "slot_of si idxs" "length idxs = ub_n_tokens u" "distinct idxs" "set idxs \<subseteq> free_cells k"
    have "idxs ! j < kv_size (kc_cells k ! 0) \<and> c_shift (kc_cells k ! 0) ! (idxs ! j) = 0" if "j < length idxs" for j
      using free_shift [OF k, of "idxs ! j"] sl(4) nth_mem [OF that] by blast
    from kv_cp_idxs_spec [OF this] obtain copy where copy: "kv_cp_idxs idxs (kc_cells k ! 0) = Some copy" by blast
    from unified_apply [OF k u f(2) sl] obtain k' where
      k': "apply_ubatch si u k = Some k'" "unified k'" "same_config k k'" "free_cells k' = free_cells k - set idxs"
        "cells0 k' = put_toks u 0 idxs (cells0 k)" "c_shift (kc_cells k' ! 0) = c_shift (kc_cells k ! 0)"
        "\<forall>j. j \<notin> set idxs \<longrightarrow> c_ext (kc_cells k' ! 0) ! j = c_ext (kc_cells k ! 0) ! j" by blast
    have "\<exists>k2. restore_state \<lparr>ps_sinfo = si, ps_heads_old = kc_heads k, ps_cells = [copy]\<rparr> k1 = Some k2 \<and> kv_same k k2"
      if same: "kv_same k' k1" for k1
    proof (rule restore_back [OF k _ _ sl(4) copy])
      show "si_strm si = [0]" "si_idxs si = [idxs]" using sl(1) by (simp_all add: slot_of_def)
      show k1: "kvc_inv k1" using same by (simp add: kv_same_def)
      show "same_config k k1" using same k'(3) by (simp add: kv_same_def same_config_def)
      have "hp_n_stream (kc_hp k1) = 1" using same k'(3) d(3) by (simp add: kv_same_def same_config_def)
      then have "kv_inv (kc_cells k1 ! 0)" using kvc_invD(7) [OF k1, of 0] by (simp add: stream_ok_def)
      then show "kv_size (kc_cells k1 ! 0) = kv_size (kc_cells k ! 0)"
        using same k'(5) length_cells [OF d(6)] length_cells [of "kc_cells k1 ! 0"] by (simp add: kv_same_def)
      show "\<forall>i<kv_size (kc_cells k ! 0). i \<notin> set idxs \<longrightarrow>
        cells0 k1 ! i = cells0 k ! i \<and> c_ext (kc_cells k1 ! 0) ! i = c_ext (kc_cells k ! 0) ! i"
        using same k'(5,7) put_toks_other [of _ idxs u 0 "cells0 k"] by (simp add: kv_same_def)
      show "c_shift (kc_cells k1 ! 0) = c_shift (kc_cells k ! 0)" using same k'(6) by (simp add: kv_same_def)
    qed
    with si(1) f(1) sl copy k'(1-4) show ?thesis by blast
  qed
qed

section \<open>The loop\<close>

definition n_needed :: "ubatch list \<Rightarrow> nat" where
  "n_needed us = sum_list (map ub_n_tokens us)"

definition slots_for :: "kv_cache \<Rightarrow> ubatch list \<Rightarrow> slot_info list \<Rightarrow> bool" where
  \<comment> \<open>one slot for every micro-batch, of its size, all in different free cells\<close>
  "slots_for k us res \<longleftrightarrow> (\<exists>idxss. list_all2 slot_of res idxss \<and> map length idxss = map ub_n_tokens us \<and>
     distinct (concat idxss) \<and> set (concat idxss) \<subseteq> free_cells k)"

lemma slots_for_Cons:
  assumes "slot_of si idxs" "length idxs = ub_n_tokens u" "distinct idxs" "set idxs \<subseteq> free_cells k"
    and "free_cells k' = free_cells k - set idxs" "slots_for k' us res"
  shows "slots_for k (u # us) (si # res)"
proof -
  from assms(6) obtain idxss where i: "list_all2 slot_of res idxss" "map length idxss = map ub_n_tokens us"
    "distinct (concat idxss)" "set (concat idxss) \<subseteq> free_cells k'" by (auto simp: slots_for_def)
  with assms show ?thesis unfolding slots_for_def
    by (intro exI [of _ "idxs # idxss"]) auto
qed

lemma prepare_loop_spec:
  assumes "unified k" "\<forall>u\<in>set us. unified_batch k u"
  shows "\<exists>ok new saved k'. prepare_loop us res states k = Some (ok, res @ new, states @ saved, k') \<and>
    (ok \<longleftrightarrow> n_needed us \<le> card (free_cells k)) \<and> (ok \<longrightarrow> slots_for k us new \<and> length saved = length us) \<and>
    (\<forall>k1. kv_same k' k1 \<longrightarrow> (\<exists>k2. foldM restore_state (rev saved) k1 = Some k2 \<and> kv_same k k2)) \<and> kvc_inv k'"
  using assms
proof (induction us arbitrary: k res states)
  case Nil
  then show ?case
    by (intro exI [of _ True] exI [of _ "[]"] exI [of _ k]) (simp add: n_needed_def slots_for_def unifiedD)
next
  case (Cons u us)
  have "unified_batch k u" using Cons.prems(2) by simp
  from prepare_step [OF Cons.prems(1) this] show ?case
  proof (elim disjE exE conjE, goal_cases)
    case (1 si)
    with unifiedD(1) [OF Cons.prems(1)] show ?case
      by (intro exI [of _ False] exI [of _ "[]"] exI [of _ k]) (simp add: n_needed_def)
  next
    case (2 si idxs copy k')
    let ?ps = "\<lparr>ps_sinfo = si, ps_heads_old = kc_heads k, ps_cells = [copy]\<rparr>"
    have batch: "\<forall>u\<in>set us. unified_batch k' u"
      using Cons.prems(2) 2(10) by (simp add: unified_batch_def same_config_def valid_seq_def)
    from Cons.IH [OF 2(9) batch, of "res @ [si]" "states @ [?ps]"] obtain ok new saved k2 where
      r: "prepare_loop us (res @ [si]) (states @ [?ps]) k' = Some (ok, (res @ [si]) @ new, (states @ [?ps]) @ saved, k2)"
        "ok \<longleftrightarrow> n_needed us \<le> card (free_cells k')" "ok \<longrightarrow> slots_for k' us new \<and> length saved = length us"
        "\<forall>k1. kv_same k2 k1 \<longrightarrow> (\<exists>k3. foldM restore_state (rev saved) k1 = Some k3 \<and> kv_same k' k3)" "kvc_inv k2" by blast
    have l: "length (kc_cells k) = 1" using unifiedD(7) [OF Cons.prems(1)] .
    have save: "foldM (\<lambda>s saved. do { st \<leftarrow> at (si_strm si) s; c \<leftarrow> at (kc_cells k) st; idxs \<leftarrow> at (si_idxs si) s;
        copy \<leftarrow> kv_cp_idxs idxs c; Some (saved @ [copy]) }) [0..<si_n_stream si] [] = Some [copy]"
      using 2(3,7) l by (simp add: slot_of_def si_n_stream_def)
    have run: "prepare_loop (u # us) res states k = Some (ok, res @ si # new, states @ ?ps # saved, k2)"
      using 2(1,2,8) save r(1) by simp
    have "card (free_cells k') = card (free_cells k) - length idxs"
      using 2(5,6,11) by (simp add: card_Diff_subset distinct_card)
    moreover have "length idxs \<le> card (free_cells k)"
      using card_mono [OF finite_free 2(6)] distinct_card [OF 2(5)] by simp
    ultimately have "ok \<longleftrightarrow> n_needed (u # us) \<le> card (free_cells k)"
      using r(2) 2(4) by (auto simp: n_needed_def)
    moreover have "ok \<longrightarrow> slots_for k (u # us) (si # new) \<and> length (?ps # saved) = length (u # us)"
      using r(3) slots_for_Cons [OF 2(3-6,11)] by simp
    moreover have "\<forall>k1. kv_same k2 k1 \<longrightarrow> (\<exists>k3. foldM restore_state (rev (?ps # saved)) k1 = Some k3 \<and> kv_same k k3)"
    proof (intro allI impI)
      fix k1 assume "kv_same k2 k1"
      with r(4) obtain k3 where k3: "foldM restore_state (rev saved) k1 = Some k3" "kv_same k' k3" by blast
      with 2(12) obtain k4 where "restore_state ?ps k3 = Some k4" "kv_same k k4" by blast
      with k3 show "\<exists>k3. foldM restore_state (rev (?ps # saved)) k1 = Some k3 \<and> kv_same k k3"
        by (auto simp: foldM_append)
    qed
    ultimately show ?case using run r(5) by blast
  qed
qed

lemma prepare_spec:
  assumes "unified k" "\<forall>u\<in>set us. unified_batch k u" "us \<noteq> []"
  shows "\<exists>k' res. prepare us k = Some (k', res) \<and> kv_same k k' \<and>
    (if n_needed us \<le> card (free_cells k) then slots_for k us res else res = [])"
proof -
  from prepare_loop_spec [OF assms(1,2), of "[]" "[]"] obtain ok new saved k' where
    l: "prepare_loop us [] [] k = Some (ok, new, saved, k')" "ok \<longleftrightarrow> n_needed us \<le> card (free_cells k)"
      "ok \<longrightarrow> slots_for k us new \<and> length saved = length us"
      "\<forall>k1. kv_same k' k1 \<longrightarrow> (\<exists>k2. foldM restore_state (rev saved) k1 = Some k2 \<and> kv_same k k2)" "kvc_inv k'" by auto
  from l(4,5) kv_same_refl obtain k2 where k2: "foldM restore_state (rev saved) k' = Some k2" "kv_same k k2" by blast
  have "saved \<noteq> [] \<or> \<not> ok" using l(3) assms(3) by auto
  with l(1) k2(1) have "prepare us k = Some (k2, if ok then new else [])" by (simp add: prepare_def)
  with k2(2) l(2,3) show ?thesis by auto
qed

end
