(* ===== verification/KvMachine.thy ===== *)
theory KvMachine
  imports KvPrepare
begin

text \<open>
  The KV cache as a machine: its sequence operations with their preconditions and
  specifications, the reachable caches, and what holds of them.
\<close>

section \<open>Operations\<close>

datatype kvc_op =
    KClear
  | KSeqRm llama_seq_id llama_pos llama_pos
  | KRmAll llama_pos llama_pos
  | KSeqCp llama_seq_id llama_seq_id llama_pos llama_pos
  | KSeqKeep llama_seq_id
  | KSeqAdd llama_seq_id llama_pos llama_pos llama_pos
  | KSeqDiv llama_seq_id llama_pos llama_pos int
  | KUpdate bool

fun run_kvc :: "kvc_op \<Rightarrow> kv_cache \<Rightarrow> kv_cache option" where
  "run_kvc KClear k = Some (kvc_clear k)"
| "run_kvc (KSeqRm s p0 p1) k = kvc_seq_rm s p0 p1 k"
| "run_kvc (KRmAll p0 p1) k = kvc_seq_rm (-1) p0 p1 k"
| "run_kvc (KSeqCp src dst p0 p1) k = kvc_seq_cp src dst p0 p1 k"
| "run_kvc (KSeqKeep s) k = kvc_seq_keep s k"
| "run_kvc (KSeqAdd s p0 p1 d) k = kvc_seq_add s p0 p1 d k"
| "run_kvc (KSeqDiv s p0 p1 d) k = kvc_seq_div s p0 p1 d k"
| "run_kvc (KUpdate do_shift) k = update_shift do_shift k"

abbreviation seq_stream :: "kv_cache \<Rightarrow> llama_seq_id \<Rightarrow> nat" where
  "seq_stream k s \<equiv> kc_seq_to_stream k ! nat s"

definition seq_cells :: "kv_cache \<Rightarrow> llama_seq_id \<Rightarrow> kv_cells" where
  "seq_cells k s = kc_cells k ! seq_stream k s"

definition moves_ok :: "kv_cache \<Rightarrow> llama_seq_id \<Rightarrow> llama_pos \<Rightarrow> llama_pos \<Rightarrow> (llama_pos \<Rightarrow> llama_pos) \<Rightarrow> (llama_pos \<Rightarrow> llama_pos) \<Rightarrow> bool" where
  \<comment> \<open>the new position and the new pending shift of every moved cell fit an \<open>int32_t\<close>\<close>
  "moves_ok k s p0 p1 f g \<longleftrightarrow> (\<forall>i<kv_size (seq_cells k s).
     in_range_pos p0 p1 (c_pos (seq_cells k s) ! i) \<and> nat s \<in> c_seq (seq_cells k s) ! i \<longrightarrow>
       i32_ok (f (c_pos (seq_cells k s) ! i)) \<and> i32_ok (c_shift (seq_cells k s) ! i + g (c_pos (seq_cells k s) ! i)))"

text \<open>When an operation may be called: the sequences exist, no cell gets a sequence it already
  has, and no position leaves the range of \<open>int32_t\<close>.\<close>

fun kvc_pre :: "kvc_op \<Rightarrow> kv_cache \<Rightarrow> bool" where
  "kvc_pre KClear k \<longleftrightarrow> True"
| "kvc_pre (KSeqRm s p0 p1) k \<longleftrightarrow> valid_seq k s"
| "kvc_pre (KRmAll p0 p1) k \<longleftrightarrow> True"
| "kvc_pre (KSeqCp src dst p0 p1) k \<longleftrightarrow> valid_seq k src \<and> valid_seq k dst \<and>
     (if seq_stream k dst = seq_stream k src
      then src \<noteq> dst \<and> (\<forall>(p, S)\<in>set (cells (seq_cells k src)). in_range_pos p0 p1 p \<and> nat src \<in> S \<longrightarrow> nat dst \<notin> S)
      else bound_inside p0 (kv_size (kc_cells k ! 0)) = Some False \<and> bound_inside p1 (kv_size (kc_cells k ! 0)) = Some False \<and>
        (\<forall>i<kv_size (kc_cells k ! 0). across_pre (nat src) (seq_cells k src) i))"
| "kvc_pre (KSeqKeep s) k \<longleftrightarrow> valid_seq k s"
| "kvc_pre (KSeqAdd s p0 p1 d) k \<longleftrightarrow> valid_seq k s \<and> hp_n_pos_per_embd (kc_hp k) = 1 \<and> moves_ok k s p0 p1 (\<lambda>p. p + d) (\<lambda>_. d)"
| "kvc_pre (KSeqDiv s p0 p1 d) k \<longleftrightarrow> valid_seq k s \<and> hp_n_pos_per_embd (kc_hp k) = 1 \<and> 0 < d \<and>
     moves_ok k s p0 p1 (\<lambda>p. p div d) (\<lambda>p. p - p div d)"
| "kvc_pre (KUpdate do_shift) k \<longleftrightarrow> (do_shift \<longrightarrow> get_can_shift k)"

text \<open>What the operation does to the contents of the streams.\<close>

fun kvc_abs :: "kvc_op \<Rightarrow> nat list \<Rightarrow> cell_contents list \<Rightarrow> cell_contents list" where
  "kvc_abs KClear sts cs = map (map (\<lambda>_. (-1, {}))) cs"
| "kvc_abs (KSeqRm s p0 p1) sts cs = abs_pass (sts ! nat s) (abs_seq_rm (nat s) p0 p1) cs"
| "kvc_abs (KRmAll p0 p1) sts cs = map (map (abs_rm p0 p1)) cs"
| "kvc_abs (KSeqCp src dst p0 p1) sts cs =
     (if sts ! nat dst = sts ! nat src then abs_pass (sts ! nat src) (abs_seq_cp (nat src) (nat dst) p0 p1) cs
      else cs[sts ! nat dst := map (abs_across (nat src) (nat dst)) (cs ! (sts ! nat src))])"
| "kvc_abs (KSeqKeep s) sts cs = abs_pass (sts ! nat s) (abs_seq_keep (nat s)) cs"
| "kvc_abs (KSeqAdd s p0 p1 d) sts cs = abs_pass (sts ! nat s) (abs_seq_add (nat s) p0 p1 d) cs"
| "kvc_abs (KSeqDiv s p0 p1 d) sts cs = abs_pass (sts ! nat s) (abs_seq_div (nat s) p0 p1 d) cs"
| "kvc_abs (KUpdate _) sts cs = cs"

lemma contents_stream: "kvc_inv k \<Longrightarrow> valid_seq k s \<Longrightarrow> kvc_contents k ! seq_stream k s = cells (seq_cells k s)"
  using kvc_invD(2,6) [of k] by (simp add: kvc_contents_def seq_cells_def valid_seq_def)

lemma update_shift_spec:
  assumes "kvc_inv k" "do_shift \<longrightarrow> get_can_shift k"
  shows "\<exists>k'. update_shift do_shift k = Some k' \<and> kvc_inv k' \<and> same_config k k' \<and> kvc_contents k' = kvc_contents k"
proof (cases "kc_other k \<noteq> None \<or> \<not> do_shift")
  case False
  let ?k = "k\<lparr>kc_cells := map kv_reset_shift (kc_cells k)\<rparr>"
  have st: "kv_inv (kv_reset_shift c) \<and> cells (kv_reset_shift c) = cells c" if "c \<in> set (kc_cells k)" for c
  proof -
    from that obtain st where "st < hp_n_stream (kc_hp k)" "c = kc_cells k ! st"
      using kvc_invD(2) [OF assms(1)] by (auto simp: in_set_conv_nth)
    then have "kv_inv c" using kvc_invD(7) [OF assms(1)] by (simp add: stream_ok_def)
    with kv_reset_shift_spec show ?thesis by blast
  qed
  have "kv_size (kv_reset_shift c) = kv_size c" for c by (simp add: kv_reset_shift_def kv_size_def)
  moreover have "map kv_reset_shift (kc_cells k) ! st = kv_reset_shift (kc_cells k ! st)" if "st < hp_n_stream (kc_hp k)" for st
    using that kvc_invD(2) [OF assms(1)] by simp
  ultimately have "stream_ok ?k t" if "t < hp_n_stream (kc_hp k)" for t
    using kvc_invD(7) [OF assms(1) that] kvc_invD(1,2) [OF assms(1)] st that
    by (simp add: stream_ok_def)
  then have "kvc_inv ?k" using assms(1) by (simp add: kvc_inv_def)
  moreover have "kvc_contents ?k = kvc_contents k" using st by (simp add: kvc_contents_def)
  ultimately show ?thesis using False assms(2) by (simp add: update_shift_def)
qed (use assms(1) in \<open>auto simp: update_shift_def\<close>)

lemma run_kvc_refines:
  assumes inv: "kvc_inv k" and own: "kc_other k = None" and pre: "kvc_pre op k"
  shows "\<exists>k'. run_kvc op k = Some k' \<and> kvc_inv k' \<and> same_config k k' \<and>
    kvc_contents k' = kvc_abs op (kc_seq_to_stream k) (kvc_contents k)"
proof (cases op)
  case (KSeqCp src dst p0 p1)
  show ?thesis
  proof (cases "seq_stream k dst = seq_stream k src")
    case True
    with kvc_seq_cp_spec [OF inv own, of src dst p0 p1] pre KSeqCp show ?thesis
      by (simp add: contents_stream [OF inv])
  next
    case False
    with kvc_seq_cp_across_spec [OF inv own, of src dst p0 p1] pre KSeqCp show ?thesis
      by (auto simp: seq_cells_def)
  qed
next
  case (KSeqAdd s p0 p1 d)
  with pre kvc_seq_add_spec [OF inv own, of s p0 p1 d] show ?thesis by (simp add: moves_ok_def seq_cells_def Let_def)
next
  case (KSeqDiv s p0 p1 d)
  with pre kvc_seq_div_spec [OF inv own, of s d p0 p1] show ?thesis by (simp add: moves_ok_def seq_cells_def Let_def)
next
  case KClear
  then show ?thesis using kvc_clear_spec [OF inv] by simp
next
  case (KSeqRm s p0 p1)
  then show ?thesis using kvc_seq_rm_spec [OF inv own] pre by simp
next
  case (KRmAll p0 p1)
  then show ?thesis using kvc_rm_all_spec [OF inv own] by simp
next
  case (KSeqKeep s)
  then show ?thesis using kvc_seq_keep_spec [OF inv own] pre by simp
next
  case (KUpdate b)
  then show ?thesis using update_shift_spec [OF inv] pre by simp
qed

section \<open>Finding a slot and placing a micro-batch\<close>

text \<open>A micro-batch the cache accepts: its blocks belong to different streams, and every token of
  a block to sequences of the block's stream.\<close>

definition ub_ready :: "kv_cache \<Rightarrow> ubatch \<Rightarrow> bool" where
  "ub_ready k u \<longleftrightarrow> ub_fits k u \<and> ub_data_ok u \<and> pos_bounded k \<and>
     (hp_swa_type (kc_hp k) = SWA_CHUNKED \<longrightarrow> hp_n_swa (kc_hp k) \<noteq> 0) \<and>
     distinct (map (slot_st k u) [0..<slot_ns k u]) \<and>
     (\<forall>s < slot_ns k u. \<forall>ii < slot_nt k u. \<forall>id\<in>set (ub_seq_id u ! (s * slot_nt k u + ii)).
        nat id < length (kc_seq_to_stream k) \<and> kc_seq_to_stream k ! nat id = slot_st k u s)"

lemma ub_ready_swa: "ub_ready k u \<Longrightarrow> cache_swa_ok k"
  by (simp add: ub_ready_def cache_swa_ok_def swa_ok_def pos_bounded_def)

lemma usable_takeable: "kv_inv c \<Longrightarrow> i < kv_size c \<Longrightarrow> usable hp c i \<Longrightarrow> takeable (cells c ! i)"
  by (auto simp: usable_def takeable_def nth_cells)

lemma slots_found_ok:
  assumes inv: "kvc_inv k" and u: "ub_ready k u" and si: "slots_found k u cont si"
  shows "slots_ok k u si (slot_nt k u)"
proof -
  have fits: "0 < slot_ns k u" "0 < slot_nt k u" "ub_n_tokens u = slot_ns k u * slot_nt k u"
    "slot_ns k u \<le> length (ub_seq_id_unq u)" "\<forall>s < slot_ns k u. valid_seq k (ub_seq_id_unq u ! s)"
    using u unfolding ub_ready_def ub_fits_def by blast+
  have l: "length (si_strm si) = slot_ns k u" "length (si_idxs si) = slot_ns k u" using si by (simp_all add: slots_found_def)
  have strm: "si_strm si = map (slot_st k u) [0..<slot_ns k u]"
    using si by (intro nth_equalityI) (simp_all add: slots_found_def)
  have "stream_slot_ok u (kc_cells k ! (si_strm si ! s)) (s * slot_nt k u) (si_idxs si ! s) \<and>
    length (si_idxs si ! s) = slot_nt k u \<and> si_strm si ! s < hp_n_stream (kc_hp k)" if s: "s < slot_ns k u" for s
  proof -
    have st: "slot_st k u s < hp_n_stream (kc_hp k)"
      using fits(5) s kvc_invD(6) [OF inv] by (simp add: slot_st_def valid_seq_def)
    then have invc: "kv_inv (kc_cells k ! slot_st k u s)" using kvc_invD(7) [OF inv] by (simp add: stream_ok_def)
    have spec: "slot_spec (kc_hp k) (kc_cells k ! slot_st k u s) cont (slot_nt k u) (Some (si_idxs si ! s))"
      using si s by (simp add: slots_found_def)
    have "Suc s * slot_nt k u \<le> slot_ns k u * slot_nt k u" using s by (intro mult_le_mono1) simp
    then have "s * slot_nt k u + slot_nt k u \<le> ub_n_tokens u" by (simp add: fits(3))
    then show ?thesis
      using spec usable_takeable [OF invc] st s by (auto simp: slot_spec_def stream_slot_ok_def strm)
  qed
  moreover have "distinct (si_strm si)" using u by (simp add: strm ub_ready_def)
  moreover have "\<forall>s < slot_ns k u. \<forall>ii < slot_nt k u. \<forall>id\<in>set (ub_seq_id u ! (s * slot_nt k u + ii)).
      nat id < length (kc_seq_to_stream k) \<and> kc_seq_to_stream k ! nat id = si_strm si ! s"
    using u by (simp add: strm ub_ready_def)
  moreover have "si_strm si \<noteq> []" using l fits(1) by auto
  ultimately show ?thesis using fits l by (simp add: slots_ok_def)
qed

section \<open>Reachable caches\<close>

inductive kvc_reachable :: "kv_cache \<Rightarrow> bool" where
  start: "0 < hp_n_stream hp \<Longrightarrow> hp_n_stream hp \<le> LLAMA_MAX_SEQ \<Longrightarrow> kvc_new hp n_seq_max n = Some k \<Longrightarrow> kvc_reachable k"
| operate: "kvc_reachable k \<Longrightarrow> kvc_pre op k \<Longrightarrow> run_kvc op k = Some k' \<Longrightarrow> kvc_reachable k'"
| place: "kvc_reachable k \<Longrightarrow> ub_ready k u \<Longrightarrow> find_slot k u cont = Some si \<Longrightarrow> \<not> si_empty si \<Longrightarrow>
    apply_ubatch si u k = Some k' \<Longrightarrow> kvc_reachable k'"

lemma kvc_new_inv:
  assumes "0 < hp_n_stream hp" "hp_n_stream hp \<le> LLAMA_MAX_SEQ" "kvc_new hp n_seq_max n = Some k"
  shows "kvc_inv k" "kc_other k = None" "kvc_contents k = replicate (hp_n_stream hp) (replicate n (-1, {}))" "kc_hp k = hp"
proof -
  have k: "k = \<lparr>kc_hp = hp, kc_cells = replicate (hp_n_stream hp) (kv_resize n kv_new),
       kc_heads = replicate (hp_n_stream hp) 0,
       kc_seq_to_stream = (if hp_n_stream hp > 1 then [0..<hp_n_stream hp] else replicate LLAMA_MAX_SEQ 0),
       kc_ssrc = [], kc_sdst = [], kc_other = None\<rparr>"
    using assms(3) by (auto simp: kvc_new_def split: if_splits)
  have new: "kv_inv (kv_resize n kv_new)" "cells (kv_resize n kv_new) = replicate n (-1, {})" using kv_inv_new by blast+
  have sts: "kc_seq_to_stream k \<noteq> []" "length (kc_seq_to_stream k) \<le> LLAMA_MAX_SEQ"
    "\<forall>st\<in>set (kc_seq_to_stream k). st < hp_n_stream hp"
    using assms(1,2) by (cases "hp_n_stream hp > 1"; simp add: k LLAMA_MAX_SEQ_def)+
  have "stream_ok k st" if "st < hp_n_stream hp" for st
    using that new assms(1) by (simp add: stream_ok_def entry_ok_def k)
  moreover have "kc_hp k = hp" "length (kc_cells k) = hp_n_stream hp" "length (kc_heads k) = hp_n_stream hp"
    by (simp_all add: k)
  ultimately show "kvc_inv k" using sts assms(1) unfolding kvc_inv_def by simp
  show "kc_other k = None" "kvc_contents k = replicate (hp_n_stream hp) (replicate n (-1, {}))" "kc_hp k = hp"
    using new by (simp_all add: k kvc_contents_def)
qed

lemma find_apply:
  assumes inv: "kvc_inv k" and own: "kc_other k = None" and u: "ub_ready k u"
    and si: "find_slot k u cont = Some si" "\<not> si_empty si"
  shows "slots_found k u cont si" "slots_ok k u si (slot_nt k u)"
proof -
  have "ub_fits k u" using u by (simp add: ub_ready_def)
  from find_slot_correct [OF inv ub_ready_swa [OF u] this, of cont] si show "slots_found k u cont si"
    by (auto simp: slot_none_def si_empty_def)
  then show "slots_ok k u si (slot_nt k u)" by (rule slots_found_ok [OF inv u])
qed

lemma kvc_reachable_own: "kvc_reachable k \<Longrightarrow> kvc_inv k \<and> kc_other k = None"
proof (induction rule: kvc_reachable.induct)
  case (start hp n_seq_max n k)
  then show ?case using kvc_new_inv by blast
next
  case (operate k op k')
  with run_kvc_refines [of k op] show ?case by (auto simp: same_config_def)
next
  case (place k u cont si k')
  then have inv: "kvc_inv k" "kc_other k = None" by simp_all
  note ok = find_apply [OF inv place(2-4)]
  have "pos_bounded k" "ub_data_ok u" using place(2) by (simp_all add: ub_ready_def)
  from apply_ubatch_spec [OF inv this ok(2)] place(5) inv(2) show ?case by (auto simp: same_config_def)
qed

end
