(* ===== verification/KvPositions.thy ===== *)
theory KvPositions
  imports KvMachine
begin

text \<open>
  What placing a micro-batch does to the positions of a sequence, the bounds of \<open>get_n_kv\<close> and the
  rows of \<open>set_input_k_idxs\<close>.
\<close>

section \<open>Positions of a sequence\<close>

definition kvc_positions :: "kv_cache \<Rightarrow> nat \<Rightarrow> llama_pos set" where
  "kvc_positions k s = seq_positions s (cells (kc_cells k ! (kc_seq_to_stream k ! s)))"

definition batch_positions :: "ubatch \<Rightarrow> nat \<Rightarrow> llama_pos set" where
  "batch_positions u s = {ub_pos u ! i | i. i < ub_n_tokens u \<and> s \<in> nat ` set (ub_seq_id u ! i)}"

definition overwritten :: "kv_cache \<Rightarrow> slot_info \<Rightarrow> nat \<Rightarrow> llama_pos set" where
  \<comment> \<open>positions of the sequence in the cells of the slot\<close>
  "overwritten k si s = {p. (p, {s}) \<in> set (taken k si (length (si_strm si)))}"

definition contiguous :: "llama_pos set \<Rightarrow> bool" where
  "contiguous P \<longleftrightarrow> (\<forall>p\<in>P. \<forall>r\<in>P. \<forall>q. p \<le> q \<and> q \<le> r \<longrightarrow> q \<in> P)"

lemma contiguous_above: "contiguous P \<Longrightarrow> contiguous {p \<in> P. \<forall>q\<in>Q. q < p}"
  unfolding contiguous_def
proof (intro ballI allI impI CollectI conjI)
  fix p r q x
  assume P: "\<forall>p\<in>P. \<forall>r\<in>P. \<forall>q. p \<le> q \<and> q \<le> r \<longrightarrow> q \<in> P"
    and pr: "p \<in> {p \<in> P. \<forall>q\<in>Q. q < p}" "r \<in> {p \<in> P. \<forall>q\<in>Q. q < p}" and q: "p \<le> q \<and> q \<le> r"
  from P pr q show "q \<in> P" by blast
  assume "x \<in> Q"
  with pr(1) have "x < p" by blast
  with q show "x < q" by simp
qed

lemma seq_positions_purged:
  assumes "s < m"
  shows "seq_positions s (map (purged rm m) cs) = {p \<in> seq_positions s cs. rm ! s < p}"
proof (rule set_eqI)
  fix p
  have "(\<exists>S. (p, S) = purged rm m e \<and> s \<in> S) \<longleftrightarrow> fst e = p \<and> s \<in> snd e \<and> rm ! s < p" for e
    using assms by (auto simp: purged_def Let_def)
  then show "p \<in> seq_positions s (map (purged rm m) cs) \<longleftrightarrow> p \<in> {p \<in> seq_positions s cs. rm ! s < p}"
    unfolding seq_positions_def by (auto simp: image_iff) (metis fst_conv snd_conv)+
qed

lemma seq_positions_nonneg: "kv_inv c \<Longrightarrow> p \<in> seq_positions s (cells c) \<Longrightarrow> 0 \<le> p"
  using kv_entry_wf [of c] length_cells [of c]
  by (auto simp: seq_positions_def in_set_conv_nth entry_wf_def cell_ok_def) (metis fst_conv snd_conv equals0D)

text \<open>The tokens of one block, written over its cells.\<close>

lemma put_toks_positions:
  assumes "kv_inv c" "distinct idxs" "\<forall>i\<in>set idxs. i < kv_size c \<and> takeable (cells c ! i)"
    and "\<forall>i\<in>set idxs. \<forall>p. cells c ! i = (p, {s}) \<longrightarrow> p \<le> m"
  shows "{p \<in> seq_positions s (put_toks u b idxs (cells c)). m < p} =
    {p \<in> seq_positions s (cells c) \<union> {ub_pos u ! (b + ii) | ii. ii < length idxs \<and> s \<in> nat ` set (ub_seq_id u ! (b + ii))}. m < p}"
    (is "?A = ?B")
proof (rule equalityI; rule subsetI)
  fix p assume "p \<in> ?A"
  then obtain S where S: "(p, S) \<in> set (put_toks u b idxs (cells c))" "s \<in> S" "m < p" by (auto simp: seq_positions_def)
  from put_toks_entries [OF S(1)] show "p \<in> ?B"
  proof
    assume "(p, S) \<in> set (cells c)"
    with S show "p \<in> ?B" by (auto simp: seq_positions_def)
  next
    assume "\<exists>ii<length idxs. (p, S) = tok u (b + ii)"
    with S show "p \<in> ?B" by (auto simp: tok_def)
  qed
next
  fix p assume p: "p \<in> ?B"
  have len: "length (cells c) = kv_size c" by (rule length_cells [OF assms(1)])
  from p have m: "m < p" and alt: "p \<in> seq_positions s (cells c) \<or>
      (\<exists>ii. p = ub_pos u ! (b + ii) \<and> ii < length idxs \<and> s \<in> nat ` set (ub_seq_id u ! (b + ii)))" by auto
  from alt show "p \<in> ?A"
  proof (elim conjE disjE exE)
    assume "p \<in> seq_positions s (cells c)"
    then obtain j S where j: "j < kv_size c" "cells c ! j = (p, S)" "s \<in> S"
      using len by (auto simp: seq_positions_def in_set_conv_nth)
    have "j \<notin> set idxs"
    proof
      assume i: "j \<in> set idxs"
      have "0 \<le> p" using kv_entry_wf [OF assms(1) j(1)] j by (auto simp: entry_wf_def cell_ok_def)
      with assms(3) i j have "S = {s}" by (auto simp: takeable_def)
      with assms(4) i j m show False by force
    qed
    then have "put_toks u b idxs (cells c) ! j = (p, S)" using j by (simp add: put_toks_other)
    moreover have "j < length (put_toks u b idxs (cells c))" using j(1) len by simp
    ultimately have "(p, S) \<in> set (put_toks u b idxs (cells c))" by (metis nth_mem)
    with j(3) m show "p \<in> ?A" unfolding seq_positions_def by blast
  next
    fix ii assume ii: "p = ub_pos u ! (b + ii)" "ii < length idxs" "s \<in> nat ` set (ub_seq_id u ! (b + ii))"
    have "\<forall>i\<in>set idxs. i < length (cells c)" using assms(3) len by simp
    from put_toks_nth [OF assms(2) this ii(2), of u b] ii(1)
    have n: "put_toks u b idxs (cells c) ! (idxs ! ii) = (p, nat ` set (ub_seq_id u ! (b + ii)))" by (simp add: tok_def)
    have "idxs ! ii < length (put_toks u b idxs (cells c))" using assms(3) ii(2) len by simp
    from nth_mem [OF this] ii(3) m show "p \<in> ?A"
      unfolding n seq_positions_def by blast
  qed
qed

text \<open>The blocks of a batch: token \<open>i\<close> belongs to block \<open>i div nt\<close>.\<close>

lemma batch_positions_block:
  assumes ok: "slots_ok k u si nt" and t: "t < length (si_strm si)" "si_strm si ! t = kc_seq_to_stream k ! s" and s: "s < LLAMA_MAX_SEQ"
    and data: "ub_data_ok u"
  shows "batch_positions u s = {ub_pos u ! (t * nt + ii) | ii. ii < nt \<and> s \<in> nat ` set (ub_seq_id u ! (t * nt + ii))}"
proof -
  have n: "ub_n_tokens u = length (si_strm si) * nt" "0 < nt" "distinct (si_strm si)" using ok by (simp_all add: slots_ok_def)
  have block: "i div nt = t" if "i < ub_n_tokens u" "s \<in> nat ` set (ub_seq_id u ! i)" for i
  proof -
    have d: "i div nt < length (si_strm si)" using that(1) n by (simp add: less_mult_imp_div_less)
    have "i mod nt < nt" "i div nt * nt + i mod nt = i" using n(2) by simp_all
    with ok d that(2) have "kc_seq_to_stream k ! s = si_strm si ! (i div nt)" unfolding slots_ok_def by fastforce
    with t n(3) d show ?thesis by (simp add: nth_eq_iff_index_eq)
  qed
  have "t * nt + ii < ub_n_tokens u" if "ii < nt" for ii
  proof -
    have "Suc t * nt \<le> length (si_strm si) * nt" using t(1) by (intro mult_le_mono1) simp
    with that n(1) show ?thesis by simp
  qed
  moreover have "\<exists>ii<nt. i = t * nt + ii" if "i < ub_n_tokens u" "s \<in> nat ` set (ub_seq_id u ! i)" for i
    using block [OF that] n(2) by (intro exI [of _ "i mod nt"]) (metis div_mult_mod_eq mod_less_divisor)
  ultimately show ?thesis unfolding batch_positions_def by blast
qed

lemma batch_positions_none:
  assumes ok: "slots_ok k u si nt" and "kc_seq_to_stream k ! s \<notin> set (si_strm si)"
  shows "batch_positions u s = {}"
proof (rule ccontr)
  assume "batch_positions u s \<noteq> {}"
  then obtain i where i: "i < ub_n_tokens u" "s \<in> nat ` set (ub_seq_id u ! i)" by (auto simp: batch_positions_def)
  have n: "ub_n_tokens u = length (si_strm si) * nt" "0 < nt" using ok by (simp_all add: slots_ok_def)
  have d: "i div nt < length (si_strm si)" using i(1) n by (simp add: less_mult_imp_div_less)
  have "i mod nt < nt" "i div nt * nt + i mod nt = i" using n(2) by simp_all
  with ok d i(2) have "kc_seq_to_stream k ! s = si_strm si ! (i div nt)" unfolding slots_ok_def by fastforce
  with d assms(2) show False by simp
qed

lemma apply_positions:
  assumes inv: "kvc_inv k" and own: "kc_other k = None" and bound: "pos_bounded k" and data: "ub_data_ok u"
    and ok: "slots_ok k u si nt"
  shows "\<exists>k'. apply_ubatch si u k = Some k' \<and> kvc_inv k' \<and> same_config k k' \<and>
    (\<forall>s<length (kc_seq_to_stream k). kvc_positions k' s =
       {p \<in> kvc_positions k s \<union> batch_positions u s. \<forall>q\<in>overwritten k si s. q < p})"
proof -
  from apply_ubatch_spec [OF assms] obtain k' rm where
    k': "apply_ubatch si u k = Some k'" "kvc_inv k'" "same_config k k'" "rm_tracks (taken k si (length (si_strm si))) rm"
    and out: "\<forall>st<hp_n_stream (kc_hp k). st \<notin> set (si_strm si) \<longrightarrow>
       cells (kc_cells k' ! st) = map (purged rm LLAMA_MAX_SEQ) (cells (kc_cells k ! st))"
    and into: "\<forall>t<length (si_strm si). cells (kc_cells k' ! (si_strm si ! t)) =
       map (purged rm LLAMA_MAX_SEQ) (put_toks u (t * nt) (si_idxs si ! t) (cells (kc_cells k ! (si_strm si ! t))))"
    by blast
  have "kvc_positions k' s = {p \<in> kvc_positions k s \<union> batch_positions u s. \<forall>q\<in>overwritten k si s. q < p}"
    if s: "s < length (kc_seq_to_stream k)" for s
  proof -
    let ?st = "kc_seq_to_stream k ! s"
    have s256: "s < LLAMA_MAX_SEQ" and st: "?st < hp_n_stream (kc_hp k)" using s kvc_invD(4,6) [OF inv] by simp_all
    have invc: "kv_inv (kc_cells k ! ?st)" using kvc_invD(7) [OF inv st] by (simp add: stream_ok_def)
    have sts: "kc_seq_to_stream k' ! s = ?st" using k'(3) by (simp add: same_config_def)
    have old: "\<And>q. q \<in> overwritten k si s \<Longrightarrow> q \<le> rm ! s" "rm ! s = -1 \<or> rm ! s \<in> overwritten k si s"
      using k'(4) s256 by (auto simp: rm_tracks_def overwritten_def)
    have limit: "rm ! s < p \<longleftrightarrow> (\<forall>q\<in>overwritten k si s. q < p)" if "0 \<le> p" for p
      using old that by (auto dest: order_le_less_trans)
    have batch0: "0 \<le> p" if "p \<in> batch_positions u s" for p
      using that data by (auto simp: batch_positions_def ub_data_ok_def)
    have nonneg: "0 \<le> p" if "p \<in> kvc_positions k s \<union> batch_positions u s" for p
      using that seq_positions_nonneg [OF invc, of p s] batch0 [of p] by (auto simp: kvc_positions_def)
    have "kvc_positions k' s = {p \<in> kvc_positions k s \<union> batch_positions u s. rm ! s < p}"
    proof (cases "?st \<in> set (si_strm si)")
      case False
      then show ?thesis
        using out st batch_positions_none [OF ok False] unfolding kvc_positions_def sts
        by (simp add: seq_positions_purged [OF s256])
    next
      case True
      then obtain t where t: "t < length (si_strm si)" "si_strm si ! t = ?st" by (auto simp: in_set_conv_nth)
      then have slot: "stream_slot_ok u (kc_cells k ! ?st) (t * nt) (si_idxs si ! t)" "length (si_idxs si ! t) = nt"
        using ok by (auto simp: slots_ok_def)
      have "\<forall>i\<in>set (si_idxs si ! t). \<forall>p. cells (kc_cells k ! ?st) ! i = (p, {s}) \<longrightarrow> p \<le> rm ! s"
      proof (intro ballI allI impI)
        fix i p assume "i \<in> set (si_idxs si ! t)" "cells (kc_cells k ! ?st) ! i = (p, {s})"
        with t have "(p, {s}) \<in> set (taken k si (length (si_strm si)))"
          unfolding taken_def by (auto intro!: bexI [of _ t] image_eqI [of _ _ i])
        with old(1) show "p \<le> rm ! s" by (simp add: overwritten_def)
      qed
      with put_toks_positions [OF invc, of "si_idxs si ! t" s "rm ! s" u "t * nt"] slot
      have "{p \<in> seq_positions s (put_toks u (t * nt) (si_idxs si ! t) (cells (kc_cells k ! ?st))). rm ! s < p} =
        {p \<in> kvc_positions k s \<union> batch_positions u s. rm ! s < p}"
        unfolding batch_positions_block [OF ok t s256 data] kvc_positions_def by (simp add: stream_slot_ok_def)
      moreover have "cells (kc_cells k' ! ?st) =
          map (purged rm LLAMA_MAX_SEQ) (put_toks u (t * nt) (si_idxs si ! t) (cells (kc_cells k ! ?st)))"
        using into t by metis
      ultimately show ?thesis unfolding kvc_positions_def sts by (simp add: seq_positions_purged [OF s256])
    qed
    with limit nonneg show ?thesis by blast
  qed
  with k' show ?thesis by blast
qed

section \<open>The number of cells the graph attends to\<close>

lemma and_not_mask: "and w (not (mask m)) = push_bit m (drop_bit m (w :: 32 word))"
  by (rule bit_word_eqI) (auto simp: bit_and_iff bit_not_iff bit_mask_iff bit_push_bit_iff bit_drop_bit_eq)

lemma ggml_pad_rounds_up:
  assumes "x + 2 ^ m \<le> 2 ^ 32" "m < 32"
  shows "unat (ggml_pad x (2 ^ m)) = (x + 2 ^ m - 1) div 2 ^ m * 2 ^ m"
proof -
  define y where "y = x + 2 ^ m - 1"
  have y32: "y < 2 ^ 32" using assms(1) by (simp add: y_def)
  have "1 \<le> x + (2::nat) ^ m" by (simp add: Suc_leI)
  from of_nat_diff [OF this, where 'a = "32 word"]
  have yw: "word_of_nat x + word_of_nat (2 ^ m) - 1 = (word_of_nat y :: 32 word)" unfolding y_def by simp
  note y = y32 yw
  have mask: "word_of_nat (2 ^ m) - 1 = (mask m :: 32 word)" by (simp add: mask_eq_decr_exp)
  have uy: "unat (word_of_nat y :: 32 word) = y" using y(1) by (simp add: unat_of_nat take_bit_nat_eq_self)
  have d: "unat (drop_bit m (word_of_nat y :: 32 word)) = y div 2 ^ m" unfolding unat_drop_bit_eq uy by (simp add: drop_bit_eq_div)
  have "y div 2 ^ m * 2 ^ m < 2 ^ 32" using y(1) by (rule order_le_less_trans [OF div_times_less_eq_dividend])
  moreover have "unat (push_bit m w) = take_bit 32 (push_bit m (unat w))" for w :: "32 word"
    using unsigned_push_bit_eq [of m w] by simp
  ultimately have "unat (push_bit m (drop_bit m (word_of_nat y :: 32 word))) = y div 2 ^ m * 2 ^ m"
    by (simp only: d) (simp add: push_bit_eq_mult take_bit_nat_eq_self)
  then show ?thesis unfolding ggml_pad_def y(2) mask and_not_mask y_def [symmetric] .
qed

text \<open>\<open>get_n_kv\<close>: the cells of every stream of the slot that are in use lie below it.\<close>

lemma used_max_le:
  assumes "kv_inv c"
  shows "kv_used_max_p1 c \<le> kv_size c" "i < kv_size c \<Longrightarrow> c_pos c ! i \<noteq> -1 \<Longrightarrow> i < kv_used_max_p1 c"
proof -
  have used: "c_used c = {i. i < kv_size c \<and> c_pos c ! i \<noteq> -1}" using assms by (auto simp: kv_inv_def)
  then have fin: "finite (c_used c)" by simp
  show "kv_used_max_p1 c \<le> kv_size c"
  proof (cases "c_used c = {}")
    case False
    with Max_in [OF fin] used have "Max (c_used c) < kv_size c" by blast
    with False show ?thesis by (simp add: kv_used_max_p1_def)
  qed (simp add: kv_used_max_p1_def)
  assume "i < kv_size c" "c_pos c ! i \<noteq> -1"
  then have "i \<in> c_used c" using used by blast
  with Max_ge [OF fin this] show "i < kv_used_max_p1 c" by (auto simp: kv_used_max_p1_def)
qed

lemma foldM_max:
  assumes "\<And>x. x \<in> set xs \<Longrightarrow> f x = Some (g x)"
  shows "foldM (\<lambda>x r. Option.bind (f x) (\<lambda>v. Some (max v r))) xs (r :: nat) = Some (Max (insert r (g ` set xs)))"
  using assms
proof (induction xs arbitrary: r)
  case (Cons x xs)
  then have "foldM (\<lambda>x r. Option.bind (f x) (\<lambda>v. Some (max v r))) (x # xs) r = Some (Max (insert (max (g x) r) (g ` set xs)))" by simp
  also have "Max (insert (max (g x) r) (g ` set xs)) = Max (insert r (g ` set (x # xs)))"
    by (cases "g ` set xs = {}") (simp_all add: max.left_commute max.assoc max.commute)
  finally show ?case .
qed simp

definition n_kv_of :: "nat \<Rightarrow> kv_cells \<Rightarrow> nat" where
  "n_kv_of pad c = min (kv_size c) (max pad (unat (ggml_pad (kv_used_max_p1 c) pad)))"

lemma get_n_kv_eq:
  assumes "kvc_inv k" "\<forall>st\<in>set (si_strm si). st < hp_n_stream (kc_hp k)"
  shows "get_n_kv si k = Some (Max (insert 0 (n_kv_of (max (hp_n_pad (kc_hp k)) 256) ` (\<lambda>st. kc_cells k ! st) ` set (si_strm si))))"
proof -
  let ?pad = "max (hp_n_pad (kc_hp k)) 256"
  let ?f = "\<lambda>s. do { st \<leftarrow> at (si_strm si) s; c \<leftarrow> at (kc_cells k) st; Some (n_kv_of ?pad c) }"
  have f: "?f s = Some (n_kv_of ?pad (kc_cells k ! (si_strm si ! s)))" if "s \<in> set [0..<si_n_stream si]" for s
    using that assms(2) kvc_invD(2) [OF assms(1)] by (simp add: si_n_stream_def)
  have "get_n_kv si k = foldM (\<lambda>s r. Option.bind (?f s) (\<lambda>v. Some (max v r))) [0..<si_n_stream si] 0"
    by (simp add: get_n_kv_def Let_def n_kv_of_def Option.bind_assoc)
  also have "\<dots> = Some (Max (insert 0 ((\<lambda>s. n_kv_of ?pad (kc_cells k ! (si_strm si ! s))) ` set [0..<si_n_stream si])))"
    by (rule foldM_max) (rule f)
  also have "(\<lambda>s. n_kv_of ?pad (kc_cells k ! (si_strm si ! s))) ` set [0..<si_n_stream si] =
      n_kv_of ?pad ` (\<lambda>st. kc_cells k ! st) ` set (si_strm si)"
  proof -
    have "set (si_strm si) = (\<lambda>s. si_strm si ! s) ` set [0..<si_n_stream si]"
      by (metis list.set_map map_nth si_n_stream_def)
    then show ?thesis by (simp add: image_image)
  qed
  finally show ?thesis .
qed

lemma n_kv_of_covers:
  assumes "kv_inv c" "pad = 2 ^ m" "m < 32" "kv_size c + pad \<le> 2 ^ 32"
  shows "kv_used_max_p1 c \<le> n_kv_of pad c" "n_kv_of pad c \<le> kv_size c" "n_kv_of pad c = kv_size c \<or> pad dvd n_kv_of pad c"
proof -
  let ?x = "kv_used_max_p1 c"
  have x: "?x \<le> kv_size c" by (rule used_max_le(1) [OF assms(1)])
  then have r: "unat (ggml_pad ?x pad) = (?x + pad - 1) div pad * pad"
    using ggml_pad_rounds_up [of ?x m] assms by simp
  have pos: "0 < pad" using assms(2) by simp
  have "(?x + pad - 1) div pad * pad = ?x + pad - 1 - (?x + pad - 1) mod pad" by (simp add: minus_mod_eq_div_mult)
  moreover have "(?x + pad - 1) mod pad < pad" using pos by simp
  ultimately have "?x \<le> unat (ggml_pad ?x pad)" unfolding r by simp
  with x show "?x \<le> n_kv_of pad c" by (simp add: n_kv_of_def)
  show "n_kv_of pad c \<le> kv_size c" by (simp add: n_kv_of_def)
  show "n_kv_of pad c = kv_size c \<or> pad dvd n_kv_of pad c"
    by (auto simp: n_kv_of_def min_def max_def r)
qed

section \<open>Rows of the K tensor\<close>

lemma set_input_k_idxs_eq:
  assumes inv: "kvc_inv k" and ok: "slots_ok k u si nt"
    and fits: "hp_n_stream (kc_hp k) * kv_size (kc_cells k ! 0) \<le> 2 ^ 32"
  shows "\<exists>dst. set_input_k_idxs si u k = Some dst \<and> length dst = ub_n_tokens u \<and>
    (\<forall>s<length (si_strm si). \<forall>i<nt. dst ! (s * nt + i) = si_strm si ! s * kv_size (kc_cells k ! 0) + si_idxs si ! s ! i)"
proof -
  let ?ns = "length (si_strm si)" and ?sz = "kv_size (kc_cells k ! 0)"
  have n: "ub_n_tokens u = ?ns * nt" "0 < nt" "length (si_idxs si) = ?ns" "si_strm si \<noteq> []" "\<forall>s<?ns. length (si_idxs si ! s) = nt"
    using ok by (simp_all add: slots_ok_def)
  have "si_idxs si \<noteq> []" using n(3,4) by auto
  then have "hd (si_idxs si) = si_idxs si ! 0" "0 < ?ns" using n(4) by (simp_all add: hd_conv_nth)
  then have size: "si_size si = Some nt" using n \<open>si_idxs si \<noteq> []\<close> by (simp add: si_size_def)
  have sz: "kvc_get_size k = Some ?sz"
  proof -
    have "kc_seq_to_stream k ! 0 < hp_n_stream (kc_hp k)" using kvc_invD(5,6) [OF inv] by simp
    with kvc_invD(7) [OF inv this] kvc_invD(2,5) [OF inv] show ?thesis
      unfolding kvc_get_size_def stream_ok_def by simp
  qed
  have low: "si_strm si ! s * ?sz mod 2 ^ 32 = si_strm si ! s * ?sz" if "s < ?ns" for s
  proof (cases "?sz = 0")
    case False
    have "Suc (si_strm si ! s) \<le> hp_n_stream (kc_hp k)" using ok that by (simp add: slots_ok_def Suc_le_eq)
    then have "Suc (si_strm si ! s) * ?sz \<le> hp_n_stream (kc_hp k) * ?sz" by (rule mult_le_mono1)
    with fits have "Suc (si_strm si ! s) * ?sz \<le> 2 ^ 32" by (rule order_trans [rotated])
    with False have "si_strm si ! s * ?sz < 2 ^ 32" by simp
    then show ?thesis by (rule mod_less)
  qed simp
  let ?row = "\<lambda>s i. si_strm si ! s * ?sz + si_idxs si ! s ! i"
  let ?inner = "\<lambda>s i dst. do { idx \<leftarrow> at (si_idxs si ! s) i; Some (dst[s * nt + i := si_strm si ! s * ?sz mod 2 ^ 32 + idx]) }"
  have inner: "\<exists>d'. foldM (?inner s) [0..<nt] d = Some d' \<and> length d' = length d \<and> (\<forall>i<nt. d' ! (s * nt + i) = ?row s i) \<and>
      (\<forall>j. j < s * nt \<longrightarrow> d' ! j = d ! j)" if s: "s < ?ns" and d: "length d = ?ns * nt" for s and d :: "nat list"
  proof -
    have room: "s * nt + i < length d" if "i < nt" for i
    proof -
      have "Suc s * nt \<le> ?ns * nt" using s by (intro mult_le_mono1) simp
      with that d show ?thesis by simp
    qed
    let ?P = "\<lambda>done d'. length d' = length d \<and> (\<forall>i<length done. d' ! (s * nt + i) = ?row s i) \<and> (\<forall>j. j < s * nt \<longrightarrow> d' ! j = d ! j)"
    have "\<exists>d'. foldM (?inner s) [0..<nt] d = Some d' \<and> ?P [0..<nt] d'"
    proof (rule foldM_rule)
      fix "done" i rest d1
      assume split: "[0..<nt] = done @ i # rest" and P: "?P done d1"
      note i = upt_split [OF split]
      have "?inner s i d1 = Some (d1[s * nt + i := ?row s i])" unfolding low [OF s] using n(5) s i(2) by simp
      moreover have "?P (done @ [i]) (d1[s * nt + i := ?row s i])"
        using P room i by (auto simp: less_Suc_eq nth_list_update)
      ultimately show "\<exists>d'. ?inner s i d1 = Some d' \<and> ?P (done @ [i]) d'" by blast
    qed simp
    then show ?thesis by simp
  qed
  let ?outer = "\<lambda>s dst. do { st \<leftarrow> at (si_strm si) s; idxs \<leftarrow> at (si_idxs si) s; sz \<leftarrow> kvc_get_size k;
       foldM (\<lambda>i dst. do { idx \<leftarrow> at idxs i; Some (dst[s * nt + i := st * sz mod 2 ^ 32 + idx]) }) [0..<nt] dst }"
  let ?Q = "\<lambda>done d. length d = ?ns * nt \<and> (\<forall>s<length done. \<forall>i<nt. d ! (s * nt + i) = ?row s i)"
  have "\<exists>d. foldM ?outer [0..<?ns] (replicate (?ns * nt) 0) = Some d \<and> ?Q [0..<?ns] d"
  proof (rule foldM_rule)
    fix "done" s rest d
    assume split: "[0..<?ns] = done @ s # rest" and Q: "?Q done d"
    note s = upt_split [OF split]
    from inner [OF s(2)] Q obtain d' where d': "foldM (?inner s) [0..<nt] d = Some d'" "length d' = length d"
      "\<forall>i<nt. d' ! (s * nt + i) = ?row s i" "\<forall>j. j < s * nt \<longrightarrow> d' ! j = d ! j" by blast
    have "t * nt + i < s * nt" if "t < s" "i < nt" for t i
    proof -
      have "Suc t * nt \<le> s * nt" using that(1) by (intro mult_le_mono1) simp
      with that(2) show ?thesis by simp
    qed
    then have "?Q (done @ [s]) d'" using Q d' s by (auto simp: less_Suc_eq)
    moreover have "?outer s d = Some d'" using d'(1) s(2) n(3) sz by simp
    ultimately show "\<exists>d'. ?outer s d = Some d' \<and> ?Q (done @ [s]) d'" by blast
  qed simp
  then show ?thesis using size n(1) by (auto simp: set_input_k_idxs_def si_n_stream_def)
qed

lemma row_unique:
  assumes "i < sz" "j < sz" "a * sz + i = b * sz + (j :: nat)"
  shows "a = b" "i = j"
proof -
  have "(a * sz + i) div sz = a" "(b * sz + j) div sz = b" using assms(1,2) by simp_all
  then show "a = b" using assms(3) by simp
  with assms(3) show "i = j" by simp
qed

end
