(* ===== verification/KvCacheProps.thy ===== *)
theory KvCacheProps
  imports KvPositions
begin

text \<open>
  The properties of the KV cache: its operations refine their specification, the slot search is
  complete, placing a micro-batch keeps the positions of a sequence contiguous, \<open>prepare\<close> leaves the
  cache as it was, and the sizes and indices handed to the graph are right.
\<close>

section \<open>A cache to try them on\<close>

definition demo_hp :: kv_hparams where
  "demo_hp = \<lparr>hp_n_stream = 1, hp_n_pad = 1, hp_n_swa = 0, hp_swa_type = SWA_NONE, hp_n_pos_per_embd = 1,
     hp_arch_step35 = False, hp_ple_n_heads = 0, hp_ple_image_token_id = 0, hp_ple_eos_token_id = 0\<rparr>"

definition demo_cache :: kv_cache where
  "demo_cache = \<lparr>kc_hp = demo_hp, kc_cells = [kv_resize 4 kv_new], kc_heads = [0],
     kc_seq_to_stream = replicate LLAMA_MAX_SEQ 0, kc_ssrc = [], kc_sdst = [], kc_other = None\<rparr>"

definition demo_ub :: ubatch where
  \<comment> \<open>two tokens of sequence 0 at positions 0 and 1\<close>
  "demo_ub = \<lparr>ub_equal_seqs = True, ub_n_tokens = 2, ub_n_seq_tokens = 2, ub_n_seqs = 1, ub_n_seqs_unq = 1, ub_n_pos = 1,
     ub_token = Some [7, 8], ub_embd = None, ub_pos = [0, 1], ub_n_seq_id = [1, 1], ub_seq_id = [[0], [0]], ub_seq_id_unq = [0],
     ub_seq_idx = [0], ub_output = [False, True]\<rparr>"

lemma demo_new: "kvc_new demo_hp 1 4 = Some demo_cache"
  by (simp add: kvc_new_def demo_hp_def demo_cache_def)

lemma demo_reachable: "kvc_reachable demo_cache"
  by (rule kvc_reachable.start [OF _ _ demo_new]) (simp_all add: demo_hp_def LLAMA_MAX_SEQ_def)

lemmas demo_own = kvc_reachable_own [OF demo_reachable]

lemma demo_cells: "cells0 demo_cache = replicate 4 (-1, {})"
  using kv_inv_new [of 4] by (simp add: demo_cache_def)

lemma demo_sts [simp]: "length (kc_seq_to_stream demo_cache) = LLAMA_MAX_SEQ"
  "s < LLAMA_MAX_SEQ \<Longrightarrow> kc_seq_to_stream demo_cache ! s = 0" "kc_hp demo_cache = demo_hp"
  "kc_cells demo_cache = [kv_resize 4 kv_new]"
  by (simp_all add: demo_cache_def)

lemma demo_max_seq [simp]: "0 < LLAMA_MAX_SEQ" "Suc 0 < LLAMA_MAX_SEQ"
  by (simp_all add: LLAMA_MAX_SEQ_def)

lemma demo_bounded: "pos_bounded demo_cache"
  by (simp add: pos_bounded_def kv_resize_new_lists INT32_MAX_def)

lemma demo_unified: "unified demo_cache"
  using demo_own demo_bounded by (simp add: unified_def demo_hp_def)

lemma demo_data: "ub_data_ok demo_ub"
  by (auto simp: ub_data_ok_def demo_ub_def less_Suc_eq numeral_2_eq_2)

lemma demo_ready: "ub_ready demo_cache demo_ub"
  using demo_data demo_bounded
  by (auto simp: ub_ready_def ub_fits_def slot_ns_def slot_nt_def slot_st_def demo_hp_def valid_seq_def)
     (auto simp: demo_ub_def less_Suc_eq numeral_2_eq_2)

lemma demo_batch: "unified_batch demo_cache demo_ub"
  using demo_data by (auto simp: unified_batch_def valid_seq_def) (auto simp: demo_ub_def less_Suc_eq numeral_2_eq_2 INT32_MAX_def)

lemma demo_free: "free_cells demo_cache = {0, 1, 2, 3}"
  using demo_cells kv_inv_new [of 4] length_cells [of "kv_resize 4 kv_new"] by (auto simp: free_cells_def)

lemma demo_find: "\<exists>si. find_slot demo_cache demo_ub False = Some si \<and> \<not> si_empty si"
  using unified_find [OF demo_unified demo_batch] by (auto simp: demo_free demo_ub_def)

lemma demo_positions [simp]: "s < LLAMA_MAX_SEQ \<Longrightarrow> kvc_positions demo_cache s = {}"
  using demo_cells by (simp add: kvc_positions_def seq_positions_def)

lemma demo_batch_positions: "batch_positions demo_ub 0 = {0, 1}"
  by (auto simp: batch_positions_def demo_ub_def less_Suc_eq numeral_2_eq_2)
     (rule exI [of _ 0], simp, rule exI [of _ 1], simp)

section \<open>Sequence operations\<close>

lemma kvc_bounds:
  assumes "kvc_inv k" "kc_other k = None" "valid_seq k s"
  shows "kvc_seq_pos_min s k = Some (if kvc_positions k (nat s) = {} then -1 else Min (kvc_positions k (nat s)))"
    and "kvc_seq_pos_max s k = Some (if kvc_positions k (nat s) = {} then -1 else Max (kvc_positions k (nat s)))"
proof -
  note v = valid_seqD [OF assms(1,3)]
  show "kvc_seq_pos_min s k = Some (if kvc_positions k (nat s) = {} then -1 else Min (kvc_positions k (nat s)))"
    "kvc_seq_pos_max s k = Some (if kvc_positions k (nat s) = {} then -1 else Max (kvc_positions k (nat s)))"
    using assms(2) v kv_seq_pos_min_eq [OF v(6,2)] kv_seq_pos_max_eq [OF v(6,2)]
    by (simp_all add: kvc_seq_pos_min_def kvc_seq_pos_max_def kvc_bound_stream_def kvc_positions_def)
qed

text \<open>C31. From a reachable cache every sequence operation (\<open>clear\<close>, \<open>seq_rm\<close>, \<open>seq_cp\<close> within and across streams,
  \<open>seq_keep\<close>, \<open>seq_add\<close>, \<open>seq_div\<close>, the shift part of \<open>update\<close>) called within its precondition returns,
  leaves a reachable cache, and changes the contents of the cells exactly as its pointwise specification.\<close>

theorem kvc_op_refines:
  assumes "kvc_reachable k" "kvc_pre op k"
  shows "\<exists>k'. run_kvc op k = Some k' \<and> kvc_reachable k' \<and>
    kvc_contents k' = kvc_abs op (kc_seq_to_stream k) (kvc_contents k)"
proof -
  have "kvc_inv k" "kc_other k = None" using kvc_reachable_own [OF assms(1)] by simp_all
  from run_kvc_refines [OF this assms(2)] obtain k' where
    "run_kvc op k = Some k'" "kvc_contents k' = kvc_abs op (kc_seq_to_stream k) (kvc_contents k)" by auto
  with kvc_reachable.operate [OF assms] show ?thesis by blast
qed

theorem kvc_op_refines_witness:
  "\<exists>k'. run_kvc (KSeqRm 0 0 (-1)) demo_cache = Some k' \<and> kvc_contents k' = [replicate 4 (-1, {})]"
proof -
  have "kvc_pre (KSeqRm 0 0 (-1)) demo_cache" by (simp add: valid_seq_def)
  from kvc_op_refines [OF demo_reachable this] obtain k' where
    "run_kvc (KSeqRm 0 0 (-1)) demo_cache = Some k'"
    "kvc_contents k' = abs_pass 0 (abs_seq_rm 0 0 (-1)) (kvc_contents demo_cache)" by auto
  moreover have "kvc_contents demo_cache = [replicate 4 (-1, {})]" using kv_inv_new [of 4] by (simp add: kvc_contents_def)
  ultimately show ?thesis by (auto simp: abs_pass_def)
qed

text \<open>C32. In a reachable cache a sequence lives only in the cells of its own stream, \<open>seq_pos_min\<close> and \<open>seq_pos_max\<close>
  return the least and the greatest of its positions, or -1 when it has none, and every search head
  points into its stream or one past its end.\<close>

theorem kvc_reachable_bounds:
  assumes "kvc_reachable k" "valid_seq k s"
  shows "kvc_seq_pos_min s k = Some (if kvc_positions k (nat s) = {} then -1 else Min (kvc_positions k (nat s))) \<and>
    kvc_seq_pos_max s k = Some (if kvc_positions k (nat s) = {} then -1 else Max (kvc_positions k (nat s))) \<and>
    (\<forall>st<hp_n_stream (kc_hp k). kc_heads k ! st \<le> kv_size (kc_cells k ! st) \<and>
      (st \<noteq> seq_stream k s \<longrightarrow> seq_positions (nat s) (cells (kc_cells k ! st)) = {}))"
proof -
  have inv: "kvc_inv k" and own: "kc_other k = None" using kvc_reachable_own [OF assms(1)] by simp_all
  have "kc_heads k ! st \<le> kv_size (kc_cells k ! st)" if "st < hp_n_stream (kc_hp k)" for st
    using kvc_invD(7) [OF inv that] unfolding stream_ok_def by blast
  moreover have "seq_positions (nat s) (cells (kc_cells k ! st)) = {}"
    if "st < hp_n_stream (kc_hp k)" "st \<noteq> seq_stream k s" for st
    using stream_entries(1) [OF inv that(1)] that(2) by (fastforce simp: seq_positions_def entry_ok_def)
  ultimately show ?thesis unfolding kvc_bounds [OF inv own assms(2)] by blast
qed

theorem kvc_reachable_bounds_witness:
  "kvc_seq_pos_min 3 demo_cache = Some (-1) \<and> kvc_seq_pos_max 3 demo_cache = Some (-1)"
proof -
  have "valid_seq demo_cache 3" "3 < LLAMA_MAX_SEQ" by (simp_all add: valid_seq_def LLAMA_MAX_SEQ_def)
  with kvc_reachable_bounds [OF demo_reachable, of 3] show ?thesis by simp
qed

text \<open>Copying onto a sequence that a cell already holds fails the assert of \<open>seq_add\<close>.\<close>

lemma cp_cells_pre:
  assumes inv: "kv_inv c" and s: "src < LLAMA_MAX_SEQ" "dst < LLAMA_MAX_SEQ"
    and run: "foldM (cp_cell src dst (range_lo p0) (range_hi p1)) [0..<kv_size c] c = Some c'"
  shows "\<forall>i<kv_size c. in_range_pos p0 p1 (c_pos c ! i) \<and> src \<in> c_seq c ! i \<longrightarrow> dst \<notin> c_seq c ! i"
proof -
  let ?good = "\<lambda>i. in_range_pos p0 p1 (c_pos c ! i) \<and> src \<in> c_seq c ! i \<longrightarrow> dst \<notin> c_seq c ! i"
  let ?P = "\<lambda>done c1. kv_inv c1 \<and> kv_size c1 = kv_size c \<and> (\<forall>i<length done. ?good i) \<and>
    (\<forall>i<kv_size c. length done \<le> i \<longrightarrow> cells c1 ! i = cells c ! i)"
  have "?P [0..<kv_size c] c'"
  proof (rule foldM_partial [OF run])
    show "?P [] c" using inv by simp
  next
    fix "done" i rest c1 c2
    assume split: "[0..<kv_size c] = done @ i # rest" and P: "?P done c1"
      and step: "cp_cell src dst (range_lo p0) (range_hi p1) i c1 = Some c2"
    note i = upt_split [OF split]
    have inv1: "kv_inv c1" and size: "kv_size c1 = kv_size c" using P by simp_all
    have i1: "i < kv_size c1" using i(2) size by simp
    have same: "c_pos c1 ! i = c_pos c ! i" "c_seq c1 ! i = c_seq c ! i"
      using P i nth_cells [OF inv1 i1] nth_cells [OF inv i(2)] by simp_all
    have good: "?good i"
      using step kv_reads(1,2) [OF inv1 i1] s
      by (auto simp: cp_cell_def kv_seq_add_def in_range_pos_def same split: if_splits)
    from cp_cell_step [OF inv1 i1 s, of p0 p1] good step same
    have c2: "kv_inv c2" "cells c2 = (cells c1)[i := abs_seq_cp src dst p0 p1 (c_pos c1 ! i, c_seq c1 ! i)]" by auto
    with kv_size_upd [OF inv1 c2] size P good i show "?P (done @ [i]) c2" by (auto simp: less_Suc_eq)
  qed
  then show ?thesis by simp
qed

text \<open>C37. \<open>seq_cp\<close> within a stream aborts exactly when a cell in the range holds the destination next to the source:
  the code copies without looking, and \<open>seq_add\<close> asserts that the sequence is new to the cell.\<close>

theorem seq_cp_error:
  assumes "kvc_reachable k" "valid_seq k src" "valid_seq k dst" "seq_stream k dst = seq_stream k src" "src \<noteq> dst"
  shows "kvc_seq_cp src dst p0 p1 k = None \<longleftrightarrow>
    (\<exists>(p, S)\<in>set (cells (seq_cells k src)). in_range_pos p0 p1 p \<and> nat src \<in> S \<and> nat dst \<in> S)"
proof -
  have inv: "kvc_inv k" and own: "kc_other k = None" using kvc_reachable_own [OF assms(1)] by simp_all
  note v = valid_seqD [OF inv assms(2)] and w = valid_seqD [OF inv assms(3)]
  let ?c = "seq_cells k src"
  have invc: "kv_inv ?c" using v(6) by (simp add: seq_cells_def)
  show ?thesis
  proof (cases "\<exists>(p, S)\<in>set (cells ?c). in_range_pos p0 p1 p \<and> nat src \<in> S \<and> nat dst \<in> S")
    case True
    then obtain i where i: "i < kv_size ?c" "in_range_pos p0 p1 (c_pos ?c ! i)" "nat src \<in> c_seq ?c ! i" "nat dst \<in> c_seq ?c ! i"
      using nth_cells [OF invc] length_cells [OF invc] by (fastforce simp: in_set_conv_nth)
    have "foldM (cp_cell (nat src) (nat dst) (range_lo p0) (range_hi p1)) [0..<kv_size ?c] ?c = None"
      using cp_cells_pre [OF invc v(2) w(2), of p0 p1] i by (metis not_None_eq)
    then have "kvc_seq_cp src dst p0 p1 k = None"
      using own v w assms(4,5) by (simp add: kvc_seq_cp_def seq_cells_def)
    with True show ?thesis by blast
  next
    case False
    then have "\<forall>(p, S)\<in>set (kvc_contents k ! seq_stream k src). in_range_pos p0 p1 p \<and> nat src \<in> S \<longrightarrow> nat dst \<notin> S"
      unfolding contents_stream [OF inv assms(2)] by blast
    from kvc_seq_cp_spec [OF inv own assms(2-5) this] False show ?thesis by auto
  qed
qed

theorem seq_cp_error_witness:
  "kvc_seq_cp 0 1 0 (-1) demo_cache \<noteq> None"
proof -
  have "valid_seq demo_cache 0" "valid_seq demo_cache 1" by (simp_all add: valid_seq_def)
  from seq_cp_error [OF demo_reachable this] demo_cells show ?thesis by (simp add: seq_cells_def)
qed

section \<open>The slot search\<close>

text \<open>C33. The slot search returns for every micro-batch the cache accepts: the \<open>while (true)\<close> loop ends after at most
  one round over the cells. The result is either a slot with as many different usable cells per stream as
  the batch has tokens for it (a contiguous range in continuous mode), or the empty slot, and then
  some stream really has no such cells (no such range).\<close>

theorem find_slot_complete:
  assumes "kvc_reachable k" "ub_ready k u"
  shows "\<exists>si. find_slot k u cont = Some si \<and>
    (\<not> si_empty si \<and> length (si_strm si) = slot_ns k u \<and> length (si_idxs si) = slot_ns k u \<and>
       (\<forall>s. s < slot_ns k u \<longrightarrow> si_strm si ! s = slot_st k u s \<and> length (si_idxs si ! s) = slot_nt k u \<and> distinct (si_idxs si ! s) \<and>
          (\<forall>i\<in>set (si_idxs si ! s). i < kv_size (kc_cells k ! slot_st k u s) \<and> usable (kc_hp k) (kc_cells k ! slot_st k u s) i) \<and>
          (cont \<longrightarrow> (\<exists>a. si_idxs si ! s = [a..<a + slot_nt k u]))) \<or>
     si_empty si \<and> (\<exists>s. s < slot_ns k u \<and>
       (if cont then \<forall>a. \<not> free_run (usable (kc_hp k) (kc_cells k ! slot_st k u s)) (kv_size (kc_cells k ! slot_st k u s)) (slot_nt k u) a
        else card {i. i < kv_size (kc_cells k ! slot_st k u s) \<and> usable (kc_hp k) (kc_cells k ! slot_st k u s) i} < slot_nt k u)))"
proof -
  have "ub_fits k u" using assms(2) by (simp add: ub_ready_def)
  from find_slot_correct [OF _ ub_ready_swa [OF assms(2)] this, of cont] kvc_reachable_own [OF assms(1)]
  obtain si where si: "find_slot k u cont = Some si"
    "si = slot_none \<and> no_slot k u cont \<or> \<not> si_empty si \<and> slots_found k u cont si" by blast
  have "si_empty slot_none" by (simp add: si_empty_def slot_none_def)
  with si show ?thesis
    by (auto simp: no_slot_def slots_found_def slot_spec_def)
qed

theorem find_slot_complete_witness:
  "\<exists>si. find_slot demo_cache demo_ub False = Some si \<and> (si_empty si \<or> length (si_idxs si ! 0) = 2)"
proof -
  have "slot_ns demo_cache demo_ub = 1" "slot_nt demo_cache demo_ub = 2"
    by (simp_all add: slot_ns_def slot_nt_def demo_hp_def demo_ub_def)
  with find_slot_complete [OF demo_reachable demo_ready, of False] show ?thesis by auto
qed

section \<open>Placing a micro-batch\<close>

text \<open>C2. A micro-batch whose slot was found is placed without a failed assert, and then the positions of every
  sequence are its old ones and those of its new tokens, less all that lie at or below a position of the
  sequence that was overwritten (\<open>apply_ubatch\<close> purges them).\<close>

theorem placed_positions:
  assumes "kvc_reachable k" "ub_ready k u" "find_slot k u cont = Some si" "\<not> si_empty si"
  shows "\<exists>k'. apply_ubatch si u k = Some k' \<and> kvc_reachable k' \<and>
    (\<forall>s<length (kc_seq_to_stream k). kvc_positions k' s =
       {p \<in> kvc_positions k s \<union> batch_positions u s. \<forall>q\<in>overwritten k si s. q < p})"
proof -
  have own: "kvc_inv k" "kc_other k = None" using kvc_reachable_own [OF assms(1)] by simp_all
  have u: "pos_bounded k" "ub_data_ok u" using assms(2) by (simp_all add: ub_ready_def)
  from apply_positions [OF own u find_apply(2) [OF own assms(2-4)]] show ?thesis
    using kvc_reachable.place [OF assms] by blast
qed

lemma demo_overwritten:
  assumes "find_slot demo_cache demo_ub False = Some si" "\<not> si_empty si"
  shows "overwritten demo_cache si s = {}"
proof -
  have own: "kvc_inv demo_cache" "kc_other demo_cache = None" using demo_own by simp_all
  note ok = find_apply(2) [OF own demo_ready assms]
  have "e = (-1, {})" if "e \<in> set (taken demo_cache si (length (si_strm si)))" for e
  proof -
    from taken_entries [OF own(1) ok that] obtain t where t: "t < length (si_strm si)"
      "e \<in> set (cells (kc_cells demo_cache ! (si_strm si ! t)))" by blast
    have "si_strm si ! t = 0" using ok t(1) by (simp add: slots_ok_def demo_hp_def)
    with t(2) demo_cells show ?thesis by simp
  qed
  then show ?thesis by (auto simp: overwritten_def)
qed

theorem placed_positions_witness:
  "\<exists>si k'. find_slot demo_cache demo_ub False = Some si \<and> apply_ubatch si demo_ub demo_cache = Some k' \<and>
    kvc_positions k' 0 = {0, 1}"
proof -
  from demo_find obtain si where si: "find_slot demo_cache demo_ub False = Some si" "\<not> si_empty si" by blast
  from placed_positions [OF demo_reachable demo_ready si] demo_overwritten [OF si] si(1) show ?thesis
    using demo_batch_positions by (auto intro!: exI [of _ si])
qed

text \<open>C34. The promise in the comment of \<open>apply_ubatch\<close>: when the positions of a sequence and of its new tokens together
  have no gap, then after the micro-batch is placed, whatever cells it took over, all positions between
  \<open>seq_pos_min\<close> and \<open>seq_pos_max\<close> of the sequence are in the cache.\<close>

theorem placing_keeps_ranges:
  assumes "kvc_reachable k" "ub_ready k u" "find_slot k u cont = Some si" "\<not> si_empty si"
    and "apply_ubatch si u k = Some k'" "valid_seq k s" "contiguous (kvc_positions k (nat s) \<union> batch_positions u (nat s))"
    and "kvc_seq_pos_min s k' = Some lo" "kvc_seq_pos_max s k' = Some hi" "0 \<le> lo"
  shows "kvc_positions k' (nat s) = {lo..hi}"
proof -
  have own: "kvc_inv k" "kc_other k = None" using kvc_reachable_own [OF assms(1)] by simp_all
  have u: "pos_bounded k" "ub_data_ok u" using assms(2) by (simp_all add: ub_ready_def)
  from apply_positions [OF own u find_apply(2) [OF own assms(2-4)]] assms(5,6)
  have k': "kvc_inv k'" "same_config k k'" "kvc_positions k' (nat s) =
      {p \<in> kvc_positions k (nat s) \<union> batch_positions u (nat s). \<forall>q\<in>overwritten k si (nat s). q < p}"
    by (auto simp: valid_seq_def)
  then have valid: "valid_seq k' s" and own': "kc_other k' = None" using assms(6) own(2) by (simp_all add: valid_seq_def same_config_def)
  let ?P = "kvc_positions k' (nat s)"
  have gapless: "contiguous ?P" unfolding k'(3) by (rule contiguous_above [OF assms(7)])
  have fin: "finite ?P" by (simp add: kvc_positions_def)
  have "lo = (if ?P = {} then -1 else Min ?P)" "hi = (if ?P = {} then -1 else Max ?P)"
    using assms(8,9) kvc_bounds [OF k'(1) own' valid] by simp_all
  with assms(10) have ne: "?P \<noteq> {}" and lh: "lo = Min ?P" "hi = Max ?P" by (auto split: if_splits)
  have inside: "q \<in> ?P" if "lo \<le> q" "q \<le> hi" for q
  proof -
    have "lo \<in> ?P" unfolding lh(1) by (rule Min_in [OF fin ne])
    moreover have "hi \<in> ?P" unfolding lh(2) by (rule Max_in [OF fin ne])
    ultimately show ?thesis using gapless [unfolded contiguous_def] that by metis
  qed
  have low: "lo \<le> q" if "q \<in> ?P" for q unfolding lh(1) by (rule Min_le [OF fin that])
  have high: "q \<le> hi" if "q \<in> ?P" for q unfolding lh(2) by (rule Max_ge [OF fin that])
  show ?thesis
  proof (rule set_eqI)
    fix q show "q \<in> ?P \<longleftrightarrow> q \<in> {lo..hi}"
      unfolding atLeastAtMost_iff by (intro iffI conjI; (elim conjE)?) (rule low high inside; assumption)+
  qed
qed

theorem placing_keeps_ranges_witness:
  "\<exists>si k' lo hi. find_slot demo_cache demo_ub False = Some si \<and> apply_ubatch si demo_ub demo_cache = Some k' \<and>
    kvc_seq_pos_min 0 k' = Some lo \<and> kvc_seq_pos_max 0 k' = Some hi \<and> kvc_positions k' 0 = {lo..hi} \<and> 0 \<le> lo"
proof -
  from demo_find obtain si where si: "find_slot demo_cache demo_ub False = Some si" "\<not> si_empty si" by blast
  have own: "kvc_inv demo_cache" "kc_other demo_cache = None" using demo_own by simp_all
  from apply_positions [OF own demo_bounded demo_data find_apply(2) [OF own demo_ready si]]
    demo_overwritten [OF si] demo_batch_positions
  obtain k' where k': "apply_ubatch si demo_ub demo_cache = Some k'" "kvc_inv k'" "same_config demo_cache k'" "kvc_positions k' 0 = {0, 1}"
    by auto
  have valid: "valid_seq demo_cache 0" "valid_seq k' 0" "kc_other k' = None"
    using k'(3) own(2) by (simp_all add: valid_seq_def same_config_def)
  have b: "kvc_seq_pos_min 0 k' = Some 0" "kvc_seq_pos_max 0 k' = Some 1"
    using kvc_bounds [OF k'(2) valid(3,2)] k'(4) by simp_all
  have "contiguous (kvc_positions demo_cache (nat 0) \<union> batch_positions demo_ub (nat 0))"
    by (auto simp: demo_batch_positions contiguous_def)
  from placing_keeps_ranges [OF demo_reachable demo_ready si k'(1) valid(1) this b] b si(1) k'(1) show ?thesis by auto
qed

section \<open>Preparing a batch\<close>

text \<open>C35. \<open>prepare\<close> on a unified cache without a sliding window: it returns one slot per micro-batch, of its size, all
  of different free cells, exactly when the free cells suffice for all tokens, and the empty result
  otherwise; either way positions, sequences, extra data, pending shifts and the head are as before.\<close>

theorem prepare_exact:
  assumes "kvc_reachable k" "hp_n_stream (kc_hp k) = 1" "hp_swa_type (kc_hp k) = SWA_NONE" "pos_bounded k"
    and "us \<noteq> []" "\<forall>u\<in>set us. unified_batch k u"
  shows "\<exists>k' res. prepare us k = Some (k', res) \<and> kv_same k k' \<and>
    (if n_needed us \<le> card (free_cells k) then slots_for k us res else res = [])"
proof -
  have "unified k" using assms(2-4) kvc_reachable_own [OF assms(1)] by (simp add: unified_def)
  from prepare_spec [OF this assms(6,5)] show ?thesis .
qed

theorem prepare_exact_witness:
  "\<exists>k1 k2 r. prepare [demo_ub, demo_ub] demo_cache = Some (k1, r) \<and> slots_for demo_cache [demo_ub, demo_ub] r \<and>
    prepare [demo_ub, demo_ub, demo_ub] demo_cache = Some (k2, []) \<and> kv_same demo_cache k1 \<and> kv_same demo_cache k2"
proof -
  have n: "n_needed [demo_ub, demo_ub] = 4" "n_needed [demo_ub, demo_ub, demo_ub] = 6" "card (free_cells demo_cache) = 4"
    by (simp_all add: n_needed_def demo_ub_def demo_free)
  have hp: "hp_n_stream (kc_hp demo_cache) = 1" "hp_swa_type (kc_hp demo_cache) = SWA_NONE" by (simp_all add: demo_hp_def)
  note p = prepare_exact [OF demo_reachable hp demo_bounded]
  from p [of "[demo_ub, demo_ub]"] p [of "[demo_ub, demo_ub, demo_ub]"] demo_batch n show ?thesis by auto
qed

text \<open>With several streams the head is not restored: \<open>prepare\<close> reads \<open>v_heads_old[s]\<close>, the head of stream \<open>s\<close>, for
  the \<open>s\<close>-th stream of the slot. A micro-batch of sequence 1 alone leaves the head of stream 1 at that of
  stream 0.\<close>

definition demo_cache2 :: kv_cache where
  \<comment> \<open>two streams of one cell, with heads 1 and 0\<close>
  "demo_cache2 = \<lparr>kc_hp = demo_hp\<lparr>hp_n_stream := 2\<rparr>, kc_cells = replicate 2 (kv_resize 1 kv_new), kc_heads = [1, 0],
     kc_seq_to_stream = [0, 1], kc_ssrc = [], kc_sdst = [], kc_other = None\<rparr>"

definition demo_ub2 :: ubatch where
  \<comment> \<open>one token of sequence 1\<close>
  "demo_ub2 = demo_ub\<lparr>ub_n_tokens := 1, ub_n_seq_tokens := 1, ub_token := Some [7], ub_pos := [0], ub_n_seq_id := [1],
     ub_seq_id := [[1]], ub_seq_id_unq := [1]\<rparr>"

lemma prepare_moves_head:
  "map_option (\<lambda>(k, r). (kc_heads k, length r)) (prepare [demo_ub2] demo_cache2) = Some ([1, 1], 1)"
  by code_simp

section \<open>Sizes and indices for the graph\<close>

lemma n_kv_covers:
  assumes "kvc_inv k" "si_strm si \<noteq> []" "\<forall>st\<in>set (si_strm si). st < hp_n_stream (kc_hp k)"
    and "max (hp_n_pad (kc_hp k)) 256 = 2 ^ m" "m < 32" "kv_size (kc_cells k ! 0) + 2 ^ m \<le> 2 ^ 32"
  shows "\<exists>n. get_n_kv si k = Some n \<and> n \<le> kv_size (kc_cells k ! 0) \<and> (n = kv_size (kc_cells k ! 0) \<or> 2 ^ m dvd n) \<and>
    (\<forall>st\<in>set (si_strm si). \<forall>i<kv_size (kc_cells k ! st). c_pos (kc_cells k ! st) ! i \<noteq> -1 \<longrightarrow> i < n)"
proof -
  note inv = assms(1)
  let ?c = "\<lambda>st. kc_cells k ! st" and ?n = "\<lambda>st. n_kv_of (2 ^ m) (kc_cells k ! st)" and ?sz = "kv_size (kc_cells k ! 0)"
  have st: "kv_inv (?c st)" "kv_size (?c st) = ?sz" if "st \<in> set (si_strm si)" for st
    using kvc_invD(7) [OF inv] assms(3) that unfolding stream_ok_def by blast+
  have cov: "kv_used_max_p1 (?c st) \<le> ?n st" "?n st \<le> ?sz" "?n st = ?sz \<or> 2 ^ m dvd ?n st" if "st \<in> set (si_strm si)" for st
    using n_kv_of_covers [OF st(1) [OF that] refl assms(5)] st(2) [OF that] assms(6) by simp_all
  let ?N = "insert 0 (?n ` set (si_strm si))"
  have run: "get_n_kv si k = Some (Max ?N)" using get_n_kv_eq [OF inv assms(3)] by (simp add: assms(4) image_image)
  have "Max ?N \<in> ?N" by (rule Max_in) simp_all
  moreover have "\<forall>v\<in>?N. v \<le> ?sz \<and> (v = ?sz \<or> 2 ^ m dvd v)" using cov(2,3) by auto
  ultimately have top: "Max ?N \<le> ?sz \<and> (Max ?N = ?sz \<or> 2 ^ m dvd Max ?N)" by (rule bspec [rotated])
  have "i < Max ?N" if "st \<in> set (si_strm si)" "i < kv_size (?c st)" "c_pos (?c st) ! i \<noteq> -1" for st i
  proof -
    have "i < kv_used_max_p1 (?c st)" by (rule used_max_le(2) [OF st(1) [OF that(1)] that(2,3)])
    also have "\<dots> \<le> ?n st" by (rule cov(1) [OF that(1)])
    also have "\<dots> \<le> Max ?N" using that(1) by (intro Max_ge) simp_all
    finally show ?thesis .
  qed
  with run top show ?thesis by blast
qed

text \<open>\<open>get_n_kv\<close> for a slot, with the padding a power of two: every used cell of the slot's streams lies below the
  returned bound, the bound does not exceed the size of the cache, and it is a multiple of the padding
  unless it is that size; \<open>GGML_PAD\<close> does not wrap.\<close>

theorem n_kv_bounds:
  assumes "kvc_reachable k" "si_strm si \<noteq> []" "\<forall>st\<in>set (si_strm si). st < hp_n_stream (kc_hp k)"
    and "max (hp_n_pad (kc_hp k)) 256 = 2 ^ m" "m < 32" "kv_size (kc_cells k ! 0) + 2 ^ m \<le> 2 ^ 32"
  shows "\<exists>n. get_n_kv si k = Some n \<and> n \<le> kv_size (kc_cells k ! 0) \<and> (n = kv_size (kc_cells k ! 0) \<or> 2 ^ m dvd n) \<and>
    (\<forall>st\<in>set (si_strm si). \<forall>i<kv_size (kc_cells k ! st). c_pos (kc_cells k ! st) ! i \<noteq> -1 \<longrightarrow> i < n)"
  using kvc_reachable_own [OF assms(1)] n_kv_covers [OF _ assms(2-6)] by simp

theorem n_kv_bounds_witness:
  "\<exists>n. get_n_kv \<lparr>si_s0 = 0, si_s1 = 0, si_strm = [0], si_idxs = [[0, 1]]\<rparr> demo_cache = Some n \<and> n \<le> 4 \<and> (n = 4 \<or> 256 dvd n)"
proof -
  have "kv_size (kc_cells demo_cache ! 0) = 4" by (simp add: kv_size_def kv_resize_new_lists)
  with n_kv_bounds [OF demo_reachable, of "\<lparr>si_s0 = 0, si_s1 = 0, si_strm = [0], si_idxs = [[0, 1]]\<rparr>" 8]
  show ?thesis by (auto simp: demo_hp_def)
qed

text \<open>C36. When the cells of all streams together are at most \<open>2 ^ 32\<close> (the offset of a stream is computed in 32 bits), the rows
  of the K tensor written for the tokens of a placed micro-batch are pairwise different and inside the tensor: no token
  overwrites the key of another one of the batch.\<close>

theorem k_rows_distinct:
  assumes "kvc_reachable k" "ub_ready k u" "find_slot k u cont = Some si" "\<not> si_empty si"
    and "hp_n_stream (kc_hp k) * kv_size (kc_cells k ! 0) \<le> 2 ^ 32"
  shows "\<exists>dst. set_input_k_idxs si u k = Some dst \<and> length dst = ub_n_tokens u \<and> distinct dst \<and>
    (\<forall>r\<in>set dst. r < hp_n_stream (kc_hp k) * kv_size (kc_cells k ! 0))"
proof -
  have own: "kvc_inv k" "kc_other k = None" using kvc_reachable_own [OF assms(1)] by simp_all
  let ?nt = "slot_nt k u" and ?sz = "kv_size (kc_cells k ! 0)" and ?ns = "length (si_strm si)"
  note ok = find_apply(2) [OF own assms(2-4)]
  from set_input_k_idxs_eq [OF own(1) ok assms(5)] obtain dst where dst: "set_input_k_idxs si u k = Some dst"
    "length dst = ub_n_tokens u" "\<And>s i. s < ?ns \<Longrightarrow> i < ?nt \<Longrightarrow> dst ! (s * ?nt + i) = si_strm si ! s * ?sz + si_idxs si ! s ! i" by blast
  have n: "ub_n_tokens u = ?ns * ?nt" "0 < ?nt" "distinct (si_strm si)" using ok by (simp_all add: slots_ok_def)
  have slot: "si_strm si ! s < hp_n_stream (kc_hp k)" "distinct (si_idxs si ! s)" "length (si_idxs si ! s) = ?nt"
    "\<And>i. i < ?nt \<Longrightarrow> si_idxs si ! s ! i < ?sz" if "s < ?ns" for s
  proof -
    have a: "si_strm si ! s < hp_n_stream (kc_hp k)" "length (si_idxs si ! s) = ?nt"
      "stream_slot_ok u (kc_cells k ! (si_strm si ! s)) (s * ?nt) (si_idxs si ! s)" using ok that by (simp_all add: slots_ok_def)
    have "kv_size (kc_cells k ! (si_strm si ! s)) = ?sz" using kvc_invD(7) [OF own(1) a(1)] unfolding stream_ok_def by blast
    with a show "si_strm si ! s < hp_n_stream (kc_hp k)" "distinct (si_idxs si ! s)" "length (si_idxs si ! s) = ?nt"
      "\<And>i. i < ?nt \<Longrightarrow> si_idxs si ! s ! i < ?sz" by (simp_all add: stream_slot_ok_def)
  qed
  have split: "j div ?nt < ?ns" "j mod ?nt < ?nt" "dst ! j = si_strm si ! (j div ?nt) * ?sz + si_idxs si ! (j div ?nt) ! (j mod ?nt)"
    if "j < length dst" for j
  proof -
    show a: "j div ?nt < ?ns" using that n(1) dst(2) by (simp add: less_mult_imp_div_less)
    show b: "j mod ?nt < ?nt" using n(2) by simp
    show "dst ! j = si_strm si ! (j div ?nt) * ?sz + si_idxs si ! (j div ?nt) ! (j mod ?nt)" using dst(3) [OF a b] unfolding div_mult_mod_eq .
  qed
  have "j = l" if jl: "j < length dst" "l < length dst" and eq: "dst ! j = dst ! l" for j l
  proof -
    note r = row_unique [OF slot(4) [OF split(1,2) [OF jl(1)]] slot(4) [OF split(1,2) [OF jl(2)]]
        eq [unfolded split(3) [OF jl(1)] split(3) [OF jl(2)]]]
    have d: "j div ?nt = l div ?nt" using r(1) n(3) split(1) [OF jl(1)] split(1) [OF jl(2)] by (simp add: nth_eq_iff_index_eq)
    have "j mod ?nt = l mod ?nt"
      using r(2) slot(2,3) [OF split(1) [OF jl(1)]] split(2) [OF jl(1)] split(2) [OF jl(2)]
      unfolding d by (simp add: nth_eq_iff_index_eq)
    with d show ?thesis by (metis div_mult_mod_eq)
  qed
  then have "distinct dst" unfolding distinct_conv_nth by blast
  moreover have "r < hp_n_stream (kc_hp k) * ?sz" if "r \<in> set dst" for r
  proof -
    from that obtain j where j: "j < length dst" "r = dst ! j" by (auto simp: in_set_conv_nth)
    have "r < Suc (si_strm si ! (j div ?nt)) * ?sz" using split(3) [OF j(1)] slot(4) [OF split(1,2) [OF j(1)]] j(2) by simp
    also have "\<dots> \<le> hp_n_stream (kc_hp k) * ?sz" using slot(1) [OF split(1) [OF j(1)]] by (intro mult_le_mono1) simp
    finally show ?thesis .
  qed
  ultimately show ?thesis using dst(1,2) by blast
qed

theorem k_rows_distinct_witness:
  "\<exists>si dst. find_slot demo_cache demo_ub False = Some si \<and> set_input_k_idxs si demo_ub demo_cache = Some dst \<and>
    length dst = 2 \<and> distinct dst \<and> (\<forall>r\<in>set dst. r < 4)"
proof -
  from demo_find obtain si where si: "find_slot demo_cache demo_ub False = Some si" "\<not> si_empty si" by blast
  have "hp_n_stream (kc_hp demo_cache) * kv_size (kc_cells demo_cache ! 0) = 4" "ub_n_tokens demo_ub = 2"
    by (simp_all add: kv_size_def kv_resize_new_lists demo_hp_def demo_ub_def)
  moreover from this(1) have "hp_n_stream (kc_hp demo_cache) * kv_size (kc_cells demo_cache ! 0) \<le> 2 ^ 32" by simp
  ultimately show ?thesis using k_rows_distinct [OF demo_reachable demo_ready si] si(1) by auto
qed

end
