(* ===== verification/BatchCache.thy ===== *)
theory BatchCache
  imports BatchProps KvCacheProps
begin

text \<open>
  The batch allocator and the cache together: \<open>init_batch\<close> of \<open>llama_kv_cache\<close> cuts the batch into
  micro-batches and looks for a slot for each. Without room for all it reports failure and leaves the cache.
\<close>

definition kvc_init_batch ::
  "nat \<Rightarrow> kv_cache \<Rightarrow> batch_allocr \<Rightarrow> (kv_cache \<times> batch_allocr \<times> (slot_info list \<times> ubatch list) option) option" where
  \<comment> \<open>the context holds the slots and the micro-batches; \<open>None\<close> is \<open>LLAMA_MEMORY_STATUS_FAILED_PREPARE\<close>\<close>
  "kvc_init_batch n_ubatch k a = do {
     (us, a) \<leftarrow> split_all (if hp_n_stream (kc_hp k) = 1 then split_simple n_ubatch else split_equal n_ubatch True 0) (ba_split_reset a) [];
     if ba_n_used a < b_n_tokens (ba_batch a) then Some (k, a, None)
     else do {
       (k, res) \<leftarrow> prepare us k;
       Some (k, a, if res = [] then None else Some (res, us))
     }
   }"

lemma split_reset_ready: "ba_ok a \<Longrightarrow> prefix_split (ba_split_reset a) 0"
  by (rule ready_all_unused(1)) (auto simp: ba_ok_def ba_split_reset_def unused_def)

lemma ub_of_split_reset [simp]: "ub_of (ba_split_reset a) idxs m e = ub_of a idxs m e"
  by (rule ub_of_base) (simp add: same_base_def ba_split_reset_def)

definition tokens_for_cache :: "llama_batch \<Rightarrow> bool" where
  "tokens_for_cache c \<longleftrightarrow> (\<forall>i<b_n_tokens c. 0 \<le> pos_at c i \<and> pos_at c i < INT32_MAX \<and> distinct (ids_of c i))"

lemma sum_list_rows: "\<forall>x\<in>set xs. length x = m \<Longrightarrow> length (concat xs) = length xs * m"
  by (induction xs) auto

lemma nth_concat_first: "xs \<noteq> [] \<Longrightarrow> i < length (hd xs) \<Longrightarrow> concat xs ! i = hd xs ! i"
  by (cases xs) (auto simp: nth_append)

lemma ub_of_unified:
  assumes ok: "ba_ok a" and n_pos: "1 \<le> ba_n_pos_per_embd a" and ids: "ba_n_seq_max a \<le> length (kc_seq_to_stream k)"
    and toks: "tokens_for_cache (ba_batch a)" and idxs: "idxs \<noteq> []" "\<forall>i\<in>set idxs. i < b_n_tokens (ba_batch a)"
  shows "unified_batch k (ub_of a idxs (length idxs) False)"
proof -
  let ?b = "ba_batch a" and ?u = "ub_of a idxs (length idxs) False"
  have bids: "batch_ids (ba_n_seq_max a) ?b" and m: "ba_n_seq_max a \<le> LLAMA_MAX_SEQ" using ok by (simp_all add: ba_ok_def)
  have pos: "ub_pos ?u ! i = pos_at ?b (idxs ! i)" if "i < length idxs" for i
  proof -
    have "ub_pos ?u = concat (map (\<lambda>j. map (pos_of ?b j) idxs) [0..<ba_n_pos_per_embd a])" by (simp add: ub_of_def Let_def)
    moreover have "[0..<ba_n_pos_per_embd a] = 0 # [1..<ba_n_pos_per_embd a]" using n_pos upt_conv_Cons by simp
    ultimately show ?thesis using that by (simp add: nth_append pos_of_def pos_at_def)
  qed
  have len: "length (ub_pos ?u) = length idxs * ba_n_pos_per_embd a"
    using sum_list_rows [of "map (\<lambda>j. map (pos_of ?b j) idxs) [0..<ba_n_pos_per_embd a]" "length idxs"]
    by (simp add: ub_of_def Let_def mult.commute)
  have row: "ids_of ?b (idxs ! i) \<noteq> []" "distinct (ids_of ?b (idxs ! i))" "\<forall>s\<in>set (ids_of ?b (idxs ! i)). 0 \<le> s \<and> s < int (ba_n_seq_max a)"
    "0 \<le> pos_at ?b (idxs ! i)" "pos_at ?b (idxs ! i) < INT32_MAX" if "i < length idxs" for i
    using seq_ids_of(2,4) [OF bids, of "idxs ! i"] toks idxs(2) nth_mem [OF that] by (auto simp: tokens_for_cache_def)
  have seqs: "ub_seq_id ?u = map (ids_of ?b) idxs" "ub_n_seq_id ?u = map (\<lambda>i. length (ids_of ?b i)) idxs" "ub_n_tokens ?u = length idxs"
    "ub_n_pos ?u = ba_n_pos_per_embd a" by (simp_all add: ub_of_def Let_def)
  have "ub_data_ok ?u"
    unfolding ub_data_ok_def seqs
    using row m len n_pos pos by (auto simp: ub_of_def Let_def max_def nat_less_iff) (fastforce simp: nat_less_iff)+
  moreover
  let ?unq = "filter (\<lambda>s. \<exists>i\<in>set idxs. s \<in> set_of_tok ?b i) [0..<ba_n_seq_max a]"
  have unq: "ub_seq_id_unq ?u = map int ?unq" by (simp add: ub_of_def Let_def)
  have i0: "hd idxs \<in> set idxs" "hd idxs < b_n_tokens ?b" using idxs by simp_all
  then obtain s where s: "s \<in> set_of_tok ?b (hd idxs)" using set_of_tok_nonempty [OF bids, of "hd idxs"] by auto
  have "s < ba_n_seq_max a" by (rule set_of_tok_lt [OF bids i0(2) s])
  then have "s \<in> set ?unq" using s i0(1) by auto
  then have ne: "?unq \<noteq> []" by (metis list.set(1) empty_iff)
  then have "ub_seq_id_unq ?u \<noteq> []" unfolding unq by simp
  moreover have "?unq ! 0 \<in> set ?unq" using ne by (intro nth_mem) simp
  then have "valid_seq k (ub_seq_id_unq ?u ! 0)" using ne ids unfolding unq by (auto simp: valid_seq_def)
  moreover have "\<forall>i<ub_n_tokens ?u. ub_pos ?u ! i < INT32_MAX \<and> (\<forall>id\<in>set (ub_seq_id ?u ! i). nat id < length (kc_seq_to_stream k))"
    using row(3,5) ids by (fastforce simp: seqs pos nat_less_iff)
  ultimately show ?thesis using idxs(1) by (simp add: unified_batch_def seqs)
qed

lemma pieces_sum:
  assumes "pieces m 0 n ps" "us = map (\<lambda>p. ub_of a p (length p) e) ps"
  shows "n_needed us = n" "0 < n \<Longrightarrow> us \<noteq> []" "p \<in> set ps \<Longrightarrow> p \<noteq> [] \<and> (\<forall>i\<in>set p. i < n)"
proof -
  have c: "concat ps = [0..<n]" using assms(1) by (simp add: pieces_def)
  have "n_needed us = length (concat ps)" by (simp add: assms(2) n_needed_def ub_of_def Let_def length_concat comp_def)
  then show "n_needed us = n" by (simp add: c)
  show "0 < n \<Longrightarrow> us \<noteq> []" using arg_cong [OF c, of length] by (auto simp: assms(2))
  show "p \<noteq> [] \<and> (\<forall>i\<in>set p. i < n)" if p: "p \<in> set ps"
  proof -
    have "set p \<subseteq> set (concat ps)" using p by auto
    then have "set p \<subseteq> {0..<n}" by (simp add: c)
    with assms(1) p show ?thesis by (auto simp: pieces_def)
  qed
qed

text \<open>C23. \<open>init_batch\<close> on a cache with one stream and no sliding window (\<open>SWA_NONE\<close>), for an accepted batch with tokens whose
  positions the cache can hold: whatever the allocator was used for before, it cuts the batch into consecutive pieces of \<open>max 1 n_ubatch\<close> tokens and finds different free cells for all of them,
  exactly when the cache has a free cell for every token; otherwise it fails. The cache is left as it was.\<close>

theorem init_batch_exact:
  assumes "kvc_reachable k" "hp_n_stream (kc_hp k) = 1" "hp_swa_type (kc_hp k) = SWA_NONE" "pos_bounded k"
    and "ba_ok a" "0 < b_n_tokens (ba_batch a)" "1 \<le> ba_n_pos_per_embd a" "ba_n_seq_max a \<le> length (kc_seq_to_stream k)"
    and "tokens_for_cache (ba_batch a)"
  shows "\<exists>k' a' r. kvc_init_batch n_ubatch k a = Some (k', a', r) \<and> kv_same k k' \<and>
    (if b_n_tokens (ba_batch a) \<le> card (free_cells k)
     then \<exists>ps res. r = Some (res, map (\<lambda>p. ub_of a p (length p) False) ps) \<and> pieces (max 1 n_ubatch) 0 (b_n_tokens (ba_batch a)) ps \<and>
       slots_for k (map (\<lambda>p. ub_of a p (length p) False) ps) res
     else r = None)"
proof -
  let ?n = "b_n_tokens (ba_batch a)"
  have uni: "unified k" using assms(2-4) kvc_reachable_own [OF assms(1)] by (simp add: unified_def)
  have b: "ba_batch (ba_split_reset a) = ba_batch a" by (simp add: ba_split_reset_def)
  from split_all_simple [OF split_reset_ready [OF assms(5)], of n_ubatch "[]"] obtain ps a' where
    s: "split_all (split_simple n_ubatch) (ba_split_reset a) [] = Some (map (\<lambda>p. ub_of a p (length p) False) ps, a')"
      "pieces (max 1 n_ubatch) 0 ?n ps" "prefix_split a' ?n" "ba_batch a' = ba_batch a" unfolding b by auto
  define us where "us = map (\<lambda>p. ub_of a p (length p) False) ps"
  note sum = pieces_sum [OF s(2) us_def]
  have "\<forall>u\<in>set us. unified_batch k u"
  proof
    fix u assume "u \<in> set us"
    then obtain p where "p \<in> set ps" "u = ub_of a p (length p) False" by (auto simp: us_def)
    with sum(3) ub_of_unified [OF assms(5,7,8,9)] show "unified_batch k u" by blast
  qed
  from prepare_spec [OF uni this sum(2) [OF assms(6)]] sum(1) obtain k' res where
    p: "prepare us k = Some (k', res)" "kv_same k k'" "if ?n \<le> card (free_cells k) then slots_for k us res else res = []" by auto
  have used: "\<not> ba_n_used a' < b_n_tokens (ba_batch a')" using prefix_split_n_used [OF s(3)] s(4) by simp
  have run: "kvc_init_batch n_ubatch k a = Some (k', a', if res = [] then None else Some (res, us))"
    using s(1) p(1) used assms(2) by (simp add: kvc_init_batch_def us_def)
  have ne: "res \<noteq> []" if "slots_for k us res"
    using that sum(2) [OF assms(6)] by (auto simp: slots_for_def)
  show ?thesis
  proof (cases "?n \<le> card (free_cells k)")
    case True
    with p(3) have "slots_for k us res" by simp
    with run p(2) ne s(2) True show ?thesis unfolding us_def by auto
  next
    case False
    with p(3) run p(2) show ?thesis by simp
  qed
qed

theorem init_batch_exact_witness:
  "\<exists>k' a' ps res. kvc_init_batch 2 demo_cache demo_alloc =
    Some (k', a', Some (res, map (\<lambda>p. ub_of demo_alloc p (length p) False) ps)) \<and> pieces (max 1 2) 0 3 ps"
proof -
  have hp: "hp_n_stream (kc_hp demo_cache) = 1" "hp_swa_type (kc_hp demo_cache) = SWA_NONE" by (simp_all add: demo_hp_def)
  have b: "ba_batch demo_alloc = demo_done" "ba_n_pos_per_embd demo_alloc = 1" "ba_n_seq_max demo_alloc = 4"
    by (simp_all add: demo_alloc_def ba_new_def)
  have s: "4 \<le> length (kc_seq_to_stream demo_cache)" by (simp add: LLAMA_MAX_SEQ_def)
  have ok: "ba_ok demo_alloc" using demo_accepted by (simp add: batch_accepted_def)
  have "\<forall>i<3. length (ids_of demo_done i) = 1" unfolding less_3 using demo_ids by (intro allI impI) (elim disjE; simp)
  moreover have "\<forall>i<3. pos_at demo_done i = 0" unfolding less_3 by (intro allI impI) (elim disjE; simp add: pos_at_def demo_done_def)
  moreover have "distinct xs" if "length xs = 1" for xs :: "llama_seq_id list" using that by (cases xs) auto
  ultimately have toks: "tokens_for_cache demo_done" by (simp add: tokens_for_cache_def INT32_MAX_def)
  have free: "3 \<le> card (free_cells demo_cache)" by (simp add: demo_free)
  from init_batch_exact [OF demo_reachable hp demo_bounded ok, of 2, unfolded b demo_n] toks s free
  show ?thesis by auto
qed

end
