(* ===== verification/KvMask.thy ===== *)
theory KvMask
  imports KvMachine
begin

text \<open>
  The attention mask of a micro-batch: \<open>set_input_kq_mask\<close> and its template
  \<open>set_input_kq_mask_impl\<close> of \<open>llama-server/src/llama-kv-cache.cpp\<close>. The template parameters
  \<open>causal\<close>, \<open>swa\<close>, \<open>is_2d\<close> and \<open>alibi\<close> are fields of the arguments, the tensor is the list of its
  entries, row by row, and an entry is one of the three values the code writes.
  Rows of a sequence after its first one in the stream are copied from that one and only the recorded
  cells are looked at again; the section on the reference shows that this writes the same mask.
\<close>

section \<open>Data\<close>

datatype mask = Keep | Drop | Bias int  \<comment> \<open>\<open>0\<close>, \<open>-INFINITY\<close>, and the ALiBi bias \<open>-|p0 - p1|\<close>\<close>

record mask_args =
  ma_n_kv :: nat
  ma_n_stream :: nat
  ma_n_tps :: nat
  ma_causal :: bool
  ma_swa :: bool
  ma_2d :: bool
  ma_alibi :: bool

record mask_query =
  \<comment> \<open>the token of the row: sequence and position\<close>
  mq_seq :: nat
  mq_p1 :: llama_pos
  mq_x :: llama_pos
  mq_y :: llama_pos

record mask_rows =
  \<comment> \<open>\<open>data\<close>, \<open>seq_srct\<close> and \<open>seq_idxs\<close>\<close>
  mr_data :: "mask list"
  mr_srct :: "nat \<rightharpoonup> nat"
  mr_idxs :: "nat \<rightharpoonup> nat list"

section \<open>Operations\<close>

definition first_seq :: "ubatch \<Rightarrow> nat \<Rightarrow> nat option" where
  \<comment> \<open>\<open>ubatch->seq_id[i][0]\<close>, used as an index\<close>
  "first_seq u i = do { ids \<leftarrow> at (ub_seq_id u) i; id \<leftarrow> at ids 0; assert_that (0 \<le> id); Some (nat id) }"

definition mask_pos_min :: "ubatch \<Rightarrow> llama_pos list option" where
  \<comment> \<open>the min position in the batch for each sequence\<close>
  "mask_pos_min u = foldM (\<lambda>i lo. do {
     s \<leftarrow> first_seq u i;
     old \<leftarrow> at lo s;
     p \<leftarrow> at (ub_pos u) i;
     Some (lo[s := min old p])
   }) [0..<ub_n_tokens u] (replicate LLAMA_MAX_SEQ INT32_MAX)"

definition swa_reach :: "nat \<Rightarrow> int" where
  \<comment> \<open>\<open>(int32_t) (n_swa + 32)\<close>\<close>
  "swa_reach n_swa = sint (word_of_nat (n_swa + 32) :: 32 word)"

definition mask_test :: "mask_args \<Rightarrow> kv_hparams \<Rightarrow> kv_cells \<Rightarrow> mask_query \<Rightarrow> nat \<Rightarrow> llama_pos \<Rightarrow> mask option" where
  \<comment> \<open>the part of the loop body behind the recording: cell \<open>j\<close> at position \<open>p0\<close>\<close>
  "mask_test A hp c q j p0 =
     (if ma_causal A \<and> p0 > mq_p1 q then Some Drop
      else do {
        later \<leftarrow> (if ma_causal A \<and> ma_2d A \<and> p0 = mq_p1 q then do {
            ext \<leftarrow> kv_ext_get j c; Some (is_2d_gt ext (mq_x q) (mq_y q)) } else Some False);
        if later then Some Drop
        else do {
          out \<leftarrow> (if ma_swa A then is_masked_swa (hp_n_swa hp) (hp_swa_type hp) p0 (mq_p1 q) else Some False);
          if out then Some Drop
          else if ma_alibi A then do { d \<leftarrow> i32 (p0 - mq_p1 q); Some (Bias (- \<bar>d\<bar>)) }
          else Some Keep
        }
      })"

definition put_mask :: "nat \<Rightarrow> mask \<Rightarrow> mask list \<Rightarrow> mask list option" where
  "put_mask x v dst = do { assert_that (x < length dst); Some (dst[x := v]) }"

definition mask_cell :: "mask_args \<Rightarrow> kv_hparams \<Rightarrow> kv_cells \<Rightarrow> mask_query \<Rightarrow> bool \<Rightarrow> llama_pos \<Rightarrow> nat \<Rightarrow>
    nat \<Rightarrow> mask list \<times> nat list \<Rightarrow> (mask list \<times> nat list) option" where
  \<comment> \<open>the body of the loop over the cells; \<open>idst\<close> is the start of the row\<close>
  "mask_cell A hp c q prev lo idst j = (\<lambda>(dst, idxs). do {
     e \<leftarrow> kv_is_empty j c;
     has \<leftarrow> (if e then Some False else kv_seq_has j (mq_seq q) c);
     if \<not> has then do { dst \<leftarrow> put_mask (idst + j) Drop dst; Some (dst, idxs) }
     else do {
       p0 \<leftarrow> kv_pos_get j c;
       idxs \<leftarrow> (if \<not> ma_alibi A \<and> \<not> prev then do {
           reach \<leftarrow> i32 (p0 + swa_reach (hp_n_swa hp));
           Some (if reach \<ge> lo then idxs @ [j] else idxs)
         } else Some idxs);
       v \<leftarrow> mask_test A hp c q j p0;
       dst \<leftarrow> put_mask (idst + j) v dst;
       Some (dst, idxs)
     }
   })"

definition copy_row :: "nat \<Rightarrow> nat \<Rightarrow> nat \<Rightarrow> mask list \<Rightarrow> mask list option" where
  \<comment> \<open>\<open>std::copy(data + src, data + src + n, data + dst)\<close>\<close>
  "copy_row src n dst xs = do {
     assert_that (src + n \<le> length xs \<and> dst + n \<le> length xs);
     Some (take dst xs @ take n (drop src xs) @ drop (dst + n) xs)
   }"

definition mask_row_again :: "mask_args \<Rightarrow> kv_hparams \<Rightarrow> kv_cells \<Rightarrow> mask_query \<Rightarrow> llama_pos \<Rightarrow> nat \<Rightarrow> nat \<Rightarrow>
    mask_rows \<Rightarrow> mask_rows option" where
  \<comment> \<open>the sequence has the row \<open>r\<close> already: copy it and update just the recorded cells\<close>
  "mask_row_again A hp c q m r i R = (let n = ma_n_kv A; s = mq_seq q in do {
     dst \<leftarrow> copy_row (n * r) n (n * i) (mr_data R);
     let idxs = (case mr_idxs R s of None \<Rightarrow> [] | Some is \<Rightarrow> is);
     (dst, idxs) \<leftarrow> foldM (mask_cell A hp c q True m (n * i)) (take n idxs) (dst, idxs);
     Some (R\<lparr>mr_data := dst, mr_idxs := (mr_idxs R)(s \<mapsto> idxs)\<rparr>)
   })"

definition mask_row_first :: "mask_args \<Rightarrow> kv_hparams \<Rightarrow> kv_cells \<Rightarrow> mask_query \<Rightarrow> llama_pos \<Rightarrow> nat \<Rightarrow>
    mask_rows \<Rightarrow> mask_rows option" where
  "mask_row_first A hp c q m i R = (let n = ma_n_kv A; s = mq_seq q;
       idxs = (if ma_alibi A then (case mr_idxs R s of None \<Rightarrow> [] | Some is \<Rightarrow> is) else []) in do {
     (dst, idxs) \<leftarrow> foldM (mask_cell A hp c q False m (n * i)) [0..<n] (mr_data R, idxs);
     Some \<lparr>mr_data = dst, mr_srct = (if ma_alibi A then mr_srct R else (mr_srct R)(s \<mapsto> i)),
       mr_idxs = (mr_idxs R)(s \<mapsto> idxs)\<rparr>
   })"

definition mask_row :: "mask_args \<Rightarrow> kv_cache \<Rightarrow> ubatch \<Rightarrow> llama_pos list \<Rightarrow> nat \<Rightarrow> mask_rows \<Rightarrow> mask_rows option" where
  \<comment> \<open>the row of token \<open>i\<close>\<close>
  "mask_row A k u lo i R = do {
     s \<leftarrow> first_seq u i;
     st \<leftarrow> at (kc_seq_to_stream k) s;
     c \<leftarrow> at (kc_cells k) st;
     p1 \<leftarrow> at (ub_pos u) i;
     x \<leftarrow> (if ma_2d A then at (ub_pos u) (i + ub_n_tokens u * 2) else Some 0);
     y \<leftarrow> (if ma_2d A then at (ub_pos u) (i + ub_n_tokens u) else Some 0);
     m \<leftarrow> at lo s;
     let q = \<lparr>mq_seq = s, mq_p1 = p1, mq_x = x, mq_y = y\<rparr>;
     case (if ma_alibi A then None else mr_srct R s) of
       Some r \<Rightarrow> mask_row_again A (kc_hp k) c q m r i R
     | None \<Rightarrow> mask_row_first A (kc_hp k) c q m i R
   }"

definition set_input_kq_mask_impl :: "mask_args \<Rightarrow> kv_cache \<Rightarrow> ubatch \<Rightarrow> mask list \<Rightarrow> mask list option" where
  "set_input_kq_mask_impl A k u dst = do {
     lo \<leftarrow> mask_pos_min u;
     foldM (\<lambda>s dst. do {
       R \<leftarrow> foldM (\<lambda>ii. mask_row A k u lo (s * ma_n_tps A + ii)) [0..<ma_n_tps A]
         \<lparr>mr_data = dst, mr_srct = Map.empty, mr_idxs = Map.empty\<rparr>;
       Some (mr_data R)
     }) [0..<ma_n_stream A] dst
   }"

definition set_input_kq_mask :: "kv_cache \<Rightarrow> ubatch \<Rightarrow> bool \<Rightarrow> bool \<Rightarrow> nat \<Rightarrow> nat \<Rightarrow> mask list \<Rightarrow> mask list option" where
  \<comment> \<open>\<open>n_kv\<close> and \<open>n_stream\<close> are the dimensions of the tensor, \<open>dst\<close> what it held\<close>
  "set_input_kq_mask k u causal_attn use_alibi n_kv n_stream dst = do {
     assert_that (n_stream \<noteq> 0 \<and> ub_n_tokens u mod n_stream = 0);
     set_input_kq_mask_impl \<lparr>ma_n_kv = n_kv, ma_n_stream = n_stream, ma_n_tps = ub_n_tokens u div n_stream,
       ma_causal = causal_attn, ma_swa = (hp_swa_type (kc_hp k) \<noteq> SWA_NONE), ma_2d = ub_is_pos_2d u,
       ma_alibi = use_alibi\<rparr> k u dst
   }"

end
