(* ===== verification/KvMaskRows.thy ===== *)
theory KvMaskRows
  imports KvMask
begin

text \<open>
  The attention mask is the mask of a reference definition that looks at every cell for every token;
  the reuse of rows does not show. With the bound of \<open>get_n_kv\<close> every token then attends to exactly
  the cached positions of its sequence that are not in its future and not behind its window.
\<close>

section \<open>The reference\<close>

definition outside_window :: "kv_hparams \<Rightarrow> llama_pos \<Rightarrow> llama_pos \<Rightarrow> bool" where
  "outside_window hp p0 p1 \<longleftrightarrow> (case hp_swa_type hp of
      SWA_NONE \<Rightarrow> False
    | SWA_STANDARD \<Rightarrow> p1 - p0 \<ge> int (hp_n_swa hp)
    | SWA_CHUNKED \<Rightarrow> p0 < p1 div int (hp_n_swa hp) * int (hp_n_swa hp)
    | SWA_SYMMETRIC \<Rightarrow> \<bar>p1 - p0\<bar> > int (hp_n_swa hp) div 2)"

definition cell_mask :: "mask_args \<Rightarrow> kv_hparams \<Rightarrow> kv_cells \<Rightarrow> mask_query \<Rightarrow> nat \<Rightarrow> mask" where
  "cell_mask A hp c q j = (let p0 = c_pos c ! j; p1 = mq_p1 q in
     if p0 = -1 \<or> mq_seq q \<notin> c_seq c ! j then Drop
     else if ma_causal A \<and> (p0 > p1 \<or> p0 = p1 \<and> ma_2d A \<and> is_2d_gt (c_ext c ! j) (mq_x q) (mq_y q)) then Drop
     else if ma_swa A \<and> outside_window hp p0 p1 then Drop
     else if ma_alibi A then Bias (- \<bar>p0 - p1\<bar>) else Keep)"

definition row_seq :: "ubatch \<Rightarrow> nat \<Rightarrow> nat" where
  "row_seq u i = nat (hd (ub_seq_id u ! i))"

definition row_cells :: "kv_cache \<Rightarrow> ubatch \<Rightarrow> nat \<Rightarrow> kv_cells" where
  "row_cells k u i = kc_cells k ! (kc_seq_to_stream k ! row_seq u i)"

definition row_query :: "bool \<Rightarrow> ubatch \<Rightarrow> nat \<Rightarrow> mask_query" where
  "row_query is_2d u i = \<lparr>mq_seq = row_seq u i, mq_p1 = ub_pos u ! i,
     mq_x = (if is_2d then ub_pos u ! (i + ub_n_tokens u * 2) else 0),
     mq_y = (if is_2d then ub_pos u ! (i + ub_n_tokens u) else 0)\<rparr>"

text \<open>What the mask code relies on: the batch is well formed and its sequences exist, the tensor's
  dimensions fit batch and cache, and positions stay clear of the end of \<open>int32_t\<close> by the window.\<close>

definition swa_fits :: "kv_hparams \<Rightarrow> kv_cells \<Rightarrow> bool" where
  "swa_fits hp c \<longleftrightarrow> hp_n_swa hp + 32 < 2 ^ 31 \<and> (hp_swa_type hp = SWA_CHUNKED \<longrightarrow> hp_n_swa hp \<noteq> 0) \<and>
     (\<forall>p\<in>set (c_pos c). p + int (hp_n_swa hp) + 32 \<le> INT32_MAX)"

definition mask_ready :: "kv_cache \<Rightarrow> ubatch \<Rightarrow> nat \<Rightarrow> nat \<Rightarrow> bool" where
  "mask_ready k u n_kv n_stream \<longleftrightarrow> ub_data_ok u \<and> n_stream \<noteq> 0 \<and> ub_n_tokens u mod n_stream = 0 \<and>
     n_kv \<le> kv_size (kc_cells k ! 0) \<and> (\<forall>c\<in>set (kc_cells k). swa_fits (kc_hp k) c) \<and>
     (\<forall>i<ub_n_tokens u. valid_seq k (hd (ub_seq_id u ! i)) \<and> ub_pos u ! i \<le> INT32_MAX)"

section \<open>One cell\<close>

lemma masked_swa_eq:
  assumes "0 \<le> p0" "0 \<le> p1" "hp_swa_type hp = SWA_CHUNKED \<longrightarrow> hp_n_swa hp \<noteq> 0"
  shows "is_masked_swa (hp_n_swa hp) (hp_swa_type hp) p0 p1 = Some (outside_window hp p0 p1)"
  using assms by (auto simp: is_masked_swa_def outside_window_def split: swa_type.splits)

lemma swa_reach_eq:
  assumes "n + 32 < 2 ^ 31" shows "swa_reach n = int n + 32"
proof -
  have "(n + 32) mod 2 ^ 32 = n + 32" using assms by simp
  then have "swa_reach n = signed_take_bit 31 (int (n + 32))"
    by (simp add: swa_reach_def sint_uint uint_nat unat_of_nat take_bit_eq_mod flip: of_nat_add)
  also have "\<dots> = int (n + 32)" using assms by (intro signed_take_bit_int_eq_self) simp_all
  finally show ?thesis by simp
qed

lemma window_far:
  assumes "p0 + (int (hp_n_swa hp) + 32) < p1" "hp_swa_type hp = SWA_CHUNKED \<longrightarrow> hp_n_swa hp \<noteq> 0"
  shows "outside_window hp p0 p1 \<longleftrightarrow> hp_swa_type hp \<noteq> SWA_NONE"
proof (cases "hp_swa_type hp")
  case SWA_CHUNKED
  let ?n = "int (hp_n_swa hp)"
  have "p1 mod ?n < ?n" using assms(2) SWA_CHUNKED by simp
  moreover have "p1 div ?n * ?n = p1 - p1 mod ?n" by (simp add: minus_mod_eq_div_mult)
  ultimately show ?thesis using assms(1) SWA_CHUNKED by (simp add: outside_window_def)
qed (use assms in \<open>auto simp: outside_window_def\<close>)

lemma mask_test_eq:
  assumes "kv_inv c" "j < kv_size c" "c_pos c ! j \<noteq> -1" "mq_seq q \<in> c_seq c ! j"
    and "0 \<le> mq_p1 q" "mq_p1 q \<le> INT32_MAX" "swa_fits hp c"
  shows "mask_test A hp c q j (c_pos c ! j) = Some (cell_mask A hp c q j)"
proof -
  have p0: "0 \<le> c_pos c ! j" using kv_inv_cell [OF assms(1,2)] assms(3) by (simp add: cell_ok_def)
  have "c_pos c ! j + int (hp_n_swa hp) + 32 \<le> INT32_MAX"
    using assms(2,7) nth_mem [of j "c_pos c"] by (simp add: swa_fits_def kv_size_def)
  then have top: "c_pos c ! j \<le> INT32_MAX" by simp
  have chunk: "hp_swa_type hp = SWA_CHUNKED \<longrightarrow> hp_n_swa hp \<noteq> 0" using assms(7) by (simp add: swa_fits_def)
  have bias: "i32 (c_pos c ! j - mq_p1 q) = Some (c_pos c ! j - mq_p1 q)"
    using p0 top assms(5,6) by (simp add: i32_def i32_ok_def INT32_MAX_def)
  have later: "(if ma_causal A \<and> ma_2d A \<and> c_pos c ! j = mq_p1 q
      then do { ext \<leftarrow> kv_ext_get j c; Some (is_2d_gt ext (mq_x q) (mq_y q)) } else Some False) =
    Some (ma_causal A \<and> ma_2d A \<and> c_pos c ! j = mq_p1 q \<and> is_2d_gt (c_ext c ! j) (mq_x q) (mq_y q))"
    using kv_reads(6) [OF assms(1-3)] by auto
  have out: "(if ma_swa A then is_masked_swa (hp_n_swa hp) (hp_swa_type hp) (c_pos c ! j) (mq_p1 q) else Some False) =
    Some (ma_swa A \<and> outside_window hp (c_pos c ! j) (mq_p1 q))"
    using masked_swa_eq [OF p0 assms(5) chunk] by simp
  show ?thesis
    unfolding mask_test_def later out using assms(3,4) bias by (auto simp: cell_mask_def Let_def)
qed

section \<open>One row\<close>

definition recorded :: "kv_hparams \<Rightarrow> kv_cells \<Rightarrow> nat \<Rightarrow> llama_pos \<Rightarrow> nat \<Rightarrow> bool" where
  "recorded hp c s m j \<longleftrightarrow> c_pos c ! j \<noteq> -1 \<and> s \<in> c_seq c ! j \<and> c_pos c ! j + swa_reach (hp_n_swa hp) \<ge> m"

definition write_row :: "(nat \<Rightarrow> mask) \<Rightarrow> nat \<Rightarrow> nat list \<Rightarrow> mask list \<Rightarrow> mask list" where
  "write_row v b js dst = fold (\<lambda>j d. d[b + j := v j]) js dst"

lemma length_write_row [simp]: "length (write_row v b js dst) = length dst"
  unfolding write_row_def by (induction js arbitrary: dst) simp_all

lemma nth_write_row:
  "x < length dst \<Longrightarrow> write_row v b js dst ! x = (if \<exists>j\<in>set js. x = b + j then v (x - b) else dst ! x)"
proof (induction js arbitrary: dst)
  case (Cons j js)
  have "write_row v b (j # js) dst = write_row v b js (dst[b + j := v j])" by (simp add: write_row_def)
  with Cons.IH [of "dst[b + j := v j]"] Cons.prems show ?case by (auto simp: nth_list_update)
qed (simp add: write_row_def)

lemma mask_cell_step:
  assumes "kv_inv c" "j < kv_size c" "mq_seq q < LLAMA_MAX_SEQ"
    and "0 \<le> mq_p1 q" "mq_p1 q \<le> INT32_MAX" "swa_fits hp c" "b + j < length dst"
  shows "mask_cell A hp c q prev m b j (dst, idxs) = Some (dst[b + j := cell_mask A hp c q j],
    if \<not> ma_alibi A \<and> \<not> prev \<and> recorded hp c (mq_seq q) m j then idxs @ [j] else idxs)"
proof (cases "c_pos c ! j = -1 \<or> mq_seq q \<notin> c_seq c ! j")
  case True
  then have "cell_mask A hp c q j = Drop" "\<not> recorded hp c (mq_seq q) m j"
    by (auto simp: cell_mask_def Let_def recorded_def)
  with True show ?thesis
    using kv_reads(2,3) [OF assms(1,2)] assms(3,7) by (auto simp: mask_cell_def put_mask_def)
next
  case False
  have "c_pos c ! j + int (hp_n_swa hp) + 32 \<le> INT32_MAX" "hp_n_swa hp + 32 < 2 ^ 31"
    using assms(2,6) nth_mem [of j "c_pos c"] by (simp_all add: swa_fits_def kv_size_def)
  moreover have "0 \<le> c_pos c ! j" using kv_inv_cell [OF assms(1,2)] False by (simp add: cell_ok_def)
  ultimately have "i32 (c_pos c ! j + swa_reach (hp_n_swa hp)) = Some (c_pos c ! j + swa_reach (hp_n_swa hp))"
    by (simp add: swa_reach_eq i32_def i32_ok_def INT32_MAX_def)
  with False show ?thesis
    using mask_test_eq [OF assms(1,2) _ _ assms(4-6), of A] kv_reads(2-4) [OF assms(1,2)] assms(3,7)
    by (simp add: mask_cell_def put_mask_def recorded_def)
qed

lemma mask_cells:
  assumes "kv_inv c" "mq_seq q < LLAMA_MAX_SEQ" "0 \<le> mq_p1 q" "mq_p1 q \<le> INT32_MAX" "swa_fits hp c"
    and "\<forall>j\<in>set js. j < kv_size c \<and> b + j < length dst"
  shows "foldM (mask_cell A hp c q prev m b) js (dst, idxs) = Some (write_row (cell_mask A hp c q) b js dst,
    if ma_alibi A \<or> prev then idxs else idxs @ filter (recorded hp c (mq_seq q) m) js)"
  using assms(6)
proof (induction js arbitrary: dst idxs)
  case (Cons j js)
  have "mask_cell A hp c q prev m b j (dst, idxs) = Some (dst[b + j := cell_mask A hp c q j],
      if \<not> ma_alibi A \<and> \<not> prev \<and> recorded hp c (mq_seq q) m j then idxs @ [j] else idxs)"
    using Cons.prems by (intro mask_cell_step assms(1-5)) simp_all
  with Cons.IH [of "dst[b + j := cell_mask A hp c q j]"] Cons.prems show ?case by (simp add: write_row_def)
qed (simp add: write_row_def)

text \<open>A cell that was not recorded has the same entry for every token of the sequence.\<close>

lemma unrecorded_same:
  assumes "\<not> recorded hp c s m j" "\<not> ma_alibi A" "swa_fits hp c"
    and "mq_seq q = s" "mq_seq q' = s" "m \<le> mq_p1 q" "m \<le> mq_p1 q'"
  shows "cell_mask A hp c q j = cell_mask A hp c q' j"
proof (cases "c_pos c ! j = -1 \<or> s \<notin> c_seq c ! j")
  case False
  have swa: "swa_reach (hp_n_swa hp) = int (hp_n_swa hp) + 32" "hp_swa_type hp = SWA_CHUNKED \<longrightarrow> hp_n_swa hp \<noteq> 0"
    using assms(3) by (simp_all add: swa_fits_def swa_reach_eq)
  with False assms(1) have far: "c_pos c ! j + (int (hp_n_swa hp) + 32) < m" by (simp add: recorded_def)
  then have "c_pos c ! j < mq_p1 q" "c_pos c ! j < mq_p1 q'" using assms(6,7) by simp_all
  moreover have "outside_window hp (c_pos c ! j) (mq_p1 q) = outside_window hp (c_pos c ! j) (mq_p1 q')"
    using window_far [OF order_less_le_trans [OF far assms(6)] swa(2)]
      window_far [OF order_less_le_trans [OF far assms(7)] swa(2)] by simp
  ultimately show ?thesis using False assms(2,4,5) by (simp add: cell_mask_def Let_def)
qed (use assms(4,5) in \<open>simp add: cell_mask_def Let_def\<close>)

section \<open>The state between rows\<close>

definition lo_ok :: "ubatch \<Rightarrow> llama_pos list \<Rightarrow> bool" where
  "lo_ok u lo \<longleftrightarrow> length lo = LLAMA_MAX_SEQ \<and> (\<forall>i<ub_n_tokens u. lo ! row_seq u i \<le> ub_pos u ! i)"

definition rows_done :: "mask_args \<Rightarrow> kv_cache \<Rightarrow> ubatch \<Rightarrow> llama_pos list \<Rightarrow> nat set \<Rightarrow> mask_rows \<Rightarrow> bool" where
  \<comment> \<open>the rows of \<open>I\<close> are written, and the rows to copy from are among them\<close>
  "rows_done A k u lo I R \<longleftrightarrow> length (mr_data R) = ma_n_kv A * ub_n_tokens u \<and>
     (\<forall>i\<in>I. \<forall>j<ma_n_kv A. mr_data R ! (ma_n_kv A * i + j) =
        cell_mask A (kc_hp k) (row_cells k u i) (row_query (ma_2d A) u i) j) \<and>
     (\<forall>s r. \<not> ma_alibi A \<and> mr_srct R s = Some r \<longrightarrow> r \<in> I \<and> row_seq u r = s \<and>
        mr_idxs R s = Some (filter (recorded (kc_hp k) (row_cells k u r) s (lo ! s)) [0..<ma_n_kv A]))"

lemma first_seq_eq:
  assumes "ub_data_ok u" "i < ub_n_tokens u"
  shows "first_seq u i = Some (row_seq u i)" "row_seq u i < LLAMA_MAX_SEQ" "0 \<le> ub_pos u ! i" "i < length (ub_pos u)"
proof -
  have "ub_seq_id u ! i \<noteq> []" "i < length (ub_seq_id u)" "\<forall>s\<in>set (ub_seq_id u ! i). 0 \<le> s \<and> nat s < LLAMA_MAX_SEQ"
    using assms by (auto simp: ub_data_ok_def)
  then show "first_seq u i = Some (row_seq u i)" "row_seq u i < LLAMA_MAX_SEQ"
    by (simp_all add: first_seq_def row_seq_def hd_conv_nth)
  show "0 \<le> ub_pos u ! i" using assms by (simp add: ub_data_ok_def)
  show "i < length (ub_pos u)" by (rule order_less_le_trans [OF assms(2) ub_pos_length [OF assms(1)]])
qed

lemma mask_pos_min_ok:
  assumes "ub_data_ok u"
  shows "\<exists>lo. mask_pos_min u = Some lo \<and> lo_ok u lo"
proof -
  let ?P = "\<lambda>done lo. length lo = LLAMA_MAX_SEQ \<and> (\<forall>i<length done. lo ! row_seq u i \<le> ub_pos u ! i)"
  have "\<exists>lo. mask_pos_min u = Some lo \<and> ?P [0..<ub_n_tokens u] lo"
    unfolding mask_pos_min_def
  proof (rule foldM_rule)
    fix "done" i rest lo
    assume split: "[0..<ub_n_tokens u] = done @ i # rest" and P: "?P done lo"
    note i = upt_split [OF split]
    note f = first_seq_eq [OF assms i(2)]
    let ?lo = "lo[row_seq u i := min (lo ! row_seq u i) (ub_pos u ! i)]"
    have "?lo ! row_seq u l \<le> ub_pos u ! l" if "l < length (done @ [i])" for l
    proof (cases "l = i")
      case False
      then have "l < length done" using that i(1) by simp
      with P have "lo ! row_seq u l \<le> ub_pos u ! l" by blast
      with P f(2) show ?thesis by (auto simp: nth_list_update)
    qed (use P f(2) in simp)
    then show "\<exists>lo'. (do { s \<leftarrow> first_seq u i; old \<leftarrow> at lo s; p \<leftarrow> at (ub_pos u) i; Some (lo[s := min old p]) }) = Some lo' \<and>
        ?P (done @ [i]) lo'" using P f by simp
  qed simp
  then show ?thesis by (simp add: lo_ok_def)
qed

lemma row_facts:
  assumes "kvc_inv k" "mask_ready k u n ns" "i < ub_n_tokens u"
  shows "row_seq u i < length (kc_seq_to_stream k)" "kc_seq_to_stream k ! row_seq u i < length (kc_cells k)"
    "kv_inv (row_cells k u i)" "n \<le> kv_size (row_cells k u i)" "swa_fits (kc_hp k) (row_cells k u i)"
    "ub_pos u ! i \<le> INT32_MAX" "ub_data_ok u"
proof -
  note r = assms(2) [unfolded mask_ready_def]
  show s: "row_seq u i < length (kc_seq_to_stream k)" using r assms(3) by (simp add: valid_seq_def row_seq_def)
  then have st: "kc_seq_to_stream k ! row_seq u i < hp_n_stream (kc_hp k)" by (rule kvc_invD(6) [OF assms(1)])
  then show len: "kc_seq_to_stream k ! row_seq u i < length (kc_cells k)" by (simp add: kvc_invD(2) [OF assms(1)])
  show "kv_inv (row_cells k u i)" "n \<le> kv_size (row_cells k u i)"
    using kvc_invD(7) [OF assms(1) st] r by (simp_all add: stream_ok_def row_cells_def)
  show "swa_fits (kc_hp k) (row_cells k u i)" using r len by (simp add: row_cells_def)
  show "ub_pos u ! i \<le> INT32_MAX" "ub_data_ok u" using r assms(3) by simp_all
qed

lemma mask_row_eq:
  assumes "kvc_inv k" "mask_ready k u n ns" "lo_ok u lo" "ma_2d A = ub_is_pos_2d u" "i < ub_n_tokens u"
  shows "mask_row A k u lo i R = (let s = row_seq u i; c = row_cells k u i; q = row_query (ma_2d A) u i in
    case (if ma_alibi A then None else mr_srct R s) of
      Some r \<Rightarrow> mask_row_again A (kc_hp k) c q (lo ! s) r i R
    | None \<Rightarrow> mask_row_first A (kc_hp k) c q (lo ! s) i R)"
proof -
  note f = row_facts [OF assms(1,2,5)]
  note d = first_seq_eq [OF f(7) assms(5)]
  have "length (ub_pos u) = ub_n_tokens u * max 1 (ub_n_pos u)" using f(7) by (simp add: ub_data_ok_def)
  moreover have "ub_n_tokens u * 3 \<le> ub_n_tokens u * max 1 (ub_n_pos u)" if "ma_2d A"
    using that assms(4) by (intro mult_le_mono2) (simp add: ub_is_pos_2d_def)
  ultimately have "ub_n_tokens u * 3 \<le> length (ub_pos u)" if "ma_2d A" using that by (simp only:)
  then have "i + ub_n_tokens u * 2 < length (ub_pos u)" "i + ub_n_tokens u < length (ub_pos u)" if "ma_2d A"
    using that assms(5) by simp_all
  with f(1,2) d assms(3) show ?thesis
    by (simp add: mask_row_def row_cells_def row_query_def lo_ok_def Let_def split del: option.split)
qed

section \<open>One row after another\<close>

lemma row_index:
  assumes "l < N" "j < (n :: nat)" shows "n * l + j < n * N"
proof -
  have "n * l + j < n * Suc l" using assms(2) by simp
  also have "\<dots> \<le> n * N" using assms(1) by (intro mult_le_mono2) simp
  finally show ?thesis .
qed

lemma row_index_eq:
  assumes "j < n" "j' < (n :: nat)" shows "n * l + j = n * i + j' \<longleftrightarrow> l = i \<and> j = j'"
proof
  assume eq: "n * l + j = n * i + j'"
  have "(n * l + j) div n = l" "(n * i + j') div n = i" using assms by simp_all
  with eq show "l = i \<and> j = j'" by auto
qed simp

lemma nth_row_written:
  assumes "length dst = n * N" "l < N" "j < n" "set js \<subseteq> {..<n}"
  shows "write_row v (n * i) js dst ! (n * l + j) = (if l = i \<and> j \<in> set js then v j else dst ! (n * l + j))"
proof -
  have "(\<exists>j'\<in>set js. n * l + j = n * i + j') \<longleftrightarrow> l = i \<and> j \<in> set js"
    using row_index_eq [OF assms(3)] assms(4) by (auto simp: subset_iff)
  then show ?thesis using row_index [OF assms(2,3)] assms(1) by (auto simp: nth_write_row)
qed

lemma copy_row_eq:
  assumes "length xs = n * N" "r < N" "i < N"
  shows "\<exists>ys. copy_row (n * r) n (n * i) xs = Some ys \<and> length ys = n * N \<and>
    (\<forall>l<N. \<forall>j<n. ys ! (n * l + j) = xs ! (n * (if l = i then r else l) + j))"
proof -
  let ?ys = "take (n * i) xs @ take n (drop (n * r) xs) @ drop (n * i + n) xs"
  have room: "n * i + n \<le> n * N" "n * r + n \<le> n * N"
    using assms(2,3) mult_le_mono2 [of "Suc i" N n] mult_le_mono2 [of "Suc r" N n] by simp_all
  have "?ys ! (n * l + j) = xs ! (n * (if l = i then r else l) + j)" if "l < N" "j < n" for l j
  proof -
    consider "l < i" | "l = i" | "i < l" by linarith
    then show ?thesis
    proof cases
      case 1
      then have "n * l + j < n * i" using row_index that(2) by blast
      with 1 assms(1) room show ?thesis by (simp add: nth_append)
    next
      case 2
      moreover have "min (n * N) (n * i) = n * i" using room(1) by simp
      moreover have "drop (n * r) xs ! j = xs ! (n * r + j)" using assms(1,2) by (intro nth_drop) simp
      moreover have "j < n * N - n * r" using room(2) that(2) by linarith
      ultimately show ?thesis using that(2) assms(1) by (simp add: nth_append)
    next
      case 3
      then have "n * i + n \<le> n * l" using mult_le_mono2 [of "Suc i" l n] by simp
      moreover have "min (n * N) (n * i) = n * i" "n \<le> n * N - n * r" using room by simp_all
      moreover have "\<not> n * l + j - n * i < n" using \<open>n * i + n \<le> n * l\<close> by linarith
      moreover have "n * i + n + (n * l + j - n * i - n) = n * l + j" using \<open>n * i + n \<le> n * l\<close> by linarith
      ultimately show ?thesis using 3 assms(1) room by (simp add: nth_append)
    qed
  qed
  moreover have "copy_row (n * r) n (n * i) xs = Some ?ys" using room assms(1) by (simp add: copy_row_def)
  ultimately show ?thesis using room assms(1) by (auto intro!: exI [of _ ?ys])
qed

lemma row_first_done:
  assumes inv: "kvc_inv k" and u: "mask_ready k u (ma_n_kv A) ns" and i: "i < ub_n_tokens u" "I \<subseteq> {..<ub_n_tokens u}" "i \<notin> I"
    and R: "rows_done A k u lo I R"
  shows "\<exists>R'. mask_row_first A (kc_hp k) (row_cells k u i) (row_query (ma_2d A) u i) (lo ! row_seq u i) i R = Some R' \<and>
    rows_done A k u lo (insert i I) R'"
proof -
  let ?n = "ma_n_kv A" and ?c = "row_cells k u i" and ?q = "row_query (ma_2d A) u i" and ?s = "row_seq u i"
  note f = row_facts [OF inv u i(1)] and d = first_seq_eq [OF row_facts(7) [OF inv u i(1)] i(1)]
  have len: "length (mr_data R) = ?n * ub_n_tokens u" using R by (simp add: rows_done_def)
  have q: "mq_seq ?q = ?s" "mq_p1 ?q = ub_pos u ! i" by (simp_all add: row_query_def)
  have js: "\<forall>j\<in>set [0..<?n]. j < kv_size ?c \<and> ?n * i + j < length (mr_data R)"
    using f(4) row_index [OF i(1), of _ ?n] len by auto
  have "mq_seq ?q < LLAMA_MAX_SEQ" "0 \<le> mq_p1 ?q" "mq_p1 ?q \<le> INT32_MAX" using d f(6) by (simp_all add: q)
  note run = mask_cells [OF f(3) this f(5) js, of A False "lo ! ?s"]
  have data: "write_row (cell_mask A (kc_hp k) ?c ?q) (?n * i) [0..<?n] (mr_data R) ! (?n * l + j) =
      cell_mask A (kc_hp k) (row_cells k u l) (row_query (ma_2d A) u l) j" if "l \<in> insert i I" "j < ?n" for l j
  proof -
    have "l < ub_n_tokens u" using that(1) i by auto
    moreover have "set [0..<?n] \<subseteq> {..<?n}" by auto
    ultimately show ?thesis using nth_row_written [OF len _ that(2)] that R by (auto simp: rows_done_def)
  qed
  show ?thesis
    using R run data len by (auto simp: mask_row_first_def Let_def rows_done_def q split: if_splits)
qed

lemma row_again_done:
  assumes inv: "kvc_inv k" and u: "mask_ready k u (ma_n_kv A) ns" and i: "i < ub_n_tokens u" "I \<subseteq> {..<ub_n_tokens u}" "i \<notin> I"
    and R: "rows_done A k u lo I R" and lo: "lo_ok u lo" and r: "\<not> ma_alibi A" "mr_srct R (row_seq u i) = Some r"
  shows "\<exists>R'. mask_row_again A (kc_hp k) (row_cells k u i) (row_query (ma_2d A) u i) (lo ! row_seq u i) r i R = Some R' \<and>
    rows_done A k u lo (insert i I) R'"
proof -
  let ?n = "ma_n_kv A" and ?c = "row_cells k u i" and ?q = "row_query (ma_2d A) u i" and ?s = "row_seq u i"
  let ?js = "filter (recorded (kc_hp k) ?c ?s (lo ! ?s)) [0..<?n]"
  note f = row_facts [OF inv u i(1)] and d = first_seq_eq [OF row_facts(7) [OF inv u i(1)] i(1)]
  from R r have rI: "r \<in> I" "row_seq u r = ?s" "mr_idxs R ?s = Some (filter (recorded (kc_hp k) (row_cells k u r) ?s (lo ! ?s)) [0..<?n])"
    by (simp_all add: rows_done_def)
  then have rn: "r < ub_n_tokens u" and c: "row_cells k u r = ?c" using i(2) by (auto simp: row_cells_def)
  have q: "mq_seq ?q = ?s" "mq_p1 ?q = ub_pos u ! i" "mq_seq (row_query (ma_2d A) u r) = ?s" "mq_p1 (row_query (ma_2d A) u r) = ub_pos u ! r"
    by (simp_all add: row_query_def rI(2))
  have len: "length (mr_data R) = ?n * ub_n_tokens u" using R by (simp add: rows_done_def)
  from copy_row_eq [OF len rn i(1)] obtain ys where ys: "copy_row (?n * r) ?n (?n * i) (mr_data R) = Some ys" "length ys = ?n * ub_n_tokens u"
    "\<And>l j. l < ub_n_tokens u \<Longrightarrow> j < ?n \<Longrightarrow> ys ! (?n * l + j) = mr_data R ! (?n * (if l = i then r else l) + j)" by blast
  have js: "\<forall>j\<in>set ?js. j < kv_size ?c \<and> ?n * i + j < length ys"
    using f(4) row_index [OF i(1), of _ ?n] ys(2) by auto
  have "mq_seq ?q < LLAMA_MAX_SEQ" "0 \<le> mq_p1 ?q" "mq_p1 ?q \<le> INT32_MAX" using d f(6) by (simp_all add: q)
  note run = mask_cells [OF f(3) this f(5) js, of A True "lo ! ?s" ?js]
  have old: "ys ! (?n * l + j) = cell_mask A (kc_hp k) (row_cells k u (if l = i then r else l)) (row_query (ma_2d A) u (if l = i then r else l)) j"
    if "l \<in> insert i I" "j < ?n" for l j
  proof -
    have "l < ub_n_tokens u" "(if l = i then r else l) \<in> I" using that(1) i(1,2) rI(1) by auto
    with ys(3) that(2) R show ?thesis by (simp only: rows_done_def)
  qed
  have same: "cell_mask A (kc_hp k) ?c (row_query (ma_2d A) u r) j = cell_mask A (kc_hp k) ?c ?q j" if "j < ?n" "j \<notin> set ?js" for j
  proof (rule unrecorded_same [OF _ r(1) f(5)])
    show "\<not> recorded (kc_hp k) ?c ?s (lo ! ?s) j" using that by simp
    have "lo ! row_seq u r \<le> ub_pos u ! r" "lo ! ?s \<le> ub_pos u ! i" using lo rn i(1) unfolding lo_ok_def by blast+
    then show "lo ! ?s \<le> mq_p1 (row_query (ma_2d A) u r)" "lo ! ?s \<le> mq_p1 ?q" by (simp_all add: q rI(2))
  qed (simp_all add: q)
  have data: "write_row (cell_mask A (kc_hp k) ?c ?q) (?n * i) ?js ys ! (?n * l + j) =
      cell_mask A (kc_hp k) (row_cells k u l) (row_query (ma_2d A) u l) j" if "l \<in> insert i I" "j < ?n" for l j
  proof -
    have l: "l < ub_n_tokens u" and sub: "set ?js \<subseteq> {..<?n}" using that(1) i by auto
    show ?thesis unfolding nth_row_written [OF ys(2) l that(2) sub]
      using old [OF that] same [OF that(2)] c by auto
  qed
  have "take ?n ?js = ?js" using length_filter_le [of _ "[0..<?n]"] by simp
  with ys(1) rI(3) c run have "mask_row_again A (kc_hp k) ?c ?q (lo ! ?s) r i R =
      Some (R\<lparr>mr_data := write_row (cell_mask A (kc_hp k) ?c ?q) (?n * i) ?js ys, mr_idxs := (mr_idxs R)(?s \<mapsto> ?js)\<rparr>)"
    by (simp add: mask_row_again_def Let_def q)
  moreover have "rows_done A k u lo (insert i I)
      (R\<lparr>mr_data := write_row (cell_mask A (kc_hp k) ?c ?q) (?n * i) ?js ys, mr_idxs := (mr_idxs R)(?s \<mapsto> ?js)\<rparr>)"
    using R data ys(2) rI(3) c by (auto simp: rows_done_def)
  ultimately show ?thesis by blast
qed

lemma mask_row_done:
  assumes "kvc_inv k" "mask_ready k u (ma_n_kv A) ns" "lo_ok u lo" "ma_2d A = ub_is_pos_2d u"
    and "i < ub_n_tokens u" "I \<subseteq> {..<ub_n_tokens u}" "i \<notin> I" "rows_done A k u lo I R"
  shows "\<exists>R'. mask_row A k u lo i R = Some R' \<and> rows_done A k u lo (insert i I) R'"
proof (cases "if ma_alibi A then None else mr_srct R (row_seq u i)")
  case None
  then show ?thesis
    using row_first_done [OF assms(1,2,5-8)] by (simp add: mask_row_eq [OF assms(1-5)] Let_def split del: if_split)
next
  case (Some r)
  then have "\<not> ma_alibi A" "mr_srct R (row_seq u i) = Some r" by (simp_all split: if_splits)
  with row_again_done [OF assms(1,2,5-8,3)] Some show ?thesis
    by (simp add: mask_row_eq [OF assms(1-5)] Let_def split del: if_split)
qed

section \<open>All rows\<close>

lemma mask_impl_done:
  assumes inv: "kvc_inv k" and u: "mask_ready k u (ma_n_kv A) (ma_n_stream A)" and tp: "ma_2d A = ub_is_pos_2d u"
    and n: "ub_n_tokens u = ma_n_stream A * ma_n_tps A" and len: "length dst = ma_n_kv A * ub_n_tokens u"
  shows "\<exists>dst'. set_input_kq_mask_impl A k u dst = Some dst' \<and> length dst' = length dst \<and>
    (\<forall>i<ub_n_tokens u. \<forall>j<ma_n_kv A. dst' ! (ma_n_kv A * i + j) =
       cell_mask A (kc_hp k) (row_cells k u i) (row_query (ma_2d A) u i) j)"
proof -
  let ?t = "ma_n_tps A" and ?start = "\<lambda>d. \<lparr>mr_data = d, mr_srct = Map.empty, mr_idxs = Map.empty\<rparr>"
  have "ub_data_ok u" using u by (simp add: mask_ready_def)
  from mask_pos_min_ok [OF this] obtain lo where lo: "mask_pos_min u = Some lo" "lo_ok u lo" by blast
  let ?P = "\<lambda>m d. rows_done A k u lo {..<m} (?start d)"
  have stream: "\<exists>d'. (do { R \<leftarrow> foldM (\<lambda>ii. mask_row A k u lo (s * ?t + ii)) [0..<?t] (?start d); Some (mr_data R) }) = Some d' \<and>
      ?P (Suc s * ?t) d'" if s: "s < ma_n_stream A" and d: "?P (s * ?t) d" for s d
  proof -
    have "Suc s * ?t \<le> ub_n_tokens u" using s n by (simp only: mult_le_mono1 Suc_leI)
    then have room: "s * ?t + ii < ub_n_tokens u" if "ii < ?t" for ii using that by simp
    let ?Q = "\<lambda>done R. rows_done A k u lo {..<s * ?t + length done} R"
    have "\<exists>R. foldM (\<lambda>ii. mask_row A k u lo (s * ?t + ii)) [0..<?t] (?start d) = Some R \<and> ?Q [0..<?t] R"
    proof (rule foldM_rule)
      show "?Q [] (?start d)" using d by simp
    next
      fix "done" ii rest R
      assume split: "[0..<?t] = done @ ii # rest" and R: "?Q done R"
      note ii = upt_split [OF split]
      have "\<exists>R'. mask_row A k u lo (s * ?t + ii) R = Some R' \<and> rows_done A k u lo (insert (s * ?t + ii) {..<s * ?t + length done}) R'"
        by (rule mask_row_done [OF inv u lo(2) tp room [OF ii(2)]]) (use R room [OF ii(2)] ii(1) in auto)
      then show "\<exists>R'. mask_row A k u lo (s * ?t + ii) R = Some R' \<and> ?Q (done @ [ii]) R'"
        by (simp add: ii(1) lessThan_Suc)
    qed
    then obtain R where R: "foldM (\<lambda>ii. mask_row A k u lo (s * ?t + ii)) [0..<?t] (?start d) = Some R" "?Q [0..<?t] R" by blast
    then have "?P (Suc s * ?t) (mr_data R)" by (simp add: rows_done_def add.commute)
    with R(1) show ?thesis by simp
  qed
  let ?body = "\<lambda>s d. do { R \<leftarrow> foldM (\<lambda>ii. mask_row A k u lo (s * ?t + ii)) [0..<?t] (?start d); Some (mr_data R) }"
  have "\<exists>d. foldM ?body [0..<ma_n_stream A] dst = Some d \<and> ?P (length [0..<ma_n_stream A] * ?t) d"
  proof (rule foldM_rule)
    show "?P (length ([] :: nat list) * ?t) dst" using len by (simp add: rows_done_def)
  next
    fix "done" s rest d
    assume "[0..<ma_n_stream A] = done @ s # rest" "?P (length done * ?t) d"
    with stream [of s d] upt_split [of _ "done" s rest] show "\<exists>d'. ?body s d = Some d' \<and> ?P (length (done @ [s]) * ?t) d'"
      by simp
  qed
  then show ?thesis using lo(1) len by (auto simp: set_input_kq_mask_impl_def rows_done_def n)
qed

end
