(* ===== verification/KvMaskProps.thy ===== *)
theory KvMaskProps
  imports KvMaskRows KvCacheProps
begin

text \<open>
  The properties of the attention mask: it is the mask of the reference below, and after a micro-batch
  is placed every token attends to exactly the positions of its sequence it should see.
\<close>

section \<open>The mask is that of the reference\<close>

definition mask_ref :: "kv_cache \<Rightarrow> ubatch \<Rightarrow> bool \<Rightarrow> bool \<Rightarrow> nat \<Rightarrow> nat \<Rightarrow> mask" where
  \<comment> \<open>token \<open>i\<close>, cell \<open>j\<close> of the stream of its first sequence\<close>
  "mask_ref k u causal use_alibi i j =
     (let s = hd (ub_seq_id u ! i); c = seq_cells k s; p0 = c_pos c ! j; p1 = ub_pos u ! i;
        later = (ub_is_pos_2d u \<and> is_2d_gt (c_ext c ! j) (ub_pos u ! (i + ub_n_tokens u * 2)) (ub_pos u ! (i + ub_n_tokens u)))
      in if p0 = -1 \<or> nat s \<notin> c_seq c ! j then Drop
      else if causal \<and> (p0 > p1 \<or> p0 = p1 \<and> later) then Drop
      else if outside_window (kc_hp k) p0 p1 then Drop
      else if use_alibi then Bias (- \<bar>p0 - p1\<bar>) else Keep)"

lemma mask_run:
  assumes "kvc_inv k" "mask_ready k u n_kv n_stream" "length dst = n_kv * ub_n_tokens u"
  shows "\<exists>dst'. set_input_kq_mask k u causal use_alibi n_kv n_stream dst = Some dst' \<and> length dst' = length dst \<and>
    (\<forall>i<ub_n_tokens u. \<forall>j<n_kv. dst' ! (n_kv * i + j) = mask_ref k u causal use_alibi i j)"
proof -
  let ?A = "\<lparr>ma_n_kv = n_kv, ma_n_stream = n_stream, ma_n_tps = ub_n_tokens u div n_stream, ma_causal = causal,
    ma_swa = (hp_swa_type (kc_hp k) \<noteq> SWA_NONE), ma_2d = ub_is_pos_2d u, ma_alibi = use_alibi\<rparr>"
  have n: "n_stream \<noteq> 0" "ub_n_tokens u mod n_stream = 0" using assms(2) by (simp_all add: mask_ready_def)
  then have "ub_n_tokens u = n_stream * (ub_n_tokens u div n_stream)" using mult_div_mod_eq [of n_stream "ub_n_tokens u"] by simp
  with mask_impl_done [OF assms(1), of u ?A dst] assms(2,3) obtain dst' where
    dst': "set_input_kq_mask_impl ?A k u dst = Some dst'" "length dst' = length dst"
      "\<forall>i<ub_n_tokens u. \<forall>j<n_kv. dst' ! (n_kv * i + j) = cell_mask ?A (kc_hp k) (row_cells k u i) (row_query (ub_is_pos_2d u) u i) j"
    by auto
  have "cell_mask ?A (kc_hp k) (row_cells k u i) (row_query (ub_is_pos_2d u) u i) j = mask_ref k u causal use_alibi i j" for i j
    by (auto simp: cell_mask_def mask_ref_def Let_def row_cells_def seq_cells_def row_seq_def row_query_def outside_window_def)
  with dst' n show ?thesis by (simp add: set_input_kq_mask_def)
qed

text \<open>C3. \<open>set_input_kq_mask\<close> returns, and its tensor is the reference mask: entry \<open>(i, j)\<close> is dropped when the cell is
  empty, does not hold the token's sequence, lies in its future (with the tie broken by the 2D position for
  M-RoPE) or outside its window. Copying the row of an earlier token of the sequence and looking
  again only at the recorded cells changes nothing.\<close>

theorem mask_exact:
  assumes "kvc_reachable k" "mask_ready k u n_kv n_stream" "length dst = n_kv * ub_n_tokens u"
  shows "\<exists>dst'. set_input_kq_mask k u causal use_alibi n_kv n_stream dst = Some dst' \<and> length dst' = length dst \<and>
    (\<forall>i<ub_n_tokens u. \<forall>j<n_kv. dst' ! (n_kv * i + j) = mask_ref k u causal use_alibi i j)"
  using kvc_reachable_own [OF assms(1)] mask_run [OF _ assms(2,3)] by simp

definition demo_si :: slot_info where
  "demo_si = \<lparr>si_s0 = 0, si_s1 = 0, si_strm = [0], si_idxs = [[0, 1]]\<rparr>"

lemma demo_slot: "find_slot demo_cache demo_ub False = Some demo_si"
  by code_simp

lemma demo_slot_ne: "\<not> si_empty demo_si"
  by (simp add: si_empty_def demo_si_def)

lemma demo_apply:
  "map_option (\<lambda>k. (map (\<lambda>c. (c_pos c, c_seq c)) (kc_cells k), get_n_kv demo_si k)) (apply_ubatch demo_si demo_ub demo_cache) =
    Some ([([0, 1, -1, -1], [{0}, {0}, {}, {}])], Some 4)"
  by code_simp

lemma demo_placed:
  obtains k c where "apply_ubatch demo_si demo_ub demo_cache = Some k" "kvc_reachable k" "same_config demo_cache k"
    "get_n_kv demo_si k = Some 4" "kc_cells k = [c]" "c_pos c = [0, 1, -1, -1]" "c_seq c = [{0}, {0}, {}, {}]" "mask_ready k demo_ub 4 1"
proof -
  obtain k where k: "apply_ubatch demo_si demo_ub demo_cache = Some k" "get_n_kv demo_si k = Some 4"
    "map (\<lambda>c. (c_pos c, c_seq c)) (kc_cells k) = [([0, 1, -1, -1], [{0}, {0}, {}, {}])]"
    using demo_apply by auto
  then obtain c where c: "kc_cells k = [c]" "c_pos c = [0, 1, -1, -1]" "c_seq c = [{0}, {0}, {}, {}]" by (auto simp: map_eq_Cons_conv)
  have own: "kvc_inv demo_cache" "kc_other demo_cache = None" using demo_own by simp_all
  from apply_positions [OF own demo_bounded demo_data find_apply(2) [OF own demo_ready demo_slot demo_slot_ne]] k(1)
  have config: "same_config demo_cache k" by auto
  then have "kc_hp k = demo_hp" "kc_seq_to_stream k = kc_seq_to_stream demo_cache" by (simp_all add: same_config_def)
  then have "mask_ready k demo_ub 4 1"
    using demo_data c
    by (auto simp: mask_ready_def swa_fits_def valid_seq_def kv_size_def INT32_MAX_def)
      (auto simp: demo_ub_def demo_hp_def less_Suc_eq numeral_2_eq_2 LLAMA_MAX_SEQ_def)
  with that [OF k(1) kvc_reachable.place [OF demo_reachable demo_ready demo_slot demo_slot_ne k(1)] config k(2) c] show ?thesis by simp
qed

theorem mask_exact_witness:
  "\<exists>k dst. apply_ubatch demo_si demo_ub demo_cache = Some k \<and>
    set_input_kq_mask k demo_ub True False 4 1 (replicate 8 Drop) = Some dst \<and>
    (\<forall>i<2. \<forall>j<4. dst ! (4 * i + j) = (if j \<le> i then Keep else Drop))"
proof -
  from demo_placed obtain k c where k: "apply_ubatch demo_si demo_ub demo_cache = Some k" "kvc_reachable k" "same_config demo_cache k"
    "kc_cells k = [c]" "c_pos c = [0, 1, -1, -1]" "c_seq c = [{0}, {0}, {}, {}]" "mask_ready k demo_ub 4 1" by metis
  have u: "ub_n_tokens demo_ub = 2" by (simp add: demo_ub_def)
  from mask_exact [OF k(2,7), of "replicate 8 Drop" True False] u obtain dst where
    dst: "set_input_kq_mask k demo_ub True False 4 1 (replicate 8 Drop) = Some dst"
      "\<forall>i<2. \<forall>j<4. dst ! (4 * i + j) = mask_ref k demo_ub True False i j" by auto
  have "kc_hp k = demo_hp" "kc_seq_to_stream k ! 0 = 0" using k(3) by (simp_all add: same_config_def)
  then have "mask_ref k demo_ub True False i j = (if j \<le> i then Keep else Drop)" if "i < 2" "j < 4" for i j
    using that k(4-6)
    by (auto simp: mask_ref_def Let_def seq_cells_def outside_window_def demo_ub_def demo_hp_def ub_is_pos_2d_def
        less_Suc_eq numeral_2_eq_2 eval_nat_numeral)
  with dst k(1) show ?thesis by auto
qed

section \<open>What a token attends to\<close>

lemma kept_positions:
  assumes "kv_inv c" "n \<le> kv_size c" "\<forall>j<kv_size c. c_pos c ! j \<noteq> -1 \<longrightarrow> j < n"
  shows "{c_pos c ! j | j. j < n \<and> c_pos c ! j \<noteq> -1 \<and> s \<in> c_seq c ! j \<and> P (c_pos c ! j)} = {p \<in> seq_positions s (cells c). P p}"
    (is "?A = ?B")
proof (rule equalityI; rule subsetI)
  fix p assume "p \<in> ?A"
  then obtain j where j: "p = c_pos c ! j" "j < kv_size c" "s \<in> c_seq c ! j" "P p" using assms(2) by auto
  then have "(p, c_seq c ! j) \<in> set (cells c)"
    using nth_cells [OF assms(1) j(2)] length_cells [OF assms(1)] by (metis nth_mem)
  with j show "p \<in> ?B" by (auto simp: seq_positions_def)
next
  fix p assume "p \<in> ?B"
  then obtain S where S: "(p, S) \<in> set (cells c)" "s \<in> S" "P p" by (auto simp: seq_positions_def)
  then obtain j where j: "j < kv_size c" "cells c ! j = (p, S)" using length_cells [OF assms(1)] by (metis in_set_conv_nth)
  then have e: "c_pos c ! j = p" "c_seq c ! j = S" using nth_cells [OF assms(1) j(1)] by simp_all
  moreover have "p \<noteq> -1" using kv_inv_cell [OF assms(1) j(1)] S(2) e by (auto simp: cell_ok_def)
  ultimately show "p \<in> ?A" using assms(3) j(1) S(2,3) by blast
qed

lemma token_stream:
  assumes "slots_ok k u si nt" "ub_data_ok u" "i < ub_n_tokens u"
  shows "kc_seq_to_stream k ! row_seq u i \<in> set (si_strm si)" "row_seq u i < length (kc_seq_to_stream k)"
proof -
  have n: "ub_n_tokens u = length (si_strm si) * nt" "0 < nt" using assms(1) by (simp_all add: slots_ok_def)
  have d: "i div nt < length (si_strm si)" using assms(3) n by (simp add: less_mult_imp_div_less)
  have "i mod nt < nt" "i div nt * nt + i mod nt = i" using n(2) by simp_all
  moreover have "hd (ub_seq_id u ! i) \<in> set (ub_seq_id u ! i)" using assms(2,3) by (simp add: ub_data_ok_def)
  ultimately have "row_seq u i < length (kc_seq_to_stream k) \<and> kc_seq_to_stream k ! row_seq u i = si_strm si ! (i div nt)"
    using assms(1) d unfolding slots_ok_def row_seq_def by metis
  with d show "kc_seq_to_stream k ! row_seq u i \<in> set (si_strm si)" "row_seq u i < length (kc_seq_to_stream k)" by simp_all
qed

text \<open>C1. The whole path of a micro-batch through the cache (without 2D positions and ALiBi, with a padding that is a power of
  two): after its slot is found and it is placed, with the bound of
  \<open>get_n_kv\<close> for the tensor, the cells kept in the row of a token are those of the old and the new positions of
  its sequence above every overwritten one that are not after the token (when causal) and inside its window.
  Nothing outside the bound is missed.\<close>

theorem token_attends:
  assumes "kvc_reachable k" "ub_ready k u" "find_slot k u cont = Some si" "\<not> si_empty si"
    and "apply_ubatch si u k = Some k'" "get_n_kv si k' = Some n" "mask_ready k' u n n_stream" "\<not> ub_is_pos_2d u"
    and "max (hp_n_pad (kc_hp k)) 256 = 2 ^ m" "m < 32" "kv_size (kc_cells k' ! 0) + 2 ^ m \<le> 2 ^ 32"
    and "length dst = n * ub_n_tokens u"
  shows "\<exists>dst'. set_input_kq_mask k' u causal False n n_stream dst = Some dst' \<and>
    (\<forall>i<ub_n_tokens u. let s = nat (hd (ub_seq_id u ! i)); c = kc_cells k' ! (kc_seq_to_stream k' ! s) in
       {c_pos c ! j | j. j < n \<and> dst' ! (n * i + j) = Keep} =
       {p \<in> kvc_positions k s \<union> batch_positions u s. (\<forall>q\<in>overwritten k si s. q < p) \<and>
          (causal \<longrightarrow> p \<le> ub_pos u ! i) \<and> \<not> outside_window (kc_hp k) p (ub_pos u ! i)})"
proof -
  have own: "kvc_inv k" "kc_other k = None" using kvc_reachable_own [OF assms(1)] by simp_all
  have u: "pos_bounded k" "ub_data_ok u" using assms(2) by (simp_all add: ub_ready_def)
  note ok = find_apply(2) [OF own assms(2-4)]
  from apply_positions [OF own u ok] assms(5) have k': "kvc_inv k'" "same_config k k'"
    and pos: "\<And>s. s < length (kc_seq_to_stream k) \<Longrightarrow> kvc_positions k' s =
       {p \<in> kvc_positions k s \<union> batch_positions u s. \<forall>q\<in>overwritten k si s. q < p}" by auto
  have hp: "kc_hp k' = kc_hp k" "kc_seq_to_stream k' = kc_seq_to_stream k" using k'(2) by (simp_all add: same_config_def)
  have strm: "si_strm si \<noteq> []" "\<forall>st\<in>set (si_strm si). st < hp_n_stream (kc_hp k')"
    using ok by (auto simp: slots_ok_def hp in_set_conv_nth)
  from n_kv_covers [OF k'(1) strm, of m] assms(6,9-11) have n: "n \<le> kv_size (kc_cells k' ! 0)"
    "\<And>st i. st \<in> set (si_strm si) \<Longrightarrow> i < kv_size (kc_cells k' ! st) \<Longrightarrow> c_pos (kc_cells k' ! st) ! i \<noteq> -1 \<Longrightarrow> i < n"
    by (auto simp: hp)
  from mask_run [OF k'(1) assms(7,12), of causal False] obtain dst' where
    dst': "set_input_kq_mask k' u causal False n n_stream dst = Some dst'"
      "\<And>i j. i < ub_n_tokens u \<Longrightarrow> j < n \<Longrightarrow> dst' ! (n * i + j) = mask_ref k' u causal False i j" by blast
  have "{c_pos c ! j | j. j < n \<and> dst' ! (n * i + j) = Keep} =
       {p \<in> kvc_positions k s \<union> batch_positions u s. (\<forall>q\<in>overwritten k si s. q < p) \<and>
          (causal \<longrightarrow> p \<le> ub_pos u ! i) \<and> \<not> outside_window (kc_hp k) p (ub_pos u ! i)}"
    if i: "i < ub_n_tokens u" and s: "s = nat (hd (ub_seq_id u ! i))" and c: "c = kc_cells k' ! (kc_seq_to_stream k' ! s)" for i s c
  proof -
    let ?P = "\<lambda>p. (causal \<longrightarrow> p \<le> ub_pos u ! i) \<and> \<not> outside_window (kc_hp k) p (ub_pos u ! i)"
    have t: "kc_seq_to_stream k ! s \<in> set (si_strm si)" "s < length (kc_seq_to_stream k)"
      using token_stream [OF ok u(2) i] by (simp_all add: row_seq_def s)
    note f = row_facts(3,4) [OF k'(1) assms(7) i]
    have rc: "row_cells k' u i = c" by (simp add: row_cells_def row_seq_def s c)
    have top: "\<forall>j<kv_size c. c_pos c ! j \<noteq> -1 \<longrightarrow> j < n" using n(2) [OF t(1)] unfolding c hp(2) by blast
    have "mask_ref k' u causal False i j = Keep \<longleftrightarrow> c_pos c ! j \<noteq> -1 \<and> s \<in> c_seq c ! j \<and> ?P (c_pos c ! j)" for j
      using assms(8) by (auto simp: mask_ref_def Let_def seq_cells_def c s hp)
    then have "{c_pos c ! j | j. j < n \<and> dst' ! (n * i + j) = Keep} =
        {c_pos c ! j | j. j < n \<and> c_pos c ! j \<noteq> -1 \<and> s \<in> c_seq c ! j \<and> ?P (c_pos c ! j)}"
      by (intro Collect_cong ex_cong1 conj_cong refl) (simp add: dst'(2) [OF i])
    also have "\<dots> = {p \<in> seq_positions s (cells c). ?P p}"
      by (rule kept_positions [where P = ?P, OF f [unfolded rc] top])
    also have "seq_positions s (cells c) = kvc_positions k' s" by (simp add: kvc_positions_def c)
    finally show ?thesis unfolding pos [OF t(2)] by auto
  qed
  with dst'(1) show ?thesis by (simp add: Let_def)
qed

theorem token_attends_witness:
  "\<exists>k c dst. apply_ubatch demo_si demo_ub demo_cache = Some k \<and> kc_cells k = [c] \<and>
    set_input_kq_mask k demo_ub True False 4 1 (replicate 8 Drop) = Some dst \<and>
    {c_pos c ! j | j. j < 4 \<and> dst ! j = Keep} = {0} \<and> {c_pos c ! j | j. j < 4 \<and> dst ! (4 + j) = Keep} = {0, 1}"
proof -
  from demo_placed obtain k c where k: "apply_ubatch demo_si demo_ub demo_cache = Some k" "same_config demo_cache k"
    "get_n_kv demo_si k = Some 4" "kc_cells k = [c]" "c_pos c = [0, 1, -1, -1]" "mask_ready k demo_ub 4 1" by metis
  have side: "\<not> ub_is_pos_2d demo_ub" "max (hp_n_pad (kc_hp demo_cache)) 256 = 2 ^ 8"
    "kv_size (kc_cells k ! 0) + 2 ^ 8 \<le> 2 ^ 32" "length (replicate 8 Drop) = 4 * ub_n_tokens demo_ub"
    using k(4,5) by (simp_all add: ub_is_pos_2d_def demo_ub_def demo_hp_def kv_size_def)
  have u: "ub_n_tokens demo_ub = 2" "ub_seq_id demo_ub = [[0], [0]]" "ub_pos demo_ub = [0, 1]" by (simp_all add: demo_ub_def)
  have "kc_seq_to_stream k ! 0 = 0" using k(2) by (simp add: same_config_def)
  moreover have "\<not> outside_window demo_hp p q" for p q by (simp add: outside_window_def demo_hp_def)
  moreover have "overwritten demo_cache demo_si 0 = {}" by (rule demo_overwritten [OF demo_slot demo_slot_ne])
  moreover obtain dst where dst: "set_input_kq_mask k demo_ub True False 4 1 (replicate 8 Drop) = Some dst"
    "\<forall>i<ub_n_tokens demo_ub. let s = nat (hd (ub_seq_id demo_ub ! i)); c = kc_cells k ! (kc_seq_to_stream k ! s) in
       {c_pos c ! j | j. j < 4 \<and> dst ! (4 * i + j) = Keep} =
       {p \<in> kvc_positions demo_cache s \<union> batch_positions demo_ub s. (\<forall>q\<in>overwritten demo_cache demo_si s. q < p) \<and>
          (True \<longrightarrow> p \<le> ub_pos demo_ub ! i) \<and> \<not> outside_window (kc_hp demo_cache) p (ub_pos demo_ub ! i)}"
    using token_attends [OF demo_reachable demo_ready demo_slot demo_slot_ne k(1,3,6) side(1,2) _ side(3,4), of True] by auto
  ultimately have "{c_pos c ! j | j. j < 4 \<and> dst ! j = Keep} = {p \<in> {0, 1}. p \<le> 0}"
    "{c_pos c ! j | j. j < 4 \<and> dst ! (4 + j) = Keep} = {p \<in> {0, 1}. p \<le> 1}"
    using dst(2) [unfolded u, rule_format, of 0] dst(2) [unfolded u, rule_format, of 1] k(4)
    by (simp_all only: demo_batch_positions Let_def demo_sts demo_positions demo_max_seq) (simp_all add: demo_batch_positions)
  moreover have "{p \<in> {0, 1}. p \<le> (0 :: int)} = {0}" "{p \<in> {0, 1}. p \<le> (1 :: int)} = {0, 1}" by auto
  ultimately show ?thesis using dst(1) k(1,4) by (auto intro!: exI [of _ k] exI [of _ c] exI [of _ dst])
qed

end
