(* ===== verification/KvState.thy ===== *)
theory KvState
  imports KvMachine Batch
begin

text \<open>
  Saving and restoring a KV cache: \<open>state_write\<close> and \<open>state_read\<close> of \<open>llama-server/src/llama-kv-cache.cpp\<close>
  with the parts for the cells (\<open>_meta\<close>) and for the tensors (\<open>_data\<close>), through the file classes
  \<open>llama_io_write_file\<close> and \<open>llama_io_read_file\<close> of \<open>llama-context.cpp\<close>. A file is a list of bytes; numbers
  are little-endian, as the supported hosts store them. A tensor is the list of its bytes, and what the
  tensor library says of it (type number, bytes per row or element) are fields of the layer. The \<open>size_t\<close>
  offsets in tensors in memory do not wrap; the offsets the code computes in 32 bits do. A failed assert, an
  access outside a tensor or vector and an exception that leaves the function other than the
  \<open>std::runtime_error\<close> of a failed restore are \<open>None\<close>; that one is \<open>Inl\<close> with the cells it leaves behind (what
  it leaves in the tensors is not part of the result).
\<close>

section \<open>Bytes\<close>

type_synonym bytes = "8 word list"

primrec le_put :: "nat \<Rightarrow> nat \<Rightarrow> bytes" where
  "le_put 0 v = []"
| "le_put (Suc n) v = word_of_nat v # le_put n (v div 256)"

primrec le_get :: "bytes \<Rightarrow> nat" where
  "le_get [] = 0"
| "le_get (b # bs) = unat b + 256 * le_get bs"

definition io_read :: "nat \<Rightarrow> bytes \<Rightarrow> (bytes \<times> bytes) option" where
  "io_read n bs = (if n \<le> length bs then Some (take n bs, drop n bs) else None)"

definition put_u32 :: "nat \<Rightarrow> bytes" where
  "put_u32 = le_put 4"

definition put_u64 :: "nat \<Rightarrow> bytes" where
  "put_u64 = le_put 8"

definition put_i32 :: "int \<Rightarrow> bytes" where
  "put_i32 x = le_put 4 (nat (x mod 2 ^ 32))"

definition get_u32 :: "bytes \<Rightarrow> (nat \<times> bytes) option" where
  "get_u32 bs = do { (v, bs) \<leftarrow> io_read 4 bs; Some (le_get v, bs) }"

definition get_u64 :: "bytes \<Rightarrow> (nat \<times> bytes) option" where
  "get_u64 bs = do { (v, bs) \<leftarrow> io_read 8 bs; Some (le_get v, bs) }"

definition get_i32 :: "bytes \<Rightarrow> (int \<times> bytes) option" where
  "get_i32 bs = do { (v, bs) \<leftarrow> get_u32 bs; Some (if v < 2 ^ 31 then int v else int v - 2 ^ 32, bs) }"

section \<open>State\<close>

record kv_layer =
  \<comment> \<open>the K and V tensors of a layer, one per stream; \<open>None\<close> is a null pointer\<close>
  ly_k_type :: int
  ly_k_row :: nat  \<comment> \<open>bytes of a row of K\<close>
  ly_k :: "bytes list"
  ly_v_type :: int
  ly_v_row :: nat
  ly_v_el :: nat  \<comment> \<open>bytes of an element of V\<close>
  ly_n_embd_v_gqa :: nat
  ly_v :: "bytes option list"

record kv_full =
  kf_cache :: kv_cache
  kf_layers :: "kv_layer list"
  kf_v_trans :: bool
  kf_n_seq_max :: nat

definition has_cell_ext :: "kv_hparams \<Rightarrow> bool" where
  "has_cell_ext hp \<longleftrightarrow> hp_n_pos_per_embd hp > 1 \<or> hp_ple_n_heads hp > 0"

section \<open>Writing the cells\<close>

definition save_cell :: "kv_hparams \<Rightarrow> llama_seq_id \<Rightarrow> kv_cells \<Rightarrow> nat \<Rightarrow> bool option" where
  \<comment> \<open>\<open>add_cell\<close>: is cell \<open>i\<close> written?\<close>
  "save_cell hp seq_id c i = do {
     e \<leftarrow> kv_is_empty i c;
     if e then Some False
     else if seq_id = -1 then Some True
     else do {
       assert_that (0 \<le> seq_id);
       has \<leftarrow> kv_seq_has i (nat seq_id) c;
       if \<not> has then Some False
       else do {
         p0 \<leftarrow> kv_pos_get i c;
         p1 \<leftarrow> kv_seq_pos_max (nat seq_id) c;
         masked \<leftarrow> is_masked_swa (hp_n_swa hp) (hp_swa_type hp) p0 p1;
         Some (\<not> masked)
       }
     }
   }"

record range_state =
  rs_ranges :: "(nat \<times> nat) list"
  rs_count :: nat
  rs_begin :: nat

definition range_step :: "nat \<Rightarrow> nat \<Rightarrow> bool \<Rightarrow> range_state \<Rightarrow> range_state" where
  \<comment> \<open>\<open>n\<close> is the number of cells, and as a begin the sign that no range is open\<close>
  "range_step n i add r =
     (if add then r\<lparr>rs_count := rs_count r + 1, rs_begin := (if rs_begin r = n then i else rs_begin r)\<rparr>
      else if rs_begin r \<noteq> n then r\<lparr>rs_ranges := rs_ranges r @ [(rs_begin r, i)], rs_begin := n\<rparr>
      else r)"

definition cell_ranges :: "kv_hparams \<Rightarrow> llama_seq_id \<Rightarrow> kv_cells \<Rightarrow> ((nat \<times> nat) list \<times> nat) option" where
  \<comment> \<open>the ranges of cells to write, and their number\<close>
  "cell_ranges hp seq_id c = do {
     let n = kv_size c;
     r \<leftarrow> foldM (\<lambda>i r. do { add \<leftarrow> save_cell hp seq_id c i; Some (range_step n i add r) }) [0..<n]
       \<lparr>rs_ranges = [], rs_count = 0, rs_begin = n\<rparr>;
     let ranges = (if rs_begin r \<noteq> n then rs_ranges r @ [(rs_begin r, n)] else rs_ranges r);
     assert_that (rs_count r = sum_list (map (\<lambda>(a, b). b - a) ranges));
     Some (ranges, rs_count r)
   }"

definition put_ext :: "kv_cell_ext \<Rightarrow> bytes" where
  "put_ext e = put_i32 (ext_x e) @ put_i32 (ext_y e) @ put_i32 (ext_tok e)"

definition get_ext :: "bytes \<Rightarrow> (kv_cell_ext \<times> bytes) option" where
  "get_ext bs = do {
     (x, bs) \<leftarrow> get_i32 bs; (y, bs) \<leftarrow> get_i32 bs; (t, bs) \<leftarrow> get_i32 bs;
     Some (\<lparr>ext_x = x, ext_y = y, ext_tok = t\<rparr>, bs)
   }"

definition write_cell :: "kv_hparams \<Rightarrow> nat \<Rightarrow> llama_seq_id \<Rightarrow> kv_cells \<Rightarrow> nat \<Rightarrow> bytes \<Rightarrow> bytes option" where
  "write_cell hp n_seq_max seq_id c i out = do {
     seq_ids \<leftarrow> foldM (\<lambda>cur ids.
         if int cur = seq_id \<or> seq_id = -1
         then do { has \<leftarrow> kv_seq_has i cur c; Some (if has then ids @ [cur] else ids) }
         else Some ids) [0..<n_seq_max] [];
     pos \<leftarrow> kv_pos_get i c;
     ext \<leftarrow> (if has_cell_ext hp then map_option put_ext (kv_ext_get i c) else Some []);
     Some (out @ put_i32 pos @ put_u32 (length seq_ids) @ ext @ concat (map (\<lambda>s. put_i32 (int s)) seq_ids))
   }"

definition state_write_meta :: "kv_full \<Rightarrow> nat \<Rightarrow> (nat \<times> nat) list \<Rightarrow> llama_seq_id \<Rightarrow> bytes \<Rightarrow> bytes option" where
  "state_write_meta F strm ranges seq_id out = do {
     c \<leftarrow> at (kc_cells (kf_cache F)) strm;
     foldM (\<lambda>(a, b). foldM (write_cell (kc_hp (kf_cache F)) (kf_n_seq_max F) seq_id c) [a..<b]) ranges out
   }"

section \<open>Writing the tensors\<close>

definition tensor_get :: "bytes \<Rightarrow> nat \<Rightarrow> nat \<Rightarrow> bytes option" where
  \<comment> \<open>\<open>ggml_backend_tensor_get\<close>: the bytes that \<open>io.write_tensor(t, offset, size)\<close> writes\<close>
  "tensor_get t offset n = (if n = 0 then Some []
     else do { assert_that (offset + n \<le> length t); Some (take n (drop offset t)) })"

definition tensor_set :: "bytes \<Rightarrow> nat \<Rightarrow> bytes \<Rightarrow> bytes option" where
  \<comment> \<open>\<open>ggml_backend_tensor_set\<close>\<close>
  "tensor_set t offset bs = (if bs = [] then Some t
     else do { assert_that (offset + length bs \<le> length t); Some (take offset t @ bs @ drop (offset + length bs) t) })"

definition v_src_offset :: "nat \<Rightarrow> nat \<Rightarrow> nat \<Rightarrow> nat \<Rightarrow> nat" where
  \<comment> \<open>of row \<open>j\<close> and cell \<open>a\<close> in a transposed V of \<open>n\<close> cells: all factors are \<open>uint32_t\<close>, so the offset wraps\<close>
  "v_src_offset n el j a = (a + j * n) * el mod 2 ^ 32"

definition v_dst_offset :: "nat \<Rightarrow> nat \<Rightarrow> nat \<Rightarrow> nat \<Rightarrow> nat" where
  \<comment> \<open>the same in \<open>state_read_data\<close>, where the element size is a \<open>size_t\<close>\<close>
  "v_dst_offset n el j i = (i + j * n) mod 2 ^ 32 * el"

definition write_ranges :: "bytes \<Rightarrow> nat \<Rightarrow> (nat \<Rightarrow> nat) \<Rightarrow> (nat \<times> nat) list \<Rightarrow> bytes \<Rightarrow> bytes option" where
  \<comment> \<open>the cells of the ranges, \<open>sz\<close> bytes each, a range from the offset of its first cell on\<close>
  "write_ranges t sz off ranges out = foldM (\<lambda>(a, b) out. do {
     bs \<leftarrow> tensor_get t (off a) ((b - a) * sz);
     Some (out @ bs)
   }) ranges out"

definition write_k :: "nat \<Rightarrow> (nat \<times> nat) list \<Rightarrow> kv_layer \<Rightarrow> bytes \<Rightarrow> bytes option" where
  "write_k strm ranges l out = do {
     k \<leftarrow> at (ly_k l) strm;
     write_ranges k (ly_k_row l) (\<lambda>a. a * ly_k_row l) ranges (out @ put_i32 (ly_k_type l) @ put_u64 (ly_k_row l))
   }"

definition write_v :: "bool \<Rightarrow> nat \<Rightarrow> nat \<Rightarrow> (nat \<times> nat) list \<Rightarrow> kv_layer \<Rightarrow> bytes \<Rightarrow> bytes option" where
  "write_v v_trans n strm ranges l out = do {
     t \<leftarrow> at (ly_v l) strm;
     (case t of
        None \<Rightarrow> Some out
      | Some v \<Rightarrow>
          if \<not> v_trans then write_ranges v (ly_v_row l) (\<lambda>a. a * ly_v_row l) ranges (out @ put_i32 (ly_v_type l) @ put_u64 (ly_v_row l))
          else foldM (\<lambda>j. write_ranges v (ly_v_el l) (v_src_offset n (ly_v_el l) j) ranges) [0..<ly_n_embd_v_gqa l]
            (out @ put_i32 (ly_v_type l) @ put_u32 (ly_v_el l) @ put_u32 (ly_n_embd_v_gqa l)))
   }"

definition state_write_data :: "kv_full \<Rightarrow> nat \<Rightarrow> (nat \<times> nat) list \<Rightarrow> bytes \<Rightarrow> bytes option" where
  "state_write_data F strm ranges out = do {
     c \<leftarrow> at (kc_cells (kf_cache F)) strm;
     out \<leftarrow> foldM (write_k strm ranges) (kf_layers F)
       (out @ put_u32 (if kf_v_trans F then 1 else 0) @ put_u32 (length (kf_layers F)));
     foldM (write_v (kf_v_trans F) (kv_size c) strm ranges) (kf_layers F) out
   }"

definition state_write :: "kv_full \<Rightarrow> llama_seq_id \<Rightarrow> bytes option" where
  "state_write F seq_id =
     (let k = kf_cache F; n_stream = hp_n_stream (kc_hp k) in
      if kc_other k \<noteq> None then Some []
      else foldM (\<lambda>s out. do {
        c \<leftarrow> at (kc_cells k) s;
        (ranges, cell_count) \<leftarrow> cell_ranges (kc_hp k) seq_id c;
        let out = out @ put_u32 cell_count;
        if cell_count = 0 then Some out
        else do { out \<leftarrow> state_write_meta F s ranges seq_id out; state_write_data F s ranges out }
      }) [0..<n_stream] (put_u32 n_stream))"

section \<open>Reading the cells\<close>

text \<open>In the loops of this part \<open>Some None\<close> is \<open>return false\<close>.\<close>

definition read_token :: "kv_hparams \<Rightarrow> llama_seq_id \<Rightarrow> nat \<Rightarrow> ubatch \<times> bytes \<Rightarrow> (ubatch \<times> bytes) option option" where
  \<comment> \<open>one cell of a single sequence becomes token \<open>i\<close> of a micro-batch\<close>
  "read_token hp dest i = (\<lambda>(u, bs). do {
     (pos, bs) \<leftarrow> get_i32 bs;
     (n_seq_id, bs) \<leftarrow> get_u32 bs;
     if n_seq_id \<noteq> 1 then Some None
     else do {
       (u, bs) \<leftarrow> (if has_cell_ext hp then do {
           (ext, bs) \<leftarrow> get_ext bs;
           u \<leftarrow> (if hp_n_pos_per_embd hp > 1 then do {
               assert_that (i + ub_n_tokens u * 2 < length (ub_pos u));
               Some (u\<lparr>ub_pos := (ub_pos u)[i + ub_n_tokens u := ext_y ext, i + ub_n_tokens u * 2 := ext_x ext]\<rparr>)
             } else Some u);
           toks \<leftarrow> ub_token u;
           assert_that (i < length toks);
           Some (u\<lparr>ub_token := Some (toks[i := ext_tok ext])\<rparr>, bs)
         } else Some (u, bs));
       (_, bs) \<leftarrow> get_i32 bs;
       assert_that (i < length (ub_pos u) \<and> i < length (ub_n_seq_id u) \<and> i < length (ub_seq_id u));
       Some (Some (u\<lparr>ub_pos := (ub_pos u)[i := pos], ub_n_seq_id := (ub_n_seq_id u)[i := n_seq_id],
         ub_seq_id := (ub_seq_id u)[i := [dest]]\<rparr>, bs))
     }
   })"

definition mirrored_ok :: "slot_info \<Rightarrow> nat \<Rightarrow> bool" where
  "mirrored_ok si cell_count \<longleftrightarrow> \<not> si_empty si \<and> si_n_stream si = 1 \<and> length (hd (si_idxs si)) = cell_count"

definition slot_for :: "kv_cache \<Rightarrow> ubatch \<Rightarrow> nat \<Rightarrow> nat \<Rightarrow> slot_info option \<Rightarrow> slot_info option option" where
  \<comment> \<open>the cells of a mirrored cache, or those that \<open>find_slot\<close> finds\<close>
  "slot_for k u strm cell_count sin = (case sin of
      None \<Rightarrow> do { si \<leftarrow> find_slot k u False; Some (if si_empty si then None else Some si) }
    | Some si \<Rightarrow>
        if \<not> mirrored_ok si cell_count then Some None
        else do {
          c \<leftarrow> at (kc_cells k) strm;
          free \<leftarrow> checkM (\<lambda>idx. if idx \<ge> kv_size c then Some False else kv_is_empty idx c) (hd (si_idxs si));
          Some (if free then Some (si\<lparr>si_s0 := strm, si_s1 := strm, si_strm := (si_strm si)[0 := strm]\<rparr>) else None)
        })"

definition read_sequence :: "kv_full \<Rightarrow> nat \<Rightarrow> nat \<Rightarrow> llama_seq_id \<Rightarrow> slot_info option \<Rightarrow> bytes \<Rightarrow>
    (kv_full \<times> (slot_info \<times> bytes) option) option" where
  "read_sequence F strm cell_count dest sin bs = do {
     let hp = kc_hp (kf_cache F);
     k \<leftarrow> kvc_seq_rm dest (-1) (-1) (kf_cache F);
     (u, _) \<leftarrow> ubatch_reserve cell_count 1 (ba_new (hp_n_pos_per_embd hp));
     let u = u\<lparr>ub_seq_id_unq := (ub_seq_id_unq u)[0 := dest]\<rparr>;
     let F = F\<lparr>kf_cache := k\<rparr>;
     r \<leftarrow> loopM (read_token hp dest) [0..<cell_count] (u, bs);
     (case r of
        None \<Rightarrow> Some (F, None)
      | Some (u, bs) \<Rightarrow> do {
          slot \<leftarrow> slot_for k u strm cell_count sin;
          (case slot of
             None \<Rightarrow> Some (F, None)
           | Some si \<Rightarrow> do {
               k \<leftarrow> apply_ubatch si u k;
               assert_that (si_n_stream si = 1 \<and> length (hd (si_idxs si)) = cell_count);
               c \<leftarrow> at (kc_cells k) strm;
               _ \<leftarrow> foldM (\<lambda>i (_ :: unit). do {
                   p \<leftarrow> kv_pos_get (hd (si_idxs si) ! i) c;
                   has \<leftarrow> kv_seq_has (hd (si_idxs si) ! i) (nat dest) c;
                   assert_that (p = ub_pos u ! i \<and> has)
                 }) [0..<cell_count] ();
               Some (F\<lparr>kf_cache := k\<rparr>, Some (si, bs))
             })
        })
   }"

definition read_cell :: "kv_hparams \<Rightarrow> nat \<Rightarrow> nat \<Rightarrow> kv_cells \<times> bytes \<Rightarrow> (kv_cells \<times> bytes) option option" where
  "read_cell hp n_seq_max i = (\<lambda>(c, bs). do {
     (pos, bs) \<leftarrow> get_i32 bs;
     (n_seq_id, bs) \<leftarrow> get_u32 bs;
     c \<leftarrow> kv_pos_set i pos c;
     (c, bs) \<leftarrow> (if has_cell_ext hp then do {
         (ext, bs) \<leftarrow> get_ext bs;
         c \<leftarrow> kv_ext_set i ext c;
         Some (c, bs)
       } else Some (c, bs));
     loopM (\<lambda>_ (c, bs). do {
       (s, bs) \<leftarrow> get_i32 bs;
       if s < 0 \<or> s \<ge> int n_seq_max then Some None
       else do { c \<leftarrow> kv_seq_add i (nat s) c; Some (Some (c, bs)) }
     }) [0..<n_seq_id] (c, bs)
   })"

definition read_stream :: "kv_full \<Rightarrow> nat \<Rightarrow> nat \<Rightarrow> slot_info option \<Rightarrow> bytes \<Rightarrow>
    (kv_full \<times> (slot_info \<times> bytes) option) option" where
  \<comment> \<open>all cells of a stream, from cell 0; when it fails the caller clears the cache, so the cells
     written up to then are not part of the result\<close>
  "read_stream F strm cell_count sin bs = do {
     let k = kf_cache F;
     c \<leftarrow> at (kc_cells k) strm;
     if cell_count > kv_size c then Some (F, None)
     else if (case sin of None \<Rightarrow> False | Some si \<Rightarrow> \<not> mirrored_ok si cell_count) then Some (F, None)
     else do {
       r \<leftarrow> loopM (read_cell (kc_hp k) (kf_n_seq_max F)) [0..<cell_count] (c, bs);
       (case r of
          None \<Rightarrow> Some (F, None)
        | Some (c, bs) \<Rightarrow> Some (F\<lparr>kf_cache := kvc_put strm c 0 k\<rparr>,
            Some (\<lparr>si_s0 = strm, si_s1 = strm, si_strm = [strm], si_idxs = [[0..<cell_count]]\<rparr>, bs)))
     }
   }"

definition state_read_meta :: "kv_full \<Rightarrow> nat \<Rightarrow> nat \<Rightarrow> llama_seq_id \<Rightarrow> slot_info option \<Rightarrow> bytes \<Rightarrow>
    (kv_full \<times> (slot_info \<times> bytes) option) option" where
  "state_read_meta F strm cell_count dest sin bs =
     (if dest \<noteq> -1 then read_sequence F strm cell_count dest sin bs else read_stream F strm cell_count sin bs)"

section \<open>Reading the tensors\<close>

text \<open>Here \<open>Some None\<close> is \<open>return false\<close>, or the exception of a file that ends too early: \<open>state_read_sinfo\<close> catches it
  and goes on as after \<open>return false\<close>.\<close>

definition reading :: "'a option \<Rightarrow> ('a \<Rightarrow> 'b option option) \<Rightarrow> 'b option option" where
  "reading r f = (case r of None \<Rightarrow> Some None | Some x \<Rightarrow> f x)"

definition read_rows :: "slot_info \<Rightarrow> nat \<Rightarrow> (nat \<Rightarrow> nat) \<Rightarrow> nat \<Rightarrow> bytes \<times> bytes \<Rightarrow> (bytes \<times> bytes) option option" where
  \<comment> \<open>one read for contiguous cells, else one for each cell; \<open>sz\<close> bytes per cell\<close>
  "read_rows si sz off cell_count = (\<lambda>(t, bs).
     if cell_count = 0 then Some (Some (t, bs))
     else if si_is_contiguous si then do {
       h \<leftarrow> si_head si;
       reading (io_read (cell_count * sz) bs) (\<lambda>(b, bs). do {
         t \<leftarrow> tensor_set t (off h) b;
         Some (Some (t, bs))
       })
     }
     else loopM (\<lambda>i (t, bs). do {
       idx \<leftarrow> at (hd (si_idxs si)) i;
       reading (io_read sz bs) (\<lambda>(b, bs). do {
         t \<leftarrow> tensor_set t (off idx) b;
         Some (Some (t, bs))
       })
     }) [0..<cell_count] (t, bs))"

definition read_k :: "nat \<Rightarrow> nat \<Rightarrow> slot_info \<Rightarrow> nat \<Rightarrow> kv_layer list \<times> bytes \<Rightarrow> (kv_layer list \<times> bytes) option option" where
  "read_k strm cell_count si il = (\<lambda>(ls, bs). do {
     l \<leftarrow> at ls il;
     k \<leftarrow> at (ly_k l) strm;
     reading (get_i32 bs) (\<lambda>(ty, bs).
       if ty \<noteq> ly_k_type l then Some None
       else reading (get_u64 bs) (\<lambda>(row, bs).
         if row \<noteq> ly_k_row l then Some None
         else do {
           r \<leftarrow> read_rows si (ly_k_row l) (\<lambda>i. i * ly_k_row l) cell_count (k, bs);
           reading r (\<lambda>(k, bs). Some (Some (ls[il := l\<lparr>ly_k := (ly_k l)[strm := k]\<rparr>], bs)))
         }))
   })"

definition read_v :: "nat \<Rightarrow> nat \<Rightarrow> slot_info \<Rightarrow> nat \<Rightarrow> kv_layer list \<times> bytes \<Rightarrow> (kv_layer list \<times> bytes) option option" where
  "read_v strm cell_count si il = (\<lambda>(ls, bs). do {
     l \<leftarrow> at ls il;
     t \<leftarrow> at (ly_v l) strm;
     (case t of
        None \<Rightarrow> Some (Some (ls, bs))
      | Some v \<Rightarrow> reading (get_i32 bs) (\<lambda>(ty, bs).
          if ty \<noteq> ly_v_type l then Some None
          else reading (get_u64 bs) (\<lambda>(row, bs).
            if row \<noteq> ly_v_row l then Some None
            else do {
              r \<leftarrow> read_rows si (ly_v_row l) (\<lambda>i. i * ly_v_row l) cell_count (v, bs);
              reading r (\<lambda>(v, bs). Some (Some (ls[il := l\<lparr>ly_v := (ly_v l)[strm := Some v]\<rparr>], bs)))
            })))
   })"

definition read_v_trans :: "nat \<Rightarrow> nat \<Rightarrow> nat \<Rightarrow> slot_info \<Rightarrow> nat \<Rightarrow> kv_layer list \<times> bytes \<Rightarrow> (kv_layer list \<times> bytes) option option" where
  \<comment> \<open>the transposed V: \<open>n_embd_v_gqa\<close> rows with an element for each cell\<close>
  "read_v_trans n strm cell_count si il = (\<lambda>(ls, bs). do {
     l \<leftarrow> at ls il;
     t \<leftarrow> at (ly_v l) strm;
     (case t of
        None \<Rightarrow> Some (Some (ls, bs))
      | Some v \<Rightarrow> reading (get_i32 bs) (\<lambda>(ty, bs).
          if ty \<noteq> ly_v_type l then Some None
          else reading (get_u32 bs) (\<lambda>(el, bs).
            if el \<noteq> ly_v_el l then Some None
            else reading (get_u32 bs) (\<lambda>(n_embd, bs).
              if n_embd \<noteq> ly_n_embd_v_gqa l then Some None
              else do {
                r \<leftarrow> loopM (\<lambda>j. read_rows si (ly_v_el l) (v_dst_offset n (ly_v_el l) j) cell_count) [0..<ly_n_embd_v_gqa l] (v, bs);
                reading r (\<lambda>(v, bs). Some (Some (ls[il := l\<lparr>ly_v := (ly_v l)[strm := Some v]\<rparr>], bs)))
              }))))
   })"

definition state_read_data :: "kv_full \<Rightarrow> nat \<Rightarrow> nat \<Rightarrow> slot_info \<Rightarrow> bytes \<Rightarrow> (kv_full \<times> bytes) option option" where
  "state_read_data F strm cell_count si bs = do {
     c \<leftarrow> at (kc_cells (kf_cache F)) strm;
     reading (get_u32 bs) (\<lambda>(v_trans, bs).
     reading (get_u32 bs) (\<lambda>(n_layer, bs).
       if n_layer \<noteq> length (kf_layers F) then Some None
       else if cell_count > kv_size c then Some None
       else if kf_v_trans F \<noteq> (v_trans \<noteq> 0) then Some None
       else do {
         r \<leftarrow> loopM (read_k strm cell_count si) [0..<n_layer] (kf_layers F, bs);
         reading r (\<lambda>(ls, bs). do {
           r \<leftarrow> loopM (if kf_v_trans F then read_v_trans (kv_size c) strm cell_count si else read_v strm cell_count si)
               [0..<n_layer] (ls, bs);
           reading r (\<lambda>(ls, bs). Some (Some (F\<lparr>kf_layers := ls\<rparr>, bs)))
         })
       }))
   }"

section \<open>Restoring a cache\<close>

definition clear_full :: "kv_full \<Rightarrow> kv_full" where
  \<comment> \<open>\<open>clear(true)\<close>: the buffers are zeroed as well\<close>
  "clear_full F = F\<lparr>kf_cache := kvc_clear (kf_cache F),
     kf_layers := map (\<lambda>l. l\<lparr>ly_k := map (map (\<lambda>_. 0)) (ly_k l), ly_v := map (map_option (map (\<lambda>_. 0))) (ly_v l)\<rparr>) (kf_layers F)\<rparr>"

text \<open>The loop over the streams; \<open>Inl\<close> is the exception \<open>failed to restore kv cache\<close>.\<close>

fun read_streams :: "llama_seq_id \<Rightarrow> slot_info list option \<Rightarrow> nat list \<Rightarrow> kv_full \<Rightarrow> slot_info list \<Rightarrow> bytes \<Rightarrow>
    (kv_cache + kv_full \<times> slot_info list \<times> bytes) option" where
  "read_streams dest sins [] F out bs = Some (Inr (F, out, bs))"
| "read_streams dest sins (s # ss) F out bs = do {
     (cell_count, bs) \<leftarrow> get_u32 bs;
     let sin = map_option (\<lambda>xs. xs ! s) sins;
     if cell_count = 0 then
       (case sin of
          Some si \<Rightarrow> if \<not> si_empty si then Some (Inl (kf_cache F)) else read_streams dest sins ss F out bs
        | None \<Rightarrow> read_streams dest sins ss F out bs)
     else do {
       strm \<leftarrow> (if dest = -1 then Some s else at (kc_seq_to_stream (kf_cache F)) (nat dest));
       (F, m) \<leftarrow> state_read_meta F strm cell_count dest sin bs;
       r \<leftarrow> reading m (\<lambda>(si, bs). do {
         r \<leftarrow> state_read_data F strm cell_count si bs;
         reading r (\<lambda>(F, bs). Some (Some (F, si, bs)))
       });
       (case r of
          None \<Rightarrow> (if dest = -1 then Some (Inl (kf_cache (clear_full F)))
            else do { k \<leftarrow> kvc_seq_rm dest (-1) (-1) (kf_cache F); Some (Inl k) })
        | Some (F, si, bs) \<Rightarrow> read_streams dest sins ss F (out[s := si]) bs)
     }
   }"

definition state_read_sinfo :: "kv_full \<Rightarrow> llama_seq_id \<Rightarrow> slot_info list option \<Rightarrow> bytes \<Rightarrow>
    (kv_cache + kv_full \<times> slot_info list \<times> bytes) option" where
  \<comment> \<open>the slots used are part of the result: \<open>sinfos_out\<close>\<close>
  "state_read_sinfo F dest sins bs =
     (let k = kf_cache F; n_stream = hp_n_stream (kc_hp k) in
      if kc_other k \<noteq> None then Some (Inr (F, [], bs))
      else do {
        assert_that (dest = -1 \<or> 0 \<le> dest \<and> nat dest < length (kc_seq_to_stream k));
        if (case sins of None \<Rightarrow> False | Some xs \<Rightarrow> length xs \<noteq> n_stream) then Some (Inl k)
        else do {
          (n_stream_cur, bs) \<leftarrow> get_u32 bs;
          if n_stream_cur \<noteq> n_stream then Some (Inl k)
          else read_streams dest sins [0..<n_stream] (if dest = -1 then clear_full F else F) (replicate n_stream slot_none) bs
        }
      })"

definition state_read :: "kv_full \<Rightarrow> llama_seq_id \<Rightarrow> bytes \<Rightarrow> (kv_cache + kv_full \<times> bytes) option" where
  "state_read F dest bs = do {
     r \<leftarrow> state_read_sinfo F dest None bs;
     Some (case r of Inl k \<Rightarrow> Inl k | Inr (F, _, bs) \<Rightarrow> Inr (F, bs))
   }"

end
