(* ===== verification/KvStateMeta.thy ===== *)
theory KvStateMeta
  imports KvState
begin

text \<open>
  What is written for the cells of a stream, and that reading it puts the cells back, from cell 0 on.
\<close>

section \<open>Reading back what was written\<close>

text \<open>The interface of an encoding: whatever follows, reading returns the value written and leaves
  what follows.\<close>

locale codec =
  fixes put :: "'a \<Rightarrow> bytes" and get :: "bytes \<Rightarrow> ('a \<times> bytes) option" and valid :: "'a \<Rightarrow> bool"
  assumes get_put: "valid x \<Longrightarrow> get (put x @ bs) = Some (x, bs)"
begin

lemma put_inject: "valid x \<Longrightarrow> valid y \<Longrightarrow> put x @ bs = put y @ bs' \<longleftrightarrow> x = y \<and> bs = bs'"
  by (metis get_put option.inject prod.inject)

lemma get_last: "valid x \<Longrightarrow> get (put x) = Some (x, [])"
  using get_put [of x "[]"] by simp

end

lemma length_le_put [simp]: "length (le_put n v) = n"
  by (induction n arbitrary: v) simp_all

lemma le_get_put: "le_get (le_put n v) = v mod 256 ^ n"
proof (induction n arbitrary: v)
  case (Suc n)
  have "le_get (le_put (Suc n) v) = v mod 256 + 256 * (v div 256 mod 256 ^ n)"
    by (simp add: Suc unat_of_nat)
  also have "\<dots> = v mod 256 ^ Suc n" by (simp add: mod_mult2_eq)
  finally show ?case .
qed simp

lemma io_read_append: "length xs = n \<Longrightarrow> io_read n (xs @ bs) = Some (xs, bs)"
  by (simp add: io_read_def)

interpretation u32: codec put_u32 get_u32 "\<lambda>v. v < 2 ^ 32"
  by unfold_locales (simp add: put_u32_def get_u32_def io_read_append le_get_put)

interpretation u64: codec put_u64 get_u64 "\<lambda>v. v < 2 ^ 64"
  by unfold_locales (simp add: put_u64_def get_u64_def io_read_append le_get_put)

interpretation i32: codec put_i32 get_i32 i32_ok
proof
  fix x :: int and bs
  assume x: "i32_ok x"
  let ?v = "nat (x mod 2 ^ 32)"
  have v: "int ?v = (if x < 0 then x + 2 ^ 32 else x)"
  proof (cases "x < 0")
    case True
    then have "x mod 2 ^ 32 = (x + 2 ^ 32) mod 2 ^ 32" by simp
    also have "\<dots> = x + 2 ^ 32" using x True by (intro mod_pos_pos_trivial) (simp_all add: i32_ok_def)
    finally show ?thesis using x True by (simp add: i32_ok_def)
  next
    case False
    then have "x mod 2 ^ 32 = x" using x by (intro mod_pos_pos_trivial) (simp_all add: i32_ok_def)
    with False show ?thesis by simp
  qed
  then have "?v < 2 ^ 32" using x by (auto simp: i32_ok_def split: if_splits)
  then have "get_u32 (le_put 4 ?v @ bs) = Some (?v, bs)" by (simp add: get_u32_def io_read_append le_get_put)
  moreover have "?v < 2 ^ 31 \<longleftrightarrow> \<not> x < 0" using v x by (auto simp: i32_ok_def split: if_splits)
  ultimately show "get_i32 (put_i32 x @ bs) = Some (x, bs)" using v by (simp add: get_i32_def put_i32_def split: if_splits)
qed

definition ext_ok :: "kv_cell_ext \<Rightarrow> bool" where
  "ext_ok e \<longleftrightarrow> i32_ok (ext_x e) \<and> i32_ok (ext_y e) \<and> i32_ok (ext_tok e)"

interpretation ext: codec put_ext get_ext ext_ok
  by unfold_locales (simp add: put_ext_def get_ext_def ext_ok_def i32.get_put)

lemma loopM_read:
  assumes "P 0 a" and step: "\<And>m a bs. m < n \<Longrightarrow> P m a \<Longrightarrow> \<exists>a'. f m (a, g m @ bs) = Some (Some (a', bs)) \<and> P (Suc m) a'"
  shows "\<exists>a'. loopM f [0..<n] (a, concat (map g [0..<n]) @ bs) = Some (Some (a', bs)) \<and> P n a'"
proof -
  have "d \<le> n \<Longrightarrow> P (n - d) a \<Longrightarrow>
      \<exists>a'. loopM f [n - d..<n] (a, concat (map g [n - d..<n]) @ bs) = Some (Some (a', bs)) \<and> P n a'" for d a
  proof (induction d arbitrary: a)
    case (Suc d)
    then have "[n - Suc d..<n] = (n - Suc d) # [n - d..<n]" by (simp add: upt_conv_Cons Suc_diff_Suc)
    moreover from step [of "n - Suc d" a "concat (map g [n - d..<n]) @ bs"] Suc.prems obtain a' where
      "f (n - Suc d) (a, g (n - Suc d) @ concat (map g [n - d..<n]) @ bs) = Some (Some (a', concat (map g [n - d..<n]) @ bs))"
      "P (n - d) a'" by (auto simp: Suc_diff_Suc)
    ultimately show ?case using Suc.IH [of a'] Suc.prems(1) by simp
  qed simp
  from this [of n a] assms(1) show ?thesis by simp
qed

section \<open>The ranges\<close>

abbreviation range_cells :: "(nat \<times> nat) list \<Rightarrow> nat list" where
  "range_cells rs \<equiv> concat (map (\<lambda>(a, b). [a..<b]) rs)"

lemma cell_ranges_eq:
  assumes "\<And>i. i < kv_size c \<Longrightarrow> save_cell hp s c i = Some (P i)"
  shows "\<exists>ranges. cell_ranges hp s c = Some (ranges, length (filter P [0..<kv_size c])) \<and>
    range_cells ranges = filter P [0..<kv_size c] \<and> (\<forall>(a, b)\<in>set ranges. a < b \<and> b \<le> kv_size c)"
proof -
  let ?n = "kv_size c" and ?step = "\<lambda>i r. do { add \<leftarrow> save_cell hp s c i; Some (range_step (kv_size c) i add r) }"
  let ?start = "\<lparr>rs_ranges = [], rs_count = 0, rs_begin = kv_size c\<rparr>"
  let ?open = "\<lambda>i (r :: range_state). if rs_begin r = ?n then [] else [rs_begin r..<i]"
  let ?I = "\<lambda>i (r :: range_state). rs_count r = length (filter P [0..<i]) \<and> range_cells (rs_ranges r) @ ?open i r = filter P [0..<i] \<and>
    (rs_begin r = ?n \<or> rs_begin r < i) \<and> (\<forall>(a, b)\<in>set (rs_ranges r). a < b \<and> b \<le> ?n)"
  have "\<exists>r. foldM ?step [0..<?n] ?start = Some r \<and> ?I (length [0..<?n]) r"
  proof (rule foldM_rule)
    fix "done" i rest r
    assume split: "[0..<?n] = done @ i # rest" and I: "?I (length done) r"
    note i = upt_split [OF split]
    have step: "?step i r = Some (range_step ?n i (P i) r)" using assms [OF i(2)] by simp
    have new: "?I (Suc i) (range_step ?n i (P i) r)"
    proof (cases "P i")
      case True
      show ?thesis
      proof (cases "rs_begin r = ?n")
        case True
        with \<open>P i\<close> I i show ?thesis by (simp add: range_step_def)
      next
        case False
        with I i(1) have "rs_begin r < i" by simp
        then have "[rs_begin r..<Suc i] = [rs_begin r..<i] @ [i]" by simp
        moreover have "range_cells (rs_ranges r) @ [rs_begin r..<i] = filter P [0..<i]" using I False i(1) by simp
        ultimately have "range_cells (rs_ranges r) @ [rs_begin r..<Suc i] = filter P [0..<i] @ [i]"
          by (simp only: append_assoc [symmetric])
        moreover have "filter P [0..<Suc i] = filter P [0..<i] @ [i]" using \<open>P i\<close> by simp
        ultimately show ?thesis using False \<open>P i\<close> I i \<open>rs_begin r < i\<close>
          by (simp add: range_step_def del: upt_Suc)
      qed
    next
      case False
      with I i show ?thesis by (auto simp: range_step_def)
    qed
    have len: "length (done @ [i]) = Suc i" using i(1) by simp
    show "\<exists>r'. ?step i r = Some r' \<and> ?I (length (done @ [i])) r'"
      unfolding len by (rule exI, rule conjI [OF step new])
  qed simp
  then obtain r where r: "foldM ?step [0..<?n] ?start = Some r" "?I ?n r" by auto
  let ?ranges = "if rs_begin r \<noteq> ?n then rs_ranges r @ [(rs_begin r, ?n)] else rs_ranges r"
  have all: "range_cells ?ranges = filter P [0..<?n]" "\<forall>(a, b)\<in>set ?ranges. a < b \<and> b \<le> ?n" using r(2) by auto
  have "sum_list (map (\<lambda>(a, b). b - a) ?ranges) = length (range_cells ?ranges)"
    by (simp add: length_concat case_prod_unfold comp_def)
  then have count: "rs_count r = sum_list (map (\<lambda>(a, b). b - a) ?ranges)" using all(1) r(2) by simp
  have "rs_count r = length (filter P [0..<?n])" using r(2) by blast
  then have run: "cell_ranges hp s c = Some (?ranges, length (filter P [0..<?n]))"
    unfolding cell_ranges_def Let_def r(1) using count by simp
  show ?thesis by (rule exI [of _ ?ranges], rule conjI [OF run], rule conjI [OF all])
qed

lemma foldM_ranges: "foldM (\<lambda>(a, b). foldM f [a..<b]) rs s = foldM f (range_cells rs) s"
  by (induction rs arbitrary: s) (auto simp: foldM_append intro!: bind_option_cong)

lemma foldM_append_out:
  "(\<And>x out. x \<in> set xs \<Longrightarrow> f x out = Some (out @ g x)) \<Longrightarrow> foldM f xs out = Some (out @ concat (map g xs))"
  by (induction xs arbitrary: out) simp_all

section \<open>One cell\<close>

definition saved_seqs :: "llama_seq_id \<Rightarrow> nat \<Rightarrow> kv_cells \<Rightarrow> nat \<Rightarrow> nat list" where
  "saved_seqs seq_id n c i = filter (\<lambda>s. (int s = seq_id \<or> seq_id = -1) \<and> s \<in> c_seq c ! i) [0..<n]"

definition cell_format :: "kv_hparams \<Rightarrow> llama_pos \<Rightarrow> nat list \<Rightarrow> kv_cell_ext \<Rightarrow> bytes" where
  "cell_format hp p ids e = put_i32 p @ put_u32 (length ids) @ (if has_cell_ext hp then put_ext e else []) @
     concat (map (\<lambda>s. put_i32 (int s)) ids)"

definition cell_bytes :: "kv_hparams \<Rightarrow> nat \<Rightarrow> llama_seq_id \<Rightarrow> kv_cells \<Rightarrow> nat \<Rightarrow> bytes" where
  "cell_bytes hp n seq_id c i = cell_format hp (c_pos c ! i) (saved_seqs seq_id n c i) (c_ext c ! i)"

lemma foldM_collect:
  "(\<And>x ids. x \<in> set xs \<Longrightarrow> f x ids = Some (if P x then ids @ [x] else ids)) \<Longrightarrow> foldM f xs ids = Some (ids @ filter P xs)"
  by (induction xs arbitrary: ids) simp_all

lemma write_cell_eq:
  assumes "kv_inv c" "i < kv_size c" "c_pos c ! i \<noteq> -1" "n \<le> LLAMA_MAX_SEQ"
  shows "write_cell hp n seq_id c i out = Some (out @ cell_bytes hp n seq_id c i)"
proof -
  have "foldM (\<lambda>cur ids. if int cur = seq_id \<or> seq_id = -1
      then do { has \<leftarrow> kv_seq_has i cur c; Some (if has then ids @ [cur] else ids) } else Some ids) [0..<n] [] =
    Some ([] @ saved_seqs seq_id n c i)"
    unfolding saved_seqs_def using assms(4) kv_reads(2) [OF assms(1,2)] by (intro foldM_collect) auto
  then show ?thesis
    using kv_reads(4,6) [OF assms(1-3)] by (simp add: write_cell_def cell_bytes_def cell_format_def)
qed

lemma concat_map_nth: "concat (map (\<lambda>m. f (xs ! m)) [0..<length xs]) = concat (map f xs)"
  by (rule arg_cong [of _ _ concat]) (rule nth_equalityI, simp_all)

lemma read_seqs:
  assumes c: "kv_inv c" "i < kv_size c" "cells c ! i = (p, {})" "p \<noteq> -1"
    and ids: "distinct ids" "\<forall>s\<in>set ids. s < n_seq_max" "n_seq_max \<le> LLAMA_MAX_SEQ"
  shows "\<exists>c'. loopM (\<lambda>_ (c, bs). do {
       (s, bs) \<leftarrow> get_i32 bs;
       if s < 0 \<or> s \<ge> int n_seq_max then Some None
       else do { c \<leftarrow> kv_seq_add i (nat s) c; Some (Some (c, bs)) }
     }) [0..<length ids] (c, concat (map (\<lambda>s. put_i32 (int s)) ids) @ bs) = Some (Some (c', bs)) \<and>
    kv_inv c' \<and> cells c' = (cells c)[i := (p, set ids)] \<and> c_ext c' = c_ext c"
proof -
  let ?f = "\<lambda>_ :: nat. \<lambda>(c, bs). do { (s, bs) \<leftarrow> get_i32 bs;
       if s < 0 \<or> s \<ge> int n_seq_max then Some None else do { c \<leftarrow> kv_seq_add i (nat s) c; Some (Some (c, bs)) } }"
  let ?P = "\<lambda>m c'. kv_inv c' \<and> cells c' = (cells c)[i := (p, set (take m ids))] \<and> c_ext c' = c_ext c"
  have "\<exists>c'. loopM ?f [0..<length ids] (c, concat (map (\<lambda>m. put_i32 (int (ids ! m))) [0..<length ids]) @ bs) = Some (Some (c', bs)) \<and>
      ?P (length ids) c'"
  proof (rule loopM_read [of ?P])
    have "(cells c)[i := (p, {})] = cells c" using c(3) list_update_id [of "cells c" i] by simp
    then show "?P 0 c" using c(1) by simp
  next
    fix m c1 bs
    assume m: "m < length ids" and P: "?P m c1"
    let ?s = "ids ! m"
    have s: "?s < n_seq_max" using ids(2) m by simp
    then have s256: "?s < LLAMA_MAX_SEQ" using ids(3) by simp
    have size: "i < kv_size c1" using P c(2) length_cells [OF c(1)] length_cells [of c1] by simp
    have at: "c_pos c1 ! i = p" "c_seq c1 ! i = set (take m ids)"
      using P c(1,2) nth_cells [of c1 i] size length_cells [OF c(1)] by auto
    have "?s \<notin> set (take m ids)" using ids(1) m by (auto simp: in_set_conv_nth nth_eq_iff_index_eq)
    with kv_seq_add_spec [of c1 i ?s] P size at s256 c(4) obtain c2 where
      c2: "kv_seq_add i ?s c1 = Some c2" "kv_inv c2" "cells c2 = (cells c1)[i := (p, insert ?s (set (take m ids)))]" by auto
    have "i32_ok (int ?s)" using s256 by (simp add: i32_ok_def LLAMA_MAX_SEQ_def)
    with c2(1) s(1) have "?f m (c1, put_i32 (int ?s) @ bs) = Some (Some (c2, bs))" by (simp add: i32.get_put)
    moreover have "?P (Suc m) c2" using c2 P kv_seq_add_ext [OF c2(1)] m by (simp add: take_Suc_conv_app_nth)
    ultimately show "\<exists>c'. ?f m (c1, put_i32 (int (ids ! m)) @ bs) = Some (Some (c', bs)) \<and> ?P (Suc m) c'" by blast
  qed
  then show ?thesis by (simp add: concat_map_nth [of "\<lambda>s. put_i32 (int s)" ids])
qed

lemma read_cell_eq:
  assumes c: "kv_inv c" "i < kv_size c" "c_pos c ! i = -1" and p: "0 \<le> p" "i32_ok p" and e: "ext_ok e"
    and ids: "distinct ids" "\<forall>s\<in>set ids. s < n_seq_max" "n_seq_max \<le> LLAMA_MAX_SEQ"
  shows "\<exists>c'. read_cell hp n_seq_max i (c, cell_format hp p ids e @ bs) = Some (Some (c', bs)) \<and> kv_inv c' \<and>
    cells c' = (cells c)[i := (p, set ids)] \<and> (\<forall>j. j \<noteq> i \<longrightarrow> c_ext c' ! j = c_ext c ! j) \<and> (has_cell_ext hp \<longrightarrow> c_ext c' ! i = e)"
proof -
  have "set ids \<subseteq> {..<LLAMA_MAX_SEQ}" using ids(2,3) by auto
  then have "length ids \<le> LLAMA_MAX_SEQ" using card_mono [of "{..<LLAMA_MAX_SEQ}" "set ids"] distinct_card [OF ids(1)] by simp
  then have n: "length ids < 2 ^ 32" by (simp add: LLAMA_MAX_SEQ_def)
  from kv_pos_set_spec [OF c p(1)] obtain c1 where
    c1: "kv_pos_set i p c = Some c1" "kv_inv c1" "cells c1 = (cells c)[i := (p, {})]" by blast
  note size = kv_size_upd [OF c(1) c1(2,3)]
  have "\<exists>c2. (if has_cell_ext hp then kv_ext_set i e c1 else Some c1) = Some c2 \<and> kv_inv c2 \<and> cells c2 = cells c1 \<and>
      (\<forall>j. j \<noteq> i \<longrightarrow> c_ext c2 ! j = c_ext c1 ! j) \<and> (has_cell_ext hp \<longrightarrow> c_ext c2 ! i = e)"
  proof (cases "has_cell_ext hp")
    case True
    have "i < kv_size c1" using c(2) size by simp
    from kv_ext_set_spec [OF c1(2) this, of e] True kv_ext_set_frame [of i e c1] show ?thesis by auto
  qed (use c1(2) in simp)
  then obtain c2 where c2: "(if has_cell_ext hp then kv_ext_set i e c1 else Some c1) = Some c2" "kv_inv c2" "cells c2 = cells c1"
    "\<forall>j. j \<noteq> i \<longrightarrow> c_ext c2 ! j = c_ext c1 ! j" "has_cell_ext hp \<longrightarrow> c_ext c2 ! i = e" by blast
  have i2: "i < kv_size c2" "cells c2 ! i = (p, {})"
    using c(1,2) c1 c2(2,3) length_cells [OF c(1)] length_cells [OF c2(2)] by simp_all
  have "p \<noteq> -1" using p(1) by simp
  from read_seqs [OF c2(2) i2 this ids, of bs] obtain c3 where
    c3: "loopM (\<lambda>_ (c, bs). do {
       (s, bs) \<leftarrow> get_i32 bs;
       if s < 0 \<or> s \<ge> int n_seq_max then Some None
       else do { c \<leftarrow> kv_seq_add i (nat s) c; Some (Some (c, bs)) }
     }) [0..<length ids] (c2, concat (map (\<lambda>s. put_i32 (int s)) ids) @ bs) = Some (Some (c3, bs))"
    "kv_inv c3" "cells c3 = (cells c2)[i := (p, set ids)]" "c_ext c3 = c_ext c2" by blast
  have "read_cell hp n_seq_max i (c, cell_format hp p ids e @ bs) = Some (Some (c3, bs))"
    using c1(1) c2(1) c3(1) p(2) e n
    by (cases "has_cell_ext hp") (simp_all add: read_cell_def cell_format_def i32.get_put u32.get_put ext.get_put)
  moreover have "c_ext c1 = c_ext c" by (rule kv_pos_set_ext [OF c1(1)])
  ultimately show ?thesis using c1(3) c2(3-5) c3(2-4) by auto
qed

section \<open>The cells of a stream\<close>

definition saved_ok :: "nat \<Rightarrow> llama_pos \<times> nat list \<times> kv_cell_ext \<Rightarrow> bool" where
  "saved_ok n_seq_max e \<longleftrightarrow> (case e of (p, ids, x) \<Rightarrow>
     0 \<le> p \<and> i32_ok p \<and> distinct ids \<and> (\<forall>s\<in>set ids. s < n_seq_max) \<and> ext_ok x)"

lemma read_cells_eq:
  assumes c: "kv_inv c" "cells c = replicate n (-1, {})" "length es \<le> n" and n: "n_seq_max \<le> LLAMA_MAX_SEQ"
    and es: "\<forall>e\<in>set es. saved_ok n_seq_max e"
  shows "\<exists>c'. loopM (read_cell hp n_seq_max) [0..<length es] (c, concat (map (\<lambda>(p, ids, x). cell_format hp p ids x) es) @ bs) =
      Some (Some (c', bs)) \<and> kv_inv c' \<and>
    cells c' = map (\<lambda>(p, ids, x). (p, set ids)) es @ replicate (n - length es) (-1, {}) \<and>
    (has_cell_ext hp \<longrightarrow> (\<forall>m<length es. c_ext c' ! m = snd (snd (es ! m))))"
proof -
  let ?e = "\<lambda>(p, ids, x). (p :: llama_pos, set (ids :: nat list))" and ?b = "\<lambda>(p, ids, x). cell_format hp p ids x"
  let ?P = "\<lambda>m c'. kv_inv c' \<and> cells c' = map ?e (take m es) @ replicate (n - m) (-1, {}) \<and>
    (has_cell_ext hp \<longrightarrow> (\<forall>l<m. c_ext c' ! l = snd (snd (es ! l))))"
  have "\<exists>c'. loopM (read_cell hp n_seq_max) [0..<length es] (c, concat (map (\<lambda>m. ?b (es ! m)) [0..<length es]) @ bs) = Some (Some (c', bs)) \<and>
      ?P (length es) c'"
  proof (rule loopM_read [of ?P])
    show "?P 0 c" using c by simp
  next
    fix m c1 bs
    assume m: "m < length es" and P: "?P m c1"
    obtain p ids x where e: "es ! m = (p, ids, x)" by (cases "es ! m")
    have ok: "0 \<le> p" "i32_ok p" "ext_ok x" "distinct ids" "\<forall>s\<in>set ids. s < n_seq_max"
      using es nth_mem [OF m] by (auto simp: e saved_ok_def)
    have size: "m < kv_size c1" using P m c(3) length_cells [of c1] by simp
    have "cells c1 ! m = (-1, {})" using P m c(3) by (simp add: nth_append)
    then have "c_pos c1 ! m = -1" using nth_cells [of c1 m] P size by simp
    with read_cell_eq [OF _ size _ ok n, of hp bs] P obtain c2 where
      c2: "read_cell hp n_seq_max m (c1, cell_format hp p ids x @ bs) = Some (Some (c2, bs))" "kv_inv c2"
        "cells c2 = (cells c1)[m := (p, set ids)]" "\<forall>j. j \<noteq> m \<longrightarrow> c_ext c2 ! j = c_ext c1 ! j" "has_cell_ext hp \<longrightarrow> c_ext c2 ! m = x"
      by blast
    have "replicate (n - m) (-1 :: llama_pos, {} :: nat set) = (-1, {}) # replicate (n - Suc m) (-1, {})"
      using m c(3) by (simp flip: replicate_Suc add: Suc_diff_Suc)
    with P c2(3) m e have "cells c2 = map ?e (take (Suc m) es) @ replicate (n - Suc m) (-1, {})"
      by (simp add: take_Suc_conv_app_nth list_update_append)
    with c2 P e show "\<exists>c'. read_cell hp n_seq_max m (c1, ?b (es ! m) @ bs) = Some (Some (c', bs)) \<and> ?P (Suc m) c'"
      by (auto simp: less_Suc_eq)
  qed
  then show ?thesis by (simp add: concat_map_nth [of ?b es])
qed

end
