(* ===== verification/KvStateData.thy ===== *)
theory KvStateData
  imports KvStateMeta
begin

text \<open>
  The tensor part of a saved cache: the rows written for the ranges of cells are read into the rows
  of the cells of the slot, in one piece when these are contiguous and row by row otherwise.
\<close>

section \<open>Rows of a tensor\<close>

definition row :: "bytes \<Rightarrow> nat \<Rightarrow> nat \<Rightarrow> bytes" where
  "row t sz i = take sz (drop (i * sz) t)"

lemma length_row: "(i + 1) * sz \<le> length t \<Longrightarrow> length (row t sz i) = sz"
  by (simp add: row_def)

lemma nth_row: "(j + 1) * sz \<le> length t \<Longrightarrow> l < sz \<Longrightarrow> row t sz j ! l = t ! (j * sz + l)"
  by (simp add: row_def)

lemma rows_block:
  assumes "a \<le> b" shows "take ((b - a) * sz) (drop ((a + base) * sz) t) = concat (map (\<lambda>i. row t sz (i + base)) [a..<b])"
  using assms
proof (induction b rule: dec_induct)
  case (step b)
  have "Suc b - a = (b - a) + 1" using step(1) by simp
  then have "(Suc b - a) * sz = (b - a) * sz + sz" by simp
  moreover have "(b - a) * sz + (a + base) * sz = (b + base) * sz" using step(1) by (simp flip: add_mult_distrib)
  ultimately show ?case using step by (simp add: take_add row_def)
qed simp

lemma tensor_get_eq: "offset + n \<le> length t \<Longrightarrow> tensor_get t offset n = Some (take n (drop offset t))"
  by (simp add: tensor_get_def)

lemma tensor_set_eq:
  "offset + length b \<le> length t \<Longrightarrow> tensor_set t offset b = Some (take offset t @ b @ drop (offset + length b) t)"
  by (simp add: tensor_set_def)

lemma write_ranges_eq:
  assumes "\<forall>(a, b)\<in>set rs. a < b \<and> b \<le> n" "(n + base) * sz \<le> length t" "\<And>a. a < n \<Longrightarrow> off a = (a + base) * sz"
  shows "write_ranges t sz off rs out = Some (out @ concat (map (\<lambda>i. row t sz (i + base)) (range_cells rs)))"
proof -
  have "tensor_get t (off a) ((b - a) * sz) = Some (concat (map (\<lambda>i. row t sz (i + base)) [a..<b]))"
    if "(a, b) \<in> set rs" for a b
  proof -
    have ab: "a \<le> b" "b \<le> n" "a < n" using assms(1) that by auto
    have "(a + base) * sz + (b - a) * sz = (b + base) * sz" using ab(1) by (simp flip: add_mult_distrib)
    also have "\<dots> \<le> (n + base) * sz" using ab(2) by (intro mult_le_mono1) simp
    finally show ?thesis using assms(2) by (simp add: tensor_get_eq assms(3) [OF ab(3)] rows_block [OF ab(1)])
  qed
  then have "write_ranges t sz off rs out = Some (out @ concat (map (\<lambda>(a, b). concat (map (\<lambda>i. row t sz (i + base)) [a..<b])) rs))"
    unfolding write_ranges_def by (intro foldM_append_out) auto
  also have "concat (map (\<lambda>(a, b). concat (map (\<lambda>i. row t sz (i + base)) [a..<b])) rs) =
      concat (map (\<lambda>i. row t sz (i + base)) (range_cells rs))"
    by (induction rs) auto
  finally show ?thesis .
qed

lemma tensor_set_row:
  assumes "(i + 1) * sz \<le> length t" "length b = sz"
  shows "\<exists>t'. tensor_set t (i * sz) b = Some t' \<and> length t' = length t \<and> row t' sz i = b \<and>
    (\<forall>j. (j + 1) * sz \<le> length t \<longrightarrow> j \<noteq> i \<longrightarrow> row t' sz j = row t sz j)"
proof -
  let ?t = "take (i * sz) t @ b @ drop (i * sz + sz) t"
  have fits: "i * sz + sz \<le> length t" using assms(1) by simp
  have len: "length ?t = length t" using fits assms(2) by simp
  have "row ?t sz j = row t sz j" if j: "(j + 1) * sz \<le> length t" "j \<noteq> i" for j
  proof (rule nth_equalityI)
    have "length (row u sz j) = length (row t sz j)" if "length u = length t" for u using that by (simp add: row_def)
    then show "length (row ?t sz j) = length (row t sz j)" using len .
    fix l assume in_row: "l < length (row ?t sz j)"
    have "length (row u sz j) \<le> sz" for u by (simp add: row_def)
    with in_row have l: "l < sz" by (rule order_less_le_trans)
    have other: "j * sz + l < i * sz \<or> i * sz + sz \<le> j * sz + l"
    proof (cases "j < i")
      case True
      then have "Suc j * sz \<le> i * sz" by (intro mult_le_mono1) simp
      with l show ?thesis by simp
    next
      case False
      then have "Suc i * sz \<le> j * sz" using j(2) by (intro mult_le_mono1) simp
      then show ?thesis by simp
    qed
    have "j * sz + l < length t" using j(1) l by simp
    with other have "?t ! (j * sz + l) = t ! (j * sz + l)" using fits assms(2) by (auto simp: nth_append)
    moreover have "row u sz j ! l = u ! (j * sz + l)" if "length u = length t" for u
      using l j(1) that by (intro nth_row) simp_all
    note this [OF len] this [OF refl]
    ultimately show "row ?t sz j ! l = row t sz j ! l" by (simp only:)
  qed
  moreover have "row ?t sz i = b" using fits assms(2) by (simp add: row_def)
  moreover have "tensor_set t (i * sz) b = Some ?t" using fits assms(2) by (simp add: tensor_set_eq)
  ultimately show ?thesis using len by blast
qed

definition set_rows :: "nat \<Rightarrow> (nat \<Rightarrow> nat) \<Rightarrow> bytes list \<Rightarrow> nat \<Rightarrow> bytes \<Rightarrow> bytes option" where
  \<comment> \<open>row \<open>m\<close> of the list goes to row \<open>g m\<close>\<close>
  "set_rows sz g rs cnt = foldM (\<lambda>m t. tensor_set t (g m * sz) (rs ! m)) [0..<cnt]"

lemma set_rows_eq:
  assumes "cnt \<le> length rs" "\<forall>r\<in>set rs. length r = sz" "\<forall>m<cnt. (g m + 1) * sz \<le> length t" "inj_on g {..<cnt}"
  shows "\<exists>t'. set_rows sz g rs cnt t = Some t' \<and> length t' = length t \<and> (\<forall>m<cnt. row t' sz (g m) = rs ! m) \<and>
    (\<forall>j. (j + 1) * sz \<le> length t \<longrightarrow> (\<forall>m<cnt. j \<noteq> g m) \<longrightarrow> row t' sz j = row t sz j)"
proof -
  let ?P = "\<lambda>done t'. length t' = length t \<and> (\<forall>m<length done. row t' sz (g m) = rs ! m) \<and>
    (\<forall>j. (j + 1) * sz \<le> length t \<longrightarrow> (\<forall>m<length done. j \<noteq> g m) \<longrightarrow> row t' sz j = row t sz j)"
  have "\<exists>t'. foldM (\<lambda>m t. tensor_set t (g m * sz) (rs ! m)) [0..<cnt] t = Some t' \<and> ?P [0..<cnt] t'"
  proof (rule foldM_rule)
    fix "done" m rest t1
    assume split: "[0..<cnt] = done @ m # rest" and P: "?P done t1"
    note m = upt_split [OF split]
    have "length (rs ! m) = sz" using assms(1,2) m(2) by simp
    moreover have "(g m + 1) * sz \<le> length t1" using assms(3) m(2) P by simp
    ultimately obtain t2 where t2: "tensor_set t1 (g m * sz) (rs ! m) = Some t2" "length t2 = length t1" "row t2 sz (g m) = rs ! m"
      "\<And>j. (j + 1) * sz \<le> length t1 \<Longrightarrow> j \<noteq> g m \<Longrightarrow> row t2 sz j = row t1 sz j" using tensor_set_row by blast
    have new: "row t2 sz (g l) = rs ! l" if "l < length (done @ [m])" for l
    proof (cases "l = m")
      case False
      with that m(1) have l: "l < length done" by simp
      then have "g l \<noteq> g m" using assms(4) m False by (auto dest: inj_onD)
      with t2(4) [of "g l"] P l m assms(3) show ?thesis by simp
    qed (use t2(3) in simp)
    have old: "row t2 sz j = row t sz j" if "(j + 1) * sz \<le> length t" "\<forall>l<length (done @ [m]). j \<noteq> g l" for j
      using t2(4) [of j] P that m(1) by simp
    have P2: "?P (done @ [m]) t2" using t2(2) P new old by (intro conjI allI impI) simp_all
    show "\<exists>t'. tensor_set t1 (g m * sz) (rs ! m) = Some t' \<and> ?P (done @ [m]) t'"
      by (rule exI [of _ t2], rule conjI [OF t2(1) P2])
  qed simp
  then show ?thesis by (simp add: set_rows_def)
qed

lemma tensor_set_append:
  assumes "tensor_set t o1 xs = Some t1"
  shows "tensor_set t o1 (xs @ ys) = tensor_set t1 (o1 + length xs) ys"
proof (cases "xs = []")
  case True
  with assms show ?thesis by (simp add: tensor_set_def)
next
  case False
  then have t1: "o1 + length xs \<le> length t" "t1 = take o1 t @ xs @ drop (o1 + length xs) t"
    using assms by (auto simp: tensor_set_def split: if_splits)
  have "take (o1 + length xs) t1 = take o1 t @ xs" "drop (o1 + length xs + length ys) t1 = drop (o1 + length xs + length ys) t"
    "length t1 = length t" using t1 by (simp_all add: drop_drop add.commute add.left_commute)
  then show ?thesis using t1(1) False t1(2) by (simp add: tensor_set_def add.assoc)
qed

lemma length_concat_const: "\<forall>r\<in>set rs. length r = sz \<Longrightarrow> length (concat rs) = length rs * sz"
  by (induction rs) simp_all

lemma foldM_Nil: "foldM f [] = Some"
  by (rule ext) simp

lemma set_rows_block:
  assumes "cnt \<le> length rs" "\<forall>r\<in>set rs. length r = sz" "(h + cnt) * sz \<le> length t"
  shows "tensor_set t (h * sz) (concat (take cnt rs)) = set_rows sz (\<lambda>m. h + m) rs cnt t"
  using assms
proof (induction cnt)
  case 0
  then show ?case by (simp add: tensor_set_def set_rows_def)
next
  case (Suc cnt)
  from set_rows_eq [of cnt rs sz "\<lambda>m. h + m" t] Suc.prems obtain t1 where t1: "set_rows sz (\<lambda>m. h + m) rs cnt t = Some t1"
  proof -
    have "(h + m + 1) * sz \<le> length t" if "m < cnt" for m
    proof -
      have "(h + m + 1) * sz \<le> (h + Suc cnt) * sz" using that by (intro mult_le_mono1) simp
      also note Suc.prems(3)
      finally show ?thesis .
    qed
    with set_rows_eq [of cnt rs sz "\<lambda>m. h + m" t] Suc.prems that show ?thesis by (auto simp: inj_on_def)
  qed
  have "(h + cnt) * sz \<le> length t" using Suc.prems(3) by simp
  with Suc t1 have block: "tensor_set t (h * sz) (concat (take cnt rs)) = Some t1" by simp
  have "length (concat (take cnt rs)) = cnt * sz"
    using length_concat_const [of "take cnt rs" sz] Suc.prems(1,2) by (auto dest: in_set_takeD)
  with tensor_set_append [OF block, of "rs ! cnt"] t1 Suc.prems(1) show ?case
    by (simp add: take_Suc_conv_app_nth set_rows_def foldM_append foldM_Nil add_mult_distrib)
qed

lemma read_rows_eq:
  assumes si: "si_idxs si = [is]" "length is = length rs" "distinct is"
    and rs: "\<forall>r\<in>set rs. length r = sz" and fits: "\<forall>i\<in>set is. (i + base + 1) * sz \<le> length t"
    and off: "\<And>i. i \<in> set is \<Longrightarrow> off i = (i + base) * sz"
  shows "\<exists>t'. read_rows si sz off (length rs) (t, concat rs @ bs) = Some (Some (t', bs)) \<and> length t' = length t \<and>
    (\<forall>m<length rs. row t' sz (is ! m + base) = rs ! m) \<and>
    (\<forall>j. (j + 1) * sz \<le> length t \<longrightarrow> (\<forall>i\<in>set is. j \<noteq> i + base) \<longrightarrow> row t' sz j = row t sz j)"
proof -
  let ?g = "\<lambda>m. is ! m + base" and ?n = "length rs"
  have inj: "inj_on ?g {..<?n}" using si(2,3) by (auto simp: inj_on_def nth_eq_iff_index_eq)
  have room: "\<forall>m<?n. (?g m + 1) * sz \<le> length t" using fits si(2) by simp
  from set_rows_eq [OF order_refl rs room inj] obtain t' where t': "set_rows sz ?g rs ?n t = Some t'" "length t' = length t"
    "\<forall>m<?n. row t' sz (?g m) = rs ! m" "\<forall>j. (j + 1) * sz \<le> length t \<longrightarrow> (\<forall>m<?n. j \<noteq> ?g m) \<longrightarrow> row t' sz j = row t sz j" by blast
  have "read_rows si sz off ?n (t, concat rs @ bs) = Some (Some (t', bs))"
  proof (cases "?n = 0")
    case True
    with t'(1) show ?thesis by (simp add: read_rows_def set_rows_def)
  next
    case ne: False
    then have is_ne: "is \<noteq> []" using si(2) by auto
    show ?thesis
    proof (cases "si_is_contiguous si")
      case True
      then have at: "is ! m = hd is + m" if "m < ?n" for m using si(1,2) is_ne that by (simp add: si_is_contiguous_def Let_def)
      have "set_rows sz ?g rs ?n t = set_rows sz (\<lambda>m. (hd is + base) + m) rs ?n t"
        unfolding set_rows_def by (rule foldM_cong) (simp add: at ac_simps)
      moreover have last: "hd is + base + ?n = ?g (?n - 1) + 1" using ne at [of "?n - 1"] by simp
      have "?n - 1 < ?n" using ne by simp
      with room have "(?g (?n - 1) + 1) * sz \<le> length t" by blast
      then have "(hd is + base + ?n) * sz \<le> length t" unfolding last .
      then have "tensor_set t ((hd is + base) * sz) (concat rs) = set_rows sz (\<lambda>m. (hd is + base) + m) rs ?n t"
        using set_rows_block [OF order_refl rs, of "hd is + base" t] by simp
      moreover have "length (concat rs) = ?n * sz"
        by (rule length_concat_const [OF rs])
      ultimately have "tensor_set t ((hd is + base) * sz) (concat rs) = Some t'" "length (concat rs) = ?n * sz"
        using t'(1) by (simp_all only:)
      then show ?thesis using True ne si(1) is_ne off [of "hd is"] by (simp add: read_rows_def si_head_def io_read_append reading_def)
    next
      case False
      let ?step = "\<lambda>i (t, bs). do { idx \<leftarrow> at (hd (si_idxs si)) i;
          reading (io_read sz bs) (\<lambda>(b, bs). do { t \<leftarrow> tensor_set t (off idx) b; Some (Some (t, bs)) }) }"
      let ?P = "\<lambda>m a. set_rows sz ?g rs m t = Some a"
      have "\<exists>a. loopM ?step [0..<?n] (t, concat (map (\<lambda>m. rs ! m) [0..<?n]) @ bs) = Some (Some (a, bs)) \<and> ?P ?n a"
      proof (rule loopM_read [of ?P])
        show "?P 0 t" by (simp add: set_rows_def)
      next
        fix m a bs
        assume m: "m < ?n" and P: "?P m a"
        have "inj_on ?g {..<Suc m}" by (rule inj_on_subset [OF inj]) (use m in auto)
        from set_rows_eq [OF _ rs _ this, of t] m room have "set_rows sz ?g rs (Suc m) t \<noteq> None" by auto
        moreover have "set_rows sz ?g rs (Suc m) t = tensor_set a (?g m * sz) (rs ! m)"
          using P by (simp add: set_rows_def foldM_append foldM_Nil)
        ultimately obtain a' where "tensor_set a (?g m * sz) (rs ! m) = Some a'" "?P (Suc m) a'" by auto
        then show "\<exists>a'. ?step m (a, rs ! m @ bs) = Some (Some (a', bs)) \<and> ?P (Suc m) a'"
          using m si(1,2) rs off [of "is ! m"] by (simp add: io_read_append reading_def)
      qed
      then obtain a where "loopM ?step [0..<?n] (t, concat rs @ bs) = Some (Some (a, bs))" "?P ?n a" by (auto simp: map_nth)
      with t'(1) False ne show ?thesis by (simp add: read_rows_def)
    qed
  qed
  moreover have "(\<forall>m<?n. j \<noteq> ?g m) \<longleftrightarrow> (\<forall>i\<in>set is. j \<noteq> i + base)" for j using si(2) by (auto simp: all_set_conv_all_nth)
  ultimately show ?thesis using t'(2-4) by auto
qed

section \<open>The tensors of a layer\<close>

definition layer_ok :: "bool \<Rightarrow> nat \<Rightarrow> nat \<Rightarrow> kv_layer \<Rightarrow> bool" where
  \<comment> \<open>\<open>n\<close> cells in each of \<open>ns\<close> streams; the numbers fit their fields in the file, and the offsets in a transposed V 32 bits\<close>
  "layer_ok tr n ns l \<longleftrightarrow> length (ly_k l) = ns \<and> length (ly_v l) = ns \<and>
     (\<forall>k\<in>set (ly_k l). length k = n * ly_k_row l) \<and>
     (\<forall>v. Some v \<in> set (ly_v l) \<longrightarrow> length v = (if tr then ly_n_embd_v_gqa l * n * ly_v_el l else n * ly_v_row l)) \<and>
     i32_ok (ly_k_type l) \<and> i32_ok (ly_v_type l) \<and> ly_k_row l < 2 ^ 64 \<and> ly_v_row l < 2 ^ 64 \<and>
     ly_v_el l < 2 ^ 32 \<and> ly_n_embd_v_gqa l < 2 ^ 32 \<and> (tr \<longrightarrow> ly_n_embd_v_gqa l * n * ly_v_el l \<le> 2 ^ 32)"

definition same_layer :: "kv_layer \<Rightarrow> kv_layer \<Rightarrow> bool" where
  "same_layer l l' \<longleftrightarrow> ly_k_type l' = ly_k_type l \<and> ly_k_row l' = ly_k_row l \<and> ly_v_type l' = ly_v_type l \<and>
     ly_v_row l' = ly_v_row l \<and> ly_v_el l' = ly_v_el l \<and> ly_n_embd_v_gqa l' = ly_n_embd_v_gqa l \<and>
     map (\<lambda>v. v = None) (ly_v l') = map (\<lambda>v. v = None) (ly_v l)"

definition k_row :: "nat \<Rightarrow> kv_layer \<Rightarrow> nat \<Rightarrow> bytes" where
  \<comment> \<open>the key of a cell\<close>
  "k_row st l i = row (ly_k l ! st) (ly_k_row l) i"

definition v_rows :: "bool \<Rightarrow> nat \<Rightarrow> nat \<Rightarrow> kv_layer \<Rightarrow> nat \<Rightarrow> bytes list" where
  \<comment> \<open>the value of a cell: a row, or an element in each row of the transposed tensor\<close>
  "v_rows tr n st l i = (case ly_v l ! st of
      None \<Rightarrow> []
    | Some v \<Rightarrow> if tr then map (\<lambda>j. row v (ly_v_el l) (i + j * n)) [0..<ly_n_embd_v_gqa l] else [row v (ly_v_row l) i])"

definition k_bytes :: "nat \<Rightarrow> nat list \<Rightarrow> kv_layer \<Rightarrow> bytes" where
  "k_bytes st js l = put_i32 (ly_k_type l) @ put_u64 (ly_k_row l) @ concat (map (k_row st l) js)"

definition v_bytes :: "bool \<Rightarrow> nat \<Rightarrow> nat \<Rightarrow> nat list \<Rightarrow> kv_layer \<Rightarrow> bytes" where
  "v_bytes tr n st js l = (case ly_v l ! st of
      None \<Rightarrow> []
    | Some v \<Rightarrow>
        if tr then put_i32 (ly_v_type l) @ put_u32 (ly_v_el l) @ put_u32 (ly_n_embd_v_gqa l) @
          concat (map (\<lambda>j. concat (map (\<lambda>i. row v (ly_v_el l) (i + j * n)) js)) [0..<ly_n_embd_v_gqa l])
        else put_i32 (ly_v_type l) @ put_u64 (ly_v_row l) @ concat (map (row v (ly_v_row l)) js))"

lemma v_offsets:
  assumes "a < n" "j < e" "e * n * el \<le> 2 ^ 32"
  shows "v_src_offset n el j a = (a + j * n) * el" "v_dst_offset n el j a = (a + j * n) * el"
proof -
  have "(a + j * n) * el < 2 ^ 32 \<and> (el = 0 \<or> a + j * n < 2 ^ 32)"
  proof (cases "el = 0")
    case False
    have "a + j * n < Suc j * n" using assms(1) by simp
    also have "\<dots> \<le> e * n" using assms(2) by (intro mult_le_mono1) simp
    finally have "Suc (a + j * n) * el \<le> e * n * el" by (intro mult_le_mono1) simp
    with assms(3) have "Suc (a + j * n) * el \<le> 2 ^ 32" by simp
    moreover have "a + j * n < Suc (a + j * n) * el" using False by (cases el) simp_all
    ultimately show ?thesis using False by simp
  qed simp
  then show "v_src_offset n el j a = (a + j * n) * el" "v_dst_offset n el j a = (a + j * n) * el"
    by (auto simp: v_src_offset_def v_dst_offset_def)
qed

lemma write_k_eq:
  assumes "layer_ok tr n ns l" "st < ns" "\<forall>(a, b)\<in>set rs. a < b \<and> b \<le> n"
  shows "write_k st rs l out = Some (out @ k_bytes st (range_cells rs) l)"
proof -
  have "length (ly_k l ! st) = n * ly_k_row l" "st < length (ly_k l)" using assms(1,2) by (auto simp: layer_ok_def)
  with write_ranges_eq [OF assms(3), of 0 "ly_k_row l" "ly_k l ! st" "\<lambda>a. a * ly_k_row l"] show ?thesis
    by (simp add: write_k_def k_bytes_def k_row_def [abs_def])
qed

lemma write_v_eq:
  assumes "layer_ok tr n ns l" "st < ns" "\<forall>(a, b)\<in>set rs. a < b \<and> b \<le> n"
  shows "write_v tr n st rs l out = Some (out @ v_bytes tr n st (range_cells rs) l)"
proof (cases "ly_v l ! st")
  case None
  with assms(1,2) show ?thesis by (simp add: write_v_def v_bytes_def layer_ok_def)
next
  case (Some v)
  have st: "st < length (ly_v l)" using assms(1,2) by (simp add: layer_ok_def)
  with Some have "Some v \<in> set (ly_v l)" by (metis nth_mem)
  with assms(1) have len: "length v = (if tr then ly_n_embd_v_gqa l * n * ly_v_el l else n * ly_v_row l)"
    unfolding layer_ok_def by blast
  show ?thesis
  proof (cases tr)
    case True
    have small: "ly_n_embd_v_gqa l * n * ly_v_el l \<le> 2 ^ 32" using assms(1) True unfolding layer_ok_def by blast
    have "write_ranges v (ly_v_el l) (v_src_offset n (ly_v_el l) j) rs out = Some (out @ concat (map (\<lambda>i. row v (ly_v_el l) (i + j * n)) (range_cells rs)))"
      if "j < ly_n_embd_v_gqa l" for j out
    proof (rule write_ranges_eq [OF assms(3)])
      have "n + j * n \<le> ly_n_embd_v_gqa l * n" using that mult_le_mono1 [of "Suc j" "ly_n_embd_v_gqa l" n] by simp
      then show "(n + j * n) * ly_v_el l \<le> length v" using len True by (simp add: mult_le_mono1)
      show "v_src_offset n (ly_v_el l) j a = (a + j * n) * ly_v_el l" if "a < n" for a
        by (rule v_offsets(1) [OF that \<open>j < ly_n_embd_v_gqa l\<close> small])
    qed
    then have "foldM (\<lambda>j. write_ranges v (ly_v_el l) (v_src_offset n (ly_v_el l) j) rs) [0..<ly_n_embd_v_gqa l] out =
        Some (out @ concat (map (\<lambda>j. concat (map (\<lambda>i. row v (ly_v_el l) (i + j * n)) (range_cells rs))) [0..<ly_n_embd_v_gqa l]))" for out
      by (intro foldM_append_out) simp
    with Some True st show ?thesis by (simp add: write_v_def v_bytes_def)
  next
    case False
    with write_ranges_eq [OF assms(3), of 0 "ly_v_row l" v "\<lambda>a. a * ly_v_row l"] len Some st show ?thesis
      by (simp add: write_v_def v_bytes_def)
  qed
qed

section \<open>Reading the layers\<close>

definition slot_cells :: "slot_info \<Rightarrow> nat list \<Rightarrow> nat \<Rightarrow> bool" where
  \<comment> \<open>the slot of a restored stream: \<open>is\<close>, different cells below \<open>n\<close>\<close>
  "slot_cells si is n \<longleftrightarrow> si_idxs si = [is] \<and> distinct is \<and> (\<forall>i\<in>set is. i < n)"

definition k_restored :: "bool \<Rightarrow> nat \<Rightarrow> nat \<Rightarrow> nat \<Rightarrow> nat list \<Rightarrow> nat list \<Rightarrow> kv_layer \<Rightarrow> kv_layer \<Rightarrow> kv_layer \<Rightarrow> bool" where
  "k_restored tr n ns st is js l l' l'' \<longleftrightarrow> layer_ok tr n ns l'' \<and> same_layer l l'' \<and> ly_v l'' = ly_v l' \<and>
     (\<forall>t. t \<noteq> st \<longrightarrow> ly_k l'' ! t = ly_k l' ! t) \<and> (\<forall>m<length js. k_row st l'' (is ! m) = k_row st l (js ! m))"

definition v_restored :: "bool \<Rightarrow> nat \<Rightarrow> nat \<Rightarrow> nat \<Rightarrow> nat list \<Rightarrow> nat list \<Rightarrow> kv_layer \<Rightarrow> kv_layer \<Rightarrow> kv_layer \<Rightarrow> bool" where
  "v_restored tr n ns st is js l l' l'' \<longleftrightarrow> layer_ok tr n ns l'' \<and> same_layer l l'' \<and> ly_k l'' = ly_k l' \<and>
     (\<forall>t. t \<noteq> st \<longrightarrow> ly_v l'' ! t = ly_v l' ! t) \<and> (\<forall>m<length js. v_rows tr n st l'' (is ! m) = v_rows tr n st l (js ! m))"

lemma layer_loop:
  assumes "\<And>il xs bs. il < length ls \<Longrightarrow> length xs = length ls \<Longrightarrow> xs ! il = ls ! il \<Longrightarrow>
      \<exists>l. f il (xs, g il @ bs) = Some (Some (xs[il := l], bs)) \<and> Q il l"
  shows "\<exists>ls'. loopM f [0..<length ls] (ls, concat (map g [0..<length ls]) @ bs) = Some (Some (ls', bs)) \<and>
    length ls' = length ls \<and> (\<forall>il<length ls. Q il (ls' ! il))"
proof -
  let ?P = "\<lambda>m xs. length xs = length ls \<and> (\<forall>il<m. Q il (xs ! il)) \<and> (\<forall>il<length ls. m \<le> il \<longrightarrow> xs ! il = ls ! il)"
  have "\<exists>ls'. loopM f [0..<length ls] (ls, concat (map g [0..<length ls]) @ bs) = Some (Some (ls', bs)) \<and> ?P (length ls) ls'"
  proof (rule loopM_read [of ?P])
    fix m xs bs
    assume m: "m < length ls" and P: "?P m xs"
    with assms [of m xs bs] obtain l where l: "f m (xs, g m @ bs) = Some (Some (xs[m := l], bs))" "Q m l" by auto
    have "?P (Suc m) (xs[m := l])" using P l(2) m by (auto simp: less_Suc_eq nth_list_update)
    with l(1) show "\<exists>xs'. f m (xs, g m @ bs) = Some (Some (xs', bs)) \<and> ?P (Suc m) xs'" by blast
  qed simp
  then show ?thesis by blast
qed

lemma rows_of:
  assumes "\<forall>i\<in>set js. i < n" "length t = n * sz" "r \<in> set (map (row t sz) js)"
  shows "length r = sz"
proof -
  from assms(3) obtain i where i: "i \<in> set js" "r = row t sz i" by auto
  then have "(i + 1) * sz \<le> n * sz" using assms(1) by (intro mult_le_mono1) (simp add: Suc_leI)
  with i(2) assms(2) show ?thesis by (simp add: length_row)
qed

lemma read_block:
  assumes slot: "slot_cells si is n" "length is = length js" "\<forall>i\<in>set js. i < n"
    and t: "length t = n * sz" "length t' = n * sz"
  shows "\<exists>u. read_rows si sz (\<lambda>i. i * sz) (length js) (t', concat (map (row t sz) js) @ bs) = Some (Some (u, bs)) \<and> length u = n * sz \<and>
    (\<forall>m<length js. row u sz (is ! m) = row t sz (js ! m))"
proof -
  have si: "si_idxs si = [is]" "length is = length (map (row t sz) js)" "distinct is" using slot by (simp_all add: slot_cells_def)
  have rows: "\<forall>r\<in>set (map (row t sz) js). length r = sz" using rows_of [OF slot(3) t(1)] by blast
  have "(i + 0 + 1) * sz \<le> length t'" if "i \<in> set is" for i
  proof -
    have "(i + 0 + 1) * sz \<le> n * sz" using that slot(1) by (intro mult_le_mono1) (simp add: slot_cells_def Suc_leI)
    then show ?thesis by (simp add: t(2))
  qed
  then have room: "\<forall>i\<in>set is. (i + 0 + 1) * sz \<le> length t'" by blast
  from read_rows_eq [OF si rows room, of "\<lambda>i. i * sz" bs] obtain u where
    "read_rows si sz (\<lambda>i. i * sz) (length js) (t', concat (map (row t sz) js) @ bs) = Some (Some (u, bs))" "length u = length t'"
    "\<forall>m<length js. row u sz (is ! m + 0) = map (row t sz) js ! m" by auto
  then show ?thesis using t(2) by auto
qed

lemma read_k_eq:
  assumes l: "layer_ok tr n ns l" "layer_ok tr n ns l'" "same_layer l l'" "st < ns"
    and slot: "slot_cells si is n" "length is = length js" "\<forall>i\<in>set js. i < n"
    and il: "il < length xs" "xs ! il = l'"
  shows "\<exists>l''. read_k st (length js) si il (xs, k_bytes st js l @ bs) = Some (Some (xs[il := l''], bs)) \<and>
    k_restored tr n ns st is js l l' l''"
proof -
  let ?sz = "ly_k_row l"
  have same: "ly_k_type l' = ly_k_type l" "ly_k_row l' = ?sz" using l(3) by (simp_all add: same_layer_def)
  have st: "st < length (ly_k l)" "st < length (ly_k l')" using l by (simp_all add: layer_ok_def)
  have len: "length (ly_k l ! st) = n * ?sz" "length (ly_k l' ! st) = n * ?sz"
    using l(1,2) st same by (auto simp: layer_ok_def)
  from read_block [OF slot len, of bs] obtain u where
    u: "read_rows si ?sz (\<lambda>i. i * ?sz) (length js) (ly_k l' ! st, concat (map (row (ly_k l ! st) ?sz) js) @ bs) = Some (Some (u, bs))"
      "length u = n * ?sz" "\<forall>m<length js. row u ?sz (is ! m) = row (ly_k l ! st) ?sz (js ! m)" by blast
  let ?l = "l'\<lparr>ly_k := (ly_k l')[st := u]\<rparr>"
  have "i32_ok (ly_k_type l)" "?sz < 2 ^ 64" using l(1) by (simp_all add: layer_ok_def)
  then have "read_k st (length js) si il (xs, k_bytes st js l @ bs) = Some (Some (xs[il := ?l], bs))"
    using il st same u(1) by (simp add: read_k_def k_bytes_def k_row_def [abs_def] i32.get_put u64.get_put reading_def)
  moreover have "\<forall>k\<in>set ((ly_k l')[st := u]). length k = n * ?sz"
    using l(2) u(2) same by (auto simp: layer_ok_def dest: set_update_subset_insert [THEN subsetD])
  then have "k_restored tr n ns st is js l l' ?l"
    using l(2,3) same st u(3) by (simp add: k_restored_def layer_ok_def same_layer_def k_row_def)
  ultimately show ?thesis by blast
qed

lemma same_none: "same_layer l l' \<Longrightarrow> st < length (ly_v l') \<Longrightarrow> (ly_v l' ! st = None) = (ly_v l ! st = None)"
proof -
  assume "same_layer l l'" and st: "st < length (ly_v l')"
  then have eq: "map (\<lambda>v. v = None) (ly_v l') = map (\<lambda>v. v = None) (ly_v l)" by (simp add: same_layer_def)
  then have "length (ly_v l') = length (ly_v l)" by (rule map_eq_imp_length_eq)
  moreover from arg_cong [OF eq, of "\<lambda>xs. xs ! st"]
  have "map (\<lambda>v. v = None) (ly_v l') ! st = map (\<lambda>v. v = None) (ly_v l) ! st" .
  ultimately show ?thesis using st by simp
qed

lemma v_put:
  assumes l': "layer_ok tr n ns l'" "same_layer l l'" "st < ns" "ly_v l' ! st = Some v'" and u: "length u = length v'"
  shows "layer_ok tr n ns (l'\<lparr>ly_v := (ly_v l')[st := Some u]\<rparr>)" "same_layer l (l'\<lparr>ly_v := (ly_v l')[st := Some u]\<rparr>)"
proof -
  have st: "st < length (ly_v l')" using l' by (simp add: layer_ok_def)
  have "length v' = (if tr then ly_n_embd_v_gqa l' * n * ly_v_el l' else n * ly_v_row l')"
    using l'(1) l'(4) nth_mem [OF st] unfolding layer_ok_def by auto
  with u l'(1) show "layer_ok tr n ns (l'\<lparr>ly_v := (ly_v l')[st := Some u]\<rparr>)"
    by (auto simp: layer_ok_def dest!: set_update_subset_insert [THEN subsetD])
  have "(map (\<lambda>v. v = None) (ly_v l'))[st := False] = map (\<lambda>v. v = None) (ly_v l')"
    using l'(4) st by (simp add: list_update_same_conv)
  then show "same_layer l (l'\<lparr>ly_v := (ly_v l')[st := Some u]\<rparr>)"
    using l'(2) by (simp add: same_layer_def map_update)
qed

lemma read_trans:
  assumes slot: "slot_cells si is n" "length is = length js" "\<forall>i\<in>set js. i < n"
    and t: "length v = e * n * sz" "length v' = e * n * sz" "e * n * sz \<le> 2 ^ 32"
  shows "\<exists>u. loopM (\<lambda>j. read_rows si sz (v_dst_offset n sz j) (length js)) [0..<e]
      (v', concat (map (\<lambda>j. concat (map (\<lambda>i. row v sz (i + j * n)) js)) [0..<e]) @ bs) = Some (Some (u, bs)) \<and> length u = e * n * sz \<and>
    (\<forall>j<e. \<forall>m<length js. row u sz (is ! m + j * n) = row v sz (js ! m + j * n))"
proof -
  let ?P = "\<lambda>d u. length u = e * n * sz \<and> (\<forall>j<d. \<forall>m<length js. row u sz (is ! m + j * n) = row v sz (js ! m + j * n))"
  have sl: "si_idxs si = [is]" "distinct is" "\<And>i. i \<in> set is \<Longrightarrow> i < n" using slot(1) by (simp_all add: slot_cells_def)
  have fits: "(i + j * n + 1) * sz \<le> e * n * sz" if "i < n" "j < e" for i j
  proof -
    have "i + j * n + 1 \<le> Suc j * n" using that(1) by simp
    also have "\<dots> \<le> e * n" using that(2) by (intro mult_le_mono1) simp
    finally show ?thesis by (rule mult_le_mono1)
  qed
  show ?thesis
  proof (rule loopM_read [of ?P])
    show "?P 0 v'" using t(2) by simp
  next
    fix j w bs
    assume j: "j < e" and P: "?P j w"
    let ?rs = "map (\<lambda>i. row v sz (i + j * n)) js"
    have "\<forall>r\<in>set ?rs. length r = sz" using slot(3) fits [OF _ j] t(1) by (auto intro!: length_row)
    moreover have "length is = length ?rs" using slot(2) by simp
    moreover have "\<forall>i\<in>set is. (i + j * n + 1) * sz \<le> length w" using sl(3) fits [OF _ j] P by auto
    ultimately obtain w' where w': "read_rows si sz (v_dst_offset n sz j) (length ?rs) (w, concat ?rs @ bs) = Some (Some (w', bs))" "length w' = length w"
      "\<forall>m<length ?rs. row w' sz (is ! m + j * n) = ?rs ! m"
      "\<And>l. (l + 1) * sz \<le> length w \<Longrightarrow> \<forall>i\<in>set is. l \<noteq> i + j * n \<Longrightarrow> row w' sz l = row w sz l"
      using read_rows_eq [OF sl(1) _ sl(2), of ?rs sz "j * n" w "v_dst_offset n sz j" bs] v_offsets(2) [OF sl(3) j t(3)] by blast
    have "row w' sz (is ! m + l * n) = row v sz (js ! m + l * n)" if l: "l < Suc j" and m: "m < length js" for l m
    proof (cases "l = j")
      case True
      with w'(3) m show ?thesis by simp
    next
      case False
      have im: "is ! m < n" using sl(3) m slot(2) by simp
      have other: "\<forall>i\<in>set is. is ! m + l * n \<noteq> i + j * n"
      proof
        fix i assume "i \<in> set is"
        then have "i < n" by (rule sl(3))
        then have "(is ! m + l * n) div n = l" "(i + j * n) div n = j" using im by simp_all
        with False show "is ! m + l * n \<noteq> i + j * n" by metis
      qed
      have "(is ! m + l * n + 1) * sz \<le> length w" using fits [OF im] l j P by simp
      from w'(4) [OF this other] P l m False show ?thesis by simp
    qed
    then have "?P (Suc j) w'" using w'(2) P by simp
    with w'(1) show "\<exists>w'. read_rows si sz (v_dst_offset n sz j) (length js) (w, concat ?rs @ bs) = Some (Some (w', bs)) \<and> ?P (Suc j) w'" by auto
  qed
qed

lemma read_v_eq:
  assumes l: "layer_ok tr n ns l" "layer_ok tr n ns l'" "same_layer l l'" "st < ns"
    and slot: "slot_cells si is n" "length is = length js" "\<forall>i\<in>set js. i < n"
    and il: "il < length xs" "xs ! il = l'"
  shows "\<exists>l''. (if tr then read_v_trans n else read_v) st (length js) si il (xs, v_bytes tr n st js l @ bs) = Some (Some (xs[il := l''], bs)) \<and>
    v_restored tr n ns st is js l l' l''"
proof (cases "ly_v l' ! st")
  case None
  have st: "st < length (ly_v l)" "st < length (ly_v l')" using l by (simp_all add: layer_ok_def)
  have "ly_v l ! st = None" using None same_none [OF l(3) st(2)] by simp
  with None il st l show ?thesis
    by (intro exI [of _ l']) (auto simp: read_v_def read_v_trans_def v_bytes_def v_restored_def v_rows_def list_update_same_conv)
next
  case (Some v')
  have st: "st < length (ly_v l)" "st < length (ly_v l')" using l by (simp_all add: layer_ok_def)
  obtain v where v: "ly_v l ! st = Some v" using Some same_none [OF l(3) st(2)] by fastforce
  have same: "ly_v_type l' = ly_v_type l" "ly_v_row l' = ly_v_row l" "ly_v_el l' = ly_v_el l" "ly_n_embd_v_gqa l' = ly_n_embd_v_gqa l"
    using l(3) by (simp_all add: same_layer_def)
  have "Some v \<in> set (ly_v l)" "Some v' \<in> set (ly_v l')" using v Some st by (metis nth_mem)+
  then have len: "length v = (if tr then ly_n_embd_v_gqa l * n * ly_v_el l else n * ly_v_row l)" "length v' = length v"
    using l(1,2) unfolding layer_ok_def same by auto
  have ok: "i32_ok (ly_v_type l)" "ly_v_row l < 2 ^ 64" "ly_v_el l < 2 ^ 32" "ly_n_embd_v_gqa l < 2 ^ 32"
    using l(1) by (simp_all add: layer_ok_def)
  have "\<exists>u. length u = length v' \<and>
      (if tr then read_v_trans n else read_v) st (length js) si il (xs, v_bytes tr n st js l @ bs) =
        Some (Some (xs[il := l'\<lparr>ly_v := (ly_v l')[st := Some u]\<rparr>], bs)) \<and>
      (\<forall>m<length js. v_rows tr n st (l'\<lparr>ly_v := (ly_v l')[st := Some u]\<rparr>) (is ! m) = v_rows tr n st l (js ! m))"
  proof (cases tr)
    case True
    then have t: "length v = ly_n_embd_v_gqa l * n * ly_v_el l" "length v' = ly_n_embd_v_gqa l * n * ly_v_el l" using len by simp_all
    have "ly_n_embd_v_gqa l * n * ly_v_el l \<le> 2 ^ 32" using l(1) True by (simp add: layer_ok_def)
    from read_trans [OF slot t this, of bs] True v Some st same il ok show ?thesis
      by (auto simp: read_v_trans_def v_bytes_def v_rows_def i32.get_put u32.get_put len reading_def)
  next
    case False
    then have t: "length v = n * ly_v_row l" "length v' = n * ly_v_row l" using len by simp_all
    from read_block [OF slot t, of bs] False v Some st same il ok show ?thesis
      by (auto simp: read_v_def v_bytes_def v_rows_def i32.get_put u64.get_put len reading_def)
  qed
  then obtain u where u: "length u = length v'" "(if tr then read_v_trans n else read_v) st (length js) si il (xs, v_bytes tr n st js l @ bs) =
        Some (Some (xs[il := l'\<lparr>ly_v := (ly_v l')[st := Some u]\<rparr>], bs))"
      "\<forall>m<length js. v_rows tr n st (l'\<lparr>ly_v := (ly_v l')[st := Some u]\<rparr>) (is ! m) = v_rows tr n st l (js ! m)" by blast
  with v_put [OF l(2,3,4) Some u(1)] show ?thesis by (auto simp: v_restored_def)
qed

end
