(* ===== verification/KvStateWhole.thy ===== *)
theory KvStateWhole
  imports KvStateData
begin

text \<open>
  Restoring a whole cache: the streams are written one after another, and reading them into a cleared
  cache of the same shape restores every cell with its key and value.
\<close>

section \<open>Caches with tensors\<close>

abbreviation full_size :: "kv_full \<Rightarrow> nat" where
  "full_size F \<equiv> kv_size (kc_cells (kf_cache F) ! 0)"

abbreviation full_hp :: "kv_full \<Rightarrow> kv_hparams" where
  "full_hp F \<equiv> kc_hp (kf_cache F)"

abbreviation full_cells :: "kv_full \<Rightarrow> nat \<Rightarrow> kv_cells" where
  "full_cells F st \<equiv> kc_cells (kf_cache F) ! st"

definition full_ok :: "kv_full \<Rightarrow> bool" where
  "full_ok F \<longleftrightarrow> kvc_inv (kf_cache F) \<and> kc_other (kf_cache F) = None \<and> kf_n_seq_max F \<le> LLAMA_MAX_SEQ \<and>
     length (kf_layers F) < 2 ^ 32 \<and> hp_n_stream (full_hp F) < 2 ^ 32 \<and> full_size F < 2 ^ 32 \<and>
     (\<forall>l\<in>set (kf_layers F). layer_ok (kf_v_trans F) (full_size F) (hp_n_stream (full_hp F)) l)"

definition same_shape :: "kv_full \<Rightarrow> kv_full \<Rightarrow> bool" where
  "same_shape F F' \<longleftrightarrow> full_hp F' = full_hp F \<and> kc_seq_to_stream (kf_cache F') = kc_seq_to_stream (kf_cache F) \<and>
     kf_v_trans F' = kf_v_trans F \<and> kf_n_seq_max F' = kf_n_seq_max F \<and> full_size F' = full_size F \<and>
     length (kf_layers F') = length (kf_layers F) \<and> (\<forall>il<length (kf_layers F). same_layer (kf_layers F ! il) (kf_layers F' ! il))"

definition savable :: "kv_full \<Rightarrow> bool" where
  \<comment> \<open>the numbers of the used cells fit their fields, and sequences are below \<open>n_seq_max\<close>\<close>
  "savable F \<longleftrightarrow> (\<forall>st<hp_n_stream (full_hp F). \<forall>i<full_size F. c_pos (full_cells F st) ! i \<noteq> -1 \<longrightarrow>
     c_pos (full_cells F st) ! i \<le> INT32_MAX \<and> ext_ok (c_ext (full_cells F st) ! i) \<and>
     (\<forall>s\<in>c_seq (full_cells F st) ! i. s < kf_n_seq_max F))"

definition used_cells :: "kv_cells \<Rightarrow> nat list" where
  "used_cells c = filter (\<lambda>i. c_pos c ! i \<noteq> -1) [0..<kv_size c]"

definition tensors_restored :: "kv_full \<Rightarrow> kv_full \<Rightarrow> nat \<Rightarrow> nat list \<Rightarrow> nat list \<Rightarrow> bool" where
  \<comment> \<open>keys and values of the cells \<open>is\<close> of \<open>F'\<close> are those of the cells \<open>js\<close> of \<open>F\<close>\<close>
  "tensors_restored F F' st is js \<longleftrightarrow> (\<forall>il<length (kf_layers F). \<forall>m<length js.
     k_row st (kf_layers F' ! il) (is ! m) = k_row st (kf_layers F ! il) (js ! m) \<and>
     v_rows (kf_v_trans F) (full_size F) st (kf_layers F' ! il) (is ! m) = v_rows (kf_v_trans F) (full_size F) st (kf_layers F ! il) (js ! m))"

definition stream_restored :: "kv_full \<Rightarrow> kv_full \<Rightarrow> nat \<Rightarrow> bool" where
  \<comment> \<open>stream \<open>st\<close> of \<open>F'\<close> has the used cells of \<open>F\<close> from cell 0 on, with their keys and values\<close>
  "stream_restored F F' st \<longleftrightarrow> (let c = full_cells F st; c' = full_cells F' st; js = used_cells c in
     kc_heads (kf_cache F') ! st = 0 \<and>
     cells c' = map (\<lambda>i. cells c ! i) js @ replicate (kv_size c - length js) (-1, {}) \<and>
     (has_cell_ext (full_hp F) \<longrightarrow> (\<forall>m<length js. c_ext c' ! m = c_ext c ! (js ! m))) \<and>
     tensors_restored F F' st [0..<length js] js)"

lemma full_okD:
  assumes "full_ok F" "st < hp_n_stream (full_hp F)"
  shows "kv_inv (full_cells F st)" "kv_size (full_cells F st) = full_size F" "st < length (kc_cells (kf_cache F))"
    "stream_ok (kf_cache F) st"
proof -
  have inv: "kvc_inv (kf_cache F)" using assms(1) by (simp add: full_ok_def)
  show s: "stream_ok (kf_cache F) st" by (rule kvc_invD(7) [OF inv assms(2)])
  then show "kv_inv (full_cells F st)" "kv_size (full_cells F st) = full_size F" by (simp_all add: stream_ok_def)
  show "st < length (kc_cells (kf_cache F))" using assms(2) kvc_invD(2) [OF inv] by simp
qed

section \<open>The tensors of a stream\<close>

definition data_bytes :: "kv_full \<Rightarrow> nat \<Rightarrow> nat list \<Rightarrow> bytes" where
  "data_bytes F st js = put_u32 (if kf_v_trans F then 1 else 0) @ put_u32 (length (kf_layers F)) @
     concat (map (k_bytes st js) (kf_layers F)) @ concat (map (v_bytes (kf_v_trans F) (full_size F) st js) (kf_layers F))"

lemma write_data_eq:
  assumes F: "full_ok F" "st < hp_n_stream (full_hp F)" and rs: "\<forall>(a, b)\<in>set rs. a < b \<and> b \<le> full_size F"
  shows "state_write_data F st rs out = Some (out @ data_bytes F st (range_cells rs))"
proof -
  have l: "layer_ok (kf_v_trans F) (full_size F) (hp_n_stream (full_hp F)) l" if "l \<in> set (kf_layers F)" for l
    using F(1) that by (simp add: full_ok_def)
  have "foldM (write_k st rs) (kf_layers F) out = Some (out @ concat (map (k_bytes st (range_cells rs)) (kf_layers F)))" for out
    by (rule foldM_append_out) (rule write_k_eq [OF l F(2) rs])
  moreover have "foldM (write_v (kf_v_trans F) (full_size F) st rs) (kf_layers F) out =
      Some (out @ concat (map (v_bytes (kf_v_trans F) (full_size F) st (range_cells rs)) (kf_layers F)))" for out
    by (rule foldM_append_out) (rule write_v_eq [OF l F(2) rs])
  ultimately show ?thesis using full_okD [OF F] by (simp add: state_write_data_def data_bytes_def)
qed

lemma read_data_eq:
  assumes F: "full_ok F" "full_ok F'" "same_shape F F'" "st < hp_n_stream (full_hp F)"
    and slot: "slot_cells si is (full_size F)" "length is = length js" "\<forall>j\<in>set js. j < full_size F" "length js \<le> full_size F"
  shows "\<exists>ls. state_read_data F' st (length js) si (data_bytes F st js @ bs) = Some (Some (F'\<lparr>kf_layers := ls\<rparr>, bs)) \<and>
    full_ok (F'\<lparr>kf_layers := ls\<rparr>) \<and> same_shape F (F'\<lparr>kf_layers := ls\<rparr>) \<and> tensors_restored F (F'\<lparr>kf_layers := ls\<rparr>) st is js \<and>
    (\<forall>t is js. t \<noteq> st \<longrightarrow> tensors_restored F F' t is js \<longrightarrow> tensors_restored F (F'\<lparr>kf_layers := ls\<rparr>) t is js)"
proof -
  let ?tr = "kf_v_trans F" and ?n = "full_size F" and ?ns = "hp_n_stream (full_hp F)" and ?L = "kf_layers F" and ?L' = "kf_layers F'"
  have shape: "kf_v_trans F' = ?tr" "full_size F' = ?n" "hp_n_stream (full_hp F') = ?ns" "length ?L' = length ?L"
    "\<And>il. il < length ?L \<Longrightarrow> same_layer (?L ! il) (?L' ! il)" using F(3) by (simp_all add: same_shape_def)
  have ok: "layer_ok ?tr ?n ?ns (?L ! il)" "layer_ok ?tr ?n ?ns (?L' ! il)" if "il < length ?L" for il
    using F(1,2) that shape by (simp_all add: full_ok_def)
  have nth: "concat (map f ?L) = concat (map (\<lambda>il. f (?L ! il)) [0..<length ?L'])" for f :: "kv_layer \<Rightarrow> bytes"
    using concat_map_nth [of f ?L] by (simp add: shape(4))
  have "\<exists>K. loopM (read_k st (length js) si) [0..<length ?L'] (?L', concat (map (k_bytes st js) ?L) @ bs) = Some (Some (K, bs)) \<and>
      length K = length ?L' \<and> (\<forall>il<length ?L'. k_restored ?tr ?n ?ns st is js (?L ! il) (?L' ! il) (K ! il))" for bs
    unfolding nth
  proof (rule layer_loop)
    fix il xs bs
    assume il: "il < length ?L'" "length xs = length ?L'" "xs ! il = ?L' ! il"
    then have "il < length ?L" "il < length xs" using shape(4) by simp_all
    from read_k_eq [OF ok(1) [OF this(1)] ok(2) [OF this(1)] shape(5) [OF this(1)] F(4) slot(1-3) this(2) il(3), of bs]
    show "\<exists>l. read_k st (length js) si il (xs, k_bytes st js (?L ! il) @ bs) = Some (Some (xs[il := l], bs)) \<and>
        k_restored ?tr ?n ?ns st is js (?L ! il) (?L' ! il) l" .
  qed
  then obtain K where K: "loopM (read_k st (length js) si) [0..<length ?L']
        (?L', concat (map (k_bytes st js) ?L) @ concat (map (v_bytes ?tr ?n st js) ?L) @ bs) =
      Some (Some (K, concat (map (v_bytes ?tr ?n st js) ?L) @ bs))"
      "length K = length ?L'" "\<And>il. il < length ?L' \<Longrightarrow> k_restored ?tr ?n ?ns st is js (?L ! il) (?L' ! il) (K ! il)" by blast
  have nthK: "concat (map f ?L) = concat (map (\<lambda>il. f (?L ! il)) [0..<length K])" for f :: "kv_layer \<Rightarrow> bytes"
    by (simp add: nth K(2))
  have "\<exists>V. loopM ((if ?tr then read_v_trans ?n else read_v) st (length js) si) [0..<length K]
        (K, concat (map (v_bytes ?tr ?n st js) ?L) @ bs) = Some (Some (V, bs)) \<and>
      length V = length K \<and> (\<forall>il<length K. v_restored ?tr ?n ?ns st is js (?L ! il) (K ! il) (V ! il))"
    unfolding nthK
  proof (rule layer_loop)
    fix il xs bs
    assume il: "il < length K" "length xs = length K" "xs ! il = K ! il"
    then have "il < length ?L" "il < length ?L'" "il < length xs" using shape(4) K(2) by simp_all
    note a = this and k = K(3) [OF this(2), unfolded k_restored_def]
    from k have "layer_ok ?tr ?n ?ns (K ! il)" "same_layer (?L ! il) (K ! il)" by blast+
    from read_v_eq [OF ok(1) [OF a(1)] this F(4) slot(1-3) a(3) il(3), of bs]
    show "\<exists>l. (if ?tr then read_v_trans ?n else read_v) st (length js) si il (xs, v_bytes ?tr ?n st js (?L ! il) @ bs) =
        Some (Some (xs[il := l], bs)) \<and> v_restored ?tr ?n ?ns st is js (?L ! il) (K ! il) l" .
  qed
  then obtain V where V: "loopM ((if ?tr then read_v_trans ?n else read_v) st (length js) si) [0..<length K]
        (K, concat (map (v_bytes ?tr ?n st js) ?L) @ bs) = Some (Some (V, bs))"
      "length V = length K" "\<And>il. il < length K \<Longrightarrow> v_restored ?tr ?n ?ns st is js (?L ! il) (K ! il) (V ! il)" by blast
  have st': "st < hp_n_stream (full_hp F')" using F(4) shape(3) by simp
  note c = full_okD [OF F(2) st']
  have "length ?L < 2 ^ 32" using F(1) by (simp add: full_ok_def)
  then have run: "state_read_data F' st (length js) si (data_bytes F st js @ bs) = Some (Some (F'\<lparr>kf_layers := V\<rparr>, bs))"
    using K(1,2) V(1) c shape(1,2,4) slot(4)
    by (cases "kf_v_trans F") (simp_all add: state_read_data_def data_bytes_def u32.get_put reading_def)
  have len: "length V = length ?L" using V(2) K(2) shape(4) by simp
  have layer: "layer_ok ?tr ?n ?ns (V ! il)" "same_layer (?L ! il) (V ! il)"
      "\<forall>m<length js. k_row st (V ! il) (is ! m) = k_row st (?L ! il) (js ! m)"
      "\<forall>m<length js. v_rows ?tr ?n st (V ! il) (is ! m) = v_rows ?tr ?n st (?L ! il) (js ! m)"
      "\<forall>t. t \<noteq> st \<longrightarrow> ly_k (V ! il) ! t = ly_k (?L' ! il) ! t \<and> ly_v (V ! il) ! t = ly_v (?L' ! il) ! t" if "il < length ?L" for il
  proof -
    have a: "il < length ?L'" "il < length K" using that shape(4) K(2) by simp_all
    note k = K(3) [OF a(1), unfolded k_restored_def] and v = V(3) [OF a(2), unfolded v_restored_def]
    show "layer_ok ?tr ?n ?ns (V ! il)" "same_layer (?L ! il) (V ! il)"
      "\<forall>m<length js. v_rows ?tr ?n st (V ! il) (is ! m) = v_rows ?tr ?n st (?L ! il) (js ! m)" using v by blast+
    have "ly_k (V ! il) = ly_k (K ! il)" "ly_k_row (V ! il) = ly_k_row (?L ! il)" "ly_k_row (K ! il) = ly_k_row (?L ! il)"
      using k v by (simp_all add: same_layer_def)
    with k show "\<forall>m<length js. k_row st (V ! il) (is ! m) = k_row st (?L ! il) (js ! m)" by (simp add: k_row_def)
    show "\<forall>t. t \<noteq> st \<longrightarrow> ly_k (V ! il) ! t = ly_k (?L' ! il) ! t \<and> ly_v (V ! il) ! t = ly_v (?L' ! il) ! t"
      using k v by simp
  qed
  have "full_ok (F'\<lparr>kf_layers := V\<rparr>)" using F(2) layer(1) len shape by (auto simp: full_ok_def in_set_conv_nth)
  moreover have "same_shape F (F'\<lparr>kf_layers := V\<rparr>)" using F(3) layer(2) len by (simp add: same_shape_def)
  moreover have "tensors_restored F (F'\<lparr>kf_layers := V\<rparr>) st is js" using layer(3,4) by (simp add: tensors_restored_def)
  moreover have "tensors_restored F (F'\<lparr>kf_layers := V\<rparr>) t ks hs" if t: "t \<noteq> st" "tensors_restored F F' t ks hs" for t ks hs
  proof -
    have "k_row t (V ! il) i = k_row t (?L' ! il) i" "v_rows ?tr ?n t (V ! il) i = v_rows ?tr ?n t (?L' ! il) i"
      if il: "il < length ?L" for il i
      using layer(2,5) [OF il] shape(5) [OF il] t(1) by (simp_all add: k_row_def v_rows_def same_layer_def split: option.split)
    with t(2) show ?thesis by (simp add: tensors_restored_def)
  qed
  ultimately show ?thesis using run by blast
qed

section \<open>The cells of a stream\<close>

lemma used_cells: "j \<in> set (used_cells c) \<longleftrightarrow> j < kv_size c \<and> c_pos c ! j \<noteq> -1" "length (used_cells c) \<le> kv_size c"
  using length_filter_le [of "\<lambda>i. c_pos c ! i \<noteq> -1" "[0..<kv_size c]"] by (auto simp: used_cells_def)

lemma ranges_all:
  assumes "kv_inv c"
  shows "\<exists>rs. cell_ranges hp (-1) c = Some (rs, length (used_cells c)) \<and> range_cells rs = used_cells c \<and>
    (\<forall>(a, b)\<in>set rs. a < b \<and> b \<le> kv_size c)"
  unfolding used_cells_def by (rule cell_ranges_eq) (simp add: save_cell_def kv_reads(3) [OF assms])

definition stream_bytes :: "kv_full \<Rightarrow> nat \<Rightarrow> bytes" where
  "stream_bytes F st = (let js = used_cells (full_cells F st) in put_u32 (length js) @
     (if js = [] then [] else concat (map (cell_bytes (full_hp F) (kf_n_seq_max F) (-1) (full_cells F st)) js) @ data_bytes F st js))"

lemma write_stream_eq:
  assumes F: "full_ok F" "st < hp_n_stream (full_hp F)"
  shows "(do { c \<leftarrow> at (kc_cells (kf_cache F)) st;
        (ranges, cell_count) \<leftarrow> cell_ranges (full_hp F) (-1) c;
        let out = out @ put_u32 cell_count;
        if cell_count = 0 then Some out
        else do { out \<leftarrow> state_write_meta F st ranges (-1) out; state_write_data F st ranges out } }) = Some (out @ stream_bytes F st)"
proof -
  note c = full_okD [OF F]
  from ranges_all [OF c(1), of "full_hp F"] obtain rs where rs: "cell_ranges (full_hp F) (-1) (full_cells F st) = Some (rs, length (used_cells (full_cells F st)))"
    "range_cells rs = used_cells (full_cells F st)" "\<forall>(a, b)\<in>set rs. a < b \<and> b \<le> full_size F" using c(2) by auto
  have n: "kf_n_seq_max F \<le> LLAMA_MAX_SEQ" using F(1) by (simp add: full_ok_def)
  have "foldM (write_cell (full_hp F) (kf_n_seq_max F) (-1) (full_cells F st)) (used_cells (full_cells F st)) out =
      Some (out @ concat (map (cell_bytes (full_hp F) (kf_n_seq_max F) (-1) (full_cells F st)) (used_cells (full_cells F st))))" for out
    by (rule foldM_append_out, rule write_cell_eq [OF c(1) _ _ n]) (simp_all add: used_cells)
  then have "state_write_meta F st rs (-1) out = Some (out @
      concat (map (cell_bytes (full_hp F) (kf_n_seq_max F) (-1) (full_cells F st)) (used_cells (full_cells F st))))" for out
    using c(3) by (simp add: state_write_meta_def foldM_ranges rs(2))
  then show ?thesis using c(3) rs write_data_eq [OF F rs(3)] by (simp add: stream_bytes_def Let_def)
qed

lemma entries_saved:
  assumes F: "full_ok F" "savable F" "st < hp_n_stream (full_hp F)" and j: "j \<in> set (used_cells (full_cells F st))"
  shows "saved_ok (kf_n_seq_max F) (c_pos (full_cells F st) ! j, saved_seqs (-1) (kf_n_seq_max F) (full_cells F st) j, c_ext (full_cells F st) ! j)"
    "(c_pos (full_cells F st) ! j, set (saved_seqs (-1) (kf_n_seq_max F) (full_cells F st) j)) = cells (full_cells F st) ! j"
proof -
  note c = full_okD [OF F(1,3)]
  have u: "j < full_size F" "c_pos (full_cells F st) ! j \<noteq> -1" using j c(2) by (simp_all add: used_cells)
  have s: "c_pos (full_cells F st) ! j \<le> INT32_MAX" "ext_ok (c_ext (full_cells F st) ! j)"
    "\<forall>s\<in>c_seq (full_cells F st) ! j. s < kf_n_seq_max F" using F(2,3) u unfolding savable_def by blast+
  have "0 \<le> c_pos (full_cells F st) ! j" using kv_inv_cell [OF c(1), of j] u c(2) by (simp add: cell_ok_def)
  with s show "saved_ok (kf_n_seq_max F) (c_pos (full_cells F st) ! j, saved_seqs (-1) (kf_n_seq_max F) (full_cells F st) j, c_ext (full_cells F st) ! j)"
    by (auto simp: saved_ok_def saved_seqs_def i32_ok_def INT32_MAX_def)
  have "set (saved_seqs (-1) (kf_n_seq_max F) (full_cells F st) j) = c_seq (full_cells F st) ! j"
    using s(3) by (auto simp: saved_seqs_def)
  then show "(c_pos (full_cells F st) ! j, set (saved_seqs (-1) (kf_n_seq_max F) (full_cells F st) j)) = cells (full_cells F st) ! j"
    using nth_cells [OF c(1), of j] u(1) c(2) by simp
qed

lemma read_stream_eq:
  assumes F: "full_ok F" "full_ok F'" "same_shape F F'" "savable F" "st < hp_n_stream (full_hp F)"
    and empty: "cells (full_cells F' st) = replicate (full_size F) (-1, {})"
    and js: "js = used_cells (full_cells F st)"
  shows "\<exists>c. read_stream F' st (length js) None
      (concat (map (cell_bytes (full_hp F) (kf_n_seq_max F) (-1) (full_cells F st)) js) @ bs) =
    Some (F'\<lparr>kf_cache := kvc_put st c 0 (kf_cache F')\<rparr>, Some (\<lparr>si_s0 = st, si_s1 = st, si_strm = [st], si_idxs = [[0..<length js]]\<rparr>, bs)) \<and>
    full_ok (F'\<lparr>kf_cache := kvc_put st c 0 (kf_cache F')\<rparr>) \<and>
    cells c = map (\<lambda>i. cells (full_cells F st) ! i) js @ replicate (full_size F - length js) (-1, {}) \<and> kv_size c = full_size F \<and>
    (has_cell_ext (full_hp F) \<longrightarrow> (\<forall>m<length js. c_ext c ! m = c_ext (full_cells F st) ! (js ! m)))"
proof -
  let ?c = "full_cells F st" and ?N = "kf_n_seq_max F"
  have shape: "full_hp F' = full_hp F" "kf_n_seq_max F' = ?N" "full_size F' = full_size F"
    "kc_seq_to_stream (kf_cache F') = kc_seq_to_stream (kf_cache F)" using F(3) by (simp_all add: same_shape_def)
  have st': "st < hp_n_stream (full_hp F')" using F(5) shape(1) by simp
  note c = full_okD [OF F(1,5)] and c' = full_okD [OF F(2) st']
  let ?e = "\<lambda>j. (c_pos ?c ! j, saved_seqs (-1) ?N ?c j, c_ext ?c ! j)"
  let ?es = "map ?e js"
  have ok: "\<forall>e\<in>set ?es. saved_ok ?N e" using entries_saved(1) [OF F(1,4,5)] js by auto
  have len: "length js \<le> full_size F" using used_cells(2) [of ?c] c(2) js by simp
  have n: "?N \<le> LLAMA_MAX_SEQ" using F(1) by (simp add: full_ok_def)
  have bytes: "concat (map (cell_bytes (full_hp F) ?N (-1) ?c) js) = concat (map (\<lambda>(p, ids, x). cell_format (full_hp F) p ids x) ?es)"
    by (simp add: comp_def cell_bytes_def [abs_def])
  have "length ?es \<le> full_size F" using len by simp
  from read_cells_eq [OF c'(1) empty this n ok, of "full_hp F" bs] obtain c1 where
    c1: "loopM (read_cell (full_hp F) ?N) [0..<length ?es] (full_cells F' st, concat (map (\<lambda>(p, ids, x). cell_format (full_hp F) p ids x) ?es) @ bs) =
        Some (Some (c1, bs))" "kv_inv c1"
      "cells c1 = map (\<lambda>(p, ids, x). (p, set ids)) ?es @ replicate (full_size F - length ?es) (-1, {})"
      "has_cell_ext (full_hp F) \<longrightarrow> (\<forall>m<length ?es. c_ext c1 ! m = snd (snd (?es ! m)))" by blast
  have "map (\<lambda>(p, ids, x). (p, set ids)) ?es = map (\<lambda>i. cells ?c ! i) js"
    using entries_saved(2) [OF F(1,4,5)] js by simp
  with c1(3) have cells: "cells c1 = map (\<lambda>i. cells ?c ! i) js @ replicate (full_size F - length js) (-1, {})" by simp
  then have size: "kv_size c1 = full_size F" using length_cells [OF c1(2)] len by simp
  have "\<forall>e\<in>set (cells c1). entry_ok (kc_seq_to_stream (kf_cache F')) st e"
  proof
    fix e assume "e \<in> set (cells c1)"
    then have "e = (-1, {}) \<or> (\<exists>j\<in>set js. e = cells ?c ! j)" unfolding cells by (auto split: if_splits)
    moreover have "entry_ok (kc_seq_to_stream (kf_cache F)) st (cells ?c ! j)" if "j \<in> set js" for j
    proof -
      have "j < length (cells ?c)" using that js length_cells [OF c(1)] by (simp add: used_cells)
      then show ?thesis using c(4) unfolding stream_ok_def by simp
    qed
    ultimately show "entry_ok (kc_seq_to_stream (kf_cache F')) st e" unfolding shape(4) by (auto simp: entry_ok_def)
  qed
  moreover have inv': "kvc_inv (kf_cache F')" using F(2) by (simp add: full_ok_def)
  ultimately have "kvc_inv (kvc_put st c1 0 (kf_cache F'))"
    using kvc_inv_put [OF inv' st' c1(2), of 0] size c'(2) shape(3) by simp
  moreover have "kv_size (kc_cells (kvc_put st c1 0 (kf_cache F')) ! 0) = full_size F'"
    using size shape(3) c'(3) by (cases "st = 0") (simp_all add: kvc_put_def)
  ultimately have "full_ok (F'\<lparr>kf_cache := kvc_put st c1 0 (kf_cache F')\<rparr>)" using F(2) by (simp add: full_ok_def kvc_put_def)
  moreover have "read_stream F' st (length js) None (concat (map (cell_bytes (full_hp F) ?N (-1) ?c) js) @ bs) =
    Some (F'\<lparr>kf_cache := kvc_put st c1 0 (kf_cache F')\<rparr>, Some (\<lparr>si_s0 = st, si_s1 = st, si_strm = [st], si_idxs = [[0..<length js]]\<rparr>, bs))"
    using c1(1) c'(2,3) shape len unfolding bytes by (simp add: read_stream_def Let_def)
  ultimately show ?thesis using cells size c1(4) by auto
qed

section \<open>The whole cache\<close>

definition state_bytes :: "kv_full \<Rightarrow> bytes" where
  "state_bytes F = put_u32 (hp_n_stream (full_hp F)) @ concat (map (stream_bytes F) [0..<hp_n_stream (full_hp F)])"

lemma state_write_eq:
  assumes "full_ok F"
  shows "state_write F (-1) = Some (state_bytes F)"
proof -
  have "foldM (\<lambda>s out. do { c \<leftarrow> at (kc_cells (kf_cache F)) s;
        (ranges, cell_count) \<leftarrow> cell_ranges (full_hp F) (-1) c;
        let out = out @ put_u32 cell_count;
        if cell_count = 0 then Some out
        else do { out \<leftarrow> state_write_meta F s ranges (-1) out; state_write_data F s ranges out } })
      [0..<hp_n_stream (full_hp F)] (put_u32 (hp_n_stream (full_hp F))) = Some (state_bytes F)"
    unfolding state_bytes_def by (rule foldM_append_out, rule write_stream_eq [OF assms]) simp
  moreover have "kc_other (kf_cache F) = None" using assms by (simp add: full_ok_def)
  ultimately show ?thesis by (simp add: state_write_def Let_def)
qed

definition restored_below :: "kv_full \<Rightarrow> nat \<Rightarrow> kv_full \<Rightarrow> bool" where
  \<comment> \<open>the streams below \<open>m\<close> are restored, the others empty\<close>
  "restored_below F m F' \<longleftrightarrow> full_ok F' \<and> same_shape F F' \<and> (\<forall>st<m. stream_restored F F' st) \<and>
     (\<forall>st<hp_n_stream (full_hp F). m \<le> st \<longrightarrow> cells (full_cells F' st) = replicate (full_size F) (-1, {}) \<and> kc_heads (kf_cache F') ! st = 0)"

lemma same_shape_cache:
  assumes "same_shape F F'" "kc_hp k = full_hp F'" "kc_seq_to_stream k = kc_seq_to_stream (kf_cache F')"
    "kv_size (kc_cells k ! 0) = full_size F'"
  shows "same_shape F (F'\<lparr>kf_cache := k\<rparr>)"
  using assms by (simp add: same_shape_def)

lemma read_one_stream:
  assumes F: "full_ok F" "savable F" and m: "m < hp_n_stream (full_hp F)" and R: "restored_below F m F'" and out: "m < length out"
  shows "\<exists>F''. restored_below F (Suc m) F'' \<and> (\<exists>out'. length out' = length out \<and>
    read_streams (-1) None (m # ss) F' out (stream_bytes F m @ bs) = read_streams (-1) None ss F'' out' bs)"
proof -
  let ?c = "full_cells F m" and ?ns = "hp_n_stream (full_hp F)"
  let ?js = "used_cells ?c"
  note c = full_okD [OF F(1) m]
  have R': "full_ok F'" "same_shape F F'" "\<And>st. st < m \<Longrightarrow> stream_restored F F' st"
    "\<And>st. st < ?ns \<Longrightarrow> m \<le> st \<Longrightarrow> cells (full_cells F' st) = replicate (full_size F) (-1, {}) \<and> kc_heads (kf_cache F') ! st = 0"
    using R by (simp_all add: restored_below_def)
  have len: "length ?js \<le> full_size F" using used_cells(2) [of ?c] c(2) by simp
  then have n32: "length ?js < 2 ^ 32" using F(1) by (simp add: full_ok_def)
  show ?thesis
  proof (cases "?js = []")
    case True
    have "stream_restored F F' m" using R'(4) [OF m] True c(2) by (simp add: stream_restored_def Let_def tensors_restored_def)
    then have "restored_below F (Suc m) F'" using R' by (simp add: restored_below_def less_Suc_eq)
    moreover have "read_streams (-1) None (m # ss) F' out (stream_bytes F m @ bs) = read_streams (-1) None ss F' out bs"
      using True u32.get_put [of 0 bs] by (simp add: stream_bytes_def Let_def)
    ultimately show ?thesis by blast
  next
    case False
    let ?si = "\<lparr>si_s0 = m, si_s1 = m, si_strm = [m], si_idxs = [[0..<length ?js]]\<rparr>"
    have empty: "cells (full_cells F' m) = replicate (full_size F) (-1, {})" using R'(4) [OF m] by simp
    from read_stream_eq [OF F(1) R'(1,2) F(2) m empty refl, of "data_bytes F m ?js @ bs"] obtain c1 where
      c1: "read_stream F' m (length ?js) None
        (concat (map (cell_bytes (full_hp F) (kf_n_seq_max F) (-1) ?c) ?js) @ data_bytes F m ?js @ bs) =
        Some (F'\<lparr>kf_cache := kvc_put m c1 0 (kf_cache F')\<rparr>, Some (?si, data_bytes F m ?js @ bs))"
      "full_ok (F'\<lparr>kf_cache := kvc_put m c1 0 (kf_cache F')\<rparr>)"
      "cells c1 = map (\<lambda>i. cells ?c ! i) ?js @ replicate (full_size F - length ?js) (-1, {})" "kv_size c1 = full_size F"
      "has_cell_ext (full_hp F) \<longrightarrow> (\<forall>l<length ?js. c_ext c1 ! l = c_ext ?c ! (?js ! l))" by blast
    let ?F = "F'\<lparr>kf_cache := kvc_put m c1 0 (kf_cache F')\<rparr>"
    have m': "m < hp_n_stream (full_hp F')" using m R'(2) by (simp add: same_shape_def)
    note c' = full_okD [OF R'(1) m']
    have heads: "length (kc_heads (kf_cache F')) = ?ns" using R'(1,2) kvc_invD(3) [of "kf_cache F'"] by (simp add: full_ok_def same_shape_def)
    have sizes: "full_size F' = full_size F" using R'(2) by (simp add: same_shape_def)
    have shape: "same_shape F ?F"
      using c1(4) c'(3) sizes by (intro same_shape_cache [OF R'(2)]) (auto simp: kvc_put_def nth_list_update)
    have "slot_cells ?si [0..<length ?js] (full_size F)" "length [0..<length ?js] = length ?js" "\<forall>j\<in>set ?js. j < full_size F"
      using len c(2) by (auto simp: slot_cells_def used_cells)
    from read_data_eq [OF F(1) c1(2) shape m this len, of bs] obtain ls where
      ls: "state_read_data ?F m (length ?js) ?si (data_bytes F m ?js @ bs) = Some (Some (?F\<lparr>kf_layers := ls\<rparr>, bs))"
        "full_ok (?F\<lparr>kf_layers := ls\<rparr>)" "same_shape F (?F\<lparr>kf_layers := ls\<rparr>)"
        "tensors_restored F (?F\<lparr>kf_layers := ls\<rparr>) m [0..<length ?js] ?js"
        "\<And>t is js. t \<noteq> m \<Longrightarrow> tensors_restored F ?F t is js \<Longrightarrow> tensors_restored F (?F\<lparr>kf_layers := ls\<rparr>) t is js" by blast
    let ?F2 = "?F\<lparr>kf_layers := ls\<rparr>"
    have at: "full_cells ?F2 m = c1" "kc_heads (kf_cache ?F2) ! m = 0"
      "\<And>st. st \<noteq> m \<Longrightarrow> full_cells ?F2 st = full_cells F' st \<and> kc_heads (kf_cache ?F2) ! st = kc_heads (kf_cache F') ! st"
      using c'(3) heads m by (simp_all add: kvc_put_def)
    have "stream_restored F ?F2 m" unfolding stream_restored_def Let_def at using c1(3,5) c(2) ls(4) by simp
    moreover have "stream_restored F ?F2 st" if "st < m" for st
    proof -
      have "tensors_restored F ?F st is js" if "tensors_restored F F' st is js" for "is" js
        using that by (simp add: tensors_restored_def)
      with ls(5) [of st] at(3) [of st] R'(3) [OF that] that show ?thesis by (simp add: stream_restored_def Let_def)
    qed
    ultimately have "restored_below F (Suc m) ?F2"
      using ls(2,3) R'(4) at(3) by (simp add: restored_below_def less_Suc_eq)
    moreover have "read_streams (-1) None (m # ss) F' out (stream_bytes F m @ bs) = read_streams (-1) None ss ?F2 (out[m := ?si]) bs"
      using False n32 c1(1) ls(1) by (simp add: stream_bytes_def Let_def u32.get_put state_read_meta_def reading_def)
    ultimately show ?thesis by (intro exI [of _ ?F2] conjI exI [of _ "out[m := ?si]"]) simp_all
  qed
qed

lemma read_all_streams:
  assumes F: "full_ok F" "savable F" and d: "d \<le> hp_n_stream (full_hp F)" "restored_below F (hp_n_stream (full_hp F) - d) F'"
    and out: "length out = hp_n_stream (full_hp F)"
  shows "\<exists>F'' out'. read_streams (-1) None [hp_n_stream (full_hp F) - d..<hp_n_stream (full_hp F)] F' out
      (concat (map (stream_bytes F) [hp_n_stream (full_hp F) - d..<hp_n_stream (full_hp F)]) @ bs) = Some (Inr (F'', out', bs)) \<and>
    restored_below F (hp_n_stream (full_hp F)) F''"
  using d out
proof (induction d arbitrary: F' out)
  case (Suc d)
  let ?ns = "hp_n_stream (full_hp F)"
  have split: "[?ns - Suc d..<?ns] = (?ns - Suc d) # [?ns - d..<?ns]" using Suc.prems(1) by (simp add: upt_conv_Cons Suc_diff_Suc)
  have m: "?ns - Suc d < ?ns" "Suc (?ns - Suc d) = ?ns - d" using Suc.prems(1) by simp_all
  have "?ns - Suc d < length out" using m(1) Suc.prems(3) by simp
  from read_one_stream [OF F m(1) Suc.prems(2) this, of "[?ns - d..<?ns]" "concat (map (stream_bytes F) [?ns - d..<?ns]) @ bs", unfolded m(2)]
  obtain F1 out1 where
    s: "restored_below F (?ns - d) F1" "length out1 = length out"
      "read_streams (-1) None ((?ns - Suc d) # [?ns - d..<?ns]) F' out (stream_bytes F (?ns - Suc d) @ concat (map (stream_bytes F) [?ns - d..<?ns]) @ bs) =
       read_streams (-1) None [?ns - d..<?ns] F1 out1 (concat (map (stream_bytes F) [?ns - d..<?ns]) @ bs)" by blast
  have "d \<le> ?ns" "length out1 = ?ns" using Suc.prems(1,3) s(2) by simp_all
  from Suc.IH [OF this(1) s(1) this(2)] show ?case unfolding split list.map concat.simps append_assoc s(3) .
qed auto

lemma clear_full_ok:
  assumes "full_ok F'" "same_shape F F'"
  shows "restored_below F 0 (clear_full F')"
proof -
  let ?F = "clear_full F'" and ?k = "kf_cache F'"
  have inv: "kvc_inv ?k" "kc_other ?k = None" using assms(1) by (simp_all add: full_ok_def)
  from kvc_clear_spec [OF inv(1)] have cl: "kvc_inv (kvc_clear ?k)" "same_config ?k (kvc_clear ?k)"
    "kvc_contents (kvc_clear ?k) = map (map (\<lambda>_. (-1, {}))) (kvc_contents ?k)" by simp_all
  have ns: "hp_n_stream (full_hp F') = hp_n_stream (full_hp F)" "full_size F' = full_size F" using assms(2) by (simp_all add: same_shape_def)
  have len: "length (kc_cells ?k) = hp_n_stream (full_hp F')" "length (kc_heads ?k) = hp_n_stream (full_hp F')" "0 < hp_n_stream (full_hp F')"
    using kvc_invD(1-3) [OF inv(1)] by simp_all
  have cells: "cells (full_cells ?F st) = replicate (full_size F) (-1, {})" if "st < hp_n_stream (full_hp F)" for st
  proof -
    have "kv_inv (full_cells F' st)" "kv_size (full_cells F' st) = full_size F" using full_okD [OF assms(1), of st] that ns by simp_all
    with kv_reset_spec [of "full_cells F' st"] show ?thesis using that len ns by (simp add: clear_full_def kvc_clear_def)
  qed
  have size: "full_size ?F = full_size F'" using len by (simp add: clear_full_def kvc_clear_def kv_reset_def kv_size_def)
  let ?z = "\<lambda>l. l\<lparr>ly_k := map (map (\<lambda>_. 0)) (ly_k l), ly_v := map (map_option (map (\<lambda>_. 0))) (ly_v l)\<rparr>"
  have layer: "layer_ok tr n ns (?z l)" if "layer_ok tr n ns l" for tr n ns l
  proof -
    have "\<exists>w. Some w \<in> set (ly_v l) \<and> length w = length v" if "Some v \<in> set (ly_v (?z l))" for v :: bytes
      using that by (auto simp: map_option_case split: option.splits)
    then have "\<forall>v. Some v \<in> set (ly_v (?z l)) \<longrightarrow> length v = (if tr then ly_n_embd_v_gqa l * n * ly_v_el l else n * ly_v_row l)"
      using that unfolding layer_ok_def by metis
    moreover have "\<forall>k\<in>set (ly_k (?z l)). length k = n * ly_k_row l" using that by (auto simp: layer_ok_def)
    ultimately show ?thesis using that by (simp add: layer_ok_def del: set_map)
  qed
  have "full_ok ?F"
    using assms(1) cl(1,2) size layer by (auto simp: full_ok_def clear_full_def same_config_def)
  moreover have "same_layer l (?z l')" if "same_layer l l'" for l l'
    using that by (simp add: same_layer_def comp_def)
  then have "same_shape F ?F"
    using assms(2) cl(2) size by (auto simp: same_shape_def clear_full_def same_config_def)
  moreover have "kc_heads (kf_cache ?F) ! st = 0" if "st < hp_n_stream (full_hp F)" for st
    using that len ns by (simp add: clear_full_def kvc_clear_def)
  ultimately show ?thesis using cells by (simp add: restored_below_def)
qed

lemma state_roundtrip:
  assumes "full_ok F" "savable F" "full_ok F'" "same_shape F F'"
  shows "\<exists>F''. state_read F' (-1) (state_bytes F @ bs) = Some (Inr (F'', bs)) \<and> restored_below F (hp_n_stream (full_hp F)) F''"
proof -
  let ?ns = "hp_n_stream (full_hp F)"
  have ns: "hp_n_stream (full_hp F') = ?ns" "kc_other (kf_cache F') = None" "?ns < 2 ^ 32"
    using assms(1,3,4) by (simp_all add: same_shape_def full_ok_def)
  have R: "restored_below F (?ns - ?ns) (clear_full F')" using clear_full_ok [OF assms(3,4)] by simp
  have "length (replicate ?ns slot_none) = ?ns" by simp
  from read_all_streams [OF assms(1,2) order_refl R this, of bs] obtain F'' out' where
    F'': "read_streams (-1) None [0..<?ns] (clear_full F') (replicate ?ns slot_none) (concat (map (stream_bytes F) [0..<?ns]) @ bs) =
      Some (Inr (F'', out', bs))" "restored_below F ?ns F''" by auto
  then have "state_read_sinfo F' (-1) None (state_bytes F @ bs) = Some (Inr (F'', out', bs))"
    using ns by (simp add: state_read_sinfo_def Let_def state_bytes_def u32.get_put)
  with F''(2) show ?thesis by (simp add: state_read_def)
qed

end
