(* ===== verification/KvStateProps.thy ===== *)
theory KvStateProps
  imports KvStateWhole KvCacheProps
begin

text \<open>
  The property of saved caches: what \<open>state_write\<close> writes, \<open>state_read\<close> restores. Two facts on the side show
  where the code does not do so.
\<close>

section \<open>A cache to save\<close>

definition placed_cells :: "kv_cache option" where
  \<comment> \<open>two tokens in cells 0 and 1, of which the first is removed again\<close>
  "placed_cells = do {
     si \<leftarrow> find_slot demo_cache demo_ub False;
     k \<leftarrow> apply_ubatch si demo_ub demo_cache;
     kvc_seq_rm 0 0 1 k
   }"

definition demo_token :: kv_cell_ext where
  "demo_token = \<lparr>ext_x = 0, ext_y = 0, ext_tok = 8\<rparr>"

lemma placed_run:
  "map_option (\<lambda>k. map (\<lambda>c. (c_pos c, c_seq c, c_ext c)) (kc_cells k)) placed_cells =
   Some [([-1, 1, -1, -1], [{}, {0}, {}, {}], [ext_default, demo_token, ext_default, ext_default])]"
  by code_simp

lemma placed_config: "map_option (\<lambda>k. (kc_hp k, kc_seq_to_stream k)) placed_cells = Some (demo_hp, replicate LLAMA_MAX_SEQ 0)"
  by code_simp

definition placed_cache :: kv_cache where
  "placed_cache = the placed_cells"

lemma placed_Some: "placed_cells = Some placed_cache"
  unfolding placed_cache_def using placed_config by (metis option.collapse option.distinct(1) option.map_disc_iff)

lemma placed_facts: "kc_hp placed_cache = demo_hp" "kc_seq_to_stream placed_cache = replicate LLAMA_MAX_SEQ 0"
  "map (\<lambda>c. (c_pos c, c_seq c, c_ext c)) (kc_cells placed_cache) =
     [([-1, 1, -1, -1], [{}, {0}, {}, {}], [ext_default, demo_token, ext_default, ext_default])]"
  using placed_run placed_config by (simp_all add: placed_Some)

lemma placed_reachable: "kvc_reachable placed_cache"
proof -
  from placed_Some obtain si k where si: "find_slot demo_cache demo_ub False = Some si"
    and k: "apply_ubatch si demo_ub demo_cache = Some k" "kvc_seq_rm 0 0 1 k = Some placed_cache"
    by (auto simp: placed_cells_def Option.bind_eq_Some_conv)
  have "\<not> si_empty si" using demo_find si by auto
  note r = kvc_reachable.place [OF demo_reachable demo_ready si this k(1)]
  have "kvc_pre (KSeqRm 0 0 1) k" using kvc_invD(5) kvc_reachable_own [OF r] by (simp add: valid_seq_def)
  from kvc_reachable.operate [OF r this] k(2) show ?thesis by simp
qed

definition demo_layer :: kv_layer where
  \<comment> \<open>keys of one byte, values of two elements of one byte, transposed\<close>
  "demo_layer = \<lparr>ly_k_type = 8, ly_k_row = 1, ly_k = [[10, 11, 12, 13]], ly_v_type = 8, ly_v_row = 2, ly_v_el = 1,
     ly_n_embd_v_gqa = 2, ly_v = [Some [20, 21, 22, 23, 24, 25, 26, 27]]\<rparr>"

definition demo_full :: "kv_cache \<Rightarrow> kv_full" where
  "demo_full k = \<lparr>kf_cache = k, kf_layers = [demo_layer], kf_v_trans = True, kf_n_seq_max = 1\<rparr>"

lemma demo_full_ok:
  assumes "kvc_reachable k" "kc_hp k = demo_hp" "kv_size (kc_cells k ! 0) = 4"
  shows "full_ok (demo_full k)"
  using kvc_reachable_own [OF assms(1)] assms(2,3)
  by (simp add: full_ok_def demo_full_def demo_hp_def LLAMA_MAX_SEQ_def layer_ok_def demo_layer_def i32_ok_def)

lemma placed_cells_eq: "c_pos (kc_cells placed_cache ! 0) = [-1, 1, -1, -1]" "c_seq (kc_cells placed_cache ! 0) = [{}, {0}, {}, {}]"
  "c_ext (kc_cells placed_cache ! 0) = [ext_default, demo_token, ext_default, ext_default]"
  using placed_facts(3) by (cases "kc_cells placed_cache"; simp)+

lemma placed_savable: "savable (demo_full placed_cache)"
  by (auto simp: savable_def demo_full_def placed_facts demo_hp_def placed_cells_eq kv_size_def less_Suc_eq numeral_eq_Suc
      INT32_MAX_def ext_ok_def i32_ok_def demo_token_def)

section \<open>What is saved is restored\<close>

lemma restored_positions:
  assumes "full_ok F" "full_ok F'" "same_shape F F'" "\<forall>st<hp_n_stream (full_hp F). stream_restored F F' st"
    and s: "s < length (kc_seq_to_stream (kf_cache F))"
  shows "kvc_positions (kf_cache F') s = kvc_positions (kf_cache F) s"
proof -
  define st where "st = kc_seq_to_stream (kf_cache F) ! s"
  have st: "st < hp_n_stream (full_hp F)" using assms(1) s kvc_invD(6) by (simp add: full_ok_def st_def)
  let ?c = "full_cells F st"
  note c = full_okD [OF assms(1) st]
  have "cells (full_cells F' st) = map (\<lambda>i. cells ?c ! i) (used_cells ?c) @ replicate (kv_size ?c - length (used_cells ?c)) (-1, {})"
    using assms(4) st by (simp add: stream_restored_def Let_def)
  then have "set (cells (full_cells F' st)) - {(-1, {})} = (\<lambda>i. cells ?c ! i) ` set (used_cells ?c) - {(-1, {})}" by auto
  also have "\<dots> = set (cells ?c) - {(-1, {})}"
  proof -
    have "cells ?c ! i = (-1, {})" if "i < kv_size ?c" "c_pos ?c ! i = -1" for i
      using kv_inv_cell [OF c(1) that(1)] that nth_cells [OF c(1) that(1)] by (simp add: cell_ok_def)
    then have "(\<lambda>i. cells ?c ! i) ` {i. i < kv_size ?c \<and> c_pos ?c ! i = -1} \<subseteq> {(-1, {})}" by auto
    moreover have "set (cells ?c) = (\<lambda>i. cells ?c ! i) ` {..<kv_size ?c}" using length_cells [OF c(1)] by (auto simp: set_conv_nth)
    moreover have "{..<kv_size ?c} = set (used_cells ?c) \<union> {i. i < kv_size ?c \<and> c_pos ?c ! i = -1}" by (auto simp: used_cells)
    ultimately show ?thesis by (simp only: image_Un) blast
  qed
  finally have "set (cells (full_cells F' st)) - {(-1, {})} = set (cells ?c) - {(-1, {})}" .
  then have "(p, S) \<in> set (cells (full_cells F' st)) \<longleftrightarrow> (p, S) \<in> set (cells ?c)" if "s \<in> S" for p S using that by blast
  moreover have "kc_seq_to_stream (kf_cache F') = kc_seq_to_stream (kf_cache F)" using assms(3) by (simp add: same_shape_def)
  ultimately show ?thesis unfolding kvc_positions_def st_def [symmetric] by (auto simp: seq_positions_def st_def)
qed

text \<open>C24. Saving and restoring the whole cache: \<open>state_write\<close> writes every well-formed cache whose numbers fit their fields and whose sequences are below \<open>n_seq_max\<close>, and
  \<open>state_read\<close> of the file into a cache of the same shape (layers, types, sizes, streams), whatever that holds, succeeds,
  reads exactly the file, and leaves a well-formed cache with, in every stream, the used cells of the saved one in their
  order from cell 0 on: their positions, sequences and extra data (where the cache has any), and in every layer their keys and values, whether V is
  transposed or not. Every sequence has the positions it had. (A transposed V must not exceed \<open>2 ^ 32\<close> bytes per stream, see
  \<open>v_offset_wraps\<close>.)\<close>

theorem cache_restored:
  assumes "full_ok F" "savable F" "full_ok F'" "same_shape F F'"
  shows "\<exists>out F''. state_write F (-1) = Some out \<and> state_read F' (-1) (out @ rest) = Some (Inr (F'', rest)) \<and>
    full_ok F'' \<and> same_shape F F'' \<and> (\<forall>st<hp_n_stream (full_hp F). stream_restored F F'' st) \<and>
    (\<forall>s<length (kc_seq_to_stream (kf_cache F)). kvc_positions (kf_cache F'') s = kvc_positions (kf_cache F) s)"
proof -
  from state_roundtrip [OF assms, of rest] obtain F'' where
    r: "state_read F' (-1) (state_bytes F @ rest) = Some (Inr (F'', rest))" "restored_below F (hp_n_stream (full_hp F)) F''" by blast
  then have "full_ok F''" "same_shape F F''" "\<forall>st<hp_n_stream (full_hp F). stream_restored F F'' st"
    by (simp_all add: restored_below_def)
  with restored_positions [OF assms(1)] r(1) state_write_eq [OF assms(1)] show ?thesis by blast
qed

theorem cache_restored_witness:
  "\<exists>out F''. state_write (demo_full placed_cache) (-1) = Some out \<and>
    state_read (demo_full demo_cache) (-1) (out @ [1, 2, 3]) = Some (Inr (F'', [1, 2, 3])) \<and>
    kvc_positions (kf_cache F'') 0 = {1} \<and> cells (kc_cells (kf_cache F'') ! 0) = [(1, {0}), (-1, {}), (-1, {}), (-1, {})]"
proof -
  have size: "kv_size (kc_cells placed_cache ! 0) = 4" "kv_size (kc_cells demo_cache ! 0) = 4"
    by (simp_all add: kv_size_def placed_cells_eq kv_resize_new_lists)
  have ok: "full_ok (demo_full placed_cache)" "full_ok (demo_full demo_cache)"
    by (rule demo_full_ok [OF placed_reachable placed_facts(1) size(1)], rule demo_full_ok [OF demo_reachable _ size(2)]) simp
  have cells: "cells (kc_cells placed_cache ! 0) = [(-1, {}), (1, {0}), (-1, {}), (-1, {})]"
    by (simp add: cells_def placed_cells_eq)
  have shape: "same_shape (demo_full placed_cache) (demo_full demo_cache)"
    using size by (simp add: same_shape_def demo_full_def placed_facts same_layer_def) (simp add: demo_cache_def)
  have used: "used_cells (kc_cells placed_cache ! 0) = [1]" by (simp add: used_cells_def size placed_cells_eq upt_rec)
  from cache_restored [OF ok(1) placed_savable ok(2) shape, of "[1, 2, 3]"] obtain out F'' where
    r: "state_write (demo_full placed_cache) (-1) = Some out"
      "state_read (demo_full demo_cache) (-1) (out @ [1, 2, 3]) = Some (Inr (F'', [1, 2, 3]))"
      "stream_restored (demo_full placed_cache) F'' 0" "kvc_positions (kf_cache F'') 0 = kvc_positions placed_cache 0"
    by (auto simp: demo_full_def placed_facts demo_hp_def LLAMA_MAX_SEQ_def)
  have "cells (kc_cells (kf_cache F'') ! 0) = [(1, {0}), (-1, {}), (-1, {}), (-1, {})]"
    using r(3) by (simp add: stream_restored_def Let_def demo_full_def used cells size numeral_eq_Suc)
  moreover have "kvc_positions placed_cache 0 = {1}"
    by (auto simp: kvc_positions_def placed_facts LLAMA_MAX_SEQ_def cells seq_positions_def)
  ultimately show ?thesis using r by auto
qed

section \<open>Where it is not\<close>

text \<open>In a transposed V of \<open>2 ^ 32\<close> bytes or more \<open>state_write_data\<close> writes other elements than those of the cells: with a
  million cells and elements of two bytes, row 2048 is read from the place of row 0.\<close>

lemma v_offset_wraps: "v_src_offset (2 ^ 20) 2 2048 a = v_src_offset (2 ^ 20) 2 0 a"
  by (simp add: v_src_offset_def add_mult_distrib mod_add_right_eq [symmetric])

text \<open>The state of a sequence without cells does not remove the cells the destination holds, as the state of any other does.\<close>

lemma empty_state_keeps:
  assumes "kc_other (kf_cache F) = None" "hp_n_stream (full_hp F) = 1" "0 \<le> dest" "nat dest < length (kc_seq_to_stream (kf_cache F))"
  shows "state_read F dest (put_u32 1 @ put_u32 0 @ rest) = Some (Inr (F, rest))"
  using assms by (auto simp: state_read_def state_read_sinfo_def Let_def u32.get_put)

end
