(* ===== verification/AccessControl.thy ===== *)
theory AccessControl
  imports Prelude "HOL-Library.Word"
begin

text \<open>
  The access policy that the server enforces on every request:
  \<open>llama-server/tools/server/openloader-access-control.cpp\<close> (the class
  \<open>openloader_access_control\<close> and its helpers) and the pre-routing handler of
  \<open>server-http.cpp\<close> that calls it. A \<open>std::string\<close> is a \<open>string\<close> of bytes.
  What the code takes from outside (\<open>inet_pton\<close>, the SHA-256 of \<open>vendor/hash\<close>, the JSON
  text parser of \<open>vendor/nlohmann\<close>) is the parameter \<open>platform\<close>; the part of
  \<open>common_json\<close> that is used is written over the datatype \<open>json\<close>.
  A C++ exception is \<open>None\<close> in the matching functions and \<open>Inl\<close> while a policy is loaded.
\<close>

unbundle bit_operations_syntax

section \<open>Characters and strings\<close>

type_synonym byte = "8 word"

definition is_space :: "char \<Rightarrow> bool" where
  "is_space c \<longleftrightarrow> (let n = (of_char c :: nat) in n = 32 \<or> (9 \<le> n \<and> n \<le> 13))"

definition is_digit :: "char \<Rightarrow> bool" where
  "is_digit c \<longleftrightarrow> (let n = (of_char c :: nat) in 48 \<le> n \<and> n \<le> 57)"

definition to_lower :: "char \<Rightarrow> char" where
  "to_lower c = (let n = (of_char c :: nat) in if 65 \<le> n \<and> n \<le> 90 then char_of (n + 32) else c)"

definition trim :: "string \<Rightarrow> string" where
  "trim s = rev (dropWhile is_space (rev (dropWhile is_space s)))"

definition lowercase :: "string \<Rightarrow> string" where
  "lowercase s = map to_lower s"

fun find_char :: "char \<Rightarrow> string \<Rightarrow> nat option" where
  "find_char c [] = None"
| "find_char c (x # xs) = (if x = c then Some 0 else map_option Suc (find_char c xs))"

definition rfind_char :: "char \<Rightarrow> string \<Rightarrow> nat option" where
  "rfind_char c s = map_option (\<lambda>k. length s - 1 - k) (find_char c (rev s))"

definition c_str :: "string \<Rightarrow> string" where
  \<comment> \<open>what a C function sees of \<open>value.c_str()\<close>\<close>
  "c_str s = takeWhile (\<lambda>c. c \<noteq> CHR 0x00) s"

definition stoi :: "string \<Rightarrow> int option" where
  \<comment> \<open>\<open>std::stoi\<close> on a string of digits; \<open>None\<close> is \<open>std::out_of_range\<close>\<close>
  "stoi s = (let v = foldl (\<lambda>a c. 10 * a + (int (of_char c) - 48)) 0 s
             in if v \<le> INT32_MAX then Some v else None)"

section \<open>Parsed addresses\<close>

datatype family = AF_NONE | AF_INET | AF_INET6

record parsed_ip =
  ip_family :: family
  ip_bytes :: "byte list"
  ip_size :: nat

text \<open>
  Parsed JSON values, as the vendored library represents them. A floating-point number is kept
  as its truncation towards zero, which is all that the code reads of it (by \<open>get<int>\<close>).
\<close>

datatype json =
    JNull
  | JBool bool
  | JInt int
  | JFloat int
  | JStr string
  | JArr "json list"
  | JObj "(string \<times> json) list"

text \<open>The functions that are not part of the repository's own code.\<close>

record platform =
  pton4 :: "string \<Rightarrow> byte list option"
  pton6 :: "string \<Rightarrow> byte list option"
  sha256_hex :: "string \<Rightarrow> string"
  json_parse :: "string \<Rightarrow> json option"
  wild_int :: "int \<Rightarrow> int"  \<comment> \<open>what a conversion to \<open>int\<close> gives for a double outside its range, which C++ leaves undefined\<close>

definition address_without_zone :: "string \<Rightarrow> string" where
  "address_without_zone value =
     (let value = trim value;
          value = (if length value \<ge> 2 \<and> hd value = CHR ''['' \<and> last value = CHR '']''
                   then take (length value - 2) (drop 1 value) else value)
      in case rfind_char (CHR ''%'') value of None \<Rightarrow> value | Some zone \<Rightarrow> take zone value)"

definition parse_ip_address :: "platform \<Rightarrow> string \<Rightarrow> parsed_ip option" where
  "parse_ip_address pf input =
     (let value = address_without_zone input in
      case pton4 pf (c_str value) of
        Some b \<Rightarrow> Some \<lparr>ip_family = AF_INET, ip_bytes = b @ replicate 12 0, ip_size = 4\<rparr>
      | None \<Rightarrow>
        (case pton6 pf (c_str value) of
           None \<Rightarrow> None
         | Some b \<Rightarrow>
             if list_all (\<lambda>x. x = 0) (take 10 b) \<and> b ! 10 = 0xff \<and> b ! 11 = 0xff
             then Some \<lparr>ip_family = AF_INET, ip_bytes = take 4 (drop 12 b) @ replicate 12 0, ip_size = 4\<rparr>
             else Some \<lparr>ip_family = AF_INET6, ip_bytes = b, ip_size = 16\<rparr>))"

definition same_ip :: "parsed_ip \<Rightarrow> parsed_ip \<Rightarrow> bool" where
  "same_ip l r \<longleftrightarrow> ip_family l = ip_family r \<and> ip_size l = ip_size r \<and>
     take (ip_size l) (ip_bytes l) = take (ip_size l) (ip_bytes r)"

section \<open>Matching an address against a pattern\<close>

definition prefix_mask :: "nat \<Rightarrow> byte" where
  "prefix_mask remaining = word_of_int (0xff * 2 ^ (8 - remaining))"

definition matches_cidr :: "platform \<Rightarrow> parsed_ip \<Rightarrow> string \<Rightarrow> bool option" where
  "matches_cidr pf remote pattern =
     (case find_char (CHR ''/'') pattern of
        None \<Rightarrow> Some False
      | Some slash \<Rightarrow>
        (case parse_ip_address pf (take slash pattern) of
           None \<Rightarrow> Some False
         | Some network \<Rightarrow>
             if ip_family network \<noteq> ip_family remote then Some False
             else (let prefix_text = drop (slash + 1) pattern in
               if prefix_text = [] \<or> \<not> list_all is_digit prefix_text then Some False
               else do {
                 prefix \<leftarrow> stoi prefix_text;
                 let maximum = int (ip_size remote * 8);
                 if prefix < 0 \<or> prefix > maximum then Some False
                 else (let full_bytes = nat prefix div 8; remaining_bits = nat prefix mod 8 in
                   if take full_bytes (ip_bytes remote) \<noteq> take full_bytes (ip_bytes network) then Some False
                   else if remaining_bits = 0 then Some True
                   else let mask = prefix_mask remaining_bits in
                     Some (ip_bytes remote ! full_bytes AND mask = ip_bytes network ! full_bytes AND mask))
               })))"

text \<open>The two-index loop of \<open>wildcard_match\<close>, with the last \<open>*\<close> seen and the value index saved there.\<close>

partial_function (option) wildcard_loop ::
  "string \<Rightarrow> string \<Rightarrow> nat \<Rightarrow> nat \<Rightarrow> nat option \<Rightarrow> nat \<Rightarrow> bool option" where
  "wildcard_loop v p val_i pat_i wi wvi =
     (if val_i < length v then
        if pat_i < length p \<and> p ! pat_i = v ! val_i then wildcard_loop v p (val_i + 1) (pat_i + 1) wi wvi
        else if pat_i < length p \<and> p ! pat_i = CHR ''*'' then wildcard_loop v p val_i (pat_i + 1) (Some pat_i) val_i
        else (case wi of
                Some k \<Rightarrow> wildcard_loop v p (wvi + 1) (k + 1) wi (wvi + 1)
              | None \<Rightarrow> Some False)
      else Some (pat_i + length (takeWhile (\<lambda>c. c = CHR ''*'') (drop pat_i p)) = length p))"

definition wildcard_match :: "string \<Rightarrow> string \<Rightarrow> bool option" where
  "wildcard_match value pattern = wildcard_loop value pattern 0 0 None 0"

section \<open>Validating a policy\<close>

definition is_hex_lower_upper :: "char \<Rightarrow> bool" where
  "is_hex_lower_upper c \<longleftrightarrow> is_digit c \<or>
     (let n = (of_char c :: nat) in (97 \<le> n \<and> n \<le> 102) \<or> (65 \<le> n \<and> n \<le> 70))"

definition is_valid_hash :: "string \<Rightarrow> bool" where
  "is_valid_hash value \<longleftrightarrow> length value = 64 \<and> list_all is_hex_lower_upper value"

definition is_valid_wildcard_pattern :: "string \<Rightarrow> bool" where
  "is_valid_wildcard_pattern value \<longleftrightarrow> value \<noteq> [] \<and> length value \<le> 128 \<and>
     list_all (\<lambda>c. is_hex_lower_upper c \<or> c = CHR '':'' \<or> c = CHR ''.'' \<or> c = CHR ''*'') value"

definition validate_pattern :: "platform \<Rightarrow> string \<Rightarrow> bool option" where
  "validate_pattern pf value =
     (if value = ''*'' then Some True
      else case find_char (CHR ''/'') value of
        Some slash \<Rightarrow>
          (case parse_ip_address pf (take slash value) of
             None \<Rightarrow> Some False
           | Some ip \<Rightarrow>
             (let prefix_text = drop (slash + 1) value in
              if prefix_text = [] \<or> \<not> list_all is_digit prefix_text then Some False
              else do { prefix \<leftarrow> stoi prefix_text; Some (prefix \<ge> 0 \<and> prefix \<le> int (ip_size ip * 8)) }))
      | None \<Rightarrow>
          if find_char (CHR ''*'') value \<noteq> None then Some (is_valid_wildcard_pattern value)
          else Some (parse_ip_address pf value \<noteq> None))"

fun all_of :: "('a \<Rightarrow> bool option) \<Rightarrow> 'a list \<Rightarrow> bool option" where
  "all_of f [] = Some True"
| "all_of f (x # xs) = do { b \<leftarrow> f x; if b then all_of f xs else Some False }"

definition constant_time_equal :: "string \<Rightarrow> string \<Rightarrow> bool" where
  "constant_time_equal lhs rhs =
     (if length lhs \<noteq> length rhs then False
      else foldl (\<lambda>(difference :: 32 word) i.
             difference OR (word_of_nat (of_char (lhs ! i)) XOR word_of_nat (of_char (rhs ! i))))
           0 [0..<length lhs] = 0)"

definition key_allowed :: "platform \<Rightarrow> string \<Rightarrow> string list \<Rightarrow> bool" where
  "key_allowed pf key hashes =
     (let digest = sha256_hex pf key
      in foldl (\<lambda>matched expected. constant_time_equal digest expected \<or> matched) False hashes)"

fun ip_allowed_loop :: "platform \<Rightarrow> parsed_ip \<Rightarrow> string \<Rightarrow> string list \<Rightarrow> bool option" where
  "ip_allowed_loop pf remote comparable [] = Some False"
| "ip_allowed_loop pf remote comparable (raw_pattern # patterns) =
     (let pattern = lowercase raw_pattern in
      if pattern = ''*'' then Some True
      else if find_char (CHR ''/'') pattern \<noteq> None then do {
        m \<leftarrow> matches_cidr pf remote pattern;
        if m then Some True else ip_allowed_loop pf remote comparable patterns
      }
      else if find_char (CHR ''*'') pattern \<noteq> None then do {
        m \<leftarrow> wildcard_match comparable pattern;
        if m then Some True else ip_allowed_loop pf remote comparable patterns
      }
      else (case parse_ip_address pf pattern of
              Some exact \<Rightarrow> if same_ip remote exact then Some True else ip_allowed_loop pf remote comparable patterns
            | None \<Rightarrow> ip_allowed_loop pf remote comparable patterns))"

definition ip_allowed :: "platform \<Rightarrow> string \<Rightarrow> string list \<Rightarrow> bool option" where
  "ip_allowed pf remote_address patterns =
     (case parse_ip_address pf remote_address of
        None \<Rightarrow> Some False
      | Some remote \<Rightarrow>
          ip_allowed_loop pf remote (lowercase (address_without_zone remote_address)) patterns)"

section \<open>Loading the policy snapshot\<close>

fun json_get_int :: "platform \<Rightarrow> json \<Rightarrow> int option" where
  \<comment> \<open>\<open>get<int>\<close>: a number or a boolean, converted to 32 bits\<close>
  "json_get_int pf (JInt n) = Some (sint (word_of_int n :: 32 word))"
| "json_get_int pf (JBool b) = Some (if b then 1 else 0)"
| "json_get_int pf (JFloat r) = Some (if i32_ok r then r else wild_int pf r)"
| "json_get_int pf _ = None"

fun json_get_bool :: "json \<Rightarrow> bool option" where
  "json_get_bool (JBool b) = Some b"
| "json_get_bool _ = None"

fun json_get_string :: "json \<Rightarrow> string option" where
  "json_get_string (JStr s) = Some s"
| "json_get_string _ = None"

fun json_get_strings :: "json \<Rightarrow> string list option" where
  "json_get_strings (JArr xs) =
     (if list_all (\<lambda>x. json_get_string x \<noteq> None) xs then Some (map (\<lambda>x. the (json_get_string x)) xs) else None)"
| "json_get_strings _ = None"

fun json_at :: "string \<Rightarrow> json \<Rightarrow> json option" where
  "json_at k (JObj kvs) = map_of kvs k"
| "json_at k _ = None"

fun json_is_object :: "json \<Rightarrow> bool" where
  "json_is_object (JObj _) = True"
| "json_is_object _ = False"

definition json_value_int :: "platform \<Rightarrow> string \<Rightarrow> int \<Rightarrow> json \<Rightarrow> int option" where
  "json_value_int pf k def j = (case json_at k j of None \<Rightarrow> Some def | Some v \<Rightarrow> json_get_int pf v)"

record snapshot =
  sn_valid :: bool
  sn_api_key_enabled :: bool
  sn_ip_allowlist_enabled :: bool
  sn_api_key_hashes :: "string list"
  sn_ip_allowlist :: "string list"

definition snapshot_default :: snapshot where
  "snapshot_default = \<lparr>sn_valid = False, sn_api_key_enabled = False, sn_ip_allowlist_enabled = False,
     sn_api_key_hashes = [], sn_ip_allowlist = []\<rparr>"

datatype policy_error = Policy_error string | Json_error | Out_of_range

definition reject_if :: "bool \<Rightarrow> 'e \<Rightarrow> 'e + 'a \<Rightarrow> 'e + 'a" where
  "reject_if b e k = (if b then Inl e else k)"

definition some_or :: "'e \<Rightarrow> 'b option \<Rightarrow> ('b \<Rightarrow> 'e + 'a) \<Rightarrow> 'e + 'a" where
  "some_or e x k = (case x of None \<Rightarrow> Inl e | Some v \<Rightarrow> k v)"

fun load_hashes :: "json list \<Rightarrow> policy_error + string list" where
  "load_hashes [] = Inr []"
| "load_hashes (key # keys) =
     some_or Json_error (Option.bind (json_at ''hash'' key) json_get_string) (\<lambda>h.
     let hash = lowercase h in
     reject_if (\<not> is_valid_hash hash) (Policy_error ''access-control key hash is invalid'')
       (case load_hashes keys of Inl e \<Rightarrow> Inl e | Inr hs \<Rightarrow> Inr (hash # hs)))"

fun json_keys :: "json \<Rightarrow> json list option" where
  \<comment> \<open>the elements of \<open>keys\<close> when it is null or an array\<close>
  "json_keys JNull = Some []"
| "json_keys (JArr xs) = Some xs"
| "json_keys _ = None"

definition load_policy :: "platform \<Rightarrow> json \<Rightarrow> policy_error + snapshot" where
  "load_policy pf root =
     some_or Json_error (if json_is_object root then json_value_int pf ''version'' 0 root else Some 0) (\<lambda>version.
     reject_if (\<not> json_is_object root \<or> version \<noteq> 1)
       (Policy_error ''unsupported access-control snapshot version'') (
     some_or Json_error (json_at ''policy'' root) (\<lambda>policy.
     reject_if (\<not> json_is_object policy) (Policy_error ''access-control policy is invalid'') (
     some_or Json_error (Option.bind (json_at ''api_key_enabled'' policy) json_get_bool) (\<lambda>api_key_enabled.
     some_or Json_error (Option.bind (json_at ''ip_allowlist_enabled'' policy) json_get_bool) (\<lambda>ip_allowlist_enabled.
     some_or Json_error (json_at ''ip_allowlist'' policy) (\<lambda>ip_allowlist.
     some_or Json_error (if ip_allowlist = JNull then Some [] else json_get_strings ip_allowlist) (\<lambda>patterns.
     some_or Out_of_range (if length patterns > 256 then Some False else all_of (validate_pattern pf) patterns) (\<lambda>all_valid.
     reject_if (length patterns > 256 \<or> \<not> all_valid)
       (Policy_error ''access-control IP allowlist is invalid'') (
     some_or Json_error (json_at ''keys'' root) (\<lambda>keys.
     some_or (Policy_error ''access-control keys are invalid'') (json_keys keys) (\<lambda>ks.
     reject_if (length ks > 100) (Policy_error ''access-control keys are invalid'') (
     case load_hashes ks of Inl e \<Rightarrow> Inl e | Inr hashes \<Rightarrow>
     reject_if (api_key_enabled \<and> hashes = [])
       (Policy_error ''API key validation is enabled without any keys'') (
     reject_if (ip_allowlist_enabled \<and> patterns = [])
       (Policy_error ''IP allowlist is enabled without any entries'')
     (Inr \<lparr>sn_valid = True, sn_api_key_enabled = api_key_enabled,
        sn_ip_allowlist_enabled = ip_allowlist_enabled, sn_api_key_hashes = hashes,
        sn_ip_allowlist = patterns\<rparr>)))))))))))))))"

section \<open>The access controller\<close>

record access_control =
  ac_path :: string
  ac_current :: snapshot
  ac_error :: "policy_error option"   \<comment> \<open>\<open>None\<close> is the empty error text\<close>
  ac_next_refresh :: "int option"     \<comment> \<open>\<open>None\<close> is \<open>time_point::min()\<close>\<close>

datatype decision = Allowed | Invalid_api_key | Ip_not_allowed | Policy_unavailable

definition refresh_interval :: int where
  \<comment> \<open>ten seconds in the nanoseconds of the steady clock\<close>
  "refresh_interval = 10 * 1000000000"

definition access_control_new :: "string \<Rightarrow> access_control" where
  "access_control_new path = \<lparr>ac_path = trim path, ac_current = snapshot_default, ac_error = None,
     ac_next_refresh = None\<rparr>"

definition configured :: "access_control \<Rightarrow> bool" where
  "configured a \<longleftrightarrow> ac_path a \<noteq> []"

text \<open>\<open>file\<close> is the content of the snapshot file at that moment, \<open>None\<close> when it cannot be opened.\<close>

definition refresh_locked :: "platform \<Rightarrow> int \<Rightarrow> string option \<Rightarrow> access_control \<Rightarrow> access_control" where
  "refresh_locked pf now file a =
     (if (case ac_next_refresh a of None \<Rightarrow> False | Some t \<Rightarrow> now < t) then a
      else let a = a\<lparr>ac_next_refresh := Some (now + refresh_interval)\<rparr> in
        case some_or (Policy_error ''cannot open access-control snapshot'') file (\<lambda>content.
               some_or Json_error (json_parse pf content) (load_policy pf)) of
          Inr next \<Rightarrow> a\<lparr>ac_current := next, ac_error := None\<rparr>
        | Inl e \<Rightarrow> a\<lparr>ac_current := snapshot_default, ac_error := Some e\<rparr>)"

definition authorize ::
  "platform \<Rightarrow> int \<Rightarrow> string option \<Rightarrow> string \<Rightarrow> string \<Rightarrow> bool \<Rightarrow> access_control \<Rightarrow> (access_control \<times> decision) option" where
  "authorize pf now file remote_address api_key validate_api_key a =
     (if \<not> configured a then Some (a, Allowed)
      else let a = refresh_locked pf now file a; current = ac_current a in
        if \<not> sn_valid current then Some (a, Policy_unavailable)
        else do {
          ip_ok \<leftarrow> (if sn_ip_allowlist_enabled current
                    then ip_allowed pf remote_address (sn_ip_allowlist current) else Some True);
          if \<not> ip_ok then Some (a, Ip_not_allowed)
          else if validate_api_key \<and> sn_api_key_enabled current \<and>
                  \<not> key_allowed pf api_key (sn_api_key_hashes current)
          then Some (a, Invalid_api_key)
          else Some (a, Allowed)
        })"

section \<open>The pre-routing handler of the HTTP server\<close>

record http_request =
  rq_method :: string
  rq_path :: string
  rq_remote_addr :: string
  rq_header :: "string \<Rightarrow> string"  \<comment> \<open>\<open>get_header_value\<close>: empty when the header is missing\<close>

record http_config =
  cfg_api_keys :: "string list"
  cfg_frontend_paths :: "string list"

datatype routing = Handled "nat option" | Unhandled
  \<comment> \<open>a response is sent here, with the status the handler sets (\<open>None\<close>: it leaves the status to the
     library), or the request goes on to its route\<close>

definition openloader_request_api_key :: "http_request \<Rightarrow> string" where
  "openloader_request_api_key req =
     (let key = trim (rq_header req ''X-OpenLoader-Key'') in
      if key \<noteq> [] then key
      else let authorization = trim (rq_header req ''Authorization''); bearer = ''bearer '' in
        if length authorization > length bearer \<and> lowercase (take (length bearer) authorization) = bearer
        then trim (drop (length bearer) authorization)
        else trim (rq_header req ''X-Api-Key''))"

definition public_endpoints :: "http_config \<Rightarrow> string set" where
  "public_endpoints cfg = {''/health'', ''/v1/health''} \<union> set (cfg_frontend_paths cfg)"

definition decision_status :: "decision \<Rightarrow> nat" where
  "decision_status d = (case d of Invalid_api_key \<Rightarrow> 401 | Ip_not_allowed \<Rightarrow> 403 | _ \<Rightarrow> 503)"

definition validate_api_key :: "http_config \<Rightarrow> http_request \<Rightarrow> bool" where
  "validate_api_key cfg req =
     (if cfg_api_keys cfg = [] then True
      else if rq_path req \<in> public_endpoints cfg then True
      else let req_api_key = rq_header req ''Authorization'';
               req_api_key = (if req_api_key = [] then rq_header req ''X-Api-Key'' else req_api_key);
               prefix = ''Bearer '';
               req_api_key = (if take (length prefix) req_api_key = prefix
                              then drop (length prefix) req_api_key else req_api_key)
           in req_api_key \<in> set (cfg_api_keys cfg))"

definition server_state_ok :: "http_config \<Rightarrow> bool \<Rightarrow> http_request \<Rightarrow> bool" where
  "server_state_ok cfg is_ready req \<longleftrightarrow> is_ready \<or> rq_path req \<in> set (cfg_frontend_paths cfg)"

definition pre_routing ::
  "platform \<Rightarrow> http_config \<Rightarrow> bool \<Rightarrow> int \<Rightarrow> string option \<Rightarrow> http_request \<Rightarrow> access_control \<Rightarrow>
     (access_control \<times> routing) option" where
  "pre_routing pf cfg is_ready now file req a =
     (let validate_openloader_api_key = (rq_method req \<noteq> ''OPTIONS'' \<and> rq_path req \<notin> public_endpoints cfg) in do {
        (a, d) \<leftarrow> authorize pf now file (rq_remote_addr req) (openloader_request_api_key req)
                   validate_openloader_api_key a;
        if d \<noteq> Allowed then Some (a, Handled (Some (decision_status d)))
        else if rq_method req = ''OPTIONS'' then Some (a, Handled None)
        else if \<not> server_state_ok cfg is_ready req then Some (a, Handled (Some 503))
        else if \<not> validate_api_key cfg req then Some (a, Handled (Some 401))
        else Some (a, Unhandled)
      })"

end
