(* ===== verification/AccessMatching.thy ===== *)
theory AccessMatching
  imports AccessControl
begin

text \<open>
  What the matching functions of the access policy decide: \<open>wildcard_match\<close> against the
  declarative \<open>glob\<close>, \<open>matches_cidr\<close> against equality of the first bits of two addresses, the
  constant-time comparison of key digests, and \<open>ip_allowed\<close> over a list of validated patterns.
\<close>

unbundle bit_operations_syntax

section \<open>Wildcard patterns: the specification\<close>

text \<open>A \<open>*\<close> stands for any run of characters, every other character for itself.\<close>

fun glob :: "string \<Rightarrow> string \<Rightarrow> bool" where
  "glob v [] = (v = [])"
| "glob v (c # p) =
     (if c = CHR ''*'' then \<exists>k\<le>length v. glob (drop k v) p
      else (case v of [] \<Rightarrow> False | x # v' \<Rightarrow> x = c \<and> glob v' p))"

lemma glob_segment:
  "CHR ''*'' \<notin> set seg \<Longrightarrow> glob v (seg @ p) \<longleftrightarrow> (\<exists>v'. v = seg @ v' \<and> glob v' p)"
proof (induction seg arbitrary: v)
  case (Cons c seg)
  then show ?case by (cases v) auto
qed simp

lemma glob_star: "glob v p \<Longrightarrow> glob v (CHR ''*'' # p)"
  by (auto intro!: exI [of _ 0])

lemma glob_Nil: "glob [] p \<longleftrightarrow> length (takeWhile (\<lambda>c. c = CHR ''*'') p) = length p"
  by (induction p) auto

lemma glob_next_star:
  assumes "CHR ''*'' \<notin> set seg"
  shows "glob (seg @ u) (CHR ''*'' # seg @ CHR ''*'' # q) = glob u (CHR ''*'' # q)"
proof
  assume "glob (seg @ u) (CHR ''*'' # seg @ CHR ''*'' # q)"
  then obtain k v' where k: "drop k (seg @ u) = seg @ v'" "glob v' (CHR ''*'' # q)"
    by (auto simp: glob_segment [OF assms] simp del: drop_append)
  then obtain j where j: "j \<le> length v'" "glob (drop j v') q" by auto
  have "drop (length seg) (drop k (seg @ u)) = drop k (drop (length seg) (seg @ u))"
    by (simp only: drop_drop add.commute)
  then have v': "v' = drop k u" unfolding k(1) by simp
  with j show "glob u (CHR ''*'' # q)"
    by (cases "k + j \<le> length u") (auto simp: add.commute intro: exI [of _ "length u"])
next
  assume "glob u (CHR ''*'' # q)"
  then have "glob (seg @ u) (seg @ CHR ''*'' # q)" using glob_segment [OF assms] by blast
  then show "glob (seg @ u) (CHR ''*'' # seg @ CHR ''*'' # q)" by (rule glob_star)
qed

lemma glob_retry:
  assumes "CHR ''*'' \<notin> set seg" and "\<not> glob u rest" and "seg @ u \<noteq> []"
  shows "glob (seg @ u) (CHR ''*'' # seg @ rest) = glob (tl (seg @ u)) (CHR ''*'' # seg @ rest)"
proof -
  obtain x w where w: "seg @ u = x # w" using assms(3) by (cases "seg @ u") auto
  have no: "\<not> glob (x # w) (seg @ rest)"
    using assms(2) w [symmetric] by (simp add: glob_segment [OF assms(1)])
  have "glob (x # w) (CHR ''*'' # seg @ rest) \<longleftrightarrow> (\<exists>k\<le>Suc (length w). glob (drop k (x # w)) (seg @ rest))"
    by simp
  also have "\<dots> \<longleftrightarrow> (\<exists>k\<le>length w. glob (drop k w) (seg @ rest))"
  proof
    assume "\<exists>k\<le>Suc (length w). glob (drop k (x # w)) (seg @ rest)"
    then obtain k where k: "k \<le> Suc (length w)" "glob (drop k (x # w)) (seg @ rest)" by blast
    with no obtain k' where "k = Suc k'" by (cases k) auto
    with k show "\<exists>k\<le>length w. glob (drop k w) (seg @ rest)" by auto
  next
    assume "\<exists>k\<le>length w. glob (drop k w) (seg @ rest)"
    then obtain k where "k \<le> length w" "glob (drop k w) (seg @ rest)" by blast
    then show "\<exists>k\<le>Suc (length w). glob (drop k (x # w)) (seg @ rest)"
      by (intro exI [of _ "Suc k"]) simp
  qed
  finally show ?thesis unfolding w by simp
qed

lemma glob_finish:
  assumes "CHR ''*'' \<notin> set seg"
  shows "glob seg (CHR ''*'' # seg @ rest) = glob [] rest"
proof
  assume "glob seg (CHR ''*'' # seg @ rest)"
  then obtain k v' where "drop k seg = seg @ v'" "glob v' rest"
    by (auto simp: glob_segment [OF assms])
  moreover from this(1) have "length (drop k seg) = length (seg @ v')" by (rule arg_cong)
  then have "length v' = 0" unfolding length_drop length_append by linarith
  ultimately show "glob [] rest" by simp
next
  assume "glob [] rest"
  then have "glob (seg @ []) (seg @ rest)" using glob_segment [OF assms] by blast
  then have "glob seg (seg @ rest)" by simp
  then show "glob seg (CHR ''*'' # seg @ rest)" by (rule glob_star)
qed

text \<open>The invariant of the loop: since the last \<open>*\<close> the pattern has matched literally.\<close>

definition wildcard_inv :: "string \<Rightarrow> string \<Rightarrow> nat \<Rightarrow> nat \<Rightarrow> nat option \<Rightarrow> nat \<Rightarrow> bool \<Rightarrow> bool" where
  "wildcard_inv v p val_i pat_i wi wvi r \<longleftrightarrow> val_i \<le> length v \<and> pat_i \<le> length p \<and>
     (case wi of
        None \<Rightarrow> glob (drop val_i v) (drop pat_i p) = r
      | Some k \<Rightarrow> \<exists>seg. wvi + length seg = val_i \<and> k + 1 + length seg = pat_i \<and> CHR ''*'' \<notin> set seg \<and>
          drop wvi v = seg @ drop val_i v \<and> drop k p = CHR ''*'' # seg @ drop pat_i p \<and>
          glob (drop wvi v) (drop k p) = r)"

declare Cons_nth_drop_Suc [simp del]

lemma drop_nth: "i < length xs \<Longrightarrow> drop i xs = xs ! i # drop (Suc i) xs"
  by (rule Cons_nth_drop_Suc [symmetric])

lemma wildcard_inv_match:
  assumes "wildcard_inv v p val_i pat_i wi wvi r" "val_i < length v" "pat_i < length p" "p ! pat_i = v ! val_i"
    and "CHR ''*'' \<notin> set v"
  shows "wildcard_inv v p (val_i + 1) (pat_i + 1) wi wvi r"
proof -
  have c: "v ! val_i \<noteq> CHR ''*''" using assms(2,5) nth_mem by metis
  show ?thesis
  proof (cases wi)
    case None
    with assms c show ?thesis by (simp add: wildcard_inv_def drop_nth [OF assms(2)] drop_nth [OF assms(3)])
  next
    case (Some k)
    obtain seg where seg: "wvi + length seg = val_i" "k + 1 + length seg = pat_i" "CHR ''*'' \<notin> set seg"
      "drop wvi v = seg @ drop val_i v" "drop k p = CHR ''*'' # seg @ drop pat_i p"
      "glob (drop wvi v) (drop k p) = r"
      using assms(1) unfolding wildcard_inv_def Some option.case by blast
    have dv: "drop val_i v = [v ! val_i] @ drop (val_i + 1) v"
      and dp: "drop pat_i p = [v ! val_i] @ drop (pat_i + 1) p"
      using drop_nth [OF assms(2)] drop_nth [OF assms(3)] assms(4) by auto
    have "CHR ''*'' \<notin> set (seg @ [v ! val_i])" using seg(3) c by simp
    moreover have "drop wvi v = (seg @ [v ! val_i]) @ drop (val_i + 1) v"
      using seg(4) [unfolded dv] by (simp only: append_assoc)
    moreover have "drop k p = CHR ''*'' # (seg @ [v ! val_i]) @ drop (pat_i + 1) p"
      using seg(5) [unfolded dp] by (simp only: append_assoc)
    moreover have "wvi + length (seg @ [v ! val_i]) = val_i + 1" "k + 1 + length (seg @ [v ! val_i]) = pat_i + 1"
      using seg(1,2) by simp_all
    moreover have "val_i + 1 \<le> length v" "pat_i + 1 \<le> length p" using assms(2,3) by simp_all
    ultimately show ?thesis
      unfolding wildcard_inv_def Some option.case
      by (intro conjI exI [of _ "seg @ [v ! val_i]"]) (assumption | rule seg(6))+
  qed
qed

lemma wildcard_inv_star:
  assumes "wildcard_inv v p val_i pat_i wi wvi r" "val_i < length v" "pat_i < length p" "p ! pat_i = CHR ''*''"
  shows "wildcard_inv v p val_i (pat_i + 1) (Some pat_i) val_i r"
proof (cases wi)
  case None
  with assms show ?thesis
    by (auto simp: wildcard_inv_def drop_nth [OF assms(3)] intro!: exI [of _ "[]"])
next
  case (Some k)
  with assms obtain seg where seg: "CHR ''*'' \<notin> set seg" "drop wvi v = seg @ drop val_i v"
    "drop k p = CHR ''*'' # seg @ drop pat_i p" "glob (drop wvi v) (drop k p) = r"
    by (auto simp: wildcard_inv_def)
  have "glob (drop val_i v) (drop pat_i p) = r"
    using seg glob_next_star [OF seg(1), of "drop val_i v" "drop (Suc pat_i) p"] assms(4)
    by (simp add: drop_nth [OF assms(3)])
  with assms show ?thesis
    by (auto simp: wildcard_inv_def drop_nth [OF assms(3)] intro!: exI [of _ "[]"])
qed

lemma wildcard_inv_retry:
  assumes "wildcard_inv v p val_i pat_i (Some k) wvi r" "val_i < length v"
    and "\<not> (pat_i < length p \<and> (p ! pat_i = v ! val_i \<or> p ! pat_i = CHR ''*''))"
  shows "wildcard_inv v p (wvi + 1) (k + 1) (Some k) (wvi + 1) r" and "wvi < length v"
proof -
  obtain seg where seg: "wvi + length seg = val_i" "k + 1 + length seg = pat_i" "CHR ''*'' \<notin> set seg"
    "drop wvi v = seg @ drop val_i v" "drop k p = CHR ''*'' # seg @ drop pat_i p"
    "glob (drop wvi v) (drop k p) = r" "pat_i \<le> length p"
    using assms(1) unfolding wildcard_inv_def option.case by blast
  have no: "\<not> glob (drop val_i v) (drop pat_i p)"
    using assms(2,3) seg(7) drop_nth [OF assms(2)] drop_nth [of pat_i p]
    by (cases "pat_i = length p") auto
  have "drop val_i v \<noteq> []" using assms(2) by simp
  then have "glob (drop wvi v) (drop k p) = glob (tl (drop wvi v)) (drop k p)"
    unfolding seg(4,5) by (intro glob_retry [OF seg(3) no]) simp
  then have "glob (tl (drop wvi v)) (drop k p) = r" using seg(6) by blast
  then have "glob (drop (Suc wvi) v) (drop k p) = r" by (simp only: tl_drop drop_Suc)
  moreover have "drop k p = CHR ''*'' # drop (k + 1) p"
  proof -
    have "drop (k + 1) p = tl (drop k p)" by (simp add: drop_Suc tl_drop)
    with seg(5) show ?thesis by simp
  qed
  moreover have "k + 1 \<le> length p" "wvi + 1 \<le> length v" using seg assms(2) by simp_all
  ultimately show "wildcard_inv v p (wvi + 1) (k + 1) (Some k) (wvi + 1) r"
    unfolding wildcard_inv_def option.case by (intro conjI exI [of _ "[]"]) simp_all
  show "wvi < length v" using seg(1) assms(2) by simp
qed

lemma wildcard_loop_correct:
  assumes "CHR ''*'' \<notin> set v" "wildcard_inv v p val_i pat_i wi wvi r"
  shows "wildcard_loop v p val_i pat_i wi wvi = Some r"
  using assms(2)
proof (induction "(val_i, pat_i, wi, wvi)" arbitrary: val_i pat_i wi wvi
    rule: wf_induct [OF wf_measures [of "[\<lambda>(val_i, pat_i, wi, wvi). case wi of None \<Rightarrow> length p + 1 | Some k \<Rightarrow> length p - k,
      \<lambda>(val_i, pat_i, wi, wvi). length v - wvi, \<lambda>(val_i, pat_i, wi, wvi). length v - val_i]"]])
  case (1 val_i pat_i wi wvi)
  have IH: "wildcard_loop v p a b c d = Some r" if "wildcard_inv v p a b c d r"
    "(case c of None \<Rightarrow> length p + 1 | Some k \<Rightarrow> length p - k) < (case wi of None \<Rightarrow> length p + 1 | Some k \<Rightarrow> length p - k) \<or>
     c = wi \<and> (length v - d < length v - wvi \<or> d = wvi \<and> length v - a < length v - val_i)" for a b c d
    using "1.hyps" [rule_format, OF _ refl that(1)] that(2) by auto
  note inv = "1.prems"
  note step = wildcard_loop.simps [of v p val_i pat_i wi wvi]
  show ?case
  proof (cases "val_i < length v")
    case False
    show ?thesis
    proof (cases wi)
      case None
      with False inv show ?thesis
        unfolding step by (auto simp: wildcard_inv_def glob_Nil)
    next
      case (Some k)
      with False inv obtain seg where seg: "CHR ''*'' \<notin> set seg" "drop wvi v = seg"
        "drop k p = CHR ''*'' # seg @ drop pat_i p" "glob (drop wvi v) (drop k p) = r" "pat_i \<le> length p"
        by (auto simp: wildcard_inv_def)
      with glob_finish [OF seg(1), of "drop pat_i p"] False show ?thesis
        unfolding step by (auto simp: glob_Nil)
    qed
  next
    case True
    consider (m) "pat_i < length p" "p ! pat_i = v ! val_i"
      | (s) "pat_i < length p" "p ! pat_i \<noteq> v ! val_i" "p ! pat_i = CHR ''*''"
      | (b) "\<not> (pat_i < length p \<and> (p ! pat_i = v ! val_i \<or> p ! pat_i = CHR ''*''))" by blast
    then show ?thesis
    proof cases
      case m
      from IH [OF wildcard_inv_match [OF inv True m assms(1)]] True m show ?thesis
        unfolding step by simp
    next
      case s
      have "case wi of None \<Rightarrow> True | Some k \<Rightarrow> k < pat_i"
        using inv by (auto simp: wildcard_inv_def split: option.splits)
      with IH [OF wildcard_inv_star [OF inv True s(1,3)]] True s show ?thesis
        unfolding step by (simp split: option.splits)
    next
      case b
      show ?thesis
      proof (cases wi)
        case None
        with inv True b drop_nth [OF True] drop_nth [of pat_i p] have "\<not> r"
          by (cases "pat_i = length p") (auto simp: wildcard_inv_def)
        with None True b show ?thesis unfolding step by (cases "pat_i < length p") simp_all
      next
        case (Some k)
        note retry = wildcard_inv_retry [OF inv [unfolded Some] True b]
        from IH [OF retry(1)] retry(2) True b Some show ?thesis
          unfolding step by (cases "pat_i < length p") simp_all
      qed
    qed
  qed
qed

lemma wildcard_match_glob: "CHR ''*'' \<notin> set v \<Longrightarrow> wildcard_match v p = Some (glob v p)"
  unfolding wildcard_match_def by (rule wildcard_loop_correct) (simp_all add: wildcard_inv_def)


text \<open>The loop ends whatever the strings are.\<close>

lemma wildcard_loop_total:
  assumes "\<forall>k. wi = Some k \<longrightarrow> k < pat_i" "wvi \<le> val_i"
  shows "\<exists>b. wildcard_loop v p val_i pat_i wi wvi = Some b"
  using assms
proof (induction "(val_i, pat_i, wi, wvi)" arbitrary: val_i pat_i wi wvi
    rule: wf_induct [OF wf_measures [of "[\<lambda>(val_i, pat_i, wi, wvi). case wi of None \<Rightarrow> length p + 1 | Some k \<Rightarrow> length p - k,
      \<lambda>(val_i, pat_i, wi, wvi). length v - wvi, \<lambda>(val_i, pat_i, wi, wvi). length v - val_i]"]])
  case (1 val_i pat_i wi wvi)
  have IH: "\<exists>r. wildcard_loop v p a b c d = Some r" if "\<forall>k. c = Some k \<longrightarrow> k < b" "d \<le> a"
    "(case c of None \<Rightarrow> length p + 1 | Some k \<Rightarrow> length p - k) < (case wi of None \<Rightarrow> length p + 1 | Some k \<Rightarrow> length p - k) \<or>
     c = wi \<and> (length v - d < length v - wvi \<or> d = wvi \<and> length v - a < length v - val_i)" for a b c d
    using "1.hyps" [rule_format, of "(a, b, c, d)" a b c d] that by auto
  note step = wildcard_loop.simps [of v p val_i pat_i wi wvi]
  show ?case
  proof (cases "val_i < length v")
    case False
    then show ?thesis unfolding step by simp
  next
    case True
    consider (m) "pat_i < length p" "p ! pat_i = v ! val_i"
      | (s) "pat_i < length p" "p ! pat_i \<noteq> v ! val_i" "p ! pat_i = CHR ''*''"
      | (b) "\<not> (pat_i < length p \<and> (p ! pat_i = v ! val_i \<or> p ! pat_i = CHR ''*''))" by blast
    then show ?thesis
    proof cases
      case m
      with True IH [of wi "pat_i + 1" wvi "val_i + 1"] "1.prems" show ?thesis
        unfolding step by (simp add: less_SucI)
    next
      case s
      then have "length p - pat_i < (case wi of None \<Rightarrow> length p + 1 | Some k \<Rightarrow> length p - k)"
        using "1.prems"(1) by (auto split: option.split intro: diff_less_mono2)
      with s True IH [of "Some pat_i" "pat_i + 1" val_i val_i] show ?thesis
        unfolding step by simp
    next
      case b
      with True IH [of wi "the wi + 1" "wvi + 1" "wvi + 1"] "1.prems" show ?thesis
        unfolding step by (cases "pat_i < length p"; cases wi; auto intro: exI [of Not False])
    qed
  qed
qed

text \<open>C19. \<open>wildcard_match\<close> returns for every pair of strings, and on a value without a \<open>*\<close> (every
  address is one) its answer is that of the specification \<open>glob\<close>: each \<open>*\<close> of the pattern stands for any
  run of characters, every other character for itself.\<close>

theorem wildcard_match_correct:
  "(\<exists>b. wildcard_match v p = Some b) \<and> (CHR ''*'' \<notin> set v \<longrightarrow> wildcard_match v p = Some (glob v p))"
  using wildcard_loop_total [of None 0 0 0 v p] by (auto simp: wildcard_match_def wildcard_match_glob [unfolded wildcard_match_def])

lemma wildcard_match_correct_witness:
  "CHR ''*'' \<notin> set ''10.20.3.4'' \<and> wildcard_match ''10.20.3.4'' ''10.*.4'' = Some (glob ''10.20.3.4'' ''10.*.4'')
   \<and> glob ''10.20.3.4'' ''10.*.4''"
proof -
  have "glob ''10.20.3.4'' ''10.*.4''" by (simp add: exI [of _ "4::nat"])
  then show ?thesis using wildcard_match_correct [of "''10.20.3.4''" "''10.*.4''"] by simp
qed

section \<open>Characters of a pattern\<close>

lemma of_char_to_lower:
  "(of_char (to_lower c) :: nat) = (let n = of_char c in if 65 \<le> n \<and> n \<le> 90 then n + 32 else n)"
proof -
  have "(of_char c :: nat) < 256" by (rule nat_of_char_less_256)
  then show ?thesis by (simp add: to_lower_def Let_def)
qed

lemma char_eq_code: "c = d \<longleftrightarrow> (of_char c :: nat) = of_char d" by simp

lemma to_lower_eq_special [simp]:
  "to_lower x = CHR ''/'' \<longleftrightarrow> x = CHR ''/''" "to_lower x = CHR ''*'' \<longleftrightarrow> x = CHR ''*''"
  by (simp_all only: char_eq_code [of "to_lower x"] char_eq_code [of x] of_char_to_lower)
    (auto simp: Let_def)

lemma to_lower_digit [simp]: "is_digit c \<Longrightarrow> to_lower c = c"
  by (simp add: is_digit_def to_lower_def Let_def)

lemma map_to_lower_digits: "list_all is_digit s \<Longrightarrow> map to_lower s = s"
  by (induction s) auto

lemma find_char_None: "find_char c s = None \<longleftrightarrow> c \<notin> set s"
  by (induction s) auto

lemma find_char_Some:
  "find_char c s = Some k \<Longrightarrow> k < length s \<and> s ! k = c \<and> c \<notin> set (take k s)"
  by (induction s arbitrary: k) (auto split: if_splits)

lemma find_char_lowercase [simp]:
  "find_char (CHR ''/'') (lowercase s) = find_char (CHR ''/'') s"
  "find_char (CHR ''*'') (lowercase s) = find_char (CHR ''*'') s"
  unfolding lowercase_def by (induction s) auto

lemma find_char_append: "c \<notin> set a \<Longrightarrow> find_char c (a @ c # b) = Some (length a)"
  by (induction a) auto

lemma lowercase_star [simp]: "lowercase s = ''*'' \<longleftrightarrow> s = ''*''"
  by (cases s) (auto simp: lowercase_def)


section \<open>Address ranges: the specification\<close>

text \<open>The bits of an address, most significant first, as a prefix length counts them.\<close>

definition byte_bits :: "byte \<Rightarrow> bool list" where
  "byte_bits b = map (\<lambda>j. bit b (7 - j)) [0..<8]"

definition ip_bits :: "parsed_ip \<Rightarrow> bool list" where
  "ip_bits ip = concat (map byte_bits (take (ip_size ip) (ip_bytes ip)))"

definition ip_ok :: "parsed_ip \<Rightarrow> bool" where
  "ip_ok ip \<longleftrightarrow> length (ip_bytes ip) = 16 \<and>
     (ip_family ip = AF_INET \<and> ip_size ip = 4 \<or> ip_family ip = AF_INET6 \<and> ip_size ip = 16)"

lemma bit_prefix_mask:
  assumes "0 < n" "n < 8"
  shows "bit (prefix_mask n) i \<longleftrightarrow> 8 - n \<le> i \<and> i < 8"
proof -
  have "(255 :: byte) = - 1" by simp
  then have p: "prefix_mask n = push_bit (8 - n) (- 1)"
    by (simp only: prefix_mask_def push_bit_eq_mult of_int_mult of_int_power of_int_numeral)
  show ?thesis unfolding p using assms by (auto simp: bit_not_iff bit_mask_iff)
qed

lemma masked_byte_eq:
  assumes "0 < n" "n < 8"
  shows "x AND prefix_mask n = y AND prefix_mask n \<longleftrightarrow> take n (byte_bits x) = take n (byte_bits y)"
proof -
  have "take n (byte_bits x) = take n (byte_bits y) \<longleftrightarrow> (\<forall>j<n. bit x (7 - j) = bit y (7 - j))"
    using assms by (auto simp: byte_bits_def list_eq_iff_nth_eq)
  also have "\<dots> \<longleftrightarrow> (\<forall>i. 8 - n \<le> i \<and> i < 8 \<longrightarrow> bit x i = bit y i)"
  proof (rule iffI; intro allI impI)
    fix i assume "\<forall>j<n. bit x (7 - j) = bit y (7 - j)" "8 - n \<le> i \<and> i < 8"
    moreover from this(2) assms have "7 - i < n" "7 - (7 - i) = i" by auto
    ultimately show "bit x i = bit y i" by metis
  next
    fix j assume "\<forall>i. 8 - n \<le> i \<and> i < 8 \<longrightarrow> bit x i = bit y i" "j < n"
    moreover from this(2) assms have "8 - n \<le> 7 - j \<and> 7 - j < 8" by auto
    ultimately show "bit x (7 - j) = bit y (7 - j)" by metis
  qed
  also have "\<dots> \<longleftrightarrow> x AND prefix_mask n = y AND prefix_mask n"
    by (auto simp: bit_eq_iff bit_and_iff bit_prefix_mask [OF assms])
  finally show ?thesis by blast
qed

lemma length_byte_bits [simp]: "length (byte_bits b) = 8"
  by (simp add: byte_bits_def)

lemma byte_bits_inj: "byte_bits x = byte_bits y \<longleftrightarrow> x = y"
proof
  assume eq: "byte_bits x = byte_bits y"
  have "bit x i = bit y i" if "i < 8" for i
  proof -
    have "byte_bits x ! (7 - i) = byte_bits y ! (7 - i)" using eq by simp
    moreover have "7 - i < 8" "7 - (7 - i) = i" using that by auto
    ultimately show ?thesis by (simp add: byte_bits_def)
  qed
  then show "x = y" by (intro bit_word_eqI) simp
qed simp

lemma prefix_bits_eq:
  assumes "length xs = length ys" "n \<le> 8 * length xs"
  shows "take n (concat (map byte_bits xs)) = take n (concat (map byte_bits ys)) \<longleftrightarrow>
    take (n div 8) xs = take (n div 8) ys \<and>
    (n mod 8 = 0 \<or> xs ! (n div 8) AND prefix_mask (n mod 8) = ys ! (n div 8) AND prefix_mask (n mod 8))"
  using assms
proof (induction xs ys arbitrary: n rule: list_induct2)
  case (Cons x xs y ys)
  show ?case
  proof (cases "n < 8")
    case True
    then show ?thesis using masked_byte_eq [of n x y] by (cases "n = 0") simp_all
  next
    case False
    then obtain m where m: "n = 8 + m" using le_Suc_ex [of 8 n] by auto
    have "take n (byte_bits x @ us) = byte_bits x @ take m us" for x us by (simp add: m)
    moreover have "n div 8 = Suc (m div 8)" "n mod 8 = m mod 8" by (simp_all add: m)
    ultimately show ?thesis using Cons.IH [of m] Cons.prems byte_bits_inj [of x y] m by simp
  qed
qed simp


text \<open>What is relied on of the platform: the lengths of the two kinds of addresses, and that
  \<open>inet_pton\<close> accepts only hexadecimal digits, colons and dots.\<close>

definition address_chars :: "string \<Rightarrow> bool" where
  "address_chars s \<longleftrightarrow> list_all (\<lambda>c. is_hex_lower_upper c \<or> c = CHR '':'' \<or> c = CHR ''.'') s"

definition platform_ok :: "platform \<Rightarrow> bool" where
  "platform_ok pf \<longleftrightarrow>
     (\<forall>s b. pton4 pf s = Some b \<longrightarrow> length b = 4 \<and> address_chars s) \<and>
     (\<forall>s b. pton6 pf s = Some b \<longrightarrow> length b = 16 \<and> address_chars s)"

lemma parse_ip_address_ok:
  assumes "platform_ok pf" "parse_ip_address pf s = Some ip"
  shows "ip_ok ip"
  using assms
  by (auto simp: parse_ip_address_def platform_ok_def ip_ok_def Let_def split: option.splits if_splits)

fun dec_value :: "nat \<Rightarrow> string \<Rightarrow> nat" where
  "dec_value a [] = a"
| "dec_value a (c # cs) = dec_value (10 * a + (of_char c - 48)) cs"

lemma stoi_digits:
  assumes "list_all is_digit s"
  shows "stoi s = (if int (dec_value 0 s) \<le> INT32_MAX then Some (int (dec_value 0 s)) else None)"
proof -
  have "foldl (\<lambda>a c. 10 * a + (int (of_char c) - 48)) (int a) s = int (dec_value a s)" for a
    using assms
  proof (induction s arbitrary: a)
    case (Cons c s)
    then have "48 \<le> (of_char c :: nat)" by (simp add: is_digit_def Let_def)
    then have "10 * int a + (int (of_char c) - 48) = int (10 * a + (of_char c - 48))" by simp
    with Cons show ?case by (simp only: foldl_Cons dec_value.simps list.pred_inject)
  qed simp
  from this [of 0] show ?thesis by (simp add: stoi_def Let_def)
qed

text \<open>An address belongs to the range \<open>network/prefix\<close>: same family, and equal in the first
  \<open>prefix\<close> bits.\<close>

definition in_range :: "platform \<Rightarrow> parsed_ip \<Rightarrow> string \<Rightarrow> bool" where
  "in_range pf remote pattern \<longleftrightarrow>
     (\<exists>net digits network. pattern = net @ CHR ''/'' # digits \<and> CHR ''/'' \<notin> set net \<and>
        digits \<noteq> [] \<and> list_all is_digit digits \<and> parse_ip_address pf net = Some network \<and>
        ip_family network = ip_family remote \<and> dec_value 0 digits \<le> 8 * ip_size remote \<and>
        take (dec_value 0 digits) (ip_bits remote) = take (dec_value 0 digits) (ip_bits network))"

lemma find_char_split:
  assumes "find_char c s = Some k"
  shows "s = take k s @ c # drop (k + 1) s" "c \<notin> set (take k s)"
  using find_char_Some [OF assms] id_take_nth_drop [of k s] by auto

lemma split_at_slash:
  assumes "c \<notin> set a" "c \<notin> set a'"
  shows "a @ c # b = a' @ c # b' \<longleftrightarrow> a = a' \<and> b = b'"
proof
  assume eq: "a @ c # b = a' @ c # b'"
  from arg_cong [OF eq, of "takeWhile (\<lambda>x. x \<noteq> c)"] assms have "a = a'"
    by (simp add: takeWhile_append) (metis (mono_tags, lifting) takeWhile_eq_all_conv takeWhile.simps(2) append.right_neutral takeWhile_append2)
  with eq show "a = a' \<and> b = b'" by simp
qed simp


lemma in_range_split:
  assumes "find_char (CHR ''/'') pattern = Some k"
  shows "in_range pf remote pattern \<longleftrightarrow>
    (let digits = drop (k + 1) pattern in digits \<noteq> [] \<and> list_all is_digit digits \<and>
     (case parse_ip_address pf (take k pattern) of None \<Rightarrow> False
      | Some network \<Rightarrow> ip_family network = ip_family remote \<and> dec_value 0 digits \<le> 8 * ip_size remote \<and>
        take (dec_value 0 digits) (ip_bits remote) = take (dec_value 0 digits) (ip_bits network)))"
    (is "_ \<longleftrightarrow> ?rhs")
proof
  note split = find_char_split [OF assms]
  {
    assume "in_range pf remote pattern"
    then obtain net digits network where p: "pattern = net @ CHR ''/'' # digits" "CHR ''/'' \<notin> set net"
      and c: "digits \<noteq> []" "list_all is_digit digits" "parse_ip_address pf net = Some network"
        "ip_family network = ip_family remote" "dec_value 0 digits \<le> 8 * ip_size remote"
        "take (dec_value 0 digits) (ip_bits remote) = take (dec_value 0 digits) (ip_bits network)"
      unfolding in_range_def by blast
    have "take k pattern @ CHR ''/'' # drop (k + 1) pattern = net @ CHR ''/'' # digits"
      using split(1) p(1) by metis
    with split_at_slash [OF split(2) p(2)] have "take k pattern = net" "drop (k + 1) pattern = digits" by blast+
    with c show ?rhs by simp
  }
  assume ?rhs
  then obtain network where "drop (k + 1) pattern \<noteq> []" "list_all is_digit (drop (k + 1) pattern)"
    "parse_ip_address pf (take k pattern) = Some network" "ip_family network = ip_family remote"
    "dec_value 0 (drop (k + 1) pattern) \<le> 8 * ip_size remote"
    "take (dec_value 0 (drop (k + 1) pattern)) (ip_bits remote) =
     take (dec_value 0 (drop (k + 1) pattern)) (ip_bits network)"
    unfolding Let_def by (auto split: option.splits)
  with split show "in_range pf remote pattern" unfolding in_range_def by blast
qed

lemma full_bytes_and_mask:
  assumes "ip_ok r" "ip_ok w" "ip_family w = ip_family r" "n \<le> 8 * ip_size r"
  shows "take n (ip_bits r) = take n (ip_bits w) \<longleftrightarrow>
    take (n div 8) (ip_bytes r) = take (n div 8) (ip_bytes w) \<and>
    (n mod 8 = 0 \<or> ip_bytes r ! (n div 8) AND prefix_mask (n mod 8) = ip_bytes w ! (n div 8) AND prefix_mask (n mod 8))"
proof -
  have size: "ip_size w = ip_size r" "length (ip_bytes r) = 16" "length (ip_bytes w) = 16" "ip_size r \<le> 16"
    using assms(1-3) by (auto simp: ip_ok_def)
  have d: "min (n div 8) (ip_size r) = n div 8" using assms(4) by simp
  have "n mod 8 \<noteq> 0 \<Longrightarrow> n div 8 < ip_size r" using assms(4) by presburger
  then show ?thesis
    unfolding ip_bits_def size(1)
    using prefix_bits_eq [of "take (ip_size r) (ip_bytes r)" "take (ip_size r) (ip_bytes w)" n] size assms(4)
    by (cases "n mod 8 = 0") (simp_all add: d)
qed

lemma matches_cidr_correct_or:
  assumes "platform_ok pf" "ip_ok remote"
  shows "matches_cidr pf remote pattern = Some (in_range pf remote pattern) \<or>
    matches_cidr pf remote pattern = None \<and> \<not> in_range pf remote pattern \<and>
    (\<exists>net digits. pattern = net @ CHR ''/'' # digits \<and> CHR ''/'' \<notin> set net \<and> INT32_MAX < int (dec_value 0 digits))"
proof (cases "find_char (CHR ''/'') pattern")
  case None
  then have "\<not> in_range pf remote pattern" by (auto simp: find_char_None in_range_def)
  with None show ?thesis by (simp add: matches_cidr_def)
next
  case (Some k)
  note range = in_range_split [OF Some, of pf remote]
  define digits where "digits = drop (Suc k) pattern"
  show ?thesis
  proof (cases "parse_ip_address pf (take k pattern)")
    case None
    with Some show ?thesis by (simp add: range matches_cidr_def)
  next
    case net: (Some network)
    note nok = parse_ip_address_ok [OF assms(1) net]
    consider "ip_family network \<noteq> ip_family remote \<or> digits = [] \<or> \<not> list_all is_digit digits"
      | (huge) "ip_family network = ip_family remote" "digits \<noteq> []" "list_all is_digit digits"
          "INT32_MAX < int (dec_value 0 digits)"
      | (ok) "ip_family network = ip_family remote" "digits \<noteq> []" "list_all is_digit digits"
          "int (dec_value 0 digits) \<le> INT32_MAX" by linarith
    then show ?thesis
    proof cases
      case 1
      then show ?thesis by (auto simp: range matches_cidr_def Some net digits_def [symmetric] Let_def)
    next
      case huge
      have "8 * ip_size remote \<le> 128" using assms(2) by (auto simp: ip_ok_def)
      with huge have "\<not> dec_value 0 digits \<le> 8 * ip_size remote" by (simp add: INT32_MAX_def)
      then have "\<not> in_range pf remote pattern" by (simp add: range net digits_def [symmetric])
      moreover have "matches_cidr pf remote pattern = None"
        using huge by (simp add: matches_cidr_def Some net digits_def [symmetric] stoi_digits)
      ultimately show ?thesis
        using huge(4) find_char_split [OF Some] unfolding digits_def Suc_eq_plus1 by blast
    next
      case ok
      note eq = full_bytes_and_mask [OF assms(2) nok ok(1), of "dec_value 0 digits"]
      have "matches_cidr pf remote pattern = Some (in_range pf remote pattern)"
        using ok eq
        by (cases "dec_value 0 digits \<le> 8 * ip_size remote")
          (auto simp: range matches_cidr_def Some net digits_def [symmetric] stoi_digits Let_def)
      then show ?thesis ..
    qed
  qed
qed


text \<open>C18. \<open>matches_cidr\<close> answers whether the address lies in the range: the pattern is
  \<open>network/prefix\<close> with a network of the same family and a decimal prefix of at most 32 or 128, and the two
  addresses agree in their first \<open>prefix\<close> bits, most significant first. The only other outcome is the
  \<open>std::out_of_range\<close> of \<open>stoi\<close>, on a prefix that does not fit an \<open>int\<close>.\<close>

theorem matches_cidr_correct:
  assumes "platform_ok pf" "ip_ok remote"
  shows "matches_cidr pf remote pattern = Some (in_range pf remote pattern) \<or>
    matches_cidr pf remote pattern = None \<and> \<not> in_range pf remote pattern \<and>
    (\<exists>net digits. pattern = net @ CHR ''/'' # digits \<and> CHR ''/'' \<notin> set net \<and> INT32_MAX < int (dec_value 0 digits))"
  using assms by (rule matches_cidr_correct_or)

definition demo_root :: json where
  "demo_root = JObj [(''version'', JInt 1),
     (''policy'', JObj [(''api_key_enabled'', JBool True), (''ip_allowlist_enabled'', JBool True),
        (''ip_allowlist'', JArr [JStr ''::1'', JStr ''10.16.0.0/12''])]),
     (''keys'', JArr [JObj [(''hash'', JStr (replicate 64 (CHR ''A'')))]])]"

definition demo_platform :: platform where
  "demo_platform = \<lparr>
     pton4 = (\<lambda>s. if s = ''10.20.3.4'' then Some [10, 20, 3, 4] else if s = ''10.16.0.0'' then Some [10, 16, 0, 0] else None),
     pton6 = (\<lambda>s. if s = ''::1'' then Some (replicate 15 0 @ [1]) else None),
     sha256_hex = (\<lambda>s. replicate 64 (if s = ''secret'' then CHR ''a'' else CHR ''b'')),
     json_parse = (\<lambda>s. if s = ''policy'' then Some demo_root else None),
     wild_int = (\<lambda>_. 0)\<rparr>"

lemma demo_platform_ok: "platform_ok demo_platform"
  by (simp add: platform_ok_def demo_platform_def address_chars_def is_hex_lower_upper_def is_digit_def)

lemma matches_cidr_correct_witness:
  "matches_cidr demo_platform \<lparr>ip_family = AF_INET, ip_bytes = [10, 20, 3, 4] @ replicate 12 0, ip_size = 4\<rparr>
     ''10.16.0.0/12'' = Some True \<and>
   in_range demo_platform \<lparr>ip_family = AF_INET, ip_bytes = [10, 20, 3, 4] @ replicate 12 0, ip_size = 4\<rparr> ''10.16.0.0/12''"
proof -
  let ?r = "\<lparr>ip_family = AF_INET, ip_bytes = [10, 20, 3, 4] @ replicate 12 0, ip_size = 4\<rparr> :: parsed_ip"
  have "matches_cidr demo_platform ?r ''10.16.0.0/12'' = Some True" by code_simp
  with matches_cidr_correct [OF demo_platform_ok, of ?r "''10.16.0.0/12''"] show ?thesis
    by (simp add: ip_ok_def)
qed

section \<open>Keys\<close>

lemma foldl_or_zero:
  "foldl (\<lambda>(d :: 32 word) i. d OR g i) a xs = 0 \<longleftrightarrow> a = 0 \<and> (\<forall>i\<in>set xs. g i = 0)"
  by (induction xs arbitrary: a) (auto simp: or_eq_0_iff)

lemma char_xor_zero:
  "(word_of_nat (of_char x) XOR word_of_nat (of_char y) :: 32 word) = 0 \<longleftrightarrow> x = y"
proof -
  have "unat (word_of_nat (of_char c) :: 32 word) = of_char c" for c
  proof -
    have "of_char c < (4294967296 :: nat)" by (rule less_trans [OF nat_of_char_less_256]) simp
    then show ?thesis by (simp add: unat_of_nat)
  qed
  then have "(word_of_nat (of_char x) :: 32 word) = word_of_nat (of_char y) \<longleftrightarrow> x = y"
    by (metis of_char_eq_iff)
  moreover have "(a XOR b = 0) = (a = b)" for a b :: "32 word"
    by (auto simp: bit_eq_iff bit_xor_iff)
  ultimately show ?thesis by simp
qed

lemma constant_time_equal_iff: "constant_time_equal lhs rhs \<longleftrightarrow> lhs = rhs"
  by (auto simp: constant_time_equal_def foldl_or_zero char_xor_zero intro: nth_equalityI)

lemma key_allowed_iff: "key_allowed pf key hashes \<longleftrightarrow> sha256_hex pf key \<in> set hashes"
proof -
  have "foldl (\<lambda>matched expected. constant_time_equal d expected \<or> matched) b hs = (b \<or> d \<in> set hs)" for d b hs
    by (induction hs arbitrary: b) (auto simp: constant_time_equal_iff)
  then show ?thesis by (simp add: key_allowed_def Let_def)
qed

text \<open>\<open>constant_time_equal\<close>, which looks at every character before it answers, decides equality,
  and \<open>key_allowed\<close> accepts a key exactly when its SHA-256 is among the hashes of the policy.\<close>

theorem key_allowed_correct:
  "constant_time_equal lhs rhs = (lhs = rhs) \<and> key_allowed pf key hashes = (sha256_hex pf key \<in> set hashes)"
  by (simp add: constant_time_equal_iff key_allowed_iff)

section \<open>Matching the list of patterns\<close>

definition pattern_accepts :: "platform \<Rightarrow> parsed_ip \<Rightarrow> string \<Rightarrow> string \<Rightarrow> bool" where
  "pattern_accepts pf remote comparable raw_pattern \<longleftrightarrow>
     (let pattern = lowercase raw_pattern in
      pattern = ''*'' \<or>
      (if CHR ''/'' \<in> set pattern then in_range pf remote pattern
       else if CHR ''*'' \<in> set pattern then glob comparable pattern
       else (case parse_ip_address pf pattern of None \<Rightarrow> False | Some exact \<Rightarrow> same_ip remote exact)))"

definition ip_accepted :: "platform \<Rightarrow> string \<Rightarrow> string list \<Rightarrow> bool" where
  "ip_accepted pf remote_address patterns \<longleftrightarrow>
     (case parse_ip_address pf remote_address of
        None \<Rightarrow> False
      | Some remote \<Rightarrow> \<exists>p\<in>set patterns. pattern_accepts pf remote (lowercase (address_without_zone remote_address)) p)"

lemma in_lowercase [simp]:
  "CHR ''/'' \<in> set (lowercase s) \<longleftrightarrow> CHR ''/'' \<in> set s"
  "CHR ''*'' \<in> set (lowercase s) \<longleftrightarrow> CHR ''*'' \<in> set s"
  by (metis find_char_None find_char_lowercase)+

lemma lowercase_split:
  assumes "lowercase s = net @ CHR ''/'' # digits" "CHR ''/'' \<notin> set net"
  obtains net' digits' where "s = net' @ CHR ''/'' # digits'" "CHR ''/'' \<notin> set net'"
    "net = lowercase net'" "digits = lowercase digits'"
proof -
  from assms(1) obtain us vs where s: "s = us @ vs" "net = lowercase us" "map to_lower vs = CHR ''/'' # digits"
    by (auto simp: lowercase_def map_eq_append_conv)
  from s(3) obtain c ds where "vs = c # ds" "to_lower c = CHR ''/''" "digits = lowercase ds"
    by (cases vs) (auto simp: lowercase_def)
  with s that assms(2) show thesis by simp
qed

lemma validated_range_total:
  assumes "platform_ok pf" "ip_ok remote" "validate_pattern pf raw = Some True"
  shows "CHR ''/'' \<in> set raw \<Longrightarrow> matches_cidr pf remote (lowercase raw) = Some (in_range pf remote (lowercase raw))"
proof -
  assume slash: "CHR ''/'' \<in> set raw"
  have "\<not> INT32_MAX < int (dec_value 0 digits)"
    if "lowercase raw = net @ CHR ''/'' # digits" "CHR ''/'' \<notin> set net" for net digits
  proof -
    from that obtain net' digits' where raw: "raw = net' @ CHR ''/'' # digits'" "CHR ''/'' \<notin> set net'"
      "digits = lowercase digits'" by (rule lowercase_split)
    from raw(2) have "find_char (CHR ''/'') raw = Some (length net')" unfolding raw(1) by (rule find_char_append)
    with assms(3) raw(1) obtain ip prefix where v: "parse_ip_address pf net' = Some ip" "list_all is_digit digits'"
      "stoi digits' = Some prefix" "prefix \<le> int (ip_size ip * 8)"
      by (auto simp: validate_pattern_def Let_def bind_eq_Some_conv split: option.splits if_splits)
    have "digits = digits'" using raw(3) v(2) by (simp add: lowercase_def map_to_lower_digits)
    moreover have "ip_size ip * 8 \<le> 128" using parse_ip_address_ok [OF assms(1) v(1)] by (auto simp: ip_ok_def)
    ultimately show ?thesis using v(3,4) stoi_digits [OF v(2)] by (auto split: if_splits simp: INT32_MAX_def)
  qed
  with matches_cidr_correct_or [OF assms(1,2), of "lowercase raw"] show ?thesis by blast
qed


lemma set_trim: "set (trim s) \<subseteq> set s"
  using set_dropWhileD [of _ is_space "rev (dropWhile is_space s)"] set_dropWhileD [of _ is_space s]
  by (auto simp: trim_def)

lemma set_address_without_zone: "set (address_without_zone s) \<subseteq> set s"
proof -
  have "set (take n (drop m (trim s))) \<subseteq> set s" for n m
    using set_trim [of s] set_take_subset [of n "drop m (trim s)"] set_drop_subset [of m "trim s"] by blast
  moreover have "set (take n (trim s)) \<subseteq> set s" for n
    using set_trim [of s] set_take_subset [of n "trim s"] by blast
  moreover have "set (take k (take n (drop m (trim s)))) \<subseteq> set s" for k n m
    using calculation(1) [of "min k n" m] by (simp add: min.commute)
  ultimately show ?thesis
    using set_trim [of s] unfolding address_without_zone_def Let_def
    by (auto split: option.splits if_splits dest: in_set_takeD in_set_dropD)
qed

lemma parsed_address_chars:
  assumes "platform_ok pf" "parse_ip_address pf s = Some ip" "CHR 0x00 \<notin> set s"
  shows "address_chars (address_without_zone s)"
proof -
  have "c_str (address_without_zone s) = address_without_zone s"
    using set_address_without_zone [of s] assms(3) unfolding c_str_def by (subst takeWhile_eq_all_conv) auto
  with assms(1,2) show ?thesis
    by (auto simp: parse_ip_address_def platform_ok_def Let_def split: option.splits if_splits)
qed

lemma comparable_no_star:
  assumes "platform_ok pf" "parse_ip_address pf s = Some ip" "CHR 0x00 \<notin> set s"
  shows "CHR ''*'' \<notin> set (lowercase (address_without_zone s))"
proof -
  have "\<not> (is_hex_lower_upper (CHR ''*''))" by (simp add: is_hex_lower_upper_def is_digit_def)
  then show ?thesis using parsed_address_chars [OF assms] by (auto simp: address_chars_def list_all_iff)
qed

lemma ip_allowed_loop_eq:
  assumes "platform_ok pf" "ip_ok remote" "CHR ''*'' \<notin> set comparable"
    and "\<forall>p\<in>set patterns. validate_pattern pf p = Some True"
  shows "ip_allowed_loop pf remote comparable patterns = Some (\<exists>p\<in>set patterns. pattern_accepts pf remote comparable p)"
  using assms(4)
proof (induction patterns)
  case (Cons raw patterns)
  note cidr = validated_range_total [OF assms(1,2), of raw]
  from Cons show ?case
    using cidr wildcard_match_glob [OF assms(3)]
    by (cases "CHR ''/'' \<in> set raw"; cases "CHR ''*'' \<in> set raw"; cases "parse_ip_address pf (lowercase raw)")
      (simp_all add: pattern_accepts_def Let_def find_char_None)
qed simp

lemma ip_allowed_eq:
  assumes "platform_ok pf" "CHR 0x00 \<notin> set remote_address"
    and "\<forall>p\<in>set patterns. validate_pattern pf p = Some True"
  shows "ip_allowed pf remote_address patterns = Some (ip_accepted pf remote_address patterns)"
proof (cases "parse_ip_address pf remote_address")
  case (Some ip)
  with ip_allowed_loop_eq [OF assms(1) parse_ip_address_ok [OF assms(1) Some]
      comparable_no_star [OF assms(1) Some assms(2)] assms(3)]
  show ?thesis by (simp add: ip_allowed_def ip_accepted_def)
qed (simp add: ip_allowed_def ip_accepted_def)

end
