(* ===== verification/AccessPolicy.thy ===== *)
theory AccessPolicy
  imports AccessMatching
begin

text \<open>
  The life of an \<open>openloader_access_control\<close> object and of the pre-routing handler above it:
  the invariant of the loaded snapshot, the decision on every request, how old a snapshot in
  force can be, and what a request must satisfy to reach its route.
\<close>

section \<open>The snapshot that is loaded\<close>

definition snapshot_ok :: "platform \<Rightarrow> snapshot \<Rightarrow> bool" where
  "snapshot_ok pf sn \<longleftrightarrow>
     (if sn_valid sn
      then length (sn_api_key_hashes sn) \<le> 100 \<and> length (sn_ip_allowlist sn) \<le> 256 \<and>
           (\<forall>h\<in>set (sn_api_key_hashes sn). is_valid_hash h \<and> lowercase h = h) \<and>
           (\<forall>p\<in>set (sn_ip_allowlist sn). validate_pattern pf p = Some True) \<and>
           (sn_api_key_enabled sn \<longrightarrow> sn_api_key_hashes sn \<noteq> []) \<and>
           (sn_ip_allowlist_enabled sn \<longrightarrow> sn_ip_allowlist sn \<noteq> [])
      else sn = snapshot_default)"

lemma some_or_Inr [simp]: "some_or e x k = Inr y \<longleftrightarrow> (\<exists>v. x = Some v \<and> k v = Inr y)"
  by (simp add: some_or_def split: option.split)

lemma reject_if_Inr [simp]: "reject_if b e k = Inr y \<longleftrightarrow> \<not> b \<and> k = Inr y"
  by (simp add: reject_if_def)

lemma case_sum_Inr: "(case r of Inl e \<Rightarrow> Inl e | Inr v \<Rightarrow> k v) = Inr y \<longleftrightarrow> (\<exists>v. r = Inr v \<and> k v = Inr y)"
  by (cases r) auto

lemma all_of_True: "all_of f xs = Some True \<longleftrightarrow> (\<forall>x\<in>set xs. f x = Some True)"
  by (induction xs) (auto simp: bind_eq_Some_conv)

lemma lowercase_idem [simp]: "lowercase (lowercase s) = lowercase s"
proof -
  have "to_lower (to_lower c) = to_lower c" for c
    by (simp only: char_eq_code of_char_to_lower) (simp add: Let_def)
  then show ?thesis by (simp add: lowercase_def)
qed

lemma load_hashes_ok:
  "load_hashes ks = Inr hs \<Longrightarrow> length hs = length ks \<and> (\<forall>h\<in>set hs. is_valid_hash h \<and> lowercase h = h)"
  by (induction ks arbitrary: hs) (auto simp: Let_def case_sum_Inr)

lemma load_policy_ok:
  assumes "load_policy pf j = Inr sn"
  shows "sn_valid sn \<and> snapshot_ok pf sn"
proof -
  from assms obtain patterns hashes ks kb ib v where
    p: "(if 256 < length patterns then Some False else all_of (validate_pattern pf) patterns) = Some v"
      "length patterns \<le> 256" "v" and
    k: "length ks \<le> 100" "load_hashes ks = Inr hashes" "\<not> kb \<or> hashes \<noteq> []" "\<not> ib \<or> patterns \<noteq> []" and
    sn: "\<lparr>sn_valid = True, sn_api_key_enabled = kb, sn_ip_allowlist_enabled = ib,
           sn_api_key_hashes = hashes, sn_ip_allowlist = patterns\<rparr> = sn"
    unfolding load_policy_def some_or_Inr reject_if_Inr case_sum_Inr de_Morgan_disj de_Morgan_conj not_not not_less
      sum.inject
    by (elim exE conjE) (rule that)
  from p have "\<forall>p\<in>set patterns. validate_pattern pf p = Some True" by (simp add: all_of_True)
  with p k load_hashes_ok [OF k(2)] show ?thesis unfolding sn [symmetric] snapshot_ok_def by simp
qed


section \<open>The controller over its lifetime\<close>

text \<open>A call that throws out of \<open>authorize\<close> has refreshed the snapshot before.\<close>

inductive ac_reachable :: "platform \<Rightarrow> access_control \<Rightarrow> bool" for pf where
  ac_new: "ac_reachable pf (access_control_new path)"
| ac_call: "ac_reachable pf a \<Longrightarrow> authorize pf now file remote key validate a = Some (a', d) \<Longrightarrow> ac_reachable pf a'"
| ac_throw: "ac_reachable pf a \<Longrightarrow> authorize pf now file remote key validate a = None \<Longrightarrow>
    ac_reachable pf (refresh_locked pf now file a)"

definition load_file :: "platform \<Rightarrow> string option \<Rightarrow> policy_error + snapshot" where
  "load_file pf file = some_or (Policy_error ''cannot open access-control snapshot'') file (\<lambda>content.
     some_or Json_error (json_parse pf content) (load_policy pf))"

definition snapshot_of :: "platform \<Rightarrow> string option \<Rightarrow> snapshot" where
  "snapshot_of pf file = (case load_file pf file of Inl _ \<Rightarrow> snapshot_default | Inr sn \<Rightarrow> sn)"

lemma refresh_current:
  "ac_current (refresh_locked pf now file a) =
     (if (case ac_next_refresh a of None \<Rightarrow> False | Some t \<Rightarrow> now < t) then ac_current a else snapshot_of pf file)"
  "ac_path (refresh_locked pf now file a) = ac_path a"
  "ac_next_refresh (refresh_locked pf now file a) =
     (if (case ac_next_refresh a of None \<Rightarrow> False | Some t \<Rightarrow> now < t) then ac_next_refresh a
      else Some (now + refresh_interval))"
  by (cases "load_file pf file"; simp add: refresh_locked_def snapshot_of_def load_file_def [symmetric] Let_def)+

lemma snapshot_default_ok: "snapshot_ok pf snapshot_default"
  by (simp add: snapshot_ok_def snapshot_default_def)

lemma load_file_ok: "load_file pf file = Inr sn \<Longrightarrow> sn_valid sn \<and> snapshot_ok pf sn"
  by (auto simp: load_file_def dest: load_policy_ok)

lemma snapshot_of_ok: "snapshot_ok pf (snapshot_of pf file)"
  using load_file_ok [of pf "file"] by (auto simp: snapshot_of_def snapshot_default_ok split: sum.split)

text \<open>The invariant of the class.\<close>

definition ac_inv :: "platform \<Rightarrow> access_control \<Rightarrow> bool" where
  "ac_inv pf a \<longleftrightarrow> snapshot_ok pf (ac_current a) \<and>
     (case ac_next_refresh a of
        None \<Rightarrow> ac_current a = snapshot_default \<and> ac_error a = None
      | Some _ \<Rightarrow> sn_valid (ac_current a) \<longleftrightarrow> ac_error a = None)"

lemma ac_inv_new: "ac_inv pf (access_control_new path)"
  by (simp add: ac_inv_def access_control_new_def snapshot_default_ok)

lemma ac_inv_refresh:
  assumes "ac_inv pf a"
  shows "ac_inv pf (refresh_locked pf now file a)"
proof (cases "case ac_next_refresh a of None \<Rightarrow> False | Some t \<Rightarrow> now < t")
  case True
  with assms show ?thesis by (simp add: refresh_locked_def)
next
  case False
  then show ?thesis
  proof (cases "load_file pf file")
    case (Inl e)
    with False show ?thesis
      by (simp add: ac_inv_def refresh_locked_def load_file_def [symmetric] snapshot_default_ok)
        (simp add: snapshot_default_def)
  next
    case (Inr sn)
    with False load_file_ok [OF Inr] show ?thesis
      by (simp add: ac_inv_def refresh_locked_def load_file_def [symmetric])
  qed
qed

lemma authorize_state:
  assumes "authorize pf now file remote key validate a = Some (a', d)"
  shows "a' = (if configured a then refresh_locked pf now file a else a)"
  using assms by (auto simp: authorize_def Let_def bind_eq_Some_conv split: if_split_asm)

lemma ac_inv_reachable: "ac_reachable pf a \<Longrightarrow> ac_inv pf a"
  by (induction rule: ac_reachable.induct) (auto simp: ac_inv_new ac_inv_refresh dest!: authorize_state)

text \<open>The decision as the policy states it.\<close>

definition policy_decision :: "platform \<Rightarrow> snapshot \<Rightarrow> string \<Rightarrow> string \<Rightarrow> bool \<Rightarrow> decision" where
  "policy_decision pf sn remote key validate =
     (if \<not> sn_valid sn then Policy_unavailable
      else if sn_ip_allowlist_enabled sn \<and> \<not> ip_accepted pf remote (sn_ip_allowlist sn) then Ip_not_allowed
      else if validate \<and> sn_api_key_enabled sn \<and> sha256_hex pf key \<notin> set (sn_api_key_hashes sn) then Invalid_api_key
      else Allowed)"

lemma authorize_eq:
  assumes "platform_ok pf" "ac_inv pf a" "CHR 0x00 \<notin> set remote"
  shows "authorize pf now file remote key validate a =
    (if \<not> configured a then Some (a, Allowed)
     else let a' = refresh_locked pf now file a in
       Some (a', policy_decision pf (ac_current a') remote key validate))"
proof -
  have ok: "snapshot_ok pf (ac_current (refresh_locked pf now file a))"
    using ac_inv_refresh [OF assms(2)] by (simp add: ac_inv_def)
  show ?thesis
  proof (cases "sn_valid (ac_current (refresh_locked pf now file a))")
    case True
    with ok have "ip_allowed pf remote (sn_ip_allowlist (ac_current (refresh_locked pf now file a)))
      = Some (ip_accepted pf remote (sn_ip_allowlist (ac_current (refresh_locked pf now file a))))"
      by (intro ip_allowed_eq assms(1,3)) (simp add: snapshot_ok_def)
    with True show ?thesis
      by (auto simp: authorize_def policy_decision_def Let_def key_allowed_iff)
  qed (simp add: authorize_def policy_decision_def Let_def)
qed

text \<open>C4. In every state an access controller can reach, a request from an address without a NUL
  character is decided without an exception and exactly as the policy says: unavailable when no valid snapshot
  could be loaded, refused when the allowlist is enabled and no entry (any, range, wildcard or exact address)
  accepts the address, refused when a key is demanded and its SHA-256 is not in the list, allowed otherwise;
  an unconfigured controller allows everything.\<close>

theorem authorize_decides:
  assumes "platform_ok pf" "ac_reachable pf a" "CHR 0x00 \<notin> set remote"
  shows "authorize pf now file remote key validate a =
    (if \<not> configured a then Some (a, Allowed)
     else let a' = refresh_locked pf now file a in
       Some (a', policy_decision pf (ac_current a') remote key validate))"
  using authorize_eq [OF assms(1) ac_inv_reachable [OF assms(2)] assms(3)] .

text \<open>C16. In every state an access controller can reach, a snapshot in force is complete and checked
  (at most 100 hashes, each 64 lower-case hexadecimal digits; at most 256 patterns, each validated; no
  enabled list empty), a snapshot that could not be loaded leaves the empty one, which is not valid, and the
  error text is empty exactly when the last load succeeded.\<close>

theorem ac_reachable_inv:
  assumes "ac_reachable pf a"
  shows "snapshot_ok pf (ac_current a) \<and>
    (case ac_next_refresh a of
       None \<Rightarrow> ac_current a = snapshot_default \<and> ac_error a = None
     | Some _ \<Rightarrow> sn_valid (ac_current a) = (ac_error a = None))"
  using ac_inv_reachable [OF assms] by (simp add: ac_inv_def)


definition demo_controller :: access_control where
  "demo_controller = access_control_new '' /tmp/p ''"

lemma demo_configured: "configured demo_controller"
  by (simp add: configured_def demo_controller_def access_control_new_def trim_def is_space_def)

lemma demo_hashes:
  "load_hashes [JObj [(''hash'', JStr (replicate 64 (CHR ''A'')))]] = Inr [replicate 64 (CHR ''a'')]"
proof -
  have "lowercase (replicate 64 (CHR ''A'')) = replicate 64 (CHR ''a'')"
    by (simp only: lowercase_def map_replicate) (rule arg_cong [of _ _ "replicate 64"], code_simp)
  moreover have "is_valid_hash (replicate 64 (CHR ''a''))"
    by (simp only: is_valid_hash_def length_replicate list_all_iff set_replicate_conv_if)
      (simp add: is_hex_lower_upper_def is_digit_def)
  ultimately show ?thesis by (simp add: some_or_def reject_if_def del: replicate.simps)
qed

lemma demo_patterns_valid: "all_of (validate_pattern demo_platform) [''::1'', ''10.16.0.0/12''] = Some True"
  by code_simp

definition demo_snapshot :: snapshot where
  "demo_snapshot = \<lparr>sn_valid = True, sn_api_key_enabled = True, sn_ip_allowlist_enabled = True,
      sn_api_key_hashes = [replicate 64 (CHR ''a'')], sn_ip_allowlist = [''::1'', ''10.16.0.0/12'']\<rparr>"

lemma demo_root_at:
  "json_at ''version'' demo_root = Some (JInt 1)"
  "json_at ''policy'' demo_root = Some (JObj [(''api_key_enabled'', JBool True), (''ip_allowlist_enabled'', JBool True),
        (''ip_allowlist'', JArr [JStr ''::1'', JStr ''10.16.0.0/12''])])"
  "json_at ''keys'' demo_root = Some (JArr [JObj [(''hash'', JStr (replicate 64 (CHR ''A'')))]])"
  "json_is_object demo_root"
  by (simp_all add: demo_root_def)

lemma demo_load_policy: "load_policy demo_platform demo_root = Inr demo_snapshot"
proof -
  have v: "json_value_int demo_platform ''version'' 0 demo_root = Some 1" by (simp add: json_value_int_def demo_root_at)
  show ?thesis
    unfolding load_policy_def some_or_def reject_if_def demo_root_at v
    by (simp add: demo_hashes demo_patterns_valid demo_snapshot_def demo_root_at(4)
        del: replicate.simps all_of.simps load_hashes.simps)
qed

lemma demo_load: "snapshot_of demo_platform (Some ''policy'') = demo_snapshot"
proof -
  have "json_parse demo_platform ''policy'' = Some demo_root" by (simp add: demo_platform_def)
  then have "load_file demo_platform (Some ''policy'') = Inr demo_snapshot"
    by (simp add: load_file_def some_or_def demo_load_policy)
  then show ?thesis by (simp add: snapshot_of_def)
qed

lemma demo_current:
  "ac_current (refresh_locked demo_platform 5 (Some ''policy'') demo_controller) = demo_snapshot"
  by (simp add: refresh_current demo_load demo_controller_def access_control_new_def)

lemma demo_ip_allowed:
  "ip_allowed demo_platform ''10.20.3.4'' [''::1'', ''10.16.0.0/12''] = Some True"
  by code_simp

lemma demo_digest:
  "sha256_hex demo_platform ''secret'' = replicate 64 (CHR ''a'')"
  "sha256_hex demo_platform ''other'' = replicate 64 (CHR ''b'')"
  by (simp_all add: demo_platform_def)

lemma demo_decisions:
  "authorize demo_platform 5 (Some ''policy'') ''10.20.3.4'' ''secret'' True demo_controller =
     Some (refresh_locked demo_platform 5 (Some ''policy'') demo_controller, Allowed)"
  "authorize demo_platform 5 (Some ''policy'') ''10.20.3.4'' ''other'' True demo_controller =
     Some (refresh_locked demo_platform 5 (Some ''policy'') demo_controller, Invalid_api_key)"
  by (simp_all add: authorize_def demo_configured demo_current demo_snapshot_def demo_ip_allowed key_allowed_iff demo_digest
      replicate_eq_replicate)


lemma authorize_decides_witness:
  "authorize demo_platform 5 (Some ''policy'') ''10.20.3.4'' ''other'' True demo_controller =
     Some (refresh_locked demo_platform 5 (Some ''policy'') demo_controller,
       policy_decision demo_platform demo_snapshot ''10.20.3.4'' ''other'' True) \<and>
   policy_decision demo_platform demo_snapshot ''10.20.3.4'' ''other'' True = Invalid_api_key"
proof -
  have "ac_reachable demo_platform demo_controller"
    unfolding demo_controller_def by (rule ac_new)
  from authorize_decides [OF demo_platform_ok this, of "''10.20.3.4''" 5 "Some ''policy''" "''other''" True]
  have eq: "authorize demo_platform 5 (Some ''policy'') ''10.20.3.4'' ''other'' True demo_controller =
     Some (refresh_locked demo_platform 5 (Some ''policy'') demo_controller,
       policy_decision demo_platform demo_snapshot ''10.20.3.4'' ''other'' True)"
    by (simp add: demo_configured demo_current)
  then show ?thesis using demo_decisions(2) by simp
qed

lemma ac_reachable_inv_witness:
  "snapshot_ok demo_platform (ac_current (refresh_locked demo_platform 5 (Some ''policy'') demo_controller))"
  using ac_reachable_inv [OF ac_call [OF ac_new demo_decisions(1) [unfolded demo_controller_def]]]
  by (simp add: demo_controller_def)

section \<open>How old a snapshot in force can be\<close>

text \<open>A call of \<open>authorize\<close>: the time, the file at that time, the address, the key, and whether
  a key is demanded.\<close>

type_synonym ac_call = "int \<times> string option \<times> string \<times> string \<times> bool"

fun after_call :: "platform \<Rightarrow> access_control \<Rightarrow> ac_call \<Rightarrow> access_control" where
  "after_call pf a (now, content, remote, key, validate) =
     (case authorize pf now content remote key validate a of
        Some (a', _) \<Rightarrow> a'
      | None \<Rightarrow> refresh_locked pf now content a)"

lemma after_call_refresh:
  "configured a \<Longrightarrow> after_call pf a (now, content, remote, key, validate) = refresh_locked pf now content a"
  using authorize_state [of pf now content remote key validate a]
  by (auto split: option.split)

lemma configured_after: "configured (after_call pf a c) = configured a"
proof (cases c)
  case (fields now content remote key validate)
  then show ?thesis
    using authorize_state [of pf now content remote key validate a]
    by (auto simp: configured_def refresh_current split: option.split if_splits)
qed

lemma calls_fresh:
  assumes "configured a" "ac_next_refresh a = None" "calls \<noteq> []" "sorted (map fst calls)"
  shows "configured (foldl (after_call pf) a calls) \<and>
    (\<exists>(t, content, _)\<in>set calls. t \<le> fst (last calls) \<and> fst (last calls) < t + refresh_interval \<and>
      ac_current (foldl (after_call pf) a calls) = snapshot_of pf content \<and>
      ac_next_refresh (foldl (after_call pf) a calls) = Some (t + refresh_interval))"
  using assms(3,4)
proof (induction calls rule: rev_induct)
  case (snoc c calls)
  obtain now content remote key validate where c: "c = (now, content, remote, key, validate)" by (cases c)
  let ?s = "foldl (after_call pf) a calls"
  have pos: "0 < refresh_interval" by (simp add: refresh_interval_def)
  have conf: "configured ?s" using assms(1) snoc.IH snoc.prems by (cases "calls = []") (auto simp: sorted_append)
  note run = after_call_refresh [OF conf, of pf now content remote key validate]
  have conf': "configured (after_call pf ?s c)" using conf by (simp add: configured_after)
  show ?case
  proof (cases "case ac_next_refresh ?s of None \<Rightarrow> False | Some t \<Rightarrow> now < t")
    case False
    with pos conf' show ?thesis
      by (intro conjI bexI [of _ c]) (simp_all add: c run refresh_current configured_def del: after_call.simps)
  next
    case True
    then have "calls \<noteq> []" using assms(2) by auto
    with snoc.IH snoc.prems obtain t content' rest where
      t: "(t, content', rest) \<in> set calls" "ac_current ?s = snapshot_of pf content'"
         "ac_next_refresh ?s = Some (t + refresh_interval)"
      by (auto simp: sorted_append)
    have "t \<le> now" using t(1) snoc.prems by (force simp: sorted_append c)
    with t True conf' show ?thesis
      by (intro conjI bexI [of _ "(t, content', rest)"]) (simp_all add: c run refresh_current configured_def del: after_call.simps)
  qed
qed simp

text \<open>C17. After any calls of a configured controller, at times that do not decrease, the snapshot in force is the
  one read from the file during a call of this history less than ten seconds before the last one (the empty,
  invalid snapshot when that read failed): a policy that became unreadable is not used for longer.\<close>

theorem snapshot_fresh:
  assumes "trim path \<noteq> []" "calls \<noteq> []" "sorted (map fst calls)"
  shows "\<exists>(t, content, _)\<in>set calls. t \<le> fst (last calls) \<and> fst (last calls) < t + 10 * 1000000000 \<and>
    ac_current (foldl (after_call pf) (access_control_new path) calls) = snapshot_of pf content"
proof -
  have "configured (access_control_new path)" "ac_next_refresh (access_control_new path) = None"
    using assms(1) by (simp_all add: configured_def access_control_new_def)
  from calls_fresh [OF this assms(2,3), of pf] show ?thesis
    unfolding refresh_interval_def by fastforce
qed


lemma snapshot_fresh_witness:
  "\<exists>(t, content, _)\<in>set [(5, Some ''policy'', ''10.20.3.4'', ''secret'', True), (7, None, ''::1'', ''x'', False)].
    t \<le> (7 :: int) \<and> 7 < t + 10 * 1000000000 \<and>
    ac_current (foldl (after_call demo_platform) (access_control_new ''/tmp/p'')
      [(5, Some ''policy'', ''10.20.3.4'', ''secret'', True), (7, None, ''::1'', ''x'', False)])
    = snapshot_of demo_platform content"
proof -
  have "trim ''/tmp/p'' \<noteq> []" by (simp add: trim_def is_space_def)
  from snapshot_fresh [OF this, of "[(5, Some ''policy'', ''10.20.3.4'', ''secret'', True), (7, None, ''::1'', ''x'', False)]"
      demo_platform]
  show ?thesis by (simp del: after_call.simps)
qed

section \<open>Reaching a route\<close>

text \<open>What the server itself demands of a request: that it is ready or the path a frontend asset, and a key of its
  own list, when there is one and the path is not public.\<close>

definition serving :: "http_config \<Rightarrow> bool \<Rightarrow> http_request \<Rightarrow> bool" where
  "serving cfg is_ready req \<longleftrightarrow> is_ready \<or> rq_path req \<in> set (cfg_frontend_paths cfg)"

definition key_accepted :: "http_config \<Rightarrow> http_request \<Rightarrow> bool" where
  "key_accepted cfg req \<longleftrightarrow> cfg_api_keys cfg = [] \<or> rq_path req \<in> public_endpoints cfg \<or>
      (\<exists>key\<in>set (cfg_api_keys cfg). let h = (if rq_header req ''Authorization'' = [] then rq_header req ''X-Api-Key''
          else rq_header req ''Authorization'') in
         h = ''Bearer '' @ key \<or> h = key \<and> take 7 h \<noteq> ''Bearer '')"

lemma validate_api_key_eq:
  "validate_api_key cfg req \<longleftrightarrow> cfg_api_keys cfg = [] \<or> rq_path req \<in> public_endpoints cfg \<or>
      (\<exists>key\<in>set (cfg_api_keys cfg). let h = (if rq_header req ''Authorization'' = [] then rq_header req ''X-Api-Key''
          else rq_header req ''Authorization'') in
         h = ''Bearer '' @ key \<or> h = key \<and> take 7 h \<noteq> ''Bearer '')"
proof -
  have "(if take 7 h = ''Bearer '' then drop 7 h else h) \<in> K \<longleftrightarrow>
      (\<exists>key\<in>K. h = ''Bearer '' @ key \<or> h = key \<and> take 7 h \<noteq> ''Bearer '')" for h :: string and K
  proof (cases "take 7 h = ''Bearer ''")
    case True
    then have "h = ''Bearer '' @ key \<longleftrightarrow> drop 7 h = key" for key
      by (metis append_eq_conv_conj append_take_drop_id length_append_singleton)
    with True show ?thesis by auto
  next
    case False
    then have "h \<noteq> ''Bearer '' @ key" for key by auto
    with False show ?thesis by auto
  qed
  note fact = this
  have len: "length ''Bearer '' = 7" by simp
  show ?thesis unfolding validate_api_key_def Let_def len by (simp only: fact) simp
qed

text \<open>C6. In every state of the access controller, a request from an address without a NUL character is routed
  without an exception, after one policy decision (with the key demanded unless the request is OPTIONS or its path
  public). The answer is fixed by it: 403 exactly for an address that is not allowed; 401 exactly for a key the policy
  rejects, or one the server's own list rejects once it serves the path; 503 exactly without a usable policy, or while
  the server does not serve the path; a response without a status set exactly for an allowed OPTIONS request; and the
  request goes on to its route in exactly the remaining case.\<close>

theorem request_routing:
  assumes "platform_ok pf" "ac_reachable pf a" "CHR 0x00 \<notin> set (rq_remote_addr req)"
  shows "\<exists>a' d r.
    authorize pf now content (rq_remote_addr req) (openloader_request_api_key req)
      (rq_method req \<noteq> ''OPTIONS'' \<and> rq_path req \<notin> public_endpoints cfg) a = Some (a', d) \<and>
    pre_routing pf cfg is_ready now content req a = Some (a', r) \<and>
    (r = Handled (Some 403) \<longleftrightarrow> d = Ip_not_allowed) \<and>
    (r = Handled (Some 401) \<longleftrightarrow> d = Invalid_api_key \<or>
       d = Allowed \<and> rq_method req \<noteq> ''OPTIONS'' \<and> serving cfg is_ready req \<and> \<not> key_accepted cfg req) \<and>
    (r = Handled (Some 503) \<longleftrightarrow> d = Policy_unavailable \<or>
       d = Allowed \<and> rq_method req \<noteq> ''OPTIONS'' \<and> \<not> serving cfg is_ready req) \<and>
    (r = Handled None \<longleftrightarrow> d = Allowed \<and> rq_method req = ''OPTIONS'') \<and>
    (r = Unhandled \<longleftrightarrow> d = Allowed \<and> rq_method req \<noteq> ''OPTIONS'' \<and> serving cfg is_ready req \<and> key_accepted cfg req)"
proof -
  obtain a' d where auth: "authorize pf now content (rq_remote_addr req) (openloader_request_api_key req)
      (rq_method req \<noteq> ''OPTIONS'' \<and> rq_path req \<notin> public_endpoints cfg) a = Some (a', d)"
    unfolding authorize_eq [OF assms(1) ac_inv_reachable [OF assms(2)] assms(3)] Let_def
    by (cases "configured a") simp_all
  have key: "validate_api_key cfg req \<longleftrightarrow> key_accepted cfg req" unfolding key_accepted_def by (rule validate_api_key_eq)
  have "serving cfg is_ready req \<longleftrightarrow> server_state_ok cfg is_ready req" by (simp add: serving_def server_state_ok_def)
  with auth show ?thesis
    unfolding pre_routing_def Let_def auth key by (cases d) (simp_all add: decision_status_def)
qed


lemma request_routing_witness:
  "\<exists>a' a'' d.
    authorize demo_platform 5 (Some ''policy'') ''10.20.3.4'' ''secret'' True demo_controller = Some (a', d) \<and> d = Allowed \<and>
    pre_routing demo_platform \<lparr>cfg_api_keys = [], cfg_frontend_paths = [''/'']\<rparr> True 5 (Some ''policy'')
      \<lparr>rq_method = ''POST'', rq_path = ''/completion'', rq_remote_addr = ''10.20.3.4'',
       rq_header = (\<lambda>h. if h = ''Authorization'' then ''bearer secret '' else [])\<rparr> demo_controller = Some (a', Unhandled) \<and>
    pre_routing demo_platform \<lparr>cfg_api_keys = [''own''], cfg_frontend_paths = [''/'']\<rparr> True 5 (Some ''policy'')
      \<lparr>rq_method = ''POST'', rq_path = ''/completion'', rq_remote_addr = ''10.20.3.4'',
       rq_header = (\<lambda>h. if h = ''Authorization'' then ''bearer secret '' else [])\<rparr> demo_controller = Some (a'', Handled (Some 401))"
proof -
  let ?cfg = "\<lparr>cfg_api_keys = [], cfg_frontend_paths = [''/'']\<rparr>" and ?own = "\<lparr>cfg_api_keys = [''own''], cfg_frontend_paths = [''/'']\<rparr>"
  let ?req = "\<lparr>rq_method = ''POST'', rq_path = ''/completion'', rq_remote_addr = ''10.20.3.4'',
       rq_header = (\<lambda>h. if h = ''Authorization'' then ''bearer secret '' else [])\<rparr>"
  have key: "openloader_request_api_key ?req = ''secret''" by code_simp
  have r: "ac_reachable demo_platform demo_controller" unfolding demo_controller_def by (rule ac_new)
  have v: "rq_method ?req \<noteq> ''OPTIONS'' \<and> rq_path ?req \<notin> public_endpoints ?cfg" "rq_method ?req \<noteq> ''OPTIONS'' \<and> rq_path ?req \<notin> public_endpoints ?own"
    by (simp_all add: public_endpoints_def)
  have k: "serving ?cfg True ?req" "key_accepted ?cfg ?req" "serving ?own True ?req" "\<not> key_accepted ?own ?req"
    by (simp_all add: serving_def key_accepted_def public_endpoints_def)
  have nul: "CHR 0x00 \<notin> set (rq_remote_addr ?req)" by simp
  obtain a' d where auth: "authorize demo_platform 5 (Some ''policy'') ''10.20.3.4'' ''secret'' True demo_controller = Some (a', d)" "d = Allowed"
    using demo_decisions(1) by auto
  from request_routing [OF demo_platform_ok r nul, of 5 "Some ''policy''" ?cfg True] auth v(1) k(1,2)
  have "pre_routing demo_platform ?cfg True 5 (Some ''policy'') ?req demo_controller = Some (a', Unhandled)"
    unfolding key by auto
  moreover from request_routing [OF demo_platform_ok r nul, of 5 "Some ''policy''" ?own True] auth v(2) k(3,4)
  have "pre_routing demo_platform ?own True 5 (Some ''policy'') ?req demo_controller = Some (a', Handled (Some 401))"
    unfolding key by auto
  ultimately show ?thesis using auth by blast
qed

end
