(* ===== verification/Utf8.thy ===== *)
theory Utf8
  imports Prelude "HOL-Library.Word"
begin

text \<open>
  Code points and UTF-8 (\<open>unicode.cpp\<close>): encoding one code point, decoding the one at an offset, and decoding a
  text with the replacement character for invalid bytes. A string is the list of its bytes; \<open>Some None\<close> is the
  exception that a decoder throws.
\<close>

type_synonym byte = "8 word"
type_synonym u32 = "32 word"

section \<open>Encoding\<close>

definition unicode_len_utf8 :: "byte \<Rightarrow> nat" where
  "unicode_len_utf8 b = [1, 1, 1, 1, 1, 1, 1, 1, 1, 1, 1, 1, 2, 2, 3, 4] ! unat (drop_bit 4 b)"

definition cpt_to_utf8 :: "u32 \<Rightarrow> byte list option" where
  \<comment> \<open>no value: the exception for an invalid code point\<close>
  "cpt_to_utf8 cpt =
     (if cpt \<le> 0x7f then Some [ucast cpt]
      else if 0x80 \<le> cpt \<and> cpt \<le> 0x7ff then
        Some [ucast (or 0xc0 (and (drop_bit 6 cpt) 0x1f)), ucast (or 0x80 (and cpt 0x3f))]
      else if 0x800 \<le> cpt \<and> cpt \<le> 0xffff then
        Some [ucast (or 0xe0 (and (drop_bit 12 cpt) 0x0f)), ucast (or 0x80 (and (drop_bit 6 cpt) 0x3f)), ucast (or 0x80 (and cpt 0x3f))]
      else if 0x10000 \<le> cpt \<and> cpt \<le> 0x10ffff then
        Some [ucast (or 0xf0 (and (drop_bit 18 cpt) 0x07)), ucast (or 0x80 (and (drop_bit 12 cpt) 0x3f)),
          ucast (or 0x80 (and (drop_bit 6 cpt) 0x3f)), ucast (or 0x80 (and cpt 0x3f))]
      else None)"

definition cpts_to_utf8 :: "u32 list \<Rightarrow> byte list option" where
  "cpts_to_utf8 cps = foldM (\<lambda>c res. do { bs \<leftarrow> cpt_to_utf8 c; Some (res @ bs) }) cps []"

section \<open>Decoding\<close>

definition is_cont :: "byte list \<Rightarrow> nat \<Rightarrow> bool" where
  \<comment> \<open>a continuation byte follows\<close>
  "is_cont s i \<longleftrightarrow> i < length s \<and> and (s ! i) 0xc0 = 0x80"

definition low6 :: "byte list \<Rightarrow> nat \<Rightarrow> u32" where
  "low6 s i = and (ucast (s ! i)) 0x3f"

definition cpt_from_utf8 :: "byte list \<Rightarrow> nat \<Rightarrow> (u32 \<times> nat) option option" where
  "cpt_from_utf8 s off = do {
     b \<leftarrow> at s off;
     (if and b 0x80 = 0 then Some (Some (ucast b, off + 1))
      else if and b 0x40 = 0 then Some None
      else if and b 0x20 = 0 then
        (if \<not> is_cont s (off + 1) then Some None
         else Some (Some (or (push_bit 6 (and (ucast b) 0x1f)) (low6 s (off + 1)), off + 2)))
      else if and b 0x10 = 0 then
        (if \<not> is_cont s (off + 1) \<or> \<not> is_cont s (off + 2) then Some None
         else Some (Some (or (or (push_bit 12 (and (ucast b) 0x0f)) (push_bit 6 (low6 s (off + 1)))) (low6 s (off + 2)), off + 3)))
      else if and b 0x08 = 0 then
        (if \<not> is_cont s (off + 1) \<or> \<not> is_cont s (off + 2) \<or> \<not> is_cont s (off + 3) then Some None
         else Some (Some (or (or (or (push_bit 18 (and (ucast b) 0x07)) (push_bit 12 (low6 s (off + 1)))) (push_bit 6 (low6 s (off + 2))))
           (low6 s (off + 3)), off + 4)))
      else Some None)
   }"

lemma cpt_from_utf8_ahead: "cpt_from_utf8 s off = Some (Some (c, off')) \<Longrightarrow> off < off'"
  by (auto simp: cpt_from_utf8_def Option.bind_eq_Some_conv split: if_splits)

lemma cpt_from_utf8_total: "off < length s \<Longrightarrow> cpt_from_utf8 s off \<noteq> None"
  by (simp add: cpt_from_utf8_def)

function cpts_loop :: "byte list \<Rightarrow> nat \<Rightarrow> u32 list \<Rightarrow> u32 list option" where
  "cpts_loop s off res =
     (if off < length s then
        (case cpt_from_utf8 s off of
           None \<Rightarrow> None
         | Some None \<Rightarrow> cpts_loop s (off + 1) (res @ [0xFFFD])
         | Some (Some (c, off')) \<Rightarrow> cpts_loop s off' (res @ [c]))
      else Some res)"
  by pat_completeness auto
termination
  by (relation "measure (\<lambda>(s, off, res). length s - off)") (auto dest: cpt_from_utf8_ahead)

declare cpts_loop.simps [simp del]

definition cpts_from_utf8 :: "byte list \<Rightarrow> u32 list option" where
  "cpts_from_utf8 s = cpts_loop s 0 []"

section \<open>What an encoded code point decodes to\<close>

lemma and_masks:
  "and x 0x3f = take_bit 6 (x :: u32)" "and x 0x1f = take_bit 5 x" "and x 0x0f = take_bit 4 x" "and x 0x07 = take_bit 3 x"
  by (simp_all add: take_bit_eq_mask mask_eq_exp_minus_1)

lemma high_bits: "unat (x :: u32) < 2 ^ k \<Longrightarrow> k \<le> n \<Longrightarrow> \<not> bit x n"
proof
  assume x: "unat x < 2 ^ k" "k \<le> n" and b: "bit x n"
  have "bit (unat x) n" using b by transfer (simp add: bit_take_bit_iff bit_nat_iff)
  then have "odd (unat x div 2 ^ n)" by (simp add: bit_iff_odd)
  then have "unat x div 2 ^ n \<noteq> 0" by (intro notI) simp
  moreover have "unat x < 2 ^ n" using x by (meson le_less_trans less_le_trans one_le_numeral power_increasing)
  ultimately show False by simp
qed

lemma low_bits: "take_bit k (m :: 'a :: semiring_bit_operations) = 0 \<Longrightarrow> n < k \<Longrightarrow> \<not> bit m n"
  by (metis bit_0_eq bit_take_bit_iff bot_apply bot_bool_def)

text \<open>The bits of the parts: what an encoder takes apart, the decoder puts together.\<close>

lemma tag_bits:
  "n < 7 \<Longrightarrow> \<not> bit (0x80 :: u32) n" "n < 6 \<Longrightarrow> \<not> bit (0xc0 :: u32) n" "n < 5 \<Longrightarrow> \<not> bit (0xe0 :: u32) n" "n < 4 \<Longrightarrow> \<not> bit (0xf0 :: u32) n"
  "n < 7 \<Longrightarrow> \<not> bit (0x80 :: byte) n" "n < 6 \<Longrightarrow> \<not> bit (0xc0 :: byte) n" "n < 5 \<Longrightarrow> \<not> bit (0xe0 :: byte) n" "n < 4 \<Longrightarrow> \<not> bit (0xf0 :: byte) n"
  "n < 7 \<Longrightarrow> \<not> bit (0x80 :: int) n" "n < 6 \<Longrightarrow> \<not> bit (0xc0 :: int) n" "n < 5 \<Longrightarrow> \<not> bit (0xe0 :: int) n" "n < 4 \<Longrightarrow> \<not> bit (0xf0 :: int) n"
  by (rule low_bits; simp)+

lemma join_bits:
  assumes "unat (c :: u32) < 2 ^ 11"
  shows "or (push_bit 6 (take_bit 5 (ucast (ucast (or 0xc0 (take_bit 5 (drop_bit 6 c))) :: byte) :: u32)))
    (take_bit 6 (ucast (ucast (or 0x80 (take_bit 6 c)) :: byte) :: u32)) = c"
proof (rule bit_word_eqI)
  fix n assume "n < LENGTH(32)"
  have hi: "11 \<le> n \<Longrightarrow> \<not> bit c n" using high_bits [OF assms] .
  show "bit (or (push_bit 6 (take_bit 5 (ucast (ucast (or 0xc0 (take_bit 5 (drop_bit 6 c))) :: byte) :: u32)))
    (take_bit 6 (ucast (ucast (or 0x80 (take_bit 6 c)) :: byte) :: u32))) n = bit c n"
    using hi by (cases "n < 6"; cases "n < 11") (auto simp: bit_simps tag_bits)
qed

lemma join_bits3:
  assumes "unat (c :: u32) < 2 ^ 16"
  shows "or (or (push_bit 12 (take_bit 4 (ucast (ucast (or 0xe0 (take_bit 4 (drop_bit 12 c))) :: byte) :: u32)))
    (push_bit 6 (take_bit 6 (ucast (ucast (or 0x80 (take_bit 6 (drop_bit 6 c))) :: byte) :: u32))))
    (take_bit 6 (ucast (ucast (or 0x80 (take_bit 6 c)) :: byte) :: u32)) = c"
proof (rule bit_word_eqI)
  fix n assume "n < LENGTH(32)"
  have hi: "16 \<le> n \<Longrightarrow> \<not> bit c n" using high_bits [OF assms] .
  show "bit (or (or (push_bit 12 (take_bit 4 (ucast (ucast (or 0xe0 (take_bit 4 (drop_bit 12 c))) :: byte) :: u32)))
    (push_bit 6 (take_bit 6 (ucast (ucast (or 0x80 (take_bit 6 (drop_bit 6 c))) :: byte) :: u32))))
    (take_bit 6 (ucast (ucast (or 0x80 (take_bit 6 c)) :: byte) :: u32))) n = bit c n"
    using hi by (cases "n < 6"; cases "n < 12"; cases "n < 16") (auto simp: bit_simps tag_bits)
qed

lemma join_bits4:
  assumes "unat (c :: u32) < 2 ^ 21"
  shows "or (or (or (push_bit 18 (take_bit 3 (ucast (ucast (or 0xf0 (take_bit 3 (drop_bit 18 c))) :: byte) :: u32)))
    (push_bit 12 (take_bit 6 (ucast (ucast (or 0x80 (take_bit 6 (drop_bit 12 c))) :: byte) :: u32))))
    (push_bit 6 (take_bit 6 (ucast (ucast (or 0x80 (take_bit 6 (drop_bit 6 c))) :: byte) :: u32))))
    (take_bit 6 (ucast (ucast (or 0x80 (take_bit 6 c)) :: byte) :: u32)) = c"
proof (rule bit_word_eqI)
  fix n assume "n < LENGTH(32)"
  have hi: "21 \<le> n \<Longrightarrow> \<not> bit c n" using high_bits [OF assms] .
  show "bit (or (or (or (push_bit 18 (take_bit 3 (ucast (ucast (or 0xf0 (take_bit 3 (drop_bit 18 c))) :: byte) :: u32)))
    (push_bit 12 (take_bit 6 (ucast (ucast (or 0x80 (take_bit 6 (drop_bit 12 c))) :: byte) :: u32))))
    (push_bit 6 (take_bit 6 (ucast (ucast (or 0x80 (take_bit 6 (drop_bit 6 c))) :: byte) :: u32))))
    (take_bit 6 (ucast (ucast (or 0x80 (take_bit 6 c)) :: byte) :: u32))) n = bit c n"
    using hi by (cases "n < 6"; cases "n < 12"; cases "n < 18"; cases "n < 21") (auto simp: bit_simps tag_bits)
qed

text \<open>The tags that tell the decoder how many bytes belong together.\<close>

lemma test_bits:
  "and (b :: byte) 0x80 = 0 \<longleftrightarrow> \<not> bit b 7" "and b 0x40 = 0 \<longleftrightarrow> \<not> bit b 6" "and b 0x20 = 0 \<longleftrightarrow> \<not> bit b 5"
  "and b 0x10 = 0 \<longleftrightarrow> \<not> bit b 4" "and b 0x08 = 0 \<longleftrightarrow> \<not> bit b 3"
  using and_exp_eq_0_iff_not_bit [of b 7] and_exp_eq_0_iff_not_bit [of b 6] and_exp_eq_0_iff_not_bit [of b 5]
    and_exp_eq_0_iff_not_bit [of b 4] and_exp_eq_0_iff_not_bit [of b 3] by simp_all

definition cont_byte :: "byte \<Rightarrow> bool" where
  "cont_byte b \<longleftrightarrow> and b 0xc0 = 0x80"

lemma cont_byte_bits: "cont_byte b \<longleftrightarrow> bit b 7 \<and> \<not> bit b 6"
proof -
  have "and b 0xc0 = or (and b 0x80) (and b 0x40)" by (simp add: bit.conj_disj_distrib [symmetric])
  have c: "bit (0xc0 :: byte) n \<longleftrightarrow> n = 6 \<or> n = 7" "bit (0x80 :: byte) n \<longleftrightarrow> n = 7" if "n < 8" for n
  proof -
    have "n \<in> {0, 1, 2, 3, 4, 5, 6, 7}" using that by auto
    then show "bit (0xc0 :: byte) n \<longleftrightarrow> n = 6 \<or> n = 7" "bit (0x80 :: byte) n \<longleftrightarrow> n = 7" by auto
  qed
  show ?thesis
  proof
    assume "cont_byte b"
    then have "bit (and b 0xc0) 7 = bit (0x80 :: byte) 7" "bit (and b 0xc0) 6 = bit (0x80 :: byte) 6" by (simp_all add: cont_byte_def)
    then show "bit b 7 \<and> \<not> bit b 6" by (simp add: bit_and_iff)
  next
    assume b: "bit b 7 \<and> \<not> bit b 6"
    show "cont_byte b"
      unfolding cont_byte_def
    proof (rule bit_word_eqI)
      fix n assume "n < LENGTH(8)"
      then have n: "n < 8" by simp
      show "bit (and b 0xc0) n = bit (0x80 :: byte) n" using b c [OF n] by (auto simp: bit_and_iff)
    qed
  qed
qed

lemma is_cont_at: "is_cont s i \<longleftrightarrow> i < length s \<and> cont_byte (s ! i)"
  by (simp add: is_cont_def cont_byte_def)

lemma cont_byte_enc: "cont_byte (ucast (or 0x80 (take_bit 6 (x :: u32))))"
  by (simp add: cont_byte_bits bit_simps)

lemma cpt_to_utf8_cases:
  assumes "cpt_to_utf8 c = Some bs"
  obtains "unat c < 2 ^ 7" "bs = [ucast c]"
    | "unat c < 2 ^ 11" "bs = [ucast (or 0xc0 (take_bit 5 (drop_bit 6 c))), ucast (or 0x80 (take_bit 6 c))]"
    | "unat c < 2 ^ 16" "bs = [ucast (or 0xe0 (take_bit 4 (drop_bit 12 c))), ucast (or 0x80 (take_bit 6 (drop_bit 6 c))), ucast (or 0x80 (take_bit 6 c))]"
    | "unat c < 2 ^ 21" "bs = [ucast (or 0xf0 (take_bit 3 (drop_bit 18 c))), ucast (or 0x80 (take_bit 6 (drop_bit 12 c))),
        ucast (or 0x80 (take_bit 6 (drop_bit 6 c))), ucast (or 0x80 (take_bit 6 c))]"
  using assms by (auto simp: cpt_to_utf8_def and_masks word_le_nat_alt split: if_splits)

lemma nth_mid: "i = length pre + k \<Longrightarrow> k < length bs \<Longrightarrow> (pre @ bs @ post) ! i = bs ! k"
  by (simp add: nth_append)

lemma cpt_from_to:
  assumes "cpt_to_utf8 c = Some bs"
  shows "cpt_from_utf8 (pre @ bs @ post) (length pre) = Some (Some (c, length pre + length bs))"
  using assms
proof (cases rule: cpt_to_utf8_cases)
  case 1
  then have "\<not> bit c 7" "ucast (ucast c :: byte) = c"
  proof -
    show "\<not> bit c 7" using high_bits [OF 1(1), of 7] by simp
    show "ucast (ucast c :: byte) = c"
    proof (rule bit_word_eqI)
      fix n
      show "bit (ucast (ucast c :: byte) :: u32) n = bit c n"
        using high_bits [OF 1(1), of n] by (cases "n < 8") (auto simp: bit_simps)
    qed
  qed
  then show ?thesis using 1(2) by (simp add: cpt_from_utf8_def test_bits bit_simps nth_append)
next
  case 2
  then show ?thesis using join_bits [OF 2(1)] cont_byte_enc
    by (simp add: cpt_from_utf8_def test_bits is_cont_at low6_def and_masks nth_append bit_simps)
next
  case 3
  then show ?thesis using join_bits3 [OF 3(1)] cont_byte_enc
    by (simp add: cpt_from_utf8_def test_bits is_cont_at low6_def and_masks nth_append bit_simps)
next
  case 4
  then show ?thesis using join_bits4 [OF 4(1)] cont_byte_enc
    by (simp add: cpt_from_utf8_def test_bits is_cont_at low6_def and_masks nth_append bit_simps)
qed

lemma cpt_to_utf8_valid: "c \<le> 0x10ffff \<Longrightarrow> \<exists>bs. cpt_to_utf8 c = Some bs \<and> bs \<noteq> []"
  by (simp add: cpt_to_utf8_def word_le_nat_alt)

section \<open>Texts\<close>

lemma cpts_loop_enc:
  "foldM (\<lambda>c res. do { bs \<leftarrow> cpt_to_utf8 c; Some (res @ bs) }) cps pre = Some s \<Longrightarrow>
    \<exists>bs. s = pre @ bs \<and> (\<forall>post res. cpts_loop (pre @ bs @ post) (length pre) res = cpts_loop (pre @ bs @ post) (length (pre @ bs)) (res @ cps))"
proof (induction cps arbitrary: pre)
  case (Cons c cps)
  from Cons.prems obtain bs where bs: "cpt_to_utf8 c = Some bs" "foldM (\<lambda>c res. do { bs \<leftarrow> cpt_to_utf8 c; Some (res @ bs) }) cps (pre @ bs) = Some s"
    by (auto simp: Option.bind_eq_Some_conv)
  from Cons.IH [OF bs(2)] obtain bs' where
    bs': "s = (pre @ bs) @ bs'" "\<And>post res. cpts_loop ((pre @ bs) @ bs' @ post) (length (pre @ bs)) res =
      cpts_loop ((pre @ bs) @ bs' @ post) (length ((pre @ bs) @ bs')) (res @ cps)" by blast
  have ne: "0 < length bs" using bs(1) by (auto simp: cpt_to_utf8_def split: if_splits)
  have "cpts_loop (pre @ (bs @ bs') @ post) (length pre) res = cpts_loop (pre @ (bs @ bs') @ post) (length (pre @ bs @ bs')) (res @ c # cps)" for post res
  proof -
    have "cpts_loop (pre @ bs @ bs' @ post) (length pre) res = cpts_loop (pre @ bs @ bs' @ post) (length pre + length bs) (res @ [c])"
      using cpt_from_to [OF bs(1), of pre "bs' @ post"] ne by (subst cpts_loop.simps) simp
    then show ?thesis using bs'(2) [of post "res @ [c]"] by simp
  qed
  then show ?case using bs'(1) by (intro exI [of _ "bs @ bs'"]) simp
qed simp

lemma cpts_to_utf8_Nil: "cpts_to_utf8 [] = Some []"
  by (simp add: cpts_to_utf8_def)

lemma cpts_to_utf8_Cons:
  "cpts_to_utf8 (c # cs) = do { b \<leftarrow> cpt_to_utf8 c; w \<leftarrow> cpts_to_utf8 cs; Some (b @ w) }"
proof -
  have pre: "foldM (\<lambda>c res. do { bs \<leftarrow> cpt_to_utf8 c; Some (res @ bs) }) cs (pre @ out) =
      map_option ((@) pre) (foldM (\<lambda>c res. do { bs \<leftarrow> cpt_to_utf8 c; Some (res @ bs) }) cs out)" for pre out
  proof (induction cs arbitrary: out)
    case (Cons d cs)
    then show ?case by (cases "cpt_to_utf8 d") simp_all
  qed simp
  have bind: "map_option f x = Option.bind x (\<lambda>w. Some (f w))" for f :: "byte list \<Rightarrow> byte list" and x by (cases x) simp_all
  show ?thesis
  proof (cases "cpt_to_utf8 c")
    case (Some a)
    then show ?thesis using pre [of a "[]"] by (simp add: cpts_to_utf8_def bind)
  qed (simp add: cpts_to_utf8_def)
qed

lemma cpts_to_utf8_append: "cpts_to_utf8 (as @ bs) = do { v \<leftarrow> cpts_to_utf8 as; w \<leftarrow> cpts_to_utf8 bs; Some (v @ w) }"
proof (induction as)
  case (Cons a as)
  then show ?case by (cases "cpt_to_utf8 a"; cases "cpts_to_utf8 as"; cases "cpts_to_utf8 bs") (simp_all add: cpts_to_utf8_Cons)
qed (cases "cpts_to_utf8 bs"; simp add: cpts_to_utf8_Nil)

lemma cpt_to_utf8_iff: "cpt_to_utf8 c = None \<longleftrightarrow> c > 0x10ffff"
  by (auto simp: cpt_to_utf8_def word_le_nat_alt word_less_nat_alt)

lemma cpts_to_utf8_None: "cpts_to_utf8 cs = None \<longleftrightarrow> (\<exists>c\<in>set cs. c > 0x10ffff)"
proof (induction cs)
  case (Cons c cs)
  then show ?case using cpt_to_utf8_iff [of c] by (cases "cpt_to_utf8 c"; cases "cpts_to_utf8 cs") (simp_all add: cpts_to_utf8_Cons)
qed (simp add: cpts_to_utf8_Nil)

lemma cpts_from_to: "cpts_to_utf8 cps = Some s \<Longrightarrow> cpts_from_utf8 s = Some cps"
proof -
  assume "cpts_to_utf8 cps = Some s"
  then have "foldM (\<lambda>c res. do { bs \<leftarrow> cpt_to_utf8 c; Some (res @ bs) }) cps [] = Some s" by (simp add: cpts_to_utf8_def)
  from cpts_loop_enc [OF this] obtain bs where bs: "s = bs" "\<And>post res. cpts_loop (bs @ post) 0 res = cpts_loop (bs @ post) (length bs) (res @ cps)" by auto
  from bs(2) [of "[]" "[]"] show ?thesis using bs(1) by (simp add: cpts_from_utf8_def) (simp add: cpts_loop.simps)
qed

lemma cpts_loop_total: "\<exists>cps. cpts_loop s off res = Some (res @ cps) \<and> length cps \<le> length s - off"
proof (induction s off res rule: cpts_loop.induct)
  case (1 s off res)
  show ?case
  proof (cases "off < length s")
    case True
    then obtain r where r: "cpt_from_utf8 s off = Some r" using cpt_from_utf8_total by blast
    show ?thesis
    proof (cases r)
      case None
      have step: "cpts_loop s off res = cpts_loop s (off + 1) (res @ [0xFFFD])" using True r None by (subst cpts_loop.simps) simp
      from 1(1) [OF True, of None] r None obtain cps where
        "cpts_loop s (off + 1) (res @ [0xFFFD]) = Some (res @ 0xFFFD # cps)" "length cps \<le> length s - (off + 1)" by auto
      then show ?thesis unfolding step using True by (intro exI [of _ "0xFFFD # cps"]) simp
    next
      case (Some p)
      obtain c off' where p: "p = (c, off')" by (cases p)
      have step: "cpts_loop s off res = cpts_loop s off' (res @ [c])" using True r Some p by (subst cpts_loop.simps) simp
      have lt: "off < off'" using cpt_from_utf8_ahead r Some p by blast
      have "\<exists>cps. cpts_loop s off' (res @ [c]) = Some ((res @ [c]) @ cps) \<and> length cps \<le> length s - off'"
        by (rule 1(2) [OF True]) (use r Some p in simp_all)
      then obtain cps where cps: "cpts_loop s off' (res @ [c]) = Some (res @ c # cps)" "length cps \<le> length s - off'" by auto
      have "length (c # cps) \<le> length s - off" using cps(2) lt True by simp
      with cps(1) show ?thesis unfolding step by blast
    qed
  next
    case False
    then show ?thesis by (subst cpts_loop.simps) simp
  qed
qed

end
