(* ===== verification/Grammar.thy ===== *)
theory Grammar
  imports Utf8
begin

text \<open>
  The grammar engine (\<open>llama-grammar.cpp\<close>): rules as vectors of elements, a stack as the list of the
  positions of its elements with the top (the back of the vector) first, and a pointer into a rule as the
  index of the rule and of the element. The vocabulary is what the engine asks of it: the piece of a token
  and whether it ends the generation; a trigger pattern is the result of its regular expression search.
\<close>

section \<open>Data\<close>

type_synonym token_id = int

datatype gretype = GR_END | GR_ALT | GR_RULE_REF | GR_CHAR | GR_CHAR_NOT | GR_CHAR_RNG_UPPER | GR_CHAR_ALT | GR_CHAR_ANY |
  GR_TOKEN | GR_TOKEN_NOT

record gelem =
  ge_type :: gretype
  ge_value :: u32

record partial_utf8 =
  pu_value :: u32
  pu_n_remain :: int

type_synonym grule = "gelem list"
type_synonym gpos = "nat \<times> nat"
type_synonym gstack = "gpos list"

record gcandidate =
  gc_index :: nat
  gc_points :: "u32 list"  \<comment> \<open>the code points with the terminating 0\<close>
  gc_off :: nat  \<comment> \<open>where \<open>code_points\<close> points to\<close>
  gc_partial :: partial_utf8
  gc_id :: token_id

record gvocab =
  gv_piece :: "token_id \<Rightarrow> byte list"
  gv_is_eog :: "token_id \<Rightarrow> bool"

record grammar =
  gr_rules :: "grule list"
  gr_stacks :: "gstack list"
  gr_partial :: partial_utf8
  gr_lazy :: bool
  gr_awaiting :: bool
  gr_buffer :: "byte list"
  gr_positions :: "(token_id \<times> nat \<times> nat) list"
  gr_trigger_tokens :: "token_id list"
  gr_patterns :: "(byte list \<Rightarrow> nat option) list"  \<comment> \<open>\<open>llama_grammar_trigger_pattern::find\<close>\<close>

section \<open>UTF-8\<close>

definition utf8_len :: "byte \<Rightarrow> int" where
  \<comment> \<open>the table indexed by the high four bits\<close>
  "utf8_len b = [1, 1, 1, 1, 1, 1, 1, 1, 0, 0, 0, 0, 2, 2, 3, 4] ! unat (drop_bit 4 b)"

definition utf8_push :: "u32 \<Rightarrow> byte \<Rightarrow> u32" where
  "utf8_push v b = push_bit 6 v + ucast (and b 0x3F)"

fun utf8_continue :: "byte list \<Rightarrow> u32 \<Rightarrow> int \<Rightarrow> (byte list \<times> u32 \<times> int) option" where
  \<comment> \<open>continue the character of the previous piece; no value: an invalid sequence\<close>
  "utf8_continue [] v n = Some ([], v, n)"
| "utf8_continue (b # bs) v n =
     (if n > 0 then (if drop_bit 6 b \<noteq> 2 then None else utf8_continue bs (utf8_push v b) (n - 1)) else Some (b # bs, v, n))"

fun utf8_rest :: "byte list \<Rightarrow> u32 \<Rightarrow> int \<Rightarrow> byte list \<times> u32 \<times> int" where
  "utf8_rest [] v n = ([], v, n)"
| "utf8_rest (b # bs) v n = (if n > 0 then utf8_rest bs (utf8_push v b) (n - 1) else (b # bs, v, n))"

lemma utf8_rest_shorter: "length (fst (utf8_rest bs v n)) \<le> length bs"
  by (induction bs v n rule: utf8_rest.induct) auto

function utf8_chars :: "byte list \<Rightarrow> u32 list \<Rightarrow> u32 \<Rightarrow> int \<Rightarrow> u32 list \<times> partial_utf8" where
  "utf8_chars [] points v n = (points @ [0], \<lparr>pu_value = v, pu_n_remain = n\<rparr>)"
| "utf8_chars (b # bs) points v n =
     (let n = utf8_len b - 1 in
      if n < 0 then ([0], \<lparr>pu_value = 0, pu_n_remain = n\<rparr>)
      else (case utf8_rest bs (ucast (and b (mask (nat (7 - n))))) n of (bs', v, n) \<Rightarrow>
        utf8_chars bs' (if n = 0 then points @ [v] else points) v n))"
  by pat_completeness auto
termination
  by (relation "measure (\<lambda>(bs, points, v, n). length bs)") (auto simp: less_Suc_eq_le, metis fst_conv utf8_rest_shorter)

definition decode_utf8 :: "byte list \<Rightarrow> partial_utf8 \<Rightarrow> u32 list \<times> partial_utf8" where
  \<comment> \<open>\<open>c_str()\<close>: the bytes before the first zero\<close>
  "decode_utf8 src start =
     (case utf8_continue (takeWhile (\<lambda>b. b \<noteq> 0) src) (pu_value start) (pu_n_remain start) of
        None \<Rightarrow> ([0], \<lparr>pu_value = 0, pu_n_remain = -1\<rparr>)
      | Some (bs, v, n) \<Rightarrow> utf8_chars bs (if pu_n_remain start > 0 \<and> n = 0 then [v] else []) v n)"

section \<open>Matching one element\<close>

definition elem_at :: "grule list \<Rightarrow> gpos \<Rightarrow> gelem option" where
  "elem_at rules p = do { rule \<leftarrow> at rules (fst p); at rule (snd p) }"

definition is_end_of_sequence :: "gelem \<Rightarrow> bool" where
  "is_end_of_sequence e \<longleftrightarrow> ge_type e = GR_END \<or> ge_type e = GR_ALT"

definition is_positive :: "gelem \<Rightarrow> bool" where
  "is_positive e \<longleftrightarrow> ge_type e = GR_CHAR \<or> ge_type e = GR_CHAR_ANY"

definition is_token_elem :: "gelem \<Rightarrow> bool" where
  "is_token_elem e \<longleftrightarrow> ge_type e = GR_TOKEN \<or> ge_type e = GR_TOKEN_NOT"

fun match_loop :: "u32 \<Rightarrow> gelem list \<Rightarrow> bool \<Rightarrow> nat \<Rightarrow> (bool \<times> nat) option" where
  \<comment> \<open>whether an alternative matches, and how many elements were read; reading past the rule has no value\<close>
  "match_loop c (e # e' # es) found k =
     (if ge_type e' = GR_CHAR_RNG_UPPER then
        (let found = (found \<or> ge_value e \<le> c \<and> c \<le> ge_value e') in
         case es of [] \<Rightarrow> None
         | e'' # _ \<Rightarrow> if ge_type e'' = GR_CHAR_ALT then match_loop c es found (k + 2) else Some (found, k + 2))
      else
        (let found = (if ge_type e = GR_CHAR_ANY then True else found \<or> ge_value e = c) in
         if ge_type e' = GR_CHAR_ALT then match_loop c (e' # es) found (k + 1) else Some (found, k + 1)))"
| "match_loop c _ found k = None"

definition match_char :: "grule list \<Rightarrow> gpos \<Rightarrow> u32 \<Rightarrow> (bool \<times> gpos) option" where
  "match_char rules p c = do {
     rule \<leftarrow> at rules (fst p);
     e \<leftarrow> at rule (snd p);
     assert_that (is_positive e \<or> ge_type e = GR_CHAR_NOT);
     (found, k) \<leftarrow> match_loop c (drop (snd p) rule) False 0;
     Some (found = is_positive e, (fst p, snd p + k))
   }"

fun match_partial_loop :: "u32 \<Rightarrow> u32 \<Rightarrow> bool \<Rightarrow> gelem list \<Rightarrow> bool option" where
  "match_partial_loop low high pos (e # e' # es) =
     (if ge_type e' = GR_CHAR_RNG_UPPER then
        (if ge_value e \<le> high \<and> low \<le> ge_value e' then Some pos
         else case es of [] \<Rightarrow> None
         | e'' # _ \<Rightarrow> if ge_type e'' = GR_CHAR_ALT then match_partial_loop low high pos es else Some (\<not> pos))
      else if ge_type e = GR_CHAR_ANY then Some True
      else if low \<le> ge_value e \<and> ge_value e \<le> high then Some pos
      else if ge_type e' = GR_CHAR_ALT then match_partial_loop low high pos (e' # es) else Some (\<not> pos))"
| "match_partial_loop low high pos _ = None"

definition match_partial_char :: "grule list \<Rightarrow> gpos \<Rightarrow> partial_utf8 \<Rightarrow> bool option" where
  "match_partial_char rules p part = do {
     rule \<leftarrow> at rules (fst p);
     e \<leftarrow> at rule (snd p);
     assert_that (is_positive e \<or> ge_type e = GR_CHAR_NOT);
     let n = pu_n_remain part;
     (if n < 0 \<or> n = 1 \<and> pu_value part < 2 then Some False
      else do {
        let low = push_bit (nat n * 6) (pu_value part);
        let high = or low (mask (nat n * 6));
        let low = (if low = 0 then (if n = 2 then 2 ^ 11 else if n = 3 then 2 ^ 16 else low) else low);
        match_partial_loop low high (is_positive e) (drop (snd p) rule)
      })
   }"

definition match_token :: "gelem \<Rightarrow> token_id \<Rightarrow> bool option" where
  "match_token e tok = do {
     assert_that (is_token_elem e);
     Some (if ge_type e = GR_TOKEN then ge_value e = word_of_int tok else ge_value e \<noteq> word_of_int tok)
   }"

section \<open>Advancing the stacks\<close>

fun scan_alts :: "gelem list \<Rightarrow> nat \<Rightarrow> nat list option" where
  \<comment> \<open>the starts of the further alternates of a rule\<close>
  "scan_alts [] i = None"
| "scan_alts (e # es) i =
     (if ge_type e = GR_ALT then map_option (\<lambda>l. (i + 1) # l) (scan_alts es (i + 1))
      else if ge_type e = GR_END then Some [] else scan_alts es (i + 1))"

definition alt_starts :: "grule list \<Rightarrow> nat \<Rightarrow> gpos list option" where
  "alt_starts rules r = do { rule \<leftarrow> at rules r; l \<leftarrow> scan_alts rule 0; Some (map (Pair r) (0 # l)) }"

definition next_pos :: "gpos \<Rightarrow> gpos" where
  "next_pos p = (fst p, snd p + 1)"

definition push_pos :: "grule list \<Rightarrow> gpos \<Rightarrow> gstack \<Rightarrow> gstack option" where
  \<comment> \<open>push the position unless it is the end of the alternate\<close>
  "push_pos rules p s = do { e \<leftarrow> elem_at rules p; Some (if is_end_of_sequence e then s else p # s) }"

definition expand_ref :: "grule list \<Rightarrow> gpos \<Rightarrow> gelem \<Rightarrow> gstack \<Rightarrow> gstack list option" where
  \<comment> \<open>the stacks for the alternates of the rule referred to at the top\<close>
  "expand_ref rules p e s = do {
     starts \<leftarrow> alt_starts rules (unat (ge_value e));
     foldM (\<lambda>q acc. do { s \<leftarrow> push_pos rules (next_pos p) s; s \<leftarrow> push_pos rules q s; Some (acc @ [s]) }) starts []
   }"

partial_function (option) advance_loop :: "grule list \<Rightarrow> gstack list \<Rightarrow> gstack list \<Rightarrow> gstack list \<Rightarrow> gstack list option" where
  "advance_loop rules todo seen new = (case todo of
     [] \<Rightarrow> Some new
   | s # todo \<Rightarrow>
       if s \<in> set seen then advance_loop rules todo seen new
       else (case s of
         [] \<Rightarrow> advance_loop rules todo (s # seen) (if s \<in> set new then new else new @ [s])
       | p # rest \<Rightarrow> Option.bind (elem_at rules p) (\<lambda>e.
           if ge_type e = GR_RULE_REF then
             Option.bind (expand_ref rules p e rest) (\<lambda>next. advance_loop rules (rev next @ todo) (s # seen) new)
           else if is_positive e \<or> ge_type e = GR_CHAR_NOT \<or> is_token_elem e then
             advance_loop rules todo (s # seen) (if s \<in> set new then new else new @ [s])
           else None)))"

declare advance_loop.simps [code]

definition advance_stack :: "grule list \<Rightarrow> gstack \<Rightarrow> gstack list \<Rightarrow> gstack list option" where
  "advance_stack rules s new = advance_loop rules [s] [] new"

section \<open>Accepting\<close>

definition accept_chr :: "grule list \<Rightarrow> gstack \<Rightarrow> u32 \<Rightarrow> gstack list \<Rightarrow> gstack list option" where
  "accept_chr rules s c new = (case s of
     [] \<Rightarrow> Some new
   | p # rest \<Rightarrow> do {
       e \<leftarrow> elem_at rules p;
       (if is_token_elem e then Some new
        else do {
          (ok, p') \<leftarrow> match_char rules p c;
          (if ok then do { s \<leftarrow> push_pos rules p' rest; advance_stack rules s new } else Some new)
        })
     })"

definition accept_all :: "grule list \<Rightarrow> gstack list \<Rightarrow> u32 \<Rightarrow> gstack list option" where
  \<comment> \<open>one code point on every stack\<close>
  "accept_all rules stacks c = foldM (\<lambda>s new. accept_chr rules s c new) stacks []"

definition grammar_accept :: "u32 \<Rightarrow> grammar \<Rightarrow> grammar option" where
  "grammar_accept c g = do { stacks \<leftarrow> accept_all (gr_rules g) (gr_stacks g) c; Some (g\<lparr>gr_stacks := stacks\<rparr>) }"

fun accept_points :: "grule list \<Rightarrow> u32 list \<Rightarrow> gstack list \<Rightarrow> gstack list option" where
  \<comment> \<open>the code points of a piece, until no stack is left\<close>
  "accept_points rules [] stacks = Some stacks"
| "accept_points rules (c # cs) stacks = do {
     next \<leftarrow> accept_all rules stacks c;
     if next = [] then Some [] else accept_points rules cs next
   }"

definition accept_stack_token :: "grule list \<Rightarrow> token_id \<Rightarrow> u32 list \<Rightarrow> gstack \<Rightarrow> gstack list \<Rightarrow> gstack list option" where
  \<comment> \<open>one token on one stack; \<open>points\<close> without the terminating 0\<close>
  "accept_stack_token rules tok points s new = (case s of
     [] \<Rightarrow> Some new
   | p # rest \<Rightarrow> do {
       e \<leftarrow> elem_at rules p;
       (if is_token_elem e then do {
          ok \<leftarrow> match_token e tok;
          (if ok then do { s \<leftarrow> push_pos rules (next_pos p) rest; advance_stack rules s new } else Some new)
        } else do {
          cur \<leftarrow> accept_points rules points [s];
          Some (fold (\<lambda>s new. if s \<in> set new then new else new @ [s]) cur new)
        })
     })"

definition accept_token :: "token_id \<Rightarrow> byte list \<Rightarrow> grammar \<Rightarrow> (bool \<times> grammar) option" where
  \<comment> \<open>\<open>False\<close>: the exception that no stack is left, thrown after the state is updated\<close>
  "accept_token tok piece g = (case decode_utf8 piece (gr_partial g) of (points, part) \<Rightarrow> do {
     stacks \<leftarrow> foldM (accept_stack_token (gr_rules g) tok (butlast points)) (gr_stacks g) [];
     Some (stacks \<noteq> [], g\<lparr>gr_stacks := stacks, gr_partial := part\<rparr>)
   })"

definition accept_str :: "byte list \<Rightarrow> grammar \<Rightarrow> (bool \<times> grammar) option" where
  "accept_str piece g = (case decode_utf8 piece (gr_partial g) of (points, part) \<Rightarrow> do {
     g \<leftarrow> foldM grammar_accept (butlast points) g;
     Some (gr_stacks g \<noteq> [], g\<lparr>gr_partial := part\<rparr>)
   })"

section \<open>Rejecting candidates\<close>

definition gc_cur :: "gcandidate \<Rightarrow> u32 option" where
  \<comment> \<open>\<open>*code_points\<close>\<close>
  "gc_cur t = at (gc_points t) (gc_off t)"

definition reject_empty :: "gcandidate list \<Rightarrow> gcandidate list option" where
  "reject_empty cands = foldM (\<lambda>t rej. do {
       c \<leftarrow> gc_cur t;
       Some (if c \<noteq> 0 \<or> pu_n_remain (gc_partial t) \<noteq> 0 then rej @ [t] else rej)
     }) cands []"

definition reject_token :: "gelem \<Rightarrow> gcandidate list \<Rightarrow> gcandidate list option" where
  "reject_token e cands = foldM (\<lambda>t rej. do {
       c \<leftarrow> gc_cur t;
       (if c = 0 then Some (if pu_n_remain (gc_partial t) \<noteq> 0 then rej @ [t] else rej)
        else do { ok \<leftarrow> match_token e (gc_id t); Some (if \<not> ok then rej @ [t] else rej) })
     }) cands []"

definition split_candidates :: "grule list \<Rightarrow> gpos \<Rightarrow> gcandidate list \<Rightarrow> (gcandidate list \<times> gcandidate list) option" where
  \<comment> \<open>those that match go on behind their code point, the others are rejected\<close>
  "split_candidates rules p cands = foldM (\<lambda>t (next, rej). do {
       c \<leftarrow> gc_cur t;
       (if c = 0 then
          (if pu_n_remain (gc_partial t) \<noteq> 0 then do {
             ok \<leftarrow> match_partial_char rules p (gc_partial t);
             Some (next, if \<not> ok then rej @ [t] else rej)
           } else Some (next, rej))
        else do {
          (ok, _) \<leftarrow> match_char rules p c;
          Some (if ok then (next @ [t\<lparr>gc_off := gc_off t + 1\<rparr>], rej) else (next, rej @ [t]))
        })
     }) cands ([], [])"

definition reject_fold :: "(gstack \<Rightarrow> gcandidate list \<Rightarrow> gcandidate list option) \<Rightarrow> gstack list \<Rightarrow> gcandidate list \<Rightarrow> gcandidate list option" where
  \<comment> \<open>\<open>llama_grammar_reject_candidates\<close> over the rejection for one stack\<close>
  "reject_fold rej stacks cands = do {
     assert_that (stacks \<noteq> []);
     if cands = [] then Some [] else foldM rej stacks cands
   }"

primrec reject_for_stack :: "nat \<Rightarrow> grule list \<Rightarrow> gstack \<Rightarrow> gcandidate list \<Rightarrow> gcandidate list option" where
  \<comment> \<open>the first argument bounds the depth of the recursion, one level per code point\<close>
  "reject_for_stack 0 rules s cands = None"
| "reject_for_stack (Suc fuel) rules s cands = (case s of
     [] \<Rightarrow> reject_empty cands
   | p # rest \<Rightarrow> do {
       e \<leftarrow> elem_at rules p;
       (if is_token_elem e then reject_token e cands
        else do {
          (next, rejects) \<leftarrow> split_candidates rules p cands;
          (_, p') \<leftarrow> match_char rules p 0;
          after \<leftarrow> push_pos rules p' rest;
          stacks \<leftarrow> advance_stack rules after [];
          next_rejects \<leftarrow> reject_fold (reject_for_stack fuel rules) stacks next;
          Some (rejects @ map (\<lambda>t. t\<lparr>gc_off := gc_off t - 1\<rparr>) next_rejects)
        })
     })"

definition reject_depth :: "gcandidate list \<Rightarrow> nat" where
  "reject_depth cands = Suc (Suc (fold (\<lambda>t n. max (length (gc_points t)) n) cands 0))"

definition reject_candidates :: "grule list \<Rightarrow> gstack list \<Rightarrow> gcandidate list \<Rightarrow> gcandidate list option" where
  "reject_candidates rules stacks cands = reject_fold (reject_for_stack (reject_depth cands) rules) stacks cands"

section \<open>Left recursion\<close>

record lr_state =
  lr_visited :: "bool list"
  lr_in_progress :: "bool list"
  lr_may_be_empty :: "bool list"

fun has_empty_alt :: "gelem list \<Rightarrow> bool \<Rightarrow> bool" where
  \<comment> \<open>whether an alternate has no element; the flag: at the start of an alternate\<close>
  "has_empty_alt [] start = False"
| "has_empty_alt (e # es) start = (if is_end_of_sequence e then (if start then True else has_empty_alt es True) else has_empty_alt es False)"

definition visit_leftmost ::
  "(nat \<Rightarrow> lr_state \<Rightarrow> lr_state option option) \<Rightarrow> gelem \<Rightarrow> bool \<times> lr_state \<Rightarrow> (bool \<times> lr_state) option option" where
  \<comment> \<open>one element: recurse into a rule reference that may stand leftmost\<close>
  "visit_leftmost detect e = (\<lambda>(recurse, st).
     if ge_type e = GR_RULE_REF \<and> recurse then do {
       r \<leftarrow> detect (unat (ge_value e)) st;
       (case r of None \<Rightarrow> Some None
        | Some st \<Rightarrow> do { may \<leftarrow> at (lr_may_be_empty st) (unat (ge_value e)); Some (Some (may, st)) })
     }
     else Some (Some (is_end_of_sequence e, st)))"

primrec detect_left_recursion :: "nat \<Rightarrow> grule list \<Rightarrow> nat \<Rightarrow> lr_state \<Rightarrow> lr_state option option" where
  \<comment> \<open>\<open>Some None\<close>: left recursion was found; the first argument bounds the depth\<close>
  "detect_left_recursion 0 rules r st = None"
| "detect_left_recursion (Suc fuel) rules r st = do {
     busy \<leftarrow> at (lr_in_progress st) r;
     (if busy then Some None
      else do {
        rule \<leftarrow> at rules r;
        assert_that (r < length (lr_visited st) \<and> r < length (lr_may_be_empty st));
        let st = st\<lparr>lr_in_progress := (lr_in_progress st)[r := True],
          lr_may_be_empty := (if has_empty_alt rule True then (lr_may_be_empty st)[r := True] else lr_may_be_empty st)\<rparr>;
        res \<leftarrow> loopM (visit_leftmost (detect_left_recursion fuel rules)) rule (True, st);
        Some (map_option (\<lambda>(_, st). st\<lparr>lr_in_progress := (lr_in_progress st)[r := False], lr_visited := (lr_visited st)[r := True]\<rparr>) res)
      })
   }"

definition left_recursion_check :: "grule list \<Rightarrow> bool option" where
  \<comment> \<open>\<open>False\<close>: some rule is left-recursive\<close>
  "left_recursion_check rules = (let n = length rules in
     map_option (\<lambda>r. r \<noteq> None) (loopM (\<lambda>i st. do {
         v \<leftarrow> at (lr_visited st) i;
         if v then Some (Some st) else detect_left_recursion (n + 1) rules i st
       }) [0..<n] \<lparr>lr_visited = replicate n False, lr_in_progress = replicate n False, lr_may_be_empty = replicate n False\<rparr>))"

section \<open>Construction\<close>

fun copy_rule :: "gelem list \<Rightarrow> grule option" where
  "copy_rule [] = None"
| "copy_rule (e # es) = (if ge_type e = GR_END then Some [\<lparr>ge_type = GR_END, ge_value = 0\<rparr>] else map_option ((#) e) (copy_rule es))"

definition refs_valid :: "grule list \<Rightarrow> bool" where
  "refs_valid rules \<longleftrightarrow> (\<forall>rule\<in>set rules. \<forall>e\<in>set rule. ge_type e = GR_RULE_REF \<longrightarrow>
     \<not> (unat (ge_value e) \<ge> length rules \<or> rules ! unat (ge_value e) = []))"

definition init_stacks :: "grule list \<Rightarrow> nat \<Rightarrow> gstack list option" where
  "init_stacks rules start = do {
     starts \<leftarrow> alt_starts rules start;
     foldM (\<lambda>q stacks. do { s \<leftarrow> push_pos rules q []; advance_stack rules s stacks }) starts []
   }"

definition grammar_init :: "gelem list list \<Rightarrow> nat \<Rightarrow> grammar option option" where
  \<comment> \<open>from given rules; \<open>Some None\<close> is the null pointer of a rejected grammar\<close>
  "grammar_init given start = do {
     rules \<leftarrow> foldM (\<lambda>rule acc. do { r \<leftarrow> copy_rule rule; Some (acc @ [r]) }) given [];
     (if \<not> refs_valid rules then Some None
      else do {
        ok \<leftarrow> left_recursion_check rules;
        (if \<not> ok then Some None
         else do {
           stacks \<leftarrow> init_stacks rules start;
           Some (Some \<lparr>gr_rules = rules, gr_stacks = stacks, gr_partial = \<lparr>pu_value = 0, pu_n_remain = 0\<rparr>, gr_lazy = False,
             gr_awaiting = False, gr_buffer = [], gr_positions = [], gr_trigger_tokens = [], gr_patterns = []\<rparr>)
         })
      })
   }"

section \<open>The sampler interface\<close>

record token_data =
  td_id :: token_id
  td_logit :: u32  \<comment> \<open>the bits of the \<open>float\<close>\<close>

definition NEG_INFINITY :: u32 where
  "NEG_INFINITY = 0xFF800000"

definition mask_token :: "nat \<Rightarrow> token_data list \<Rightarrow> token_data list" where
  "mask_token i data = data[i := (data ! i)\<lparr>td_logit := NEG_INFINITY\<rparr>]"

definition collect_candidate ::
  "gvocab \<Rightarrow> grammar \<Rightarrow> nat \<Rightarrow> token_data list \<times> gcandidate list \<Rightarrow> token_data list \<times> gcandidate list" where
  "collect_candidate v g i = (\<lambda>(data, cands).
     let tok = td_id (data ! i); piece = gv_piece v tok in
     if gv_is_eog v tok then (if [] \<in> set (gr_stacks g) then data else mask_token i data, cands)
     else if piece = [] \<or> hd piece = 0 then (mask_token i data, cands)
     else (case decode_utf8 piece (gr_partial g) of (points, part) \<Rightarrow>
       (data, cands @ [\<lparr>gc_index = i, gc_points = points, gc_off = 0, gc_partial = part, gc_id = tok\<rparr>])))"

definition grammar_apply :: "gvocab \<Rightarrow> grammar \<Rightarrow> token_data list \<Rightarrow> token_data list option" where
  "grammar_apply v g data =
     (if gr_awaiting g then Some data
      else case fold (collect_candidate v g) [0..<length data] (data, []) of (data, cands) \<Rightarrow> do {
        rejects \<leftarrow> reject_candidates (gr_rules g) (gr_stacks g) cands;
        Some (fold (\<lambda>t. mask_token (gc_index t)) rejects data)
      })"

definition replay :: "nat \<Rightarrow> byte list \<Rightarrow> token_id \<times> nat \<times> nat \<Rightarrow> grammar \<Rightarrow> (bool \<times> grammar) option" where
  \<comment> \<open>accept the part of a buffered token behind \<open>start\<close>\<close>
  "replay start buffer = (\<lambda>(tok, tok_start, tok_end) g.
     if tok_end \<le> start then Some (True, g)
     else (let piece_start = (if tok_start < start then start else tok_start)
       in accept_token tok (take (tok_end - piece_start) (drop piece_start buffer)) g))"

definition first_match :: "(byte list \<Rightarrow> nat option) list \<Rightarrow> byte list \<Rightarrow> nat option" where
  "first_match patterns buffer = List.find (\<lambda>_. True) (List.map_filter (\<lambda>p. p buffer) patterns)"

fun replay_all :: "nat \<Rightarrow> byte list \<Rightarrow> (token_id \<times> nat \<times> nat) list \<Rightarrow> grammar \<Rightarrow> (bool \<times> grammar) option" where
  \<comment> \<open>an exception ends the replay\<close>
  "replay_all start buffer [] g = Some (True, g)"
| "replay_all start buffer (t # ts) g = do {
     (ok, g) \<leftarrow> replay start buffer t g;
     if \<not> ok then Some (False, g) else replay_all start buffer ts g
   }"

definition accept_impl :: "gvocab \<Rightarrow> token_id \<Rightarrow> grammar \<Rightarrow> (bool \<times> grammar) option" where
  "accept_impl v tok g = (let piece = gv_piece v tok in
     if gr_awaiting g then
       (if tok \<in> set (gr_trigger_tokens g) then accept_token tok piece (g\<lparr>gr_awaiting := False, gr_buffer := []\<rparr>)
        else
          (let n = length (gr_buffer g);
               g = g\<lparr>gr_positions := gr_positions g @ [(tok, n, n + length piece)], gr_buffer := gr_buffer g @ piece\<rparr>
           in case first_match (gr_patterns g) (gr_buffer g) of
             None \<Rightarrow> Some (True, g)
           | Some start \<Rightarrow> do {
               (ok, g) \<leftarrow> replay_all start (gr_buffer g) (gr_positions g) (g\<lparr>gr_awaiting := False\<rparr>);
               Some (if ok then (True, g\<lparr>gr_buffer := [], gr_positions := []\<rparr>) else (False, g))
             }))
     else if gv_is_eog v tok then do {
       assert_that ([] \<in> set (gr_stacks g));
       Some (True, g)
     }
     else accept_token tok piece g)"

end
