(* ===== verification/GrammarWf.thy ===== *)
theory GrammarWf
  imports Grammar
begin

text \<open>
  Well-formed rules (every rule ends with its only \<open>END\<close>, references exist, range and alternative modifiers
  follow a character), the positions a stack may hold, and the character class an element stands for.
\<close>

section \<open>Well-formed rules\<close>

definition is_modifier :: "gelem \<Rightarrow> bool" where
  "is_modifier e \<longleftrightarrow> ge_type e = GR_CHAR_ALT \<or> ge_type e = GR_CHAR_RNG_UPPER"

definition is_class :: "gelem \<Rightarrow> bool" where
  \<comment> \<open>the start of a character class\<close>
  "is_class e \<longleftrightarrow> is_positive e \<or> ge_type e = GR_CHAR_NOT"

definition follows_ok :: "gelem \<Rightarrow> gelem \<Rightarrow> bool" where
  "follows_ok e e' \<longleftrightarrow>
     (ge_type e' = GR_CHAR_RNG_UPPER \<longrightarrow> ge_type e = GR_CHAR \<or> ge_type e = GR_CHAR_NOT \<or> ge_type e = GR_CHAR_ALT) \<and>
     (ge_type e' = GR_CHAR_ALT \<longrightarrow> is_class e \<or> is_modifier e)"

definition wf_rule :: "nat \<Rightarrow> grule \<Rightarrow> bool" where
  "wf_rule n rule \<longleftrightarrow> rule \<noteq> [] \<and> (\<forall>i<length rule. ge_type (rule ! i) = GR_END \<longleftrightarrow> Suc i = length rule) \<and> \<not> is_modifier (rule ! 0) \<and>
     (\<forall>i. Suc i < length rule \<longrightarrow> follows_ok (rule ! i) (rule ! Suc i)) \<and>
     (\<forall>e\<in>set rule. ge_type e = GR_RULE_REF \<longrightarrow> unat (ge_value e) < n)"

definition wf_rules :: "grule list \<Rightarrow> bool" where
  "wf_rules rules \<longleftrightarrow> (\<forall>rule\<in>set rules. wf_rule (length rules) rule)"

definition pos_ok :: "grule list \<Rightarrow> gpos \<Rightarrow> bool" where
  \<comment> \<open>a position where an element or the end of an alternate starts\<close>
  "pos_ok rules p \<longleftrightarrow> (\<exists>e. elem_at rules p = Some e \<and> \<not> is_modifier e)"

definition item_ok :: "grule list \<Rightarrow> gpos \<Rightarrow> bool" where
  "item_ok rules p \<longleftrightarrow> (\<exists>e. elem_at rules p = Some e \<and> \<not> is_modifier e \<and> \<not> is_end_of_sequence e)"

definition stack_ok :: "grule list \<Rightarrow> gstack \<Rightarrow> bool" where
  "stack_ok rules s \<longleftrightarrow> (\<forall>p\<in>set s. item_ok rules p)"

lemma stack_ok_simps [simp]:
  "stack_ok rules []" "stack_ok rules (p # s) \<longleftrightarrow> item_ok rules p \<and> stack_ok rules s"
  by (simp_all add: stack_ok_def)

lemma elem_at_Some: "elem_at rules p = Some e \<longleftrightarrow> fst p < length rules \<and> snd p < length (rules ! fst p) \<and> e = rules ! fst p ! snd p"
  by (auto simp: elem_at_def Option.bind_eq_Some_conv at_Some)

lemma wf_rulesD:
  assumes "wf_rules rules" "r < length rules"
  shows "rules ! r \<noteq> []" "i < length (rules ! r) \<Longrightarrow> ge_type (rules ! r ! i) = GR_END \<longleftrightarrow> Suc i = length (rules ! r)"
    "\<not> is_modifier (rules ! r ! 0)" "Suc i < length (rules ! r) \<Longrightarrow> follows_ok (rules ! r ! i) (rules ! r ! Suc i)"
    "i < length (rules ! r) \<Longrightarrow> ge_type (rules ! r ! i) = GR_RULE_REF \<Longrightarrow> unat (ge_value (rules ! r ! i)) < length rules"
proof -
  have "wf_rule (length rules) (rules ! r)" using assms by (simp add: wf_rules_def)
  then show "rules ! r \<noteq> []" "i < length (rules ! r) \<Longrightarrow> ge_type (rules ! r ! i) = GR_END \<longleftrightarrow> Suc i = length (rules ! r)"
    "\<not> is_modifier (rules ! r ! 0)" "Suc i < length (rules ! r) \<Longrightarrow> follows_ok (rules ! r ! i) (rules ! r ! Suc i)"
    "i < length (rules ! r) \<Longrightarrow> ge_type (rules ! r ! i) = GR_RULE_REF \<Longrightarrow> unat (ge_value (rules ! r ! i)) < length rules"
    by (auto simp: wf_rule_def)
qed

lemma wf_not_last:
  assumes "wf_rules rules" "elem_at rules p = Some e" "ge_type e \<noteq> GR_END"
  shows "Suc (snd p) < length (rules ! fst p)"
  using assms wf_rulesD(2) [OF assms(1), of "fst p" "snd p"] by (auto simp: elem_at_Some)

lemma pos_ok_next:
  assumes wf: "wf_rules rules" and e: "elem_at rules p = Some e" "ge_type e = GR_RULE_REF \<or> is_token_elem e \<or> ge_type e = GR_ALT"
  shows "pos_ok rules (next_pos p)"
proof -
  have "ge_type e \<noteq> GR_END" using e(2) by (auto simp: is_token_elem_def)
  from wf_not_last [OF wf e(1) this] have lt: "Suc (snd p) < length (rules ! fst p)" "fst p < length rules"
    using e(1) by (simp_all add: elem_at_Some)
  have "follows_ok (rules ! fst p ! snd p) (rules ! fst p ! Suc (snd p))" by (rule wf_rulesD(4) [OF wf lt(2,1)])
  then have "\<not> is_modifier (rules ! fst p ! Suc (snd p))"
    using e by (auto simp: elem_at_Some follows_ok_def is_modifier_def is_class_def is_positive_def is_token_elem_def)
  with lt show ?thesis by (auto simp: pos_ok_def next_pos_def elem_at_Some)
qed

lemma push_pos_ok:
  assumes "pos_ok rules p" "stack_ok rules s"
  shows "\<exists>s'. push_pos rules p s = Some s' \<and> stack_ok rules s'"
  using assms by (auto simp: pos_ok_def push_pos_def item_ok_def)

section \<open>Alternates\<close>

lemma ex_nat_split: "(\<exists>i. P i) \<longleftrightarrow> P 0 \<or> (\<exists>i. P (Suc i))"
  by (metis not0_implies_Suc)

lemma scan_alts_run:
  assumes "\<forall>i<length es. ge_type (es ! i) = GR_END \<longleftrightarrow> Suc i = length es" "es \<noteq> []"
  shows "\<exists>l. scan_alts es k = Some l \<and> (\<forall>j. j \<in> set l \<longleftrightarrow> (\<exists>i. j = k + i + 1 \<and> i < length es \<and> ge_type (es ! i) = GR_ALT))"
  using assms
proof (induction es arbitrary: k)
  case (Cons e es)
  show ?case
  proof (cases es)
    case Nil
    then have "ge_type e = GR_END" using Cons.prems(1) by auto
    with Nil show ?thesis by auto
  next
    case (Cons e' es')
    have "ge_type e \<noteq> GR_END" using Cons.prems(1) Cons by force
    moreover have "\<forall>i<length es. ge_type (es ! i) = GR_END \<longleftrightarrow> Suc i = length es"
    proof (intro allI impI)
      fix i assume "i < length es"
      then show "ge_type (es ! i) = GR_END \<longleftrightarrow> Suc i = length es" using Cons.prems(1) [rule_format, of "Suc i"] by simp
    qed
    with Cons.IH [of "k + 1"] Cons obtain l where
      l: "scan_alts es (k + 1) = Some l" "\<forall>j. j \<in> set l \<longleftrightarrow> (\<exists>i. j = k + 1 + i + 1 \<and> i < length es \<and> ge_type (es ! i) = GR_ALT)" by auto
    have "(\<exists>i. j = k + i + 1 \<and> i < length (e # es) \<and> ge_type ((e # es) ! i) = GR_ALT) \<longleftrightarrow>
        (j = k + 1 \<and> ge_type e = GR_ALT) \<or> j \<in> set l" for j
      unfolding l(2) [rule_format] by (subst ex_nat_split) auto
    ultimately show ?thesis using l(1) by auto
  qed
qed simp

lemma alt_starts_run:
  assumes wf: "wf_rules rules" and r: "r < length rules"
  shows "\<exists>l. alt_starts rules r = Some l \<and> l \<noteq> [] \<and> (\<forall>q\<in>set l. fst q = r \<and> pos_ok rules q)"
proof -
  note rule = wf_rulesD [OF wf r]
  from scan_alts_run [of "rules ! r" 0] rule(1,2) obtain l where
    l: "scan_alts (rules ! r) 0 = Some l" "\<forall>j. j \<in> set l \<longleftrightarrow> (\<exists>i. j = i + 1 \<and> i < length (rules ! r) \<and> ge_type (rules ! r ! i) = GR_ALT)"
    by auto
  have "pos_ok rules (r, 0)" using r rule(1,3) by (auto simp: pos_ok_def elem_at_Some)
  moreover have "pos_ok rules (r, j)" if "j \<in> set l" for j
  proof -
    from that l(2) obtain i where i: "j = i + 1" "i < length (rules ! r)" "ge_type (rules ! r ! i) = GR_ALT" by blast
    have "elem_at rules (r, i) = Some (rules ! r ! i)" using i(2) r by (simp add: elem_at_Some)
    from pos_ok_next [OF wf this] i show ?thesis by (simp add: next_pos_def)
  qed
  ultimately show ?thesis using l(1) r by (intro exI [of _ "map (Pair r) (0 # l)"]) (auto simp: alt_starts_def)
qed

section \<open>Character classes\<close>

fun class_ranges :: "gelem list \<Rightarrow> (u32 \<times> u32) list \<times> nat" where
  \<comment> \<open>the ranges of the class that starts the list, and how many elements describe them\<close>
  "class_ranges (e # e' # es) =
     (if ge_type e' = GR_CHAR_RNG_UPPER then
        (case if es \<noteq> [] \<and> ge_type (hd es) = GR_CHAR_ALT then class_ranges es else ([], 0) of (rs, n) \<Rightarrow> ((ge_value e, ge_value e') # rs, n + 2))
      else
        (case if ge_type e' = GR_CHAR_ALT then class_ranges (e' # es) else ([], 0) of (rs, n) \<Rightarrow>
          ((if ge_type e = GR_CHAR_ANY then (0, - 1) else (ge_value e, ge_value e)) # rs, n + 1)))"
| "class_ranges _ = ([], 0)"

definition in_ranges :: "u32 \<Rightarrow> (u32 \<times> u32) list \<Rightarrow> bool" where
  "in_ranges c rs \<longleftrightarrow> (\<exists>(lo, hi)\<in>set rs. lo \<le> c \<and> c \<le> hi)"

definition meets :: "u32 \<Rightarrow> u32 \<Rightarrow> (u32 \<times> u32) list \<Rightarrow> bool" where
  \<comment> \<open>some range has a code point between the bounds\<close>
  "meets low high rs \<longleftrightarrow> (\<exists>(lo, hi)\<in>set rs. lo \<le> high \<and> low \<le> hi)"

lemma ranges_simps [simp]:
  "in_ranges c [] \<longleftrightarrow> False" "in_ranges c ((lo, hi) # rs) \<longleftrightarrow> lo \<le> c \<and> c \<le> hi \<or> in_ranges c rs"
  "meets low high [] \<longleftrightarrow> False" "meets low high ((lo, hi) # rs) \<longleftrightarrow> lo \<le> high \<and> low \<le> hi \<or> meets low high rs"
  by (auto simp: in_ranges_def meets_def)

definition suffix_ok :: "gelem list \<Rightarrow> bool" where
  "suffix_ok es \<longleftrightarrow> (\<forall>i<length es. ge_type (es ! i) = GR_END \<longleftrightarrow> Suc i = length es) \<and>
     (\<forall>i. Suc i < length es \<longrightarrow> follows_ok (es ! i) (es ! Suc i))"

lemma suffix_ok_Cons:
  assumes "suffix_ok (e # e' # es)"
  shows "suffix_ok (e' # es)" "follows_ok e e'" "ge_type e \<noteq> GR_END" "ge_type e' = GR_END \<longleftrightarrow> es = []"
proof -
  have all: "\<forall>i<length (e # e' # es). ge_type ((e # e' # es) ! i) = GR_END \<longleftrightarrow> Suc i = length (e # e' # es)"
    "\<forall>i. Suc i < length (e # e' # es) \<longrightarrow> follows_ok ((e # e' # es) ! i) ((e # e' # es) ! Suc i)"
    using assms unfolding suffix_ok_def by blast+
  show "suffix_ok (e' # es)"
    unfolding suffix_ok_def
  proof (intro conjI allI impI)
    fix i assume "i < length (e' # es)"
    then show "ge_type ((e' # es) ! i) = GR_END \<longleftrightarrow> Suc i = length (e' # es)" using all(1) [rule_format, of "Suc i"] by simp
  next
    fix i assume "Suc i < length (e' # es)"
    then show "follows_ok ((e' # es) ! i) ((e' # es) ! Suc i)" using all(2) [rule_format, of "Suc i"] by simp
  qed
  show "follows_ok e e'" using all(2) [rule_format, of 0] by simp
  show "ge_type e \<noteq> GR_END" using all(1) [rule_format, of 0] by simp
  show "ge_type e' = GR_END \<longleftrightarrow> es = []" using all(1) [rule_format, of 1] by simp
qed

lemma suffix_ok_one: "suffix_ok [e] \<Longrightarrow> ge_type e = GR_END"
  by (simp add: suffix_ok_def)

lemma class_run:
  assumes "suffix_ok es" "es \<noteq> []" "is_class (hd es) \<or> ge_type (hd es) = GR_CHAR_ALT"
  shows "1 \<le> snd (class_ranges es) \<and> snd (class_ranges es) < length es \<and> \<not> is_modifier (es ! snd (class_ranges es)) \<and>
    (\<forall>c found k. match_loop c es found k = Some (found \<or> in_ranges c (fst (class_ranges es)), k + snd (class_ranges es)))"
  using assms
proof (induction es rule: class_ranges.induct)
  case (1 e e' es)
  note ok = suffix_ok_Cons [OF 1(3)]
  show ?case
  proof (cases "ge_type e' = GR_CHAR_RNG_UPPER")
    case True
    then obtain e'' es' where es: "es = e'' # es'" using ok(4) by (cases es) auto
    note ok' = suffix_ok_Cons [OF ok(1) [unfolded es]]
    have nr: "ge_type e'' \<noteq> GR_CHAR_RNG_UPPER" using ok'(2) True by (auto simp: follows_ok_def)
    show ?thesis
    proof (cases "ge_type e'' = GR_CHAR_ALT")
      case alt: True
      have "1 \<le> snd (class_ranges es) \<and> snd (class_ranges es) < length es \<and> \<not> is_modifier (es ! snd (class_ranges es)) \<and>
          (\<forall>c found k. match_loop c es found k = Some (found \<or> in_ranges c (fst (class_ranges es)), k + snd (class_ranges es)))"
        by (rule 1(1)) (use True alt es ok'(1) in simp_all)
      moreover from this obtain rs m where "class_ranges es = (rs, Suc m)"
        by (metis not0_implies_Suc not_one_le_zero prod.collapse)
      ultimately show ?thesis using True alt es by simp
    next
      case False
      with True nr es show ?thesis by (auto simp: is_modifier_def)
    qed
  next
    case False
    note upper = False
    have any: "(0 \<le> c \<and> c \<le> (- 1 :: u32))" for c by simp
    show ?thesis
    proof (cases "ge_type e' = GR_CHAR_ALT")
      case True
      have "1 \<le> snd (class_ranges (e' # es)) \<and> snd (class_ranges (e' # es)) < length (e' # es) \<and>
          \<not> is_modifier ((e' # es) ! snd (class_ranges (e' # es))) \<and>
          (\<forall>c found k. match_loop c (e' # es) found k = Some (found \<or> in_ranges c (fst (class_ranges (e' # es))), k + snd (class_ranges (e' # es))))"
        by (rule 1(2)) (use False True ok(1) in simp_all)
      moreover from this obtain rs m where "class_ranges (e' # es) = (rs, Suc m)"
        by (metis not0_implies_Suc not_one_le_zero prod.collapse)
      ultimately show ?thesis using False True by auto
    next
      case False
      with upper show ?thesis by (auto simp: is_modifier_def)
    qed
  qed
qed (auto simp: is_class_def is_positive_def dest: suffix_ok_one)

lemma partial_run:
  assumes "suffix_ok es" "es \<noteq> []" "is_class (hd es) \<or> ge_type (hd es) = GR_CHAR_ALT" "ge_type (hd es) = GR_CHAR_ANY \<longrightarrow> pos"
  shows "match_partial_loop low high pos es = Some (meets low high (fst (class_ranges es)) = pos)"
  using assms
proof (induction es rule: class_ranges.induct)
  case (1 e e' es)
  note ok = suffix_ok_Cons [OF 1(3)]
  have any: "(0 :: u32) \<le> high \<and> low \<le> - 1" by simp
  show ?case
  proof (cases "ge_type e' = GR_CHAR_RNG_UPPER")
    case True
    then obtain e'' es' where es: "es = e'' # es'" using ok(4) by (cases es) auto
    show ?thesis
    proof (cases "ge_type e'' = GR_CHAR_ALT")
      case alt: True
      have "match_partial_loop low high pos es = Some (meets low high (fst (class_ranges es)) = pos)"
        by (rule 1(1)) (use True alt es suffix_ok_Cons(1) [OF ok(1) [unfolded es]] in simp_all)
      with True alt es show ?thesis by (auto split: prod.splits)
    next
      case False
      with True es show ?thesis by auto
    qed
  next
    case False
    note upper = False
    show ?thesis
    proof (cases "ge_type e' = GR_CHAR_ALT")
      case True
      have "match_partial_loop low high pos (e' # es) = Some (meets low high (fst (class_ranges (e' # es))) = pos)"
        by (rule 1(2)) (use False True ok(1) in simp_all)
      with False True 1(6) show ?thesis by (auto split: prod.splits)
    next
      case False
      with upper 1(6) show ?thesis by auto
    qed
  qed
qed (auto simp: is_class_def is_positive_def dest: suffix_ok_one)

definition class_at :: "grule list \<Rightarrow> gpos \<Rightarrow> (u32 \<times> u32) list" where
  "class_at rules p = fst (class_ranges (drop (snd p) (rules ! fst p)))"

definition class_end :: "grule list \<Rightarrow> gpos \<Rightarrow> gpos" where
  "class_end rules p = (fst p, snd p + snd (class_ranges (drop (snd p) (rules ! fst p))))"

definition class_accepts :: "grule list \<Rightarrow> gpos \<Rightarrow> gelem \<Rightarrow> u32 \<Rightarrow> bool" where
  "class_accepts rules p e c \<longleftrightarrow> in_ranges c (class_at rules p) = is_positive e"

lemma suffix_ok_drop:
  assumes "wf_rules rules" "r < length rules" "i \<le> length (rules ! r)"
  shows "suffix_ok (drop i (rules ! r))"
  unfolding suffix_ok_def
proof (intro conjI allI impI)
  fix j assume "j < length (drop i (rules ! r))"
  then show "ge_type (drop i (rules ! r) ! j) = GR_END \<longleftrightarrow> Suc j = length (drop i (rules ! r))"
    using wf_rulesD(2) [OF assms(1,2), of "i + j"] by auto
next
  fix j assume "Suc j < length (drop i (rules ! r))"
  then show "follows_ok (drop i (rules ! r) ! j) (drop i (rules ! r) ! Suc j)"
    using wf_rulesD(4) [OF assms(1,2), of "i + j"] by simp
qed

lemma class_suffix:
  assumes wf: "wf_rules rules" and e: "elem_at rules p = Some e" "is_class e"
  shows "suffix_ok (drop (snd p) (rules ! fst p))" "drop (snd p) (rules ! fst p) \<noteq> []" "hd (drop (snd p) (rules ! fst p)) = e"
  using suffix_ok_drop [OF wf, of "fst p" "snd p"] e by (simp_all add: elem_at_Some hd_drop_conv_nth)

lemma match_char_run:
  assumes wf: "wf_rules rules" and e: "elem_at rules p = Some e" "is_class e"
  shows "match_char rules p c = Some (class_accepts rules p e c, class_end rules p)" "pos_ok rules (class_end rules p)"
proof -
  note s = class_suffix [OF assms]
  have run: "1 \<le> snd (class_ranges (drop (snd p) (rules ! fst p))) \<and>
      snd (class_ranges (drop (snd p) (rules ! fst p))) < length (drop (snd p) (rules ! fst p)) \<and>
      \<not> is_modifier (drop (snd p) (rules ! fst p) ! snd (class_ranges (drop (snd p) (rules ! fst p)))) \<and>
      (\<forall>c found k. match_loop c (drop (snd p) (rules ! fst p)) found k =
        Some (found \<or> in_ranges c (class_at rules p), k + snd (class_ranges (drop (snd p) (rules ! fst p)))))"
    unfolding class_at_def by (rule class_run) (use s e(2) in simp_all)
  have at: "at rules (fst p) = Some (rules ! fst p)" "at (rules ! fst p) (snd p) = Some e" "fst p < length rules"
    using e(1) by (simp_all add: elem_at_Some)
  show "match_char rules p c = Some (class_accepts rules p e c, class_end rules p)"
    using run at e(2) by (simp add: match_char_def class_end_def class_accepts_def is_class_def)
  show "pos_ok rules (class_end rules p)"
    using run at(3) by (auto simp: pos_ok_def elem_at_Some class_end_def)
qed

definition partial_low :: "partial_utf8 \<Rightarrow> u32" where
  "partial_low part = (let n = pu_n_remain part; low = push_bit (nat n * 6) (pu_value part) in
     if low = 0 then (if n = 2 then 2 ^ 11 else if n = 3 then 2 ^ 16 else low) else low)"

definition partial_high :: "partial_utf8 \<Rightarrow> u32" where
  "partial_high part = or (push_bit (nat (pu_n_remain part) * 6) (pu_value part)) (mask (nat (pu_n_remain part) * 6))"

lemma match_partial_run:
  assumes wf: "wf_rules rules" and e: "elem_at rules p = Some e" "is_class e"
  shows "match_partial_char rules p part = Some (\<not> (pu_n_remain part < 0 \<or> pu_n_remain part = 1 \<and> pu_value part < 2) \<and>
    meets (partial_low part) (partial_high part) (class_at rules p) = is_positive e)"
proof -
  note s = class_suffix [OF assms]
  have "match_partial_loop low high (is_positive e) (drop (snd p) (rules ! fst p)) = Some (meets low high (class_at rules p) = is_positive e)" for low high
    unfolding class_at_def by (rule partial_run) (use s e(2) in \<open>simp_all add: is_positive_def\<close>)
  moreover have "at rules (fst p) = Some (rules ! fst p)" "at (rules ! fst p) (snd p) = Some e" using e(1) by (simp_all add: elem_at_Some)
  ultimately show ?thesis using e(2)
    by (simp add: match_partial_char_def Let_def partial_low_def partial_high_def is_class_def)
qed

end
