(* ===== verification/GrammarStep.thy ===== *)
theory GrammarStep
  imports GrammarWf "HOL-Library.Multiset"
begin

text \<open>
  Expanding rule references at the top of a stack: the step relation of \<open>llama_grammar_advance_stack\<close>, its
  termination for grammars without left recursion, and what the work list computes.
\<close>

section \<open>Steps and terminal stacks\<close>

definition step :: "grule list \<Rightarrow> gstack \<Rightarrow> gstack \<Rightarrow> bool" where
  "step rules s s' \<longleftrightarrow> (\<exists>p rest e l. s = p # rest \<and> elem_at rules p = Some e \<and> ge_type e = GR_RULE_REF \<and>
     expand_ref rules p e rest = Some l \<and> s' \<in> set l)"

definition terminal :: "grule list \<Rightarrow> gstack \<Rightarrow> bool" where
  "terminal rules s \<longleftrightarrow> s = [] \<or> (\<exists>e. elem_at rules (hd s) = Some e \<and> (is_class e \<or> is_token_elem e))"

lemma item_cases:
  assumes "item_ok rules p" "elem_at rules p = Some e"
  obtains "ge_type e = GR_RULE_REF" | "is_class e" "ge_type e \<noteq> GR_RULE_REF" "\<not> is_token_elem e"
    | "is_token_elem e" "ge_type e \<noteq> GR_RULE_REF" "\<not> is_class e"
  using assms by (cases "ge_type e")
    (auto simp: item_ok_def is_modifier_def is_end_of_sequence_def is_class_def is_positive_def is_token_elem_def)

lemma expand_ref_run:
  assumes wf: "wf_rules rules" and e: "elem_at rules p = Some e" "ge_type e = GR_RULE_REF" and s: "stack_ok rules rest"
  shows "\<exists>l starts. expand_ref rules p e rest = Some l \<and> l \<noteq> [] \<and> alt_starts rules (unat (ge_value e)) = Some starts \<and>
    (\<forall>q\<in>set starts. fst q = unat (ge_value e) \<and> pos_ok rules q) \<and>
    (\<forall>s'. s' \<in> set l \<longleftrightarrow> (\<exists>q\<in>set starts. \<exists>t. push_pos rules (next_pos p) rest = Some t \<and> push_pos rules q t = Some s')) \<and>
    (\<forall>s'\<in>set l. stack_ok rules s')"
proof -
  have r: "unat (ge_value e) < length rules" using wf_rulesD(5) [OF wf, of "fst p" "snd p"] e by (simp add: elem_at_Some)
  from alt_starts_run [OF wf r] obtain starts where
    st: "alt_starts rules (unat (ge_value e)) = Some starts" "starts \<noteq> []" "\<forall>q\<in>set starts. fst q = unat (ge_value e) \<and> pos_ok rules q" by blast
  have "pos_ok rules (next_pos p)" using pos_ok_next [OF wf e(1)] e(2) by simp
  from push_pos_ok [OF this s] obtain t where t: "push_pos rules (next_pos p) rest = Some t" "stack_ok rules t" by blast
  define g where "g q = the (push_pos rules q t)" for q
  have g: "push_pos rules q t = Some (g q) \<and> stack_ok rules (g q)" if "q \<in> set starts" for q
    using push_pos_ok [OF _ t(2), of q] st(3) that by (auto simp: g_def)
  have "foldM (\<lambda>q acc. Option.bind (push_pos rules q t) (\<lambda>s. Some (acc @ [s]))) starts [] = Some ([] @ map g starts)"
    by (rule foldM_snoc) (use g in blast)
  then have "expand_ref rules p e rest = Some (map g starts)" using st(1) t(1) by (simp add: expand_ref_def)
  moreover have "s' \<in> set (map g starts) \<longleftrightarrow> (\<exists>q\<in>set starts. \<exists>t. push_pos rules (next_pos p) rest = Some t \<and> push_pos rules q t = Some s')" for s'
    using g t(1) by fastforce
  ultimately show ?thesis using st g by (intro exI [of _ "map g starts"] exI [of _ starts]) simp
qed

lemma step_ok:
  assumes "wf_rules rules" "stack_ok rules s" "step rules s s'"
  shows "stack_ok rules s'"
proof -
  from assms(3) obtain p rest e l where s: "s = p # rest" "elem_at rules p = Some e" "ge_type e = GR_RULE_REF"
    "expand_ref rules p e rest = Some l" "s' \<in> set l" by (auto simp: step_def)
  have "stack_ok rules rest" using assms(2) s(1) by simp
  from expand_ref_run [OF assms(1) s(2,3) this] s(4,5) show ?thesis by auto
qed

lemma steps_ok: "(step rules)\<^sup>*\<^sup>* s t \<Longrightarrow> wf_rules rules \<Longrightarrow> stack_ok rules s \<Longrightarrow> stack_ok rules t"
  by (induction rule: rtranclp_induct) (auto intro: step_ok)

lemma terminal_no_step: "terminal rules s \<Longrightarrow> \<not> step rules s s'"
  by (auto simp: terminal_def step_def is_class_def is_positive_def is_token_elem_def)

lemma terminal_steps: "(step rules)\<^sup>*\<^sup>* s t \<Longrightarrow> terminal rules s \<Longrightarrow> t = s"
  by (erule converse_rtranclpE) (auto dest: terminal_no_step)

section \<open>No left recursion\<close>

inductive nullable_from :: "grule list \<Rightarrow> gpos \<Rightarrow> bool" for rules where
  \<comment> \<open>the rest of the alternate generates the empty word\<close>
  at_end: "elem_at rules p = Some e \<Longrightarrow> is_end_of_sequence e \<Longrightarrow> nullable_from rules p"
| at_ref: "elem_at rules p = Some e \<Longrightarrow> ge_type e = GR_RULE_REF \<Longrightarrow> alt_starts rules (unat (ge_value e)) = Some starts \<Longrightarrow>
    q \<in> set starts \<Longrightarrow> nullable_from rules q \<Longrightarrow> nullable_from rules (next_pos p) \<Longrightarrow> nullable_from rules p"

inductive left_call :: "grule list \<Rightarrow> gpos \<Rightarrow> gpos \<Rightarrow> bool" for rules where
  \<comment> \<open>\<open>left_call rules q p\<close>: expanding the element at \<open>p\<close> may reach \<open>q\<close> without reading anything\<close>
  enter: "elem_at rules p = Some e \<Longrightarrow> ge_type e = GR_RULE_REF \<Longrightarrow> alt_starts rules (unat (ge_value e)) = Some starts \<Longrightarrow>
    q \<in> set starts \<Longrightarrow> left_call rules q p"
| skip: "elem_at rules p = Some e \<Longrightarrow> ge_type e = GR_RULE_REF \<Longrightarrow> alt_starts rules (unat (ge_value e)) = Some starts \<Longrightarrow>
    q \<in> set starts \<Longrightarrow> nullable_from rules q \<Longrightarrow> left_call rules (next_pos p) p"

definition no_left_recursion :: "grule list \<Rightarrow> bool" where
  "no_left_recursion rules \<longleftrightarrow> wfP (left_call rules)"

lemma no_left_recursionI: "(\<And>q p. left_call rules q p \<Longrightarrow> rank q < (rank p :: nat)) \<Longrightarrow> no_left_recursion rules"
  unfolding no_left_recursion_def by (rule wfp_if_convertible_to_nat [of _ rank]) auto

fun live :: "grule list \<Rightarrow> gstack \<Rightarrow> gpos multiset" where
  \<comment> \<open>the positions that may become the top without reading anything\<close>
  "live rules [] = {#}"
| "live rules (p # s) = add_mset p (if nullable_from rules p then live rules s else {#})"

abbreviation left_rel :: "grule list \<Rightarrow> (gpos \<times> gpos) set" where
  "left_rel rules \<equiv> {(q, p). left_call rules q p}"

lemma wf_left_rel: "no_left_recursion rules \<Longrightarrow> wf (left_rel rules)"
  by (simp add: no_left_recursion_def wfp_def)

lemma mult_replace:
  assumes "X \<subseteq># Y" "\<forall>k\<in>#K. (k, p) \<in> r"
  shows "(K + X, add_mset p Y) \<in> mult r"
proof -
  obtain Z where Y: "Y = X + Z" using assms(1) by (auto simp: subset_mset.le_iff_add)
  have "(X + K, X + add_mset p Z) \<in> mult r"
    by (rule one_step_implies_mult) (use assms(2) in auto)
  then show ?thesis by (simp add: Y ac_simps)
qed

lemma push_live:
  assumes "push_pos rules q t = Some s"
  shows "if s = t then nullable_from rules q else s = q # t"
  using assms by (auto simp: push_pos_def Option.bind_eq_Some_conv intro: at_end split: if_splits)

lemma expand_ref_mem:
  assumes "expand_ref rules p e rest = Some l" "s' \<in> set l"
  shows "\<exists>starts q t. alt_starts rules (unat (ge_value e)) = Some starts \<and> q \<in> set starts \<and>
    push_pos rules (next_pos p) rest = Some t \<and> push_pos rules q t = Some s'"
proof -
  from assms(1) obtain starts where st: "alt_starts rules (unat (ge_value e)) = Some starts"
    "foldM (\<lambda>q acc. do { s \<leftarrow> push_pos rules (next_pos p) rest; s \<leftarrow> push_pos rules q s; Some (acc @ [s]) }) starts [] = Some l"
    by (auto simp: expand_ref_def Option.bind_eq_Some_conv)
  have "\<forall>x\<in>set l. \<exists>q\<in>set starts. \<exists>t. push_pos rules (next_pos p) rest = Some t \<and> push_pos rules q t = Some x"
    by (rule foldM_partial [OF st(2)]) (auto simp: Option.bind_eq_Some_conv)
  with assms(2) st(1) show ?thesis by blast
qed

lemma step_live:
  assumes "step rules s s'"
  shows "(live rules s', live rules s) \<in> mult (left_rel rules)"
proof -
  from assms obtain p rest e l where s: "s = p # rest" "elem_at rules p = Some e" "ge_type e = GR_RULE_REF"
    "expand_ref rules p e rest = Some l" "s' \<in> set l" by (auto simp: step_def)
  from expand_ref_mem [OF s(4,5)] obtain starts q t where
    q: "alt_starts rules (unat (ge_value e)) = Some starts" "q \<in> set starts"
      "push_pos rules (next_pos p) rest = Some t" "push_pos rules q t = Some s'" by blast
  let ?next = "next_pos p" and ?N = "nullable_from rules"
  have enter: "left_call rules q p" by (rule enter [OF s(2,3) q(1,2)])
  have skip: "left_call rules ?next p" if "?N q" by (rule skip [OF s(2,3) q(1,2) that])
  have null: "?N p" if "?N q" "?N ?next" by (rule at_ref [OF s(2,3) q(1,2) that])
  let ?X = "if ?N p then live rules rest else {#}"
  note t = push_live [OF q(3)] and s' = push_live [OF q(4)]
  have tl: "\<exists>K X. live rules t = K + X \<and> (?N q \<longrightarrow> X \<subseteq># ?X \<and> (\<forall>k\<in>#K. (k, p) \<in> left_rel rules))"
  proof (cases "t = rest")
    case True
    with t null show ?thesis by (intro exI [of _ "{#}"] exI [of _ "live rules rest"]) auto
  next
    case False
    with t have "t = ?next # rest" by simp
    with skip null show ?thesis
      by (intro exI [of _ "{#?next#}"] exI [of _ "if ?N ?next then live rules rest else {#}"]) auto
  qed
  then obtain K X where K: "live rules t = K + X" "?N q \<Longrightarrow> X \<subseteq># ?X" "?N q \<Longrightarrow> \<forall>k\<in>#K. (k, p) \<in> left_rel rules" by blast
  have "live rules s = add_mset p ?X" by (simp add: s(1))
  moreover have "(live rules s', add_mset p ?X) \<in> mult (left_rel rules)"
  proof (cases "s' = t")
    case True
    with s' have "?N q" by simp
    from mult_replace [OF K(2) [OF this] K(3) [OF this]] True K(1) show ?thesis by simp
  next
    case False
    with s' have s'q: "s' = q # t" by simp
    show ?thesis
    proof (cases "?N q")
      case True
      have "\<forall>k\<in>#add_mset q K. (k, p) \<in> left_rel rules" using K(3) [OF True] enter by auto
      from mult_replace [OF K(2) [OF True] this] True K(1) s'q show ?thesis by simp
    next
      case False
      have "({#q#} + {#}, add_mset p ?X) \<in> mult (left_rel rules)" by (rule mult_replace) (use enter in auto)
      with False s'q show ?thesis by simp
    qed
  qed
  ultimately show ?thesis by simp
qed

lemma step_wf: "no_left_recursion rules \<Longrightarrow> wf {(s', s). step rules s s'}"
  by (rule wf_subset [OF wf_inv_image [OF wf_mult [OF wf_left_rel], of rules "live rules"]]) (auto simp: inv_image_def step_live)

lemma terminal_reachable:
  assumes wf: "wf_rules rules" and nlr: "no_left_recursion rules" and "stack_ok rules s"
  shows "\<exists>t. (step rules)\<^sup>*\<^sup>* s t \<and> terminal rules t"
  using step_wf [OF nlr] assms(3)
proof (induction s rule: wf_induct_rule)
  case (less s)
  show ?case
  proof (cases "terminal rules s")
    case True
    then show ?thesis by blast
  next
    case False
    then obtain p rest where s: "s = p # rest" by (cases s) (auto simp: terminal_def)
    then obtain e where e: "elem_at rules p = Some e" "item_ok rules p" "stack_ok rules rest"
      using less.prems by (auto simp: item_ok_def)
    then have "ge_type e = GR_RULE_REF" using False s by (cases rule: item_cases [OF e(2,1)]) (auto simp: terminal_def)
    from expand_ref_run [OF wf e(1) this e(3)] obtain l where
      l: "expand_ref rules p e rest = Some l" "l \<noteq> []" "\<forall>s'\<in>set l. stack_ok rules s'" by blast
    then obtain s' where s': "s' \<in> set l" by (cases l) auto
    have "step rules s s'" unfolding step_def using s e(1) \<open>ge_type e = GR_RULE_REF\<close> l(1) s' by blast
    with less.IH [of s'] l(3) s' show ?thesis by (auto intro: converse_rtranclp_into_rtranclp)
  qed
qed

section \<open>The work list\<close>

definition reaches :: "grule list \<Rightarrow> gstack set \<Rightarrow> gstack set" where
  "reaches rules S = {t. terminal rules t \<and> (\<exists>s\<in>S. (step rules)\<^sup>*\<^sup>* s t)}"

definition closed_under :: "grule list \<Rightarrow> gstack set \<Rightarrow> gstack set \<Rightarrow> gstack set \<Rightarrow> bool" where
  \<comment> \<open>what was seen is in the result, or its successors are seen or still to do\<close>
  "closed_under rules seen todo new \<longleftrightarrow> (\<forall>s\<in>seen. (terminal rules s \<longrightarrow> s \<in> new) \<and> (\<forall>s'. step rules s s' \<longrightarrow> s' \<in> seen \<union> todo))"

lemma closed_reaches:
  assumes c: "closed_under rules seen todo new" and st: "(step rules)\<^sup>*\<^sup>* s t" "s \<in> seen" "terminal rules t"
  shows "t \<in> new \<union> reaches rules todo"
  using st
proof (induction rule: converse_rtranclp_induct)
  case base
  with c show ?case by (auto simp: closed_under_def)
next
  case (step s s')
  with c have "s' \<in> seen \<union> todo" by (auto simp: closed_under_def)
  with step show ?case by (auto simp: reaches_def)
qed

lemma reaches_Un: "reaches rules (A \<union> B) = reaches rules A \<union> reaches rules B"
  by (auto simp: reaches_def)

lemma reaches_terminal: "terminal rules s \<Longrightarrow> reaches rules {s} = {s}"
  using terminal_steps by (auto simp: reaches_def)

lemma reaches_step:
  assumes "\<not> terminal rules s" "\<And>s'. step rules s s' \<longleftrightarrow> s' \<in> S"
  shows "reaches rules {s} = reaches rules S"
proof -
  have "(\<exists>t\<in>{s}. (step rules)\<^sup>*\<^sup>* t u) \<longleftrightarrow> (\<exists>t\<in>S. (step rules)\<^sup>*\<^sup>* t u)" if "terminal rules u" for u
    using that assms by (metis converse_rtranclpE converse_rtranclp_into_rtranclp singletonD singletonI)
  then show ?thesis by (auto simp: reaches_def)
qed

lemma stack_cases:
  assumes "stack_ok rules s"
  obtains "terminal rules s" | p rest e where "s = p # rest" "elem_at rules p = Some e" "ge_type e = GR_RULE_REF" "stack_ok rules rest"
    "\<not> terminal rules s"
proof (cases "terminal rules s")
  case False
  then obtain p rest where s: "s = p # rest" by (cases s) (auto simp: terminal_def)
  then obtain e where e: "elem_at rules p = Some e" "item_ok rules p" "stack_ok rules rest" using assms by (auto simp: item_ok_def)
  then have "ge_type e = GR_RULE_REF" using False s by (cases rule: item_cases [OF e(2,1)]) (auto simp: terminal_def)
  with False s e that show ?thesis by blast
qed

lemma advance_loop_terminal:
  assumes "terminal rules s" "s \<notin> set seen"
  shows "advance_loop rules (s # todo) seen new = advance_loop rules todo (s # seen) (if s \<in> set new then new else new @ [s])"
proof (cases s)
  case (Cons p rest)
  then obtain e where e: "elem_at rules p = Some e" "is_class e \<or> is_token_elem e" using assms(1) by (auto simp: terminal_def)
  then have "ge_type e \<noteq> GR_RULE_REF" by (auto simp: is_class_def is_positive_def is_token_elem_def)
  with assms(2) Cons e show ?thesis by (subst advance_loop.simps) (auto simp: is_class_def)
qed (use assms in \<open>subst advance_loop.simps, simp\<close>)

lemma mset_pop:
  assumes "\<forall>k\<in>#K. (k, a) \<in> r"
  shows "(K + M, add_mset a M) \<in> mult r"
  using mult_replace [of M M K a r] assms by simp

lemma advance_loop_spec:
  assumes wf: "wf_rules rules" and nlr: "no_left_recursion rules"
    and "\<forall>s\<in>set todo. stack_ok rules s" "closed_under rules (set seen) (set todo) (set new)" "distinct new"
  shows "\<exists>new'. advance_loop rules todo seen new = Some new' \<and> set new' = set new \<union> reaches rules (set todo) \<and> distinct new'"
  using assms(3-5)
proof (induction "image_mset (live rules) (mset todo)" arbitrary: todo seen new rule: wf_induct_rule [OF wf_mult [OF wf_mult [OF wf_left_rel [OF nlr]]]])
  case (1 todo seen new)
  note IH = 1(1)
  show ?case
  proof (cases todo)
    case Nil
    then show ?thesis using 1(4) by (subst advance_loop.simps) (simp add: reaches_def)
  next
    case (Cons s rest)
    have ok: "stack_ok rules s" "\<forall>s\<in>set rest. stack_ok rules s" using 1(2) Cons by simp_all
    have all: "reaches rules (set todo) = reaches rules {s} \<union> reaches rules (set rest)"
      using reaches_Un [of rules "{s}" "set rest"] by (simp add: Cons)
    have pop: "(image_mset (live rules) (mset rest), image_mset (live rules) (mset todo)) \<in> mult (mult (left_rel rules))"
      using mset_pop [of "{#}" "live rules s" "mult (left_rel rules)"] by (simp add: Cons)
    show ?thesis
    proof (cases "s \<in> set seen")
      case True
      have c: "closed_under rules (set seen) (set rest) (set new)" using 1(3) True by (auto simp: closed_under_def Cons)
      from 1(1) [OF pop ok(2) c 1(4)] obtain new' where
        new': "advance_loop rules rest seen new = Some new'" "set new' = set new \<union> reaches rules (set rest)" "distinct new'" by blast
      have "reaches rules {s} \<subseteq> set new \<union> reaches rules (set rest)"
        using closed_reaches [OF c _ True] unfolding reaches_def by blast
      moreover have "advance_loop rules todo seen new = Some new'" using new'(1) True by (subst advance_loop.simps) (simp add: Cons)
      ultimately show ?thesis using new' all by auto
    next
      case unseen: False
      from ok(1) show ?thesis
      proof (cases rule: stack_cases)
        case 1
        let ?new = "if s \<in> set new then new else new @ [s]"
        have c: "closed_under rules (set (s # seen)) (set rest) (set ?new)"
          using \<open>closed_under rules (set seen) (set todo) (set new)\<close> 1 terminal_no_step [OF 1] by (auto simp: closed_under_def Cons)
        have "distinct ?new" using \<open>distinct new\<close> by simp
        from IH [OF pop ok(2) c this] obtain new' where
          new': "advance_loop rules rest (s # seen) ?new = Some new'" "set new' = set ?new \<union> reaches rules (set rest)" "distinct new'" by blast
        have "advance_loop rules todo seen new = Some new'"
          using new'(1) advance_loop_terminal [OF 1 unseen, of rest new] by (simp add: Cons)
        with new' all reaches_terminal [OF 1] show ?thesis by auto
      next
        case (2 p tail e)
        from expand_ref_run [OF wf 2(2,3,4)] obtain l where
          l: "expand_ref rules p e tail = Some l" "\<forall>s'\<in>set l. stack_ok rules s'" by blast
        have st: "step rules s s' \<longleftrightarrow> s' \<in> set l" for s' using 2(1-3) l(1) by (auto simp: step_def)
        have less: "(image_mset (live rules) (mset (rev l @ rest)), image_mset (live rules) (mset todo)) \<in> mult (mult (left_rel rules))"
          using mset_pop [of "image_mset (live rules) (mset l)" "live rules s" "mult (left_rel rules)"] st step_live
          by (auto simp: Cons)
        have c: "closed_under rules (set (s # seen)) (set (rev l @ rest)) (set new)"
          using \<open>closed_under rules (set seen) (set todo) (set new)\<close> 2(5) st by (auto simp: closed_under_def Cons)
        have "\<forall>s\<in>set (rev l @ rest). stack_ok rules s" using ok(2) l(2) by auto
        from IH [OF less this c \<open>distinct new\<close>] obtain new' where
          new': "advance_loop rules (rev l @ rest) (s # seen) new = Some new'" "set new' = set new \<union> reaches rules (set (rev l @ rest))"
            "distinct new'" by blast
        have "advance_loop rules todo seen new = Some new'"
          using new'(1) 2(1,2,3) l(1) unseen by (subst advance_loop.simps) (simp add: Cons)
        moreover have "reaches rules {s} = reaches rules (set l)" by (rule reaches_step [OF 2(5)]) (rule st)
        ultimately show ?thesis using new'(2,3) all reaches_Un [of rules "set l" "set rest"] by auto
      qed
    qed
  qed
qed

end
