(* ===== verification/GrammarLang.thy ===== *)
theory GrammarLang
  imports GrammarStep
begin

text \<open>
  The words a grammar generates, defined on the rules alone, and the stacks as the set of ways to continue:
  reading a code point takes the derivative of what the stacks generate.
\<close>

section \<open>Generated words\<close>

inductive gen :: "grule list \<Rightarrow> gpos \<Rightarrow> u32 list \<Rightarrow> bool" for rules where
  \<comment> \<open>the words of code points that the rest of an alternate generates\<close>
  gen_end: "elem_at rules p = Some e \<Longrightarrow> is_end_of_sequence e \<Longrightarrow> gen rules p []"
| gen_ref: "elem_at rules p = Some e \<Longrightarrow> ge_type e = GR_RULE_REF \<Longrightarrow> alt_starts rules (unat (ge_value e)) = Some starts \<Longrightarrow>
    q \<in> set starts \<Longrightarrow> gen rules q u \<Longrightarrow> gen rules (next_pos p) v \<Longrightarrow> gen rules p (u @ v)"
| gen_class: "elem_at rules p = Some e \<Longrightarrow> is_class e \<Longrightarrow> class_accepts rules p e c \<Longrightarrow> gen rules (class_end rules p) w \<Longrightarrow>
    gen rules p (c # w)"

definition generates :: "grule list \<Rightarrow> nat \<Rightarrow> u32 list \<Rightarrow> bool" where
  \<comment> \<open>the words of a rule: those of its alternates\<close>
  "generates rules r w \<longleftrightarrow> (\<exists>starts. alt_starts rules r = Some starts \<and> (\<exists>q\<in>set starts. gen rules q w))"

fun gen_stack :: "grule list \<Rightarrow> gstack \<Rightarrow> u32 list \<Rightarrow> bool" where
  "gen_stack rules [] w \<longleftrightarrow> w = []"
| "gen_stack rules (p # s) w \<longleftrightarrow> (\<exists>u v. w = u @ v \<and> gen rules p u \<and> gen_stack rules s v)"

lemma type_simps:
  "is_end_of_sequence e \<Longrightarrow> \<not> is_class e \<and> ge_type e \<noteq> GR_RULE_REF \<and> \<not> is_token_elem e"
  "is_class e \<Longrightarrow> \<not> is_end_of_sequence e \<and> ge_type e \<noteq> GR_RULE_REF \<and> \<not> is_token_elem e"
  "is_token_elem e \<Longrightarrow> \<not> is_end_of_sequence e \<and> ge_type e \<noteq> GR_RULE_REF \<and> \<not> is_class e"
  by (auto simp: is_end_of_sequence_def is_class_def is_positive_def is_token_elem_def)

inductive_cases genE: "gen rules p w"

lemma gen_at_end: "elem_at rules p = Some e \<Longrightarrow> is_end_of_sequence e \<Longrightarrow> gen rules p w \<longleftrightarrow> w = []"
  by (rule iffI, erule genE) (auto intro: gen_end dest: type_simps(1))

lemma gen_at_class:
  assumes "elem_at rules p = Some e" "is_class e"
  shows "gen rules p w \<longleftrightarrow> (\<exists>c v. w = c # v \<and> class_accepts rules p e c \<and> gen rules (class_end rules p) v)"
proof
  show "gen rules p w \<Longrightarrow> \<exists>c v. w = c # v \<and> class_accepts rules p e c \<and> gen rules (class_end rules p) v"
    by (erule genE) (use assms type_simps(2) [OF assms(2)] in auto)
qed (use gen_class [OF assms] in blast)

lemma gen_at_token: "elem_at rules p = Some e \<Longrightarrow> is_token_elem e \<Longrightarrow> \<not> gen rules p w"
  by (rule notI, erule genE) (auto dest: type_simps(3))

lemma gen_at_ref:
  assumes "elem_at rules p = Some e" "ge_type e = GR_RULE_REF" "alt_starts rules (unat (ge_value e)) = Some starts"
  shows "gen rules p w \<longleftrightarrow> (\<exists>u v. w = u @ v \<and> (\<exists>q\<in>set starts. gen rules q u) \<and> gen rules (next_pos p) v)"
proof
  assume "gen rules p w"
  then show "\<exists>u v. w = u @ v \<and> (\<exists>q\<in>set starts. gen rules q u) \<and> gen rules (next_pos p) v"
  proof (rule genE)
    fix e' assume "elem_at rules p = Some e'" "is_end_of_sequence e'"
    with assms(1,2) type_simps(1) [of e'] show ?thesis by simp
  next
    fix e' starts' q u v
    assume "w = u @ v" "elem_at rules p = Some e'" "alt_starts rules (unat (ge_value e')) = Some starts'" "q \<in> set starts'"
      "gen rules q u" "gen rules (next_pos p) v"
    with assms show ?thesis by (intro exI [of _ u] exI [of _ v]) auto
  next
    fix e' c w' assume "elem_at rules p = Some e'" "is_class e'"
    with assms(1,2) type_simps(2) [of e'] show ?thesis by simp
  qed
qed (use gen_ref [OF assms] in blast)

lemma gen_push:
  assumes "push_pos rules p s = Some s'"
  shows "gen_stack rules s' w \<longleftrightarrow> (\<exists>u v. w = u @ v \<and> gen rules p u \<and> gen_stack rules s v)"
proof -
  from assms obtain e where e: "elem_at rules p = Some e" "s' = (if is_end_of_sequence e then s else p # s)"
    by (auto simp: push_pos_def Option.bind_eq_Some_conv)
  then show ?thesis using gen_at_end [OF e(1)] by auto
qed

lemma split_words:
  "(\<exists>y x. w = y @ x \<and> (\<exists>u v. y = u @ v \<and> A u \<and> B v) \<and> C x) \<longleftrightarrow> (\<exists>u v x. w = u @ v @ x \<and> A u \<and> B v \<and> C x)"
proof
  assume "\<exists>y x. w = y @ x \<and> (\<exists>u v. y = u @ v \<and> A u \<and> B v) \<and> C x"
  then obtain u v x where "w = (u @ v) @ x" "A u" "B v" "C x" by blast
  then show "\<exists>u v x. w = u @ v @ x \<and> A u \<and> B v \<and> C x" by (intro exI [of _ u] exI [of _ v] exI [of _ x]) simp
next
  assume "\<exists>u v x. w = u @ v @ x \<and> A u \<and> B v \<and> C x"
  then obtain u v x where "w = (u @ v) @ x" "A u" "B v" "C x" by auto
  then show "\<exists>y x. w = y @ x \<and> (\<exists>u v. y = u @ v \<and> A u \<and> B v) \<and> C x" by blast
qed

lemma gen_expand:
  assumes wf: "wf_rules rules" and s: "s = p # rest" "elem_at rules p = Some e" "ge_type e = GR_RULE_REF" "stack_ok rules rest"
  shows "gen_stack rules s w \<longleftrightarrow> (\<exists>s'. step rules s s' \<and> gen_stack rules s' w)"
proof -
  from expand_ref_run [OF wf s(2-4)] obtain l starts where
    l: "expand_ref rules p e rest = Some l" "alt_starts rules (unat (ge_value e)) = Some starts"
      "\<forall>s'. s' \<in> set l \<longleftrightarrow> (\<exists>q\<in>set starts. \<exists>t. push_pos rules (next_pos p) rest = Some t \<and> push_pos rules q t = Some s')"
      "\<forall>q\<in>set starts. pos_ok rules q" by blast
  have "pos_ok rules (next_pos p)" using pos_ok_next [OF wf s(2)] s(3) by simp
  from push_pos_ok [OF this s(4)] obtain t where t: "push_pos rules (next_pos p) rest = Some t" "stack_ok rules t" by blast
  have st: "step rules s s' \<longleftrightarrow> (\<exists>q\<in>set starts. push_pos rules q t = Some s')" for s'
    using s l(1,3) t(1) by (auto simp: step_def)
  have q: "\<exists>s'. push_pos rules q t = Some s'" if "q \<in> set starts" for q using push_pos_ok [OF _ t(2)] l(4) that by blast
  let ?A = "\<lambda>u. \<exists>q\<in>set starts. gen rules q u"
  have "(\<exists>s'. step rules s s' \<and> gen_stack rules s' w) \<longleftrightarrow> (\<exists>u y. w = u @ y \<and> ?A u \<and> gen_stack rules t y)"
  proof
    assume "\<exists>s'. step rules s s' \<and> gen_stack rules s' w"
    then obtain s' q where "q \<in> set starts" "push_pos rules q t = Some s'" "gen_stack rules s' w" unfolding st by blast
    with gen_push [of rules q t s' w] show "\<exists>u y. w = u @ y \<and> ?A u \<and> gen_stack rules t y" by blast
  next
    assume "\<exists>u y. w = u @ y \<and> ?A u \<and> gen_stack rules t y"
    then obtain u y x where x: "w = u @ y" "x \<in> set starts" "gen rules x u" "gen_stack rules t y" by blast
    from q [OF x(2)] obtain s' where "push_pos rules x t = Some s'" by blast
    with gen_push [OF this, of w] x st show "\<exists>s'. step rules s s' \<and> gen_stack rules s' w" by blast
  qed
  also have "\<dots> \<longleftrightarrow> (\<exists>u v x. w = u @ v @ x \<and> ?A u \<and> gen rules (next_pos p) v \<and> gen_stack rules rest x)"
  proof -
    have "(\<exists>u y. w = u @ y \<and> ?A u \<and> gen_stack rules t y) \<longleftrightarrow>
        (\<exists>u y. w = u @ y \<and> ?A u \<and> (\<exists>v x. y = v @ x \<and> gen rules (next_pos p) v \<and> gen_stack rules rest x))"
      unfolding gen_push [OF t(1)] ..
    then show ?thesis by (rule trans) metis
  qed
  also have "\<dots> \<longleftrightarrow> gen_stack rules s w"
    unfolding s(1) gen_stack.simps gen_at_ref [OF s(2,3) l(2)] split_words ..
  finally show ?thesis by (rule sym)
qed

lemma gen_step:
  assumes "wf_rules rules" "stack_ok rules s" "step rules s s'" "gen_stack rules s' w"
  shows "gen_stack rules s w"
  using assms(2)
proof (cases rule: stack_cases)
  case 1
  with assms(3) terminal_no_step show ?thesis by blast
next
  case (2 p rest e)
  with gen_expand [OF assms(1) 2(1-4)] assms(3,4) show ?thesis by blast
qed

lemma gen_steps: "(step rules)\<^sup>*\<^sup>* s t \<Longrightarrow> wf_rules rules \<Longrightarrow> stack_ok rules s \<Longrightarrow> gen_stack rules t w \<Longrightarrow> gen_stack rules s w"
  by (induction rule: converse_rtranclp_induct) (auto intro: gen_step step_ok)

lemma gen_reaches:
  assumes wf: "wf_rules rules" and nlr: "no_left_recursion rules" and "stack_ok rules s"
  shows "gen_stack rules s w \<longleftrightarrow> (\<exists>t\<in>reaches rules {s}. gen_stack rules t w)"
proof
  show "\<exists>t\<in>reaches rules {s}. gen_stack rules t w" if "gen_stack rules s w"
    using step_wf [OF nlr] assms(3) that
  proof (induction s rule: wf_induct_rule)
    case (less s)
    from less.prems(1) show ?case
    proof (cases rule: stack_cases)
      case 1
      with less.prems(2) show ?thesis by (auto simp: reaches_terminal)
    next
      case (2 p rest e)
      with gen_expand [OF wf 2(1-4)] less.prems(2) obtain s' where s': "step rules s s'" "gen_stack rules s' w" by blast
      from less.IH [of s'] s' step_ok [OF wf less.prems(1)] show ?thesis
        by (auto simp: reaches_def intro: converse_rtranclp_into_rtranclp)
    qed
  qed
  show "gen_stack rules s w" if "\<exists>t\<in>reaches rules {s}. gen_stack rules t w"
    using that gen_steps [OF _ wf assms(3)] by (auto simp: reaches_def)
qed

section \<open>Reading code points\<close>

definition ready :: "grule list \<Rightarrow> gstack list \<Rightarrow> bool" where
  "ready rules stacks \<longleftrightarrow> (\<forall>s\<in>set stacks. stack_ok rules s \<and> terminal rules s) \<and> distinct stacks"

lemma reaches_ready: "wf_rules rules \<Longrightarrow> stack_ok rules s \<Longrightarrow> t \<in> reaches rules {s} \<Longrightarrow> stack_ok rules t \<and> terminal rules t"
  using steps_ok by (auto simp: reaches_def)

lemma advance_stack_run:
  assumes "wf_rules rules" "no_left_recursion rules" "stack_ok rules s" "distinct new"
  shows "\<exists>new'. advance_stack rules s new = Some new' \<and> set new' = set new \<union> reaches rules {s} \<and> distinct new'"
  using advance_loop_spec [OF assms(1,2), of "[s]" "[]" new] assms(3,4) by (simp add: advance_stack_def closed_under_def)

definition chr_next :: "grule list \<Rightarrow> gstack \<Rightarrow> u32 \<Rightarrow> gstack set" where
  "chr_next rules s c = {t. \<exists>p rest e s'. s = p # rest \<and> elem_at rules p = Some e \<and> is_class e \<and> class_accepts rules p e c \<and>
     push_pos rules (class_end rules p) rest = Some s' \<and> t \<in> reaches rules {s'}}"

lemma accept_chr_run:
  assumes wf: "wf_rules rules" and nlr: "no_left_recursion rules" and s: "stack_ok rules s" "terminal rules s" and "distinct new"
  shows "\<exists>new'. accept_chr rules s c new = Some new' \<and> set new' = set new \<union> chr_next rules s c \<and> distinct new'"
proof (cases s)
  case Nil
  then show ?thesis using assms(5) by (simp add: accept_chr_def chr_next_def)
next
  case (Cons p rest)
  then obtain e where e: "elem_at rules p = Some e" "is_class e \<or> is_token_elem e" "stack_ok rules rest" "item_ok rules p"
    using s by (auto simp: terminal_def)
  show ?thesis
  proof (cases "is_token_elem e")
    case True
    then have "chr_next rules s c = {}" using type_simps(3) [OF True] e(1) Cons by (auto simp: chr_next_def)
    with True Cons e(1) assms(5) show ?thesis by (simp add: accept_chr_def)
  next
    case False
    then have cl: "is_class e" using e(2) by simp
    note m = match_char_run(1) [OF wf e(1) cl, of c] match_char_run(2) [OF wf e(1) cl]
    from push_pos_ok [OF m(2) e(3)] obtain s' where s': "push_pos rules (class_end rules p) rest = Some s'" "stack_ok rules s'" by blast
    have nx: "chr_next rules s c = (if class_accepts rules p e c then reaches rules {s'} else {})"
      using Cons e(1) cl s'(1) by (auto simp: chr_next_def)
    from advance_stack_run [OF wf nlr s'(2) assms(5)] obtain new' where
      "advance_stack rules s' new = Some new'" "set new' = set new \<union> reaches rules {s'}" "distinct new'" by blast
    with False Cons e(1) m(1) s'(1) nx assms(5) show ?thesis by (simp add: accept_chr_def)
  qed
qed

lemma chr_next_ready:
  assumes "wf_rules rules" "stack_ok rules s" "t \<in> chr_next rules s c"
  shows "stack_ok rules t \<and> terminal rules t"
proof -
  from assms(3) obtain p rest e s' where s: "s = p # rest" "elem_at rules p = Some e" "is_class e"
    "push_pos rules (class_end rules p) rest = Some s'" "t \<in> reaches rules {s'}" by (auto simp: chr_next_def)
  have "stack_ok rules s'"
    using push_pos_ok [OF match_char_run(2) [OF assms(1) s(2,3)], of rest] s(1,4) assms(2) by auto
  with reaches_ready [OF assms(1) _ s(5)] show ?thesis by blast
qed

lemma accept_all_run:
  assumes wf: "wf_rules rules" and nlr: "no_left_recursion rules" and r: "ready rules stacks"
  shows "\<exists>stacks'. accept_all rules stacks c = Some stacks' \<and> ready rules stacks' \<and> set stacks' = (\<Union>s\<in>set stacks. chr_next rules s c)"
proof -
  have "\<exists>new. accept_all rules stacks c = Some new \<and> (distinct new \<and> set new = (\<Union>s\<in>set stacks. chr_next rules s c))"
    unfolding accept_all_def
  proof (rule foldM_rule)
    fix "done" s rest new assume sp: "stacks = done @ s # rest" and P: "distinct new \<and> set new = (\<Union>s\<in>set done. chr_next rules s c)"
    have "stack_ok rules s" "terminal rules s" using r by (simp_all add: ready_def sp)
    from accept_chr_run [OF wf nlr this, of new c] P
    show "\<exists>new'. accept_chr rules s c new = Some new' \<and> (distinct new' \<and> set new' = (\<Union>s\<in>set (done @ [s]). chr_next rules s c))"
      by auto
  qed simp
  with chr_next_ready [OF wf] r show ?thesis by (fastforce simp: ready_def)
qed

text \<open>Reading \<open>c\<close> leaves the words that may follow \<open>c\<close>.\<close>

lemma gen_chr:
  assumes wf: "wf_rules rules" and nlr: "no_left_recursion rules" and s: "stack_ok rules s" "terminal rules s"
  shows "gen_stack rules s (c # w) \<longleftrightarrow> (\<exists>t\<in>chr_next rules s c. gen_stack rules t w)"
proof (cases s)
  case (Cons p rest)
  then obtain e where e: "elem_at rules p = Some e" "is_class e \<or> is_token_elem e" "stack_ok rules rest"
    using s by (auto simp: terminal_def)
  show ?thesis
  proof (cases "is_class e")
    case True
    from push_pos_ok [OF match_char_run(2) [OF wf e(1) True] e(3)] obtain s' where
      s': "push_pos rules (class_end rules p) rest = Some s'" "stack_ok rules s'" by blast
    have nx: "chr_next rules s c = (if class_accepts rules p e c then reaches rules {s'} else {})"
      using Cons e(1) True s'(1) by (auto simp: chr_next_def)
    have "gen_stack rules s (c # w) \<longleftrightarrow> class_accepts rules p e c \<and> gen_stack rules s' w"
      unfolding gen_push [OF s'(1)] Cons gen_stack.simps gen_at_class [OF e(1) True] by (auto simp: Cons_eq_append_conv)
    also have "\<dots> \<longleftrightarrow> (\<exists>t\<in>chr_next rules s c. gen_stack rules t w)"
      using gen_reaches [OF wf nlr s'(2)] nx by simp
    finally show ?thesis .
  next
    case False
    then have t: "is_token_elem e" using e(2) by simp
    then have "chr_next rules s c = {}" using type_simps(3) [OF t] e(1) Cons by (auto simp: chr_next_def)
    with gen_at_token [OF e(1) t] Cons show ?thesis by simp
  qed
qed (simp add: chr_next_def)

lemma gen_terminal_empty:
  assumes "terminal rules s"
  shows "gen_stack rules s [] \<longleftrightarrow> s = []"
  using assms gen_at_token gen_at_class by (cases s) (fastforce simp: terminal_def)+

end
