(* ===== verification/GrammarReject.thy ===== *)
theory GrammarReject
  imports GrammarLang
begin

text \<open>
  The candidates that \<open>llama_grammar_reject_candidates\<close> rejects: those no stack can read. One pass over the
  stacks computes this although it descends into the expansions of each stack only once for all candidates.
\<close>

section \<open>What a candidate asks of a stack\<close>

definition remaining :: "gcandidate \<Rightarrow> u32 list" where
  "remaining t = takeWhile (\<lambda>c. c \<noteq> 0) (drop (gc_off t) (gc_points t))"

definition cand_ok :: "gcandidate \<Rightarrow> bool" where
  \<comment> \<open>the code points from the pointer on end in a 0\<close>
  "cand_ok t \<longleftrightarrow> gc_off t + length (remaining t) < length (gc_points t)"

definition token_matches :: "gelem \<Rightarrow> token_id \<Rightarrow> bool" where
  "token_matches e tok \<longleftrightarrow> (if ge_type e = GR_TOKEN then ge_value e = word_of_int tok else ge_value e \<noteq> word_of_int tok)"

definition end_ok :: "grule list \<Rightarrow> partial_utf8 \<Rightarrow> gstack \<Rightarrow> bool" where
  \<comment> \<open>the token ends here: with a whole code point, or one that may be completed to one of the class\<close>
  "end_ok rules part s \<longleftrightarrow> pu_n_remain part = 0 \<or>
     (\<exists>p rest e. s = p # rest \<and> elem_at rules p = Some e \<and> is_class e \<and> match_partial_char rules p part = Some True)"

fun passes :: "grule list \<Rightarrow> partial_utf8 \<Rightarrow> token_id \<Rightarrow> gstack \<Rightarrow> u32 list \<Rightarrow> bool" where
  "passes rules part tok s [] \<longleftrightarrow> end_ok rules part s"
| "passes rules part tok s (c # cs) \<longleftrightarrow>
     (\<exists>p rest e. s = p # rest \<and> elem_at rules p = Some e \<and> is_token_elem e \<and> token_matches e tok) \<or>
     (\<exists>t\<in>chr_next rules s c. passes rules part tok t cs)"

definition cand_passes :: "grule list \<Rightarrow> gstack \<Rightarrow> gcandidate \<Rightarrow> bool" where
  "cand_passes rules s t \<longleftrightarrow> passes rules (gc_partial t) (gc_id t) s (remaining t)"

lemma cand_cur:
  assumes "cand_ok t"
  shows "remaining t = [] \<Longrightarrow> gc_cur t = Some 0"
    "remaining t = c # cs \<Longrightarrow> gc_cur t = Some c \<and> c \<noteq> 0 \<and> remaining (t\<lparr>gc_off := gc_off t + 1\<rparr>) = cs \<and> cand_ok (t\<lparr>gc_off := gc_off t + 1\<rparr>)"
proof -
  let ?d = "drop (gc_off t) (gc_points t)"
  have d: "?d \<noteq> []" using assms by (simp add: cand_ok_def)
  then obtain x xs where x: "?d = x # xs" by (cases ?d) auto
  have lt: "gc_off t < length (gc_points t)" using assms by (simp add: cand_ok_def)
  have cur: "gc_cur t = Some x" using lt hd_drop_conv_nth [OF lt] x by (simp add: gc_cur_def)
  have xs: "drop (gc_off t + 1) (gc_points t) = xs" using x by (metis drop_Suc tl_drop Suc_eq_plus1 list.sel(3))
  show "remaining t = [] \<Longrightarrow> gc_cur t = Some 0" using x cur by (auto simp: remaining_def split: if_splits)
  assume r: "remaining t = c # cs"
  then have "x = c" "x \<noteq> 0" "takeWhile (\<lambda>c. c \<noteq> 0) xs = cs" using x by (auto simp: remaining_def split: if_splits)
  with cur xs assms r show "gc_cur t = Some c \<and> c \<noteq> 0 \<and> remaining (t\<lparr>gc_off := gc_off t + 1\<rparr>) = cs \<and> cand_ok (t\<lparr>gc_off := gc_off t + 1\<rparr>)"
    by (simp add: remaining_def cand_ok_def)
qed

section \<open>One stack\<close>

lemma foldM_filter:
  assumes "\<And>t. t \<in> set ts \<Longrightarrow> \<forall>acc. f t acc = Some (if P t then acc @ [t] else acc)"
  shows "foldM f ts acc = Some (acc @ filter P ts)"
  using assms by (induction ts arbitrary: acc) auto

lemma reject_empty_run:
  assumes "\<forall>t\<in>set cands. cand_ok t"
  shows "reject_empty cands = Some (filter (\<lambda>t. \<not> cand_passes rules [] t) cands)"
proof -
  have "do { c \<leftarrow> gc_cur t; Some (if c \<noteq> 0 \<or> pu_n_remain (gc_partial t) \<noteq> 0 then rej @ [t] else rej) } =
      Some (if \<not> cand_passes rules [] t then rej @ [t] else rej)" if "t \<in> set cands" for t rej
    using cand_cur [of t] assms that by (cases "remaining t") (auto simp: cand_passes_def end_ok_def chr_next_def)
  then have "reject_empty cands = Some ([] @ filter (\<lambda>t. \<not> cand_passes rules [] t) cands)"
    unfolding reject_empty_def by (intro foldM_filter allI)
  then show ?thesis by simp
qed

lemma reject_token_run:
  assumes "\<forall>t\<in>set cands. cand_ok t" "elem_at rules p = Some e" "is_token_elem e"
  shows "reject_token e cands = Some (filter (\<lambda>t. \<not> cand_passes rules (p # rest) t) cands)"
proof -
  have none: "chr_next rules (p # rest) c = {}" for c using assms(2) type_simps(3) [OF assms(3)] by (auto simp: chr_next_def)
  have m: "match_token e tok = Some (token_matches e tok)" for tok using assms(3) by (simp add: match_token_def token_matches_def)
  have "do { c \<leftarrow> gc_cur t; (if c = 0 then Some (if pu_n_remain (gc_partial t) \<noteq> 0 then rej @ [t] else rej)
        else do { ok \<leftarrow> match_token e (gc_id t); Some (if \<not> ok then rej @ [t] else rej) }) } =
      Some (if \<not> cand_passes rules (p # rest) t then rej @ [t] else rej)" if "t \<in> set cands" for t rej
    using cand_cur [of t] assms that none m type_simps(3) [OF assms(3)]
    by (cases "remaining t") (auto simp: cand_passes_def end_ok_def)
  then have "reject_token e cands = Some ([] @ filter (\<lambda>t. \<not> cand_passes rules (p # rest) t) cands)"
    unfolding reject_token_def by (intro foldM_filter allI)
  then show ?thesis by simp
qed

definition goes_on :: "grule list \<Rightarrow> gpos \<Rightarrow> gelem \<Rightarrow> gcandidate \<Rightarrow> bool" where
  "goes_on rules p e t \<longleftrightarrow> (\<exists>c cs. remaining t = c # cs \<and> class_accepts rules p e c)"

definition stays_out :: "grule list \<Rightarrow> gpos \<Rightarrow> gelem \<Rightarrow> gcandidate \<Rightarrow> bool" where
  "stays_out rules p e t \<longleftrightarrow> (case remaining t of
     [] \<Rightarrow> pu_n_remain (gc_partial t) \<noteq> 0 \<and> match_partial_char rules p (gc_partial t) \<noteq> Some True
   | c # cs \<Rightarrow> \<not> class_accepts rules p e c)"

lemma split_candidates_run:
  assumes wf: "wf_rules rules" and ok: "\<forall>t\<in>set cands. cand_ok t" and e: "elem_at rules p = Some e" "is_class e"
  shows "split_candidates rules p cands =
    Some (map (\<lambda>t. t\<lparr>gc_off := gc_off t + 1\<rparr>) (filter (goes_on rules p e) cands), filter (stays_out rules p e) cands)"
proof -
  let ?f = "\<lambda>t (next, rej). do {
       c \<leftarrow> gc_cur t;
       (if c = 0 then
          (if pu_n_remain (gc_partial t) \<noteq> 0 then do {
             ok \<leftarrow> match_partial_char rules p (gc_partial t);
             Some (next, if \<not> ok then rej @ [t] else rej)
           } else Some (next, rej))
        else do {
          (ok, _) \<leftarrow> match_char rules p c;
          Some (if ok then (next @ [t\<lparr>gc_off := gc_off t + 1\<rparr>], rej) else (next, rej @ [t]))
        })
     }"
  have one: "?f t (nx, rej) = Some (nx @ map (\<lambda>t. t\<lparr>gc_off := gc_off t + 1\<rparr>) (filter (goes_on rules p e) [t]),
      rej @ filter (stays_out rules p e) [t])" if "cand_ok t" for t nx rej
  proof (cases "remaining t")
    case Nil
    with cand_cur(1) [OF that] match_partial_run [OF wf e] show ?thesis
      by (auto simp: goes_on_def stays_out_def)
  next
    case (Cons c cs)
    with cand_cur(2) [OF that Cons] match_char_run(1) [OF wf e] show ?thesis
      by (auto simp: goes_on_def stays_out_def)
  qed
  have "foldM ?f ts (nx, rej) = Some (nx @ map (\<lambda>t. t\<lparr>gc_off := gc_off t + 1\<rparr>) (filter (goes_on rules p e) ts),
      rej @ filter (stays_out rules p e) ts)" if "\<forall>t\<in>set ts. cand_ok t" for ts nx rej
    using that
  proof (induction ts arbitrary: nx rej)
    case (Cons t ts)
    then show ?case using one [of t nx rej] by (simp del: split_paired_All)
  qed simp
  from this [of cands "[]" "[]"] ok show ?thesis by (simp add: split_candidates_def)
qed

section \<open>All stacks\<close>

lemma cand_passes_class:
  assumes wf: "wf_rules rules" and e: "elem_at rules p = Some e" "is_class e" and push: "push_pos rules (class_end rules p) rest = Some s'"
    and ok: "cand_ok t"
  shows "cand_passes rules (p # rest) t \<longleftrightarrow> \<not> stays_out rules p e t \<and>
    (goes_on rules p e t \<longrightarrow> (\<exists>u\<in>reaches rules {s'}. cand_passes rules u (t\<lparr>gc_off := gc_off t + 1\<rparr>)))"
proof (cases "remaining t")
  case Nil
  with e match_partial_run [OF wf e] show ?thesis by (auto simp: cand_passes_def end_ok_def stays_out_def goes_on_def)
next
  case (Cons c cs)
  have "chr_next rules (p # rest) c = (if class_accepts rules p e c then reaches rules {s'} else {})"
    using e push by (auto simp: chr_next_def)
  with Cons cand_cur(2) [OF ok Cons] type_simps(2) [OF e(2)] e(1) show ?thesis
    by (auto simp: cand_passes_def stays_out_def goes_on_def)
qed

lemma reject_fold_run:
  assumes ne: "stacks \<noteq> []" and step: "\<And>s ts. s \<in> set stacks \<Longrightarrow> set ts \<subseteq> set cands \<Longrightarrow>
    \<exists>rej'. rej s ts = Some rej' \<and> set rej' = {t \<in> set ts. \<not> P s t}"
  shows "\<exists>r. reject_fold rej stacks cands = Some r \<and> set r = {t \<in> set cands. \<forall>s\<in>set stacks. \<not> P s t}"
proof (cases "cands = []")
  case True
  with ne show ?thesis by (simp add: reject_fold_def)
next
  case False
  have "\<exists>r. foldM rej stacks cands = Some r \<and> set r = {t \<in> set cands. \<forall>s\<in>set stacks. \<not> P s t}"
  proof (rule foldM_rule)
    fix "done" s rest ts assume s: "stacks = done @ s # rest" and ts: "set ts = {t \<in> set cands. \<forall>s\<in>set done. \<not> P s t}"
    have "s \<in> set stacks" "set ts \<subseteq> set cands" using s ts by auto
    from step [OF this] ts show "\<exists>ts'. rej s ts = Some ts' \<and> set ts' = {t \<in> set cands. \<forall>s\<in>set (done @ [s]). \<not> P s t}" by auto
  qed simp
  with False ne show ?thesis by (simp add: reject_fold_def)
qed

lemma reject_for_stack_run:
  assumes wf: "wf_rules rules" and nlr: "no_left_recursion rules"
  shows "stack_ok rules s \<Longrightarrow> terminal rules s \<Longrightarrow> \<forall>t\<in>set cands. cand_ok t \<and> length (remaining t) < fuel \<Longrightarrow>
    0 < fuel \<Longrightarrow> \<exists>rej. reject_for_stack fuel rules s cands = Some rej \<and> set rej = {t \<in> set cands. \<not> cand_passes rules s t}"
proof (induction fuel arbitrary: s cands)
  case (Suc fuel)
  have ok: "\<forall>t\<in>set cands. cand_ok t" using Suc.prems(3) by blast
  show ?case
  proof (cases s)
    case Nil
    then show ?thesis using reject_empty_run [OF ok, of rules] by simp
  next
    case (Cons p rest)
    then obtain e where e: "elem_at rules p = Some e" "is_class e \<or> is_token_elem e" "stack_ok rules rest"
      using Suc.prems(1,2) by (auto simp: terminal_def)
    show ?thesis
    proof (cases "is_token_elem e")
      case True
      with reject_token_run [OF ok e(1) True, of rest] Cons e(1) show ?thesis by simp
    next
      case False
      then have cl: "is_class e" using e(2) by simp
      let ?next = "map (\<lambda>t. t\<lparr>gc_off := gc_off t + 1\<rparr>) (filter (goes_on rules p e) cands)"
      note m = match_char_run(1) [OF wf e(1) cl, of 0] match_char_run(2) [OF wf e(1) cl]
      from push_pos_ok [OF m(2) e(3)] obtain s' where s': "push_pos rules (class_end rules p) rest = Some s'" "stack_ok rules s'" by blast
      from advance_stack_run [OF wf nlr s'(2), of "[]"] obtain stacks where
        st: "advance_stack rules s' [] = Some stacks" "set stacks = reaches rules {s'}" by auto
      have "stacks \<noteq> []" using terminal_reachable [OF wf nlr s'(2)] st(2) by (auto simp: reaches_def)
      have nx: "\<forall>t\<in>set ?next. cand_ok t \<and> length (remaining t) < fuel"
      proof
        fix t' assume "t' \<in> set ?next"
        then obtain t where t: "t \<in> set cands" "goes_on rules p e t" "t' = t\<lparr>gc_off := gc_off t + 1\<rparr>" by auto
        then obtain c cs where c: "remaining t = c # cs" by (auto simp: goes_on_def)
        have "length (remaining t) < Suc fuel" "cand_ok t" using Suc.prems(3) t(1) by blast+
        with cand_cur(2) [OF _ c] c t(3) show "cand_ok t' \<and> length (remaining t') < fuel" by auto
      qed
      have "\<exists>r. reject_fold (reject_for_stack fuel rules) stacks ?next = Some r \<and> set r = {t \<in> set ?next. \<forall>u\<in>set stacks. \<not> cand_passes rules u t}"
      proof (cases "?next = []")
        case True
        with \<open>stacks \<noteq> []\<close> show ?thesis by (simp add: reject_fold_def)
      next
        case False
        then obtain t where "t \<in> set ?next" using list.set_sel(1) by blast
        with nx have "0 < fuel" by auto
        show ?thesis
        proof (rule reject_fold_run [OF \<open>stacks \<noteq> []\<close>])
          fix u ts assume u: "u \<in> set stacks" and ts: "set ts \<subseteq> set ?next"
          have "stack_ok rules u" "terminal rules u" using reaches_ready [OF wf s'(2)] u st(2) by blast+
          moreover have "\<forall>t\<in>set ts. cand_ok t \<and> length (remaining t) < fuel" using nx ts by blast
          ultimately show "\<exists>rej'. reject_for_stack fuel rules u ts = Some rej' \<and> set rej' = {t \<in> set ts. \<not> cand_passes rules u t}"
            using Suc.IH \<open>0 < fuel\<close> by blast
        qed
      qed
      then obtain r where
        r: "reject_fold (reject_for_stack fuel rules) stacks ?next = Some r" "set r = {t \<in> set ?next. \<forall>u\<in>set stacks. \<not> cand_passes rules u t}"
        by blast
      have run: "reject_for_stack (Suc fuel) rules s cands =
          Some (filter (stays_out rules p e) cands @ map (\<lambda>t. t\<lparr>gc_off := gc_off t - 1\<rparr>) r)"
        using Cons e(1) False m(1) s'(1) st(1) r(1) split_candidates_run [OF wf ok e(1) cl] by simp
      have bk: "(\<lambda>t. t\<lparr>gc_off := gc_off t - 1\<rparr>) ` set r =
          {t \<in> set cands. goes_on rules p e t \<and> (\<forall>u\<in>reaches rules {s'}. \<not> cand_passes rules u (t\<lparr>gc_off := gc_off t + 1\<rparr>))}"
        unfolding r(2) st(2) by (force simp: image_iff)
      have "stays_out rules p e t \<Longrightarrow> \<not> goes_on rules p e t" for t by (auto simp: stays_out_def goes_on_def)
      then have "set (filter (stays_out rules p e) cands @ map (\<lambda>t. t\<lparr>gc_off := gc_off t - 1\<rparr>) r) = {t \<in> set cands. \<not> cand_passes rules s t}"
        unfolding set_append set_map bk Cons using cand_passes_class [OF wf e(1) cl s'(1)] ok by auto
      with run show ?thesis by blast
    qed
  qed
qed simp

lemma fold_max: "(\<forall>t\<in>set ts. f t \<le> fold (\<lambda>t n. max (f t) n) ts n) \<and> n \<le> fold (\<lambda>t n. max (f t) n) ts n" for n :: nat
proof (induction ts arbitrary: n)
  case (Cons t ts)
  have "\<forall>u\<in>set ts. f u \<le> fold (\<lambda>t n. max (f t) n) ts (max (f t) n)" "max (f t) n \<le> fold (\<lambda>t n. max (f t) n) ts (max (f t) n)"
    using Cons [of "max (f t) n"] by auto
  then show ?case by auto
qed simp

lemma reject_candidates_run:
  assumes wf: "wf_rules rules" and nlr: "no_left_recursion rules" and r: "ready rules stacks" "stacks \<noteq> []"
    and ok: "\<forall>t\<in>set cands. cand_ok t"
  shows "\<exists>rej. reject_candidates rules stacks cands = Some rej \<and> set rej = {t \<in> set cands. \<forall>s\<in>set stacks. \<not> cand_passes rules s t}"
  unfolding reject_candidates_def
proof (rule reject_fold_run [OF r(2)])
  fix s ts assume s: "s \<in> set stacks" and ts: "set ts \<subseteq> set cands"
  have "length (remaining t) < reject_depth cands" if "t \<in> set cands" for t
  proof -
    have "length (remaining t) \<le> length (gc_points t)" using ok that by (auto simp: cand_ok_def)
    with fold_max [of cands "\<lambda>t. length (gc_points t)" 0] that show ?thesis by (auto simp: reject_depth_def)
  qed
  with s ts r(1) ok show "\<exists>rej'. reject_for_stack (reject_depth cands) rules s ts = Some rej' \<and> set rej' = {t \<in> set ts. \<not> cand_passes rules s t}"
    by (intro reject_for_stack_run [OF wf nlr]) (auto simp: ready_def reject_depth_def)
qed

end
