(* ===== verification/GrammarRun.thy ===== *)
theory GrammarRun
  imports GrammarReject
begin

text \<open>
  The grammar as the sampler uses it: masking the candidates and accepting the sampled token fit together.
\<close>

section \<open>Initial stacks and words\<close>

lemma init_stacks_run:
  assumes wf: "wf_rules rules" and nlr: "no_left_recursion rules" and r: "r < length rules"
  shows "\<exists>stacks. init_stacks rules r = Some stacks \<and> ready rules stacks \<and> stacks \<noteq> [] \<and>
    (\<forall>w. (\<exists>s\<in>set stacks. gen_stack rules s w) \<longleftrightarrow> generates rules r w)"
proof -
  from alt_starts_run [OF wf r] obtain starts where
    st: "alt_starts rules r = Some starts" "starts \<noteq> []" "\<forall>q\<in>set starts. pos_ok rules q" by blast
  have push: "\<exists>s. push_pos rules q [] = Some s \<and> stack_ok rules s" if "q \<in> set starts" for q
    using push_pos_ok [of rules q "[]"] st(3) that by simp
  let ?T = "\<lambda>q. {t. \<exists>s. push_pos rules q [] = Some s \<and> t \<in> reaches rules {s}}"
  have "\<exists>stacks. foldM (\<lambda>q stacks. do { s \<leftarrow> push_pos rules q []; advance_stack rules s stacks }) starts [] = Some stacks \<and>
      (distinct stacks \<and> set stacks = (\<Union>q\<in>set starts. ?T q))"
  proof (rule foldM_rule)
    fix "done" q rest stacks assume s: "starts = done @ q # rest" and P: "distinct stacks \<and> set stacks = (\<Union>q\<in>set done. ?T q)"
    from push [of q] s obtain s' where s': "push_pos rules q [] = Some s'" "stack_ok rules s'" by auto
    from advance_stack_run [OF wf nlr s'(2), of stacks] P s'(1)
    show "\<exists>stacks'. do { s \<leftarrow> push_pos rules q []; advance_stack rules s stacks } = Some stacks' \<and>
        (distinct stacks' \<and> set stacks' = (\<Union>q\<in>set (done @ [q]). ?T q))" by auto
  qed simp
  then obtain stacks where stacks: "init_stacks rules r = Some stacks" "distinct stacks" "set stacks = (\<Union>q\<in>set starts. ?T q)"
    using st(1) by (auto simp: init_stacks_def)
  have "ready rules stacks"
    unfolding ready_def
  proof (intro conjI ballI stacks(2))
    fix t assume "t \<in> set stacks"
    then obtain q s where "q \<in> set starts" "push_pos rules q [] = Some s" "t \<in> reaches rules {s}" using stacks(3) by auto
    with push [of q] reaches_ready [OF wf, of s t] show "stack_ok rules t" "terminal rules t" by auto
  qed
  moreover have "stacks \<noteq> []"
  proof -
    from st(2) obtain q where q: "q \<in> set starts" by (cases starts) auto
    from push [OF q] obtain s where s: "push_pos rules q [] = Some s" "stack_ok rules s" by blast
    from terminal_reachable [OF wf nlr s(2)] q s(1) have "set stacks \<noteq> {}" unfolding stacks(3) by (fastforce simp: reaches_def)
    then show ?thesis by simp
  qed
  moreover have "(\<exists>s\<in>set stacks. gen_stack rules s w) \<longleftrightarrow> generates rules r w" for w
  proof -
    have "gen rules q w \<longleftrightarrow> (\<exists>t\<in>?T q. gen_stack rules t w)" if q: "q \<in> set starts" for q
    proof -
      from push [OF q] obtain s where s: "push_pos rules q [] = Some s" "stack_ok rules s" by blast
      have "gen rules q w \<longleftrightarrow> gen_stack rules s w" using gen_push [OF s(1), of w] by auto
      then show ?thesis using gen_reaches [OF wf nlr s(2), of w] s(1) by auto
    qed
    then show ?thesis using st(1) stacks(3) by (auto simp: generates_def)
  qed
  ultimately show ?thesis using stacks(1) by blast
qed

lemma accept_all_gen:
  assumes wf: "wf_rules rules" and nlr: "no_left_recursion rules" and r: "ready rules stacks"
  shows "\<exists>stacks'. accept_all rules stacks c = Some stacks' \<and> ready rules stacks' \<and>
    (\<forall>w. (\<exists>s\<in>set stacks'. gen_stack rules s w) \<longleftrightarrow> (\<exists>s\<in>set stacks. gen_stack rules s (c # w)))"
proof -
  from accept_all_run [OF assms, of c] obtain stacks' where
    s: "accept_all rules stacks c = Some stacks'" "ready rules stacks'" "set stacks' = (\<Union>s\<in>set stacks. chr_next rules s c)" by blast
  moreover have "gen_stack rules t (c # w) \<longleftrightarrow> (\<exists>u\<in>chr_next rules t c. gen_stack rules u w)" if "t \<in> set stacks" for t w
    using gen_chr [OF wf nlr] r that by (auto simp: ready_def)
  ultimately show ?thesis by auto
qed

lemma grammar_accept_word:
  assumes "wf_rules (gr_rules g)" "no_left_recursion (gr_rules g)" "ready (gr_rules g) (gr_stacks g)"
  shows "\<exists>g'. foldM grammar_accept w g = Some g' \<and> gr_rules g' = gr_rules g \<and> ready (gr_rules g) (gr_stacks g') \<and>
    (\<forall>v. (\<exists>s\<in>set (gr_stacks g'). gen_stack (gr_rules g) s v) \<longleftrightarrow> (\<exists>s\<in>set (gr_stacks g). gen_stack (gr_rules g) s (w @ v)))"
  using assms
proof (induction w arbitrary: g)
  case (Cons c w)
  from accept_all_gen [OF Cons.prems, of c] obtain stacks' where
    s: "accept_all (gr_rules g) (gr_stacks g) c = Some stacks'" "ready (gr_rules g) stacks'"
      "\<forall>v. (\<exists>s\<in>set stacks'. gen_stack (gr_rules g) s v) \<longleftrightarrow> (\<exists>s\<in>set (gr_stacks g). gen_stack (gr_rules g) s (c # v))" by blast
  with Cons.IH [of "g\<lparr>gr_stacks := stacks'\<rparr>"] Cons.prems show ?case by (auto simp: grammar_accept_def)
qed simp

lemma ready_accepts_empty:
  assumes "ready rules stacks"
  shows "(\<exists>s\<in>set stacks. gen_stack rules s []) \<longleftrightarrow> [] \<in> set stacks"
  using assms gen_terminal_empty by (auto simp: ready_def)

section \<open>Decoded pieces\<close>

lemma utf8_chars_end:
  "\<exists>xs. fst (utf8_chars bs points v n) = xs @ [0] \<and>
    (pu_n_remain (snd (utf8_chars bs points v n)) = 0 \<longrightarrow> bs \<noteq> [] \<or> points \<noteq> [] \<longrightarrow> xs \<noteq> [])"
proof (induction bs points v n rule: utf8_chars.induct)
  case (2 b bs points v n)
  let ?n = "utf8_len b - 1"
  show ?case
  proof (cases "?n < 0")
    case False
    obtain bs' v' n' where r: "utf8_rest bs (ucast (and b (mask (nat (7 - ?n))))) ?n = (bs', v', n')" by (metis prod_cases3)
    have left: "n' > 0 \<Longrightarrow> bs' = []" if "utf8_rest bs v n = (bs', v', n')" for bs' v' n' bs v and n :: int
      using that by (induction bs v n rule: utf8_rest.induct) (auto split: if_splits)
    have pos: "0 \<le> n'" if "utf8_rest bs v n = (bs', v', n')" "0 \<le> n" for bs' v' n' bs v and n :: int
      using that by (induction bs v n rule: utf8_rest.induct) (auto split: if_splits)
    let ?points = "if n' = 0 then points @ [v'] else points"
    have run: "utf8_chars (b # bs) points v n = utf8_chars bs' ?points v' n'" using False r by (simp add: Let_def)
    from 2 [OF refl False r [symmetric] refl] obtain xs where
      xs: "fst (utf8_chars bs' ?points v' n') = xs @ [0]"
        "pu_n_remain (snd (utf8_chars bs' ?points v' n')) = 0 \<longrightarrow> bs' \<noteq> [] \<or> ?points \<noteq> [] \<longrightarrow> xs \<noteq> []" by auto
    have "bs' \<noteq> [] \<or> ?points \<noteq> []" if "pu_n_remain (snd (utf8_chars bs' ?points v' n')) = 0"
    proof (cases "n' = 0")
      case False
      with pos [OF r] \<open>\<not> ?n < 0\<close> left [OF r] have "bs' = []" by simp
      with that False show ?thesis by simp
    qed simp
    with xs run show ?thesis by auto
  qed (simp add: utf8_len_def)
qed simp

lemma decode_utf8_end:
  assumes "decode_utf8 src part = (points, part')"
  shows "points = butlast points @ [0]" "pu_n_remain part' = 0 \<Longrightarrow> src \<noteq> [] \<Longrightarrow> hd src \<noteq> 0 \<Longrightarrow> butlast points \<noteq> []"
proof -
  let ?src = "takeWhile (\<lambda>b. b \<noteq> 0) src"
  have *: "points = butlast points @ [0] \<and> (pu_n_remain part' = 0 \<longrightarrow> src \<noteq> [] \<longrightarrow> hd src \<noteq> 0 \<longrightarrow> butlast points \<noteq> [])"
  proof (cases "utf8_continue ?src (pu_value part) (pu_n_remain part)")
    case None
    then show ?thesis using assms by (auto simp: decode_utf8_def)
  next
    case (Some r)
    obtain bs v n where r: "r = (bs, v, n)" by (cases r)
    let ?points = "if pu_n_remain part > 0 \<and> n = 0 then [v] else []"
    have run: "(points, part') = utf8_chars bs ?points v n" using assms Some r by (simp add: decode_utf8_def)
    obtain xs where xs: "points = xs @ [0]" "pu_n_remain part' = 0 \<longrightarrow> bs \<noteq> [] \<or> ?points \<noteq> [] \<longrightarrow> xs \<noteq> []"
      using utf8_chars_end [of bs ?points v n] run [symmetric] by auto
    have cont: "bs' = [] \<Longrightarrow> src' \<noteq> [] \<Longrightarrow> n0 > 0" if "utf8_continue src' v0 n0 = Some (bs', v', n')" for src' v0 n0 bs' v' n'
      using that by (cases src') (auto split: if_splits)
    have "bs \<noteq> [] \<or> ?points \<noteq> []" if "src \<noteq> []" "hd src \<noteq> 0" "pu_n_remain part' = 0"
    proof (cases "bs = []")
      case True
      have "?src \<noteq> []" using that(1,2) by (cases src) auto
      with cont [OF Some [unfolded r]] True have "pu_n_remain part > 0" by simp
      moreover have "n = 0" using run True that(3) by simp
      ultimately show ?thesis by simp
    qed simp
    with xs show ?thesis by auto
  qed
  then show "points = butlast points @ [0]" by blast
  show "pu_n_remain part' = 0 \<Longrightarrow> src \<noteq> [] \<Longrightarrow> hd src \<noteq> 0 \<Longrightarrow> butlast points \<noteq> []" using * by blast
qed

section \<open>Masking and accepting\<close>

definition no_tokens :: "grule list \<Rightarrow> bool" where
  "no_tokens rules \<longleftrightarrow> (\<forall>rule\<in>set rules. \<forall>e\<in>set rule. \<not> is_token_elem e)"

lemma no_tokens_at: "no_tokens rules \<Longrightarrow> elem_at rules p = Some e \<Longrightarrow> \<not> is_token_elem e"
  using nth_mem by (fastforce simp: no_tokens_def elem_at_Some)

definition grammar_ok :: "grammar \<Rightarrow> bool" where
  \<comment> \<open>a grammar without left recursion and token elements, past its trigger, that has not failed\<close>
  "grammar_ok g \<longleftrightarrow> wf_rules (gr_rules g) \<and> no_left_recursion (gr_rules g) \<and> no_tokens (gr_rules g) \<and>
     ready (gr_rules g) (gr_stacks g) \<and> gr_stacks g \<noteq> [] \<and> \<not> gr_awaiting g"

lemma passes_chr:
  assumes "no_tokens rules"
  shows "passes rules part tok s (c # cs) \<longleftrightarrow> (\<exists>t\<in>chr_next rules s c. passes rules part tok t cs)"
  using no_tokens_at [OF assms] by auto

lemma accept_points_run:
  assumes wf: "wf_rules rules" and nlr: "no_left_recursion rules" and nt: "no_tokens rules"
  shows "ready rules stacks \<Longrightarrow> \<exists>st. accept_points rules cs stacks = Some st \<and> ready rules st \<and>
    ((\<exists>s\<in>set stacks. passes rules part tok s cs) \<longrightarrow> st \<noteq> []) \<and>
    (pu_n_remain part = 0 \<longrightarrow> st \<noteq> [] \<longrightarrow> (\<exists>s\<in>set stacks. passes rules part tok s cs))"
proof (induction cs arbitrary: stacks)
  case Nil
  then show ?case by (cases stacks) (auto simp: end_ok_def)
next
  case (Cons c cs)
  from accept_all_run [OF wf nlr Cons.prems, of c] obtain nx where
    nx: "accept_all rules stacks c = Some nx" "ready rules nx" "set nx = (\<Union>s\<in>set stacks. chr_next rules s c)" by blast
  have p: "(\<exists>s\<in>set stacks. passes rules part tok s (c # cs)) \<longleftrightarrow> (\<exists>t\<in>set nx. passes rules part tok t cs)"
    unfolding passes_chr [OF nt] nx(3) by blast
  show ?case
  proof (cases "nx = []")
    case True
    with nx p show ?thesis by (simp add: ready_def)
  next
    case False
    with Cons.IH [OF nx(2)] nx(1) show ?thesis unfolding p by simp
  qed
qed

lemma fold_insert_new:
  "distinct new \<Longrightarrow> set (fold (\<lambda>s new. if s \<in> set new then new else new @ [s]) cur new) = set new \<union> set cur \<and>
    distinct (fold (\<lambda>s new. if s \<in> set new then new else new @ [s]) cur new)"
  by (induction cur arbitrary: new) auto

lemma accept_stack_token_run:
  assumes wf: "wf_rules rules" and nlr: "no_left_recursion rules" and nt: "no_tokens rules"
    and s: "stack_ok rules s" "terminal rules s" and new: "ready rules new"
  shows "\<exists>new'. accept_stack_token rules tok points s new = Some new' \<and> ready rules new' \<and> set new \<subseteq> set new' \<and>
    (s \<noteq> [] \<longrightarrow> passes rules part tk s points \<longrightarrow> new' \<noteq> []) \<and>
    (pu_n_remain part = 0 \<longrightarrow> new' \<noteq> [] \<longrightarrow> new \<noteq> [] \<or> s \<noteq> [] \<and> passes rules part tk s points)"
proof (cases s)
  case Nil
  then show ?thesis using new by (simp add: accept_stack_token_def)
next
  case (Cons p rest)
  then obtain e where e: "elem_at rules p = Some e" using s by (auto simp: terminal_def)
  have nt': "\<not> is_token_elem e" by (rule no_tokens_at [OF nt e])
  have "ready rules [s]" using s by (simp add: ready_def)
  from accept_points_run [OF wf nlr nt this, of points part tk] obtain cur where
    cur: "accept_points rules points [s] = Some cur" "ready rules cur" "passes rules part tk s points \<longrightarrow> cur \<noteq> []"
      "pu_n_remain part = 0 \<longrightarrow> cur \<noteq> [] \<longrightarrow> passes rules part tk s points" by auto
  define all where "all = fold (\<lambda>s new. if s \<in> set new then new else new @ [s]) cur new"
  have f: "set all = set new \<union> set cur" "distinct all"
    using fold_insert_new [of new cur] new by (simp_all add: ready_def all_def)
  have "ready rules all" using f cur(2) new by (auto simp: ready_def)
  moreover have "accept_stack_token rules tok points s new = Some all"
    using Cons e nt' cur(1) by (simp add: accept_stack_token_def all_def)
  moreover have "all = [] \<longleftrightarrow> new = [] \<and> cur = []" using arg_cong [OF f(1), of "\<lambda>S. S = {}"] by simp
  ultimately show ?thesis using f(1) cur(3,4) Cons by (intro exI [of _ all]) simp
qed

lemma accept_token_run:
  assumes g: "grammar_ok g" and d: "decode_utf8 piece (gr_partial g) = (points, part)"
  shows "\<exists>stacks. accept_token tok piece g = Some (stacks \<noteq> [], g\<lparr>gr_stacks := stacks, gr_partial := part\<rparr>) \<and> ready (gr_rules g) stacks \<and>
    ((\<exists>s\<in>set (gr_stacks g). s \<noteq> [] \<and> passes (gr_rules g) part tk s (butlast points)) \<longrightarrow> stacks \<noteq> []) \<and>
    (pu_n_remain part = 0 \<longrightarrow> stacks \<noteq> [] \<longrightarrow> (\<exists>s\<in>set (gr_stacks g). s \<noteq> [] \<and> passes (gr_rules g) part tk s (butlast points)))"
proof -
  let ?rules = "gr_rules g" let ?pts = "butlast points"
  have g': "wf_rules ?rules" "no_left_recursion ?rules" "no_tokens ?rules" "ready ?rules (gr_stacks g)" using g by (simp_all add: grammar_ok_def)
  let ?P = "\<lambda>done new. ready ?rules new \<and> ((\<exists>s\<in>set done. s \<noteq> [] \<and> passes ?rules part tk s ?pts) \<longrightarrow> new \<noteq> []) \<and>
    (pu_n_remain part = 0 \<longrightarrow> new \<noteq> [] \<longrightarrow> (\<exists>s\<in>set done. s \<noteq> [] \<and> passes ?rules part tk s ?pts))"
  have "\<exists>stacks. foldM (accept_stack_token ?rules tok ?pts) (gr_stacks g) [] = Some stacks \<and> ?P (gr_stacks g) stacks"
  proof (rule foldM_rule)
    show "?P [] []" by (simp add: ready_def)
    fix "done" s rest new assume sp: "gr_stacks g = done @ s # rest" and P: "?P done new"
    have s: "stack_ok ?rules s" "terminal ?rules s" using g'(4) by (simp_all add: ready_def sp)
    from P have "ready ?rules new" by blast
    from accept_stack_token_run [OF g'(1-3) s this, of tok ?pts part tk] obtain new' where
      "accept_stack_token ?rules tok ?pts s new = Some new'" "ready ?rules new'" "set new \<subseteq> set new'"
      "s \<noteq> [] \<longrightarrow> passes ?rules part tk s ?pts \<longrightarrow> new' \<noteq> []"
      "pu_n_remain part = 0 \<longrightarrow> new' \<noteq> [] \<longrightarrow> new \<noteq> [] \<or> s \<noteq> [] \<and> passes ?rules part tk s ?pts" by blast
    with P show "\<exists>new'. accept_stack_token ?rules tok ?pts s new = Some new' \<and> ?P (done @ [s]) new'"
      by (intro exI [of _ new']) auto
  qed
  then show ?thesis using d by (auto simp: accept_token_def)
qed

section \<open>Masking\<close>

definition cand_of :: "gvocab \<Rightarrow> grammar \<Rightarrow> nat \<Rightarrow> token_id \<Rightarrow> gcandidate" where
  "cand_of v g i tok = (case decode_utf8 (gv_piece v tok) (gr_partial g) of (points, part) \<Rightarrow>
     \<lparr>gc_index = i, gc_points = points, gc_off = 0, gc_partial = part, gc_id = tok\<rparr>)"

definition good_piece :: "gvocab \<Rightarrow> token_id \<Rightarrow> bool" where
  "good_piece v tok \<longleftrightarrow> gv_piece v tok \<noteq> [] \<and> hd (gv_piece v tok) \<noteq> 0"

definition token_allowed :: "gvocab \<Rightarrow> grammar \<Rightarrow> token_id \<Rightarrow> bool" where
  \<comment> \<open>some stack can read the token; a token that ends the generation needs a finished stack\<close>
  "token_allowed v g tok \<longleftrightarrow> (if gv_is_eog v tok then [] \<in> set (gr_stacks g)
     else good_piece v tok \<and> (\<exists>s\<in>set (gr_stacks g). cand_passes (gr_rules g) s (cand_of v g 0 tok)))"

lemma cand_of_simps [simp]: "gc_index (cand_of v g i tok) = i" "gc_id (cand_of v g i tok) = tok"
  by (simp_all add: cand_of_def split: prod.split)

lemma cand_of_passes: "cand_passes rules s (cand_of v g i tok) \<longleftrightarrow> cand_passes rules s (cand_of v g 0 tok)"
  by (simp add: cand_passes_def cand_of_def remaining_def split: prod.split)

lemma cand_of_ok: "cand_ok (cand_of v g i tok)"
proof -
  obtain points part where d: "decode_utf8 (gv_piece v tok) (gr_partial g) = (points, part)" by (cases "decode_utf8 (gv_piece v tok) (gr_partial g)")
  obtain xs where "points = xs @ [0]" using decode_utf8_end(1) [OF d] by blast
  then have "takeWhile (\<lambda>c. c \<noteq> 0) points = takeWhile (\<lambda>c. c \<noteq> 0) xs" by (induction xs arbitrary: points) auto
  then show ?thesis using length_takeWhile_le [of "\<lambda>c. c \<noteq> 0" xs] \<open>points = xs @ [0]\<close>
    by (simp add: cand_ok_def remaining_def cand_of_def d less_Suc_eq_le)
qed

definition masked :: "token_data \<Rightarrow> token_data" where
  "masked d = d\<lparr>td_logit := NEG_INFINITY\<rparr>"

definition needs_check :: "gvocab \<Rightarrow> token_id \<Rightarrow> bool" where
  "needs_check v tok \<longleftrightarrow> \<not> gv_is_eog v tok \<and> good_piece v tok"

definition early_mask :: "gvocab \<Rightarrow> grammar \<Rightarrow> token_data \<Rightarrow> token_data" where
  "early_mask v g d = (if needs_check v (td_id d) \<or> gv_is_eog v (td_id d) \<and> [] \<in> set (gr_stacks g) then d else masked d)"

lemma collect_run:
  "k \<le> length data \<Longrightarrow> fold (collect_candidate v g) [0..<k] (data, []) =
    (map (early_mask v g) (take k data) @ drop k data,
     map (\<lambda>i. cand_of v g i (td_id (data ! i))) (filter (\<lambda>i. needs_check v (td_id (data ! i))) [0..<k]))"
proof (induction k)
  case (Suc k)
  let ?data = "map (early_mask v g) (take k data) @ drop k data"
  have k: "k < length data" using Suc.prems by simp
  have at: "?data ! k = data ! k" using k by (simp add: nth_append)
  have upd: "?data[k := x] = map (early_mask v g) (take k data) @ x # drop (Suc k) data" for x
    using k by (simp add: list_update_append upd_conv_take_nth_drop Cons_nth_drop_Suc [symmetric] min_absorb2)
  let ?fst = "map (early_mask v g) (take k data)"
  let ?tok = "td_id (data ! k)"
  have keep: "?fst @ data ! k # drop (Suc k) data = ?data" using k by (simp add: Cons_nth_drop_Suc)
  have nxt: "map (early_mask v g) (take (Suc k) data) @ drop (Suc k) data =
      ?fst @ early_mask v g (data ! k) # drop (Suc k) data" using k by (simp add: take_Suc_conv_app_nth)
  have step: "collect_candidate v g k (?data, cs) = (?fst @ early_mask v g (data ! k) # drop (Suc k) data,
      cs @ (if needs_check v ?tok then [cand_of v g k ?tok] else []))" for cs
  proof (cases "needs_check v ?tok")
    case True
    then have e: "early_mask v g (data ! k) = data ! k" by (simp add: early_mask_def)
    from True show ?thesis unfolding e keep
      by (simp add: collect_candidate_def Let_def at needs_check_def good_piece_def cand_of_def split: prod.split)
  next
    case False
    show ?thesis
    proof (cases "gv_is_eog v ?tok")
      case eog: True
      show ?thesis
      proof (cases "[] \<in> set (gr_stacks g)")
        case True
        then have e: "early_mask v g (data ! k) = data ! k" using eog by (simp add: early_mask_def)
        show ?thesis unfolding e keep using eog True False by (simp add: collect_candidate_def Let_def at)
      next
        case n: False
        then have e: "early_mask v g (data ! k) = masked (data ! k)" using eog False by (simp add: early_mask_def)
        show ?thesis unfolding e using eog n False
          by (simp only: collect_candidate_def Let_def at mask_token_def upd masked_def if_True if_False prod.case append_Nil2 fst_conv snd_conv simp_thms)
      qed
    next
      case n: False
      then have e: "early_mask v g (data ! k) = masked (data ! k)" using False by (simp add: early_mask_def)
      have "\<not> good_piece v ?tok" using n False by (simp add: needs_check_def)
      then show ?thesis unfolding e using n False
        by (auto simp add: collect_candidate_def Let_def at mask_token_def upd masked_def good_piece_def)
    qed
  qed
  show ?case using Suc.IH k step by (simp add: nxt del: take_Suc)
qed simp

lemma fold_mask:
  "\<forall>t\<in>set ts. gc_index t < length data \<Longrightarrow> length (fold (\<lambda>t. mask_token (gc_index t)) ts data) = length data \<and>
    (\<forall>i<length data. fold (\<lambda>t. mask_token (gc_index t)) ts data ! i = (if \<exists>t\<in>set ts. gc_index t = i then masked (data ! i) else data ! i))"
proof (induction ts arbitrary: data)
  case (Cons t ts)
  have "masked (masked d) = masked d" for d by (simp add: masked_def)
  with Cons.IH [of "mask_token (gc_index t) data"] Cons.prems show ?case
    by (auto simp: mask_token_def nth_list_update masked_def)
qed simp

lemma grammar_apply_run:
  assumes wf: "wf_rules (gr_rules g)" "no_left_recursion (gr_rules g)" "ready (gr_rules g) (gr_stacks g)" "gr_stacks g \<noteq> []" "\<not> gr_awaiting g"
  shows "grammar_apply v g data = Some (map (\<lambda>d. if token_allowed v g (td_id d) then d else masked d) data)"
proof -
  let ?cands = "map (\<lambda>i. cand_of v g i (td_id (data ! i))) (filter (\<lambda>i. needs_check v (td_id (data ! i))) [0..<length data])"
  let ?early = "map (early_mask v g) data"
  have col: "fold (collect_candidate v g) [0..<length data] (data, []) = (?early, ?cands)" using collect_run [of "length data" data] by simp
  have "\<forall>t\<in>set ?cands. cand_ok t" by (auto simp: cand_of_ok)
  from reject_candidates_run [OF wf(1-4) this] obtain rej where
    rej: "reject_candidates (gr_rules g) (gr_stacks g) ?cands = Some rej"
      "set rej = {t \<in> set ?cands. \<forall>s\<in>set (gr_stacks g). \<not> cand_passes (gr_rules g) s t}" by blast
  have idx: "(\<exists>t\<in>set rej. gc_index t = i) \<longleftrightarrow> needs_check v (td_id (data ! i)) \<and>
      (\<forall>s\<in>set (gr_stacks g). \<not> cand_passes (gr_rules g) s (cand_of v g 0 (td_id (data ! i))))" if i: "i < length data" for i
  proof
    assume "\<exists>t\<in>set rej. gc_index t = i"
    then show "needs_check v (td_id (data ! i)) \<and> (\<forall>s\<in>set (gr_stacks g). \<not> cand_passes (gr_rules g) s (cand_of v g 0 (td_id (data ! i))))"
      unfolding rej(2) by (auto simp: cand_of_passes [of _ _ v g i])
  next
    assume n: "needs_check v (td_id (data ! i)) \<and> (\<forall>s\<in>set (gr_stacks g). \<not> cand_passes (gr_rules g) s (cand_of v g 0 (td_id (data ! i))))"
    then have "cand_of v g i (td_id (data ! i)) \<in> set rej" unfolding rej(2) using i by (auto simp: cand_of_passes [of _ _ v g i])
    then show "\<exists>t\<in>set rej. gc_index t = i" by force
  qed
  have lt: "\<forall>t\<in>set rej. gc_index t < length ?early" unfolding rej(2) by auto
  note m = fold_mask [OF lt]
  have "fold (\<lambda>t. mask_token (gc_index t)) rej ?early = map (\<lambda>d. if token_allowed v g (td_id d) then d else masked d) data"
  proof (rule nth_equalityI)
    show "length (fold (\<lambda>t. mask_token (gc_index t)) rej ?early) = length (map (\<lambda>d. if token_allowed v g (td_id d) then d else masked d) data)"
      using m by simp
    fix i assume "i < length (fold (\<lambda>t. mask_token (gc_index t)) rej ?early)"
    then have i: "i < length data" using m by simp
    have "fold (\<lambda>t. mask_token (gc_index t)) rej ?early ! i =
        (if \<exists>t\<in>set rej. gc_index t = i then masked (early_mask v g (data ! i)) else early_mask v g (data ! i))" using m i by simp
    also have "\<dots> = (if token_allowed v g (td_id (data ! i)) then data ! i else masked (data ! i))"
      unfolding idx [OF i] by (auto simp: token_allowed_def early_mask_def needs_check_def masked_def)
    finally show "fold (\<lambda>t. mask_token (gc_index t)) rej ?early ! i = map (\<lambda>d. if token_allowed v g (td_id d) then d else masked d) data ! i"
      using i by simp
  qed
  then show ?thesis using wf(5) col rej(1) by (simp add: grammar_apply_def)
qed

text \<open>An allowed token is accepted.\<close>

lemma accept_allowed:
  assumes g: "grammar_ok g" and a: "token_allowed v g tok" and clean: "0 \<notin> set (butlast (fst (decode_utf8 (gv_piece v tok) (gr_partial g))))"
  shows "\<exists>g'. accept_impl v tok g = Some (True, g') \<and> grammar_ok g'"
proof (cases "gv_is_eog v tok")
  case True
  with g a show ?thesis by (simp add: accept_impl_def Let_def token_allowed_def grammar_ok_def)
next
  case False
  obtain points part where d: "decode_utf8 (gv_piece v tok) (gr_partial g) = (points, part)" by (cases "decode_utf8 (gv_piece v tok) (gr_partial g)")
  note e = decode_utf8_end [OF d]
  have good: "gv_piece v tok \<noteq> []" "hd (gv_piece v tok) \<noteq> 0" using a False by (simp_all add: token_allowed_def good_piece_def)
  from a False obtain s where s: "s \<in> set (gr_stacks g)" "cand_passes (gr_rules g) s (cand_of v g 0 tok)" by (auto simp: token_allowed_def)
  have "remaining (cand_of v g 0 tok) = butlast points"
  proof -
    have "takeWhile (\<lambda>c. c \<noteq> 0) (butlast points @ [0]) = butlast points" using clean d by (subst takeWhile_append2) auto
    then show ?thesis using e(1) by (simp add: remaining_def cand_of_def d)
  qed
  then have p: "passes (gr_rules g) part tok s (butlast points)" using s(2) d by (simp add: cand_passes_def cand_of_def)
  have "s \<noteq> []"
  proof
    assume "s = []"
    with p show False
      using e(2) [OF _ good] by (cases "butlast points") (auto simp: end_ok_def chr_next_def)
  qed
  with s(1) p accept_token_run [OF g d, of tok tok] obtain stacks where
    st: "accept_token tok (gv_piece v tok) g = Some (True, g\<lparr>gr_stacks := stacks, gr_partial := part\<rparr>)"
      "ready (gr_rules g) stacks" "stacks \<noteq> []" by auto
  moreover have "\<not> gr_awaiting g" using g by (simp add: grammar_ok_def)
  ultimately show ?thesis using False g by (simp add: accept_impl_def Let_def grammar_ok_def)
qed

end
