(* ===== verification/GrammarLeft.thy ===== *)
theory GrammarLeft
  imports GrammarStep
begin

text \<open>
  What \<open>llama_grammar_detect_left_recursion\<close> decides: the graph of rules whose edges are the references that
  stand leftmost behind rules with an empty alternate, the search as a walk over its finite paths, and what
  that graph says of the expansion of stacks.
\<close>

section \<open>The graph the search walks\<close>

fun leftmost :: "grule list \<Rightarrow> gelem list \<Rightarrow> bool \<Rightarrow> nat set" where
  \<comment> \<open>the rules referred to leftmost; the flag: nothing was read yet in this alternate\<close>
  "leftmost rules [] b = {}"
| "leftmost rules (e # es) b =
     (if ge_type e = GR_RULE_REF \<and> b then
        insert (unat (ge_value e)) (leftmost rules es (has_empty_alt (rules ! unat (ge_value e)) True))
      else leftmost rules es (is_end_of_sequence e))"

definition edge :: "grule list \<Rightarrow> nat \<Rightarrow> nat \<Rightarrow> bool" where
  \<comment> \<open>\<open>edge rules r' r\<close>: the rule \<open>r'\<close> stands leftmost in the rule \<open>r\<close>\<close>
  "edge rules r' r \<longleftrightarrow> r' \<in> leftmost rules (rules ! r) True"

lemma leftmost_less:
  "\<forall>e\<in>set es. ge_type e = GR_RULE_REF \<longrightarrow> unat (ge_value e) < n \<Longrightarrow> r \<in> leftmost rules es b \<Longrightarrow> r < n"
  by (induction rules es b rule: leftmost.induct) (auto split: if_splits)

lemma wf_rules_refs: "wf_rules rules \<Longrightarrow> r < length rules \<Longrightarrow> \<forall>e\<in>set (rules ! r). ge_type e = GR_RULE_REF \<longrightarrow> unat (ge_value e) < length rules"
proof -
  assume "wf_rules rules" "r < length rules"
  then have "wf_rule (length rules) (rules ! r)" by (simp add: wf_rules_def)
  then show ?thesis unfolding wf_rule_def by blast
qed

lemma edge_less: "wf_rules rules \<Longrightarrow> r < length rules \<Longrightarrow> edge rules r' r \<Longrightarrow> r' < length rules"
  unfolding edge_def by (rule leftmost_less [OF wf_rules_refs])

section \<open>The search\<close>

definition lr_ok :: "grule list \<Rightarrow> lr_state \<Rightarrow> bool" where
  \<comment> \<open>visited rules start no infinite path; only rules with an empty alternate are marked\<close>
  "lr_ok rules st \<longleftrightarrow> length (lr_visited st) = length rules \<and> length (lr_in_progress st) = length rules \<and>
     length (lr_may_be_empty st) = length rules \<and>
     (\<forall>x<length rules. lr_visited st ! x \<longrightarrow> Wellfounded.accp (edge rules) x) \<and>
     (\<forall>x<length rules. lr_may_be_empty st ! x \<longrightarrow> has_empty_alt (rules ! x) True)"

definition idle :: "nat \<Rightarrow> lr_state \<Rightarrow> nat" where
  \<comment> \<open>how many rules the search is not in\<close>
  "idle n st = card {x. x < n \<and> \<not> lr_in_progress st ! x}"

definition found :: "grule list \<Rightarrow> lr_state \<Rightarrow> nat \<Rightarrow> lr_state option \<Rightarrow> bool" where
  \<comment> \<open>a cycle, or no infinite path from the rule\<close>
  "found rules st r res \<longleftrightarrow> (case res of None \<Rightarrow> \<exists>x<length rules. (edge rules)\<^sup>+\<^sup>+ x x
     | Some st' \<Rightarrow> lr_ok rules st' \<and> lr_in_progress st' = lr_in_progress st \<and> Wellfounded.accp (edge rules) r \<and>
         lr_may_be_empty st' ! r = has_empty_alt (rules ! r) True \<and>
         (\<forall>x<length rules. lr_may_be_empty st ! x \<longrightarrow> lr_may_be_empty st' ! x))"

lemma visit_run:
  assumes det: "\<And>r st'. r \<in> R \<Longrightarrow> lr_ok rules st' \<Longrightarrow> lr_in_progress st' = prog \<Longrightarrow>
      \<exists>res. det r st' = Some res \<and> found rules st' r res"
    and "leftmost rules es b \<subseteq> R" "R \<subseteq> {r. r < length rules}" "lr_ok rules st" "lr_in_progress st = prog"
  shows "\<exists>res. loopM (visit_leftmost det) es (b, st) = Some res \<and> (case res of
     None \<Rightarrow> \<exists>x<length rules. (edge rules)\<^sup>+\<^sup>+ x x
   | Some (_, st') \<Rightarrow> lr_ok rules st' \<and> lr_in_progress st' = prog \<and> (\<forall>r\<in>leftmost rules es b. Wellfounded.accp (edge rules) r) \<and>
       (\<forall>x<length rules. lr_may_be_empty st ! x \<longrightarrow> lr_may_be_empty st' ! x))"
  using assms(2,4,5)
proof (induction es arbitrary: b st)
  case (Cons e es)
  show ?case
  proof (cases "ge_type e = GR_RULE_REF \<and> b")
    case True
    let ?r = "unat (ge_value e)"
    have r: "?r \<in> R" "?r < length rules" using Cons.prems(1) True assms(3) by auto
    from det [OF r(1) Cons.prems(2,3)] obtain res where res: "det ?r st = Some res" "found rules st ?r res" by blast
    show ?thesis
    proof (cases res)
      case None
      with res True show ?thesis by (simp add: visit_leftmost_def found_def)
    next
      case (Some st')
      with res have st': "lr_ok rules st'" "lr_in_progress st' = prog" "Wellfounded.accp (edge rules) ?r"
        "lr_may_be_empty st' ! ?r = has_empty_alt (rules ! ?r) True" "\<forall>x<length rules. lr_may_be_empty st ! x \<longrightarrow> lr_may_be_empty st' ! x"
        using Cons.prems(3) by (simp_all add: found_def)
      have sub: "leftmost rules es (lr_may_be_empty st' ! ?r) \<subseteq> R" using Cons.prems(1) True st'(4) by simp
      have "?r < length (lr_may_be_empty st')" using st'(1) r(2) by (simp add: lr_ok_def)
      then have "visit_leftmost det e (b, st) = Some (Some (lr_may_be_empty st' ! ?r, st'))"
        using res(1) Some True by (simp add: visit_leftmost_def)
      with Cons.IH [OF sub st'(1,2)] True st'(3-5) show ?thesis by (fastforce split: option.splits)
    qed
  next
    case False
    then have l: "leftmost rules (e # es) b = leftmost rules es (is_end_of_sequence e)" by auto
    have "visit_leftmost det e (b, st) = Some (Some (is_end_of_sequence e, st))" using False by (auto simp: visit_leftmost_def)
    with Cons.IH [OF Cons.prems(1) [unfolded l] Cons.prems(2,3)] show ?thesis unfolding l by simp
  qed
qed simp

lemma detect_run:
  assumes wf: "wf_rules rules"
  shows "r < length rules \<Longrightarrow> lr_ok rules st \<Longrightarrow> idle (length rules) st < fuel \<Longrightarrow>
    \<forall>x<length rules. lr_in_progress st ! x \<longrightarrow> (edge rules)\<^sup>+\<^sup>+ r x \<Longrightarrow>
    \<exists>res. detect_left_recursion fuel rules r st = Some res \<and> found rules st r res"
proof (induction fuel arbitrary: r st)
  case (Suc fuel)
  let ?n = "length rules" and ?rule = "rules ! r"
  have len: "length (lr_visited st) = ?n" "length (lr_in_progress st) = ?n" "length (lr_may_be_empty st) = ?n"
    using Suc.prems(2) by (simp_all add: lr_ok_def)
  show ?case
  proof (cases "lr_in_progress st ! r")
    case True
    then show ?thesis using Suc.prems len by (auto simp: found_def)
  next
    case False
    define prog where "prog = (lr_in_progress st)[r := True]"
    define st1 where "st1 = st\<lparr>lr_in_progress := prog,
      lr_may_be_empty := (if has_empty_alt ?rule True then (lr_may_be_empty st)[r := True] else lr_may_be_empty st)\<rparr>"
    have ok1: "lr_ok rules st1" "lr_in_progress st1 = prog" using Suc.prems(1,2) by (auto simp: lr_ok_def st1_def prog_def nth_list_update)
    have may1: "lr_may_be_empty st1 ! r = has_empty_alt ?rule True" "\<forall>x<?n. lr_may_be_empty st ! x \<longrightarrow> lr_may_be_empty st1 ! x"
      using Suc.prems(1,2) len by (auto simp: lr_ok_def st1_def nth_list_update)
    have idle1: "idle ?n st' < fuel" if "lr_in_progress st' = prog" for st'
    proof -
      have "{x. x < ?n \<and> \<not> lr_in_progress st' ! x} = {x. x < ?n \<and> \<not> lr_in_progress st ! x} - {r}"
        using that len Suc.prems(1) by (auto simp: prog_def nth_list_update)
      then have "Suc (idle ?n st') = idle ?n st" using Suc.prems(1) False by (simp add: idle_def card_Suc_Diff1 del: card_Diff_insert)
      with Suc.prems(3) show ?thesis by simp
    qed
    let ?R = "leftmost rules ?rule True"
    have R: "?R \<subseteq> {r. r < ?n}" using edge_less [OF wf Suc.prems(1)] by (auto simp: edge_def)
    have det: "\<exists>res. detect_left_recursion fuel rules r' st' = Some res \<and> found rules st' r' res"
      if "r' \<in> ?R" "lr_ok rules st'" "lr_in_progress st' = prog" for r' st'
    proof (rule Suc.IH [OF _ that(2) idle1 [OF that(3)]])
      show "r' < ?n" using R that(1) by auto
      have e: "edge rules r' r" using that(1) by (simp add: edge_def)
      show "\<forall>x<?n. lr_in_progress st' ! x \<longrightarrow> (edge rules)\<^sup>+\<^sup>+ r' x"
      proof (intro allI impI)
        fix x assume x: "x < ?n" "lr_in_progress st' ! x"
        then have "x = r \<or> lr_in_progress st ! x" using that(3) len by (auto simp: prog_def nth_upd_iff split: if_splits)
        then show "(edge rules)\<^sup>+\<^sup>+ r' x"
        proof
          assume "lr_in_progress st ! x"
          with Suc.prems(4) x(1) have "(edge rules)\<^sup>+\<^sup>+ r x" by blast
          with e show ?thesis by (rule tranclp_into_tranclp2)
        qed (use e in \<open>simp add: tranclp.r_into_trancl\<close>)
      qed
    qed
    from visit_run [OF det subset_refl R ok1] obtain res where
      res: "loopM (visit_leftmost (detect_left_recursion fuel rules)) ?rule (True, st1) = Some res"
        "case res of None \<Rightarrow> \<exists>x<?n. (edge rules)\<^sup>+\<^sup>+ x x
         | Some (_, st') \<Rightarrow> lr_ok rules st' \<and> lr_in_progress st' = prog \<and> (\<forall>r\<in>?R. Wellfounded.accp (edge rules) r) \<and>
             (\<forall>x<?n. lr_may_be_empty st1 ! x \<longrightarrow> lr_may_be_empty st' ! x)" by blast
    have run: "detect_left_recursion (Suc fuel) rules r st =
        Some (map_option (\<lambda>(_, st). st\<lparr>lr_in_progress := (lr_in_progress st)[r := False], lr_visited := (lr_visited st)[r := True]\<rparr>) res)"
      using False Suc.prems(1) len res(1) by (simp add: st1_def prog_def Let_def)
    show ?thesis
    proof (cases res)
      case None
      with run res(2) show ?thesis by (simp add: found_def)
    next
      case (Some bst)
      obtain b st' where bst: "bst = (b, st')" by (cases bst)
      with res(2) Some have st': "lr_ok rules st'" "lr_in_progress st' = prog" "\<forall>r\<in>?R. Wellfounded.accp (edge rules) r"
        "\<forall>x<?n. lr_may_be_empty st1 ! x \<longrightarrow> lr_may_be_empty st' ! x" by simp_all
      have acc: "Wellfounded.accp (edge rules) r" by (rule accp.accI) (use st'(3) in \<open>simp add: edge_def\<close>)
      let ?st' = "st'\<lparr>lr_in_progress := (lr_in_progress st')[r := False], lr_visited := (lr_visited st')[r := True]\<rparr>"
      have ok: "lr_ok rules ?st'" using st'(1) acc by (auto simp: lr_ok_def nth_upd_iff split: if_splits)
      have "(lr_in_progress st)[r := False] = lr_in_progress st" by (rule list_update_same) (use False in simp)
      then have prog: "lr_in_progress ?st' = lr_in_progress st" using st'(2) by (simp add: prog_def)
      have may: "lr_may_be_empty ?st' ! r = has_empty_alt ?rule True"
        using st'(1,4) may1 Suc.prems(1) by (auto simp: lr_ok_def)
      have "\<forall>x<?n. lr_may_be_empty st ! x \<longrightarrow> lr_may_be_empty ?st' ! x" using st'(4) may1(2) by simp
      with ok prog may acc have "found rules st r (Some ?st')" unfolding found_def by simp
      then show ?thesis using run Some bst by simp
    qed
  qed
qed simp

lemma left_recursion_check_run:
  assumes wf: "wf_rules rules"
  shows "left_recursion_check rules = Some True \<and> (\<forall>r<length rules. Wellfounded.accp (edge rules) r) \<or>
    left_recursion_check rules = Some False \<and> (\<exists>r<length rules. (edge rules)\<^sup>+\<^sup>+ r r)"
proof -
  let ?n = "length rules"
  let ?step = "\<lambda>i st. do { v \<leftarrow> at (lr_visited st) i; if v then Some (Some st) else detect_left_recursion (?n + 1) rules i st }"
  let ?st0 = "\<lparr>lr_visited = replicate ?n False, lr_in_progress = replicate ?n False, lr_may_be_empty = replicate ?n False\<rparr>"
  let ?P = "\<lambda>st. lr_ok rules st \<and> (\<forall>x<?n. \<not> lr_in_progress st ! x)"
  have "\<forall>i\<in>set xs. i < ?n \<Longrightarrow> ?P st \<Longrightarrow> \<exists>res. loopM ?step xs st = Some res \<and>
      (case res of None \<Rightarrow> \<exists>r<?n. (edge rules)\<^sup>+\<^sup>+ r r | Some st' \<Rightarrow> \<forall>i\<in>set xs. Wellfounded.accp (edge rules) i)" for xs st
  proof (induction xs arbitrary: st)
    case (Cons i xs)
    then have i: "i < ?n" "length (lr_visited st) = ?n" by (auto simp: lr_ok_def)
    show ?case
    proof (cases "lr_visited st ! i")
      case True
      then have "Wellfounded.accp (edge rules) i" using Cons.prems i by (auto simp: lr_ok_def)
      with Cons True i show ?thesis by (fastforce split: option.splits)
    next
      case False
      have "idle ?n st \<le> card {x. x < ?n}" unfolding idle_def by (rule card_mono) auto
      with detect_run [OF wf i(1), of st "?n + 1"] Cons.prems obtain res where
        res: "detect_left_recursion (?n + 1) rules i st = Some res" "found rules st i res" by auto
      show ?thesis
      proof (cases res)
        case None
        with res False i show ?thesis by (simp add: found_def)
      next
        case (Some st')
        with res have "?P st'" "Wellfounded.accp (edge rules) i" using Cons.prems by (simp_all add: found_def)
        with Cons.IH [of st'] Cons.prems res(1) Some False i show ?thesis by (fastforce split: option.splits)
      qed
    qed
  qed simp
  from this [of "[0..<?n]" ?st0] obtain res where res: "loopM ?step [0..<?n] ?st0 = Some res"
    "case res of None \<Rightarrow> \<exists>r<?n. (edge rules)\<^sup>+\<^sup>+ r r | Some st' \<Rightarrow> \<forall>i\<in>set [0..<?n]. Wellfounded.accp (edge rules) i"
    by (auto simp: lr_ok_def)
  have "left_recursion_check rules = Some (res \<noteq> None)" using res(1) by (simp add: left_recursion_check_def Let_def)
  with res(2) show ?thesis by (cases res) auto
qed

section \<open>What the graph says of the expansion\<close>

definition nullable_rule :: "grule list \<Rightarrow> nat \<Rightarrow> bool" where
  "nullable_rule rules r \<longleftrightarrow> (\<exists>starts. alt_starts rules r = Some starts \<and> (\<exists>q\<in>set starts. nullable_from rules q))"

definition direct_empty :: "grule list \<Rightarrow> bool" where
  \<comment> \<open>a rule that generates the empty word has an alternate without elements\<close>
  "direct_empty rules \<longleftrightarrow> (\<forall>r<length rules. nullable_rule rules r \<longrightarrow> has_empty_alt (rules ! r) True)"

lemma alt_starts_mem:
  assumes wf: "wf_rules rules" and r: "r < length rules"
  shows "\<exists>starts. alt_starts rules r = Some starts \<and>
    (\<forall>q. q \<in> set starts \<longleftrightarrow> (\<exists>j. q = (r, j) \<and> (j = 0 \<or> (\<exists>i. j = Suc i \<and> i < length (rules ! r) \<and> ge_type (rules ! r ! i) = GR_ALT))))"
proof -
  note rule = wf_rulesD [OF wf r]
  from scan_alts_run [of "rules ! r" 0] rule(1,2) obtain l where
    l: "scan_alts (rules ! r) 0 = Some l" "\<forall>j. j \<in> set l \<longleftrightarrow> (\<exists>i. j = i + 1 \<and> i < length (rules ! r) \<and> ge_type (rules ! r ! i) = GR_ALT)"
    by auto
  then show ?thesis using r by (intro exI [of _ "map (Pair r) (0 # l)"]) (auto simp: alt_starts_def)
qed

lemma drop_Cons_nth: "drop i xs = y # ys \<Longrightarrow> i < length xs \<and> xs ! i = y \<and> drop (Suc i) xs = ys"
  by (metis Cons_nth_drop_Suc drop_eq_Nil leI list.inject list.simps(3))

lemma has_empty_alt_start:
  "has_empty_alt (drop i rule) b \<Longrightarrow> \<exists>j<length rule. is_end_of_sequence (rule ! j) \<and> (j = i \<and> b \<or> i < j \<and> is_end_of_sequence (rule ! (j - 1)))"
proof (induction "drop i rule" arbitrary: i b)
  case (Cons e es)
  note d = drop_Cons_nth [OF Cons.hyps(2) [symmetric]]
  show ?case
  proof (cases "is_end_of_sequence e \<and> b")
    case False
    then have "has_empty_alt (drop (Suc i) rule) (is_end_of_sequence e)"
      using Cons.prems Cons.hyps(2) [symmetric] d by (auto split: if_splits)
    from Cons.hyps(1) [OF _ this] d show ?thesis by (metis Suc_lessD diff_Suc_1 lessI)
  qed (use d in auto)
qed simp

lemma empty_alt_nullable:
  assumes wf: "wf_rules rules" and r: "r < length rules" and "has_empty_alt (rules ! r) True"
  shows "nullable_rule rules r"
proof -
  from has_empty_alt_start [of 0 "rules ! r" True] assms(3) obtain j where
    j: "j < length (rules ! r)" "is_end_of_sequence (rules ! r ! j)" "j = 0 \<or> 0 < j \<and> is_end_of_sequence (rules ! r ! (j - 1))" by auto
  from alt_starts_mem [OF wf r] obtain starts where
    st: "alt_starts rules r = Some starts" "\<forall>q. q \<in> set starts \<longleftrightarrow> (\<exists>j. q = (r, j) \<and> (j = 0 \<or> (\<exists>i. j = Suc i \<and> i < length (rules ! r) \<and> ge_type (rules ! r ! i) = GR_ALT)))"
    by blast
  have "ge_type (rules ! r ! (j - 1)) = GR_ALT" if "0 < j"
    using j that wf_rulesD(2) [OF wf r, of "j - 1"] by (auto simp: is_end_of_sequence_def)
  then have "(r, j) \<in> set starts" unfolding st(2) [rule_format] using j(1) by (cases j) auto
  moreover have "nullable_from rules (r, j)" by (rule at_end [OF _ j(2)]) (use r j(1) in \<open>simp add: elem_at_Some\<close>)
  ultimately show ?thesis using st(1) by (auto simp: nullable_rule_def)
qed

lemma leftmost_call:
  assumes wf: "wf_rules rules" and r: "r < length rules"
  shows "r' \<in> leftmost rules (drop i (rules ! r)) b \<Longrightarrow> \<exists>j p e. (j = i \<and> b \<or> i < j \<and> is_end_of_sequence (rules ! r ! (j - 1))) \<and> j < length (rules ! r) \<and>
    (left_call rules)\<^sup>*\<^sup>* p (r, j) \<and> elem_at rules p = Some e \<and> ge_type e = GR_RULE_REF \<and> unat (ge_value e) = r'"
proof (induction "drop i (rules ! r)" arbitrary: i b)
  case (Cons e es)
  note d = drop_Cons_nth [OF Cons.hyps(2) [symmetric]]
  have at: "elem_at rules (r, i) = Some e" using r d by (simp add: elem_at_Some)
  note IH = Cons.hyps(1) [OF d [THEN conjunct2, THEN conjunct2, symmetric]]
  show ?case
  proof (cases "ge_type e = GR_RULE_REF \<and> b")
    case True
    let ?r = "unat (ge_value e)"
    have r'': "?r < length rules" using wf_rulesD(5) [OF wf r, of i] d True by simp
    show ?thesis
    proof (cases "r' = ?r")
      case True
      then show ?thesis using at d \<open>ge_type e = GR_RULE_REF \<and> b\<close> by (intro exI [of _ i] exI [of _ "(r, i)"] exI [of _ e]) simp
    next
      case False
      with Cons.prems Cons.hyps(2) [symmetric] True d have "r' \<in> leftmost rules (drop (Suc i) (rules ! r)) (has_empty_alt (rules ! ?r) True)" by simp
      from IH [OF this] obtain j p e' where
        j: "j = Suc i \<and> has_empty_alt (rules ! ?r) True \<or> Suc i < j \<and> is_end_of_sequence (rules ! r ! (j - 1))" "j < length (rules ! r)"
        "(left_call rules)\<^sup>*\<^sup>* p (r, j)" "elem_at rules p = Some e'" "ge_type e' = GR_RULE_REF" "unat (ge_value e') = r'" by blast
      show ?thesis
      proof (cases "j = Suc i")
        case True
        with j(1) have "has_empty_alt (rules ! ?r) True" by simp
        from empty_alt_nullable [OF wf r'' this] obtain starts q where
          "alt_starts rules ?r = Some starts" "q \<in> set starts" "nullable_from rules q" by (auto simp: nullable_rule_def)
        from skip [OF at _ this] have "left_call rules (r, j) (r, i)" using True \<open>ge_type e = GR_RULE_REF \<and> b\<close> by (simp add: next_pos_def)
        with j(3) have "(left_call rules)\<^sup>*\<^sup>* p (r, i)" by (rule rtranclp.rtrancl_into_rtrancl)
        then show ?thesis using j(4-6) d \<open>ge_type e = GR_RULE_REF \<and> b\<close> by blast
      qed (use j in \<open>metis Suc_lessD\<close>)
    qed
  next
    case False
    then have "r' \<in> leftmost rules (drop (Suc i) (rules ! r)) (is_end_of_sequence e)"
      using Cons.prems Cons.hyps(2) [symmetric] d by (auto split: if_splits)
    from IH [OF this] obtain j p e' where
      j: "j = Suc i \<and> is_end_of_sequence e \<or> Suc i < j \<and> is_end_of_sequence (rules ! r ! (j - 1))" "j < length (rules ! r)"
      "(left_call rules)\<^sup>*\<^sup>* p (r, j)" "elem_at rules p = Some e'" "ge_type e' = GR_RULE_REF" "unat (ge_value e') = r'" by blast
    then show ?thesis using d by (intro exI [of _ j] exI [of _ p] exI [of _ e']) auto
  qed
qed simp

lemma edge_calls:
  assumes wf: "wf_rules rules" and r: "r < length rules" and "edge rules r' r"
  shows "\<exists>starts q starts'. alt_starts rules r = Some starts \<and> q \<in> set starts \<and> alt_starts rules r' = Some starts' \<and>
    (\<forall>q'\<in>set starts'. (left_call rules)\<^sup>+\<^sup>+ q' q)"
proof -
  from leftmost_call [OF wf r, of r' 0 True] assms(3) obtain j p e where
    j: "j = 0 \<or> 0 < j \<and> is_end_of_sequence (rules ! r ! (j - 1))" "j < length (rules ! r)"
      "(left_call rules)\<^sup>*\<^sup>* p (r, j)" and e: "elem_at rules p = Some e" "ge_type e = GR_RULE_REF" "unat (ge_value e) = r'" by (auto simp: edge_def)
  from alt_starts_mem [OF wf r] obtain starts where
    st: "alt_starts rules r = Some starts" "\<forall>q. q \<in> set starts \<longleftrightarrow> (\<exists>j. q = (r, j) \<and> (j = 0 \<or> (\<exists>i. j = Suc i \<and> i < length (rules ! r) \<and> ge_type (rules ! r ! i) = GR_ALT)))"
    by blast
  have "ge_type (rules ! r ! (j - 1)) = GR_ALT" if "0 < j"
    using j that wf_rulesD(2) [OF wf r, of "j - 1"] by (auto simp: is_end_of_sequence_def)
  then have "(r, j) \<in> set starts" unfolding st(2) [rule_format] using j(2) by (cases j) auto
  moreover from alt_starts_run [OF wf edge_less [OF wf r assms(3)]] obtain starts' where st': "alt_starts rules r' = Some starts'" by blast
  moreover have "(left_call rules)\<^sup>+\<^sup>+ q' (r, j)" if "q' \<in> set starts'" for q'
    using enter [OF e(1,2) _ that] st' e(3) j(3) by (auto intro: tranclp_rtranclp_tranclp)
  ultimately show ?thesis using st(1) by blast
qed

lemma cycle_calls:
  assumes wf: "wf_rules rules"
  shows "(edge rules)\<^sup>+\<^sup>+ r' r \<Longrightarrow> r < length rules \<Longrightarrow> \<exists>starts q starts'. alt_starts rules r = Some starts \<and> q \<in> set starts \<and>
    alt_starts rules r' = Some starts' \<and> (\<forall>q'\<in>set starts'. (left_call rules)\<^sup>+\<^sup>+ q' q)"
proof (induction rule: tranclp.induct)
  case (r_into_trancl a b)
  then show ?case by (rule edge_calls [OF wf, rotated])
next
  case (trancl_into_trancl a b c)
  have b: "b < length rules" by (rule edge_less [OF wf trancl_into_trancl.prems trancl_into_trancl.hyps(2)])
  from trancl_into_trancl.IH [OF b] obtain starts q starts' where
    1: "alt_starts rules b = Some starts" "q \<in> set starts" "alt_starts rules a = Some starts'" "\<forall>q'\<in>set starts'. (left_call rules)\<^sup>+\<^sup>+ q' q" by blast
  from edge_calls [OF wf trancl_into_trancl.prems trancl_into_trancl.hyps(2)] 1(1) obtain starts'' q'' where
    2: "alt_starts rules c = Some starts''" "q'' \<in> set starts''" "\<forall>q'\<in>set starts. (left_call rules)\<^sup>+\<^sup>+ q' q''" by auto
  from 2(3) 1(2) have "(left_call rules)\<^sup>+\<^sup>+ q q''" by blast
  with 1(4) have "\<forall>q'\<in>set starts'. (left_call rules)\<^sup>+\<^sup>+ q' q''" by (auto intro: tranclp_trans)
  with 1(3) 2(1,2) show ?case by blast
qed

lemma cycle_left_recursion:
  assumes wf: "wf_rules rules" and "(edge rules)\<^sup>+\<^sup>+ r r" "r < length rules"
  shows "\<not> no_left_recursion rules"
proof
  assume "no_left_recursion rules"
  then have w: "wfP ((left_call rules)\<^sup>+\<^sup>+)" by (simp add: no_left_recursion_def wfp_tranclp)
  from cycle_calls [OF assms] obtain starts q where "alt_starts rules r = Some starts" "q \<in> set starts"
    "\<forall>q'\<in>set starts. (left_call rules)\<^sup>+\<^sup>+ q' q" by fastforce
  then have "(left_call rules)\<^sup>+\<^sup>+ q q" by blast
  with w show False by (metis asympD wfp_imp_asymp)
qed

section \<open>When the search finds nothing\<close>

inductive_cases left_callE: "left_call rules q p"

lemma accp_position:
  assumes wf: "wf_rules rules" and de: "direct_empty rules" and r: "r < length rules"
  shows "(\<And>r' q starts. r' \<in> leftmost rules (drop i (rules ! r)) True \<Longrightarrow> alt_starts rules r' = Some starts \<Longrightarrow> q \<in> set starts \<Longrightarrow>
      Wellfounded.accp (left_call rules) q) \<Longrightarrow> Wellfounded.accp (left_call rules) (r, i)"
proof (induction "drop i (rules ! r)" arbitrary: i)
  case Nil
  then have "length (rules ! r) \<le> i" by simp
  then have no: "elem_at rules (r, i) \<noteq> Some e" for e by (simp add: elem_at_Some)
  show ?case by (rule accp.accI, erule left_callE) (simp_all add: no)
next
  case (Cons e es)
  note d = drop_Cons_nth [OF Cons.hyps(2) [symmetric]]
  have at: "elem_at rules (r, i) = Some e" using r d by (simp add: elem_at_Some)
  have run: "leftmost rules (drop i (rules ! r)) True = leftmost rules (e # es) True" using Cons.hyps(2) by simp
  show ?case
  proof (rule accp.accI)
    fix q assume "left_call rules q (r, i)"
    then show "Wellfounded.accp (left_call rules) q"
    proof (rule left_callE)
      fix e' starts assume 1: "elem_at rules (r, i) = Some e'" "ge_type e' = GR_RULE_REF"
        "alt_starts rules (unat (ge_value e')) = Some starts" "q \<in> set starts"
      with at have "unat (ge_value e') \<in> leftmost rules (drop i (rules ! r)) True" unfolding run by simp
      from Cons.prems [OF this 1(3,4)] show ?thesis .
    next
      fix e' starts q' assume 2: "q = next_pos (r, i)" "elem_at rules (r, i) = Some e'" "ge_type e' = GR_RULE_REF"
        "alt_starts rules (unat (ge_value e')) = Some starts" "q' \<in> set starts" "nullable_from rules q'"
      then have e': "e' = e" using at by simp
      let ?r = "unat (ge_value e)"
      have "?r < length rules" using wf_rulesD(5) [OF wf r, of i] d 2(3) e' by simp
      moreover have "nullable_rule rules ?r" using 2(4-6) e' by (auto simp: nullable_rule_def)
      ultimately have "has_empty_alt (rules ! ?r) True" using de by (simp add: direct_empty_def)
      then have sub: "leftmost rules (drop (Suc i) (rules ! r)) True \<subseteq> leftmost rules (drop i (rules ! r)) True"
        unfolding run using 2(3) e' d by auto
      have "Wellfounded.accp (left_call rules) (r, Suc i)"
        by (rule Cons.hyps(1)) (use d Cons.prems sub in blast)+
      then show ?thesis using 2(1) by (simp add: next_pos_def)
    qed
  qed
qed

lemma leftmost_suffix:
  "k \<le> length rule \<Longrightarrow> \<exists>b. leftmost rules (drop k rule) b \<subseteq> leftmost rules rule True \<and> (k = 0 \<longrightarrow> b) \<and>
    (0 < k \<longrightarrow> is_end_of_sequence (rule ! (k - 1)) \<longrightarrow> b)"
proof (induction k)
  case (Suc k)
  then obtain b where b: "leftmost rules (drop k rule) b \<subseteq> leftmost rules rule True" by auto
  have d: "drop k rule = rule ! k # drop (Suc k) rule" using Suc.prems by (simp add: Cons_nth_drop_Suc)
  show ?case
  proof (cases "ge_type (rule ! k) = GR_RULE_REF \<and> b")
    case True
    then show ?thesis using b unfolding d by (auto simp: is_end_of_sequence_def)
  next
    case False
    then show ?thesis using b unfolding d by (intro exI [of _ "is_end_of_sequence (rule ! k)"]) auto
  qed
qed auto

lemma leftmost_start:
  assumes wf: "wf_rules rules" and r: "r < length rules" and st: "alt_starts rules r = Some starts" "q \<in> set starts"
  shows "\<exists>j. q = (r, j) \<and> leftmost rules (drop j (rules ! r)) True \<subseteq> {r'. edge rules r' r}"
proof -
  from alt_starts_mem [OF wf r] obtain starts' where st': "alt_starts rules r = Some starts'"
    "\<forall>q. q \<in> set starts' \<longleftrightarrow> (\<exists>j. q = (r, j) \<and> (j = 0 \<or> (\<exists>i. j = Suc i \<and> i < length (rules ! r) \<and> ge_type (rules ! r ! i) = GR_ALT)))"
    by blast
  then have "starts' = starts" using st(1) by simp
  with st(2) st'(2) obtain j where
    j: "q = (r, j)" "j = 0 \<or> (\<exists>i. j = Suc i \<and> i < length (rules ! r) \<and> ge_type (rules ! r ! i) = GR_ALT)" by blast
  then have "j \<le> length (rules ! r)" by auto
  from leftmost_suffix [OF this, of rules] j(2) have "leftmost rules (drop j (rules ! r)) True \<subseteq> leftmost rules (rules ! r) True"
    by (auto simp: is_end_of_sequence_def)
  then show ?thesis using j(1) by (auto simp: edge_def)
qed

lemma acyclic_no_left_recursion:
  assumes wf: "wf_rules rules" and de: "direct_empty rules" and acc: "\<forall>r<length rules. Wellfounded.accp (edge rules) r"
  shows "no_left_recursion rules"
proof -
  have starts: "Wellfounded.accp (left_call rules) q" if "r < length rules" "alt_starts rules r = Some starts" "q \<in> set starts" for r starts q
  proof -
    from acc that(1) have "Wellfounded.accp (edge rules) r" by blast
    then have "r < length rules \<longrightarrow> (\<forall>starts q. alt_starts rules r = Some starts \<longrightarrow> q \<in> set starts \<longrightarrow> Wellfounded.accp (left_call rules) q)"
    proof (induction rule: accp_induct_rule)
      case (1 r)
      show ?case
      proof (intro allI impI)
        fix starts q assume r: "r < length rules" and st: "alt_starts rules r = Some starts" "q \<in> set starts"
        from leftmost_start [OF wf r st] obtain j where
          j: "q = (r, j)" "leftmost rules (drop j (rules ! r)) True \<subseteq> {r'. edge rules r' r}" by blast
        show "Wellfounded.accp (left_call rules) q"
          unfolding j(1)
        proof (rule accp_position [OF wf de r])
          fix r' q starts
          assume "r' \<in> leftmost rules (drop j (rules ! r)) True" and q: "alt_starts rules r' = Some starts" "q \<in> set starts"
          with j(2) have e: "edge rules r' r" by blast
          from 1(2) [OF e, THEN mp, OF edge_less [OF wf r e]] q show "Wellfounded.accp (left_call rules) q" by blast
        qed
      qed
    qed
    with that show ?thesis by blast
  qed
  show ?thesis
    unfolding no_left_recursion_def
  proof (intro accp_wfpI allI)
    fix p :: gpos
    obtain r i where p: "p = (r, i)" by (cases p)
    show "Wellfounded.accp (left_call rules) p"
    proof (cases "r < length rules")
      case True
      have "\<forall>e\<in>set (drop i (rules ! r)). ge_type e = GR_RULE_REF \<longrightarrow> unat (ge_value e) < length rules"
        using wf_rules_refs [OF wf True] by (meson in_set_dropD)
      from leftmost_less [OF this] show ?thesis
        unfolding p by (intro accp_position [OF wf de True]) (rule starts)
    next
      case False
      then have no: "elem_at rules p \<noteq> Some e" for e by (simp add: p elem_at_Some)
      show ?thesis by (rule accp.accI, erule left_callE) (simp_all add: no)
    qed
  qed
qed

lemma left_recursion_decided:
  assumes wf: "wf_rules rules"
  shows "left_recursion_check rules \<noteq> None" "left_recursion_check rules = Some False \<Longrightarrow> \<not> no_left_recursion rules"
    "direct_empty rules \<Longrightarrow> left_recursion_check rules = Some True \<Longrightarrow> no_left_recursion rules"
  using left_recursion_check_run [OF wf] cycle_left_recursion [OF wf] acyclic_no_left_recursion [OF wf] by auto

end
