(* ===== verification/GrammarProps.thy ===== *)
theory GrammarProps
  imports GrammarRun GrammarLeft
begin

text \<open>The properties of the grammar engine, on grammars as the constructor receives them.\<close>

section \<open>The constructor\<close>

definition ends_zero :: "grule \<Rightarrow> bool" where
  "ends_zero rule \<longleftrightarrow> ge_value (last rule) = 0"

lemma copy_rule_id:
  "es \<noteq> [] \<Longrightarrow> \<forall>i<length es. ge_type (es ! i) = GR_END \<longleftrightarrow> Suc i = length es \<Longrightarrow> ge_value (last es) = 0 \<Longrightarrow> copy_rule es = Some es"
proof (induction es)
  case (Cons e es)
  show ?case
  proof (cases "es = []")
    case True
    then have "ge_type e = GR_END" "ge_value e = 0" using Cons.prems(2,3) by simp_all
    then show ?thesis using True by simp
  next
    case False
    then have "ge_type e \<noteq> GR_END" using Cons.prems(2) by force
    moreover have "\<forall>i<length es. ge_type (es ! i) = GR_END \<longleftrightarrow> Suc i = length es"
    proof (intro allI impI)
      fix i assume "i < length es"
      then show "ge_type (es ! i) = GR_END \<longleftrightarrow> Suc i = length es" using Cons.prems(2) [rule_format, of "Suc i"] by simp
    qed
    ultimately show ?thesis using Cons.IH False Cons.prems(3) by simp
  qed
qed simp

lemma copy_rules_id:
  assumes "wf_rules rules" "\<forall>rule\<in>set rules. ends_zero rule"
  shows "foldM (\<lambda>rule acc. do { r \<leftarrow> copy_rule rule; Some (acc @ [r]) }) rules [] = Some rules"
proof -
  have "copy_rule rule = Some rule" if "rule \<in> set rules" for rule
    using copy_rule_id [of rule] assms that by (simp add: wf_rules_def wf_rule_def ends_zero_def)
  from foldM_snoc [of rules copy_rule "\<lambda>x. x" "[]", OF this] show ?thesis by simp
qed

lemma wf_refs_valid: "wf_rules rules \<Longrightarrow> refs_valid rules"
  unfolding refs_valid_def wf_rules_def wf_rule_def by (metis nth_mem not_le)

lemma grammar_init_run:
  assumes wf: "wf_rules rules" "\<forall>rule\<in>set rules. ends_zero rule" and nlr: "no_left_recursion rules" and r: "r < length rules"
  shows "\<exists>g. grammar_init rules r = Some (Some g) \<and> gr_rules g = rules \<and> ready rules (gr_stacks g) \<and> gr_stacks g \<noteq> [] \<and>
    \<not> gr_awaiting g \<and> gr_partial g = \<lparr>pu_value = 0, pu_n_remain = 0\<rparr> \<and>
    (\<forall>w. (\<exists>s\<in>set (gr_stacks g). gen_stack rules s w) \<longleftrightarrow> generates rules r w)"
proof -
  have "left_recursion_check rules = Some True" using left_recursion_decided(1,2) [OF wf(1)] nlr by (cases "left_recursion_check rules") auto
  moreover from init_stacks_run [OF wf(1) nlr r] obtain stacks where "init_stacks rules r = Some stacks" "ready rules stacks" "stacks \<noteq> []"
    "\<forall>w. (\<exists>s\<in>set stacks. gen_stack rules s w) \<longleftrightarrow> generates rules r w" by blast
  ultimately show ?thesis using copy_rules_id [OF wf] wf_refs_valid [OF wf(1)] by (simp add: grammar_init_def)
qed

section \<open>Left recursion\<close>

text \<open>C15. The search for left recursion always returns. A grammar it rejects is left-recursive; a grammar it
  lets through is not, provided that every rule that generates the empty word has an alternate without
  elements, as the search assumes.\<close>

theorem left_recursion_exact:
  assumes "wf_rules rules"
  shows "left_recursion_check rules \<noteq> None \<and> (left_recursion_check rules = Some False \<longrightarrow> \<not> no_left_recursion rules) \<and>
    (direct_empty rules \<longrightarrow> left_recursion_check rules = Some (no_left_recursion rules))"
  using left_recursion_decided [OF assms] by (cases "left_recursion_check rules") auto

abbreviation chr :: "nat \<Rightarrow> gelem" where "chr c \<equiv> \<lparr>ge_type = GR_CHAR, ge_value = of_nat c\<rparr>"
abbreviation rref :: "nat \<Rightarrow> gelem" where "rref r \<equiv> \<lparr>ge_type = GR_RULE_REF, ge_value = of_nat r\<rparr>"
abbreviation galt :: gelem where "galt \<equiv> \<lparr>ge_type = GR_ALT, ge_value = 0\<rparr>"
abbreviation gend :: gelem where "gend \<equiv> \<lparr>ge_type = GR_END, ge_value = 0\<rparr>"

definition g_word :: "grule list" where
  \<comment> \<open>\<open>root ::= "a" root | "b"\<close>\<close>
  "g_word = [[chr 97, rref 0, galt, chr 98, gend]]"

lemma wf_rule_code [code]:
  "wf_rule n rule \<longleftrightarrow> rule \<noteq> [] \<and> (\<forall>i<length rule. ge_type (rule ! i) = GR_END \<longleftrightarrow> Suc i = length rule) \<and>
     \<not> is_modifier (rule ! 0) \<and> (\<forall>i<length rule - 1. follows_ok (rule ! i) (rule ! Suc i)) \<and>
     (\<forall>e\<in>set rule. ge_type e = GR_RULE_REF \<longrightarrow> unat (ge_value e) < n)"
  by (simp add: wf_rule_def less_diff_conv)

lemma g_word_wf: "wf_rules g_word" "\<forall>rule\<in>set g_word. ends_zero rule" "no_tokens g_word"
  by code_simp+

inductive_cases nullable_fromE: "nullable_from rules p"

lemma nullable_only: "nullable_from rules p \<Longrightarrow> elem_at rules p = Some e \<Longrightarrow> is_end_of_sequence e \<or> ge_type e = GR_RULE_REF"
  by (erule nullable_fromE) auto

lemma g_word_elems:
  "elem_at g_word (0, 0) = Some (chr 97)" "elem_at g_word (0, 1) = Some (rref 0)" "elem_at g_word (0, 2) = Some galt"
  "elem_at g_word (0, 3) = Some (chr 98)" "elem_at g_word (0, 4) = Some gend" "alt_starts g_word 0 = Some [(0, 0), (0, 3)]"
  by code_simp+

lemma g_word_direct: "direct_empty g_word"
proof -
  have "\<not> nullable_from g_word (0, 0)" "\<not> nullable_from g_word (0, 3)"
    using nullable_only [of g_word "(0, 0)"] nullable_only [of g_word "(0, 3)"] g_word_elems by (auto simp: is_end_of_sequence_def)
  then have "\<not> nullable_rule g_word 0" using g_word_elems(6) by (simp add: nullable_rule_def)
  then show ?thesis by (simp add: direct_empty_def g_word_def)
qed

lemma g_word_check: "left_recursion_check g_word = Some True"
  by code_simp

lemma g_word_nlr: "no_left_recursion g_word"
  by (rule left_recursion_decided(3) [OF g_word_wf(1) g_word_direct g_word_check])

theorem left_recursion_exact_witness: "left_recursion_check g_word = Some (no_left_recursion g_word)"
  using left_recursion_exact [OF g_word_wf(1)] g_word_direct by blast

section \<open>A grammar the search lets through\<close>

definition g_missed :: "grule list" where
  \<comment> \<open>\<open>root ::= a root "y" | "x"\<close> and \<open>a ::= "z"?\<close>, as the parser numbers the rules\<close>
  "g_missed = [[rref 1, rref 0, chr 121, galt, chr 120, gend], [rref 2, gend], [chr 122, galt, gend]]"

lemma g_missed_elems:
  "elem_at g_missed (0, 0) = Some (rref 1)" "elem_at g_missed (0, 1) = Some (rref 0)" "elem_at g_missed (2, 2) = Some gend"
  "elem_at g_missed (1, 0) = Some (rref 2)" "elem_at g_missed (1, 1) = Some gend" "alt_starts g_missed 0 = Some [(0, 0), (0, 4)]"
  "alt_starts g_missed 1 = Some [(1, 0)]" "alt_starts g_missed 2 = Some [(2, 0), (2, 2)]"
  by code_simp+

lemma loop_closed:
  assumes "advance_loop rules todo seen new = Some res"
  shows "(\<forall>s\<in>set seen. \<forall>t. step rules s t \<longrightarrow> t \<in> set seen \<union> set todo) \<longrightarrow>
    (\<exists>F. finite F \<and> set seen \<union> set todo \<subseteq> F \<and> (\<forall>s\<in>F. \<forall>t. step rules s t \<longrightarrow> t \<in> F))"
    (is "?C rules todo seen")
proof (rule advance_loop.raw_induct [where P = "\<lambda>rules todo seen new res. ?C rules todo seen", OF _ assms])
  fix loop rules and todo seen new res :: "gstack list"
  let ?C = "\<lambda>rules todo seen. (\<forall>s\<in>set seen. \<forall>t. step rules s t \<longrightarrow> t \<in> set seen \<union> set todo) \<longrightarrow>
    (\<exists>F. finite F \<and> set seen \<union> set todo \<subseteq> F \<and> (\<forall>s\<in>F. \<forall>t. step rules s t \<longrightarrow> t \<in> F))"
  assume 1: "\<And>rules todo seen new res. loop rules todo seen new = Some res \<Longrightarrow> ?C rules todo seen"
    "(case todo of [] \<Rightarrow> Some new
      | s # todo \<Rightarrow> if s \<in> set seen then loop rules todo seen new
        else (case s of [] \<Rightarrow> loop rules todo (s # seen) (if s \<in> set new then new else new @ [s])
        | p # rest \<Rightarrow> Option.bind (elem_at rules p) (\<lambda>e.
            if ge_type e = GR_RULE_REF then
              Option.bind (expand_ref rules p e rest) (\<lambda>next. loop rules (rev next @ todo) (s # seen) new)
            else if is_positive e \<or> ge_type e = GR_CHAR_NOT \<or> is_token_elem e then
              loop rules todo (s # seen) (if s \<in> set new then new else new @ [s])
            else None))) = Some res"
  show "?C rules todo seen"
  proof (cases todo)
    case Nil
    then show ?thesis by (intro impI exI [of _ "set seen"]) auto
  next
    case (Cons s todo')
    show ?thesis
    proof (cases "s \<in> set seen")
      case True
      then have "loop rules todo' seen new = Some res" using 1(2) Cons by simp
      from 1(1) [OF this] True Cons show ?thesis by auto
    next
      case False
      show ?thesis
      proof (intro impI)
        assume c: "\<forall>s\<in>set seen. \<forall>t. step rules s t \<longrightarrow> t \<in> set seen \<union> set todo"
        show "\<exists>F. finite F \<and> set seen \<union> set todo \<subseteq> F \<and> (\<forall>s\<in>F. \<forall>t. step rules s t \<longrightarrow> t \<in> F)"
        proof (cases "\<exists>p rest e. s = p # rest \<and> elem_at rules p = Some e \<and> ge_type e = GR_RULE_REF")
          case True
          then obtain p rest e where s: "s = p # rest" "elem_at rules p = Some e" "ge_type e = GR_RULE_REF" by blast
          with 1(2) Cons False obtain nx where
            nx: "expand_ref rules p e rest = Some nx" "loop rules (rev nx @ todo') (s # seen) new = Some res"
            by (auto simp: Option.bind_eq_Some_conv)
          have "step rules s t \<longleftrightarrow> t \<in> set nx" for t using s nx(1) by (auto simp: step_def)
          with c Cons have "\<forall>u\<in>set (s # seen). \<forall>t. step rules u t \<longrightarrow> t \<in> set (s # seen) \<union> set (rev nx @ todo')" by auto
          with 1(1) [OF nx(2)] show ?thesis using Cons by auto
        next
          case no: False
          then have st: "\<not> step rules s t" for t by (auto simp: step_def)
          from no 1(2) Cons False obtain new' where "loop rules todo' (s # seen) new' = Some res"
            by (cases s) (auto simp: Option.bind_eq_Some_conv split: if_splits)
          from 1(1) [OF this] c st Cons show ?thesis by auto
        qed
      qed
    qed
  qed
qed

lemma g_missed_step:
  assumes "elem_at g_missed p = Some e" "ge_type e = GR_RULE_REF" "alt_starts g_missed (unat (ge_value e)) = Some starts" "q \<in> set starts"
    and "\<forall>q\<in>set starts. \<exists>e. elem_at g_missed q = Some e" "push_pos g_missed (next_pos p) rest = Some t" "push_pos g_missed q t = Some s"
  shows "step g_missed (p # rest) s"
proof -
  let ?push = "\<lambda>q. push_pos g_missed q t"
  have "?push q = Some (the (?push q))" if "q \<in> set starts" for q using assms(5) that by (auto simp: push_pos_def)
  then have "foldM (\<lambda>q acc. Option.bind (?push q) (\<lambda>s. Some (acc @ [s]))) starts [] = Some ([] @ map (\<lambda>q. the (?push q)) starts)"
    by (rule foldM_snoc)
  then have "expand_ref g_missed p e rest = Some (map (\<lambda>q. the (?push q)) starts)" using assms(3,6) by (simp add: expand_ref_def)
  moreover have "s \<in> set (map (\<lambda>q. the (?push q)) starts)" using assms(4,7) by force
  ultimately show ?thesis using assms(1,2) unfolding step_def by blast
qed

lemma g_missed_grows: "(step g_missed)\<^sup>*\<^sup>* [(0, 0)] ((0, 0) # replicate k (0, 2))"
proof (induction k)
  case (Suc k)
  let ?r = "replicate k (0, 2) :: gstack"
  have e: "elem_at g_missed (0, 2) = Some (chr 121)" "elem_at g_missed (2, 0) = Some (chr 122)" "elem_at g_missed (0, 4) = Some (chr 120)"
    by code_simp+
  have "step g_missed ((0, 0) # ?r) ((1, 0) # (0, 1) # ?r)"
    by (rule g_missed_step [where e = "rref 1" and starts = "[(1, 0)]" and q = "(1, 0)" and t = "(0, 1) # ?r"])
      (use g_missed_elems in \<open>simp_all add: push_pos_def next_pos_def is_end_of_sequence_def\<close>)
  moreover have "step g_missed ((1, 0) # (0, 1) # ?r) ((0, 1) # ?r)"
    by (rule g_missed_step [where e = "rref 2" and starts = "[(2, 0), (2, 2)]" and q = "(2, 2)" and t = "(0, 1) # ?r"])
      (use g_missed_elems e in \<open>simp_all add: push_pos_def next_pos_def is_end_of_sequence_def\<close>)
  moreover have "step g_missed ((0, 1) # ?r) ((0, 0) # (0, 2) # ?r)"
    by (rule g_missed_step [where e = "rref 0" and starts = "[(0, 0), (0, 4)]" and q = "(0, 0)" and t = "(0, 2) # ?r"])
      (use g_missed_elems e in \<open>simp_all add: push_pos_def next_pos_def is_end_of_sequence_def numeral_2_eq_2\<close>)
  ultimately show ?case using Suc by (simp add: rtranclp.rtrancl_into_rtrancl)
qed simp

lemma g_missed_loops: "advance_stack g_missed [(0, 0)] new = None"
proof (rule ccontr)
  assume "advance_stack g_missed [(0, 0)] new \<noteq> None"
  then obtain res where "advance_loop g_missed [[(0, 0)]] [] new = Some res" by (auto simp: advance_stack_def)
  from loop_closed [OF this] obtain F where F: "finite F" "[(0, 0)] \<in> F" "\<forall>s\<in>F. \<forall>t. step g_missed s t \<longrightarrow> t \<in> F" by auto
  have "t \<in> F" if "(step g_missed)\<^sup>*\<^sup>* [(0, 0)] t" for t using that by (induction rule: rtranclp_induct) (use F in auto)
  then have "range (\<lambda>k. (0, 0) # replicate k (0 :: nat, 2 :: nat)) \<subseteq> F" using g_missed_grows by blast
  moreover have "inj (\<lambda>k. (0, 0) # replicate k (0 :: nat, 2 :: nat))" by (auto simp: inj_def dest: arg_cong [of _ _ length])
  ultimately show False using F(1) by (meson finite_subset infinite_UNIV_nat finite_imageD)
qed

lemma g_missed_wf: "wf_rules g_missed"
  by code_simp

text \<open>C28. The search follows a reference only behind rules with an alternate without elements. In
  \<open>root ::= a root "y" | "x"\<close>, \<open>a ::= "z"?\<close> the rule \<open>a\<close> is empty only through the rule the parser adds for
  \<open>"z"?\<close>: the search passes this left-recursive grammar, and the constructor does not return on it.\<close>

theorem left_recursion_missed:
  "wf_rules g_missed \<and> left_recursion_check g_missed = Some True \<and> \<not> no_left_recursion g_missed \<and> grammar_init g_missed 0 = None"
proof -
  have c: "left_recursion_check g_missed = Some True" by code_simp
  have "\<not> no_left_recursion g_missed"
  proof
    assume nlr: "no_left_recursion g_missed"
    have "stack_ok g_missed [(0, 0)]" using g_missed_elems by (simp add: item_ok_def is_modifier_def is_end_of_sequence_def)
    from advance_stack_run [OF g_missed_wf nlr this, of "[]"] g_missed_loops show False by simp
  qed
  moreover have "init_stacks g_missed 0 = None"
    using g_missed_elems by (simp add: init_stacks_def push_pos_def is_end_of_sequence_def g_missed_loops)
  moreover have "foldM (\<lambda>rule acc. do { r \<leftarrow> copy_rule rule; Some (acc @ [r]) }) g_missed [] = Some g_missed"
    by (simp add: g_missed_def)
  ultimately show ?thesis using c g_missed_wf wf_refs_valid [OF g_missed_wf] by (simp add: grammar_init_def)
qed

end
