(* ===== verification/GrammarOutput.thy ===== *)
theory GrammarOutput
  imports GrammarProps
begin

text \<open>
  Sequences of sampled tokens: what the stacks say of the text accepted so far, which tokens the mask keeps, and
  when the generation may end.
\<close>

section \<open>Accepting as a derivative of the language\<close>

lemma accept_points_gen:
  assumes wf: "wf_rules rules" and nlr: "no_left_recursion rules"
  shows "ready rules stacks \<Longrightarrow> \<exists>st. accept_points rules cs stacks = Some st \<and> ready rules st \<and>
    (\<forall>v. (\<exists>s\<in>set st. gen_stack rules s v) \<longleftrightarrow> (\<exists>s\<in>set stacks. gen_stack rules s (cs @ v)))"
proof (induction cs arbitrary: stacks)
  case (Cons c cs)
  from accept_all_gen [OF wf nlr Cons.prems, of c] obtain nx where
    nx: "accept_all rules stacks c = Some nx" "ready rules nx"
      "\<forall>w. (\<exists>s\<in>set nx. gen_stack rules s w) \<longleftrightarrow> (\<exists>s\<in>set stacks. gen_stack rules s (c # w))" by blast
  show ?case
  proof (cases "nx = []")
    case True
    with nx show ?thesis by (auto simp: ready_def)
  next
    case False
    with Cons.IH [OF nx(2)] nx(1,3) show ?thesis by simp
  qed
qed simp

lemma accept_stack_token_gen:
  assumes wf: "wf_rules rules" and nlr: "no_left_recursion rules" and nt: "no_tokens rules"
    and s: "stack_ok rules s" "terminal rules s" and new: "ready rules new"
  shows "\<exists>new'. accept_stack_token rules tok points s new = Some new' \<and> ready rules new' \<and>
    (\<forall>v. (\<exists>t\<in>set new'. gen_stack rules t v) \<longleftrightarrow> (\<exists>t\<in>set new. gen_stack rules t v) \<or> s \<noteq> [] \<and> gen_stack rules s (points @ v))"
proof (cases s)
  case Nil
  then show ?thesis using new by (simp add: accept_stack_token_def)
next
  case (Cons p rest)
  then obtain e where e: "elem_at rules p = Some e" using s by (auto simp: terminal_def)
  have nt': "\<not> is_token_elem e" by (rule no_tokens_at [OF nt e])
  have "ready rules [s]" using s by (simp add: ready_def)
  from accept_points_gen [OF wf nlr this, of points] obtain cur where
    cur: "accept_points rules points [s] = Some cur" "ready rules cur"
      "\<forall>v. (\<exists>t\<in>set cur. gen_stack rules t v) \<longleftrightarrow> gen_stack rules s (points @ v)" by auto
  define all where "all = fold (\<lambda>s new. if s \<in> set new then new else new @ [s]) cur new"
  have f: "set all = set new \<union> set cur" "distinct all"
    using fold_insert_new [of new cur] new by (simp_all add: ready_def all_def)
  have "ready rules all" using f cur(2) new by (auto simp: ready_def)
  moreover have "accept_stack_token rules tok points s new = Some all"
    using Cons e nt' cur(1) by (simp add: accept_stack_token_def all_def)
  moreover have "(\<exists>t\<in>set all. gen_stack rules t v) \<longleftrightarrow> (\<exists>t\<in>set new. gen_stack rules t v) \<or> s \<noteq> [] \<and> gen_stack rules s (points @ v)" for v
    unfolding f(1) using cur(3) Cons by auto
  ultimately show ?thesis by blast
qed

lemma accept_token_gen:
  assumes g: "grammar_ok g" and d: "decode_utf8 piece (gr_partial g) = (points, part)"
  shows "\<exists>stacks. accept_token tok piece g = Some (stacks \<noteq> [], g\<lparr>gr_stacks := stacks, gr_partial := part\<rparr>) \<and> ready (gr_rules g) stacks \<and>
    (\<forall>v. (\<exists>t\<in>set stacks. gen_stack (gr_rules g) t v) \<longleftrightarrow>
      (\<exists>s\<in>set (gr_stacks g). s \<noteq> [] \<and> gen_stack (gr_rules g) s (butlast points @ v)))"
proof -
  let ?rules = "gr_rules g" let ?pts = "butlast points"
  have g': "wf_rules ?rules" "no_left_recursion ?rules" "no_tokens ?rules" "ready ?rules (gr_stacks g)" using g by (simp_all add: grammar_ok_def)
  let ?P = "\<lambda>done new. ready ?rules new \<and> (\<forall>v. (\<exists>t\<in>set new. gen_stack ?rules t v) \<longleftrightarrow>
    (\<exists>s\<in>set done. s \<noteq> [] \<and> gen_stack ?rules s (?pts @ v)))"
  have "\<exists>stacks. foldM (accept_stack_token ?rules tok ?pts) (gr_stacks g) [] = Some stacks \<and> ?P (gr_stacks g) stacks"
  proof (rule foldM_rule)
    show "?P [] []" by (simp add: ready_def)
    fix "done" s rest new assume sp: "gr_stacks g = done @ s # rest" and P: "?P done new"
    have s: "stack_ok ?rules s" "terminal ?rules s" using g'(4) by (simp_all add: ready_def sp)
    from P have "ready ?rules new" by blast
    from accept_stack_token_gen [OF g'(1-3) s this, of tok ?pts] obtain new' where
      n: "accept_stack_token ?rules tok ?pts s new = Some new'" "ready ?rules new'"
      "\<forall>v. (\<exists>t\<in>set new'. gen_stack ?rules t v) \<longleftrightarrow> (\<exists>t\<in>set new. gen_stack ?rules t v) \<or> s \<noteq> [] \<and> gen_stack ?rules s (?pts @ v)" by blast
    have "?P (done @ [s]) new'" unfolding n(3) [THEN spec] using n(2) P by auto
    with n(1) show "\<exists>new'. accept_stack_token ?rules tok ?pts s new = Some new' \<and> ?P (done @ [s]) new'" by blast
  qed
  then show ?thesis using d by (auto simp: accept_token_def)
qed

section \<open>A run of the sampler\<close>

definition accept_tokens :: "gvocab \<Rightarrow> token_id list \<Rightarrow> grammar \<Rightarrow> grammar option option" where
  \<comment> \<open>accept one token after the other; \<open>Some None\<close>: an exception\<close>
  "accept_tokens v = loopM (\<lambda>tok g. do { (ok, g) \<leftarrow> accept_impl v tok g; Some (if ok then Some g else None) })"

fun text_of :: "gvocab \<Rightarrow> token_id list \<Rightarrow> partial_utf8 \<Rightarrow> u32 list" where
  \<comment> \<open>the whole code points of the tokens\<close>
  "text_of v [] part = []"
| "text_of v (t # ts) part = (case decode_utf8 (gv_piece v t) part of (points, part') \<Rightarrow> butlast points @ text_of v ts part')"

definition tracks :: "nat \<Rightarrow> u32 list \<Rightarrow> grammar \<Rightarrow> bool" where
  \<comment> \<open>the stacks read what may follow the text; they are finished exactly on a word, unless a character is cut off\<close>
  "tracks r w g \<longleftrightarrow> (\<forall>v. v \<noteq> [] \<longrightarrow> (\<exists>s\<in>set (gr_stacks g). gen_stack (gr_rules g) s v) = generates (gr_rules g) r (w @ v)) \<and>
     (pu_n_remain (gr_partial g) = 0 \<longrightarrow> [] \<in> set (gr_stacks g) \<longleftrightarrow> generates (gr_rules g) r w)"

lemma gen_stack_Nil: "gen_stack rules [] v \<longleftrightarrow> v = []"
  by simp

lemma accept_token_tracks:
  assumes g: "grammar_ok g" and t: "tracks r w g" and good: "good_piece v tok"
    and d: "decode_utf8 (gv_piece v tok) (gr_partial g) = (points, part)"
  shows "\<exists>stacks. accept_token tok (gv_piece v tok) g = Some (stacks \<noteq> [], g\<lparr>gr_stacks := stacks, gr_partial := part\<rparr>) \<and>
    ready (gr_rules g) stacks \<and> tracks r (w @ butlast points) (g\<lparr>gr_stacks := stacks, gr_partial := part\<rparr>)"
proof -
  let ?rules = "gr_rules g" let ?ps = "butlast points"
  from accept_token_gen [OF g d, of tok] obtain stacks where
    st: "accept_token tok (gv_piece v tok) g = Some (stacks \<noteq> [], g\<lparr>gr_stacks := stacks, gr_partial := part\<rparr>)" "ready ?rules stacks"
      "\<And>v. (\<exists>t\<in>set stacks. gen_stack ?rules t v) \<longleftrightarrow> (\<exists>s\<in>set (gr_stacks g). s \<noteq> [] \<and> gen_stack ?rules s (?ps @ v))" by blast
  have via: "(\<exists>t\<in>set stacks. gen_stack ?rules t v) \<longleftrightarrow> generates ?rules r ((w @ ?ps) @ v)" if "?ps @ v \<noteq> []" for v
  proof -
    have "(\<exists>s\<in>set (gr_stacks g). s \<noteq> [] \<and> gen_stack ?rules s (?ps @ v)) \<longleftrightarrow> (\<exists>s\<in>set (gr_stacks g). gen_stack ?rules s (?ps @ v))"
      using that gen_stack_Nil by metis
    moreover have "(\<exists>s\<in>set (gr_stacks g). gen_stack ?rules s (?ps @ v)) \<longleftrightarrow> generates ?rules r (w @ ?ps @ v)"
      using t that unfolding tracks_def by blast
    ultimately show ?thesis unfolding st(3) by simp
  qed
  have "[] \<in> set stacks \<longleftrightarrow> generates ?rules r (w @ ?ps)" if "pu_n_remain part = 0"
  proof -
    have "?ps \<noteq> []" using decode_utf8_end(2) [OF d that] good by (simp add: good_piece_def)
    then have "(\<exists>t\<in>set stacks. gen_stack ?rules t []) \<longleftrightarrow> generates ?rules r (w @ ?ps)" using via [of "[]"] by simp
    then show ?thesis using ready_accepts_empty [OF st(2)] by simp
  qed
  with via have "tracks r (w @ ?ps) (g\<lparr>gr_stacks := stacks, gr_partial := part\<rparr>)" by (simp add: tracks_def)
  with st(1,2) show ?thesis by blast
qed

lemma accept_tokens_run:
  assumes "grammar_ok g" "tracks r w g" "\<forall>t\<in>set toks. \<not> gv_is_eog v t \<and> good_piece v t"
  shows "\<exists>res. accept_tokens v toks g = Some res \<and> (case res of
      None \<Rightarrow> \<forall>u. u \<noteq> [] \<longrightarrow> \<not> generates (gr_rules g) r (w @ text_of v toks (gr_partial g) @ u)
    | Some g' \<Rightarrow> grammar_ok g' \<and> gr_rules g' = gr_rules g \<and> tracks r (w @ text_of v toks (gr_partial g)) g')"
  using assms
proof (induction toks arbitrary: g w)
  case (Cons tok toks)
  obtain points part where d: "decode_utf8 (gv_piece v tok) (gr_partial g) = (points, part)" by (cases "decode_utf8 (gv_piece v tok) (gr_partial g)")
  have tok: "\<not> gv_is_eog v tok" "good_piece v tok" using Cons.prems(3) by simp_all
  from accept_token_tracks [OF Cons.prems(1,2) tok(2) d] obtain stacks where
    st: "accept_token tok (gv_piece v tok) g = Some (stacks \<noteq> [], g\<lparr>gr_stacks := stacks, gr_partial := part\<rparr>)" "ready (gr_rules g) stacks"
      "tracks r (w @ butlast points) (g\<lparr>gr_stacks := stacks, gr_partial := part\<rparr>)" by blast
  let ?g = "g\<lparr>gr_stacks := stacks, gr_partial := part\<rparr>"
  have "\<not> gr_awaiting g" using Cons.prems(1) by (simp add: grammar_ok_def)
  then have run: "accept_impl v tok g = Some (stacks \<noteq> [], ?g)" using st(1) tok(1) by (simp add: accept_impl_def Let_def)
  show ?case
  proof (cases "stacks = []")
    case True
    then have "\<not> generates (gr_rules g) r ((w @ butlast points) @ u)" if "u \<noteq> []" for u
      using st(3) that by (simp add: tracks_def)
    then show ?thesis using run True d by (simp add: accept_tokens_def)
  next
    case False
    have "grammar_ok ?g" using Cons.prems(1) st(2) False by (simp add: grammar_ok_def)
    have "\<forall>t\<in>set toks. \<not> gv_is_eog v t \<and> good_piece v t" using Cons.prems(3) by simp
    note IH = Cons.IH [OF \<open>grammar_ok ?g\<close> st(3) this]
    have step: "accept_tokens v (tok # toks) g = accept_tokens v toks ?g" using run False by (simp add: accept_tokens_def)
    have whole: "text_of v (tok # toks) (gr_partial g) = butlast points @ text_of v toks part" using d by simp
    have fields: "gr_rules ?g = gr_rules g" "gr_partial ?g = part" by simp_all
    from IH show ?thesis unfolding step whole fields append_assoc .
  qed
qed (simp add: accept_tokens_def)

lemma viable_passes:
  assumes wf: "wf_rules rules" and nlr: "no_left_recursion rules" and part: "pu_n_remain part = 0"
  shows "stack_ok rules s \<Longrightarrow> terminal rules s \<Longrightarrow> gen_stack rules s (cs @ u) \<Longrightarrow> passes rules part tok s cs"
proof (induction cs arbitrary: s)
  case (Cons c cs)
  from gen_chr [OF wf nlr Cons.prems(1,2), of c "cs @ u"] Cons.prems(3) obtain t where
    t: "t \<in> chr_next rules s c" "gen_stack rules t (cs @ u)" by auto
  with Cons.IH [of t] chr_next_ready [OF wf Cons.prems(1) t(1)] show ?case by auto
qed (simp add: end_ok_def part)

lemma takeWhile_snoc_stop: "\<not> P x \<Longrightarrow> takeWhile P (xs @ [x]) = takeWhile P xs"
  by (induction xs) auto

lemma viable_allowed:
  assumes g: "grammar_ok g" "tracks r w g" and tok: "\<not> gv_is_eog v tok" "good_piece v tok"
    and d: "decode_utf8 (gv_piece v tok) (gr_partial g) = (points, part)" "pu_n_remain part = 0"
    and word: "generates (gr_rules g) r (w @ butlast points @ u)"
  shows "token_allowed v g tok"
proof -
  let ?c = "cand_of v g 0 tok"
  have ps: "butlast points \<noteq> []" using decode_utf8_end(2) [OF d(1,2)] tok(2) by (simp add: good_piece_def)
  from ps word g(2) have "\<exists>s\<in>set (gr_stacks g). gen_stack (gr_rules g) s (butlast points @ u)" by (simp add: tracks_def)
  then obtain s where s: "s \<in> set (gr_stacks g)" "gen_stack (gr_rules g) s (butlast points @ u)" by blast
  define rest where "rest = dropWhile (\<lambda>c. c \<noteq> 0) (butlast points)"
  have split: "butlast points = takeWhile (\<lambda>c. c \<noteq> 0) (butlast points) @ rest" by (simp add: rest_def)
  have "points = butlast points @ [0]" by (rule decode_utf8_end(1) [OF d(1)])
  then have "takeWhile (\<lambda>c. c \<noteq> 0) points = takeWhile (\<lambda>c. c \<noteq> 0) (butlast points @ [0])" by simp
  also have "\<dots> = takeWhile (\<lambda>c. c \<noteq> 0) (butlast points)" by (simp add: takeWhile_snoc_stop)
  finally have rem: "remaining ?c = takeWhile (\<lambda>c. c \<noteq> 0) (butlast points)" using d(1) by (simp add: remaining_def cand_of_def)
  have "gen_stack (gr_rules g) s (remaining ?c @ rest @ u)" using s(2) split unfolding rem by (metis append_assoc)
  then have "passes (gr_rules g) part tok s (remaining ?c)"
    using viable_passes [where cs = "remaining ?c" and u = "rest @ u", of "gr_rules g" part s tok] g(1) s(1) d(2)
    by (simp add: grammar_ok_def ready_def)
  moreover have "gc_partial ?c = part" using d(1) by (simp add: cand_of_def)
  ultimately show ?thesis using s(1) tok by (auto simp: token_allowed_def cand_passes_def)
qed

section \<open>The properties\<close>

definition good_grammar :: "grule list \<Rightarrow> nat \<Rightarrow> bool" where
  \<comment> \<open>rules as the constructor receives them: well-formed, not left-recursive, without token elements\<close>
  "good_grammar rules r \<longleftrightarrow> wf_rules rules \<and> (\<forall>rule\<in>set rules. ends_zero rule) \<and> no_left_recursion rules \<and> no_tokens rules \<and> r < length rules"

lemma init_tracks:
  assumes "good_grammar rules r" "grammar_init rules r = Some (Some g)"
  shows "grammar_ok g \<and> gr_rules g = rules \<and> gr_partial g = \<lparr>pu_value = 0, pu_n_remain = 0\<rparr> \<and> tracks r [] g"
proof -
  from grammar_init_run [of rules r] assms have
    g: "gr_rules g = rules" "ready rules (gr_stacks g)" "gr_stacks g \<noteq> []" "\<not> gr_awaiting g" "gr_partial g = \<lparr>pu_value = 0, pu_n_remain = 0\<rparr>"
      "\<forall>w. (\<exists>s\<in>set (gr_stacks g). gen_stack rules s w) \<longleftrightarrow> generates rules r w" by (auto simp: good_grammar_def)
  moreover have "grammar_ok g" using g assms(1) by (simp add: grammar_ok_def good_grammar_def)
  ultimately show ?thesis using ready_accepts_empty [OF g(2)] by (simp add: tracks_def)
qed

lemma run_tracks:
  assumes "good_grammar rules r" "grammar_init rules r = Some (Some g0)" "\<forall>t\<in>set toks. \<not> gv_is_eog v t \<and> good_piece v t"
    "accept_tokens v toks g0 = Some (Some g)"
  shows "grammar_ok g \<and> gr_rules g = rules \<and> tracks r (text_of v toks \<lparr>pu_value = 0, pu_n_remain = 0\<rparr>) g"
  using accept_tokens_run [where w = "[]" and r = r and g = g0, OF _ _ assms(3)] init_tracks [OF assms(1,2)] assms(4) by simp

text \<open>C29. Expanding a stack of a grammar without left recursion terminates, and adds exactly the stacks reachable by
  expanding rule references whose top is a character or a token element (or that are empty), each once.\<close>

theorem advance_stack_exact:
  assumes "wf_rules rules" "no_left_recursion rules" "stack_ok rules s" "distinct new"
  shows "\<exists>new'. advance_stack rules s new = Some new' \<and> distinct new' \<and>
    set new' = set new \<union> {t. (step rules)\<^sup>*\<^sup>* s t \<and> terminal rules t}"
  using advance_stack_run [OF assms] by (auto simp: reaches_def)

text \<open>C25. For well-formed rules without left recursion: the constructor and the character automaton accept the language of the grammar: after any code points the
  empty stack is present iff they are a word of the start rule, and some stack is left while they can be
  continued to a word.\<close>

theorem grammar_language:
  assumes "wf_rules rules" "\<forall>rule\<in>set rules. ends_zero rule" "no_left_recursion rules" "r < length rules"
  shows "\<exists>g. grammar_init rules r = Some (Some g) \<and> (\<forall>w. \<exists>g'. foldM grammar_accept w g = Some g' \<and>
    ([] \<in> set (gr_stacks g') \<longleftrightarrow> generates rules r w) \<and> (\<forall>u. generates rules r (w @ u) \<longrightarrow> gr_stacks g' \<noteq> []))"
proof -
  from grammar_init_run [OF assms] obtain g where
    g: "grammar_init rules r = Some (Some g)" "gr_rules g = rules" "ready rules (gr_stacks g)"
      "\<forall>w. (\<exists>s\<in>set (gr_stacks g). gen_stack rules s w) \<longleftrightarrow> generates rules r w" by blast
  have "\<exists>g'. foldM grammar_accept w g = Some g' \<and> ([] \<in> set (gr_stacks g') \<longleftrightarrow> generates rules r w) \<and>
      (\<forall>u. generates rules r (w @ u) \<longrightarrow> gr_stacks g' \<noteq> [])" for w
  proof -
    from grammar_accept_word [of g w] g assms obtain g' where
      g': "foldM grammar_accept w g = Some g'" "ready rules (gr_stacks g')"
        "\<forall>v. (\<exists>s\<in>set (gr_stacks g'). gen_stack rules s v) \<longleftrightarrow> generates rules r (w @ v)" by auto
    then have "[] \<in> set (gr_stacks g') \<longleftrightarrow> generates rules r w" using ready_accepts_empty [OF g'(2)] by auto
    moreover have "\<forall>u. generates rules r (w @ u) \<longrightarrow> gr_stacks g' \<noteq> []"
      unfolding g'(3) [THEN spec, symmetric] by auto
    ultimately show ?thesis using g'(1) by blast
  qed
  with g(1) show ?thesis by blast
qed

text \<open>C27. Masking, for rules without left recursion: with at least one stack, past the trigger, exactly the tokens that no stack can read get the logit minus infinity;
  the others, and the order of the array, stay as they are.\<close>

theorem apply_exact:
  assumes "wf_rules (gr_rules g)" "no_left_recursion (gr_rules g)" "ready (gr_rules g) (gr_stacks g)" "gr_stacks g \<noteq> []"
  shows "grammar_apply v g data =
    Some (if gr_awaiting g then data else map (\<lambda>d. if token_allowed v g (td_id d) then d else masked d) data)"
proof (cases "gr_awaiting g")
  case True
  then show ?thesis by (simp add: grammar_apply_def)
next
  case False
  then show ?thesis using grammar_apply_run [OF assms False] by simp
qed

text \<open>C26. In a grammar whose rules have neither left recursion nor token elements, past its trigger and with at least one
  stack, a token the mask leaves is accepted without an exception, and the grammar stays in such a state, when no code
  point of its piece is zero. (With token elements this is false, see \<open>token_element_mismatch\<close>.)\<close>

theorem allowed_token_accepted:
  assumes "grammar_ok g" "0 \<notin> set (butlast (fst (decode_utf8 (gv_piece v tok) (gr_partial g))))"
  shows "token_allowed v g tok \<longrightarrow> (\<exists>g'. accept_impl v tok g = Some (True, g') \<and> grammar_ok g')"
  using accept_allowed [OF assms(1) _ assms(2)] by blast

text \<open>C10. Take a grammar without left recursion and token elements, and any tokens that do not end the generation and whose
  pieces are not empty and do not begin with a zero byte. Accepting them one after the other does not abort. It ends
  with an exception only when no nonempty continuation of their text is a word of the start rule; otherwise the grammar
  is in a good state (\<open>grammar_ok\<close>). In a good state in which the last token left no character cut, the empty
  stack is present exactly when the text is a word, and a token that ends the generation is then accepted when the text
  is a word and aborts when it is not. Nothing is claimed of being finished while a character is cut.\<close>

theorem constrained_output:
  assumes "good_grammar rules r" "grammar_init rules r = Some (Some g)" "\<forall>t\<in>set toks. \<not> gv_is_eog v t \<and> good_piece v t"
  shows "case accept_tokens v toks g of None \<Rightarrow> False
    | Some None \<Rightarrow> \<forall>u. u \<noteq> [] \<longrightarrow> \<not> generates rules r (text_of v toks \<lparr>pu_value = 0, pu_n_remain = 0\<rparr> @ u)
    | Some (Some g') \<Rightarrow> grammar_ok g' \<and>
        (pu_n_remain (gr_partial g') = 0 \<longrightarrow>
          ([] \<in> set (gr_stacks g') \<longleftrightarrow> generates rules r (text_of v toks \<lparr>pu_value = 0, pu_n_remain = 0\<rparr>)) \<and>
          (\<forall>t. gv_is_eog v t \<longrightarrow> accept_impl v t g' =
            (if generates rules r (text_of v toks \<lparr>pu_value = 0, pu_n_remain = 0\<rparr>) then Some (True, g') else None)))"
proof -
  have g: "grammar_ok g" "tracks r [] g" "gr_rules g = rules" "gr_partial g = \<lparr>pu_value = 0, pu_n_remain = 0\<rparr>"
    using init_tracks [OF assms(1,2)] by blast+
  from accept_tokens_run [OF g(1,2) assms(3), unfolded append_Nil g(3,4)] obtain res where
    res: "accept_tokens v toks g = Some res" "case res of
      None \<Rightarrow> \<forall>u. u \<noteq> [] \<longrightarrow> \<not> generates rules r (text_of v toks \<lparr>pu_value = 0, pu_n_remain = 0\<rparr> @ u)
    | Some g' \<Rightarrow> grammar_ok g' \<and> gr_rules g' = rules \<and> tracks r (text_of v toks \<lparr>pu_value = 0, pu_n_remain = 0\<rparr>) g'" by blast
  have "accept_impl v t g' = (if [] \<in> set (gr_stacks g') then Some (True, g') else None)" if "grammar_ok g'" "gv_is_eog v t" for g' t
    using that by (simp add: accept_impl_def grammar_ok_def assert_that_def)
  with res show ?thesis by (cases res) (simp_all add: tracks_def)
qed

text \<open>C11. Take a grammar without left recursion and token elements, after accepted tokens that do not end the generation, have
  pieces that are not empty and do not begin with a zero byte, and left no character cut. The mask keeps the logit of
  every token whose piece is not empty, does not begin with a zero byte and ends on a whole character, when its text
  can be continued to a word; and a token that ends the generation keeps its logit exactly when the text is a word.
  Tokens that end within a character are not covered: the mask can take one that leads to a word (\<open>negated_class_masks\<close>).\<close>

theorem mask_keeps_words:
  assumes "good_grammar rules r" "grammar_init rules r = Some (Some g0)" "\<forall>t\<in>set toks. \<not> gv_is_eog v t \<and> good_piece v t"
    and "accept_tokens v toks g0 = Some (Some g)" "pu_n_remain (gr_partial g) = 0"
  shows "\<exists>data'. grammar_apply v g data = Some data' \<and> length data' = length data \<and> (\<forall>i<length data. let tok = td_id (data ! i) in
    if gv_is_eog v tok
    then data' ! i = (if generates rules r (text_of v toks \<lparr>pu_value = 0, pu_n_remain = 0\<rparr>) then data ! i else masked (data ! i))
    else (\<forall>points part u. good_piece v tok \<longrightarrow> decode_utf8 (gv_piece v tok) (gr_partial g) = (points, part) \<longrightarrow> pu_n_remain part = 0 \<longrightarrow>
      generates rules r (text_of v toks \<lparr>pu_value = 0, pu_n_remain = 0\<rparr> @ butlast points @ u) \<longrightarrow> data' ! i = data ! i))"
proof -
  from run_tracks [OF assms(1-4)] have
    g: "grammar_ok g" "gr_rules g = rules" "tracks r (text_of v toks \<lparr>pu_value = 0, pu_n_remain = 0\<rparr>) g" by blast+
  then have run: "grammar_apply v g data = Some (map (\<lambda>d. if token_allowed v g (td_id d) then d else masked d) data)"
    using grammar_apply_run [of g v data] by (simp add: grammar_ok_def)
  have "token_allowed v g tok \<longleftrightarrow> generates rules r (text_of v toks \<lparr>pu_value = 0, pu_n_remain = 0\<rparr>)" if "gv_is_eog v tok" for tok
    using that g(2,3) assms(5) by (simp add: token_allowed_def tracks_def)
  then show ?thesis using run viable_allowed [OF g(1,3)] g(2) by (auto simp: Let_def)
qed

section \<open>Concrete runs\<close>

definition g_start :: grammar where
  "g_start = the (the (grammar_init g_word 0))"

definition v_word :: gvocab where
  \<comment> \<open>tokens 1, 2, 3 are the letters a, b, c; token 0 ends the generation\<close>
  "v_word = \<lparr>gv_piece = (\<lambda>t. if t = 1 then [97] else if t = 2 then [98] else if t = 3 then [99] else []), gv_is_eog = (\<lambda>t. t = 0)\<rparr>"

lemma g_word_good: "good_grammar g_word 0"
  using g_word_wf g_word_nlr by (simp add: good_grammar_def g_word_def)

lemma g_start_init: "grammar_init g_word 0 = Some (Some g_start)"
proof -
  from grammar_init_run [of g_word 0] g_word_good obtain g where "grammar_init g_word 0 = Some (Some g)" by (auto simp: good_grammar_def)
  then show ?thesis by (simp add: g_start_def)
qed

lemma g_start_ok: "grammar_ok g_start" "gr_rules g_start = g_word" "gr_partial g_start = \<lparr>pu_value = 0, pu_n_remain = 0\<rparr>"
  using init_tracks [OF g_word_good g_start_init] by blast+

lemma g_word_b: "gen g_word (0, 3) [98]"
proof -
  have "class_accepts g_word (0, 3) (chr 98) 98" "class_end g_word (0, 3) = (0, 4)" by code_simp+
  moreover have "gen g_word (0, 4) []" by (rule gen_end [OF g_word_elems(5)]) (simp add: is_end_of_sequence_def)
  ultimately show ?thesis using g_word_elems(4) by (intro gen_class) (auto simp: is_class_def is_positive_def)
qed

lemma g_word_ab: "generates g_word 0 [97, 98]"
proof -
  have "gen g_word (0, 1) ([98] @ [])"
  proof (rule gen_ref [OF g_word_elems(2) _ _ _ g_word_b, where starts = "[(0, 0), (0, 3)]"])
    show "gen g_word (next_pos (0, 1)) []"
      by (rule gen_end [where e = galt]) (use g_word_elems(3) in \<open>simp_all add: next_pos_def is_end_of_sequence_def numeral_2_eq_2\<close>)
  qed (use g_word_elems(6) in simp_all)
  moreover have "class_accepts g_word (0, 0) (chr 97) 97" "class_end g_word (0, 0) = (0, 1)" by code_simp+
  ultimately have "gen g_word (0, 0) [97, 98]"
    by - (rule gen_class [OF g_word_elems(1)], simp_all add: is_class_def is_positive_def)
  then show ?thesis using g_word_elems(6) by (simp add: generates_def)
qed

theorem advance_stack_exact_witness:
  "\<exists>new'. advance_stack g_word [(0, 1)] [[]] = Some new' \<and> set new' = {[]} \<union> {t. (step g_word)\<^sup>*\<^sup>* [(0, 1)] t \<and> terminal g_word t}"
proof -
  have "stack_ok g_word [(0, 1)]" using g_word_elems(2) by (simp add: item_ok_def is_modifier_def is_end_of_sequence_def)
  from advance_stack_exact [OF g_word_wf(1) g_word_nlr this, of "[[]]"] show ?thesis by auto
qed

theorem grammar_language_witness:
  "\<exists>g g'. grammar_init g_word 0 = Some (Some g) \<and> foldM grammar_accept [97, 98] g = Some g' \<and> [] \<in> set (gr_stacks g')"
  using grammar_language [of g_word 0] g_word_good g_word_ab by (fastforce simp: good_grammar_def)

theorem apply_exact_witness:
  "grammar_apply v_word g_start [\<lparr>td_id = 1, td_logit = 7\<rparr>] =
     Some (if gr_awaiting g_start then [\<lparr>td_id = 1, td_logit = 7\<rparr>]
       else map (\<lambda>d. if token_allowed v_word g_start (td_id d) then d else masked d) [\<lparr>td_id = 1, td_logit = 7\<rparr>])"
  by (rule apply_exact) (use g_start_ok(1) in \<open>simp_all add: grammar_ok_def\<close>)

lemma v_word_a: "gv_piece v_word 1 = [97]" "\<not> gv_is_eog v_word 1" "good_piece v_word 1"
  "gv_piece v_word 2 = [98]" "\<not> gv_is_eog v_word 2" "good_piece v_word 2" "gv_is_eog v_word 0"
  by (simp_all add: v_word_def good_piece_def)

lemma decode_ab: "decode_utf8 [97] \<lparr>pu_value = 0, pu_n_remain = 0\<rparr> = ([97, 0], \<lparr>pu_value = 97, pu_n_remain = 0\<rparr>)"
  "decode_utf8 [98] \<lparr>pu_value = 97, pu_n_remain = 0\<rparr> = ([98, 0], \<lparr>pu_value = 98, pu_n_remain = 0\<rparr>)"
  by code_simp+

lemma v_word_allowed: "token_allowed v_word g_start 1"
proof (rule viable_allowed [OF g_start_ok(1), where w = "[]" and r = 0 and u = "[98]"])
  show "tracks 0 [] g_start" using init_tracks [OF g_word_good g_start_init] by blast
qed (use v_word_a decode_ab(1) g_start_ok(2,3) g_word_ab in auto)

theorem allowed_token_accepted_witness: "\<exists>g'. accept_impl v_word 1 g_start = Some (True, g') \<and> grammar_ok g'"
  using allowed_token_accepted [OF g_start_ok(1), of v_word 1] v_word_allowed v_word_a(1) decode_ab(1) g_start_ok(3) by simp

lemma text_a: "text_of v_word [1] \<lparr>pu_value = 0, pu_n_remain = 0\<rparr> = [97]"
  by code_simp

theorem constrained_output_witness: "\<exists>g'. accept_tokens v_word [1] g_start = Some (Some g') \<and> grammar_ok g'"
proof -
  have "\<forall>t\<in>set [1]. \<not> gv_is_eog v_word t \<and> good_piece v_word t" using v_word_a by simp
  note c = constrained_output [OF g_word_good g_start_init this, unfolded text_a]
  have "\<not> (\<forall>u. u \<noteq> [] \<longrightarrow> \<not> generates g_word 0 ([97] @ u))" using g_word_ab by auto
  with c show ?thesis by (cases "accept_tokens v_word [1] g_start") (auto split: option.splits)
qed

lemma g_accept_a: "\<exists>g. accept_tokens v_word [1] g_start = Some (Some g) \<and> gr_partial g = \<lparr>pu_value = 97, pu_n_remain = 0\<rparr>"
proof -
  obtain stacks where st: "accept_token 1 (gv_piece v_word 1) g_start =
      Some (stacks \<noteq> [], g_start\<lparr>gr_stacks := stacks, gr_partial := \<lparr>pu_value = 97, pu_n_remain = 0\<rparr>\<rparr>)"
    using accept_token_gen [OF g_start_ok(1), of "[97]" "[97, 0]" "\<lparr>pu_value = 97, pu_n_remain = 0\<rparr>" 1] decode_ab(1) g_start_ok(3) v_word_a(1) by auto
  have "\<not> gr_awaiting g_start" using g_start_ok(1) by (simp add: grammar_ok_def)
  then have run: "accept_impl v_word 1 g_start = accept_token 1 (gv_piece v_word 1) g_start"
    using v_word_a(2) by (simp add: accept_impl_def Let_def)
  obtain g' where "accept_impl v_word 1 g_start = Some (True, g')"
    using accept_allowed [OF g_start_ok(1) v_word_allowed] v_word_a(1) decode_ab(1) g_start_ok(3) by auto
  with run st show ?thesis by (simp add: accept_tokens_def)
qed

theorem mask_keeps_words_witness:
  "\<exists>g. accept_tokens v_word [1] g_start = Some (Some g) \<and> grammar_apply v_word g [\<lparr>td_id = 2, td_logit = 7\<rparr>] = Some [\<lparr>td_id = 2, td_logit = 7\<rparr>]"
proof -
  from g_accept_a obtain g where g: "accept_tokens v_word [1] g_start = Some (Some g)" "gr_partial g = \<lparr>pu_value = 97, pu_n_remain = 0\<rparr>" by blast
  have toks: "\<forall>t\<in>set [1]. \<not> gv_is_eog v_word t \<and> good_piece v_word t" using v_word_a by simp
  let ?d = "\<lparr>td_id = 2, td_logit = 7\<rparr> :: token_data"
  have "pu_n_remain (gr_partial g) = 0" using g(2) by simp
  from mask_keeps_words [OF g_word_good g_start_init toks g(1) this, of "[?d]"] obtain data' where
    d: "grammar_apply v_word g [?d] = Some data'" "length data' = 1"
      "\<forall>points part u. decode_utf8 [98] (gr_partial g) = (points, part) \<longrightarrow> pu_n_remain part = 0 \<longrightarrow>
        generates g_word 0 ([97] @ butlast points @ u) \<longrightarrow> data' ! 0 = ?d"
    using v_word_a text_a by (auto simp: Let_def)
  have "data' ! 0 = ?d" using d(3) [rule_format, of "[98, 0]" "\<lparr>pu_value = 98, pu_n_remain = 0\<rparr>" "[]"] decode_ab(2) g(2) g_word_ab by simp
  with d(1,2) g(1) show ?thesis by (cases data') auto
qed

end
