(* ===== verification/GrammarChars.thy ===== *)
theory GrammarChars
  imports GrammarProps
begin

text \<open>Cut characters: which of them the mask lets through, and where its answer differs from its comment.\<close>

lemma meets_exact:
  "low \<le> high \<Longrightarrow> \<forall>(lo, hi)\<in>set rs. lo \<le> hi \<Longrightarrow> meets low high rs \<longleftrightarrow> (\<exists>c. low \<le> c \<and> c \<le> high \<and> in_ranges c rs)"
proof
  assume le: "low \<le> high" and "\<forall>(lo, hi)\<in>set rs. lo \<le> hi" and "meets low high rs"
  then obtain lo hi where r: "(lo, hi) \<in> set rs" "lo \<le> high" "low \<le> hi" "lo \<le> hi" by (auto simp: meets_def)
  with le have "low \<le> max lo low \<and> max lo low \<le> high \<and> lo \<le> max lo low \<and> max lo low \<le> hi" by simp
  with r(1) show "\<exists>c. low \<le> c \<and> c \<le> high \<and> in_ranges c rs"
    unfolding in_ranges_def by (intro exI [of _ "max lo low"] conjI bexI [of _ "(lo, hi)"]) simp_all
qed (auto simp: meets_def in_ranges_def intro: order_trans)

lemma le_or_word: "x \<le> or x y" for x y :: u32
  by (rule le_word_or2)

lemma partial_bounds: "0 \<le> pu_n_remain part \<Longrightarrow> partial_low part \<le> partial_high part"
proof -
  let ?n = "pu_n_remain part" and ?low = "push_bit (nat (pu_n_remain part) * 6) (pu_value part)"
  have "partial_low part = ?low \<or> ?low = 0 \<and> ?n = 2 \<and> partial_low part = 2 ^ 11 \<or> ?low = 0 \<and> ?n = 3 \<and> partial_low part = 2 ^ 16"
    by (auto simp: partial_low_def Let_def)
  moreover have "?low \<le> partial_high part" unfolding partial_high_def by (rule le_or_word)
  moreover have "(2 ^ 11 :: u32) \<le> mask 12" "(2 ^ 16 :: u32) \<le> mask 18" by code_simp+
  ultimately show ?thesis by (auto simp: partial_high_def)
qed

text \<open>C30. For a character cut at the end of a token, a positive class is answered as the comment says: the mask lets
  the token through iff some completion of the character is in the class. An inverse class asks for more: every
  completion must be in it.\<close>

theorem partial_char_exact:
  assumes "wf_rules rules" "elem_at rules p = Some e" "is_class e" "\<forall>(lo, hi)\<in>set (class_at rules p). lo \<le> hi"
    and "0 \<le> pu_n_remain part" "pu_n_remain part = 1 \<longrightarrow> 2 \<le> pu_value part"
  shows "match_partial_char rules p part = Some
    (if is_positive e then \<exists>c. partial_low part \<le> c \<and> c \<le> partial_high part \<and> class_accepts rules p e c
     else \<forall>c. partial_low part \<le> c \<and> c \<le> partial_high part \<longrightarrow> class_accepts rules p e c)"
proof -
  have "\<not> (pu_n_remain part < 0 \<or> pu_n_remain part = 1 \<and> pu_value part < 2)" using assms(5,6) by auto
  then show ?thesis
    using match_partial_run [OF assms(1-3), of part] meets_exact [OF partial_bounds [OF assms(5)] assms(4)]
    by (auto simp: class_accepts_def)
qed

definition g_not :: "grule list" where
  \<comment> \<open>\<open>root ::= [^U+00E9]\<close>\<close>
  "g_not = [[\<lparr>ge_type = GR_CHAR_NOT, ge_value = 0xE9\<rparr>, gend]]"

theorem partial_char_exact_witness:
  "match_partial_char g_not (0, 0) \<lparr>pu_value = 2, pu_n_remain = 1\<rparr> = Some
    (\<forall>c. partial_low \<lparr>pu_value = 2, pu_n_remain = 1\<rparr> \<le> c \<and> c \<le> partial_high \<lparr>pu_value = 2, pu_n_remain = 1\<rparr> \<longrightarrow>
      class_accepts g_not (0, 0) \<lparr>ge_type = GR_CHAR_NOT, ge_value = 0xE9\<rparr> c)"
proof -
  have "wf_rules g_not" "elem_at g_not (0, 0) = Some \<lparr>ge_type = GR_CHAR_NOT, ge_value = 0xE9\<rparr>" "class_at g_not (0, 0) = [(0xE9, 0xE9)]"
    by code_simp+
  then show ?thesis
    using partial_char_exact [of g_not "(0, 0)" "\<lparr>ge_type = GR_CHAR_NOT, ge_value = 0xE9\<rparr>" "\<lparr>pu_value = 2, pu_n_remain = 1\<rparr>"]
    by (simp add: is_class_def is_positive_def)
qed

text \<open>The lead byte \<open>0xC3\<close> can be completed to \<open>U+00C8\<close>, which the class accepts, but the token is masked.\<close>

theorem negated_class_masks:
  "match_partial_char g_not (0, 0) (snd (decode_utf8 [0xC3] \<lparr>pu_value = 0, pu_n_remain = 0\<rparr>)) = Some False \<and>
   fst (decode_utf8 [0xC3, 0x88] \<lparr>pu_value = 0, pu_n_remain = 0\<rparr>) = [0xC8, 0] \<and> match_char g_not (0, 0) 0xC8 = Some (True, (0, 1))"
  by code_simp

text \<open>Bytes that continue a character are checked only where the character goes on in the next token: the same bytes
  in one token decode to another character.\<close>

theorem continuation_unchecked:
  "fst (decode_utf8 [0xC3, 0x28] \<lparr>pu_value = 0, pu_n_remain = 0\<rparr>) = [0xE8, 0] \<and>
   decode_utf8 [0x28] (snd (decode_utf8 [0xC3] \<lparr>pu_value = 0, pu_n_remain = 0\<rparr>)) = ([0], \<lparr>pu_value = 0, pu_n_remain = -1\<rparr>)"
  by code_simp

text \<open>\<open>root ::= "a" <[5]>\<close>, and a token 5 with the piece \<open>ab\<close>: the mask lets the token through, because its rest
  stands before the token element, but accepting it leaves no stack.\<close>

definition g_token :: "grule list" where
  "g_token = [[chr 97, \<lparr>ge_type = GR_TOKEN, ge_value = 5\<rparr>, gend]]"

theorem token_element_mismatch:
  "reject_candidates g_token [[(0, 0)]]
     [\<lparr>gc_index = 0, gc_points = [97, 98, 0], gc_off = 0, gc_partial = \<lparr>pu_value = 98, pu_n_remain = 0\<rparr>, gc_id = 5\<rparr>] = Some [] \<and>
   accept_stack_token g_token 5 [97, 98] [(0, 0)] [] = Some []"
  by code_simp

end
