(* ===== verification/GrammarUtf8.thy ===== *)
theory GrammarUtf8
  imports Grammar
begin

text \<open>
  The decoder of the grammar engine on valid UTF-8: however the bytes are cut into tokens, the code points come
  out as they were encoded by \<open>unicode_cpt_to_utf8\<close>.
\<close>

section \<open>Shape of an encoded code point\<close>

definition enc_cont :: "u32 \<Rightarrow> nat \<Rightarrow> byte" where
  "enc_cont c k = ucast (or 0x80 (take_bit 6 (drop_bit (6 * k) c)))"

primrec conts :: "u32 \<Rightarrow> nat \<Rightarrow> byte list" where
  "conts c 0 = []"
| "conts c (Suc m) = enc_cont c m # conts c m"

lemma length_conts [simp]: "length (conts c m) = m"
  by (induction m) simp_all

lemma drop_conts: "j \<le> m \<Longrightarrow> drop j (conts c m) = conts c (m - j)"
proof (induction m arbitrary: j)
  case (Suc m)
  then show ?case by (cases j) simp_all
qed simp

lemma utf8_len_bits:
  "utf8_len b = (if \<not> bit b 7 then 1 else if \<not> bit b 6 then 0 else if \<not> bit b 5 then 2 else if \<not> bit b 4 then 3 else 4)"
proof -
  let ?k = "unat (drop_bit 4 b)"
  have k: "?k = unat b div 16" using drop_bit_eq_div [of 4 "unat b"] unat_drop_bit_eq [of 4 b] by simp
  have "unat b < 256" using unsigned_less [of b] by simp
  then have "?k < 16" using k by simp
  moreover have "\<forall>k<16. [1, 1, 1, 1, 1, 1, 1, 1, 0, 0, 0, 0, 2, 2, 3, 4] ! k =
      (if \<not> bit k 3 then 1 else if \<not> bit k 2 then 0 else if \<not> bit k 1 then 2 else if \<not> bit k 0 then 3 else (4 :: int))" for k :: nat
    by code_simp
  moreover have "bit ?k i \<longleftrightarrow> bit b (i + 4)" for i by (simp add: bit_simps add.commute)
  ultimately show ?thesis by (simp add: utf8_len_def)
qed

lemma enc_cont_tag: "drop_bit 6 (enc_cont c k) = 2" "cont_byte (enc_cont c k)" "enc_cont c k \<noteq> 0"
proof -
  show c: "cont_byte (enc_cont c k)" by (simp add: enc_cont_def cont_byte_enc)
  then show "enc_cont c k \<noteq> 0" by (auto simp: cont_byte_bits)
  show "drop_bit 6 (enc_cont c k) = 2"
  proof (rule bit_word_eqI)
    fix n assume "n < LENGTH(8)"
    have "bit (2 :: byte) n \<longleftrightarrow> n = 1" using bit_exp_iff [of 1 n] by (auto simp: bit_2_iff)
    then show "bit (drop_bit 6 (enc_cont c k)) n = bit (2 :: byte) n"
    proof (cases "n = 0 \<or> n = 1")
      case True
      with c \<open>bit (2 :: byte) n \<longleftrightarrow> n = 1\<close> show ?thesis by (auto simp: cont_byte_bits bit_drop_bit_eq)
    next
      case False
      then have "\<not> bit (enc_cont c k) (n + 6)" using bit_imp_le_length [of "enc_cont c k" "n + 6"] by auto
      with False \<open>bit (2 :: byte) n \<longleftrightarrow> n = 1\<close> show ?thesis by (simp add: bit_drop_bit_eq add.commute)
    qed
  qed
qed

lemma push_cont: "utf8_push (drop_bit (6 * Suc k) c) (enc_cont c k) = drop_bit (6 * k) c"
proof -
  have low: "ucast (and (enc_cont c k) 0x3F) = take_bit 6 (drop_bit (6 * k) c)"
  proof -
    have "and (enc_cont c k) 0x3F = take_bit 6 (enc_cont c k)" by (simp add: take_bit_eq_mask mask_eq_exp_minus_1)
    then show ?thesis by (intro bit_word_eqI) (auto simp: enc_cont_def bit_simps tag_bits)
  qed
  have "push_bit 6 (drop_bit (6 * Suc k) c) + take_bit 6 (drop_bit (6 * k) c) =
      or (push_bit 6 (drop_bit (6 * Suc k) c)) (take_bit 6 (drop_bit (6 * k) c))"
    by (rule disjunctive_add) (auto simp: bit_simps)
  also have "\<dots> = drop_bit (6 * k) c"
  proof (rule bit_word_eqI)
    fix n assume "n < LENGTH(32)"
    then have "n < 32" by simp
    then show "bit (or (push_bit 6 (drop_bit (6 * Suc k) c)) (take_bit 6 (drop_bit (6 * k) c))) n = bit (drop_bit (6 * k) c) n"
      by (cases "n < 6") (auto simp: bit_simps algebra_simps)
  qed
  finally show ?thesis by (simp add: utf8_push_def low)
qed

lemma enc_shape:
  assumes "cpt_to_utf8 c = Some bs"
  shows "\<exists>b m. bs = b # conts c m \<and> utf8_len b - 1 = int m \<and> ucast (and b (mask (7 - m))) = drop_bit (6 * m) c \<and> m \<le> 3 \<and> (c \<noteq> 0 \<longrightarrow> b \<noteq> 0)"
  using assms
proof (cases rule: cpt_to_utf8_cases)
  case 1
  have hi: "\<not> bit c n" if "7 \<le> n" for n using high_bits [OF 1(1) that] .
  have e: "ucast (and (ucast c :: byte) (mask 7)) = c"
  proof (rule bit_word_eqI)
    fix n show "bit (ucast (and (ucast c :: byte) (mask 7)) :: u32) n = bit c n"
      using hi [of n] by (cases "n < 7") (auto simp: bit_simps)
  qed
  have l: "utf8_len (ucast c) = 1" using hi [of 7] by (simp add: utf8_len_bits bit_simps)
  have z: "c = 0" if "(ucast c :: byte) = 0" using e unfolding that by simp
  have m: "ucast (and (ucast c :: byte) (mask (7 - 0))) = drop_bit (6 * 0) c" unfolding diff_zero mult_0_right e by simp
  show ?thesis
  proof (rule exI [of _ "ucast c"], rule exI [of _ 0], intro conjI)
    show "bs = ucast c # conts c 0" using 1(2) by simp
    show "utf8_len (ucast c) - 1 = int 0" using l by simp
    show "c \<noteq> 0 \<longrightarrow> (ucast c :: byte) \<noteq> 0" using z by blast
  qed (rule m, simp)
next
  case 2
  let ?b = "ucast (or 0xc0 (take_bit 5 (drop_bit 6 c))) :: byte"
  have "utf8_len ?b = 2" by (simp add: utf8_len_bits bit_simps)
  moreover have "ucast (and ?b (mask 6)) = drop_bit 6 c"
  proof (rule bit_word_eqI)
    fix n
    have "\<not> bit c (n + 6)" "\<not> bit c (6 + n)" if "5 \<le> n" using high_bits [OF 2(1), of "n + 6"] that by (simp_all add: add.commute)
    then show "bit (ucast (and ?b (mask 6)) :: u32) n = bit (drop_bit 6 c) n"
      by (cases "n < 5"; cases "n < 6") (auto simp: bit_simps tag_bits)
  qed
  moreover have "?b \<noteq> 0" using \<open>utf8_len ?b = 2\<close> by (auto simp: utf8_len_bits split: if_splits)
  ultimately show ?thesis using 2(2) by (intro exI [of _ ?b] exI [of _ 1]) (simp add: enc_cont_def)
next
  case 3
  let ?b = "ucast (or 0xe0 (take_bit 4 (drop_bit 12 c))) :: byte"
  have "utf8_len ?b = 3" by (simp add: utf8_len_bits bit_simps)
  moreover have "ucast (and ?b (mask 5)) = drop_bit 12 c"
  proof (rule bit_word_eqI)
    fix n
    have "\<not> bit c (n + 12)" "\<not> bit c (12 + n)" if "4 \<le> n" using high_bits [OF 3(1), of "n + 12"] that by (simp_all add: add.commute)
    then show "bit (ucast (and ?b (mask 5)) :: u32) n = bit (drop_bit 12 c) n"
      by (cases "n < 4"; cases "n < 5") (auto simp: bit_simps tag_bits)
  qed
  moreover have "?b \<noteq> 0" using \<open>utf8_len ?b = 3\<close> by (auto simp: utf8_len_bits split: if_splits)
  ultimately show ?thesis using 3(2) by (intro exI [of _ ?b] exI [of _ 2]) (simp add: enc_cont_def numeral_2_eq_2)
next
  case 4
  let ?b = "ucast (or 0xf0 (take_bit 3 (drop_bit 18 c))) :: byte"
  have "utf8_len ?b = 4" by (simp add: utf8_len_bits bit_simps)
  moreover have "ucast (and ?b (mask 4)) = drop_bit 18 c"
  proof (rule bit_word_eqI)
    fix n
    have "\<not> bit c (n + 18)" "\<not> bit c (18 + n)" if "3 \<le> n" using high_bits [OF 4(1), of "n + 18"] that by (simp_all add: add.commute)
    then show "bit (ucast (and ?b (mask 4)) :: u32) n = bit (drop_bit 18 c) n"
      by (cases "n < 3"; cases "n < 4") (auto simp: bit_simps tag_bits)
  qed
  moreover have "?b \<noteq> 0" using \<open>utf8_len ?b = 4\<close> by (auto simp: utf8_len_bits split: if_splits)
  ultimately show ?thesis using 4(2) by (intro exI [of _ ?b] exI [of _ 3]) (simp add: enc_cont_def numeral_3_eq_3)
qed

section \<open>Reading continuation bytes\<close>

lemma rest_conts: "utf8_rest (conts c m @ bs) (drop_bit (6 * m) c) (int m) = (bs, c, 0)"
proof (induction m)
  case (Suc m)
  have "utf8_rest (conts c (Suc m) @ bs) (drop_bit (6 * Suc m) c) (int (Suc m)) = utf8_rest (conts c m @ bs) (drop_bit (6 * m) c) (int m)"
    using push_cont [of m c] by simp
  then show ?case using Suc by simp
qed (cases bs; simp)

lemma rest_cut: "j < m \<Longrightarrow> utf8_rest (take j (conts c m)) (drop_bit (6 * m) c) (int m) = ([], drop_bit (6 * (m - j)) c, int (m - j))"
proof (induction m arbitrary: j)
  case (Suc m)
  show ?case
  proof (cases j)
    case (Suc i)
    then have "utf8_rest (take j (conts c (Suc m))) (drop_bit (6 * Suc m) c) (int (Suc m)) = utf8_rest (take i (conts c m)) (drop_bit (6 * m) c) (int m)"
      using push_cont [of m c] by simp
    then show ?thesis using Suc.IH [of i] Suc.prems Suc by simp
  qed simp
qed simp

lemma continue_conts: "utf8_continue (conts c m @ bs) (drop_bit (6 * m) c) (int m) = Some (bs, c, 0)"
proof (induction m)
  case (Suc m)
  have "utf8_continue (conts c (Suc m) @ bs) (drop_bit (6 * Suc m) c) (int (Suc m)) = utf8_continue (conts c m @ bs) (drop_bit (6 * m) c) (int m)"
    using push_cont [of m c] enc_cont_tag(1) [of c m] by simp
  then show ?case using Suc by simp
qed (cases bs; simp)

lemma continue_cut: "j < m \<Longrightarrow> utf8_continue (take j (conts c m)) (drop_bit (6 * m) c) (int m) = Some ([], drop_bit (6 * (m - j)) c, int (m - j))"
proof (induction m arbitrary: j)
  case (Suc m)
  show ?case
  proof (cases j)
    case (Suc i)
    then have "utf8_continue (take j (conts c (Suc m))) (drop_bit (6 * Suc m) c) (int (Suc m)) = utf8_continue (take i (conts c m)) (drop_bit (6 * m) c) (int m)"
      using push_cont [of m c] enc_cont_tag(1) [of c m] by simp
    then show ?thesis using Suc.IH [of i] Suc.prems Suc by simp
  qed simp
qed simp

section \<open>Texts cut anywhere\<close>

lemma cpts_to_utf8_split:
  "cpts_to_utf8 (c # cps) = Some s \<longleftrightarrow> (\<exists>bs s'. cpt_to_utf8 c = Some bs \<and> cpts_to_utf8 cps = Some s' \<and> s = bs @ s')"
  by (auto simp: cpts_to_utf8_Cons Option.bind_eq_Some_conv)

definition feed_state :: "partial_utf8 \<Rightarrow> byte list \<Rightarrow> u32 list \<Rightarrow> bool" where
  \<comment> \<open>the bytes still to come, behind the cut character if there is one, encode the code points\<close>
  "feed_state part s cps \<longleftrightarrow> 0 \<notin> set cps \<and> (pu_n_remain part = 0 \<and> cpts_to_utf8 cps = Some s \<or>
     (\<exists>c m cps' s'. pu_n_remain part = int m \<and> 0 < m \<and> pu_value part = drop_bit (6 * m) c \<and> cps = c # cps' \<and>
       cpts_to_utf8 cps' = Some s' \<and> s = conts c m @ s'))"

lemma chars_feed:
  "cpts_to_utf8 cps = Some (a @ rest) \<Longrightarrow> 0 \<notin> set cps \<Longrightarrow>
    \<exists>cs cps' part. cps = cs @ cps' \<and> utf8_chars a points v 0 = (points @ cs @ [0], part) \<and> feed_state part rest cps'"
proof (induction cps arbitrary: a points v)
  case Nil
  then show ?case by (auto simp: cpts_to_utf8_def feed_state_def)
next
  case (Cons c cps)
  show ?case
  proof (cases a)
    case Nil
    then show ?thesis using Cons.prems by (intro exI [of _ "[]"] exI [of _ "c # cps"]) (auto simp: feed_state_def)
  next
    case a: (Cons b0 a')
    from Cons.prems(1) obtain bs s' where bs: "cpt_to_utf8 c = Some bs" "cpts_to_utf8 cps = Some s'" "a @ rest = bs @ s'"
      unfolding cpts_to_utf8_split by blast
    from enc_shape [OF bs(1)] obtain b m where b: "bs = b # conts c m" "utf8_len b - 1 = int m"
      "ucast (and b (mask (7 - m))) = drop_bit (6 * m) c" "m \<le> 3" by blast
    have "b0 = b" and split: "a' @ rest = conts c m @ s'" using a b(1) bs(3) by simp_all
    have m7: "nat (7 - int m) = 7 - m" using b(4) by simp
    have run: "utf8_chars a points v 0 = (case utf8_rest a' (drop_bit (6 * m) c) (int m) of (bs', v, n) \<Rightarrow>
        utf8_chars bs' (if n = 0 then points @ [v] else points) v n)"
      using a \<open>b0 = b\<close> b(2,3) m7 by (simp add: Let_def)
    show ?thesis
    proof (cases "m \<le> length a'")
      case True
      then obtain a'' where a'': "a' = conts c m @ a''" using split by (metis append_eq_append_conv_if append_take_drop_id length_conts)
      with split bs(2) have "cpts_to_utf8 cps = Some (a'' @ rest)" by simp
      from Cons.IH [OF this, of "points @ [c]" c] Cons.prems(2) obtain cs cps' part where
        ih: "cps = cs @ cps'" "utf8_chars a'' (points @ [c]) c 0 = ((points @ [c]) @ cs @ [0], part)" "feed_state part rest cps'" by auto
      then show ?thesis unfolding run a'' rest_conts by (intro exI [of _ "c # cs"] exI [of _ cps'] exI [of _ part]) simp
    next
      case False
      let ?j = "length a'"
      have j: "?j < m" using False by simp
      have cut: "a' = take ?j (conts c m)" "rest = conts c (m - ?j) @ s'"
      proof -
        from split have "a' @ rest = (take ?j (conts c m) @ drop ?j (conts c m)) @ s'" by simp
        then have "a' @ rest = take ?j (conts c m) @ (conts c (m - ?j) @ s')" using j drop_conts [of ?j m c] by simp
        moreover have "length (take ?j (conts c m)) = ?j" using j by simp
        ultimately show "a' = take ?j (conts c m)" "rest = conts c (m - ?j) @ s'" by (metis append_eq_append_conv)+
      qed
      let ?part = "\<lparr>pu_value = drop_bit (6 * (m - ?j)) c, pu_n_remain = int (m - ?j)\<rparr>"
      have "utf8_rest a' (drop_bit (6 * m) c) (int m) = ([], drop_bit (6 * (m - ?j)) c, int (m - ?j))"
        using rest_cut [OF j, of c] cut(1) by metis
      then have "utf8_chars a points v 0 = (points @ [] @ [0], ?part)" unfolding run using j by simp
      moreover have "feed_state ?part rest (c # cps)"
        unfolding feed_state_def using Cons.prems(2) j cut(2) bs(2)
        by (intro conjI disjI2 exI [of _ c] exI [of _ "m - ?j"] exI [of _ cps] exI [of _ s']) auto
      ultimately show ?thesis by (intro exI [of _ "[]"] exI [of _ "c # cps"] exI [of _ ?part]) simp
    qed
  qed
qed

lemma enc_no_zero: "cpts_to_utf8 cps = Some s \<Longrightarrow> 0 \<notin> set cps \<Longrightarrow> 0 \<notin> set s"
proof (induction cps arbitrary: s)
  case (Cons c cps)
  from Cons.prems(1) obtain bs s' where bs: "cpt_to_utf8 c = Some bs" "cpts_to_utf8 cps = Some s'" "s = bs @ s'"
    unfolding cpts_to_utf8_split by blast
  have conts: "0 \<notin> set (conts c m)" for m by (induction m) (use enc_cont_tag(3) in \<open>auto dest: sym\<close>)
  from enc_shape [OF bs(1)] obtain b m where "bs = b # conts c m" "c \<noteq> 0 \<longrightarrow> b \<noteq> 0" by blast
  then show ?case using Cons.IH [OF bs(2)] Cons.prems(2) bs(3) conts by auto
qed (simp add: cpts_to_utf8_def)

lemma decode_feed:
  assumes st: "feed_state part (a @ rest) cps"
  shows "\<exists>cs cps' part'. cps = cs @ cps' \<and> decode_utf8 a part = (cs @ [0], part') \<and> feed_state part' rest cps'"
proof -
  have nz: "0 \<notin> set cps" using st by (simp add: feed_state_def)
  have conts: "0 \<notin> set (conts c m)" for c m by (induction m) (use enc_cont_tag(3) in \<open>auto dest: sym\<close>)
  have src: "takeWhile (\<lambda>b. b \<noteq> 0) a = a"
  proof -
    have "0 \<notin> set (a @ rest)" using st conts enc_no_zero unfolding feed_state_def by fastforce
    then show ?thesis by (auto simp: takeWhile_eq_all_conv)
  qed
  from st consider (whole) "pu_n_remain part = 0" "cpts_to_utf8 cps = Some (a @ rest)"
    | (cut) c m cps' s' where "pu_n_remain part = int m" "0 < m" "pu_value part = drop_bit (6 * m) c" "cps = c # cps'"
        "cpts_to_utf8 cps' = Some s'" "a @ rest = conts c m @ s'"
    unfolding feed_state_def by blast
  then show ?thesis
  proof cases
    case whole
    have "decode_utf8 a part = utf8_chars a [] (pu_value part) 0" using whole(1) src by (cases a) (simp_all add: decode_utf8_def)
    with chars_feed [OF whole(2) nz, of "[]" "pu_value part"] show ?thesis by auto
  next
    case cut
    show ?thesis
    proof (cases "m \<le> length a")
      case True
      then obtain a' where a': "a = conts c m @ a'" using cut(6) by (metis append_eq_append_conv_if append_take_drop_id length_conts)
      then have "cpts_to_utf8 cps' = Some (a' @ rest)" using cut(5,6) by simp
      from chars_feed [OF this, of "[c]" c] nz cut(4) obtain cs cps'' part' where
        r: "cps' = cs @ cps''" "utf8_chars a' [c] c 0 = ([c] @ cs @ [0], part')" "feed_state part' rest cps''" by auto
      have "decode_utf8 a part = utf8_chars a' [c] c 0"
        using continue_conts [of c m a'] cut(1-3) src unfolding decode_utf8_def src by (simp add: a')
      with r cut(4) show ?thesis by (intro exI [of _ "c # cs"] exI [of _ cps''] exI [of _ part']) simp
    next
      case False
      let ?j = "length a"
      have j: "?j < m" using False by simp
      have sp: "a = take ?j (conts c m)" "rest = conts c (m - ?j) @ s'"
      proof -
        from cut(6) have "a @ rest = (take ?j (conts c m) @ drop ?j (conts c m)) @ s'" by simp
        then have "a @ rest = take ?j (conts c m) @ (conts c (m - ?j) @ s')" using j drop_conts [of ?j m c] by simp
        moreover have "length (take ?j (conts c m)) = ?j" using j by simp
        ultimately show "a = take ?j (conts c m)" "rest = conts c (m - ?j) @ s'" by (metis append_eq_append_conv)+
      qed
      let ?part = "\<lparr>pu_value = drop_bit (6 * (m - ?j)) c, pu_n_remain = int (m - ?j)\<rparr>"
      have "utf8_continue a (drop_bit (6 * m) c) (int m) = Some ([], drop_bit (6 * (m - ?j)) c, int (m - ?j))"
        using continue_cut [OF j, of c] sp(1) by metis
      then have "decode_utf8 a part = ([] @ [0], ?part)" using cut(1,3) j unfolding decode_utf8_def src by simp
      moreover have "feed_state ?part rest cps"
        unfolding feed_state_def using nz j sp(2) cut(4,5)
        by (intro conjI disjI2 exI [of _ c] exI [of _ "m - ?j"] exI [of _ cps'] exI [of _ s']) auto
      ultimately show ?thesis by (intro exI [of _ "[]"] exI [of _ cps] exI [of _ ?part]) simp
    qed
  qed
qed

fun decode_pieces :: "byte list list \<Rightarrow> partial_utf8 \<Rightarrow> u32 list \<times> partial_utf8" where
  \<comment> \<open>one piece after the other, each with the state the previous one left\<close>
  "decode_pieces [] part = ([], part)"
| "decode_pieces (p # ps) part = (case decode_utf8 p part of (points, part) \<Rightarrow>
     case decode_pieces ps part of (points', part) \<Rightarrow> (butlast points @ points', part))"

lemma decode_pieces_run:
  "feed_state part (concat ps) cps \<Longrightarrow> fst (decode_pieces ps part) = cps \<and> pu_n_remain (snd (decode_pieces ps part)) = 0"
proof (induction ps arbitrary: part cps)
  case Nil
  then have "cps = [] \<and> pu_n_remain part = 0"
  proof -
    have "conts c m @ s' = [] \<Longrightarrow> m = 0" for c m s' by (cases m) simp_all
    moreover have "cpts_to_utf8 cps = Some [] \<Longrightarrow> cps = []"
    proof (cases cps)
      case (Cons c cps')
      moreover assume "cpts_to_utf8 cps = Some []"
      ultimately show ?thesis using enc_shape by (fastforce simp: cpts_to_utf8_split)
    qed simp
    ultimately show ?thesis using Nil unfolding feed_state_def by (metis concat.simps(1) less_not_refl)
  qed
  then show ?case by simp
next
  case (Cons p ps)
  then have "feed_state part (p @ concat ps) cps" by simp
  from decode_feed [OF this] obtain cs cps' part' where
    "cps = cs @ cps'" "decode_utf8 p part = (cs @ [0], part')" "feed_state part' (concat ps) cps'" by blast
  with Cons.IH [of part' cps'] show ?case by (auto split: prod.split)
qed

text \<open>C40. Encoding and decoding: a text of code points encoded one by one by \<open>unicode_cpt_to_utf8\<close> is decoded to the same
  code points by \<open>unicode_cpts_from_utf8\<close>, and, without zeros, by the decoder of the grammar however the bytes
  are cut into tokens.\<close>

theorem utf8_roundtrip:
  assumes "cpts_to_utf8 cps = Some s"
  shows "cpts_from_utf8 s = Some cps \<and> (\<forall>ps. concat ps = s \<and> 0 \<notin> set cps \<longrightarrow>
    fst (decode_pieces ps \<lparr>pu_value = 0, pu_n_remain = 0\<rparr>) = cps \<and> pu_n_remain (snd (decode_pieces ps \<lparr>pu_value = 0, pu_n_remain = 0\<rparr>)) = 0)"
  using cpts_from_to [OF assms] decode_pieces_run [of "\<lparr>pu_value = 0, pu_n_remain = 0\<rparr>" _ cps] assms by (auto simp: feed_state_def)

theorem utf8_roundtrip_witness:
  "cpts_from_utf8 [0x61, 0xE2, 0x82, 0xAC] = Some [0x61, 0x20AC] \<and>
   fst (decode_pieces [[0x61, 0xE2], [0x82], [0xAC]] \<lparr>pu_value = 0, pu_n_remain = 0\<rparr>) = [0x61, 0x20AC]"
proof -
  have "cpts_to_utf8 [0x61, 0x20AC] = Some [0x61, 0xE2, 0x82, 0xAC]" by code_simp
  note r = utf8_roundtrip [OF this]
  from r [THEN conjunct2, rule_format, of "[[0x61, 0xE2], [0x82], [0xAC]]"] r show ?thesis by simp
qed

end
