(* ===== verification/GrammarParse.thy ===== *)
theory GrammarParse
  imports Grammar
begin

text \<open>
  The parser of GBNF texts (\<open>llama_grammar_parser\<close> of \<open>llama-grammar.cpp\<close>) and the constructor that uses it. A
  position in the C string is the list of the bytes up to the terminating zero; an exception is \<open>Inl\<close>. The
  recursion has fuel, \<open>None\<close> is its end (or a failed \<open>GGML_ASSERT\<close>). The tokenizer of the vocabulary is a parameter.
\<close>

section \<open>Results\<close>

datatype parse_error = Expecting_hex | Expecting_name | Expecting_int | Unknown_escape | End_of_input | Expecting_less |
  Expecting_bracket | Expecting_greater | No_vocab | Invalid_token | Out_of_range | Expecting_item | Too_many_rules |
  Expecting_paren | Expecting_brace | Expecting_comma | Too_many_repetitions | Expecting_define | Expecting_newline |
  Undefined_rule | Undefined_identifier

type_synonym 'a parsed = "parse_error + 'a"

definition sbind :: "'a parsed \<Rightarrow> ('a \<Rightarrow> 'b parsed) \<Rightarrow> 'b parsed" where
  "sbind r f = (case r of Inl e \<Rightarrow> Inl e | Inr x \<Rightarrow> f x)"

definition pbind :: "'a parsed option \<Rightarrow> ('a \<Rightarrow> 'b parsed option) \<Rightarrow> 'b parsed option" where
  "pbind r f = (case r of None \<Rightarrow> None | Some (Inl e) \<Rightarrow> Some (Inl e) | Some (Inr x) \<Rightarrow> f x)"

definition peek :: "byte list \<Rightarrow> byte" where
  "peek s = (case s of [] \<Rightarrow> 0 | c # _ \<Rightarrow> c)"

section \<open>Characters\<close>

definition is_digit_char :: "byte \<Rightarrow> bool" where
  "is_digit_char c \<longleftrightarrow> 48 \<le> c \<and> c \<le> 57"

definition is_word_char :: "byte \<Rightarrow> bool" where
  "is_word_char c \<longleftrightarrow> 97 \<le> c \<and> c \<le> 122 \<or> 65 \<le> c \<and> c \<le> 90 \<or> c = 45 \<or> is_digit_char c"

definition decode_char :: "byte list \<Rightarrow> u32 \<times> byte list" where
  \<comment> \<open>the overload of \<open>decode_utf8\<close> for one character\<close>
  "decode_char s = (case s of
     [] \<Rightarrow> (0, [])
   | b # bs \<Rightarrow>
       let len = [1, 1, 1, 1, 1, 1, 1, 1, 1, 1, 1, 1, 2, 2, 3, 4] ! unat (drop_bit 4 b) in
       (fold (\<lambda>c v. utf8_push v c) (take (len - 1) bs) (ucast (and b (mask (8 - len)))), drop (len - 1) bs))"

definition hex_value :: "byte \<Rightarrow> u32 option" where
  "hex_value c =
     (if 97 \<le> c \<and> c \<le> 102 then Some (ucast c - 97 + 10)
      else if 65 \<le> c \<and> c \<le> 70 then Some (ucast c - 65 + 10)
      else if 48 \<le> c \<and> c \<le> 57 then Some (ucast c - 48)
      else None)"

fun hex_loop :: "byte list \<Rightarrow> nat \<Rightarrow> u32 \<Rightarrow> u32 \<times> nat \<times> byte list" where
  \<comment> \<open>with how many characters are missing\<close>
  "hex_loop s 0 v = (v, 0, s)"
| "hex_loop [] (Suc n) v = (v, Suc n, [])"
| "hex_loop (c # cs) (Suc n) v = (case hex_value c of None \<Rightarrow> (push_bit 4 v, Suc n, c # cs) | Some d \<Rightarrow> hex_loop cs n (push_bit 4 v + d))"

definition parse_hex :: "byte list \<Rightarrow> nat \<Rightarrow> (u32 \<times> byte list) parsed" where
  "parse_hex s n = (case hex_loop s n 0 of (v, k, rest) \<Rightarrow> if k \<noteq> 0 then Inl Expecting_hex else Inr (v, rest))"

function parse_space :: "bool \<Rightarrow> byte list \<Rightarrow> byte list" where
  "parse_space newline_ok s = (case s of
     [] \<Rightarrow> []
   | c # cs \<Rightarrow>
       if c = 32 \<or> c = 9 \<or> c = 35 \<or> newline_ok \<and> (c = 13 \<or> c = 10) then
         (if c = 35 then parse_space newline_ok (dropWhile (\<lambda>c. c \<noteq> 13 \<and> c \<noteq> 10) cs) else parse_space newline_ok cs)
       else s)"
  by pat_completeness auto
termination by (relation "measure (\<lambda>(n, s). length s)") (auto simp: le_imp_less_Suc length_dropWhile_le)

declare parse_space.simps [simp del]

definition parse_name :: "byte list \<Rightarrow> (byte list \<times> byte list) parsed" where
  "parse_name s = (let name = takeWhile is_word_char s in if name = [] then Inl Expecting_name else Inr (name, dropWhile is_word_char s))"

definition parse_int :: "byte list \<Rightarrow> (byte list \<times> byte list) parsed" where
  "parse_int s = (let ds = takeWhile is_digit_char s in if ds = [] then Inl Expecting_int else Inr (ds, dropWhile is_digit_char s))"

type_synonym u64 = "64 word"

definition stoull :: "byte list \<Rightarrow> u64 parsed" where
  \<comment> \<open>\<open>std::stoul\<close> and \<open>std::stoull\<close> on digits, with 64 bits\<close>
  "stoull ds = (let n = fold (\<lambda>d v. 10 * v + (uint d - 48)) ds 0 in
     if n < 18446744073709551616 then Inr (word_of_int n) else Inl Out_of_range)"

definition parse_char :: "byte list \<Rightarrow> (u32 \<times> byte list) parsed" where
  "parse_char s = (case s of
     [] \<Rightarrow> Inl End_of_input
   | c # cs \<Rightarrow>
       if c = 92 then
         (let d = peek cs; rest = tl cs in
          if d = 120 then parse_hex rest 2
          else if d = 117 then parse_hex rest 4
          else if d = 85 then parse_hex rest 8
          else if d = 116 then Inr (9, rest)
          else if d = 114 then Inr (13, rest)
          else if d = 110 then Inr (10, rest)
          else if d \<in> {92, 34, 91, 93, 45} then Inr (ucast d, rest)
          else Inl Unknown_escape)
       else Inr (decode_char s))"

type_synonym parse_vocab = "(byte list \<Rightarrow> token_id list) option"

definition parse_token :: "parse_vocab \<Rightarrow> byte list \<Rightarrow> (u32 \<times> byte list) parsed" where
  "parse_token vocab s =
     (if peek s \<noteq> 60 then Inl Expecting_less
      else if peek (tl s) = 91 then
        sbind (parse_int (tl (tl s))) (\<lambda>(ds, pos).
        sbind (stoull ds) (\<lambda>n.
          if peek pos \<noteq> 93 then Inl Expecting_bracket
          else if peek (tl pos) \<noteq> 62 then Inl Expecting_greater
          else Inr (ucast n, tl (tl pos))))
      else (case vocab of
          None \<Rightarrow> Inl No_vocab
        | Some tokenize \<Rightarrow>
            let pos = dropWhile (\<lambda>c. c \<noteq> 62) (tl s) in
            if pos = [] then Inl Expecting_greater
            else (case tokenize (take (length s - length (tl pos)) s) of
                [t] \<Rightarrow> Inr (word_of_int t, tl pos)
              | _ \<Rightarrow> Inl Invalid_token)))"

section \<open>Symbols and rules\<close>

record gparser =
  gp_symbols :: "(byte list \<times> u32) list"  \<comment> \<open>the map \<open>symbol_ids\<close>, in the order of insertion\<close>
  gp_rules :: "grule list"

definition next_symbol :: "gparser \<Rightarrow> u32" where
  "next_symbol st = of_nat (length (gp_symbols st))"

definition symbol_put :: "byte list \<Rightarrow> u32 \<Rightarrow> (byte list \<times> u32) list \<Rightarrow> (byte list \<times> u32) list" where
  "symbol_put k v syms = (if k \<in> fst ` set syms then map (\<lambda>(k', v'). (k', if k' = k then v else v')) syms else syms @ [(k, v)])"

definition get_symbol_id :: "byte list \<Rightarrow> gparser \<Rightarrow> u32 \<times> gparser" where
  "get_symbol_id name st = (case map_of (gp_symbols st) name of
     Some v \<Rightarrow> (v, st)
   | None \<Rightarrow> (next_symbol st, st\<lparr>gp_symbols := gp_symbols st @ [(name, next_symbol st)]\<rparr>))"

fun nat_digits :: "nat \<Rightarrow> byte list" where
  \<comment> \<open>\<open>std::to_string\<close>\<close>
  "nat_digits n = (if n < 10 then [of_nat (48 + n)] else nat_digits (n div 10) @ [of_nat (48 + n mod 10)])"

declare nat_digits.simps [simp del]

definition generate_symbol_id :: "byte list \<Rightarrow> gparser \<Rightarrow> u32 \<times> gparser" where
  "generate_symbol_id base st = (let k = base @ [95] @ nat_digits (unat (next_symbol st)) in
     (next_symbol st, st\<lparr>gp_symbols := symbol_put k (next_symbol st) (gp_symbols st)\<rparr>))"

definition add_rule :: "u32 \<Rightarrow> grule \<Rightarrow> gparser \<Rightarrow> gparser" where
  "add_rule i rule st = (let rules = gp_rules st; rules = (if length rules \<le> unat i then resize_list (unat i + 1) [] rules else rules) in
     st\<lparr>gp_rules := rules[unat i := rule]\<rparr>)"

abbreviation elem :: "gretype \<Rightarrow> u32 \<Rightarrow> gelem" where
  "elem t v \<equiv> \<lparr>ge_type = t, ge_value = v\<rparr>"

section \<open>Repetitions\<close>

definition UINT64_MAX :: u64 where
  "UINT64_MAX = -1"

definition MAX_REPETITION_THRESHOLD :: u64 where
  "MAX_REPETITION_THRESHOLD = 2000"

record seq_state =
  sq_rule :: grule
  sq_last :: nat  \<comment> \<open>\<open>last_sym_start\<close>\<close>
  sq_prev :: u64  \<comment> \<open>\<open>n_prev_rules\<close>\<close>

definition total_rules :: "u64 \<Rightarrow> u64 \<Rightarrow> u64" where
  "total_rules min_times max_times =
     (if max_times \<noteq> UINT64_MAX \<and> max_times > 0 then max_times else if min_times > 0 then min_times else 1)"

definition n_optional :: "u64 \<Rightarrow> u64 \<Rightarrow> u64" where
  "n_optional min_times max_times = (if max_times = UINT64_MAX then 1 else max_times - min_times)"

definition rec_rule :: "grule \<Rightarrow> u32 option \<Rightarrow> grule" where
  "rec_rule prev r = prev @ (case r of None \<Rightarrow> [] | Some i \<Rightarrow> [elem GR_RULE_REF i]) @ [elem GR_ALT 0, elem GR_END 0]"

fun optional_rules :: "byte list \<Rightarrow> grule \<Rightarrow> bool \<Rightarrow> nat \<Rightarrow> u32 option \<Rightarrow> gparser \<Rightarrow> u32 option \<times> gparser" where
  \<comment> \<open>so many rules, each an optional occurrence and the rule before; the last identifier\<close>
  "optional_rules name prev no_max 0 r st = (r, st)"
| "optional_rules name prev no_max (Suc n) r st =
     (case generate_symbol_id name st of (i, st) \<Rightarrow>
       optional_rules name prev no_max n (Some i) (add_rule i (rec_rule prev (if no_max then Some i else r)) st))"

definition handle_repetitions ::
  "byte list \<Rightarrow> u64 \<Rightarrow> u64 \<Rightarrow> seq_state \<Rightarrow> gparser \<Rightarrow> (seq_state \<times> gparser) parsed option" where
  "handle_repetitions name min_times max_times q st =
     (let rule = sq_rule q; n = sq_prev q * total_rules min_times max_times in
      if sq_last q = length rule then Some (Inl Expecting_item)
      else if n \<ge> MAX_REPETITION_THRESHOLD then Some (Inl Too_many_rules)
      else
        (let prev = drop (sq_last q) rule;
             rule = (if min_times = 0 then take (sq_last q) rule else rule @ concat (replicate (unat (min_times - 1)) prev))
         in case optional_rules name prev (max_times = UINT64_MAX) (unat (n_optional min_times max_times)) None st of (r, st) \<Rightarrow> do {
              assert_that (n \<ge> 1);
              Some (Inr (q\<lparr>sq_rule := rule @ (case r of None \<Rightarrow> [] | Some i \<Rightarrow> [elem GR_RULE_REF i]), sq_prev := n\<rparr>, st))
            }))"

definition parse_bounds :: "bool \<Rightarrow> byte list \<Rightarrow> (u64 \<times> u64 \<times> byte list) parsed" where
  \<comment> \<open>behind the opening brace\<close>
  "parse_bounds nested s = (let pos = parse_space nested s in
     sbind (parse_int pos) (\<lambda>(ds, pos).
     sbind (stoull ds) (\<lambda>min_times.
     let pos = parse_space nested pos in
     sbind
       (if peek pos = 125 then Inr (min_times, parse_space nested (tl pos))
        else if peek pos = 44 then
          (let pos = parse_space nested (tl pos) in
           sbind
             (if is_digit_char (peek pos) then
                sbind (parse_int pos) (\<lambda>(ds, pos). sbind (stoull ds) (\<lambda>m. Inr (m, parse_space nested pos)))
              else Inr (UINT64_MAX, pos))
             (\<lambda>(max_times, pos). if peek pos \<noteq> 125 then Inl Expecting_brace else Inr (max_times, parse_space nested (tl pos))))
        else Inl Expecting_comma)
       (\<lambda>(max_times, pos).
         if min_times > MAX_REPETITION_THRESHOLD then Inl Too_many_repetitions
         else Inr (min_times, if max_times \<noteq> UINT64_MAX \<and> max_times > MAX_REPETITION_THRESHOLD then UINT64_MAX else max_times, pos)))))"

section \<open>Sequences and alternates\<close>

lemma hex_loop_shorter: "length (snd (snd (hex_loop s n v))) \<le> length s"
  by (induction s n v rule: hex_loop.induct) (auto split: option.splits)

lemma parse_char_shorter: "parse_char s = Inr (v, r) \<Longrightarrow> length r < length s"
proof -
  assume p: "parse_char s = Inr (v, r)"
  have hex: "length r \<le> length t" if "parse_hex t n = Inr (v, r)" for t n
    using hex_loop_shorter [of t n 0] that by (auto simp: parse_hex_def split: prod.splits if_splits)
  show ?thesis
    using p hex [of "tl (tl s)"] by (cases s; cases "tl s") (force simp: parse_char_def decode_char_def Let_def peek_def split: if_splits)+
qed

function literal_loop :: "byte list \<Rightarrow> grule \<Rightarrow> (byte list \<times> grule) parsed" where
  \<comment> \<open>to the closing quote\<close>
  "literal_loop s rule = (case s of
     [] \<Rightarrow> Inl End_of_input
   | c # cs \<Rightarrow>
       if c = 34 then Inr (cs, rule)
       else (case parse_char s of
           Inl e \<Rightarrow> Inl e
         | Inr (v, r) \<Rightarrow> literal_loop r (rule @ [elem GR_CHAR v])))"
  by pat_completeness auto
termination by (relation "measure (\<lambda>(s, rule). length s)") (auto dest: parse_char_shorter)

function class_loop :: "gretype \<Rightarrow> nat \<Rightarrow> byte list \<Rightarrow> grule \<Rightarrow> (byte list \<times> grule) parsed" where
  \<comment> \<open>to the closing bracket\<close>
  "class_loop start_type last_sym s rule = (case s of
     [] \<Rightarrow> Inl End_of_input
   | c # cs \<Rightarrow>
       if c = 93 then Inr (cs, rule)
       else (case parse_char s of
           Inl e \<Rightarrow> Inl e
         | Inr (v, r) \<Rightarrow>
             (let rule = rule @ [elem (if last_sym < length rule then GR_CHAR_ALT else start_type) v] in
              if peek r = 45 \<and> peek (tl r) \<noteq> 93 then
                (if tl r = [] then Inl End_of_input
                 else (case parse_char (tl r) of
                     Inl e \<Rightarrow> Inl e
                   | Inr (v, r) \<Rightarrow> class_loop start_type last_sym r (rule @ [elem GR_CHAR_RNG_UPPER v])))
              else class_loop start_type last_sym r rule)))"
  by pat_completeness auto
termination by (relation "measure (\<lambda>(t, l, s, rule). length s)") (auto dest!: parse_char_shorter)

declare literal_loop.simps [simp del] class_loop.simps [simp del]

definition seq_item ::
  "parse_vocab \<Rightarrow> byte list \<Rightarrow> bool \<Rightarrow> byte \<Rightarrow> byte list \<Rightarrow> seq_state \<Rightarrow> gparser \<Rightarrow>
    (byte list \<times> seq_state \<times> gparser) parsed option option" where
  \<comment> \<open>one round of the loop for everything but a group; outermost no value: the loop ends\<close>
  "seq_item vocab name nested c cs q st = (let rule = sq_rule q; q1 = q\<lparr>sq_last := length rule, sq_prev := 1\<rparr> in
     if c = 34 then
       Some (Some (sbind (literal_loop cs rule) (\<lambda>(s, rule). Inr (parse_space nested s, q1\<lparr>sq_rule := rule\<rparr>, st))))
     else if c = 91 then
       (let neg = peek cs = 94 in
        Some (Some (sbind (class_loop (if neg then GR_CHAR_NOT else GR_CHAR) (length rule) (if neg then tl cs else cs) rule)
          (\<lambda>(s, rule). Inr (parse_space nested s, q1\<lparr>sq_rule := rule\<rparr>, st)))))
     else if c = 60 \<or> c = 33 then
       Some (Some (sbind (parse_token vocab (if c = 33 then cs else c # cs))
         (\<lambda>(t, s). Inr (parse_space nested s, q1\<lparr>sq_rule := rule @ [elem (if c = 33 then GR_TOKEN_NOT else GR_TOKEN) t]\<rparr>, st))))
     else if is_word_char c then
       Some (Some (sbind (parse_name (c # cs)) (\<lambda>(ref, s). case get_symbol_id ref st of (i, st) \<Rightarrow>
         Inr (parse_space nested s, q1\<lparr>sq_rule := rule @ [elem GR_RULE_REF i]\<rparr>, st))))
     else if c = 46 then Some (Some (Inr (parse_space nested cs, q1\<lparr>sq_rule := rule @ [elem GR_CHAR_ANY 0]\<rparr>, st)))
     else if c = 42 \<or> c = 43 \<or> c = 63 then
       Some (pbind (handle_repetitions name (if c = 43 then 1 else 0) (if c = 63 then 1 else UINT64_MAX) q st)
         (\<lambda>(q, st). Some (Inr (parse_space nested cs, q, st))))
     else if c = 123 then
       Some (pbind (Some (parse_bounds nested cs)) (\<lambda>(min_times, max_times, s).
         pbind (handle_repetitions name min_times max_times q st) (\<lambda>(q, st). Some (Inr (s, q, st)))))
     else None)"

function parse_alternates ::
    "nat \<Rightarrow> parse_vocab \<Rightarrow> byte list \<Rightarrow> u32 \<Rightarrow> bool \<Rightarrow> byte list \<Rightarrow> gparser \<Rightarrow> (byte list \<times> gparser) parsed option"
  and alternates_loop ::
    "nat \<Rightarrow> parse_vocab \<Rightarrow> byte list \<Rightarrow> u32 \<Rightarrow> bool \<Rightarrow> byte list \<Rightarrow> grule \<Rightarrow> gparser \<Rightarrow> (byte list \<times> gparser) parsed option"
  and seq_loop ::
    "nat \<Rightarrow> parse_vocab \<Rightarrow> byte list \<Rightarrow> bool \<Rightarrow> byte list \<Rightarrow> seq_state \<Rightarrow> gparser \<Rightarrow> (byte list \<times> grule \<times> gparser) parsed option" where
  "parse_alternates 0 vocab name i nested s st = None"
| "parse_alternates (Suc n) vocab name i nested s st =
     pbind (seq_loop n vocab name nested s \<lparr>sq_rule = [], sq_last = 0, sq_prev = 1\<rparr> st)
       (\<lambda>(s, rule, st). alternates_loop n vocab name i nested s rule st)"
| "alternates_loop 0 vocab name i nested s rule st = None"
| "alternates_loop (Suc n) vocab name i nested s rule st =
     (if peek s = 124 then
        (let rule = rule @ [elem GR_ALT 0] in
         pbind (seq_loop n vocab name nested (parse_space True (tl s)) \<lparr>sq_rule = rule, sq_last = length rule, sq_prev = 1\<rparr> st)
           (\<lambda>(s, rule, st). alternates_loop n vocab name i nested s rule st))
      else Some (Inr (s, add_rule i (rule @ [elem GR_END 0]) st)))"
| "seq_loop 0 vocab name nested s q st = None"
| "seq_loop (Suc n) vocab name nested s q st = (case s of
     [] \<Rightarrow> Some (Inr (s, sq_rule q, st))
   | c # cs \<Rightarrow>
       if c = 40 then
         (let n_before = next_symbol st in
          case generate_symbol_id name st of (i, st) \<Rightarrow>
          pbind (parse_alternates n vocab name i True (parse_space True cs) st) (\<lambda>(s, st).
            if peek s \<noteq> 41 then Some (Inl Expecting_paren)
            else seq_loop n vocab name nested (parse_space nested (tl s))
              \<lparr>sq_rule = sq_rule q @ [elem GR_RULE_REF i], sq_last = length (sq_rule q), sq_prev = ucast (max 1 (next_symbol st - n_before))\<rparr> st))
       else (case seq_item vocab name nested c cs q st of
           None \<Rightarrow> Some (Inr (s, sq_rule q, st))
         | Some r \<Rightarrow> pbind r (\<lambda>(s, q, st). seq_loop n vocab name nested s q st)))"
  by pat_completeness auto
termination
  by (relation "measure (\<lambda>x. case x of Inl (n, _) \<Rightarrow> n | Inr (Inl (n, _)) \<Rightarrow> n | Inr (Inr (n, _)) \<Rightarrow> n)") auto

section \<open>The whole text\<close>

definition parse_rule :: "nat \<Rightarrow> parse_vocab \<Rightarrow> byte list \<Rightarrow> gparser \<Rightarrow> (byte list \<times> gparser) parsed option" where
  "parse_rule n vocab s st =
     pbind (Some (parse_name s)) (\<lambda>(name, pos).
     let pos = parse_space False pos in
     case get_symbol_id name st of (i, st) \<Rightarrow>
       if take 3 pos \<noteq> [58, 58, 61] then Some (Inl Expecting_define)
       else pbind (parse_alternates n vocab name i False (parse_space True (drop 3 pos)) st) (\<lambda>(pos, st).
         if peek pos = 13 then Some (Inr (parse_space True (if peek (tl pos) = 10 then tl (tl pos) else tl pos), st))
         else if peek pos = 10 then Some (Inr (parse_space True (tl pos), st))
         else if pos \<noteq> [] then Some (Inl Expecting_newline)
         else Some (Inr (parse_space True pos, st))))"

fun parse_rules :: "nat \<Rightarrow> parse_vocab \<Rightarrow> byte list \<Rightarrow> gparser \<Rightarrow> gparser parsed option" where
  "parse_rules 0 vocab s st = None"
| "parse_rules (Suc n) vocab s st =
     (if s = [] then Some (Inr st) else pbind (parse_rule n vocab s st) (\<lambda>(s, st). parse_rules n vocab s st))"

definition undefined_ref :: "gparser \<Rightarrow> gelem \<Rightarrow> bool" where
  \<comment> \<open>a reference to a missing rule whose name is known\<close>
  "undefined_ref st e \<longleftrightarrow> ge_type e = GR_RULE_REF \<and>
     (unat (ge_value e) \<ge> length (gp_rules st) \<or> gp_rules st ! unat (ge_value e) = []) \<and> ge_value e \<in> snd ` set (gp_symbols st)"

definition validate :: "gparser \<Rightarrow> gparser parsed" where
  "validate st =
     (case List.find (\<lambda>rule. rule = [] \<or> list_ex (undefined_ref st) rule) (gp_rules st) of
        None \<Rightarrow> Inr st
      | Some rule \<Rightarrow> Inl (if rule = [] then Undefined_rule else Undefined_identifier))"

definition parse_fuel :: "byte list \<Rightarrow> nat" where
  "parse_fuel s = 2 * length s + 2"

definition parse_grammar :: "parse_vocab \<Rightarrow> byte list \<Rightarrow> gparser parsed option" where
  \<comment> \<open>\<open>parse\<close>: an exception is caught, the rules are cleared and the answer is false\<close>
  "parse_grammar vocab src = (let s = takeWhile (\<lambda>c. c \<noteq> 0) src in
     pbind (parse_rules (parse_fuel s) vocab (parse_space True s) \<lparr>gp_symbols = [], gp_rules = []\<rparr>) (\<lambda>st. Some (validate st)))"

definition grammar_init_str ::
  "parse_vocab \<Rightarrow> byte list \<Rightarrow> byte list \<Rightarrow> bool \<Rightarrow> (byte list \<Rightarrow> nat option) list \<Rightarrow> token_id list \<Rightarrow> grammar option option" where
  \<comment> \<open>from a text and the name of the start rule; \<open>Some None\<close> is the null pointer of a rejected grammar\<close>
  "grammar_init_str vocab src root lazy patterns tokens = do {
     r \<leftarrow> parse_grammar vocab src;
     (case r of
        Inl e \<Rightarrow> Some None
      | Inr st \<Rightarrow>
          if gp_rules st = [] then Some None
          else (case map_of (gp_symbols st) root of
              None \<Rightarrow> Some None
            | Some start \<Rightarrow> do {
                rules \<leftarrow> foldM (\<lambda>rule acc. do { r \<leftarrow> copy_rule rule; Some (acc @ [r]) }) (gp_rules st) [];
                ok \<leftarrow> left_recursion_check rules;
                (if \<not> ok then Some None
                 else do {
                   stacks \<leftarrow> init_stacks rules (unat start);
                   Some (Some \<lparr>gr_rules = rules, gr_stacks = stacks, gr_partial = \<lparr>pu_value = 0, pu_n_remain = 0\<rparr>, gr_lazy = lazy,
                     gr_awaiting = lazy, gr_buffer = [], gr_positions = [], gr_trigger_tokens = tokens, gr_patterns = patterns\<rparr>)
                 })
              }))
   }"

end
