(* ===== verification/GbnfWf.thy ===== *)
theory GbnfWf
  imports GrammarParse GrammarWf
begin

text \<open>
  The GBNF parser ends on every text, and the rules it accepts are well-formed: the shape of finished and of
  unfinished rules, the symbols that references name, and one induction over the fuel for the three functions
  of the recursion.
\<close>

section \<open>The rest of the text gets shorter\<close>

lemma parse_space_shorter: "length (parse_space b s) \<le> length s"
proof (induction b s rule: parse_space.induct)
  case (1 b s)
  show ?case
  proof (cases s)
    case (Cons c cs)
    have "length (parse_space b (dropWhile (\<lambda>c. c \<noteq> 13 \<and> c \<noteq> 10) cs)) \<le> length s" if "c = 35"
      using 1(1) [OF Cons _ that] that length_dropWhile_le [of "\<lambda>c. c \<noteq> 13 \<and> c \<noteq> 10" cs] Cons by force
    then show ?thesis using 1 Cons by (subst parse_space.simps) force
  qed (simp add: parse_space.simps)
qed

lemma literal_shorter: "literal_loop s rule = Inr (s', rule') \<Longrightarrow> length s' < length s"
proof (induction s rule rule: literal_loop.induct)
  case (1 s rule)
  show ?case
    using 1(2) 1(1) parse_char_shorter by (subst (asm) literal_loop.simps) (fastforce split: list.splits if_splits sum.splits prod.splits)
qed

lemma class_shorter: "class_loop t l s rule = Inr (s', rule') \<Longrightarrow> length s' < length s"
proof (induction t l s rule rule: class_loop.induct)
  case (1 t l s rule)
  from 1(3) obtain c cs where s: "s = c # cs" by (subst (asm) class_loop.simps) (auto split: list.splits)
  show ?case
  proof (cases "c = 93")
    case True
    with 1(3) s show ?thesis by (subst (asm) class_loop.simps) auto
  next
    case False
    with 1(3) s obtain v r where p: "parse_char s = Inr (v, r)" by (subst (asm) class_loop.simps) (auto split: sum.splits)
    let ?rule = "rule @ [elem (if l < length rule then GR_CHAR_ALT else t) v]"
    show ?thesis
    proof (cases "peek r = 45 \<and> peek (tl r) \<noteq> 93")
      case range: True
      with 1(3) s False p obtain v' r' where p': "parse_char (tl r) = Inr (v', r')" "tl r \<noteq> []"
        "class_loop t l r' (?rule @ [elem GR_CHAR_RNG_UPPER v']) = Inr (s', rule')"
        by (subst (asm) class_loop.simps) (auto simp: Let_def split: sum.splits if_splits)
      with 1(1) [OF s False p refl refl range p'(2) p'(1) refl p'(3)] show ?thesis
        using parse_char_shorter [OF p] parse_char_shorter [OF p'(1)] by simp
    next
      case single: False
      then have "class_loop t l r ?rule = Inr (s', rule')"
        using 1(3) unfolding s by (subst (asm) class_loop.simps) (simp only: list.case False if_False p[unfolded s] sum.case prod.case Let_def single)
      with 1(2) [OF s False p refl refl single this] show ?thesis using parse_char_shorter [OF p] by simp
    qed
  qed
qed

lemma sbind_Inr: "sbind r f = Inr y \<longleftrightarrow> (\<exists>x. r = Inr x \<and> f x = Inr y)"
  by (cases r) (simp_all add: sbind_def)

lemma parse_name_rest:
  "parse_name s = Inr (name, r) \<Longrightarrow> length r < length s \<and> name \<noteq> [] \<and> 95 \<notin> set name"
proof -
  assume p: "parse_name s = Inr (name, r)"
  then have n: "name = takeWhile is_word_char s" "r = dropWhile is_word_char s" "name \<noteq> []"
    by (auto simp: parse_name_def Let_def split: if_splits)
  have "length s = length name + length r" unfolding n(1,2) by (metis length_append takeWhile_dropWhile_id)
  moreover have "95 \<notin> set name"
  proof
    assume "95 \<in> set name"
    then have "is_word_char 95" unfolding n(1) by (rule set_takeWhileD [THEN conjunct2])
    then show False by (simp add: is_word_char_def is_digit_char_def)
  qed
  ultimately show ?thesis using n(3) by (cases name) auto
qed

lemma parse_int_rest: "parse_int s = Inr (ds, r) \<Longrightarrow> length r < length s"
proof -
  assume p: "parse_int s = Inr (ds, r)"
  then have "ds = takeWhile is_digit_char s" "r = dropWhile is_digit_char s" "ds \<noteq> []"
    by (auto simp: parse_int_def Let_def split: if_splits)
  then show ?thesis by (metis add_less_cancel_right append_Nil length_append length_greater_0_conv plus_nat.add_0 takeWhile_dropWhile_id)
qed

lemma tl_le: "length (tl s) \<le> length s"
  by (cases s) auto

lemma parse_token_shorter: "parse_token vocab s = Inr (t, r) \<Longrightarrow> length r < length s"
proof -
  assume p: "parse_token vocab s = Inr (t, r)"
  then have s: "s \<noteq> []" by (auto simp: parse_token_def peek_def)
  have "length (tl s) < length s" using s by (cases s) auto
  show ?thesis
  proof (cases "peek (tl s) = 91")
    case True
    with p obtain ds pos where "parse_int (tl (tl s)) = Inr (ds, pos)" "r = tl (tl pos)"
      by (auto simp: parse_token_def sbind_Inr split: if_splits)
    with parse_int_rest [of "tl (tl s)"] tl_le [of pos] tl_le [of "tl pos"] tl_le [of "tl s"] \<open>length (tl s) < length s\<close>
    show ?thesis by (meson le_less_trans less_le_trans less_trans not_le)
  next
    case False
    with p obtain tok where "vocab = Some tok" "r = tl (dropWhile (\<lambda>c. c \<noteq> 62) (tl s))"
      by (auto simp: parse_token_def Let_def split: if_splits option.splits list.splits)
    then show ?thesis
      using tl_le [of "dropWhile (\<lambda>c. c \<noteq> 62) (tl s)"] length_dropWhile_le [of "\<lambda>c. c \<noteq> 62" "tl s"] \<open>length (tl s) < length s\<close> by simp
  qed
qed

lemma parse_bounds_rest:
  assumes "parse_bounds nested s = Inr (m, n, r)"
  shows "length r \<le> length s" "m \<le> MAX_REPETITION_THRESHOLD" "n = UINT64_MAX \<or> n \<le> MAX_REPETITION_THRESHOLD"
proof -
  define s1 where "s1 = parse_space nested s"
  from assms obtain ds p1 where p1: "parse_int s1 = Inr (ds, p1)" by (auto simp: parse_bounds_def Let_def sbind_Inr s1_def)
  define p2 where "p2 = parse_space nested p1"
  have l: "length p2 < length s"
    using parse_space_shorter [of nested p1] parse_int_rest [OF p1] parse_space_shorter [of nested s] by (simp add: p2_def s1_def)
  let ?q = "if peek p2 = 125 then Inr (m, parse_space nested (tl p2))
        else if peek p2 = 44 then
          (let pos = parse_space nested (tl p2) in
           sbind
             (if is_digit_char (peek pos) then
                sbind (parse_int pos) (\<lambda>(ds, pos). sbind (stoull ds) (\<lambda>m. Inr (m, parse_space nested pos)))
              else Inr (UINT64_MAX, pos))
             (\<lambda>(max_times, pos). if peek pos \<noteq> 125 then Inl Expecting_brace else Inr (max_times, parse_space nested (tl pos))))
        else Inl Expecting_comma"
  from assms p1 obtain n' where q: "?q = Inr (n', r)" and m: "\<not> m > MAX_REPETITION_THRESHOLD"
      "n = (if n' \<noteq> UINT64_MAX \<and> n' > MAX_REPETITION_THRESHOLD then UINT64_MAX else n')"
    unfolding parse_bounds_def Let_def by (force simp: sbind_Inr s1_def [symmetric] p2_def [symmetric] split: if_split_asm)
  have sp: "length (parse_space nested (tl p)) \<le> length p" for p
    using parse_space_shorter [of nested "tl p"] tl_le [of p] by simp
  have "length r \<le> length p2"
  proof (cases "peek p2 = 125")
    case True
    then show ?thesis using q sp [of p2] by simp
  next
    case False
    define p3 where "p3 = parse_space nested (tl p2)"
    from q False obtain n1 p4 where p4: "(if is_digit_char (peek p3) then
                sbind (parse_int p3) (\<lambda>(ds, pos). sbind (stoull ds) (\<lambda>m. Inr (m, parse_space nested pos)))
              else Inr (UINT64_MAX, p3)) = Inr (n1, p4)" "r = parse_space nested (tl p4)"
      by (auto simp: sbind_Inr Let_def p3_def split: if_split_asm)
    have "length p4 \<le> length p3"
      using p4(1) parse_int_rest parse_space_shorter [of nested] by (auto simp: sbind_Inr split: if_split_asm) (meson le_trans less_imp_le)
    then show ?thesis using sp [of p2] sp [of p4] p4(2) by (simp add: p3_def)
  qed
  with l show "length r \<le> length s" by simp
  show "m \<le> MAX_REPETITION_THRESHOLD" using m(1) by simp
  show "n = UINT64_MAX \<or> n \<le> MAX_REPETITION_THRESHOLD" using m(2) by (auto simp: not_less split: if_split_asm)
qed

section \<open>Repetitions do not stop\<close>

definition prev_ok :: "u64 \<Rightarrow> bool" where
  "prev_ok n \<longleftrightarrow> 1 \<le> unat n \<and> unat n \<le> 2 ^ 32"

definition bounds_ok :: "u64 \<Rightarrow> u64 \<Rightarrow> bool" where
  "bounds_ok m n \<longleftrightarrow> m \<le> MAX_REPETITION_THRESHOLD \<and> (n = UINT64_MAX \<or> n \<le> MAX_REPETITION_THRESHOLD)"

lemma total_rules_bounds: "bounds_ok m n \<Longrightarrow> 1 \<le> unat (total_rules m n) \<and> unat (total_rules m n) \<le> 2000"
  by (auto simp: bounds_ok_def total_rules_def MAX_REPETITION_THRESHOLD_def word_le_nat_alt word_less_nat_alt)

lemma repeated_prev:
  assumes "prev_ok p" "bounds_ok m n"
  shows "1 \<le> p * total_rules m n" "p * total_rules m n < MAX_REPETITION_THRESHOLD \<Longrightarrow> prev_ok (p * total_rules m n)"
proof -
  let ?t = "total_rules m n"
  have t: "1 \<le> unat ?t" "unat ?t \<le> 2000" using total_rules_bounds [OF assms(2)] by simp_all
  have p: "1 \<le> unat p" "unat p \<le> 2 ^ 32" using assms(1) by (simp_all add: prev_ok_def)
  have "unat p * unat ?t \<le> 2 ^ 32 * 2000" by (rule mult_le_mono [OF p(2) t(2)])
  then have "unat p * unat ?t < 2 ^ 64" by (rule le_less_trans) simp
  then have u: "unat (p * ?t) = unat p * unat ?t" using unat_mult_lem [of p ?t] by simp
  have ge: "1 \<le> unat (p * ?t)" unfolding u using mult_le_mono [OF p(1) t(1)] by simp
  then show "1 \<le> p * ?t" by (simp add: word_le_nat_alt)
  show "prev_ok (p * ?t)" if "p * ?t < MAX_REPETITION_THRESHOLD"
    using that ge by (simp add: prev_ok_def word_less_nat_alt MAX_REPETITION_THRESHOLD_def)
qed

lemma bounds_ok_suffixes: "bounds_ok 0 UINT64_MAX" "bounds_ok 1 UINT64_MAX" "bounds_ok 0 1"
  by (simp_all add: bounds_ok_def MAX_REPETITION_THRESHOLD_def)

section \<open>Shapes\<close>

definition starts_ok :: "grule \<Rightarrow> bool" where
  "starts_ok r \<longleftrightarrow> r = [] \<or> \<not> is_modifier (hd r)"

definition opened :: "grule \<Rightarrow> bool" where
  \<comment> \<open>an unfinished rule\<close>
  "opened r \<longleftrightarrow> (\<forall>e\<in>set r. ge_type e \<noteq> GR_END) \<and> starts_ok r \<and> successively follows_ok r"

definition shaped :: "grule \<Rightarrow> bool" where
  \<comment> \<open>a finished rule\<close>
  "shaped r \<longleftrightarrow> (\<exists>es. opened es \<and> r = es @ [elem GR_END 0])"

lemma follows_plain: "\<not> is_modifier e' \<Longrightarrow> follows_ok e e'"
  by (simp add: follows_ok_def is_modifier_def)

lemma plain_simps [simp]:
  "\<not> is_modifier (elem GR_END v)" "\<not> is_modifier (elem GR_ALT v)" "\<not> is_modifier (elem GR_RULE_REF v)" "\<not> is_modifier (elem GR_CHAR v)"
  "\<not> is_modifier (elem GR_CHAR_NOT v)" "\<not> is_modifier (elem GR_CHAR_ANY v)" "\<not> is_modifier (elem GR_TOKEN v)"
  "\<not> is_modifier (elem GR_TOKEN_NOT v)" "is_modifier (elem GR_CHAR_ALT v)" "is_modifier (elem GR_CHAR_RNG_UPPER v)"
  by (simp_all add: is_modifier_def)

lemma opened_Nil [simp]: "opened []" "starts_ok []"
  by (simp_all add: opened_def starts_ok_def)

lemma opened_append: "opened a \<Longrightarrow> opened b \<Longrightarrow> opened (a @ b)"
  by (auto simp: opened_def starts_ok_def successively_append_iff follows_plain hd_append)

lemma opened_snoc: "opened a \<Longrightarrow> \<not> is_modifier e \<Longrightarrow> ge_type e \<noteq> GR_END \<Longrightarrow> opened (a @ [e])"
  by (rule opened_append) (simp_all add: opened_def starts_ok_def)

lemma opened_snoc_modifier: "opened a \<Longrightarrow> a \<noteq> [] \<Longrightarrow> follows_ok (last a) e \<Longrightarrow> ge_type e \<noteq> GR_END \<Longrightarrow> opened (a @ [e])"
  by (auto simp: opened_def starts_ok_def successively_append_iff)

lemma opened_take: "opened a \<Longrightarrow> opened (take k a)"
proof -
  assume a: "opened a"
  then have "successively follows_ok (take k a @ drop k a)" by (simp add: opened_def)
  then have "successively follows_ok (take k a)" unfolding successively_append_iff by blast
  moreover have "\<forall>e\<in>set (take k a). ge_type e \<noteq> GR_END" using a set_take_subset [of k a] by (auto simp: opened_def)
  moreover have "starts_ok (take k a)" using a by (cases a; cases k) (auto simp: opened_def starts_ok_def)
  ultimately show ?thesis by (simp add: opened_def)
qed

lemma opened_drop: "opened a \<Longrightarrow> starts_ok (drop k a) \<Longrightarrow> opened (drop k a)"
proof -
  assume a: "opened a" "starts_ok (drop k a)"
  then have "successively follows_ok (take k a @ drop k a)" by (simp add: opened_def)
  then have "successively follows_ok (drop k a)" unfolding successively_append_iff by blast
  moreover have "\<forall>e\<in>set (drop k a). ge_type e \<noteq> GR_END" using a(1) set_drop_subset [of k a] by (auto simp: opened_def)
  ultimately show ?thesis using a(2) by (simp add: opened_def)
qed

lemma opened_repeat: "opened b \<Longrightarrow> opened (concat (replicate n b))"
  by (induction n) (simp_all add: opened_append)

lemma starts_ok_append: "starts_ok a \<Longrightarrow> starts_ok b \<Longrightarrow> starts_ok (a @ b)"
  by (cases a) (simp_all add: starts_ok_def)

lemma shaped_wf:
  assumes "shaped r" "\<forall>e\<in>set r. ge_type e = GR_RULE_REF \<longrightarrow> unat (ge_value e) < n"
  shows "wf_rule n r \<and> ge_value (List.last r) = 0"
proof -
  from assms(1) obtain es where es: "opened es" "r = es @ [elem GR_END 0]" by (auto simp: shaped_def)
  have "ge_type (r ! i) = GR_END \<longleftrightarrow> Suc i = length r" if "i < length r" for i
  proof (cases "i < length es")
    case True
    then have "ge_type (es ! i) \<noteq> GR_END" using es(1) nth_mem [OF True] unfolding opened_def by blast
    then show ?thesis using True es(2) by (simp add: nth_append)
  qed (use that es(2) in \<open>simp add: nth_append\<close>)
  moreover have "\<not> is_modifier (r ! 0)" using es by (cases es) (auto simp: opened_def starts_ok_def)
  moreover have "successively follows_ok r"
    using es by (auto simp: opened_def successively_append_iff follows_plain)
  then have "\<forall>i. Suc i < length r \<longrightarrow> follows_ok (r ! i) (r ! Suc i)" using successively_nth by blast
  ultimately show ?thesis using assms(2) es(2) by (auto simp: wf_rule_def)
qed

section \<open>Classes and literals\<close>

definition only_refs :: "u32 set \<Rightarrow> grule \<Rightarrow> bool" where
  \<comment> \<open>every reference is among the given symbols\<close>
  "only_refs V r \<longleftrightarrow> (\<forall>e\<in>set r. ge_type e = GR_RULE_REF \<longrightarrow> ge_value e \<in> V)"

lemma only_refs_simps [simp]:
  "only_refs V []" "only_refs V (a @ b) \<longleftrightarrow> only_refs V a \<and> only_refs V b"
  "only_refs V (elem t v # a) \<longleftrightarrow> (t = GR_RULE_REF \<longrightarrow> v \<in> V) \<and> only_refs V a"
  by (auto simp: only_refs_def)

lemma only_refs_mono: "only_refs V r \<Longrightarrow> V \<subseteq> W \<Longrightarrow> only_refs W r"
  by (auto simp: only_refs_def)

lemma only_refs_sub: "only_refs V r \<Longrightarrow> set r' \<subseteq> set r \<Longrightarrow> only_refs V r'"
  by (auto simp: only_refs_def)

definition extends :: "u32 set \<Rightarrow> grule \<Rightarrow> grule \<Rightarrow> bool" where
  \<comment> \<open>an item was appended\<close>
  "extends V r r' \<longleftrightarrow> (\<exists>es. r' = r @ es \<and> opened es \<and> only_refs V es)"

lemma literal_shape: "literal_loop s rule = Inr (s', rule') \<Longrightarrow> extends V rule rule'"
proof (induction s rule rule: literal_loop.induct)
  case (1 s rule)
  from 1(2) obtain c cs where s: "s = c # cs" by (subst (asm) literal_loop.simps) (auto split: list.splits)
  show ?case
  proof (cases "c = 34")
    case True
    with 1(2) s show ?thesis by (subst (asm) literal_loop.simps) (simp add: extends_def)
  next
    case False
    with 1(2) s obtain v r where p: "parse_char s = Inr (v, r)" "literal_loop r (rule @ [elem GR_CHAR v]) = Inr (s', rule')"
      by (subst (asm) literal_loop.simps) (auto split: sum.splits)
    from 1(1) [OF s False p(1) refl p(2)] obtain es where es: "rule' = rule @ [elem GR_CHAR v] @ es" "opened es" "only_refs V es"
      by (auto simp: extends_def)
    have "opened ([elem GR_CHAR v] @ es)" by (rule opened_append [OF opened_snoc [of "[]", simplified] es(2)]) simp_all
    then show ?thesis using es(1,3) unfolding extends_def by (intro exI [of _ "[elem GR_CHAR v] @ es"]) simp
  qed
qed

lemma class_shape:
  "class_loop t (length rule) s (rule @ es) = Inr (s', rule') \<Longrightarrow> t = GR_CHAR \<or> t = GR_CHAR_NOT \<Longrightarrow> opened es \<Longrightarrow> only_refs V es \<Longrightarrow>
    es = [] \<or> is_class (List.last es) \<or> is_modifier (List.last es) \<Longrightarrow> extends V rule rule'"
proof (induction "length s" arbitrary: s es rule: less_induct)
  case less
  from less.prems(1) obtain c cs where s: "s = c # cs" by (subst (asm) class_loop.simps) (auto split: list.splits)
  show ?case
  proof (cases "c = 93")
    case True
    with less.prems s show ?thesis by (subst (asm) class_loop.simps) (auto simp: extends_def)
  next
    case False
    with less.prems(1) s obtain v r where p: "parse_char s = Inr (v, r)" by (subst (asm) class_loop.simps) (auto split: sum.splits)
    let ?t = "if es \<noteq> [] then GR_CHAR_ALT else t"
    have ty: "length rule < length (rule @ es) \<longleftrightarrow> es \<noteq> []" by simp
    have e1: "opened (es @ [elem ?t v])" "only_refs V (es @ [elem ?t v])" "is_class (elem ?t v) \<or> is_modifier (elem ?t v)"
    proof -
      show "only_refs V (es @ [elem ?t v])" using less.prems(2,4) by auto
      show "is_class (elem ?t v) \<or> is_modifier (elem ?t v)" using less.prems(2) by (auto simp: is_class_def is_positive_def)
      show "opened (es @ [elem ?t v])"
      proof (cases "es = []")
        case True
        then show ?thesis using less.prems(2) opened_snoc [of "[]" "elem t v"] by auto
      next
        case False
        then show ?thesis using less.prems(3,5) by (intro opened_snoc_modifier) (auto simp: follows_ok_def)
      qed
    qed
    show ?thesis
    proof (cases "peek r = 45 \<and> peek (tl r) \<noteq> 93")
      case range: True
      with less.prems(1) s False p obtain v' r' where p': "parse_char (tl r) = Inr (v', r')"
        "class_loop t (length rule) r' ((rule @ es) @ [elem ?t v] @ [elem GR_CHAR_RNG_UPPER v']) = Inr (s', rule')"
        by (subst (asm) class_loop.simps) (auto simp: Let_def split: sum.splits if_split_asm)
      have "length r' < length s" using parse_char_shorter [OF p] parse_char_shorter [OF p'(1)] by simp
      moreover have "opened ((es @ [elem ?t v]) @ [elem GR_CHAR_RNG_UPPER v'])"
        by (rule opened_snoc_modifier [OF e1(1)]) (use less.prems(2) in \<open>auto simp: follows_ok_def\<close>)
      ultimately show ?thesis using less.hyps [of r' "(es @ [elem ?t v]) @ [elem GR_CHAR_RNG_UPPER v']"] p'(2) less.prems(2) e1(2) by simp
    next
      case single: False
      have "class_loop t (length rule) r (rule @ (es @ [elem ?t v])) = Inr (s', rule')"
        using less.prems(1) unfolding s
        by (subst (asm) class_loop.simps) (simp only: list.case False if_False p [unfolded s] sum.case prod.case Let_def single ty append_assoc)
      then show ?thesis using less.hyps [of r "es @ [elem ?t v]"] parse_char_shorter [OF p] less.prems(2) e1 by simp
    qed
  qed
qed

section \<open>Symbols\<close>

definition symbols :: "gparser \<Rightarrow> u32 set" where
  "symbols st = snd ` set (gp_symbols st)"

definition name_ok :: "byte list \<times> u32 \<Rightarrow> bool" where
  \<comment> \<open>a name of the text, or a generated one, which ends with its number\<close>
  "name_ok = (\<lambda>(k, v). 95 \<notin> set k \<or> (\<exists>base. k = base @ [95] @ nat_digits (unat v)))"

definition parser_ok :: "gparser \<Rightarrow> bool" where
  "parser_ok st \<longleftrightarrow> (\<forall>s\<in>set (gp_symbols st). name_ok s) \<and> (\<forall>r\<in>set (gp_rules st). r = [] \<or> shaped r \<and> only_refs (symbols st) r)"

lemma digit_byte: "d < 10 \<Longrightarrow> unat (of_nat (48 + d) :: byte) = 48 + d"
  by (simp only: unat_of_nat) simp

lemma nat_digits_chars: "c \<in> set (nat_digits n) \<Longrightarrow> 48 \<le> unat c \<and> unat c < 58"
proof (induction n rule: nat_digits.induct)
  case (1 n)
  show ?case
  proof (cases "n < 10")
    case True
    then show ?thesis using 1(2) digit_byte [of n] by (subst (asm) nat_digits.simps) simp
  next
    case False
    then have "c \<in> set (nat_digits (n div 10)) \<or> c = of_nat (48 + n mod 10)" using 1(2) by (subst (asm) nat_digits.simps) auto
    then show ?thesis using 1(1) [OF False] digit_byte [of "n mod 10"] by auto
  qed
qed

lemma nat_digits_value: "foldl (\<lambda>v c. 10 * v + (unat c - 48)) 0 (nat_digits n) = n"
proof (induction n rule: nat_digits.induct)
  case (1 n)
  show ?case
  proof (cases "n < 10")
    case True
    then show ?thesis using digit_byte [of n] by (subst nat_digits.simps) simp
  next
    case False
    then show ?thesis using 1(1) [OF False] digit_byte [of "n mod 10"] by (subst nat_digits.simps) simp
  qed
qed

lemma nat_digits_inj: "nat_digits m = nat_digits n \<Longrightarrow> m = n"
  by (metis nat_digits_value)

lemma split_last:
  assumes "a @ [x] @ b = c @ [x] @ d" "x \<notin> set b" "x \<notin> set d"
  shows "b = d"
proof -
  have tw: "takeWhile (\<lambda>y. y \<noteq> x) (xs @ [x] @ ys) = xs" if "x \<notin> set xs" for xs ys using that by (induction xs) auto
  have "rev b @ [x] @ rev a = rev d @ [x] @ rev c" using arg_cong [OF assms(1), of rev] by simp
  then show ?thesis using tw [of "rev b" "rev a"] tw [of "rev d" "rev c"] assms(2,3) by simp
qed

lemma generated_value:
  assumes "name_ok (base @ [95] @ nat_digits (unat i), v)"
  shows "v = i"
proof -
  have no: "(95 :: byte) \<notin> set (nat_digits n)" for n using nat_digits_chars [of 95 n] by auto
  from assms obtain base' where "base @ [95] @ nat_digits (unat i) = base' @ [95] @ nat_digits (unat v)" by (auto simp: name_ok_def)
  from split_last [OF this no no] have "nat_digits (unat i) = nat_digits (unat v)" .
  then show ?thesis using nat_digits_inj unsigned_word_eqI by blast
qed

lemma parser_ok_symbols:
  assumes "parser_ok st" "symbols st \<subseteq> snd ` set syms" "\<forall>s\<in>set syms. name_ok s"
  shows "parser_ok (st\<lparr>gp_symbols := syms\<rparr>)"
  using assms by (auto simp: parser_ok_def symbols_def intro: only_refs_mono)

lemma generate_symbol_ok:
  assumes "parser_ok st" "generate_symbol_id base st = (i, st')"
  shows "parser_ok st' \<and> symbols st \<subseteq> symbols st' \<and> i \<in> symbols st' \<and> gp_rules st' = gp_rules st"
proof -
  define k where "k = base @ [95] @ nat_digits (unat (next_symbol st))"
  define syms where "syms = symbol_put k (next_symbol st) (gp_symbols st)"
  have st': "i = next_symbol st" "st' = st\<lparr>gp_symbols := syms\<rparr>"
    using assms(2) by (auto simp: generate_symbol_id_def k_def syms_def Let_def)
  have ok: "name_ok (k, i)" unfolding name_ok_def k_def st'(1) by blast
  have names: "\<forall>s\<in>set (gp_symbols st). name_ok s" using assms(1) by (simp add: parser_ok_def)
  have same: "(k', if k' = k then next_symbol st else v) = (k', v)" if "(k', v) \<in> set (gp_symbols st)" for k' v
    using generated_value [of base "next_symbol st" v] names that by (auto simp: k_def)
  have syms: "syms = (if k \<in> fst ` set (gp_symbols st) then gp_symbols st else gp_symbols st @ [(k, i)])"
  proof -
    have "map (\<lambda>(k', v). (k', if k' = k then next_symbol st else v)) (gp_symbols st) = gp_symbols st"
      by (rule map_idI) (use same in auto)
    then show ?thesis by (simp add: syms_def symbol_put_def st'(1))
  qed
  have "i \<in> snd ` set syms"
  proof (cases "k \<in> fst ` set (gp_symbols st)")
    case True
    then obtain v where v: "(k, v) \<in> set (gp_symbols st)" by auto
    with generated_value [of base "next_symbol st" v] names have "v = i" by (auto simp: k_def st'(1))
    with v True syms show ?thesis by force
  qed (simp add: syms)
  moreover have "symbols st \<subseteq> snd ` set syms" unfolding syms symbols_def by auto
  moreover have "\<forall>s\<in>set syms. name_ok s" using names ok unfolding syms by auto
  ultimately show ?thesis using parser_ok_symbols [OF assms(1)] st'(2) by (simp add: symbols_def)
qed

lemma get_symbol_ok:
  assumes "parser_ok st" "get_symbol_id name st = (i, st')" "95 \<notin> set name"
  shows "parser_ok st' \<and> symbols st \<subseteq> symbols st' \<and> i \<in> symbols st' \<and> gp_rules st' = gp_rules st"
proof (cases "map_of (gp_symbols st) name")
  case (Some v)
  then have "(name, v) \<in> set (gp_symbols st)" by (rule map_of_SomeD)
  then show ?thesis using assms(1,2) Some by (force simp: get_symbol_id_def symbols_def)
next
  case None
  let ?syms = "gp_symbols st @ [(name, next_symbol st)]"
  have st': "st' = st\<lparr>gp_symbols := ?syms\<rparr>" "i = next_symbol st" using assms(2) None by (auto simp: get_symbol_id_def)
  have "\<forall>s\<in>set ?syms. name_ok s" using assms(1,3) by (auto simp: parser_ok_def name_ok_def)
  then show ?thesis using parser_ok_symbols [OF assms(1), of ?syms] st' by (auto simp: symbols_def)
qed

lemma add_rule_ok:
  assumes "parser_ok st" "shaped r" "only_refs (symbols st) r"
  shows "parser_ok (add_rule i r st) \<and> symbols (add_rule i r st) = symbols st"
proof -
  have "symbols (add_rule i r st) = symbols st" by (simp add: add_rule_def symbols_def Let_def)
  moreover have "\<forall>x\<in>set (gp_rules (add_rule i r st)). x = r \<or> x = [] \<or> x \<in> set (gp_rules st)"
    by (auto simp: add_rule_def Let_def resize_list_def dest!: set_update_subset_insert [THEN subsetD] in_set_takeD split: if_split_asm)
  ultimately show ?thesis using assms by (fastforce simp: parser_ok_def add_rule_def Let_def)
qed

section \<open>One round\<close>

definition seq_ok :: "gparser \<Rightarrow> seq_state \<Rightarrow> bool" where
  "seq_ok st q \<longleftrightarrow> opened (sq_rule q) \<and> only_refs (symbols st) (sq_rule q) \<and> sq_last q \<le> length (sq_rule q) \<and>
     starts_ok (drop (sq_last q) (sq_rule q)) \<and> prev_ok (sq_prev q)"

definition kept_by :: "gparser \<Rightarrow> gparser \<Rightarrow> bool" where
  "kept_by st st' \<longleftrightarrow> parser_ok st' \<and> symbols st \<subseteq> symbols st'"

lemma kept_by_trans: "kept_by a b \<Longrightarrow> kept_by b c \<Longrightarrow> kept_by a c"
  by (auto simp: kept_by_def)

lemma rec_rule_ok:
  assumes "opened prev" "only_refs V prev" "\<forall>i. r = Some i \<longrightarrow> i \<in> V"
  shows "shaped (rec_rule prev r) \<and> only_refs V (rec_rule prev r)"
proof -
  let ?es = "prev @ (case r of None \<Rightarrow> [] | Some i \<Rightarrow> [elem GR_RULE_REF i]) @ [elem GR_ALT 0]"
  have "opened ?es" by (intro opened_append assms(1)) (auto simp: opened_def starts_ok_def split: option.splits)
  moreover have "rec_rule prev r = ?es @ [elem GR_END 0]" by (simp add: rec_rule_def)
  ultimately have "shaped (rec_rule prev r)" unfolding shaped_def by blast
  then show ?thesis using assms(2,3) by (cases r) (simp_all add: rec_rule_def)
qed

lemma optional_rules_ok:
  "parser_ok st \<Longrightarrow> opened prev \<Longrightarrow> only_refs (symbols st) prev \<Longrightarrow> \<forall>i. r = Some i \<longrightarrow> i \<in> symbols st \<Longrightarrow>
    optional_rules name prev no_max n r st = (r', st') \<Longrightarrow> kept_by st st' \<and> (\<forall>i. r' = Some i \<longrightarrow> i \<in> symbols st')"
proof (induction n arbitrary: r st)
  case 0
  then show ?case by (simp add: kept_by_def)
next
  case (Suc n)
  obtain i st1 where g: "generate_symbol_id name st = (i, st1)" by fastforce
  from generate_symbol_ok [OF Suc.prems(1) g] have st1: "parser_ok st1" "symbols st \<subseteq> symbols st1" "i \<in> symbols st1" by simp_all
  let ?r = "if no_max then Some i else r"
  have "only_refs (symbols st1) prev" using only_refs_mono [OF Suc.prems(3) st1(2)] .
  moreover have "\<forall>j. ?r = Some j \<longrightarrow> j \<in> symbols st1" using Suc.prems(4) st1(2,3) by (cases no_max) auto
  ultimately have
    "shaped (rec_rule prev ?r)" "only_refs (symbols st1) (rec_rule prev ?r)" using rec_rule_ok [OF Suc.prems(2)] by blast+
  from add_rule_ok [OF st1(1) this, of i] have
    st2: "parser_ok (add_rule i (rec_rule prev ?r) st1)" "symbols (add_rule i (rec_rule prev ?r) st1) = symbols st1" by simp_all
  have "kept_by (add_rule i (rec_rule prev ?r) st1) st' \<and> (\<forall>i. r' = Some i \<longrightarrow> i \<in> symbols st')"
    by (rule Suc.IH) (use st1 st2 Suc.prems g only_refs_mono [OF Suc.prems(3) st1(2)] in auto)
  then show ?case using st1(2) st2(2) by (auto simp: kept_by_def)
qed

lemma seq_ok_mono: "seq_ok st q \<Longrightarrow> symbols st \<subseteq> symbols st' \<Longrightarrow> seq_ok st' q"
  by (auto simp: seq_ok_def intro: only_refs_mono)

lemma handle_repetitions_ok:
  assumes st: "parser_ok st" "seq_ok st q" and b: "bounds_ok m n"
  shows "\<exists>r. handle_repetitions name m n q st = Some r \<and> (\<forall>q' st'. r = Inr (q', st') \<longrightarrow> kept_by st st' \<and> seq_ok st' q')"
proof -
  define rule prev p where d: "rule = sq_rule q" "prev = drop (sq_last q) rule" "p = sq_prev q * total_rules m n"
  have q: "opened rule" "only_refs (symbols st) rule" "sq_last q \<le> length rule" "starts_ok prev" "prev_ok (sq_prev q)"
    using st(2) by (simp_all add: seq_ok_def d)
  note p = repeated_prev [OF q(5) b, folded d(3)]
  consider "sq_last q = length rule" | "sq_last q \<noteq> length rule" "\<not> p < MAX_REPETITION_THRESHOLD" |
    "sq_last q \<noteq> length rule" "p < MAX_REPETITION_THRESHOLD" by blast
  then show ?thesis
  proof cases
    case 1
    then show ?thesis by (simp add: handle_repetitions_def d Let_def)
  next
    case 2
    then show ?thesis by (simp add: handle_repetitions_def d Let_def not_less)
  next
    case 3
    obtain r st' where o: "optional_rules name prev (n = UINT64_MAX) (unat (n_optional m n)) None st = (r, st')" by fastforce
    have prev: "opened prev" "only_refs (symbols st) prev"
      using opened_drop [OF q(1)] q(4) only_refs_sub [OF q(2)] set_drop_subset [of "sq_last q" rule] by (simp_all add: d(2))
    from optional_rules_ok [OF st(1) prev _ o] have st': "kept_by st st'" "\<forall>i. r = Some i \<longrightarrow> i \<in> symbols st'" by simp_all
    define body where "body = (if m = 0 then take (sq_last q) rule else rule @ concat (replicate (unat (m - 1)) prev))"
    define ref where "ref = (case r of None \<Rightarrow> [] | Some i \<Rightarrow> [elem GR_RULE_REF i])"
    have run: "handle_repetitions name m n q st = Some (Inr (q\<lparr>sq_rule := body @ ref, sq_prev := p\<rparr>, st'))"
      using 3 o p(1) by (simp add: handle_repetitions_def d Let_def not_le body_def ref_def)
    have ref: "opened ref" "only_refs (symbols st') ref" using st'(2) by (auto simp: ref_def opened_def starts_ok_def split: option.splits)
    have sub: "symbols st \<subseteq> symbols st'" using st'(1) by (simp add: kept_by_def)
    have body: "opened body" "sq_last q \<le> length body"
      using q(1,3) prev(1) by (simp_all add: body_def opened_take opened_append opened_repeat)
    have "set body \<subseteq> set rule"
      using set_take_subset [of "sq_last q" rule] set_drop_subset [of "sq_last q" rule] by (auto simp: body_def d(2))
    then have refs: "only_refs (symbols st') body" using only_refs_mono [OF only_refs_sub [OF q(2)] sub] by blast
    have "starts_ok (drop (sq_last q) body)"
    proof (cases "m = 0")
      case False
      have "drop (sq_last q) body = prev @ concat (replicate (unat (m - 1)) prev)" using False q(3) by (simp add: body_def d(2))
      then show ?thesis using opened_append [OF prev(1) opened_repeat [OF prev(1)]] by (simp add: opened_def)
    qed (simp add: body_def)
    then have "starts_ok (drop (sq_last q) (body @ ref))"
      using body(2) ref(1) by (simp add: opened_def starts_ok_append)
    then have "seq_ok st' (q\<lparr>sq_rule := body @ ref, sq_prev := p\<rparr>)"
      using body refs ref p(2) [OF 3(2)] by (simp add: seq_ok_def opened_append)
    then show ?thesis using run st'(1) by simp
  qed
qed

lemma seq_ok_item:
  assumes "seq_ok st q" "extends (symbols st') (sq_rule q) rule" "symbols st \<subseteq> symbols st'" "prev_ok p"
  shows "seq_ok st' \<lparr>sq_rule = rule, sq_last = length (sq_rule q), sq_prev = p\<rparr>"
proof -
  from assms(2) obtain es where es: "rule = sq_rule q @ es" "opened es" "only_refs (symbols st') es" by (auto simp: extends_def)
  then show ?thesis using assms(1,3,4) only_refs_mono [of "symbols st" "sq_rule q" "symbols st'"]
    by (auto simp: seq_ok_def opened_append) (simp add: opened_def)
qed

lemma extends_one: "\<not> is_modifier e \<Longrightarrow> ge_type e \<noteq> GR_END \<Longrightarrow> only_refs V [e] \<Longrightarrow> extends V rule (rule @ [e])"
  unfolding extends_def by (intro exI [of _ "[e]"]) (simp add: opened_def starts_ok_def)

lemma prev_ok_1: "prev_ok 1"
  by (simp add: prev_ok_def)

definition round_ok :: "byte list \<Rightarrow> gparser \<Rightarrow> (byte list \<times> seq_state \<times> gparser) parsed option \<Rightarrow> bool" where
  "round_ok s st res \<longleftrightarrow> (\<exists>r. res = Some r \<and> (\<forall>s' q' st'. r = Inr (s', q', st') \<longrightarrow> length s' < length s \<and> kept_by st st' \<and> seq_ok st' q'))"

lemma round_ok_Inl [simp]: "round_ok s st (Some (Inl e))"
  by (simp add: round_ok_def)

lemma round_ok_sbind:
  assumes "\<And>s' rule. r = Inr (s', rule) \<Longrightarrow> round_ok s st (Some (f s' rule))"
  shows "round_ok s st (Some (sbind r (\<lambda>(s', rule). f s' rule)))"
  using assms by (cases r) (auto simp: sbind_def)

lemma space_item:
  assumes "parser_ok st'" "symbols st \<subseteq> symbols st'" "seq_ok st' q'" "length s' < length s"
  shows "round_ok s st (Some (Inr (parse_space nested s', q', st')))"
  using assms parse_space_shorter [of nested s'] by (simp add: round_ok_def kept_by_def)

lemma repetition_item:
  assumes "parser_ok st" "seq_ok st q" "bounds_ok m n" "length s' < length s"
  shows "round_ok s st (pbind (handle_repetitions name m n q st) (\<lambda>(q, st). Some (Inr (s', q, st))))"
  using handle_repetitions_ok [OF assms(1-3), of name] assms(4)
  by (auto simp: round_ok_def pbind_def split: sum.splits)

lemma seq_item_ok:
  assumes st: "parser_ok st" and q: "seq_ok st q" and res: "seq_item vocab name nested c cs q st = Some res"
  shows "round_ok (c # cs) st res"
proof -
  let ?q1 = "q\<lparr>sq_last := length (sq_rule q), sq_prev := 1\<rparr>"
  have q1: "seq_ok st' (?q1\<lparr>sq_rule := rule\<rparr>)" if "extends (symbols st') (sq_rule q) rule" "symbols st \<subseteq> symbols st'" for st' rule
    using seq_ok_item [OF q that prev_ok_1] by (cases q) simp
  have word: "\<not> is_word_char c" if "c \<in> {34, 91, 60, 33, 46, 42, 43, 63, 123}"
    using that by (auto simp: is_word_char_def is_digit_char_def)
  consider (lit) "c = 34" | (cls) "c = 91" | (tok) "c = 60 \<or> c = 33" | (ref) "is_word_char c" | (any) "c = 46" |
    (rep) "c = 42 \<or> c = 43 \<or> c = 63" | (brace) "c = 123"
    using res by (auto simp: seq_item_def Let_def split: if_split_asm)
  then show ?thesis
  proof cases
    case lit
    then have r: "res = Some (sbind (literal_loop cs (sq_rule q)) (\<lambda>(s, rule). Inr (parse_space nested s, ?q1\<lparr>sq_rule := rule\<rparr>, st)))"
      using res by (simp add: seq_item_def Let_def)
    show ?thesis unfolding r
    proof (rule round_ok_sbind, rule space_item [OF st subset_refl])
      fix s' rule assume l: "literal_loop cs (sq_rule q) = Inr (s', rule)"
      show "seq_ok st (?q1\<lparr>sq_rule := rule\<rparr>)" by (rule q1 [OF literal_shape [OF l] subset_refl])
      show "length s' < length (c # cs)" using literal_shorter [OF l] by simp
    qed
  next
    case cls
    define t s0 where "t = (if peek cs = 94 then GR_CHAR_NOT else GR_CHAR)" "s0 = (if peek cs = 94 then tl cs else cs)"
    then have r: "res = Some (sbind (class_loop t (length (sq_rule q)) s0 (sq_rule q)) (\<lambda>(s, rule). Inr (parse_space nested s, ?q1\<lparr>sq_rule := rule\<rparr>, st)))"
      using res cls by (simp add: seq_item_def Let_def)
    show ?thesis unfolding r
    proof (rule round_ok_sbind, rule space_item [OF st subset_refl])
      fix s' rule assume l: "class_loop t (length (sq_rule q)) s0 (sq_rule q) = Inr (s', rule)"
      have "extends (symbols st) (sq_rule q) rule"
        using class_shape [of t "sq_rule q" s0 "[]" s' rule "symbols st"] l by (simp add: t_s0_def)
      then show "seq_ok st (?q1\<lparr>sq_rule := rule\<rparr>)" using q1 by blast
      show "length s' < length (c # cs)" using class_shorter [OF l] tl_le [of cs] by (simp add: t_s0_def split: if_split_asm)
    qed
  next
    case tok
    define s0 where "s0 = (if c = 33 then cs else c # cs)"
    have w: "\<not> is_word_char c" "c \<noteq> 34" "c \<noteq> 91" using word tok by auto
    from res tok w have r: "res = Some (sbind (parse_token vocab s0)
        (\<lambda>(t, s). Inr (parse_space nested s, ?q1\<lparr>sq_rule := sq_rule q @ [elem (if c = 33 then GR_TOKEN_NOT else GR_TOKEN) t]\<rparr>, st)))"
      by (auto simp: seq_item_def s0_def Let_def)
    show ?thesis unfolding r
    proof (rule round_ok_sbind, rule space_item [OF st subset_refl])
      fix t s' assume p: "parse_token vocab s0 = Inr (t, s')"
      show "seq_ok st (?q1\<lparr>sq_rule := sq_rule q @ [elem (if c = 33 then GR_TOKEN_NOT else GR_TOKEN) t]\<rparr>)"
        by (rule q1 [OF extends_one subset_refl]) simp_all
      show "length s' < length (c # cs)" using parse_token_shorter [OF p] by (simp add: s0_def split: if_split_asm)
    qed
  next
    case ref
    have w: "c \<notin> {34, 91, 60, 33}" using word ref by blast
    from res ref w have r: "res = Some (sbind (parse_name (c # cs)) (\<lambda>(ref, s). case get_symbol_id ref st of (i, st) \<Rightarrow>
         Inr (parse_space nested s, ?q1\<lparr>sq_rule := sq_rule q @ [elem GR_RULE_REF i]\<rparr>, st)))"
      by (simp add: seq_item_def Let_def)
    show ?thesis unfolding r
    proof (rule round_ok_sbind)
      fix ref s' assume p: "parse_name (c # cs) = Inr (ref, s')"
      obtain i st' where g: "get_symbol_id ref st = (i, st')" by fastforce
      from get_symbol_ok [OF st g] parse_name_rest [OF p] have
        st': "parser_ok st'" "symbols st \<subseteq> symbols st'" "i \<in> symbols st'" "length s' < length (c # cs)" by simp_all
      have "seq_ok st' (?q1\<lparr>sq_rule := sq_rule q @ [elem GR_RULE_REF i]\<rparr>)" by (rule q1 [OF extends_one st'(2)]) (simp_all add: st'(3))
      with space_item [OF st'(1,2) this st'(4)] g
      show "round_ok (c # cs) st (Some (case get_symbol_id ref st of (i, st) \<Rightarrow>
         Inr (parse_space nested s', ?q1\<lparr>sq_rule := sq_rule q @ [elem GR_RULE_REF i]\<rparr>, st)))" by simp
    qed
  next
    case any
    then have r: "res = Some (Inr (parse_space nested cs, ?q1\<lparr>sq_rule := sq_rule q @ [elem GR_CHAR_ANY 0]\<rparr>, st))"
      using res word by (simp add: seq_item_def Let_def)
    show ?thesis unfolding r by (rule space_item [OF st subset_refl q1 [OF extends_one subset_refl]]) simp_all
  next
    case rep
    have r: "res = pbind (handle_repetitions name (if c = 43 then 1 else 0) (if c = 63 then 1 else UINT64_MAX) q st)
         (\<lambda>(q, st). Some (Inr (parse_space nested cs, q, st)))"
      using res rep word by (auto simp: seq_item_def Let_def)
    have "bounds_ok (if c = 43 then 1 else 0) (if c = 63 then 1 else UINT64_MAX)" using bounds_ok_suffixes rep by auto
    then show ?thesis unfolding r using parse_space_shorter [of nested cs] by (intro repetition_item [OF st q]) simp_all
  next
    case brace
    have r: "res = pbind (Some (parse_bounds nested cs)) (\<lambda>(min_times, max_times, s).
         pbind (handle_repetitions name min_times max_times q st) (\<lambda>(q, st). Some (Inr (s, q, st))))"
      using res brace word by (simp add: seq_item_def Let_def)
    show ?thesis
    proof (cases "parse_bounds nested cs")
      case (Inr x)
      obtain m n s' where x: "x = (m, n, s')" by (cases x)
      note pb = parse_bounds_rest [OF Inr [unfolded x]]
      have "round_ok (c # cs) st (pbind (handle_repetitions name m n q st) (\<lambda>(q, st). Some (Inr (s', q, st))))"
        by (rule repetition_item [OF st q]) (use pb in \<open>auto simp: bounds_ok_def\<close>)
      then show ?thesis using r Inr x by (simp add: pbind_def)
    qed (simp add: r pbind_def)
  qed
qed

section \<open>The recursion\<close>

definition run_ok :: "byte list \<Rightarrow> gparser \<Rightarrow> (byte list \<times> gparser) parsed option \<Rightarrow> bool" where
  "run_ok s st res \<longleftrightarrow> (\<exists>r. res = Some r \<and> (\<forall>s' st'. r = Inr (s', st') \<longrightarrow> length s' \<le> length s \<and> kept_by st st'))"

definition seq_run_ok :: "byte list \<Rightarrow> gparser \<Rightarrow> (byte list \<times> grule \<times> gparser) parsed option \<Rightarrow> bool" where
  "seq_run_ok s st res \<longleftrightarrow> (\<exists>r. res = Some r \<and> (\<forall>s' rule st'. r = Inr (s', rule, st') \<longrightarrow>
     length s' \<le> length s \<and> kept_by st st' \<and> opened rule \<and> only_refs (symbols st') rule))"

lemma seq_run_weaken:
  assumes "seq_run_ok s' st' res" "length s' \<le> length s" "kept_by st st'"
  shows "seq_run_ok s st res"
proof -
  from assms(1) obtain r where r: "res = Some r" "\<forall>t rule u. r = Inr (t, rule, u) \<longrightarrow>
     length t \<le> length s' \<and> kept_by st' u \<and> opened rule \<and> only_refs (symbols u) rule" unfolding seq_run_ok_def by blast
  show ?thesis unfolding seq_run_ok_def using r le_trans [OF _ assms(2)] kept_by_trans [OF assms(3)] by blast
qed

lemma run_weaken:
  assumes "run_ok s' st' res" "length s' \<le> length s" "kept_by st st'"
  shows "run_ok s st res"
proof -
  from assms(1) obtain r where r: "res = Some r" "\<forall>t u. r = Inr (t, u) \<longrightarrow> length t \<le> length s' \<and> kept_by st' u" unfolding run_ok_def by blast
  show ?thesis unfolding run_ok_def using r le_trans [OF _ assms(2)] kept_by_trans [OF assms(3)] by blast
qed

lemma run_ok_Inl [simp]: "run_ok s st (Some (Inl e))" "seq_run_ok s st (Some (Inl e))"
  by (simp_all add: run_ok_def seq_run_ok_def)

lemma pbind_run:
  assumes "run_ok s st res" "\<And>s' st'. length s' \<le> length s \<Longrightarrow> kept_by st st' \<Longrightarrow> seq_run_ok s0 st0 (f (s', st'))"
  shows "seq_run_ok s0 st0 (pbind res f)"
proof -
  from assms(1) obtain r where r: "res = Some r" "\<forall>s' st'. r = Inr (s', st') \<longrightarrow> length s' \<le> length s \<and> kept_by st st'" by (auto simp: run_ok_def)
  then show ?thesis using assms(2) by (cases r) (auto simp: pbind_def)
qed

lemma pbind_run_run:
  assumes "run_ok s st res" "\<And>s' st'. length s' \<le> length s \<Longrightarrow> kept_by st st' \<Longrightarrow> run_ok s0 st0 (f (s', st'))"
  shows "run_ok s0 st0 (pbind res f)"
proof -
  from assms(1) obtain r where r: "res = Some r" "\<forall>s' st'. r = Inr (s', st') \<longrightarrow> length s' \<le> length s \<and> kept_by st st'" by (auto simp: run_ok_def)
  then show ?thesis using assms(2) by (cases r) (auto simp: pbind_def)
qed

lemma pbind_seq_run:
  assumes "seq_run_ok s st res"
    "\<And>s' rule st'. length s' \<le> length s \<Longrightarrow> kept_by st st' \<Longrightarrow> opened rule \<Longrightarrow> only_refs (symbols st') rule \<Longrightarrow> run_ok s0 st0 (f (s', rule, st'))"
  shows "run_ok s0 st0 (pbind res f)"
proof -
  from assms(1) obtain r where r: "res = Some r" "\<forall>s' rule st'. r = Inr (s', rule, st') \<longrightarrow>
     length s' \<le> length s \<and> kept_by st st' \<and> opened rule \<and> only_refs (symbols st') rule" by (auto simp: seq_run_ok_def)
  then show ?thesis using assms(2) by (cases r) (auto simp: pbind_def)
qed

lemma pbind_round:
  assumes "round_ok s st res"
    "\<And>s' q' st'. length s' < length s \<Longrightarrow> kept_by st st' \<Longrightarrow> seq_ok st' q' \<Longrightarrow> seq_run_ok s0 st0 (f (s', q', st'))"
  shows "seq_run_ok s0 st0 (pbind res f)"
proof -
  from assms(1) obtain r where r: "res = Some r" "\<forall>s' q' st'. r = Inr (s', q', st') \<longrightarrow> length s' < length s \<and> kept_by st st' \<and> seq_ok st' q'"
    by (auto simp: round_ok_def)
  then show ?thesis using assms(2) by (cases r) (auto simp: pbind_def)
qed

lemma kept_parser: "kept_by st st' \<Longrightarrow> parser_ok st'"
  by (simp add: kept_by_def)

lemma kept_refl: "parser_ok st \<Longrightarrow> kept_by st st"
  by (simp add: kept_by_def)

lemma add_end_ok:
  assumes "parser_ok st" "opened rule" "only_refs (symbols st) rule"
  shows "kept_by st (add_rule i (rule @ [elem GR_END 0]) st)"
proof -
  have "shaped (rule @ [elem GR_END 0])" using assms(2) by (auto simp: shaped_def)
  moreover have "only_refs (symbols st) (rule @ [elem GR_END 0])" using assms(3) by simp
  ultimately show ?thesis using add_rule_ok [OF assms(1)] by (simp add: kept_by_def)
qed

lemma prev_ok_group: "prev_ok (ucast (max 1 (a - b :: u32)))"
proof -
  have "1 \<le> max 1 (a - b)" by simp
  then have "1 \<le> unat (max 1 (a - b))" by (simp only: word_le_nat_alt) simp
  moreover have "unat (ucast (max 1 (a - b)) :: u64) = unat (max 1 (a - b))" by (simp only: unsigned_ucast_eq) (simp add: take_bit_nat_eq_self unsigned_less [THEN less_le_trans])
  moreover have "unat (max 1 (a - b)) < 2 ^ 32" using unsigned_less [of "max 1 (a - b)"] by simp
  ultimately show ?thesis by (simp add: prev_ok_def)
qed

lemma recursion_ok:
  "(\<forall>name i nested s st. 2 * length s + 2 \<le> n \<longrightarrow> parser_ok st \<longrightarrow> run_ok s st (parse_alternates n vocab name i nested s st)) \<and>
   (\<forall>name i nested s rule st. 2 * length s + 1 \<le> n \<longrightarrow> parser_ok st \<longrightarrow> opened rule \<longrightarrow> only_refs (symbols st) rule \<longrightarrow>
     run_ok s st (alternates_loop n vocab name i nested s rule st)) \<and>
   (\<forall>name nested s q st. 2 * length s + 1 \<le> n \<longrightarrow> parser_ok st \<longrightarrow> seq_ok st q \<longrightarrow> seq_run_ok s st (seq_loop n vocab name nested s q st))"
proof (induction n)
  case (Suc n)
  note alt = Suc [THEN conjunct1, rule_format] and loop = Suc [THEN conjunct2, THEN conjunct1, rule_format]
    and seq = Suc [THEN conjunct2, THEN conjunct2, rule_format]
  show ?case
  proof (intro conjI allI impI)
    fix name i nested st and s :: "byte list" assume n: "2 * length s + 2 \<le> Suc n" and st: "parser_ok st"
    have q: "seq_ok st \<lparr>sq_rule = [], sq_last = 0, sq_prev = 1\<rparr>" by (simp add: seq_ok_def prev_ok_1)
    show "run_ok s st (parse_alternates (Suc n) vocab name i nested s st)"
      unfolding parse_alternates.simps
    proof (rule pbind_seq_run [OF seq [OF _ st q]])
      show "2 * length s + 1 \<le> n" using n by simp
      fix s' :: "byte list" and rule st' assume *: "length s' \<le> length s" "kept_by st st'" "opened rule" "only_refs (symbols st') rule"
      have "run_ok s' st' (alternates_loop n vocab name i nested s' rule st')"
        by (rule loop [OF _ kept_parser [OF *(2)] *(3,4)]) (use n *(1) in simp)
      from run_weaken [OF this *(1,2)] show "run_ok s st (case (s', rule, st') of (s, rule, st) \<Rightarrow> alternates_loop n vocab name i nested s rule st)" by simp
    qed
  next
    fix name i nested rule st and s :: "byte list" assume n: "2 * length s + 1 \<le> Suc n" and st: "parser_ok st" and r: "opened rule" "only_refs (symbols st) rule"
    show "run_ok s st (alternates_loop (Suc n) vocab name i nested s rule st)"
    proof (cases "peek s = 124")
      case True
      then obtain c cs where s: "s = c # cs" by (cases s) (auto simp: peek_def)
      let ?r = "rule @ [elem GR_ALT 0]"
      let ?q = "\<lparr>sq_rule = ?r, sq_last = length ?r, sq_prev = 1\<rparr>"
      let ?s = "parse_space True (tl s)"
      have l: "length ?s \<le> length cs" using parse_space_shorter [of True cs] s by simp
      have q: "seq_ok st ?q" using r by (simp add: seq_ok_def prev_ok_1 opened_snoc)
      show ?thesis
        unfolding alternates_loop.simps if_P [OF True] Let_def
      proof (rule pbind_seq_run [OF seq [OF _ st q]])
        show "2 * length ?s + 1 \<le> n" using n l s by simp
        fix s' :: "byte list" and rule' st' assume *: "length s' \<le> length ?s" "kept_by st st'" "opened rule'" "only_refs (symbols st') rule'"
        have "run_ok s' st' (alternates_loop n vocab name i nested s' rule' st')"
          by (rule loop [OF _ kept_parser [OF *(2)] *(3,4)]) (use n *(1) l s in simp)
        from run_weaken [OF this _ *(2), of s] *(1) l s
        show "run_ok s st (case (s', rule', st') of (s, rule, st) \<Rightarrow> alternates_loop n vocab name i nested s rule st)" by simp
      qed
    next
      case False
      then show ?thesis using add_end_ok [OF st r] by (simp add: run_ok_def)
    qed
  next
    fix name nested q st and s :: "byte list" assume n: "2 * length s + 1 \<le> Suc n" and st: "parser_ok st" and q: "seq_ok st q"
    have stop: "seq_run_ok s st (Some (Inr (s, sq_rule q, st)))" using q kept_refl [OF st] by (simp add: seq_run_ok_def seq_ok_def)
    show "seq_run_ok s st (seq_loop (Suc n) vocab name nested s q st)"
    proof (cases s)
      case (Cons c cs)
      show ?thesis
      proof (cases "c = 40")
        case True
        obtain i st1 where g: "generate_symbol_id name st = (i, st1)" by fastforce
        from generate_symbol_ok [OF st g] have st1: "parser_ok st1" "kept_by st st1" "i \<in> symbols st1" by (simp_all add: kept_by_def)
        let ?s = "parse_space True cs"
        have l: "length ?s \<le> length cs" by (rule parse_space_shorter)
        have "run_ok ?s st1 (parse_alternates n vocab name i True ?s st1)"
          by (rule alt [OF _ st1(1)]) (use n l Cons in simp)
        then have "seq_run_ok s st (pbind (parse_alternates n vocab name i True ?s st1) (\<lambda>(s, st').
            if peek s \<noteq> 41 then Some (Inl Expecting_paren)
            else seq_loop n vocab name nested (parse_space nested (tl s)) \<lparr>sq_rule = sq_rule q @ [elem GR_RULE_REF i],
              sq_last = length (sq_rule q), sq_prev = ucast (max 1 (next_symbol st' - next_symbol st))\<rparr> st'))"
        proof (rule pbind_run)
          fix s2 :: "byte list" and st2 assume *: "length s2 \<le> length ?s" "kept_by st1 st2"
          let ?s3 = "parse_space nested (tl s2)"
          let ?q = "\<lparr>sq_rule = sq_rule q @ [elem GR_RULE_REF i], sq_last = length (sq_rule q), sq_prev = ucast (max 1 (next_symbol st2 - next_symbol st))\<rparr>"
          have k: "kept_by st st2" by (rule kept_by_trans [OF st1(2) *(2)])
          have l3: "length ?s3 \<le> length cs" using parse_space_shorter [of nested "tl s2"] tl_le [of s2] *(1) l by simp
          have sq: "seq_ok st2 ?q"
            by (rule seq_ok_item [OF q extends_one _ prev_ok_group]) (use k *(2) st1(3) in \<open>auto simp: kept_by_def\<close>)
          have "seq_run_ok ?s3 st2 (seq_loop n vocab name nested ?s3 ?q st2)"
            by (rule seq [OF _ kept_parser [OF k] sq]) (use n l3 Cons in simp)
          from seq_run_weaken [OF this _ k, of s] l3 Cons
          show "seq_run_ok s st (case (s2, st2) of (s, st') \<Rightarrow> if peek s \<noteq> 41 then Some (Inl Expecting_paren)
            else seq_loop n vocab name nested (parse_space nested (tl s)) \<lparr>sq_rule = sq_rule q @ [elem GR_RULE_REF i],
              sq_last = length (sq_rule q), sq_prev = ucast (max 1 (next_symbol st' - next_symbol st))\<rparr> st')" by simp
        qed
        then show ?thesis using True Cons g by (simp add: Let_def)
      next
        case False
        show ?thesis
        proof (cases "seq_item vocab name nested c cs q st")
          case None
          then show ?thesis using False Cons stop by simp
        next
          case (Some res)
          have "seq_run_ok s st (pbind res (\<lambda>(s, q, st). seq_loop n vocab name nested s q st))"
          proof (rule pbind_round [OF seq_item_ok [OF st q Some]])
            fix s' :: "byte list" and q' st' assume *: "length s' < length (c # cs)" "kept_by st st'" "seq_ok st' q'"
            have "seq_run_ok s' st' (seq_loop n vocab name nested s' q' st')"
              by (rule seq [OF _ kept_parser [OF *(2)] *(3)]) (use n *(1) Cons in simp)
            from seq_run_weaken [OF this _ *(2), of s] *(1) Cons
            show "seq_run_ok s st (case (s', q', st') of (s, q, st) \<Rightarrow> seq_loop n vocab name nested s q st)" by simp
          qed
          then show ?thesis using False Cons Some by simp
        qed
      qed
    qed (use stop in simp)
  qed
qed simp

end
