(* ===== verification/GbnfProps.thy ===== *)
theory GbnfProps
  imports GbnfWf GrammarOutput
begin

text \<open>
  From a GBNF text to a grammar: the parser ends on every text with well-formed rules, and the constructor makes
  of them a grammar that accepts their language. Where the name of the start rule has no rule, it reads past the
  rules.
\<close>

section \<open>The rules of a text\<close>

lemma parse_rule_ok:
  assumes "2 * length s \<le> n" "parser_ok st"
  shows "\<exists>r. parse_rule n vocab s st = Some r \<and> (\<forall>s' st'. r = Inr (s', st') \<longrightarrow> length s' < length s \<and> kept_by st st')"
proof (cases "parse_name s")
  case (Inl e)
  then show ?thesis by (simp add: parse_rule_def pbind_def)
next
  case (Inr x)
  obtain name pos where x: "x = (name, pos)" by (cases x)
  note nm = parse_name_rest [OF Inr [unfolded x]]
  define p1 where "p1 = parse_space False pos"
  obtain i st1 where g: "get_symbol_id name st = (i, st1)" by fastforce
  from get_symbol_ok [OF assms(2) g] nm have st1: "parser_ok st1" "kept_by st st1" by (simp_all add: kept_by_def)
  define p2 where "p2 = parse_space True (drop 3 p1)"
  have l: "length p2 < length s"
    using nm [THEN conjunct1] parse_space_shorter [of False pos] parse_space_shorter [of True "drop 3 p1"]
    unfolding p1_def p2_def length_drop by linarith
  have "2 * length p2 + 2 \<le> n" using l assms(1) by simp
  with recursion_ok [of n vocab] st1(1) have "run_ok p2 st1 (parse_alternates n vocab name i False p2 st1)" by blast
  then obtain r where r: "parse_alternates n vocab name i False p2 st1 = Some r"
    "\<forall>s' st'. r = Inr (s', st') \<longrightarrow> length s' \<le> length p2 \<and> kept_by st1 st'" unfolding run_ok_def by blast
  have sp: "length (parse_space True (tl q)) \<le> length q" "length (parse_space True (tl (tl q))) \<le> length q" for q
    using parse_space_shorter [of True "tl q"] parse_space_shorter [of True "tl (tl q)"] tl_le [of q] tl_le [of "tl q"] by simp_all
  have k: "kept_by st st'" if "kept_by st1 st'" for st' by (rule kept_by_trans [OF st1(2) that])
  show ?thesis
  proof (cases "take 3 p1 \<noteq> [58, 58, 61]")
    case True
    then show ?thesis using Inr x g by (simp add: parse_rule_def pbind_def p1_def)
  next
    case False
    show ?thesis
    proof (cases r)
      case (Inl e)
      then show ?thesis using Inr x g False r(1) by (simp add: parse_rule_def pbind_def p1_def p2_def)
    next
      case (Inr y)
      obtain q st2 where y: "y = (q, st2)" by (cases y)
      have q: "length q \<le> length p2" "kept_by st st2" using r(2) Inr y k by simp_all
      have run: "parse_rule n vocab s st = (if peek q = 13 then Some (Inr (parse_space True (if peek (tl q) = 10 then tl (tl q) else tl q), st2))
         else if peek q = 10 then Some (Inr (parse_space True (tl q), st2))
         else if q \<noteq> [] then Some (Inl Expecting_newline)
         else Some (Inr (parse_space True q, st2)))"
        using \<open>parse_name s = Inr x\<close> x g False r(1) Inr y by (simp add: parse_rule_def pbind_def p1_def p2_def)
      show ?thesis unfolding run using q l sp [of q] parse_space_shorter [of True q] by auto
    qed
  qed
qed

lemma parse_rules_ok:
  "2 * length s + 1 \<le> n \<Longrightarrow> parser_ok st \<Longrightarrow> \<exists>r. parse_rules n vocab s st = Some r \<and> (\<forall>st'. r = Inr st' \<longrightarrow> parser_ok st')"
proof (induction n arbitrary: s st)
  case (Suc n)
  show ?case
  proof (cases "s = []")
    case False
    have "2 * length s \<le> n" using Suc.prems(1) by simp
    from parse_rule_ok [OF this Suc.prems(2)] obtain r where
      r: "parse_rule n vocab s st = Some r" "\<forall>s' st'. r = Inr (s', st') \<longrightarrow> length s' < length s \<and> kept_by st st'" by blast
    then show ?thesis using Suc.IH Suc.prems(1) False by (cases r) (auto simp: pbind_def kept_by_def)
  qed (use Suc.prems in simp)
qed simp

lemma validate_wf:
  assumes "parser_ok st" "validate st = Inr st'"
  shows "st' = st \<and> wf_rules (gp_rules st) \<and> (\<forall>rule\<in>set (gp_rules st). ends_zero rule)"
proof -
  from assms(2) have st': "st' = st" and find: "List.find (\<lambda>rule. rule = [] \<or> list_ex (undefined_ref st) rule) (gp_rules st) = None"
    by (auto simp: validate_def split: option.splits)
  have "wf_rule (length (gp_rules st)) rule \<and> ends_zero rule" if "rule \<in> set (gp_rules st)" for rule
  proof -
    from find that have r: "rule \<noteq> []" "\<forall>e\<in>set rule. \<not> undefined_ref st e" by (auto simp: find_None_iff list_ex_iff)
    with assms(1) that have "shaped rule" "only_refs (symbols st) rule" by (auto simp: parser_ok_def)
    moreover have "unat (ge_value e) < length (gp_rules st)" if "e \<in> set rule" "ge_type e = GR_RULE_REF" for e
      using r(2) \<open>only_refs (symbols st) rule\<close> that by (force simp: undefined_ref_def only_refs_def symbols_def)
    ultimately show ?thesis using shaped_wf [of rule "length (gp_rules st)"] by (simp add: ends_zero_def)
  qed
  with st' show ?thesis by (simp add: wf_rules_def)
qed

lemma parse_grammar_ok:
  "\<exists>r. parse_grammar vocab src = Some r \<and> (\<forall>st. r = Inr st \<longrightarrow> wf_rules (gp_rules st) \<and> (\<forall>rule\<in>set (gp_rules st). ends_zero rule))"
proof -
  define s where "s = takeWhile (\<lambda>c. c \<noteq> 0) src"
  have "parser_ok \<lparr>gp_symbols = [], gp_rules = []\<rparr>" by (simp add: parser_ok_def)
  moreover have "2 * length (parse_space True s) + 1 \<le> parse_fuel s" using parse_space_shorter [of True s] by (simp add: parse_fuel_def)
  ultimately obtain r where r: "parse_rules (parse_fuel s) vocab (parse_space True s) \<lparr>gp_symbols = [], gp_rules = []\<rparr> = Some r"
    "\<forall>st. r = Inr st \<longrightarrow> parser_ok st" using parse_rules_ok by blast
  then show ?thesis using validate_wf by (cases r) (auto simp: parse_grammar_def Let_def s_def [symmetric] pbind_def)
qed

lemma grammar_init_str_run:
  assumes p: "parse_grammar vocab src = Some (Inr st)" and root: "map_of (gp_symbols st) root = Some start" "unat start < length (gp_rules st)"
    and nlr: "no_left_recursion (gp_rules st)"
  shows "\<exists>g. grammar_init_str vocab src root lazy ps ts = Some (Some g) \<and> gr_rules g = gp_rules st \<and> gr_awaiting g = lazy \<and>
    ready (gp_rules st) (gr_stacks g) \<and> (\<forall>w. (\<exists>s\<in>set (gr_stacks g). gen_stack (gp_rules st) s w) \<longleftrightarrow> generates (gp_rules st) (unat start) w)"
proof -
  from parse_grammar_ok [of vocab src] p have wf: "wf_rules (gp_rules st)" "\<forall>rule\<in>set (gp_rules st). ends_zero rule" by auto
  have "left_recursion_check (gp_rules st) = Some True"
    using left_recursion_decided(1,2) [OF wf(1)] nlr by (cases "left_recursion_check (gp_rules st)") auto
  moreover from init_stacks_run [OF wf(1) nlr root(2)] obtain stacks where "init_stacks (gp_rules st) (unat start) = Some stacks"
    "ready (gp_rules st) stacks" "\<forall>w. (\<exists>s\<in>set stacks. gen_stack (gp_rules st) s w) \<longleftrightarrow> generates (gp_rules st) (unat start) w" by blast
  moreover have "gp_rules st \<noteq> []" using root(2) by auto
  ultimately show ?thesis using p root(1) copy_rules_id [OF wf] by (simp add: grammar_init_str_def)
qed

section \<open>Properties\<close>

text \<open>C14. The parser of GBNF texts returns for every text and accepts only well-formed rules. A rejected text and a
  start symbol without an identifier give no grammar. When the start symbol has an identifier and that identifier has a
  rule, and the parsed rules have no left recursion, the constructor gives a grammar whose automaton returns on every
  sequence of code points and is finished exactly on the words of the start rule. (Nothing is said of a start symbol that
  was only named, or of rules whose left recursion the constructor does not see.)\<close>

theorem gbnf_grammar:
  "\<exists>r. parse_grammar vocab src = Some r \<and> (case r of
     Inl e \<Rightarrow> grammar_init_str vocab src root lazy ps ts = Some None
   | Inr st \<Rightarrow> wf_rules (gp_rules st) \<and>
       (map_of (gp_symbols st) root = None \<longrightarrow> grammar_init_str vocab src root lazy ps ts = Some None) \<and>
       (\<forall>start. map_of (gp_symbols st) root = Some start \<and> unat start < length (gp_rules st) \<and> no_left_recursion (gp_rules st) \<longrightarrow>
         (\<exists>g. grammar_init_str vocab src root lazy ps ts = Some (Some g) \<and> gr_rules g = gp_rules st \<and> gr_awaiting g = lazy \<and>
           (\<forall>w. \<exists>g'. foldM grammar_accept w g = Some g' \<and>
             ([] \<in> set (gr_stacks g') \<longleftrightarrow> generates (gp_rules st) (unat start) w)))))"
proof -
  from parse_grammar_ok [of vocab src] obtain r where
    r: "parse_grammar vocab src = Some r" "\<forall>st. r = Inr st \<longrightarrow> wf_rules (gp_rules st)" by blast
  show ?thesis
  proof (cases r)
    case (Inl e)
    then show ?thesis using r(1) by (simp add: grammar_init_str_def)
  next
    case (Inr st)
    have none: "grammar_init_str vocab src root lazy ps ts = Some None" if "map_of (gp_symbols st) root = None"
      using r(1) Inr that by (simp add: grammar_init_str_def)
    have "\<exists>g. grammar_init_str vocab src root lazy ps ts = Some (Some g) \<and> gr_rules g = gp_rules st \<and> gr_awaiting g = lazy \<and>
        (\<forall>w. \<exists>g'. foldM grammar_accept w g = Some g' \<and> ([] \<in> set (gr_stacks g') \<longleftrightarrow> generates (gp_rules st) (unat start) w))"
      if start: "map_of (gp_symbols st) root = Some start" "unat start < length (gp_rules st)" and nlr: "no_left_recursion (gp_rules st)" for start
    proof -
      from grammar_init_str_run [OF _ start nlr, of vocab src lazy ps ts] r(1) Inr obtain g where
        g: "grammar_init_str vocab src root lazy ps ts = Some (Some g)" "gr_rules g = gp_rules st" "gr_awaiting g = lazy"
          "ready (gp_rules st) (gr_stacks g)" "\<forall>w. (\<exists>s\<in>set (gr_stacks g). gen_stack (gp_rules st) s w) \<longleftrightarrow> generates (gp_rules st) (unat start) w"
        by blast
      have "\<exists>g'. foldM grammar_accept w g = Some g' \<and> ([] \<in> set (gr_stacks g') \<longleftrightarrow> generates (gp_rules st) (unat start) w)" for w
      proof -
        from grammar_accept_word [of g w] g r(2) Inr nlr obtain g' where
          g': "foldM grammar_accept w g = Some g'" "ready (gp_rules st) (gr_stacks g')"
            "\<forall>v. (\<exists>s\<in>set (gr_stacks g'). gen_stack (gp_rules st) s v) \<longleftrightarrow> generates (gp_rules st) (unat start) (w @ v)" by auto
        then have "[] \<in> set (gr_stacks g') \<longleftrightarrow> generates (gp_rules st) (unat start) w" using ready_accepts_empty [OF g'(2)] by auto
        with g'(1) show ?thesis by blast
      qed
      with g(1-3) show ?thesis by blast
    qed
    with r Inr none show ?thesis by auto
  qed
qed

definition word_text :: "byte list" where
  \<comment> \<open>\<open>root ::= "a" root | "b"\<close>\<close>
  "word_text = [114, 111, 111, 116, 32, 58, 58, 61, 32, 34, 97, 34, 32, 114, 111, 111, 116, 32, 124, 32, 34, 98, 34]"

definition root_name :: "byte list" where
  "root_name = [114, 111, 111, 116]"

lemma parse_word_text: "parse_grammar None word_text = Some (Inr \<lparr>gp_symbols = [(root_name, 0)], gp_rules = g_word\<rparr>)"
  by code_simp

theorem gbnf_grammar_witness:
  "\<exists>g g'. grammar_init_str None word_text root_name False [] [] = Some (Some g) \<and> foldM grammar_accept [97, 98] g = Some g' \<and>
    [] \<in> set (gr_stacks g')"
proof -
  have l: "unat (0 :: u32) < length g_word" by (simp add: g_word_def)
  from gbnf_grammar [of None word_text root_name False "[]" "[]"] parse_word_text obtain g where
    g: "grammar_init_str None word_text root_name False [] [] = Some (Some g)"
      "\<forall>w. \<exists>g'. foldM grammar_accept w g = Some g' \<and> ([] \<in> set (gr_stacks g') \<longleftrightarrow> generates g_word 0 w)"
    using l g_word_nlr by auto
  with g_word_ab show ?thesis by blast
qed

text \<open>
  A start rule that is only named, in an item repeated zero times, has an identifier but no rule: the parser
  accepts the text, and the constructor reads past the vector of the rules.
\<close>

lemma gbnf_start_missing:
  "(case parse_grammar None ([120, 121, 122, 32, 58, 58, 61, 32, 34, 97, 34, 32, 114, 111, 111, 116, 123, 48, 125]) of
     Some (Inr st) \<Rightarrow> map_of (gp_symbols st) root_name = Some 1 \<and> length (gp_rules st) = 1
   | _ \<Rightarrow> False) \<and>
   grammar_init_str None ([120, 121, 122, 32, 58, 58, 61, 32, 34, 97, 34, 32, 114, 111, 111, 116, 123, 48, 125]) root_name False [] [] = None"
  by code_simp

text \<open>
  Bounds in the wrong order are not rejected: the number of optional rules for \<open>{3,2}\<close> wraps to the greatest
  \<open>uint64_t\<close>, so that the loop that makes them does not end in practice.
\<close>

lemma swapped_bounds: "parse_bounds False [51, 44, 50, 125] = Inr (3, 2, [])" "n_optional 3 2 = -1"
  by code_simp+

end
