(* ===== verification/GbnfRepeat.thy ===== *)
theory GbnfRepeat
  imports GbnfWf GrammarLang
begin

text \<open>
  What a repetition means: the elements and the rules that \<open>handle_repetitions\<close> puts in place of an item generate
  the words of the item repeated as often as the bounds allow. The words of a list of elements are defined on the
  list, and agree with what the engine generates at a position where the list stands.
\<close>

section \<open>Words of a list of elements\<close>

abbreviation stop :: gelem where
  "stop \<equiv> elem GR_END 0"

inductive seq_lang :: "grule list \<Rightarrow> gelem list \<Rightarrow> u32 list \<Rightarrow> bool" for R where
  sl_nil: "seq_lang R [] []"
| sl_ref: "ge_type e = GR_RULE_REF \<Longrightarrow> generates R (unat (ge_value e)) u \<Longrightarrow> seq_lang R es v \<Longrightarrow> seq_lang R (e # es) (u @ v)"
| sl_class: "is_class e \<Longrightarrow> in_ranges c (fst (class_ranges (e # es @ [stop]))) = is_positive e \<Longrightarrow>
    seq_lang R (drop (snd (class_ranges (e # es @ [stop]))) (e # es)) w \<Longrightarrow> seq_lang R (e # es) (c # w)"

inductive_cases seq_langE: "seq_lang R (e # es) w"
inductive_simps seq_lang_Nil: "seq_lang R [] w"

definition plain :: "gelem list \<Rightarrow> bool" where
  \<comment> \<open>the elements of one alternate\<close>
  "plain es \<longleftrightarrow> (\<forall>e\<in>set es. \<not> is_end_of_sequence e)"

lemma class_ranges_context:
  assumes "xs \<noteq> []" "ys \<noteq> []" "zs \<noteq> []" "\<not> is_modifier (hd ys)" "\<not> is_modifier (hd zs)"
  shows "class_ranges (xs @ ys) = class_ranges (xs @ zs) \<and> 1 \<le> snd (class_ranges (xs @ ys)) \<and> snd (class_ranges (xs @ ys)) \<le> length xs"
  using assms(1)
proof (induction "length xs" arbitrary: xs rule: less_induct)
  case less
  obtain y ys' z zs' where yz: "ys = y # ys'" "zs = z # zs'" using assms(2,3) by (meson neq_Nil_conv)
  have m: "ge_type y \<noteq> GR_CHAR_RNG_UPPER" "ge_type y \<noteq> GR_CHAR_ALT" "ge_type z \<noteq> GR_CHAR_RNG_UPPER" "ge_type z \<noteq> GR_CHAR_ALT"
    using assms(4,5) yz by (simp_all add: is_modifier_def)
  obtain e es where xs: "xs = e # es" using less.prems by (cases xs) auto
  show ?case
  proof (cases es)
    case Nil
    then show ?thesis using xs yz m by simp
  next
    case (Cons e' es')
    note IH1 = less.hyps [of es'] and IH2 = less.hyps [of "e' # es'"]
    show ?thesis
    proof (cases es')
      case Nil
      then show ?thesis using xs Cons yz m IH2 by (auto split: prod.splits)
    next
      case (Cons e'' es'')
      then show ?thesis using xs \<open>es = e' # es'\<close> IH1 IH2 by (auto split: prod.splits)
    qed
  qed
qed

lemma class_ranges_stop:
  assumes "ys \<noteq> []" "\<not> is_modifier (hd ys)"
  shows "class_ranges (e # es @ ys) = class_ranges (e # es @ [stop])"
    "1 \<le> snd (class_ranges (e # es @ [stop]))" "snd (class_ranges (e # es @ [stop])) \<le> Suc (length es)"
proof -
  have c: "class_ranges ((e # es) @ [stop]) = class_ranges ((e # es) @ ys) \<and> 1 \<le> snd (class_ranges ((e # es) @ [stop])) \<and>
      snd (class_ranges ((e # es) @ [stop])) \<le> length (e # es)"
    by (rule class_ranges_context) (use assms in simp_all)
  show "class_ranges (e # es @ ys) = class_ranges (e # es @ [stop])" by (rule c [THEN conjunct1, symmetric, unfolded append_Cons])
  show "1 \<le> snd (class_ranges (e # es @ [stop]))" by (rule c [THEN conjunct2, THEN conjunct1, unfolded append_Cons])
  show "snd (class_ranges (e # es @ [stop])) \<le> Suc (length es)" by (rule c [THEN conjunct2, THEN conjunct2, unfolded append_Cons length_Cons])
qed

lemma seq_lang_append_intro: "seq_lang R a u \<Longrightarrow> seq_lang R b v \<Longrightarrow> starts_ok b \<Longrightarrow> seq_lang R (a @ b) (u @ v)"
proof (induction a u rule: seq_lang.induct)
  case (sl_ref e x es y)
  then show ?case using seq_lang.sl_ref [of e R x "es @ b" "y @ v"] by simp
next
  case (sl_class e c es w)
  have "class_ranges (e # (es @ b) @ [stop]) = class_ranges (e # es @ [stop])"
    using class_ranges_stop(1) [of "b @ [stop]" e es] sl_class.prems(2) by (cases b) (auto simp: starts_ok_def)
  moreover have "drop (snd (class_ranges (e # es @ [stop]))) (e # es @ b) = drop (snd (class_ranges (e # es @ [stop]))) (e # es) @ b"
    using class_ranges_stop(3) [of "[stop]" e es] by (simp flip: append_Cons)
  ultimately show ?case using seq_lang.sl_class [of e c "es @ b" R "w @ v"] sl_class.hyps(1,2) sl_class.IH [OF sl_class.prems] by simp
qed simp

lemma seq_lang_append_elim:
  "seq_lang R (a @ b) w \<Longrightarrow> starts_ok b \<Longrightarrow> \<exists>u v. w = u @ v \<and> seq_lang R a u \<and> seq_lang R b v"
proof (induction "length a" arbitrary: a w rule: less_induct)
  case less
  show ?case
  proof (cases a)
    case Nil
    then show ?thesis using less.prems(1) sl_nil by (intro exI [of _ "[]"] exI [of _ w]) simp
  next
    case (Cons e es)
    with less.prems(1) have "seq_lang R (e # es @ b) w" by simp
    then show ?thesis
    proof (rule seq_langE)
      fix u v assume *: "w = u @ v" "ge_type e = GR_RULE_REF" "generates R (unat (ge_value e)) u" "seq_lang R (es @ b) v"
      from less.hyps [of es, OF _ *(4) less.prems(2)] Cons obtain v1 v2 where "v = v1 @ v2" "seq_lang R es v1" "seq_lang R b v2" by auto
      then show ?thesis using * Cons seq_lang.sl_ref [OF *(2,3)] by (intro exI [of _ "u @ v1"] exI [of _ v2]) simp
    next
      fix c w' assume *: "w = c # w'" "is_class e" "in_ranges c (fst (class_ranges (e # (es @ b) @ [stop]))) = is_positive e"
        "seq_lang R (drop (snd (class_ranges (e # (es @ b) @ [stop]))) (e # es @ b)) w'"
      have eq: "class_ranges (e # (es @ b) @ [stop]) = class_ranges (e # es @ [stop])"
        using class_ranges_stop(1) [of "b @ [stop]" e es] less.prems(2) by (cases b) (auto simp: starts_ok_def)
      let ?n = "snd (class_ranges (e # es @ [stop]))"
      have n: "1 \<le> ?n" "?n \<le> Suc (length es)" using class_ranges_stop(2,3) [of "[stop]" e es] by simp_all
      have "drop ?n (e # es @ b) = drop ?n (e # es) @ b" using n(2) by (simp flip: append_Cons)
      with *(4) have "seq_lang R (drop ?n (e # es) @ b) w'" unfolding eq by simp
      moreover have "length (drop ?n (e # es)) < length a" using n Cons by simp
      ultimately obtain u v where uv: "w' = u @ v" "seq_lang R (drop ?n (e # es)) u" "seq_lang R b v" using less.hyps less.prems(2) by blast
      then have "seq_lang R a (c # u)" using seq_lang.sl_class [OF *(2), of c es R u] *(3) eq Cons by simp
      then show ?thesis using *(1) uv by (intro exI [of _ "c # u"] exI [of _ v]) simp
    qed
  qed
qed

lemma seq_lang_append: "starts_ok b \<Longrightarrow> seq_lang R (a @ b) w \<longleftrightarrow> (\<exists>u v. w = u @ v \<and> seq_lang R a u \<and> seq_lang R b v)"
  by (rule iffI, erule (1) seq_lang_append_elim) (auto intro: seq_lang_append_intro)

lemma seq_lang_ref: "seq_lang R [elem GR_RULE_REF i] w \<longleftrightarrow> generates R (unat i) w"
proof
  assume "seq_lang R [elem GR_RULE_REF i] w"
  then show "generates R (unat i) w"
  proof (rule seq_langE)
    fix u v assume "w = u @ v" "generates R (unat (ge_value (elem GR_RULE_REF i))) u" "seq_lang R [] v"
    then show ?thesis by (simp add: seq_lang_Nil)
  next
    assume "is_class (elem GR_RULE_REF i)"
    then show ?thesis by (simp add: is_class_def is_positive_def)
  qed
next
  assume "generates R (unat i) w"
  then show "seq_lang R [elem GR_RULE_REF i] w" using sl_ref [of "elem GR_RULE_REF i" R w "[]" "[]"] sl_nil by simp
qed

section \<open>Positions\<close>

lemma gen_stop: "elem_at R p = Some e \<Longrightarrow> is_end_of_sequence e \<Longrightarrow> gen R p w \<longleftrightarrow> w = []"
  by (rule gen_at_end)

lemma gen_ref_iff:
  assumes "elem_at R p = Some e" "ge_type e = GR_RULE_REF"
  shows "gen R p w \<longleftrightarrow> (\<exists>u v. w = u @ v \<and> generates R (unat (ge_value e)) u \<and> gen R (next_pos p) v)"
proof (cases "alt_starts R (unat (ge_value e))")
  case (Some starts)
  then show ?thesis using gen_at_ref [OF assms Some] by (simp add: generates_def)
next
  case None
  have "\<not> gen R p w"
  proof
    assume "gen R p w"
    then show False
    proof (rule genE)
      fix e' assume "elem_at R p = Some e'" "is_end_of_sequence e'"
      with assms type_simps(1) [of e'] show ?thesis by simp
    next
      fix e' starts assume "elem_at R p = Some e'" "alt_starts R (unat (ge_value e')) = Some starts"
      with assms None show ?thesis by simp
    next
      fix e' assume "elem_at R p = Some e'" "is_class e'"
      with assms type_simps(2) [of e'] show ?thesis by simp
    qed
  qed
  then show ?thesis using None by (simp add: generates_def)
qed

text \<open>The words at a position are those of the elements up to the end of the alternate.\<close>

lemma gen_seq_lang:
  assumes "r < length R" "drop i (R ! r) = es @ e0 # rest" "plain es" "is_end_of_sequence e0"
  shows "gen R (r, i) w \<longleftrightarrow> seq_lang R es w"
  using assms(2,3)
proof (induction "length es" arbitrary: es i w rule: less_induct)
  case less
  have i: "i < length (R ! r)" using less.prems(1) by (metis append_is_Nil_conv drop_eq_Nil list.distinct(1) not_le)
  show ?case
  proof (cases es)
    case Nil
    then have "elem_at R (r, i) = Some e0" using less.prems(1) i assms(1) by (simp add: elem_at_Some) (metis hd_drop_conv_nth list.sel(1))
    then show ?thesis using gen_stop [OF _ assms(4)] Nil by (simp add: seq_lang_Nil)
  next
    case (Cons e es')
    have e: "elem_at R (r, i) = Some e" using less.prems(1) i assms(1) Cons by (simp add: elem_at_Some) (metis hd_drop_conv_nth list.sel(1))
    have d: "drop (i + k) (R ! r) = drop k es @ e0 # rest" if "k \<le> length es" for k
      using arg_cong [OF less.prems(1), of "drop k"] that by (simp add: add.commute)
    have pl: "plain (drop k es)" for k using less.prems(2) set_drop_subset [of k es] by (auto simp: plain_def)
    consider (ref) "ge_type e = GR_RULE_REF" | (cls) "is_class e" | (other) "ge_type e \<noteq> GR_RULE_REF" "\<not> is_class e" by blast
    then show ?thesis
    proof cases
      case ref
      have IH: "gen R (r, i + 1) v \<longleftrightarrow> seq_lang R es' v" for v
        using less.hyps [of es' "i + 1" v] d [of 1] pl [of 1] Cons by simp
      have nc: "\<not> is_class e" using ref by (simp add: is_class_def is_positive_def)
      have "seq_lang R es w \<longleftrightarrow> (\<exists>u v. w = u @ v \<and> generates R (unat (ge_value e)) u \<and> seq_lang R es' v)"
      proof
        assume "seq_lang R es w"
        then show "\<exists>u v. w = u @ v \<and> generates R (unat (ge_value e)) u \<and> seq_lang R es' v" unfolding Cons
          by (rule seq_langE) (use nc in auto)
      qed (use sl_ref [OF ref] Cons in auto)
      then show ?thesis using gen_ref_iff [OF e ref] IH by (simp add: next_pos_def)
    next
      case cls
      let ?n = "snd (class_ranges (e # es' @ [stop]))"
      have nm: "\<not> is_modifier e0" using assms(4) by (auto simp: is_end_of_sequence_def is_modifier_def)
      have cr: "class_ranges (drop i (R ! r)) = class_ranges (e # es' @ [stop])" "1 \<le> ?n" "?n \<le> length es"
        using class_ranges_stop [of "e0 # rest" e es'] nm less.prems(1) Cons by simp_all
      have ce: "class_end R (r, i) = (r, i + ?n)" "class_accepts R (r, i) e c \<longleftrightarrow> in_ranges c (fst (class_ranges (e # es' @ [stop]))) = is_positive e" for c
        using cr(1) by (simp_all add: class_end_def class_accepts_def class_at_def)
      have IH: "gen R (r, i + ?n) v \<longleftrightarrow> seq_lang R (drop ?n es) v" for v
        using less.hyps [of "drop ?n es" "i + ?n" v] d [OF cr(3)] pl [of ?n] cr(2,3) by simp
      have nr: "ge_type e \<noteq> GR_RULE_REF" using cls by (auto simp: is_class_def is_positive_def)
      have "seq_lang R es w \<longleftrightarrow> (\<exists>c v. w = c # v \<and> in_ranges c (fst (class_ranges (e # es' @ [stop]))) = is_positive e \<and> seq_lang R (drop ?n es) v)"
      proof
        assume "seq_lang R es w"
        then show "\<exists>c v. w = c # v \<and> in_ranges c (fst (class_ranges (e # es' @ [stop]))) = is_positive e \<and> seq_lang R (drop ?n es) v" unfolding Cons
          by (rule seq_langE) (use nr in auto)
      qed (use sl_class [OF cls] Cons in auto)
      then show ?thesis using gen_at_class [OF e cls] IH ce by simp
    next
      case other
      then have "\<not> seq_lang R es w" unfolding Cons by (auto elim: seq_langE)
      moreover have "\<not> gen R (r, i) w"
      proof
        assume "gen R (r, i) w"
        then show False by (rule genE) (use e other less.prems(2) Cons in \<open>auto simp: plain_def\<close>)
      qed
      ultimately show ?thesis by simp
    qed
  qed
qed

section \<open>The rules of a repetition\<close>

fun seq_pow :: "grule list \<Rightarrow> gelem list \<Rightarrow> nat \<Rightarrow> u32 list \<Rightarrow> bool" where
  \<comment> \<open>so many words of the elements, one after the other\<close>
  "seq_pow R es 0 w \<longleftrightarrow> w = []"
| "seq_pow R es (Suc k) w \<longleftrightarrow> (\<exists>u v. w = u @ v \<and> seq_lang R es u \<and> seq_pow R es k v)"

lemma plain_end: "plain es \<Longrightarrow> e \<in> set es \<Longrightarrow> ge_type e \<noteq> GR_END \<and> ge_type e \<noteq> GR_ALT"
  by (auto simp: plain_def is_end_of_sequence_def)

lemma scan_optional: "plain es \<Longrightarrow> scan_alts (es @ [elem GR_ALT 0, stop]) k = Some [k + length es + 1]"
proof (induction es arbitrary: k)
  case (Cons e es)
  then show ?case using plain_end [OF Cons.prems, of e] by (simp add: plain_def)
qed simp

lemma generates_optional:
  assumes "r < length R" "R ! r = es @ [elem GR_ALT 0, stop]" "plain es"
  shows "generates R r w \<longleftrightarrow> seq_lang R es w \<or> w = []"
proof -
  have "alt_starts R r = Some [(r, 0), (r, length es + 1)]"
    using assms(1,2) scan_optional [OF assms(3), of 0] by (simp add: alt_starts_def at_ok)
  moreover have "gen R (r, 0) w \<longleftrightarrow> seq_lang R es w"
    by (rule gen_seq_lang [OF assms(1) _ assms(3), where rest = "[stop]" and ?e0.0 = "elem GR_ALT 0"]) (simp_all add: assms(2) is_end_of_sequence_def)
  moreover have "gen R (r, length es + 1) w \<longleftrightarrow> seq_lang R [] w"
    by (rule gen_seq_lang [OF assms(1), where rest = "[]" and ?e0.0 = stop]) (simp_all add: assms(2) plain_def is_end_of_sequence_def)
  ultimately show ?thesis by (simp add: generates_def seq_lang_Nil)
qed

lemma rec_rule_eq: "rec_rule prev r = (prev @ (case r of None \<Rightarrow> [] | Some i \<Rightarrow> [elem GR_RULE_REF i])) @ [elem GR_ALT 0, stop]"
  by (simp add: rec_rule_def)

lemma plain_ref: "plain prev \<Longrightarrow> plain (prev @ (case r of None \<Rightarrow> [] | Some i \<Rightarrow> [elem GR_RULE_REF i]))"
  by (cases r) (auto simp: plain_def is_end_of_sequence_def)

lemma seq_lang_snoc_ref: "seq_lang R (prev @ [elem GR_RULE_REF i]) w \<longleftrightarrow> (\<exists>u v. w = u @ v \<and> seq_lang R prev u \<and> generates R (unat i) v)"
  using seq_lang_append [of "[elem GR_RULE_REF i]" R prev w] by (simp add: starts_ok_def seq_lang_ref)

text \<open>A chain of rules, each an optional item and the rule before: at most as many items as rules.\<close>

lemma optional_chain:
  assumes "plain prev" and R: "\<forall>k<n. unat (i k) < length R \<and> R ! unat (i k) = rec_rule prev (if k = 0 then None else Some (i (k - 1)))"
  shows "k < n \<Longrightarrow> generates R (unat (i k)) w \<longleftrightarrow> (\<exists>j\<le>Suc k. seq_pow R prev j w)"
proof (induction k arbitrary: w)
  case 0
  then have "generates R (unat (i 0)) w \<longleftrightarrow> seq_lang R prev w \<or> w = []"
    using R [rule_format, OF 0] by (intro generates_optional assms(1)) (simp_all add: rec_rule_eq)
  moreover have "(\<exists>j\<le>Suc 0. seq_pow R prev j w) \<longleftrightarrow> w = [] \<or> seq_lang R prev w" by (auto simp: le_Suc_eq)
  ultimately show ?case by blast
next
  case (Suc k)
  have "generates R (unat (i (Suc k))) w \<longleftrightarrow> seq_lang R (prev @ [elem GR_RULE_REF (i k)]) w \<or> w = []"
    using R [rule_format, OF Suc.prems] plain_ref [OF assms(1), of "Some (i k)"] by (intro generates_optional) (simp_all add: rec_rule_eq)
  also have "\<dots> \<longleftrightarrow> (\<exists>u v. w = u @ v \<and> seq_lang R prev u \<and> (\<exists>j\<le>Suc k. seq_pow R prev j v)) \<or> w = []"
    using Suc.IH Suc.prems by (simp add: seq_lang_snoc_ref)
  also have "\<dots> \<longleftrightarrow> (\<exists>j\<le>Suc (Suc k). seq_pow R prev j w)"
  proof
    assume "(\<exists>u v. w = u @ v \<and> seq_lang R prev u \<and> (\<exists>j\<le>Suc k. seq_pow R prev j v)) \<or> w = []"
    then show "\<exists>j\<le>Suc (Suc k). seq_pow R prev j w"
    proof
      assume "\<exists>u v. w = u @ v \<and> seq_lang R prev u \<and> (\<exists>j\<le>Suc k. seq_pow R prev j v)"
      then obtain u v j where "w = u @ v" "seq_lang R prev u" "j \<le> Suc k" "seq_pow R prev j v" by blast
      then show ?thesis by (intro exI [of _ "Suc j"]) auto
    qed (auto intro: exI [of _ 0])
  next
    assume "\<exists>j\<le>Suc (Suc k). seq_pow R prev j w"
    then obtain j where "j \<le> Suc (Suc k)" "seq_pow R prev j w" by blast
    then show "(\<exists>u v. w = u @ v \<and> seq_lang R prev u \<and> (\<exists>j\<le>Suc k. seq_pow R prev j v)) \<or> w = []" by (cases j) auto
  qed
  finally show ?case .
qed

text \<open>A rule that is an item and itself, or nothing: any number of items.\<close>

lemma seq_pow_star:
  assumes R: "unat i < length R" "R ! unat i = rec_rule prev (Some i)" and prev: "plain prev"
  shows "generates R (unat i) w \<longleftrightarrow> (\<exists>k. seq_pow R prev k w)"
proof
  let ?r = "unat i" and ?es = "prev @ [elem GR_RULE_REF i]"
  have rule: "R ! ?r = ?es @ [elem GR_ALT 0, stop]" using R(2) by (simp add: rec_rule_eq)
  have pl: "plain ?es" using plain_ref [OF prev, of "Some i"] by simp
  have unfold: "generates R ?r w \<longleftrightarrow> seq_lang R ?es w \<or> w = []" for w by (rule generates_optional [OF R(1) rule pl])
  show "generates R ?r w" if "\<exists>k. seq_pow R prev k w"
  proof -
    have "seq_pow R prev k w \<Longrightarrow> generates R ?r w" for k w
    proof (induction k arbitrary: w)
      case (Suc k)
      then obtain u v where "w = u @ v" "seq_lang R prev u" "generates R ?r v" by auto
      then have "seq_lang R ?es w" unfolding seq_lang_snoc_ref by blast
      then show ?case unfolding unfold [of w] by blast
    qed (simp only: unfold seq_pow.simps simp_thms)
    with that show ?thesis by blast
  qed
  define Q where "Q j w \<longleftrightarrow> (\<exists>u v k. w = u @ v \<and> seq_lang R (drop j prev) u \<and> seq_pow R prev k v)" for j w
  have at: "elem_at R (?r, j) = Some (R ! ?r ! j)" if "j \<le> length prev + 2" for j
    using that R(1) rule by (simp add: elem_at_Some)
  have starts: "alt_starts R ?r = Some [(?r, 0), (?r, length ?es + 1)]"
    using R(1) rule scan_optional [OF pl, of 0] by (simp add: alt_starts_def at_ok)
  have main: "gen R p w \<Longrightarrow> p = (?r, j) \<Longrightarrow> j \<le> length prev + 2 \<Longrightarrow> (if j \<le> length prev then Q j w else w = [])" for p j w
  proof (induction p w arbitrary: j rule: gen.induct)
    case (gen_end p e)
    then have "e = R ! ?r ! j" using at [of j] by simp
    moreover have "\<not> is_end_of_sequence (R ! ?r ! j)" if "j \<le> length prev"
    proof -
      have "R ! ?r ! j \<in> set ?es" using that by (simp add: rule nth_append)
      then show ?thesis using pl unfolding plain_def by blast
    qed
    ultimately show ?case using gen_end.hyps(2) by auto
  next
    case (gen_ref p e starts' q u v)
    then have e: "e = R ! ?r ! j" using at [of j] by simp
    have np: "next_pos p = (?r, Suc j)" using gen_ref.prems by (simp add: next_pos_def)
    consider "j < length prev" | "j = length prev" | "j > length prev" by linarith
    then show ?case
    proof cases
      case 1
      then have "e = prev ! j" using e by (simp add: rule nth_append)
      then have d: "drop j prev = e # drop (Suc j) prev" using 1 by (simp add: Cons_nth_drop_Suc)
      have "Q (Suc j) v" using gen_ref.IH(2) [OF np] 1 by simp
      then obtain u1 v1 k where "v = u1 @ v1" "seq_lang R (drop (Suc j) prev) u1" "seq_pow R prev k v1" by (auto simp: Q_def)
      moreover have "generates R (unat (ge_value e)) u" using gen_ref.hyps by (auto simp: generates_def)
      ultimately have "Q j (u @ v)" unfolding Q_def d using sl_ref [OF gen_ref.hyps(2)]
        by (intro exI [of _ "u @ u1"] exI [of _ v1] exI [of _ k]) simp
      then show ?thesis using 1 by simp
    next
      case 2
      then have "e = elem GR_RULE_REF i" using e by (simp add: rule nth_append)
      then have "q = (?r, 0) \<or> q = (?r, length prev + 2)" using gen_ref.hyps(3,4) starts by auto
      then have "Q 0 u \<or> u = []" using gen_ref.IH(1) [of 0] gen_ref.IH(1) [of "length prev + 2"] by auto
      then have "\<exists>k. seq_pow R prev k u"
      proof
        assume "Q 0 u"
        then obtain u1 v1 k where "u = u1 @ v1" "seq_lang R prev u1" "seq_pow R prev k v1" by (auto simp: Q_def)
        then show ?thesis by (intro exI [of _ "Suc k"]) auto
      qed (auto intro: exI [of _ 0])
      moreover have "v = []" using gen_ref.IH(2) [OF np] 2 by simp
      ultimately have "Q j (u @ v)" using 2 sl_nil unfolding Q_def by auto
      then show ?thesis using 2 by simp
    next
      case 3
      then have "j = length prev + 1 \<or> j = length prev + 2" using gen_ref.prems(2) by linarith
      then have "ge_type e \<noteq> GR_RULE_REF" using e by (auto simp: rule nth_append)
      then show ?thesis using gen_ref.hyps(2) by simp
    qed
  next
    case (gen_class p e c w)
    then have e: "e = R ! ?r ! j" using at [of j] by simp
    have j: "j < length prev"
    proof (rule ccontr)
      assume "\<not> j < length prev"
      then have "j = length prev \<or> j = length prev + 1 \<or> j = length prev + 2" using gen_class.prems(2) by linarith
      then show False using gen_class.hyps(2) e by (auto simp: rule nth_append is_class_def is_positive_def)
    qed
    let ?es' = "drop (Suc j) prev"
    have "e = prev ! j" using e j by (simp add: rule nth_append)
    then have d: "drop j prev = e # ?es'" using j by (simp add: Cons_nth_drop_Suc)
    have full: "drop j (R ! ?r) = e # ?es' @ [elem GR_RULE_REF i, elem GR_ALT 0, stop]" using j d by (simp add: rule)
    note cr = class_ranges_stop [of "[elem GR_RULE_REF i, elem GR_ALT 0, stop]" e ?es']
    let ?n = "snd (class_ranges (e # ?es' @ [stop]))"
    have n: "class_ranges (drop j (R ! ?r)) = class_ranges (e # ?es' @ [stop])" "1 \<le> ?n" "j + ?n \<le> length prev"
      using cr full j by simp_all
    have ce: "class_end R p = (?r, j + ?n)" "in_ranges c (fst (class_ranges (e # ?es' @ [stop]))) = is_positive e"
      using gen_class.hyps(3) gen_class.prems(1) n(1) by (simp_all add: class_end_def class_accepts_def class_at_def)
    have "Q (j + ?n) w" using gen_class.IH [OF ce(1)] n(3) by simp
    then obtain u v k where "w = u @ v" "seq_lang R (drop ?n (drop j prev)) u" "seq_pow R prev k v" by (auto simp: Q_def add.commute)
    then have "Q j (c # w)" unfolding Q_def d using sl_class [OF gen_class.hyps(2) ce(2)]
      by (intro exI [of _ "c # u"] exI [of _ v] exI [of _ k]) simp
    then show ?case using j by simp
  qed
  assume "generates R ?r w"
  then obtain q where "q \<in> {(?r, 0), (?r, length prev + 2)}" "gen R q w" using starts by (auto simp: generates_def)
  then have "Q 0 w \<or> w = []" using main [of q w 0] main [of q w "length prev + 2"] by auto
  then show "\<exists>k. seq_pow R prev k w"
  proof
    assume "Q 0 w"
    then obtain u v k where "w = u @ v" "seq_lang R prev u" "seq_pow R prev k v" by (auto simp: Q_def)
    then show ?thesis by (intro exI [of _ "Suc k"]) auto
  qed (auto intro: exI [of _ 0])
qed

section \<open>The generated identifiers\<close>

definition numbered :: "gparser \<Rightarrow> bool" where
  \<comment> \<open>no name was counted twice\<close>
  "numbered st \<longleftrightarrow> (\<forall>s\<in>set (gp_symbols st). name_ok s \<and> unat (snd s) < length (gp_symbols st))"

lemma generate_fresh:
  assumes "numbered st" "length (gp_symbols st) < 2 ^ 32"
  shows "\<exists>k. generate_symbol_id base st = (of_nat (length (gp_symbols st)), st\<lparr>gp_symbols := gp_symbols st @ [(k, of_nat (length (gp_symbols st)))]\<rparr>) \<and>
    numbered (st\<lparr>gp_symbols := gp_symbols st @ [(k, of_nat (length (gp_symbols st)))]\<rparr>)"
proof -
  let ?L = "length (gp_symbols st)"
  define k where "k = base @ [95] @ nat_digits (unat (of_nat ?L :: u32))"
  have u: "unat (of_nat ?L :: u32) = ?L" using assms(2) by (simp add: unat_of_nat)
  have "k \<notin> fst ` set (gp_symbols st)"
  proof
    assume "k \<in> fst ` set (gp_symbols st)"
    then obtain v where v: "(k, v) \<in> set (gp_symbols st)" by auto
    with assms(1) have "name_ok (k, v)" "unat v < ?L" by (auto simp: numbered_def)
    from generated_value [OF this(1) [unfolded k_def]] this(2) u show False by simp
  qed
  then have "generate_symbol_id base st = (of_nat ?L, st\<lparr>gp_symbols := gp_symbols st @ [(k, of_nat ?L)]\<rparr>)"
    by (simp add: generate_symbol_id_def symbol_put_def next_symbol_def k_def Let_def)
  moreover have "name_ok (k, of_nat ?L)" unfolding name_ok_def k_def by blast
  then have "numbered (st\<lparr>gp_symbols := gp_symbols st @ [(k, of_nat ?L)]\<rparr>)" using assms(1) u by (auto simp: numbered_def)
  ultimately show ?thesis by blast
qed

lemma add_rule_nth:
  "unat i < length (gp_rules (add_rule i rule st))" "gp_rules (add_rule i rule st) ! unat i = rule"
  "j < length (gp_rules st) \<Longrightarrow> j \<noteq> unat i \<Longrightarrow> j < length (gp_rules (add_rule i rule st)) \<and> gp_rules (add_rule i rule st) ! j = gp_rules st ! j"
  "gp_symbols (add_rule i rule st) = gp_symbols st"
  by (auto simp: add_rule_def Let_def)

lemma optional_rules_run:
  assumes "optional_rules name prev no_max n r st = (r', st')" "numbered st" "length (gp_symbols st) + n \<le> 2 ^ 32"
  shows "length (gp_symbols st') = length (gp_symbols st) + n"
    "r' = (if n = 0 then r else Some (of_nat (length (gp_symbols st) + n - 1)))"
    "\<forall>k<n. length (gp_symbols st) + k < length (gp_rules st') \<and> gp_rules st' ! (length (gp_symbols st) + k) =
      rec_rule prev (if no_max then Some (of_nat (length (gp_symbols st) + k)) else if k = 0 then r else Some (of_nat (length (gp_symbols st) + (k - 1))))"
    "\<forall>j<length (gp_symbols st). j < length (gp_rules st) \<longrightarrow> j < length (gp_rules st') \<and> gp_rules st' ! j = gp_rules st ! j"
proof -
  have "length (gp_symbols st') = length (gp_symbols st) + n \<and>
    r' = (if n = 0 then r else Some (of_nat (length (gp_symbols st) + n - 1))) \<and>
    (\<forall>k<n. length (gp_symbols st) + k < length (gp_rules st') \<and> gp_rules st' ! (length (gp_symbols st) + k) =
      rec_rule prev (if no_max then Some (of_nat (length (gp_symbols st) + k)) else if k = 0 then r else Some (of_nat (length (gp_symbols st) + (k - 1))))) \<and>
    (\<forall>j<length (gp_symbols st). j < length (gp_rules st) \<longrightarrow> j < length (gp_rules st') \<and> gp_rules st' ! j = gp_rules st ! j)"
    using assms
  proof (induction n arbitrary: r st)
    case 0
    then show ?case by simp
  next
    case (Suc n)
    let ?L = "length (gp_symbols st)"
    have "?L < 2 ^ 32" using Suc.prems(3) by simp
    from generate_fresh [OF Suc.prems(2) this, of name] obtain k where
      g: "generate_symbol_id name st = (of_nat ?L, st\<lparr>gp_symbols := gp_symbols st @ [(k, of_nat ?L)]\<rparr>)"
        "numbered (st\<lparr>gp_symbols := gp_symbols st @ [(k, of_nat ?L)]\<rparr>)" by blast
    let ?i = "of_nat ?L :: u32" and ?st1 = "st\<lparr>gp_symbols := gp_symbols st @ [(k, of_nat ?L)]\<rparr>"
    define rule where "rule = rec_rule prev (if no_max then Some ?i else r)"
    define st2 where "st2 = add_rule ?i rule ?st1"
    have u: "unat ?i = ?L" using \<open>?L < 2 ^ 32\<close> by (simp add: unat_of_nat)
    have len: "length (gp_symbols st2) = Suc ?L" by (simp add: st2_def add_rule_nth(4))
    have st2: "numbered st2" using g(2) by (simp add: numbered_def st2_def add_rule_nth(4))
    have low: "?L < length (gp_rules st2)" "gp_rules st2 ! ?L = rule"
      "\<forall>j<?L. j < length (gp_rules st) \<longrightarrow> j < length (gp_rules st2) \<and> gp_rules st2 ! j = gp_rules st ! j"
      using add_rule_nth(1,2) [of ?i rule ?st1] add_rule_nth(3) [of _ ?st1 ?i rule] by (simp_all add: st2_def u)
    have run: "optional_rules name prev no_max n (Some ?i) st2 = (r', st')" using Suc.prems(1) g(1) by (simp add: st2_def rule_def)
    from Suc.IH [OF run st2] Suc.prems(3) len have IH: "length (gp_symbols st') = Suc ?L + n"
      "r' = (if n = 0 then Some ?i else Some (of_nat (Suc ?L + n - 1)))"
      "\<forall>k<n. Suc ?L + k < length (gp_rules st') \<and> gp_rules st' ! (Suc ?L + k) =
        rec_rule prev (if no_max then Some (of_nat (Suc ?L + k)) else if k = 0 then Some ?i else Some (of_nat (Suc ?L + (k - 1))))"
      "\<forall>j<Suc ?L. j < length (gp_rules st2) \<longrightarrow> j < length (gp_rules st') \<and> gp_rules st' ! j = gp_rules st2 ! j" by simp_all
    have "?L + k < length (gp_rules st') \<and> gp_rules st' ! (?L + k) =
        rec_rule prev (if no_max then Some (of_nat (?L + k)) else if k = 0 then r else Some (of_nat (?L + (k - 1))))" if "k < Suc n" for k
    proof (cases k)
      case 0
      then show ?thesis using IH(4) low(1,2) by (simp add: rule_def)
    next
      case (Suc k')
      then show ?thesis using IH(3) [rule_format, of k'] that by (cases k') simp_all
    qed
    moreover have "r' = Some (of_nat (?L + n))" using IH(2) by (cases n) simp_all
    ultimately show ?case using IH(1,4) low(3) by simp
  qed
  then show "length (gp_symbols st') = length (gp_symbols st) + n"
    "r' = (if n = 0 then r else Some (of_nat (length (gp_symbols st) + n - 1)))"
    "\<forall>k<n. length (gp_symbols st) + k < length (gp_rules st') \<and> gp_rules st' ! (length (gp_symbols st) + k) =
      rec_rule prev (if no_max then Some (of_nat (length (gp_symbols st) + k)) else if k = 0 then r else Some (of_nat (length (gp_symbols st) + (k - 1))))"
    "\<forall>j<length (gp_symbols st). j < length (gp_rules st) \<longrightarrow> j < length (gp_rules st') \<and> gp_rules st' ! j = gp_rules st ! j" by blast+
qed

section \<open>Repetitions\<close>

lemma seq_pow_add: "seq_pow R es (a + b) w \<longleftrightarrow> (\<exists>u v. w = u @ v \<and> seq_pow R es a u \<and> seq_pow R es b v)"
proof (induction a arbitrary: w)
  case (Suc a)
  show ?case
  proof
    assume "seq_pow R es (Suc a + b) w"
    then obtain x y where "w = x @ y" "seq_lang R es x" "seq_pow R es (a + b) y" by auto
    with Suc obtain u v where "w = (x @ u) @ v" "seq_lang R es x" "seq_pow R es a u" "seq_pow R es b v" by auto
    then show "\<exists>u v. w = u @ v \<and> seq_pow R es (Suc a) u \<and> seq_pow R es b v" unfolding seq_pow.simps by blast
  next
    assume "\<exists>u v. w = u @ v \<and> seq_pow R es (Suc a) u \<and> seq_pow R es b v"
    then obtain x u v where "w = x @ (u @ v)" "seq_lang R es x" "seq_pow R es a u" "seq_pow R es b v" by auto
    moreover from this have "seq_pow R es (a + b) (u @ v)" using Suc by blast
    ultimately show "seq_pow R es (Suc a + b) w" unfolding add_Suc seq_pow.simps by blast
  qed
qed simp

lemma seq_lang_replicate: "opened es \<Longrightarrow> seq_lang R (concat (replicate k es)) w \<longleftrightarrow> seq_pow R es k w"
proof (induction k arbitrary: w)
  case (Suc k)
  have "starts_ok (concat (replicate k es))" using opened_repeat [OF Suc.prems, of k] by (simp add: opened_def)
  then show ?case using seq_lang_append [of "concat (replicate k es)" R es w] Suc by simp
qed (simp add: seq_lang_Nil)

lemma repetition_run:
  assumes "handle_repetitions name m n q st = Some (Inr (q', st'))" "sq_last q \<le> length (sq_rule q)"
  shows "\<exists>r. optional_rules name (drop (sq_last q) (sq_rule q)) (n = UINT64_MAX) (unat (n_optional m n)) None st = (r, st') \<and>
    sq_rule q' = take (sq_last q) (sq_rule q) @ concat (replicate (unat m) (drop (sq_last q) (sq_rule q))) @
      (case r of None \<Rightarrow> [] | Some i \<Rightarrow> [elem GR_RULE_REF i])"
proof -
  let ?item = "drop (sq_last q) (sq_rule q)"
  obtain r st1 where o: "optional_rules name ?item (n = UINT64_MAX) (unat (n_optional m n)) None st = (r, st1)" by fastforce
  have rep: "(if m = 0 then take (sq_last q) (sq_rule q) else sq_rule q @ concat (replicate (unat (m - 1)) ?item)) =
      take (sq_last q) (sq_rule q) @ concat (replicate (unat m) ?item)"
  proof (cases "m = 0")
    case False
    then have "unat m \<noteq> 0" by (simp add: unat_eq_zero)
    then have "unat m = Suc (unat (m - 1))" using unat_minus_one [OF False] by simp
    then have "concat (replicate (unat m) ?item) = ?item @ concat (replicate (unat (m - 1)) ?item)" by simp
    then show ?thesis using False by (metis append_assoc append_take_drop_id)
  qed simp
  from assms(1) o have "st1 = st'" "sq_rule q' = (if m = 0 then take (sq_last q) (sq_rule q) else sq_rule q @ concat (replicate (unat (m - 1)) ?item)) @
      (case r of None \<Rightarrow> [] | Some i \<Rightarrow> [elem GR_RULE_REF i])"
    by (auto simp: handle_repetitions_def Let_def split: if_split_asm)
  then show ?thesis using o unfolding rep by (intro exI [of _ r]) simp
qed

text \<open>C13. What \<open>*\<close>, \<open>+\<close>, \<open>?\<close> and \<open>{m,n}\<close> (with \<open>m \<le> n\<close>) mean: the elements that stand for the last item afterwards generate exactly the words
  of the item repeated \<open>k\<close> times, \<open>k\<close> at least \<open>m\<close> and, where there is a maximum, at most \<open>n\<close>, in every
  grammar that has the generated rules.\<close>

theorem repetition_language:
  assumes h: "handle_repetitions name m n q st = Some (Inr (q', st'))"
    and q: "seq_ok st q" "plain (drop (sq_last q) (sq_rule q))"
    and b: "bounds_ok m n" "m \<le> n"
    and num: "numbered st" "length (gp_symbols st) + 2000 \<le> 2 ^ 32"
    and R: "\<forall>i. length (gp_symbols st) \<le> i \<and> i < length (gp_symbols st') \<longrightarrow> i < length R \<and> R ! i = gp_rules st' ! i"
  shows "\<exists>tail. sq_rule q' = take (sq_last q) (sq_rule q) @ tail \<and>
    (\<forall>w. seq_lang R tail w \<longleftrightarrow> (\<exists>k. unat m \<le> k \<and> (n = UINT64_MAX \<or> k \<le> unat n) \<and> seq_pow R (drop (sq_last q) (sq_rule q)) k w))"
proof -
  define item L N where d: "item = drop (sq_last q) (sq_rule q)" "L = length (gp_symbols st)" "N = unat (n_optional m n)"
  have item: "opened item" "plain item" using q by (simp_all add: seq_ok_def d opened_drop)
  have le: "sq_last q \<le> length (sq_rule q)" using q(1) by (simp add: seq_ok_def)
  have N: "N = (if n = UINT64_MAX then 1 else unat n - unat m)"
    using b(2) by (simp add: d n_optional_def unat_sub word_le_nat_alt)
  have "N \<le> 2000" using b(1) N by (auto simp: bounds_ok_def MAX_REPETITION_THRESHOLD_def word_le_nat_alt)
  then have N32: "L + N \<le> 2 ^ 32" using num(2) by (simp add: d)
  from repetition_run [OF h le, folded d] obtain r where
    r: "optional_rules name item (n = UINT64_MAX) N None st = (r, st')"
      "sq_rule q' = take (sq_last q) (sq_rule q) @ concat (replicate (unat m) item) @ (case r of None \<Rightarrow> [] | Some i \<Rightarrow> [elem GR_RULE_REF i])" by blast
  note run = optional_rules_run [OF r(1) num(1) N32 [unfolded d(2)], folded d(2)]
  let ?ref = "case r of None \<Rightarrow> [] | Some i \<Rightarrow> [elem GR_RULE_REF i]"
  have u: "unat (of_nat (L + k) :: u32) = L + k" if "k < N" for k using that N32 by (simp add: unat_of_nat del: of_nat_add)
  have at: "unat (of_nat (L + k) :: u32) < length R \<and> R ! unat (of_nat (L + k) :: u32) = gp_rules st' ! (L + k)" if "k < N" for k
    using R [rule_format, of "L + k"] u [OF that] run(1) that by (simp add: d(2))
  have opt: "seq_lang R ?ref v \<longleftrightarrow> (\<exists>j. (n = UINT64_MAX \<or> j \<le> unat n - unat m) \<and> seq_pow R item j v)" for v
  proof (cases "n = UINT64_MAX")
    case True
    have "r = Some (of_nat L)" using run(2) N True by simp
    moreover have "generates R (unat (of_nat L :: u32)) v \<longleftrightarrow> (\<exists>k. seq_pow R item k v)"
      by (rule seq_pow_star [OF _ _ item(2)]) (use at [of 0] run(3) N True in auto)
    ultimately show ?thesis using True by (simp add: seq_lang_ref)
  next
    case False
    show ?thesis
    proof (cases N)
      case 0
      then show ?thesis using run(2) N False by (simp add: seq_lang_Nil)
    next
      case (Suc k)
      have "generates R (unat (of_nat (L + k) :: u32)) v \<longleftrightarrow> (\<exists>j\<le>Suc k. seq_pow R item j v)"
      proof (rule optional_chain [OF item(2), of N])
        show "\<forall>k<N. unat (of_nat (L + k) :: u32) < length R \<and> R ! unat (of_nat (L + k) :: u32) =
            rec_rule item (if k = 0 then None else Some (of_nat (L + (k - 1))))"
          using at run(3) False by simp
        show "k < N" using Suc by simp
      qed
      moreover have "r = Some (of_nat (L + k))" using run(2) Suc by simp
      ultimately show ?thesis using False N Suc by (auto simp: seq_lang_ref)
    qed
  qed
  have st: "starts_ok ?ref" by (auto simp: starts_ok_def split: option.splits)
  have "seq_lang R (concat (replicate (unat m) item) @ ?ref) w \<longleftrightarrow>
      (\<exists>k. unat m \<le> k \<and> (n = UINT64_MAX \<or> k \<le> unat n) \<and> seq_pow R item k w)" for w
  proof -
    have "seq_lang R (concat (replicate (unat m) item) @ ?ref) w \<longleftrightarrow>
        (\<exists>u v. w = u @ v \<and> seq_pow R item (unat m) u \<and> (\<exists>j. (n = UINT64_MAX \<or> j \<le> unat n - unat m) \<and> seq_pow R item j v))"
      unfolding seq_lang_append [OF st] seq_lang_replicate [OF item(1)] opt ..
    also have "\<dots> \<longleftrightarrow> (\<exists>j. (n = UINT64_MAX \<or> j \<le> unat n - unat m) \<and> seq_pow R item (unat m + j) w)"
    proof
      assume "\<exists>u v. w = u @ v \<and> seq_pow R item (unat m) u \<and> (\<exists>j. (n = UINT64_MAX \<or> j \<le> unat n - unat m) \<and> seq_pow R item j v)"
      then obtain u v j where "w = u @ v" "seq_pow R item (unat m) u" "n = UINT64_MAX \<or> j \<le> unat n - unat m" "seq_pow R item j v" by blast
      then show "\<exists>j. (n = UINT64_MAX \<or> j \<le> unat n - unat m) \<and> seq_pow R item (unat m + j) w"
        unfolding seq_pow_add by (intro exI [of _ j]) blast
    next
      assume "\<exists>j. (n = UINT64_MAX \<or> j \<le> unat n - unat m) \<and> seq_pow R item (unat m + j) w"
      then obtain u v j where "w = u @ v" "seq_pow R item (unat m) u" "n = UINT64_MAX \<or> j \<le> unat n - unat m" "seq_pow R item j v"
        unfolding seq_pow_add by blast
      then show "\<exists>u v. w = u @ v \<and> seq_pow R item (unat m) u \<and> (\<exists>j. (n = UINT64_MAX \<or> j \<le> unat n - unat m) \<and> seq_pow R item j v)" by blast
    qed
    also have "\<dots> \<longleftrightarrow> (\<exists>k. unat m \<le> k \<and> (n = UINT64_MAX \<or> k \<le> unat n) \<and> seq_pow R item k w)"
    proof
      assume "\<exists>j. (n = UINT64_MAX \<or> j \<le> unat n - unat m) \<and> seq_pow R item (unat m + j) w"
      then obtain j where "n = UINT64_MAX \<or> j \<le> unat n - unat m" "seq_pow R item (unat m + j) w" by blast
      moreover have "unat m \<le> unat n" using b(2) by (simp add: word_le_nat_alt)
      ultimately show "\<exists>k. unat m \<le> k \<and> (n = UINT64_MAX \<or> k \<le> unat n) \<and> seq_pow R item k w"
        by (intro exI [of _ "unat m + j"]) auto
    next
      assume "\<exists>k. unat m \<le> k \<and> (n = UINT64_MAX \<or> k \<le> unat n) \<and> seq_pow R item k w"
      then obtain k where "unat m \<le> k" "n = UINT64_MAX \<or> k \<le> unat n" "seq_pow R item k w" by blast
      then show "\<exists>j. (n = UINT64_MAX \<or> j \<le> unat n - unat m) \<and> seq_pow R item (unat m + j) w"
        by (intro exI [of _ "k - unat m"]) auto
    qed
    finally show ?thesis .
  qed
  with r(2) show ?thesis unfolding d(1) by blast
qed

definition rep_item :: seq_state where
  \<comment> \<open>behind the literal \<open>"a"\<close>\<close>
  "rep_item = \<lparr>sq_rule = [elem GR_CHAR 97], sq_last = 0, sq_prev = 1\<rparr>"

definition rep_parser :: gparser where
  "rep_parser = \<lparr>gp_symbols = [([114], 0)], gp_rules = []\<rparr>"

definition rep_after :: gparser where
  "rep_after = \<lparr>gp_symbols = [([114], 0), ([114, 95, 49], 1)], gp_rules = [[], [elem GR_CHAR 97, elem GR_ALT 0, stop]]\<rparr>"

lemma rep_run: "handle_repetitions [114] 1 2 rep_item rep_parser =
    Some (Inr (\<lparr>sq_rule = [elem GR_CHAR 97, elem GR_RULE_REF 1], sq_last = 0, sq_prev = 2\<rparr>, rep_after))"
  by code_simp

theorem repetition_language_witness:
  "\<exists>tail. [elem GR_CHAR 97, elem GR_RULE_REF 1] = tail \<and>
    (\<forall>w. seq_lang (gp_rules rep_after) tail w \<longleftrightarrow> (\<exists>k. 1 \<le> k \<and> k \<le> 2 \<and> seq_pow (gp_rules rep_after) [elem GR_CHAR 97] k w))"
proof -
  have "seq_ok rep_parser rep_item"
    by (simp add: seq_ok_def rep_item_def opened_def starts_ok_def only_refs_def prev_ok_def)
  moreover have "plain (drop (sq_last rep_item) (sq_rule rep_item))" by (simp add: rep_item_def plain_def is_end_of_sequence_def)
  moreover have "bounds_ok 1 2" "(1 :: u64) \<le> 2" by (simp_all add: bounds_ok_def MAX_REPETITION_THRESHOLD_def)
  moreover have "numbered rep_parser" "length (gp_symbols rep_parser) + 2000 \<le> 2 ^ 32"
    by (simp_all add: numbered_def rep_parser_def name_ok_def)
  moreover have "\<forall>i. length (gp_symbols rep_parser) \<le> i \<and> i < length (gp_symbols rep_after) \<longrightarrow>
      i < length (gp_rules rep_after) \<and> gp_rules rep_after ! i = gp_rules rep_after ! i"
    by (simp add: rep_parser_def rep_after_def)
  ultimately show ?thesis
    using repetition_language [OF rep_run, of "gp_rules rep_after"] by (simp add: rep_item_def UINT64_MAX_def)
qed

end
