(* ===== verification/Unicode.thy ===== *)
theory Unicode
  imports Utf8
begin

text \<open>
  Properties of code points (\<open>unicode.cpp\<close>): the table of flags, lower case, canonical decomposition and Han
  characters. The generated tables of \<open>unicode-data.cpp\<close> are the record \<open>unicode_tables\<close>. The flags are the 16-bit
  word of the union.
\<close>

type_synonym cpt_flags = "16 word"

record unicode_tables =
  ut_ranges_flags :: "(u32 \<times> cpt_flags) list"
  ut_whitespace :: "u32 list"
  ut_lowercase :: "(u32 \<times> u32) list"
  ut_uppercase :: "(u32 \<times> u32) list"
  ut_ranges_nfd :: "(u32 \<times> u32 \<times> u32) list"

definition MAX_CODEPOINTS :: u32 where
  "MAX_CODEPOINTS = 0x110000"

section \<open>Flags\<close>

definition UNDEFINED :: cpt_flags where "UNDEFINED = 0x0001"
definition NUMBER :: cpt_flags where "NUMBER = 0x0002"
definition LETTER :: cpt_flags where "LETTER = 0x0004"
definition ACCENT_MARK :: cpt_flags where "ACCENT_MARK = 0x0010"
definition PUNCTUATION :: cpt_flags where "PUNCTUATION = 0x0020"
definition SYMBOL :: cpt_flags where "SYMBOL = 0x0040"
definition MASK_CATEGORIES :: cpt_flags where "MASK_CATEGORIES = 0x00FF"
definition WHITESPACE :: cpt_flags where "WHITESPACE = 0x0100"
definition LOWERCASE :: cpt_flags where "LOWERCASE = 0x0200"
definition UPPERCASE :: cpt_flags where "UPPERCASE = 0x0400"
definition NFD :: cpt_flags where "NFD = 0x0800"

definition is_number :: "cpt_flags \<Rightarrow> bool" where "is_number f \<longleftrightarrow> bit f 1"
definition is_letter :: "cpt_flags \<Rightarrow> bool" where "is_letter f \<longleftrightarrow> bit f 2"
definition is_accent_mark :: "cpt_flags \<Rightarrow> bool" where "is_accent_mark f \<longleftrightarrow> bit f 4"
definition is_whitespace :: "cpt_flags \<Rightarrow> bool" where "is_whitespace f \<longleftrightarrow> bit f 8"

definition category_flag :: "cpt_flags \<Rightarrow> cpt_flags" where
  "category_flag f = and f MASK_CATEGORIES"

lemma flags_0 [simp]: "\<not> is_number 0" "\<not> is_letter 0" "\<not> is_accent_mark 0" "\<not> is_whitespace 0"
  by (simp_all add: is_number_def is_letter_def is_accent_mark_def is_whitespace_def)

definition set_flag :: "cpt_flags \<Rightarrow> u32 \<Rightarrow> (u32 \<Rightarrow> cpt_flags) \<Rightarrow> (u32 \<Rightarrow> cpt_flags) option" where
  \<comment> \<open>writing past the vector has no value\<close>
  "set_flag m cpt a = do { assert_that (cpt < MAX_CODEPOINTS); Some (a(cpt := or (a cpt) m)) }"

definition cpt_flags_array :: "unicode_tables \<Rightarrow> (u32 \<Rightarrow> cpt_flags) option" where
  \<comment> \<open>the vector as a function on the code points below \<open>MAX_CODEPOINTS\<close>\<close>
  "cpt_flags_array t = (let rs = ut_ranges_flags t in do {
     assert_that (rs \<noteq> [] \<and> fst (hd rs) = 0 \<and> fst (last rs) = MAX_CODEPOINTS);
     a \<leftarrow> foldM (\<lambda>i a. do {
         assert_that (fst (rs ! i) \<le> MAX_CODEPOINTS);
         Some (\<lambda>cpt. if fst (rs ! (i - 1)) \<le> cpt \<and> cpt < fst (rs ! i) then snd (rs ! (i - 1)) else a cpt)
       }) [1..<length rs] (\<lambda>_. UNDEFINED);
     a \<leftarrow> foldM (\<lambda>cpt. set_flag WHITESPACE cpt) (ut_whitespace t) a;
     a \<leftarrow> foldM (\<lambda>p. set_flag LOWERCASE (snd p)) (ut_lowercase t) a;
     a \<leftarrow> foldM (\<lambda>p. set_flag UPPERCASE (snd p)) (ut_uppercase t) a;
     foldM (\<lambda>(first, last, nfd). set_flag NFD nfd) (ut_ranges_nfd t) a
   })"

definition cpt_flags_from_cpt :: "(u32 \<Rightarrow> cpt_flags) \<Rightarrow> u32 \<Rightarrow> cpt_flags" where
  "cpt_flags_from_cpt a cpt = (if cpt < MAX_CODEPOINTS then a cpt else UNDEFINED)"

section \<open>Mappings\<close>

definition unicode_tolower :: "unicode_tables \<Rightarrow> u32 \<Rightarrow> u32" where
  \<comment> \<open>\<open>std::lower_bound\<close>: the first entry that is not below\<close>
  "unicode_tolower t cpt = (case dropWhile (\<lambda>p. fst p < cpt) (ut_lowercase t) of
     [] \<Rightarrow> cpt
   | p # _ \<Rightarrow> if fst p = cpt then snd p else cpt)"

definition cpts_normalize_nfd :: "unicode_tables \<Rightarrow> u32 list \<Rightarrow> u32 list option" where
  \<comment> \<open>\<open>std::upper_bound\<close> minus one: the last entry of the prefix that starts at or before the code point\<close>
  "cpts_normalize_nfd t cpts = foldM (\<lambda>cpt res.
     let before = takeWhile (\<lambda>(first, _, _). \<not> cpt < first) (ut_ranges_nfd t) in do {
       assert_that (before \<noteq> []);
       Some (res @ [case List.last before of (first, final, nfd) \<Rightarrow> if first \<le> cpt \<and> cpt \<le> final then nfd else cpt])
     }) cpts []"

definition cpt_is_han :: "u32 \<Rightarrow> bool" where
  "cpt_is_han cpt \<longleftrightarrow>
     0x4E00 \<le> cpt \<and> cpt \<le> 0x9FFF \<or> 0x3400 \<le> cpt \<and> cpt \<le> 0x4DBF \<or> 0x20000 \<le> cpt \<and> cpt \<le> 0x2A6DF \<or>
     0x2A700 \<le> cpt \<and> cpt \<le> 0x2B73F \<or> 0x2B740 \<le> cpt \<and> cpt \<le> 0x2B81F \<or> 0x2B820 \<le> cpt \<and> cpt \<le> 0x2CEAF \<or>
     0x2CEB0 \<le> cpt \<and> cpt \<le> 0x2EBEF \<or> 0xF900 \<le> cpt \<and> cpt \<le> 0xFAFF \<or> 0x2F800 \<le> cpt \<and> cpt \<le> 0x2FA1F"

lemma not_han_out: "\<not> cpt_is_han 0xFFFFFFFF"
  by (simp add: cpt_is_han_def)

end
