(* ===== verification/Splitters.thy ===== *)
theory Splitters
  imports Unicode
begin

text \<open>
  The custom pre-tokenizers (\<open>unicode_regex_split_custom_*\<close>): each walks over the segments of a text given by
  their lengths and cuts every segment further. A step is one round of the main loop, on the position and on what
  the lambda \<open>_add_token\<close> captures; a failed assertion has no value.
\<close>

section \<open>Segments\<close>

record unicode_db =
  db_flags :: "u32 \<Rightarrow> cpt_flags"  \<comment> \<open>\<open>unicode_cpt_flags_from_cpt\<close>\<close>
  db_tolower :: "u32 \<Rightarrow> u32"  \<comment> \<open>\<open>unicode_tolower\<close>\<close>

record seg_ctx =
  sc_db :: unicode_db
  sc_cpts :: "u32 list"
  sc_ini :: nat
  sc_end :: nat

record seg_state =
  ss_prev :: nat  \<comment> \<open>\<open>_prev_end\<close>\<close>
  ss_out :: "nat list"  \<comment> \<open>\<open>bpe_offsets\<close>\<close>

definition OUT_OF_RANGE :: u32 where
  "OUT_OF_RANGE = 0xFFFFFFFF"

definition get_cpt :: "seg_ctx \<Rightarrow> nat \<Rightarrow> u32" where
  "get_cpt c pos = (if sc_ini c \<le> pos \<and> pos < sc_end c then sc_cpts c ! pos else OUT_OF_RANGE)"

definition get_flags :: "seg_ctx \<Rightarrow> nat \<Rightarrow> cpt_flags" where
  "get_flags c pos = (if sc_ini c \<le> pos \<and> pos < sc_end c then db_flags (sc_db c) (sc_cpts c ! pos) else 0)"

definition add_token :: "seg_ctx \<Rightarrow> nat \<Rightarrow> seg_state \<Rightarrow> (nat \<times> seg_state) option" where
  "add_token c e s = do {
     assert_that (ss_prev s \<le> e \<and> e \<le> sc_end c);
     let len = e - ss_prev s;
     Some (len, s\<lparr>ss_prev := e, ss_out := (if len > 0 then ss_out s @ [len] else ss_out s)\<rparr>)
   }"

definition emit :: "seg_ctx \<Rightarrow> nat \<Rightarrow> seg_state \<Rightarrow> (nat \<times> seg_state) option" where
  \<comment> \<open>\<open>_add_token(pos); continue;\<close>\<close>
  "emit c pos s = do { (_, s) \<leftarrow> add_token c pos s; Some (pos, s) }"

partial_function (option) skip_run :: "(nat \<Rightarrow> bool) \<Rightarrow> nat \<Rightarrow> nat option" where
  \<comment> \<open>advance while the test holds\<close>
  "skip_run P pos = (if P pos then skip_run P (pos + 1) else Some pos)"

partial_function (option) seg_loop ::
  "(seg_ctx \<Rightarrow> nat \<Rightarrow> seg_state \<Rightarrow> (nat \<times> seg_state) option) \<Rightarrow> seg_ctx \<Rightarrow> nat \<Rightarrow> seg_state \<Rightarrow> seg_state option" where
  "seg_loop step c pos s =
     (if pos < sc_end c then Option.bind (step c pos s) (\<lambda>r. seg_loop step c (fst r) (snd r)) else Some s)"

declare skip_run.simps [code] seg_loop.simps [code]

definition split_segment :: "(seg_ctx \<Rightarrow> nat \<Rightarrow> seg_state \<Rightarrow> (nat \<times> seg_state) option) \<Rightarrow> seg_ctx \<Rightarrow> nat list option" where
  "split_segment step c = map_option ss_out (seg_loop step c (sc_ini c) \<lparr>ss_prev = sc_ini c, ss_out = []\<rparr>)"

definition split_offsets ::
  "(seg_ctx \<Rightarrow> nat list option) \<Rightarrow> unicode_db \<Rightarrow> byte list \<Rightarrow> nat list \<Rightarrow> nat list option" where
  \<comment> \<open>the loop over the given segments\<close>
  "split_offsets seg db s offsets = do {
     cpts \<leftarrow> cpts_from_utf8 s;
     (_, out) \<leftarrow> foldM (\<lambda>offset (start, out). do {
         assert_that (start + offset \<le> length cpts);
         ls \<leftarrow> seg \<lparr>sc_db = db, sc_cpts = cpts, sc_ini = start, sc_end = start + offset\<rparr>;
         Some (start + offset, out @ ls)
       }) offsets (0, []);
     Some out
   }"

section \<open>Shared branches\<close>

definition APOSTROPHE :: u32 where "APOSTROPHE = 0x27"
definition SPACE :: u32 where "SPACE = 0x20"
definition CR :: u32 where "CR = 0x0D"
definition LF :: u32 where "LF = 0x0A"

definition short_ending :: "u32 \<Rightarrow> bool" where
  \<comment> \<open>s, t, m, d\<close>
  "short_ending c \<longleftrightarrow> c = 0x73 \<or> c = 0x74 \<or> c = 0x6D \<or> c = 0x64"

definition long_ending :: "u32 \<Rightarrow> u32 \<Rightarrow> bool" where
  \<comment> \<open>re, ve, ll\<close>
  "long_ending c d \<longleftrightarrow> c = 0x72 \<and> d = 0x65 \<or> c = 0x76 \<and> d = 0x65 \<or> c = 0x6C \<and> d = 0x6C"

definition contraction :: "(u32 \<Rightarrow> u32) \<Rightarrow> seg_ctx \<Rightarrow> nat \<Rightarrow> nat option" where
  \<comment> \<open>the end of a contraction that starts with the apostrophe at the position\<close>
  "contraction low c pos =
     (if get_cpt c pos = APOSTROPHE \<and> pos + 1 < sc_end c then
        (let cpt_next = low (get_cpt c (pos + 1)) in
         if short_ending cpt_next then Some (pos + 2)
         else if pos + 2 < sc_end c \<and> long_ending cpt_next (low (get_cpt c (pos + 2))) then Some (pos + 3)
         else None)
      else None)"

definition opt_space :: "seg_ctx \<Rightarrow> nat \<Rightarrow> nat" where
  \<comment> \<open>the position behind an optional space\<close>
  "opt_space c pos = (if get_cpt c pos = SPACE then pos + 1 else pos)"

definition is_other :: "cpt_flags \<Rightarrow> bool" where
  "is_other f \<longleftrightarrow> \<not> (is_whitespace f \<or> is_letter f \<or> is_number f) \<and> f \<noteq> 0"

definition is_newline :: "u32 \<Rightarrow> bool" where
  "is_newline c \<longleftrightarrow> c = CR \<or> c = LF"

definition spaces_tail :: "seg_ctx \<Rightarrow> nat \<Rightarrow> nat \<Rightarrow> seg_state \<Rightarrow> (nat \<times> seg_state) option" where
  \<comment> \<open>all but the last white space before a word, white space, or one code point\<close>
  "spaces_tail c pos n s =
     (if n > 1 \<and> get_cpt c (pos + n) \<noteq> OUT_OF_RANGE then emit c (pos + n - 1) s
      else if n > 0 then emit c (pos + n) s
      else emit c (pos + 1) s)"

partial_function (option) scan_spaces :: "seg_ctx \<Rightarrow> nat \<Rightarrow> nat \<Rightarrow> nat \<Rightarrow> (nat \<times> nat) option" where
  \<comment> \<open>the number of white spaces, and the end of the last line break among them\<close>
  "scan_spaces c pos n last_end =
     (if is_whitespace (get_flags c (pos + n)) then
        scan_spaces c pos (n + 1) (if is_newline (get_cpt c (pos + n)) then pos + n + 1 else last_end)
      else Some (n, last_end))"

partial_function (option) number_groups :: "seg_ctx \<Rightarrow> nat \<Rightarrow> nat \<Rightarrow> seg_state \<Rightarrow> (nat \<times> seg_state) option" where
  \<comment> \<open>numbers in groups of three\<close>
  "number_groups c ini pos s =
     (if is_number (get_flags c pos) then
        (if pos + 1 - ini \<ge> 3 then Option.bind (add_token c (pos + 1) s) (\<lambda>r. number_groups c (pos + 1) (pos + 1) (snd r))
         else number_groups c ini (pos + 1) s)
      else Some (pos, s))"

declare scan_spaces.simps [code] number_groups.simps [code]

definition numbers_step :: "seg_ctx \<Rightarrow> nat \<Rightarrow> seg_state \<Rightarrow> (nat \<times> seg_state) option" where
  "numbers_step c pos s = do { (pos, s) \<leftarrow> number_groups c pos pos s; emit c pos s }"

definition others_step :: "(cpt_flags \<Rightarrow> bool) \<Rightarrow> seg_ctx \<Rightarrow> nat \<Rightarrow> seg_state \<Rightarrow> (nat \<times> seg_state) option" where
  \<comment> \<open>other characters with the line breaks behind them\<close>
  "others_step other c pos s = do {
     pos \<leftarrow> skip_run (\<lambda>p. other (get_flags c p)) (opt_space c pos);
     pos \<leftarrow> skip_run (\<lambda>p. is_newline (get_cpt c p)) pos;
     emit c pos s
   }"

definition spaces_step :: "seg_ctx \<Rightarrow> nat \<Rightarrow> seg_state \<Rightarrow> (nat \<times> seg_state) option" where
  "spaces_step c pos s = do {
     (n, last_end) \<leftarrow> scan_spaces c pos 0 0;
     if last_end > 0 then emit c last_end s else spaces_tail c pos n s
   }"

section \<open>The splitters\<close>

definition gpt2_step :: "seg_ctx \<Rightarrow> nat \<Rightarrow> seg_state \<Rightarrow> (nat \<times> seg_state) option" where
  "gpt2_step c pos s = (case contraction (\<lambda>x. x) c pos of
     Some e \<Rightarrow> do { (len, s) \<leftarrow> add_token c e s; Some (pos + len, s) }
   | None \<Rightarrow>
       let pos' = opt_space c pos; flags2 = get_flags c pos' in
       if is_letter flags2 then do { q \<leftarrow> skip_run (\<lambda>p. is_letter (get_flags c p)) pos'; emit c q s }
       else if is_number flags2 then do { q \<leftarrow> skip_run (\<lambda>p. is_number (get_flags c p)) pos'; emit c q s }
       else if is_other flags2 then do { q \<leftarrow> skip_run (\<lambda>p. is_other (get_flags c p)) pos'; emit c q s }
       else do {
         q \<leftarrow> skip_run (\<lambda>p. is_whitespace (get_flags c p)) pos;
         spaces_tail c pos (q - pos) s
       })"

definition letters_ahead :: "(cpt_flags \<Rightarrow> bool) \<Rightarrow> seg_ctx \<Rightarrow> nat \<Rightarrow> bool" where
  \<comment> \<open>an optional leading character and a letter\<close>
  "letters_ahead letter c pos \<longleftrightarrow>
     \<not> (get_cpt c pos = CR \<or> get_cpt c pos = LF \<or> is_number (get_flags c pos)) \<and>
     (letter (get_flags c pos) \<or> letter (get_flags c (pos + 1)))"

definition letters_step :: "(cpt_flags \<Rightarrow> bool) \<Rightarrow> seg_ctx \<Rightarrow> nat \<Rightarrow> seg_state \<Rightarrow> (nat \<times> seg_state) option" where
  "letters_step letter c pos s = do { q \<leftarrow> skip_run (\<lambda>p. letter (get_flags c p)) (pos + 1); emit c q s }"

definition llama3_step :: "seg_ctx \<Rightarrow> nat \<Rightarrow> seg_state \<Rightarrow> (nat \<times> seg_state) option" where
  "llama3_step c pos s = (case contraction (db_tolower (sc_db c)) c pos of
     Some e \<Rightarrow> do { (len, s) \<leftarrow> add_token c e s; Some (pos + len, s) }
   | None \<Rightarrow>
       let flags = get_flags c pos; flags2 = get_flags c (opt_space c pos) in
       if letters_ahead is_letter c pos then letters_step is_letter c pos s
       else if is_number flags then numbers_step c pos s
       else if \<not> (is_whitespace flags2 \<or> is_letter flags2 \<or> is_number flags2) \<and> flags \<noteq> 0 then others_step is_other c pos s
       else spaces_step c pos s)"

definition qwen2_step :: "seg_ctx \<Rightarrow> nat \<Rightarrow> seg_state \<Rightarrow> (nat \<times> seg_state) option" where
  "qwen2_step c pos s = (case contraction (db_tolower (sc_db c)) c pos of
     Some e \<Rightarrow> do { (len, s) \<leftarrow> add_token c e s; Some (pos + len, s) }
   | None \<Rightarrow>
       let flags = get_flags c pos; flags2 = get_flags c (opt_space c pos) in
       if letters_ahead is_letter c pos then letters_step is_letter c pos s
       else if is_number flags then emit c (pos + 1) s
       else if \<not> (is_whitespace flags2 \<or> is_letter flags2 \<or> is_number flags2) \<and> flags \<noteq> 0 then others_step is_other c pos s
       else spaces_step c pos s)"

definition is_word_mark :: "cpt_flags \<Rightarrow> bool" where
  "is_word_mark f \<longleftrightarrow> is_letter f \<or> is_accent_mark f"

definition is_other_mark :: "cpt_flags \<Rightarrow> bool" where
  "is_other_mark f \<longleftrightarrow> \<not> (is_whitespace f \<or> is_letter f \<or> is_accent_mark f \<or> is_number f) \<and> f \<noteq> 0"

definition qwen35_step :: "seg_ctx \<Rightarrow> nat \<Rightarrow> seg_state \<Rightarrow> (nat \<times> seg_state) option" where
  "qwen35_step c pos s = (case contraction (db_tolower (sc_db c)) c pos of
     Some e \<Rightarrow> do { (len, s) \<leftarrow> add_token c e s; Some (pos + len, s) }
   | None \<Rightarrow>
       let flags = get_flags c pos; flags2 = get_flags c (opt_space c pos) in
       if letters_ahead is_word_mark c pos then letters_step is_word_mark c pos s
       else if is_number flags then emit c (pos + 1) s
       else if \<not> (is_whitespace flags2 \<or> is_letter flags2 \<or> is_accent_mark flags2 \<or> is_number flags2) \<and> flags \<noteq> 0
         then others_step is_other_mark c pos s
       else spaces_step c pos s)"

definition plain_letter :: "seg_ctx \<Rightarrow> nat \<Rightarrow> bool" where
  \<comment> \<open>a letter that is not a Han character\<close>
  "plain_letter c pos \<longleftrightarrow> is_letter (get_flags c pos) \<and> \<not> cpt_is_han (get_cpt c pos)"

definition leading_char :: "seg_ctx \<Rightarrow> nat \<Rightarrow> bool" where
  "leading_char c pos \<longleftrightarrow> \<not> (get_cpt c pos = CR \<or> get_cpt c pos = LF \<or> is_letter (get_flags c pos) \<or> is_number (get_flags c pos))"

definition kimi_word :: "seg_ctx \<Rightarrow> nat \<Rightarrow> nat option" where
  \<comment> \<open>the end of a word with an optional leading character and contraction; no word: 0\<close>
  "kimi_word c pos = do {
     let start = (if leading_char c pos then pos + 1 else pos);
     q \<leftarrow> skip_run (plain_letter c) start;
     (if q > start \<or> \<not> leading_char c pos \<and> plain_letter c q then do {
        q \<leftarrow> skip_run (plain_letter c) (if q > start then q else q + 1);
        Some (case contraction (db_tolower (sc_db c)) c q of Some e \<Rightarrow> e | None \<Rightarrow> q)
      } else Some 0)
   }"

definition kimi_rest :: "seg_ctx \<Rightarrow> nat \<Rightarrow> seg_state \<Rightarrow> (nat \<times> seg_state) option" where
  \<comment> \<open>the patterns behind the words\<close>
  "kimi_rest c pos s = (let flags2 = get_flags c (opt_space c pos) in
     if is_number (get_flags c pos) then numbers_step c pos s
     else if is_other flags2 then others_step is_other c pos s
     else spaces_step c pos s)"

definition kimi_step :: "seg_ctx \<Rightarrow> nat \<Rightarrow> seg_state \<Rightarrow> (nat \<times> seg_state) option" where
  "kimi_step c pos s =
     (if cpt_is_han (get_cpt c pos) then do { q \<leftarrow> skip_run (\<lambda>p. cpt_is_han (get_cpt c p)) pos; emit c q s }
      else if plain_letter c pos \<or> leading_char c pos \<and> plain_letter c (pos + 1) then do {
        q \<leftarrow> kimi_word c pos;
        if q > 0 then emit c q s else kimi_rest c pos s
      }
      else kimi_rest c pos s)"

partial_function (option) digit_groups :: "seg_ctx \<Rightarrow> nat \<Rightarrow> nat \<Rightarrow> seg_state \<Rightarrow> seg_state option" where
  "digit_groups c cur e s =
     (if cur < e then Option.bind (add_token c (cur + 3) s) (\<lambda>r. digit_groups c (cur + 3) e (snd r)) else Some s)"

declare digit_groups.simps [code]

definition afmoe_step :: "seg_ctx \<Rightarrow> nat \<Rightarrow> seg_state \<Rightarrow> (nat \<times> seg_state) option" where
  "afmoe_step c pos s =
     (if is_number (get_flags c pos) then do {
        q \<leftarrow> skip_run (\<lambda>p. is_number (get_flags c p) \<and> p < sc_end c) pos;
        let remainder = (q - pos) mod 3;
        s \<leftarrow> (if remainder > 0 then map_option snd (add_token c (pos + remainder) s) else Some s);
        s \<leftarrow> digit_groups c (pos + remainder) q s;
        Some (q, s)
      } else Some (pos + 1, s))"

definition afmoe_segment :: "seg_ctx \<Rightarrow> nat list option" where
  "afmoe_segment c = do {
     s \<leftarrow> seg_loop afmoe_step c (sc_ini c) \<lparr>ss_prev = sc_ini c, ss_out = []\<rparr>;
     (if ss_prev s < sc_end c then map_option (\<lambda>r. ss_out (snd r)) (add_token c (sc_end c) s) else Some (ss_out s))
   }"

partial_function (option) newline_runs :: "seg_ctx \<Rightarrow> nat \<Rightarrow> nat list \<Rightarrow> nat list option" where
  "newline_runs c pos out =
     (if pos < sc_end c then
        Option.bind (skip_run (\<lambda>p. p < sc_end c \<and> (sc_cpts c ! p = LF) = (sc_cpts c ! pos = LF)) pos)
          (\<lambda>q. newline_runs c q (out @ [q - pos]))
      else Some out)"

declare newline_runs.simps [code]

end
