(* ===== verification/SplitLoops.thy ===== *)
theory SplitLoops
  imports Splitters
begin

text \<open>
  The loops of the pre-tokenizers end, and what they keep: a step that consumes something and records what it
  consumed gives a segmenter (locale \<open>stepper\<close>), and a segmenter cuts every given segment into positive
  lengths that add up to it (locale \<open>segmenter\<close>).
\<close>

section \<open>Runs\<close>

lemma skip_run_ends:
  assumes "\<forall>p\<ge>e. \<not> P p"
  shows "\<exists>q. skip_run P pos = Some q \<and> pos \<le> q \<and> (pos \<le> e \<longrightarrow> q \<le> e) \<and> (\<forall>i. pos \<le> i \<longrightarrow> i < q \<longrightarrow> P i) \<and> \<not> P q"
proof (induction "e - pos" arbitrary: pos rule: less_induct)
  case less
  show ?case
  proof (cases "P pos")
    case True
    then have "pos < e" using assms by (meson not_le)
    then have "e - (pos + 1) < e - pos" by simp
    from less [OF this] obtain q where
      q: "skip_run P (pos + 1) = Some q" "pos + 1 \<le> q" "pos + 1 \<le> e \<longrightarrow> q \<le> e" "\<forall>i. pos + 1 \<le> i \<longrightarrow> i < q \<longrightarrow> P i" "\<not> P q" by blast
    have "\<forall>i. pos \<le> i \<longrightarrow> i < q \<longrightarrow> P i" using q(4) True by (metis Suc_eq_plus1 Suc_leI le_neq_implies_less)
    moreover have "skip_run P pos = Some q" using q(1) True by (subst skip_run.simps) simp
    ultimately show ?thesis using q \<open>pos < e\<close> by (intro exI [of _ q]) simp
  next
    case False
    then show ?thesis by (subst skip_run.simps) simp
  qed
qed

lemma skip_run_moves: "skip_run P pos = Some q \<Longrightarrow> P pos \<Longrightarrow> \<forall>p\<ge>e. \<not> P p \<Longrightarrow> pos < q"
  using skip_run_ends [of e P pos] by (metis le_neq_implies_less option.inject)

definition ctx_ok :: "seg_ctx \<Rightarrow> bool" where
  "ctx_ok c \<longleftrightarrow> sc_ini c \<le> sc_end c \<and> sc_end c \<le> length (sc_cpts c)"

lemma flags_out: "sc_end c \<le> p \<Longrightarrow> get_flags c p = 0"
  by (simp add: get_flags_def)

lemma cpt_out: "sc_end c \<le> p \<Longrightarrow> get_cpt c p = OUT_OF_RANGE"
  by (simp add: get_cpt_def)

lemma ends_flags: "\<not> f 0 \<Longrightarrow> \<forall>p\<ge>sc_end c. \<not> f (get_flags c p)"
  by (simp add: flags_out)

lemma ends_newline: "\<forall>p\<ge>sc_end c. \<not> is_newline (get_cpt c p)"
  by (simp add: cpt_out is_newline_def OUT_OF_RANGE_def CR_def LF_def)

lemma ends_han: "\<forall>p\<ge>sc_end c. \<not> cpt_is_han (get_cpt c p)"
  using not_han_out by (simp add: cpt_out OUT_OF_RANGE_def)

lemma others_0 [simp]: "\<not> is_other 0" "\<not> is_other_mark 0" "\<not> is_word_mark 0"
  by (simp_all add: is_other_def is_other_mark_def is_word_mark_def)

section \<open>Emitting\<close>

definition emitted :: "nat \<Rightarrow> nat \<Rightarrow> seg_state \<Rightarrow> seg_state \<Rightarrow> bool" where
  \<comment> \<open>what lies between the positions was recorded in positive lengths\<close>
  "emitted pos q s s' \<longleftrightarrow> pos \<le> q \<and> ss_prev s' = q \<and> (\<exists>ls. ss_out s' = ss_out s @ ls \<and> sum_list ls = q - pos \<and> 0 \<notin> set ls)"

lemma emitted_trans: "emitted a b s t \<Longrightarrow> emitted b c t u \<Longrightarrow> emitted a c s u"
proof -
  assume "emitted a b s t" "emitted b c t u"
  then obtain l m where "ss_out t = ss_out s @ l" "sum_list l = b - a" "0 \<notin> set l" "ss_out u = ss_out t @ m" "sum_list m = c - b" "0 \<notin> set m"
    "a \<le> b" "b \<le> c" "ss_prev u = c" by (auto simp: emitted_def)
  then show ?thesis unfolding emitted_def by (intro conjI exI [of _ "l @ m"]) auto
qed

lemma emitted_refl: "ss_prev s = p \<Longrightarrow> emitted p p s s"
  by (simp add: emitted_def)

lemma add_token_emitted:
  "ss_prev s \<le> q \<Longrightarrow> q \<le> sc_end c \<Longrightarrow> \<exists>s'. add_token c q s = Some (q - ss_prev s, s') \<and> emitted (ss_prev s) q s s'"
  by (simp add: add_token_def Let_def emitted_def)

definition advances :: "seg_ctx \<Rightarrow> nat \<Rightarrow> seg_state \<Rightarrow> (nat \<times> seg_state) option \<Rightarrow> bool" where
  "advances c pos s r \<longleftrightarrow> (\<exists>q s'. r = Some (q, s') \<and> pos < q \<and> q \<le> sc_end c \<and> emitted pos q s s')"

lemma emit_advances: "ss_prev s = pos \<Longrightarrow> pos < q \<Longrightarrow> q \<le> sc_end c \<Longrightarrow> advances c pos s (emit c q s)"
  using add_token_emitted [of s q c] by (auto simp: emit_def advances_def)

lemma contraction_bounds: "contraction low c pos = Some e \<Longrightarrow> pos < e \<and> e \<le> sc_end c"
  by (auto simp: contraction_def Let_def split: if_splits)

lemma contraction_advances:
  "ss_prev s = pos \<Longrightarrow> contraction low c pos = Some e \<Longrightarrow> advances c pos s (do { (len, s) \<leftarrow> add_token c e s; Some (pos + len, s) })"
  using add_token_emitted [of s e c] contraction_bounds [of low c pos e] by (auto simp: advances_def)

section \<open>The locales\<close>

definition refines :: "nat list \<Rightarrow> nat list \<Rightarrow> bool" where
  \<comment> \<open>every length is cut into the consecutive lengths of a piece\<close>
  "refines offsets out \<longleftrightarrow> (\<exists>lss. concat lss = out \<and> map sum_list lss = offsets)"

locale segmenter =
  fixes seg :: "seg_ctx \<Rightarrow> nat list option"
  assumes seg: "ctx_ok c \<Longrightarrow> \<exists>ls. seg c = Some ls \<and> sum_list ls = sc_end c - sc_ini c \<and> 0 \<notin> set ls"
begin

lemma split_segments:
  assumes "sum_list offsets \<le> length cpts" "cpts_from_utf8 s = Some cpts"
  shows "\<exists>out. split_offsets seg db s offsets = Some out \<and> refines offsets out \<and> 0 \<notin> set out"
proof -
  let ?f = "\<lambda>offset (start, out). do {
         assert_that (start + offset \<le> length cpts);
         ls \<leftarrow> seg \<lparr>sc_db = db, sc_cpts = cpts, sc_ini = start, sc_end = start + offset\<rparr>;
         Some (start + offset, out @ ls)
       }"
  let ?P = "\<lambda>done (start, out). start = sum_list done \<and> refines done out \<and> 0 \<notin> set out"
  have "\<exists>r. foldM ?f offsets (0, []) = Some r \<and> ?P offsets r"
  proof (rule foldM_rule)
    show "?P [] (0, [])" by (simp add: refines_def)
    fix "done" offset rest st assume o: "offsets = done @ offset # rest" and P: "?P done st"
    obtain start out where st: "st = (start, out)" by (cases st)
    let ?c = "\<lparr>sc_db = db, sc_cpts = cpts, sc_ini = start, sc_end = start + offset\<rparr>"
    have le: "start + offset \<le> length cpts" using assms(1) o P st by simp
    then have "ctx_ok ?c" by (simp add: ctx_ok_def)
    from seg [OF this] obtain ls where ls: "seg ?c = Some ls" "sum_list ls = offset" "0 \<notin> set ls" by auto
    from P st obtain lss where "concat lss = out" "map sum_list lss = done" by (auto simp: refines_def)
    then have "refines (done @ [offset]) (out @ ls)" using ls(2) unfolding refines_def by (intro exI [of _ "lss @ [ls]"]) simp
    then show "\<exists>st'. ?f offset st = Some st' \<and> ?P (done @ [offset]) st'" using le ls P st by auto
  qed
  then show ?thesis using assms(2) by (auto simp: split_offsets_def)
qed

end

locale stepper =
  fixes step :: "seg_ctx \<Rightarrow> nat \<Rightarrow> seg_state \<Rightarrow> (nat \<times> seg_state) option"
  assumes step: "ctx_ok c \<Longrightarrow> sc_ini c \<le> pos \<Longrightarrow> pos < sc_end c \<Longrightarrow> ss_prev s = pos \<Longrightarrow> advances c pos s (step c pos s)"
begin

lemma loop_ends:
  "ctx_ok c \<Longrightarrow> sc_ini c \<le> pos \<Longrightarrow> pos \<le> sc_end c \<Longrightarrow> ss_prev s = pos \<Longrightarrow>
    \<exists>s'. seg_loop step c pos s = Some s' \<and> emitted pos (sc_end c) s s'"
proof (induction "sc_end c - pos" arbitrary: pos s rule: less_induct)
  case less
  show ?case
  proof (cases "pos < sc_end c")
    case True
    from step [OF less.prems(1,2) True less.prems(4)] obtain q s' where
      q: "step c pos s = Some (q, s')" "pos < q" "q \<le> sc_end c" "emitted pos q s s'" by (auto simp: advances_def)
    have "ss_prev s' = q" using q(4) by (simp add: emitted_def)
    have lt: "sc_end c - q < sc_end c - pos" "sc_ini c \<le> q" using q(2,3) less.prems(2) True by auto
    from less.hyps [OF lt(1) less.prems(1) lt(2) q(3) \<open>ss_prev s' = q\<close>] obtain s'' where
      s'': "seg_loop step c q s' = Some s''" "emitted q (sc_end c) s' s''" by blast
    have "seg_loop step c pos s = Some s''" using True q(1) s''(1) by (subst seg_loop.simps) simp
    with emitted_trans [OF q(4) s''(2)] show ?thesis by blast
  next
    case False
    then have "pos = sc_end c" using less.prems(3) by simp
    then show ?thesis using emitted_refl [OF less.prems(4)] by (subst seg_loop.simps) simp
  qed
qed

lemma segments:
  assumes "ctx_ok c"
  shows "\<exists>ls. split_segment step c = Some ls \<and> sum_list ls = sc_end c - sc_ini c \<and> 0 \<notin> set ls"
proof -
  have "sc_ini c \<le> sc_end c" using assms by (simp add: ctx_ok_def)
  from loop_ends [OF assms order_refl this, of "\<lparr>ss_prev = sc_ini c, ss_out = []\<rparr>"] show ?thesis
    by (auto simp: split_segment_def emitted_def)
qed

end

sublocale stepper \<subseteq> segmenter "split_segment step"
  by unfold_locales (rule segments)

end
