(* ===== verification/SplitSteps.thy ===== *)
theory SplitSteps
  imports SplitLoops
begin

text \<open>Every pre-tokenizer of \<open>unicode.cpp\<close> is a segmenter: the interpretations of the two locales.\<close>

section \<open>Shared branches\<close>

lemma spaces_tail_advances:
  assumes "ss_prev s = pos" "pos < sc_end c" "pos + n \<le> sc_end c"
  shows "advances c pos s (spaces_tail c pos n s)"
  unfolding spaces_tail_def using assms by (auto intro!: emit_advances)

lemma scan_spaces_ends:
  "pos + n \<le> sc_end c \<Longrightarrow> last_end = 0 \<or> pos < last_end \<and> last_end \<le> pos + n \<Longrightarrow>
    \<exists>m l. scan_spaces c pos n last_end = Some (m, l) \<and> pos + m \<le> sc_end c \<and> (l = 0 \<or> pos < l \<and> l \<le> pos + m)"
proof (induction "sc_end c - (pos + n)" arbitrary: n last_end rule: less_induct)
  case less
  show ?case
  proof (cases "is_whitespace (get_flags c (pos + n))")
    case True
    then have lt: "pos + n < sc_end c" using flags_out [of c "pos + n"] by (metis flags_0(4) not_le)
    let ?l = "if is_newline (get_cpt c (pos + n)) then pos + n + 1 else last_end"
    have "\<exists>m l. scan_spaces c pos (n + 1) ?l = Some (m, l) \<and> pos + m \<le> sc_end c \<and> (l = 0 \<or> pos < l \<and> l \<le> pos + m)"
      by (rule less.hyps) (use lt less.prems in auto)
    moreover have "scan_spaces c pos n last_end = scan_spaces c pos (n + 1) ?l" using True by (subst scan_spaces.simps) simp
    ultimately show ?thesis by simp
  next
    case False
    then show ?thesis using less.prems by (subst scan_spaces.simps) simp
  qed
qed

lemma spaces_step_advances:
  assumes "ss_prev s = pos" "pos < sc_end c"
  shows "advances c pos s (spaces_step c pos s)"
proof -
  from scan_spaces_ends [of pos 0 c 0] assms(2) obtain m l where
    r: "scan_spaces c pos 0 0 = Some (m, l)" "pos + m \<le> sc_end c" "l = 0 \<or> pos < l \<and> l \<le> pos + m" by auto
  show ?thesis
  proof (cases "l = 0")
    case True
    then show ?thesis using r spaces_tail_advances [OF assms r(2)] by (simp add: spaces_step_def)
  next
    case False
    then show ?thesis using r emit_advances [OF assms(1), of l c] by (simp add: spaces_step_def)
  qed
qed

lemma skip_emit_advances:
  assumes "ss_prev s = pos" "pos \<le> from_pos" "from_pos \<le> sc_end c" "\<forall>p\<ge>sc_end c. \<not> P p" "pos < from_pos \<or> P from_pos"
  shows "advances c pos s (do { q \<leftarrow> skip_run P from_pos; emit c q s })"
proof -
  from skip_run_ends [OF assms(4), of from_pos] assms(3) obtain q where q: "skip_run P from_pos = Some q" "from_pos \<le> q" "q \<le> sc_end c" by blast
  have "pos < q"
  proof (cases "P from_pos")
    case True
    then show ?thesis using skip_run_moves [OF q(1) True assms(4)] assms(2) by simp
  qed (use assms(5) q(2) in auto)
  with q emit_advances [OF assms(1) _ q(3)] show ?thesis by simp
qed

lemma opt_space_bounds: "sc_ini c \<le> pos \<Longrightarrow> pos < sc_end c \<Longrightarrow> pos \<le> opt_space c pos \<and> opt_space c pos \<le> sc_end c"
  by (simp add: opt_space_def)

lemma opt_space_same: "opt_space c pos = pos \<or> pos < opt_space c pos"
  by (simp add: opt_space_def)

lemma others_step_advances:
  assumes "ss_prev s = pos" "sc_ini c \<le> pos" "pos < sc_end c" "\<not> other 0" "opt_space c pos = pos \<Longrightarrow> other (get_flags c pos)"
  shows "advances c pos s (others_step other c pos s)"
proof -
  let ?o = "opt_space c pos"
  have o: "pos \<le> ?o" "?o \<le> sc_end c" using opt_space_bounds [OF assms(2,3)] by simp_all
  note ends = ends_flags [of other c, OF assms(4)]
  from skip_run_ends [OF ends, of ?o] o(2) obtain q where
    q: "skip_run (\<lambda>p. other (get_flags c p)) ?o = Some q" "?o \<le> q" "q \<le> sc_end c" by blast
  from skip_run_ends [OF ends_newline [of c], of q] q(3) obtain q' where
    q': "skip_run (\<lambda>p. is_newline (get_cpt c p)) q = Some q'" "q \<le> q'" "q' \<le> sc_end c" by blast
  have "pos < q"
  proof (cases "?o = pos")
    case True
    then show ?thesis using skip_run_moves [OF q(1) _ ends] assms(5) by simp
  qed (use o(1) q(2) in auto)
  with q(1) q' emit_advances [OF assms(1), of q' c] show ?thesis by (simp add: others_step_def)
qed

lemma number_groups_ends:
  assumes "ctx_ok c"
  shows "pos \<le> sc_end c \<Longrightarrow> ss_prev s = ini \<Longrightarrow> ini \<le> pos \<Longrightarrow>
    \<exists>q s'. number_groups c ini pos s = Some (q, s') \<and> pos \<le> q \<and> q \<le> sc_end c \<and> ss_prev s' \<le> q \<and> emitted ini (ss_prev s') s s' \<and>
      (is_number (get_flags c pos) \<longrightarrow> pos < q)"
proof (induction "sc_end c - pos" arbitrary: ini pos s rule: less_induct)
  case less
  show ?case
  proof (cases "is_number (get_flags c pos)")
    case num: True
    then have lt: "pos < sc_end c" using flags_out [of c pos] by (metis flags_0(1) not_le)
    show ?thesis
    proof (cases "pos + 1 - ini \<ge> 3")
      case True
      from add_token_emitted [of s "pos + 1" c] less.prems lt obtain s1 where
        s1: "add_token c (pos + 1) s = Some (pos + 1 - ini, s1)" "emitted ini (pos + 1) s s1" by auto
      have "ss_prev s1 = pos + 1" using s1(2) by (simp add: emitted_def)
      moreover have "sc_end c - (pos + 1) < sc_end c - pos" "pos + 1 \<le> sc_end c" using lt by simp_all
      ultimately obtain q s' where
        q: "number_groups c (pos + 1) (pos + 1) s1 = Some (q, s')" "pos + 1 \<le> q" "q \<le> sc_end c" "ss_prev s' \<le> q"
          "emitted (pos + 1) (ss_prev s') s1 s'" using less.hyps [of "pos + 1" s1 "pos + 1"] by blast
      have "number_groups c ini pos s = Some (q, s')" using num True s1(1) q(1) by (subst number_groups.simps) simp
      with q emitted_trans [OF s1(2) q(5)] show ?thesis by auto
    next
      case False
      have "sc_end c - (pos + 1) < sc_end c - pos" "pos + 1 \<le> sc_end c" "ini \<le> pos + 1" using lt less.prems by simp_all
      with less.hyps [of "pos + 1" s ini] less.prems(2) obtain q s' where
        q: "number_groups c ini (pos + 1) s = Some (q, s')" "pos + 1 \<le> q" "q \<le> sc_end c" "ss_prev s' \<le> q" "emitted ini (ss_prev s') s s'" by blast
      have "number_groups c ini pos s = Some (q, s')" using num False q(1) by (subst number_groups.simps) simp
      with q show ?thesis by auto
    qed
  next
    case False
    then show ?thesis using less.prems emitted_refl [of s ini] by (subst number_groups.simps) auto
  qed
qed

lemma numbers_step_advances:
  assumes "ctx_ok c" "ss_prev s = pos" "pos < sc_end c" "is_number (get_flags c pos)"
  shows "advances c pos s (numbers_step c pos s)"
proof -
  from number_groups_ends [OF assms(1), of pos s pos] assms(2-4) obtain q s' where
    q: "number_groups c pos pos s = Some (q, s')" "pos < q" "q \<le> sc_end c" "ss_prev s' \<le> q" "emitted pos (ss_prev s') s s'" by auto
  from add_token_emitted [OF q(4,3)] obtain s'' where s'': "emit c q s' = Some (q, s'')" "emitted (ss_prev s') q s' s''"
    by (auto simp: emit_def)
  have "numbers_step c pos s = Some (q, s'')" using q(1) s''(1) by (simp add: numbers_step_def)
  with q(2,3) emitted_trans [OF q(5) s''(2)] show ?thesis by (simp add: advances_def)
qed

lemma letters_step_advances:
  assumes "ss_prev s = pos" "pos < sc_end c" "\<not> letter 0"
  shows "advances c pos s (letters_step letter c pos s)"
  unfolding letters_step_def using assms by (intro skip_emit_advances ends_flags) auto

section \<open>The steps\<close>

lemma gpt2_advances:
  assumes c: "ctx_ok c" "sc_ini c \<le> pos" "pos < sc_end c" "ss_prev s = pos"
  shows "advances c pos s (gpt2_step c pos s)"
proof (cases "contraction (\<lambda>x. x) c pos")
  case (Some e)
  then show ?thesis using contraction_advances [OF c(4) Some] by (simp add: gpt2_step_def)
next
  case None
  let ?o = "opt_space c pos"
  have o: "pos \<le> ?o" "?o \<le> sc_end c" using opt_space_bounds [OF c(2,3)] by simp_all
  have run: "advances c pos s (do { q \<leftarrow> skip_run (\<lambda>p. f (get_flags c p)) ?o; emit c q s })" if "\<not> f 0" "f (get_flags c ?o)" for f
    by (rule skip_emit_advances [OF c(4) o]) (use ends_flags that in auto)
  from skip_run_ends [OF ends_flags [of is_whitespace c], of pos] c(3) obtain q where
    q: "skip_run (\<lambda>p. is_whitespace (get_flags c p)) pos = Some q" "pos \<le> q" "q \<le> sc_end c" by auto
  have "advances c pos s (spaces_tail c pos (q - pos) s)" using spaces_tail_advances [OF c(4,3), of "q - pos"] q(2,3) by simp
  then show ?thesis using None run q(1) by (simp add: gpt2_step_def Let_def)
qed

lemma tail_advances:
  assumes c: "ctx_ok c" "sc_ini c \<le> pos" "pos < sc_end c" "ss_prev s = pos"
    and letter: "\<not> letter 0" and other: "\<not> other 0" "opt_space c pos = pos \<Longrightarrow> others \<Longrightarrow> other (get_flags c pos)"
    and num: "is_number (get_flags c pos) \<Longrightarrow> advances c pos s number"
  shows "advances c pos s
    (if letters_ahead letter c pos then letters_step letter c pos s
     else if is_number (get_flags c pos) then number
     else if others then others_step other c pos s
     else spaces_step c pos s)"
  using letters_step_advances [where letter = letter, OF c(4,3) letter] others_step_advances [OF c(4,2,3) other] spaces_step_advances [OF c(4,3)] num by auto

lemma llama3_advances:
  assumes c: "ctx_ok c" "sc_ini c \<le> pos" "pos < sc_end c" "ss_prev s = pos"
  shows "advances c pos s (llama3_step c pos s)"
proof (cases "contraction (db_tolower (sc_db c)) c pos")
  case (Some e)
  then show ?thesis using contraction_advances [OF c(4) Some] by (simp add: llama3_step_def)
next
  case None
  show ?thesis
    unfolding llama3_step_def None option.case Let_def
    by (rule tail_advances [OF c]) (use numbers_step_advances [OF c(1,4,3)] in \<open>auto simp: is_other_def\<close>)
qed

lemma qwen2_advances:
  assumes c: "ctx_ok c" "sc_ini c \<le> pos" "pos < sc_end c" "ss_prev s = pos"
  shows "advances c pos s (qwen2_step c pos s)"
proof (cases "contraction (db_tolower (sc_db c)) c pos")
  case (Some e)
  then show ?thesis using contraction_advances [OF c(4) Some] by (simp add: qwen2_step_def)
next
  case None
  show ?thesis
    unfolding qwen2_step_def None option.case Let_def
    by (rule tail_advances [OF c]) (use emit_advances [OF c(4), of "pos + 1"] c(3) in \<open>auto simp: is_other_def\<close>)
qed

lemma qwen35_advances:
  assumes c: "ctx_ok c" "sc_ini c \<le> pos" "pos < sc_end c" "ss_prev s = pos"
  shows "advances c pos s (qwen35_step c pos s)"
proof (cases "contraction (db_tolower (sc_db c)) c pos")
  case (Some e)
  then show ?thesis using contraction_advances [OF c(4) Some] by (simp add: qwen35_step_def)
next
  case None
  show ?thesis
    unfolding qwen35_step_def None option.case Let_def
    by (rule tail_advances [OF c]) (use emit_advances [OF c(4), of "pos + 1"] c(3) in \<open>auto simp: is_other_mark_def\<close>)
qed

lemma ends_plain: "\<forall>p\<ge>sc_end c. \<not> plain_letter c p"
  by (simp add: plain_letter_def flags_out)

lemma kimi_word_bounds:
  assumes "pos < sc_end c" "kimi_word c pos = Some q" "q > 0"
  shows "pos < q \<and> q \<le> sc_end c"
proof -
  let ?start = "if leading_char c pos then pos + 1 else pos"
  have "?start \<le> sc_end c" using assms(1) by simp
  with skip_run_ends [OF ends_plain [of c], of ?start] obtain q1 where
    q1: "skip_run (plain_letter c) ?start = Some q1" "?start \<le> q1" "q1 \<le> sc_end c" "\<not> plain_letter c q1" by blast
  with assms(2,3) have more: "q1 > ?start" by (auto simp: kimi_word_def Let_def split: if_splits)
  from skip_run_ends [OF ends_plain [of c], of q1] q1(3) obtain q2 where
    q2: "skip_run (plain_letter c) q1 = Some q2" "q1 \<le> q2" "q2 \<le> sc_end c" by blast
  have "Some q = Some (case contraction (db_tolower (sc_db c)) c q2 of Some e \<Rightarrow> e | None \<Rightarrow> q2)"
    using assms(2) q1(1) q2(1) more unfolding kimi_word_def Let_def by (simp cong: if_cong)
  then have q: "q = (case contraction (db_tolower (sc_db c)) c q2 of Some e \<Rightarrow> e | None \<Rightarrow> q2)" by simp
  have "pos < q2" using more q2(2) by (simp split: if_splits)
  then show ?thesis using q q2(3) contraction_bounds [of "db_tolower (sc_db c)" c q2] by (auto split: option.splits)
qed

lemma kimi_word_total:
  assumes "pos < sc_end c"
  shows "\<exists>q. kimi_word c pos = Some q"
proof -
  let ?start = "if leading_char c pos then pos + 1 else pos"
  from skip_run_ends [OF ends_plain [of c], of ?start] obtain q1 where q1: "skip_run (plain_letter c) ?start = Some q1" by blast
  have more: "\<exists>q. do { q \<leftarrow> skip_run (plain_letter c) p; Some (case contraction (db_tolower (sc_db c)) c q of Some e \<Rightarrow> e | None \<Rightarrow> q) } = Some q" for p
    using skip_run_ends [OF ends_plain [of c], of p] by auto
  show ?thesis unfolding kimi_word_def Let_def q1 Option.bind.simps by (cases "q1 > ?start") (use more in auto)
qed

lemma kimi_rest_advances:
  assumes c: "ctx_ok c" "sc_ini c \<le> pos" "pos < sc_end c" "ss_prev s = pos"
  shows "advances c pos s (kimi_rest c pos s)"
  unfolding kimi_rest_def Let_def
  using numbers_step_advances [OF c(1,4,3)] others_step_advances [OF c(4,2,3), of is_other] spaces_step_advances [OF c(4,3)]
  by (cases "opt_space c pos = pos") auto

lemma kimi_advances:
  assumes c: "ctx_ok c" "sc_ini c \<le> pos" "pos < sc_end c" "ss_prev s = pos"
  shows "advances c pos s (kimi_step c pos s)"
proof (cases "cpt_is_han (get_cpt c pos)")
  case True
  have "advances c pos s (do { q \<leftarrow> skip_run (\<lambda>p. cpt_is_han (get_cpt c p)) pos; emit c q s })"
    by (rule skip_emit_advances [OF c(4)]) (use c(3) True ends_han in auto)
  then show ?thesis using True by (simp add: kimi_step_def)
next
  case False
  from kimi_word_total [OF c(3)] obtain q where q: "kimi_word c pos = Some q" by blast
  show ?thesis
    unfolding kimi_step_def
    using False q kimi_rest_advances [OF c] emit_advances [OF c(4)] kimi_word_bounds [OF c(3) q] by auto
qed

interpretation gpt2: stepper gpt2_step by unfold_locales (rule gpt2_advances)
interpretation llama3: stepper llama3_step by unfold_locales (rule llama3_advances)
interpretation qwen2: stepper qwen2_step by unfold_locales (rule qwen2_advances)
interpretation qwen35: stepper qwen35_step by unfold_locales (rule qwen35_advances)
interpretation kimi: stepper kimi_step by unfold_locales (rule kimi_advances)

section \<open>Segmenters without a token at every step\<close>

lemma digit_groups_ends:
  "(e - cur) mod 3 = 0 \<Longrightarrow> cur \<le> e \<Longrightarrow> e \<le> sc_end c \<Longrightarrow> ss_prev s \<le> cur \<Longrightarrow>
    \<exists>s'. digit_groups c cur e s = Some s' \<and> emitted (ss_prev s) (ss_prev s') s s' \<and> ss_prev s' \<le> e"
proof (induction "e - cur" arbitrary: cur s rule: less_induct)
  case less
  show ?case
  proof (cases "cur < e")
    case True
    have le: "cur + 3 \<le> e"
    proof (rule ccontr)
      assume "\<not> cur + 3 \<le> e"
      then have "e - cur = 1 \<or> e - cur = 2" using True by arith
      with less.prems(1) show False by auto
    qed
    from add_token_emitted [of s "cur + 3" c] less.prems le obtain s1 where
      s1: "add_token c (cur + 3) s = Some (cur + 3 - ss_prev s, s1)" "emitted (ss_prev s) (cur + 3) s s1" by auto
    have prev: "ss_prev s1 = cur + 3" using s1(2) by (simp add: emitted_def)
    have "e - cur = (e - (cur + 3)) + 3" using le by simp
    then have "(e - (cur + 3)) mod 3 = 0" using less.prems(1) by (metis mod_add_self2)
    moreover have "e - (cur + 3) < e - cur" using True by simp
    ultimately obtain s' where s': "digit_groups c (cur + 3) e s1 = Some s'" "emitted (ss_prev s1) (ss_prev s') s1 s'" "ss_prev s' \<le> e"
      using less.hyps [of "cur + 3" s1] le less.prems(3) prev by auto
    have "digit_groups c cur e s = Some s'" using True s1(1) s'(1) by (subst digit_groups.simps) simp
    then show ?thesis using emitted_trans [OF s1(2)] s'(2,3) prev by auto
  next
    case False
    then show ?thesis using less.prems emitted_refl [of s] by (subst digit_groups.simps) simp
  qed
qed

lemma afmoe_step_ends:
  assumes "pos < sc_end c" "ss_prev s \<le> pos"
  shows "\<exists>q s'. afmoe_step c pos s = Some (q, s') \<and> pos < q \<and> q \<le> sc_end c \<and> ss_prev s' \<le> q \<and> emitted (ss_prev s) (ss_prev s') s s'"
proof (cases "is_number (get_flags c pos)")
  case True
  let ?P = "\<lambda>p. is_number (get_flags c p) \<and> p < sc_end c"
  have ends: "\<forall>p\<ge>sc_end c. \<not> ?P p" by simp
  from skip_run_ends [OF ends, of pos] assms(1) obtain q where q: "skip_run ?P pos = Some q" "pos \<le> q" "q \<le> sc_end c" by auto
  have "pos < q" using skip_run_moves [OF q(1) _ ends] True assms(1) by simp
  let ?r = "(q - pos) mod 3"
  have r: "pos + ?r \<le> q" "(q - (pos + ?r)) mod 3 = 0"
  proof -
    have "?r \<le> q - pos" by (rule mod_less_eq_dividend)
    then show "pos + ?r \<le> q" using q(2) by simp
    have "(q - pos - ?r) mod 3 = 0" by (simp add: minus_mod_eq_mult_div)
    then show "(q - (pos + ?r)) mod 3 = 0" by (simp add: diff_diff_add)
  qed
  obtain s1 where s1: "(if ?r > 0 then map_option snd (add_token c (pos + ?r) s) else Some s) = Some s1"
    "emitted (ss_prev s) (ss_prev s1) s s1" "ss_prev s1 \<le> pos + ?r"
  proof (cases "?r > 0")
    case pos_r: True
    from add_token_emitted [of s "pos + ?r" c] assms(2) r(1) q(3) obtain s1 where
      "add_token c (pos + ?r) s = Some (pos + ?r - ss_prev s, s1)" "emitted (ss_prev s) (pos + ?r) s s1" by auto
    then show ?thesis using that [of s1] pos_r by (auto simp: emitted_def)
  next
    case False
    then show ?thesis using that [of s] emitted_refl [of s] assms(2) by simp
  qed
  from digit_groups_ends [OF r(2,1) q(3) s1(3)] obtain s2 where
    s2: "digit_groups c (pos + ?r) q s1 = Some s2" "emitted (ss_prev s1) (ss_prev s2) s1 s2" "ss_prev s2 \<le> q" by blast
  have "afmoe_step c pos s = Some (q, s2)" using True q(1) s1(1) s2(1) by (simp add: afmoe_step_def Let_def)
  then show ?thesis using \<open>pos < q\<close> q(3) s2(3) emitted_trans [OF s1(2) s2(2)] by blast
next
  case False
  then show ?thesis using assms emitted_refl [of s] by (auto simp: afmoe_step_def)
qed

lemma afmoe_loop_ends:
  "pos \<le> sc_end c \<Longrightarrow> ss_prev s \<le> pos \<Longrightarrow>
    \<exists>s'. seg_loop afmoe_step c pos s = Some s' \<and> ss_prev s' \<le> sc_end c \<and> emitted (ss_prev s) (ss_prev s') s s'"
proof (induction "sc_end c - pos" arbitrary: pos s rule: less_induct)
  case less
  show ?case
  proof (cases "pos < sc_end c")
    case True
    from afmoe_step_ends [OF True less.prems(2)] obtain q s1 where
      q: "afmoe_step c pos s = Some (q, s1)" "pos < q" "q \<le> sc_end c" "ss_prev s1 \<le> q" "emitted (ss_prev s) (ss_prev s1) s s1" by blast
    have "sc_end c - q < sc_end c - pos" using q(2) True by simp
    from less.hyps [OF this q(3,4)] obtain s2 where
      s2: "seg_loop afmoe_step c q s1 = Some s2" "ss_prev s2 \<le> sc_end c" "emitted (ss_prev s1) (ss_prev s2) s1 s2" by blast
    have "seg_loop afmoe_step c pos s = Some s2" using True q(1) s2(1) by (subst seg_loop.simps) simp
    with s2(2) emitted_trans [OF q(5) s2(3)] show ?thesis by blast
  next
    case False
    then show ?thesis using less.prems emitted_refl [of s] by (subst seg_loop.simps) simp
  qed
qed

lemma afmoe_segments:
  assumes "ctx_ok c"
  shows "\<exists>ls. afmoe_segment c = Some ls \<and> sum_list ls = sc_end c - sc_ini c \<and> 0 \<notin> set ls"
proof -
  have le: "sc_ini c \<le> sc_end c" using assms by (simp add: ctx_ok_def)
  from afmoe_loop_ends [OF le, of "\<lparr>ss_prev = sc_ini c, ss_out = []\<rparr>"] obtain s where
    s: "seg_loop afmoe_step c (sc_ini c) \<lparr>ss_prev = sc_ini c, ss_out = []\<rparr> = Some s" "ss_prev s \<le> sc_end c"
      "emitted (sc_ini c) (ss_prev s) \<lparr>ss_prev = sc_ini c, ss_out = []\<rparr> s" by auto
  show ?thesis
  proof (cases "ss_prev s < sc_end c")
    case True
    from add_token_emitted [OF s(2) order_refl] obtain s' where
      s': "add_token c (sc_end c) s = Some (sc_end c - ss_prev s, s')" "emitted (ss_prev s) (sc_end c) s s'" by auto
    from emitted_trans [OF s(3) s'(2)] s(1) s'(1) True show ?thesis by (auto simp: afmoe_segment_def emitted_def)
  next
    case False
    then have "ss_prev s = sc_end c" using s(2) by simp
    then show ?thesis using s(1,3) by (auto simp: afmoe_segment_def emitted_def)
  qed
qed

lemma newline_runs_ends:
  "pos \<le> sc_end c \<Longrightarrow> \<exists>ls. newline_runs c pos out = Some (out @ ls) \<and> sum_list ls = sc_end c - pos \<and> 0 \<notin> set ls"
proof (induction "sc_end c - pos" arbitrary: pos out rule: less_induct)
  case less
  show ?case
  proof (cases "pos < sc_end c")
    case True
    let ?P = "\<lambda>p. p < sc_end c \<and> (sc_cpts c ! p = LF) = (sc_cpts c ! pos = LF)"
    have ends: "\<forall>p\<ge>sc_end c. \<not> ?P p" by simp
    from skip_run_ends [OF ends, of pos] less.prems obtain q where q: "skip_run ?P pos = Some q" "q \<le> sc_end c" by blast
    have lt: "pos < q" using skip_run_moves [OF q(1) _ ends] True by simp
    then have "sc_end c - q < sc_end c - pos" using True by simp
    from less.hyps [OF this q(2), of "out @ [q - pos]"] obtain ls where
      ls: "newline_runs c q (out @ [q - pos]) = Some ((out @ [q - pos]) @ ls)" "sum_list ls = sc_end c - q" "0 \<notin> set ls" by blast
    have "newline_runs c pos out = Some (out @ (q - pos) # ls)" using True q(1) ls(1) by (subst newline_runs.simps) simp
    then show ?thesis using ls(2,3) lt q(2) by (intro exI [of _ "(q - pos) # ls"]) auto
  next
    case False
    then show ?thesis using less.prems by (subst newline_runs.simps) simp
  qed
qed

lemma newline_segments:
  "ctx_ok c \<Longrightarrow> \<exists>ls. newline_runs c (sc_ini c) [] = Some ls \<and> sum_list ls = sc_end c - sc_ini c \<and> 0 \<notin> set ls"
  using newline_runs_ends [of "sc_ini c" c "[]"] by (simp add: ctx_ok_def)

interpretation afmoe: segmenter afmoe_segment by unfold_locales (rule afmoe_segments)
interpretation newlines: segmenter "\<lambda>c. newline_runs c (sc_ini c) []" by unfold_locales (rule newline_segments)

end
