(* ===== verification/ByteMap.thy ===== *)
theory ByteMap
  imports Utf8
begin

text \<open>
  The byte encoding of tokens (\<open>unicode.cpp\<close>, \<open>llama_decode_text\<close> of \<open>llama-vocab.cpp\<close>): every byte stands
  for one printable code point. Both tables are built as in the code; a failing \<open>at\<close> is no value.
\<close>

section \<open>The tables\<close>

type_synonym 'v insertion = "nat \<Rightarrow> 'v \<Rightarrow> 'v option"

definition printable_loops :: "'v insertion \<Rightarrow> 'v \<Rightarrow> 'v option" where
  \<comment> \<open>the three loops over the printable bytes\<close>
  "printable_loops ins m = do {
     m \<leftarrow> foldM ins [0x21..<0x7E + 1] m;
     m \<leftarrow> foldM ins [0xA1..<0xAC + 1] m;
     foldM ins [0xAE..<0xFF + 1] m
   }"

definition byte_to_utf8_map :: "(byte \<rightharpoonup> byte list) option" where
  "byte_to_utf8_map = do {
     m \<leftarrow> printable_loops (\<lambda>ch m. do { s \<leftarrow> cpt_to_utf8 (of_nat ch); Some (m(of_nat ch \<mapsto> s)) }) Map.empty;
     (m, n) \<leftarrow> foldM (\<lambda>ch (m, n). if m (of_nat ch) = None
        then do { s \<leftarrow> cpt_to_utf8 (of_nat (256 + n)); Some (m(of_nat ch \<mapsto> s), n + 1) } else Some (m, n)) [0..<256] (m, 0);
     Some m
   }"

definition utf8_to_byte_map :: "(byte list \<rightharpoonup> byte) option" where
  "utf8_to_byte_map = do {
     m \<leftarrow> printable_loops (\<lambda>ch m. do { s \<leftarrow> cpt_to_utf8 (of_nat ch); Some (m(s \<mapsto> of_nat ch)) }) Map.empty;
     (m, n) \<leftarrow> foldM (\<lambda>ch (m, n). do { s \<leftarrow> cpt_to_utf8 (of_nat ch);
        if m s = None then do { s' \<leftarrow> cpt_to_utf8 (of_nat (256 + n)); Some (m(s' \<mapsto> of_nat ch), n + 1) } else Some (m, n) }) [0..<256] (m, 0);
     Some m
   }"

definition byte_to_utf8 :: "byte \<Rightarrow> byte list option" where
  "byte_to_utf8 b = do { m \<leftarrow> byte_to_utf8_map; m b }"

definition utf8_to_byte :: "byte list \<Rightarrow> byte option" where
  "utf8_to_byte s = do { m \<leftarrow> utf8_to_byte_map; m s }"

section \<open>Encoding and decoding words\<close>

definition encode_word :: "byte list \<Rightarrow> byte list option" where
  "encode_word word = do {
     cps \<leftarrow> cpts_from_utf8 word;
     utf \<leftarrow> cpts_to_utf8 cps;
     foldM (\<lambda>b tok. do { s \<leftarrow> byte_to_utf8 b; Some (tok @ s) }) utf []
   }"

definition byte_encoding_process :: "byte list list \<Rightarrow> byte list list option" where
  "byte_encoding_process words = foldM (\<lambda>w out. do { e \<leftarrow> encode_word w; Some (out @ [e]) }) words []"

definition hex_digit :: "nat \<Rightarrow> byte" where
  "hex_digit n = (if n < 10 then of_nat (48 + n) else of_nat (87 + n))"

definition unk_byte :: "byte list \<Rightarrow> byte list \<Rightarrow> byte list" where
  \<comment> \<open>what is put in for a code point that stands for no byte: its encoding in hexadecimal and the whole text\<close>
  "unk_byte text utf = [91, 85, 78, 75, 95, 66, 89, 84, 69, 95, 48, 120] @
     concat (map (\<lambda>c. [hex_digit (unat c div 16), hex_digit (unat c mod 16)]) utf) @ text @ [93]"

definition decode_text :: "byte list \<Rightarrow> byte list option" where
  "decode_text s = do {
     cps \<leftarrow> cpts_from_utf8 s;
     foldM (\<lambda>c out. do { u \<leftarrow> cpt_to_utf8 c; Some (out @ (case utf8_to_byte u of Some b \<Rightarrow> [b] | None \<Rightarrow> unk_byte s u)) }) cps []
   }"

section \<open>The code point of a byte\<close>

definition printable :: "nat \<Rightarrow> bool" where
  "printable ch \<longleftrightarrow> 0x21 \<le> ch \<and> ch \<le> 0x7E \<or> 0xA1 \<le> ch \<and> ch \<le> 0xAC \<or> 0xAE \<le> ch \<and> ch \<le> 0xFF"

definition gaps :: "nat \<Rightarrow> nat" where
  "gaps ch = length (filter (\<lambda>i. \<not> printable i) [0..<ch])"

definition byte_cpt :: "nat \<Rightarrow> nat" where
  "byte_cpt ch = (if printable ch then ch else 256 + gaps ch)"

definition enc :: "nat \<Rightarrow> byte list" where
  "enc c = the (cpt_to_utf8 (of_nat c))"

lemma gaps_Suc: "gaps (Suc ch) = (if printable ch then gaps ch else Suc (gaps ch))"
  by (simp add: gaps_def)

lemma gaps_mono: "a \<le> b \<Longrightarrow> gaps a \<le> gaps b"
  by (induction b) (auto simp: gaps_Suc le_Suc_eq)

lemma gaps_le: "gaps ch \<le> ch"
  using length_filter_le [of "\<lambda>i. \<not> printable i" "[0..<ch]"] by (simp add: gaps_def)

lemma byte_cpt_inj: "a < 256 \<Longrightarrow> b < 256 \<Longrightarrow> byte_cpt a = byte_cpt b \<Longrightarrow> a = b"
proof -
  assume ab: "a < 256" "b < 256" "byte_cpt a = byte_cpt b"
  have strict: "gaps x < gaps y" if "\<not> printable x" "x < y" for x y
    using gaps_mono [of "Suc x" y] that by (simp add: gaps_Suc)
  show "a = b"
    using ab strict [of a b] strict [of b a] by (auto simp: byte_cpt_def split: if_splits intro: linorder_cases [of a b])
qed

lemma byte_cpt_small: "ch < 256 \<Longrightarrow> byte_cpt ch < 512"
  using gaps_le [of ch] by (simp add: byte_cpt_def)

lemma enc_some: "c < 512 \<Longrightarrow> cpt_to_utf8 (of_nat c) = Some (enc c)"
proof -
  assume "c < 512"
  then have "(of_nat c :: u32) \<le> 0x10ffff" by (simp add: word_le_nat_alt unat_of_nat)
  from cpt_to_utf8_valid [OF this] show ?thesis by (auto simp: enc_def)
qed

lemma enc_inj: "a < 512 \<Longrightarrow> b < 512 \<Longrightarrow> enc a = enc b \<Longrightarrow> a = b"
proof -
  assume ab: "a < 512" "b < 512" "enc a = enc b"
  from cpt_from_to [OF enc_some [OF ab(1)], of "[]" "[]"] cpt_from_to [OF enc_some [OF ab(2)], of "[]" "[]"] ab(3)
  have "(of_nat a :: u32) = of_nat b" by simp
  then have "unat (of_nat a :: u32) = unat (of_nat b :: u32)" by simp
  then show "a = b" using ab(1,2) by (simp add: unat_of_nat)
qed

lemma of_nat_byte: "a < 256 \<Longrightarrow> b < 256 \<Longrightarrow> (of_nat a :: byte) = of_nat b \<longleftrightarrow> a = b"
proof
  assume "a < 256" "b < 256" "(of_nat a :: byte) = of_nat b"
  then have "unat (of_nat a :: byte) = unat (of_nat b :: byte)" by simp
  then show "a = b" using \<open>a < 256\<close> \<open>b < 256\<close> by (simp add: unat_of_nat)
qed simp

section \<open>What the loops build\<close>

lemma printable_loops_rule:
  assumes "P {} m" and step: "\<And>ch m D. printable ch \<Longrightarrow> ch < 256 \<Longrightarrow> P D m \<Longrightarrow> \<exists>m'. ins ch m = Some m' \<and> P (insert ch D) m'"
  shows "\<exists>m'. printable_loops ins m = Some m' \<and> P {ch. printable ch} m'"
proof -
  have loop: "\<exists>m'. foldM ins chs m = Some m' \<and> P (D \<union> set chs) m'" if "P D m" "\<forall>ch\<in>set chs. printable ch \<and> ch < 256" for chs D m
    using that
  proof (induction chs arbitrary: D m)
    case (Cons ch chs)
    with step [of ch D m] obtain m' where "ins ch m = Some m'" "P (insert ch D) m'" by auto
    with Cons.IH [of "insert ch D" m'] Cons.prems(2) show ?case by auto
  qed auto
  define l1 l2 l3 :: "nat list" where l: "l1 = [0x21..<0x7E + 1]" "l2 = [0xA1..<0xAC + 1]" "l3 = [0xAE..<0xFF + 1]"
  have mem: "x \<in> set l1 \<longleftrightarrow> 0x21 \<le> x \<and> x \<le> 0x7E" "x \<in> set l2 \<longleftrightarrow> 0xA1 \<le> x \<and> x \<le> 0xAC" "x \<in> set l3 \<longleftrightarrow> 0xAE \<le> x \<and> x \<le> 0xFF" for x
    unfolding l set_upt atLeastLessThan_iff by presburger+
  have all: "\<forall>ch\<in>set l1. printable ch \<and> ch < 256" "\<forall>ch\<in>set l2. printable ch \<and> ch < 256" "\<forall>ch\<in>set l3. printable ch \<and> ch < 256"
    by (auto simp: mem printable_def)
  from loop [OF assms(1) all(1)] obtain m1 where 1: "foldM ins l1 m = Some m1" "P ({} \<union> set l1) m1" by blast
  from loop [OF 1(2) all(2)] obtain m2 where 2: "foldM ins l2 m1 = Some m2" "P ({} \<union> set l1 \<union> set l2) m2" by blast
  from loop [OF 2(2) all(3)] obtain m3 where 3: "foldM ins l3 m2 = Some m3" "P ({} \<union> set l1 \<union> set l2 \<union> set l3) m3" by blast
  have "{} \<union> set l1 \<union> set l2 \<union> set l3 = {ch. printable ch}"
    by (rule set_eqI) (simp only: Un_iff mem printable_def mem_Collect_eq empty_iff, blast)
  with 3(2) have "P {ch. printable ch} m3" by (simp only:)
  with 1(1) 2(1) 3(1) show ?thesis unfolding printable_loops_def l [symmetric] by simp
qed

lemma byte_to_utf8_spec: "ch < 256 \<Longrightarrow> byte_to_utf8 (of_nat ch) = Some (enc (byte_cpt ch))"
proof -
  let ?P = "\<lambda>D (m :: byte \<rightharpoonup> byte list). \<forall>ch<256. m (of_nat ch) = (if ch \<in> D then Some (enc (byte_cpt ch)) else None)"
  have ins: "\<exists>m'. do { s \<leftarrow> cpt_to_utf8 (of_nat c); Some (m(of_nat ch \<mapsto> s)) } = Some m' \<and> ?P (insert ch D) m'"
    if "ch < 256" "c = byte_cpt ch" "?P D m" for ch c D m
    using that enc_some [OF byte_cpt_small [OF that(1)]] of_nat_byte by auto
  have "\<exists>m. printable_loops (\<lambda>ch m. do { s \<leftarrow> cpt_to_utf8 (of_nat ch); Some (m(of_nat ch \<mapsto> s)) }) Map.empty = Some m \<and> ?P {ch. printable ch} m"
  proof (rule printable_loops_rule)
    fix ch m D assume "printable ch" "ch < 256" "?P D m"
    with ins [where ch = ch and c = ch and D = D and m = m] show "\<exists>m'. do { s \<leftarrow> cpt_to_utf8 (of_nat ch); Some (m(of_nat ch \<mapsto> s)) } = Some m' \<and> ?P (insert ch D) m'"
      by (simp add: byte_cpt_def)
  qed simp
  then obtain m where m: "printable_loops (\<lambda>ch m. do { s \<leftarrow> cpt_to_utf8 (of_nat ch); Some (m(of_nat ch \<mapsto> s)) }) Map.empty = Some m"
    "?P {ch. printable ch} m" by blast
  let ?f = "\<lambda>ch (m, n). if m (of_nat ch) = None
        then do { s \<leftarrow> cpt_to_utf8 (of_nat (256 + n)); Some (m(of_nat ch \<mapsto> s), n + 1) } else Some (m, n)"
  have "k \<le> 256 \<Longrightarrow> \<exists>m'. foldM ?f [0..<k] (m, 0) = Some (m', gaps k) \<and> ?P ({ch. printable ch} \<union> {..<k}) m'" for k
  proof (induction k)
    case 0
    then show ?case using m(2) by (simp add: gaps_def)
  next
    case (Suc k)
    then obtain m' where m': "foldM ?f [0..<k] (m, 0) = Some (m', gaps k)" "?P ({ch. printable ch} \<union> {..<k}) m'" by auto
    show ?case
    proof (cases "printable k")
      case True
      then have "?f k (m', gaps k) = Some (m', gaps (Suc k))" using m'(2) Suc.prems by (simp add: gaps_Suc)
      moreover have "{ch. printable ch} \<union> {..<Suc k} = {ch. printable ch} \<union> {..<k}" using True by (auto simp: less_Suc_eq)
      ultimately show ?thesis using m' by (simp add: foldM_append)
    next
      case False
      then have c: "256 + gaps k = byte_cpt k" by (simp add: byte_cpt_def)
      from ins [OF _ c m'(2)] Suc.prems obtain m'' where
        m'': "do { s \<leftarrow> cpt_to_utf8 (of_nat (256 + gaps k)); Some (m'(of_nat k \<mapsto> s)) } = Some m''" "?P (insert k ({ch. printable ch} \<union> {..<k})) m''" by auto
      then have "?f k (m', gaps k) = Some (m'', gaps (Suc k))" using m'(2) Suc.prems False by (auto simp: gaps_Suc Option.bind_eq_Some_conv)
      moreover have "insert k ({ch. printable ch} \<union> {..<k}) = {ch. printable ch} \<union> {..<Suc k}" by auto
      ultimately show ?thesis using m'(1) m''(2) by (simp add: foldM_append)
    qed
  qed
  from this [of 256] obtain m' where "foldM ?f [0..<256] (m, 0) = Some (m', gaps 256)" "?P ({ch. printable ch} \<union> {..<256}) m'" by auto
  with m(1) show "ch < 256 \<Longrightarrow> byte_to_utf8 (of_nat ch) = Some (enc (byte_cpt ch))"
    by (simp add: byte_to_utf8_def byte_to_utf8_map_def)
qed

lemma utf8_to_byte_spec: "ch < 256 \<Longrightarrow> utf8_to_byte (enc (byte_cpt ch)) = Some (of_nat ch)"
proof -
  let ?P = "\<lambda>D (m :: byte list \<rightharpoonup> byte). (\<forall>ch<256. m (enc (byte_cpt ch)) = (if ch \<in> D then Some (of_nat ch) else None)) \<and>
    (\<forall>s. m s \<noteq> None \<longrightarrow> (\<exists>ch<256. ch \<in> D \<and> s = enc (byte_cpt ch)))"
  have inj: "enc (byte_cpt a) = enc (byte_cpt b) \<longleftrightarrow> a = b" if "a < 256" "b < 256" for a b
    using that byte_cpt_inj enc_inj [OF byte_cpt_small byte_cpt_small] by blast
  have ins: "?P (insert ch D) (m(enc (byte_cpt ch) \<mapsto> of_nat ch))" if ch: "ch < 256" and P: "?P D m" for ch D m
  proof (intro conjI allI impI)
    fix a :: nat assume a: "a < 256"
    then show "(m(enc (byte_cpt ch) \<mapsto> of_nat ch)) (enc (byte_cpt a)) = (if a \<in> insert ch D then Some (of_nat a) else None)"
      using P inj [OF a ch] by auto
  next
    fix s assume "(m(enc (byte_cpt ch) \<mapsto> of_nat ch)) s \<noteq> None"
    then have "s = enc (byte_cpt ch) \<or> m s \<noteq> None" by (auto split: if_splits)
    then show "\<exists>a<256. a \<in> insert ch D \<and> s = enc (byte_cpt a)" using P ch by blast
  qed
  let ?ins = "\<lambda>ch m. do { s \<leftarrow> cpt_to_utf8 (of_nat ch); Some (m(s \<mapsto> of_nat ch)) }"
  have "\<exists>m. printable_loops ?ins Map.empty = Some m \<and> ?P {ch. printable ch} m"
  proof (rule printable_loops_rule)
    fix ch m D assume p: "printable ch" "ch < 256" and P: "?P D m"
    have "byte_cpt ch = ch" using p(1) by (simp add: byte_cpt_def)
    then have "?ins ch m = Some (m(enc (byte_cpt ch) \<mapsto> of_nat ch))" using enc_some [of ch] p(2) by simp
    with ins [OF p(2) P] show "\<exists>m'. ?ins ch m = Some m' \<and> ?P (insert ch D) m'" by blast
  qed simp
  then obtain m where m: "printable_loops ?ins Map.empty = Some m" "?P {ch. printable ch} m" by blast
  let ?f = "\<lambda>ch (m, n). do { s \<leftarrow> cpt_to_utf8 (of_nat ch);
        if m s = None then do { s' \<leftarrow> cpt_to_utf8 (of_nat (256 + n)); Some (m(s' \<mapsto> of_nat ch), n + 1) } else Some (m, n) }"
  have "k \<le> 256 \<Longrightarrow> \<exists>m'. foldM ?f [0..<k] (m, 0) = Some (m', gaps k) \<and> ?P ({ch. printable ch} \<union> {..<k}) m'" for k
  proof (induction k)
    case 0
    then show ?case using m(2) by (simp add: gaps_def)
  next
    case (Suc k)
    then obtain m' where m': "foldM ?f [0..<k] (m, 0) = Some (m', gaps k)" "?P ({ch. printable ch} \<union> {..<k}) m'" by auto
    have k: "k < 256" using Suc.prems by simp
    have e: "cpt_to_utf8 (of_nat k) = Some (enc k)" using enc_some [of k] k by simp
    show ?case
    proof (cases "printable k")
      case True
      then have "byte_cpt k = k" by (simp add: byte_cpt_def)
      then have "m' (enc k) = Some (of_nat k)" using m'(2) [THEN conjunct1, rule_format, OF k] True by simp
      then have "?f k (m', gaps k) = Some (m', gaps (Suc k))" using e True by (simp add: gaps_Suc)
      moreover have "{ch. printable ch} \<union> {..<Suc k} = {ch. printable ch} \<union> {..<k}" using True by (auto simp: less_Suc_eq)
      ultimately show ?thesis using m' by (simp add: foldM_append)
    next
      case False
      have "m' (enc k) = None"
      proof (rule ccontr)
        assume "m' (enc k) \<noteq> None"
        with m'(2) obtain a where a: "a < 256" "enc k = enc (byte_cpt a)" by blast
        then have "k = byte_cpt a" using enc_inj [OF _ byte_cpt_small [OF a(1)], of k] k by simp
        with False k show False by (auto simp: byte_cpt_def split: if_splits)
      qed
      moreover have "cpt_to_utf8 (of_nat (256 + gaps k)) = Some (enc (byte_cpt k))"
        using enc_some [OF byte_cpt_small [OF k]] False by (simp add: byte_cpt_def)
      ultimately have "?f k (m', gaps k) = Some (m'(enc (byte_cpt k) \<mapsto> of_nat k), gaps (Suc k))" using e False by (simp add: gaps_Suc)
      moreover have "insert k ({ch. printable ch} \<union> {..<k}) = {ch. printable ch} \<union> {..<Suc k}" by auto
      ultimately show ?thesis using m'(1) ins [OF k m'(2)] by (simp add: foldM_append)
    qed
  qed
  from this [of 256] obtain m' where "foldM ?f [0..<256] (m, 0) = Some (m', gaps 256)" "?P ({ch. printable ch} \<union> {..<256}) m'" by auto
  with m(1) show "ch < 256 \<Longrightarrow> utf8_to_byte (enc (byte_cpt ch)) = Some (of_nat ch)"
    by (simp add: utf8_to_byte_def utf8_to_byte_map_def)
qed

section \<open>Words\<close>

definition byte_code :: "byte \<Rightarrow> nat" where
  "byte_code b = byte_cpt (unat b)"

lemma byte_code: "byte_to_utf8 b = Some (enc (byte_code b))" "utf8_to_byte (enc (byte_code b)) = Some b" "byte_code b < 512"
proof -
  have b: "unat b < 256" "of_nat (unat b) = b" using unsigned_less [of b] by simp_all
  show "byte_to_utf8 b = Some (enc (byte_code b))" using byte_to_utf8_spec [OF b(1)] b(2) by (simp add: byte_code_def)
  show "utf8_to_byte (enc (byte_code b)) = Some b" using utf8_to_byte_spec [OF b(1)] b(2) by (simp add: byte_code_def)
  show "byte_code b < 512" using byte_cpt_small [OF b(1)] by (simp add: byte_code_def)
qed

lemma encode_bytes:
  "foldM (\<lambda>b tok. do { s \<leftarrow> byte_to_utf8 b; Some (tok @ s) }) bs tok = Some (tok @ concat (map (\<lambda>b. enc (byte_code b)) bs))"
  by (induction bs arbitrary: tok) (simp_all add: byte_code(1))

lemma cpts_to_utf8_enc: "cpts_to_utf8 (map (\<lambda>b. of_nat (byte_code b)) bs) = Some (concat (map (\<lambda>b. enc (byte_code b)) bs))"
proof -
  have "foldM (\<lambda>c res. do { s \<leftarrow> cpt_to_utf8 c; Some (res @ s) }) (map (\<lambda>b. of_nat (byte_code b)) bs) pre =
      Some (pre @ concat (map (\<lambda>b. enc (byte_code b)) bs))" for pre
    by (induction bs arbitrary: pre) (simp_all add: enc_some [OF byte_code(3)])
  then show ?thesis by (simp add: cpts_to_utf8_def)
qed

lemma decode_encode:
  assumes "cpts_to_utf8 cps = Some w"
  shows "\<exists>e. encode_word w = Some e \<and> decode_text e = Some w"
proof -
  have dec: "foldM (\<lambda>c out. do { u \<leftarrow> cpt_to_utf8 c; Some (out @ (case utf8_to_byte u of Some b \<Rightarrow> [b] | None \<Rightarrow> unk u)) })
      (map (\<lambda>b. of_nat (byte_code b)) bs) out = Some (out @ bs)" for bs out unk
    by (induction bs arbitrary: out) (simp_all add: enc_some [OF byte_code(3)] byte_code(2))
  have "encode_word w = Some (concat (map (\<lambda>b. enc (byte_code b)) w))"
    using cpts_from_to [OF assms] assms by (simp add: encode_word_def encode_bytes)
  then show ?thesis using cpts_from_to [OF cpts_to_utf8_enc [of w]] dec [of "unk_byte (concat (map (\<lambda>b. enc (byte_code b)) w))" w "[]"] by (simp add: decode_text_def)
qed

end
