(* ===== verification/RegexSplit.thy ===== *)
theory RegexSplit
  imports SplitSteps ByteMap
begin

text \<open>
  \<open>unicode_regex_split\<close>: a text is cut by one regular expression after another, by the custom pre-tokenizer where
  the expression has one, else by \<open>std::regex\<close> (narrow, on collapsed categories) or \<open>std::wregex\<close>. The
  engine of the library is a parameter; strings are lists of bytes. No value stands for an assertion or an access
  out of range, \<open>Inl\<close> for an exception.
\<close>

section \<open>The expressions with a custom pre-tokenizer\<close>

text \<open>The string literals the dispatch compares with, as lists of character codes.\<close>

definition RE_GPT2 :: "byte list" where
  "RE_GPT2 = [39, 115, 124, 39, 116, 124, 39, 114, 101, 124, 39, 118, 101, 124, 39, 109, 124, 39, 108, 108, 124, 39, 100, 124, 32, 63, 92,
      112, 123, 76, 125, 43, 124, 32, 63, 92, 112, 123, 78, 125, 43, 124, 32, 63, 91, 94, 92, 115, 92, 112, 123, 76, 125, 92, 112,
      123, 78, 125, 93, 43, 124, 92, 115, 43, 40, 63, 33, 92, 83, 41]"

definition RE_LLAMA3 :: "byte list" where
  "RE_LLAMA3 = [40, 63, 105, 58, 39, 115, 124, 39, 116, 124, 39, 114, 101, 124, 39, 118, 101, 124, 39, 109, 124, 39, 108, 108, 124, 39, 100,
      41, 124, 91, 94, 92, 114, 92, 110, 92, 112, 123, 76, 125, 92, 112, 123, 78, 125, 93, 63, 92, 112, 123, 76, 125, 43, 124, 92,
      112, 123, 78, 125, 123, 49, 44, 51, 125, 124, 32, 63, 91, 94, 92, 115, 92, 112, 123, 76, 125, 92, 112, 123, 78, 125, 93, 43,
      91, 92, 114, 92, 110, 93, 42, 124, 92, 115, 42, 91, 92, 114, 92, 110, 93, 43, 124, 92, 115, 43, 40, 63, 33, 92, 83, 41, 124,
      92, 115, 43]"

definition RE_LLAMA3_CASES :: "byte list" where
  "RE_LLAMA3_CASES = [40, 63, 58, 39, 91, 115, 83, 93, 124, 39, 91, 116, 84, 93, 124, 39, 91, 114, 82, 93, 91, 101, 69, 93, 124, 39, 91, 118, 86,
      93, 91, 101, 69, 93, 124, 39, 91, 109, 77, 93, 124, 39, 91, 108, 76, 93, 91, 108, 76, 93, 124, 39, 91, 100, 68, 93, 41, 124,
      91, 94, 92, 114, 92, 110, 92, 112, 123, 76, 125, 92, 112, 123, 78, 125, 93, 63, 92, 112, 123, 76, 125, 43, 124, 92, 112,
      123, 78, 125, 123, 49, 44, 51, 125, 124, 32, 63, 91, 94, 92, 115, 92, 112, 123, 76, 125, 92, 112, 123, 78, 125, 93, 43, 91,
      92, 114, 92, 110, 93, 42, 124, 92, 115, 42, 91, 92, 114, 92, 110, 93, 43, 124, 92, 115, 43, 40, 63, 33, 92, 83, 41, 124, 92,
      115, 43]"

definition RE_QWEN2 :: "byte list" where
  "RE_QWEN2 = [40, 63, 58, 39, 91, 115, 83, 93, 124, 39, 91, 116, 84, 93, 124, 39, 91, 114, 82, 93, 91, 101, 69, 93, 124, 39, 91, 118, 86,
      93, 91, 101, 69, 93, 124, 39, 91, 109, 77, 93, 124, 39, 91, 108, 76, 93, 91, 108, 76, 93, 124, 39, 91, 100, 68, 93, 41, 124,
      91, 94, 92, 114, 92, 110, 92, 112, 123, 76, 125, 92, 112, 123, 78, 125, 93, 63, 92, 112, 123, 76, 125, 43, 124, 92, 112,
      123, 78, 125, 124, 32, 63, 91, 94, 92, 115, 92, 112, 123, 76, 125, 92, 112, 123, 78, 125, 93, 43, 91, 92, 114, 92, 110, 93,
      42, 124, 92, 115, 42, 91, 92, 114, 92, 110, 93, 43, 124, 92, 115, 43, 40, 63, 33, 92, 83, 41, 124, 92, 115, 43]"

definition RE_QWEN35 :: "byte list" where
  "RE_QWEN35 = [40, 63, 58, 39, 91, 115, 83, 93, 124, 39, 91, 116, 84, 93, 124, 39, 91, 114, 82, 93, 91, 101, 69, 93, 124, 39, 91, 118, 86,
      93, 91, 101, 69, 93, 124, 39, 91, 109, 77, 93, 124, 39, 91, 108, 76, 93, 91, 108, 76, 93, 124, 39, 91, 100, 68, 93, 41, 124,
      91, 94, 92, 114, 92, 110, 92, 112, 123, 76, 125, 92, 112, 123, 78, 125, 93, 63, 91, 92, 112, 123, 76, 125, 92, 112, 123, 77,
      125, 93, 43, 124, 92, 112, 123, 78, 125, 124, 32, 63, 91, 94, 92, 115, 92, 112, 123, 76, 125, 92, 112, 123, 77, 125, 92,
      112, 123, 78, 125, 93, 43, 91, 92, 114, 92, 110, 93, 42, 124, 92, 115, 42, 91, 92, 114, 92, 110, 93, 43, 124, 92, 115, 43,
      40, 63, 33, 92, 83, 41, 124, 92, 115, 43]"

definition RE_HAN :: "byte list" where
  "RE_HAN = [92, 112, 123, 72, 97, 110, 125, 43]"

definition RE_AFMOE_DIGITS :: "byte list" where
  "RE_AFMOE_DIGITS = [92, 112, 123, 65, 70, 77, 111, 69, 95, 100, 105, 103, 105, 116, 115, 125]"

definition RE_NEWLINES :: "byte list" where
  "RE_NEWLINES = [91, 94, 92, 110, 93, 43, 124, 91, 92, 110, 93, 43]"

definition RE_DIGIT_GROUPS :: "byte list" where
  "RE_DIGIT_GROUPS = [92, 100, 123, 49, 44, 51, 125, 40, 63, 61, 40, 63, 58, 92, 100, 123, 51, 125, 41, 42, 92, 98, 41]"

section \<open>The library\<close>

record 'a regex_lib =
  rx_valid :: "'a list \<Rightarrow> bool"  \<comment> \<open>the constructor accepts the expression\<close>
  rx_matches :: "'a list \<Rightarrow> 'a list \<Rightarrow> (nat \<times> nat) list option"
    \<comment> \<open>positions and lengths a \<open>regex_iterator\<close> visits; no value: \<open>regex_error\<close>\<close>

datatype split_error = Regex_failed | Not_supported | Invalid_codepoint

fun stl_cuts :: "(nat \<times> nat) list \<Rightarrow> nat \<Rightarrow> nat \<Rightarrow> nat list" where
  \<comment> \<open>the matches and the gaps between them\<close>
  "stl_cuts [] start_idx offset = (if start_idx < offset then [offset - start_idx] else [])"
| "stl_cuts ((p, l) # ms) start_idx offset =
     (if p > start_idx then [p - start_idx] else []) @ [l] @ stl_cuts ms (p + l) offset"

fun stl_loop :: "'a regex_lib \<Rightarrow> 'a list \<Rightarrow> 'a list \<Rightarrow> nat list \<Rightarrow> nat \<Rightarrow> nat list \<Rightarrow> nat list option option" where
  "stl_loop rx s regex [] start out = Some (Some out)"
| "stl_loop rx s regex (offset # offsets) start out =
     (if start + offset \<le> length s then
        (case rx_matches rx regex (take offset (drop start s)) of
           None \<Rightarrow> Some None
         | Some ms \<Rightarrow> stl_loop rx s regex offsets (start + offset) (out @ stl_cuts ms 0 offset))
      else None)"

definition split_stl :: "'a regex_lib \<Rightarrow> 'a list \<Rightarrow> 'a list \<Rightarrow> nat list \<Rightarrow> nat list option option" where
  "split_stl rx s regex offsets = (if rx_valid rx regex then stl_loop rx s regex offsets 0 [] else Some None)"

section \<open>The dispatch\<close>

definition split_custom :: "unicode_db \<Rightarrow> byte list \<Rightarrow> byte list \<Rightarrow> nat list \<Rightarrow> nat list option" where
  "split_custom db s regex offsets =
     (if regex = RE_GPT2 then split_offsets (split_segment gpt2_step) db s offsets
      else if regex = RE_LLAMA3 \<or> regex = RE_LLAMA3_CASES then split_offsets (split_segment llama3_step) db s offsets
      else if regex = RE_QWEN2 then split_offsets (split_segment qwen2_step) db s offsets
      else if regex = RE_QWEN35 then split_offsets (split_segment qwen35_step) db s offsets
      else if regex = RE_HAN then split_offsets (split_segment kimi_step) db s offsets
      else if regex = RE_AFMOE_DIGITS then split_offsets afmoe_segment db s offsets
      else if regex = RE_NEWLINES then split_offsets (\<lambda>c. newline_runs c (sc_ini c) []) db s offsets
      else if regex = RE_DIGIT_GROUPS then split_offsets afmoe_segment db s offsets
      else Some [])"

definition has_custom :: "byte list \<Rightarrow> bool" where
  "has_custom regex \<longleftrightarrow> regex \<in> {RE_GPT2, RE_LLAMA3, RE_LLAMA3_CASES, RE_QWEN2, RE_QWEN35, RE_HAN, RE_AFMOE_DIGITS, RE_NEWLINES,
     RE_DIGIT_GROUPS}"

section \<open>Collapsed categories\<close>

definition k_ucat_enum :: "(byte list \<times> cpt_flags) list" where
  "k_ucat_enum = [
     ([92, 112, 123, 78, 125], NUMBER), ([92, 112, 123, 76, 125], LETTER), ([92, 112, 123, 80, 125], PUNCTUATION),
     ([92, 112, 123, 77, 125], ACCENT_MARK), ([92, 112, 123, 83, 125], SYMBOL), ([92, 112, 123, 76, 117, 125], LETTER),
     ([92, 112, 123, 76, 108, 125], LETTER), ([92, 112, 123, 76, 116, 125], LETTER), ([92, 112, 123, 76, 109, 125], LETTER),
     ([92, 112, 123, 76, 111, 125], LETTER)]"

definition k_ucat_cpt :: "(cpt_flags \<times> byte) list" where
  "k_ucat_cpt = [(NUMBER, 0xD1), (LETTER, 0xD2), (PUNCTUATION, 0xD3), (ACCENT_MARK, 0xD4), (SYMBOL, 0xD5)]"

definition k_ucat_map :: "(cpt_flags \<times> byte list) list" where
  "k_ucat_map = [
     (NUMBER, [0x30, 0x2D, 0x39]),
     (LETTER, [0x41, 0x2D, 0x5A, 0x61, 0x2D, 0x7A]),
     (PUNCTUATION, [0x21, 0x2D, 0x23, 0x25, 0x2D, 0x2A, 0x2C, 0x2D, 0x2F, 0x3A, 0x2D, 0x3B, 0x3F, 0x2D, 0x40, 0x5C, 0x5B, 0x2D, 0x5C, 0x5D,
        0x5F, 0x5C, 0x7B, 0x5C, 0x7D]),
     (ACCENT_MARK, []),
     (SYMBOL, [0x5C, 0x24, 0x5C, 0x2B, 0x3C, 0x2D, 0x3E, 0x5E, 0x60, 0x5C, 0x7C, 0x5C, 0x7E])]"

fun contains :: "byte list \<Rightarrow> byte list \<Rightarrow> bool" where
  "contains pat [] \<longleftrightarrow> pat = []"
| "contains pat (c # cs) \<longleftrightarrow> take (length pat) (c # cs) = pat \<or> contains pat cs"

definition uses_category :: "byte list \<Rightarrow> bool" where
  "uses_category regex \<longleftrightarrow> list_ex (\<lambda>ucat. contains (fst ucat) regex) k_ucat_enum"

definition collapse_cpt :: "unicode_db \<Rightarrow> u32 \<Rightarrow> byte" where
  "collapse_cpt db c =
     (if c < 128 then ucast c
      else let flags = db_flags db c in
        if is_whitespace flags then 0x0B
        else (case map_of k_ucat_cpt (category_flag flags) of Some b \<Rightarrow> b | None \<Rightarrow> 0xD0))"

definition category_at :: "byte list \<Rightarrow> (nat \<times> cpt_flags) option" where
  \<comment> \<open>the length of a category pattern at the start, and its category\<close>
  "category_at rest =
     (if length rest > 3 \<and> take 3 rest = [92, 112, 123] then
        (let closing_brace = 3 + length (takeWhile (\<lambda>c. c \<noteq> 125) (drop 3 rest)) in
         if closing_brace < length rest \<and> closing_brace \<le> 10
         then map_option (\<lambda>k. (closing_brace + 1, k)) (map_of k_ucat_enum (take (closing_brace + 1) rest))
         else None)
      else None)"

lemma category_at_pos: "category_at rest = Some (n, k) \<Longrightarrow> 0 < n \<and> rest \<noteq> []"
  by (auto simp: category_at_def Let_def split: if_splits)

function collapse_regex :: "byte option \<Rightarrow> bool \<Rightarrow> byte list \<Rightarrow> byte list option" where
  \<comment> \<open>the character before, and whether a bracket is open\<close>
  "collapse_regex prev inside rest = (case rest of
     [] \<Rightarrow> Some []
   | c # cs \<Rightarrow>
       if c = 0x5B \<and> prev \<noteq> Some 0x5C then map_option ((#) 0x5B) (collapse_regex (Some c) True cs)
       else if inside \<and> c = 0x5D \<and> prev \<noteq> Some 0x5C then map_option ((#) 0x5D) (collapse_regex (Some c) False cs)
       else (case category_at rest of
           Some (n, k) \<Rightarrow> do {
             b \<leftarrow> map_of k_ucat_cpt k;
             m \<leftarrow> map_of k_ucat_map k;
             map_option ((@) ((if inside then [] else [0x5B]) @ b # m @ (if inside then [] else [0x5D])))
               (collapse_regex (Some 0x7D) inside (drop n rest))
           }
         | None \<Rightarrow> map_option ((#) c) (collapse_regex (Some c) inside cs)))"
  by pat_completeness auto
termination by (relation "measure (\<lambda>(prev, inside, rest). length rest)") (auto dest: category_at_pos)

declare collapse_regex.simps [simp del]

section \<open>The passes and the words\<close>

definition collapsed_pass ::
  "byte regex_lib \<Rightarrow> byte list \<Rightarrow> byte list \<Rightarrow> u32 list \<Rightarrow> nat list \<Rightarrow> (split_error + nat list) option" where
  \<comment> \<open>with the category patterns replaced, on the collapsed text\<close>
  "collapsed_pass narrow text_collapsed regex cpts_regex offsets =
     (if list_ex (\<lambda>c. c \<ge> 128) cpts_regex then Some (Inl Not_supported)
      else do {
        r \<leftarrow> collapse_regex None False regex;
        out \<leftarrow> split_stl narrow text_collapsed r offsets;
        Some (case out of Some offs \<Rightarrow> Inr offs | None \<Rightarrow> Inl Regex_failed)
      })"

definition wide_pass ::
  "u32 regex_lib \<Rightarrow> unicode_db \<Rightarrow> u32 list \<Rightarrow> u32 list \<Rightarrow> nat list \<Rightarrow> (split_error + nat list) option" where
  "wide_pass wide db cpts cpts_regex offsets = do {
     let wtext = map (\<lambda>c. if c > 0x7F \<and> is_whitespace (db_flags db c) then 0x0B else c) cpts;
     out \<leftarrow> split_stl wide wtext cpts_regex offsets;
     Some (case out of Some offs \<Rightarrow> Inr offs | None \<Rightarrow> Inl Regex_failed)
   }"

definition regex_pass ::
  "byte regex_lib \<Rightarrow> u32 regex_lib \<Rightarrow> unicode_db \<Rightarrow> byte list \<Rightarrow> u32 list \<Rightarrow> byte list \<Rightarrow> byte list \<Rightarrow> nat list \<Rightarrow>
    (split_error + nat list) option" where
  \<comment> \<open>one round of the loop over the expressions\<close>
  "regex_pass narrow wide db s cpts text_collapsed regex offsets = do {
     tmp \<leftarrow> split_custom db s regex offsets;
     if tmp \<noteq> [] then Some (Inr tmp)
     else do {
       cpts_regex \<leftarrow> cpts_from_utf8 regex;
       if uses_category regex then collapsed_pass narrow text_collapsed regex cpts_regex offsets
       else wide_pass wide db cpts cpts_regex offsets
     }
   }"

fun regex_passes :: "(byte list \<Rightarrow> nat list \<Rightarrow> (split_error + nat list) option) \<Rightarrow> byte list list \<Rightarrow> nat list \<Rightarrow>
    (split_error + nat list) option" where
  "regex_passes pass [] offsets = Some (Inr offsets)"
| "regex_passes pass (r # rs) offsets = Option.bind (pass r offsets)
     (\<lambda>res. case res of Inl e \<Rightarrow> Some (Inl e) | Inr offs \<Rightarrow> regex_passes pass rs offs)"

fun split_words :: "u32 list \<Rightarrow> nat list \<Rightarrow> nat \<Rightarrow> (split_error + byte list list) option" where
  "split_words cpts [] start = Some (Inr [])"
| "split_words cpts (offset # offsets) start =
     (if start + offset \<le> length cpts then
        (case cpts_to_utf8 (take offset (drop start cpts)) of
           None \<Rightarrow> Some (Inl Invalid_codepoint)
         | Some w \<Rightarrow> map_option (map_sum (\<lambda>e. e) ((#) w)) (split_words cpts offsets (start + offset)))
      else None)"

definition regex_split ::
  "byte regex_lib \<Rightarrow> u32 regex_lib \<Rightarrow> unicode_db \<Rightarrow> byte list \<Rightarrow> byte list list \<Rightarrow> bool \<Rightarrow> (split_error + byte list list) option" where
  "regex_split narrow wide db s regex_exprs byte_encode = do {
     cpts \<leftarrow> cpts_from_utf8 s;
     let need_collapse = list_ex uses_category regex_exprs;
     let text_collapsed = (if need_collapse then map (collapse_cpt db) cpts else []);
     res \<leftarrow> regex_passes (regex_pass narrow wide db s cpts text_collapsed) regex_exprs [length cpts];
     case res of
       Inl e \<Rightarrow> Some (Inl e)
     | Inr offsets \<Rightarrow> do {
         words \<leftarrow> split_words cpts offsets 0;
         case words of
           Inl e \<Rightarrow> Some (Inl e)
         | Inr ws \<Rightarrow> (if byte_encode then map_option Inr (byte_encoding_process ws) else Some (Inr ws))
       }
   }"

end
