(* ===== verification/RegexProps.thy ===== *)
theory RegexProps
  imports RegexSplit
begin

text \<open>
  What pre-tokenization keeps: no pass loses or repeats a code point, the words put together are the text, and the
  byte encoding of the words can be undone. A regular expression library visits matches in order and inside the
  text (\<open>regex_ok\<close>).
\<close>

section \<open>The library in order\<close>

fun in_order :: "nat \<Rightarrow> nat \<Rightarrow> (nat \<times> nat) list \<Rightarrow> bool" where
  "in_order a n [] \<longleftrightarrow> a \<le> n"
| "in_order a n ((p, l) # ms) \<longleftrightarrow> a \<le> p \<and> in_order (p + l) n ms"

definition regex_ok :: "'a regex_lib \<Rightarrow> bool" where
  "regex_ok rx \<longleftrightarrow> (\<forall>regex s ms. rx_matches rx regex s = Some ms \<longrightarrow> in_order 0 (length s) ms)"

lemma in_order_le: "in_order a n ms \<Longrightarrow> a \<le> n"
  by (induction a n ms rule: in_order.induct) auto

lemma stl_cuts_sum: "in_order a n ms \<Longrightarrow> sum_list (stl_cuts ms a n) = n - a"
proof (induction a n ms rule: in_order.induct)
  case (2 a n p l ms)
  then show ?case using in_order_le [of "p + l" n ms] by (cases "a < p") simp_all
qed simp

lemma stl_loop_sum:
  assumes "regex_ok rx"
  shows "start + sum_list offsets \<le> length s \<Longrightarrow> \<exists>r. stl_loop rx s regex offsets start out = Some r \<and>
    (\<forall>out'. r = Some out' \<longrightarrow> sum_list out' = sum_list out + sum_list offsets)"
proof (induction offsets arbitrary: start out)
  case (Cons offset offsets)
  show ?case
  proof (cases "rx_matches rx regex (take offset (drop start s))")
    case (Some ms)
    then have "in_order 0 (length (take offset (drop start s))) ms" using assms unfolding regex_ok_def by blast
    then have "sum_list (stl_cuts ms 0 offset) = offset" using stl_cuts_sum [of 0 offset ms] Cons.prems by simp
    then show ?thesis using Cons.IH [of "start + offset" "out @ stl_cuts ms 0 offset"] Cons.prems Some by auto
  qed (use Cons.prems in simp)
qed simp

lemma split_stl_sum:
  assumes "regex_ok rx" "sum_list offsets \<le> length s"
  shows "\<exists>r. split_stl rx s regex offsets = Some r \<and> (\<forall>out. r = Some out \<longrightarrow> sum_list out = sum_list offsets)"
  using stl_loop_sum [OF assms(1), of 0 offsets s regex "[]"] assms(2) by (auto simp: split_stl_def)

section \<open>The custom pre-tokenizers\<close>

lemma refines_sum: "refines offsets out \<Longrightarrow> sum_list out = sum_list offsets"
proof -
  have "sum_list (concat lss) = sum_list (map sum_list lss)" for lss :: "nat list list" by (induction lss) auto
  then show "refines offsets out \<Longrightarrow> sum_list out = sum_list offsets" by (auto simp: refines_def)
qed

lemma split_custom_spec:
  assumes "cpts_from_utf8 s = Some cpts" "sum_list offsets \<le> length cpts"
  shows "\<exists>out. split_custom db s regex offsets = Some out \<and>
    (if has_custom regex then sum_list out = sum_list offsets \<and> 0 \<notin> set out else out = [])"
proof (cases "has_custom regex")
  case False
  then show ?thesis by (simp add: split_custom_def has_custom_def)
next
  case True
  have segs: "\<exists>out. split_custom db s regex offsets = Some out \<and> refines offsets out \<and> 0 \<notin> set out"
    using gpt2.split_segments [OF assms(2,1), of db] llama3.split_segments [OF assms(2,1), of db] qwen2.split_segments [OF assms(2,1), of db]
      qwen35.split_segments [OF assms(2,1), of db] kimi.split_segments [OF assms(2,1), of db] afmoe.split_segments [OF assms(2,1), of db]
      newlines.split_segments [OF assms(2,1), of db] True
    unfolding split_custom_def has_custom_def by (simp only: insert_iff empty_iff simp_thms split: if_split) blast
  then show ?thesis using True refines_sum by auto
qed

section \<open>The passes\<close>

lemma category_known: "category_at rest = Some (n, k) \<Longrightarrow> map_of k_ucat_cpt k \<noteq> None \<and> map_of k_ucat_map k \<noteq> None"
proof -
  assume "category_at rest = Some (n, k)"
  then have "k \<in> snd ` set k_ucat_enum"
    by (force simp: category_at_def Let_def split: if_splits dest: map_of_SomeD)
  moreover have "\<forall>k\<in>snd ` set k_ucat_enum. map_of k_ucat_cpt k \<noteq> None \<and> map_of k_ucat_map k \<noteq> None" by code_simp
  ultimately show ?thesis by blast
qed

lemma collapse_regex_total: "collapse_regex prev inside rest \<noteq> None"
proof (induction prev inside rest rule: collapse_regex.induct)
  case (1 prev inside rest)
  show ?case
  proof (cases rest)
    case (Cons c cs)
    show ?thesis
    proof (cases "category_at (c # cs)")
      case None
      then show ?thesis using 1 Cons by (subst collapse_regex.simps) auto
    next
      case (Some p)
      obtain n k where p: "p = (n, k)" by (cases p)
      then obtain b m where "map_of k_ucat_cpt k = Some b" "map_of k_ucat_map k = Some m" using category_known Some by blast
      then show ?thesis using 1 Cons Some p by (subst collapse_regex.simps) auto
    qed
  qed (subst collapse_regex.simps, simp)
qed

definition kept :: "nat \<Rightarrow> (split_error + nat list) option \<Rightarrow> bool" where
  \<comment> \<open>lengths that cover so many code points, or an exception of the library\<close>
  "kept n r \<longleftrightarrow> (\<exists>x. r = Some x \<and> (case x of Inl e \<Rightarrow> e \<noteq> Invalid_codepoint | Inr offs \<Rightarrow> sum_list offs = n))"

lemma stl_kept:
  assumes "regex_ok rx" "sum_list offsets = length s"
  shows "kept (length s) (do { out \<leftarrow> split_stl rx s regex offsets; Some (case out of Some offs \<Rightarrow> Inr offs | None \<Rightarrow> Inl Regex_failed) })"
  using split_stl_sum [OF assms(1), of offsets s regex] assms(2) by (auto simp: kept_def split: option.splits)

lemma regex_pass_kept:
  assumes "cpts_from_utf8 s = Some cpts" "regex_ok narrow" "regex_ok wide" "sum_list offsets = length cpts" "uses_category regex \<longrightarrow> length tc = length cpts"
  shows "kept (length cpts) (regex_pass narrow wide db s cpts tc regex offsets)"
proof -
  from split_custom_spec [OF assms(1), of offsets db regex] assms(4) obtain tmp where
    tmp: "split_custom db s regex offsets = Some tmp" "tmp \<noteq> [] \<longrightarrow> sum_list tmp = sum_list offsets" by (auto split: if_splits)
  obtain cr where cr: "cpts_from_utf8 regex = Some cr" using cpts_loop_total [of regex 0 "[]"] by (auto simp: cpts_from_utf8_def)
  obtain r where r: "collapse_regex None False regex = Some r" using collapse_regex_total by blast
  have wide: "kept (length cpts) (wide_pass wide db cpts cr offsets)"
    using stl_kept [OF assms(3), of offsets "map (\<lambda>c. if c > 0x7F \<and> is_whitespace (db_flags db c) then 0x0B else c) cpts" cr] assms(4)
    by (simp add: wide_pass_def)
  have narrow: "kept (length cpts) (collapsed_pass narrow tc regex cr offsets)" if "length tc = length cpts"
    using stl_kept [OF assms(2), of offsets tc r] assms(4) r that by (simp add: collapsed_pass_def kept_def)
  show ?thesis
    using tmp cr wide narrow assms(4,5) by (auto simp: regex_pass_def kept_def)
qed

lemma custom_pass_kept:
  assumes "cpts_from_utf8 s = Some cpts" "has_custom regex" "sum_list offsets = length cpts" "cpts \<noteq> []"
  shows "\<exists>out. regex_pass narrow wide db s cpts tc regex offsets = Some (Inr out) \<and> sum_list out = length cpts \<and> 0 \<notin> set out"
proof -
  from split_custom_spec [OF assms(1), of offsets db regex] assms(2-) obtain tmp where
    "split_custom db s regex offsets = Some tmp" "sum_list tmp = length cpts" "0 \<notin> set tmp" by auto
  moreover from this(2) assms(4) have "tmp \<noteq> []" by auto
  ultimately show ?thesis by (simp add: regex_pass_def)
qed

lemma regex_passes_kept:
  assumes "cpts_from_utf8 s = Some cpts" "regex_ok narrow" "regex_ok wide"
  shows "sum_list offsets = length cpts \<Longrightarrow> \<forall>r\<in>set rs. uses_category r \<longrightarrow> length tc = length cpts \<Longrightarrow>
    kept (length cpts) (regex_passes (regex_pass narrow wide db s cpts tc) rs offsets)"
proof (induction rs arbitrary: offsets)
  case (Cons r rs)
  then have "kept (length cpts) (regex_pass narrow wide db s cpts tc r offsets)" using regex_pass_kept [OF assms, of offsets r tc] by simp
  then obtain x where x: "regex_pass narrow wide db s cpts tc r offsets = Some x" "case x of Inl e \<Rightarrow> e \<noteq> Invalid_codepoint | Inr offs \<Rightarrow> sum_list offs = length cpts"
    by (auto simp: kept_def)
  show ?case
  proof (cases x)
    case (Inl e)
    then show ?thesis using x by (simp add: kept_def)
  next
    case (Inr offs)
    then show ?thesis using x Cons.IH [of offs] Cons.prems(2) by simp
  qed
qed (simp add: kept_def)

lemma custom_passes_kept:
  assumes "cpts_from_utf8 s = Some cpts" "cpts \<noteq> []"
  shows "\<forall>r\<in>set rs. has_custom r \<Longrightarrow> sum_list offsets = length cpts \<Longrightarrow> 0 \<notin> set offsets \<Longrightarrow>
    \<exists>out. regex_passes (regex_pass narrow wide db s cpts tc) rs offsets = Some (Inr out) \<and> sum_list out = length cpts \<and> 0 \<notin> set out"
proof (induction rs arbitrary: offsets)
  case (Cons r rs)
  then obtain out where out: "regex_pass narrow wide db s cpts tc r offsets = Some (Inr out)" "sum_list out = length cpts" "0 \<notin> set out"
    using custom_pass_kept [OF assms(1) _ _ assms(2), of r offsets narrow wide db tc] by auto
  then show ?case using Cons.IH [of out] Cons.prems by simp
qed simp

section \<open>The words\<close>

lemma split_words_spec:
  "start + sum_list offsets = length cpts \<Longrightarrow>
    (\<exists>ws. split_words cpts offsets start = Some (Inr ws) \<and> list_all2 (\<lambda>n w. \<exists>cs. length cs = n \<and> cpts_to_utf8 cs = Some w) offsets ws \<and>
      cpts_to_utf8 (drop start cpts) = Some (concat ws)) \<or>
    split_words cpts offsets start = Some (Inl Invalid_codepoint) \<and> (\<exists>c\<in>set (drop start cpts). c > 0x10ffff)"
proof (induction offsets arbitrary: start)
  case Nil
  then show ?case by (simp add: cpts_to_utf8_Nil)
next
  case (Cons offset offsets)
  define piece rest where pr: "piece = take offset (drop start cpts)" "rest = drop (start + offset) cpts"
  have d: "drop start cpts = piece @ rest" using pr by (simp add: add.commute flip: drop_drop)
  have le: "start + offset \<le> length cpts" "length piece = offset" using Cons.prems pr by simp_all
  show ?case
  proof (cases "cpts_to_utf8 piece")
    case None
    then have "\<exists>c\<in>set (piece @ rest). c > 0x10ffff" using cpts_to_utf8_None by auto
    moreover have "split_words cpts (offset # offsets) start = Some (Inl Invalid_codepoint)" using None le(1) pr(1) by simp
    ultimately show ?thesis using d by simp
  next
    case (Some w)
    have "start + offset + sum_list offsets = length cpts" using Cons.prems by simp
    from Cons.IH [OF this] consider
        ws where "split_words cpts offsets (start + offset) = Some (Inr ws)"
          "list_all2 (\<lambda>n w. \<exists>cs. length cs = n \<and> cpts_to_utf8 cs = Some w) offsets ws" "cpts_to_utf8 rest = Some (concat ws)"
      | "split_words cpts offsets (start + offset) = Some (Inl Invalid_codepoint)" "\<exists>c\<in>set rest. c > 0x10ffff"
      unfolding pr(2) by blast
    then show ?thesis
    proof cases
      case 1
      then have "split_words cpts (offset # offsets) start = Some (Inr (w # ws))" using Some le(1) pr(1) by simp
      moreover have "cpts_to_utf8 (drop start cpts) = Some (concat (w # ws))" using 1(3) Some d by (simp add: cpts_to_utf8_append)
      ultimately show ?thesis using 1(2) Some le(2) by auto
    next
      case 2
      then have "split_words cpts (offset # offsets) start = Some (Inl Invalid_codepoint)" using Some le(1) pr(1) by simp
      then show ?thesis using 2(2) d by auto
    qed
  qed
qed

section \<open>The byte encoding\<close>

lemma byte_encoding_spec:
  "\<forall>w\<in>set ws. \<exists>cs. cpts_to_utf8 cs = Some w \<Longrightarrow>
    \<exists>out. byte_encoding_process ws = Some out \<and> list_all2 (\<lambda>e w. decode_text e = Some w) out ws"
proof -
  assume ws: "\<forall>w\<in>set ws. \<exists>cs. cpts_to_utf8 cs = Some w"
  let ?g = "\<lambda>w. the (encode_word w)"
  have one: "encode_word w = Some (?g w) \<and> (decode_text (?g w) = Some w)" if "w \<in> set ws" for w
  proof -
    from ws that obtain cs where cs: "cpts_to_utf8 cs = Some w" by blast
    from decode_encode [OF cs] show ?thesis by (metis option.sel)
  qed
  then have "byte_encoding_process ws = Some (map ?g ws)"
    using foldM_snoc [of ws encode_word ?g "[]"] by (simp add: byte_encoding_process_def)
  moreover have "list_all2 (\<lambda>e w. decode_text e = Some w) (map ?g ws) ws"
    using one by (simp add: list_all2_conv_all_nth)
  ultimately show ?thesis by blast
qed

definition words_of :: "bool \<Rightarrow> byte list list \<Rightarrow> byte list list \<Rightarrow> bool" where
  \<comment> \<open>the output stands for the words\<close>
  "words_of b out ws \<longleftrightarrow> (if b then list_all2 (\<lambda>e w. decode_text e = Some w) out ws else out = ws)"

lemma finish_words:
  assumes "sum_list offsets = length cpts"
  shows "(\<exists>out ws. split_words cpts offsets 0 = Some (Inr ws) \<and>
      (if b then map_option Inr (byte_encoding_process ws) else Some (Inr ws)) = Some (Inr out :: split_error + byte list list) \<and>
      words_of b out ws \<and> cpts_to_utf8 cpts = Some (concat ws) \<and> (0 \<notin> set offsets \<longrightarrow> [] \<notin> set ws)) \<or>
    split_words cpts offsets 0 = Some (Inl Invalid_codepoint) \<and> (\<exists>c\<in>set cpts. c > 0x10ffff)"
proof -
  from split_words_spec [of 0 offsets cpts] assms consider
      ws where "split_words cpts offsets 0 = Some (Inr ws)" "list_all2 (\<lambda>n w. \<exists>cs. length cs = n \<and> cpts_to_utf8 cs = Some w) offsets ws"
        "cpts_to_utf8 cpts = Some (concat ws)"
    | "split_words cpts offsets 0 = Some (Inl Invalid_codepoint)" "\<exists>c\<in>set cpts. c > 0x10ffff" by auto
  then show ?thesis
  proof cases
    case 1
    have "\<forall>w\<in>set ws. \<exists>cs. cpts_to_utf8 cs = Some w" 
    proof
      fix w assume "w \<in> set ws"
      then obtain i where "i < length ws" "ws ! i = w" by (auto simp: in_set_conv_nth)
      then show "\<exists>cs. cpts_to_utf8 cs = Some w" using list_all2_nthD2 [OF 1(2)] by blast
    qed
    from byte_encoding_spec [OF this] obtain out where "byte_encoding_process ws = Some out" "words_of True out ws" by (auto simp: words_of_def)
    then have "\<exists>out. (if b then map_option Inr (byte_encoding_process ws) else Some (Inr ws)) = Some (Inr out :: split_error + byte list list) \<and> words_of b out ws"
      by (cases b) (simp_all add: words_of_def)
    moreover have "[] \<notin> set ws" if "0 \<notin> set offsets"
    proof
      assume "[] \<in> set ws"
      then obtain i where i: "i < length ws" "ws ! i = []" by (auto simp: in_set_conv_nth)
      with 1(2) obtain cs where cs: "length cs = offsets ! i" "cpts_to_utf8 cs = Some []" "i < length offsets" by (auto simp: list_all2_conv_all_nth)
      then have "cs = []" using cpts_from_to [OF cs(2)] by (simp add: cpts_from_utf8_def cpts_loop.simps)
      then show False using cs that by (metis list.size(3) nth_mem)
    qed
    ultimately show ?thesis using 1(1,3) by blast
  next
    case 2
    then show ?thesis by simp
  qed
qed

section \<open>A library and a table for examples\<close>

text \<open>The library that finds the single spaces, and the flags of ASCII.\<close>

fun spaces_from :: "nat \<Rightarrow> 'a :: len word list \<Rightarrow> (nat \<times> nat) list" where
  "spaces_from p [] = []"
| "spaces_from p (c # cs) = (if c = 0x20 then [(p, 1)] else []) @ spaces_from (p + 1) cs"

definition space_lib :: "'a :: len word regex_lib" where
  "space_lib = \<lparr>rx_valid = \<lambda>_. True, rx_matches = \<lambda>_ s. Some (spaces_from 0 s)\<rparr>"

lemma space_lib_ok: "regex_ok (space_lib :: 'b :: len word regex_lib)"
proof -
  have "a \<le> p \<Longrightarrow> in_order a (p + length s) (spaces_from p s)" for a p and s :: "'b :: len word list"
  proof (induction s arbitrary: a p)
    case (Cons c s)
    then show ?case using Cons.IH [of _ "p + 1"] by simp
  qed simp
  from this [of 0 0] show ?thesis by (simp add: regex_ok_def space_lib_def)
qed

definition ascii_db :: unicode_db where
  "ascii_db = \<lparr>db_flags = (\<lambda>c. if 0x61 \<le> c \<and> c \<le> 0x7A \<or> 0x41 \<le> c \<and> c \<le> 0x5A then LETTER else if 0x30 \<le> c \<and> c \<le> 0x39 then NUMBER
      else if c = 0x20 then WHITESPACE else PUNCTUATION), db_tolower = (\<lambda>c. c)\<rparr>"

section \<open>Properties\<close>

text \<open>C39. Pre-tokenization loses nothing: whatever expressions are given, with a library whose matches are in order, it either
  returns words that put together are the decoded text (and from whose byte encoding each word is read back), or
  throws: for a code point above U+10FFFF that the decoder let through, or another exception, which needs an expression
  without a custom pre-tokenizer or the empty text. With custom expressions no word of a text is empty.\<close>

theorem regex_split_lossless:
  assumes "regex_ok narrow" "regex_ok wide"
  shows "\<exists>cpts r. cpts_from_utf8 s = Some cpts \<and> regex_split narrow wide db s regexes b = Some r \<and>
    (case r of
       Inr out \<Rightarrow> (\<forall>c\<in>set cpts. c \<le> 0x10ffff) \<and> (\<exists>ws. words_of b out ws \<and> cpts_to_utf8 cpts = Some (concat ws) \<and>
         (cpts \<noteq> [] \<and> list_all has_custom regexes \<longrightarrow> [] \<notin> set ws))
     | Inl e \<Rightarrow> if e = Invalid_codepoint then \<exists>c\<in>set cpts. c > 0x10ffff else cpts = [] \<or> \<not> list_all has_custom regexes)"
proof -
  obtain cpts where cpts: "cpts_from_utf8 s = Some cpts" using cpts_loop_total [of s 0 "[]"] by (auto simp: cpts_from_utf8_def)
  define tc where "tc = (if list_ex uses_category regexes then map (collapse_cpt db) cpts else [])"
  let ?res = "regex_passes (regex_pass narrow wide db s cpts tc) regexes [length cpts]"
  have "kept (length cpts) ?res"
    using regex_passes_kept [OF cpts assms, of "[length cpts]" regexes tc db] by (auto simp: tc_def list_ex_iff)
  then obtain x where "?res = Some x" "case x of Inl e \<Rightarrow> e \<noteq> Invalid_codepoint | Inr offs \<Rightarrow> sum_list offs = length cpts"
    by (auto simp: kept_def)
  then consider e where "?res = Some (Inl e)" "e \<noteq> Invalid_codepoint" | offs where "?res = Some (Inr offs)" "sum_list offs = length cpts"
    by (cases x) auto
  then show ?thesis
  proof cases
    case 1
    have "cpts = [] \<or> \<not> list_all has_custom regexes"
      using custom_passes_kept [OF cpts, of regexes "[length cpts]" narrow wide db tc] 1(1) by (auto simp: list_all_iff)
    moreover have "regex_split narrow wide db s regexes b = Some (Inl e)" using cpts 1(1) by (simp add: regex_split_def Let_def tc_def)
    ultimately show ?thesis using cpts 1(2) by (intro exI [of _ cpts] exI [of _ "Inl e"]) simp
  next
    case 2
    have pos: "0 \<notin> set offs" if "cpts \<noteq> []" "list_all has_custom regexes"
      using custom_passes_kept [OF cpts, of regexes "[length cpts]" narrow wide db tc] 2(1) that by (auto simp: list_all_iff)
    have run: "regex_split narrow wide db s regexes b = Option.bind (split_words cpts offs 0)
        (\<lambda>words. case words of Inl e \<Rightarrow> Some (Inl e) | Inr ws \<Rightarrow> (if b then map_option Inr (byte_encoding_process ws) else Some (Inr ws)))"
      using cpts 2(1) by (simp add: regex_split_def Let_def tc_def)
    from finish_words [OF 2(2), of b] consider
        out ws where "split_words cpts offs 0 = Some (Inr ws)"
          "(if b then map_option Inr (byte_encoding_process ws) else Some (Inr ws)) = Some (Inr out :: split_error + byte list list)"
          "words_of b out ws" "cpts_to_utf8 cpts = Some (concat ws)" "0 \<notin> set offs \<longrightarrow> [] \<notin> set ws"
      | "split_words cpts offs 0 = Some (Inl Invalid_codepoint)" "\<exists>c\<in>set cpts. c > 0x10ffff" by blast
    then show ?thesis
    proof cases
      case 1
      have "regex_split narrow wide db s regexes b = Some (Inr out)" using run 1(1,2) by simp
      moreover have "\<forall>c\<in>set cpts. c \<le> 0x10ffff" using 1(4) cpts_to_utf8_None [of cpts] by (metis not_le option.distinct(1))
      ultimately show ?thesis using cpts 1(3-5) pos by (intro exI [of _ cpts] exI [of _ "Inr out"]) auto
    next
      case 2
      then show ?thesis using cpts run by (intro exI [of _ cpts] exI [of _ "Inl Invalid_codepoint"]) simp
    qed
  qed
qed

lemma regex_split_lossless_witness:
  "regex_split space_lib space_lib ascii_db [97, 32, 49, 50] [[32], RE_LLAMA3] False = Some (Inr [[97], [32], [49, 50]]) \<and>
    (\<exists>cpts r. cpts_from_utf8 [97, 32, 49, 50] = Some cpts \<and> regex_split space_lib space_lib ascii_db [97, 32, 49, 50] [[32], RE_LLAMA3] False = Some r \<and>
      (case r of
         Inr out \<Rightarrow> (\<forall>c\<in>set cpts. c \<le> 0x10ffff) \<and> (\<exists>ws. words_of False out ws \<and> cpts_to_utf8 cpts = Some (concat ws) \<and>
           (cpts \<noteq> [] \<and> list_all has_custom [[32], RE_LLAMA3] \<longrightarrow> [] \<notin> set ws))
       | Inl e \<Rightarrow> if e = Invalid_codepoint then \<exists>c\<in>set cpts. c > 0x10ffff else cpts = [] \<or> \<not> list_all has_custom [[32], RE_LLAMA3]))"
proof
  show "regex_split space_lib space_lib ascii_db [97, 32, 49, 50] [[32], RE_LLAMA3] False = Some (Inr [[97], [32], [49, 50]])" by code_simp
qed (rule regex_split_lossless [OF space_lib_ok space_lib_ok])

text \<open>C12. With custom expressions only, pre-tokenization of a valid text that is not empty returns, needs no regular
  expression library, and is undone by decoding the words and putting them together; no word is empty.\<close>

theorem pretokenize_roundtrip:
  assumes "cpts_to_utf8 cpts = Some s" "cpts \<noteq> []" "list_all has_custom regexes"
  shows "\<exists>out ws. regex_split narrow wide db s regexes True = Some (Inr out) \<and>
    map decode_text out = map Some ws \<and> concat ws = s \<and> [] \<notin> set ws"
proof -
  have cpts: "cpts_from_utf8 s = Some cpts" by (rule cpts_from_to [OF assms(1)])
  define tc where "tc = (if list_ex uses_category regexes then map (collapse_cpt db) cpts else [])"
  from custom_passes_kept [OF cpts assms(2), of regexes "[length cpts]" narrow wide db tc] assms(2,3) obtain offs where
    offs: "regex_passes (regex_pass narrow wide db s cpts tc) regexes [length cpts] = Some (Inr offs)" "sum_list offs = length cpts" "0 \<notin> set offs"
    by (auto simp: list_all_iff)
  have "\<not> (\<exists>c\<in>set cpts. c > 0x10ffff)" using cpts_to_utf8_None [of cpts] assms(1) by simp
  with finish_words [OF offs(2), of True] obtain out ws where
    w: "split_words cpts offs 0 = Some (Inr ws)" "map_option Inr (byte_encoding_process ws) = Some (Inr out :: split_error + byte list list)"
      "words_of True out ws" "cpts_to_utf8 cpts = Some (concat ws)" "[] \<notin> set ws" using offs(3) by auto
  have "regex_split narrow wide db s regexes True = Some (Inr out)"
    using cpts offs(1) w(1,2) by (simp add: regex_split_def Let_def tc_def)
  moreover have "map decode_text out = map Some ws"
    using w(3) by (auto simp: words_of_def list_all2_conv_all_nth intro: nth_equalityI)
  ultimately show ?thesis using w(4,5) assms(1) by auto
qed

lemma pretokenize_roundtrip_witness:
  "cpts_to_utf8 [97, 0x20AC, 32, 49, 50, 51, 52] = Some [97, 0xE2, 0x82, 0xAC, 32, 49, 50, 51, 52] \<and>
    (\<exists>out ws. regex_split space_lib space_lib ascii_db [97, 0xE2, 0x82, 0xAC, 32, 49, 50, 51, 52] [RE_AFMOE_DIGITS, RE_LLAMA3] True = Some (Inr out) \<and>
      map decode_text out = map Some ws \<and> concat ws = [97, 0xE2, 0x82, 0xAC, 32, 49, 50, 51, 52] \<and> [] \<notin> set ws)"
proof
  show e: "cpts_to_utf8 [97, 0x20AC, 32, 49, 50, 51, 52] = Some [97, 0xE2, 0x82, 0xAC, 32, 49, 50, 51, 52]" by code_simp
  show "\<exists>out ws. regex_split space_lib space_lib ascii_db [97, 0xE2, 0x82, 0xAC, 32, 49, 50, 51, 52] [RE_AFMOE_DIGITS, RE_LLAMA3] True = Some (Inr out) \<and>
      map decode_text out = map Some ws \<and> concat ws = [97, 0xE2, 0x82, 0xAC, 32, 49, 50, 51, 52] \<and> [] \<notin> set ws"
    by (rule pretokenize_roundtrip [OF e]) (simp_all add: has_custom_def)
qed

text \<open>
  The digit pre-tokenizer of AFMoE does not isolate the digits: the text before them is put into their first group,
  because the end of the last token is not moved over it.
\<close>

lemma afmoe_glues_text:
  "split_offsets afmoe_segment ascii_db [97, 98, 99, 49, 50, 51, 52] [7] = Some [4, 3]"
  "split_offsets afmoe_segment ascii_db [97, 98, 99, 49, 50, 51] [6] = Some [6]"
  by code_simp+

text \<open>The pre-tokenizer of Kimi K2 does not cut a word where a capital follows a small letter, as its pattern does.\<close>

lemma kimi_keeps_capitals: "split_offsets (split_segment kimi_step) ascii_db [72, 105, 72, 111] [4] = Some [4]"
  by code_simp

end
