(* ===== verification/Spec2Isabelle.thy ===== *)
theory Spec2Isabelle
  imports BatchCache KvMaskProps KvStateProps AccessPolicy GrammarOutput GrammarChars GrammarUtf8 GbnfProps GbnfRepeat RegexProps
begin

text \<open>
  A verification development for the inference server of this repository: the C++ under \<open>src/llama-server/\<close>, a
  fork of llama.cpp with an access policy of its own. Modelled are the parts whose correctness is not numerical:
  who may use the server, how a batch of tokens is cut and placed in the KV cache, which tokens a grammar lets
  through, and how a text becomes words before it is tokenized. Paths below are relative to \<open>src/llama-server/\<close>.

  How the parts interact. A request passes \<open>server_http_context\<close>, whose pre-routing handler asks
  \<open>openloader_access_control\<close>. Its text is cut by \<open>unicode_regex_split\<close> and tokenized. The tokens form a batch, which
  \<open>llama_batch_allocr::init\<close> checks and completes; \<open>llama_kv_cache::init_batch\<close> lets the allocator cut it into
  micro-batches and searches a slot for each one, with \<open>llama_kv_cells\<close> as the bookkeeping of one stream;
  \<open>apply_ubatch\<close> then writes the tokens into the slot and the graph reads the row indices and the attention mask. The sampler asks the
  grammar to mask the logits and tells it the sampled token.

  Conventions (\<open>Prelude\<close>). A run that stops at a failed assertion, at an access out of range or at an operation
  without a defined result is \<open>None\<close>; an exception the code throws is \<open>None\<close> too where nothing tells them apart, and a
  value (\<open>Inl\<close>, \<open>Some None\<close>) where the code or a property does. A loop over a range is \<open>foldM\<close>. A loop whose end
  is not evident is \<open>partial_function (option)\<close>, and a theorem says that it ends. Every theorem about a run says
  that the run returns, not only what holds if it does. Positions are \<open>int\<close> with the range of \<open>int32_t\<close> checked;
  words are kept at their width where they wrap or are masked; sizes and indices are \<open>nat\<close>.

  The access policy.
  \<open>AccessControl\<close> models \<open>tools/server/openloader-access-control.cpp\<close> and the pre-routing handler of
  \<open>tools/server/server-http.cpp\<close>: \<open>wildcard_match\<close>, \<open>matches_cidr\<close>, \<open>constant_time_equal\<close>, \<open>load\<close>, \<open>refresh\<close>,
  \<open>authorize\<close>, \<open>pre_routing\<close>. The state of the object is the snapshot in force, the time of its check and the last
  error. The parameter \<open>platform\<close> stands for \<open>inet_pton\<close>, SHA-256, the JSON parser and the conversion of a
  double out of range to \<open>int\<close>, which C++ leaves undefined; what the policy file holds is an argument of each call.
  \<open>AccessMatching\<close>: the matching loops agree with declarative definitions. \<open>AccessPolicy\<close>: what every reachable
  object satisfies, what it decides, how old its snapshot can be, and what reaches a route.

  The cells of the cache.
  \<open>OrdMap\<close> models \<open>std::map\<close> and states the interface \<open>ordered_map\<close>. \<open>KvCells\<close> models every method of
  \<open>src/llama-kv-cells.h\<close>: the record has the vectors \<open>pos\<close>, \<open>ext\<close>, \<open>shift\<close>, \<open>seq\<close>, \<open>token\<close>, the set \<open>used\<close> and the
  counters \<open>seq_pos\<close>; the invariant \<open>kv_inv\<close> ties the redundant fields to the cells, and each method refines a
  pointwise change of the contents.

  Batches.
  \<open>UBatch\<close> is \<open>llama_ubatch\<close>. \<open>Batch\<close> models \<open>llama_batch_allocr\<close> of \<open>src/llama-batch.cpp\<close>. \<open>BatchSplit\<close>,
  \<open>BatchEqual\<close>, \<open>BatchPartition\<close> and \<open>BatchSeq\<close>: the three splits implement one interface, so that the loop of the
  callers ends with every token in exactly one micro-batch. \<open>BatchInit\<close> and \<open>BatchChecks\<close>: what \<open>init\<close>
  accepts. \<open>BatchProps\<close> collects the properties.

  The cache.
  \<open>KvCache\<close> models \<open>src/llama-kv-cache.cpp\<close>: one \<open>llama_kv_cells\<close> and one head per stream, the sequence operations,
  \<open>find_slot\<close>, \<open>apply_ubatch\<close>, \<open>prepare\<close>, \<open>init_batch\<close>, \<open>get_n_kv\<close> and the index inputs of the graph. \<open>KvCacheOps\<close>: the
  sequence operations refine their specification. \<open>KvSlots\<close>: the search for a slot is complete. \<open>KvPlace\<close>,
  \<open>KvPrepare\<close>: placing tokens, and trying all micro-batches and undoing them. \<open>KvMachine\<close>: reachable caches.
  \<open>KvPositions\<close>, \<open>KvCacheProps\<close>: the properties. \<open>BatchCache\<close>: allocator and cache together, in \<open>init_batch\<close>.
  \<open>KvMask\<close> models \<open>set_input_kq_mask\<close>, which decides what a token attends to; the template parameters are fields of
  its arguments. \<open>KvMaskRows\<close>: its reuse of rows does not show. \<open>KvMaskProps\<close>: the mask is that of a reference
  definition, and what a token attends to after its micro-batch went through the cache.

  Saved caches.
  \<open>KvState\<close> models \<open>state_write\<close> and \<open>state_read\<close>, with the tensors as byte lists and a file as the bytes the file classes of
  \<open>src/llama-context.cpp\<close> write. \<open>KvStateMeta\<close>: numbers and cells are read back as written (interface \<open>codec\<close>), and
  the ranges hold the cells to save. \<open>KvStateData\<close>: the rows of the tensors, contiguous or scattered, transposed or
  not. \<open>KvStateWhole\<close>, \<open>KvStateProps\<close>: a saved cache is restored, and two states that are not. The restore of one
  sequence is modelled; of it only what an empty state does is proved.

  The grammar.
  \<open>Grammar\<close> models the engine of \<open>src/llama-grammar.cpp\<close>. \<open>GrammarWf\<close>: well-formed rules. \<open>GrammarStep\<close>: the
  expansion of stacks as a step relation, and its termination. \<open>GrammarLang\<close>: the language of the rules, and what a
  stack can still generate. \<open>GrammarLeft\<close>: the search for left recursion. \<open>GrammarReject\<close>, \<open>GrammarRun\<close>: rejecting
  candidates and accepting tokens. \<open>GrammarOutput\<close>, \<open>GrammarProps\<close>, \<open>GrammarChars\<close>, \<open>GrammarUtf8\<close>: the properties. The
  recursion of \<open>reject_candidates\<close> has as fuel two more than the number of code points of the longest candidate
  (each level consumes one), that of the search for left recursion one more than the number of rules (a path without
  repetition is no longer); the theorems are about these values.

  \<open>GrammarParse\<close> models \<open>llama_grammar_parser\<close>, the parser of GBNF texts, and the constructor from a text. Its three
  mutually recursive functions have as fuel twice the length of the text and two: a call or a round of a loop
  consumes a character, or is the first of an alternate. \<open>GbnfWf\<close> shows with one induction that this suffices and
  that the rules are well-formed; \<open>GbnfProps\<close> puts parser and engine together. \<open>GbnfRepeat\<close>:
  what the parser puts in place of a repeated item generates the repetitions of its words.

  Texts.
  \<open>Utf8\<close>, \<open>ByteMap\<close> and \<open>Unicode\<close> model \<open>src/unicode.cpp\<close>: UTF-8, the byte encoding of tokens with
  \<open>llama_decode_text\<close>, and the flags of code points (the generated tables are the record \<open>unicode_tables\<close>).
  \<open>Splitters\<close> models the custom pre-tokenizers, with one step function per pre-tokenizer. \<open>SplitLoops\<close> states the
  interfaces \<open>stepper\<close> and \<open>segmenter\<close>, and \<open>SplitSteps\<close> shows that every pre-tokenizer implements them.
  \<open>RegexSplit\<close> models the dispatch, the fallback to \<open>std::regex\<close> and the words; \<open>RegexProps\<close> says that nothing of
  a text is lost. The flags a pre-tokenizer reads are any function (record \<open>unicode_db\<close>), so the theorems hold for
  the generated tables.

  Not modelled.
  The tensor library (\<open>ggml\<close>), the graphs, the loading of weights, the samplers' arithmetic and the encoders of
  \<open>mtmd\<close> compute with floating-point tensors on devices. The caches for recurrent and hybrid models and the copies
  of tensors between streams keep numerical states. Chat templates, JSON schemas and argument parsing (\<open>common/\<close>) are
  upstream support code. The server's task queue, its slots and its HTTP library work with threads and
  condition variables. The merge loops of the tokenizers work on the vocabulary of a model file. The launcher is Go,
  the MLX runtime Swift.
  The printing of grammars and logging are left out as well.
\<close>

end
